(* ===== verification/Prelude.thy ===== *)
theory Prelude
  imports Complex_Main "HOL-Library.Word"
begin

section \<open>Shared vocabulary of the development\<close>

text \<open>
  This theory fixes the types every component uses and the fragment of Rust's standard library
  that the sources rely on: fixed-width integers, checked and saturating \<open>usize\<close> arithmetic,
  \<open>Vec\<close> as a list with \<open>push\<close>/\<open>pop\<close> at its end, slices, little-endian byte encodings and
  panics. \<open>usize\<close> is a natural number (a 64-bit target): operations that can leave the
  64-bit range are the checked ones, whose bound is written out. The named collections hold the
  facts that carry the component proofs.
\<close>

named_theorems rust_defs "definitions of the modelled fragment of the Rust library"
named_theorems vec_simps "equations on vectors, slices and byte strings"

type_synonym u8 = "8 word"
type_synonym u16 = "16 word"
type_synonym u32 = "32 word"
type_synonym u64 = "64 word"
type_synonym usize = nat

text \<open>A computation that may panic (a failed \<open>assert!\<close>, \<open>expect\<close> or index).\<close>

datatype 'a outcome = Panic | Return (returned: 'a)

fun obind :: "'a outcome \<Rightarrow> ('a \<Rightarrow> 'b outcome) \<Rightarrow> 'b outcome" where
  "obind Panic f = Panic"
| "obind (Return a) f = f a"

lemma obind_Return_iff:
  "obind m f = Return b \<longleftrightarrow> (\<exists>a. m = Return a \<and> f a = Return b)"
  by (cases m) auto

lemma obind_Panic_iff:
  "obind m f = Panic \<longleftrightarrow> m = Panic \<or> (\<exists>a. m = Return a \<and> f a = Panic)"
  by (cases m) auto

text \<open>A computation that returns a \<open>Result\<close>: \<open>?\<close> is \<open>ebind\<close>, \<open>ok_or\<close> turns an \<open>Option\<close> into one.\<close>

fun ebind :: "'e + 'a \<Rightarrow> ('a \<Rightarrow> 'e + 'b) \<Rightarrow> 'e + 'b" where
  "ebind (Inl e) f = Inl e"
| "ebind (Inr a) f = f a"

fun ok_or :: "'e \<Rightarrow> 'a option \<Rightarrow> 'e + 'a" where
  "ok_or e None = Inl e"
| "ok_or e (Some a) = Inr a"

lemma ebind_Inr_iff: "ebind m f = Inr b \<longleftrightarrow> (\<exists>a. m = Inr a \<and> f a = Inr b)"
  by (cases m) auto

lemma ebind_Inl_iff: "ebind m f = Inl e \<longleftrightarrow> m = Inl e \<or> (\<exists>a. m = Inr a \<and> f a = Inl e)"
  by (cases m) auto

lemma ok_or_Inr_iff: "ok_or e m = Inr a \<longleftrightarrow> m = Some a"
  by (cases m) auto

lemma ok_or_Inl_iff: "ok_or e m = Inl e' \<longleftrightarrow> m = None \<and> e' = e"
  by (cases m) auto

lemmas res_iff = ebind_Inr_iff ebind_Inl_iff ok_or_Inr_iff ok_or_Inl_iff

text \<open>A computation that may also run forever (\<open>None\<close>).\<close>

fun lbind :: "'a outcome option \<Rightarrow> ('a \<Rightarrow> 'b outcome option) \<Rightarrow> 'b outcome option" where
  "lbind None f = None"
| "lbind (Some Panic) f = Some Panic"
| "lbind (Some (Return a)) f = f a"

subsection \<open>Integer arithmetic at its width\<close>

definition usize_MAX :: usize where
  "usize_MAX = 2 ^ 64 - 1"

definition checked_add :: "usize \<Rightarrow> usize \<Rightarrow> usize option" where
  [rust_defs]: "checked_add a b = (if a + b \<le> usize_MAX then Some (a + b) else None)"

definition checked_mul :: "usize \<Rightarrow> usize \<Rightarrow> usize option" where
  [rust_defs]: "checked_mul a b = (if a * b \<le> usize_MAX then Some (a * b) else None)"

definition saturating_add :: "usize \<Rightarrow> usize \<Rightarrow> usize" where
  [rust_defs]: "saturating_add a b = min (a + b) usize_MAX"

definition saturating_sub :: "usize \<Rightarrow> usize \<Rightarrow> usize" where
  [rust_defs]: "saturating_sub a b = (if a < b then 0 else a - b)"

definition checked_add_u64 :: "u64 \<Rightarrow> u64 \<Rightarrow> u64 option" where
  [rust_defs]: "checked_add_u64 a b = (if unat a + unat b < 2 ^ 64 then Some (a + b) else None)"

lemma checked_add_Some: "checked_add a b = Some c \<longleftrightarrow> c = a + b \<and> a + b \<le> usize_MAX"
  by (auto simp: checked_add_def)

lemma checked_mul_Some: "checked_mul a b = Some c \<longleftrightarrow> c = a * b \<and> a * b \<le> usize_MAX"
  by (auto simp: checked_mul_def)

lemma checked_add_u64_Some:
  "checked_add_u64 a b = Some c \<Longrightarrow> unat c = unat a + unat b"
  by (auto simp: checked_add_u64_def unat_word_ariths split: if_splits)

lemma unat_bound: "unat (w :: 'a::len word) < 2 ^ LENGTH('a)"
  by (rule unsigned_less)

lemma saturating_sub_eq [simp]: "saturating_sub a b = a - b"
  by (simp add: saturating_sub_def)

subsection \<open>Vectors and slices\<close>

definition vec_pop :: "'a list \<Rightarrow> ('a \<times> 'a list) option" where
  "vec_pop xs = (if xs = [] then None else Some (last xs, butlast xs))"

definition vec_push :: "'a list \<Rightarrow> 'a \<Rightarrow> 'a list" where
  [vec_simps]: "vec_push xs x = xs @ [x]"

definition vec_resize :: "'a list \<Rightarrow> nat \<Rightarrow> 'a \<Rightarrow> 'a list" where
  "vec_resize xs n x = take n xs @ replicate (n - length xs) x"

definition subslice :: "'a list \<Rightarrow> nat \<Rightarrow> nat \<Rightarrow> 'a list" where
  "subslice xs off len = take len (drop off xs)"

definition subslice_write :: "'a list \<Rightarrow> nat \<Rightarrow> 'a list \<Rightarrow> 'a list" where
  "subslice_write xs off ys = take off xs @ ys @ drop (off + length ys) xs"

lemma vec_pop_None [simp]: "vec_pop xs = None \<longleftrightarrow> xs = []"
  by (simp add: vec_pop_def)

lemma vec_pop_simps [simp]: "vec_pop [] = None" "vec_pop (xs @ [x]) = Some (x, xs)"
  by (simp_all add: vec_pop_def)

lemma vec_pop_Some: "vec_pop xs = Some (x, ys) \<longleftrightarrow> xs = ys @ [x]"
  by (auto simp: vec_pop_def)

lemma vec_pop_push [simp]: "vec_pop (vec_push xs x) = Some (x, xs)"
  by (simp add: vec_pop_def vec_push_def)

lemma vec_resize_grow: "length xs \<le> n \<Longrightarrow> vec_resize xs n x = xs @ replicate (n - length xs) x"
  by (simp add: vec_resize_def)

lemma length_vec_resize [simp]: "length (vec_resize xs n x) = n"
  by (simp add: vec_resize_def)

lemma length_slice [simp]: "length (subslice xs off len) = min len (length xs - off)"
  by (simp add: subslice_def min.commute)

lemma length_slice_write [simp]:
  "off + length ys \<le> length xs \<Longrightarrow> length (subslice_write xs off ys) = length xs"
  by (simp add: subslice_write_def)

lemma slice_write_same [simp]:
  "off \<le> length xs \<Longrightarrow> subslice (subslice_write xs off ys) off (length ys) = ys"
  by (simp add: subslice_def subslice_write_def)

lemma slice_write_below:
  assumes "a + n \<le> off" "off \<le> length xs"
  shows "subslice (subslice_write xs off ys) a n = subslice xs a n"
proof -
  have "subslice (subslice_write xs off ys) a n = take n (drop a (take off xs))"
    using assms by (simp add: subslice_def subslice_write_def)
  also have "\<dots> = take n (take (off - a) (drop a xs))"
    by (simp add: drop_take)
  also have "\<dots> = subslice xs a n"
    using assms by (simp add: subslice_def min_absorb1)
  finally show ?thesis .
qed

lemma slice_write_above:
  assumes "off + length ys \<le> a" "off + length ys \<le> length xs"
  shows "subslice (subslice_write xs off ys) a n = subslice xs a n"
proof -
  have "drop a (subslice_write xs off ys) = drop (a - (off + length ys)) (drop (off + length ys) xs)"
    using assms by (simp add: subslice_write_def min_absorb2)
  also have "\<dots> = drop a xs"
    using assms by simp
  finally show ?thesis by (simp add: subslice_def)
qed

lemma slice_write_disjoint:
  assumes "a + n \<le> off \<or> off + length ys \<le> a" "off + length ys \<le> length xs"
  shows "subslice (subslice_write xs off ys) a n = subslice xs a n"
  using assms by (auto intro: slice_write_below slice_write_above)

lemma slice_append_left: "a + n \<le> length xs \<Longrightarrow> subslice (xs @ ys) a n = subslice xs a n"
  by (simp add: subslice_def)

lemma slice_write_hit:
  "n = length ys \<Longrightarrow> off \<le> length xs \<Longrightarrow> subslice (subslice_write xs off ys) off n = ys"
  by simp

lemma nth_slice_write_hit: "off < length xs \<Longrightarrow> subslice_write xs off [b] ! off = b"
  by (simp add: subslice_write_def nth_append)

lemma nth_slice_write_miss:
  "i < off \<or> off + length ys \<le> i \<Longrightarrow> off + length ys \<le> length xs \<Longrightarrow>
    subslice_write xs off ys ! i = xs ! i"
  by (auto simp: subslice_write_def nth_append)

lemma put_next:
  "off = length pre \<Longrightarrow> length ys \<le> n \<Longrightarrow>
    subslice_write (pre @ replicate n z) off ys = (pre @ ys) @ replicate (n - length ys) z"
  by (simp add: subslice_write_def drop_replicate)

lemma put_first:
  "length ys \<le> n \<Longrightarrow> subslice_write (replicate n z) 0 ys = ys @ replicate (n - length ys) z"
  using put_next [of 0 "[]" ys n z] by simp

lemma slice_skip: "length xs \<le> a \<Longrightarrow> subslice (xs @ ys) a n = subslice ys (a - length xs) n"
  by (simp add: subslice_def)

lemma slice_hit: "n = length xs \<Longrightarrow> subslice (xs @ ys) 0 n = xs"
  by (simp add: subslice_def)

lemma slice_split: "subslice xs a (m + n) = subslice xs a m @ subslice xs (a + m) n"
  by (simp add: subslice_def take_add add.commute)

lemma nth_slice: "i < length xs \<Longrightarrow> subslice xs i 1 = [xs ! i]"
  by (simp add: subslice_def take_Suc_conv_app_nth hd_drop_conv_nth take_Suc)

text \<open>\<open>HashMap::insert\<close> on a map kept as a list of pairs in some iteration order.\<close>

definition map_insert :: "('k \<times> 'v) list \<Rightarrow> 'k \<Rightarrow> 'v \<Rightarrow> ('k \<times> 'v) list" where
  [rust_defs]: "map_insert es k v = (k, v) # filter (\<lambda>e. fst e \<noteq> k) es"

subsection \<open>Little-endian encodings\<close>

fun le_bytes :: "nat \<Rightarrow> nat \<Rightarrow> u8 list" where
  "le_bytes 0 x = []"
| "le_bytes (Suc n) x = of_nat (x mod 256) # le_bytes n (x div 256)"

fun le_value :: "u8 list \<Rightarrow> nat" where
  "le_value [] = 0"
| "le_value (b # bs) = unat b + 256 * le_value bs"

lemma length_le_bytes [simp]: "length (le_bytes n x) = n"
  by (induction n arbitrary: x) auto

lemma unat_byte_of_nat: "unat (of_nat (x mod 256) :: u8) = x mod 256"
  by (simp add: unat_of_nat)

lemma le_value_le_bytes: "le_value (le_bytes n x) = x mod 256 ^ n"
proof (induction n arbitrary: x)
  case (Suc n)
  have "le_value (le_bytes (Suc n) x) = x mod 256 + 256 * ((x div 256) mod 256 ^ n)"
    by (simp add: Suc unat_byte_of_nat del: of_nat_mod)
  also have "\<dots> = x mod (256 * 256 ^ n)"
    by (simp add: mod_mult2_eq)
  finally show ?case by simp
qed simp

lemma le_value_bound: "le_value bs < 256 ^ length bs"
proof (induction bs)
  case (Cons b bs)
  have "unat b < 256"
    using unat_bound [of b] by simp
  with Cons show ?case by simp
qed simp

lemma le_bytes_le_value: "le_bytes (length bs) (le_value bs) = bs"
proof (induction bs)
  case (Cons b bs)
  have "unat b < 256"
    using unat_bound [of b] by simp
  then have "(unat b + 256 * le_value bs) mod 256 = unat b"
    and "(unat b + 256 * le_value bs) div 256 = le_value bs"
    by simp_all
  with Cons show ?case by simp
qed simp

definition u16_to_le_bytes :: "u16 \<Rightarrow> u8 list" where
  [rust_defs]: "u16_to_le_bytes w = le_bytes 2 (unat w)"

definition u32_to_le_bytes :: "u32 \<Rightarrow> u8 list" where
  [rust_defs]: "u32_to_le_bytes w = le_bytes 4 (unat w)"

definition u64_to_le_bytes :: "u64 \<Rightarrow> u8 list" where
  [rust_defs]: "u64_to_le_bytes w = le_bytes 8 (unat w)"

definition u16_from_le_bytes :: "u8 list \<Rightarrow> u16" where
  [rust_defs]: "u16_from_le_bytes bs = of_nat (le_value bs)"

definition u32_from_le_bytes :: "u8 list \<Rightarrow> u32" where
  [rust_defs]: "u32_from_le_bytes bs = of_nat (le_value bs)"

definition u64_from_le_bytes :: "u8 list \<Rightarrow> u64" where
  [rust_defs]: "u64_from_le_bytes bs = of_nat (le_value bs)"

lemma length_to_le_bytes [simp]:
  "length (u16_to_le_bytes a) = 2" "length (u32_to_le_bytes b) = 4"
  "length (u64_to_le_bytes c) = 8"
  by (simp_all add: rust_defs)

lemma u16_roundtrip [simp]: "u16_from_le_bytes (u16_to_le_bytes w) = w"
proof -
  have "unat w mod 256 ^ 2 = unat w"
    using unat_bound [of w] by simp
  then show ?thesis by (simp add: rust_defs le_value_le_bytes)
qed

lemma u32_roundtrip [simp]: "u32_from_le_bytes (u32_to_le_bytes w) = w"
proof -
  have "unat w mod 256 ^ 4 = unat w"
    using unat_bound [of w] by simp
  then show ?thesis by (simp add: rust_defs le_value_le_bytes)
qed

lemma u64_roundtrip [simp]: "u64_from_le_bytes (u64_to_le_bytes w) = w"
proof -
  have "unat w mod 256 ^ 8 = unat w"
    using unat_bound [of w] by simp
  then show ?thesis by (simp add: rust_defs le_value_le_bytes)
qed

lemma u32_bytes_of_slice: "length bs = 4 \<Longrightarrow> u32_to_le_bytes (u32_from_le_bytes bs) = bs"
  using le_bytes_le_value [of bs] le_value_bound [of bs]
  by (simp add: rust_defs unat_of_nat)

lemma u16_bytes_of_slice: "length bs = 2 \<Longrightarrow> u16_to_le_bytes (u16_from_le_bytes bs) = bs"
  using le_bytes_le_value [of bs] le_value_bound [of bs]
  by (simp add: rust_defs unat_of_nat)

end
