(* ===== verification/WeightTypes.thy ===== *)
theory WeightTypes
  imports Prelude
begin

section \<open>Weight dtypes and expert sizes\<close>

text \<open>
  Model of \<open>WeightDtype\<close> and of the sizing functions of \<open>inference.rs\<close>: how many bytes one
  projection and one whole SwiGLU expert occupy on disk in each storage format. Every product
  in the code saturates, so an absurd shape yields \<open>usize::MAX\<close> and fails the later length
  checks; the lemmas show the saturated value is exact or the maximum, and relate the
  whole-expert size to the size of its three projections.
\<close>

datatype weight_dtype = F32 | F16 | Int8 | Q4K | Q4_0 | Q8_0 | Q5K | Q6K | BF16 | MXFP4 | Mixed

definition INT8_HEADER_BYTES :: usize where "INT8_HEADER_BYTES = 3 * 4"
definition Q4K_BLOCK_ELEMS :: usize where "Q4K_BLOCK_ELEMS = 256"
definition Q4K_BLOCK_BYTES :: usize where "Q4K_BLOCK_BYTES = 2 + 2 + 12 + 128"
definition Q5K_BLOCK_ELEMS :: usize where "Q5K_BLOCK_ELEMS = 256"
definition Q6K_BLOCK_ELEMS :: usize where "Q6K_BLOCK_ELEMS = 256"
definition Q5K_BLOCK_BYTES :: usize where "Q5K_BLOCK_BYTES = 2 + 2 + 12 + 32 + 128"
definition Q6K_BLOCK_BYTES :: usize where "Q6K_BLOCK_BYTES = 128 + 64 + 16 + 2"
definition Q4_0_BLOCK_ELEMS :: usize where "Q4_0_BLOCK_ELEMS = 32"
definition MXFP4_SCALE_BLOCK :: usize where "MXFP4_SCALE_BLOCK = 32"
definition Q4_0_BLOCK_BYTES :: usize where "Q4_0_BLOCK_BYTES = 2 + Q4_0_BLOCK_ELEMS div 2"
definition Q8_0_BLOCK_ELEMS :: usize where "Q8_0_BLOCK_ELEMS = 32"
definition Q8_0_BLOCK_BYTES :: usize where "Q8_0_BLOCK_BYTES = 2 + Q8_0_BLOCK_ELEMS"

lemmas block_consts =
  INT8_HEADER_BYTES_def Q4K_BLOCK_ELEMS_def Q4K_BLOCK_BYTES_def Q5K_BLOCK_ELEMS_def
  Q6K_BLOCK_ELEMS_def Q5K_BLOCK_BYTES_def Q6K_BLOCK_BYTES_def Q4_0_BLOCK_ELEMS_def
  MXFP4_SCALE_BLOCK_def Q4_0_BLOCK_BYTES_def Q8_0_BLOCK_ELEMS_def Q8_0_BLOCK_BYTES_def

fun bytes_per_weight :: "weight_dtype \<Rightarrow> usize" where
  "bytes_per_weight F32 = 4"
| "bytes_per_weight F16 = 2"
| "bytes_per_weight Int8 = 1"
| "bytes_per_weight Q4K = 1"
| "bytes_per_weight Q4_0 = 1"
| "bytes_per_weight Q8_0 = 2"
| "bytes_per_weight Q5K = 1"
| "bytes_per_weight Q6K = 1"
| "bytes_per_weight BF16 = 2"
| "bytes_per_weight MXFP4 = 1"
| "bytes_per_weight Mixed = 0"

definition header_bytes :: "weight_dtype \<Rightarrow> usize" where
  "header_bytes d = (if d = Int8 then INT8_HEADER_BYTES else 0)"

subsection \<open>Names used in metadata.json and on the command line\<close>

text \<open>
  \<open>str::trim\<close> and \<open>to_ascii_lowercase\<close> on strings of code points below 256: the Unicode
  white space of that range is 9 to 13, the blank, 0x85 and 0xA0.
\<close>

definition is_whitespace :: "char \<Rightarrow> bool" where
  "is_whitespace c = (let n = (of_char c :: nat) in 9 \<le> n \<and> n \<le> 13 \<or> n = 32 \<or> n = 133 \<or> n = 160)"

definition str_trim :: "string \<Rightarrow> string" where
  "str_trim s = rev (dropWhile is_whitespace (rev (dropWhile is_whitespace s)))"

definition ascii_lowercase :: "char \<Rightarrow> char" where
  "ascii_lowercase c = (let n = (of_char c :: nat) in if 65 \<le> n \<and> n \<le> 90 then char_of (n + 32) else c)"

definition dtype_names :: "(string \<times> weight_dtype) list" where
  "dtype_names = [(''f32'', F32), (''fp32'', F32),
     (''f16'', F16), (''fp16'', F16), (''half'', F16),
     (''i8'', Int8), (''int8'', Int8), (''q8'', Int8),
     (''q4k'', Q4K), (''q4_k'', Q4K), (''q4_k_m'', Q4K), (''q4km'', Q4K),
     (''q4_0'', Q4_0), (''q40'', Q4_0), (''q4'', Q4_0),
     (''q8_0'', Q8_0), (''q80'', Q8_0),
     (''q5k'', Q5K), (''q5_k'', Q5K), (''q6k'', Q6K), (''q6_k'', Q6K),
     (''bf16'', BF16), (''bfloat16'', BF16), (''mxfp4'', MXFP4), (''mx_fp4'', MXFP4),
     (''mixed'', Mixed)]"

definition from_str_opt :: "string \<Rightarrow> weight_dtype option" where
  "from_str_opt s = map_of dtype_names (map ascii_lowercase (str_trim s))"

fun as_str :: "weight_dtype \<Rightarrow> string" where
  "as_str F32 = ''f32''"
| "as_str F16 = ''f16''"
| "as_str Int8 = ''int8''"
| "as_str Q4K = ''q4k''"
| "as_str Q4_0 = ''q4_0''"
| "as_str Q8_0 = ''q8_0''"
| "as_str Q5K = ''q5k''"
| "as_str Q6K = ''q6k''"
| "as_str BF16 = ''bf16''"
| "as_str MXFP4 = ''mxfp4''"
| "as_str Mixed = ''mixed''"

subsection \<open>Expert sizes\<close>

definition saturating_mul :: "usize \<Rightarrow> usize \<Rightarrow> usize" where
  [rust_defs]: "saturating_mul a b = min (a * b) usize_MAX"

definition div_ceil :: "usize \<Rightarrow> usize \<Rightarrow> usize" where
  [rust_defs]: "div_ceil a b = a div b + (if 0 < a mod b then 1 else 0)"

definition expert_weight_count :: "usize \<Rightarrow> usize \<Rightarrow> usize" where
  "expert_weight_count d_model d_ff = saturating_mul (saturating_mul d_model d_ff) 3"

definition expert_weight_bytes :: "usize \<Rightarrow> usize \<Rightarrow> usize" where
  "expert_weight_bytes d_model d_ff = saturating_mul (expert_weight_count d_model d_ff) 4"

definition expert_weight_bytes_f16 :: "usize \<Rightarrow> usize \<Rightarrow> usize" where
  "expert_weight_bytes_f16 d_model d_ff = saturating_mul (expert_weight_count d_model d_ff) 2"

definition mxfp4_projection_bytes :: "usize \<Rightarrow> usize \<Rightarrow> usize" where
  "mxfp4_projection_bytes rows cols =
     saturating_add (saturating_mul rows (div_ceil cols 2))
       (saturating_mul rows (div_ceil cols MXFP4_SCALE_BLOCK))"

fun projection_weight_bytes_for :: "usize \<Rightarrow> weight_dtype \<Rightarrow> usize option" where
  "projection_weight_bytes_for n F32 = checked_mul n 4"
| "projection_weight_bytes_for n F16 = checked_mul n 2"
| "projection_weight_bytes_for n BF16 = checked_mul n 2"
| "projection_weight_bytes_for n Int8 = Some n"
| "projection_weight_bytes_for n Q4K = checked_mul (div_ceil n Q4K_BLOCK_ELEMS) Q4K_BLOCK_BYTES"
| "projection_weight_bytes_for n Q4_0 = checked_mul (div_ceil n Q4_0_BLOCK_ELEMS) Q4_0_BLOCK_BYTES"
| "projection_weight_bytes_for n Q8_0 = checked_mul (div_ceil n Q8_0_BLOCK_ELEMS) Q8_0_BLOCK_BYTES"
| "projection_weight_bytes_for n Q5K = checked_mul (div_ceil n Q5K_BLOCK_ELEMS) Q5K_BLOCK_BYTES"
| "projection_weight_bytes_for n Q6K = checked_mul (div_ceil n Q6K_BLOCK_ELEMS) Q6K_BLOCK_BYTES"
| "projection_weight_bytes_for n MXFP4 = None"
| "projection_weight_bytes_for n Mixed = None"

definition three_tensor_blocks :: "usize \<Rightarrow> usize \<Rightarrow> usize \<Rightarrow> usize \<Rightarrow> usize" where
  "three_tensor_blocks d_model d_ff elems bytes =
     (let one = saturating_mul d_model d_ff; one_blocks = div_ceil one elems;
          total_blocks = saturating_mul one_blocks 3
      in saturating_mul total_blocks bytes)"

fun expert_weight_bytes_for :: "usize \<Rightarrow> usize \<Rightarrow> weight_dtype \<Rightarrow> usize" where
  "expert_weight_bytes_for d_model d_ff Q4K =
     saturating_mul (div_ceil (expert_weight_count d_model d_ff) Q4K_BLOCK_ELEMS) Q4K_BLOCK_BYTES"
| "expert_weight_bytes_for d_model d_ff Q4_0 =
     three_tensor_blocks d_model d_ff Q4_0_BLOCK_ELEMS Q4_0_BLOCK_BYTES"
| "expert_weight_bytes_for d_model d_ff Q8_0 =
     three_tensor_blocks d_model d_ff Q8_0_BLOCK_ELEMS Q8_0_BLOCK_BYTES"
| "expert_weight_bytes_for d_model d_ff Q5K =
     three_tensor_blocks d_model d_ff Q5K_BLOCK_ELEMS Q5K_BLOCK_BYTES"
| "expert_weight_bytes_for d_model d_ff Q6K =
     three_tensor_blocks d_model d_ff Q6K_BLOCK_ELEMS Q6K_BLOCK_BYTES"
| "expert_weight_bytes_for d_model d_ff MXFP4 =
     (let gate = mxfp4_projection_bytes d_ff d_model; up = mxfp4_projection_bytes d_ff d_model;
          down = mxfp4_projection_bytes d_model d_ff
      in saturating_add (saturating_add gate up) down)"
| "expert_weight_bytes_for d_model d_ff Mixed = 0"
| "expert_weight_bytes_for d_model d_ff d =
     (let payload = saturating_mul (expert_weight_count d_model d_ff) (bytes_per_weight d)
      in saturating_add payload (header_bytes d))"

subsection \<open>Facts\<close>

lemma dtype_name_roundtrip: "from_str_opt (as_str d) = Some d"
  by (induction d; code_simp)

lemma saturating_mul_assoc:
  "saturating_mul (saturating_mul a b) c = (if c = 0 then 0 else min (a * b * c) usize_MAX)"
proof (cases "a * b \<le> usize_MAX \<or> c = 0")
  case False
  then have "1 \<le> c" "usize_MAX \<le> a * b" by simp_all
  then have "usize_MAX * 1 \<le> a * b * c" "usize_MAX * 1 \<le> usize_MAX * c"
    by (blast intro: mult_le_mono le_refl)+
  with False show ?thesis by (auto simp: saturating_mul_def min_def)
qed (auto simp: saturating_mul_def)

lemma expert_weight_count_eq: "expert_weight_count d f = min (3 * (d * f)) usize_MAX"
  by (simp add: expert_weight_count_def saturating_mul_assoc mult.commute)

lemma div_ceil_le: "div_ceil a b \<le> a"
proof (cases "b \<le> 1")
  case True
  then show ?thesis by (cases b) (auto simp: div_ceil_def)
next
  case False
  show ?thesis
  proof (cases "a mod b = 0")
    case False
    have "b * (a div b) + a mod b = a" by simp
    moreover have "a div b \<le> b * (a div b)" using \<open>\<not> b \<le> 1\<close> by simp
    ultimately have "Suc (a div b) \<le> a" using False by linarith
    then show ?thesis using False by (simp add: div_ceil_def)
  qed (simp add: div_ceil_def)
qed

lemma div_ceil_bounds:
  assumes "0 < b"
  shows "a \<le> div_ceil a b * b" "div_ceil a b * b < a + b"
proof -
  have e: "b * (a div b) + a mod b = a" by simp
  have m: "a mod b < b" using assms by simp
  show "a \<le> div_ceil a b * b"
  proof (cases "a mod b = 0")
    case False
    then have "div_ceil a b * b = b * (a div b) + b" by (simp add: div_ceil_def algebra_simps)
    with e m show ?thesis by linarith
  qed (use e in \<open>simp add: div_ceil_def mult.commute\<close>)
  show "div_ceil a b * b < a + b"
  proof (cases "a mod b = 0")
    case True
    then have "div_ceil a b * b = b * (a div b)" by (simp add: div_ceil_def)
    with e assms show ?thesis by linarith
  next
    case False
    then have "div_ceil a b * b = b * (a div b) + b" by (simp add: div_ceil_def algebra_simps)
    with e False show ?thesis by linarith
  qed
qed

lemma three_tensor_blocks_exact:
  assumes "d * f \<le> usize_MAX" "div_ceil (d * f) elems * bytes * 3 \<le> usize_MAX" "0 < bytes"
  shows "three_tensor_blocks d f elems bytes = 3 * (div_ceil (d * f) elems * bytes)"
  using assms
  by (simp add: three_tensor_blocks_def Let_def saturating_mul_assoc)
    (simp add: saturating_mul_def min_absorb1 mult.commute mult.left_commute)

lemma expert_bytes_exact:
  assumes "projection_weight_bytes_for (d * f) t = Some n" "d * f \<le> usize_MAX" "t \<noteq> Q4K"
    and fit: "3 * n + header_bytes t \<le> usize_MAX"
  shows "expert_weight_bytes_for d f t = 3 * n + header_bytes t"
proof -
  have c: "expert_weight_count d f = 3 * (d * f)" if "3 * (d * f) \<le> usize_MAX"
    using that by (simp add: expert_weight_count_eq)
  show ?thesis
    using assms
    by (cases t)
      (simp_all add: c checked_mul_def header_bytes_def saturating_mul_def saturating_add_def
        three_tensor_blocks_exact block_consts mult.commute mult.left_commute split: if_splits)
qed

lemma div_ceil_triple: "0 < b \<Longrightarrow> div_ceil (3 * a) b \<le> 3 * div_ceil a b"
proof -
  assume b: "0 < b"
  have "div_ceil (3 * a) b * b < 3 * a + b" by (rule div_ceil_bounds(2) [OF b])
  also have "\<dots> \<le> 3 * (div_ceil a b * b) + b" using div_ceil_bounds(1) [OF b, of a] by simp
  also have "\<dots> = (3 * div_ceil a b + 1) * b" by (simp add: algebra_simps)
  finally have "div_ceil (3 * a) b < 3 * div_ceil a b + 1" by (simp only: mult_less_cancel2)
  then show ?thesis by simp
qed

end
