(* ===== verification/ArenaLayout.thy ===== *)
theory ArenaLayout
  imports WeightTypes
begin

section \<open>Geometry, banks and VRAM plan of the GPU expert arena\<close>

text \<open>
  Model of the sizing half of the GPU-native expert arena of \<open>backend/gpu_native.rs\<close>: the router and
  expert geometries, the packed location of a physical slot, the GPU-visible mapping entry, the
  layout of a layer's slots over at most four banks, the VRAM plan with its binary search for the
  largest slot count, and the byte layout of a slot. \<open>u64\<close> byte counts are natural numbers: the code
  only touches them with checked arithmetic, whose bound is written out. The fields of
  \<open>wgpu::Limits\<close> that the code reads are a record.
\<close>

subsection \<open>Constants and errors\<close>

definition MAX_GPU_NATIVE_ROUTER_EXPERTS :: usize where "MAX_GPU_NATIVE_ROUTER_EXPERTS = 128"
definition MAX_GPU_NATIVE_ROUTER_TOP_K :: usize where "MAX_GPU_NATIVE_ROUTER_TOP_K = 8"
definition MAX_GPU_NATIVE_EXPERT_BANKS :: usize where "MAX_GPU_NATIVE_EXPERT_BANKS = 4"
definition EXPERT_LOCATION_BANK_SHIFT :: nat where "EXPERT_LOCATION_BANK_SHIFT = 30"
definition EXPERT_LOCATION_SLOT_MASK :: u32 where "EXPERT_LOCATION_SLOT_MASK = 2 ^ 30 - 1"
definition EXPERT_UNMAPPED :: u32 where "EXPERT_UNMAPPED = 2 ^ 32 - 1"
definition EXPERT_SLOT_EPOCH_BYTES :: usize where "EXPERT_SLOT_EPOCH_BYTES = 4"
definition EXPERT_MAPPING_ENTRY_BYTES :: usize where "EXPERT_MAPPING_ENTRY_BYTES = 8"
definition EXPERT_REQUIRED_STORAGE_BUFFERS :: nat where "EXPERT_REQUIRED_STORAGE_BUFFERS = 8"
definition EXPERT_PUSH_CONSTANT_BYTES :: nat where "EXPERT_PUSH_CONSTANT_BYTES = 32"
definition EXPERT_WORKGROUP_SIZE :: nat where "EXPERT_WORKGROUP_SIZE = 64"
definition u32_MAX :: nat where "u32_MAX = 2 ^ 32 - 1"

text \<open>\<open>u64::from(u32::MAX & !3)\<close>: the largest word-aligned size a shader can address.\<close>

definition shader_addressable_bytes :: nat where "shader_addressable_bytes = 2 ^ 32 - 4"

lemmas arena_consts = MAX_GPU_NATIVE_ROUTER_EXPERTS_def MAX_GPU_NATIVE_ROUTER_TOP_K_def
  MAX_GPU_NATIVE_EXPERT_BANKS_def EXPERT_LOCATION_BANK_SHIFT_def EXPERT_LOCATION_SLOT_MASK_def
  EXPERT_UNMAPPED_def EXPERT_SLOT_EPOCH_BYTES_def EXPERT_MAPPING_ENTRY_BYTES_def u32_MAX_def
  shader_addressable_bytes_def Q4_0_BLOCK_ELEMS_def Q4_0_BLOCK_BYTES_def

datatype bootstrap_error =
    GpuBackendUnavailable
  | DeviceLost string
  | InvalidDModel
  | InvalidRouterExpertCount usize
  | InvalidRouterTopK usize usize
  | RouterGeometryOverflow usize usize usize
  | InvalidExpertDff usize
  | ExpertQ4GeometryIncompatible usize usize usize
  | ExpertGeometryOverflow usize usize usize usize
  | ExpertDModelMismatch usize usize
  | ForeignExpertArena
  | ExpertLayerMismatch usize usize
  | InvalidExpertSlotCapacity usize
  | ExpertArenaBudgetTooSmall nat nat
  | ExpertArenaBudgetOverflow
  | ExpertArenaBankLimit usize usize
  | ExpertArenaBankCapacity usize nat nat
  | ExpertStorageBuffersUnsupported nat nat
  | ExpertPushConstantsUnsupported nat nat
  | ExpertWorkgroupUnsupported nat nat nat
  | DuplicateExpertLogicalId u32
  | ExpertLogicalIdOutOfRange u32 usize
  | DuplicateExpertPhysicalLocation u32
  | ExpertBankOutOfRange u32 usize
  | ExpertSlotOutOfRange u32 u32 usize
  | ExpertLocationUnrepresentable u32 u32
  | InvalidExpertLogicalGeneration u64
  | InvalidExpertSlotEpoch u32
  | ExpertInstallTicketExhausted
  | ExpertSlotEpochExhausted u32 u32
  | ExpertInstallReservationLost
  | ExpertPayloadTooShort u32 usize usize
  | ExpertPayloadTrailingBytes u32 usize usize
  | ExpertPayloadNonZeroPadding u32
  | ExpertPhysicalSlotDestinationLength usize usize
  | ExpertDirectStagingUnavailable u32 nat nat
  | ExpertResidentCountExceedsCapacity usize usize
  | ExceedsMaxBufferSize nat nat
  | ExceedsMaxStorageBindingSize nat nat

record wgpu_limits =
  max_buffer_size :: nat
  max_storage_buffer_binding_size :: nat
  max_storage_buffers_per_shader_stage :: nat
  max_push_constant_size :: nat
  max_compute_workgroup_size_x :: nat
  max_compute_invocations_per_workgroup :: nat

subsection \<open>Geometry\<close>

record router_geometry =
  rg_d_model :: usize
  rg_num_experts :: usize
  rg_top_k :: usize

definition router_geometry_try_new ::
    "usize \<Rightarrow> usize \<Rightarrow> usize \<Rightarrow> bootstrap_error + router_geometry" where
  "router_geometry_try_new d_model num_experts top_k =
     (if d_model = 0 then Inl InvalidDModel
      else if num_experts = 0 \<or> num_experts > MAX_GPU_NATIVE_ROUTER_EXPERTS
      then Inl (InvalidRouterExpertCount num_experts)
      else if top_k = 0 \<or> top_k > MAX_GPU_NATIVE_ROUTER_TOP_K \<or> top_k > num_experts
      then Inl (InvalidRouterTopK top_k num_experts)
      else ebind (ok_or (RouterGeometryOverflow d_model num_experts top_k)
                        (checked_mul d_model num_experts))
        (\<lambda>gate_elements.
          if d_model > u32_MAX \<or> num_experts > u32_MAX \<or> top_k > u32_MAX \<or> gate_elements > u32_MAX
          then Inl (RouterGeometryOverflow d_model num_experts top_k)
          else Inr \<lparr>rg_d_model = d_model, rg_num_experts = num_experts, rg_top_k = top_k\<rparr>))"

record expert_geometry =
  eg_d_model :: usize
  eg_d_ff :: usize
  eg_num_experts :: usize
  eg_top_k :: usize
  eg_blocks_per_projection :: usize
  eg_logical_expert_bytes :: usize
  eg_slot_stride_bytes :: usize

text \<open>\<open>(4 + bytes + 3) & !3\<close> with every addition checked.\<close>

definition slot_stride_of :: "usize \<Rightarrow> usize option" where
  "slot_stride_of bytes =
     Option.bind (checked_add EXPERT_SLOT_EPOCH_BYTES bytes)
       (\<lambda>b. map_option (\<lambda>b. b div 4 * 4) (checked_add b 3))"

definition geometry_try_new ::
    "usize \<Rightarrow> usize \<Rightarrow> usize \<Rightarrow> usize \<Rightarrow> bootstrap_error + expert_geometry" where
  "geometry_try_new dm df ne k =
     ebind (router_geometry_try_new dm ne k) (\<lambda>_.
     if df = 0 then Inl (InvalidExpertDff df)
     else if \<not> Q4_0_BLOCK_ELEMS dvd dm \<or> \<not> Q4_0_BLOCK_ELEMS dvd df
     then Inl (ExpertQ4GeometryIncompatible dm df Q4_0_BLOCK_ELEMS)
     else
       let overflow = ExpertGeometryOverflow dm df ne k in
       ebind (ok_or overflow (checked_mul dm df)) (\<lambda>projection_elements.
       let blocks = projection_elements div Q4_0_BLOCK_ELEMS in
       ebind (ok_or overflow
                (Option.bind (checked_mul blocks 3) (\<lambda>b. checked_mul b Q4_0_BLOCK_BYTES))) (\<lambda>bytes.
       ebind (ok_or overflow (slot_stride_of bytes)) (\<lambda>stride.
       ebind (ok_or overflow (checked_mul k dm)) (\<lambda>route_output_elements.
       if df > u32_MAX \<or> projection_elements > u32_MAX \<or> blocks > u32_MAX \<or> bytes > u32_MAX
          \<or> stride > u32_MAX \<or> route_output_elements > u32_MAX
       then Inl overflow
       else Inr \<lparr>eg_d_model = dm, eg_d_ff = df, eg_num_experts = ne, eg_top_k = k,
                 eg_blocks_per_projection = blocks, eg_logical_expert_bytes = bytes,
                 eg_slot_stride_bytes = stride\<rparr>)))))"

definition physical_payload_bytes :: "expert_geometry \<Rightarrow> usize" where
  "physical_payload_bytes g = eg_slot_stride_bytes g - EXPERT_SLOT_EPOCH_BYTES"

text \<open>What every geometry the constructor returns satisfies; in particular the slot is never padded.\<close>

definition geometry_ok :: "expert_geometry \<Rightarrow> bool" where
  "geometry_ok g \<longleftrightarrow>
     0 < eg_top_k g \<and> eg_top_k g \<le> eg_num_experts g \<and> eg_num_experts g \<le> 128 \<and>
     32 dvd eg_d_model g \<and> 32 dvd eg_d_ff g \<and>
     eg_blocks_per_projection g * 32 = eg_d_model g * eg_d_ff g \<and> 0 < eg_blocks_per_projection g \<and>
     eg_logical_expert_bytes g = 54 * eg_blocks_per_projection g \<and>
     eg_slot_stride_bytes g = 4 + eg_logical_expert_bytes g \<and>
     4 dvd eg_slot_stride_bytes g \<and> eg_slot_stride_bytes g < 2 ^ 32"

lemma geometry_stride:
  assumes "32 dvd dm" "32 dvd df"
  shows "(4 + 54 * (dm * df div 32) + 3) div 4 * 4 = 4 + 54 * (dm * df div (32::nat))"
proof -
  from assms obtain a b where "dm = 32 * a" "df = 32 * b" by (auto elim!: dvdE)
  then have "dm * df div 32 = 4 * (8 * a * b)" by simp
  moreover have "(4 + 54 * (4 * n) + 3) div 4 * 4 = 4 + 54 * (4 * n)" for n :: nat
    by presburger
  ultimately show ?thesis by (simp only:)
qed

lemma geometry_try_new_ok:
  assumes "geometry_try_new dm df ne k = Inr g"
  shows "geometry_ok g \<and> eg_d_model g = dm \<and> eg_d_ff g = df \<and> eg_num_experts g = ne \<and> eg_top_k g = k"
proof -
  have *: "32 dvd dm" "32 dvd df" "dm \<noteq> 0" "df \<noteq> 0"
    using assms by (auto simp: geometry_try_new_def router_geometry_try_new_def res_iff Let_def
        arena_consts split: if_splits)
  then have pos: "0 < dm * df div 32"
    by (auto elim!: dvdE)
  have dvd: "32 dvd dm * df" using * by simp
  have "4 dvd 4 + 54 * (dm * df div 32)"
    using geometry_stride [OF *(1,2)] by (metis dvd_triv_right)
  with assms pos dvd show ?thesis
    using geometry_stride [OF *(1,2)]
    by (auto simp: geometry_try_new_def router_geometry_try_new_def res_iff Let_def geometry_ok_def
        arena_consts slot_stride_of_def checked_mul_Some checked_add_Some bind_eq_Some_conv
        split: if_splits)
qed

subsection \<open>Locations and mapping entries\<close>

unbundle bit_operations_syntax

record expert_location =
  el_bank :: u32
  el_slot :: u32

definition pack :: "expert_location \<Rightarrow> bootstrap_error + u32" where
  "pack l =
     (if unat (el_bank l) \<ge> MAX_GPU_NATIVE_EXPERT_BANKS \<or> el_slot l > EXPERT_LOCATION_SLOT_MASK
      then Inl (ExpertLocationUnrepresentable (el_bank l) (el_slot l))
      else let packed = push_bit EXPERT_LOCATION_BANK_SHIFT (el_bank l) OR el_slot l in
           if packed = EXPERT_UNMAPPED
           then Inl (ExpertLocationUnrepresentable (el_bank l) (el_slot l))
           else Inr packed)"

definition location_try_new :: "u32 \<Rightarrow> u32 \<Rightarrow> bootstrap_error + expert_location" where
  "location_try_new bank slot =
     (let location = \<lparr>el_bank = bank, el_slot = slot\<rparr> in ebind (pack location) (\<lambda>_. Inr location))"

definition unpack :: "u32 \<Rightarrow> expert_location option" where
  "unpack packed =
     (if packed \<noteq> EXPERT_UNMAPPED
      then Some \<lparr>el_bank = drop_bit EXPERT_LOCATION_BANK_SHIFT packed,
                 el_slot = packed AND EXPERT_LOCATION_SLOT_MASK\<rparr>
      else None)"

record mapping_entry =
  me_location :: u32
  me_slot_epoch :: u32

definition UNMAPPED :: mapping_entry where
  "UNMAPPED = \<lparr>me_location = EXPERT_UNMAPPED, me_slot_epoch = 0\<rparr>"

definition mapping_entry_try_new :: "expert_location \<Rightarrow> u32 \<Rightarrow> bootstrap_error + mapping_entry" where
  "mapping_entry_try_new location slot_epoch =
     (if slot_epoch = 0 then Inl (InvalidExpertSlotEpoch slot_epoch)
      else ebind (pack location)
             (\<lambda>packed. Inr \<lparr>me_location = packed, me_slot_epoch = slot_epoch\<rparr>))"

lemma slot_mask_eq: "EXPERT_LOCATION_SLOT_MASK = mask 30"
  by (simp add: arena_consts mask_eq_exp_minus_1)

lemma unat_slot_mask: "unat EXPERT_LOCATION_SLOT_MASK = 2 ^ 30 - 1"
  by (simp add: arena_consts)

lemma unat_unmapped: "unat EXPERT_UNMAPPED = 2 ^ 32 - 1"
  by (simp add: arena_consts)

lemma le_slot_mask_iff: "s \<le> EXPERT_LOCATION_SLOT_MASK \<longleftrightarrow> unat s < 2 ^ 30"
  by (auto simp: word_le_nat_alt unat_slot_mask)

lemma no_high_bit:
  assumes "unat (w :: u32) < 2 ^ k"
  shows "bit w n \<Longrightarrow> n < k"
proof -
  have "take_bit k (unat w) = unat w"
    using assms by (simp add: take_bit_nat_eq_self)
  moreover assume "bit w n"
  then have "bit (unat w) n"
    by (simp add: bit_simps)
  ultimately show "n < k"
    by (metis bit_take_bit_iff)
qed

lemma packed_fields:
  assumes "unat (b :: u32) < 4" "s \<le> EXPERT_LOCATION_SLOT_MASK"
  shows "drop_bit 30 (push_bit 30 b OR s) = b"
    "(push_bit 30 b OR s) AND EXPERT_LOCATION_SLOT_MASK = s"
proof -
  have b: "bit b n \<Longrightarrow> n < 2" for n
    using no_high_bit [of b 2 n] assms by simp
  have s: "bit s n \<Longrightarrow> n < 30" for n
    using no_high_bit [of s 30 n] assms by (simp add: le_slot_mask_iff)
  show "drop_bit 30 (push_bit 30 b OR s) = b"
    by (rule bit_word_eqI) (auto simp: bit_simps dest: b s)
  show "(push_bit 30 b OR s) AND EXPERT_LOCATION_SLOT_MASK = s"
    by (rule bit_word_eqI) (auto simp: bit_simps slot_mask_eq dest: b s)
qed

lemma unpack_fields:
  "unat (drop_bit 30 (p :: u32)) < 4" "p AND EXPERT_LOCATION_SLOT_MASK \<le> EXPERT_LOCATION_SLOT_MASK"
  "push_bit 30 (drop_bit 30 p) OR (p AND EXPERT_LOCATION_SLOT_MASK) = p"
proof -
  show "unat (drop_bit 30 p) < 4"
  proof -
    have "unat (drop_bit 30 p) = unat p div 2 ^ 30"
      by (simp add: unat_drop_bit_eq drop_bit_eq_div [of 30 "unat p"])
    then show ?thesis
      using unat_bound [of p] by (simp add: less_mult_imp_div_less)
  qed
  show "p AND EXPERT_LOCATION_SLOT_MASK \<le> EXPERT_LOCATION_SLOT_MASK"
    by (rule word_and_le1)
  show "push_bit 30 (drop_bit 30 p) OR (p AND EXPERT_LOCATION_SLOT_MASK) = p"
    by (intro bit_word_eqI) (auto simp: bit_simps slot_mask_eq)
qed

lemma pack_unpack: "pack l = Inr p \<longleftrightarrow> unpack p = Some l"
proof
  assume "pack l = Inr p"
  then show "unpack p = Some l"
    using packed_fields [of "el_bank l" "el_slot l"]
    by (auto simp: pack_def unpack_def Let_def arena_consts(3,4) split: if_splits)
next
  assume "unpack p = Some l"
  then show "pack l = Inr p"
    using unpack_fields [of p]
    by (auto simp: pack_def unpack_def Let_def arena_consts(3,4) not_le split: if_splits)
qed

lemma pack_total:
  assumes "unat (el_bank l) < 4" "unat (el_slot l) < 2 ^ 30 - 1"
  shows "\<exists>p. pack l = Inr p"
proof -
  have le: "el_slot l \<le> EXPERT_LOCATION_SLOT_MASK" "el_slot l \<noteq> EXPERT_LOCATION_SLOT_MASK"
    using assms unat_slot_mask by (auto simp: le_slot_mask_iff)
  have "EXPERT_UNMAPPED AND EXPERT_LOCATION_SLOT_MASK = EXPERT_LOCATION_SLOT_MASK"
    by (simp add: arena_consts)
  then have "push_bit 30 (el_bank l) OR el_slot l \<noteq> EXPERT_UNMAPPED"
    using packed_fields(2) [OF assms(1) le(1)] le(2) by metis
  then show ?thesis
    using assms le by (simp add: pack_def Let_def arena_consts(3,4) not_le)
qed

subsection \<open>Banks of a layer\<close>

record bank_layout =
  bl_slot_capacity :: usize
  bl_allocation_bytes :: nat

record arena_layout =
  al_slot_capacity :: usize
  al_active_banks :: usize
  al_banks :: "bank_layout list"
  al_mapping_bytes :: nat

definition maximum_bank_bytes :: "wgpu_limits \<Rightarrow> nat" where
  "maximum_bank_bytes limits =
     min (min (max_buffer_size limits) (max_storage_buffer_binding_size limits)) shader_addressable_bytes"

definition maximum_bank_slots :: "expert_geometry \<Rightarrow> wgpu_limits \<Rightarrow> nat" where
  "maximum_bank_slots g limits =
     min (maximum_bank_bytes limits div eg_slot_stride_bytes g) (unat EXPERT_LOCATION_SLOT_MASK)"

text \<open>The loop over the required banks: bank \<open>b\<close> takes as many of the remaining slots as fit.\<close>

fun fill_banks ::
    "nat \<Rightarrow> nat \<Rightarrow> nat \<Rightarrow> usize \<Rightarrow> nat \<Rightarrow> usize \<Rightarrow> bootstrap_error + bank_layout list" where
  "fill_banks max_slots stride max_bytes b 0 remaining = Inr []"
| "fill_banks max_slots stride max_bytes b (Suc n) remaining =
     (let slots = min remaining max_slots in
      ebind (ok_or (ExpertArenaBankCapacity b usize_MAX max_bytes) (checked_mul slots stride))
        (\<lambda>bytes.
          if bytes > max_bytes then Inl (ExpertArenaBankCapacity b bytes max_bytes)
          else ebind (fill_banks max_slots stride max_bytes (Suc b) n (remaining - slots))
                 (\<lambda>banks. Inr (\<lparr>bl_slot_capacity = slots, bl_allocation_bytes = bytes\<rparr> # banks))))"

definition dummy_bank :: bank_layout where
  "dummy_bank = \<lparr>bl_slot_capacity = 0, bl_allocation_bytes = 4\<rparr>"

definition layout_try_new ::
    "expert_geometry \<Rightarrow> usize \<Rightarrow> wgpu_limits \<Rightarrow> bootstrap_error + arena_layout" where
  "layout_try_new g slot_capacity limits =
     (if slot_capacity = 0 then Inl (InvalidExpertSlotCapacity slot_capacity)
      else
        let stride = eg_slot_stride_bytes g; max_bytes = maximum_bank_bytes limits;
            maximum_slots = maximum_bank_slots g limits in
        if maximum_slots = 0 then Inl (ExpertArenaBankCapacity 0 stride max_bytes)
        else
          let required_banks = div_ceil slot_capacity maximum_slots in
          if required_banks > MAX_GPU_NATIVE_EXPERT_BANKS
          then Inl (ExpertArenaBankLimit required_banks MAX_GPU_NATIVE_EXPERT_BANKS)
          else
            ebind (fill_banks maximum_slots stride max_bytes 0 required_banks slot_capacity) (\<lambda>banks.
            ebind (ok_or (ExpertGeometryOverflow (eg_d_model g) (eg_d_ff g) (eg_num_experts g) (eg_top_k g))
                         (checked_mul (eg_num_experts g) EXPERT_MAPPING_ENTRY_BYTES)) (\<lambda>mapping_bytes.
            Inr \<lparr>al_slot_capacity = slot_capacity, al_active_banks = required_banks,
                 al_banks = banks @ replicate (MAX_GPU_NATIVE_EXPERT_BANKS - required_banks) dummy_bank,
                 al_mapping_bytes = mapping_bytes\<rparr>)))"

fun sum_checked :: "nat list \<Rightarrow> nat \<Rightarrow> bootstrap_error + nat" where
  "sum_checked [] acc = Inr acc"
| "sum_checked (x # xs) acc =
     ebind (ok_or ExpertArenaBudgetOverflow (checked_add acc x)) (sum_checked xs)"

definition physical_bank_allocation_bytes :: "arena_layout \<Rightarrow> bootstrap_error + nat" where
  "physical_bank_allocation_bytes l = sum_checked (map bl_allocation_bytes (al_banks l)) 0"

definition active_bank_allocation_bytes :: "arena_layout \<Rightarrow> bootstrap_error + nat" where
  "active_bank_allocation_bytes l =
     sum_checked (map bl_allocation_bytes (take (al_active_banks l) (al_banks l))) 0"

definition total_allocation_bytes :: "arena_layout \<Rightarrow> bootstrap_error + nat" where
  "total_allocation_bytes l =
     ebind (physical_bank_allocation_bytes l)
       (\<lambda>bytes. ok_or ExpertArenaBudgetOverflow (checked_add bytes (al_mapping_bytes l)))"

text \<open>The scan over the active banks of \<open>location_for_flat_slot\<close>.\<close>

fun find_bank :: "bank_layout list \<Rightarrow> nat \<Rightarrow> usize \<Rightarrow> (nat \<times> usize) option" where
  "find_bank [] b remaining = None"
| "find_bank (l # ls) b remaining =
     (if remaining < bl_slot_capacity l then Some (b, remaining)
      else find_bank ls (Suc b) (remaining - bl_slot_capacity l))"

definition location_for_flat_slot :: "arena_layout \<Rightarrow> usize \<Rightarrow> bootstrap_error + expert_location" where
  "location_for_flat_slot l flat_slot =
     (let exceeds = ExpertResidentCountExceedsCapacity (saturating_add flat_slot 1) (al_slot_capacity l) in
      if flat_slot \<ge> al_slot_capacity l then Inl exceeds
      else case find_bank (take (al_active_banks l) (al_banks l)) 0 flat_slot of
             Some (bank, slot) \<Rightarrow> location_try_new (of_nat bank) (of_nat slot)
           | None \<Rightarrow> Inl exceeds)"

definition flat_slot_for_location :: "arena_layout \<Rightarrow> expert_location \<Rightarrow> bootstrap_error + usize" where
  "flat_slot_for_location l location =
     (let bank = unat (el_bank location) in
      if bank \<ge> al_active_banks l
      then Inl (ExpertBankOutOfRange (el_bank location) (al_active_banks l))
      else if unat (el_slot location) \<ge> bl_slot_capacity (al_banks l ! bank)
      then Inl (ExpertSlotOutOfRange (el_bank location) (el_slot location)
                 (bl_slot_capacity (al_banks l ! bank)))
      else ebind (sum_checked (map bl_slot_capacity (take bank (al_banks l))) 0)
             (\<lambda>total. ok_or ExpertArenaBudgetOverflow (checked_add total (unat (el_slot location)))))"

subsection \<open>VRAM plan of a layer\<close>

record vram_plan =
  vp_geometry :: expert_geometry
  vp_requested_expert_budget_bytes :: nat
  vp_layout :: arena_layout
  vp_active_bank_allocation_bytes :: nat
  vp_physical_bank_allocation_bytes :: nat
  vp_total_arena_allocation_bytes :: nat

definition validate_q4_expert_pipeline_limits :: "wgpu_limits \<Rightarrow> bootstrap_error + unit" where
  "validate_q4_expert_pipeline_limits limits =
     (if max_storage_buffers_per_shader_stage limits < EXPERT_REQUIRED_STORAGE_BUFFERS
      then Inl (ExpertStorageBuffersUnsupported EXPERT_REQUIRED_STORAGE_BUFFERS
                 (max_storage_buffers_per_shader_stage limits))
      else if max_push_constant_size limits < EXPERT_PUSH_CONSTANT_BYTES
      then Inl (ExpertPushConstantsUnsupported EXPERT_PUSH_CONSTANT_BYTES (max_push_constant_size limits))
      else if max_compute_workgroup_size_x limits < EXPERT_WORKGROUP_SIZE \<or>
              max_compute_invocations_per_workgroup limits < EXPERT_WORKGROUP_SIZE
      then Inl (ExpertWorkgroupUnsupported EXPERT_WORKGROUP_SIZE (max_compute_workgroup_size_x limits)
                 (max_compute_invocations_per_workgroup limits))
      else Inr ())"

text \<open>The common tail of both constructors.\<close>

definition plan_of_layout ::
    "expert_geometry \<Rightarrow> nat option \<Rightarrow> arena_layout \<Rightarrow> bootstrap_error + vram_plan" where
  "plan_of_layout g budget l =
     ebind (active_bank_allocation_bytes l) (\<lambda>active.
     ebind (physical_bank_allocation_bytes l) (\<lambda>physical.
     ebind (total_allocation_bytes l) (\<lambda>total.
     Inr \<lparr>vp_geometry = g,
          vp_requested_expert_budget_bytes = (case budget of None \<Rightarrow> total | Some b \<Rightarrow> b),
          vp_layout = l, vp_active_bank_allocation_bytes = active,
          vp_physical_bank_allocation_bytes = physical, vp_total_arena_allocation_bytes = total\<rparr>)))"

definition try_for_slot_capacity ::
    "expert_geometry \<Rightarrow> usize \<Rightarrow> wgpu_limits \<Rightarrow> bootstrap_error + vram_plan" where
  "try_for_slot_capacity g slot_capacity limits =
     ebind (validate_q4_expert_pipeline_limits limits) (\<lambda>_.
     if slot_capacity > eg_num_experts g
     then Inl (ExpertResidentCountExceedsCapacity slot_capacity (eg_num_experts g))
     else ebind (layout_try_new g slot_capacity limits) (plan_of_layout g None))"

definition slot_count_fits :: "expert_geometry \<Rightarrow> wgpu_limits \<Rightarrow> nat \<Rightarrow> usize \<Rightarrow> bool" where
  "slot_count_fits g limits budget slots =
     (case ebind (layout_try_new g slots limits) total_allocation_bytes of
        Inl _ \<Rightarrow> False
      | Inr bytes \<Rightarrow> bytes \<le> budget)"

text \<open>The \<open>while low < high\<close> loop.\<close>

function largest_fitting :: "(usize \<Rightarrow> bool) \<Rightarrow> usize \<Rightarrow> usize \<Rightarrow> usize" where
  "largest_fitting fits low high =
     (if low < high
      then let midpoint = low + div_ceil (high - low) 2 in
           if fits midpoint then largest_fitting fits midpoint high
           else largest_fitting fits low (midpoint - 1)
      else low)"
  by pat_completeness auto
termination largest_fitting
  by (relation "measure (\<lambda>(_, low, high). high - low)") (auto simp: div_ceil_def)

definition plan_try_new ::
    "expert_geometry \<Rightarrow> nat \<Rightarrow> wgpu_limits \<Rightarrow> bootstrap_error + vram_plan" where
  "plan_try_new g budget limits =
     ebind (validate_q4_expert_pipeline_limits limits) (\<lambda>_.
     ebind (layout_try_new g 1 limits) (\<lambda>one.
     ebind (total_allocation_bytes one) (\<lambda>minimum_bytes.
     if budget < minimum_bytes then Inl (ExpertArenaBudgetTooSmall budget minimum_bytes)
     else
       ebind (ok_or ExpertArenaBudgetOverflow
                (map_option (\<lambda>slots. min slots (eg_num_experts g))
                   (checked_mul (maximum_bank_slots g limits) MAX_GPU_NATIVE_EXPERT_BANKS)))
         (\<lambda>maximum_slots.
       let low = largest_fitting (slot_count_fits g limits budget) 1 maximum_slots in
       ebind (layout_try_new g low limits) (plan_of_layout g (Some budget))))))"

declare largest_fitting.simps [simp del]

subsection \<open>Closed form of a layout\<close>

fun bank_capacities :: "nat \<Rightarrow> nat \<Rightarrow> nat \<Rightarrow> nat list" where
  "bank_capacities m 0 remaining = []"
| "bank_capacities m (Suc n) remaining =
     min remaining m # bank_capacities m n (remaining - min remaining m)"

definition bank_of :: "nat \<Rightarrow> nat \<Rightarrow> bank_layout" where
  "bank_of stride slots = \<lparr>bl_slot_capacity = slots, bl_allocation_bytes = slots * stride\<rparr>"

definition layout_of :: "expert_geometry \<Rightarrow> usize \<Rightarrow> wgpu_limits \<Rightarrow> arena_layout" where
  "layout_of g c limits =
     (let m = maximum_bank_slots g limits; n = div_ceil c m in
      \<lparr>al_slot_capacity = c, al_active_banks = n,
       al_banks = map (bank_of (eg_slot_stride_bytes g)) (bank_capacities m n c) @
                  replicate (4 - n) dummy_bank,
       al_mapping_bytes = 8 * eg_num_experts g\<rparr>)"

definition arena_bytes :: "expert_geometry \<Rightarrow> usize \<Rightarrow> wgpu_limits \<Rightarrow> nat" where
  "arena_bytes g c limits =
     c * eg_slot_stride_bytes g + 4 * (4 - div_ceil c (maximum_bank_slots g limits)) +
     8 * eg_num_experts g"

lemma length_bank_capacities [simp]: "length (bank_capacities m n c) = n"
  by (induction n arbitrary: c) auto

lemma sum_bank_capacities: "sum_list (bank_capacities m n c) = min c (n * m)"
  by (induction n arbitrary: c) (auto simp: min_def algebra_simps)

lemma bank_capacities_le: "x \<in> set (bank_capacities m n c) \<Longrightarrow> x \<le> m"
  by (induction n arbitrary: c) auto

lemma div_ceil_le_iff: "0 < m \<Longrightarrow> div_ceil c m \<le> n \<longleftrightarrow> c \<le> n * m"
proof -
  assume m: "0 < m"
  have c: "c = c div m * m + c mod m" "c mod m < m" using m by simp_all
  show "div_ceil c m \<le> n \<longleftrightarrow> c \<le> n * m"
  proof (cases "c mod m = 0")
    case True
    with c(1) have "c = c div m * m" by simp
    with True m show ?thesis
      by (metis div_ceil_def add.right_neutral less_numeral_extra(3) mult_le_cancel2)
  next
    case False
    have "c div m < n \<longleftrightarrow> c < n * m"
      by (rule div_less_iff_less_mult [OF m])
    moreover have "c \<noteq> n * m" using False by auto
    ultimately show ?thesis using False by (auto simp: div_ceil_def)
  qed
qed

lemma div_ceil_step: "0 < m \<Longrightarrow> div_ceil (c + d) m \<le> div_ceil c m + d"
proof -
  assume m: "0 < m"
  have "c \<le> div_ceil c m * m" using div_ceil_le_iff [OF m] by blast
  then have "c + d \<le> (div_ceil c m + d) * m" using m
    by (cases m) (auto simp: algebra_simps)
  then show ?thesis using div_ceil_le_iff [OF m] by blast
qed

lemma fill_banks_eq:
  assumes "m * stride \<le> mb" "mb \<le> usize_MAX"
  shows "fill_banks m stride mb b n c = Inr (map (bank_of stride) (bank_capacities m n c))"
proof (induction n arbitrary: b c)
  case (Suc n)
  have "min c m * stride \<le> mb"
    using assms(1) by (meson le_trans min.cobounded2 mult_le_mono1)
  with Suc assms(2) show ?case
    by (auto simp: Let_def checked_mul_def bank_of_def)
qed simp

lemma sum_checked_eq:
  "a + sum_list xs \<le> usize_MAX \<Longrightarrow> sum_checked xs a = Inr (a + sum_list xs)"
  by (induction xs arbitrary: a) (auto simp: checked_add_def add.assoc)

lemma bank_slots_bytes:
  "maximum_bank_slots g limits * eg_slot_stride_bytes g \<le> maximum_bank_bytes limits"
proof -
  have "maximum_bank_slots g limits \<le> maximum_bank_bytes limits div eg_slot_stride_bytes g"
    by (simp add: maximum_bank_slots_def)
  then show ?thesis
    by (meson div_times_less_eq_dividend le_trans mult_le_mono1)
qed

lemma bank_bytes_small: "maximum_bank_bytes limits < 2 ^ 32"
  by (simp add: maximum_bank_bytes_def arena_consts min_less_iff_disj)

lemma bank_bytes_usize: "maximum_bank_bytes limits \<le> usize_MAX"
  using bank_bytes_small [of limits] by (simp add: usize_MAX_def)

lemma layout_try_new_eq:
  assumes "geometry_ok g"
  shows "layout_try_new g c limits =
    (let m = maximum_bank_slots g limits in
     if c = 0 then Inl (InvalidExpertSlotCapacity c)
     else if m = 0
     then Inl (ExpertArenaBankCapacity 0 (eg_slot_stride_bytes g) (maximum_bank_bytes limits))
     else if c > 4 * m then Inl (ExpertArenaBankLimit (div_ceil c m) 4)
     else Inr (layout_of g c limits))"
proof -
  have "eg_num_experts g * 8 \<le> usize_MAX"
    using assms by (simp add: geometry_ok_def usize_MAX_def)
  moreover have "0 < m \<Longrightarrow> div_ceil c m > 4 \<longleftrightarrow> c > 4 * m" for m
    using div_ceil_le_iff [of m c 4] by auto
  ultimately show ?thesis
    by (simp add: layout_try_new_def Let_def layout_of_def arena_consts(3,8)
        fill_banks_eq [OF bank_slots_bytes bank_bytes_usize] checked_mul_def)
qed

lemma layout_try_new_Inr:
  assumes "geometry_ok g"
  shows "layout_try_new g c limits = Inr l \<longleftrightarrow>
    0 < c \<and> c \<le> 4 * maximum_bank_slots g limits \<and> l = layout_of g c limits"
  by (auto simp: layout_try_new_eq [OF assms] Let_def)

lemma layout_of_simps [simp]:
  "al_slot_capacity (layout_of g c limits) = c"
  "al_active_banks (layout_of g c limits) = div_ceil c (maximum_bank_slots g limits)"
  "al_mapping_bytes (layout_of g c limits) = 8 * eg_num_experts g"
  by (simp_all add: layout_of_def Let_def)

lemma sum_capacities_active:
  "c \<le> 4 * m \<Longrightarrow> sum_list (bank_capacities m (div_ceil c m) c) = c"
  using div_ceil_le_iff [of m c "div_ceil c m"]
  by (cases "m = 0") (auto simp: sum_bank_capacities min_def)

lemma sum_map_times: "sum_list (map (\<lambda>x. x * (k :: nat)) xs) = sum_list xs * k"
  by (induction xs) (auto simp: algebra_simps)

lemma bank_bytes_sum:
  assumes "c \<le> 4 * maximum_bank_slots g limits"
  shows "sum_list (map bl_allocation_bytes (al_banks (layout_of g c limits))) =
    c * eg_slot_stride_bytes g + 4 * (4 - div_ceil c (maximum_bank_slots g limits))"
proof -
  have "sum_list (map (bl_allocation_bytes \<circ> bank_of s) xs) = sum_list xs * s" for s xs
    using sum_map_times [of s xs] by (simp add: bank_of_def comp_def)
  then show ?thesis
    by (simp add: layout_of_def Let_def sum_capacities_active [OF assms] sum_list_replicate dummy_bank_def)
qed

lemma arena_bytes_bound:
  assumes "geometry_ok g" "c \<le> 4 * maximum_bank_slots g limits"
  shows "arena_bytes g c limits \<le> usize_MAX"
proof -
  have "c * eg_slot_stride_bytes g \<le> 4 * (maximum_bank_slots g limits * eg_slot_stride_bytes g)"
    using assms(2) by (metis mult.assoc mult_le_mono1)
  also have "\<dots> \<le> 4 * 2 ^ 32"
    using bank_slots_bytes [of g limits] bank_bytes_small [of limits] by linarith
  finally have "c * eg_slot_stride_bytes g \<le> 4 * 2 ^ 32" .
  moreover have "eg_num_experts g \<le> 128" using assms(1) by (simp add: geometry_ok_def)
  ultimately show ?thesis
    by (simp add: arena_bytes_def usize_MAX_def)
qed

lemma total_allocation_eq:
  assumes "geometry_ok g" "c \<le> 4 * maximum_bank_slots g limits"
  shows "physical_bank_allocation_bytes (layout_of g c limits) =
      Inr (arena_bytes g c limits - 8 * eg_num_experts g)"
    and "total_allocation_bytes (layout_of g c limits) = Inr (arena_bytes g c limits)"
    and "\<exists>active. active_bank_allocation_bytes (layout_of g c limits) = Inr active"
proof -
  note b = arena_bytes_bound [OF assms] and s = bank_bytes_sum [OF assms(2)]
  show p: "physical_bank_allocation_bytes (layout_of g c limits) =
      Inr (arena_bytes g c limits - 8 * eg_num_experts g)"
    using b s by (simp add: physical_bank_allocation_bytes_def arena_bytes_def sum_checked_eq)
  show "total_allocation_bytes (layout_of g c limits) = Inr (arena_bytes g c limits)"
    using b by (simp add: total_allocation_bytes_def p checked_add_def arena_bytes_def)
  have "sum_list (take n xs) \<le> sum_list xs" for n and xs :: "nat list"
    by (metis append_take_drop_id le_add1 sum_list_append)
  from this [of "al_active_banks (layout_of g c limits)"
      "map bl_allocation_bytes (al_banks (layout_of g c limits))"]
  show "\<exists>active. active_bank_allocation_bytes (layout_of g c limits) = Inr active"
    using b s by (auto simp: active_bank_allocation_bytes_def arena_bytes_def take_map sum_checked_eq)
qed

lemma arena_bytes_less:
  assumes "geometry_ok g" "c < c'" "0 < maximum_bank_slots g limits"
  shows "arena_bytes g c limits < arena_bytes g c' limits"
proof -
  let ?m = "maximum_bank_slots g limits" and ?s = "eg_slot_stride_bytes g"
  have s: "5 \<le> ?s" using assms(1) by (auto simp: geometry_ok_def)
  from assms(2) obtain d where d: "c' = c + d" "0 < d" by (metis less_imp_add_positive)
  have "d * ?s \<ge> 5 * d" using s by (metis mult.commute mult_le_mono2)
  moreover have "4 - div_ceil c ?m \<le> 4 - div_ceil c' ?m + d"
    using div_ceil_step [OF assms(3), of c d] d by simp
  ultimately have "4 * (4 - div_ceil c ?m) < d * ?s + 4 * (4 - div_ceil c' ?m)"
    using d(2) by linarith
  then show ?thesis
    using d(1) by (simp add: arena_bytes_def add_mult_distrib)
qed

subsection \<open>Flat slots and locations\<close>

lemma find_bank_Some:
  "find_bank bs b f = Some (b', s) \<longleftrightarrow>
    (\<exists>i<length bs. b' = b + i \<and> s < bl_slot_capacity (bs ! i) \<and>
       f = sum_list (map bl_slot_capacity (take i bs)) + s)"
proof (induction bs arbitrary: b f)
  case (Cons l bs)
  show ?case
  proof (cases "f < bl_slot_capacity l")
    case True
    then show ?thesis
      by (auto simp: Ex_less_Suc2)
  next
    case False
    then show ?thesis
      by (auto simp: Cons Ex_less_Suc2)
  qed
qed simp

lemma find_bank_total:
  "f < sum_list (map bl_slot_capacity bs) \<Longrightarrow> \<exists>b' s. find_bank bs b f = Some (b', s)"
  by (induction bs arbitrary: b f) auto

lemma layout_banks:
  assumes "0 < c" "c \<le> 4 * maximum_bank_slots g limits"
  defines "l \<equiv> layout_of g c limits" and "m \<equiv> maximum_bank_slots g limits"
  shows "al_active_banks l \<le> 4" "length (al_banks l) = 4"
    and "sum_list (map bl_slot_capacity (take (al_active_banks l) (al_banks l))) = c"
    and "b < al_active_banks l \<Longrightarrow> bl_slot_capacity (al_banks l ! b) \<le> m \<and>
          bl_allocation_bytes (al_banks l ! b) = bl_slot_capacity (al_banks l ! b) * eg_slot_stride_bytes g"
proof -
  let ?n = "div_ceil c m" and ?caps = "bank_capacities m (div_ceil c m) c"
  have m: "0 < m" using assms by (cases "m = 0") auto
  then have n: "?n \<le> 4" using assms div_ceil_le_iff [of m c 4] by (simp add: m_def)
  then show "al_active_banks l \<le> 4" "length (al_banks l) = 4"
    by (simp_all add: l_def m_def layout_of_def Let_def)
  have t: "take ?n (al_banks l) = map (bank_of (eg_slot_stride_bytes g)) ?caps"
    by (simp add: l_def m_def layout_of_def Let_def)
  then show "sum_list (map bl_slot_capacity (take (al_active_banks l) (al_banks l))) = c"
    using sum_capacities_active [of c m] assms(2)
    by (simp add: l_def m_def comp_def bank_of_def)
  assume "b < al_active_banks l"
  then have b: "b < ?n" by (simp add: l_def m_def)
  then have "al_banks l ! b = bank_of (eg_slot_stride_bytes g) (?caps ! b)"
    using t by (metis length_bank_capacities nth_map nth_take)
  then show "bl_slot_capacity (al_banks l ! b) \<le> m \<and>
      bl_allocation_bytes (al_banks l ! b) = bl_slot_capacity (al_banks l ! b) * eg_slot_stride_bytes g"
    using bank_capacities_le [of "?caps ! b" m ?n c] b by (simp add: bank_of_def)
qed

lemma bank_slots_u30: "maximum_bank_slots g limits \<le> 2 ^ 30 - 1"
  using unat_slot_mask by (simp add: maximum_bank_slots_def)

lemma sum_take_mono: "i \<le> j \<Longrightarrow> sum_list (take i xs) \<le> sum_list (take j (xs :: nat list))"
  by (metis append_take_drop_id le_add1 min.absorb1 sum_list_append take_take)

lemma flat_slot_iff:
  assumes "geometry_ok g" "layout_try_new g c limits = Inr l"
  shows "flat_slot_for_location l loc = Inr f \<longleftrightarrow>
    unat (el_bank loc) < al_active_banks l \<and>
    unat (el_slot loc) < bl_slot_capacity (al_banks l ! unat (el_bank loc)) \<and>
    f = sum_list (map bl_slot_capacity (take (unat (el_bank loc)) (al_banks l))) + unat (el_slot loc)"
proof -
  let ?b = "unat (el_bank loc)"
  have c: "0 < c" "c \<le> 4 * maximum_bank_slots g limits" and l: "l = layout_of g c limits"
    using assms by (auto simp: layout_try_new_Inr)
  note L = layout_banks [OF c, folded l]
  have small: "c \<le> 2 ^ 32" using c(2) bank_slots_u30 [of g limits] by simp
  { assume b: "?b < al_active_banks l" "unat (el_slot loc) < bl_slot_capacity (al_banks l ! ?b)"
    have "sum_list (map bl_slot_capacity (take ?b (al_banks l))) \<le> c"
      using sum_take_mono [of ?b "al_active_banks l" "map bl_slot_capacity (al_banks l)"] b(1) L(3)
      by (simp add: take_map)
    then have "sum_checked (map bl_slot_capacity (take ?b (al_banks l))) 0 =
        Inr (sum_list (map bl_slot_capacity (take ?b (al_banks l))))"
      using small by (subst sum_checked_eq) (simp_all add: usize_MAX_def)
    moreover have "sum_list (map bl_slot_capacity (take ?b (al_banks l))) + unat (el_slot loc) \<le> usize_MAX"
      using \<open>_ \<le> c\<close> small unat_bound [of "el_slot loc"] by (simp add: usize_MAX_def)
    ultimately have "flat_slot_for_location l loc =
        Inr (sum_list (map bl_slot_capacity (take ?b (al_banks l))) + unat (el_slot loc))"
      using b by (simp add: flat_slot_for_location_def Let_def checked_add_def) }
  then show ?thesis
    by (auto simp: flat_slot_for_location_def Let_def split: if_splits)
qed

lemma location_iff:
  assumes "geometry_ok g" "layout_try_new g c limits = Inr l"
  shows "location_for_flat_slot l f = Inr loc \<longleftrightarrow> flat_slot_for_location l loc = Inr f"
    and "flat_slot_for_location l loc = Inr f \<Longrightarrow> f < c"
    and "f < c \<Longrightarrow> \<exists>loc. location_for_flat_slot l f = Inr loc"
    and "flat_slot_for_location l loc = Inr f \<Longrightarrow> \<exists>p. pack loc = Inr p"
proof -
  let ?act = "take (al_active_banks l) (al_banks l)"
  have c: "0 < c" "c \<le> 4 * maximum_bank_slots g limits" and l: "l = layout_of g c limits"
    using assms by (auto simp: layout_try_new_Inr)
  note L = layout_banks [OF c, folded l] and flat = flat_slot_iff [OF assms]
  have cap: "al_slot_capacity l = c" by (simp add: l)
  have packs: "\<exists>p. pack loc = Inr p" if "unat (el_bank loc) < al_active_banks l"
    "unat (el_slot loc) < bl_slot_capacity (al_banks l ! unat (el_bank loc))" for loc
    using that L(1) L(4) bank_slots_u30 [of g limits] by (intro pack_total) fastforce+
  then show "flat_slot_for_location l loc = Inr f \<Longrightarrow> \<exists>p. pack loc = Inr p"
    by (auto simp: flat)
  have lt: "f < c" if "i < al_active_banks l" "s < bl_slot_capacity (al_banks l ! i)"
    "f = sum_list (map bl_slot_capacity (take i (al_banks l))) + s" for f i s
  proof -
    have "sum_list (map bl_slot_capacity (take (Suc i) (al_banks l))) \<le> c"
      using sum_take_mono [of "Suc i" "al_active_banks l" "map bl_slot_capacity (al_banks l)"] that(1) L(3)
      by (simp add: take_map)
    then show ?thesis using that L(1,2) by (simp add: take_Suc_conv_app_nth)
  qed
  then show "flat_slot_for_location l loc = Inr f \<Longrightarrow> f < c"
    by (auto simp: flat)
  have found: "location_for_flat_slot l f = Inr \<lparr>el_bank = of_nat b, el_slot = of_nat s\<rparr> \<and>
      flat_slot_for_location l \<lparr>el_bank = of_nat b, el_slot = of_nat s\<rparr> = Inr f"
    if "f < c" "find_bank ?act 0 f = Some (b, s)" for f b s
  proof -
    from that(2) have b: "b < al_active_banks l" "s < bl_slot_capacity (al_banks l ! b)"
      "f = sum_list (map bl_slot_capacity (take b (al_banks l))) + s"
      using L(1,2) by (auto simp: find_bank_Some)
    have small: "b < 2 ^ 32" "s < 2 ^ 32"
      using b L(1) L(4) [OF b(1)] bank_slots_u30 [of g limits] by simp_all
    then have u: "unat (of_nat b :: u32) = b" "unat (of_nat s :: u32) = s"
      by (simp_all add: unat_of_nat)
    then obtain p where "pack \<lparr>el_bank = of_nat b, el_slot = of_nat s\<rparr> = Inr p"
      using packs [of "\<lparr>el_bank = of_nat b, el_slot = of_nat s\<rparr>"] b by auto
    with that u b show ?thesis
      by (simp add: location_for_flat_slot_def Let_def cap location_try_new_def flat)
  qed
  show "\<exists>loc. location_for_flat_slot l f = Inr loc" if "f < c"
    using find_bank_total [of f ?act 0] found [OF that] L(3) that by auto
  show "location_for_flat_slot l f = Inr loc \<longleftrightarrow> flat_slot_for_location l loc = Inr f"
  proof
    assume loc: "location_for_flat_slot l f = Inr loc"
    then have "f < c" by (auto simp: location_for_flat_slot_def cap Let_def split: if_splits)
    moreover from this obtain b s where "find_bank ?act 0 f = Some (b, s)"
      using find_bank_total [of f ?act 0] L(3) by auto
    ultimately show "flat_slot_for_location l loc = Inr f"
      using found loc by force
  next
    assume *: "flat_slot_for_location l loc = Inr f"
    then have b: "unat (el_bank loc) < al_active_banks l"
      "unat (el_slot loc) < bl_slot_capacity (al_banks l ! unat (el_bank loc))"
      "f = sum_list (map bl_slot_capacity (take (unat (el_bank loc)) (al_banks l))) + unat (el_slot loc)"
      by (auto simp: flat)
    then have "find_bank ?act 0 f = Some (unat (el_bank loc), unat (el_slot loc))"
      using L(1,2) by (auto simp: find_bank_Some)
    with found [OF lt [OF b]] show "location_for_flat_slot l f = Inr loc" by auto
  qed
qed

subsection \<open>A small device\<close>

definition demo_limits :: wgpu_limits where
  "demo_limits = \<lparr>max_buffer_size = 4000, max_storage_buffer_binding_size = 4000,
     max_storage_buffers_per_shader_stage = 8, max_push_constant_size = 128,
     max_compute_workgroup_size_x = 256, max_compute_invocations_per_workgroup = 256\<rparr>"

definition demo_geometry :: expert_geometry where
  "demo_geometry = \<lparr>eg_d_model = 32, eg_d_ff = 32, eg_num_experts = 4, eg_top_k = 2,
     eg_blocks_per_projection = 32, eg_logical_expert_bytes = 1728, eg_slot_stride_bytes = 1732\<rparr>"

lemma demo_geometry_eq: "geometry_try_new 32 32 4 2 = Inr demo_geometry"
  by (simp add: geometry_try_new_def router_geometry_try_new_def demo_geometry_def arena_consts
      checked_mul_def checked_add_def usize_MAX_def slot_stride_of_def)

lemma demo_geometry_ok: "geometry_ok demo_geometry"
  using geometry_try_new_ok [OF demo_geometry_eq] by blast

lemma demo_bank_slots: "maximum_bank_slots demo_geometry demo_limits = 2"
  by (simp add: maximum_bank_slots_def maximum_bank_bytes_def demo_limits_def demo_geometry_def
      unat_slot_mask shader_addressable_bytes_def)

lemma demo_limits_valid: "validate_q4_expert_pipeline_limits demo_limits = Inr ()"
  by (simp add: validate_q4_expert_pipeline_limits_def demo_limits_def
      EXPERT_REQUIRED_STORAGE_BUFFERS_def EXPERT_PUSH_CONSTANT_BYTES_def EXPERT_WORKGROUP_SIZE_def)

lemma demo_layout: "layout_try_new demo_geometry 3 demo_limits = Inr (layout_of demo_geometry 3 demo_limits)"
  by (simp add: layout_try_new_Inr [OF demo_geometry_ok] demo_bank_slots)

lemma slot_bytes_in_bank:
  assumes g: "geometry_ok g" and l: "layout_try_new g c limits = Inr l"
    and "flat_slot_for_location l loc = Inr f"
  shows "(unat (el_slot loc) + 1) * eg_slot_stride_bytes g
        \<le> bl_allocation_bytes (al_banks l ! unat (el_bank loc))"
    and "bl_allocation_bytes (al_banks l ! unat (el_bank loc)) \<le> maximum_bank_bytes limits"
proof -
  have c: "0 < c" "c \<le> 4 * maximum_bank_slots g limits" and eq: "l = layout_of g c limits"
    using l g by (auto simp: layout_try_new_Inr)
  have b: "unat (el_bank loc) < al_active_banks l"
    "unat (el_slot loc) + 1 \<le> bl_slot_capacity (al_banks l ! unat (el_bank loc))"
    using assms(3) by (auto simp: flat_slot_iff [OF g l])
  note L = layout_banks(4) [OF c, folded eq, OF b(1)]
  show "(unat (el_slot loc) + 1) * eg_slot_stride_bytes g
      \<le> bl_allocation_bytes (al_banks l ! unat (el_bank loc))"
    using L b(2) by (metis mult_le_mono1)
  show "bl_allocation_bytes (al_banks l ! unat (el_bank loc)) \<le> maximum_bank_bytes limits"
    using L bank_slots_bytes [of g limits] by (metis le_trans mult_le_mono1)
qed

text \<open>C31: for every accepted geometry and layout, the flat slot numbers and the physical locations are in
  bijection: each flat slot below the capacity has a location, that location packs into a word that
  unpacks to it, leads back to the same flat slot, and its byte range lies inside the allocation of its
  bank, which respects the device limits; and each location the layout accepts is the location of the
  flat slot it yields.\<close>

theorem slot_locations_roundtrip:
  assumes "geometry_try_new dm df ne k = Inr g" and "layout_try_new g c limits = Inr l"
  shows "(\<forall>f<c. \<exists>loc p. location_for_flat_slot l f = Inr loc \<and> flat_slot_for_location l loc = Inr f \<and>
      pack loc = Inr p \<and> unpack p = Some loc \<and> p \<noteq> EXPERT_UNMAPPED \<and>
      (unat (el_slot loc) + 1) * eg_slot_stride_bytes g
        \<le> bl_allocation_bytes (al_banks l ! unat (el_bank loc)) \<and>
      bl_allocation_bytes (al_banks l ! unat (el_bank loc))
        \<le> min (max_buffer_size limits) (max_storage_buffer_binding_size limits)) \<and>
    (\<forall>loc f. flat_slot_for_location l loc = Inr f \<longrightarrow> f < c \<and> location_for_flat_slot l f = Inr loc)"
proof (intro conjI allI impI)
  have g: "geometry_ok g" using assms(1) geometry_try_new_ok by blast
  note loc = location_iff [OF g assms(2)]
  fix f
  show "f < c" "location_for_flat_slot l f = Inr loc'" if "flat_slot_for_location l loc' = Inr f" for loc'
    using that loc by blast+
  assume "f < c"
  then obtain loc p where x: "location_for_flat_slot l f = Inr loc"
    "flat_slot_for_location l loc = Inr f" "pack loc = Inr p"
    using loc by blast
  have "unpack p = Some loc" using x(3) pack_unpack by blast
  moreover from this have "p \<noteq> EXPERT_UNMAPPED" by (auto simp: unpack_def split: if_splits)
  ultimately show "\<exists>loc p. location_for_flat_slot l f = Inr loc \<and> flat_slot_for_location l loc = Inr f \<and>
      pack loc = Inr p \<and> unpack p = Some loc \<and> p \<noteq> EXPERT_UNMAPPED \<and>
      (unat (el_slot loc) + 1) * eg_slot_stride_bytes g
        \<le> bl_allocation_bytes (al_banks l ! unat (el_bank loc)) \<and>
      bl_allocation_bytes (al_banks l ! unat (el_bank loc))
        \<le> min (max_buffer_size limits) (max_storage_buffer_binding_size limits)"
    using x slot_bytes_in_bank [OF g assms(2) x(2)] by (auto simp: maximum_bank_bytes_def)
qed

theorem slot_locations_roundtrip_witness:
  "\<exists>loc. location_for_flat_slot (layout_of demo_geometry 3 demo_limits) 2 = Inr loc \<and>
     flat_slot_for_location (layout_of demo_geometry 3 demo_limits) loc = Inr 2"
proof -
  have "(2 :: nat) < 3" by simp
  then show ?thesis using slot_locations_roundtrip [OF demo_geometry_eq demo_layout] by blast
qed

subsection \<open>The plan is the largest that fits\<close>

lemma largest_fitting_correct:
  assumes anti: "\<And>m n. fits n \<Longrightarrow> low \<le> m \<Longrightarrow> m \<le> n \<Longrightarrow> fits m"
    and "fits low" "low \<le> high"
  shows "fits (largest_fitting fits low high) \<and> low \<le> largest_fitting fits low high \<and>
    largest_fitting fits low high \<le> high \<and>
    (\<forall>k. largest_fitting fits low high < k \<and> k \<le> high \<longrightarrow> \<not> fits k)"
  using assms
proof (induction fits low high rule: largest_fitting.induct)
  case (1 fits low high)
  show ?case
  proof (cases "low < high")
    case False
    then have "largest_fitting fits low high = low"
      by (simp add: largest_fitting.simps [of fits low high])
    then show ?thesis using 1(4,5) False by auto
  next
    case True
    define mid where "mid = low + div_ceil (high - low) 2"
    have mid: "low < mid" "mid \<le> high" using True by (auto simp: mid_def div_ceil_def)
    show ?thesis
    proof (cases "fits mid")
      case fit: True
      have "largest_fitting fits low high = largest_fitting fits mid high"
        using True fit by (simp add: largest_fitting.simps [of fits low high] mid_def [symmetric] Let_def)
      then show ?thesis
        using 1(1) [OF True mid_def fit] 1(3) fit mid by fastforce
    next
      case no: False
      have eq: "largest_fitting fits low high = largest_fitting fits low (mid - 1)"
        using True no by (simp add: largest_fitting.simps [of fits low high] mid_def [symmetric] Let_def)
      have ih: "fits (largest_fitting fits low (mid - 1)) \<and> low \<le> largest_fitting fits low (mid - 1) \<and>
          largest_fitting fits low (mid - 1) \<le> mid - 1 \<and>
          (\<forall>k. largest_fitting fits low (mid - 1) < k \<and> k \<le> mid - 1 \<longrightarrow> \<not> fits k)"
        using 1(2) [OF True mid_def no] 1(3,4) mid by fastforce
      have "\<not> fits k" if "mid \<le> k" for k
        using no 1(3) [of k mid] that mid by auto
      then show ?thesis
        using ih mid eq by (metis Suc_pred' le_less_linear less_Suc_eq_le order.strict_trans1
            order_trans zero_less_iff_neq_zero not_less_zero less_imp_le)
    qed
  qed
qed

lemma slot_count_fits_iff:
  assumes "geometry_ok g"
  shows "slot_count_fits g limits budget c \<longleftrightarrow>
    0 < c \<and> c \<le> 4 * maximum_bank_slots g limits \<and> arena_bytes g c limits \<le> budget"
proof (cases "layout_try_new g c limits")
  case (Inl e)
  then have "\<not> (0 < c \<and> c \<le> 4 * maximum_bank_slots g limits)"
    using layout_try_new_Inr [OF assms, of c limits "layout_of g c limits"] by auto
  with Inl show ?thesis by (auto simp: slot_count_fits_def)
next
  case (Inr l)
  then have "0 < c" "c \<le> 4 * maximum_bank_slots g limits" "l = layout_of g c limits"
    by (auto simp: layout_try_new_Inr [OF assms])
  with Inr show ?thesis
    by (simp add: slot_count_fits_def total_allocation_eq [OF assms])
qed

lemma slot_count_fits_antimono:
  assumes g: "geometry_ok g" and fit: "slot_count_fits g limits budget n" and "1 \<le> m" "m \<le> n"
  shows "slot_count_fits g limits budget m"
proof -
  have "m = n \<or> arena_bytes g m limits < arena_bytes g n limits"
    using arena_bytes_less [OF g, of m n limits] fit assms(4)
    by (cases "m = n") (auto simp: slot_count_fits_iff [OF g])
  then show ?thesis
    using fit assms(3,4) by (auto simp: slot_count_fits_iff [OF g])
qed

definition plan_of :: "expert_geometry \<Rightarrow> nat \<Rightarrow> usize \<Rightarrow> wgpu_limits \<Rightarrow> bootstrap_error + vram_plan" where
  "plan_of g budget c limits = plan_of_layout g (Some budget) (layout_of g c limits)"

lemma plan_of_Inr:
  assumes "geometry_ok g" "c \<le> 4 * maximum_bank_slots g limits"
  shows "\<exists>p. plan_of g budget c limits = Inr p \<and> vp_layout p = layout_of g c limits \<and>
    vp_geometry p = g \<and> vp_requested_expert_budget_bytes p = budget \<and>
    vp_total_arena_allocation_bytes p = arena_bytes g c limits"
  using total_allocation_eq [OF assms] by (auto simp: plan_of_def plan_of_layout_def)

lemma try_for_slot_capacity_eq:
  assumes "geometry_ok g"
  shows "try_for_slot_capacity g c limits = Inr p \<longleftrightarrow>
    validate_q4_expert_pipeline_limits limits = Inr () \<and> 0 < c \<and> c \<le> eg_num_experts g \<and>
    c \<le> 4 * maximum_bank_slots g limits \<and> plan_of g (arena_bytes g c limits) c limits = Inr p"
proof -
  have "plan_of_layout g None (layout_of g c limits) = plan_of g (arena_bytes g c limits) c limits"
    if "c \<le> 4 * maximum_bank_slots g limits"
    using total_allocation_eq [OF assms that] by (auto simp: plan_of_layout_def plan_of_def)
  then show ?thesis
    by (auto simp: try_for_slot_capacity_def res_iff layout_try_new_Inr [OF assms] split: if_splits)
qed

lemma plan_try_new_eq:
  fixes limits :: wgpu_limits
  assumes g: "geometry_ok g"
  defines "m \<equiv> maximum_bank_slots g limits"
  shows "plan_try_new g budget limits = Inr p \<longleftrightarrow>
    validate_q4_expert_pipeline_limits limits = Inr () \<and> 0 < m \<and> arena_bytes g 1 limits \<le> budget \<and>
    plan_of g budget (largest_fitting (slot_count_fits g limits budget) 1 (min (4 * m) (eg_num_experts g)))
      limits = Inr p"
proof -
  let ?max = "min (4 * m) (eg_num_experts g)"
  let ?low = "largest_fitting (slot_count_fits g limits budget) 1 ?max"
  have "4 * m \<le> usize_MAX"
    using bank_slots_u30 [of g limits] by (simp add: m_def usize_MAX_def)
  then have cm: "checked_mul m 4 = Some (4 * m)"
    by (simp add: checked_mul_def mult.commute)
  have one: "layout_try_new g 1 limits = Inr l \<longleftrightarrow> 0 < m \<and> l = layout_of g 1 limits" for l
    by (auto simp: layout_try_new_Inr [OF g] m_def)
  have low: "layout_try_new g ?low limits = Inr (layout_of g ?low limits)"
    if m: "0 < m" and "arena_bytes g 1 limits \<le> budget"
  proof -
    have "1 \<le> ?max" using m g by (auto simp: geometry_ok_def min_def)
    moreover have "slot_count_fits g limits budget 1"
      using that by (simp add: slot_count_fits_iff [OF g] m_def)
    ultimately have "slot_count_fits g limits budget ?low"
      using largest_fitting_correct [of "slot_count_fits g limits budget" 1 ?max]
        slot_count_fits_antimono [OF g] by blast
    then show ?thesis by (auto simp: slot_count_fits_iff [OF g] layout_try_new_Inr [OF g])
  qed
  have tot: "0 < m \<Longrightarrow> total_allocation_bytes (layout_of g 1 limits) = Inr (arena_bytes g 1 limits)"
    using total_allocation_eq(2) [OF g, of 1 limits] by (simp add: m_def)
  show ?thesis
  proof (cases "0 < m")
    case False
    then have "layout_try_new g 1 limits \<noteq> Inr l" for l using one by blast
    then obtain e where "layout_try_new g 1 limits = Inl e" by (metis sum.exhaust)
    with False show ?thesis
      by (cases "validate_q4_expert_pipeline_limits limits") (simp_all add: plan_try_new_def)
  next
    case True
    then have "layout_try_new g 1 limits = Inr (layout_of g 1 limits)" using one by blast
    with True tot low show ?thesis
      by (cases "validate_q4_expert_pipeline_limits limits")
        (simp_all add: plan_try_new_def Let_def m_def [symmetric] arena_consts(3) cm plan_of_def
          del: One_nat_def)
  qed
qed

lemma plan_search:
  assumes g: "geometry_ok g" and m: "0 < maximum_bank_slots g limits"
    and fits: "arena_bytes g 1 limits \<le> budget"
  defines "s \<equiv> largest_fitting (slot_count_fits g limits budget) 1
                 (min (4 * maximum_bank_slots g limits) (eg_num_experts g))"
  shows "1 \<le> s" "s \<le> eg_num_experts g" "s \<le> 4 * maximum_bank_slots g limits"
    "arena_bytes g s limits \<le> budget"
    and "s < c \<Longrightarrow> c \<le> eg_num_experts g \<Longrightarrow> c \<le> 4 * maximum_bank_slots g limits \<Longrightarrow>
      budget < arena_bytes g c limits"
proof -
  let ?max = "min (4 * maximum_bank_slots g limits) (eg_num_experts g)"
  have "1 \<le> ?max" using m g by (auto simp: geometry_ok_def min_def)
  moreover have "slot_count_fits g limits budget 1"
    using fits m by (simp add: slot_count_fits_iff [OF g])
  ultimately have *: "slot_count_fits g limits budget s \<and> 1 \<le> s \<and> s \<le> ?max \<and>
      (\<forall>k. s < k \<and> k \<le> ?max \<longrightarrow> \<not> slot_count_fits g limits budget k)"
    using largest_fitting_correct [of "slot_count_fits g limits budget" 1 ?max]
      slot_count_fits_antimono [OF g] unfolding s_def by blast
  then show "1 \<le> s" "s \<le> eg_num_experts g" "s \<le> 4 * maximum_bank_slots g limits"
    "arena_bytes g s limits \<le> budget"
    by (auto simp: slot_count_fits_iff [OF g])
  show "budget < arena_bytes g c limits"
    if "s < c" "c \<le> eg_num_experts g" "c \<le> 4 * maximum_bank_slots g limits"
    using * that by (auto simp: slot_count_fits_iff [OF g] not_le)
qed

text \<open>C13: the plan for an expert-VRAM budget stays within it, holds at least one slot, is exactly the
  fixed allocation of that slot count, and is the largest: every plan with more slots that the device
  supports exceeds the budget.\<close>

theorem vram_plan_maximal:
  assumes "geometry_try_new dm df ne k = Inr g" and "plan_try_new g budget limits = Inr p"
  shows "vp_total_arena_allocation_bytes p \<le> budget \<and> 1 \<le> al_slot_capacity (vp_layout p) \<and>
    (\<exists>q. try_for_slot_capacity g (al_slot_capacity (vp_layout p)) limits = Inr q \<and>
         vp_layout q = vp_layout p \<and>
         vp_total_arena_allocation_bytes q = vp_total_arena_allocation_bytes p) \<and>
    (\<forall>c q. al_slot_capacity (vp_layout p) < c \<and> try_for_slot_capacity g c limits = Inr q \<longrightarrow>
         budget < vp_total_arena_allocation_bytes q)"
proof -
  let ?m = "maximum_bank_slots g limits"
  define s where "s = largest_fitting (slot_count_fits g limits budget) 1 (min (4 * ?m) (eg_num_experts g))"
  have g: "geometry_ok g" using assms(1) geometry_try_new_ok by blast
  have p: "validate_q4_expert_pipeline_limits limits = Inr ()" "0 < ?m"
    "arena_bytes g 1 limits \<le> budget" "plan_of g budget s limits = Inr p"
    using assms(2) unfolding plan_try_new_eq [OF g] s_def by blast+
  note S = plan_search [OF g p(2,3), folded s_def]
  have P: "vp_layout p = layout_of g s limits" "vp_total_arena_allocation_bytes p = arena_bytes g s limits"
    using plan_of_Inr [OF g S(3), of budget] p(4) by auto
  moreover obtain q where q: "plan_of g (arena_bytes g s limits) s limits = Inr q"
    "vp_layout q = layout_of g s limits" "vp_total_arena_allocation_bytes q = arena_bytes g s limits"
    using plan_of_Inr [OF g S(3), of "arena_bytes g s limits"] by blast
  then have "try_for_slot_capacity g s limits = Inr q"
    using try_for_slot_capacity_eq [OF g] p(1) S by (metis One_nat_def Suc_le_eq)
  moreover have "budget < vp_total_arena_allocation_bytes q"
    if "s < c" "try_for_slot_capacity g c limits = Inr q" for c q
  proof -
    have c: "c \<le> eg_num_experts g" "c \<le> 4 * ?m" "plan_of g (arena_bytes g c limits) c limits = Inr q"
      using that(2) unfolding try_for_slot_capacity_eq [OF g] by blast+
    then have "vp_total_arena_allocation_bytes q = arena_bytes g c limits"
      using plan_of_Inr [OF g c(2), of "arena_bytes g c limits"] by auto
    then show ?thesis using S(5) [OF that(1) c(1,2)] by simp
  qed
  ultimately show ?thesis
    using S(1,4) q P by auto
qed

theorem vram_plan_maximal_witness:
  "\<exists>p. plan_try_new demo_geometry 6000 demo_limits = Inr p \<and> vp_total_arena_allocation_bytes p \<le> 6000"
proof -
  have "arena_bytes demo_geometry 1 demo_limits \<le> 6000"
    by (simp add: arena_bytes_def demo_geometry_def)
  then obtain p where p: "plan_try_new demo_geometry 6000 demo_limits = Inr p"
    using plan_try_new_eq [OF demo_geometry_ok] plan_search [OF demo_geometry_ok] demo_limits_valid
      demo_bank_slots plan_of_Inr [OF demo_geometry_ok] by (metis zero_less_numeral)
  then show ?thesis using vram_plan_maximal [OF demo_geometry_eq p] by blast
qed

text \<open>The arena constructor accepts a model-wide plan: recomputing a plan from the exact byte total of a
  slot count gives that plan back.\<close>

lemma slot_plan_reconstructed:
  assumes "geometry_ok g" and "try_for_slot_capacity g c limits = Inr q"
  shows "plan_try_new g (vp_requested_expert_budget_bytes q) limits = Inr q"
proof -
  note g = assms(1)
  let ?m = "maximum_bank_slots g limits" and ?b = "arena_bytes g c limits"
  define s where "s = largest_fitting (slot_count_fits g limits ?b) 1 (min (4 * ?m) (eg_num_experts g))"
  have c: "validate_q4_expert_pipeline_limits limits = Inr ()" "0 < c" "c \<le> eg_num_experts g"
    "c \<le> 4 * ?m" "plan_of g ?b c limits = Inr q"
    using assms(2) unfolding try_for_slot_capacity_eq [OF g] by blast+
  then have m: "0 < ?m" by (cases "?m = 0") auto
  have one: "arena_bytes g 1 limits \<le> ?b"
    using arena_bytes_less [OF g _ m, of 1 c] c(2) by (cases "c = 1") auto
  note S = plan_search [OF g m one, folded s_def]
  have "s = c"
  proof (rule ccontr)
    assume "s \<noteq> c"
    then show False
      using S(4) S(5) [of c] c(3,4) arena_bytes_less [OF g _ m, of c s] by (metis less_irrefl linorder_neqE_nat not_le)
  qed
  moreover have "vp_requested_expert_budget_bytes q = ?b"
    using plan_of_Inr [OF g c(4), of ?b] c(5) by auto
  ultimately show ?thesis
    using c(1,5) m one unfolding plan_try_new_eq [OF g] s_def by simp
qed

subsection \<open>Bytes of a physical slot\<close>

definition validate_q4_expert_payload ::
    "expert_geometry \<Rightarrow> u32 \<Rightarrow> u8 list \<Rightarrow> bootstrap_error + unit" where
  "validate_q4_expert_payload g logical_id payload =
     (if length payload < eg_logical_expert_bytes g
      then Inl (ExpertPayloadTooShort logical_id (eg_logical_expert_bytes g) (length payload))
      else if length payload > physical_payload_bytes g
      then Inl (ExpertPayloadTrailingBytes logical_id (physical_payload_bytes g) (length payload))
      else if \<exists>b \<in> set (drop (eg_logical_expert_bytes g) payload). b \<noteq> 0
      then Inl (ExpertPayloadNonZeroPadding logical_id)
      else Inr ())"

record checked_slot =
  cs_geometry :: expert_geometry
  cs_slot_epoch :: u32
  cs_payload :: "u8 list"

definition checked_slot_new ::
    "expert_geometry \<Rightarrow> u32 \<Rightarrow> u32 \<Rightarrow> u8 list \<Rightarrow> bootstrap_error + checked_slot" where
  "checked_slot_new g logical_id slot_epoch payload =
     ebind (validate_q4_expert_payload g logical_id payload) (\<lambda>_.
       if slot_epoch = 0 then Inl (InvalidExpertSlotEpoch slot_epoch)
       else Inr \<lparr>cs_geometry = g, cs_slot_epoch = slot_epoch, cs_payload = payload\<rparr>)"

definition slot_fill :: "checked_slot \<Rightarrow> u8 list \<Rightarrow> bootstrap_error + u8 list" where
  "slot_fill cs destination =
     (let g = cs_geometry cs in
      if length destination \<noteq> eg_slot_stride_bytes g
      then Inl (ExpertPhysicalSlotDestinationLength (eg_slot_stride_bytes g) (length destination))
      else
        let zeroed = replicate (length destination) 0;
            d = subslice_write zeroed 0 (u32_to_le_bytes (cs_slot_epoch cs)) in
        ebind (ok_or ExpertArenaBudgetOverflow
                 (checked_add EXPERT_SLOT_EPOCH_BYTES (eg_logical_expert_bytes g))) (\<lambda>_.
        Inr (subslice_write d EXPERT_SLOT_EPOCH_BYTES (take (eg_logical_expert_bytes g) (cs_payload cs)))))"

definition complete_overwrite_range :: "checked_slot \<Rightarrow> usize \<Rightarrow> bootstrap_error + usize \<times> usize" where
  "complete_overwrite_range cs destination_len =
     (let g = cs_geometry cs in
      if destination_len \<noteq> eg_slot_stride_bytes g
      then Inl (ExpertPhysicalSlotDestinationLength (eg_slot_stride_bytes g) destination_len)
      else ebind (ok_or ExpertArenaBudgetOverflow
                    (checked_add EXPERT_SLOT_EPOCH_BYTES (eg_logical_expert_bytes g))) (\<lambda>payload_end.
             if payload_end \<noteq> destination_len
             then Inl (ExpertPhysicalSlotDestinationLength payload_end destination_len)
             else Inr (EXPERT_SLOT_EPOCH_BYTES, payload_end)))"

definition fill_complete_overwrite_no_zero ::
    "checked_slot \<Rightarrow> u8 list \<Rightarrow> bootstrap_error + u8 list" where
  "fill_complete_overwrite_no_zero cs destination =
     ebind (complete_overwrite_range cs (length destination)) (\<lambda>(start, _).
       let d = subslice_write destination 0 (u32_to_le_bytes (cs_slot_epoch cs)) in
       Inr (subslice_write d start (take (eg_logical_expert_bytes (cs_geometry cs)) (cs_payload cs))))"

definition physical_q4_expert_slot ::
    "expert_geometry \<Rightarrow> u32 \<Rightarrow> u32 \<Rightarrow> u8 list \<Rightarrow> bootstrap_error + u8 list" where
  "physical_q4_expert_slot g logical_id slot_epoch payload =
     ebind (checked_slot_new g logical_id slot_epoch payload)
       (\<lambda>cs. slot_fill cs (replicate (eg_slot_stride_bytes g) 0))"

definition slot_image :: "u32 \<Rightarrow> u8 list \<Rightarrow> u8 list" where
  "slot_image slot_epoch payload = u32_to_le_bytes slot_epoch @ payload"

lemma checked_slot_new_iff:
  assumes "geometry_ok g"
  shows "checked_slot_new g logical_id slot_epoch payload = Inr cs \<longleftrightarrow>
    length payload = eg_logical_expert_bytes g \<and> slot_epoch \<noteq> 0 \<and>
    cs = \<lparr>cs_geometry = g, cs_slot_epoch = slot_epoch, cs_payload = payload\<rparr>"
  using assms
  by (auto simp: checked_slot_new_def validate_q4_expert_payload_def physical_payload_bytes_def
      geometry_ok_def arena_consts(7) res_iff split: if_splits)

lemma geometry_bytes_checked:
  "geometry_ok g \<Longrightarrow> checked_add 4 (eg_logical_expert_bytes g) = Some (eg_slot_stride_bytes g)"
  by (auto simp: geometry_ok_def checked_add_def usize_MAX_def)

lemma overwrite_all:
  assumes "length d = 4 + length y" "length x = 4"
  shows "subslice_write (subslice_write d 0 x) 4 y = x @ y"
  using assms by (simp add: subslice_write_def)

lemma slot_fill_image:
  assumes g: "geometry_ok g" and "checked_slot_new g logical_id slot_epoch payload = Inr cs"
    and "length d = eg_slot_stride_bytes g"
  shows "slot_fill cs d = Inr (slot_image slot_epoch payload)"
    and "fill_complete_overwrite_no_zero cs d = Inr (slot_image slot_epoch payload)"
proof -
  have cs: "length payload = eg_logical_expert_bytes g" "cs_geometry cs = g"
    "cs_slot_epoch cs = slot_epoch" "cs_payload cs = payload"
    using assms(2) by (auto simp: checked_slot_new_iff [OF g])
  have len: "eg_slot_stride_bytes g = 4 + length payload"
    using g cs(1) by (simp add: geometry_ok_def)
  show "slot_fill cs d = Inr (slot_image slot_epoch payload)"
    using cs len assms(3) geometry_bytes_checked [OF g]
    by (simp add: slot_fill_def Let_def arena_consts(7) slot_image_def overwrite_all)
  show "fill_complete_overwrite_no_zero cs d = Inr (slot_image slot_epoch payload)"
    using cs len assms(3) geometry_bytes_checked [OF g]
    by (simp add: fill_complete_overwrite_no_zero_def complete_overwrite_range_def Let_def
        arena_consts(7) slot_image_def overwrite_all)
qed

text \<open>C34: for every geometry the constructor accepts, the production fill, which writes no zeroes, leaves no
  byte of the recycled staging memory behind: on every destination of the slot's length it produces the
  same bytes as the zero-filling routine and as the materialised slot, namely the epoch word followed by
  the payload; and a payload is accepted exactly when it has the logical expert size and the epoch is
  not zero.\<close>

theorem slot_fill_complete:
  assumes "geometry_try_new dm df ne k = Inr g" and "length destination = eg_slot_stride_bytes g"
  shows "(\<forall>cs. checked_slot_new g logical_id slot_epoch payload = Inr cs \<longrightarrow>
      fill_complete_overwrite_no_zero cs destination = slot_fill cs destination \<and>
      slot_fill cs destination = physical_q4_expert_slot g logical_id slot_epoch payload \<and>
      slot_fill cs destination = Inr (u32_to_le_bytes slot_epoch @ payload)) \<and>
    ((\<exists>cs. checked_slot_new g logical_id slot_epoch payload = Inr cs) \<longleftrightarrow>
      length payload = eg_logical_expert_bytes g \<and> slot_epoch \<noteq> 0)"
proof -
  have g: "geometry_ok g" using assms(1) geometry_try_new_ok by blast
  have "physical_q4_expert_slot g logical_id slot_epoch payload = Inr (slot_image slot_epoch payload)"
    if "checked_slot_new g logical_id slot_epoch payload = Inr cs" for cs
    using that slot_fill_image(1) [OF g that] by (simp add: physical_q4_expert_slot_def)
  then show ?thesis
    using slot_fill_image [OF g _ assms(2), of logical_id slot_epoch payload]
      checked_slot_new_iff [OF g, of logical_id slot_epoch payload]
    by (simp add: slot_image_def)
qed

theorem slot_fill_complete_witness:
  "\<exists>cs. checked_slot_new demo_geometry 3 7 (replicate 1728 5) = Inr cs \<and>
     fill_complete_overwrite_no_zero cs (replicate 1732 9) =
       Inr (u32_to_le_bytes 7 @ replicate 1728 5)"
proof -
  have "length (replicate 1732 (9 :: u8)) = eg_slot_stride_bytes demo_geometry"
    "length (replicate 1728 (5 :: u8)) = eg_logical_expert_bytes demo_geometry"
    by (simp_all add: demo_geometry_def)
  then show ?thesis
    using slot_fill_complete [OF demo_geometry_eq, of "replicate 1732 9" 3 7 "replicate 1728 5"]
    by auto
qed

end
