(* ===== verification/ExpertArena.thy ===== *)
theory ExpertArena
  imports ArenaLayout
begin

section \<open>Physical slots of the GPU expert arena\<close>

text \<open>
  Model of the mutable half of the GPU-native expert arena of \<open>backend/gpu_native.rs\<close>: one layer's
  physical slots, the reservation of a slot for a logical generation, the two-phase install (stage the
  bytes outside the lock, then recheck the reservation and publish the mapping), retirement and
  cancellation. The arena carries the device memory it writes to: the banks as byte strings and the
  GPU-visible mapping table as a list of entries (entry \<open>i\<close> at byte offset \<open>8 * i\<close>). Buffers are zero
  when created, and queue writes take effect in the order in which they are enqueued, as \<open>wgpu\<close>
  documents. The staging memory that \<open>write_buffer_with\<close> hands out is an argument (\<open>None\<close> when the
  queue has none); its contents are arbitrary.
\<close>

named_theorems arena_defs "operations of the arena"

subsection \<open>Identities and slots\<close>

record q4_key =
  qk_layer_index :: usize
  qk_expert_id :: u32
  qk_logical_generation :: u64

record q4_residency =
  qr_key :: q4_key
  qr_location :: expert_location
  qr_slot_epoch :: u32

definition residency_mapping_entry :: "q4_residency \<Rightarrow> bootstrap_error + mapping_entry" where
  "residency_mapping_entry r = mapping_entry_try_new (qr_location r) (qr_slot_epoch r)"

record residency_counters =
  expert_slot_installs :: nat
  expert_slot_retires :: nat
  expert_slot_reuses :: nat
  expert_mapping_publications :: nat
  expert_mapping_unpublications :: nat
  expert_stale_install_rejections :: nat
  expert_install_cancellations :: nat

definition counters_default :: residency_counters where
  "counters_default = \<lparr>expert_slot_installs = 0, expert_slot_retires = 0, expert_slot_reuses = 0,
     expert_mapping_publications = 0, expert_mapping_unpublications = 0,
     expert_stale_install_rejections = 0, expert_install_cancellations = 0\<rparr>"

datatype slot_owner =
    OwnerFree
  | OwnerInstalling (so_key: q4_key) (so_slot_epoch: u32) (so_install_ticket: u64)
  | OwnerResident (so_residency: q4_residency)

record physical_slot =
  sl_location :: expert_location
  sl_last_epoch :: u32
  sl_ever_installed :: bool
  sl_owner :: slot_owner

record arena_state =
  as_slots :: "physical_slot list"
  as_logical_slots :: "usize option list"
  as_latest_generations :: "u64 option list"
  as_next_install_ticket :: u64
  as_counters :: residency_counters

fun new_slots :: "arena_layout \<Rightarrow> usize \<Rightarrow> nat \<Rightarrow> bootstrap_error + physical_slot list" where
  "new_slots l flat 0 = Inr []"
| "new_slots l flat (Suc n) =
     ebind (location_for_flat_slot l flat) (\<lambda>location.
     ebind (new_slots l (Suc flat) n) (\<lambda>slots.
     Inr (\<lparr>sl_location = location, sl_last_epoch = 0, sl_ever_installed = False,
           sl_owner = OwnerFree\<rparr> # slots)))"

definition arena_state_new :: "expert_geometry \<Rightarrow> arena_layout \<Rightarrow> bootstrap_error + arena_state" where
  "arena_state_new g l =
     ebind (new_slots l 0 (al_slot_capacity l)) (\<lambda>slots.
     Inr \<lparr>as_slots = slots, as_logical_slots = replicate (eg_num_experts g) None,
          as_latest_generations = replicate (eg_num_experts g) None,
          as_next_install_ticket = 1, as_counters = counters_default\<rparr>)"

subsection \<open>The arena and its device memory\<close>

record q4_arena =
  qa_context_id :: u64
  qa_layer_index :: usize
  qa_plan :: vram_plan
  qa_banks :: "u8 list list"
  qa_mapping :: "mapping_entry list"
  qa_state :: arena_state

abbreviation qa_geometry :: "q4_arena \<Rightarrow> expert_geometry" where
  "qa_geometry a \<equiv> vp_geometry (qa_plan a)"

abbreviation qa_slots :: "q4_arena \<Rightarrow> physical_slot list" where
  "qa_slots a \<equiv> as_slots (qa_state a)"

definition write_mapping :: "nat \<Rightarrow> mapping_entry \<Rightarrow> q4_arena \<Rightarrow> q4_arena" where
  "write_mapping offset entry a =
     a\<lparr>qa_mapping := (qa_mapping a)[offset div EXPERT_MAPPING_ENTRY_BYTES := entry]\<rparr>"

definition write_bank :: "u32 \<Rightarrow> nat \<Rightarrow> u8 list \<Rightarrow> q4_arena \<Rightarrow> q4_arena" where
  "write_bank bank offset bytes a =
     a\<lparr>qa_banks := (qa_banks a)[unat bank := subslice_write (qa_banks a ! unat bank) offset bytes]\<rparr>"

definition mapping_offset_of :: "usize \<Rightarrow> bootstrap_error + nat" where
  "mapping_offset_of logical_id =
     ok_or ExpertArenaBudgetOverflow (checked_mul logical_id EXPERT_MAPPING_ENTRY_BYTES)"

definition set_slot_owner :: "usize \<Rightarrow> slot_owner \<Rightarrow> q4_arena \<Rightarrow> q4_arena" where
  "set_slot_owner flat owner a =
     a\<lparr>qa_state := (qa_state a)\<lparr>as_slots := (qa_slots a)[flat := (qa_slots a ! flat)\<lparr>sl_owner := owner\<rparr>]\<rparr>\<rparr>"

definition set_logical_slot :: "usize \<Rightarrow> usize option \<Rightarrow> q4_arena \<Rightarrow> q4_arena" where
  "set_logical_slot logical_id slot a =
     a\<lparr>qa_state := (qa_state a)\<lparr>as_logical_slots := (as_logical_slots (qa_state a))[logical_id := slot]\<rparr>\<rparr>"

definition count_event :: "(residency_counters \<Rightarrow> residency_counters) \<Rightarrow> q4_arena \<Rightarrow> q4_arena" where
  "count_event f a = a\<lparr>qa_state := (qa_state a)\<lparr>as_counters := f (as_counters (qa_state a))\<rparr>\<rparr>"

definition bump_installs where
  "bump_installs c = c\<lparr>expert_slot_installs := saturating_add (expert_slot_installs c) 1\<rparr>"
definition bump_retires where
  "bump_retires c = c\<lparr>expert_slot_retires := saturating_add (expert_slot_retires c) 1\<rparr>"
definition bump_reuses where
  "bump_reuses c = c\<lparr>expert_slot_reuses := saturating_add (expert_slot_reuses c) 1\<rparr>"
definition bump_publications where
  "bump_publications c = c\<lparr>expert_mapping_publications := saturating_add (expert_mapping_publications c) 1\<rparr>"
definition bump_unpublications where
  "bump_unpublications c = c\<lparr>expert_mapping_unpublications := saturating_add (expert_mapping_unpublications c) 1\<rparr>"
definition bump_stale where
  "bump_stale c = c\<lparr>expert_stale_install_rejections := saturating_add (expert_stale_install_rejections c) 1\<rparr>"
definition bump_cancellations where
  "bump_cancellations c = c\<lparr>expert_install_cancellations := saturating_add (expert_install_cancellations c) 1\<rparr>"

text \<open>\<open>Vec::get(i).copied().flatten()\<close> on a vector of options.\<close>

definition get_flat :: "'a option list \<Rightarrow> usize \<Rightarrow> 'a option" where
  "get_flat xs i = (if i < length xs then xs ! i else None)"

definition contains_exact_residency :: "u64 \<Rightarrow> q4_residency \<Rightarrow> q4_arena \<Rightarrow> bool" where
  "contains_exact_residency context_id r a =
     (if qa_context_id a \<noteq> context_id \<or> qk_layer_index (qr_key r) \<noteq> qa_layer_index a then False
      else
        let st = qa_state a; logical_id = unat (qk_expert_id (qr_key r)) in
        case get_flat (as_logical_slots st) logical_id of
          None \<Rightarrow> False
        | Some flat_slot \<Rightarrow>
            get_flat (as_latest_generations st) logical_id = Some (qk_logical_generation (qr_key r)) \<and>
            flat_slot < length (as_slots st) \<and>
            sl_location (as_slots st ! flat_slot) = qr_location r \<and>
            sl_last_epoch (as_slots st ! flat_slot) = qr_slot_epoch r \<and>
            sl_owner (as_slots st ! flat_slot) = OwnerResident r)"

definition is_resident :: "physical_slot \<Rightarrow> bool" where
  "is_resident s = (case sl_owner s of OwnerResident _ \<Rightarrow> True | _ \<Rightarrow> False)"

definition is_installing :: "physical_slot \<Rightarrow> bool" where
  "is_installing s = (case sl_owner s of OwnerInstalling _ _ _ \<Rightarrow> True | _ \<Rightarrow> False)"

definition resident_experts :: "q4_arena \<Rightarrow> usize" where
  "resident_experts a = length (filter is_resident (qa_slots a))"

record residency_snapshot =
  rs_resident_slots :: usize
  rs_installing_slots :: usize
  rs_free_slots :: usize
  rs_slot_capacity :: usize
  rs_active_banks :: usize
  rs_arena_allocation_bytes :: nat
  rs_resident_logical_payload_bytes :: nat
  rs_counters :: residency_counters

definition arena_residency_snapshot :: "q4_arena \<Rightarrow> residency_snapshot" where
  "arena_residency_snapshot a =
     (let resident = length (filter is_resident (qa_slots a));
          installing = length (filter is_installing (qa_slots a)) in
      \<lparr>rs_resident_slots = resident, rs_installing_slots = installing,
       rs_free_slots = saturating_sub (saturating_sub (length (qa_slots a)) resident) installing,
       rs_slot_capacity = al_slot_capacity (vp_layout (qa_plan a)),
       rs_active_banks = al_active_banks (vp_layout (qa_plan a)),
       rs_arena_allocation_bytes = vp_total_arena_allocation_bytes (qa_plan a),
       rs_resident_logical_payload_bytes =
         (case checked_mul resident (eg_logical_expert_bytes (qa_geometry a)) of
            Some bytes \<Rightarrow> bytes | None \<Rightarrow> usize_MAX),
       rs_counters = as_counters (qa_state a)\<rparr>)"

subsection \<open>Cancellation, acquisition and retirement\<close>

definition cancel_install :: "usize \<Rightarrow> u64 \<Rightarrow> q4_arena \<Rightarrow> q4_arena" where
  "cancel_install flat_slot install_ticket a =
     (if flat_slot < length (qa_slots a) then
        case sl_owner (qa_slots a ! flat_slot) of
          OwnerInstalling key _ current \<Rightarrow>
            if current = install_ticket then
              let a' = set_slot_owner flat_slot OwnerFree a;
                  logical_id = unat (qk_expert_id key);
                  a'' = (if get_flat (as_logical_slots (qa_state a')) logical_id = Some flat_slot
                         then set_logical_slot logical_id None a' else a') in
              count_event bump_cancellations a''
            else a
        | _ \<Rightarrow> a
      else a)"

record install_permit =
  ip_key :: q4_key
  ip_flat_slot :: usize
  ip_residency :: q4_residency
  ip_install_ticket :: u64
  ip_reused :: bool
  ip_active :: bool

datatype q4_acquire =
    AcquireHit q4_residency
  | AcquireInstall install_permit
  | InstallInProgress
  | AcquireStaleRequester
  | NoPhysicalSlot

text \<open>The \<open>find_map\<close> over the slots: the first free slot whose epoch is not exhausted, and the first
  exhausted free slot met on the way.\<close>

fun find_free_slot ::
    "usize \<Rightarrow> expert_location option \<Rightarrow> physical_slot list \<Rightarrow> usize option \<times> expert_location option" where
  "find_free_slot i exhausted [] = (None, exhausted)"
| "find_free_slot i exhausted (slot # slots) =
     (if sl_owner slot \<noteq> OwnerFree then find_free_slot (Suc i) exhausted slots
      else if unat (sl_last_epoch slot) = u32_MAX
      then find_free_slot (Suc i)
             (case exhausted of Some l \<Rightarrow> Some l | None \<Rightarrow> Some (sl_location slot)) slots
      else (Some i, exhausted))"

definition reserve_slot :: "q4_key \<Rightarrow> q4_arena \<Rightarrow> (bootstrap_error + q4_acquire) \<times> q4_arena" where
  "reserve_slot key a =
     (let logical_id = unat (qk_expert_id key); st = qa_state a;
          st = st\<lparr>as_latest_generations :=
                    (as_latest_generations st)[logical_id := Some (qk_logical_generation key)]\<rparr> in
      case find_free_slot 0 None (as_slots st) of
        (None, Some location) \<Rightarrow>
          (Inl (ExpertSlotEpochExhausted (el_bank location) (el_slot location)), a\<lparr>qa_state := st\<rparr>)
      | (None, None) \<Rightarrow> (Inr NoPhysicalSlot, a\<lparr>qa_state := st\<rparr>)
      | (Some flat_slot, _) \<Rightarrow>
          (let install_ticket = as_next_install_ticket st in
           case checked_add_u64 install_ticket 1 of
             None \<Rightarrow> (Inl ExpertInstallTicketExhausted, a\<lparr>qa_state := st\<rparr>)
           | Some next \<Rightarrow>
               let st = st\<lparr>as_next_install_ticket := next\<rparr>; slot = as_slots st ! flat_slot in
               if unat (sl_last_epoch slot) = u32_MAX
               then (Inl (ExpertSlotEpochExhausted (el_bank (sl_location slot)) (el_slot (sl_location slot))),
                     a\<lparr>qa_state := st\<rparr>)
               else
                 let slot_epoch = sl_last_epoch slot + 1;
                     residency = \<lparr>qr_key = key, qr_location = sl_location slot, qr_slot_epoch = slot_epoch\<rparr>;
                     slot' = slot\<lparr>sl_last_epoch := slot_epoch,
                                  sl_owner := OwnerInstalling key slot_epoch install_ticket\<rparr>;
                     st = st\<lparr>as_slots := (as_slots st)[flat_slot := slot'],
                             as_logical_slots := (as_logical_slots st)[logical_id := Some flat_slot]\<rparr> in
                 (Inr (AcquireInstall
                    \<lparr>ip_key = key, ip_flat_slot = flat_slot, ip_residency = residency,
                     ip_install_ticket = install_ticket, ip_reused = sl_ever_installed slot,
                     ip_active = True\<rparr>),
                  a\<lparr>qa_state := st\<rparr>)))"

text \<open>A newer generation takes the slot of the older one away: unpublish (or cancel), then free.\<close>

definition supersede_slot :: "usize \<Rightarrow> usize \<Rightarrow> q4_arena \<Rightarrow> bootstrap_error + q4_arena" where
  "supersede_slot logical_id flat_slot a =
     (case sl_owner (qa_slots a ! flat_slot) of
        OwnerResident _ \<Rightarrow>
          ebind (mapping_offset_of logical_id) (\<lambda>mapping_offset.
            Inr (set_logical_slot logical_id None (set_slot_owner flat_slot OwnerFree
                  (count_event (bump_unpublications \<circ> bump_retires) (write_mapping mapping_offset UNMAPPED a)))))
      | OwnerInstalling _ _ _ \<Rightarrow>
          Inr (set_logical_slot logical_id None (set_slot_owner flat_slot OwnerFree
                (count_event bump_cancellations a)))
      | OwnerFree \<Rightarrow> Inl ExpertInstallReservationLost)"

definition acquire_with_unpublish ::
    "q4_key \<Rightarrow> q4_arena \<Rightarrow> (bootstrap_error + q4_acquire) \<times> q4_arena" where
  "acquire_with_unpublish key a =
     (let st = qa_state a; logical_id = unat (qk_expert_id key);
          generation = qk_logical_generation key in
      if qk_layer_index key \<noteq> qa_layer_index a
      then (Inl (ExpertLayerMismatch (qk_layer_index key) (qa_layer_index a)), a)
      else if logical_id \<ge> eg_num_experts (qa_geometry a)
      then (Inl (ExpertLogicalIdOutOfRange (qk_expert_id key) (eg_num_experts (qa_geometry a))), a)
      else if generation = 0 then (Inl (InvalidExpertLogicalGeneration generation), a)
      else
        case as_latest_generations st ! logical_id of
          None \<Rightarrow> reserve_slot key a
        | Some latest \<Rightarrow>
            if generation < latest then (Inr AcquireStaleRequester, count_event bump_stale a)
            else if generation = latest then
              (case as_logical_slots st ! logical_id of
                 None \<Rightarrow> reserve_slot key a
               | Some flat_slot \<Rightarrow>
                   (case sl_owner (as_slots st ! flat_slot) of
                      OwnerResident r \<Rightarrow>
                        (if qr_key r = key then Inr (AcquireHit r) else Inl ExpertInstallReservationLost, a)
                    | OwnerInstalling installing _ _ \<Rightarrow>
                        (if installing = key then Inr InstallInProgress
                         else Inl ExpertInstallReservationLost, a)
                    | OwnerFree \<Rightarrow> (Inl ExpertInstallReservationLost, a)))
            else
              (case as_logical_slots st ! logical_id of
                 None \<Rightarrow> reserve_slot key a
               | Some flat_slot \<Rightarrow>
                   (case supersede_slot logical_id flat_slot a of
                      Inl e \<Rightarrow> (Inl e, a)
                    | Inr a' \<Rightarrow> reserve_slot key a')))"

datatype q4_retire = Retired | CancelledInstall | NotResident | RetireStaleRequester

definition retire_with_unpublish ::
    "q4_key \<Rightarrow> q4_arena \<Rightarrow> (bootstrap_error + q4_retire) \<times> q4_arena" where
  "retire_with_unpublish key a =
     (let st = qa_state a; logical_id = unat (qk_expert_id key);
          generation = qk_logical_generation key in
      if qk_layer_index key \<noteq> qa_layer_index a
      then (Inl (ExpertLayerMismatch (qk_layer_index key) (qa_layer_index a)), a)
      else if logical_id \<ge> eg_num_experts (qa_geometry a)
      then (Inl (ExpertLogicalIdOutOfRange (qk_expert_id key) (eg_num_experts (qa_geometry a))), a)
      else
        case as_latest_generations st ! logical_id of
          None \<Rightarrow> (Inr NotResident, a)
        | Some latest \<Rightarrow>
            if generation < latest then (Inr RetireStaleRequester, a)
            else if generation \<noteq> latest then (Inr NotResident, a)
            else
              case as_logical_slots st ! logical_id of
                None \<Rightarrow> (Inr NotResident, a)
              | Some flat_slot \<Rightarrow>
                  (case sl_owner (as_slots st ! flat_slot) of
                     OwnerResident r \<Rightarrow>
                       if qr_key r = key then
                         (case mapping_offset_of logical_id of
                            Inl e \<Rightarrow> (Inl e, a)
                          | Inr mapping_offset \<Rightarrow>
                              (Inr Retired,
                               count_event (bump_unpublications \<circ> bump_retires)
                                 (set_logical_slot logical_id None (set_slot_owner flat_slot OwnerFree
                                   (write_mapping mapping_offset UNMAPPED a)))))
                       else (Inl ExpertInstallReservationLost, a)
                   | OwnerInstalling installing _ _ \<Rightarrow>
                       if installing = key then
                         (Inr CancelledInstall,
                          count_event bump_cancellations
                            (set_logical_slot logical_id None (set_slot_owner flat_slot OwnerFree a)))
                       else (Inl ExpertInstallReservationLost, a)
                   | OwnerFree \<Rightarrow> (Inl ExpertInstallReservationLost, a)))"

subsection \<open>Installation\<close>

definition reservation_current :: "install_permit \<Rightarrow> arena_state \<Rightarrow> bool" where
  "reservation_current p st =
     (let logical_id = unat (qk_expert_id (ip_key p)) in
      get_flat (as_latest_generations st) logical_id = Some (qk_logical_generation (ip_key p)) \<and>
      get_flat (as_logical_slots st) logical_id = Some (ip_flat_slot p) \<and>
      ip_flat_slot p < length (as_slots st) \<and>
      sl_owner (as_slots st ! ip_flat_slot p) =
        OwnerInstalling (ip_key p) (qr_slot_epoch (ip_residency p)) (ip_install_ticket p))"

record prepared_install =
  pi_permit :: install_permit
  pi_mapping :: mapping_entry
  pi_mapping_offset :: nat

text \<open>The offsets both install paths compute before they lock the state.\<close>

definition install_offsets ::
    "install_permit \<Rightarrow> q4_arena \<Rightarrow> bootstrap_error + mapping_entry \<times> nat \<times> nat" where
  "install_offsets p a =
     ebind (residency_mapping_entry (ip_residency p)) (\<lambda>mapping.
     ebind (ok_or ExpertArenaBudgetOverflow
              (checked_mul (unat (el_slot (qr_location (ip_residency p))))
                           (eg_slot_stride_bytes (qa_geometry a)))) (\<lambda>physical_offset.
     ebind (mapping_offset_of (unat (qk_expert_id (ip_key p)))) (\<lambda>mapping_offset.
     Inr (mapping, physical_offset, mapping_offset))))"

text \<open>First half of \<open>stage_with_checked_physical_writer\<close>: validation, then the reservation check
  under the lock.\<close>

definition stage_check ::
    "install_permit \<Rightarrow> u8 list \<Rightarrow> q4_arena \<Rightarrow>
     (bootstrap_error + checked_slot \<times> nat \<times> prepared_install) \<times> q4_arena" where
  "stage_check p payload a =
     (case ebind (checked_slot_new (qa_geometry a) (qk_expert_id (ip_key p))
                    (qr_slot_epoch (ip_residency p)) payload)
             (\<lambda>checked. ebind (install_offsets p a) (\<lambda>(m, po, mo). Inr (checked, m, po, mo))) of
        Inl e \<Rightarrow> (Inl e, a)
      | Inr (checked, mapping, physical_offset, mapping_offset) \<Rightarrow>
          if \<not> reservation_current p (qa_state a)
          then (Inl ExpertInstallReservationLost, count_event bump_stale a)
          else (Inr (checked, physical_offset,
                     \<lparr>pi_permit = p, pi_mapping = mapping, pi_mapping_offset = mapping_offset\<rparr>), a))"

text \<open>Second half, outside the lock: the writer of \<open>stage_q4_expert_residency_inner\<close>. Dropping the
  staging view enqueues its contents, also when the fill has failed.\<close>

definition stage_write ::
    "bool \<Rightarrow> u8 list option \<Rightarrow> u32 \<Rightarrow> nat \<Rightarrow> checked_slot \<Rightarrow> q4_arena \<Rightarrow>
     (bootstrap_error + unit) \<times> q4_arena" where
  "stage_write no_zero_fill view bank offset checked a =
     (case view of
        None \<Rightarrow> (Inl (ExpertDirectStagingUnavailable bank offset (eg_slot_stride_bytes (qa_geometry a))), a)
      | Some v \<Rightarrow>
          (case (if no_zero_fill then fill_complete_overwrite_no_zero checked v
                 else slot_fill checked v) of
             Inl e \<Rightarrow> (Inl e, write_bank bank offset v a)
           | Inr bytes \<Rightarrow> (Inr (), write_bank bank offset bytes a)))"

text \<open>Publication and residency of an exact reservation, shared by both install paths.\<close>

definition publish :: "install_permit \<Rightarrow> nat \<Rightarrow> mapping_entry \<Rightarrow> q4_arena \<Rightarrow> q4_arena" where
  "publish p mapping_offset mapping a =
     (let a1 = write_mapping mapping_offset mapping a; f = ip_flat_slot p;
          slot = (qa_slots a1 ! f)\<lparr>sl_owner := OwnerResident (ip_residency p), sl_ever_installed := True\<rparr>;
          a2 = a1\<lparr>qa_state := (qa_state a1)\<lparr>as_slots := (qa_slots a1)[f := slot]\<rparr>\<rparr> in
      count_event (bump_publications \<circ> (if ip_reused p then bump_reuses else id) \<circ> bump_installs) a2)"

definition commit_with_mapping_writer ::
    "prepared_install \<Rightarrow> q4_arena \<Rightarrow> (bootstrap_error + q4_residency) \<times> q4_arena" where
  "commit_with_mapping_writer pr a =
     (if \<not> reservation_current (pi_permit pr) (qa_state a)
      then (Inl ExpertInstallReservationLost, count_event bump_stale a)
      else (Inr (ip_residency (pi_permit pr)),
            publish (pi_permit pr) (pi_mapping_offset pr) (pi_mapping pr) a))"

text \<open>The whole transaction under one lock; the flag says whether the permit is still active, so that
  dropping it cancels the reservation.\<close>

definition install_with_prepared_physical_writer ::
    "(u32 \<Rightarrow> nat \<Rightarrow> q4_arena \<Rightarrow> (bootstrap_error + unit) \<times> q4_arena) \<Rightarrow> install_permit \<Rightarrow> q4_arena \<Rightarrow>
     (bootstrap_error + q4_residency) \<times> bool \<times> q4_arena" where
  "install_with_prepared_physical_writer physical_write p a =
     (case install_offsets p a of
        Inl e \<Rightarrow> (Inl e, ip_active p, a)
      | Inr (mapping, physical_offset, mapping_offset) \<Rightarrow>
          if \<not> reservation_current p (qa_state a)
          then (Inl ExpertInstallReservationLost, False, count_event bump_stale a)
          else
            (case physical_write (el_bank (qr_location (ip_residency p))) physical_offset a of
               (Inl e, a') \<Rightarrow> (Inl e, ip_active p, a')
             | (Inr _, a') \<Rightarrow> (Inr (ip_residency p), False, publish p mapping_offset mapping a')))"

text \<open>\<open>install_q4_expert_residency_legacy\<close>: the slot is materialised first, then written.\<close>

definition install_with_writes ::
    "u8 list \<Rightarrow> install_permit \<Rightarrow> q4_arena \<Rightarrow> (bootstrap_error + q4_residency) \<times> bool \<times> q4_arena" where
  "install_with_writes payload p a =
     (case physical_q4_expert_slot (qa_geometry a) (qk_expert_id (ip_key p))
             (qr_slot_epoch (ip_residency p)) payload of
        Inl e \<Rightarrow> (Inl e, ip_active p, a)
      | Inr physical \<Rightarrow>
          install_with_prepared_physical_writer
            (\<lambda>bank offset a. (Inr (), write_bank bank offset physical a)) p a)"

text \<open>\<open>install_q4_expert_residency_production_inner\<close>: sequential direct staging with zero fill.\<close>

definition install_sequential ::
    "u8 list option \<Rightarrow> u8 list \<Rightarrow> install_permit \<Rightarrow> q4_arena \<Rightarrow>
     (bootstrap_error + q4_residency) \<times> bool \<times> q4_arena" where
  "install_sequential view payload p a =
     (case checked_slot_new (qa_geometry a) (qk_expert_id (ip_key p))
             (qr_slot_epoch (ip_residency p)) payload of
        Inl e \<Rightarrow> (Inl e, ip_active p, a)
      | Inr checked \<Rightarrow>
          install_with_prepared_physical_writer
            (\<lambda>bank offset a. stage_write False view bank offset checked a) p a)"

definition permit_drop :: "install_permit \<Rightarrow> q4_arena \<Rightarrow> q4_arena" where
  "permit_drop p a =
     (if ip_active p then cancel_install (ip_flat_slot p) (ip_install_ticket p) a else a)"

subsection \<open>Creation\<close>

record q4_upload =
  up_logical_id :: u32
  up_logical_generation :: u64
  up_location :: expert_location
  up_payload :: "u8 list"

record prepared_uploads =
  pu_mapping :: "mapping_entry list"
  pu_physical_slots :: "(expert_location \<times> u8 list) list"
  pu_state :: arena_state

definition place_upload ::
    "usize \<Rightarrow> expert_geometry \<Rightarrow> arena_layout \<Rightarrow> q4_upload \<Rightarrow> u32 list \<times> prepared_uploads \<Rightarrow>
     bootstrap_error + u32 list \<times> prepared_uploads" where
  "place_upload layer_index g l up acc =
     (case acc of (physical, pu) \<Rightarrow>
      let logical_id = unat (up_logical_id up); bank = unat (el_bank (up_location up)) in
      if logical_id \<ge> eg_num_experts g
      then Inl (ExpertLogicalIdOutOfRange (up_logical_id up) (eg_num_experts g))
      else if up_logical_generation up = 0
      then Inl (InvalidExpertLogicalGeneration (up_logical_generation up))
      else if pu_mapping pu ! logical_id \<noteq> UNMAPPED
      then Inl (DuplicateExpertLogicalId (up_logical_id up))
      else if bank \<ge> al_active_banks l
      then Inl (ExpertBankOutOfRange (el_bank (up_location up)) (al_active_banks l))
      else if unat (el_slot (up_location up)) \<ge> bl_slot_capacity (al_banks l ! bank)
      then Inl (ExpertSlotOutOfRange (el_bank (up_location up)) (el_slot (up_location up))
                 (bl_slot_capacity (al_banks l ! bank)))
      else
        ebind (pack (up_location up)) (\<lambda>packed.
        if packed \<in> set physical then Inl (DuplicateExpertPhysicalLocation packed)
        else
          let residency = \<lparr>qr_key = \<lparr>qk_layer_index = layer_index, qk_expert_id = up_logical_id up,
                                     qk_logical_generation = up_logical_generation up\<rparr>,
                           qr_location = up_location up, qr_slot_epoch = 1\<rparr> in
          ebind (flat_slot_for_location l (up_location up)) (\<lambda>flat_slot.
          ebind (residency_mapping_entry residency) (\<lambda>entry.
          ebind (physical_q4_expert_slot g (up_logical_id up) 1 (up_payload up)) (\<lambda>bytes.
          let st = pu_state pu;
              slot = (as_slots st ! flat_slot)\<lparr>sl_last_epoch := 1, sl_ever_installed := True,
                                               sl_owner := OwnerResident residency\<rparr> in
          Inr (packed # physical,
               pu\<lparr>pu_mapping := (pu_mapping pu)[logical_id := entry],
                  pu_physical_slots := vec_push (pu_physical_slots pu) (up_location up, bytes),
                  pu_state := st\<lparr>as_slots := (as_slots st)[flat_slot := slot],
                                 as_logical_slots := (as_logical_slots st)[logical_id := Some flat_slot],
                                 as_latest_generations :=
                                   (as_latest_generations st)[logical_id := Some (up_logical_generation up)]\<rparr>\<rparr>))))))"

fun place_uploads ::
    "usize \<Rightarrow> expert_geometry \<Rightarrow> arena_layout \<Rightarrow> q4_upload list \<Rightarrow> u32 list \<times> prepared_uploads \<Rightarrow>
     bootstrap_error + u32 list \<times> prepared_uploads" where
  "place_uploads layer_index g l [] acc = Inr acc"
| "place_uploads layer_index g l (up # ups) acc =
     ebind (place_upload layer_index g l up acc) (place_uploads layer_index g l ups)"

definition validate_q4_expert_uploads ::
    "usize \<Rightarrow> expert_geometry \<Rightarrow> arena_layout \<Rightarrow> q4_upload list \<Rightarrow> bootstrap_error + prepared_uploads" where
  "validate_q4_expert_uploads layer_index g l uploads =
     (if length uploads > al_slot_capacity l
      then Inl (ExpertResidentCountExceedsCapacity (length uploads) (al_slot_capacity l))
      else
        ebind (arena_state_new g l) (\<lambda>st.
        ebind (place_uploads layer_index g l uploads
                 ([], \<lparr>pu_mapping = replicate (eg_num_experts g) UNMAPPED, pu_physical_slots = [],
                       pu_state = st\<rparr>)) (\<lambda>(_, pu).
        Inr (pu\<lparr>pu_state := (pu_state pu)\<lparr>as_counters := (as_counters (pu_state pu))
                  \<lparr>expert_slot_installs := length uploads,
                   expert_mapping_publications := length uploads\<rparr>\<rparr>\<rparr>))))"

definition validate_startup_buffer :: "nat \<Rightarrow> wgpu_limits \<Rightarrow> bootstrap_error + unit" where
  "validate_startup_buffer bytes limits =
     (if bytes > max_buffer_size limits then Inl (ExceedsMaxBufferSize bytes (max_buffer_size limits))
      else if bytes > max_storage_buffer_binding_size limits
      then Inl (ExceedsMaxStorageBindingSize bytes (max_storage_buffer_binding_size limits))
      else Inr ())"

fun validate_buffers :: "nat list \<Rightarrow> wgpu_limits \<Rightarrow> bootstrap_error + unit" where
  "validate_buffers [] limits = Inr ()"
| "validate_buffers (bytes # sizes) limits =
     ebind (validate_startup_buffer bytes limits) (\<lambda>_. validate_buffers sizes limits)"

definition arena_buffers :: "arena_layout \<Rightarrow> nat list" where
  "arena_buffers l = map bl_allocation_bytes (al_banks l) @ [al_mapping_bytes l]"

definition create_q4_expert_arena ::
    "u64 \<Rightarrow> usize \<Rightarrow> wgpu_limits \<Rightarrow> usize \<Rightarrow> vram_plan \<Rightarrow> q4_upload list \<Rightarrow>
     bootstrap_error + q4_arena" where
  "create_q4_expert_arena context_id d_model limits layer_index plan uploads =
     (let g = vp_geometry plan; l = vp_layout plan in
      if eg_d_model g \<noteq> d_model then Inl (ExpertDModelMismatch d_model (eg_d_model g))
      else
        ebind (validate_q4_expert_pipeline_limits limits) (\<lambda>_.
        ebind (plan_try_new g (vp_requested_expert_budget_bytes plan) limits) (\<lambda>expected.
        if plan \<noteq> expected then Inl ExpertArenaBudgetOverflow
        else
          ebind (validate_q4_expert_uploads layer_index g l uploads) (\<lambda>pu.
          ebind (validate_buffers (arena_buffers l) limits) (\<lambda>_.
          Inr (fold (\<lambda>(loc, bytes). write_bank (el_bank loc) (unat (el_slot loc) * eg_slot_stride_bytes g) bytes)
                 (pu_physical_slots pu)
                 \<lparr>qa_context_id = context_id, qa_layer_index = layer_index, qa_plan = plan,
                  qa_banks = map (\<lambda>b. replicate (bl_allocation_bytes b) 0) (al_banks l),
                  qa_mapping = pu_mapping pu, qa_state = pu_state pu\<rparr>))))))"

text \<open>The check before every call of the context.\<close>

definition validate_q4_expert_arena :: "u64 \<Rightarrow> q4_arena \<Rightarrow> wgpu_limits \<Rightarrow> bootstrap_error + unit" where
  "validate_q4_expert_arena context_id a limits =
     (let ag = qa_geometry a; snap = arena_residency_snapshot a in
      if qa_context_id a \<noteq> context_id then Inl ForeignExpertArena
      else
        ebind (geometry_try_new (eg_d_model ag) (eg_d_ff ag) (eg_num_experts ag) (eg_top_k ag)) (\<lambda>g.
        ebind (plan_try_new g (vp_requested_expert_budget_bytes (qa_plan a)) limits) (\<lambda>expected.
        if qa_plan a \<noteq> expected \<or>
           Option.bind (checked_add (rs_resident_slots snap) (rs_installing_slots snap))
             (\<lambda>used. checked_add used (rs_free_slots snap)) \<noteq> Some (al_slot_capacity (vp_layout (qa_plan a)))
        then Inl (ExpertResidentCountExceedsCapacity
                   (saturating_add (rs_resident_slots snap) (rs_installing_slots snap))
                   (al_slot_capacity (vp_layout (qa_plan a))))
        else validate_buffers (arena_buffers (vp_layout (qa_plan a))) limits)))"

subsection \<open>What a shader executes\<close>

text \<open>A route resolves an expert through the mapping table and runs on the slot it names only if the
  epoch word of the slot is the one in the mapping entry.\<close>

definition slot_bytes :: "q4_arena \<Rightarrow> expert_location \<Rightarrow> u8 list" where
  "slot_bytes a loc =
     subslice (qa_banks a ! unat (el_bank loc))
       (unat (el_slot loc) * eg_slot_stride_bytes (qa_geometry a)) (eg_slot_stride_bytes (qa_geometry a))"

definition resolve_route :: "q4_arena \<Rightarrow> usize \<Rightarrow> (expert_location \<times> u32) option" where
  "resolve_route a logical_id =
     (let l = vp_layout (qa_plan a); entry = qa_mapping a ! logical_id in
      if logical_id \<ge> eg_num_experts (qa_geometry a) \<or> me_slot_epoch entry = 0 then None
      else case unpack (me_location entry) of
             None \<Rightarrow> None
           | Some loc \<Rightarrow>
               if unat (el_bank loc) \<ge> al_active_banks l \<or>
                  unat (el_slot loc) \<ge> bl_slot_capacity (al_banks l ! unat (el_bank loc)) then None
               else Some (loc, me_slot_epoch entry))"

definition slot_epoch_word :: "q4_arena \<Rightarrow> expert_location \<Rightarrow> u32" where
  "slot_epoch_word a loc = u32_from_le_bytes (take 4 (slot_bytes a loc))"

definition executed_payload :: "q4_arena \<Rightarrow> usize \<Rightarrow> u8 list option" where
  "executed_payload a logical_id =
     (case resolve_route a logical_id of
        None \<Rightarrow> None
      | Some (loc, epoch) \<Rightarrow>
          if slot_epoch_word a loc = 0 \<or> slot_epoch_word a loc \<noteq> epoch then None
          else Some (drop 4 (slot_bytes a loc)))"

lemmas arena_update_defs = write_mapping_def write_bank_def set_slot_owner_def set_logical_slot_def count_event_def

end
