(* ===== verification/ArenaSafety.thy ===== *)
theory ArenaSafety
  imports ExpertArena
begin

section \<open>Interleaved installs never execute stale bytes\<close>

text \<open>
  The arena of \<open>ExpertArena\<close> under concurrent callers. A transition system interleaves acquisitions,
  retirements, and the installs that hold a permit: each lock acquisition of the code is one step, and
  the bulk write of a staged install, which the code performs outside the lock, is a step of its own.
  The invariant says which slot an expert owns, what the GPU-visible mapping publishes, and what the
  epoch word of a slot implies about its bytes; it is preserved by every step, so that a route whose
  epoch check passes runs on exactly the payload that was installed for its expert and generation.
\<close>

subsection \<open>The invariant of the arena\<close>

definition key_owns :: "q4_arena \<Rightarrow> q4_key \<Rightarrow> usize \<Rightarrow> bool" where
  "key_owns a k i \<longleftrightarrow>
     qk_layer_index k = qa_layer_index a \<and> unat (qk_expert_id k) < eg_num_experts (qa_geometry a) \<and>
     as_logical_slots (qa_state a) ! unat (qk_expert_id k) = Some i \<and>
     as_latest_generations (qa_state a) ! unat (qk_expert_id k) = Some (qk_logical_generation k)"

fun owner_key :: "slot_owner \<Rightarrow> q4_key option" where
  "owner_key OwnerFree = None"
| "owner_key (OwnerInstalling k _ _) = Some k"
| "owner_key (OwnerResident r) = Some (qr_key r)"

definition slot_inv :: "q4_arena \<Rightarrow> usize \<Rightarrow> bool" where
  "slot_inv a i \<longleftrightarrow>
     (let s = qa_slots a ! i in
      location_for_flat_slot (vp_layout (qa_plan a)) i = Inr (sl_location s) \<and>
      unat (slot_epoch_word a (sl_location s)) \<le> unat (sl_last_epoch s) \<and>
      (case sl_owner s of
         OwnerFree \<Rightarrow> True
       | OwnerInstalling k ep tk \<Rightarrow>
           ep = sl_last_epoch s \<and> ep \<noteq> 0 \<and> tk < as_next_install_ticket (qa_state a) \<and> key_owns a k i
       | OwnerResident r \<Rightarrow>
           qr_location r = sl_location s \<and> qr_slot_epoch r = sl_last_epoch s \<and> qr_slot_epoch r \<noteq> 0 \<and>
           key_owns a (qr_key r) i))"

definition expert_inv :: "q4_arena \<Rightarrow> usize \<Rightarrow> bool" where
  "expert_inv a e \<longleftrightarrow>
     (case as_logical_slots (qa_state a) ! e of
        None \<Rightarrow> qa_mapping a ! e = UNMAPPED
      | Some i \<Rightarrow>
          i < length (qa_slots a) \<and>
          (\<exists>k. owner_key (sl_owner (qa_slots a ! i)) = Some k \<and> unat (qk_expert_id k) = e) \<and>
          (case sl_owner (qa_slots a ! i) of
             OwnerResident r \<Rightarrow> residency_mapping_entry r = Inr (qa_mapping a ! e)
           | _ \<Rightarrow> qa_mapping a ! e = UNMAPPED))"

definition plan_ok :: "vram_plan \<Rightarrow> bool" where
  "plan_ok p \<longleftrightarrow> geometry_ok (vp_geometry p) \<and>
     (\<exists>limits. layout_try_new (vp_geometry p) (al_slot_capacity (vp_layout p)) limits = Inr (vp_layout p))"

definition arena_wf :: "q4_arena \<Rightarrow> bool" where
  "arena_wf a \<longleftrightarrow>
     plan_ok (qa_plan a) \<and>
     length (qa_slots a) = al_slot_capacity (vp_layout (qa_plan a)) \<and>
     length (as_logical_slots (qa_state a)) = eg_num_experts (qa_geometry a) \<and>
     length (as_latest_generations (qa_state a)) = eg_num_experts (qa_geometry a) \<and>
     length (qa_mapping a) = eg_num_experts (qa_geometry a) \<and>
     map length (qa_banks a) = map bl_allocation_bytes (al_banks (vp_layout (qa_plan a))) \<and>
     (\<forall>i < length (qa_slots a). slot_inv a i) \<and>
     (\<forall>e < eg_num_experts (qa_geometry a). expert_inv a e)"

subsection \<open>One slot and one expert change\<close>

definition same_frame :: "q4_arena \<Rightarrow> q4_arena \<Rightarrow> bool" where
  "same_frame a a' \<longleftrightarrow> qa_plan a' = qa_plan a \<and> qa_layer_index a' = qa_layer_index a \<and>
     qa_banks a' = qa_banks a \<and> as_next_install_ticket (qa_state a) \<le> as_next_install_ticket (qa_state a')"

definition slot_update :: "q4_arena \<Rightarrow> q4_arena \<Rightarrow> usize \<Rightarrow> usize \<Rightarrow> bool" where
  "slot_update a a' i e \<longleftrightarrow>
     same_frame a a' \<and> i < length (qa_slots a) \<and> e < eg_num_experts (qa_geometry a) \<and>
     (as_logical_slots (qa_state a) ! e = Some i \<or>
      sl_owner (qa_slots a ! i) = OwnerFree \<and> as_logical_slots (qa_state a) ! e = None) \<and>
     (\<exists>s'. qa_slots a' = (qa_slots a)[i := s'] \<and> sl_location s' = sl_location (qa_slots a ! i) \<and>
           unat (sl_last_epoch (qa_slots a ! i)) \<le> unat (sl_last_epoch s')) \<and>
     (\<exists>x. as_logical_slots (qa_state a') = (as_logical_slots (qa_state a))[e := x]) \<and>
     (\<exists>x. as_latest_generations (qa_state a') = (as_latest_generations (qa_state a))[e := x]) \<and>
     (\<exists>x. qa_mapping a' = (qa_mapping a)[e := x])"

lemma slot_bytes_frame: "same_frame a a' \<Longrightarrow> slot_bytes a' loc = slot_bytes a loc"
  by (simp add: same_frame_def slot_bytes_def)

lemma slot_word_frame: "same_frame a a' \<Longrightarrow> slot_epoch_word a' loc = slot_epoch_word a loc"
  by (simp add: slot_epoch_word_def slot_bytes_frame)

lemma slot_inv_other:
  assumes wf: "arena_wf a" and up: "slot_update a a' i e" and j: "j < length (qa_slots a)" "j \<noteq> i"
  shows "slot_inv a' j"
proof -
  have fr: "same_frame a a'" and sj: "qa_slots a' ! j = qa_slots a ! j"
    using up j by (auto simp: slot_update_def)
  have inv: "slot_inv a j" using wf j by (auto simp: arena_wf_def)
  have keep: "key_owns a' k j" if "key_owns a k j" for k
  proof -
    have "unat (qk_expert_id k) \<noteq> e"
      using that up j(2) by (auto simp: key_owns_def slot_update_def)
    then show ?thesis
      using that up fr by (auto simp: key_owns_def slot_update_def same_frame_def)
  qed
  have tick: "tk < as_next_install_ticket (qa_state a')" if "tk < as_next_install_ticket (qa_state a)" for tk
    using that fr by (auto simp: same_frame_def)
  show ?thesis
    using inv keep tick fr slot_word_frame [OF fr]
    by (cases "sl_owner (qa_slots a ! j)") (auto simp: slot_inv_def sj same_frame_def Let_def)
qed

lemma expert_inv_other:
  assumes wf: "arena_wf a" and up: "slot_update a a' i e" and e': "e' < eg_num_experts (qa_geometry a)" "e' \<noteq> e"
  shows "expert_inv a' e'"
proof -
  have inv: "expert_inv a e'" using wf e' by (auto simp: arena_wf_def)
  have log: "as_logical_slots (qa_state a') ! e' = as_logical_slots (qa_state a) ! e'"
    and map: "qa_mapping a' ! e' = qa_mapping a ! e'" and len: "length (qa_slots a') = length (qa_slots a)"
    using up e' by (auto simp: slot_update_def)
  show ?thesis
  proof (cases "as_logical_slots (qa_state a) ! e'")
    case None
    with inv log map show ?thesis by (simp add: expert_inv_def)
  next
    case (Some j)
    with inv have j: "j < length (qa_slots a)"
      and k: "\<exists>k. owner_key (sl_owner (qa_slots a ! j)) = Some k \<and> unat (qk_expert_id k) = e'"
      by (auto simp: expert_inv_def)
    have "j \<noteq> i"
    proof
      assume "j = i"
      with up have "as_logical_slots (qa_state a) ! e = Some i \<or> sl_owner (qa_slots a ! i) = OwnerFree"
        by (auto simp: slot_update_def)
      with k \<open>j = i\<close> have "as_logical_slots (qa_state a) ! e = Some i" by auto
      moreover have "expert_inv a e" using wf up by (auto simp: arena_wf_def slot_update_def)
      ultimately show False
        using k \<open>j = i\<close> e'(2) by (auto simp: expert_inv_def)
    qed
    then have "qa_slots a' ! j = qa_slots a ! j" using up by (auto simp: slot_update_def)
    with inv Some log map len show ?thesis
      by (cases "sl_owner (qa_slots a ! j)") (auto simp: expert_inv_def)
  qed
qed

lemma slot_update_wf:
  assumes wf: "arena_wf a" and up: "slot_update a a' i e" and "slot_inv a' i" "expert_inv a' e"
  shows "arena_wf a'"
proof -
  have "qa_plan a' = qa_plan a" "qa_banks a' = qa_banks a" "length (qa_slots a') = length (qa_slots a)"
    "length (as_logical_slots (qa_state a')) = length (as_logical_slots (qa_state a))"
    "length (as_latest_generations (qa_state a')) = length (as_latest_generations (qa_state a))"
    "length (qa_mapping a') = length (qa_mapping a)"
    using up by (auto simp: slot_update_def same_frame_def)
  then show ?thesis
    using wf slot_inv_other [OF wf up] expert_inv_other [OF wf up] assms(3,4)
    by (auto simp: arena_wf_def)
qed

subsection \<open>The memory of a slot\<close>

lemma wf_location:
  assumes "arena_wf a" "i < length (qa_slots a)"
  shows "location_for_flat_slot (vp_layout (qa_plan a)) i = Inr (sl_location (qa_slots a ! i))"
    and "flat_slot_for_location (vp_layout (qa_plan a)) (sl_location (qa_slots a ! i)) = Inr i"
proof -
  show l: "location_for_flat_slot (vp_layout (qa_plan a)) i = Inr (sl_location (qa_slots a ! i))"
    using assms by (auto simp: arena_wf_def slot_inv_def Let_def)
  show "flat_slot_for_location (vp_layout (qa_plan a)) (sl_location (qa_slots a ! i)) = Inr i"
    using assms(1) l location_iff(1) by (auto simp: arena_wf_def plan_ok_def)
qed

lemma wf_slot_range:
  assumes wf: "arena_wf a" and f: "flat_slot_for_location (vp_layout (qa_plan a)) loc = Inr i"
  defines "stride \<equiv> eg_slot_stride_bytes (qa_geometry a)"
  shows "unat (el_bank loc) < length (qa_banks a)"
    and "unat (el_slot loc) * stride + stride \<le> length (qa_banks a ! unat (el_bank loc))"
    and "unat (el_slot loc) < 2 ^ 30" "\<exists>p. pack loc = Inr p"
proof -
  let ?l = "vp_layout (qa_plan a)" and ?g = "qa_geometry a"
  obtain limits where g: "geometry_ok ?g"
    and l: "layout_try_new ?g (al_slot_capacity ?l) limits = Inr ?l"
    using wf by (auto simp: arena_wf_def plan_ok_def)
  have c: "0 < al_slot_capacity ?l" "al_slot_capacity ?l \<le> 4 * maximum_bank_slots ?g limits"
    and eq: "?l = layout_of ?g (al_slot_capacity ?l) limits"
    using l g by (auto simp: layout_try_new_Inr)
  have b: "unat (el_bank loc) < al_active_banks ?l"
    "unat (el_slot loc) < bl_slot_capacity (al_banks ?l ! unat (el_bank loc))"
    using f by (auto simp: flat_slot_iff [OF g l])
  note L = layout_banks [OF c, folded eq]
  have len: "length (qa_banks a) = 4" using wf L(2) by (metis arena_wf_def length_map)
  then show bank: "unat (el_bank loc) < length (qa_banks a)" using b L(1) by simp
  have "length (qa_banks a ! unat (el_bank loc)) = bl_allocation_bytes (al_banks ?l ! unat (el_bank loc))"
    using wf bank L(2) len by (metis arena_wf_def nth_map)
  then show "unat (el_slot loc) * stride + stride \<le> length (qa_banks a ! unat (el_bank loc))"
    using slot_bytes_in_bank(1) [OF g l f] by (simp add: stride_def add.commute)
  show "unat (el_slot loc) < 2 ^ 30"
    using b L(4) [OF b(1)] bank_slots_u30 [of ?g limits] by linarith
  show "\<exists>p. pack loc = Inr p" using location_iff(4) [OF g l f] .
qed

lemma slot_bytes_write:
  assumes wf: "arena_wf a" and f: "flat_slot_for_location (vp_layout (qa_plan a)) loc = Inr i"
    and f': "flat_slot_for_location (vp_layout (qa_plan a)) loc' = Inr i'"
    and len: "length bytes = eg_slot_stride_bytes (qa_geometry a)"
  shows "slot_bytes (write_bank (el_bank loc) (unat (el_slot loc) * eg_slot_stride_bytes (qa_geometry a)) bytes a) loc' =
    (if loc' = loc then bytes else slot_bytes a loc')"
proof -
  let ?s = "eg_slot_stride_bytes (qa_geometry a)" and ?b = "unat (el_bank loc)" and ?b' = "unat (el_bank loc')"
  note r = wf_slot_range [OF wf f] and r' = wf_slot_range [OF wf f']
  show ?thesis
  proof (cases "el_bank loc' = el_bank loc")
    case False
    then have "?b' \<noteq> ?b" by (metis unsigned_word_eqI)
    with False show ?thesis by (auto simp: slot_bytes_def write_bank_def)
  next
    case bank: True
    show ?thesis
    proof (cases "el_slot loc' = el_slot loc")
      case True
      then have "loc' = loc" using bank by simp
      moreover have "subslice (subslice_write (qa_banks a ! ?b) (unat (el_slot loc) * ?s) bytes)
          (unat (el_slot loc) * ?s) ?s = bytes"
        using r len by (intro slice_write_hit) auto
      ultimately show ?thesis
        using r(1) by (simp add: slot_bytes_def write_bank_def)
    next
      case False
      then have "unat (el_slot loc') < unat (el_slot loc) \<or> unat (el_slot loc) < unat (el_slot loc')"
        by (metis linorder_neqE_nat unsigned_word_eqI)
      then have "unat (el_slot loc') * ?s + ?s \<le> unat (el_slot loc) * ?s \<or>
          unat (el_slot loc) * ?s + length bytes \<le> unat (el_slot loc') * ?s"
        using len by (metis Suc_le_eq add.commute mult_Suc mult_le_mono1)
      then have "subslice (subslice_write (qa_banks a ! ?b) (unat (el_slot loc) * ?s) bytes)
          (unat (el_slot loc') * ?s) ?s = subslice (qa_banks a ! ?b) (unat (el_slot loc') * ?s) ?s"
        using r(2) len by (intro slice_write_disjoint) auto
      with bank False r(1) show ?thesis
        by (auto simp: slot_bytes_def write_bank_def)
    qed
  qed
qed

subsection \<open>Permits in flight\<close>

datatype install_phase =
    Reserved
  | Staging "u8 list" checked_slot nat prepared_install
  | Staged "u8 list" prepared_install
  | Abandoned

type_synonym install_task = "install_permit \<times> install_phase"

text \<open>An arena, the installs in flight by ticket, and (for the statements only) the payload whose
  install was last published in each slot.\<close>

type_synonym arena_system = "q4_arena \<times> (u64 \<rightharpoonup> install_task) \<times> (usize \<Rightarrow> u8 list)"

inductive arena_step :: "arena_system \<Rightarrow> arena_system \<Rightarrow> bool" where
  acquired:
    "acquire_with_unpublish key a = (Inr (AcquireInstall p), a') \<Longrightarrow>
     arena_step (a, ts, ins) (a', ts(ip_install_ticket p \<mapsto> (p, Reserved)), ins)"
| acquire_answered:
    "acquire_with_unpublish key a = (res, a') \<Longrightarrow> \<forall>p. res \<noteq> Inr (AcquireInstall p) \<Longrightarrow>
     arena_step (a, ts, ins) (a', ts, ins)"
| retired:
    "retire_with_unpublish key a = (res, a') \<Longrightarrow> arena_step (a, ts, ins) (a', ts, ins)"
| stage_checked:
    "ts t = Some (p, Reserved) \<Longrightarrow> stage_check p payload a = (Inr (cs, off, pr), a') \<Longrightarrow>
     arena_step (a, ts, ins) (a', ts(t \<mapsto> (p, Staging payload cs off pr)), ins)"
| stage_refused:
    "ts t = Some (p, Reserved) \<Longrightarrow> stage_check p payload a = (Inl e, a') \<Longrightarrow>
     arena_step (a, ts, ins) (a', ts(t \<mapsto> (p, Abandoned)), ins)"
| stage_written:
    "ts t = Some (p, Staging payload cs off pr) \<Longrightarrow>
     \<forall>v. view = Some v \<longrightarrow> length v = eg_slot_stride_bytes (qa_geometry a) \<Longrightarrow>
     stage_write no_zero_fill view (el_bank (qr_location (ip_residency p))) off cs a = (Inr (), a') \<Longrightarrow>
     arena_step (a, ts, ins) (a', ts(t \<mapsto> (p, Staged payload pr)), ins)"
| stage_failed:
    "ts t = Some (p, Staging payload cs off pr) \<Longrightarrow>
     \<forall>v. view = Some v \<longrightarrow> length v = eg_slot_stride_bytes (qa_geometry a) \<Longrightarrow>
     stage_write no_zero_fill view (el_bank (qr_location (ip_residency p))) off cs a = (Inl e, a') \<Longrightarrow>
     arena_step (a, ts, ins) (a', ts(t \<mapsto> (p, Abandoned)), ins)"
| committed:
    "ts t = Some (p, Staged payload pr) \<Longrightarrow> commit_with_mapping_writer pr a = (Inr r, a') \<Longrightarrow>
     arena_step (a, ts, ins) (a', ts(t := None), ins(ip_flat_slot p := payload))"
| commit_refused:
    "ts t = Some (p, Staged payload pr) \<Longrightarrow> commit_with_mapping_writer pr a = (Inl e, a') \<Longrightarrow>
     arena_step (a, ts, ins) (a', ts(t \<mapsto> (p, Abandoned)), ins)"
| installed:
    "ts t = Some (p, Reserved) \<Longrightarrow>
     \<forall>v. view = Some v \<longrightarrow> length v = eg_slot_stride_bytes (qa_geometry a) \<Longrightarrow>
     install_sequential view payload p a = (Inr r, active, a') \<or>
       install_with_writes payload p a = (Inr r, active, a') \<Longrightarrow>
     arena_step (a, ts, ins) (a', ts(t := None), ins(ip_flat_slot p := payload))"
| install_failed:
    "ts t = Some (p, Reserved) \<Longrightarrow>
     \<forall>v. view = Some v \<longrightarrow> length v = eg_slot_stride_bytes (qa_geometry a) \<Longrightarrow>
     install_sequential view payload p a = (Inl e, active, a') \<or>
       install_with_writes payload p a = (Inl e, active, a') \<Longrightarrow>
     arena_step (a, ts, ins) (a', (if active then ts(t \<mapsto> (p, Abandoned)) else ts(t := None)), ins)"
| dropped:
    "ts t = Some (p, phase) \<Longrightarrow> phase = Reserved \<or> phase = Abandoned \<or> (\<exists>payload pr. phase = Staged payload pr) \<Longrightarrow>
     arena_step (a, ts, ins) (permit_drop p a, ts(t := None), ins)"

definition prepared_ok :: "install_permit \<Rightarrow> prepared_install \<Rightarrow> bool" where
  "prepared_ok p pr \<longleftrightarrow> pi_permit pr = p \<and>
     pi_mapping_offset pr = 8 * unat (qk_expert_id (ip_key p)) \<and>
     residency_mapping_entry (ip_residency p) = Inr (pi_mapping pr)"

fun phase_inv :: "q4_arena \<Rightarrow> install_permit \<Rightarrow> install_phase \<Rightarrow> bool" where
  "phase_inv a p Reserved \<longleftrightarrow>
     slot_epoch_word a (qr_location (ip_residency p)) \<noteq> qr_slot_epoch (ip_residency p)"
| "phase_inv a p (Staging payload cs off pr) \<longleftrightarrow>
     slot_epoch_word a (qr_location (ip_residency p)) \<noteq> qr_slot_epoch (ip_residency p) \<and>
     checked_slot_new (qa_geometry a) (qk_expert_id (ip_key p)) (qr_slot_epoch (ip_residency p)) payload
       = Inr cs \<and>
     off = unat (el_slot (qr_location (ip_residency p))) * eg_slot_stride_bytes (qa_geometry a) \<and>
     prepared_ok p pr"
| "phase_inv a p (Staged payload pr) \<longleftrightarrow>
     (slot_epoch_word a (qr_location (ip_residency p)) = qr_slot_epoch (ip_residency p) \<longrightarrow>
      slot_bytes a (qr_location (ip_residency p)) = slot_image (qr_slot_epoch (ip_residency p)) payload) \<and>
     prepared_ok p pr"
| "phase_inv a p Abandoned \<longleftrightarrow> True"

definition permit_inv :: "q4_arena \<Rightarrow> install_permit \<Rightarrow> bool" where
  "permit_inv a p \<longleftrightarrow>
     ip_flat_slot p < length (qa_slots a) \<and> ip_active p \<and> qr_key (ip_residency p) = ip_key p \<and>
     qr_location (ip_residency p) = sl_location (qa_slots a ! ip_flat_slot p) \<and>
     qr_slot_epoch (ip_residency p) \<noteq> 0 \<and>
     unat (qr_slot_epoch (ip_residency p)) \<le> unat (sl_last_epoch (qa_slots a ! ip_flat_slot p)) \<and>
     ip_install_ticket p < as_next_install_ticket (qa_state a) \<and>
     unat (qk_expert_id (ip_key p)) < eg_num_experts (qa_geometry a)"

text \<open>What the owner of the permit's slot says about the permit.\<close>

definition owner_agrees :: "slot_owner \<Rightarrow> install_permit \<Rightarrow> bool" where
  "owner_agrees ow p \<longleftrightarrow>
     (\<forall>k ep. ow = OwnerInstalling k ep (ip_install_ticket p) \<longrightarrow>
        k = ip_key p \<and> ep = qr_slot_epoch (ip_residency p)) \<and>
     (\<forall>r. ow = OwnerResident r \<longrightarrow> qr_slot_epoch r \<noteq> qr_slot_epoch (ip_residency p))"

definition task_inv :: "q4_arena \<Rightarrow> install_task \<Rightarrow> bool" where
  "task_inv a t \<longleftrightarrow> permit_inv a (fst t) \<and> phase_inv a (fst t) (snd t) \<and>
     owner_agrees (sl_owner (qa_slots a ! ip_flat_slot (fst t))) (fst t)"

definition tasks_distinct :: "(u64 \<rightharpoonup> install_task) \<Rightarrow> bool" where
  "tasks_distinct ts \<longleftrightarrow>
     (\<forall>t p ph. ts t = Some (p, ph) \<longrightarrow> ip_install_ticket p = t) \<and>
     (\<forall>t t' p ph p' ph'. ts t = Some (p, ph) \<and> ts t' = Some (p', ph') \<and> t \<noteq> t' \<and>
        ip_flat_slot p = ip_flat_slot p' \<longrightarrow>
        qr_slot_epoch (ip_residency p) \<noteq> qr_slot_epoch (ip_residency p'))"

definition content_inv :: "q4_arena \<Rightarrow> (usize \<Rightarrow> u8 list) \<Rightarrow> usize \<Rightarrow> bool" where
  "content_inv a ins i \<longleftrightarrow>
     (\<forall>r. sl_owner (qa_slots a ! i) = OwnerResident r \<and>
          slot_epoch_word a (sl_location (qa_slots a ! i)) = qr_slot_epoch r \<longrightarrow>
        slot_bytes a (sl_location (qa_slots a ! i)) = slot_image (qr_slot_epoch r) (ins i))"

fun system_inv :: "arena_system \<Rightarrow> bool" where
  "system_inv (a, ts, ins) \<longleftrightarrow>
     arena_wf a \<and> tasks_distinct ts \<and> (\<forall>t \<in> ran ts. task_inv a t) \<and>
     (\<forall>i < length (qa_slots a). content_inv a ins i)"

lemma phase_inv_frame:
  assumes "same_frame a a'"
  shows "phase_inv a' p ph = phase_inv a p ph"
proof -
  have "qa_plan a' = qa_plan a" using assms by (simp add: same_frame_def)
  then show ?thesis
    by (cases ph) (simp_all add: slot_word_frame [OF assms] slot_bytes_frame [OF assms])
qed

text \<open>Changing one slot keeps the whole system in order when the new owner agrees with the permits of
  that slot.\<close>

lemma slot_update_tasks:
  assumes up: "slot_update a a' i e" and t: "task_inv a t"
    and ag: "ip_flat_slot (fst t) = i \<Longrightarrow> owner_agrees (sl_owner (qa_slots a' ! i)) (fst t)"
  shows "task_inv a' t"
proof -
  obtain s' where fr: "same_frame a a'" and i: "i < length (qa_slots a)"
    and s': "qa_slots a' = (qa_slots a)[i := s']" "sl_location s' = sl_location (qa_slots a ! i)"
      "unat (sl_last_epoch (qa_slots a ! i)) \<le> unat (sl_last_epoch s')"
    using up by (auto simp: slot_update_def)
  have "permit_inv a' (fst t)"
    using t fr i s' by (cases "ip_flat_slot (fst t) = i")
      (auto simp: task_inv_def permit_inv_def same_frame_def)
  moreover have "owner_agrees (sl_owner (qa_slots a' ! ip_flat_slot (fst t))) (fst t)"
  proof (cases "ip_flat_slot (fst t) = i")
    case True
    then show ?thesis using ag by simp
  next
    case False
    then show ?thesis using t s' by (simp add: task_inv_def)
  qed
  ultimately show ?thesis
    using t phase_inv_frame [OF fr] by (simp add: task_inv_def)
qed

lemma content_inv_other:
  "slot_update a a' i e \<Longrightarrow> content_inv a ins j \<Longrightarrow> j \<noteq> i \<Longrightarrow> ins' j = ins j \<Longrightarrow> content_inv a' ins' j"
  by (auto simp: slot_update_def content_inv_def slot_word_frame slot_bytes_frame)

lemma slot_update_system:
  assumes inv: "system_inv (a, ts, ins)" and up: "slot_update a a' i e"
    and "slot_inv a' i" "expert_inv a' e"
    and "\<And>t p ph. ts' t = Some (p, ph) \<Longrightarrow> ts t = Some (p, ph) \<or> task_inv a' (p, ph)"
    and "\<And>t p ph. ts' t = Some (p, ph) \<Longrightarrow> ts t = Some (p, ph) \<Longrightarrow> ip_flat_slot p = i \<Longrightarrow>
          owner_agrees (sl_owner (qa_slots a' ! i)) p"
    and "tasks_distinct ts'" "content_inv a' ins' i" "\<And>j. j \<noteq> i \<Longrightarrow> ins' j = ins j"
  shows "system_inv (a', ts', ins')"
proof -
  have wf: "arena_wf a" using inv by simp
  have "task_inv a' t" if t: "t \<in> ran ts'" for t
  proof -
    obtain tk where "ts' tk = Some t" using t unfolding ran_def by blast
    then obtain p ph where tk: "ts' tk = Some (p, ph)" "t = (p, ph)" by (cases t) auto
    from assms(5) [OF tk(1)] show ?thesis
    proof
      assume old: "ts tk = Some (p, ph)"
      then have "task_inv a t" using inv tk by (auto simp: ran_def)
      then show ?thesis
        using slot_update_tasks [OF up, of t] assms(6) [OF tk(1) old] tk(2) by simp
    qed (simp add: tk)
  qed
  moreover have "content_inv a' ins' j" if "j < length (qa_slots a')" for j
  proof (cases "j = i")
    case False
    moreover have "j < length (qa_slots a)" using that up by (auto simp: slot_update_def)
    ultimately show ?thesis
      using content_inv_other [OF up _ False] inv assms(9) by auto
  qed (use assms(8) in simp)
  ultimately show ?thesis
    using slot_update_wf [OF wf up assms(3,4)] assms(7) by simp
qed

lemma tasks_distinct_subset: "tasks_distinct ts \<Longrightarrow> ts' \<subseteq>\<^sub>m ts \<Longrightarrow> tasks_distinct ts'"
  unfolding tasks_distinct_def map_le_def dom_def by (smt (verit) mem_Collect_eq option.distinct(1))

lemma system_expert:
  assumes "system_inv (a, ts, ins)" "e < eg_num_experts (qa_geometry a)"
    "as_logical_slots (qa_state a) ! e = Some i"
  shows "i < length (qa_slots a)" "slot_inv a i" "content_inv a ins i"
    "\<exists>k. owner_key (sl_owner (qa_slots a ! i)) = Some k \<and> unat (qk_expert_id k) = e \<and> key_owns a k i"
proof -
  have "expert_inv a e" using assms by (auto simp: arena_wf_def)
  then obtain k where k: "owner_key (sl_owner (qa_slots a ! i)) = Some k" "unat (qk_expert_id k) = e"
    and i: "i < length (qa_slots a)"
    using assms(3) by (auto simp: expert_inv_def)
  then show "i < length (qa_slots a)" "slot_inv a i" "content_inv a ins i"
    using assms(1) by (auto simp: arena_wf_def)
  then show "\<exists>k. owner_key (sl_owner (qa_slots a ! i)) = Some k \<and> unat (qk_expert_id k) = e \<and> key_owns a k i"
    using k by (cases "sl_owner (qa_slots a ! i)") (auto simp: slot_inv_def Let_def)
qed

text \<open>Freeing the slot of an expert, published or not.\<close>

lemma freed_system:
  assumes inv: "system_inv (a, ts, ins)" and e: "e < eg_num_experts (qa_geometry a)"
    and i: "as_logical_slots (qa_state a) ! e = Some i" and fr: "same_frame a a'"
    and sl: "qa_slots a' = (qa_slots a)[i := (qa_slots a ! i)\<lparr>sl_owner := OwnerFree\<rparr>]"
    and lg: "as_logical_slots (qa_state a') = (as_logical_slots (qa_state a))[e := None]"
    and lt: "as_latest_generations (qa_state a') = as_latest_generations (qa_state a)"
    and mp: "qa_mapping a' = (qa_mapping a)[e := UNMAPPED] \<or>
             qa_mapping a' = qa_mapping a \<and> (\<nexists>r. sl_owner (qa_slots a ! i) = OwnerResident r)"
    and ts: "ts' \<subseteq>\<^sub>m ts"
  shows "system_inv (a', ts', ins)"
proof -
  note E = system_expert [OF inv e i]
  have len: "length (as_logical_slots (qa_state a)) = eg_num_experts (qa_geometry a)"
    "length (qa_mapping a) = eg_num_experts (qa_geometry a)" "expert_inv a e"
    using inv e by (auto simp: arena_wf_def)
  have mp': "qa_mapping a' = (qa_mapping a)[e := UNMAPPED]"
    using mp
  proof
    assume *: "qa_mapping a' = qa_mapping a \<and> (\<nexists>r. sl_owner (qa_slots a ! i) = OwnerResident r)"
    then have "qa_mapping a ! e = UNMAPPED"
      using len(3) i by (cases "sl_owner (qa_slots a ! i)") (auto simp: expert_inv_def)
    with * show ?thesis by (metis list_update_id)
  qed
  have "\<exists>s'. qa_slots a' = (qa_slots a)[i := s'] \<and> sl_location s' = sl_location (qa_slots a ! i) \<and>
      unat (sl_last_epoch (qa_slots a ! i)) \<le> unat (sl_last_epoch s')"
    by (intro exI [of _ "(qa_slots a ! i)\<lparr>sl_owner := OwnerFree\<rparr>"]) (simp add: sl)
  moreover have "\<exists>x. as_latest_generations (qa_state a') = (as_latest_generations (qa_state a))[e := x]"
    by (metis lt list_update_id)
  ultimately have up: "slot_update a a' i e"
    unfolding slot_update_def using fr E(1) e i lg mp' by blast
  have "slot_inv a' i"
    using E(1,2) sl fr slot_word_frame [OF fr] by (simp add: slot_inv_def same_frame_def Let_def)
  moreover have "expert_inv a' e"
    using lg mp' len e by (simp add: expert_inv_def)
  moreover have "content_inv a' ins i"
    using sl E(1) by (simp add: content_inv_def)
  moreover have "tasks_distinct ts'"
    using inv ts tasks_distinct_subset by auto
  moreover have "ts' t = Some x \<Longrightarrow> ts t = Some x" for t x
    using ts by (metis domI map_le_def)
  moreover have "owner_agrees (sl_owner (qa_slots a' ! i)) p" for p
    using sl E(1) by (simp add: owner_agrees_def)
  ultimately show ?thesis
    by (intro slot_update_system [OF inv up]) blast+
qed

lemma same_system:
  assumes "system_inv (a, ts, ins)" "qa_plan a' = qa_plan a" "qa_layer_index a' = qa_layer_index a"
    "qa_banks a' = qa_banks a" "qa_mapping a' = qa_mapping a" "qa_slots a' = qa_slots a"
    "as_logical_slots (qa_state a') = as_logical_slots (qa_state a)"
    "as_latest_generations (qa_state a') = as_latest_generations (qa_state a)"
    "as_next_install_ticket (qa_state a') = as_next_install_ticket (qa_state a)"
  shows "system_inv (a', ts, ins)"
proof -
  have fr: "same_frame a a'" using assms by (simp add: same_frame_def)
  have "slot_inv a' i = slot_inv a i" for i
    unfolding slot_inv_def Let_def using assms(2-) slot_word_frame [OF fr]
    by (cases "sl_owner (qa_slots a ! i)") (simp_all add: key_owns_def)
  moreover have "expert_inv a' e = expert_inv a e" for e
    unfolding expert_inv_def using assms(2-) by (simp split: option.split slot_owner.split)
  moreover have "task_inv a' t = task_inv a t" for t
    unfolding task_inv_def permit_inv_def using assms(2-) by (simp add: phase_inv_frame [OF fr])
  moreover have "content_inv a' ins i = content_inv a ins i" for i
    unfolding content_inv_def using assms(2-) by (simp add: slot_word_frame [OF fr] slot_bytes_frame [OF fr])
  ultimately show ?thesis
    using assms by (simp add: arena_wf_def)
qed

lemma count_system [simp]: "system_inv (count_event f a, ts, ins) = system_inv (a, ts, ins)"
proof
  show "system_inv (a, ts, ins)" if "system_inv (count_event f a, ts, ins)"
    by (rule same_system [OF that]) (simp_all add: count_event_def)
  show "system_inv (count_event f a, ts, ins)" if "system_inv (a, ts, ins)"
    by (rule same_system [OF that]) (simp_all add: count_event_def)
qed

subsection \<open>Every step keeps the invariant\<close>

lemma mapping_offset_Inr [simp]: "mapping_offset_of e = Inr m \<Longrightarrow> m div EXPERT_MAPPING_ENTRY_BYTES = e"
  by (auto simp: mapping_offset_of_def res_iff checked_mul_Some EXPERT_MAPPING_ENTRY_BYTES_def)

lemma mapping_offset_u32: "mapping_offset_of (unat (w :: u32)) = Inr (8 * unat w)"
  using unat_bound [of w]
  by (simp add: mapping_offset_of_def checked_mul_def usize_MAX_def EXPERT_MAPPING_ENTRY_BYTES_def)

lemma supersede_system:
  assumes inv: "system_inv (a, ts, ins)" and e: "e < eg_num_experts (qa_geometry a)"
    and i: "as_logical_slots (qa_state a) ! e = Some i" and s: "supersede_slot e i a = Inr a'"
  shows "system_inv (a', ts, ins)" "as_logical_slots (qa_state a') ! e = None"
    "qa_plan a' = qa_plan a" "qa_layer_index a' = qa_layer_index a"
proof -
  have len: "length (as_logical_slots (qa_state a)) = eg_num_experts (qa_geometry a)"
    using inv by (simp add: arena_wf_def)
  show "system_inv (a', ts, ins)"
    using s by (intro freed_system [OF inv e i])
      (auto simp: supersede_slot_def arena_update_defs same_frame_def res_iff split: slot_owner.splits)
  show "as_logical_slots (qa_state a') ! e = None" "qa_plan a' = qa_plan a"
    "qa_layer_index a' = qa_layer_index a"
    using s e len by (auto simp: supersede_slot_def arena_update_defs res_iff split: slot_owner.splits)
qed

text \<open>An expert without a slot: recording a generation for it changes nothing else.\<close>

lemma latest_system:
  assumes inv: "system_inv (a, ts, ins)" and e: "e < eg_num_experts (qa_geometry a)"
    and none: "as_logical_slots (qa_state a) ! e = None" and fr: "same_frame a a'"
    and eqs: "qa_slots a' = qa_slots a" "as_logical_slots (qa_state a') = as_logical_slots (qa_state a)"
      "as_latest_generations (qa_state a') = (as_latest_generations (qa_state a))[e := x]"
      "qa_mapping a' = qa_mapping a"
  shows "system_inv (a', ts, ins)"
proof -
  have fr': "qa_plan a' = qa_plan a" "qa_layer_index a' = qa_layer_index a" "qa_banks a' = qa_banks a"
    "as_next_install_ticket (qa_state a) \<le> as_next_install_ticket (qa_state a')"
    using fr by (auto simp: same_frame_def)
  have keep: "key_owns a k i \<Longrightarrow> key_owns a' k i" for k i
    using none eqs fr' by (cases "unat (qk_expert_id k) = e") (auto simp: key_owns_def)
  have "slot_inv a i \<Longrightarrow> slot_inv a' i" for i
    unfolding slot_inv_def Let_def using eqs fr' slot_word_frame [OF fr]
    by (cases "sl_owner (qa_slots a ! i)") (auto intro: keep)
  moreover have "expert_inv a' e' = expert_inv a e'" for e'
    unfolding expert_inv_def using eqs by (simp split: option.split slot_owner.split)
  moreover have "task_inv a t \<Longrightarrow> task_inv a' t" for t
    unfolding task_inv_def permit_inv_def using eqs fr' by (auto simp: phase_inv_frame [OF fr])
  moreover have "content_inv a' ins i = content_inv a ins i" for i
    unfolding content_inv_def using eqs by (simp add: slot_word_frame [OF fr] slot_bytes_frame [OF fr])
  ultimately show ?thesis
    using inv eqs fr' by (simp add: arena_wf_def)
qed

lemma find_free_slot_Some:
  "find_free_slot b ex slots = (Some j, ex') \<Longrightarrow>
    b \<le> j \<and> j < b + length slots \<and> sl_owner (slots ! (j - b)) = OwnerFree \<and>
    unat (sl_last_epoch (slots ! (j - b))) \<noteq> u32_MAX"
proof (induction b ex slots rule: find_free_slot.induct)
  case (2 i exhausted slot slots)
  show ?case
  proof (cases "sl_owner slot \<noteq> OwnerFree \<or> unat (sl_last_epoch slot) = u32_MAX")
    case True
    with 2 have "Suc i \<le> j \<and> j < Suc i + length slots \<and> sl_owner (slots ! (j - Suc i)) = OwnerFree \<and>
        unat (sl_last_epoch (slots ! (j - Suc i))) \<noteq> u32_MAX"
      by (auto split: if_splits)
    moreover from this have "j - i = Suc (j - Suc i)" by arith
    ultimately show ?thesis by simp
  next
    case False
    with 2(3) have "j = i" by simp
    with False show ?thesis by simp
  qed
qed simp

lemma unat_suc_epoch: "unat (w :: u32) \<noteq> u32_MAX \<Longrightarrow> unat (w + 1) = unat w + 1"
  using unat_bound [of w] by (simp add: u32_MAX_def unat_word_ariths)

lemma reserve_slot_cases:
  assumes "reserve_slot key a = (res, a')"
  obtains (none) x where "\<forall>p. res \<noteq> Inr (AcquireInstall p)"
      "same_frame a a'" "qa_slots a' = qa_slots a"
      "as_logical_slots (qa_state a') = as_logical_slots (qa_state a)" "qa_mapping a' = qa_mapping a"
      "as_latest_generations (qa_state a') = (as_latest_generations (qa_state a))[unat (qk_expert_id key) := x]"
  | (some) p i where "res = Inr (AcquireInstall p)" "same_frame a a'"
      "i < length (qa_slots a)" "sl_owner (qa_slots a ! i) = OwnerFree"
      "unat (sl_last_epoch (qa_slots a ! i)) \<noteq> u32_MAX"
      "as_next_install_ticket (qa_state a) < as_next_install_ticket (qa_state a')"
      "p = \<lparr>ip_key = key, ip_flat_slot = i,
            ip_residency = \<lparr>qr_key = key, qr_location = sl_location (qa_slots a ! i),
                            qr_slot_epoch = sl_last_epoch (qa_slots a ! i) + 1\<rparr>,
            ip_install_ticket = as_next_install_ticket (qa_state a),
            ip_reused = sl_ever_installed (qa_slots a ! i), ip_active = True\<rparr>"
      "qa_slots a' = (qa_slots a)[i := (qa_slots a ! i)
         \<lparr>sl_last_epoch := sl_last_epoch (qa_slots a ! i) + 1,
          sl_owner := OwnerInstalling key (sl_last_epoch (qa_slots a ! i) + 1)
                        (as_next_install_ticket (qa_state a))\<rparr>]"
      "as_logical_slots (qa_state a') = (as_logical_slots (qa_state a))[unat (qk_expert_id key) := Some i]"
      "as_latest_generations (qa_state a') =
         (as_latest_generations (qa_state a))[unat (qk_expert_id key) := Some (qk_logical_generation key)]"
      "qa_mapping a' = qa_mapping a"
proof (cases "find_free_slot 0 None (qa_slots a)")
  case (Pair f ex)
  show thesis
  proof (cases "\<exists>p. res = Inr (AcquireInstall p)")
    case False
    then show thesis
      using assms Pair none
      by (auto simp: reserve_slot_def Let_def same_frame_def checked_add_u64_def word_le_nat_alt
          unat_word_ariths split: option.splits if_splits)
  next
    case True
    then obtain i where i: "f = Some i" "checked_add_u64 (as_next_install_ticket (qa_state a)) 1 \<noteq> None"
      using assms Pair by (auto simp: reserve_slot_def Let_def split: option.splits if_splits)
    have F: "i < length (qa_slots a)" "sl_owner (qa_slots a ! i) = OwnerFree"
      "unat (sl_last_epoch (qa_slots a ! i)) \<noteq> u32_MAX"
      using find_free_slot_Some [of 0 None "qa_slots a" i ex] Pair i(1) by auto
    have tk: "as_next_install_ticket (qa_state a) < as_next_install_ticket (qa_state a) + 1"
      "checked_add_u64 (as_next_install_ticket (qa_state a)) 1 = Some (as_next_install_ticket (qa_state a) + 1)"
      using i(2) by (auto simp: checked_add_u64_def word_less_nat_alt unat_word_ariths split: if_splits)
    show thesis
      using assms F Pair i tk
      by (intro some [of _ i]) (auto simp: reserve_slot_def Let_def same_frame_def)
  qed
qed

lemma task_system:
  assumes "system_inv (a, ts, ins)" "ts' \<subseteq>\<^sub>m ts"
  shows "system_inv (a, ts', ins)"
proof -
  have "ran ts' \<subseteq> ran ts"
  proof
    fix x assume "x \<in> ran ts'"
    then obtain t where "ts' t = Some x" unfolding ran_def by blast
    then have "ts t = Some x" using assms(2) by (metis domI map_le_def)
    then show "x \<in> ran ts" by (rule ranI)
  qed
  with assms tasks_distinct_subset show ?thesis by auto
qed

lemma phase_system:
  assumes inv: "system_inv (a, ts, ins)" and t: "ts t = Some (p, ph)" and ph': "phase_inv a p ph'"
  shows "system_inv (a, ts(t \<mapsto> (p, ph')), ins)"
proof -
  have "task_inv a (p, ph)" using inv t by (auto simp: ran_def)
  then have "task_inv a (p, ph')" using ph' by (simp add: task_inv_def)
  moreover have "tasks_distinct (ts(t \<mapsto> (p, ph')))"
    using inv t unfolding system_inv.simps tasks_distinct_def
    by (smt (verit) fun_upd_apply fst_conv option.inject)
  ultimately show ?thesis using inv by (auto simp: ran_def split: if_splits)
qed

lemma reserve_system:
  assumes inv: "system_inv (a, ts, ins)" and e: "unat (qk_expert_id key) < eg_num_experts (qa_geometry a)"
    and layer: "qk_layer_index key = qa_layer_index a"
    and none: "as_logical_slots (qa_state a) ! unat (qk_expert_id key) = None"
    and r: "reserve_slot key a = (res, a')"
  shows "system_inv (a', (case res of Inr (AcquireInstall p) \<Rightarrow> ts(ip_install_ticket p \<mapsto> (p, Reserved)) | _ \<Rightarrow> ts), ins)"
  using r
proof (cases rule: reserve_slot_cases)
  case (none x)
  have "system_inv (a', ts, ins)"
    by (rule latest_system [OF inv e assms(4) none(2,3,4,6,5)])
  with none(1) show ?thesis by (auto split: sum.split q4_acquire.split)
next
  case (some p i)
  let ?e = "unat (qk_expert_id key)" and ?tk = "as_next_install_ticket (qa_state a)"
  have len: "length (as_logical_slots (qa_state a)) = eg_num_experts (qa_geometry a)"
    "length (as_latest_generations (qa_state a)) = eg_num_experts (qa_geometry a)"
    "slot_inv a i" "qa_mapping a ! ?e = UNMAPPED"
    using inv e some(3) assms(4) by (auto simp: arena_wf_def expert_inv_def)
  have ep: "unat (sl_last_epoch (qa_slots a ! i) + 1) = unat (sl_last_epoch (qa_slots a ! i)) + 1"
    using some(5) by (rule unat_suc_epoch)
  then have ep0: "sl_last_epoch (qa_slots a ! i) + 1 \<noteq> 0" by (metis add_is_0 one_neq_zero unat_0)
  have plan: "qa_plan a' = qa_plan a" "qa_layer_index a' = qa_layer_index a"
    using some(2) by (auto simp: same_frame_def)
  have "\<exists>x. qa_mapping a' = (qa_mapping a)[?e := x]" by (metis some(11) list_update_id)
  moreover have "\<exists>s'. qa_slots a' = (qa_slots a)[i := s'] \<and> sl_location s' = sl_location (qa_slots a ! i) \<and>
      unat (sl_last_epoch (qa_slots a ! i)) \<le> unat (sl_last_epoch s')"
    using some(8) ep by auto
  ultimately have up: "slot_update a a' i ?e"
    unfolding slot_update_def using some(2,3,4,9,10) e assms(4) by blast
  have si: "slot_inv a' i"
    using len(3) some(3,6,8,9,10) ep ep0 plan e layer len(1,2) slot_word_frame [OF some(2)]
    by (auto simp: slot_inv_def Let_def key_owns_def)
  have ei: "expert_inv a' ?e"
    using some(3,8,9,11) e len by (auto simp: expert_inv_def)
  have word: "slot_epoch_word a' (sl_location (qa_slots a ! i)) \<noteq> sl_last_epoch (qa_slots a ! i) + 1"
    using len(3) ep slot_word_frame [OF some(2)] by (auto simp: slot_inv_def Let_def)
  have new: "task_inv a' (p, Reserved)"
    using some(3,6,7,8) ep ep0 e plan word
    by (auto simp: task_inv_def permit_inv_def owner_agrees_def)
  have old: "permit_inv a q" "ip_install_ticket q = t" if "ts t = Some (q, ph)" for t q ph
    using inv ranI [of ts t "(q, ph)"] that by (auto simp: task_inv_def tasks_distinct_def)
  have fresh: "ip_install_ticket q < ?tk" "ip_flat_slot q = i \<Longrightarrow> qr_slot_epoch (ip_residency q) \<noteq> sl_last_epoch (qa_slots a ! i) + 1"
    if "ts t = Some (q, ph)" for t q ph
    using old(1) [OF that] ep by (auto simp: permit_inv_def)
  have "tasks_distinct (ts(?tk \<mapsto> (p, Reserved)))"
    using inv old(2) fresh some(7) unfolding system_inv.simps tasks_distinct_def
    by (smt (verit) fun_upd_apply install_permit.select_convs option.inject prod.inject q4_residency.select_convs(3))
  moreover have "owner_agrees (sl_owner (qa_slots a' ! i)) q" if "ts t = Some (q, ph)" for t q ph
    using fresh(1) [OF that] some(3,8) by (auto simp: owner_agrees_def)
  moreover have "content_inv a' ins i" using some(3,8) by (simp add: content_inv_def)
  ultimately have "system_inv (a', ts(?tk \<mapsto> (p, Reserved)), ins)"
    using new by (intro slot_update_system [OF inv up si ei]) (auto split: if_splits)
  then show ?thesis using some(1,7) by simp
qed

definition acquire_tasks ::
    "bootstrap_error + q4_acquire \<Rightarrow> (u64 \<rightharpoonup> install_task) \<Rightarrow> u64 \<rightharpoonup> install_task" where
  "acquire_tasks res ts =
     (case res of Inr (AcquireInstall p) \<Rightarrow> ts(ip_install_ticket p \<mapsto> (p, Reserved)) | _ \<Rightarrow> ts)"

lemma acquire_system:
  assumes inv: "system_inv (a, ts, ins)" and r: "acquire_with_unpublish key a = (res, a')"
  shows "system_inv (a', acquire_tasks res ts, ins)"
proof -
  let ?e = "unat (qk_expert_id key)" and ?st = "qa_state a"
  consider (bad) "a' = a \<or> a' = count_event bump_stale a" "\<forall>p. res \<noteq> Inr (AcquireInstall p)"
    | (reserve) "?e < eg_num_experts (qa_geometry a)" "qk_layer_index key = qa_layer_index a"
        "as_logical_slots ?st ! ?e = None" "reserve_slot key a = (res, a')"
    | (fresh) "?e < eg_num_experts (qa_geometry a)" "qk_layer_index key = qa_layer_index a"
        "as_latest_generations ?st ! ?e = None" "reserve_slot key a = (res, a')"
    | (super) i a1 where "?e < eg_num_experts (qa_geometry a)" "qk_layer_index key = qa_layer_index a"
        "as_logical_slots ?st ! ?e = Some i" "supersede_slot ?e i a = Inr a1" "reserve_slot key a1 = (res, a')"
    using r by (auto simp: acquire_with_unpublish_def Let_def
        split: if_splits option.splits slot_owner.splits sum.splits)
  then show ?thesis
  proof cases
    case bad
    then have "acquire_tasks res ts = ts" by (auto simp: acquire_tasks_def split: sum.split q4_acquire.split)
    with bad(1) inv show ?thesis by (metis count_system)
  next
    case reserve
    then show ?thesis using reserve_system [OF inv] by (simp add: acquire_tasks_def)
  next
    case fresh
    have "as_logical_slots ?st ! ?e = None"
    proof (rule ccontr)
      assume "as_logical_slots ?st ! ?e \<noteq> None"
      then obtain i where "as_logical_slots ?st ! ?e = Some i" by auto
      then show False
        using system_expert(4) [OF inv fresh(1)] fresh(3) by (auto simp: key_owns_def)
    qed
    then show ?thesis using reserve_system [OF inv] fresh by (simp add: acquire_tasks_def)
  next
    case super
    note S = supersede_system [OF inv super(1,3,4)]
    show ?thesis
      using reserve_system [OF S(1) _ _ S(2) super(5)] S super(1,2) by (simp add: acquire_tasks_def)
  qed
qed

lemma retire_cases:
  assumes "retire_with_unpublish key a = (res, a')"
  defines "e \<equiv> unat (qk_expert_id key)"
  obtains (same) "a' = a"
  | (retired) i r m where "e < eg_num_experts (qa_geometry a)" "as_logical_slots (qa_state a) ! e = Some i"
      "sl_owner (qa_slots a ! i) = OwnerResident r" "mapping_offset_of e = Inr m"
      "a' = count_event (bump_unpublications \<circ> bump_retires)
              (set_logical_slot e None (set_slot_owner i OwnerFree (write_mapping m UNMAPPED a)))"
  | (cancelled) i k ep tk where "e < eg_num_experts (qa_geometry a)"
      "as_logical_slots (qa_state a) ! e = Some i" "sl_owner (qa_slots a ! i) = OwnerInstalling k ep tk"
      "a' = count_event bump_cancellations (set_logical_slot e None (set_slot_owner i OwnerFree a))"
proof (cases "a' = a")
  case False
  note r = assms(1) [unfolded retire_with_unpublish_def Let_def, folded e_def]
  from r False have g: "e < eg_num_experts (qa_geometry a)"
    by (auto split: if_splits)
  from r False obtain latest where l: "as_latest_generations (qa_state a) ! e = Some latest"
    by (cases "as_latest_generations (qa_state a) ! e") (auto split: if_splits)
  with r False obtain i where i: "as_logical_slots (qa_state a) ! e = Some i"
    by (cases "as_logical_slots (qa_state a) ! e") (auto split: if_splits)
  show thesis
  proof (cases "sl_owner (qa_slots a ! i)")
    case OwnerFree
    then show thesis using r False l i by (simp split: if_splits)
  next
    case (OwnerInstalling k ep tk)
    then show thesis using r False l i g by (intro cancelled) (auto split: if_splits)
  next
    case (OwnerResident r')
    moreover from this obtain m where "mapping_offset_of e = Inr m"
      using mapping_offset_u32 [of "qk_expert_id key"] by (simp add: e_def)
    ultimately show thesis using r False l i g by (intro retired) (auto split: if_splits)
  qed
qed (rule same)

lemma retire_system:
  assumes inv: "system_inv (a, ts, ins)" and r: "retire_with_unpublish key a = (res, a')"
  shows "system_inv (a', ts, ins)"
  using r
proof (cases rule: retire_cases)
  case (retired i r m)
  show ?thesis
    by (rule freed_system [OF inv retired(1,2)])
      (use retired(4,5) in \<open>simp_all add: arena_update_defs same_frame_def\<close>)
next
  case (cancelled i k ep tk)
  show ?thesis
    by (rule freed_system [OF inv cancelled(1,2)])
      (use cancelled(3,4) in \<open>simp_all add: arena_update_defs same_frame_def\<close>)
qed (use inv in simp)

lemma cancel_system:
  assumes inv: "system_inv (a, ts, ins)" and t: "ts t = Some (p, ph)"
  shows "system_inv (permit_drop p a, ts(t := None), ins)"
proof -
  let ?i = "ip_flat_slot p" and ?a' = "cancel_install (ip_flat_slot p) (ip_install_ticket p) a"
  have le: "ts(t := None) \<subseteq>\<^sub>m ts" by (simp add: map_le_def)
  have task: "task_inv a (p, ph)" using inv ranI [of ts t "(p, ph)"] t by auto
  then have act: "permit_drop p a = ?a'" and i: "?i < length (qa_slots a)"
    by (auto simp: permit_drop_def task_inv_def permit_inv_def)
  show ?thesis
  proof (cases "\<exists>k ep. sl_owner (qa_slots a ! ?i) = OwnerInstalling k ep (ip_install_ticket p)")
    case False
    then have "?a' = a" by (auto simp: cancel_install_def split: slot_owner.splits)
    then show ?thesis using task_system [OF inv le] act by simp
  next
    case True
    then obtain k ep where ow: "sl_owner (qa_slots a ! ?i) = OwnerInstalling k ep (ip_install_ticket p)" by blast
    moreover have "slot_inv a ?i" using inv i by (auto simp: arena_wf_def)
    ultimately have k: "unat (qk_expert_id k) < eg_num_experts (qa_geometry a)"
      "as_logical_slots (qa_state a) ! unat (qk_expert_id k) = Some ?i"
      by (auto simp: slot_inv_def Let_def key_owns_def)
    moreover have "length (as_logical_slots (qa_state a)) = eg_num_experts (qa_geometry a)"
      using inv by (simp add: arena_wf_def)
    ultimately have eq: "?a' = count_event bump_cancellations
        (set_logical_slot (unat (qk_expert_id k)) None (set_slot_owner ?i OwnerFree a))"
      using ow i by (simp add: cancel_install_def Let_def get_flat_def set_slot_owner_def)
    show ?thesis
      unfolding act eq
      by (rule freed_system [OF inv k]) (auto simp: arena_update_defs same_frame_def ow le)
  qed
qed

lemma residency_packs:
  assumes wf: "arena_wf a" and p: "permit_inv a p"
  shows "\<exists>m. residency_mapping_entry (ip_residency p) = Inr m"
    and "flat_slot_for_location (vp_layout (qa_plan a)) (qr_location (ip_residency p)) = Inr (ip_flat_slot p)"
proof -
  show f: "flat_slot_for_location (vp_layout (qa_plan a)) (qr_location (ip_residency p)) = Inr (ip_flat_slot p)"
    using wf_location(2) [OF wf, of "ip_flat_slot p"] p by (auto simp: permit_inv_def)
  show "\<exists>m. residency_mapping_entry (ip_residency p) = Inr m"
    using wf_slot_range(4) [OF wf f] p
    by (auto simp: residency_mapping_entry_def mapping_entry_try_new_def permit_inv_def)
qed

lemma install_offsets_Inr:
  assumes "install_offsets p a = Inr (m, po, mo)"
  shows "residency_mapping_entry (ip_residency p) = Inr m" "mo = 8 * unat (qk_expert_id (ip_key p))"
    "po = unat (el_slot (qr_location (ip_residency p))) * eg_slot_stride_bytes (qa_geometry a)"
  using assms by (auto simp: install_offsets_def res_iff checked_mul_Some mapping_offset_u32)

lemma stage_check_system:
  assumes inv: "system_inv (a, ts, ins)" and t: "ts t = Some (p, Reserved)"
    and s: "stage_check p payload a = (res, a')"
  shows "system_inv (a', ts(t \<mapsto> (p, case res of Inl _ \<Rightarrow> Abandoned | Inr (cs, off, pr) \<Rightarrow> Staging payload cs off pr)), ins)"
proof -
  have task: "task_inv a (p, Reserved)" using inv ranI [of ts t "(p, Reserved)"] t by auto
  have a': "a' = a \<or> a' = count_event bump_stale a"
    using s by (auto simp: stage_check_def split: sum.splits if_splits)
  have "phase_inv a p (case res of Inl _ \<Rightarrow> Abandoned | Inr (cs, off, pr) \<Rightarrow> Staging payload cs off pr)"
  proof (cases res)
    case (Inr x)
    then obtain cs off pr where x: "res = Inr (cs, off, pr)" by (cases x) auto
    then obtain m mo where cs: "checked_slot_new (qa_geometry a) (qk_expert_id (ip_key p))
          (qr_slot_epoch (ip_residency p)) payload = Inr cs"
      and off: "install_offsets p a = Inr (m, off, mo)"
      and pr: "pr = \<lparr>pi_permit = p, pi_mapping = m, pi_mapping_offset = mo\<rparr>"
      using s by (auto simp: stage_check_def res_iff split: sum.splits if_splits prod.splits)
    show ?thesis
      using task x cs pr install_offsets_Inr [OF off] by (simp add: task_inv_def prepared_ok_def)
  qed simp
  then have "system_inv (a, ts(t \<mapsto> (p, case res of Inl _ \<Rightarrow> Abandoned | Inr (cs, off, pr) \<Rightarrow> Staging payload cs off pr)), ins)"
    using phase_system [OF inv t] by blast
  then show ?thesis using a' by (metis count_system)
qed

lemma image_word: "u32_from_le_bytes (take 4 (slot_image ep payload)) = ep"
  by (simp add: slot_image_def)

lemma written_system:
  assumes inv: "system_inv (a, ts, ins)" and t: "ts t = Some (p, ph)"
    and len: "length payload = eg_logical_expert_bytes (qa_geometry a)"
  defines "ep \<equiv> qr_slot_epoch (ip_residency p)" and "loc \<equiv> qr_location (ip_residency p)"
  defines "a' \<equiv> write_bank (el_bank loc) (unat (el_slot loc) * eg_slot_stride_bytes (qa_geometry a))
                   (slot_image ep payload) a"
  assumes ph': "phase_inv a' p ph'"
  shows "system_inv (a', ts(t \<mapsto> (p, ph')), ins)"
    and "slot_bytes a' loc = slot_image ep payload" "slot_epoch_word a' loc = ep"
proof -
  have wf: "arena_wf a" and task: "task_inv a (p, ph)"
    using inv ranI [of ts t "(p, ph)"] t by auto
  then have p: "permit_inv a p" and own: "owner_agrees (sl_owner (qa_slots a ! ip_flat_slot p)) p"
    by (auto simp: task_inv_def)
  let ?i = "ip_flat_slot p"
  have f: "flat_slot_for_location (vp_layout (qa_plan a)) loc = Inr ?i"
    using residency_packs(2) [OF wf p] by (simp add: loc_def)
  have loc: "loc = sl_location (qa_slots a ! ?i)" using p by (simp add: permit_inv_def loc_def)
  have len': "length (slot_image ep payload) = eg_slot_stride_bytes (qa_geometry a)"
    using wf len by (simp add: slot_image_def arena_wf_def plan_ok_def geometry_ok_def)
  have bytes: "slot_bytes a' (sl_location (qa_slots a ! j)) =
      (if j = ?i then slot_image ep payload else slot_bytes a (sl_location (qa_slots a ! j)))"
    if j: "j < length (qa_slots a)" for j
    unfolding a'_def slot_bytes_write [OF wf f wf_location(2) [OF wf j] len']
    using wf_location(2) [OF wf j] f loc by (auto simp: loc)
  have word: "slot_epoch_word a' (sl_location (qa_slots a ! j)) =
      (if j = ?i then ep else slot_epoch_word a (sl_location (qa_slots a ! j)))"
    if "j < length (qa_slots a)" for j
    using bytes [OF that] by (simp add: slot_epoch_word_def image_word)
  have i: "?i < length (qa_slots a)" using p by (simp add: permit_inv_def)
  show "slot_bytes a' loc = slot_image ep payload" "slot_epoch_word a' loc = ep"
    using bytes [OF i] word [OF i] by (simp_all add: loc)
  have eqs: "qa_plan a' = qa_plan a" "qa_layer_index a' = qa_layer_index a" "qa_mapping a' = qa_mapping a"
    "qa_state a' = qa_state a"
    by (simp_all add: a'_def write_bank_def)
  have bank: "length (subslice_write (qa_banks a ! unat (el_bank loc))
      (unat (el_slot loc) * eg_slot_stride_bytes (qa_geometry a)) (slot_image ep payload)) =
      length (qa_banks a ! unat (el_bank loc))"
    using wf_slot_range(2) [OF wf f] len' by (intro length_slice_write) simp
  then have banks: "map length (qa_banks a') = map length (qa_banks a)"
    using wf_slot_range(1) [OF wf f] by (simp add: a'_def write_bank_def map_update list_update_same_conv)
  have slots: "slot_inv a' j" if j: "j < length (qa_slots a)" for j
  proof -
    have "slot_inv a j" using wf j by (auto simp: arena_wf_def)
    moreover have "unat (slot_epoch_word a' (sl_location (qa_slots a ! j))) \<le> unat (sl_last_epoch (qa_slots a ! j))"
      using \<open>slot_inv a j\<close> word [OF j] p
      by (cases "j = ?i") (simp_all add: slot_inv_def Let_def permit_inv_def ep_def)
    ultimately show ?thesis
      by (cases "sl_owner (qa_slots a ! j)") (auto simp: slot_inv_def Let_def eqs key_owns_def)
  qed
  have experts: "expert_inv a' e = expert_inv a e" for e
    unfolding expert_inv_def eqs by (rule refl)
  have wf': "arena_wf a'"
    using wf slots experts banks eqs by (simp add: arena_wf_def)
  have other: "phase_inv a' q ph2" if q: "ts t2 = Some (q, ph2)" "t2 \<noteq> t" for q ph2 t2
  proof -
    have old: "task_inv a (q, ph2)" using inv ranI [of ts t2 "(q, ph2)"] q by auto
    then have pq: "permit_inv a q" by (simp add: task_inv_def)
    have ne: "ip_flat_slot q = ?i \<Longrightarrow> qr_slot_epoch (ip_residency q) \<noteq> ep"
      using inv q t unfolding ep_def system_inv.simps tasks_distinct_def by blast
    have "slot_epoch_word a' (qr_location (ip_residency q)) = qr_slot_epoch (ip_residency q) \<Longrightarrow>
        slot_epoch_word a (qr_location (ip_residency q)) = qr_slot_epoch (ip_residency q) \<and>
        slot_bytes a' (qr_location (ip_residency q)) = slot_bytes a (qr_location (ip_residency q))"
      using word [of "ip_flat_slot q"] bytes [of "ip_flat_slot q"] pq ne
      by (auto simp: permit_inv_def split: if_splits)
    then show ?thesis
      using old by (cases ph2) (auto simp: task_inv_def eqs)
  qed
  have "task_inv a' x" if x: "x \<in> ran (ts(t \<mapsto> (p, ph')))" for x
  proof -
    obtain t2 where t2: "(ts(t \<mapsto> (p, ph'))) t2 = Some x" using x unfolding ran_def by blast
    obtain q ph2 where xq: "x = (q, ph2)" by (cases x)
    show ?thesis
    proof (cases "t2 = t")
      case True
      then show ?thesis using t2 ph' p own eqs by (auto simp: task_inv_def permit_inv_def)
    next
      case False
      then have "ts t2 = Some (q, ph2)" using t2 xq by simp
      moreover from this have "task_inv a (q, ph2)" using inv ranI [of ts t2 "(q, ph2)"] by auto
      ultimately show ?thesis
        using other [OF _ False] xq eqs by (auto simp: task_inv_def permit_inv_def)
    qed
  qed
  moreover have "content_inv a' ins j" if j: "j < length (qa_slots a)" for j
  proof -
    have "content_inv a ins j" using inv j by simp
    then show ?thesis
      using bytes [OF j] word [OF j] own eqs
      by (cases "j = ?i") (auto simp: content_inv_def owner_agrees_def ep_def)
  qed
  moreover have "tasks_distinct (ts(t \<mapsto> (p, ph')))"
    using inv t unfolding system_inv.simps tasks_distinct_def
    by (smt (verit) fun_upd_apply fst_conv option.inject)
  ultimately show "system_inv (a', ts(t \<mapsto> (p, ph')), ins)"
    using wf' eqs by simp
qed

lemma publish_system:
  assumes inv: "system_inv (a, ts, ins)" and t: "ts t = Some (p, Staged payload pr)"
    and cur: "reservation_current p (qa_state a)"
  shows "system_inv (publish p (pi_mapping_offset pr) (pi_mapping pr) a, ts(t := None),
    ins(ip_flat_slot p := payload))"
proof -
  let ?i = "ip_flat_slot p" and ?e = "unat (qk_expert_id (ip_key p))" and ?r = "ip_residency p"
  let ?a' = "publish p (pi_mapping_offset pr) (pi_mapping pr) a"
  let ?s' = "(qa_slots a ! ?i)\<lparr>sl_owner := OwnerResident ?r, sl_ever_installed := True\<rparr>"
  have wf: "arena_wf a" and task: "task_inv a (p, Staged payload pr)"
    using inv ranI [of ts t "(p, Staged payload pr)"] t by auto
  then have p: "permit_inv a p" and ph: "phase_inv a p (Staged payload pr)"
    by (auto simp: task_inv_def)
  have off: "pi_mapping_offset pr div EXPERT_MAPPING_ENTRY_BYTES = ?e"
    using ph by (simp add: prepared_ok_def EXPERT_MAPPING_ENTRY_BYTES_def)
  have e: "?e < eg_num_experts (qa_geometry a)" and i: "?i < length (qa_slots a)"
    using p by (auto simp: permit_inv_def)
  have len: "length (as_logical_slots (qa_state a)) = eg_num_experts (qa_geometry a)"
    "length (as_latest_generations (qa_state a)) = eg_num_experts (qa_geometry a)"
    "length (qa_mapping a) = eg_num_experts (qa_geometry a)" "slot_inv a ?i"
    using wf i by (auto simp: arena_wf_def)
  have c: "as_logical_slots (qa_state a) ! ?e = Some ?i"
    "sl_owner (qa_slots a ! ?i) = OwnerInstalling (ip_key p) (qr_slot_epoch ?r) (ip_install_ticket p)"
    using cur e len by (auto simp: reservation_current_def Let_def get_flat_def)
  have fields: "qa_slots ?a' = (qa_slots a)[?i := ?s']" "qa_plan ?a' = qa_plan a"
    "qa_layer_index ?a' = qa_layer_index a" "qa_banks ?a' = qa_banks a"
    "qa_mapping ?a' = (qa_mapping a)[?e := pi_mapping pr]"
    "as_logical_slots (qa_state ?a') = as_logical_slots (qa_state a)"
    "as_latest_generations (qa_state ?a') = as_latest_generations (qa_state a)"
    "as_next_install_ticket (qa_state ?a') = as_next_install_ticket (qa_state a)"
    using off by (simp_all add: publish_def Let_def arena_update_defs)
  have fr: "same_frame a ?a'" using fields by (simp add: same_frame_def)
  have "\<exists>s'. qa_slots ?a' = (qa_slots a)[?i := s'] \<and> sl_location s' = sl_location (qa_slots a ! ?i) \<and>
      unat (sl_last_epoch (qa_slots a ! ?i)) \<le> unat (sl_last_epoch s')"
    by (intro exI [of _ ?s']) (simp add: fields)
  moreover have "\<exists>x. as_logical_slots (qa_state ?a') = (as_logical_slots (qa_state a))[?e := x]"
    "\<exists>x. as_latest_generations (qa_state ?a') = (as_latest_generations (qa_state a))[?e := x]"
    using fields(6,7) by (metis list_update_id)+
  ultimately have up: "slot_update a ?a' ?i ?e"
    unfolding slot_update_def using fr e i c(1) fields(5) by blast
  have si: "slot_inv ?a' ?i"
    using len(4) c p i fields slot_word_frame [OF fr]
    by (auto simp: slot_inv_def Let_def permit_inv_def key_owns_def)
  have ei: "expert_inv ?a' ?e"
    using c(1) i e len(3) fields ph p by (auto simp: expert_inv_def prepared_ok_def permit_inv_def)
  have "owner_agrees (sl_owner (qa_slots ?a' ! ?i)) q"
    if "ts t2 = Some (q, ph2)" "t2 \<noteq> t" "ip_flat_slot q = ?i" for q ph2 t2
  proof -
    have "qr_slot_epoch ?r \<noteq> qr_slot_epoch (ip_residency q)"
      using inv t that unfolding system_inv.simps tasks_distinct_def by metis
    then show ?thesis using fields(1) i by (simp add: owner_agrees_def)
  qed
  moreover have "content_inv ?a' (ins(?i := payload)) ?i"
    using ph p i fields slot_word_frame [OF fr] slot_bytes_frame [OF fr]
    by (auto simp: content_inv_def permit_inv_def)
  moreover have "tasks_distinct (ts(t := None))"
    using inv tasks_distinct_subset [of ts "ts(t := None)"] by (simp add: map_le_def)
  ultimately show ?thesis
    by (intro slot_update_system [OF inv up si ei]) (auto split: if_splits)
qed

lemma stage_write_eq:
  assumes wf: "arena_wf a" and cs: "checked_slot_new (qa_geometry a) eid ep payload = Inr cs"
    and v: "\<forall>v. view = Some v \<longrightarrow> length v = eg_slot_stride_bytes (qa_geometry a)"
  shows "stage_write nz view bank off cs a =
    (if view = None
     then (Inl (ExpertDirectStagingUnavailable bank off (eg_slot_stride_bytes (qa_geometry a))), a)
     else (Inr (), write_bank bank off (slot_image ep payload) a))"
proof -
  have g: "geometry_ok (qa_geometry a)" using wf by (simp add: arena_wf_def plan_ok_def)
  show ?thesis
    using slot_fill_image [OF g cs] v by (cases view) (auto simp: stage_write_def)
qed

lemma checked_payload_length:
  assumes "arena_wf a" "checked_slot_new (qa_geometry a) eid ep payload = Inr cs"
  shows "length payload = eg_logical_expert_bytes (qa_geometry a)"
  using assms checked_slot_new_iff by (auto simp: arena_wf_def plan_ok_def)

lemma stage_write_system:
  assumes inv: "system_inv (a, ts, ins)" and t: "ts t = Some (p, Staging payload cs off pr)"
    and v: "\<forall>v. view = Some v \<longrightarrow> length v = eg_slot_stride_bytes (qa_geometry a)"
    and w: "stage_write nz view (el_bank (qr_location (ip_residency p))) off cs a = (res, a')"
  shows "system_inv (a', ts(t \<mapsto> (p, if res = Inr () then Staged payload pr else Abandoned)), ins)"
proof -
  have wf: "arena_wf a" and task: "task_inv a (p, Staging payload cs off pr)"
    using inv ranI [of ts t "(p, Staging payload cs off pr)"] t by auto
  then have ph: "phase_inv a p (Staging payload cs off pr)" by (simp add: task_inv_def)
  then have cs: "checked_slot_new (qa_geometry a) (qk_expert_id (ip_key p)) (qr_slot_epoch (ip_residency p)) payload = Inr cs"
    and off: "off = unat (el_slot (qr_location (ip_residency p))) * eg_slot_stride_bytes (qa_geometry a)"
    and pr: "prepared_ok p pr"
    by auto
  note W = stage_write_eq [OF wf cs v]
  show ?thesis
  proof (cases view)
    case None
    with w W have "a' = a" "res \<noteq> Inr ()" by auto
    then show ?thesis using phase_system [OF inv t, of Abandoned] by simp
  next
    case (Some v)
    with w W have a': "a' = write_bank (el_bank (qr_location (ip_residency p))) off
        (slot_image (qr_slot_epoch (ip_residency p)) payload) a" and res: "res = Inr ()"
      by auto
    note len = checked_payload_length [OF wf cs]
    note A = written_system(2) [OF inv t len, of Abandoned, folded off, folded a']
    have "phase_inv a' p (Staged payload pr)" using A pr by simp
    then have "system_inv (a', ts(t \<mapsto> (p, Staged payload pr)), ins)"
      by (rule written_system(1) [OF inv t len, folded off, folded a'])
    then show ?thesis using res by (simp del: system_inv.simps)
  qed
qed

lemma install_writer_system:
  assumes inv: "system_inv (a, ts, ins)" and t: "ts t = Some (p, Reserved)"
    and cs: "checked_slot_new (qa_geometry a) (qk_expert_id (ip_key p)) (qr_slot_epoch (ip_residency p)) payload = Inr cs"
    and w: "\<And>bank off. writer bank off a = (Inr (), write_bank bank off (slot_image (qr_slot_epoch (ip_residency p)) payload) a) \<or>
              (\<exists>e. writer bank off a = (Inl e, a))"
    and r: "install_with_prepared_physical_writer writer p a = (res, active, a')"
  shows "(\<exists>x. res = Inr x) \<Longrightarrow> system_inv (a', ts(t := None), ins(ip_flat_slot p := payload))"
    and "res = Inl e \<Longrightarrow> system_inv (a', ts, ins)"
proof -
  have wf: "arena_wf a" using inv by simp
  note len = checked_payload_length [OF wf cs]
  show "system_inv (a', ts, ins)" if "res = Inl e"
  proof -
    have "a' = a \<or> a' = count_event bump_stale a"
    proof (cases "install_offsets p a")
      case (Inl e)
      then show ?thesis using r by (simp add: install_with_prepared_physical_writer_def)
    next
      case (Inr x)
      then obtain m po mo where "install_offsets p a = Inr (m, po, mo)" by (cases x) auto
      then show ?thesis
        using r that w [of "el_bank (qr_location (ip_residency p))" po]
        by (auto simp: install_with_prepared_physical_writer_def split: if_splits)
    qed
    then show ?thesis using inv by (metis count_system)
  qed
  assume "\<exists>x. res = Inr x"
  then obtain x where x: "res = Inr x" by blast
  then obtain m po mo where off: "install_offsets p a = Inr (m, po, mo)"
    using r by (cases "install_offsets p a")
      (auto simp: install_with_prepared_physical_writer_def split: if_splits)
  note O = install_offsets_Inr [OF off]
  define a1 where "a1 = write_bank (el_bank (qr_location (ip_residency p))) po
      (slot_image (qr_slot_epoch (ip_residency p)) payload) a"
  have cur: "reservation_current p (qa_state a)" and a': "a' = publish p mo m a1"
    using r x off w [of "el_bank (qr_location (ip_residency p))" po]
    by (auto simp: install_with_prepared_physical_writer_def a1_def split: if_splits sum.splits)
  let ?pr = "\<lparr>pi_permit = p, pi_mapping = m, pi_mapping_offset = mo\<rparr>"
  have pr: "prepared_ok p ?pr" using O by (simp add: prepared_ok_def)
  note A = written_system(2) [OF inv t len, of Abandoned, folded O(3), folded a1_def]
  have "phase_inv a1 p (Staged payload ?pr)" using A pr by simp
  then have inv1: "system_inv (a1, ts(t \<mapsto> (p, Staged payload ?pr)), ins)"
    by (rule written_system(1) [OF inv t len, folded O(3), folded a1_def])
  have "reservation_current p (qa_state a1)" using cur by (simp add: a1_def write_bank_def)
  with publish_system [OF inv1, of t p payload ?pr]
  show "system_inv (a', ts(t := None), ins(ip_flat_slot p := payload))"
    using a' by simp
qed

lemma install_system:
  assumes inv: "system_inv (a, ts, ins)" and t: "ts t = Some (p, Reserved)"
    and v: "\<forall>v. view = Some v \<longrightarrow> length v = eg_slot_stride_bytes (qa_geometry a)"
    and r: "install_sequential view payload p a = (res, active, a') \<or>
            install_with_writes payload p a = (res, active, a')"
  shows "(\<exists>x. res = Inr x) \<Longrightarrow> system_inv (a', ts(t := None), ins(ip_flat_slot p := payload))"
    and "res = Inl e \<Longrightarrow> system_inv (a', ts, ins)"
proof -
  have wf: "arena_wf a" and g: "geometry_ok (qa_geometry a)"
    using inv by (auto simp: arena_wf_def plan_ok_def)
  let ?new = "checked_slot_new (qa_geometry a) (qk_expert_id (ip_key p)) (qr_slot_epoch (ip_residency p)) payload"
  consider (err) e where "?new = Inl e" | (ok) cs where "?new = Inr cs" by (cases ?new) auto
  then have "((\<exists>x. res = Inr x) \<longrightarrow> system_inv (a', ts(t := None), ins(ip_flat_slot p := payload))) \<and>
      (res = Inl e \<longrightarrow> system_inv (a', ts, ins))"
  proof cases
    case err
    then have "\<exists>e. res = Inl e" "a' = a"
      using r by (auto simp: install_sequential_def install_with_writes_def physical_q4_expert_slot_def)
    then show ?thesis using inv by auto
  next
    case (ok cs)
    have p: "physical_q4_expert_slot (qa_geometry a) (qk_expert_id (ip_key p)) (qr_slot_epoch (ip_residency p)) payload
        = Inr (slot_image (qr_slot_epoch (ip_residency p)) payload)"
      using ok slot_fill_image(1) [OF g ok] by (simp add: physical_q4_expert_slot_def)
    note W = install_writer_system [OF inv t ok]
    from r show ?thesis
    proof
      assume "install_sequential view payload p a = (res, active, a')"
      then have "install_with_prepared_physical_writer
          (\<lambda>bank off b. stage_write False view bank off cs b) p a = (res, active, a')"
        using ok by (simp add: install_sequential_def)
      then show ?thesis
        using W [of "\<lambda>bank off b. stage_write False view bank off cs b"] stage_write_eq [OF wf ok v] by auto
    next
      assume "install_with_writes payload p a = (res, active, a')"
      then have "install_with_prepared_physical_writer (\<lambda>bank off b. (Inr (), write_bank bank off
          (slot_image (qr_slot_epoch (ip_residency p)) payload) b)) p a = (res, active, a')"
        using p by (simp add: install_with_writes_def)
      then show ?thesis
        using W [of "\<lambda>bank off b. (Inr (), write_bank bank off
          (slot_image (qr_slot_epoch (ip_residency p)) payload) b)"] by blast
    qed
  qed
  then show "(\<exists>x. res = Inr x) \<Longrightarrow> system_inv (a', ts(t := None), ins(ip_flat_slot p := payload))"
    and "res = Inl e \<Longrightarrow> system_inv (a', ts, ins)"
    by blast+
qed

lemma step_system: "arena_step s s' \<Longrightarrow> system_inv s \<Longrightarrow> system_inv s'"
proof (induction rule: arena_step.induct)
  case (acquired key a p a' ts ins)
  then show ?case using acquire_system [OF acquired(2,1)] by (simp add: acquire_tasks_def del: system_inv.simps)
next
  case (acquire_answered key a res a' ts ins)
  then have "acquire_tasks res ts = ts" by (auto simp: acquire_tasks_def split: sum.split q4_acquire.split)
  then show ?case using acquire_answered acquire_system by metis
next
  case (retired key a res a' ts ins)
  then show ?case using retire_system by blast
next
  case (stage_checked ts t p payload a cs off pr a' ins)
  then show ?case using stage_check_system [OF stage_checked(3,1,2)] by (simp del: system_inv.simps)
next
  case (stage_refused ts t p payload a e a' ins)
  then show ?case using stage_check_system [OF stage_refused(3,1,2)] by (simp del: system_inv.simps)
next
  case (stage_written ts t p payload cs off pr view a nz a' ins)
  then show ?case using stage_write_system [OF stage_written(4,1,2,3)] by (simp del: system_inv.simps)
next
  case (stage_failed ts t p payload cs off pr view a nz e a' ins)
  then show ?case using stage_write_system [OF stage_failed(4,1,2,3)] by (simp del: system_inv.simps)
next
  case (committed ts t p payload pr a r a' ins)
  then have "task_inv a (p, Staged payload pr)" using ranI [of ts t "(p, Staged payload pr)"] by auto
  then have "pi_permit pr = p" by (simp add: task_inv_def prepared_ok_def)
  then show ?case
    using committed publish_system [OF committed(3,1)]
    by (auto simp: commit_with_mapping_writer_def simp del: system_inv.simps split: if_splits)
next
  case (commit_refused ts t p payload pr a e a' ins)
  then have "a' = count_event bump_stale a" by (auto simp: commit_with_mapping_writer_def split: if_splits)
  then show ?case using phase_system [OF commit_refused(3,1), of Abandoned] by (metis count_system phase_inv.simps(4))
next
  case (installed ts t p view a payload r active a' ins)
  then show ?case using install_system(1) [OF installed(4,1,2,3)] by blast
next
  case (install_failed ts t p view a payload e active a' ins)
  have inv: "system_inv (a', ts, ins)"
    using install_system(2) [OF install_failed(4,1,2,3)] by blast
  show ?case
    using phase_system [OF inv install_failed(1), of Abandoned] task_system [OF inv, of "ts(t := None)"]
    by (simp add: map_le_def del: system_inv.simps)
next
  case (dropped ts t p phase a ins)
  then show ?case using cancel_system by blast
qed

lemma steps_system: "arena_step\<^sup>*\<^sup>* s s' \<Longrightarrow> system_inv s \<Longrightarrow> system_inv s'"
  by (induction rule: rtranclp_induct) (auto intro: step_system)

subsection \<open>A created arena satisfies the invariant\<close>

lemma placed_system:
  assumes inv: "system_inv (a, Map.empty, ins)" and e: "unat (qk_expert_id key) < eg_num_experts (qa_geometry a)"
    and layer: "qk_layer_index key = qa_layer_index a"
    and none: "as_logical_slots (qa_state a) ! unat (qk_expert_id key) = None"
    and i: "i < length (qa_slots a)" "sl_owner (qa_slots a ! i) = OwnerFree" "sl_last_epoch (qa_slots a ! i) = 0"
    and nxt: "as_next_install_ticket (qa_state a) = 1"
    and len: "length payload = eg_logical_expert_bytes (qa_geometry a)"
  defines "r \<equiv> \<lparr>qr_key = key, qr_location = sl_location (qa_slots a ! i), qr_slot_epoch = 1\<rparr>"
  assumes m: "residency_mapping_entry r = Inr m"
    and a': "qa_plan a' = qa_plan a" "qa_layer_index a' = qa_layer_index a"
      "qa_banks a' = qa_banks (write_bank (el_bank (qr_location r))
         (unat (el_slot (qr_location r)) * eg_slot_stride_bytes (qa_geometry a)) (slot_image 1 payload) a)"
      "qa_mapping a' = (qa_mapping a)[unat (qk_expert_id key) := m]"
      "qa_slots a' = (qa_slots a)[i := (qa_slots a ! i)
         \<lparr>sl_last_epoch := 1, sl_ever_installed := True, sl_owner := OwnerResident r\<rparr>]"
      "as_logical_slots (qa_state a') = (as_logical_slots (qa_state a))[unat (qk_expert_id key) := Some i]"
      "as_latest_generations (qa_state a') =
         (as_latest_generations (qa_state a))[unat (qk_expert_id key) := Some (qk_logical_generation key)]"
      "as_next_install_ticket (qa_state a') = 1"
  shows "system_inv (a', Map.empty, ins(i := payload))"
proof -
  let ?e = "unat (qk_expert_id key)"
  define s1 where "s1 = (qa_slots a ! i)\<lparr>sl_last_epoch := 1, sl_owner := OwnerInstalling key 1 0\<rparr>"
  define p where "p = \<lparr>ip_key = key, ip_flat_slot = i, ip_residency = r, ip_install_ticket = 0,
    ip_reused = False, ip_active = True\<rparr>"
  define a1 where "a1 = a\<lparr>qa_state := (qa_state a)\<lparr>as_slots := (qa_slots a)[i := s1],
    as_logical_slots := (as_logical_slots (qa_state a))[?e := Some i],
    as_latest_generations := (as_latest_generations (qa_state a))[?e := Some (qk_logical_generation key)]\<rparr>\<rparr>"
  have fr: "same_frame a a1" by (simp add: same_frame_def a1_def)
  have lens: "length (as_logical_slots (qa_state a)) = eg_num_experts (qa_geometry a)"
    "length (as_latest_generations (qa_state a)) = eg_num_experts (qa_geometry a)"
    "slot_inv a i" "qa_mapping a ! ?e = UNMAPPED"
    using inv e i none by (auto simp: arena_wf_def expert_inv_def)
  have word: "slot_epoch_word a (sl_location (qa_slots a ! i)) = 0"
    using lens(3) i(3) by (auto simp: slot_inv_def Let_def unat_eq_zero)
  have "\<exists>s'. qa_slots a1 = (qa_slots a)[i := s'] \<and> sl_location s' = sl_location (qa_slots a ! i) \<and>
      unat (sl_last_epoch (qa_slots a ! i)) \<le> unat (sl_last_epoch s')"
    by (intro exI [of _ s1]) (simp add: a1_def s1_def i(3))
  moreover have "\<exists>x. qa_mapping a1 = (qa_mapping a)[?e := x]" by (intro exI [of _ "qa_mapping a ! ?e"]) (simp add: a1_def)
  moreover have "\<exists>x. as_logical_slots (qa_state a1) = (as_logical_slots (qa_state a))[?e := x]"
    "\<exists>x. as_latest_generations (qa_state a1) = (as_latest_generations (qa_state a))[?e := x]"
    by (auto simp: a1_def)
  ultimately have up: "slot_update a a1 i ?e"
    unfolding slot_update_def using fr i none e by blast
  have "slot_inv a1 i"
    using lens(1-3) i word nxt e layer slot_word_frame [OF fr]
    by (auto simp: slot_inv_def Let_def a1_def s1_def key_owns_def)
  moreover have "expert_inv a1 ?e"
    using lens e i by (auto simp: expert_inv_def a1_def s1_def)
  moreover have "task_inv a1 (p, Reserved)"
    using i word nxt e slot_word_frame [OF fr]
    by (auto simp: task_inv_def permit_inv_def owner_agrees_def p_def r_def a1_def s1_def)
  moreover have "content_inv a1 ins i" using i by (simp add: content_inv_def a1_def s1_def)
  moreover have "tasks_distinct [0 \<mapsto> (p, Reserved)]"
    by (auto simp: tasks_distinct_def p_def split: if_splits)
  ultimately have inv1: "system_inv (a1, [0 \<mapsto> (p, Reserved)], ins)"
    by (intro slot_update_system [OF inv up]) (auto split: if_splits)
  let ?pr = "\<lparr>pi_permit = p, pi_mapping = m, pi_mapping_offset = 8 * ?e\<rparr>"
  define a2 where "a2 = write_bank (el_bank (qr_location r))
    (unat (el_slot (qr_location r)) * eg_slot_stride_bytes (qa_geometry a1)) (slot_image 1 payload) a1"
  have p_sel: "qr_location (ip_residency p) = qr_location r" "qr_slot_epoch (ip_residency p) = 1"
    by (simp_all add: p_def r_def)
  have len1: "length payload = eg_logical_expert_bytes (qa_geometry a1)" using len by (simp add: a1_def)
  have t: "[0 \<mapsto> (p, Reserved)] 0 = Some (p, Reserved)" by simp
  have pr: "prepared_ok p ?pr" using m by (simp add: prepared_ok_def p_def)
  note W = written_system [OF inv1 t len1, unfolded p_sel, folded a2_def]
  have "phase_inv a2 p (Staged payload ?pr)"
    using W(2) [of Abandoned] pr by (simp add: p_sel)
  then have inv2: "system_inv (a2, [0 \<mapsto> (p, Staged payload ?pr)], ins)"
    using W(1) [of "Staged payload ?pr"] by (simp only: fun_upd_upd)
  have cur: "reservation_current p (qa_state a2)"
    using i e lens by (simp add: reservation_current_def Let_def get_flat_def a2_def a1_def write_bank_def p_def s1_def r_def)
  have inv3: "system_inv (publish p (8 * ?e) m a2, Map.empty, ins(i := payload))"
    using publish_system [OF inv2 _ cur, of 0 payload ?pr] by (simp add: p_def del: system_inv.simps)
  have com: "s\<lparr>sl_last_epoch := 1, sl_ever_installed := True, sl_owner := x\<rparr> =
      s\<lparr>sl_last_epoch := 1, sl_owner := x, sl_ever_installed := True\<rparr>" for s :: physical_slot and x
    by (cases s) simp
  show ?thesis
    by (rule same_system [OF inv3])
      (use a' i nxt com in \<open>simp_all add: publish_def Let_def arena_update_defs a2_def a1_def p_def s1_def
        EXPERT_MAPPING_ENTRY_BYTES_def\<close>)
qed

lemma new_slots_Inr:
  "new_slots l f n = Inr slots \<Longrightarrow> length slots = n \<and>
    (\<forall>i<n. location_for_flat_slot l (f + i) = Inr (sl_location (slots ! i)) \<and>
       sl_owner (slots ! i) = OwnerFree \<and> sl_last_epoch (slots ! i) = 0)"
proof (induction l f n arbitrary: slots rule: new_slots.induct)
  case (2 l flat n)
  then obtain loc rest where r: "location_for_flat_slot l flat = Inr loc" "new_slots l (Suc flat) n = Inr rest"
    "slots = \<lparr>sl_location = loc, sl_last_epoch = 0, sl_ever_installed = False, sl_owner = OwnerFree\<rparr> # rest"
    by (auto simp: res_iff)
  have "length rest = n \<and> (\<forall>i<n. location_for_flat_slot l (Suc flat + i) = Inr (sl_location (rest ! i)) \<and>
       sl_owner (rest ! i) = OwnerFree \<and> sl_last_epoch (rest ! i) = 0)"
    using 2(1) r by blast
  with r show ?case by (auto simp: nth_Cons' less_Suc_eq_0_disj)
qed simp

text \<open>The arena that an accumulated set of uploads stands for.\<close>

definition uploads_arena :: "u64 \<Rightarrow> usize \<Rightarrow> vram_plan \<Rightarrow> prepared_uploads \<Rightarrow> q4_arena" where
  "uploads_arena context_id layer_index plan pu =
     fold (\<lambda>(loc, bytes). write_bank (el_bank loc)
             (unat (el_slot loc) * eg_slot_stride_bytes (vp_geometry plan)) bytes)
       (pu_physical_slots pu)
       \<lparr>qa_context_id = context_id, qa_layer_index = layer_index, qa_plan = plan,
        qa_banks = map (\<lambda>b. replicate (bl_allocation_bytes b) 0) (al_banks (vp_layout plan)),
        qa_mapping = pu_mapping pu, qa_state = pu_state pu\<rparr>"

lemma fold_writes:
  fixes s :: nat
  defines "f \<equiv> \<lambda>(loc, bytes). write_bank (el_bank loc) (unat (el_slot loc) * s) bytes"
  shows "qa_plan (fold f ws a) = qa_plan a \<and> qa_layer_index (fold f ws a) = qa_layer_index a \<and>
    qa_mapping (fold f ws a) = qa_mapping a \<and> qa_state (fold f ws a) = qa_state a \<and>
    qa_context_id (fold f ws a) = qa_context_id a"
  by (induction ws arbitrary: a) (auto simp: f_def write_bank_def)

lemmas fold_writes_sel = fold_writes [THEN conjunct1] fold_writes [THEN conjunct2, THEN conjunct1]
  fold_writes [THEN conjunct2, THEN conjunct2, THEN conjunct1]
  fold_writes [THEN conjunct2, THEN conjunct2, THEN conjunct2, THEN conjunct1]
  fold_writes [THEN conjunct2, THEN conjunct2, THEN conjunct2, THEN conjunct2]

lemma fold_writes_banks:
  fixes s :: nat
  defines "f \<equiv> \<lambda>(loc, bytes). write_bank (el_bank loc) (unat (el_slot loc) * s) bytes"
  assumes "qa_banks a = qa_banks b"
  shows "qa_banks (fold f ws a) = qa_banks (fold f ws b)"
  using assms(2)
proof (induction ws arbitrary: a b)
  case (Cons w ws)
  have "qa_banks (f w a) = qa_banks (f w b)"
    using Cons(2) by (simp add: f_def write_bank_def split: prod.split)
  from Cons(1) [OF this] show ?case by simp
qed simp

lemma uploads_arena_simps [simp]:
  "qa_plan (uploads_arena c l plan pu) = plan" "qa_layer_index (uploads_arena c l plan pu) = l"
  "qa_mapping (uploads_arena c l plan pu) = pu_mapping pu" "qa_state (uploads_arena c l plan pu) = pu_state pu"
  "qa_context_id (uploads_arena c l plan pu) = c"
  unfolding uploads_arena_def fold_writes_sel by simp_all

definition upload_contents ::
    "arena_layout \<Rightarrow> q4_upload \<Rightarrow> (usize \<Rightarrow> u8 list) \<Rightarrow> usize \<Rightarrow> u8 list" where
  "upload_contents l up ins =
     (case flat_slot_for_location l (up_location up) of
        Inl _ \<Rightarrow> ins
      | Inr i \<Rightarrow> ins(i := up_payload up))"

definition uploads_inv ::
    "usize \<Rightarrow> vram_plan \<Rightarrow> u64 \<Rightarrow> (usize \<Rightarrow> u8 list) \<Rightarrow> u32 list \<times> prepared_uploads \<Rightarrow> bool" where
  "uploads_inv layer_index plan context_id ins acc \<longleftrightarrow>
     (case acc of (physical, pu) \<Rightarrow>
       system_inv (uploads_arena context_id layer_index plan pu, Map.empty, ins) \<and>
       as_next_install_ticket (pu_state pu) = 1 \<and>
       (\<forall>i < length (as_slots (pu_state pu)).
          sl_owner (as_slots (pu_state pu) ! i) = OwnerFree \<and> sl_last_epoch (as_slots (pu_state pu) ! i) = 0 \<or>
          (\<exists>r. sl_owner (as_slots (pu_state pu) ! i) = OwnerResident r) \<and>
          (\<exists>w \<in> set physical. pack (sl_location (as_slots (pu_state pu) ! i)) = Inr w)))"

lemma place_upload_inv:
  assumes inv: "uploads_inv layer plan ctx ins (phys, pu)"
    and up: "place_upload layer (vp_geometry plan) (vp_layout plan) up (phys, pu) = Inr acc"
  shows "uploads_inv layer plan ctx (upload_contents (vp_layout plan) up ins) acc"
proof -
  let ?a = "uploads_arena ctx layer plan pu" and ?e = "unat (up_logical_id up)" and ?st = "pu_state pu"
  let ?key = "\<lparr>qk_layer_index = layer, qk_expert_id = up_logical_id up,
    qk_logical_generation = up_logical_generation up\<rparr>"
  let ?r = "\<lparr>qr_key = ?key, qr_location = up_location up, qr_slot_epoch = 1\<rparr>"
  have sys: "system_inv (?a, Map.empty, ins)" and nxt: "as_next_install_ticket ?st = 1"
    using inv by (auto simp: uploads_inv_def)
  then have wf: "arena_wf ?a" by simp
  obtain w i m bytes where e: "?e < eg_num_experts (vp_geometry plan)" and un: "pu_mapping pu ! ?e = UNMAPPED"
    and w: "pack (up_location up) = Inr w" "w \<notin> set phys"
    and i: "flat_slot_for_location (vp_layout plan) (up_location up) = Inr i"
    and m: "residency_mapping_entry ?r = Inr m"
    and b: "physical_q4_expert_slot (vp_geometry plan) (up_logical_id up) 1 (up_payload up) = Inr bytes"
    and acc: "acc = (w # phys,
       pu\<lparr>pu_mapping := (pu_mapping pu)[?e := m],
          pu_physical_slots := vec_push (pu_physical_slots pu) (up_location up, bytes),
          pu_state := ?st\<lparr>as_slots := (as_slots ?st)[i := (as_slots ?st ! i)
              \<lparr>sl_last_epoch := 1, sl_ever_installed := True, sl_owner := OwnerResident ?r\<rparr>],
            as_logical_slots := (as_logical_slots ?st)[?e := Some i],
            as_latest_generations := (as_latest_generations ?st)[?e := Some (up_logical_generation up)]\<rparr>\<rparr>)"
    using up by (auto simp: place_upload_def Let_def res_iff split: if_splits)
  obtain limits where g: "geometry_ok (vp_geometry plan)"
    and l: "layout_try_new (vp_geometry plan) (al_slot_capacity (vp_layout plan)) limits = Inr (vp_layout plan)"
    using wf by (auto simp: arena_wf_def plan_ok_def)
  have ilt: "i < length (as_slots ?st)"
    using location_iff(2) [OF g l i] wf by (simp add: arena_wf_def)
  have loc: "sl_location (as_slots ?st ! i) = up_location up"
    using wf_location(1) [OF wf, of i] ilt location_iff(1) [OF g l, of i "up_location up"] i by simp
  have free: "sl_owner (as_slots ?st ! i) = OwnerFree" "sl_last_epoch (as_slots ?st ! i) = 0"
    using inv ilt w loc by (auto simp: uploads_inv_def)
  have none: "as_logical_slots ?st ! ?e = None"
  proof (rule ccontr)
    assume "as_logical_slots ?st ! ?e \<noteq> None"
    then obtain j where j: "as_logical_slots ?st ! ?e = Some j" by auto
    have "expert_inv ?a ?e" using wf e by (auto simp: arena_wf_def)
    then have jl: "j < length (as_slots ?st)" "owner_key (sl_owner (as_slots ?st ! j)) \<noteq> None"
      using j by (auto simp: expert_inv_def)
    then obtain r where r: "sl_owner (as_slots ?st ! j) = OwnerResident r"
      using inv by (auto simp: uploads_inv_def)
    then have "residency_mapping_entry r = Inr UNMAPPED"
      using \<open>expert_inv ?a ?e\<close> j un by (simp add: expert_inv_def)
    then show False
      by (auto simp: residency_mapping_entry_def mapping_entry_try_new_def UNMAPPED_def res_iff split: if_splits)
  qed
  have img: "bytes = slot_image 1 (up_payload up)" "length (up_payload up) = eg_logical_expert_bytes (vp_geometry plan)"
  proof -
    obtain cs where cs: "checked_slot_new (vp_geometry plan) (up_logical_id up) 1 (up_payload up) = Inr cs"
      using b by (auto simp: physical_q4_expert_slot_def res_iff)
    then show "length (up_payload up) = eg_logical_expert_bytes (vp_geometry plan)"
      by (simp add: checked_slot_new_iff [OF g])
    show "bytes = slot_image 1 (up_payload up)"
      using b cs slot_fill_image(1) [OF g cs] by (simp add: physical_q4_expert_slot_def)
  qed
  obtain phys' pu' where acc': "acc = (phys', pu')" by (cases acc)
  let ?a' = "uploads_arena ctx layer plan pu'"
  have "qa_banks ?a' = qa_banks (write_bank (el_bank (up_location up))
      (unat (el_slot (up_location up)) * eg_slot_stride_bytes (vp_geometry plan)) bytes ?a)"
  proof -
    let ?f = "\<lambda>(loc, bytes). write_bank (el_bank loc) (unat (el_slot loc) * eg_slot_stride_bytes (vp_geometry plan)) bytes"
    let ?base = "\<lambda>pu. \<lparr>qa_context_id = ctx, qa_layer_index = layer, qa_plan = plan,
        qa_banks = map (\<lambda>b. replicate (bl_allocation_bytes b) 0) (al_banks (vp_layout plan)),
        qa_mapping = pu_mapping pu, qa_state = pu_state pu\<rparr>"
    have "qa_banks (fold ?f (pu_physical_slots pu) (?base pu')) = qa_banks (fold ?f (pu_physical_slots pu) (?base pu))"
      by (rule fold_writes_banks) simp
    then show ?thesis
      using acc acc' by (simp add: uploads_arena_def vec_push_def write_bank_def)
  qed
  then have "system_inv (?a', Map.empty, upload_contents (vp_layout plan) up ins)"
    unfolding upload_contents_def i sum.case
    using placed_system [OF sys, of ?key i "up_payload up" m ?a'] e none ilt free nxt img m acc acc' loc
    by (simp del: system_inv.simps)
  moreover have "as_next_install_ticket (pu_state pu') = 1" using acc acc' nxt by simp
  moreover have "sl_owner (as_slots (pu_state pu') ! j) = OwnerFree \<and> sl_last_epoch (as_slots (pu_state pu') ! j) = 0 \<or>
      (\<exists>r. sl_owner (as_slots (pu_state pu') ! j) = OwnerResident r) \<and>
      (\<exists>w \<in> set phys'. pack (sl_location (as_slots (pu_state pu') ! j)) = Inr w)"
    if "j < length (as_slots (pu_state pu'))" for j
    using inv that acc acc' loc w(1) by (cases "j = i") (auto simp: uploads_inv_def)
  ultimately show ?thesis unfolding acc' uploads_inv_def by blast
qed

lemma place_uploads_inv:
  "place_uploads layer (vp_geometry plan) (vp_layout plan) ups acc = Inr acc' \<Longrightarrow>
    uploads_inv layer plan ctx ins acc \<Longrightarrow>
    uploads_inv layer plan ctx (fold (upload_contents (vp_layout plan)) ups ins) acc'"
proof (induction ups arbitrary: acc ins)
  case (Cons up ups)
  then obtain acc1 where "place_upload layer (vp_geometry plan) (vp_layout plan) up acc = Inr acc1"
    "place_uploads layer (vp_geometry plan) (vp_layout plan) ups acc1 = Inr acc'"
    by (auto simp: res_iff)
  with Cons show ?case
    using place_upload_inv [of layer plan ctx ins "fst acc" "snd acc" up acc1] by simp
qed simp

lemma plan_try_new_ok:
  assumes g: "geometry_ok g" and p: "plan_try_new g budget limits = Inr p"
  shows "vp_geometry p = g" "layout_try_new g (al_slot_capacity (vp_layout p)) limits = Inr (vp_layout p)"
    "vp_requested_expert_budget_bytes p = budget"
proof -
  let ?m = "maximum_bank_slots g limits"
  define s where "s = largest_fitting (slot_count_fits g limits budget) 1 (min (4 * ?m) (eg_num_experts g))"
  have p': "0 < ?m" "arena_bytes g 1 limits \<le> budget" "plan_of g budget s limits = Inr p"
    using p unfolding plan_try_new_eq [OF g] s_def by blast+
  note S = plan_search [OF g p'(1,2), folded s_def]
  have "vp_layout p = layout_of g s limits" "vp_geometry p = g" "vp_requested_expert_budget_bytes p = budget"
    using plan_of_Inr [OF g S(3), of budget] p'(3) by auto
  then show "vp_geometry p = g" "layout_try_new g (al_slot_capacity (vp_layout p)) limits = Inr (vp_layout p)"
    "vp_requested_expert_budget_bytes p = budget"
    using S(1,3) by (auto simp: layout_try_new_Inr [OF g])
qed

lemma zero_word:
  assumes "\<exists>n. qa_banks a ! unat (el_bank loc) = replicate n 0"
  shows "slot_epoch_word a loc = 0"
proof -
  obtain n where "qa_banks a ! unat (el_bank loc) = replicate n 0" using assms by blast
  then obtain m where "take 4 (slot_bytes a loc) = replicate m 0"
    by (auto simp: slot_bytes_def subslice_def drop_replicate)
  moreover have "le_value (replicate m 0) = 0" by (induction m) auto
  ultimately show ?thesis by (simp add: slot_epoch_word_def u32_from_le_bytes_def)
qed

lemma uploads_inv_init:
  assumes g: "geometry_ok (vp_geometry plan)"
    and l: "layout_try_new (vp_geometry plan) (al_slot_capacity (vp_layout plan)) limits = Inr (vp_layout plan)"
    and st: "arena_state_new (vp_geometry plan) (vp_layout plan) = Inr st"
  shows "uploads_inv layer plan ctx (\<lambda>_. []) ([], \<lparr>pu_mapping = replicate (eg_num_experts (vp_geometry plan)) UNMAPPED,
    pu_physical_slots = [], pu_state = st\<rparr>)"
proof -
  let ?n = "eg_num_experts (vp_geometry plan)" and ?c = "al_slot_capacity (vp_layout plan)"
  let ?pu = "\<lparr>pu_mapping = replicate ?n UNMAPPED, pu_physical_slots = [], pu_state = st\<rparr>"
  let ?a = "uploads_arena ctx layer plan ?pu"
  obtain slots where s: "new_slots (vp_layout plan) 0 ?c = Inr slots"
    and st': "as_slots st = slots" "as_logical_slots st = replicate ?n None"
      "as_latest_generations st = replicate ?n None" "as_next_install_ticket st = 1"
    using st by (auto simp: arena_state_new_def res_iff)
  have N: "length slots = ?c" "\<And>i. i < ?c \<Longrightarrow> location_for_flat_slot (vp_layout plan) i = Inr (sl_location (slots ! i)) \<and>
      sl_owner (slots ! i) = OwnerFree \<and> sl_last_epoch (slots ! i) = 0"
    using new_slots_Inr [OF s] by auto
  have banks: "qa_banks ?a = map (\<lambda>b. replicate (bl_allocation_bytes b) 0) (al_banks (vp_layout plan))"
    by (simp add: uploads_arena_def)
  have len: "length (al_banks (vp_layout plan)) = 4"
    using layout_banks(2) l by (metis g layout_try_new_Inr)
  have word: "slot_epoch_word ?a (sl_location (slots ! i)) = 0" if i: "i < ?c" for i
  proof -
    have "flat_slot_for_location (vp_layout plan) (sl_location (slots ! i)) = Inr i"
      using N(2) [OF i] location_iff(1) [OF g l] by blast
    then have "unat (el_bank (sl_location (slots ! i))) < al_active_banks (vp_layout plan)"
      by (auto simp: flat_slot_iff [OF g l])
    also have "\<dots> \<le> 4" using layout_banks(1) l by (metis g layout_try_new_Inr)
    finally have "unat (el_bank (sl_location (slots ! i))) < 4" .
    then show ?thesis using len by (intro zero_word) (auto simp: banks)
  qed
  have "slot_inv ?a i" if "i < ?c" for i
    using N(2) [OF that] word [OF that] by (simp add: slot_inv_def Let_def st')
  moreover have "expert_inv ?a e" if "e < ?n" for e
    using that by (simp add: expert_inv_def st')
  moreover have "map length (qa_banks ?a) = map bl_allocation_bytes (al_banks (vp_layout plan))"
    by (simp add: banks comp_def)
  ultimately have "arena_wf ?a"
    using g l N(1) by (auto simp: arena_wf_def plan_ok_def st')
  moreover have "content_inv ?a ins i" if "i < ?c" for i ins
    using N(2) [OF that] by (simp add: content_inv_def st')
  ultimately have "system_inv (?a, Map.empty, \<lambda>_. [])"
    using N(1) by (simp add: tasks_distinct_def st')
  then show ?thesis
    using N st' unfolding uploads_inv_def by auto
qed

lemma create_system:
  assumes g: "geometry_ok (vp_geometry plan)"
    and c: "create_q4_expert_arena ctx dm limits layer plan uploads = Inr a"
  shows "system_inv (a, Map.empty, fold (upload_contents (vp_layout plan)) uploads (\<lambda>_. []))"
    and "plan_try_new (vp_geometry plan) (vp_requested_expert_budget_bytes plan) limits = Inr plan"
    "validate_buffers (arena_buffers (vp_layout plan)) limits = Inr ()" "qa_plan a = plan"
    "qa_context_id a = ctx" "qa_layer_index a = layer"
proof -
  obtain pu where p: "plan_try_new (vp_geometry plan) (vp_requested_expert_budget_bytes plan) limits = Inr plan"
    and u: "validate_q4_expert_uploads layer (vp_geometry plan) (vp_layout plan) uploads = Inr pu"
    and b: "validate_buffers (arena_buffers (vp_layout plan)) limits = Inr ()"
    and a: "a = uploads_arena ctx layer plan pu"
    using c by (auto simp: create_q4_expert_arena_def Let_def res_iff uploads_arena_def split: if_splits)
  show "plan_try_new (vp_geometry plan) (vp_requested_expert_budget_bytes plan) limits = Inr plan"
    "validate_buffers (arena_buffers (vp_layout plan)) limits = Inr ()" "qa_plan a = plan"
    "qa_context_id a = ctx" "qa_layer_index a = layer"
    using p b a by simp_all
  obtain st phys pu0 where st: "arena_state_new (vp_geometry plan) (vp_layout plan) = Inr st"
    and pl: "place_uploads layer (vp_geometry plan) (vp_layout plan) uploads
       ([], \<lparr>pu_mapping = replicate (eg_num_experts (vp_geometry plan)) UNMAPPED,
             pu_physical_slots = [], pu_state = st\<rparr>) = Inr (phys, pu0)"
    and pu: "pu = pu0\<lparr>pu_state := (pu_state pu0)\<lparr>as_counters := (as_counters (pu_state pu0))
        \<lparr>expert_slot_installs := length uploads, expert_mapping_publications := length uploads\<rparr>\<rparr>\<rparr>"
    using u by (auto simp: validate_q4_expert_uploads_def res_iff split: if_splits)
  let ?ins = "fold (upload_contents (vp_layout plan)) uploads (\<lambda>_. [])"
  have "uploads_inv layer plan ctx ?ins (phys, pu0)"
    using place_uploads_inv [OF pl uploads_inv_init [OF g plan_try_new_ok(2) [OF g p] st]] .
  then have inv: "system_inv (uploads_arena ctx layer plan pu0, Map.empty, ?ins)"
    by (auto simp: uploads_inv_def)
  have "qa_banks a = qa_banks (uploads_arena ctx layer plan pu0)"
    unfolding a uploads_arena_def by (subst pu, simp, rule fold_writes_banks, simp)
  then show "system_inv (a, Map.empty, ?ins)"
    by (intro same_system [OF inv]) (simp_all add: a pu)
qed

inductive_cases arena_stepE: "arena_step s s'"

text \<open>A passed epoch check names the resident slot of the expert.\<close>

lemma executed_payload_resident:
  assumes inv: "system_inv (a, ts, ins)" and x: "executed_payload a e = Some payload"
  obtains i r where "i < length (qa_slots a)" "as_logical_slots (qa_state a) ! e = Some i"
    "sl_owner (qa_slots a ! i) = OwnerResident r" "payload = ins i" "unat (qk_expert_id (qr_key r)) = e"
    "as_latest_generations (qa_state a) ! e = Some (qk_logical_generation (qr_key r))"
    "contains_exact_residency (qa_context_id a) r a"
proof -
  obtain loc ep where rt: "resolve_route a e = Some (loc, ep)" and w: "slot_epoch_word a loc = ep"
    and pl: "payload = drop 4 (slot_bytes a loc)"
    using x by (auto simp: executed_payload_def split: option.splits if_splits)
  then have e: "e < eg_num_experts (qa_geometry a)" and ep: "me_slot_epoch (qa_mapping a ! e) = ep" "ep \<noteq> 0"
    and loc: "unpack (me_location (qa_mapping a ! e)) = Some loc"
    by (auto simp: resolve_route_def Let_def split: if_splits option.splits)
  have wf: "arena_wf a" "expert_inv a e"
    "length (as_logical_slots (qa_state a)) = eg_num_experts (qa_geometry a)"
    "length (as_latest_generations (qa_state a)) = eg_num_experts (qa_geometry a)"
    using inv e by (auto simp: arena_wf_def)
  have ne: "qa_mapping a ! e \<noteq> UNMAPPED" using ep by (auto simp: UNMAPPED_def)
  then obtain i where i: "as_logical_slots (qa_state a) ! e = Some i"
    using wf(2) by (auto simp: expert_inv_def split: option.splits)
  note E = system_expert [OF inv e i]
  obtain r where r: "sl_owner (qa_slots a ! i) = OwnerResident r" "residency_mapping_entry r = Inr (qa_mapping a ! e)"
    using wf(2) i ne by (cases "sl_owner (qa_slots a ! i)") (auto simp: expert_inv_def)
  then have me: "pack (qr_location r) = Inr (me_location (qa_mapping a ! e))" "ep = qr_slot_epoch r"
    using ep(1) by (auto simp: residency_mapping_entry_def mapping_entry_try_new_def res_iff split: if_splits)
      (metis mapping_entry.select_convs)+
  then have "loc = qr_location r" using loc pack_unpack by force
  moreover have "qr_location r = sl_location (qa_slots a ! i)" "qr_slot_epoch r = sl_last_epoch (qa_slots a ! i)"
    and key: "unat (qk_expert_id (qr_key r)) = e" "key_owns a (qr_key r) i"
    using E(2,4) r(1) by (auto simp: slot_inv_def Let_def)
  moreover from this have "slot_bytes a loc = slot_image ep (ins i)"
    using E(3) r(1) w me \<open>loc = qr_location r\<close> by (auto simp: content_inv_def)
  then have "payload = ins i" using pl by (simp add: slot_image_def)
  moreover have "contains_exact_residency (qa_context_id a) r a"
    using key e i E(1) r(1) wf(3,4) calculation
    by (simp add: contains_exact_residency_def Let_def get_flat_def key_owns_def)
  ultimately show thesis
    using that E(1) i r(1) by (auto simp: key_owns_def)
qed

lemma reserve_keeps:
  "reserve_slot key a = (res, a') \<Longrightarrow> qa_plan a' = qa_plan a \<and> qa_context_id a' = qa_context_id a"
  by (auto simp: reserve_slot_def Let_def split: prod.splits option.splits if_splits)

lemma supersede_keeps:
  "supersede_slot e i a = Inr a' \<Longrightarrow> qa_plan a' = qa_plan a \<and> qa_context_id a' = qa_context_id a"
  by (auto simp: supersede_slot_def arena_update_defs res_iff split: slot_owner.splits)

lemma acquire_keeps:
  assumes "acquire_with_unpublish key a = (res, a')"
  shows "qa_plan a' = qa_plan a \<and> qa_context_id a' = qa_context_id a"
  using assms reserve_keeps [of key a res a'] reserve_keeps [of key _ res a'] supersede_keeps
  by (fastforce simp: acquire_with_unpublish_def Let_def count_event_def
      split: if_splits option.splits slot_owner.splits sum.splits)

lemma retire_keeps:
  assumes "retire_with_unpublish key a = (res, a')"
  shows "qa_plan a' = qa_plan a \<and> qa_context_id a' = qa_context_id a"
  using assms by (cases rule: retire_cases) (auto simp: arena_update_defs)

lemma write_keeps [simp]:
  "qa_plan (write_bank b off x a) = qa_plan a" "qa_context_id (write_bank b off x a) = qa_context_id a"
  "qa_plan (count_event f a) = qa_plan a" "qa_context_id (count_event f a) = qa_context_id a"
  "qa_plan (publish p mo m a) = qa_plan a" "qa_context_id (publish p mo m a) = qa_context_id a"
  by (simp_all add: arena_update_defs publish_def Let_def)

lemma cancel_keeps [simp]:
  "qa_plan (permit_drop p a) = qa_plan a" "qa_context_id (permit_drop p a) = qa_context_id a"
  by (simp_all add: permit_drop_def cancel_install_def Let_def arena_update_defs split: slot_owner.split)

lemma stage_write_keeps:
  "stage_write nz v b off cs a = (res, a') \<Longrightarrow> qa_plan a' = qa_plan a \<and> qa_context_id a' = qa_context_id a"
  by (auto simp: stage_write_def split: option.splits sum.splits if_splits)

lemma install_keeps:
  assumes w: "\<And>b off res a'. w b off a = (res, a') \<Longrightarrow> qa_plan a' = qa_plan a \<and> qa_context_id a' = qa_context_id a"
    and r: "install_with_prepared_physical_writer w p a = (res, act, a')"
  shows "qa_plan a' = qa_plan a \<and> qa_context_id a' = qa_context_id a"
  using r by (auto simp: install_with_prepared_physical_writer_def dest: w
      split: sum.splits prod.splits if_splits)

lemma installs_keep:
  assumes "install_sequential view payload p a = (res, act, a') \<or> install_with_writes payload p a = (res, act, a')"
  shows "qa_plan a' = qa_plan a \<and> qa_context_id a' = qa_context_id a"
  using assms
proof
  assume "install_sequential view payload p a = (res, act, a')"
  then show ?thesis
    by (auto simp: install_sequential_def split: sum.splits elim!: install_keeps [rotated] dest: stage_write_keeps)
next
  assume "install_with_writes payload p a = (res, act, a')"
  then show ?thesis
    by (auto simp: install_with_writes_def split: sum.splits elim!: install_keeps [rotated])
qed

lemma step_keeps:
  "arena_step s s' \<Longrightarrow> qa_plan (fst s') = qa_plan (fst s) \<and> qa_context_id (fst s') = qa_context_id (fst s)"
proof (induction rule: arena_step.induct)
  case (acquired key a p a' ts ins)
  then show ?case using acquire_keeps by simp
next
  case (acquire_answered key a res a' ts ins)
  then show ?case using acquire_keeps by simp
next
  case (retired key a res a' ts ins)
  then show ?case using retire_keeps by simp
next
  case (stage_written ts t p payload cs off pr view a nz a' ins)
  then show ?case using stage_write_keeps by simp
next
  case (stage_failed ts t p payload cs off pr view a nz e a' ins)
  then show ?case using stage_write_keeps by simp
next
  case (installed ts t p view a payload r active a' ins)
  then show ?case using installs_keep by simp
next
  case (install_failed ts t p view a payload e active a' ins)
  then show ?case using installs_keep by simp
qed (auto simp: stage_check_def commit_with_mapping_writer_def split: sum.splits if_splits)

lemma steps_keep:
  "arena_step\<^sup>*\<^sup>* s s' \<Longrightarrow> qa_plan (fst s') = qa_plan (fst s) \<and> qa_context_id (fst s') = qa_context_id (fst s)"
  by (induction rule: rtranclp_induct) (use step_keeps in auto)

subsection \<open>A device with one layer\<close>

lemma new_slots_total:
  assumes "geometry_ok g" "layout_try_new g c limits = Inr l" "f + n \<le> c"
  shows "\<exists>slots. new_slots l f n = Inr slots"
  using assms(3)
proof (induction n arbitrary: f)
  case (Suc n)
  then obtain loc where "location_for_flat_slot l f = Inr loc"
    using location_iff(3) [OF assms(1,2), of f] by auto
  moreover obtain slots where "new_slots l (Suc f) n = Inr slots" using Suc(1) [of "Suc f"] Suc(2) by auto
  ultimately show ?case by simp
qed simp

lemma buffers_valid:
  "\<forall>b \<in> set bs. b \<le> max_buffer_size limits \<and> b \<le> max_storage_buffer_binding_size limits \<Longrightarrow>
    validate_buffers bs limits = Inr ()"
  by (induction bs) (auto simp: validate_startup_buffer_def)

lemma demo_plan:
  obtains p where "plan_try_new demo_geometry 6000 demo_limits = Inr p"
    "vp_geometry p = demo_geometry" "vp_requested_expert_budget_bytes p = 6000"
    "layout_try_new demo_geometry (al_slot_capacity (vp_layout p)) demo_limits = Inr (vp_layout p)"
    "0 < al_slot_capacity (vp_layout p)"
proof -
  have one: "arena_bytes demo_geometry 1 demo_limits \<le> 6000"
    by (simp add: arena_bytes_def demo_geometry_def)
  have m: "0 < maximum_bank_slots demo_geometry demo_limits" by (simp add: demo_bank_slots)
  obtain p where p: "plan_try_new demo_geometry 6000 demo_limits = Inr p"
    using plan_try_new_eq [OF demo_geometry_ok] plan_search(3) [OF demo_geometry_ok m one] demo_limits_valid
      m one plan_of_Inr [OF demo_geometry_ok] by metis
  note ok = plan_try_new_ok [OF demo_geometry_ok p]
  have "0 < al_slot_capacity (vp_layout p)"
    using ok(2) by (auto simp: layout_try_new_Inr [OF demo_geometry_ok])
  with p ok that show thesis by blast
qed

lemma demo_create:
  assumes p: "plan_try_new demo_geometry (vp_requested_expert_budget_bytes plan) demo_limits = Inr plan"
  obtains slots where "new_slots (vp_layout plan) 0 (al_slot_capacity (vp_layout plan)) = Inr slots"
    "create_q4_expert_arena ctx 32 demo_limits layer plan [] = Inr (uploads_arena ctx layer plan
      \<lparr>pu_mapping = replicate 4 UNMAPPED, pu_physical_slots = [],
       pu_state = \<lparr>as_slots = slots, as_logical_slots = replicate 4 None,
         as_latest_generations = replicate 4 None, as_next_install_ticket = 1, as_counters = counters_default\<rparr>\<rparr>)"
proof -
  note ok = plan_try_new_ok [OF demo_geometry_ok p]
  note l = ok(2)
  obtain slots where s: "new_slots (vp_layout plan) 0 (al_slot_capacity (vp_layout plan)) = Inr slots"
    using new_slots_total [OF demo_geometry_ok l, of 0] by auto
  have eq: "vp_layout plan = layout_of demo_geometry (al_slot_capacity (vp_layout plan)) demo_limits"
    using l by (auto simp: layout_try_new_Inr [OF demo_geometry_ok])
  have stride: "eg_slot_stride_bytes demo_geometry = 1732" by (simp add: demo_geometry_def)
  have mb: "bl_allocation_bytes x \<le> 4000" if x: "x \<in> set (al_banks (vp_layout plan))" for x
  proof -
    from x eq have "x \<in> set (al_banks (layout_of demo_geometry (al_slot_capacity (vp_layout plan)) demo_limits))"
      by metis
    then have "(\<exists>n \<le> 2. x = bank_of 1732 n) \<or> x = dummy_bank"
      using stride bank_capacities_le [of _ 2] by (fastforce simp: layout_of_def Let_def demo_bank_slots)
    then show ?thesis by (auto simp: bank_of_def dummy_bank_def)
  qed
  have "al_mapping_bytes (layout_of demo_geometry c demo_limits) = 32" for c
    by (simp add: demo_geometry_def)
  then have "al_mapping_bytes (vp_layout plan) = 32" using eq by metis
  then have "validate_buffers (arena_buffers (vp_layout plan)) demo_limits = Inr ()"
    using mb by (intro buffers_valid) (auto simp: arena_buffers_def demo_limits_def)
  then show thesis
    using that [OF s] p ok(1) s demo_limits_valid
    by (simp add: create_q4_expert_arena_def validate_q4_expert_uploads_def arena_state_new_def
        uploads_arena_def demo_geometry_def counters_default_def)
qed

lemma demo_arena:
  obtains plan a where "vp_geometry plan = demo_geometry"
    "create_q4_expert_arena 9 32 demo_limits 0 plan [] = Inr a" "0 < length (qa_slots a)"
    "\<forall>i < length (qa_slots a). sl_owner (qa_slots a ! i) = OwnerFree \<and> sl_last_epoch (qa_slots a ! i) = 0"
    "as_latest_generations (qa_state a) = replicate 4 None" "as_next_install_ticket (qa_state a) = 1"
proof -
  obtain plan where p: "plan_try_new demo_geometry 6000 demo_limits = Inr plan"
    and g: "vp_geometry plan = demo_geometry" and b: "vp_requested_expert_budget_bytes plan = 6000"
    and pos: "0 < al_slot_capacity (vp_layout plan)"
    by (rule demo_plan)
  have "plan_try_new demo_geometry (vp_requested_expert_budget_bytes plan) demo_limits = Inr plan" using p b by simp
  from demo_create [OF this, of 9 0] obtain slots where
    s: "new_slots (vp_layout plan) 0 (al_slot_capacity (vp_layout plan)) = Inr slots"
    and cr: "create_q4_expert_arena 9 32 demo_limits 0 plan [] = Inr (uploads_arena 9 0 plan
      \<lparr>pu_mapping = replicate 4 UNMAPPED, pu_physical_slots = [],
       pu_state = \<lparr>as_slots = slots, as_logical_slots = replicate 4 None,
         as_latest_generations = replicate 4 None, as_next_install_ticket = 1, as_counters = counters_default\<rparr>\<rparr>)"
    by blast
  show thesis
    using new_slots_Inr [OF s] pos by (intro that [OF g cr]) auto
qed

lemma first_slot_free:
  assumes "0 < length slots" "sl_owner (slots ! 0) = OwnerFree" "sl_last_epoch (slots ! 0) = 0"
  shows "find_free_slot 0 None slots = (Some 0, None)"
  using assms by (cases slots) (auto simp: u32_MAX_def)

definition demo_key :: q4_key where
  "demo_key = \<lparr>qk_layer_index = 0, qk_expert_id = 1, qk_logical_generation = 1\<rparr>"

lemma demo_acquired:
  obtains plan a0 a1 p where "vp_geometry plan = demo_geometry"
    "create_q4_expert_arena 9 32 demo_limits 0 plan [] = Inr a0"
    "arena_step\<^sup>*\<^sup>* (a0, Map.empty, \<lambda>_. []) (a1, [ip_install_ticket p \<mapsto> (p, Reserved)], \<lambda>_. [])"
    "ip_key p = demo_key" "reservation_current p (qa_state a1)" "qa_plan a1 = plan"
proof -
  obtain plan a0 where g: "vp_geometry plan = demo_geometry"
    and c: "create_q4_expert_arena 9 32 demo_limits 0 plan [] = Inr a0" and len: "0 < length (qa_slots a0)"
    and free: "\<forall>i < length (qa_slots a0). sl_owner (qa_slots a0 ! i) = OwnerFree \<and> sl_last_epoch (qa_slots a0 ! i) = 0"
    and lat: "as_latest_generations (qa_state a0) = replicate 4 None" and nxt: "as_next_install_ticket (qa_state a0) = 1"
    by (rule demo_arena)
  have gok: "geometry_ok (vp_geometry plan)" using g demo_geometry_ok by simp
  note C = create_system [OF gok c]
  have wf: "arena_wf a0" using C(1) by simp
  have ne: "eg_num_experts (qa_geometry a0) = 4" using C(4) g by (simp add: demo_geometry_def)
  obtain res a1 where acq: "acquire_with_unpublish demo_key a0 = (res, a1)" by (metis prod.exhaust)
  have r: "reserve_slot demo_key a0 = (res, a1)"
    using acq lat ne C(6) by (simp add: acquire_with_unpublish_def demo_key_def Let_def)
  have ff: "find_free_slot 0 None (qa_slots a0) = (Some 0, None)"
    using first_slot_free len free by blast
  have "\<exists>p. res = Inr (AcquireInstall p)"
    using r ff free len nxt by (auto simp: reserve_slot_def Let_def checked_add_u64_def u32_MAX_def)
  with r obtain p i where p: "res = Inr (AcquireInstall p)" "i < length (qa_slots a0)" "ip_key p = demo_key"
    "ip_flat_slot p = i" "qr_slot_epoch (ip_residency p) = sl_last_epoch (qa_slots a0 ! i) + 1"
    "ip_install_ticket p = as_next_install_ticket (qa_state a0)"
    "qa_slots a1 = (qa_slots a0)[i := (qa_slots a0 ! i)
         \<lparr>sl_last_epoch := sl_last_epoch (qa_slots a0 ! i) + 1,
          sl_owner := OwnerInstalling demo_key (sl_last_epoch (qa_slots a0 ! i) + 1)
                        (as_next_install_ticket (qa_state a0))\<rparr>]"
    "as_logical_slots (qa_state a1) = (as_logical_slots (qa_state a0))[1 := Some i]"
    "as_latest_generations (qa_state a1) = (as_latest_generations (qa_state a0))[1 := Some 1]"
    by (cases rule: reserve_slot_cases) (auto simp: demo_key_def)
  have "length (as_logical_slots (qa_state a0)) = 4" "length (as_latest_generations (qa_state a0)) = 4"
    using wf ne by (auto simp: arena_wf_def)
  then have "reservation_current p (qa_state a1)"
    using p by (simp add: reservation_current_def Let_def get_flat_def demo_key_def)
  moreover have "arena_step\<^sup>*\<^sup>* (a0, Map.empty, \<lambda>_. []) (a1, [ip_install_ticket p \<mapsto> (p, Reserved)], \<lambda>_. [])"
    using arena_step.acquired [of demo_key a0 p a1] acq p(1) by auto
  moreover have "qa_plan a1 = plan" using acquire_keeps [OF acq] C(4) by simp
  ultimately show thesis using that g c p(3) by blast
qed

lemma demo_geometry_new: "vp_geometry plan = demo_geometry \<Longrightarrow> geometry_try_new 32 32 4 2 = Inr (vp_geometry plan)"
  by (simp add: demo_geometry_eq)

subsection \<open>What holds in every reachable arena\<close>

lemma reachable_system:
  assumes "geometry_try_new dm df ne k = Inr (vp_geometry plan)"
    and "create_q4_expert_arena ctx dm limits layer plan uploads = Inr a0"
    and "arena_step\<^sup>*\<^sup>* (a0, Map.empty, fold (upload_contents (vp_layout plan)) uploads (\<lambda>_. [])) (a, ts, ins)"
  shows "system_inv (a, ts, ins)" "qa_plan a = plan" "qa_context_id a = ctx"
proof -
  have g: "geometry_ok (vp_geometry plan)" using assms(1) geometry_try_new_ok by blast
  note C = create_system [OF g assms(2)]
  show "system_inv (a, ts, ins)" using steps_system [OF assms(3) C(1)] .
  show "qa_plan a = plan" "qa_context_id a = ctx" using steps_keep [OF assms(3)] C(4,5) by auto
qed

lemma publish_fields:
  "qa_slots (publish p mo m a) = (qa_slots a)[ip_flat_slot p := (qa_slots a ! ip_flat_slot p)
      \<lparr>sl_owner := OwnerResident (ip_residency p), sl_ever_installed := True\<rparr>]"
  "qa_banks (publish p mo m a) = qa_banks a"
  "qa_mapping (publish p mo m a) = (qa_mapping a)[mo div 8 := m]"
  by (simp_all add: publish_def Let_def arena_update_defs EXPERT_MAPPING_ENTRY_BYTES_def)

lemma resolve_published:
  assumes wf: "arena_wf a" and e: "e < eg_num_experts (qa_geometry a)"
    and m: "residency_mapping_entry r = Inr (qa_mapping a ! e)"
    and f: "flat_slot_for_location (vp_layout (qa_plan a)) (qr_location r) = Inr i"
  shows "resolve_route a e = Some (qr_location r, qr_slot_epoch r)" "qr_slot_epoch r \<noteq> 0"
proof -
  obtain limits where g: "geometry_ok (qa_geometry a)"
    and l: "layout_try_new (qa_geometry a) (al_slot_capacity (vp_layout (qa_plan a))) limits = Inr (vp_layout (qa_plan a))"
    using wf by (auto simp: arena_wf_def plan_ok_def)
  obtain w where w: "pack (qr_location r) = Inr w" "qr_slot_epoch r \<noteq> 0"
    "qa_mapping a ! e = \<lparr>me_location = w, me_slot_epoch = qr_slot_epoch r\<rparr>"
    using m by (auto simp: residency_mapping_entry_def mapping_entry_try_new_def res_iff split: if_splits)
  then show "qr_slot_epoch r \<noteq> 0" by simp
  have "unpack w = Some (qr_location r)" using w(1) pack_unpack by blast
  then show "resolve_route a e = Some (qr_location r, qr_slot_epoch r)"
    using w e f by (auto simp: resolve_route_def Let_def flat_slot_iff [OF g l])
qed

lemma install_executes:
  assumes inv: "system_inv (a, ts, ins)" and t: "ts t = Some (p, Reserved)"
    and cur: "reservation_current p (qa_state a)" and len: "length payload = eg_logical_expert_bytes (qa_geometry a)"
  shows "\<exists>a'. install_with_writes payload p a = (Inr (ip_residency p), False, a') \<and>
    executed_payload a' (unat (qk_expert_id (ip_key p))) = Some payload"
proof -
  let ?e = "unat (qk_expert_id (ip_key p))" and ?r = "ip_residency p"
  have wf: "arena_wf a" and p: "permit_inv a p"
    using inv ranI [of ts t "(p, Reserved)"] t by (auto simp: task_inv_def)
  have g: "geometry_ok (qa_geometry a)" using wf by (simp add: arena_wf_def plan_ok_def)
  obtain m where m: "residency_mapping_entry ?r = Inr m" using residency_packs(1) [OF wf p] by blast
  have f: "flat_slot_for_location (vp_layout (qa_plan a)) (qr_location ?r) = Inr (ip_flat_slot p)"
    using residency_packs(2) [OF wf p] .
  have e: "?e < eg_num_experts (qa_geometry a)" "qr_slot_epoch ?r \<noteq> 0" using p by (auto simp: permit_inv_def)
  have "unat (el_slot (qr_location ?r)) * eg_slot_stride_bytes (qa_geometry a) \<le> usize_MAX"
  proof -
    have "eg_slot_stride_bytes (qa_geometry a) \<le> 2 ^ 32" "unat (el_slot (qr_location ?r)) \<le> 2 ^ 30"
      using g wf_slot_range(3) [OF wf f] by (simp_all add: geometry_ok_def)
    then have "unat (el_slot (qr_location ?r)) * eg_slot_stride_bytes (qa_geometry a) \<le> 2 ^ 30 * 2 ^ 32"
      by (intro mult_le_mono)
    then show ?thesis by (simp add: usize_MAX_def)
  qed
  then have off: "install_offsets p a = Inr (m, unat (el_slot (qr_location ?r)) * eg_slot_stride_bytes (qa_geometry a), 8 * ?e)"
    using m by (simp add: install_offsets_def mapping_offset_u32 checked_mul_def)
  obtain cs where cs: "checked_slot_new (qa_geometry a) (qk_expert_id (ip_key p)) (qr_slot_epoch ?r) payload = Inr cs"
    using len e(2) by (simp add: checked_slot_new_iff [OF g])
  have phys: "physical_q4_expert_slot (qa_geometry a) (qk_expert_id (ip_key p)) (qr_slot_epoch ?r) payload
      = Inr (slot_image (qr_slot_epoch ?r) payload)"
    using cs slot_fill_image(1) [OF g cs] by (simp add: physical_q4_expert_slot_def)
  define a1 where "a1 = write_bank (el_bank (qr_location ?r))
      (unat (el_slot (qr_location ?r)) * eg_slot_stride_bytes (qa_geometry a)) (slot_image (qr_slot_epoch ?r) payload) a"
  let ?a' = "publish p (8 * ?e) m a1"
  have res: "install_with_writes payload p a = (Inr ?r, False, ?a')"
    using phys off cur by (simp add: install_with_writes_def install_with_prepared_physical_writer_def a1_def)
  have inv': "system_inv (?a', ts(t := None), ins(ip_flat_slot p := payload))"
    by (rule install_system(1) [OF inv t, of None payload "Inr ?r" False]) (use res in auto)
  then have wf': "arena_wf ?a'" by simp
  have plan: "qa_plan ?a' = qa_plan a" by (simp add: a1_def)
  have "qa_mapping ?a' ! ?e = m"
    using wf e(1) by (simp add: publish_fields a1_def write_bank_def arena_wf_def)
  then have rt: "resolve_route ?a' ?e = Some (qr_location ?r, qr_slot_epoch ?r)"
    using resolve_published(1) [OF wf', of ?e ?r "ip_flat_slot p"] m e f plan by simp
  have "slot_bytes ?a' (qr_location ?r) = slot_bytes a1 (qr_location ?r)"
    using plan by (simp add: slot_bytes_def publish_fields a1_def)
  also have "\<dots> = slot_image (qr_slot_epoch ?r) payload"
    using written_system(2) [OF inv t len, of Abandoned] by (simp add: a1_def)
  finally have "slot_bytes ?a' (qr_location ?r) = slot_image (qr_slot_epoch ?r) payload" .
  then have "executed_payload ?a' ?e = Some payload"
    using rt e(2) image_word [of "qr_slot_epoch ?r" payload]
    by (simp add: executed_payload_def slot_epoch_word_def) (simp add: slot_image_def)
  with res show ?thesis by blast
qed

text \<open>C3: in every state that interleaved acquisitions, retirements, staged and sequential installs, commits
  and dropped permits can reach from a created arena, a route whose epoch check passes runs on exactly the
  payload whose install was last published in that slot, and that install belongs to the routed expert at
  its latest generation: staged bytes of a cancelled or superseded install are never executed, even when
  their write lands after the slot was given away.\<close>

theorem executed_payload_current:
  assumes "geometry_try_new dm df ne k = Inr (vp_geometry plan)"
    and "create_q4_expert_arena ctx dm limits layer plan uploads = Inr a0"
    and "arena_step\<^sup>*\<^sup>* (a0, Map.empty, fold (upload_contents (vp_layout plan)) uploads (\<lambda>_. [])) (a, ts, ins)"
    and "executed_payload a e = Some payload"
  shows "\<exists>i r. sl_owner (qa_slots a ! i) = OwnerResident r \<and> payload = ins i \<and>
    unat (qk_expert_id (qr_key r)) = e \<and>
    as_latest_generations (qa_state a) ! e = Some (qk_logical_generation (qr_key r)) \<and>
    contains_exact_residency ctx r a"
  using executed_payload_resident [OF reachable_system(1) [OF assms(1-3)] assms(4)]
    reachable_system(3) [OF assms(1-3)] by metis

theorem executed_payload_current_witness:
  "\<exists>plan a0 a ts ins i r. create_q4_expert_arena 9 32 demo_limits 0 plan [] = Inr a0 \<and>
     arena_step\<^sup>*\<^sup>* (a0, Map.empty, \<lambda>_. []) (a, ts, ins) \<and> executed_payload a 1 = Some (replicate 1728 5) \<and>
     sl_owner (qa_slots a ! i) = OwnerResident r \<and> ins i = replicate 1728 5 \<and> contains_exact_residency 9 r a"
proof -
  obtain plan a0 a1 p where g: "vp_geometry plan = demo_geometry"
    and c: "create_q4_expert_arena 9 32 demo_limits 0 plan [] = Inr a0"
    and st: "arena_step\<^sup>*\<^sup>* (a0, Map.empty, \<lambda>_. []) (a1, [ip_install_ticket p \<mapsto> (p, Reserved)], \<lambda>_. [])"
    and k: "ip_key p = demo_key" and cur: "reservation_current p (qa_state a1)" and pl: "qa_plan a1 = plan"
    by (rule demo_acquired)
  note new = demo_geometry_new [OF g]
  have inv: "system_inv (a1, [ip_install_ticket p \<mapsto> (p, Reserved)], \<lambda>_. [])"
    using reachable_system(1) [OF new c] st by simp
  have len: "length (replicate 1728 (5 :: u8)) = eg_logical_expert_bytes (qa_geometry a1)"
    using pl g by (simp add: demo_geometry_def)
  obtain a2 where a2: "install_with_writes (replicate 1728 5) p a1 = (Inr (ip_residency p), False, a2)"
    "executed_payload a2 1 = Some (replicate 1728 5)"
    using install_executes [OF inv _ cur len, of "ip_install_ticket p"] k by (auto simp: demo_key_def)
  have "arena_step (a1, [ip_install_ticket p \<mapsto> (p, Reserved)], \<lambda>_. [])
      (a2, Map.empty, (\<lambda>_. [])(ip_flat_slot p := replicate 1728 5))"
    using arena_step.installed [of "[ip_install_ticket p \<mapsto> (p, Reserved)]" "ip_install_ticket p" p None a1
        "replicate 1728 5" "ip_residency p" False a2] a2(1) by simp
  then have st2: "arena_step\<^sup>*\<^sup>* (a0, Map.empty, \<lambda>_. []) (a2, Map.empty, (\<lambda>_. [])(ip_flat_slot p := replicate 1728 5))"
    using st by simp
  then obtain i r where "sl_owner (qa_slots a2 ! i) = OwnerResident r"
    "replicate 1728 (5 :: u8) = ((\<lambda>_. [])(ip_flat_slot p := replicate 1728 5)) i" "contains_exact_residency 9 r a2"
    using executed_payload_current [OF new c, of a2 Map.empty "(\<lambda>_. [])(ip_flat_slot p := replicate 1728 5)" 1] a2(2)
    by auto
  with c st2 a2(2) show ?thesis by metis
qed

text \<open>C18: in every reachable state, a permit whose reservation is still current can be installed with any
  payload of the expert's size: the install succeeds, consumes the permit, and the shader then runs on that
  payload for the expert.\<close>

theorem current_install_executes:
  assumes "geometry_try_new dm df ne k = Inr (vp_geometry plan)"
    and "create_q4_expert_arena ctx dm limits layer plan uploads = Inr a0"
    and "arena_step\<^sup>*\<^sup>* (a0, Map.empty, fold (upload_contents (vp_layout plan)) uploads (\<lambda>_. [])) (a, ts, ins)"
    and "ts t = Some (p, Reserved)" and "reservation_current p (qa_state a)"
    and "length payload = eg_logical_expert_bytes (vp_geometry plan)"
  shows "\<exists>a'. install_with_writes payload p a = (Inr (ip_residency p), False, a') \<and>
    arena_step (a, ts, ins) (a', ts(t := None), ins(ip_flat_slot p := payload)) \<and>
    executed_payload a' (unat (qk_expert_id (ip_key p))) = Some payload"
proof -
  note R = reachable_system [OF assms(1-3)]
  obtain a' where "install_with_writes payload p a = (Inr (ip_residency p), False, a')"
    "executed_payload a' (unat (qk_expert_id (ip_key p))) = Some payload"
    using install_executes [OF R(1) assms(4,5)] assms(6) R(2) by auto
  moreover from this(1) have "arena_step (a, ts, ins) (a', ts(t := None), ins(ip_flat_slot p := payload))"
    by (intro arena_step.installed [where view = None and r = "ip_residency p" and active = False])
      (use assms(4) in simp_all)
  ultimately show ?thesis by blast
qed

theorem current_install_executes_witness:
  "\<exists>plan a0 a p a'. create_q4_expert_arena 9 32 demo_limits 0 plan [] = Inr a0 \<and>
     arena_step\<^sup>*\<^sup>* (a0, Map.empty, \<lambda>_. []) (a, [ip_install_ticket p \<mapsto> (p, Reserved)], \<lambda>_. []) \<and>
     install_with_writes (replicate 1728 7) p a = (Inr (ip_residency p), False, a') \<and>
     executed_payload a' 1 = Some (replicate 1728 7)"
proof -
  obtain plan a0 a p where g: "vp_geometry plan = demo_geometry"
    and c: "create_q4_expert_arena 9 32 demo_limits 0 plan [] = Inr a0"
    and st: "arena_step\<^sup>*\<^sup>* (a0, Map.empty, \<lambda>_. []) (a, [ip_install_ticket p \<mapsto> (p, Reserved)], \<lambda>_. [])"
    and k: "ip_key p = demo_key" and cur: "reservation_current p (qa_state a)"
    by (rule demo_acquired)
  have len: "length (replicate 1728 (7 :: u8)) = eg_logical_expert_bytes (vp_geometry plan)"
    by (simp add: g demo_geometry_def)
  obtain a' where "install_with_writes (replicate 1728 7) p a = (Inr (ip_residency p), False, a')"
    "executed_payload a' (unat (qk_expert_id (ip_key p))) = Some (replicate 1728 7)"
    using current_install_executes [OF demo_geometry_new [OF g] c, of a "[ip_install_ticket p \<mapsto> (p, Reserved)]"
        "\<lambda>_. []" "ip_install_ticket p" p, OF _ _ cur len] st by auto
  moreover have "unat (qk_expert_id (ip_key p)) = 1" using k by (simp add: demo_key_def)
  ultimately show ?thesis using c st by metis
qed

lemma word_id_inj: "unat (x :: u32) = unat y \<Longrightarrow> x = y"
  by (rule unsigned_word_eqI)

lemma owner_is_key:
  assumes inv: "system_inv (a, ts, ins)" and e: "unat (qk_expert_id key) < eg_num_experts (qa_geometry a)"
    and i: "as_logical_slots (qa_state a) ! unat (qk_expert_id key) = Some i"
    and l: "as_latest_generations (qa_state a) ! unat (qk_expert_id key) = Some (qk_logical_generation key)"
    and y: "qk_layer_index key = qa_layer_index a"
  shows "owner_key (sl_owner (qa_slots a ! i)) = Some key"
proof -
  obtain k where k: "owner_key (sl_owner (qa_slots a ! i)) = Some k" "unat (qk_expert_id k) = unat (qk_expert_id key)"
    "key_owns a k i"
    using system_expert(4) [OF inv e i] by blast
  then have "k = key"
    using word_id_inj [OF k(2)] l y by (auto simp: key_owns_def intro: q4_key.equality)
  with k show ?thesis by simp
qed

lemma reserve_not_lost: "fst (reserve_slot key a) \<noteq> Inl ExpertInstallReservationLost"
  by (auto simp: reserve_slot_def Let_def split: prod.splits option.splits)

lemma supersede_total:
  assumes inv: "system_inv (a, ts, ins)" and e: "unat (w :: u32) < eg_num_experts (qa_geometry a)"
    and i: "as_logical_slots (qa_state a) ! unat w = Some i"
  shows "\<exists>a'. supersede_slot (unat w) i a = Inr a'"
proof -
  obtain k where "owner_key (sl_owner (qa_slots a ! i)) = Some k"
    using system_expert(4) [OF inv e i] by blast
  then show ?thesis
    by (cases "sl_owner (qa_slots a ! i)") (auto simp: supersede_slot_def mapping_offset_u32)
qed

lemma acquire_not_lost:
  assumes inv: "system_inv (a, ts, ins)"
  shows "fst (acquire_with_unpublish key a) \<noteq> Inl ExpertInstallReservationLost"
proof -
  let ?e = "unat (qk_expert_id key)" and ?st = "qa_state a"
  show ?thesis
  proof (cases "qk_layer_index key = qa_layer_index a \<and> ?e < eg_num_experts (qa_geometry a) \<and>
      qk_logical_generation key \<noteq> 0")
    case False
    then show ?thesis by (auto simp: acquire_with_unpublish_def Let_def)
  next
    case ok: True
    show ?thesis
    proof (cases "as_logical_slots ?st ! ?e")
      case None
      then show ?thesis
        using ok reserve_not_lost [of key a]
        by (auto simp: acquire_with_unpublish_def Let_def split: option.split)
    next
      case (Some i)
      obtain a' where "supersede_slot ?e i a = Inr a'"
        using supersede_total [OF inv] ok Some by blast
      moreover have "as_latest_generations ?st ! ?e = Some (qk_logical_generation key) \<Longrightarrow>
          owner_key (sl_owner (qa_slots a ! i)) = Some key"
        using owner_is_key [OF inv _ Some] ok by blast
      ultimately show ?thesis
        using ok Some reserve_not_lost
        by (cases "sl_owner (qa_slots a ! i)")
          (auto simp: acquire_with_unpublish_def Let_def split: option.split)
    qed
  qed
qed

lemma retire_not_lost:
  assumes inv: "system_inv (a, ts, ins)"
  shows "fst (retire_with_unpublish key a) \<noteq> Inl ExpertInstallReservationLost"
proof -
  let ?e = "unat (qk_expert_id key)" and ?st = "qa_state a"
  show ?thesis
  proof (cases "\<exists>i. qk_layer_index key = qa_layer_index a \<and> ?e < eg_num_experts (qa_geometry a) \<and>
      as_latest_generations ?st ! ?e = Some (qk_logical_generation key) \<and> as_logical_slots ?st ! ?e = Some i")
    case False
    then show ?thesis by (auto simp: retire_with_unpublish_def Let_def split: option.split)
  next
    case True
    then obtain i where "owner_key (sl_owner (qa_slots a ! i)) = Some key" "as_logical_slots ?st ! ?e = Some i"
      using owner_is_key [OF inv] by blast
    with True show ?thesis
      by (cases "sl_owner (qa_slots a ! i)")
        (auto simp: retire_with_unpublish_def Let_def mapping_offset_u32)
  qed
qed

lemma slot_partition:
  "length (filter is_resident xs) + length (filter is_installing xs) \<le> length xs"
proof (induction xs)
  case (Cons x xs)
  have "\<not> (is_resident x \<and> is_installing x)"
    by (cases "sl_owner x") (simp_all add: is_resident_def is_installing_def)
  with Cons show ?case by auto
qed simp

lemma geometry_rebuilt:
  "geometry_try_new dm df ne k = Inr g \<Longrightarrow>
    geometry_try_new (eg_d_model g) (eg_d_ff g) (eg_num_experts g) (eg_top_k g) = Inr g"
  using geometry_try_new_ok by blast

lemma validate_system:
  assumes new: "geometry_try_new dm df ne k = Inr (qa_geometry a)" and inv: "system_inv (a, ts, ins)"
    and plan: "plan_try_new (qa_geometry a) (vp_requested_expert_budget_bytes (qa_plan a)) limits = Inr (qa_plan a)"
    and buf: "validate_buffers (arena_buffers (vp_layout (qa_plan a))) limits = Inr ()"
  shows "validate_q4_expert_arena (qa_context_id a) a limits = Inr ()"
proof -
  let ?n = "length (qa_slots a)" and ?r = "length (filter is_resident (qa_slots a))"
    and ?i = "length (filter is_installing (qa_slots a))"
  have cap: "?n = al_slot_capacity (vp_layout (qa_plan a))" using inv by (simp add: arena_wf_def)
  have g: "geometry_ok (qa_geometry a)" using new geometry_try_new_ok by blast
  have "?n \<le> 4 * maximum_bank_slots (qa_geometry a) limits"
    using plan_try_new_ok(2) [OF g plan] cap by (simp add: layout_try_new_Inr [OF g])
  then have small: "?n \<le> usize_MAX"
    using bank_slots_u30 [of "qa_geometry a" limits] by (simp add: usize_MAX_def)
  have "?r + ?i \<le> ?n" by (rule slot_partition)
  then have "Option.bind (checked_add ?r ?i) (\<lambda>used. checked_add used (?n - ?r - ?i)) = Some ?n"
    using small by (simp add: checked_add_def)
  then show ?thesis
    using geometry_rebuilt [OF new] plan buf cap
    by (simp add: validate_q4_expert_arena_def arena_residency_snapshot_def Let_def)
qed

text \<open>C29: the consistency checks of the arena never fire: in every reachable state the arena passes the
  validation that precedes each call of its context, every slot is counted once as free, installing or
  resident, an expert never owns two slots, the GPU-visible table maps exactly the resident experts, and
  neither an acquisition nor a retirement reports a lost reservation.\<close>

theorem arena_checks_pass:
  assumes "geometry_try_new dm df ne k = Inr (vp_geometry plan)"
    and "create_q4_expert_arena ctx dm limits layer plan uploads = Inr a0"
    and "arena_step\<^sup>*\<^sup>* (a0, Map.empty, fold (upload_contents (vp_layout plan)) uploads (\<lambda>_. [])) (a, ts, ins)"
  shows "validate_q4_expert_arena ctx a limits = Inr () \<and>
    (\<forall>key. fst (acquire_with_unpublish key a) \<noteq> Inl ExpertInstallReservationLost \<and>
           fst (retire_with_unpublish key a) \<noteq> Inl ExpertInstallReservationLost) \<and>
    (\<forall>i j ki kj. i < length (qa_slots a) \<and> j < length (qa_slots a) \<and>
       owner_key (sl_owner (qa_slots a ! i)) = Some ki \<and> owner_key (sl_owner (qa_slots a ! j)) = Some kj \<and>
       qk_expert_id ki = qk_expert_id kj \<longrightarrow> i = j) \<and>
    (\<forall>e < eg_num_experts (vp_geometry plan).
       qa_mapping a ! e \<noteq> UNMAPPED \<longleftrightarrow>
       (\<exists>i r. i < length (qa_slots a) \<and> sl_owner (qa_slots a ! i) = OwnerResident r \<and>
              unat (qk_expert_id (qr_key r)) = e))"
proof -
  note R = reachable_system [OF assms]
  have g: "geometry_ok (vp_geometry plan)" using assms(1) geometry_try_new_ok by blast
  note C = create_system [OF g assms(2)]
  have owns: "as_logical_slots (qa_state a) ! unat (qk_expert_id key) = Some i"
    if "i < length (qa_slots a)" "owner_key (sl_owner (qa_slots a ! i)) = Some key" for i key
  proof -
    have "slot_inv a i" using R(1) that by (auto simp: arena_wf_def)
    then show ?thesis
      using that by (cases "sl_owner (qa_slots a ! i)") (auto simp: slot_inv_def Let_def key_owns_def)
  qed
  have "qa_mapping a ! e \<noteq> UNMAPPED \<longleftrightarrow>
      (\<exists>i r. i < length (qa_slots a) \<and> sl_owner (qa_slots a ! i) = OwnerResident r \<and>
             unat (qk_expert_id (qr_key r)) = e)"
    if e: "e < eg_num_experts (vp_geometry plan)" for e
  proof -
    have inv: "expert_inv a e" using R(1,2) e by (auto simp: arena_wf_def)
    show ?thesis
    proof
      assume "qa_mapping a ! e \<noteq> UNMAPPED"
      then show "\<exists>i r. i < length (qa_slots a) \<and> sl_owner (qa_slots a ! i) = OwnerResident r \<and>
             unat (qk_expert_id (qr_key r)) = e"
        using inv by (force simp: expert_inv_def split: option.splits slot_owner.splits)
    next
      assume "\<exists>i r. i < length (qa_slots a) \<and> sl_owner (qa_slots a ! i) = OwnerResident r \<and>
             unat (qk_expert_id (qr_key r)) = e"
      then obtain i r where i: "i < length (qa_slots a)" "sl_owner (qa_slots a ! i) = OwnerResident r"
        "unat (qk_expert_id (qr_key r)) = e" by blast
      then have "residency_mapping_entry r = Inr (qa_mapping a ! e)"
        using inv owns [OF i(1)] by (simp add: expert_inv_def)
      then show "qa_mapping a ! e \<noteq> UNMAPPED"
        by (auto simp: residency_mapping_entry_def mapping_entry_try_new_def UNMAPPED_def res_iff split: if_splits)
    qed
  qed
  moreover have "validate_q4_expert_arena ctx a limits = Inr ()"
    using validate_system [of dm df ne k a ts ins limits] R C(2,3) assms(1) by simp
  moreover have "i = j" if "i < length (qa_slots a)" "j < length (qa_slots a)"
    "owner_key (sl_owner (qa_slots a ! i)) = Some ki" "owner_key (sl_owner (qa_slots a ! j)) = Some kj"
    "qk_expert_id ki = qk_expert_id kj" for i j ki kj
    using owns [OF that(1,3)] owns [OF that(2,4)] that(5) by simp
  ultimately show ?thesis
    using acquire_not_lost [OF R(1)] retire_not_lost [OF R(1)] by blast
qed

theorem arena_checks_pass_witness:
  "\<exists>plan a0 a p. create_q4_expert_arena 9 32 demo_limits 0 plan [] = Inr a0 \<and>
     arena_step\<^sup>*\<^sup>* (a0, Map.empty, \<lambda>_. []) (a, [ip_install_ticket p \<mapsto> (p, Reserved)], \<lambda>_. []) \<and>
     validate_q4_expert_arena 9 a demo_limits = Inr () \<and>
     fst (acquire_with_unpublish demo_key a) \<noteq> Inl ExpertInstallReservationLost"
proof -
  obtain plan a0 a p where g: "vp_geometry plan = demo_geometry"
    and c: "create_q4_expert_arena 9 32 demo_limits 0 plan [] = Inr a0"
    and st: "arena_step\<^sup>*\<^sup>* (a0, Map.empty, \<lambda>_. []) (a, [ip_install_ticket p \<mapsto> (p, Reserved)], \<lambda>_. [])"
    by (rule demo_acquired)
  then show ?thesis
    using arena_checks_pass [OF demo_geometry_new [OF g] c, of a "[ip_install_ticket p \<mapsto> (p, Reserved)]" "\<lambda>_. []"]
    by auto
qed

end
