(* ===== verification/ArenaView.thy ===== *)
theory ArenaView
  imports ArenaSafety
begin

section \<open>The arena as a map from experts to owners\<close>

text \<open>
  A client that holds the lock of its layer sees one arena operation after another. For it the arena is
  the map \<open>arena_view\<close> from experts to the slot and the owner they have, and each operation of
  \<open>ExpertArena\<close> changes that map at one expert: an acquisition of an absent expert adds an installing
  owner, a commit makes it resident, a retirement or a dropped permit removes it, and staging leaves it
  alone. The lemmas below state this together with the invariant of \<open>ArenaSafety\<close>.
\<close>

subsection \<open>The owner of every expert\<close>

definition arena_view :: "q4_arena \<Rightarrow> usize \<Rightarrow> (usize \<times> slot_owner) option" where
  "arena_view a e =
     (if e < eg_num_experts (qa_geometry a)
      then map_option (\<lambda>i. (i, sl_owner (qa_slots a ! i))) (as_logical_slots (qa_state a) ! e)
      else None)"

definition arena_in ::
    "u64 \<Rightarrow> usize \<Rightarrow> vram_plan \<Rightarrow> (u64 \<rightharpoonup> install_task) \<Rightarrow> q4_arena \<Rightarrow> bool" where
  "arena_in ctx layer plan ts a \<longleftrightarrow>
     qa_context_id a = ctx \<and> qa_layer_index a = layer \<and> qa_plan a = plan \<and>
     (\<exists>ins. system_inv (a, ts, ins))"

lemma arena_inD:
  assumes "arena_in ctx layer plan ts a"
  shows "qa_context_id a = ctx" "qa_layer_index a = layer" "qa_plan a = plan" "arena_wf a"
    "\<exists>ins. system_inv (a, ts, ins)"
  using assms by (auto simp: arena_in_def)

lemma arena_in_empty: "arena_in ctx layer plan ts a \<Longrightarrow> ts' \<subseteq>\<^sub>m ts \<Longrightarrow> arena_in ctx layer plan ts' a"
  unfolding arena_in_def using task_system by blast

lemma view_Some:
  assumes "arena_wf a" "arena_view a e = Some (i, ow)"
  shows "e < eg_num_experts (qa_geometry a)" "as_logical_slots (qa_state a) ! e = Some i"
    "i < length (qa_slots a)" "ow = sl_owner (qa_slots a ! i)"
    "\<exists>k. owner_key ow = Some k \<and> unat (qk_expert_id k) = e \<and> key_owns a k i"
proof -
  show e: "e < eg_num_experts (qa_geometry a)" and l: "as_logical_slots (qa_state a) ! e = Some i"
    and ow: "ow = sl_owner (qa_slots a ! i)"
    using assms(2) by (auto simp: arena_view_def split: if_splits)
  have "expert_inv a e" using assms(1) e by (simp add: arena_wf_def)
  with l ow show i: "i < length (qa_slots a)" by (simp add: expert_inv_def)
  have "slot_inv a i" using assms(1) i by (simp add: arena_wf_def)
  with \<open>expert_inv a e\<close> l ow show "\<exists>k. owner_key ow = Some k \<and> unat (qk_expert_id k) = e \<and> key_owns a k i"
    by (cases "sl_owner (qa_slots a ! i)") (auto simp: expert_inv_def slot_inv_def Let_def)
qed

lemma view_inj:
  assumes "arena_wf a" "arena_view a e = Some (i, ow)" "arena_view a e' = Some (i, ow')"
  shows "e = e'"
  using view_Some(4,5) [OF assms(1,2)] view_Some(4,5) [OF assms(1,3)] by auto

lemma view_update:
  assumes wf: "arena_wf a" and "qa_plan a' = qa_plan a" and e: "e < eg_num_experts (qa_geometry a)"
    and own: "as_logical_slots (qa_state a) ! e = Some i \<or> sl_owner (qa_slots a ! i) = OwnerFree"
    and "qa_slots a' = (qa_slots a)[i := s']"
    and "as_logical_slots (qa_state a') = (as_logical_slots (qa_state a))[e := x]"
  shows "arena_view a' = (arena_view a)(e := map_option (\<lambda>j. (j, sl_owner (qa_slots a' ! j))) x)"
proof
  fix e'
  have len: "length (as_logical_slots (qa_state a)) = eg_num_experts (qa_geometry a)"
    using wf by (simp add: arena_wf_def)
  show "arena_view a' e' = ((arena_view a)(e := map_option (\<lambda>j. (j, sl_owner (qa_slots a' ! j))) x)) e'"
  proof (cases "e' = e")
    case True
    then show ?thesis using assms len by (simp add: arena_view_def)
  next
    case False
    show ?thesis
    proof (cases "arena_view a e'")
      case None
      then show ?thesis using False assms by (auto simp: arena_view_def split: if_splits)
    next
      case (Some y)
      obtain j ow where y: "arena_view a e' = Some (j, ow)" using Some by (cases y) auto
      have "j \<noteq> i"
      proof
        assume "j = i"
        with own view_Some(4,5) [OF wf y] have "as_logical_slots (qa_state a) ! e = Some i" by auto
        then have "arena_view a e = Some (i, sl_owner (qa_slots a ! i))" using e by (simp add: arena_view_def)
        then show False using view_inj [OF wf y [unfolded \<open>j = i\<close>]] False by blast
      qed
      then show ?thesis using y False assms by (auto simp: arena_view_def split: if_splits)
    qed
  qed
qed

lemma view_cong:
  assumes "qa_plan a' = qa_plan a" "qa_slots a' = qa_slots a"
    "as_logical_slots (qa_state a') = as_logical_slots (qa_state a)"
  shows "arena_view a' = arena_view a"
  using assms by (auto simp: arena_view_def fun_eq_iff)

text \<open>A permit whose reservation is current is the installing owner of its expert.\<close>

lemma current_view:
  assumes wf: "arena_wf a" and "unat (qk_expert_id (ip_key p)) < eg_num_experts (qa_geometry a)"
  shows "reservation_current p (qa_state a) \<longleftrightarrow>
    arena_view a (unat (qk_expert_id (ip_key p))) =
      Some (ip_flat_slot p, OwnerInstalling (ip_key p) (qr_slot_epoch (ip_residency p)) (ip_install_ticket p))"
    (is "?L \<longleftrightarrow> ?R")
proof
  have len: "length (as_logical_slots (qa_state a)) = eg_num_experts (qa_geometry a)"
    "length (as_latest_generations (qa_state a)) = eg_num_experts (qa_geometry a)"
    using wf by (auto simp: arena_wf_def)
  show "?L \<Longrightarrow> ?R" using assms(2) len by (auto simp: reservation_current_def Let_def get_flat_def arena_view_def)
  assume R: ?R
  show ?L using view_Some(2,3) [OF wf R] view_Some(4) [OF wf R, symmetric] view_Some(5) [OF wf R] assms(2) len
    by (auto simp: reservation_current_def Let_def get_flat_def key_owns_def)
qed

text \<open>A residency is exact when it is the resident owner of its expert.\<close>

lemma exact_view:
  assumes "arena_in ctx layer plan ts a"
  shows "contains_exact_residency ctx r a \<longleftrightarrow>
    (\<exists>i. arena_view a (unat (qk_expert_id (qr_key r))) = Some (i, OwnerResident r))" (is "?L \<longleftrightarrow> ?R")
proof
  note A = arena_inD [OF assms]
  let ?e = "unat (qk_expert_id (qr_key r))"
  have len: "length (as_logical_slots (qa_state a)) = eg_num_experts (qa_geometry a)"
    "length (as_latest_generations (qa_state a)) = eg_num_experts (qa_geometry a)"
    using A(4) by (auto simp: arena_wf_def)
  show "?L \<Longrightarrow> ?R"
    using len by (auto simp: contains_exact_residency_def Let_def get_flat_def arena_view_def
        split: if_splits option.splits)
  assume ?R
  then obtain i where v: "arena_view a ?e = Some (i, OwnerResident r)" by blast
  note V = view_Some [OF A(4) v]
  have "slot_inv a i" "sl_owner (qa_slots a ! i) = OwnerResident r" using A(4) V(3,4) by (auto simp: arena_wf_def)
  then show ?L using V(1-3) A(1,2) len
    by (auto simp: contains_exact_residency_def Let_def get_flat_def slot_inv_def key_owns_def)
qed

subsection \<open>What each operation does to it\<close>

lemma count_in [simp]: "arena_in ctx layer plan ts (count_event f a) = arena_in ctx layer plan ts a"
  unfolding arena_in_def count_system by (simp add: count_event_def)

lemma count_view [simp]: "arena_view (count_event f a) = arena_view a"
  by (rule view_cong) (simp_all add: count_event_def)

lemma reserve_layer: "reserve_slot key a = (res, a') \<Longrightarrow> qa_layer_index a' = qa_layer_index a"
  by (auto simp: reserve_slot_def Let_def split: prod.splits option.splits if_splits)

lemma no_free_slot:
  "find_free_slot i ex slots = (None, None) \<Longrightarrow> s \<in> set slots \<Longrightarrow> sl_owner s \<noteq> OwnerFree"
proof (induction i ex slots rule: find_free_slot.induct)
  case (2 i ex slot slots)
  have "find_free_slot j (Some l) xs \<noteq> (None, None)" for j l xs
    by (induction xs arbitrary: j) auto
  then show ?case using 2 by (auto split: if_splits option.splits)
qed simp

text \<open>An expert without a slot: the request is refused as older, or a slot is looked for.\<close>

lemma acquire_absent:
  assumes A: "arena_in ctx layer plan ts a" and key: "qk_layer_index key = layer"
    and e: "unat (qk_expert_id key) < eg_num_experts (vp_geometry plan)"
    and none: "arena_view a (unat (qk_expert_id key)) = None"
    and r: "acquire_with_unpublish key a = (res, a')"
  obtains (install) p where "res = Inr (AcquireInstall p)" "ip_key p = key"
      "arena_in ctx layer plan (ts(ip_install_ticket p \<mapsto> (p, Reserved))) a'" "ts (ip_install_ticket p) = None"
      "arena_view a' = (arena_view a)(unat (qk_expert_id key) \<mapsto>
         (ip_flat_slot p, OwnerInstalling key (qr_slot_epoch (ip_residency p)) (ip_install_ticket p)))"
  | (other) "\<forall>p. res \<noteq> Inr (AcquireInstall p)" "\<forall>x. res \<noteq> Inr (AcquireHit x)" "res \<noteq> Inr InstallInProgress"
      "res \<noteq> Inl ExpertInstallReservationLost" "arena_in ctx layer plan ts a'" "arena_view a' = arena_view a"
      "res = Inr NoPhysicalSlot \<longrightarrow> (\<forall>s \<in> set (qa_slots a). sl_owner s \<noteq> OwnerFree)"
proof -
  let ?e = "unat (qk_expert_id key)"
  note D = arena_inD [OF A]
  obtain ins where inv: "system_inv (a, ts, ins)" using D(5) by blast
  have keeps: "qa_plan a' = plan" "qa_context_id a' = ctx" using acquire_keeps [OF r] D by auto
  have none': "as_logical_slots (qa_state a) ! ?e = None"
    using none e D(3) by (auto simp: arena_view_def)
  have lost: "res \<noteq> Inl ExpertInstallReservationLost" using acquire_not_lost [OF inv, of key] r by auto
  have S: "system_inv (a', acquire_tasks res ts, ins)" by (rule acquire_system [OF inv r])
  consider (bad) "a' = a \<or> a' = count_event bump_stale a" "\<exists>x. res = Inl x \<or> res = Inr AcquireStaleRequester"
      "\<forall>p. res \<noteq> Inr (AcquireInstall p)" "\<forall>x. res \<noteq> Inr (AcquireHit x)" "res \<noteq> Inr InstallInProgress"
      "res \<noteq> Inr NoPhysicalSlot"
    | (reserve) "reserve_slot key a = (res, a')"
    using r none' key e D by (auto simp: acquire_with_unpublish_def Let_def split: if_splits option.splits)
  then show thesis
  proof cases
    case bad
    then show thesis using other lost A by (metis count_in count_view)
  next
    case reserve
    from reserve show thesis
    proof (cases rule: reserve_slot_cases)
      case (none x)
      have "acquire_tasks res ts = ts"
        using none(1) by (auto simp: acquire_tasks_def split: sum.split q4_acquire.split)
      then have "arena_in ctx layer plan ts a'"
        using S keeps none(2) D(2) by (auto simp: arena_in_def same_frame_def)
      moreover have "arena_view a' = arena_view a" using keeps none D(3) by (intro view_cong) auto
      moreover have "\<forall>x. res \<noteq> Inr (AcquireHit x)" "res \<noteq> Inr InstallInProgress"
        using reserve by (auto simp: reserve_slot_def Let_def split: prod.splits option.splits if_splits)
      moreover have "\<forall>s \<in> set (qa_slots a). sl_owner s \<noteq> OwnerFree" if "res = Inr NoPhysicalSlot"
        using reserve that no_free_slot by (auto simp: reserve_slot_def Let_def split: prod.splits option.splits if_splits)
      ultimately show thesis using other none(1) lost by blast
    next
      case (some p i)
      have tk: "ip_install_ticket p = as_next_install_ticket (qa_state a)" "ip_key p = key"
        "ip_flat_slot p = i" "qr_slot_epoch (ip_residency p) = sl_last_epoch (qa_slots a ! i) + 1"
        using some(7) by auto
      have "ts (ip_install_ticket p) = None"
      proof (rule ccontr)
        assume "ts (ip_install_ticket p) \<noteq> None"
        then obtain q ph where q: "ts (ip_install_ticket p) = Some (q, ph)" by auto
        then have "task_inv a (q, ph)" using inv ranI [of ts "ip_install_ticket p" "(q, ph)"] by auto
        moreover have "ip_install_ticket q = ip_install_ticket p"
          using inv q by (auto simp: tasks_distinct_def)
        ultimately show False using tk(1) by (auto simp: task_inv_def permit_inv_def)
      qed
      moreover have "arena_in ctx layer plan (ts(ip_install_ticket p \<mapsto> (p, Reserved))) a'"
        using S keeps some(1,2) D(2) by (auto simp: arena_in_def same_frame_def acquire_tasks_def simp del: system_inv.simps)
      moreover have "arena_view a' = (arena_view a)(?e := map_option (\<lambda>j. (j, sl_owner (qa_slots a' ! j))) (Some i))"
        using some(4,8,9) keeps e D(3,4) by (intro view_update) auto
      then have "arena_view a' = (arena_view a)(?e \<mapsto>
          (ip_flat_slot p, OwnerInstalling key (qr_slot_epoch (ip_residency p)) (ip_install_ticket p)))"
        using some(3,8) tk by simp
      ultimately show thesis using install some(1) tk(2) by blast
    qed
  qed
qed

lemma freed_view:
  assumes wf: "arena_wf a" and v: "arena_view a e = Some (i, ow)"
    and "qa_plan a' = qa_plan a" "qa_slots a' = (qa_slots a)[i := s']"
    and "as_logical_slots (qa_state a') = (as_logical_slots (qa_state a))[e := None]"
  shows "arena_view a' = (arena_view a)(e := None)"
  using view_update [OF wf assms(3) view_Some(1) [OF wf v] disjI1 [OF view_Some(2) [OF wf v]] assms(4,5)] by simp

lemma retire_resident:
  assumes A: "arena_in ctx layer plan ts a"
    and v: "arena_view a (unat (qk_expert_id (qr_key r))) = Some (i, OwnerResident r)"
  obtains a' where "retire_with_unpublish (qr_key r) a = (Inr Retired, a')" "arena_in ctx layer plan ts a'"
    "arena_view a' = (arena_view a)(unat (qk_expert_id (qr_key r)) := None)"
proof -
  let ?k = "qr_key r" and ?e = "unat (qk_expert_id (qr_key r))"
  note D = arena_inD [OF A] and V = view_Some [OF arena_inD(4) [OF A] v]
  obtain ins where inv: "system_inv (a, ts, ins)" using D(5) by blast
  have ow: "sl_owner (qa_slots a ! i) = OwnerResident r" using V(4) by simp
  have key: "key_owns a ?k i" using V(5) by auto
  obtain res a' where r: "retire_with_unpublish ?k a = (res, a')" by (cases "retire_with_unpublish ?k a")
  have a': "res = Inr Retired" "a' = count_event (bump_unpublications \<circ> bump_retires)
      (set_logical_slot ?e None (set_slot_owner i OwnerFree (write_mapping (8 * ?e) UNMAPPED a)))"
    using r key V(2) ow
    by (simp_all add: retire_with_unpublish_def Let_def key_owns_def mapping_offset_u32)
  have "qa_layer_index a' = layer" using a'(2) D(2) by (simp add: arena_update_defs)
  then have "arena_in ctx layer plan ts a'"
    using retire_system [OF inv r] retire_keeps [OF r] D unfolding arena_in_def by metis
  moreover have "arena_view a' = (arena_view a)(?e := None)"
    unfolding a'(2) count_view by (rule freed_view [OF D(4) v]) (simp_all add: arena_update_defs)
  ultimately show thesis using that r a'(1) by blast
qed

abbreviation permit_owner :: "install_permit \<Rightarrow> usize \<times> slot_owner" where
  "permit_owner p \<equiv> (ip_flat_slot p, OwnerInstalling (ip_key p) (qr_slot_epoch (ip_residency p)) (ip_install_ticket p))"

abbreviation permit_expert :: "install_permit \<Rightarrow> usize" where
  "permit_expert p \<equiv> unat (qk_expert_id (ip_key p))"

lemma arena_permit:
  assumes "arena_in ctx layer plan ts a" "ts t = Some (p, ph)"
  shows "permit_inv a p" "phase_inv a p ph" "permit_expert p < eg_num_experts (vp_geometry plan)" "ip_active p"
proof -
  obtain ins where "system_inv (a, ts, ins)" "qa_plan a = plan" using arena_inD [OF assms(1)] by blast
  then have "task_inv a (p, ph)" using ranI [of ts t "(p, ph)"] assms(2) by auto
  then show "permit_inv a p" "phase_inv a p ph" "permit_expert p < eg_num_experts (vp_geometry plan)" "ip_active p"
    using \<open>qa_plan a = plan\<close> by (auto simp: task_inv_def permit_inv_def)
qed

lemma drop_current:
  assumes A: "arena_in ctx layer plan ts a" and t: "ts t = Some (p, ph)"
    and v: "arena_view a (permit_expert p) = Some (permit_owner p)"
  shows "arena_in ctx layer plan (ts(t := None)) (permit_drop p a)"
    "arena_view (permit_drop p a) = (arena_view a)(permit_expert p := None)"
proof -
  note D = arena_inD [OF A] and V = view_Some [OF arena_inD(4) [OF A] v] and P = arena_permit [OF A t]
  obtain ins where inv: "system_inv (a, ts, ins)" using D(5) by blast
  have len: "length (as_logical_slots (qa_state a)) = eg_num_experts (qa_geometry a)"
    using D(4) by (simp add: arena_wf_def)
  have eq: "permit_drop p a = count_event bump_cancellations
      (set_logical_slot (permit_expert p) None (set_slot_owner (ip_flat_slot p) OwnerFree a))"
    using V(2,3) V(4) [symmetric] P(3,4) len D(3)
    by (simp add: permit_drop_def cancel_install_def Let_def get_flat_def set_slot_owner_def)
  show "arena_view (permit_drop p a) = (arena_view a)(permit_expert p := None)"
    unfolding eq count_view by (rule freed_view [OF D(4) v]) (simp_all add: arena_update_defs)
  have "qa_layer_index (permit_drop p a) = layer" "qa_context_id (permit_drop p a) = ctx" "qa_plan (permit_drop p a) = plan"
    using D unfolding eq by (simp_all add: arena_update_defs)
  then show "arena_in ctx layer plan (ts(t := None)) (permit_drop p a)"
    using cancel_system [OF inv t] unfolding arena_in_def by blast
qed

lemma install_offsets_total:
  assumes "arena_in ctx layer plan ts a" "ts t = Some (p, ph)"
  shows "\<exists>m. install_offsets p a = Inr (m, unat (el_slot (qr_location (ip_residency p))) *
      eg_slot_stride_bytes (qa_geometry a), 8 * permit_expert p)"
proof -
  note wf = arena_inD(4) [OF assms(1)] and p = arena_permit(1) [OF assms]
  let ?r = "ip_residency p"
  have g: "geometry_ok (qa_geometry a)" using wf by (simp add: arena_wf_def plan_ok_def)
  have f: "flat_slot_for_location (vp_layout (qa_plan a)) (qr_location ?r) = Inr (ip_flat_slot p)"
    using residency_packs(2) [OF wf p] .
  have "eg_slot_stride_bytes (qa_geometry a) \<le> 2 ^ 32" "unat (el_slot (qr_location ?r)) \<le> 2 ^ 30"
    using g wf_slot_range(3) [OF wf f] by (simp_all add: geometry_ok_def)
  then have "unat (el_slot (qr_location ?r)) * eg_slot_stride_bytes (qa_geometry a) \<le> 2 ^ 30 * 2 ^ 32"
    by (intro mult_le_mono)
  then show ?thesis
    using residency_packs(1) [OF wf p]
    by (auto simp: install_offsets_def mapping_offset_u32 checked_mul_def usize_MAX_def)
qed

text \<open>Errors other than the two that would mean the arena is inconsistent.\<close>

definition consistent_error :: "bootstrap_error \<Rightarrow> bool" where
  "consistent_error x \<longleftrightarrow> x \<noteq> ExpertInstallReservationLost \<and> x \<noteq> ForeignExpertArena"

lemma checked_consistent: "checked_slot_new g eid ep payload = Inl x \<Longrightarrow> consistent_error x"
  by (auto simp: checked_slot_new_def validate_q4_expert_payload_def consistent_error_def res_iff split: if_splits)

lemma bank_write_view [simp]: "arena_view (write_bank b off bytes a) = arena_view a"
  by (rule view_cong) (simp_all add: write_bank_def)

lemma stage_check_current:
  assumes A: "arena_in ctx layer plan ts a" and t: "ts t = Some (p, Reserved)"
    and v: "arena_view a (permit_expert p) = Some (permit_owner p)"
  shows "(\<exists>x. stage_check p payload a = (Inl x, a) \<and> consistent_error x) \<or>
    (\<exists>cs off pr. stage_check p payload a = (Inr (cs, off, pr), a) \<and> pi_permit pr = p \<and>
       arena_in ctx layer plan (ts(t \<mapsto> (p, Staging payload cs off pr))) a)"
proof -
  note D = arena_inD [OF A] and P = arena_permit [OF A t]
  obtain ins where inv: "system_inv (a, ts, ins)" using D(5) by blast
  have cur: "reservation_current p (qa_state a)" using current_view [OF D(4)] v P(3) D(3) by simp
  obtain m where off: "install_offsets p a = Inr (m, unat (el_slot (qr_location (ip_residency p))) *
      eg_slot_stride_bytes (qa_geometry a), 8 * permit_expert p)"
    using install_offsets_total [OF A t] by blast
  let ?new = "checked_slot_new (qa_geometry a) (qk_expert_id (ip_key p)) (qr_slot_epoch (ip_residency p)) payload"
  show ?thesis
  proof (cases ?new)
    case (Inl x)
    then have "stage_check p payload a = (Inl x, a)" by (simp add: stage_check_def)
    then show ?thesis using checked_consistent [OF Inl] by blast
  next
    case (Inr cs)
    then have s: "stage_check p payload a = (Inr (cs, unat (el_slot (qr_location (ip_residency p))) *
        eg_slot_stride_bytes (qa_geometry a), \<lparr>pi_permit = p, pi_mapping = m, pi_mapping_offset = 8 * permit_expert p\<rparr>), a)"
      using off cur by (simp add: stage_check_def)
    from stage_check_system [OF inv t s] D(1-3) s show ?thesis
      unfolding arena_in_def by (force simp del: system_inv.simps)
  qed
qed

lemma stage_write_current:
  assumes A: "arena_in ctx layer plan ts a" and t: "ts t = Some (p, Staging payload cs off pr)"
    and v: "\<forall>x. view = Some x \<longrightarrow> length x = eg_slot_stride_bytes (vp_geometry plan)"
    and w: "stage_write nz view (el_bank (qr_location (ip_residency p))) off cs a = (res, a')"
  shows "arena_view a' = arena_view a"
    and "res = Inr () \<and> arena_in ctx layer plan (ts(t \<mapsto> (p, Staged payload pr))) a' \<or>
      (\<exists>x. res = Inl x \<and> consistent_error x \<and> arena_in ctx layer plan (ts(t \<mapsto> (p, Abandoned))) a')"
proof -
  note D = arena_inD [OF A] and P = arena_permit [OF A t]
  obtain ins where inv: "system_inv (a, ts, ins)" using D(5) by blast
  have cs: "checked_slot_new (qa_geometry a) (qk_expert_id (ip_key p)) (qr_slot_epoch (ip_residency p)) payload = Inr cs"
    using P(2) by simp
  have view: "\<forall>x. view = Some x \<longrightarrow> length x = eg_slot_stride_bytes (qa_geometry a)" using v D(3) by simp
  note W = stage_write_eq [OF D(4) cs view]
  show "arena_view a' = arena_view a" using w W by (cases view) auto
  have "qa_layer_index a' = layer" "qa_plan a' = plan" "qa_context_id a' = ctx"
    using w W D(1-3) by (cases view; auto simp: write_bank_def)+
  then have "arena_in ctx layer plan (ts(t \<mapsto> (p, if res = Inr () then Staged payload pr else Abandoned))) a'"
    using stage_write_system [OF inv t view w] unfolding arena_in_def by blast
  moreover have "res = Inr () \<or> (\<exists>x. res = Inl x \<and> consistent_error x)"
    using w W by (cases view) (auto simp: consistent_error_def)
  ultimately show "res = Inr () \<and> arena_in ctx layer plan (ts(t \<mapsto> (p, Staged payload pr))) a' \<or>
      (\<exists>x. res = Inl x \<and> consistent_error x \<and> arena_in ctx layer plan (ts(t \<mapsto> (p, Abandoned))) a')"
    by auto
qed

lemma publish_view:
  assumes wf: "arena_wf a" and v: "arena_view a (permit_expert p) = Some (permit_owner p)"
  shows "arena_view (publish p mo m a) = (arena_view a)(permit_expert p \<mapsto> (ip_flat_slot p, OwnerResident (ip_residency p)))"
proof -
  note V = view_Some [OF wf v]
  let ?a = "publish p mo m a"
  have log: "as_logical_slots (qa_state ?a) = (as_logical_slots (qa_state a))[permit_expert p := Some (ip_flat_slot p)]"
    using V(2) list_update_id [of "as_logical_slots (qa_state a)" "permit_expert p"]
    by (simp add: publish_def Let_def arena_update_defs)
  have "arena_view ?a = (arena_view a)(permit_expert p :=
      map_option (\<lambda>j. (j, sl_owner (qa_slots ?a ! j))) (Some (ip_flat_slot p)))"
    by (rule view_update [OF wf _ V(1) disjI1 [OF V(2)] publish_fields(1) log])
      (simp add: publish_def Let_def arena_update_defs)
  then show ?thesis using V(3) by (simp add: publish_fields)
qed

lemma commit_current:
  assumes A: "arena_in ctx layer plan ts a" and t: "ts t = Some (p, Staged payload pr)"
    and v: "arena_view a (permit_expert p) = Some (permit_owner p)"
  shows "\<exists>a'. commit_with_mapping_writer pr a = (Inr (ip_residency p), a') \<and>
    arena_in ctx layer plan (ts(t := None)) a' \<and>
    arena_view a' = (arena_view a)(permit_expert p \<mapsto> (ip_flat_slot p, OwnerResident (ip_residency p)))"
proof -
  note D = arena_inD [OF A] and P = arena_permit [OF A t]
  obtain ins where inv: "system_inv (a, ts, ins)" using D(5) by blast
  have cur: "reservation_current p (qa_state a)" using current_view [OF D(4)] v P(3) D(3) by simp
  have pr: "pi_permit pr = p" using P(2) by (simp add: prepared_ok_def)
  let ?a' = "publish p (pi_mapping_offset pr) (pi_mapping pr) a"
  have c: "commit_with_mapping_writer pr a = (Inr (ip_residency p), ?a')"
    using cur pr by (simp add: commit_with_mapping_writer_def)
  have "qa_layer_index ?a' = layer" "qa_plan ?a' = plan" "qa_context_id ?a' = ctx"
    using D(1-3) by (simp_all add: publish_def Let_def arena_update_defs)
  then have "arena_in ctx layer plan (ts(t := None)) ?a'"
    using publish_system [OF inv t cur] unfolding arena_in_def by blast
  then show ?thesis using c publish_view [OF D(4) v] by blast
qed

lemma install_current:
  assumes A: "arena_in ctx layer plan ts a" and t: "ts t = Some (p, Reserved)"
    and v: "arena_view a (permit_expert p) = Some (permit_owner p)"
    and view: "\<forall>x. view = Some x \<longrightarrow> length x = eg_slot_stride_bytes (vp_geometry plan)"
    and r: "install_sequential view payload p a = (res, active, a') \<or> install_with_writes payload p a = (res, active, a')"
  shows "res = Inr (ip_residency p) \<and> \<not> active \<and> arena_in ctx layer plan (ts(t := None)) a' \<and>
      arena_view a' = (arena_view a)(permit_expert p \<mapsto> (ip_flat_slot p, OwnerResident (ip_residency p))) \<or>
    (\<exists>x. res = Inl x \<and> consistent_error x \<and> active \<and> arena_in ctx layer plan ts a' \<and>
      arena_view a' = arena_view a)"
proof -
  note D = arena_inD [OF A] and P = arena_permit [OF A t]
  obtain ins where inv: "system_inv (a, ts, ins)" using D(5) by blast
  have g: "geometry_ok (qa_geometry a)" using D(4) by (simp add: arena_wf_def plan_ok_def)
  have cur: "reservation_current p (qa_state a)" using current_view [OF D(4)] v P(3) D(3) by simp
  obtain m where off: "install_offsets p a = Inr (m, unat (el_slot (qr_location (ip_residency p))) *
      eg_slot_stride_bytes (qa_geometry a), 8 * permit_expert p)"
    using install_offsets_total [OF A t] by blast
  have view': "\<forall>x. view = Some x \<longrightarrow> length x = eg_slot_stride_bytes (qa_geometry a)" using view D(3) by simp
  let ?new = "checked_slot_new (qa_geometry a) (qk_expert_id (ip_key p)) (qr_slot_epoch (ip_residency p)) payload"
  have cases: "(\<exists>b off bytes. res = Inr (ip_residency p) \<and> \<not> active \<and> a' = publish p (8 * permit_expert p) m (write_bank b off bytes a)) \<or>
      (\<exists>x. res = Inl x \<and> consistent_error x \<and> active \<and> a' = a)"
  proof (cases ?new)
    case (Inl x)
    then show ?thesis using r checked_consistent [OF Inl] P(4)
      by (auto simp: install_sequential_def install_with_writes_def physical_q4_expert_slot_def)
  next
    case (Inr cs)
    have phys: "physical_q4_expert_slot (qa_geometry a) (qk_expert_id (ip_key p)) (qr_slot_epoch (ip_residency p)) payload
        = Inr (slot_image (qr_slot_epoch (ip_residency p)) payload)"
      using Inr slot_fill_image(1) [OF g Inr] by (simp add: physical_q4_expert_slot_def)
    note W = stage_write_eq [OF D(4) Inr view']
    from r show ?thesis
    proof
      assume "install_sequential view payload p a = (res, active, a')"
      then show ?thesis using Inr off cur W P(4)
        by (cases view) (auto simp: install_sequential_def install_with_prepared_physical_writer_def consistent_error_def)
    next
      assume "install_with_writes payload p a = (res, active, a')"
      then show ?thesis using phys off cur
        by (auto simp: install_with_writes_def install_with_prepared_physical_writer_def)
    qed
  qed
  from cases show ?thesis
  proof
    assume "\<exists>b off bytes. res = Inr (ip_residency p) \<and> \<not> active \<and> a' = publish p (8 * permit_expert p) m (write_bank b off bytes a)"
    then obtain b off bytes where R: "res = Inr (ip_residency p)" "\<not> active"
      and a': "a' = publish p (8 * permit_expert p) m (write_bank b off bytes a)" by blast
    have "system_inv (a', ts(t := None), ins(ip_flat_slot p := payload))"
      using install_system(1) [OF inv t view' r] R(1) by blast
    moreover have "qa_layer_index a' = layer" "qa_plan a' = plan" "qa_context_id a' = ctx"
      using D(1-3) unfolding a' by (simp_all add: publish_def Let_def arena_update_defs)
    ultimately have "arena_in ctx layer plan (ts(t := None)) a'" unfolding arena_in_def by blast
    moreover have "arena_view a' = (arena_view a)(permit_expert p \<mapsto> (ip_flat_slot p, OwnerResident (ip_residency p)))"
    proof -
      have "arena_view a' = arena_view (publish p (8 * permit_expert p) m a)"
        unfolding a' by (rule view_cong) (simp_all add: publish_def Let_def arena_update_defs)
      then show ?thesis using publish_view [OF D(4) v] by simp
    qed
    ultimately show ?thesis using R by blast
  next
    assume "\<exists>x. res = Inl x \<and> consistent_error x \<and> active \<and> a' = a"
    then show ?thesis using A by blast
  qed
qed

lemma owned_view:
  assumes wf: "arena_wf a" and i: "i < length (qa_slots a)" and own: "sl_owner (qa_slots a ! i) \<noteq> OwnerFree"
  shows "\<exists>e. arena_view a e = Some (i, sl_owner (qa_slots a ! i))"
proof -
  have "slot_inv a i" using wf i by (simp add: arena_wf_def)
  with own obtain k where "key_owns a k i"
    by (cases "sl_owner (qa_slots a ! i)") (auto simp: slot_inv_def Let_def)
  then show ?thesis by (auto simp: arena_view_def key_owns_def)
qed

text \<open>A full arena: when no slot is free, as many experts own a slot as there are slots.\<close>

lemma full_view:
  assumes wf: "arena_wf a" and full: "\<forall>s \<in> set (qa_slots a). sl_owner s \<noteq> OwnerFree"
  shows "length (qa_slots a) \<le> card {e. arena_view a e \<noteq> None}"
proof -
  have own: "\<exists>e. \<exists>ow. arena_view a e = Some (i, ow)" if i: "i < length (qa_slots a)" for i
    using owned_view [OF wf i] full i by fastforce
  define f where "f e = (case arena_view a e of Some (i, _) \<Rightarrow> i | None \<Rightarrow> 0)" for e
  have "finite {e. arena_view a e \<noteq> None}"
    by (rule finite_subset [of _ "{..<eg_num_experts (qa_geometry a)}"]) (auto simp: arena_view_def split: if_splits)
  moreover have "{..<length (qa_slots a)} \<subseteq> f ` {e. arena_view a e \<noteq> None}"
  proof
    fix i assume "i \<in> {..<length (qa_slots a)}"
    then obtain e ow where "arena_view a e = Some (i, ow)" using own by blast
    then show "i \<in> f ` {e. arena_view a e \<noteq> None}"
      by (intro image_eqI [of _ _ e]) (auto simp: f_def)
  qed
  ultimately have "card {..<length (qa_slots a)} \<le> card {e. arena_view a e \<noteq> None}"
    by (meson card_image_le card_mono finite_imageI le_trans)
  then show ?thesis by simp
qed

end
