(* ===== verification/ModelPlan.thy ===== *)
theory ModelPlan
  imports ArenaLayout
begin

section \<open>Expert namespace and model-wide VRAM plan\<close>

text \<open>
  Model of the planning half of \<open>gpu_native_residency.rs\<close>: the translation between global expert ids
  and (layer, local expert) pairs, and \<open>GpuNativeModelExpertVramPlan::try_new\<close>, which gives every
  layer the slots one token can select and then grows the cheapest layer, slot by slot, while the
  budget lasts.
\<close>

datatype tiered_error =
    InvalidModelLayerCount
  | InvalidExpertsPerLayer
  | ExpertNamespaceOverflow usize usize
  | GlobalExpertOutOfRange u32 usize u32
  | LayerOutOfRange usize usize
  | LocalExpertOutOfRange u32 u32
  | ModelBudgetOverflow
  | ModelBudgetTooSmall nat nat
  | DuplicateDemandExpert u32
  | DemandLayerMismatch usize u32 usize
  | DemandSetExceedsLayerCapacity usize usize
  | DemandSourceMissing u32
  | DemandSourceIdentityMismatch u32
  | LogicalAdmissionStale u32 u64
  | TieredInstallInProgress u32 u64
  | TieredNoPhysicalSlot usize
  | NoEvictablePhysicalSlot usize
  | StalePhysicalRequester u32 u64
  | PhysicalIdentityCorrupt u32
  | ResidencyPriorityMismatch
  | Backend bootstrap_error

fun to_tiered :: "bootstrap_error + 'a \<Rightarrow> tiered_error + 'a" where
  "to_tiered (Inl e) = Inl (Backend e)"
| "to_tiered (Inr a) = Inr a"

lemma to_tiered_iff [simp]: "to_tiered m = Inr a \<longleftrightarrow> m = Inr a" "to_tiered m = Inl t \<longleftrightarrow> (\<exists>e. m = Inl e \<and> t = Backend e)"
  by (cases m; auto)+

subsection \<open>Namespace\<close>

record layer_expert_id =
  li_layer_index :: usize
  li_local_expert_id :: u32

text \<open>The product is formed in \<open>u128\<close>, which it cannot overflow.\<close>

definition validate_namespace :: "usize \<Rightarrow> usize \<Rightarrow> tiered_error + unit" where
  "validate_namespace num_layers experts_per_layer =
     (if num_layers = 0 then Inl InvalidModelLayerCount
      else if experts_per_layer = 0 then Inl InvalidExpertsPerLayer
      else if num_layers * experts_per_layer > u32_MAX + 1
      then Inl (ExpertNamespaceOverflow num_layers experts_per_layer)
      else Inr ())"

definition global_to_layer_local :: "u32 \<Rightarrow> usize \<Rightarrow> u32 \<Rightarrow> tiered_error + layer_expert_id" where
  "global_to_layer_local global_id num_layers experts_per_layer =
     ebind (validate_namespace num_layers (unat experts_per_layer)) (\<lambda>_.
       let layer_index = unat (global_id div experts_per_layer) in
       if layer_index \<ge> num_layers
       then Inl (GlobalExpertOutOfRange global_id num_layers experts_per_layer)
       else Inr \<lparr>li_layer_index = layer_index, li_local_expert_id = global_id mod experts_per_layer\<rparr>)"

definition layer_local_to_global :: "usize \<Rightarrow> u32 \<Rightarrow> usize \<Rightarrow> u32 \<Rightarrow> tiered_error + u32" where
  "layer_local_to_global layer_index local_expert_id num_layers experts_per_layer =
     ebind (validate_namespace num_layers (unat experts_per_layer)) (\<lambda>_.
       if layer_index \<ge> num_layers then Inl (LayerOutOfRange layer_index num_layers)
       else if local_expert_id \<ge> experts_per_layer
       then Inl (LocalExpertOutOfRange local_expert_id experts_per_layer)
       else
         ebind (ok_or (ExpertNamespaceOverflow num_layers (unat experts_per_layer))
                  (Option.bind (checked_mul layer_index (unat experts_per_layer)) (\<lambda>base.
                   Option.bind (checked_add base (unat local_expert_id)) (\<lambda>gid.
                   if gid \<le> u32_MAX then Some gid else None))))
           (\<lambda>gid. Inr (of_nat gid)))"

text \<open>On an accepted namespace the two id translations are inverse to each other: a global id leads to
  a layer and a local id exactly when these lead back to it, every pair in range has a global id, and a
  global id is refused exactly when it is not below the number of layers times the experts per layer.\<close>

theorem namespace_roundtrip:
  assumes "validate_namespace n (unat w) = Inr ()"
  shows "(\<forall>x li. global_to_layer_local x n w = Inr li \<longleftrightarrow>
      layer_local_to_global (li_layer_index li) (li_local_expert_id li) n w = Inr x) \<and>
    (\<forall>l e. l < n \<and> e < w \<longrightarrow> (\<exists>x. layer_local_to_global l e n w = Inr x)) \<and>
    (\<forall>x. (\<exists>li. global_to_layer_local x n w = Inr li) \<longleftrightarrow> unat x < n * unat w)"
proof -
  let ?w = "unat w"
  have v: "0 < n" "0 < ?w" "n * ?w \<le> 2 ^ 32"
    using assms by (auto simp: validate_namespace_def u32_MAX_def split: if_splits)
  have dm: "unat (x div w) = unat x div ?w" "unat (x mod w) = unat x mod ?w" for x
    by (simp_all add: unat_div unat_mod)
  have below: "l * ?w + e < n * ?w" if "l < n" "e < ?w" for l e
  proof -
    have "l * ?w + e < Suc l * ?w" using that by simp
    also have "\<dots> \<le> n * ?w" using that by (intro mult_le_mono1) simp
    finally show ?thesis .
  qed
  have to_global: "layer_local_to_global l e n w = Inr x \<longleftrightarrow>
      l < n \<and> e < w \<and> x = of_nat (l * ?w + unat e)" for l e x
  proof (cases "l < n \<and> e < w")
    case True
    then have lt: "l * ?w + unat e < n * ?w" using below by (simp add: word_less_nat_alt)
    then have "l * ?w + unat e \<le> u32_MAX" "l * ?w \<le> usize_MAX" "l * ?w + unat e \<le> usize_MAX"
      using v(3) by (auto simp: u32_MAX_def usize_MAX_def)
    with True assms show ?thesis
      by (auto simp: layer_local_to_global_def checked_mul_def checked_add_def)
  next
    case False
    then show ?thesis using assms by (auto simp: layer_local_to_global_def)
  qed
  have to_local: "global_to_layer_local x n w = Inr li \<longleftrightarrow>
      unat x div ?w < n \<and> li = \<lparr>li_layer_index = unat x div ?w, li_local_expert_id = x mod w\<rparr>" for x li
    using assms by (auto simp: global_to_layer_local_def Let_def dm)
  have "global_to_layer_local x n w = Inr li \<longleftrightarrow>
      layer_local_to_global (li_layer_index li) (li_local_expert_id li) n w = Inr x" for x li
  proof
    assume "global_to_layer_local x n w = Inr li"
    then have li: "unat x div ?w < n" "li = \<lparr>li_layer_index = unat x div ?w, li_local_expert_id = x mod w\<rparr>"
      by (auto simp: to_local)
    have "x mod w < w" using v(2) by (simp add: word_less_nat_alt dm)
    moreover have "of_nat (unat x div ?w * ?w + unat (x mod w)) = x"
      by (simp only: dm div_mult_mod_eq) simp
    ultimately show "layer_local_to_global (li_layer_index li) (li_local_expert_id li) n w = Inr x"
      using li by (simp add: to_global)
  next
    assume "layer_local_to_global (li_layer_index li) (li_local_expert_id li) n w = Inr x"
    then have g: "li_layer_index li < n" "unat (li_local_expert_id li) < ?w"
      "x = of_nat (li_layer_index li * ?w + unat (li_local_expert_id li))"
      by (auto simp: to_global word_less_nat_alt)
    have "unat x = li_layer_index li * ?w + unat (li_local_expert_id li)"
      using below [OF g(1,2)] v(3) by (subst g(3), subst unat_of_nat) simp
    then have "unat x div ?w = li_layer_index li" "unat (x mod w) = unat (li_local_expert_id li)"
      using g(2) v(2) by (simp_all add: dm)
    moreover from this(2) have "x mod w = li_local_expert_id li" by (rule unsigned_word_eqI)
    ultimately show "global_to_layer_local x n w = Inr li"
      using g(1) by (simp add: to_local)
  qed
  moreover have "(\<exists>li. global_to_layer_local x n w = Inr li) \<longleftrightarrow> unat x < n * ?w" for x
    using v(2) by (simp add: to_local div_less_iff_less_mult)
  ultimately show ?thesis using to_global by blast
qed

theorem namespace_roundtrip_witness:
  "global_to_layer_local 300 4 128 = Inr \<lparr>li_layer_index = 2, li_local_expert_id = 44\<rparr> \<longleftrightarrow>
    layer_local_to_global 2 44 4 128 = Inr 300"
proof -
  have "validate_namespace 4 (unat (128 :: u32)) = Inr ()" by (simp add: validate_namespace_def u32_MAX_def)
  from namespace_roundtrip [OF this] show ?thesis by simp
qed

subsection \<open>The plan\<close>

abbreviation plan_slots :: "vram_plan \<Rightarrow> usize" where
  "plan_slots p \<equiv> al_slot_capacity (vp_layout p)"

abbreviation plan_bytes :: "vram_plan \<Rightarrow> nat" where
  "plan_bytes p \<equiv> vp_total_arena_allocation_bytes p"

record model_plan =
  mp_geometry :: expert_geometry
  mp_total_expert_budget_bytes :: nat
  mp_minimum_executable_budget_bytes :: nat
  mp_layer_plans :: "vram_plan list"
  mp_total_arena_allocation_bytes :: nat

text \<open>\<open>is_none_or\<close> of the lexicographic comparison of (increment, layer index).\<close>

definition better_growth :: "nat \<Rightarrow> usize \<Rightarrow> (nat \<times> usize \<times> vram_plan) option \<Rightarrow> bool" where
  "better_growth increment i best =
     (case best of
        None \<Rightarrow> True
      | Some (bi, bl, _) \<Rightarrow> increment < bi \<or> increment = bi \<and> i < bl)"

text \<open>The scan over the layers for the cheapest growth that fits, ties going to the first layer.\<close>

fun best_growth ::
    "expert_geometry \<Rightarrow> wgpu_limits \<Rightarrow> nat \<Rightarrow> usize \<Rightarrow> vram_plan list \<Rightarrow>
     (nat \<times> usize \<times> vram_plan) option \<Rightarrow> tiered_error + (nat \<times> usize \<times> vram_plan) option" where
  "best_growth g limits remaining i [] best = Inr best"
| "best_growth g limits remaining i (current # plans) best =
     (if plan_slots current \<ge> eg_num_experts g then best_growth g limits remaining (Suc i) plans best
      else
        ebind (to_tiered (try_for_slot_capacity g (plan_slots current + 1) limits)) (\<lambda>candidate.
        if plan_bytes candidate < plan_bytes current then Inl ModelBudgetOverflow
        else
          let increment = plan_bytes candidate - plan_bytes current in
          if increment > remaining then best_growth g limits remaining (Suc i) plans best
          else if better_growth increment i best
          then best_growth g limits remaining (Suc i) plans (Some (increment, i, candidate))
          else best_growth g limits remaining (Suc i) plans best))"

lemma try_for_slot_capacity_slots: "try_for_slot_capacity g c limits = Inr p \<Longrightarrow> plan_slots p = c"
  by (auto simp: try_for_slot_capacity_def plan_of_layout_def layout_try_new_def Let_def res_iff split: if_splits)

lemma best_growth_choice:
  assumes "best_growth g limits remaining i plans best = Inr (Some (inc, l, cand))"
    and "best \<noteq> Some (inc, l, cand)"
  shows "i \<le> l \<and> l - i < length plans \<and> plan_slots (plans ! (l - i)) < eg_num_experts g \<and>
    try_for_slot_capacity g (plan_slots (plans ! (l - i)) + 1) limits = Inr cand \<and>
    plan_bytes cand = plan_bytes (plans ! (l - i)) + inc \<and> inc \<le> remaining"
  using assms
proof (induction g limits remaining i plans best rule: best_growth.induct)
  case (2 g limits remaining i current plans best)
  let ?goal = "\<lambda>j xs. j \<le> l \<and> l - j < length xs \<and> plan_slots (xs ! (l - j)) < eg_num_experts g \<and>
    try_for_slot_capacity g (plan_slots (xs ! (l - j)) + 1) limits = Inr cand \<and>
    plan_bytes cand = plan_bytes (xs ! (l - j)) + inc \<and> inc \<le> remaining"
  have lift: "?goal (Suc i) plans \<Longrightarrow> ?goal i (current # plans)"
    by (auto simp: nth_Cons' Suc_diff_le)
  show ?case
  proof (cases "plan_slots current \<ge> eg_num_experts g")
    case True
    then show ?thesis using 2(1) 2(5,6) lift by simp
  next
    case False
    then obtain c where c: "try_for_slot_capacity g (plan_slots current + 1) limits = Inr c"
      "\<not> plan_bytes c < plan_bytes current"
      using 2(5) by (auto simp: res_iff split: if_splits)
    let ?inc = "plan_bytes c - plan_bytes current"
    show ?thesis
    proof (cases "?inc > remaining \<or> \<not> better_growth ?inc i best")
      case True
      then have "best_growth g limits remaining (Suc i) plans best = Inr (Some (inc, l, cand))"
        using 2(5) False c by (auto simp: Let_def split: if_splits)
      then show ?thesis using 2(2,4) 2(6) False c True lift by (cases "?inc > remaining") auto
    next
      case take: False
      then have next': "best_growth g limits remaining (Suc i) plans (Some (?inc, i, c)) = Inr (Some (inc, l, cand))"
        using 2(5) False c by (auto simp: Let_def)
      show ?thesis
      proof (cases "Some (?inc, i, c) = Some (inc, l, cand)")
        case True
        then show ?thesis using c False take by auto
      next
        case False
        then show ?thesis using 2(3) c next' take \<open>\<not> plan_slots current \<ge> eg_num_experts g\<close> lift by auto
      qed
    qed
  qed
qed simp

function grow_layers ::
    "expert_geometry \<Rightarrow> wgpu_limits \<Rightarrow> nat \<Rightarrow> vram_plan list \<Rightarrow> nat \<Rightarrow>
     tiered_error + vram_plan list \<times> nat" where
  "grow_layers g limits budget plans allocated =
     (case best_growth g limits (budget - allocated) 0 plans None of
        Inl e \<Rightarrow> Inl e
      | Inr None \<Rightarrow> Inr (plans, allocated)
      | Inr (Some (increment, l, candidate)) \<Rightarrow>
          (case checked_add allocated increment of
             None \<Rightarrow> Inl ModelBudgetOverflow
           | Some allocated' \<Rightarrow> grow_layers g limits budget (plans[l := candidate]) allocated'))"
  by pat_completeness auto
termination grow_layers
proof (relation "measure (\<lambda>(g, _, _, plans, _). sum_list (map (\<lambda>p. eg_num_experts g - plan_slots p) plans))")
  fix g limits budget plans allocated x2 x2a x y l candidate allocated'
  assume "best_growth g limits (budget - allocated) 0 plans None = Inr x2" "x2 = Some x2a"
    "(x, y) = x2a" "(l, candidate) = y"
  then have "l < length plans" "plan_slots (plans ! l) < eg_num_experts g"
    "try_for_slot_capacity g (plan_slots (plans ! l) + 1) limits = Inr candidate"
    using best_growth_choice [of g limits "budget - allocated" 0 plans None x l candidate] by auto
  then show "((g, limits, budget, plans[l := candidate], allocated'), g, limits, budget, plans, allocated)
      \<in> measure (\<lambda>(g, _, _, plans, _). sum_list (map (\<lambda>p. eg_num_experts g - plan_slots p) plans))"
    using try_for_slot_capacity_slots [of g "plan_slots (plans ! l) + 1" limits candidate]
      elem_le_sum_list [of l "map (\<lambda>p. eg_num_experts g - plan_slots p) plans"]
    by (simp add: map_update sum_list_update)
qed auto

declare grow_layers.simps [simp del]

definition model_plan_try_new ::
    "usize \<Rightarrow> expert_geometry \<Rightarrow> nat \<Rightarrow> wgpu_limits \<Rightarrow> tiered_error + model_plan" where
  "model_plan_try_new num_layers g budget limits =
     ebind (validate_namespace num_layers (eg_num_experts g)) (\<lambda>_.
     ebind (to_tiered (try_for_slot_capacity g (eg_top_k g) limits)) (\<lambda>minimum_layer.
     ebind (ok_or ModelBudgetOverflow (checked_mul (plan_bytes minimum_layer) num_layers)) (\<lambda>minimum.
     if budget < minimum then Inl (ModelBudgetTooSmall budget minimum)
     else
       ebind (grow_layers g limits budget (replicate num_layers minimum_layer) minimum)
         (\<lambda>(plans, allocated).
       Inr \<lparr>mp_geometry = g, mp_total_expert_budget_bytes = budget,
            mp_minimum_executable_budget_bytes = minimum, mp_layer_plans = plans,
            mp_total_arena_allocation_bytes = allocated\<rparr>))))"

subsection \<open>What a plan promises\<close>

abbreviation plan_exact :: "expert_geometry \<Rightarrow> wgpu_limits \<Rightarrow> vram_plan \<Rightarrow> bool" where
  "plan_exact g limits p \<equiv> try_for_slot_capacity g (plan_slots p) limits = Inr p"

lemma plan_exact_bytes:
  assumes "geometry_ok g" "try_for_slot_capacity g c limits = Inr p"
  shows "plan_bytes p = arena_bytes g c limits" "plan_slots p = c" "plan_exact g limits p"
    "c \<le> eg_num_experts g" "c \<le> 4 * maximum_bank_slots g limits" "0 < c"
  using plan_of_Inr [OF assms(1), of c limits "arena_bytes g c limits"]
    assms(2) try_for_slot_capacity_slots [OF assms(2)]
  by (auto simp: try_for_slot_capacity_eq [OF assms(1)])

lemma plan_bytes_mono:
  assumes "geometry_ok g" "try_for_slot_capacity g c limits = Inr p" "try_for_slot_capacity g c' limits = Inr q" "c \<le> c'"
  shows "plan_bytes p \<le> plan_bytes q"
proof -
  note B = plan_exact_bytes [OF assms(1,2)] plan_exact_bytes [OF assms(1,3)]
  have "0 < maximum_bank_slots g limits" using B(5,6) by linarith
  then have "c = c' \<or> arena_bytes g c limits < arena_bytes g c' limits"
    using arena_bytes_less [OF assms(1), of c c' limits] assms(4) by linarith
  then show ?thesis using B(1,7) by auto
qed

text \<open>The scan reports nothing exactly when no layer can grow within what remains.\<close>

lemma best_growth_Some: "best_growth g limits remaining i plans (Some b) \<noteq> Inr None"
proof (induction plans arbitrary: i b)
  case (Cons p plans)
  then show ?case
    by (cases "try_for_slot_capacity g (plan_slots p + 1) limits") (auto simp: Let_def)
qed simp

lemma best_growth_None:
  assumes "best_growth g limits remaining i plans None = Inr None"
    and "p \<in> set plans" "plan_slots p < eg_num_experts g"
  shows "\<exists>q. try_for_slot_capacity g (plan_slots p + 1) limits = Inr q \<and>
    plan_bytes p + remaining < plan_bytes q"
  using assms
proof (induction plans arbitrary: i)
  case (Cons r plans)
  show ?case
  proof (cases "plan_slots r \<ge> eg_num_experts g")
    case True
    then show ?thesis using Cons by auto
  next
    case False
    then obtain c where c: "try_for_slot_capacity g (plan_slots r + 1) limits = Inr c"
      "\<not> plan_bytes c < plan_bytes r"
      using Cons.prems(1) by (auto simp: res_iff split: if_splits)
    then have "remaining < plan_bytes c - plan_bytes r \<and>
        best_growth g limits remaining (Suc i) plans None = Inr None"
      using Cons.prems(1) False best_growth_Some
      by (auto simp: Let_def better_growth_def split: if_splits)
    then show ?thesis using Cons.IH [of "Suc i"] Cons.prems(2,3) c(1) by auto
  qed
qed simp

text \<open>The invariant of the loop: every layer has an exact plan, and the running total is their sum.\<close>

definition layers_ok :: "expert_geometry \<Rightarrow> wgpu_limits \<Rightarrow> nat \<Rightarrow> vram_plan list \<Rightarrow> nat \<Rightarrow> bool" where
  "layers_ok g limits budget plans allocated \<longleftrightarrow>
     (\<forall>p \<in> set plans. plan_exact g limits p \<and> eg_top_k g \<le> plan_slots p) \<and>
     allocated = sum_list (map plan_bytes plans) \<and> allocated \<le> budget"

lemma layers_ok_grow:
  assumes g: "geometry_ok g" and ok: "layers_ok g limits budget plans allocated"
    and best: "best_growth g limits (budget - allocated) 0 plans None = Inr (Some (inc, l, cand))"
  shows "l < length plans" "layers_ok g limits budget (plans[l := cand]) (allocated + inc)"
proof -
  have c: "l < length plans" "try_for_slot_capacity g (plan_slots (plans ! l) + 1) limits = Inr cand"
    "plan_bytes cand = plan_bytes (plans ! l) + inc" "inc \<le> budget - allocated"
    using best_growth_choice [OF best] by auto
  have "plan_bytes (plans ! l) \<le> sum_list (map plan_bytes plans)"
    using elem_le_sum_list [of l "map plan_bytes plans"] c(1) by simp
  then have "sum_list (map plan_bytes (plans[l := cand])) = allocated + inc"
    using c(1,3) ok by (simp add: map_update sum_list_update layers_ok_def)
  moreover have "plan_exact g limits cand" "eg_top_k g \<le> plan_slots cand"
    using plan_exact_bytes(2,3) [OF g c(2)] ok nth_mem [OF c(1)] by (auto simp: layers_ok_def intro: le_SucI)
  ultimately show "layers_ok g limits budget (plans[l := cand]) (allocated + inc)" "l < length plans"
    using ok c(1,4) set_update_subset_insert [of plans l cand] by (auto simp: layers_ok_def)
qed

lemma grow_layers_sound:
  assumes "geometry_ok g" "layers_ok g limits budget plans allocated"
    and "grow_layers g limits budget plans allocated = Inr (plans', allocated')"
  shows "layers_ok g limits budget plans' allocated' \<and> length plans' = length plans \<and>
    (\<forall>p \<in> set plans'. plan_slots p < eg_num_experts g \<longrightarrow>
       (\<exists>q. try_for_slot_capacity g (plan_slots p + 1) limits = Inr q \<and>
            budget < allocated' - plan_bytes p + plan_bytes q))"
  using assms
proof (induction g limits budget plans allocated rule: grow_layers.induct)
  case (1 g limits budget plans allocated)
  note ok = 1(3)
  from 1(4) obtain b where b: "best_growth g limits (budget - allocated) 0 plans None = Inr b"
    by (subst (asm) grow_layers.simps) (auto split: sum.splits)
  show ?case
  proof (cases b)
    case None
    then have eq: "plans' = plans" "allocated' = allocated"
      using 1(4) b by (simp_all add: grow_layers.simps [of g limits budget plans])
    have "budget < allocated - plan_bytes p + plan_bytes q"
      if "p \<in> set plans" "plan_bytes p + (budget - allocated) < plan_bytes q" for p q
      using that ok member_le_sum_list [of "plan_bytes p" "map plan_bytes plans"]
      by (auto simp: layers_ok_def)
    then show ?thesis using ok eq best_growth_None [OF b [unfolded None]] by blast
  next
    case (Some t)
    obtain inc l cand where t: "t = (inc, l, cand)" by (cases t)
    from 1(4) b Some t obtain a' where a: "checked_add allocated inc = Some a'"
      "grow_layers g limits budget (plans[l := cand]) a' = Inr (plans', allocated')"
      by (subst (asm) grow_layers.simps) (auto split: option.splits)
    then have "a' = allocated + inc" by (auto simp: checked_add_def split: if_splits)
    with layers_ok_grow [OF 1(2) ok] b Some t
    have "layers_ok g limits budget (plans[l := cand]) a'" by blast
    then show ?thesis using 1(1) [OF b Some] t a 1(2) by auto
  qed
qed

lemma model_plan_start:
  assumes "geometry_ok g" "try_for_slot_capacity g (eg_top_k g) limits = Inr q"
    and "plan_bytes q * n \<le> budget"
  shows "layers_ok g limits budget (replicate n q) (plan_bytes q * n)"
  using assms(3) plan_exact_bytes [OF assms(1,2)]
  by (auto simp: layers_ok_def sum_list_replicate mult.commute)

lemma model_plan_Inr:
  assumes "geometry_ok g" "model_plan_try_new n g budget limits = Inr p"
  shows "layers_ok g limits budget (mp_layer_plans p) (mp_total_arena_allocation_bytes p)"
    "length (mp_layer_plans p) = n"
    "\<forall>r \<in> set (mp_layer_plans p). plan_slots r < eg_num_experts g \<longrightarrow>
       (\<exists>q. try_for_slot_capacity g (plan_slots r + 1) limits = Inr q \<and>
            budget < mp_total_arena_allocation_bytes p - plan_bytes r + plan_bytes q)"
    "\<exists>q. try_for_slot_capacity g (eg_top_k g) limits = Inr q \<and>
       mp_minimum_executable_budget_bytes p = plan_bytes q * n"
proof -
  from assms(2) obtain q plans allocated where q: "try_for_slot_capacity g (eg_top_k g) limits = Inr q"
    "plan_bytes q * n \<le> budget"
    "grow_layers g limits budget (replicate n q) (plan_bytes q * n) = Inr (plans, allocated)"
    and p: "mp_layer_plans p = plans" "mp_total_arena_allocation_bytes p = allocated"
      "mp_minimum_executable_budget_bytes p = plan_bytes q * n"
    by (auto simp: model_plan_try_new_def res_iff checked_mul_def split: if_splits)
  from grow_layers_sound [OF assms(1) model_plan_start [OF assms(1) q(1,2)] q(3)]
  show "layers_ok g limits budget (mp_layer_plans p) (mp_total_arena_allocation_bytes p)"
    "length (mp_layer_plans p) = n"
    "\<forall>r \<in> set (mp_layer_plans p). plan_slots r < eg_num_experts g \<longrightarrow>
       (\<exists>q. try_for_slot_capacity g (plan_slots r + 1) limits = Inr q \<and>
            budget < mp_total_arena_allocation_bytes p - plan_bytes r + plan_bytes q)"
    by (simp_all add: p)
  show "\<exists>q. try_for_slot_capacity g (eg_top_k g) limits = Inr q \<and>
       mp_minimum_executable_budget_bytes p = plan_bytes q * n"
    using q(1) p(3) by blast
qed

text \<open>C12: a model-wide plan has one arena per layer, its total is the sum of theirs and stays within the
  budget; every layer holds the experts one token can select and is a plan its arena constructor
  recomputes unchanged from the layer's own byte total; and no layer can take one more slot without
  exceeding the budget.\<close>

theorem model_plan_sound:
  assumes "geometry_try_new dm df ne k = Inr g" and "model_plan_try_new n g budget limits = Inr p"
  shows "length (mp_layer_plans p) = n \<and>
    mp_total_arena_allocation_bytes p = sum_list (map vp_total_arena_allocation_bytes (mp_layer_plans p)) \<and>
    mp_minimum_executable_budget_bytes p \<le> mp_total_arena_allocation_bytes p \<and>
    mp_total_arena_allocation_bytes p \<le> budget \<and>
    (\<forall>r \<in> set (mp_layer_plans p).
       eg_top_k g \<le> al_slot_capacity (vp_layout r) \<and> al_slot_capacity (vp_layout r) \<le> eg_num_experts g \<and>
       plan_try_new g (vp_requested_expert_budget_bytes r) limits = Inr r \<and>
       (al_slot_capacity (vp_layout r) < eg_num_experts g \<longrightarrow>
         (\<exists>q. try_for_slot_capacity g (al_slot_capacity (vp_layout r) + 1) limits = Inr q \<and>
              budget < mp_total_arena_allocation_bytes p - vp_total_arena_allocation_bytes r +
                vp_total_arena_allocation_bytes q)))"
proof -
  have g: "geometry_ok g" using assms(1) geometry_try_new_ok by blast
  note P = model_plan_Inr [OF g assms(2)]
  from P(4) obtain q where q: "try_for_slot_capacity g (eg_top_k g) limits = Inr q"
    "mp_minimum_executable_budget_bytes p = plan_bytes q * n" by blast
  have ex: "plan_exact g limits r" "eg_top_k g \<le> plan_slots r" if "r \<in> set (mp_layer_plans p)" for r
    using P(1) that by (auto simp: layers_ok_def)
  have "plan_bytes q \<le> plan_bytes r" if "r \<in> set (mp_layer_plans p)" for r
    using plan_bytes_mono [OF g q(1) ex(1) [OF that]] ex(2) [OF that] by blast
  then have "sum_list (map (\<lambda>_. plan_bytes q) (mp_layer_plans p)) \<le> sum_list (map plan_bytes (mp_layer_plans p))"
    by (intro sum_list_mono)
  then have "mp_minimum_executable_budget_bytes p \<le> mp_total_arena_allocation_bytes p"
    using P(1,2) q(2) by (simp add: layers_ok_def sum_list_triv mult.commute)
  moreover have "plan_slots r \<le> eg_num_experts g" "plan_try_new g (vp_requested_expert_budget_bytes r) limits = Inr r"
    if "r \<in> set (mp_layer_plans p)" for r
    using plan_exact_bytes(4) [OF g ex(1) [OF that]] slot_plan_reconstructed [OF g ex(1) [OF that]] by auto
  ultimately show ?thesis using P(1-3) ex(2) by (auto simp: layers_ok_def)
qed

text \<open>The only way growth fails is a layer that already fills the four banks of the device.\<close>

lemma div_ceil_past_four: "0 < m \<Longrightarrow> div_ceil (Suc (4 * m)) m = 5"
  using div_ceil_le_iff [of m "Suc (4 * m)" 4] div_ceil_le_iff [of m "Suc (4 * m)" 5] by auto

lemma growth_candidate:
  assumes g: "geometry_ok g" and p: "plan_exact g limits p" and "plan_slots p < eg_num_experts g"
  shows "(plan_slots p < 4 * maximum_bank_slots g limits \<and>
      (\<exists>q. try_for_slot_capacity g (plan_slots p + 1) limits = Inr q \<and> plan_bytes p < plan_bytes q)) \<or>
    (plan_slots p = 4 * maximum_bank_slots g limits \<and>
      try_for_slot_capacity g (plan_slots p + 1) limits = Inl (ExpertArenaBankLimit 5 4))"
proof -
  let ?m = "maximum_bank_slots g limits"
  note P = plan_exact_bytes [OF g p]
  have m: "0 < ?m" using P(5,6) by linarith
  have v: "validate_q4_expert_pipeline_limits limits = Inr ()"
    using p by (simp add: try_for_slot_capacity_eq [OF g])
  show ?thesis
  proof (cases "plan_slots p < 4 * ?m")
    case True
    then obtain q where q: "plan_of g (arena_bytes g (plan_slots p + 1) limits) (plan_slots p + 1) limits = Inr q"
      using plan_of_Inr [OF g, of "plan_slots p + 1" limits] by (metis Suc_eq_plus1 Suc_leI)
    then have c: "try_for_slot_capacity g (plan_slots p + 1) limits = Inr q"
      using v True assms(3) by (simp add: try_for_slot_capacity_eq [OF g])
    moreover have "arena_bytes g (plan_slots p) limits < arena_bytes g (plan_slots p + 1) limits"
      using arena_bytes_less [OF g _ m] by simp
    ultimately show ?thesis using True P(1) plan_exact_bytes(1) [OF g c] by auto
  next
    case False
    then have "plan_slots p = 4 * ?m" using P(5) by simp
    then show ?thesis
      using v m assms(3) div_ceil_past_four [OF m]
      by (simp add: try_for_slot_capacity_def layout_try_new_eq [OF g] Let_def)
  qed
qed

lemma best_growth_Inl:
  assumes "geometry_ok g" "\<forall>p \<in> set plans. plan_exact g limits p"
    and "best_growth g limits remaining i plans best = Inl e"
  shows "e = Backend (ExpertArenaBankLimit 5 4) \<and> 4 * maximum_bank_slots g limits < eg_num_experts g"
  using assms(2,3)
proof (induction plans arbitrary: i best)
  case (Cons p plans)
  show ?case
  proof (cases "plan_slots p < eg_num_experts g")
    case True
    then show ?thesis
      using growth_candidate [OF assms(1), where p = p and limits = limits] Cons.prems Cons.IH
      by (auto simp: Let_def split: if_splits)
  next
    case False
    then show ?thesis using Cons by auto
  qed
qed simp

lemma grow_layers_Inl:
  assumes "geometry_ok g" "layers_ok g limits budget plans allocated" "budget \<le> usize_MAX"
    and "grow_layers g limits budget plans allocated = Inl e"
  shows "e = Backend (ExpertArenaBankLimit 5 4) \<and> 4 * maximum_bank_slots g limits < eg_num_experts g"
  using assms
proof (induction g limits budget plans allocated rule: grow_layers.induct)
  case (1 g limits budget plans allocated)
  show ?case
  proof (cases "best_growth g limits (budget - allocated) 0 plans None")
    case (Inl e')
    then have "e' = e" using 1(5) by (simp add: grow_layers.simps [of g limits budget plans])
    then show ?thesis using best_growth_Inl [OF 1(2) _ Inl] 1(3) by (simp add: layers_ok_def)
  next
    case (Inr b)
    show ?thesis
    proof (cases b)
      case None
      then show ?thesis using 1(5) Inr by (simp add: grow_layers.simps [of g limits budget plans])
    next
      case (Some t)
      obtain inc l cand where t: "t = (inc, l, cand)" by (cases t)
      have ok: "layers_ok g limits budget (plans[l := cand]) (allocated + inc)"
        using layers_ok_grow [OF 1(2,3)] Inr Some t by blast
      then have a: "checked_add allocated inc = Some (allocated + inc)"
        using 1(4) by (auto simp: layers_ok_def checked_add_def)
      then have "grow_layers g limits budget (plans[l := cand]) (allocated + inc) = Inl e"
        using 1(5) Inr Some t by (simp add: grow_layers.simps [of g limits budget plans allocated])
      then show ?thesis using 1(1) [OF Inr Some] t a ok 1(2,4) by auto
    qed
  qed
qed

lemma model_plan_Inr_small:
  assumes g: "geometry_ok g" and p: "model_plan_try_new n g budget limits = Inr p" and "0 < n"
    and less: "4 * maximum_bank_slots g limits < eg_num_experts g"
    and r: "try_for_slot_capacity g (4 * maximum_bank_slots g limits) limits = Inr r"
  shows "budget < plan_bytes r * n"
proof -
  let ?L = "mp_layer_plans p" and ?m = "maximum_bank_slots g limits"
  note P = model_plan_Inr [OF g p]
  have ex: "plan_exact g limits x" if "x \<in> set ?L" for x using P(1) that by (simp add: layers_ok_def)
  have le: "plan_bytes x \<le> plan_bytes r" "plan_slots x < eg_num_experts g" if "x \<in> set ?L" for x
    using plan_bytes_mono [OF g ex [OF that] r] plan_exact_bytes(5) [OF g ex [OF that]] less by auto
  have h: "?L ! 0 \<in> set ?L" using P(2) \<open>0 < n\<close> by (intro nth_mem) simp
  with P(3) le(2) obtain q where q: "try_for_slot_capacity g (plan_slots (?L ! 0) + 1) limits = Inr q"
    "budget < mp_total_arena_allocation_bytes p - plan_bytes (?L ! 0) + plan_bytes q" by blast
  have "plan_bytes q \<le> plan_bytes r"
    using plan_bytes_mono [OF g q(1) r] plan_exact_bytes(5) [OF g q(1)] by blast
  then have all: "x \<le> plan_bytes r" if "x \<in> set (map plan_bytes (?L[0 := q]))" for x
    using that le(1) set_update_subset_insert [of ?L 0 q] by auto
  have "mp_total_arena_allocation_bytes p - plan_bytes (?L ! 0) + plan_bytes q =
      sum_list (map plan_bytes (?L[0 := q]))"
    using P(1,2) \<open>0 < n\<close> elem_le_sum_list [of 0 "map plan_bytes ?L"]
    by (simp add: layers_ok_def map_update sum_list_update)
  also have "\<dots> \<le> sum_list (map (\<lambda>_. plan_bytes r) (map plan_bytes (?L[0 := q])))"
    using sum_list_mono [of "map plan_bytes (?L[0 := q])" "\<lambda>x. x" "\<lambda>_. plan_bytes r"] all by simp
  also have "\<dots> = plan_bytes r * n" using P(2) by (simp add: comp_def map_replicate_const sum_list_replicate mult.commute)
  finally show ?thesis using q(2) by simp
qed

lemma model_plan_outcome:
  assumes "geometry_ok g" "validate_namespace n (eg_num_experts g) = Inr ()"
    and "try_for_slot_capacity g (eg_top_k g) limits = Inr q"
    and "plan_bytes q * n \<le> budget" "budget \<le> usize_MAX"
    and "model_plan_try_new n g budget limits = Inl e"
  shows "e = Backend (ExpertArenaBankLimit 5 4) \<and> 4 * maximum_bank_slots g limits < eg_num_experts g"
proof -
  have "checked_mul (plan_bytes q) n = Some (plan_bytes q * n)"
    using assms(4,5) by (simp add: checked_mul_def)
  then have "grow_layers g limits budget (replicate n q) (plan_bytes q * n) = Inl e"
    using assms(2-6)
    by (cases "grow_layers g limits budget (replicate n q) (plan_bytes q * n)")
      (auto simp: model_plan_try_new_def split: prod.splits)
  then show ?thesis
    using grow_layers_Inl [OF assms(1) model_plan_start [OF assms(1,3,4)] assms(5)] by blast
qed


subsection \<open>Two devices\<close>

definition tight_limits :: wgpu_limits where
  "tight_limits = demo_limits\<lparr>max_buffer_size := 1732, max_storage_buffer_binding_size := 1732\<rparr>"

definition wide_geometry :: expert_geometry where
  "wide_geometry = demo_geometry\<lparr>eg_num_experts := 8\<rparr>"

lemma wide_geometry_eq: "geometry_try_new 32 32 8 2 = Inr wide_geometry"
  by (simp add: geometry_try_new_def router_geometry_try_new_def demo_geometry_def wide_geometry_def
      arena_consts checked_mul_def checked_add_def usize_MAX_def slot_stride_of_def)

lemma wide_geometry_ok: "geometry_ok wide_geometry"
  using geometry_try_new_ok [OF wide_geometry_eq] by blast

lemma tight_bank_slots: "maximum_bank_slots wide_geometry tight_limits = 1"
  by (simp add: maximum_bank_slots_def maximum_bank_bytes_def tight_limits_def wide_geometry_def
      demo_limits_def demo_geometry_def unat_slot_mask shader_addressable_bytes_def)

lemma tight_limits_valid: "validate_q4_expert_pipeline_limits tight_limits = Inr ()"
  by (simp add: validate_q4_expert_pipeline_limits_def tight_limits_def demo_limits_def
      EXPERT_REQUIRED_STORAGE_BUFFERS_def EXPERT_PUSH_CONSTANT_BYTES_def EXPERT_WORKGROUP_SIZE_def)

lemma slot_plan_exists:
  assumes "geometry_ok g" "validate_q4_expert_pipeline_limits limits = Inr ()"
    and "0 < c" "c \<le> eg_num_experts g" "c \<le> 4 * maximum_bank_slots g limits"
  obtains q where "try_for_slot_capacity g c limits = Inr q" "plan_bytes q = arena_bytes g c limits"
  using plan_of_Inr [OF assms(1,5), of "arena_bytes g c limits"] assms(2-5)
  unfolding try_for_slot_capacity_eq [OF assms(1)] by blast

theorem model_plan_sound_witness:
  "\<exists>p. model_plan_try_new 2 demo_geometry 9000 demo_limits = Inr p \<and> length (mp_layer_plans p) = 2 \<and>
     mp_total_arena_allocation_bytes p \<le> 9000"
proof -
  obtain q where q: "try_for_slot_capacity demo_geometry 2 demo_limits = Inr q" "plan_bytes q = 3508"
    using slot_plan_exists [OF demo_geometry_ok demo_limits_valid, of 2] demo_bank_slots
    by (auto simp: arena_bytes_def demo_geometry_def div_ceil_def)
  then obtain p where p: "model_plan_try_new 2 demo_geometry 9000 demo_limits = Inr p"
    using model_plan_outcome [OF demo_geometry_ok, of 2 demo_limits q 9000] demo_bank_slots
    by (cases "model_plan_try_new 2 demo_geometry 9000 demo_limits")
      (auto simp: validate_namespace_def demo_geometry_def u32_MAX_def usize_MAX_def)
  show ?thesis using p model_plan_sound [OF demo_geometry_eq p] by blast
qed


end
