(* ===== verification/LruSpec.thy ===== *)
theory LruSpec
  imports Prelude
begin

section \<open>The interface of the lru crate\<close>

text \<open>
  The expert caches keep their entries in an \<open>LruCache\<close> of the third-party crate \<open>lru\<close> 0.12.
  Its code is not part of the repository, so the cache models take its operations as a record
  \<open>lru_ops\<close> and the lemmas rest on the locale \<open>lru_cache\<close>, which states the crate's documented
  behaviour over \<open>lru_iter\<close> (most recently used first): \<open>get\<close> promotes a hit to the front,
  \<open>peek\<close> and \<open>iter\<close> leave the order alone, \<open>push\<close> returns the pair it replaced or, at capacity,
  the least recently used pair it evicted, \<open>put\<close> returns only a replaced value, \<open>pop\<close> removes
  one key and \<open>pop_lru\<close> the last one. \<open>lru_bound\<close> is the capacity given to \<open>new\<close>, absent for
  \<open>unbounded\<close>, and \<open>lru_valid\<close> names the values that are caches. The list model at the end
  satisfies the locale and serves the witnesses.
\<close>

record ('c, 'v) lru_ops =
  lru_new :: "usize \<Rightarrow> 'c"
  lru_unbounded :: 'c
  lru_valid :: "'c \<Rightarrow> bool"
  lru_bound :: "'c \<Rightarrow> usize option"
  lru_iter :: "'c \<Rightarrow> (u32 \<times> 'v) list"
  lru_len :: "'c \<Rightarrow> usize"
  lru_peek :: "'c \<Rightarrow> u32 \<Rightarrow> 'v option"
  lru_get :: "'c \<Rightarrow> u32 \<Rightarrow> 'v option \<times> 'c"
  lru_push :: "'c \<Rightarrow> u32 \<Rightarrow> 'v \<Rightarrow> (u32 \<times> 'v) option \<times> 'c"
  lru_put :: "'c \<Rightarrow> u32 \<Rightarrow> 'v \<Rightarrow> 'v option \<times> 'c"
  lru_pop :: "'c \<Rightarrow> u32 \<Rightarrow> 'v option \<times> 'c"
  lru_pop_lru :: "'c \<Rightarrow> (u32 \<times> 'v) option \<times> 'c"

definition del_key :: "u32 \<Rightarrow> (u32 \<times> 'v) list \<Rightarrow> (u32 \<times> 'v) list" where
  "del_key k es = filter (\<lambda>e. fst e \<noteq> k) es"

definition touch :: "u32 \<Rightarrow> (u32 \<times> 'v) list \<Rightarrow> (u32 \<times> 'v) list" where
  "touch k es = (case map_of es k of None \<Rightarrow> es | Some v \<Rightarrow> (k, v) # del_key k es)"

definition full :: "usize option \<Rightarrow> (u32 \<times> 'v) list \<Rightarrow> bool" where
  "full b es = (case b of None \<Rightarrow> False | Some n \<Rightarrow> n \<le> length es)"

definition push_entries :: "usize option \<Rightarrow> (u32 \<times> 'v) list \<Rightarrow> u32 \<Rightarrow> 'v \<Rightarrow> (u32 \<times> 'v) list" where
  "push_entries b es k v =
     (if map_of es k \<noteq> None then (k, v) # del_key k es
      else if full b es then (k, v) # butlast es
      else (k, v) # es)"

definition push_result :: "usize option \<Rightarrow> (u32 \<times> 'v) list \<Rightarrow> u32 \<Rightarrow> (u32 \<times> 'v) option" where
  "push_result b es k =
     (case map_of es k of
        Some old \<Rightarrow> Some (k, old)
      | None \<Rightarrow> if full b es then Some (last es) else None)"

subsection \<open>Entry lists\<close>

lemma map_of_del_key [simp]: "map_of (del_key k es) x = (if x = k then None else map_of es x)"
  by (induction es) (auto simp: del_key_def)

lemma set_del_key: "set (del_key k es) = {e \<in> set es. fst e \<noteq> k}"
  by (auto simp: del_key_def)

lemma fst_del_key: "fst ` set (del_key k es) = fst ` set es - {k}"
  by (auto simp: del_key_def)

lemma distinct_del_key: "distinct (map fst es) \<Longrightarrow> distinct (map fst (del_key k es))"
  by (induction es) (auto simp: del_key_def)

lemma del_key_simps [simp]:
  "del_key k [] = []"
  "del_key k (e # es) = (if fst e = k then del_key k es else e # del_key k es)"
  by (simp_all add: del_key_def)

lemma del_key_absent: "k \<notin> fst ` set es \<Longrightarrow> del_key k es = es"
  by (induction es) auto

lemma length_del_key:
  "distinct (map fst es) \<Longrightarrow> map_of es k = Some v \<Longrightarrow> Suc (length (del_key k es)) = length es"
  by (induction es) (auto simp: del_key_absent split: if_splits)

lemma length_del_key_le: "length (del_key k es) \<le> length es"
  by (simp add: del_key_def)

lemma distinct_keys_butlast: "distinct (map fst es) \<Longrightarrow> distinct (map fst (butlast es))"
  by (simp add: map_butlast distinct_butlast)

lemma fst_touch: "fst ` set (touch k es) = fst ` set es"
  by (auto simp: touch_def set_del_key dest!: map_of_SomeD split: option.splits) (force+)

lemma map_of_touch [simp]: "map_of (touch k es) = map_of es"
  by (auto simp: touch_def fun_eq_iff split: option.splits)

lemma length_touch: "distinct (map fst es) \<Longrightarrow> length (touch k es) = length es"
  by (auto simp: touch_def length_del_key split: option.splits)

lemma distinct_touch: "distinct (map fst es) \<Longrightarrow> distinct (map fst (touch k es))"
  by (auto simp: touch_def distinct_del_key fst_del_key split: option.splits)

text \<open>The sum over a key-distinct entry list splits off the entry of a key.\<close>

lemma sum_del_key:
  fixes f :: "'v \<Rightarrow> nat"
  assumes "distinct (map fst es)" "map_of es k = Some v"
  shows "sum_list (map (f \<circ> snd) es) = f v + sum_list (map (f \<circ> snd) (del_key k es))"
  using assms
  by (induction es) (auto simp: del_key_absent split: if_splits)

subsection \<open>The contract\<close>

locale lru_cache =
  fixes L :: "('c, 'v) lru_ops"
  assumes new_cache: "0 < n \<Longrightarrow>
      lru_valid L (lru_new L n) \<and> lru_iter L (lru_new L n) = [] \<and> lru_bound L (lru_new L n) = Some n"
    and unbounded_cache:
      "lru_valid L (lru_unbounded L) \<and> lru_iter L (lru_unbounded L) = [] \<and> lru_bound L (lru_unbounded L) = None"
    and valid_entries: "lru_valid L c \<Longrightarrow> distinct (map fst (lru_iter L c)) \<and>
      (\<forall>n. lru_bound L c = Some n \<longrightarrow> length (lru_iter L c) \<le> n)"
    and len_entries: "lru_valid L c \<Longrightarrow> lru_len L c = length (lru_iter L c)"
    and peek_entry: "lru_valid L c \<Longrightarrow> lru_peek L c k = map_of (lru_iter L c) k"
    and get_entry: "lru_valid L c \<Longrightarrow> lru_get L c k = (r, c') \<Longrightarrow>
      r = map_of (lru_iter L c) k \<and> lru_valid L c' \<and> lru_bound L c' = lru_bound L c \<and>
      lru_iter L c' = touch k (lru_iter L c)"
    and push_entry: "lru_valid L c \<Longrightarrow> lru_push L c k v = (r2, c') \<Longrightarrow>
      r2 = push_result (lru_bound L c) (lru_iter L c) k \<and> lru_valid L c' \<and>
      lru_bound L c' = lru_bound L c \<and>
      lru_iter L c' = push_entries (lru_bound L c) (lru_iter L c) k v"
    and put_entry: "lru_valid L c \<Longrightarrow> lru_put L c k v = (r, c') \<Longrightarrow>
      r = map_of (lru_iter L c) k \<and> lru_valid L c' \<and> lru_bound L c' = lru_bound L c \<and>
      lru_iter L c' = push_entries (lru_bound L c) (lru_iter L c) k v"
    and pop_entry: "lru_valid L c \<Longrightarrow> lru_pop L c k = (r, c') \<Longrightarrow>
      r = map_of (lru_iter L c) k \<and> lru_valid L c' \<and> lru_bound L c' = lru_bound L c \<and>
      lru_iter L c' = del_key k (lru_iter L c)"
    and pop_lru_entry: "lru_valid L c \<Longrightarrow> lru_pop_lru L c = (r2, c') \<Longrightarrow>
      r2 = (if lru_iter L c = [] then None else Some (last (lru_iter L c))) \<and> lru_valid L c' \<and>
      lru_bound L c' = lru_bound L c \<and> lru_iter L c' = butlast (lru_iter L c)"
begin

lemma keys_distinct: "lru_valid L c \<Longrightarrow> distinct (map fst (lru_iter L c))"
  using valid_entries by blast

lemma within_bound: "lru_valid L c \<Longrightarrow> lru_bound L c = Some n \<Longrightarrow> length (lru_iter L c) \<le> n"
  using valid_entries by blast

lemma mem_iff_peek: "lru_valid L c \<Longrightarrow> (k, v) \<in> set (lru_iter L c) \<longleftrightarrow> lru_peek L c k = Some v"
  using keys_distinct by (simp add: peek_entry)

text \<open>Inserting a new key below the bound evicts nothing.\<close>

lemma push_room:
  assumes "lru_valid L c" "lru_peek L c k = None" "lru_bound L c = Some n" "length (lru_iter L c) < n"
    and "lru_push L c k v = (r, c')"
  shows "r = None \<and> lru_valid L c' \<and> lru_bound L c' = Some n \<and> lru_iter L c' = (k, v) # lru_iter L c"
  using assms push_entry [OF assms(1,5)]
  by (simp add: peek_entry push_result_def push_entries_def full_def)

lemma put_unbounded:
  assumes "lru_valid L c" "lru_peek L c k = None" "lru_bound L c = None" "lru_put L c k v = (r, c')"
  shows "r = None \<and> lru_valid L c' \<and> lru_bound L c' = None \<and> lru_iter L c' = (k, v) # lru_iter L c"
  using assms put_entry [OF assms(1,4)]
  by (simp add: peek_entry push_entries_def full_def)

lemma pop_some:
  assumes "lru_valid L c" "(k, v) \<in> set (lru_iter L c)" "lru_pop L c k = (r, c')"
  shows "r = Some v"
  using assms pop_entry [OF assms(1,3)] keys_distinct by simp

end

subsection \<open>A list model of the contract\<close>

type_synonym 'v list_lru = "usize option \<times> (u32 \<times> 'v) list"

definition list_lru :: "('v list_lru, 'v) lru_ops" where
  "list_lru = \<lparr>
     lru_new = (\<lambda>n. (Some n, [])),
     lru_unbounded = (None, []),
     lru_valid = (\<lambda>(b, es). distinct (map fst es) \<and>
       (case b of None \<Rightarrow> True | Some n \<Rightarrow> 0 < n \<and> length es \<le> n)),
     lru_bound = fst,
     lru_iter = snd,
     lru_len = (\<lambda>(b, es). length es),
     lru_peek = (\<lambda>(b, es) k. map_of es k),
     lru_get = (\<lambda>(b, es) k. (map_of es k, (b, touch k es))),
     lru_push = (\<lambda>(b, es) k v. (push_result b es k, (b, push_entries b es k v))),
     lru_put = (\<lambda>(b, es) k v. (map_of es k, (b, push_entries b es k v))),
     lru_pop = (\<lambda>(b, es) k. (map_of es k, (b, del_key k es))),
     lru_pop_lru = (\<lambda>(b, es). (if es = [] then None else Some (last es), (b, butlast es)))\<rparr>"

lemma distinct_push_entries:
  "distinct (map fst es) \<Longrightarrow> distinct (map fst (push_entries b es k v))"
  by (auto simp: push_entries_def distinct_del_key fst_del_key map_of_eq_None_iff
      distinct_keys_butlast dest: in_set_butlastD)

lemma length_push_entries:
  assumes "distinct (map fst es)" "length es \<le> n" "0 < n"
  shows "length (push_entries (Some n) es k v) \<le> n"
  using assms length_del_key [OF assms(1)]
  by (auto simp: push_entries_def full_def)

interpretation list_lru: lru_cache list_lru
  by unfold_locales
    (auto simp: list_lru_def distinct_touch length_touch distinct_push_entries length_push_entries
      distinct_del_key distinct_keys_butlast split: option.splits
      intro: order_trans [OF length_del_key_le])

end
