(* ===== verification/NativeResidency.thy ===== *)
theory NativeResidency
  imports ArenaView ModelPlan LruSpec
begin

section \<open>The tiered residency manager\<close>

text \<open>
  Model of \<open>GpuNativeTieredResidencyManager\<close> of \<open>gpu_native_residency.rs\<close>: per layer the arena of
  \<open>ExpertArena\<close> and, under the layer's lock, an LRU cache of the physical records the manager has
  installed. A demand set is resolved against the records, room is made by retiring the oldest records
  outside the set, and the missing experts are installed, by the concurrent reserve, stage and commit
  transaction or one after the other.

  Every method is one transition of the manager: the calls that matter hold the layer's lock from the
  first lookup to the last publication. What other threads and the device decide is read from \<open>env\<close> at
  the tick of a clock that every reading advances: whether the logical GPU cache still holds a
  generation, whether the device is lost, which staging memory the queue hands out, and whether a
  speculative caller gets the lock. The staging tasks of one transaction write disjoint slots and their
  results keep request order, so they are run in that order. Timers, the qualification observer and the
  install telemetry of the executor are left out, as is the fused source upload.
\<close>

subsection \<open>Surroundings\<close>

record env =
  en_gpu_backend :: bool
  en_device_loss :: "nat \<Rightarrow> string option"
  en_contains_generation :: "nat \<Rightarrow> u32 \<Rightarrow> u64 \<Rightarrow> bool"
  en_staging_view :: "nat \<Rightarrow> u8 list option"
  en_try_lock :: "nat \<Rightarrow> bool"

record tiered_counters =
  tc_vram_hits :: u64
  tc_vram_misses :: u64
  tc_physical_current_hits :: u64
  tc_ram_to_vram_installs :: u64
  tc_physical_evictions :: u64
  tc_physical_reinstalls :: u64
  tc_stale_generation_rejections :: u64
  tc_demand_requests :: u64
  tc_speculative_requests :: u64
  tc_speculative_vram_hits :: u64
  tc_speculative_ram_to_vram_installs :: u64
  tc_speculative_dropped :: u64

record tier_log =
  tl_counters :: tiered_counters
  tl_clock :: nat

definition count_log :: "(tiered_counters \<Rightarrow> tiered_counters) \<Rightarrow> tier_log \<Rightarrow> tier_log" where
  "count_log f lg = lg\<lparr>tl_counters := f (tl_counters lg)\<rparr>"

definition tick_log :: "tier_log \<Rightarrow> tier_log" where
  "tick_log lg = lg\<lparr>tl_clock := Suc (tl_clock lg)\<rparr>"

definition authoritative_gpu :: "env \<Rightarrow> nat \<Rightarrow> bootstrap_error + unit" where
  "authoritative_gpu env n =
     (if \<not> en_gpu_backend env then Inl GpuBackendUnavailable
      else case en_device_loss env n of
             Some detail \<Rightarrow> Inl (DeviceLost detail)
           | None \<Rightarrow> Inr ())"

subsection \<open>State\<close>

record physical_record =
  ph_key :: q4_key
  ph_residency :: q4_residency

record 'c layer_residency =
  lr_arena :: q4_arena
  lr_residents :: 'c
  lr_last_installed_generations :: "u32 \<rightharpoonup> u64"
  lr_physical_evictions :: nat

text \<open>A layer under its lock, with the counters and the clock of the manager.\<close>

record 'c locked = "'c layer_residency" +
  lk_log :: tier_log

record manager_ctx =
  mc_context_id :: u64
  mc_limits :: wgpu_limits
  mc_plan :: model_plan

record 'c manager =
  tm_ctx :: manager_ctx
  tm_layers :: "'c layer_residency list"
  tm_log :: tier_log

abbreviation lr_capacity :: "('c, 'x) layer_residency_scheme \<Rightarrow> usize" where
  "lr_capacity s \<equiv> al_slot_capacity (vp_layout (qa_plan (lr_arena s)))"

definition identity :: "manager_ctx \<Rightarrow> u32 \<Rightarrow> tiered_error + layer_expert_id" where
  "identity mc global_id =
     global_to_layer_local global_id (length (mp_layer_plans (mc_plan mc)))
       (of_nat (eg_num_experts (mp_geometry (mc_plan mc))))"

definition global_to_q4_expert_key :: "manager_ctx \<Rightarrow> u32 \<Rightarrow> u64 \<Rightarrow> tiered_error + q4_key" where
  "global_to_q4_expert_key mc global_id generation =
     ebind (identity mc global_id) (\<lambda>li.
     Inr \<lparr>qk_layer_index = li_layer_index li, qk_expert_id = li_local_expert_id li,
          qk_logical_generation = generation\<rparr>)"

text \<open>What a demand carries: the RAM resident with its bytes and the logical admission.\<close>

record install_source =
  src_resident_id :: u32
  src_data :: "u8 list"
  src_admission_id :: u32
  src_generation :: u64

datatype demand_expert = Current u32 | Install u32 install_source

fun demand_global_id :: "demand_expert \<Rightarrow> u32" where
  "demand_global_id (Current g) = g"
| "demand_global_id (Install g _) = g"

datatype residency_priority = Demand | OracleSafeBoundary | Speculative

datatype install_path =
    ProductionConcurrentDirectStaging
  | QualificationConcurrentDirectStagingFullZero
  | QualificationConcurrentDirectStagingNoZeroFill
  | SequentialDirectStagingControl
  | LegacyFullSlotVecControl

definition concurrent_path :: "install_path \<Rightarrow> bool" where
  "concurrent_path path = (case path of
     SequentialDirectStagingControl \<Rightarrow> False | LegacyFullSlotVecControl \<Rightarrow> False | _ \<Rightarrow> True)"

subsection \<open>Calls of the executor\<close>

text \<open>Threading the state through a computation that may fail.\<close>

fun tbind :: "('e + 'a) \<times> 's \<Rightarrow> ('a \<Rightarrow> 's \<Rightarrow> ('e + 'b) \<times> 's) \<Rightarrow> ('e + 'b) \<times> 's" where
  "tbind (Inl e, s) f = (Inl e, s)"
| "tbind (Inr a, s) f = f a s"

definition backend :: "(bootstrap_error + 'a) \<times> 's \<Rightarrow> (tiered_error + 'a) \<times> 's" where
  "backend r = (to_tiered (fst r), snd r)"

definition on_log :: "(tier_log \<Rightarrow> tier_log) \<Rightarrow> 'c locked \<Rightarrow> 'c locked" where
  "on_log f s = s\<lparr>lk_log := f (lk_log s)\<rparr>"

abbreviation clock :: "'c locked \<Rightarrow> nat" where
  "clock s \<equiv> tl_clock (lk_log s)"

definition tick :: "'c locked \<Rightarrow> 'c locked" where
  "tick s = on_log tick_log s"

definition bump_counter :: "(tiered_counters \<Rightarrow> tiered_counters) \<Rightarrow> 'c locked \<Rightarrow> 'c locked" where
  "bump_counter f s = on_log (count_log f) s"

definition drop_permit :: "install_permit \<Rightarrow> 'c locked \<Rightarrow> 'c locked" where
  "drop_permit p s = s\<lparr>lr_arena := permit_drop p (lr_arena s)\<rparr>"

definition acquire_q4_expert_residency ::
    "env \<Rightarrow> manager_ctx \<Rightarrow> q4_key \<Rightarrow> 'c locked \<Rightarrow> (bootstrap_error + q4_acquire) \<times> 'c locked" where
  "acquire_q4_expert_residency env mc key s =
     (case ebind (authoritative_gpu env (clock s))
             (\<lambda>_. validate_q4_expert_arena (mc_context_id mc) (lr_arena s) (mc_limits mc)) of
        Inl e \<Rightarrow> (Inl e, tick s)
      | Inr _ \<Rightarrow>
          (case acquire_with_unpublish key (lr_arena s) of
             (res, a) \<Rightarrow> (res, (tick s)\<lparr>lr_arena := a\<rparr>)))"

definition retire_q4_expert_residency ::
    "env \<Rightarrow> manager_ctx \<Rightarrow> q4_key \<Rightarrow> 'c locked \<Rightarrow> (bootstrap_error + q4_retire) \<times> 'c locked" where
  "retire_q4_expert_residency env mc key s =
     (case ebind (authoritative_gpu env (clock s))
             (\<lambda>_. validate_q4_expert_arena (mc_context_id mc) (lr_arena s) (mc_limits mc)) of
        Inl e \<Rightarrow> (Inl e, tick s)
      | Inr _ \<Rightarrow>
          (case retire_with_unpublish key (lr_arena s) of
             (res, a) \<Rightarrow> (res, (tick s)\<lparr>lr_arena := a\<rparr>)))"

text \<open>The calls that take a permit over drop it when they fail.\<close>

definition stage_q4_expert_residency ::
    "env \<Rightarrow> manager_ctx \<Rightarrow> bool \<Rightarrow> install_permit \<Rightarrow> u8 list \<Rightarrow> 'c locked \<Rightarrow>
     (bootstrap_error + prepared_install) \<times> 'c locked" where
  "stage_q4_expert_residency env mc no_zero_fill p payload s =
     (case authoritative_gpu env (clock s) of
        Inl e \<Rightarrow> (Inl e, drop_permit p (tick s))
      | Inr _ \<Rightarrow>
          if qa_context_id (lr_arena s) \<noteq> mc_context_id mc
          then (Inl ForeignExpertArena, drop_permit p (tick s))
          else
            (case stage_check p payload (lr_arena s) of
               (Inl e, a) \<Rightarrow> (Inl e, drop_permit p ((tick s)\<lparr>lr_arena := a\<rparr>))
             | (Inr (checked, offset, prepared), a) \<Rightarrow>
                 (case stage_write no_zero_fill (en_staging_view env (Suc (clock s)))
                         (el_bank (qr_location (ip_residency p))) offset checked a of
                    (Inl e, a') \<Rightarrow> (Inl e, drop_permit p ((tick (tick s))\<lparr>lr_arena := a'\<rparr>))
                  | (Inr _, a') \<Rightarrow> (Inr prepared, (tick (tick s))\<lparr>lr_arena := a'\<rparr>))))"

definition commit_q4_expert_residency ::
    "env \<Rightarrow> manager_ctx \<Rightarrow> prepared_install \<Rightarrow> 'c locked \<Rightarrow>
     (bootstrap_error + q4_residency) \<times> 'c locked" where
  "commit_q4_expert_residency env mc pr s =
     (case authoritative_gpu env (clock s) of
        Inl e \<Rightarrow> (Inl e, drop_permit (pi_permit pr) (tick s))
      | Inr _ \<Rightarrow>
          if qa_context_id (lr_arena s) \<noteq> mc_context_id mc
          then (Inl ForeignExpertArena, drop_permit (pi_permit pr) (tick s))
          else
            (case commit_with_mapping_writer pr (lr_arena s) of
               (Inl e, a) \<Rightarrow> (Inl e, drop_permit (pi_permit pr) ((tick s)\<lparr>lr_arena := a\<rparr>))
             | (Inr r, a) \<Rightarrow> (Inr r, (tick s)\<lparr>lr_arena := a\<rparr>)))"

text \<open>The two installs in one call: sequential direct staging and the full-slot vector.\<close>

definition install_q4_expert_residency ::
    "env \<Rightarrow> manager_ctx \<Rightarrow> install_path \<Rightarrow> install_permit \<Rightarrow> u8 list \<Rightarrow> 'c locked \<Rightarrow>
     (bootstrap_error + q4_residency) \<times> 'c locked" where
  "install_q4_expert_residency env mc path p payload s =
     (case authoritative_gpu env (clock s) of
        Inl e \<Rightarrow> (Inl e, drop_permit p (tick s))
      | Inr _ \<Rightarrow>
          if qa_context_id (lr_arena s) \<noteq> mc_context_id mc
          then (Inl ForeignExpertArena, drop_permit p (tick s))
          else
            (case (if path = LegacyFullSlotVecControl then install_with_writes payload p (lr_arena s)
                   else install_sequential (en_staging_view env (Suc (clock s))) payload p (lr_arena s)) of
               (Inl e, active, a) \<Rightarrow>
                 (let s' = (tick (tick s))\<lparr>lr_arena := a\<rparr> in
                  (Inl e, if active then drop_permit p s' else s'))
             | (Inr r, _, a) \<Rightarrow> (Inr r, (tick (tick s))\<lparr>lr_arena := a\<rparr>)))"

definition contains_generation_now :: "env \<Rightarrow> u32 \<Rightarrow> u64 \<Rightarrow> tier_log \<Rightarrow> bool \<times> tier_log" where
  "contains_generation_now env global_id generation lg =
     (en_contains_generation env (tl_clock lg) global_id generation, tick_log lg)"

definition validate_source ::
    "env \<Rightarrow> u32 \<Rightarrow> install_source \<Rightarrow> tier_log \<Rightarrow> (tiered_error + unit) \<times> tier_log" where
  "validate_source env global_id src lg =
     (if src_resident_id src \<noteq> global_id \<or> src_admission_id src \<noteq> global_id
      then (Inl (DemandSourceIdentityMismatch global_id), lg)
      else
        (case contains_generation_now env global_id (src_generation src) lg of
           (False, lg) \<Rightarrow>
             (Inl (LogicalAdmissionStale global_id (src_generation src)),
              count_log (\<lambda>c. c\<lparr>tc_stale_generation_rejections := tc_stale_generation_rejections c + 1\<rparr>) lg)
         | (True, lg) \<Rightarrow> (Inr (), lg)))"


subsection \<open>Records of a layer\<close>

definition current_record_locked ::
    "('c, physical_record) lru_ops \<Rightarrow> manager_ctx \<Rightarrow> u32 \<Rightarrow> bool \<Rightarrow> 'c locked \<Rightarrow>
     (tiered_error + physical_record option) \<times> 'c locked" where
  "current_record_locked L mc global_id to_front s =
     (case lru_peek L (lr_residents s) global_id of
        None \<Rightarrow> (Inr None, s)
      | Some r \<Rightarrow>
          (case identity mc global_id of
             Inl e \<Rightarrow> (Inl e, s)
           | Inr li \<Rightarrow>
               if qk_layer_index (ph_key r) \<noteq> li_layer_index li \<or>
                  qk_expert_id (ph_key r) \<noteq> li_local_expert_id li \<or>
                  qr_key (ph_residency r) \<noteq> ph_key r \<or>
                  qa_layer_index (lr_arena s) \<noteq> li_layer_index li \<or>
                  \<not> contains_exact_residency (mc_context_id mc) (ph_residency r) (lr_arena s)
               then (Inl (PhysicalIdentityCorrupt global_id), s)
               else if to_front
               then (case lru_get L (lr_residents s) global_id of
                       (r', c) \<Rightarrow> (Inr r', s\<lparr>lr_residents := c\<rparr>))
               else (Inr (Some r), s)))"

definition retire_metadata_record_locked ::
    "('c, physical_record) lru_ops \<Rightarrow> env \<Rightarrow> manager_ctx \<Rightarrow> u32 \<Rightarrow> bool \<Rightarrow> 'c locked \<Rightarrow>
     (tiered_error + unit) \<times> 'c locked" where
  "retire_metadata_record_locked L env mc global_id capacity_eviction s =
     (case lru_peek L (lr_residents s) global_id of
        None \<Rightarrow> (Inr (), s)
      | Some r \<Rightarrow>
          tbind (backend (retire_q4_expert_residency env mc (ph_key r) s)) (\<lambda>_ s.
            let s = s\<lparr>lr_residents := snd (lru_pop L (lr_residents s) global_id)\<rparr> in
            (Inr (),
             if capacity_eviction
             then bump_counter (\<lambda>c. c\<lparr>tc_physical_evictions := tc_physical_evictions c + 1\<rparr>)
                    (s\<lparr>lr_physical_evictions := saturating_add (lr_physical_evictions s) 1\<rparr>)
             else s)))"

definition oldest_unprotected :: "('c, 'v) lru_ops \<Rightarrow> 'c \<Rightarrow> u32 set \<Rightarrow> u32 option" where
  "oldest_unprotected L c protected =
     map_option fst (find (\<lambda>(g, _). g \<notin> protected) (rev (lru_iter L c)))"

text \<open>Recording an installed expert: the generation it was installed at, and its record at the front.\<close>

definition record_install ::
    "('c, physical_record) lru_ops \<Rightarrow> u32 \<Rightarrow> q4_key \<Rightarrow> q4_residency \<Rightarrow> bool \<Rightarrow> bool \<Rightarrow>
     'c locked \<Rightarrow> 'c locked" where
  "record_install L global_id key residency installed speculative s =
     (let generation = qk_logical_generation key;
          reinstall = (installed \<and> lr_last_installed_generations s global_id = Some generation);
          s = (if installed
               then s\<lparr>lr_last_installed_generations := (lr_last_installed_generations s)(global_id \<mapsto> generation)\<rparr>
               else s);
          s = s\<lparr>lr_residents := snd (lru_put L (lr_residents s) global_id
                                       \<lparr>ph_key = key, ph_residency = residency\<rparr>)\<rparr> in
      if installed
      then bump_counter (\<lambda>c. c\<lparr>tc_ram_to_vram_installs := tc_ram_to_vram_installs c + 1,
              tc_physical_reinstalls := (if reinstall then tc_physical_reinstalls c + 1 else tc_physical_reinstalls c),
              tc_speculative_ram_to_vram_installs :=
                (if speculative then tc_speculative_ram_to_vram_installs c + 1
                 else tc_speculative_ram_to_vram_installs c)\<rparr>) s
      else s)"

definition count_stale :: "'c locked \<Rightarrow> 'c locked" where
  "count_stale s =
     bump_counter (\<lambda>c. c\<lparr>tc_stale_generation_rejections := tc_stale_generation_rejections c + 1\<rparr>) s"

definition record_speculative_drop :: "'c locked \<Rightarrow> 'c locked" where
  "record_speculative_drop s =
     bump_counter (\<lambda>c. c\<lparr>tc_speculative_dropped := tc_speculative_dropped c + 1\<rparr>) s"

text \<open>After the publication the logical admission is read again; an expert that lost it is retired.\<close>

definition keep_if_current ::
    "('c, physical_record) lru_ops \<Rightarrow> env \<Rightarrow> manager_ctx \<Rightarrow> u32 \<Rightarrow> q4_key \<Rightarrow> q4_residency \<Rightarrow> bool \<Rightarrow>
     bool \<Rightarrow> 'c locked \<Rightarrow> (tiered_error + q4_residency) \<times> 'c locked" where
  "keep_if_current L env mc global_id key residency installed speculative s =
     (let still = en_contains_generation env (clock s) global_id (qk_logical_generation key); s = tick s in
      if \<not> still
      then tbind (backend (retire_q4_expert_residency env mc key s)) (\<lambda>_ s.
             (Inl (LogicalAdmissionStale global_id (qk_logical_generation key)), count_stale s))
      else (Inr residency, record_install L global_id key residency installed speculative s))"

definition install_locked ::
    "('c, physical_record) lru_ops \<Rightarrow> env \<Rightarrow> manager_ctx \<Rightarrow> install_path \<Rightarrow> u32 \<Rightarrow> install_source \<Rightarrow>
     bool \<Rightarrow> 'c locked \<Rightarrow> (tiered_error + q4_residency) \<times> 'c locked" where
  "install_locked L env mc path global_id src speculative s =
     (case ebind (identity mc global_id) (\<lambda>li.
             ebind (global_to_q4_expert_key mc global_id (src_generation src)) (\<lambda>key. Inr (li, key))) of
        Inl e \<Rightarrow> (Inl e, s)
      | Inr (li, key) \<Rightarrow>
          tbind (backend (acquire_q4_expert_residency env mc key s)) (\<lambda>acquired s.
            case acquired of
              AcquireHit hit \<Rightarrow> keep_if_current L env mc global_id key hit False speculative s
            | AcquireInstall p \<Rightarrow>
                tbind (backend (install_q4_expert_residency env mc path p (src_data src) s))
                  (\<lambda>residency s. keep_if_current L env mc global_id key residency True speculative s)
            | InstallInProgress \<Rightarrow> (Inl (TieredInstallInProgress global_id (src_generation src)), s)
            | AcquireStaleRequester \<Rightarrow>
                (Inl (StalePhysicalRequester global_id (src_generation src)), count_stale s)
            | NoPhysicalSlot \<Rightarrow>
                (Inl (TieredNoPhysicalSlot (li_layer_index li)),
                 if speculative then record_speculative_drop s else s)))"

subsection \<open>The concurrent transaction\<close>

type_synonym miss = "usize \<times> u32 \<times> install_source"

record reserved_install =
  ri_demand_index :: usize
  ri_global_id :: u32
  ri_source :: install_source
  ri_key :: q4_key
  ri_permit :: install_permit

record staged_install =
  si_demand_index :: usize
  si_global_id :: u32
  si_key :: q4_key
  si_prepared :: prepared_install

text \<open>A returning caller drops the permits of the vector in order.\<close>

definition drop_reserved :: "reserved_install list \<Rightarrow> 'c locked \<Rightarrow> 'c locked" where
  "drop_reserved rs s = fold (\<lambda>r. drop_permit (ri_permit r)) rs s"

fun drop_staged :: "(tiered_error + staged_install) list \<Rightarrow> 'c locked \<Rightarrow> 'c locked" where
  "drop_staged [] s = s"
| "drop_staged (Inl _ # rest) s = drop_staged rest s"
| "drop_staged (Inr x # rest) s = drop_staged rest (drop_permit (pi_permit (si_prepared x)) s)"

fun reserve_misses ::
    "env \<Rightarrow> manager_ctx \<Rightarrow> miss list \<Rightarrow> reserved_install list \<Rightarrow> 'c locked \<Rightarrow>
     (tiered_error + reserved_install list) \<times> 'c locked" where
  "reserve_misses env mc [] reserved s = (Inr reserved, s)"
| "reserve_misses env mc ((i, global_id, src) # misses) reserved s =
     (case ebind (identity mc global_id) (\<lambda>li.
             ebind (global_to_q4_expert_key mc global_id (src_generation src)) (\<lambda>key. Inr (li, key))) of
        Inl e \<Rightarrow> (Inl e, drop_reserved reserved s)
      | Inr (li, key) \<Rightarrow>
          (case acquire_q4_expert_residency env mc key s of
             (Inl e, s) \<Rightarrow> (Inl (Backend e), drop_reserved reserved s)
           | (Inr (AcquireInstall p), s) \<Rightarrow>
               reserve_misses env mc misses
                 (reserved @ [\<lparr>ri_demand_index = i, ri_global_id = global_id, ri_source = src,
                               ri_key = key, ri_permit = p\<rparr>]) s
           | (Inr (AcquireHit _), s) \<Rightarrow> (Inl (PhysicalIdentityCorrupt global_id), drop_reserved reserved s)
           | (Inr InstallInProgress, s) \<Rightarrow>
               (Inl (TieredInstallInProgress global_id (src_generation src)), drop_reserved reserved s)
           | (Inr AcquireStaleRequester, s) \<Rightarrow>
               (Inl (StalePhysicalRequester global_id (src_generation src)),
                drop_reserved reserved (count_stale s))
           | (Inr NoPhysicalSlot, s) \<Rightarrow>
               (Inl (TieredNoPhysicalSlot (li_layer_index li)), drop_reserved reserved s)))"

fun stage_reserved ::
    "env \<Rightarrow> manager_ctx \<Rightarrow> bool \<Rightarrow> reserved_install list \<Rightarrow> 'c locked \<Rightarrow>
     (tiered_error + staged_install) list \<times> 'c locked" where
  "stage_reserved env mc no_zero_fill [] s = ([], s)"
| "stage_reserved env mc no_zero_fill (r # rs) s =
     (case backend (stage_q4_expert_residency env mc no_zero_fill (ri_permit r) (src_data (ri_source r)) s) of
        (res, s) \<Rightarrow>
          (case stage_reserved env mc no_zero_fill rs s of
             (staged, s) \<Rightarrow>
               ((case res of
                   Inl e \<Rightarrow> Inl e
                 | Inr pr \<Rightarrow> Inr \<lparr>si_demand_index = ri_demand_index r, si_global_id = ri_global_id r,
                                  si_key = ri_key r, si_prepared = pr\<rparr>) # staged, s)))"

text \<open>The ordered commits, up to the first stage that failed.\<close>

fun commit_staged ::
    "('c, physical_record) lru_ops \<Rightarrow> env \<Rightarrow> manager_ctx \<Rightarrow> (tiered_error + staged_install) list \<Rightarrow>
     q4_residency option list \<Rightarrow> 'c locked \<Rightarrow> (tiered_error + q4_residency option list) \<times> 'c locked" where
  "commit_staged L env mc [] resolved s = (Inr resolved, s)"
| "commit_staged L env mc (Inl e # rest) resolved s = (Inl e, drop_staged rest s)"
| "commit_staged L env mc (Inr x # rest) resolved s =
     (case tbind (backend (commit_q4_expert_residency env mc (si_prepared x) s)) (\<lambda>residency s.
             keep_if_current L env mc (si_global_id x) (si_key x) residency True False s) of
        (Inl e, s) \<Rightarrow> (Inl e, drop_staged rest s)
      | (Inr residency, s) \<Rightarrow>
          commit_staged L env mc rest (resolved[si_demand_index x := Some residency]) s)"

definition install_parallel_physical_misses_locked ::
    "('c, physical_record) lru_ops \<Rightarrow> env \<Rightarrow> manager_ctx \<Rightarrow> bool \<Rightarrow> miss list \<Rightarrow>
     q4_residency option list \<Rightarrow> 'c locked \<Rightarrow> (tiered_error + q4_residency option list) \<times> 'c locked" where
  "install_parallel_physical_misses_locked L env mc no_zero_fill misses resolved s =
     tbind (reserve_misses env mc misses [] s) (\<lambda>reserved s.
       case stage_reserved env mc no_zero_fill reserved s of
         (staged, s) \<Rightarrow> commit_staged L env mc staged resolved s)"

fun install_sequential_misses ::
    "('c, physical_record) lru_ops \<Rightarrow> env \<Rightarrow> manager_ctx \<Rightarrow> install_path \<Rightarrow> miss list \<Rightarrow>
     q4_residency option list \<Rightarrow> 'c locked \<Rightarrow> (tiered_error + q4_residency option list) \<times> 'c locked" where
  "install_sequential_misses L env mc path [] resolved s = (Inr resolved, s)"
| "install_sequential_misses L env mc path ((i, global_id, src) # misses) resolved s =
     tbind (install_locked L env mc path global_id src False s) (\<lambda>residency s.
       install_sequential_misses L env mc path misses (resolved[i := Some residency]) s)"

subsection \<open>Demand sets\<close>

fun check_demands ::
    "env \<Rightarrow> manager_ctx \<Rightarrow> usize \<Rightarrow> demand_expert list \<Rightarrow> u32 set \<Rightarrow> tier_log \<Rightarrow>
     (tiered_error + u32 set) \<times> tier_log" where
  "check_demands env mc layer_index [] protected lg = (Inr protected, lg)"
| "check_demands env mc layer_index (d # demands) protected lg =
     (let global_id = demand_global_id d in
      if global_id \<in> protected then (Inl (DuplicateDemandExpert global_id), lg)
      else
        (case identity mc global_id of
           Inl e \<Rightarrow> (Inl e, lg)
         | Inr li \<Rightarrow>
             if li_layer_index li \<noteq> layer_index
             then (Inl (DemandLayerMismatch layer_index global_id (li_layer_index li)), lg)
             else
               tbind (case d of
                        Install _ src \<Rightarrow> validate_source env global_id src lg
                      | Current _ \<Rightarrow> (Inr (), lg))
                 (\<lambda>_ lg. check_demands env mc layer_index demands (insert global_id protected) lg)))"

fun resolve_demands ::
    "('c, physical_record) lru_ops \<Rightarrow> manager_ctx \<Rightarrow> usize \<Rightarrow> demand_expert list \<Rightarrow>
     q4_residency option list \<Rightarrow> miss list \<Rightarrow> 'c locked \<Rightarrow>
     (tiered_error + q4_residency option list \<times> miss list) \<times> 'c locked" where
  "resolve_demands L mc i [] resolved misses s = (Inr (resolved, misses), s)"
| "resolve_demands L mc i (d # demands) resolved misses s =
     tbind (current_record_locked L mc (demand_global_id d) True s) (\<lambda>found s.
       case found of
         Some r \<Rightarrow>
           resolve_demands L mc (Suc i) demands (resolved @ [Some (ph_residency r)]) misses
             (bump_counter (\<lambda>c. c\<lparr>tc_vram_hits := tc_vram_hits c + 1,
                                  tc_physical_current_hits := tc_physical_current_hits c + 1\<rparr>) s)
       | None \<Rightarrow>
           let s = bump_counter (\<lambda>c. c\<lparr>tc_vram_misses := tc_vram_misses c + 1\<rparr>) s in
           (case d of
              Install global_id src \<Rightarrow>
                resolve_demands L mc (Suc i) demands (resolved @ [None]) (misses @ [(i, global_id, src)]) s
            | Current global_id \<Rightarrow> (Inl (DemandSourceMissing global_id), s)))"

text \<open>The \<open>while\<close> loop that makes room: not returning would be the value \<open>None\<close>.\<close>

partial_function (option) evict_victims ::
    "('c, physical_record) lru_ops \<Rightarrow> env \<Rightarrow> manager_ctx \<Rightarrow> usize \<Rightarrow> u32 set \<Rightarrow> usize \<Rightarrow> 'c locked \<Rightarrow>
     ((tiered_error + unit) \<times> 'c locked) option" where
  "evict_victims L env mc layer_index protected n s =
     (if saturating_add (lru_len L (lr_residents s)) n > lr_capacity s
      then
        (case oldest_unprotected L (lr_residents s) protected of
           None \<Rightarrow> Some (Inl (NoEvictablePhysicalSlot layer_index), s)
         | Some victim \<Rightarrow>
             (case retire_metadata_record_locked L env mc victim True s of
                (Inl e, s') \<Rightarrow> Some (Inl e, s')
              | (Inr _, s') \<Rightarrow> evict_victims L env mc layer_index protected n s'))
      else Some (Inr (), s))"

fun collect_resolved ::
    "demand_expert list \<Rightarrow> q4_residency option list \<Rightarrow> tiered_error + q4_residency list" where
  "collect_resolved (d # demands) (Some r # resolved) = ebind (collect_resolved demands resolved) (\<lambda>rs. Inr (r # rs))"
| "collect_resolved (d # demands) (None # resolved) = Inl (DemandSourceMissing (demand_global_id d))"
| "collect_resolved _ _ = Inr []"

definition ensure_demand_set_locked ::
    "('c, physical_record) lru_ops \<Rightarrow> env \<Rightarrow> manager_ctx \<Rightarrow> install_path \<Rightarrow> usize \<Rightarrow> demand_expert list \<Rightarrow>
     u32 set \<Rightarrow> 'c locked \<Rightarrow> ((tiered_error + q4_residency list) \<times> 'c locked) option" where
  "ensure_demand_set_locked L env mc path layer_index demands protected s =
     (case resolve_demands L mc 0 demands [] [] s of
        (Inl e, s) \<Rightarrow> Some (Inl e, s)
      | (Inr (resolved, misses), s) \<Rightarrow>
          Option.bind (evict_victims L env mc layer_index protected (length misses) s) (\<lambda>evicted.
            Some (tbind evicted (\<lambda>_ s.
              tbind (if concurrent_path path
                     then install_parallel_physical_misses_locked L env mc
                            (path \<noteq> QualificationConcurrentDirectStagingFullZero) misses resolved s
                     else install_sequential_misses L env mc path misses resolved s)
                (\<lambda>resolved s. (collect_resolved demands resolved, s))))))"

definition lock_layer :: "usize \<Rightarrow> 'c manager \<Rightarrow> 'c locked" where
  "lock_layer l m = layer_residency.extend (tm_layers m ! l) (locked.fields (tm_log m))"

definition unlock_layer :: "usize \<Rightarrow> 'c manager \<Rightarrow> 'c locked \<Rightarrow> 'c manager" where
  "unlock_layer l m s =
     m\<lparr>tm_layers := (tm_layers m)[l := layer_residency.truncate s], tm_log := lk_log s\<rparr>"

definition ensure_demand_set ::
    "('c, physical_record) lru_ops \<Rightarrow> env \<Rightarrow> install_path \<Rightarrow> residency_priority \<Rightarrow> usize \<Rightarrow>
     demand_expert list \<Rightarrow> 'c manager \<Rightarrow> ((tiered_error + q4_residency list) \<times> 'c manager) option" where
  "ensure_demand_set L env path priority layer_index demands m =
     (if priority = Speculative then Some (Inl ResidencyPriorityMismatch, m)
      else if layer_index \<ge> length (tm_layers m)
      then Some (Inl (LayerOutOfRange layer_index (length (tm_layers m))), m)
      else if length demands > lr_capacity (tm_layers m ! layer_index)
      then Some (Inl (DemandSetExceedsLayerCapacity (length demands) (lr_capacity (tm_layers m ! layer_index))), m)
      else
        (case check_demands env (tm_ctx m) layer_index demands {} (tm_log m) of
           (Inl e, lg) \<Rightarrow> Some (Inl e, m\<lparr>tm_log := lg\<rparr>)
         | (Inr protected, lg) \<Rightarrow>
             let lg = (if priority = Demand
                       then count_log (\<lambda>c. c\<lparr>tc_demand_requests :=
                                               tc_demand_requests c + of_nat (length demands)\<rparr>) lg
                       else lg);
                 m = m\<lparr>tm_log := lg\<rparr> in
             map_option (\<lambda>(res, s). (res, unlock_layer layer_index m s))
               (ensure_demand_set_locked L env (tm_ctx m) path layer_index demands protected
                  (lock_layer layer_index m))))"


subsection \<open>Probes and speculative installs\<close>

text \<open>The layer of an identity is always one of the manager's; the code indexes it.\<close>

definition has_current_for_demand ::
    "('c, physical_record) lru_ops \<Rightarrow> u32 \<Rightarrow> 'c manager \<Rightarrow> (tiered_error + bool) \<times> 'c manager" where
  "has_current_for_demand L global_id m =
     (case identity (tm_ctx m) global_id of
        Inl e \<Rightarrow> (Inl e, m)
      | Inr li \<Rightarrow>
          (case current_record_locked L (tm_ctx m) global_id False (lock_layer (li_layer_index li) m) of
             (Inl e, s) \<Rightarrow> (Inl e, unlock_layer (li_layer_index li) m s)
           | (Inr found, s) \<Rightarrow> (Inr (found \<noteq> None), unlock_layer (li_layer_index li) m s)))"

datatype speculative_probe = ProbeHit q4_residency | ProbeMiss | DroppedPressure

definition probe_speculative ::
    "('c, physical_record) lru_ops \<Rightarrow> env \<Rightarrow> residency_priority \<Rightarrow> u32 \<Rightarrow> 'c manager \<Rightarrow>
     (tiered_error + speculative_probe) \<times> 'c manager" where
  "probe_speculative L env priority global_id m =
     (if priority \<noteq> Speculative then (Inl ResidencyPriorityMismatch, m)
      else
        let m = m\<lparr>tm_log := count_log (\<lambda>c. c\<lparr>tc_speculative_requests := tc_speculative_requests c + 1\<rparr>)
                               (tm_log m)\<rparr> in
        case identity (tm_ctx m) global_id of
          Inl e \<Rightarrow> (Inl e, m)
        | Inr li \<Rightarrow>
            let l = li_layer_index li; s = tick (lock_layer l m) in
            if \<not> en_try_lock env (tl_clock (tm_log m))
            then (Inr DroppedPressure, unlock_layer l m (record_speculative_drop s))
            else
              (case current_record_locked L (tm_ctx m) global_id True s of
                 (Inl e, s) \<Rightarrow> (Inl e, unlock_layer l m s)
               | (Inr (Some r), s) \<Rightarrow>
                   (Inr (ProbeHit (ph_residency r)),
                    unlock_layer l m
                      (bump_counter (\<lambda>c. c\<lparr>tc_vram_hits := tc_vram_hits c + 1,
                                           tc_speculative_vram_hits := tc_speculative_vram_hits c + 1\<rparr>) s))
               | (Inr None, s) \<Rightarrow>
                   (Inr ProbeMiss,
                    unlock_layer l m (bump_counter (\<lambda>c. c\<lparr>tc_vram_misses := tc_vram_misses c + 1\<rparr>) s))))"

datatype speculative_install =
    SpeculativeHit q4_residency
  | SpeculativeInstalled q4_residency
  | DroppedCapacityOrPressure
  | StaleLogicalGeneration

definition ensure_speculative_locked ::
    "('c, physical_record) lru_ops \<Rightarrow> env \<Rightarrow> manager_ctx \<Rightarrow> u32 \<Rightarrow> install_source \<Rightarrow> 'c locked \<Rightarrow>
     (tiered_error + speculative_install) \<times> 'c locked" where
  "ensure_speculative_locked L env mc global_id src s =
     tbind (current_record_locked L mc global_id True s) (\<lambda>found s.
       case found of
         Some r \<Rightarrow>
           (Inr (SpeculativeHit (ph_residency r)),
            bump_counter (\<lambda>c. c\<lparr>tc_vram_hits := tc_vram_hits c + 1,
                                tc_speculative_vram_hits := tc_speculative_vram_hits c + 1\<rparr>) s)
       | None \<Rightarrow>
           let still = en_contains_generation env (clock s) global_id (src_generation src); s = tick s in
           if \<not> still then (Inr StaleLogicalGeneration, count_stale s)
           else if lru_len L (lr_residents s) \<ge> lr_capacity s
           then (Inr DroppedCapacityOrPressure, record_speculative_drop s)
           else
             (case install_locked L env mc LegacyFullSlotVecControl global_id src True s of
                (Inr residency, s) \<Rightarrow> (Inr (SpeculativeInstalled residency), s)
              | (Inl (TieredNoPhysicalSlot _), s) \<Rightarrow> (Inr DroppedCapacityOrPressure, s)
              | (Inl e, s) \<Rightarrow> (Inl e, s)))"

definition ensure_speculative_resident ::
    "('c, physical_record) lru_ops \<Rightarrow> env \<Rightarrow> residency_priority \<Rightarrow> u32 \<Rightarrow> install_source \<Rightarrow>
     'c manager \<Rightarrow> (tiered_error + speculative_install) \<times> 'c manager" where
  "ensure_speculative_resident L env priority global_id src m =
     (if priority \<noteq> Speculative then (Inl ResidencyPriorityMismatch, m)
      else
        case validate_source env global_id src (tm_log m) of
          (Inl e, lg) \<Rightarrow>
            ((case e of LogicalAdmissionStale _ _ \<Rightarrow> Inr StaleLogicalGeneration | _ \<Rightarrow> Inl e), m\<lparr>tm_log := lg\<rparr>)
        | (Inr _, lg) \<Rightarrow>
            let m = m\<lparr>tm_log := lg\<rparr> in
            case identity (tm_ctx m) global_id of
              Inl e \<Rightarrow> (Inl e, m)
            | Inr li \<Rightarrow>
                let l = li_layer_index li; s = tick (lock_layer l m) in
                if \<not> en_try_lock env (tl_clock (tm_log m))
                then (Inr DroppedCapacityOrPressure, unlock_layer l m (record_speculative_drop s))
                else
                  (case ensure_speculative_locked L env (tm_ctx m) global_id src s of
                     (res, s) \<Rightarrow> (res, unlock_layer l m s)))"

subsection \<open>Creation\<close>

fun create_layers ::
    "('c, physical_record) lru_ops \<Rightarrow> env \<Rightarrow> u64 \<Rightarrow> usize \<Rightarrow> wgpu_limits \<Rightarrow> usize \<Rightarrow> vram_plan list \<Rightarrow>
     tiered_error + 'c layer_residency list" where
  "create_layers L env context_id d_model limits layer_index [] = Inr []"
| "create_layers L env context_id d_model limits layer_index (plan # plans) =
     ebind (to_tiered (ebind (authoritative_gpu env (Suc layer_index))
                         (\<lambda>_. create_q4_expert_arena context_id d_model limits layer_index plan []))) (\<lambda>arena.
     ebind (create_layers L env context_id d_model limits (Suc layer_index) plans) (\<lambda>layers.
     Inr (\<lparr>lr_arena = arena, lr_residents = lru_unbounded L, lr_last_installed_generations = Map.empty,
           lr_physical_evictions = 0\<rparr> # layers)))"

definition counters_zero :: tiered_counters where
  "counters_zero = \<lparr>tc_vram_hits = 0, tc_vram_misses = 0, tc_physical_current_hits = 0,
     tc_ram_to_vram_installs = 0, tc_physical_evictions = 0, tc_physical_reinstalls = 0,
     tc_stale_generation_rejections = 0, tc_demand_requests = 0, tc_speculative_requests = 0,
     tc_speculative_vram_hits = 0, tc_speculative_ram_to_vram_installs = 0, tc_speculative_dropped = 0\<rparr>"

definition manager_try_new ::
    "('c, physical_record) lru_ops \<Rightarrow> env \<Rightarrow> u64 \<Rightarrow> usize \<Rightarrow> wgpu_limits \<Rightarrow> usize \<Rightarrow> expert_geometry \<Rightarrow>
     nat \<Rightarrow> tiered_error + 'c manager" where
  "manager_try_new L env context_id d_model limits num_layers g budget =
     ebind (to_tiered (authoritative_gpu env 0)) (\<lambda>_.
     ebind (model_plan_try_new num_layers g budget limits) (\<lambda>plan.
     ebind (create_layers L env context_id d_model limits 0 (mp_layer_plans plan)) (\<lambda>layers.
     Inr \<lparr>tm_ctx = \<lparr>mc_context_id = context_id, mc_limits = limits, mc_plan = plan\<rparr>, tm_layers = layers,
          tm_log = \<lparr>tl_counters = counters_zero, tl_clock = Suc (length layers)\<rparr>\<rparr>)))"

end
