(* ===== verification/ResidencySafety.thy ===== *)
theory ResidencySafety
  imports NativeResidency
begin

section \<open>Records of the residency manager agree with the arena\<close>

text \<open>
  The manager keeps the records of a layer beside the arena whose slots they describe. This theory shows
  that the two agree whenever the layer's lock is free, and which permits are open in between: a
  record's residency is published by the arena, and every owned slot belongs to a record or to a permit
  of the running transaction. The arena enters through the view and the per-operation lemmas of
  \<open>ArenaView\<close>, the records through the laws of \<open>LruSpec\<close>.
\<close>

subsection \<open>Permits in flight\<close>

text \<open>The permits a transaction holds: each is a task of the arena and still owns its slot. That two of
  them differ in ticket and expert follows.\<close>

definition flight_tasks :: "install_task set \<Rightarrow> (u64 \<rightharpoonup> install_task) \<Rightarrow> q4_arena \<Rightarrow> bool" where
  "flight_tasks P ts a \<longleftrightarrow>
     (\<forall>(p, ph) \<in> P. ts (ip_install_ticket p) = Some (p, ph) \<and>
                     arena_view a (permit_expert p) = Some (permit_owner p))"

definition in_flight ::
    "u64 \<Rightarrow> usize \<Rightarrow> vram_plan \<Rightarrow> install_task set \<Rightarrow> q4_arena \<Rightarrow> bool" where
  "in_flight ctx layer plan P a \<longleftrightarrow> (\<exists>ts. arena_in ctx layer plan ts a \<and> flight_tasks P ts a)"

lemma flight_taskD:
  assumes "flight_tasks P ts a" "(p, ph) \<in> P"
  shows "ts (ip_install_ticket p) = Some (p, ph)" "arena_view a (permit_expert p) = Some (permit_owner p)"
  using assms by (auto simp: flight_tasks_def)

lemma flight_unique:
  assumes "flight_tasks P ts a" "(p, ph) \<in> P" "(q, ph') \<in> P" "(p, ph) \<noteq> (q, ph')"
  shows "ip_install_ticket p \<noteq> ip_install_ticket q" "permit_expert p \<noteq> permit_expert q"
proof -
  show "ip_install_ticket p \<noteq> ip_install_ticket q"
    using flight_taskD(1) [OF assms(1,2)] flight_taskD(1) [OF assms(1,3)] assms(4) by auto
  then show "permit_expert p \<noteq> permit_expert q"
    using flight_taskD(2) [OF assms(1,2)] flight_taskD(2) [OF assms(1,3)] by auto
qed

lemma flight_others:
  assumes "flight_tasks P ts a" "(p, ph) \<in> P"
    and "\<And>t. t \<noteq> ip_install_ticket p \<Longrightarrow> ts' t = ts t"
    and "\<And>e. e \<noteq> permit_expert p \<Longrightarrow> arena_view a' e = arena_view a e"
  shows "flight_tasks (P - {(p, ph)}) ts' a'"
  unfolding flight_tasks_def
proof (intro ballI)
  fix x assume x: "x \<in> P - {(p, ph)}"
  obtain q ph' where q: "x = (q, ph')" by (cases x)
  then have "(q, ph') \<in> P" "(q, ph') \<noteq> (p, ph)" using x by auto
  note U = flight_unique [OF assms(1) this(1) assms(2) this(2)] and T = flight_taskD [OF assms(1) this(1)]
  show "case x of (p, ph) \<Rightarrow> ts' (ip_install_ticket p) = Some (p, ph) \<and>
      arena_view a' (permit_expert p) = Some (permit_owner p)"
    using q U T assms(3,4) by simp
qed

lemma in_flight_arena:
  assumes "in_flight ctx layer plan P a"
  shows "\<exists>ts. arena_in ctx layer plan ts a" "arena_wf a" "qa_context_id a = ctx" "qa_layer_index a = layer" "qa_plan a = plan"
  using assms arena_inD unfolding in_flight_def by metis+

lemma in_flight_empty: "in_flight ctx layer plan {} a \<longleftrightarrow> (\<exists>ts. arena_in ctx layer plan ts a)"
  by (auto simp: in_flight_def flight_tasks_def)

lemma in_flight_subset: "in_flight ctx layer plan P a \<Longrightarrow> Q \<subseteq> P \<Longrightarrow> in_flight ctx layer plan Q a"
  unfolding in_flight_def flight_tasks_def by blast

lemma in_flight_count [simp]: "in_flight ctx layer plan P (count_event f a) = in_flight ctx layer plan P a"
  by (simp add: in_flight_def flight_tasks_def)

lemma flight_acquire:
  assumes F: "in_flight ctx layer plan P a" and key: "qk_layer_index key = layer"
    and e: "unat (qk_expert_id key) < eg_num_experts (vp_geometry plan)"
    and none: "arena_view a (unat (qk_expert_id key)) = None"
    and r: "acquire_with_unpublish key a = (res, a')"
  obtains (install) p where "res = Inr (AcquireInstall p)" "ip_key p = key" "(p, Reserved) \<notin> P"
      "in_flight ctx layer plan (insert (p, Reserved) P) a'"
      "arena_view a' = (arena_view a)(permit_expert p \<mapsto> permit_owner p)"
  | (other) "\<forall>p. res \<noteq> Inr (AcquireInstall p)" "\<forall>x. res \<noteq> Inr (AcquireHit x)" "res \<noteq> Inr InstallInProgress"
      "res \<noteq> Inl ExpertInstallReservationLost" "in_flight ctx layer plan P a'" "arena_view a' = arena_view a"
      "res = Inr NoPhysicalSlot \<longrightarrow> (\<forall>s \<in> set (qa_slots a). sl_owner s \<noteq> OwnerFree)"
proof -
  obtain ts where ts: "arena_in ctx layer plan ts a" "flight_tasks P ts a"
    using F unfolding in_flight_def by blast
  from ts(1) key e none r show thesis
  proof (cases rule: acquire_absent)
    case (install p)
    have "flight_tasks (insert (p, Reserved) P) (ts(ip_install_ticket p \<mapsto> (p, Reserved))) a'"
      unfolding flight_tasks_def
    proof (intro ballI)
      fix x assume x: "x \<in> insert (p, Reserved) P"
      obtain q ph where q: "x = (q, ph)" by (cases x)
      have v: "arena_view a' = (arena_view a)(permit_expert p \<mapsto> permit_owner p)" using install(2,5) by simp
      show "case x of (q, ph) \<Rightarrow> (ts(ip_install_ticket p \<mapsto> (p, Reserved))) (ip_install_ticket q) = Some (q, ph) \<and>
          arena_view a' (permit_expert q) = Some (permit_owner q)"
      proof (cases "x = (p, Reserved)")
        case True
        then show ?thesis using v by simp
      next
        case False
        then have "(q, ph) \<in> P" using x q by auto
        note T = flight_taskD [OF ts(2) this]
        then show ?thesis using q none install(2,4) v by auto
      qed
    qed
    then have "in_flight ctx layer plan (insert (p, Reserved) P) a'"
      using install(3) unfolding in_flight_def by blast
    moreover have "(p, Reserved) \<notin> P" using flight_taskD(1) [OF ts(2)] install(4) by auto
    ultimately show thesis using that(1) install(1,2,5) by auto
  next
    case other
    have "in_flight ctx layer plan P a'"
      unfolding in_flight_def using ts(2) other(5,6) by (intro exI [of _ ts]) (auto simp: flight_tasks_def)
    then show thesis using that(2) other by blast
  qed
qed

lemma flight_drop:
  assumes F: "in_flight ctx layer plan P a" and p: "(p, ph) \<in> P"
  shows "in_flight ctx layer plan (P - {(p, ph)}) (permit_drop p a)"
    "arena_view (permit_drop p a) = (arena_view a)(permit_expert p := None)"
proof -
  obtain ts where ts: "arena_in ctx layer plan ts a" "flight_tasks P ts a"
    using F unfolding in_flight_def by blast
  note T = flight_taskD [OF ts(2) p]
  note D = drop_current [OF ts(1) T]
  show "arena_view (permit_drop p a) = (arena_view a)(permit_expert p := None)" by (rule D(2))
  have "flight_tasks (P - {(p, ph)}) (ts(ip_install_ticket p := None)) (permit_drop p a)"
    using D(2) by (intro flight_others [OF ts(2) p]) simp_all
  then show "in_flight ctx layer plan (P - {(p, ph)}) (permit_drop p a)"
    using D(1) unfolding in_flight_def by blast
qed

lemma flight_phase:
  assumes F: "in_flight ctx layer plan P a" and p: "(p, ph) \<in> P"
    and "\<And>ts. arena_in ctx layer plan ts a \<Longrightarrow> ts (ip_install_ticket p) = Some (p, ph) \<Longrightarrow>
      arena_view a (permit_expert p) = Some (permit_owner p) \<Longrightarrow>
      arena_in ctx layer plan (ts(ip_install_ticket p \<mapsto> (p, ph'))) a'"
    and v: "arena_view a' = arena_view a"
  shows "in_flight ctx layer plan (insert (p, ph') (P - {(p, ph)})) a'"
proof -
  obtain ts where ts: "arena_in ctx layer plan ts a" "flight_tasks P ts a"
    using F unfolding in_flight_def by blast
  have "flight_tasks (insert (p, ph') (P - {(p, ph)})) (ts(ip_install_ticket p \<mapsto> (p, ph'))) a'"
    using flight_others [OF ts(2) p, of "ts(ip_install_ticket p \<mapsto> (p, ph'))" a'] flight_taskD(2) [OF ts(2) p] v
    by (simp add: flight_tasks_def)
  then show ?thesis using assms(3) [OF ts(1) flight_taskD [OF ts(2) p]] unfolding in_flight_def by blast
qed

lemma flight_stage_check:
  assumes F: "in_flight ctx layer plan P a" and p: "(p, Reserved) \<in> P"
  obtains (refused) x where "stage_check p payload a = (Inl x, a)" "consistent_error x"
  | (checked) cs off pr where "stage_check p payload a = (Inr (cs, off, pr), a)" "pi_permit pr = p"
      "in_flight ctx layer plan (insert (p, Staging payload cs off pr) (P - {(p, Reserved)})) a"
proof -
  obtain ts where ts: "arena_in ctx layer plan ts a" "flight_tasks P ts a"
    using F unfolding in_flight_def by blast
  note T = flight_taskD [OF ts(2) p]
  from stage_check_current [OF ts(1) T, of payload] show thesis
  proof
    assume "\<exists>x. stage_check p payload a = (Inl x, a) \<and> consistent_error x"
    then show thesis using refused by blast
  next
    assume "\<exists>cs off pr. stage_check p payload a = (Inr (cs, off, pr), a) \<and> pi_permit pr = p \<and>
        arena_in ctx layer plan (ts(ip_install_ticket p \<mapsto> (p, Staging payload cs off pr))) a"
    then obtain cs off pr where c: "stage_check p payload a = (Inr (cs, off, pr), a)" "pi_permit pr = p" by blast
    have "in_flight ctx layer plan (insert (p, Staging payload cs off pr) (P - {(p, Reserved)})) a"
    proof (rule flight_phase [OF F p _ refl])
      fix ts assume "arena_in ctx layer plan ts a" "ts (ip_install_ticket p) = Some (p, Reserved)"
        "arena_view a (permit_expert p) = Some (permit_owner p)"
      from stage_check_current [OF this, of payload] c(1)
      show "arena_in ctx layer plan (ts(ip_install_ticket p \<mapsto> (p, Staging payload cs off pr))) a" by auto
    qed
    then show thesis using checked c by blast
  qed
qed

lemma flight_stage_write:
  assumes F: "in_flight ctx layer plan P a" and p: "(p, Staging payload cs off pr) \<in> P"
    and v: "\<forall>x. view = Some x \<longrightarrow> length x = eg_slot_stride_bytes (vp_geometry plan)"
    and w: "stage_write nz view (el_bank (qr_location (ip_residency p))) off cs a = (res, a')"
  defines "ph \<equiv> (if res = Inr () then Staged payload pr else Abandoned)"
  shows "in_flight ctx layer plan (insert (p, ph) (P - {(p, Staging payload cs off pr)})) a'"
    "arena_view a' = arena_view a" "res = Inr () \<or> (\<exists>x. res = Inl x \<and> consistent_error x)"
proof -
  obtain ts where ts: "arena_in ctx layer plan ts a" "flight_tasks P ts a"
    using F unfolding in_flight_def by blast
  note W = stage_write_current [OF ts(1) flight_taskD(1) [OF ts(2) p] v w]
  show view: "arena_view a' = arena_view a" by (rule W(1))
  show "res = Inr () \<or> (\<exists>x. res = Inl x \<and> consistent_error x)" using W(2) by blast
  show "in_flight ctx layer plan (insert (p, ph) (P - {(p, Staging payload cs off pr)})) a'"
  proof (rule flight_phase [OF F p _ view])
    fix ts assume "arena_in ctx layer plan ts a" "ts (ip_install_ticket p) = Some (p, Staging payload cs off pr)"
    from stage_write_current(2) [OF this v w]
    show "arena_in ctx layer plan (ts(ip_install_ticket p \<mapsto> (p, ph))) a'" by (auto simp: ph_def)
  qed
qed

lemma flight_commit:
  assumes F: "in_flight ctx layer plan P a" and p: "(p, Staged payload pr) \<in> P"
  obtains a' where "commit_with_mapping_writer pr a = (Inr (ip_residency p), a')"
    "in_flight ctx layer plan (P - {(p, Staged payload pr)}) a'"
    "arena_view a' = (arena_view a)(permit_expert p \<mapsto> (ip_flat_slot p, OwnerResident (ip_residency p)))"
proof -
  obtain ts where ts: "arena_in ctx layer plan ts a" "flight_tasks P ts a"
    using F unfolding in_flight_def by blast
  obtain a' where a': "commit_with_mapping_writer pr a = (Inr (ip_residency p), a')"
    "arena_in ctx layer plan (ts(ip_install_ticket p := None)) a'"
    "arena_view a' = (arena_view a)(permit_expert p \<mapsto> (ip_flat_slot p, OwnerResident (ip_residency p)))"
    using commit_current [OF ts(1) flight_taskD [OF ts(2) p]] by blast
  have "flight_tasks (P - {(p, Staged payload pr)}) (ts(ip_install_ticket p := None)) a'"
    using a'(3) by (intro flight_others [OF ts(2) p]) simp_all
  then show thesis using that a' unfolding in_flight_def by blast
qed

lemma flight_install:
  assumes F: "in_flight ctx layer plan P a" and p: "(p, Reserved) \<in> P"
    and view: "\<forall>x. view = Some x \<longrightarrow> length x = eg_slot_stride_bytes (vp_geometry plan)"
    and r: "install_sequential view payload p a = (res, active, a') \<or> install_with_writes payload p a = (res, active, a')"
  obtains (success) "res = Inr (ip_residency p)" "\<not> active" "in_flight ctx layer plan (P - {(p, Reserved)}) a'"
      "arena_view a' = (arena_view a)(permit_expert p \<mapsto> (ip_flat_slot p, OwnerResident (ip_residency p)))"
  | (failed) x where "res = Inl x" "consistent_error x" "active" "in_flight ctx layer plan P a'"
      "arena_view a' = arena_view a"
proof -
  obtain ts where ts: "arena_in ctx layer plan ts a" "flight_tasks P ts a"
    using F unfolding in_flight_def by blast
  from install_current [OF ts(1) flight_taskD [OF ts(2) p] view r] show thesis
  proof
    assume *: "res = Inr (ip_residency p) \<and> \<not> active \<and> arena_in ctx layer plan (ts(ip_install_ticket p := None)) a' \<and>
      arena_view a' = (arena_view a)(permit_expert p \<mapsto> (ip_flat_slot p, OwnerResident (ip_residency p)))"
    then have "flight_tasks (P - {(p, Reserved)}) (ts(ip_install_ticket p := None)) a'"
      by (intro flight_others [OF ts(2) p]) simp_all
    then show thesis using success * unfolding in_flight_def by blast
  next
    assume *: "\<exists>x. res = Inl x \<and> consistent_error x \<and> active \<and> arena_in ctx layer plan ts a' \<and>
      arena_view a' = arena_view a"
    then have "flight_tasks P ts a'" using ts(2) by (auto simp: flight_tasks_def)
    then show thesis using failed * unfolding in_flight_def by blast
  qed
qed

lemma flight_retire:
  assumes F: "in_flight ctx layer plan P a"
    and v: "arena_view a (unat (qk_expert_id (qr_key r))) = Some (i, OwnerResident r)"
  obtains a' where "retire_with_unpublish (qr_key r) a = (Inr Retired, a')" "in_flight ctx layer plan P a'"
    "arena_view a' = (arena_view a)(unat (qk_expert_id (qr_key r)) := None)"
proof -
  obtain ts where ts: "arena_in ctx layer plan ts a" "flight_tasks P ts a"
    using F unfolding in_flight_def by blast
  obtain a' where a': "retire_with_unpublish (qr_key r) a = (Inr Retired, a')" "arena_in ctx layer plan ts a'"
    "arena_view a' = (arena_view a)(unat (qk_expert_id (qr_key r)) := None)"
    by (rule retire_resident [OF ts(1) v])
  have "flight_tasks P ts a'" unfolding flight_tasks_def
  proof (intro ballI)
    fix x assume "x \<in> P"
    moreover obtain q ph where "x = (q, ph)" by (cases x)
    ultimately show "case x of (q, ph) \<Rightarrow> ts (ip_install_ticket q) = Some (q, ph) \<and>
        arena_view a' (permit_expert q) = Some (permit_owner q)"
      using flight_taskD [OF ts(2), of q ph] v a'(3) by auto
  qed
  then show thesis using that a' unfolding in_flight_def by blast
qed

subsection \<open>Records and owners agree\<close>

type_synonym owners = "usize \<Rightarrow> (usize \<times> slot_owner) option"
type_synonym records = "u32 \<rightharpoonup> physical_record"

abbreviation record_expert :: "physical_record \<Rightarrow> usize" where
  "record_expert r \<equiv> unat (qk_expert_id (ph_key r))"

definition record_ok :: "manager_ctx \<Rightarrow> usize \<Rightarrow> owners \<Rightarrow> u32 \<Rightarrow> physical_record \<Rightarrow> bool" where
  "record_ok mc l V global_id r \<longleftrightarrow>
     identity mc global_id = Inr \<lparr>li_layer_index = l, li_local_expert_id = qk_expert_id (ph_key r)\<rparr> \<and>
     qk_layer_index (ph_key r) = l \<and> qr_key (ph_residency r) = ph_key r \<and>
     (\<exists>i. V (record_expert r) = Some (i, OwnerResident (ph_residency r)))"

definition records_ok :: "manager_ctx \<Rightarrow> usize \<Rightarrow> owners \<Rightarrow> records \<Rightarrow> bool" where
  "records_ok mc l V R \<longleftrightarrow> (\<forall>g r. R g = Some r \<longrightarrow> record_ok mc l V g r)"

definition owners_known :: "owners \<Rightarrow> records \<Rightarrow> install_task set \<Rightarrow> usize set \<Rightarrow> bool" where
  "owners_known V R P X \<longleftrightarrow>
     (\<forall>e x. V e = Some x \<longrightarrow> e \<in> X \<or>
        (\<exists>g r. R g = Some r \<and> record_expert r = e) \<or> (\<exists>(p, ph) \<in> P. permit_expert p = e))"

lemma records_other:
  assumes "records_ok mc l V R" "\<forall>i r. V e \<noteq> Some (i, OwnerResident r)"
  shows "records_ok mc l (V(e := x)) R"
  unfolding records_ok_def
proof (intro allI impI)
  fix g r assume "R g = Some r"
  then have ok: "record_ok mc l V g r" using assms(1) by (simp add: records_ok_def)
  then have "record_expert r \<noteq> e" using assms(2) by (auto simp: record_ok_def)
  with ok show "record_ok mc l (V(e := x)) g r" by (simp add: record_ok_def)
qed

lemma records_add:
  assumes "records_ok mc l V R" "\<forall>i r'. V (record_expert r) \<noteq> Some (i, OwnerResident r')"
    and "V' = V(record_expert r := x)" "record_ok mc l V' g r"
  shows "records_ok mc l V' (R(g \<mapsto> r))"
  using records_other [OF assms(1,2), of x] assms(3,4) by (simp add: records_ok_def)

lemma identity_inj:
  assumes "validate_namespace (length (mp_layer_plans (mc_plan mc))) (eg_num_experts (mp_geometry (mc_plan mc))) = Inr ()"
    and "eg_num_experts (mp_geometry (mc_plan mc)) < 2 ^ 32"
    and "identity mc g = Inr li" "identity mc g' = Inr li"
  shows "g = g'" "unat (li_local_expert_id li) < eg_num_experts (mp_geometry (mc_plan mc))"
    "li_layer_index li < length (mp_layer_plans (mc_plan mc))"
proof -
  let ?w = "of_nat (eg_num_experts (mp_geometry (mc_plan mc))) :: u32"
  have w: "unat ?w = eg_num_experts (mp_geometry (mc_plan mc))" using assms(2) by (simp add: unat_of_nat)
  then have v: "validate_namespace (length (mp_layer_plans (mc_plan mc))) (unat ?w) = Inr ()" using assms(1) by simp
  note N = namespace_roundtrip [OF v, THEN conjunct1, rule_format]
  have G: "layer_local_to_global (li_layer_index li) (li_local_expert_id li) (length (mp_layer_plans (mc_plan mc))) ?w = Inr g"
    using N assms(3) unfolding identity_def by blast
  moreover have "layer_local_to_global (li_layer_index li) (li_local_expert_id li) (length (mp_layer_plans (mc_plan mc))) ?w = Inr g'"
    using N assms(4) unfolding identity_def by blast
  ultimately show "g = g'" by simp
  from G v show "li_layer_index li < length (mp_layer_plans (mc_plan mc))"
    "unat (li_local_expert_id li) < eg_num_experts (mp_geometry (mc_plan mc))"
    using w by (auto simp: layer_local_to_global_def word_le_nat_alt split: if_splits)
qed

lemma records_del:
  assumes "records_ok mc l V R" "R g = Some r"
    and inj: "\<And>g g' li. identity mc g = Inr li \<Longrightarrow> identity mc g' = Inr li \<Longrightarrow> g = g'"
  shows "records_ok mc l (V(record_expert r := None)) (R(g := None))"
  unfolding records_ok_def
proof (intro allI impI)
  fix g' r' assume r': "(R(g := None)) g' = Some r'"
  then have g': "g' \<noteq> g" "record_ok mc l V g' r'" using assms(1) by (auto simp: records_ok_def split: if_splits)
  have "record_ok mc l V g r" using assms(1,2) by (auto simp: records_ok_def)
  then have "record_expert r' \<noteq> record_expert r"
    using g' inj word_id_inj by (metis record_ok_def)
  then show "record_ok mc l (V(record_expert r := None)) g' r'" using g'(2) by (simp add: record_ok_def)
qed

text \<open>Owners that appear are accounted for, and so are those whose record or permit goes away.\<close>

lemma owners_known_change:
  assumes "owners_known V R P X"
    and "\<And>x. V' e = Some x \<Longrightarrow> e \<in> X' \<or> (\<exists>g r. R' g = Some r \<and> record_expert r = e) \<or> (\<exists>(p, ph) \<in> P'. permit_expert p = e)"
    and "\<And>e'. e' \<noteq> e \<Longrightarrow> V' e' = V e'" "\<And>e'. e' \<noteq> e \<Longrightarrow> e' \<in> X \<Longrightarrow> e' \<in> X'"
    and "\<And>g r. R g = Some r \<Longrightarrow> record_expert r \<noteq> e \<Longrightarrow> \<exists>g r'. R' g = Some r' \<and> record_expert r' = record_expert r"
    and "\<And>p ph. (p, ph) \<in> P \<Longrightarrow> permit_expert p \<noteq> e \<Longrightarrow> \<exists>ph. (p, ph) \<in> P'"
  shows "owners_known V' R' P' X'"
  unfolding owners_known_def
proof (intro allI impI)
  fix e' x assume x: "V' e' = Some x"
  show "e' \<in> X' \<or> (\<exists>g r. R' g = Some r \<and> record_expert r = e') \<or> (\<exists>(p, ph) \<in> P'. permit_expert p = e')"
  proof (cases "e' = e")
    case True
    then show ?thesis using assms(2) x by blast
  next
    case False
    then have "V e' = Some x" using assms(3) x by simp
    then have "e' \<in> X \<or> (\<exists>g r. R g = Some r \<and> record_expert r = e') \<or> (\<exists>(p, ph) \<in> P. permit_expert p = e')"
      using assms(1) by (simp add: owners_known_def)
    then show ?thesis using assms(4-6) False by fastforce
  qed
qed

subsection \<open>The invariant of a layer\<close>

text \<open>What the manager relies on: the device stays lost once it is, and a staging view has the size that
  was asked for.\<close>

definition env_ok :: "env \<Rightarrow> expert_geometry \<Rightarrow> bool" where
  "env_ok env g \<longleftrightarrow>
     (\<forall>n m. n \<le> m \<and> en_device_loss env n \<noteq> None \<longrightarrow> en_device_loss env m \<noteq> None) \<and>
     (\<forall>n v. en_staging_view env n = Some v \<longrightarrow> length v = eg_slot_stride_bytes g)"

definition layer_ctx :: "env \<Rightarrow> manager_ctx \<Rightarrow> vram_plan \<Rightarrow> bool" where
  "layer_ctx env mc plan \<longleftrightarrow>
     (\<exists>dm df ne k. geometry_try_new dm df ne k = Inr (vp_geometry plan)) \<and>
     mp_geometry (mc_plan mc) = vp_geometry plan \<and>
     validate_namespace (length (mp_layer_plans (mc_plan mc))) (eg_num_experts (vp_geometry plan)) = Inr () \<and>
     plan_try_new (vp_geometry plan) (vp_requested_expert_budget_bytes plan) (mc_limits mc) = Inr plan \<and>
     validate_buffers (arena_buffers (vp_layout plan)) (mc_limits mc) = Inr () \<and> env_ok env (vp_geometry plan)"

lemma layer_ctxD:
  assumes "layer_ctx env mc plan"
  shows "geometry_ok (vp_geometry plan)" "eg_num_experts (mp_geometry (mc_plan mc)) = eg_num_experts (vp_geometry plan)"
    "\<And>g g' li. identity mc g = Inr li \<Longrightarrow> identity mc g' = Inr li \<Longrightarrow> g = g'"
    "\<And>g li. identity mc g = Inr li \<Longrightarrow> unat (li_local_expert_id li) < eg_num_experts (vp_geometry plan)"
    "\<And>g li. identity mc g = Inr li \<Longrightarrow> li_layer_index li < length (mp_layer_plans (mc_plan mc))"
    "\<And>n m. authoritative_gpu env m = Inr () \<Longrightarrow> n \<le> m \<Longrightarrow> authoritative_gpu env n = Inr ()"
    "\<And>n v. en_staging_view env n = Some v \<Longrightarrow> length v = eg_slot_stride_bytes (vp_geometry plan)"
proof -
  show g: "geometry_ok (vp_geometry plan)" using assms geometry_try_new_ok by (auto simp: layer_ctx_def)
  show eq: "eg_num_experts (mp_geometry (mc_plan mc)) = eg_num_experts (vp_geometry plan)"
    using assms by (simp add: layer_ctx_def)
  have v: "validate_namespace (length (mp_layer_plans (mc_plan mc))) (eg_num_experts (mp_geometry (mc_plan mc))) = Inr ()"
    using assms by (simp add: layer_ctx_def)
  have n: "eg_num_experts (mp_geometry (mc_plan mc)) < 2 ^ 32" using g eq by (simp add: geometry_ok_def)
  show "g = g'" if "identity mc g = Inr li" "identity mc g' = Inr li" for g g' li
    using identity_inj(1) [OF v n that] .
  show "unat (li_local_expert_id li) < eg_num_experts (vp_geometry plan)" "li_layer_index li < length (mp_layer_plans (mc_plan mc))"
    if "identity mc g = Inr li" for g li
    using identity_inj(2,3) [OF v n that that] eq by auto
  show "authoritative_gpu env n = Inr ()" if "authoritative_gpu env m = Inr ()" "n \<le> m" for n m
  proof -
    have "n \<le> m \<and> en_device_loss env n \<noteq> None \<longrightarrow> en_device_loss env m \<noteq> None"
      using assms unfolding layer_ctx_def env_ok_def by blast
    then show ?thesis using that by (auto simp: authoritative_gpu_def split: if_splits option.splits)
  qed
  show "length v = eg_slot_stride_bytes (vp_geometry plan)" if "en_staging_view env n = Some v" for n v
    using assms that unfolding layer_ctx_def env_ok_def by blast
qed

text \<open>\<open>X\<close> holds the experts whose install has been published and not recorded yet. Once the device is
  lost a published expert may stay unrecorded; until then every owner is known.\<close>

definition tier_ok ::
    "('c, physical_record) lru_ops \<Rightarrow> env \<Rightarrow> manager_ctx \<Rightarrow> usize \<Rightarrow> vram_plan \<Rightarrow> install_task set \<Rightarrow>
     usize set \<Rightarrow> 'c locked \<Rightarrow> bool" where
  "tier_ok L env mc l plan P X s \<longleftrightarrow>
     layer_ctx env mc plan \<and> in_flight (mc_context_id mc) l plan P (lr_arena s) \<and>
     lru_valid L (lr_residents s) \<and> lru_bound L (lr_residents s) = None \<and>
     records_ok mc l (arena_view (lr_arena s)) (map_of (lru_iter L (lr_residents s))) \<and>
     (authoritative_gpu env (clock s) = Inr () \<longrightarrow>
        owners_known (arena_view (lr_arena s)) (map_of (lru_iter L (lr_residents s))) P X)"

lemma tier_okD:
  assumes "tier_ok L env mc l plan P X s"
  shows "layer_ctx env mc plan" "in_flight (mc_context_id mc) l plan P (lr_arena s)"
    "lru_valid L (lr_residents s)" "lru_bound L (lr_residents s) = None"
    "records_ok mc l (arena_view (lr_arena s)) (map_of (lru_iter L (lr_residents s)))"
    "authoritative_gpu env (clock s) = Inr () \<Longrightarrow>
       owners_known (arena_view (lr_arena s)) (map_of (lru_iter L (lr_residents s))) P X"
  using assms by (auto simp: tier_ok_def)

lemma log_simps [simp]:
  "lr_arena (on_log f s) = lr_arena s" "lr_residents (on_log f s) = lr_residents s"
  "lr_arena (tick s) = lr_arena s" "lr_residents (tick s) = lr_residents s"
  "lr_arena (bump_counter h s) = lr_arena s" "lr_residents (bump_counter h s) = lr_residents s"
  "clock (tick s) = Suc (clock s)" "clock (bump_counter h s) = clock s"
  "lr_residents (drop_permit p s) = lr_residents s" "clock (drop_permit p s) = clock s"
  "lr_arena (drop_permit p s) = permit_drop p (lr_arena s)"
  by (simp_all add: on_log_def tick_def bump_counter_def tick_log_def count_log_def drop_permit_def)

lemma count_stale_simps [simp]:
  "lr_arena (count_stale s) = lr_arena s" "lr_residents (count_stale s) = lr_residents s" "clock (count_stale s) = clock s"
  "lr_arena (record_speculative_drop s) = lr_arena s" "lr_residents (record_speculative_drop s) = lr_residents s"
  "clock (record_speculative_drop s) = clock s"
  by (simp_all add: count_stale_def record_speculative_drop_def)

lemma tier_ok_cong:
  assumes "lr_arena s' = lr_arena s" "lr_residents s' = lr_residents s" "clock s' = clock s"
  shows "tier_ok L env mc l plan P X s' = tier_ok L env mc l plan P X s"
  using assms by (simp add: tier_ok_def)

lemma tier_ok_simps [simp]:
  "tier_ok L env mc l plan P X (bump_counter f s) = tier_ok L env mc l plan P X s"
  "tier_ok L env mc l plan P X (count_stale s) = tier_ok L env mc l plan P X s"
  "tier_ok L env mc l plan P X (record_speculative_drop s) = tier_ok L env mc l plan P X s"
  by (rule tier_ok_cong; simp)+

lemma tier_ok_tick:
  assumes "tier_ok L env mc l plan P X s"
  shows "tier_ok L env mc l plan P X (tick s)"
  using assms layer_ctxD(6) [OF tier_okD(1) [OF assms], of "Suc (clock s)" "clock s"] by (simp add: tier_ok_def)

lemma tier_validate:
  assumes "tier_ok L env mc l plan P X s"
  shows "validate_q4_expert_arena (mc_context_id mc) (lr_arena s) (mc_limits mc) = Inr ()"
proof -
  note T = tier_okD [OF assms] and F = in_flight_arena [OF tier_okD(2) [OF assms]]
  obtain ts where "arena_in (mc_context_id mc) l plan ts (lr_arena s)" using F(1) by blast
  then obtain ins where "system_inv (lr_arena s, ts, ins)" using arena_inD(5) by blast
  moreover obtain dm df ne k where "geometry_try_new dm df ne k = Inr (vp_geometry plan)"
    using T(1) by (auto simp: layer_ctx_def)
  ultimately show ?thesis
    using validate_system [of dm df ne k "lr_arena s" ts ins "mc_limits mc"] T(1) F(3,5)
    by (simp add: layer_ctx_def)
qed

text \<open>A call of the executor that changes the owner of one unrecorded expert.\<close>

lemma tier_arena_change:
  assumes T: "tier_ok L env mc l plan P X s" and F: "in_flight (mc_context_id mc) l plan P' (lr_arena s')"
    and V: "arena_view (lr_arena s') = (arena_view (lr_arena s))(e := x)"
    and free: "\<forall>i r. arena_view (lr_arena s) e \<noteq> Some (i, OwnerResident r)"
    and "x \<noteq> None \<Longrightarrow> e \<in> X' \<or> (\<exists>(p, ph) \<in> P'. permit_expert p = e)"
    and "\<And>e'. e' \<noteq> e \<Longrightarrow> e' \<in> X \<Longrightarrow> e' \<in> X'"
    and "\<And>p ph. (p, ph) \<in> P \<Longrightarrow> permit_expert p \<noteq> e \<Longrightarrow> \<exists>ph. (p, ph) \<in> P'"
    and s': "lr_residents s' = lr_residents s" "clock s \<le> clock s'"
  shows "tier_ok L env mc l plan P' X' s'"
proof -
  note D = tier_okD [OF T]
  have "owners_known (arena_view (lr_arena s')) (map_of (lru_iter L (lr_residents s'))) P' X'"
    if "authoritative_gpu env (clock s') = Inr ()"
  proof (rule owners_known_change [where e = e])
    show "owners_known (arena_view (lr_arena s)) (map_of (lru_iter L (lr_residents s))) P X"
      using D(6) layer_ctxD(6) [OF D(1) that s'(2)] by blast
  qed (use V s' assms(5-7) in auto)
  moreover have "records_ok mc l (arena_view (lr_arena s')) (map_of (lru_iter L (lr_residents s')))"
    unfolding V s' by (rule records_other [OF D(5) free])
  ultimately show ?thesis using D(1,3,4) F s' by (simp add: tier_ok_def)
qed

lemma tier_arena_same:
  assumes T: "tier_ok L env mc l plan P X s" and F: "in_flight (mc_context_id mc) l plan P' (lr_arena s')"
    and V: "arena_view (lr_arena s') = arena_view (lr_arena s)"
    and "\<And>p ph. (p, ph) \<in> P \<Longrightarrow> \<exists>ph. (p, ph) \<in> P'"
    and s': "lr_residents s' = lr_residents s" "clock s \<le> clock s'"
  shows "tier_ok L env mc l plan P' X s'"
proof -
  note D = tier_okD [OF T]
  have "owners_known (arena_view (lr_arena s')) (map_of (lru_iter L (lr_residents s'))) P' X"
    if "authoritative_gpu env (clock s') = Inr ()"
  proof -
    have "owners_known (arena_view (lr_arena s)) (map_of (lru_iter L (lr_residents s))) P X"
      using D(6) layer_ctxD(6) [OF D(1) that s'(2)] by blast
    then show ?thesis using assms(4) V s'(1) by (fastforce simp: owners_known_def)
  qed
  then show ?thesis using D F V s' by (simp add: tier_ok_def)
qed

lemma permit_owner_free: "\<forall>i r. Some (permit_owner p) \<noteq> Some (i, OwnerResident r)"
  by simp

lemma flight_owner: "in_flight ctx l plan P a \<Longrightarrow> (p, ph) \<in> P \<Longrightarrow> arena_view a (permit_expert p) = Some (permit_owner p)"
  using flight_taskD(2) unfolding in_flight_def by blast

lemma flight_phase_unique: "in_flight ctx l plan P a \<Longrightarrow> (p, ph) \<in> P \<Longrightarrow> (p, ph') \<in> P \<Longrightarrow> ph = ph'"
  unfolding in_flight_def using flight_taskD(1) by (metis option.inject prod.inject)

lemma drop_permit_ok:
  assumes T: "tier_ok L env mc l plan P X s" and p: "(p, ph) \<in> P"
  shows "tier_ok L env mc l plan (P - {(p, ph)}) X (drop_permit p s)"
proof -
  note D = tier_okD [OF T]
  note F = flight_drop [OF D(2) p]
  show ?thesis
  proof (rule tier_arena_change [OF T, where e = "permit_expert p" and x = None])
    show "in_flight (mc_context_id mc) l plan (P - {(p, ph)}) (lr_arena (drop_permit p s))" using F(1) by simp
  qed (use F(2) flight_owner [OF D(2) p] in auto)
qed

lemma gpu_consistent: "authoritative_gpu env n = Inl x \<Longrightarrow> consistent_error x"
  by (auto simp: authoritative_gpu_def consistent_error_def split: if_splits option.splits)

lemma reserve_not_foreign: "fst (reserve_slot key a) \<noteq> Inl ForeignExpertArena"
  by (auto simp: reserve_slot_def Let_def split: prod.splits option.splits)

lemma supersede_not_foreign: "supersede_slot (unat (w :: u32)) i a \<noteq> Inl ForeignExpertArena"
  by (auto simp: supersede_slot_def mapping_offset_u32 split: slot_owner.split)

lemma acquire_not_foreign: "fst (acquire_with_unpublish key a) \<noteq> Inl ForeignExpertArena"
proof (cases "supersede_slot (unat (qk_expert_id key))
    (the (as_logical_slots (qa_state a) ! unat (qk_expert_id key))) a")
  case (Inl x)
  then have "x \<noteq> ForeignExpertArena" using supersede_not_foreign by metis
  with Inl reserve_not_foreign [of key a] show ?thesis
    by (auto simp: acquire_with_unpublish_def Let_def split: option.split slot_owner.split)
next
  case (Inr a')
  with reserve_not_foreign [of key a] reserve_not_foreign [of key a'] show ?thesis
    by (auto simp: acquire_with_unpublish_def Let_def split: option.split slot_owner.split)
qed

lemma acquire_ok:
  assumes T: "tier_ok L env mc l plan P X s" and key: "qk_layer_index key = l"
    and e: "unat (qk_expert_id key) < eg_num_experts (vp_geometry plan)" and X: "unat (qk_expert_id key) \<notin> X"
    and R: "\<And>g r. map_of (lru_iter L (lr_residents s)) g = Some r \<Longrightarrow> record_expert r \<noteq> unat (qk_expert_id key)"
    and P: "\<And>p ph. (p, ph) \<in> P \<Longrightarrow> permit_expert p \<noteq> unat (qk_expert_id key)"
    and r: "acquire_q4_expert_residency env mc key s = (res, s')"
  obtains (install) p where "res = Inr (AcquireInstall p)" "ip_key p = key" "(p, Reserved) \<notin> P"
      "tier_ok L env mc l plan (insert (p, Reserved) P) X s'" "lr_residents s' = lr_residents s"
  | (stale) "res = Inr AcquireStaleRequester" "tier_ok L env mc l plan P X s'" "lr_residents s' = lr_residents s"
  | (full) "res = Inr NoPhysicalSlot" "tier_ok L env mc l plan P X s'" "lr_residents s' = lr_residents s"
      "\<forall>x \<in> set (qa_slots (lr_arena s)). sl_owner x \<noteq> OwnerFree"
      "owners_known (arena_view (lr_arena s)) (map_of (lru_iter L (lr_residents s))) P X"
  | (error) x where "res = Inl x" "consistent_error x" "tier_ok L env mc l plan P X s'" "lr_residents s' = lr_residents s"
proof (cases "authoritative_gpu env (clock s)")
  case (Inl x)
  then show thesis
    using r error gpu_consistent [OF Inl] tier_ok_tick [OF T] by (auto simp: acquire_q4_expert_residency_def)
next
  case (Inr u)
  note D = tier_okD [OF T]
  have known: "owners_known (arena_view (lr_arena s)) (map_of (lru_iter L (lr_residents s))) P X"
    using D(6) Inr by simp
  have none: "arena_view (lr_arena s) (unat (qk_expert_id key)) = None"
  proof (rule ccontr)
    assume "arena_view (lr_arena s) (unat (qk_expert_id key)) \<noteq> None"
    then show False using known X R P unfolding owners_known_def by fastforce
  qed
  obtain a' where a': "acquire_with_unpublish key (lr_arena s) = (res, a')" "s' = (tick s)\<lparr>lr_arena := a'\<rparr>"
    using r Inr tier_validate [OF T] by (auto simp: acquire_q4_expert_residency_def split: prod.splits)
  have s': "lr_arena s' = a'" "lr_residents s' = lr_residents s" "clock s \<le> clock s'"
    using a'(2) by (simp_all add: tick_def on_log_def tick_log_def)
  from D(2) key e none a'(1) show thesis
  proof (cases rule: flight_acquire)
    case (install p)
    have "tier_ok L env mc l plan (insert (p, Reserved) P) X s'"
    proof (rule tier_arena_change [OF T, where e = "permit_expert p" and x = "Some (permit_owner p)"])
      show "in_flight (mc_context_id mc) l plan (insert (p, Reserved) P) (lr_arena s')" using install(4) s' by simp
    qed (use install s' none in auto)
    then show thesis using that(1) install s' by blast
  next
    case other
    have T': "tier_ok L env mc l plan P X s'"
      by (rule tier_arena_same [OF T]) (use other s' in auto)
    have "res = Inr AcquireStaleRequester \<or> res = Inr NoPhysicalSlot \<or> (\<exists>x. res = Inl x)"
      using other(1-3) by (cases res) (metis q4_acquire.exhaust, metis q4_acquire.exhaust)
    moreover have "consistent_error x" if "res = Inl x" for x
      using other(4) that acquire_not_foreign [of key "lr_arena s"] a'(1) by (auto simp: consistent_error_def)
    ultimately show thesis using stale full error T' s'(2) other(7) known by metis
  qed
qed

lemma stage_ok:
  assumes T: "tier_ok L env mc l plan P X s" and p: "(p, Reserved) \<in> P"
    and r: "stage_q4_expert_residency env mc nz p payload s = (res, s')"
  obtains (staged) pr where "res = Inr pr" "pi_permit pr = p"
      "tier_ok L env mc l plan (insert (p, Staged payload pr) (P - {(p, Reserved)})) X s'"
      "lr_residents s' = lr_residents s"
  | (failed) x where "res = Inl x" "consistent_error x" "tier_ok L env mc l plan (P - {(p, Reserved)}) X s'"
      "lr_residents s' = lr_residents s"
proof (cases "authoritative_gpu env (clock s)")
  case (Inl x)
  then show thesis
    using r failed gpu_consistent [OF Inl] drop_permit_ok [OF tier_ok_tick [OF T] p]
    by (auto simp: stage_q4_expert_residency_def)
next
  case (Inr u)
  note D = tier_okD [OF T]
  have ctx: "qa_context_id (lr_arena s) = mc_context_id mc" using in_flight_arena(3) [OF D(2)] .
  let ?a = "lr_arena s"
  from D(2) p show thesis
  proof (cases rule: flight_stage_check [where payload = payload])
    case (refused x)
    have res: "res = Inl x" "s' = drop_permit p ((tick s)\<lparr>lr_arena := ?a\<rparr>)"
      using r Inr ctx refused by (auto simp: stage_q4_expert_residency_def)
    have "tier_ok L env mc l plan P X ((tick s)\<lparr>lr_arena := ?a\<rparr>)"
      using tier_ok_tick [OF T] by (simp add: tier_ok_def tick_def on_log_def tick_log_def)
    from drop_permit_ok [OF this p] show thesis using failed res refused(2) by simp
  next
    case (checked cs off pr)
    let ?v = "en_staging_view env (Suc (clock s))"
    obtain wres a' where w: "stage_write nz ?v (el_bank (qr_location (ip_residency p))) off cs ?a = (wres, a')"
      by (cases "stage_write nz ?v (el_bank (qr_location (ip_residency p))) off cs ?a")
    have v: "\<forall>x. ?v = Some x \<longrightarrow> length x = eg_slot_stride_bytes (vp_geometry plan)"
      using layer_ctxD(7) [OF D(1)] by blast
    let ?P = "P - {(p, Reserved)}" and ?s = "(tick (tick s))\<lparr>lr_arena := a'\<rparr>"
    have notin: "(p, Staging payload cs off pr) \<notin> P"
      using flight_phase_unique [OF D(2) p] by blast
    note W = flight_stage_write [OF checked(3) insertI1 v w]
    have P': "insert (p, Staging payload cs off pr) ?P - {(p, Staging payload cs off pr)} = ?P" using notin by auto
    have s1: "lr_arena ?s = a'" "lr_residents ?s = lr_residents s" "clock s \<le> clock ?s"
      by (simp_all add: tick_def on_log_def tick_log_def)
    have T': "tier_ok L env mc l plan (insert (p, if wres = Inr () then Staged payload pr else Abandoned) ?P) X ?s"
      by (rule tier_arena_same [OF T]) (use W(1,2) P' s1 in auto)
    from W(3) show thesis
    proof
      assume ok: "wres = Inr ()"
      then have "res = Inr pr" "s' = ?s" using r Inr ctx checked(1) w by (auto simp: stage_q4_expert_residency_def)
      then show thesis using staged T' ok checked(2) s1(2) by simp
    next
      assume "\<exists>x. wres = Inl x \<and> consistent_error x"
      then obtain x where x: "wres = Inl x" "consistent_error x" by blast
      then have res: "res = Inl x" "s' = drop_permit p ?s"
        using r Inr ctx checked(1) w by (auto simp: stage_q4_expert_residency_def)
      have "tier_ok L env mc l plan (insert (p, Abandoned) ?P - {(p, Abandoned)}) X (drop_permit p ?s)"
        using T' x(1) by (intro drop_permit_ok) simp_all
      moreover have "insert (p, Abandoned) ?P - {(p, Abandoned)} = ?P"
        using flight_phase_unique [OF D(2) p] by blast
      ultimately show thesis using failed res x(2) by simp
    qed
  qed
qed

lemma commit_ok:
  assumes T: "tier_ok L env mc l plan P X s" and p: "(p, Staged payload pr) \<in> P" and pr: "pi_permit pr = p"
    and r: "commit_q4_expert_residency env mc pr s = (res, s')"
  obtains (committed) "res = Inr (ip_residency p)"
      "tier_ok L env mc l plan (P - {(p, Staged payload pr)}) (insert (permit_expert p) X) s'"
      "\<exists>i. arena_view (lr_arena s') (permit_expert p) = Some (i, OwnerResident (ip_residency p))"
      "lr_residents s' = lr_residents s" "qr_key (ip_residency p) = ip_key p"
  | (failed) x where "res = Inl x" "consistent_error x" "tier_ok L env mc l plan (P - {(p, Staged payload pr)}) X s'"
      "lr_residents s' = lr_residents s"
proof (cases "authoritative_gpu env (clock s)")
  case (Inl x)
  then show thesis
    using r pr failed gpu_consistent [OF Inl] drop_permit_ok [OF tier_ok_tick [OF T] p]
    by (auto simp: commit_q4_expert_residency_def)
next
  case (Inr u)
  note D = tier_okD [OF T]
  have ctx: "qa_context_id (lr_arena s) = mc_context_id mc" using in_flight_arena(3) [OF D(2)] .
  obtain a' where a': "commit_with_mapping_writer pr (lr_arena s) = (Inr (ip_residency p), a')"
    "in_flight (mc_context_id mc) l plan (P - {(p, Staged payload pr)}) a'"
    "arena_view a' = (arena_view (lr_arena s))(permit_expert p \<mapsto> (ip_flat_slot p, OwnerResident (ip_residency p)))"
    by (rule flight_commit [OF D(2) p])
  have res: "res = Inr (ip_residency p)" "s' = (tick s)\<lparr>lr_arena := a'\<rparr>"
    using r Inr ctx a'(1) by (auto simp: commit_q4_expert_residency_def)
  have s': "lr_arena s' = a'" "lr_residents s' = lr_residents s" "clock s \<le> clock s'"
    using res(2) by (simp_all add: tick_def on_log_def tick_log_def)
  have "tier_ok L env mc l plan (P - {(p, Staged payload pr)}) (insert (permit_expert p) X) s'"
  proof (rule tier_arena_change [OF T, where e = "permit_expert p" and x = "Some (ip_flat_slot p, OwnerResident (ip_residency p))"])
    show "in_flight (mc_context_id mc) l plan (P - {(p, Staged payload pr)}) (lr_arena s')" using a'(2) s' by simp
  qed (use a'(3) s' flight_owner [OF D(2) p] in auto)
  moreover have "qr_key (ip_residency p) = ip_key p"
    using D(2) p arena_permit(1) flight_taskD(1) unfolding in_flight_def permit_inv_def by metis
  ultimately show thesis using committed res(1) a'(3) s' by simp
qed

lemma install_ok:
  assumes T: "tier_ok L env mc l plan P X s" and p: "(p, Reserved) \<in> P"
    and r: "install_q4_expert_residency env mc path p payload s = (res, s')"
  obtains (installed) "res = Inr (ip_residency p)"
      "tier_ok L env mc l plan (P - {(p, Reserved)}) (insert (permit_expert p) X) s'"
      "\<exists>i. arena_view (lr_arena s') (permit_expert p) = Some (i, OwnerResident (ip_residency p))"
      "lr_residents s' = lr_residents s" "qr_key (ip_residency p) = ip_key p"
  | (failed) x where "res = Inl x" "consistent_error x" "tier_ok L env mc l plan (P - {(p, Reserved)}) X s'"
      "lr_residents s' = lr_residents s"
proof (cases "authoritative_gpu env (clock s)")
  case (Inl x)
  then show thesis
    using r failed gpu_consistent [OF Inl] drop_permit_ok [OF tier_ok_tick [OF T] p]
    by (auto simp: install_q4_expert_residency_def)
next
  case (Inr u)
  note D = tier_okD [OF T]
  have ctx: "qa_context_id (lr_arena s) = mc_context_id mc" using in_flight_arena(3) [OF D(2)] .
  let ?v = "en_staging_view env (Suc (clock s))"
  let ?f = "if path = LegacyFullSlotVecControl then install_with_writes payload p (lr_arena s)
            else install_sequential ?v payload p (lr_arena s)"
  obtain ires active a' where i: "?f = (ires, active, a')" by (cases ?f)
  then have i': "install_sequential ?v payload p (lr_arena s) = (ires, active, a') \<or>
      install_with_writes payload p (lr_arena s) = (ires, active, a')" by (auto split: if_splits)
  let ?s = "(tick (tick s))\<lparr>lr_arena := a'\<rparr>"
  have s1: "lr_arena ?s = a'" "lr_residents ?s = lr_residents s" "clock s \<le> clock ?s"
    by (simp_all add: tick_def on_log_def tick_log_def)
  have v: "\<forall>x. ?v = Some x \<longrightarrow> length x = eg_slot_stride_bytes (vp_geometry plan)"
    using layer_ctxD(7) [OF D(1)] by blast
  from D(2) p v i' show thesis
  proof (cases rule: flight_install)
    case success
    have res: "res = Inr (ip_residency p)" "s' = ?s"
      using r Inr ctx i success(1) by (auto simp: install_q4_expert_residency_def)
    have "tier_ok L env mc l plan (P - {(p, Reserved)}) (insert (permit_expert p) X) ?s"
    proof (rule tier_arena_change [OF T, where e = "permit_expert p" and x = "Some (ip_flat_slot p, OwnerResident (ip_residency p))"])
      show "in_flight (mc_context_id mc) l plan (P - {(p, Reserved)}) (lr_arena ?s)" using success(3) s1 by simp
    qed (use success(4) s1 flight_owner [OF D(2) p] in auto)
    moreover have "qr_key (ip_residency p) = ip_key p"
      using D(2) p arena_permit(1) flight_taskD(1) unfolding in_flight_def permit_inv_def by metis
    ultimately show thesis using installed res success(4) s1 by simp
  next
    case (failed x)
    have res: "res = Inl x" "s' = drop_permit p ?s"
      using r Inr ctx i failed(1,3) by (auto simp: install_q4_expert_residency_def Let_def)
    have "tier_ok L env mc l plan P X ?s"
      by (rule tier_arena_same [OF T]) (use failed(4,5) s1 in auto)
    then have "tier_ok L env mc l plan (P - {(p, Reserved)}) X s'" unfolding res(2) using p by (rule drop_permit_ok)
    then show thesis using that(2) res failed(2) s1(2) by simp
  qed
qed

subsection \<open>Under the lock\<close>

text \<open>The errors a consistent manager can report.\<close>

fun reportable :: "tiered_error \<Rightarrow> bool" where
  "reportable (PhysicalIdentityCorrupt _) = False"
| "reportable (TieredInstallInProgress _ _) = False"
| "reportable (TieredNoPhysicalSlot _) = False"
| "reportable (NoEvictablePhysicalSlot _) = False"
| "reportable (Backend x) = consistent_error x"
| "reportable _ = True"

lemma tbind_cases:
  "tbind m f = (res, s') \<longleftrightarrow>
    (\<exists>e. m = (Inl e, s') \<and> res = Inl e) \<or> (\<exists>a s. m = (Inr a, s) \<and> f a s = (res, s'))"
  by (cases "(m, f)" rule: tbind.cases) auto

lemma backend_cases:
  "backend m = (res, s') \<longleftrightarrow> (\<exists>x. m = (Inl x, s') \<and> res = Inl (Backend x)) \<or> (\<exists>a. m = (Inr a, s') \<and> res = Inr a)"
proof -
  obtain r s where m: "m = (r, s)" by (cases m)
  show ?thesis unfolding m by (cases r) (auto simp: backend_def)
qed

abbreviation recs :: "('c, physical_record) lru_ops \<Rightarrow> 'c locked \<Rightarrow> records" where
  "recs L s \<equiv> map_of (lru_iter L (lr_residents s))"

text \<open>The lemmas of the manager rest on the contract of the \<open>lru\<close> crate for its records.\<close>

locale record_cache = lru_cache L for L :: "('c, physical_record) lru_ops"
begin

lemma current_record_ok:
  assumes T: "tier_ok L env mc l plan P X s" and r: "current_record_locked L mc g tf s = (res, s')"
  shows "res = Inr (recs L s g)" "tier_ok L env mc l plan P X s'" "recs L s' = recs L s"
    "lru_len L (lr_residents s') = lru_len L (lr_residents s)"
proof -
  note D = tier_okD [OF T]
  have peek: "lru_peek L (lr_residents s) g = recs L s g" using peek_entry [OF D(3)] .
  have "res = Inr (recs L s g) \<and> tier_ok L env mc l plan P X s' \<and> recs L s' = recs L s \<and>
      lru_len L (lr_residents s') = lru_len L (lr_residents s)"
  proof (cases "recs L s g")
    case None
    then show ?thesis using r peek T by (auto simp: current_record_locked_def)
  next
    case (Some x)
    have ok: "record_ok mc l (arena_view (lr_arena s)) g x" using D(5) Some by (simp add: records_ok_def)
    obtain ts where A: "arena_in (mc_context_id mc) l plan ts (lr_arena s)" using in_flight_arena(1) [OF D(2)] by blast
    have "contains_exact_residency (mc_context_id mc) (ph_residency x) (lr_arena s)"
      using ok exact_view [OF A] by (auto simp: record_ok_def)
    then have eq: "current_record_locked L mc g tf s =
        (if tf then (case lru_get L (lr_residents s) g of (r', c) \<Rightarrow> (Inr r', s\<lparr>lr_residents := c\<rparr>))
         else (Inr (Some x), s))"
      using ok peek Some in_flight_arena(4) [OF D(2)] by (simp add: current_record_locked_def record_ok_def)
    obtain r' c where g: "lru_get L (lr_residents s) g = (r', c)" by (cases "lru_get L (lr_residents s) g")
    have G: "r' = recs L s g" "lru_valid L c" "lru_bound L c = lru_bound L (lr_residents s)"
      "map_of (lru_iter L c) = recs L s" "length (lru_iter L c) = length (lru_iter L (lr_residents s))"
      using get_entry [OF D(3) g] length_touch [OF keys_distinct [OF D(3)]] by auto
    have "tier_ok L env mc l plan P X (s\<lparr>lr_residents := c\<rparr>)"
      using T G by (simp add: tier_ok_def)
    then show ?thesis using r eq g G Some T len_entries [OF D(3)] len_entries [OF G(2)] by (auto split: if_splits)
  qed
  then show "res = Inr (recs L s g)" "tier_ok L env mc l plan P X s'" "recs L s' = recs L s"
    "lru_len L (lr_residents s') = lru_len L (lr_residents s)" by auto
qed

text \<open>Retiring an exact residency fails only on a lost device.\<close>

lemma retire_ok:
  assumes T: "tier_ok L env mc l plan P X s"
    and v: "arena_view (lr_arena s) (unat (qk_expert_id (qr_key r))) = Some (i, OwnerResident r)"
    and q: "retire_q4_expert_residency env mc (qr_key r) s = (res, s')"
  obtains (retired) a' where "res = Inr Retired" "in_flight (mc_context_id mc) l plan P a'"
      "arena_view a' = (arena_view (lr_arena s))(unat (qk_expert_id (qr_key r)) := None)"
      "s' = (tick s)\<lparr>lr_arena := a'\<rparr>"
  | (lost) x where "res = Inl x" "consistent_error x" "s' = tick s" "authoritative_gpu env (clock s) \<noteq> Inr ()"
proof (cases "authoritative_gpu env (clock s)")
  case (Inl x)
  then show thesis using q lost gpu_consistent [OF Inl] by (auto simp: retire_q4_expert_residency_def)
next
  case (Inr u)
  obtain a' where a': "retire_with_unpublish (qr_key r) (lr_arena s) = (Inr Retired, a')"
    "in_flight (mc_context_id mc) l plan P a'"
    "arena_view a' = (arena_view (lr_arena s))(unat (qk_expert_id (qr_key r)) := None)"
    by (rule flight_retire [OF tier_okD(2) [OF T] v])
  then show thesis
    using q Inr tier_validate [OF T] retired by (auto simp: retire_q4_expert_residency_def)
qed

lemma retire_metadata_ok:
  assumes T: "tier_ok L env mc l plan P X s" and g: "recs L s g = Some x"
    and r: "retire_metadata_record_locked L env mc g ev s = (res, s')"
  obtains (retired) "res = Inr ()" "tier_ok L env mc l plan P X s'" "recs L s' = (recs L s)(g := None)"
      "lru_len L (lr_residents s) = Suc (lru_len L (lr_residents s'))"
  | (lost) e where "res = Inl e" "reportable e" "tier_ok L env mc l plan P X s'"
proof -
  note D = tier_okD [OF T]
  have ok: "record_ok mc l (arena_view (lr_arena s)) g x" using D(5) g by (simp add: records_ok_def)
  then have key: "ph_key x = qr_key (ph_residency x)" by (simp add: record_ok_def)
  obtain i where v: "arena_view (lr_arena s) (unat (qk_expert_id (qr_key (ph_residency x)))) = Some (i, OwnerResident (ph_residency x))"
    using ok by (auto simp: record_ok_def)
  have peek: "lru_peek L (lr_residents s) g = Some x" using peek_entry [OF D(3)] g by simp
  obtain qres s1 where q: "retire_q4_expert_residency env mc (ph_key x) s = (qres, s1)"
    by (cases "retire_q4_expert_residency env mc (ph_key x) s")
  from T v q [unfolded key] show thesis
  proof (cases rule: retire_ok)
    case (lost e)
    then show thesis
      using r peek q that(2) [of "Backend e"] tier_ok_tick [OF T]
      by (auto simp: retire_metadata_record_locked_def backend_def)
  next
    case (retired a')
    obtain pr c where p: "lru_pop L (lr_residents s) g = (pr, c)" by (cases "lru_pop L (lr_residents s) g")
    have C: "lru_valid L c" "lru_bound L c = None" "map_of (lru_iter L c) = (recs L s)(g := None)"
      "Suc (length (lru_iter L c)) = length (lru_iter L (lr_residents s))"
      using pop_entry [OF D(3) p] D(4) length_del_key [OF keys_distinct [OF D(3)] g] by (auto simp: fun_eq_iff)
    have s1: "lr_residents s1 = lr_residents s" "lr_arena s1 = a'" "clock s1 = Suc (clock s)"
      using retired(4) by (simp_all add: tick_def on_log_def tick_log_def)
    have s': "res = Inr ()" "lr_arena s' = a'" "lr_residents s' = c" "clock s' = Suc (clock s)"
      using r peek q retired(1) s1 p
      by (auto simp: retire_metadata_record_locked_def backend_def Let_def bump_counter_def on_log_def count_log_def)
    have "records_ok mc l (arena_view a') ((recs L s)(g := None))"
      using records_del [OF D(5) g layer_ctxD(3) [OF D(1)]] retired(3) key by simp
    moreover have "owners_known (arena_view a') ((recs L s)(g := None)) P X"
      if "authoritative_gpu env (clock s') = Inr ()"
    proof (rule owners_known_change [where e = "record_expert x"])
      show "owners_known (arena_view (lr_arena s)) (recs L s) P X"
        using D(6) layer_ctxD(6) [OF D(1) that, of "clock s"] s'(4) by simp
      show "\<exists>g2 r'. ((recs L s)(g := None)) g2 = Some r' \<and> record_expert r' = record_expert y"
        if "recs L s g' = Some y" "record_expert y \<noteq> record_expert x" for g' y
        using that g by (intro exI [of _ g'] exI [of _ y]) auto
    qed (use retired(3) key in auto)
    ultimately have "tier_ok L env mc l plan P X s'"
      using D(1) retired(2) C s' by (simp add: tier_ok_def)
    then show thesis using that(1) s' C len_entries [OF D(3)] len_entries [OF C(1)] by simp
  qed
qed

lemma record_install_simps:
  "lr_arena (record_install L g key r b sp s) = lr_arena s" "clock (record_install L g key r b sp s) = clock s"
  "lr_residents (record_install L g key r b sp s) = snd (lru_put L (lr_residents s) g \<lparr>ph_key = key, ph_residency = r\<rparr>)"
  by (auto simp: record_install_def Let_def bump_counter_def on_log_def count_log_def)

lemma keep_ok:
  assumes T: "tier_ok L env mc l plan P (insert (unat (qk_expert_id key)) X) s"
    and v: "arena_view (lr_arena s) (unat (qk_expert_id key)) = Some (i, OwnerResident r)"
    and key: "qr_key r = key" "qk_layer_index key = l"
      "identity mc g = Inr \<lparr>li_layer_index = l, li_local_expert_id = qk_expert_id key\<rparr>"
    and none: "recs L s g = None" and X: "unat (qk_expert_id key) \<notin> X"
    and k: "keep_if_current L env mc g key r b sp s = (res, s')"
  obtains (kept) "res = Inr r" "tier_ok L env mc l plan P X s'" "recs L s' = (recs L s)(g \<mapsto> \<lparr>ph_key = key, ph_residency = r\<rparr>)"
      "lru_len L (lr_residents s') = Suc (lru_len L (lr_residents s))"
  | (stale) e where "res = Inl e" "reportable e" "tier_ok L env mc l plan P X s'" "recs L s' = recs L s"
proof -
  let ?e = "unat (qk_expert_id key)" and ?x = "\<lparr>ph_key = key, ph_residency = r\<rparr>"
  note T1 = tier_ok_tick [OF T]
  note D = tier_okD [OF T1, simplified]
  have unrec: "record_expert y \<noteq> ?e" if "recs L s g' = Some y" for g' y
  proof
    assume eq: "record_expert y = ?e"
    have "record_ok mc l (arena_view (lr_arena s)) g' y" using D(5) that by (simp add: records_ok_def)
    then have "identity mc g' = Inr \<lparr>li_layer_index = l, li_local_expert_id = qk_expert_id key\<rparr>"
      using word_id_inj [OF eq] by (simp add: record_ok_def)
    then show False using layer_ctxD(3) [OF D(1) key(3)] that none by auto
  qed
  show thesis
  proof (cases "en_contains_generation env (clock s) g (qk_logical_generation key)")
    case True
    then have k': "res = Inr r" "s' = record_install L g key r b sp (tick s)"
      using k by (simp_all add: keep_if_current_def Let_def)
    obtain o' c where p: "lru_put L (lr_residents s) g ?x = (o', c)" by (cases "lru_put L (lr_residents s) g ?x")
    have C: "lru_valid L c" "lru_bound L c = None" "lru_iter L c = (g, ?x) # lru_iter L (lr_residents s)"
      using put_unbounded [OF D(3) _ D(4) p] none peek_entry [OF D(3)] by auto
    have s': "lr_arena s' = lr_arena s" "lr_residents s' = c" "clock s' = Suc (clock s)"
      using k'(2) p by (simp_all add: record_install_simps)
    have "record_ok mc l (arena_view (lr_arena s)) g ?x" using v key by (simp add: record_ok_def)
    then have "records_ok mc l (arena_view (lr_arena s)) ((recs L s)(g \<mapsto> ?x))"
      using D(5) by (simp add: records_ok_def)
    moreover have "owners_known (arena_view (lr_arena s)) ((recs L s)(g \<mapsto> ?x)) P X"
      if "authoritative_gpu env (Suc (clock s)) = Inr ()"
    proof (rule owners_known_change [OF D(6) [OF that], where e = ?e])
      show "\<exists>g' r'. ((recs L s)(g \<mapsto> ?x)) g' = Some r' \<and> record_expert r' = record_expert y" if "recs L s g' = Some y" for g' y
        using that none by (metis fun_upd_other option.distinct(1))
    qed (use unrec in \<open>auto intro!: exI [of _ g]\<close>)
    ultimately have "tier_ok L env mc l plan P X s'"
      using D(1,2) C s' by (simp add: tier_ok_def)
    then show thesis
      using kept k'(1) C s' len_entries [OF D(3)] len_entries [OF C(1)] by simp
  next
    case False
    obtain qres s1 where q: "retire_q4_expert_residency env mc key (tick s) = (qres, s1)"
      by (cases "retire_q4_expert_residency env mc key (tick s)")
    have v': "arena_view (lr_arena (tick s)) (unat (qk_expert_id (qr_key r))) = Some (i, OwnerResident r)"
      using v key(1) by simp
    from T1 v' q [folded key(1)] show thesis
    proof (cases rule: retire_ok)
      case (lost x)
      have "tier_ok L env mc l plan P X s1"
        using lost(3,4) D layer_ctxD(6) [OF D(1), of "clock s1" "clock (tick s)"] by (auto simp: tier_ok_def)
      then show thesis
        using k q False lost stale [of "Backend x"] key(1)
        by (auto simp: keep_if_current_def Let_def backend_def)
    next
      case (retired a')
      have s1: "lr_arena s1 = a'" "lr_residents s1 = lr_residents s" "clock s1 = Suc (Suc (clock s))"
        using retired(4) by (simp_all add: tick_def on_log_def tick_log_def)
      have "records_ok mc l (arena_view a') (recs L s)"
        unfolding records_ok_def
      proof (intro allI impI)
        fix g' y assume y: "recs L s g' = Some y"
        then have "record_ok mc l (arena_view (lr_arena s)) g' y" using D(5) by (simp add: records_ok_def)
        then show "record_ok mc l (arena_view a') g' y"
          using unrec [OF y] retired(3) key(1) by (simp add: record_ok_def)
      qed
      moreover have "owners_known (arena_view a') (recs L s) P X" if "authoritative_gpu env (clock s1) = Inr ()"
      proof (rule owners_known_change [where e = ?e])
        show "owners_known (arena_view (lr_arena s)) (recs L s) P (insert ?e X)"
          using D(6) layer_ctxD(6) [OF D(1) that, of "Suc (clock s)"] s1(3) by simp
      qed (use retired(3) key(1) in auto)
      ultimately have "tier_ok L env mc l plan P X s1"
        using D(1-4) retired(2) s1 by (simp add: tier_ok_def)
      then show thesis
        using k q False retired(1) key(1) s1(2) stale
        by (auto simp: keep_if_current_def Let_def backend_def)
    qed
  qed
qed

lemma unrecorded:
  assumes T: "tier_ok L env mc l plan P X s" and g: "identity mc g = Inr \<lparr>li_layer_index = l, li_local_expert_id = w\<rparr>"
    and "recs L s g = None" "recs L s g' = Some y"
  shows "record_expert y \<noteq> unat w"
proof
  note D = tier_okD [OF T]
  assume eq: "record_expert y = unat w"
  have "record_ok mc l (arena_view (lr_arena s)) g' y" using D(5) assms(4) by (simp add: records_ok_def)
  then have "identity mc g' = Inr \<lparr>li_layer_index = l, li_local_expert_id = w\<rparr>"
    using word_id_inj [OF eq] by (simp add: record_ok_def)
  then show False using layer_ctxD(3) [OF D(1) g] assms(3,4) by auto
qed

lemma full_count:
  assumes T: "tier_ok L env mc l plan P {} s" and P: "finite P"
    and full: "\<forall>x \<in> set (qa_slots (lr_arena s)). sl_owner x \<noteq> OwnerFree"
    and known: "owners_known (arena_view (lr_arena s)) (recs L s) P {}"
  shows "al_slot_capacity (vp_layout plan) \<le> lru_len L (lr_residents s) + card P"
proof -
  note D = tier_okD [OF T] and F = in_flight_arena [OF tier_okD(2) [OF T]]
  let ?E = "set (lru_iter L (lr_residents s))"
  have "{e. arena_view (lr_arena s) e \<noteq> None} \<subseteq> (\<lambda>x. record_expert (snd x)) ` ?E \<union> (\<lambda>x. permit_expert (fst x)) ` P"
    (is "?V \<subseteq> ?A \<union> ?B")
  proof
    fix e assume "e \<in> ?V"
    then obtain x where "arena_view (lr_arena s) e = Some x" by auto
    then have "(\<exists>g r. recs L s g = Some r \<and> record_expert r = e) \<or> (\<exists>(p, ph) \<in> P. permit_expert p = e)"
      using known by (simp add: owners_known_def)
    then show "e \<in> ?A \<union> ?B"
    proof
      assume "\<exists>g r. recs L s g = Some r \<and> record_expert r = e"
      then obtain g r where "(g, r) \<in> ?E" "record_expert r = e" using map_of_SomeD by metis
      then show ?thesis by (intro UnI1 image_eqI [of _ _ "(g, r)"]) simp_all
    next
      assume "\<exists>(p, ph) \<in> P. permit_expert p = e"
      then show ?thesis by force
    qed
  qed
  then have "card ?V \<le> card (?A \<union> ?B)" using P by (intro card_mono) auto
  also have "\<dots> \<le> card ?A + card ?B" by (rule card_Un_le)
  also have "\<dots> \<le> card ?E + card P" using P by (intro add_mono card_image_le) auto
  also have "card ?E \<le> length (lru_iter L (lr_residents s))" by (rule card_length)
  finally have "card ?V \<le> lru_len L (lr_residents s) + card P" using len_entries [OF D(3)] by simp
  moreover have "length (qa_slots (lr_arena s)) = al_slot_capacity (vp_layout plan)"
    using F(2,5) by (simp add: arena_wf_def)
  ultimately show ?thesis using full_view [OF F(2) full] by simp
qed

lemma key_of_identity:
  assumes "identity mc g = Inr \<lparr>li_layer_index = l, li_local_expert_id = w\<rparr>"
  shows "global_to_q4_expert_key mc g gen = Inr \<lparr>qk_layer_index = l, qk_expert_id = w, qk_logical_generation = gen\<rparr>"
  using assms by (simp add: global_to_q4_expert_key_def)

lemma install_locked_ok:
  assumes T: "tier_ok L env mc l plan {} {} s"
    and g: "identity mc g = Inr \<lparr>li_layer_index = l, li_local_expert_id = w\<rparr>" and none: "recs L s g = None"
    and room: "lru_len L (lr_residents s) < al_slot_capacity (vp_layout plan)"
    and i: "install_locked L env mc path g src sp s = (res, s')"
  obtains (installed) r x where "res = Inr r" "tier_ok L env mc l plan {} {} s'" "recs L s' = (recs L s)(g \<mapsto> x)"
      "ph_residency x = r" "lru_len L (lr_residents s') = Suc (lru_len L (lr_residents s))"
  | (error) e where "res = Inl e" "reportable e" "tier_ok L env mc l plan {} {} s'" "recs L s' = recs L s"
proof -
  let ?key = "\<lparr>qk_layer_index = l, qk_expert_id = w, qk_logical_generation = src_generation src\<rparr>"
  note D = tier_okD [OF T]
  have w: "unat w < eg_num_experts (vp_geometry plan)" using layer_ctxD(4) [OF D(1) g] by simp
  obtain ares s1 where a: "acquire_q4_expert_residency env mc ?key s = (ares, s1)"
    by (cases "acquire_q4_expert_residency env mc ?key s")
  note i' = i [unfolded install_locked_def g key_of_identity [OF g], simplified, unfolded a]
  show thesis
  proof (rule acquire_ok [OF T _ _ _ _ _ a])
    show "qk_layer_index ?key = l" "unat (qk_expert_id ?key) < eg_num_experts (vp_geometry plan)"
      "unat (qk_expert_id ?key) \<notin> {}" using w by simp_all
    show "record_expert r \<noteq> unat (qk_expert_id ?key)" if "recs L s g' = Some r" for g' r
      using unrecorded [OF T g none that] by simp
    show "permit_expert p \<noteq> unat (qk_expert_id ?key)" if "(p, ph) \<in> {}" for p ph using that by simp
  next
    fix x assume "ares = Inl x" "consistent_error x" "tier_ok L env mc l plan {} {} s1" "lr_residents s1 = lr_residents s"
    then show thesis using i' error [of "Backend x"] by (auto simp: backend_def)
  next
    assume "ares = Inr AcquireStaleRequester" "tier_ok L env mc l plan {} {} s1" "lr_residents s1 = lr_residents s"
    then show thesis using i' error by (auto simp: backend_def)
  next
    assume "ares = Inr NoPhysicalSlot" "\<forall>x \<in> set (qa_slots (lr_arena s)). sl_owner x \<noteq> OwnerFree"
      "owners_known (arena_view (lr_arena s)) (recs L s) {} {}"
    then show thesis using full_count [OF T] room by auto
  next
    fix p assume p: "ares = Inr (AcquireInstall p)" "ip_key p = ?key"
      and T1: "tier_ok L env mc l plan (insert (p, Reserved) {}) {} s1" and s1: "lr_residents s1 = lr_residents s"
    obtain ires s2 where q: "install_q4_expert_residency env mc path p (src_data src) s1 = (ires, s2)"
      by (cases "install_q4_expert_residency env mc path p (src_data src) s1")
    from T1 insertI1 q show thesis
    proof (cases rule: install_ok)
      case (failed x)
      then show thesis using i' p(1) q s1 error [of "Backend x"] by (auto simp: backend_def)
    next
      case installed': installed
      then obtain f where f: "arena_view (lr_arena s2) (unat w) = Some (f, OwnerResident (ip_residency p))"
        using p(2) by auto
      have k: "keep_if_current L env mc g ?key (ip_residency p) True sp s2 = (res, s')"
        using i' p q installed'(1) by (simp add: backend_def)
      have T2: "tier_ok L env mc l plan {} (insert (unat (qk_expert_id ?key)) {}) s2"
        using installed'(2) p(2) by simp
      have recs2: "recs L s2 = recs L s" "lru_len L (lr_residents s2) = lru_len L (lr_residents s)"
        using installed'(4) s1 by simp_all
      show thesis
      proof (rule keep_ok [OF T2 _ _ _ _ _ _ k])
        show "arena_view (lr_arena s2) (unat (qk_expert_id ?key)) = Some (f, OwnerResident (ip_residency p))"
          "qr_key (ip_residency p) = ?key" "qk_layer_index ?key = l"
          "identity mc g = Inr \<lparr>li_layer_index = l, li_local_expert_id = qk_expert_id ?key\<rparr>"
          "recs L s2 g = None" "unat (qk_expert_id ?key) \<notin> {}"
          using f installed'(5) p(2) g none recs2(1) by simp_all
      next
        assume "res = Inr (ip_residency p)" "tier_ok L env mc l plan {} {} s'"
          "recs L s' = (recs L s2)(g \<mapsto> \<lparr>ph_key = ?key, ph_residency = ip_residency p\<rparr>)"
          "lru_len L (lr_residents s') = Suc (lru_len L (lr_residents s2))"
        then show thesis using recs2 that(1) by simp
      next
        fix e assume "res = Inl e" "reportable e" "tier_ok L env mc l plan {} {} s'" "recs L s' = recs L s2"
        then show thesis using recs2 that(2) by simp
      qed
    qed
  qed
qed

end

end
