(* ===== verification/ResidencyDemand.thy ===== *)
theory ResidencyDemand
  imports ResidencySafety
begin

section \<open>A demand set under the layer's lock\<close>

text \<open>
  What resolving a demand set does to a consistent layer: the misses are the demanded experts without a
  record, making room ends and never retires a demanded record, and both ways of installing the misses
  (the reserve, stage and commit transaction and one install after the other) either resolve every demand
  to the residency of its record or report an error with every permit returned.
\<close>

subsection \<open>The transaction\<close>

text \<open>A miss names a demanded expert of the layer that has no record; one demand names an expert once.\<close>

definition misses_ok :: "manager_ctx \<Rightarrow> usize \<Rightarrow> u32 list \<Rightarrow> records \<Rightarrow> miss list \<Rightarrow> bool" where
  "misses_ok mc l gs R ms \<longleftrightarrow>
     distinct (map (fst \<circ> snd) ms) \<and>
     (\<forall>(i, g, src) \<in> set ms. i < length gs \<and> gs ! i = g \<and> R g = None \<and>
        (\<exists>w. identity mc g = Inr \<lparr>li_layer_index = l, li_local_expert_id = w\<rparr>))"

text \<open>Every demanded expert is resolved to the residency of its record, or still missing.\<close>

definition tracks :: "u32 list \<Rightarrow> q4_residency option list \<Rightarrow> records \<Rightarrow> usize set \<Rightarrow> bool" where
  "tracks gs resolved R I \<longleftrightarrow>
     length resolved = length gs \<and>
     (\<forall>i < length gs. case resolved ! i of
        None \<Rightarrow> i \<in> I | Some r \<Rightarrow> \<exists>x. R (gs ! i) = Some x \<and> ph_residency x = r)"

lemma misses_ok_Cons [simp]:
  "misses_ok mc l gs R ((i, g, src) # ms) \<longleftrightarrow>
     i < length gs \<and> gs ! i = g \<and> R g = None \<and> g \<notin> (fst \<circ> snd) ` set ms \<and>
     (\<exists>w. identity mc g = Inr \<lparr>li_layer_index = l, li_local_expert_id = w\<rparr>) \<and> misses_ok mc l gs R ms"
  by (auto simp: misses_ok_def)

lemma misses_ok_Nil [simp]: "misses_ok mc l gs R []"
  by (simp add: misses_ok_def)

lemma misses_ok_add:
  assumes "misses_ok mc l gs R ms" "g \<notin> (fst \<circ> snd) ` set ms"
  shows "misses_ok mc l gs (R(g \<mapsto> x)) ms"
  unfolding misses_ok_def
proof (intro conjI ballI)
  show "distinct (map (fst \<circ> snd) ms)" using assms(1) by (simp add: misses_ok_def)
  fix m assume m: "m \<in> set ms"
  obtain i g' src where eq: "m = (i, g', src)" by (cases m)
  then have "g' \<noteq> g" using m assms(2) by force
  then show "case m of (i, g', src) \<Rightarrow> i < length gs \<and> gs ! i = g' \<and> (R(g \<mapsto> x)) g' = None \<and>
      (\<exists>w. identity mc g' = Inr \<lparr>li_layer_index = l, li_local_expert_id = w\<rparr>)"
    using assms(1) m eq by (auto simp: misses_ok_def)
qed

lemma tracks_install:
  assumes "tracks gs resolved R (insert i I)" "i < length gs" "gs ! i = g" "R g = None"
  shows "tracks gs (resolved[i := Some (ph_residency x)]) (R(g \<mapsto> x)) I"
  unfolding tracks_def
proof (intro conjI allI impI)
  show "length (resolved[i := Some (ph_residency x)]) = length gs" using assms(1) by (simp add: tracks_def)
  fix j assume j: "j < length gs"
  have t: "case resolved ! j of None \<Rightarrow> j \<in> insert i I | Some r \<Rightarrow> \<exists>x. R (gs ! j) = Some x \<and> ph_residency x = r"
    and len: "length resolved = length gs" using assms(1) j by (simp_all add: tracks_def)
  show "case resolved[i := Some (ph_residency x)] ! j of None \<Rightarrow> j \<in> I
      | Some r \<Rightarrow> \<exists>y. (R(g \<mapsto> x)) (gs ! j) = Some y \<and> ph_residency y = r"
  proof (cases "j = i")
    case True
    then show ?thesis using assms(2,3) len by simp
  next
    case False
    then show ?thesis using t assms(4) by (auto split: option.splits)
  qed
qed

definition miss_of :: "reserved_install \<Rightarrow> miss" where
  "miss_of r = (ri_demand_index r, ri_global_id r, ri_source r)"

lemma miss_of_simps [simp]:
  "fst (miss_of r) = ri_demand_index r" "fst (snd (miss_of r)) = ri_global_id r"
  "miss_of \<lparr>ri_demand_index = i, ri_global_id = g, ri_source = src, ri_key = key, ri_permit = p\<rparr> = (i, g, src)"
  "misses_ok mc l gs R (miss_of r # ms) = misses_ok mc l gs R ((ri_demand_index r, ri_global_id r, ri_source r) # ms)"
  by (simp_all add: miss_of_def)

definition reserved_ok :: "manager_ctx \<Rightarrow> usize \<Rightarrow> reserved_install \<Rightarrow> bool" where
  "reserved_ok mc l r \<longleftrightarrow> ri_key r = ip_key (ri_permit r) \<and> qk_layer_index (ri_key r) = l \<and>
     identity mc (ri_global_id r) = Inr \<lparr>li_layer_index = l, li_local_expert_id = qk_expert_id (ri_key r)\<rparr>"

definition reservations :: "reserved_install list \<Rightarrow> install_task set" where
  "reservations rs = (\<lambda>r. (ri_permit r, Reserved)) ` set rs"

lemma reservations_simps [simp]:
  "reservations [] = {}" "reservations (r # rs) = insert (ri_permit r, Reserved) (reservations rs)"
  "reservations (rs @ rs') = reservations rs \<union> reservations rs'" "finite (reservations rs)"
  by (auto simp: reservations_def)

lemma reservations_minus:
  "ri_permit r \<notin> ri_permit ` set rs \<Longrightarrow> insert (ri_permit r, Reserved) (reservations rs) - {(ri_permit r, Reserved)} = reservations rs"
  by (force simp: reservations_def)

lemma card_reservations: "card (reservations rs) \<le> length rs"
  unfolding reservations_def by (meson card_image_le card_length List.finite_set order_trans)

lemma drop_reserved_ok:
  assumes "tier_ok L env mc l plan (reservations rs) X s" "distinct (map ri_permit rs)"
  shows "tier_ok L env mc l plan {} X (drop_reserved rs s) \<and> lr_residents (drop_reserved rs s) = lr_residents s"
  using assms
proof (induction rs arbitrary: s)
  case Nil
  then show ?case by (simp add: drop_reserved_def)
next
  case (Cons r rs)
  have "tier_ok L env mc l plan (reservations (r # rs) - {(ri_permit r, Reserved)}) X (drop_permit (ri_permit r) s)"
    using Cons.prems(1) by (intro drop_permit_ok) simp_all
  then have "tier_ok L env mc l plan (reservations rs) X (drop_permit (ri_permit r) s)"
    using Cons.prems(2) reservations_minus [of r rs] by simp
  from Cons.IH [OF this] Cons.prems(2) show ?case by (simp add: drop_reserved_def)
qed

text \<open>What the stages hold: a permit per prepared install, in the order of the reservations.\<close>

fun staged_tasks :: "reserved_install list \<Rightarrow> (tiered_error + staged_install) list \<Rightarrow> install_task set" where
  "staged_tasks (r # rs) (Inr x # xs) =
     insert (ri_permit r, Staged (src_data (ri_source r)) (si_prepared x)) (staged_tasks rs xs)"
| "staged_tasks (r # rs) (Inl _ # xs) = staged_tasks rs xs"
| "staged_tasks _ _ = {}"

definition staged_of :: "reserved_install \<Rightarrow> tiered_error + staged_install \<Rightarrow> bool" where
  "staged_of r y = (case y of
     Inl e \<Rightarrow> reportable e
   | Inr x \<Rightarrow> si_demand_index x = ri_demand_index r \<and> si_global_id x = ri_global_id r \<and>
       si_key x = ri_key r \<and> pi_permit (si_prepared x) = ri_permit r)"

lemma staged_of_simps [simp]:
  "staged_of r (Inl e) = reportable e"
  "staged_of r (Inr x) \<longleftrightarrow> si_demand_index x = ri_demand_index r \<and> si_global_id x = ri_global_id r \<and>
     si_key x = ri_key r \<and> pi_permit (si_prepared x) = ri_permit r"
  by (simp_all add: staged_of_def)

lemma staged_tasks_permit: "(p, ph) \<in> staged_tasks rs xs \<Longrightarrow> p \<in> ri_permit ` set rs"
  by (induction rs xs rule: staged_tasks.induct) auto

lemma staged_tasks_minus:
  "ri_permit r \<notin> ri_permit ` set rs \<Longrightarrow> staged_tasks (r # rs) (Inr x # xs) -
     {(ri_permit r, Staged (src_data (ri_source r)) (si_prepared x))} = staged_tasks rs xs"
  using staged_tasks_permit by fastforce

lemma stage_reserved_ok:
  assumes "tier_ok L env mc l plan (reservations rs \<union> Q) X s" "distinct (map ri_permit rs)"
    and "\<forall>(q, ph) \<in> Q. ph \<noteq> Reserved" and "stage_reserved env mc nz rs s = (xs, s')"
  shows "tier_ok L env mc l plan (staged_tasks rs xs \<union> Q) X s' \<and> lr_residents s' = lr_residents s \<and>
    list_all2 staged_of rs xs"
  using assms
proof (induction rs arbitrary: s Q xs s')
  case Nil
  then show ?case by simp
next
  case (Cons r rs)
  let ?p = "ri_permit r" and ?d = "src_data (ri_source r)"
  obtain res s1 where st: "stage_q4_expert_residency env mc nz ?p ?d s = (res, s1)"
    by (cases "stage_q4_expert_residency env mc nz ?p ?d s")
  obtain ys s2 where rest: "stage_reserved env mc nz rs s1 = (ys, s2)" by (cases "stage_reserved env mc nz rs s1")
  have minus: "insert (?p, Reserved) (reservations rs) \<union> Q - {(?p, Reserved)} = reservations rs \<union> Q"
    using Cons.prems(2,3) reservations_minus [of r rs] by auto
  have T: "tier_ok L env mc l plan (insert (?p, Reserved) (reservations rs) \<union> Q) X s" using Cons.prems(1) by simp
  have "(?p, Reserved) \<in> insert (?p, Reserved) (reservations rs) \<union> Q" by simp
  from T this st show ?case
  proof (cases rule: stage_ok)
    case (staged pr)
    let ?Q = "insert (?p, Staged ?d pr) Q"
    have "tier_ok L env mc l plan (reservations rs \<union> ?Q) X s1" using staged(3) minus by simp
    from Cons.IH [OF this _ _ rest] Cons.prems(2,3) staged(1,2,4) Cons.prems(4) st rest
    show ?thesis by (auto simp: backend_def)
  next
    case (failed x)
    have "tier_ok L env mc l plan (reservations rs \<union> Q) X s1" using failed(3) minus by simp
    from Cons.IH [OF this _ _ rest] Cons.prems(2,3) failed(1,2,4) Cons.prems(4) st rest
    show ?thesis by (auto simp: backend_def)
  qed
qed

lemma drop_staged_ok:
  assumes "tier_ok L env mc l plan (staged_tasks rs xs) X s" "distinct (map ri_permit rs)" "list_all2 staged_of rs xs"
  shows "tier_ok L env mc l plan {} X (drop_staged xs s)"
  using assms
proof (induction rs xs arbitrary: s rule: staged_tasks.induct)
  case (1 r rs x xs)
  let ?t = "(ri_permit r, Staged (src_data (ri_source r)) (si_prepared x))"
  have "tier_ok L env mc l plan (staged_tasks (r # rs) (Inr x # xs) - {?t}) X (drop_permit (ri_permit r) s)"
    using 1(2) by (intro drop_permit_ok) simp_all
  moreover have "staged_tasks (r # rs) (Inr x # xs) - {?t} = staged_tasks rs xs"
    using 1(3) by (intro staged_tasks_minus) simp
  ultimately have "tier_ok L env mc l plan (staged_tasks rs xs) X (drop_permit (ri_permit r) s)" by simp
  from 1(1) [OF this] 1(3,4) show ?case by simp
qed auto

context record_cache
begin

lemma reserve_misses_ok:
  assumes "tier_ok L env mc l plan (reservations rs) {} s" "distinct (map ri_permit rs)" "\<forall>r \<in> set rs. reserved_ok mc l r"
    and "misses_ok mc l gs (recs L s) (map miss_of rs @ misses)"
    and "lru_len L (lr_residents s) + length (map miss_of rs @ misses) \<le> al_slot_capacity (vp_layout plan)"
    and "reserve_misses env mc misses rs s = (res, s')"
  shows "lr_residents s' = lr_residents s \<and>
    ((\<exists>rs'. res = Inr rs' \<and> tier_ok L env mc l plan (reservations rs') {} s' \<and> distinct (map ri_permit rs') \<and>
        (\<forall>r \<in> set rs'. reserved_ok mc l r) \<and> map miss_of rs' = map miss_of rs @ misses) \<or>
     (\<exists>e. res = Inl e \<and> reportable e \<and> tier_ok L env mc l plan {} {} s'))"
  using assms
proof (induction misses arbitrary: rs s)
  case Nil
  then show ?case by auto
next
  case (Cons m misses)
  obtain i g src where m: "m = (i, g, src)" by (cases m)
  have M: "misses_ok mc l gs (recs L s) ((i, g, src) # map miss_of rs @ misses)"
    using Cons.prems(4) unfolding m misses_ok_def by auto
  then obtain w where g: "identity mc g = Inr \<lparr>li_layer_index = l, li_local_expert_id = w\<rparr>" "recs L s g = None"
    "g \<notin> (fst \<circ> snd) ` set (map miss_of rs)" by auto
  let ?key = "\<lparr>qk_layer_index = l, qk_expert_id = w, qk_logical_generation = src_generation src\<rparr>"
  obtain ares s1 where a: "acquire_q4_expert_residency env mc ?key s = (ares, s1)"
    by (cases "acquire_q4_expert_residency env mc ?key s")
  note T = Cons.prems(1) and D = tier_okD [OF Cons.prems(1)]
  note r = Cons.prems(6) [unfolded m, simplified, unfolded g(1) key_of_identity [OF g(1)], simplified, unfolded a]
  have w: "unat w < eg_num_experts (vp_geometry plan)" using layer_ctxD(4) [OF D(1) g(1)] by simp
  have dropped: "tier_ok L env mc l plan {} {} (drop_reserved rs s2) \<and> lr_residents (drop_reserved rs s2) = lr_residents s2"
    if "tier_ok L env mc l plan (reservations rs) {} s2" for s2
    using drop_reserved_ok [OF that Cons.prems(2)] .
  show ?case
  proof (rule acquire_ok [OF T _ _ _ _ _ a])
    show "qk_layer_index ?key = l" "unat (qk_expert_id ?key) < eg_num_experts (vp_geometry plan)"
      "unat (qk_expert_id ?key) \<notin> {}" using w by simp_all
    show "record_expert r \<noteq> unat (qk_expert_id ?key)" if "recs L s g' = Some r" for g' r
      using unrecorded [OF T g(1,2) that] by simp
    show "permit_expert p \<noteq> unat (qk_expert_id ?key)" if p: "(p, ph) \<in> reservations rs" for p ph
    proof
      assume eq: "permit_expert p = unat (qk_expert_id ?key)"
      obtain q where q: "q \<in> set rs" "ri_permit q = p" using p by (auto simp: reservations_def)
      then have "identity mc (ri_global_id q) = Inr \<lparr>li_layer_index = l, li_local_expert_id = w\<rparr>"
        using Cons.prems(3) word_id_inj [OF eq] by (auto simp: reserved_ok_def)
      then have "ri_global_id q = g" using layer_ctxD(3) [OF D(1)] g(1) by blast
      then show False using g(3) q(1) by force
    qed
  next
    fix x assume "ares = Inl x" "consistent_error x" "tier_ok L env mc l plan (reservations rs) {} s1"
      "lr_residents s1 = lr_residents s"
    then show ?thesis using r dropped [of s1] by auto
  next
    assume "ares = Inr AcquireStaleRequester" "tier_ok L env mc l plan (reservations rs) {} s1"
      "lr_residents s1 = lr_residents s"
    then show ?thesis using r dropped [of "count_stale s1"] by auto
  next
    assume "ares = Inr NoPhysicalSlot" "\<forall>x \<in> set (qa_slots (lr_arena s)). sl_owner x \<noteq> OwnerFree"
      "owners_known (arena_view (lr_arena s)) (recs L s) (reservations rs) {}"
    then show ?thesis using full_count [OF T] card_reservations [of rs] Cons.prems(5) by simp
  next
    fix p assume p: "ares = Inr (AcquireInstall p)" "ip_key p = ?key" "(p, Reserved) \<notin> reservations rs"
      and T1: "tier_ok L env mc l plan (insert (p, Reserved) (reservations rs)) {} s1" and s1: "lr_residents s1 = lr_residents s"
    let ?r = "\<lparr>ri_demand_index = i, ri_global_id = g, ri_source = src, ri_key = ?key, ri_permit = p\<rparr>"
    have "reserve_misses env mc misses (rs @ [?r]) s1 = (res, s')" using r p(1) by simp
    moreover have "\<forall>x \<in> set (rs @ [?r]). reserved_ok mc l x"
      using Cons.prems(3) p(2) g(1) by (auto simp: reserved_ok_def)
    moreover have "distinct (map ri_permit (rs @ [?r]))"
      using Cons.prems(2) p(3) by (auto simp: reservations_def)
    moreover have "misses_ok mc l gs (recs L s1) (map miss_of (rs @ [?r]) @ misses)"
      using Cons.prems(4) s1 m by simp
    ultimately show ?thesis
      using Cons.IH [of "rs @ [?r]" s1] T1 s1 Cons.prems(5) m by simp
  qed
qed

lemma commit_staged_ok:
  assumes "tier_ok L env mc l plan (staged_tasks rs xs) {} s" "list_all2 staged_of rs xs" "distinct (map ri_permit rs)"
    and "\<forall>r \<in> set rs. reserved_ok mc l r" "misses_ok mc l gs (recs L s) (map miss_of rs)"
    and "tracks gs resolved (recs L s) (ri_demand_index ` set rs)"
    and "commit_staged L env mc xs resolved s = (res, s')"
  shows "tier_ok L env mc l plan {} {} s' \<and>
    ((\<exists>resolved'. res = Inr resolved' \<and> tracks gs resolved' (recs L s') {}) \<or> (\<exists>e. res = Inl e \<and> reportable e))"
  using assms
proof (induction rs xs arbitrary: s resolved rule: staged_tasks.induct)
  case (1 r rs x xs)
  let ?p = "ri_permit r" and ?d = "src_data (ri_source r)" and ?key = "ri_key r" and ?g = "ri_global_id r"
  have x: "si_demand_index x = ri_demand_index r" "si_global_id x = ?g" "si_key x = ?key" "pi_permit (si_prepared x) = ?p"
    and xs: "list_all2 staged_of rs xs" using "1.prems"(2) by simp_all
  have r: "reserved_ok mc l r" "distinct (map ri_permit rs)" using "1.prems"(3,4) by simp_all
  have M: "ri_demand_index r < length gs" "gs ! ri_demand_index r = ?g" "recs L s ?g = None"
    "?g \<notin> (fst \<circ> snd) ` set (map miss_of rs)" "misses_ok mc l gs (recs L s) (map miss_of rs)"
    using "1.prems"(5) by auto
  have minus: "staged_tasks (r # rs) (Inr x # xs) - {(?p, Staged ?d (si_prepared x))} = staged_tasks rs xs"
    using "1.prems"(3) by (intro staged_tasks_minus) simp
  obtain cres s1 where c: "commit_q4_expert_residency env mc (si_prepared x) s = (cres, s1)"
    by (cases "commit_q4_expert_residency env mc (si_prepared x) s")
  have p: "(?p, Staged ?d (si_prepared x)) \<in> staged_tasks (r # rs) (Inr x # xs)" by simp
  from "1.prems"(1) p x(4) c show ?case
  proof (cases rule: commit_ok)
    case (failed y)
    then show ?thesis
      using "1.prems"(7) c drop_staged_ok [OF _ r(2) xs, of L env mc l plan "{}" s1] minus
      by (auto simp: backend_def simp del: staged_tasks.simps)
  next
    case committed
    let ?e = "unat (qk_expert_id ?key)"
    have key: "ip_key ?p = ?key" "qk_layer_index ?key = l" using r(1) by (auto simp: reserved_ok_def)
    obtain kres s2 where k: "keep_if_current L env mc ?g ?key (ip_residency ?p) True False s1 = (kres, s2)"
      by (cases "keep_if_current L env mc ?g ?key (ip_residency ?p) True False s1")
    have run: "(case (kres, s2) of (Inl e, s) \<Rightarrow> (Inl e, drop_staged xs s)
        | (Inr residency, s) \<Rightarrow> commit_staged L env mc xs (resolved[ri_demand_index r := Some residency]) s) = (res, s')"
      using "1.prems"(7) c k x(2-4) committed(1) unfolding x(1) [symmetric] by (simp add: backend_def)
    have T1: "tier_ok L env mc l plan (staged_tasks rs xs) (insert ?e {}) s1" using committed(2) minus key(1) by simp
    obtain f where f: "arena_view (lr_arena s1) ?e = Some (f, OwnerResident (ip_residency ?p))"
      using committed(3) key(1) by auto
    show ?thesis
    proof (rule keep_ok [OF T1 f _ _ _ _ _ k])
      show "qr_key (ip_residency ?p) = ?key" "qk_layer_index ?key = l" "recs L s1 ?g = None" "?e \<notin> {}"
        "identity mc ?g = Inr \<lparr>li_layer_index = l, li_local_expert_id = qk_expert_id ?key\<rparr>"
        using committed(4,5) key M(3) r(1) by (simp_all add: reserved_ok_def)
    next
      assume kept: "kres = Inr (ip_residency ?p)" "tier_ok L env mc l plan (staged_tasks rs xs) {} s2"
        "recs L s2 = (recs L s1)(?g \<mapsto> \<lparr>ph_key = ?key, ph_residency = ip_residency ?p\<rparr>)"
      have "tracks gs (resolved[ri_demand_index r := Some (ip_residency ?p)]) (recs L s2) (ri_demand_index ` set rs)"
        using tracks_install [of gs resolved "recs L s" "ri_demand_index r" "ri_demand_index ` set rs" ?g
            "\<lparr>ph_key = ?key, ph_residency = ip_residency ?p\<rparr>"] M(1-3) "1.prems"(6)
          kept(3) committed(4) by simp
      moreover have "misses_ok mc l gs (recs L s2) (map miss_of rs)"
        using misses_ok_add [OF M(5,4)] kept(3) committed(4) by simp
      ultimately show ?thesis
        using "1.IH" [OF kept(2) xs r(2)] run kept(1) "1.prems"(4) by simp
    next
      fix e assume "kres = Inl e" "reportable e" "tier_ok L env mc l plan (staged_tasks rs xs) {} s2"
      then show ?thesis using run drop_staged_ok [OF _ r(2) xs] by auto
    qed
  qed
next
  case (2 r rs e xs)
  then show ?case using drop_staged_ok [of L env mc l plan rs xs "{}" s] by auto
qed auto

lemma install_parallel_ok:
  assumes T: "tier_ok L env mc l plan {} {} s" and M: "misses_ok mc l gs (recs L s) misses"
    and room: "lru_len L (lr_residents s) + length misses \<le> al_slot_capacity (vp_layout plan)"
    and tr: "tracks gs resolved (recs L s) (fst ` set misses)"
    and r: "install_parallel_physical_misses_locked L env mc nz misses resolved s = (res, s')"
  shows "tier_ok L env mc l plan {} {} s' \<and>
    ((\<exists>resolved'. res = Inr resolved' \<and> tracks gs resolved' (recs L s') {}) \<or> (\<exists>e. res = Inl e \<and> reportable e))"
proof -
  obtain rres s1 where r1: "reserve_misses env mc misses [] s = (rres, s1)" by (cases "reserve_misses env mc misses [] s")
  from reserve_misses_ok [OF _ _ _ _ _ r1, of l plan gs] T M room
  have R: "lr_residents s1 = lr_residents s"
    "(\<exists>rs. rres = Inr rs \<and> tier_ok L env mc l plan (reservations rs) {} s1 \<and> distinct (map ri_permit rs) \<and>
        (\<forall>r \<in> set rs. reserved_ok mc l r) \<and> map miss_of rs = misses) \<or>
     (\<exists>e. rres = Inl e \<and> reportable e \<and> tier_ok L env mc l plan {} {} s1)"
    by auto
  from R(2) show ?thesis
  proof
    assume "\<exists>e. rres = Inl e \<and> reportable e \<and> tier_ok L env mc l plan {} {} s1"
    then show ?thesis using r r1 by (auto simp: install_parallel_physical_misses_locked_def)
  next
    assume "\<exists>rs. rres = Inr rs \<and> tier_ok L env mc l plan (reservations rs) {} s1 \<and> distinct (map ri_permit rs) \<and>
        (\<forall>r \<in> set rs. reserved_ok mc l r) \<and> map miss_of rs = misses"
    then obtain rs where rs: "rres = Inr rs" "tier_ok L env mc l plan (reservations rs) {} s1"
      "distinct (map ri_permit rs)" "\<forall>r \<in> set rs. reserved_ok mc l r" "map miss_of rs = misses" by blast
    obtain xs s2 where x: "stage_reserved env mc nz rs s1 = (xs, s2)" by (cases "stage_reserved env mc nz rs s1")
    from stage_reserved_ok [OF _ rs(3) _ x, of L l plan "{}" "{}"] rs(2)
    have S: "tier_ok L env mc l plan (staged_tasks rs xs) {} s2" "lr_residents s2 = lr_residents s"
      "list_all2 staged_of rs xs" using R(1) by simp_all
    have i: "fst ` set misses = ri_demand_index ` set rs"
      unfolding rs(5) [symmetric] by (simp add: image_image)
    have "commit_staged L env mc xs resolved s2 = (res, s')"
      using r r1 rs(1) x by (simp add: install_parallel_physical_misses_locked_def)
    from commit_staged_ok [OF S(1,3) rs(3,4) _ _ this, of gs] show ?thesis
      using M tr S(2) i rs(5) by simp
  qed
qed

lemma install_sequential_misses_ok:
  assumes "tier_ok L env mc l plan {} {} s" "misses_ok mc l gs (recs L s) misses"
    and "lru_len L (lr_residents s) + length misses \<le> al_slot_capacity (vp_layout plan)"
    and "tracks gs resolved (recs L s) (fst ` set misses)"
    and "install_sequential_misses L env mc path misses resolved s = (res, s')"
  shows "tier_ok L env mc l plan {} {} s' \<and>
    ((\<exists>resolved'. res = Inr resolved' \<and> tracks gs resolved' (recs L s') {}) \<or> (\<exists>e. res = Inl e \<and> reportable e))"
  using assms
proof (induction misses arbitrary: s resolved)
  case Nil
  then show ?case by auto
next
  case (Cons m misses)
  obtain i g src where m: "m = (i, g, src)" by (cases m)
  then obtain w where M: "i < length gs" "gs ! i = g" "recs L s g = None" "g \<notin> (fst \<circ> snd) ` set misses"
    "misses_ok mc l gs (recs L s) misses" "identity mc g = Inr \<lparr>li_layer_index = l, li_local_expert_id = w\<rparr>"
    using Cons.prems(2) by auto
  obtain ires s1 where i: "install_locked L env mc path g src False s = (ires, s1)"
    by (cases "install_locked L env mc path g src False s")
  have room: "lru_len L (lr_residents s) < al_slot_capacity (vp_layout plan)" using Cons.prems(3) by simp
  from Cons.prems(1) M(6,3) room i show ?case
  proof (cases rule: install_locked_ok)
    case (installed r x)
    have "tracks gs (resolved[i := Some r]) (recs L s1) (fst ` set misses)"
      using tracks_install [of gs resolved "recs L s" i "fst ` set misses" g x] M(1-3) Cons.prems(4) m installed(3,4) by simp
    moreover have "misses_ok mc l gs (recs L s1) misses" using misses_ok_add [OF M(5,4)] installed(3) by simp
    ultimately show ?thesis
      using Cons.IH [OF installed(2), of "resolved[i := Some r]"] Cons.prems(3,5) m i installed(1,5) by simp
  next
    case (error e)
    then show ?thesis using Cons.prems(5) m i by auto
  qed
qed

end

subsection \<open>Demand sets\<close>

lemma layer_capacity:
  assumes "layer_ctx env mc plan"
  shows "al_slot_capacity (vp_layout plan) < usize_MAX"
proof -
  let ?g = "vp_geometry plan" and ?lim = "mc_limits mc" and ?b = "vp_requested_expert_budget_bytes plan"
  let ?m = "maximum_bank_slots ?g ?lim"
  define s where "s = largest_fitting (slot_count_fits ?g ?lim ?b) 1 (min (4 * ?m) (eg_num_experts ?g))"
  have g: "geometry_ok ?g" using layer_ctxD(1) [OF assms] .
  have p: "0 < ?m" "arena_bytes ?g 1 ?lim \<le> ?b" "plan_of ?g ?b s ?lim = Inr plan"
    using assms unfolding layer_ctx_def plan_try_new_eq [OF g] s_def by blast+
  note S = plan_search [OF g p(1,2), folded s_def]
  have "vp_layout plan = layout_of ?g s ?lim" using plan_of_Inr [OF g S(3), of ?b] p(3) by auto
  then have "al_slot_capacity (vp_layout plan) \<le> eg_num_experts ?g" using S(2) by simp
  also have "\<dots> < 2 ^ 32" using g by (simp add: geometry_ok_def)
  finally show ?thesis by (simp add: usize_MAX_def)
qed

lemma misses_okD:
  assumes "misses_ok mc l gs R ms" "(i, g, src) \<in> set ms"
  shows "g \<in> set gs" "R g = None"
  using assms nth_mem [of i gs] unfolding misses_ok_def by auto

lemma misses_ok_cong:
  assumes "misses_ok mc l gs R ms" "\<forall>g \<in> set gs. R' g = R g"
  shows "misses_ok mc l gs R' ms"
proof -
  have "R' g = None" if "(i, g, src) \<in> set ms" for i g src using misses_okD [OF assms(1) that] assms(2) by simp
  then show ?thesis using assms(1) unfolding misses_ok_def by auto
qed

lemma tracks_cong:
  assumes "tracks gs resolved R I" "\<forall>g \<in> set gs. R' g = R g"
  shows "tracks gs resolved R' I"
  using assms unfolding tracks_def by (auto split: option.splits)

lemma tracks_snoc:
  assumes "tracks gs resolved R I" "case o' of None \<Rightarrow> length gs \<in> I' | Some r \<Rightarrow> \<exists>x. R g = Some x \<and> ph_residency x = r"
    and "I \<subseteq> I'"
  shows "tracks (gs @ [g]) (resolved @ [o']) R I'"
  using assms by (fastforce simp: tracks_def nth_append less_Suc_eq split: option.splits)

lemma misses_ok_mono:
  assumes "misses_ok mc l gs R ms"
  shows "misses_ok mc l (gs @ gs') R ms"
  using assms by (auto simp: misses_ok_def nth_append)

lemma misses_ok_snoc:
  assumes "misses_ok mc l gs R ms" "g \<notin> set gs" "R g = None"
    "identity mc g = Inr \<lparr>li_layer_index = l, li_local_expert_id = w\<rparr>"
  shows "misses_ok mc l (gs @ [g]) R (ms @ [(length gs, g, src)])"
proof -
  have "g \<notin> (fst \<circ> snd) ` set ms" using assms(1,2) by (auto simp: misses_ok_def)
  moreover have "misses_ok mc l (gs @ [g]) R ms" using misses_ok_mono [OF assms(1)] .
  ultimately show ?thesis using assms(3,4) by (auto simp: misses_ok_def)
qed

lemma misses_count:
  assumes "misses_ok mc l gs R ms" "distinct gs"
  shows "card (set gs \<inter> dom R) + length ms \<le> length gs"
proof -
  let ?M = "(fst \<circ> snd) ` set ms"
  have "card ?M = length ms" using assms(1) distinct_card [of "map (fst \<circ> snd) ms"] by (simp add: misses_ok_def)
  moreover have "?M \<subseteq> set gs" "?M \<inter> dom R = {}" using misses_okD [OF assms(1)] by fastforce+
  then have "card (set gs \<inter> dom R) + card ?M \<le> card (set gs)"
    by (subst card_Un_disjoint [symmetric]) (auto intro!: card_mono)
  ultimately show ?thesis using card_length [of gs] by linarith
qed

lemma collect_tracks:
  assumes "tracks (map demand_global_id ds) resolved R {}"
  shows "\<exists>rs. collect_resolved ds resolved = Inr rs \<and> length rs = length ds \<and>
    (\<forall>i < length ds. \<exists>x. R (demand_global_id (ds ! i)) = Some x \<and> ph_residency x = rs ! i)"
  using assms
proof (induction ds resolved rule: collect_resolved.induct)
  case (1 d ds r resolved)
  have t: "case (Some r # resolved) ! i of None \<Rightarrow> False
      | Some r \<Rightarrow> \<exists>x. R (map demand_global_id (d # ds) ! i) = Some x \<and> ph_residency x = r"
    if "i < length (d # ds)" for i
    using "1.prems" that by (auto simp: tracks_def split: option.splits)
  have "tracks (map demand_global_id ds) resolved R {}"
    unfolding tracks_def
  proof (intro conjI allI impI)
    show "length resolved = length (map demand_global_id ds)" using "1.prems" by (simp add: tracks_def)
    show "case resolved ! i of None \<Rightarrow> i \<in> {}
        | Some r \<Rightarrow> \<exists>x. R (map demand_global_id ds ! i) = Some x \<and> ph_residency x = r"
      if "i < length (map demand_global_id ds)" for i using t [of "Suc i"] that by (auto split: option.splits)
  qed
  from "1.IH" [OF this] obtain rs where rs: "collect_resolved ds resolved = Inr rs" "length rs = length ds"
    "\<forall>i < length ds. \<exists>x. R (demand_global_id (ds ! i)) = Some x \<and> ph_residency x = rs ! i" by blast
  have "\<exists>x. R (demand_global_id ((d # ds) ! i)) = Some x \<and> ph_residency x = (r # rs) ! i" if "i < length (d # ds)" for i
    using that rs(3) t [of 0] by (cases i) auto
  then show ?case using rs(1,2) by auto
next
  case (2 d ds resolved)
  then show ?case by (auto simp: tracks_def dest: spec [of _ 0])
qed (auto simp: tracks_def)

context record_cache
begin

lemma resolve_demands_ok:
  assumes "tier_ok L env mc l plan {} {} s" "misses_ok mc l gs (recs L s) ms" "tracks gs resolved (recs L s) (fst ` set ms)"
    and "\<forall>d \<in> set ds. \<exists>w. identity mc (demand_global_id d) = Inr \<lparr>li_layer_index = l, li_local_expert_id = w\<rparr>"
    and "distinct (gs @ map demand_global_id ds)"
    and "resolve_demands L mc (length gs) ds resolved ms s = (res, s')"
  shows "tier_ok L env mc l plan {} {} s' \<and>
    ((\<exists>resolved' ms'. res = Inr (resolved', ms') \<and> misses_ok mc l (gs @ map demand_global_id ds) (recs L s') ms' \<and>
        tracks (gs @ map demand_global_id ds) resolved' (recs L s') (fst ` set ms')) \<or>
     (\<exists>e. res = Inl e \<and> reportable e))"
  using assms
proof (induction ds arbitrary: gs resolved ms s)
  case Nil
  then show ?case by auto
next
  case (Cons d ds)
  let ?g = "demand_global_id d"
  obtain w where w: "identity mc ?g = Inr \<lparr>li_layer_index = l, li_local_expert_id = w\<rparr>" using Cons.prems(4) by auto
  obtain cres s1 where c: "current_record_locked L mc ?g True s = (cres, s1)"
    by (cases "current_record_locked L mc ?g True s")
  note C = current_record_ok [OF Cons.prems(1) c]
  have dist: "distinct ((gs @ [?g]) @ map demand_global_id ds)" using Cons.prems(5) by simp
  have ids: "\<forall>d \<in> set ds. \<exists>w. identity mc (demand_global_id d) = Inr \<lparr>li_layer_index = l, li_local_expert_id = w\<rparr>"
    using Cons.prems(4) by simp
  have IH: ?case
    if "lr_residents s2 = lr_residents s1" "tier_ok L env mc l plan {} {} s2" "misses_ok mc l (gs @ [?g]) (recs L s) ms'"
      "tracks (gs @ [?g]) r' (recs L s) (fst ` set ms')" "resolve_demands L mc (Suc (length gs)) ds r' ms' s2 = (res, s')"
    for s2 r' ms'
    using Cons.IH [of s2 "gs @ [?g]" ms' r'] that C(3) ids dist by simp
  note run = Cons.prems(6) [simplified, unfolded c C(1), simplified]
  show ?case
  proof (cases "recs L s ?g")
    case (Some x)
    have "tracks (gs @ [?g]) (resolved @ [Some (ph_residency x)]) (recs L s) (fst ` set ms)"
      by (rule tracks_snoc [OF Cons.prems(3)]) (use Some in auto)
    moreover obtain f where
      "resolve_demands L mc (Suc (length gs)) ds (resolved @ [Some (ph_residency x)]) ms (bump_counter f s1) = (res, s')"
      using run Some by auto
    ultimately show ?thesis
      using IH [of "bump_counter f s1" ms] C(2) misses_ok_mono [OF Cons.prems(2)] by simp
  next
    case None
    show ?thesis
    proof (cases d)
      case (Current g)
      then show ?thesis using run None C(2) by auto
    next
      case (Install g src)
      have "tracks (gs @ [?g]) (resolved @ [None]) (recs L s) (fst ` set (ms @ [(length gs, ?g, src)]))"
        by (rule tracks_snoc [OF Cons.prems(3)]) auto
      moreover have "misses_ok mc l (gs @ [?g]) (recs L s) (ms @ [(length gs, ?g, src)])"
        using misses_ok_snoc [OF Cons.prems(2) _ None w] Cons.prems(5) by simp
      moreover obtain f where "resolve_demands L mc (Suc (length gs)) ds (resolved @ [None])
          (ms @ [(length gs, ?g, src)]) (bump_counter f s1) = (res, s')"
        using run None Install by (auto simp: Let_def)
      ultimately show ?thesis using IH [of "bump_counter f s1" "ms @ [(length gs, ?g, src)]"] C(2) by simp
    qed
  qed
qed

end

context record_cache
begin

lemma oldest_unprotected_cases:
  assumes "lru_valid L c"
  shows "case oldest_unprotected L c protected of
      None \<Rightarrow> dom (map_of (lru_iter L c)) \<subseteq> protected
    | Some v \<Rightarrow> v \<notin> protected \<and> map_of (lru_iter L c) v \<noteq> None"
proof (cases "oldest_unprotected L c protected")
  case None
  then have "find (\<lambda>(g, _). g \<notin> protected) (rev (lru_iter L c)) = None" by (simp add: oldest_unprotected_def)
  then show ?thesis using None by (auto simp: find_None_iff dom_map_of_conv_image_fst)
next
  case (Some v)
  then obtain x where "find (\<lambda>(g, _). g \<notin> protected) (rev (lru_iter L c)) = Some (v, x)"
    by (auto simp: oldest_unprotected_def)
  then obtain i where "i < length (rev (lru_iter L c))" "rev (lru_iter L c) ! i = (v, x)" "v \<notin> protected"
    by (auto simp: find_Some_iff)
  then have "(v, x) \<in> set (lru_iter L c)" "v \<notin> protected" using nth_mem [of i "rev (lru_iter L c)"] by simp_all
  then show ?thesis using Some weak_map_of_SomeI by fastforce
qed

lemma evict_victims_ok:
  assumes "tier_ok L env mc l plan {} {} s" "finite prot"
    and "card (prot \<inter> dom (recs L s)) + n \<le> al_slot_capacity (vp_layout plan)"
  shows "\<exists>res s'. evict_victims L env mc layer prot n s = Some (res, s') \<and> tier_ok L env mc l plan {} {} s' \<and>
    (res = Inr () \<and> lru_len L (lr_residents s') + n \<le> al_slot_capacity (vp_layout plan) \<and>
        (\<forall>g \<in> prot. recs L s' g = recs L s g) \<or>
     (\<exists>e. res = Inl e \<and> reportable e))"
  using assms
proof (induction "lru_len L (lr_residents s)" arbitrary: s rule: less_induct)
  case less
  note T = less.prems(1) and D = tier_okD [OF less.prems(1)]
  let ?len = "lru_len L (lr_residents s)" and ?cap = "al_slot_capacity (vp_layout plan)"
  have cap: "lr_capacity s = ?cap" using in_flight_arena(5) [OF D(2)] by simp
  have sat: "saturating_add ?len n > lr_capacity s \<longleftrightarrow> ?len + n > ?cap"
    using cap layer_capacity [OF D(1)] by (auto simp: saturating_add_def)
  show ?case
  proof (cases "?len + n > ?cap")
    case False
    then show ?thesis using sat T by (subst evict_victims.simps) auto
  next
    case True
    note U = oldest_unprotected_cases [OF D(3), of prot]
    show ?thesis
    proof (cases "oldest_unprotected L (lr_residents s) prot")
      case None
      have "?len = card (dom (recs L s))"
        using len_entries [OF D(3)] keys_distinct [OF D(3)] distinct_card
        by (metis dom_map_of_conv_image_fst length_map set_map)
      moreover have "dom (recs L s) = prot \<inter> dom (recs L s)" using U None by auto
      ultimately show ?thesis using less.prems(3) True by simp
    next
      case (Some v)
      then obtain x where v: "v \<notin> prot" "recs L s v = Some x" using U by auto
      obtain r1 s1 where r: "retire_metadata_record_locked L env mc v True s = (r1, s1)"
        by (cases "retire_metadata_record_locked L env mc v True s")
      from T v(2) r show ?thesis
      proof (cases rule: retire_metadata_ok)
        case (lost e)
        then show ?thesis using True sat Some r by (subst evict_victims.simps) auto
      next
        case retired
        have "prot \<inter> dom (recs L s1) = prot \<inter> dom (recs L s)" using retired(3) v(1) by auto
        with less.hyps [of s1] retired(2,4) less.prems(2,3)
        obtain res s' where "evict_victims L env mc layer prot n s1 = Some (res, s')" "tier_ok L env mc l plan {} {} s'"
          "res = Inr () \<and> lru_len L (lr_residents s') + n \<le> ?cap \<and> (\<forall>g \<in> prot. recs L s' g = recs L s1 g) \<or>
            (\<exists>e. res = Inl e \<and> reportable e)" by auto
        moreover have "evict_victims L env mc layer prot n s = evict_victims L env mc layer prot n s1"
          using True sat Some r retired(1) by (subst evict_victims.simps) simp
        moreover have "\<forall>g \<in> prot. recs L s1 g = recs L s g" using retired(3) v(1) by auto
        ultimately show ?thesis by auto
      qed
    qed
  qed
qed

lemma ensure_demand_set_locked_ok:
  assumes T: "tier_ok L env mc l plan {} {} s"
    and ids: "\<forall>d \<in> set ds. \<exists>w. identity mc (demand_global_id d) = Inr \<lparr>li_layer_index = l, li_local_expert_id = w\<rparr>"
    and dist: "distinct (map demand_global_id ds)" and len: "length ds \<le> al_slot_capacity (vp_layout plan)"
  obtains res s' where
    "ensure_demand_set_locked L env mc path layer ds (set (map demand_global_id ds)) s = Some (res, s')"
    "tier_ok L env mc l plan {} {} s'"
    "(\<exists>rs. res = Inr rs \<and> length rs = length ds \<and>
        (\<forall>i < length ds. \<exists>x. recs L s' (demand_global_id (ds ! i)) = Some x \<and> ph_residency x = rs ! i)) \<or>
     (\<exists>e. res = Inl e \<and> reportable e)"
proof -
  let ?gs = "map demand_global_id ds"
  obtain rres s1 where r: "resolve_demands L mc 0 ds [] [] s = (rres, s1)" by (cases "resolve_demands L mc 0 ds [] [] s")
  have "misses_ok mc l [] (recs L s) []" "tracks [] [] (recs L s) (fst ` set [])" by (simp_all add: tracks_def)
  moreover have "resolve_demands L mc (length ([] :: u32 list)) ds [] [] s = (rres, s1)" using r by simp
  ultimately have "tier_ok L env mc l plan {} {} s1 \<and>
    ((\<exists>resolved ms. rres = Inr (resolved, ms) \<and> misses_ok mc l ([] @ ?gs) (recs L s1) ms \<and>
        tracks ([] @ ?gs) resolved (recs L s1) (fst ` set ms)) \<or> (\<exists>e. rres = Inl e \<and> reportable e))"
    using T ids dist by (intro resolve_demands_ok) simp_all
  then
  have R: "tier_ok L env mc l plan {} {} s1"
    "(\<exists>resolved ms. rres = Inr (resolved, ms) \<and> misses_ok mc l ?gs (recs L s1) ms \<and>
        tracks ?gs resolved (recs L s1) (fst ` set ms)) \<or> (\<exists>e. rres = Inl e \<and> reportable e)" by simp_all
  from R(2) show thesis
  proof
    assume "\<exists>e. rres = Inl e \<and> reportable e"
    then show thesis using that R(1) r by (auto simp: ensure_demand_set_locked_def)
  next
    assume "\<exists>resolved ms. rres = Inr (resolved, ms) \<and> misses_ok mc l ?gs (recs L s1) ms \<and>
        tracks ?gs resolved (recs L s1) (fst ` set ms)"
    then obtain resolved ms where M: "rres = Inr (resolved, ms)" "misses_ok mc l ?gs (recs L s1) ms"
      "tracks ?gs resolved (recs L s1) (fst ` set ms)" by blast
    have "card (set ?gs \<inter> dom (recs L s1)) + length ms \<le> al_slot_capacity (vp_layout plan)"
      using misses_count [OF M(2) dist] len by simp
    from evict_victims_ok [OF R(1) _ this, of layer] obtain eres s2 where
      E: "evict_victims L env mc layer (set ?gs) (length ms) s1 = Some (eres, s2)" "tier_ok L env mc l plan {} {} s2"
        "eres = Inr () \<and> lru_len L (lr_residents s2) + length ms \<le> al_slot_capacity (vp_layout plan) \<and>
          (\<forall>g \<in> set ?gs. recs L s2 g = recs L s1 g) \<or> (\<exists>e. eres = Inl e \<and> reportable e)" by auto
    from E(3) show thesis
    proof
      assume "\<exists>e. eres = Inl e \<and> reportable e"
      then show thesis using that E(1,2) r M(1) by (auto simp: ensure_demand_set_locked_def)
    next
      assume K: "eres = Inr () \<and> lru_len L (lr_residents s2) + length ms \<le> al_slot_capacity (vp_layout plan) \<and>
          (\<forall>g \<in> set ?gs. recs L s2 g = recs L s1 g)"
      let ?i = "if concurrent_path path
        then install_parallel_physical_misses_locked L env mc (path \<noteq> QualificationConcurrentDirectStagingFullZero) ms resolved s2
        else install_sequential_misses L env mc path ms resolved s2"
      obtain ires s3 where i: "?i = (ires, s3)" by (cases ?i)
      note M2 = misses_ok_cong [OF M(2)] tracks_cong [OF M(3)]
      have I: "tier_ok L env mc l plan {} {} s3 \<and>
        ((\<exists>resolved'. ires = Inr resolved' \<and> tracks ?gs resolved' (recs L s3) {}) \<or> (\<exists>e. ires = Inl e \<and> reportable e))"
      proof (cases "concurrent_path path")
        case True
        then show ?thesis using install_parallel_ok [OF E(2) M2(1) _ M2(2)] K i by simp
      next
        case False
        then show ?thesis using install_sequential_misses_ok [OF E(2) M2(1) _ M2(2)] K i by simp
      qed
      have eq: "ensure_demand_set_locked L env mc path layer ds (set ?gs) s =
          Some (tbind (ires, s3) (\<lambda>resolved s. (collect_resolved ds resolved, s)))"
        using r M(1) E(1) K i by (simp add: ensure_demand_set_locked_def)
      from I show thesis using that eq collect_tracks by fastforce
    qed
  qed
qed

lemma ensure_speculative_locked_ok:
  assumes T: "tier_ok L env mc l plan {} {} s" and g: "identity mc g = Inr \<lparr>li_layer_index = l, li_local_expert_id = w\<rparr>"
    and r: "ensure_speculative_locked L env mc g src s = (res, s')"
  shows "tier_ok L env mc l plan {} {} s'" "\<forall>e. res = Inl e \<longrightarrow> reportable e"
    "recs L s \<subseteq>\<^sub>m recs L s'"
proof -
  obtain cres s1 where c: "current_record_locked L mc g True s = (cres, s1)"
    by (cases "current_record_locked L mc g True s")
  note C = current_record_ok [OF T c]
  have "tier_ok L env mc l plan {} {} s' \<and> (\<forall>e. res = Inl e \<longrightarrow> reportable e) \<and> recs L s \<subseteq>\<^sub>m recs L s'"
  proof (cases "recs L s g")
    case (Some x)
    then show ?thesis using r c C(1-3) by (auto simp: ensure_speculative_locked_def)
  next
    case None
    let ?s = "tick s1"
    have T1: "tier_ok L env mc l plan {} {} ?s" using tier_ok_tick [OF C(2)] .
    have cap: "lr_capacity ?s = al_slot_capacity (vp_layout plan)" using in_flight_arena(5) [OF tier_okD(2) [OF T1]] by simp
    obtain ires s2 where i: "install_locked L env mc LegacyFullSlotVecControl g src True ?s = (ires, s2)"
      by (cases "install_locked L env mc LegacyFullSlotVecControl g src True ?s")
    note run = r [unfolded ensure_speculative_locked_def c C(1) None Let_def tbind.simps option.case i]
    show ?thesis
    proof (cases "en_contains_generation env (clock s1) g (src_generation src) \<and> lru_len L (lr_residents ?s) < lr_capacity ?s")
      case False
      then show ?thesis using run T1 C(3) by (auto split: if_splits)
    next
      case True
      have none: "recs L ?s g = None" using C(3) None by simp
      have room: "lru_len L (lr_residents ?s) < al_slot_capacity (vp_layout plan)" using True cap by simp
      from T1 g none room i show ?thesis
      proof (cases rule: install_locked_ok)
        case (installed r x)
        then show ?thesis using run True C(3) None by (auto simp: map_le_def split: if_splits)
      next
        case (error e)
        then show ?thesis using run True C(3) by (cases e) (auto split: if_splits)
      qed
    qed
  qed
  then show "tier_ok L env mc l plan {} {} s'" "\<forall>e. res = Inl e \<longrightarrow> reportable e"
    "recs L s \<subseteq>\<^sub>m recs L s'" by auto
qed

end

end
