(* ===== verification/ResidencyRuns.thy ===== *)
theory ResidencyRuns
  imports ResidencyDemand
begin

section \<open>Runs of the residency manager\<close>

text \<open>
  The manager over all its layers: the clock of the readings only advances, so what is known of a layer
  stays known while another one works; creation establishes the invariant and every method keeps it. The
  properties follow for every state that demand sets, speculative installs, probes and queries reach, and
  a manager with two layers on a small device is the input of their witnesses.
\<close>

subsection \<open>The clock only advances\<close>

lemma tbind_clock:
  "clock s \<le> clock (snd m) \<Longrightarrow> (\<And>a s. clock s \<le> clock (snd (f a s))) \<Longrightarrow> clock s \<le> clock (snd (tbind m f))"
  by (cases "(m, f)" rule: tbind.cases) (auto intro: order_trans)

lemma backend_clock: "clock (snd (backend m)) = clock (snd m)"
  by (simp add: backend_def)

lemma acquire_clock: "clock s \<le> clock (snd (acquire_q4_expert_residency env mc key s))"
  by (auto simp: acquire_q4_expert_residency_def split: sum.split prod.split)

lemma retire_clock: "clock s \<le> clock (snd (retire_q4_expert_residency env mc key s))"
  by (auto simp: retire_q4_expert_residency_def split: sum.split prod.split)

lemma stage_clock: "clock s \<le> clock (snd (stage_q4_expert_residency env mc nz p payload s))"
  by (auto simp: stage_q4_expert_residency_def split: sum.split prod.split)

lemma commit_clock: "clock s \<le> clock (snd (commit_q4_expert_residency env mc pr s))"
  by (auto simp: commit_q4_expert_residency_def split: sum.split prod.split)

lemma install_clock: "clock s \<le> clock (snd (install_q4_expert_residency env mc path p payload s))"
  by (auto simp: install_q4_expert_residency_def Let_def split: sum.split prod.split)

lemma current_record_clock: "clock (snd (current_record_locked L mc g tf s)) = clock s"
  by (auto simp: current_record_locked_def split: sum.split prod.split option.split)

lemma retire_metadata_clock: "clock s \<le> clock (snd (retire_metadata_record_locked L env mc g ev s))"
  unfolding retire_metadata_record_locked_def
  by (auto simp: backend_clock retire_clock Let_def split: option.split intro!: tbind_clock)

lemma record_install_clock: "clock (record_install L g key r b sp s) = clock s"
  by (auto simp: record_install_def Let_def bump_counter_def on_log_def count_log_def)

lemma keep_clock: "clock s \<le> clock (snd (keep_if_current L env mc g key r b sp s))"
proof -
  have "clock (tick s) \<le> clock (snd (tbind (backend (retire_q4_expert_residency env mc key (tick s)))
      (\<lambda>_ s. (Inl (LogicalAdmissionStale g (qk_logical_generation key)) :: tiered_error + q4_residency, count_stale s))))"
    by (rule tbind_clock) (use retire_clock [of "tick s" env mc key] in \<open>simp_all add: backend_clock\<close>)
  then show ?thesis by (auto simp: keep_if_current_def Let_def record_install_clock)
qed

lemma install_locked_clock: "clock s \<le> clock (snd (install_locked L env mc path g src sp s))"
  unfolding install_locked_def
  by (auto simp: backend_clock acquire_clock install_clock keep_clock split: sum.split prod.split q4_acquire.split
      intro!: tbind_clock)

lemma drop_reserved_clock: "clock (drop_reserved rs s) = clock s"
  by (induction rs arbitrary: s) (auto simp: drop_reserved_def)

lemma drop_staged_clock: "clock (drop_staged xs s) = clock s"
  by (induction xs s rule: drop_staged.induct) auto

lemma reserve_clock: "clock s \<le> clock (snd (reserve_misses env mc ms rs s))"
proof (induction ms arbitrary: rs s)
  case (Cons m ms)
  obtain i g src where m: "m = (i, g, src)" by (cases m)
  obtain k where k: "ebind (identity mc g) (\<lambda>li. ebind (global_to_q4_expert_key mc g (src_generation src))
      (\<lambda>key. Inr (li, key))) = k" by blast
  show ?case
  proof (cases k)
    case (Inl e)
    then show ?thesis using m k by (simp add: drop_reserved_clock)
  next
    case (Inr lk)
    obtain li key where lk: "lk = (li, key)" by (cases lk)
    obtain r s1 where a: "acquire_q4_expert_residency env mc key s = (r, s1)"
      by (cases "acquire_q4_expert_residency env mc key s")
    have "clock s \<le> clock s1" using acquire_clock [of s env mc key] a by simp
    moreover have "clock s1 \<le> clock (snd (reserve_misses env mc ms rs' s1))" for rs' by (rule Cons.IH)
    ultimately have "clock s \<le> clock (snd (reserve_misses env mc ms rs' s1))" for rs' using order_trans by blast
    then show ?thesis
      using m k Inr lk a \<open>clock s \<le> clock s1\<close>
      by (auto simp: drop_reserved_clock split: sum.split q4_acquire.split)
  qed
qed simp

lemma stage_reserved_clock: "clock s \<le> clock (snd (stage_reserved env mc nz rs s))"
proof (induction rs arbitrary: s)
  case (Cons r rs)
  obtain x s1 where a: "stage_q4_expert_residency env mc nz (ri_permit r) (src_data (ri_source r)) s = (x, s1)"
    by (cases "stage_q4_expert_residency env mc nz (ri_permit r) (src_data (ri_source r)) s")
  have "clock s \<le> clock s1" using stage_clock [of s env mc nz "ri_permit r" "src_data (ri_source r)"] a by simp
  also have "\<dots> \<le> clock (snd (stage_reserved env mc nz rs s1))" by (rule Cons.IH)
  finally show ?case using a by (auto simp: backend_def split: prod.split)
qed simp

lemma commit_staged_clock: "clock s \<le> clock (snd (commit_staged L env mc xs resolved s))"
proof (induction xs arbitrary: resolved s)
  case (Cons y xs)
  show ?case
  proof (cases y)
    case (Inl e)
    then show ?thesis by (simp add: drop_staged_clock)
  next
    case (Inr x)
    let ?m = "tbind (backend (commit_q4_expert_residency env mc (si_prepared x) s))
      (\<lambda>residency s. keep_if_current L env mc (si_global_id x) (si_key x) residency True False s)"
    obtain r s1 where m: "?m = (r, s1)" by (cases ?m)
    have "clock s \<le> clock (snd ?m)" by (rule tbind_clock) (simp_all add: backend_clock commit_clock keep_clock)
    then have le: "clock s \<le> clock s1" using m by simp
    have "clock s \<le> clock (snd (commit_staged L env mc xs resolved' s1))" for resolved'
      using le Cons.IH order_trans by blast
    then show ?thesis using Inr m le by (simp add: drop_staged_clock split: sum.split)
  qed
qed simp

lemma install_parallel_clock:
  fixes s :: "'c locked"
  shows "clock s \<le> clock (snd (install_parallel_physical_misses_locked L env mc nz ms resolved s))"
  unfolding install_parallel_physical_misses_locked_def
proof (rule tbind_clock [OF reserve_clock])
  fix rs and s :: "'c locked"
  obtain xs s1 where x: "stage_reserved env mc nz rs s = (xs, s1)" by (cases "stage_reserved env mc nz rs s")
  have "clock s \<le> clock s1" using stage_reserved_clock [of s env mc nz rs] x by simp
  also have "\<dots> \<le> clock (snd (commit_staged L env mc xs resolved s1))" by (rule commit_staged_clock)
  finally show "clock s \<le> clock (snd (case stage_reserved env mc nz rs s of (staged, s) \<Rightarrow> commit_staged L env mc staged resolved s))"
    using x by simp
qed

lemma install_sequential_misses_clock: "clock s \<le> clock (snd (install_sequential_misses L env mc path ms resolved s))"
proof (induction ms arbitrary: resolved s)
  case (Cons m ms)
  obtain i g src where m: "m = (i, g, src)" by (cases m)
  show ?case unfolding m install_sequential_misses.simps by (rule tbind_clock [OF install_locked_clock Cons.IH])
qed simp

lemma resolve_clock: "clock s \<le> clock (snd (resolve_demands L mc i ds resolved ms s))"
proof (induction ds arbitrary: i resolved ms s)
  case (Cons d ds)
  have IH: "clock s \<le> clock (snd (resolve_demands L mc i ds resolved ms (bump_counter f s)))" for i resolved ms s f
    using Cons.IH [of "bump_counter f s" i resolved ms] by simp
  show ?case
    unfolding resolve_demands.simps
    by (rule tbind_clock) (auto simp: current_record_clock IH Let_def split: option.split demand_expert.split)
qed simp

lemma evict_clock:
  fixes s :: "'c locked"
  assumes "evict_victims L env mc layer prot n s = Some r"
  shows "clock s \<le> clock (snd r)"
proof (rule evict_victims.raw_induct [where P = "\<lambda>L env mc layer prot n s r. clock s \<le> clock (snd r)", OF _ assms])
  fix evict :: "('c, physical_record) lru_ops \<Rightarrow> env \<Rightarrow> manager_ctx \<Rightarrow> usize \<Rightarrow> u32 set \<Rightarrow> usize \<Rightarrow> 'c locked \<Rightarrow>
      ((tiered_error + unit) \<times> 'c locked) option"
  fix L env mc layer prot n r and s :: "'c locked"
  assume IH: "\<And>L env mc layer prot n s r. evict L env mc layer prot n s = Some r \<Longrightarrow> clock s \<le> clock (snd r)"
  let ?m = "retire_metadata_record_locked L env mc (the (oldest_unprotected L (lr_residents s) prot)) True s"
  obtain res s1 where m: "?m = (res, s1)" by (cases ?m)
  have le: "clock s \<le> clock s1"
    using retire_metadata_clock [of s L env mc "the (oldest_unprotected L (lr_residents s) prot)" True] m by simp
  assume "(if lr_capacity s < saturating_add (lru_len L (lr_residents s)) n
      then case oldest_unprotected L (lr_residents s) prot of
          None \<Rightarrow> Some (Inl (NoEvictablePhysicalSlot layer), s)
        | Some victim \<Rightarrow>
            (case retire_metadata_record_locked L env mc victim True s of
               (Inl e, s') \<Rightarrow> Some (Inl e, s')
             | (Inr x, s') \<Rightarrow> evict L env mc layer prot n s')
      else Some (Inr (), s)) = Some r"
  then show "clock s \<le> clock (snd r)"
    using IH [of L env mc layer prot n s1 r] m le
    by (cases res) (auto simp: retire_metadata_clock split: if_splits option.splits)
qed

lemma ensure_demand_clock:
  assumes "ensure_demand_set_locked L env mc path layer ds prot s = Some (res, s')"
  shows "clock s \<le> clock s'"
proof -
  obtain r s1 where r: "resolve_demands L mc 0 ds [] [] s = (r, s1)" by (cases "resolve_demands L mc 0 ds [] [] s")
  have le: "clock s \<le> clock s1" using resolve_clock [of s L mc 0 ds "[]" "[]"] r by simp
  show ?thesis
  proof (cases r)
    case (Inl e)
    then show ?thesis using assms r le by (simp add: ensure_demand_set_locked_def)
  next
    case (Inr p)
    obtain resolved ms where p: "p = (resolved, ms)" by (cases p)
    obtain ev where e: "evict_victims L env mc layer prot (length ms) s1 = Some ev"
      and run: "(res, s') = tbind ev (\<lambda>_ s. tbind (if concurrent_path path
          then install_parallel_physical_misses_locked L env mc (path \<noteq> QualificationConcurrentDirectStagingFullZero) ms resolved s
          else install_sequential_misses L env mc path ms resolved s) (\<lambda>resolved s. (collect_resolved ds resolved, s)))"
      using assms r Inr p by (auto simp: ensure_demand_set_locked_def split: bind_splits)
    have "clock s1 \<le> clock (snd (res, s'))"
      unfolding run by (intro tbind_clock evict_clock [OF e])
        (auto simp: install_parallel_clock install_sequential_misses_clock)
    then show ?thesis using le by simp
  qed
qed

lemma ensure_speculative_clock: "clock s \<le> clock (snd (ensure_speculative_locked L env mc g src s))"
proof -
  have "clock s \<le> clock (snd (install_locked L env mc path g src sp (tick s)))" for s :: "'a locked" and path sp
    using install_locked_clock [of "tick s" L env mc path g src sp] by simp
  then have "clock s \<le> clock s2" if "install_locked L env mc path g src sp (tick s) = (r, s2)"
    for s s2 :: "'a locked" and r path sp using that by (metis snd_conv)
  then show ?thesis
    unfolding ensure_speculative_locked_def
    by (intro tbind_clock)
      (auto simp: current_record_clock Let_def split: option.split prod.split sum.split tiered_error.split)
qed

subsection \<open>The invariant of the manager\<close>

abbreviation layer_plan :: "'c manager \<Rightarrow> usize \<Rightarrow> vram_plan" where
  "layer_plan m l \<equiv> mp_layer_plans (mc_plan (tm_ctx m)) ! l"

definition manager_ok :: "('c, physical_record) lru_ops \<Rightarrow> env \<Rightarrow> 'c manager \<Rightarrow> bool" where
  "manager_ok L env m \<longleftrightarrow>
     tm_layers m \<noteq> [] \<and> length (tm_layers m) = length (mp_layer_plans (mc_plan (tm_ctx m))) \<and>
     (\<forall>l < length (tm_layers m). tier_ok L env (tm_ctx m) l (layer_plan m l) {} {} (lock_layer l m))"

lemma lock_simps [simp]:
  "lr_arena (lock_layer l m) = lr_arena (tm_layers m ! l)" "lr_residents (lock_layer l m) = lr_residents (tm_layers m ! l)"
  "lk_log (lock_layer l m) = tm_log m"
  by (simp_all add: lock_layer_def layer_residency.defs locked.defs)

lemma unlock_simps [simp]:
  "tm_ctx (unlock_layer l m s) = tm_ctx m" "length (tm_layers (unlock_layer l m s)) = length (tm_layers m)"
  "tm_log (unlock_layer l m s) = lk_log s" "k \<noteq> l \<Longrightarrow> tm_layers (unlock_layer l m s) ! k = tm_layers m ! k"
  "l < length (tm_layers m) \<Longrightarrow> lr_arena (tm_layers (unlock_layer l m s) ! l) = lr_arena s"
  "l < length (tm_layers m) \<Longrightarrow> lr_residents (tm_layers (unlock_layer l m s) ! l) = lr_residents s"
  by (simp_all add: unlock_layer_def layer_residency.defs)

lemma manager_okD:
  assumes "manager_ok L env m"
  shows "tm_layers m \<noteq> []" "length (tm_layers m) = length (mp_layer_plans (mc_plan (tm_ctx m)))"
    "\<And>l. l < length (tm_layers m) \<Longrightarrow> tier_ok L env (tm_ctx m) l (layer_plan m l) {} {} (lock_layer l m)"
    "\<And>l. l < length (tm_layers m) \<Longrightarrow> qa_plan (lr_arena (tm_layers m ! l)) = layer_plan m l"
    "\<And>g li. identity (tm_ctx m) g = Inr li \<Longrightarrow> li_layer_index li < length (tm_layers m)"
proof -
  show n: "tm_layers m \<noteq> []" and len: "length (tm_layers m) = length (mp_layer_plans (mc_plan (tm_ctx m)))"
    and t: "\<And>l. l < length (tm_layers m) \<Longrightarrow> tier_ok L env (tm_ctx m) l (layer_plan m l) {} {} (lock_layer l m)"
    using assms by (simp_all add: manager_ok_def)
  show "\<And>l. l < length (tm_layers m) \<Longrightarrow> qa_plan (lr_arena (tm_layers m ! l)) = layer_plan m l"
    using in_flight_arena(5) [OF tier_okD(2) [OF t]] by simp
  have "0 < length (tm_layers m)" using n by simp
  from layer_ctxD(5) [OF tier_okD(1) [OF t [OF this]]]
  show "\<And>g li. identity (tm_ctx m) g = Inr li \<Longrightarrow> li_layer_index li < length (tm_layers m)"
    using len by simp
qed

lemma tier_ok_later:
  assumes "tier_ok L env mc l plan P X s" "lr_arena s' = lr_arena s" "lr_residents s' = lr_residents s" "clock s \<le> clock s'"
  shows "tier_ok L env mc l plan P X s'"
  using assms layer_ctxD(6) [OF tier_okD(1) [OF assms(1)], of "clock s'" "clock s"] by (simp add: tier_ok_def)

lemma manager_ok_log:
  assumes "manager_ok L env m" "tl_clock (tm_log m) \<le> tl_clock lg"
  shows "manager_ok L env (m\<lparr>tm_log := lg\<rparr>)"
proof -
  have "tier_ok L env (tm_ctx m) l (layer_plan m l) {} {} (lock_layer l (m\<lparr>tm_log := lg\<rparr>))" if "l < length (tm_layers m)" for l
    by (rule tier_ok_later [OF manager_okD(3) [OF assms(1) that]]) (use assms(2) in simp_all)
  then show ?thesis using assms(1) by (simp add: manager_ok_def)
qed

lemma unlock_ok:
  assumes M: "manager_ok L env m" and l: "l < length (tm_layers m)"
    and T: "tier_ok L env (tm_ctx m) l (layer_plan m l) {} {} s" and c: "tl_clock (tm_log m) \<le> clock s"
  shows "manager_ok L env (unlock_layer l m s)"
proof -
  have "tier_ok L env (tm_ctx m) k (layer_plan m k) {} {} (lock_layer k (unlock_layer l m s))"
    if k: "k < length (tm_layers m)" for k
  proof (cases "k = l")
    case True
    have "tier_ok L env (tm_ctx m) l (layer_plan m l) {} {} (lock_layer l (unlock_layer l m s))"
      by (rule tier_ok_later [OF T]) (use l in simp_all)
    then show ?thesis using True by simp
  next
    case False
    show ?thesis by (rule tier_ok_later [OF manager_okD(3) [OF M k]]) (use c False in simp_all)
  qed
  then show ?thesis using manager_okD(1,2) [OF M] by (simp add: manager_ok_def unlock_layer_def)
qed

abbreviation layer_records :: "('c, physical_record) lru_ops \<Rightarrow> 'c manager \<Rightarrow> usize \<Rightarrow> records" where
  "layer_records L m l \<equiv> map_of (lru_iter L (lr_residents (tm_layers m ! l)))"

lemma unlock_records:
  assumes "l < length (tm_layers m)" "layer_records L m l \<subseteq>\<^sub>m recs L s"
  shows "layer_records L m k \<subseteq>\<^sub>m layer_records L (unlock_layer l m s) k"
  using assms by (cases "k = l") simp_all

lemma validate_source_clock: "tl_clock lg \<le> tl_clock (snd (validate_source env g src lg))"
  by (auto simp: validate_source_def contains_generation_now_def tick_log_def count_log_def split: bool.split)

lemma check_demands_clock: "tl_clock lg \<le> tl_clock (snd (check_demands env mc l ds prot lg))"
proof (induction ds arbitrary: prot lg)
  case (Cons d ds)
  have IH: "tl_clock lg \<le> tl_clock (snd (check_demands env mc l ds prot' lg'))" if "tl_clock lg \<le> tl_clock lg'" for prot' lg'
    using Cons.IH [of lg' prot'] that by simp
  obtain r lg' where v: "(case d of Install _ src \<Rightarrow> validate_source env (demand_global_id d) src lg | Current _ \<Rightarrow> (Inr (), lg)) = (r, lg')"
    by (cases "case d of Install _ src \<Rightarrow> validate_source env (demand_global_id d) src lg | Current _ \<Rightarrow> (Inr (), lg)")
  then have "tl_clock lg \<le> tl_clock lg'"
    using validate_source_clock [of lg env "demand_global_id d"] by (cases d) (auto, metis snd_conv)
  then show ?case using v IH by (cases r) (auto simp: Let_def split: sum.split)
qed simp

lemma validate_source_reportable: "validate_source env g src lg = (Inl e, lg') \<Longrightarrow> reportable e"
  by (auto simp: validate_source_def contains_generation_now_def split: if_splits bool.splits)

lemma identity_reportable: "identity mc g = Inl e \<Longrightarrow> reportable e"
  by (auto simp: identity_def global_to_layer_local_def validate_namespace_def Let_def split: if_splits)

lemma check_demands_ok:
  assumes "check_demands env mc l ds prot lg = (res, lg')"
  shows "(\<exists>e. res = Inl e \<and> reportable e) \<or>
    res = Inr (set (map demand_global_id ds) \<union> prot) \<and> distinct (map demand_global_id ds) \<and>
      set (map demand_global_id ds) \<inter> prot = {} \<and>
      (\<forall>d \<in> set ds. \<exists>w. identity mc (demand_global_id d) = Inr \<lparr>li_layer_index = l, li_local_expert_id = w\<rparr>)"
  using assms
proof (induction ds arbitrary: prot lg)
  case Nil
  then show ?case by simp
next
  case (Cons d ds)
  let ?g = "demand_global_id d"
  show ?case
  proof (cases "?g \<in> prot")
    case True
    then show ?thesis using Cons.prems by auto
  next
    case new: False
    show ?thesis
    proof (cases "identity mc ?g")
      case (Inl e)
      then show ?thesis using Cons.prems new identity_reportable by auto
    next
      case (Inr li)
      obtain r lg1 where v: "(case d of Install _ src \<Rightarrow> validate_source env ?g src lg | Current _ \<Rightarrow> (Inr (), lg)) = (r, lg1)"
        by (cases "case d of Install _ src \<Rightarrow> validate_source env ?g src lg | Current _ \<Rightarrow> (Inr (), lg)")
      show ?thesis
      proof (cases "li_layer_index li = l \<and> (\<exists>u. r = Inr u)")
        case False
        then have "(\<exists>e. r = Inl e \<and> res = Inl e) \<or> res = Inl (DemandLayerMismatch l ?g (li_layer_index li))"
          using Cons.prems [unfolded check_demands.simps Let_def] new Inr v by (cases r) (auto split: if_splits)
        moreover have "reportable e" if "r = Inl e" for e
          using v that validate_source_reportable by (cases d) auto
        ultimately show ?thesis by auto
      next
        case True
        then have "check_demands env mc l ds (insert ?g prot) lg1 = (res, lg')" 
          using Cons.prems [unfolded check_demands.simps Let_def] new Inr v by auto
        moreover have li: "identity mc ?g = Inr \<lparr>li_layer_index = l, li_local_expert_id = li_local_expert_id li\<rparr>"
          using Inr True by simp
        ultimately show ?thesis
          using Cons.IH [of "insert ?g prot" lg1] new by auto
      qed
    qed
  qed
qed

subsection \<open>Operations keep the invariant\<close>

context record_cache
begin

lemma current_record_manager:
  assumes M: "manager_ok L env m" and l: "l < length (tm_layers m)" and c: "clock s = clock s0" "tl_clock (tm_log m) \<le> clock s0"
    and s0: "lr_arena s0 = lr_arena (lock_layer l m)" "lr_residents s0 = lr_residents (lock_layer l m)"
    and r: "current_record_locked L (tm_ctx m) g tf s0 = (res, s)"
  shows "tier_ok L env (tm_ctx m) l (layer_plan m l) {} {} s"
    "res = Inr (layer_records L m l g)"
proof -
  have "tier_ok L env (tm_ctx m) l (layer_plan m l) {} {} s0"
    by (rule tier_ok_later [OF manager_okD(3) [OF M l]]) (use s0 c in simp_all)
  from current_record_ok(1,2) [OF this r] s0
  show "tier_ok L env (tm_ctx m) l (layer_plan m l) {} {} s"
    "res = Inr (layer_records L m l g)" by simp_all
qed

lemma has_current_ok:
  assumes M: "manager_ok L env m" and h: "has_current_for_demand L g m = (res, m')"
  shows "manager_ok L env m'" "\<forall>e. res = Inl e \<longrightarrow> reportable e"
    "\<forall>li. identity (tm_ctx m) g = Inr li \<longrightarrow>
       res = Inr (layer_records L m (li_layer_index li) g \<noteq> None)"
proof -
  have "manager_ok L env m' \<and> (\<forall>e. res = Inl e \<longrightarrow> reportable e) \<and> (\<forall>li. identity (tm_ctx m) g = Inr li \<longrightarrow>
      res = Inr (layer_records L m (li_layer_index li) g \<noteq> None))"
  proof (cases "identity (tm_ctx m) g")
    case (Inl e)
    then show ?thesis using h M identity_reportable by (auto simp: has_current_for_demand_def)
  next
    case (Inr li)
    let ?l = "li_layer_index li"
    note l = manager_okD(5) [OF M Inr]
    obtain r s where r: "current_record_locked L (tm_ctx m) g False (lock_layer ?l m) = (r, s)"
      by (cases "current_record_locked L (tm_ctx m) g False (lock_layer ?l m)")
    have c: "clock s = clock (lock_layer ?l m)" using current_record_clock [of L "tm_ctx m" g False "lock_layer ?l m"] r by simp
    from current_record_manager [OF M l c _ _ _ r]
    have "tier_ok L env (tm_ctx m) ?l (layer_plan m ?l) {} {} s"
      "r = Inr (layer_records L m ?l g)" by simp_all
    then show ?thesis using h Inr r unlock_ok [OF M l, of s] c by (auto simp: has_current_for_demand_def)
  qed
  then show "manager_ok L env m'" "\<forall>e. res = Inl e \<longrightarrow> reportable e"
    "\<forall>li. identity (tm_ctx m) g = Inr li \<longrightarrow>
       res = Inr (layer_records L m (li_layer_index li) g \<noteq> None)" by blast+
qed

lemma probe_speculative_ok:
  assumes M: "manager_ok L env m" and h: "probe_speculative L env priority g m = (res, m')"
  shows "manager_ok L env m'" "\<forall>e. res = Inl e \<longrightarrow> reportable e"
proof -
  let ?m = "m\<lparr>tm_log := count_log (\<lambda>c. c\<lparr>tc_speculative_requests := tc_speculative_requests c + 1\<rparr>) (tm_log m)\<rparr>"
  have M': "manager_ok L env ?m" using M by (rule manager_ok_log) (simp add: count_log_def)
  have "manager_ok L env m' \<and> (\<forall>e. res = Inl e \<longrightarrow> reportable e)"
  proof (cases "priority = Speculative")
    case False
    then show ?thesis using h M by (auto simp: probe_speculative_def)
  next
    case spec: True
    note run = h [unfolded probe_speculative_def Let_def, simplified spec, simplified]
    show ?thesis
    proof (cases "identity (tm_ctx m) g")
      case (Inl e)
      then show ?thesis using run M' identity_reportable by auto
    next
      case (Inr li)
      let ?l = "li_layer_index li"
      let ?s = "tick (lock_layer ?l ?m)"
      have l: "?l < length (tm_layers ?m)" using manager_okD(5) [OF M Inr] by simp
      have T0: "tier_ok L env (tm_ctx ?m) ?l (layer_plan ?m ?l) {} {} ?s" using tier_ok_tick [OF manager_okD(3) [OF M' l]] .
      obtain r s where r: "current_record_locked L (tm_ctx ?m) g True ?s = (r, s)"
        by (cases "current_record_locked L (tm_ctx ?m) g True ?s")
      have c: "clock s = clock ?s" using current_record_clock [of L "tm_ctx ?m" g True ?s] r by simp
      have T: "tier_ok L env (tm_ctx ?m) ?l (layer_plan ?m ?l) {} {} s" "\<exists>x. r = Inr x"
        using current_record_ok(1,2) [OF T0 r] by auto
      have U: "manager_ok L env (unlock_layer ?l ?m s')"
        if "tier_ok L env (tm_ctx ?m) ?l (layer_plan ?m ?l) {} {} s'" "clock ?s \<le> clock s'" for s'
        using unlock_ok [OF M' l that(1)] that(2) by simp
      show ?thesis
        using run Inr r T U [of "record_speculative_drop ?s"] T0 U [of "bump_counter f s" for f] c
        by (auto split: if_splits option.splits)
    qed
  qed
  then show "manager_ok L env m'" "\<forall>e. res = Inl e \<longrightarrow> reportable e" by blast+
qed

lemma ensure_speculative_ok:
  assumes M: "manager_ok L env m" and h: "ensure_speculative_resident L env priority g src m = (res, m')"
  shows "manager_ok L env m'" "\<forall>e. res = Inl e \<longrightarrow> reportable e"
    "layer_records L m k \<subseteq>\<^sub>m layer_records L m' k"
proof -
  have "manager_ok L env m' \<and> (\<forall>e. res = Inl e \<longrightarrow> reportable e) \<and> layer_records L m k \<subseteq>\<^sub>m layer_records L m' k"
  proof (cases "priority = Speculative")
    case False
    then show ?thesis using h M by (auto simp: ensure_speculative_resident_def)
  next
    case spec: True
    obtain v lg where v: "validate_source env g src (tm_log m) = (v, lg)" by (cases "validate_source env g src (tm_log m)")
    let ?m = "m\<lparr>tm_log := lg\<rparr>"
    have M': "manager_ok L env ?m"
      using M by (rule manager_ok_log) (use validate_source_clock [of "tm_log m" env g src] v in simp)
    note run = h [unfolded ensure_speculative_resident_def Let_def v, simplified spec, simplified]
    show ?thesis
    proof (cases v)
      case (Inl e)
      then show ?thesis using run M' validate_source_reportable [of env g src "tm_log m" e lg] v by (cases e) auto
    next
      case ok: (Inr u)
      show ?thesis
      proof (cases "identity (tm_ctx m) g")
        case (Inl e)
        then show ?thesis using run ok M' identity_reportable by auto
      next
        case (Inr li)
        let ?l = "li_layer_index li"
        let ?s = "tick (lock_layer ?l ?m)"
        have l: "?l < length (tm_layers ?m)" using manager_okD(5) [OF M Inr] by simp
        have T0: "tier_ok L env (tm_ctx ?m) ?l (layer_plan ?m ?l) {} {} ?s" using tier_ok_tick [OF manager_okD(3) [OF M' l]] .
        obtain r s where r: "ensure_speculative_locked L env (tm_ctx ?m) g src ?s = (r, s)"
          by (cases "ensure_speculative_locked L env (tm_ctx ?m) g src ?s")
        have c: "clock ?s \<le> clock s" using ensure_speculative_clock [of ?s L env "tm_ctx ?m" g src] r by simp
        have g: "identity (tm_ctx ?m) g = Inr \<lparr>li_layer_index = ?l, li_local_expert_id = li_local_expert_id li\<rparr>" using Inr by simp
        note T = ensure_speculative_locked_ok [OF T0 g r]
        note K = unlock_records [OF l, where k = k and L = L]
        show ?thesis
          using K [of s] K [of "record_speculative_drop ?s"] T(3) run ok Inr r T(2) unlock_ok [OF M' l T(1)] unlock_ok [OF M' l, of "record_speculative_drop ?s"] T0 c
          by (auto split: if_splits)
      qed
    qed
  qed
  then show "manager_ok L env m'" "\<forall>e. res = Inl e \<longrightarrow> reportable e"
    "layer_records L m k \<subseteq>\<^sub>m layer_records L m' k" by blast+
qed

lemma ensure_demand_set_ok:
  assumes M: "manager_ok L env m"
  obtains res m' where "ensure_demand_set L env path priority l ds m = Some (res, m')" "manager_ok L env m'"
    "tm_ctx m' = tm_ctx m"
    "(\<exists>rs. res = Inr rs \<and> l < length (tm_layers m') \<and> length rs = length ds \<and>
        (\<forall>i < length ds. \<exists>x. layer_records L m' l (demand_global_id (ds ! i)) = Some x \<and>
           ph_residency x = rs ! i)) \<or>
     (\<exists>e. res = Inl e \<and> reportable e)"
proof (cases "priority = Speculative \<or> length (tm_layers m) \<le> l \<or> lr_capacity (tm_layers m ! l) < length ds")
  case True
  then have "\<exists>e. ensure_demand_set L env path priority l ds m = Some (Inl e, m) \<and> reportable e"
    by (auto simp: ensure_demand_set_def)
  then show thesis using that [OF _ M] by auto
next
  case False
  then have F: "priority \<noteq> Speculative" "l < length (tm_layers m)" "length ds \<le> lr_capacity (tm_layers m ! l)" by auto
  obtain c lg where c: "check_demands env (tm_ctx m) l ds {} (tm_log m) = (c, lg)"
    by (cases "check_demands env (tm_ctx m) l ds {} (tm_log m)")
  have clk: "tl_clock (tm_log m) \<le> tl_clock lg" using check_demands_clock [of "tm_log m" env "tm_ctx m" l ds "{}"] c by simp
  note eq = ensure_demand_set_def [of L env path priority l ds m, unfolded c]
  from check_demands_ok [OF c] show thesis
  proof
    assume "\<exists>e. c = Inl e \<and> reportable e"
    then show thesis using that [OF _ manager_ok_log [OF M clk]] eq F by auto
  next
    assume C: "c = Inr (set (map demand_global_id ds) \<union> {}) \<and> distinct (map demand_global_id ds) \<and>
      set (map demand_global_id ds) \<inter> {} = {} \<and>
      (\<forall>d \<in> set ds. \<exists>w. identity (tm_ctx m) (demand_global_id d) = Inr \<lparr>li_layer_index = l, li_local_expert_id = w\<rparr>)"
    let ?lg = "if priority = Demand then count_log (\<lambda>c. c\<lparr>tc_demand_requests := tc_demand_requests c + of_nat (length ds)\<rparr>) lg else lg"
    let ?m = "m\<lparr>tm_log := ?lg\<rparr>"
    have M': "manager_ok L env ?m" using M by (rule manager_ok_log) (use clk in \<open>simp add: count_log_def\<close>)
    have l: "l < length (tm_layers ?m)" using F by simp
    have T: "tier_ok L env (tm_ctx m) l (layer_plan m l) {} {} (lock_layer l ?m)" using manager_okD(3) [OF M' l] by simp
    have len: "length ds \<le> al_slot_capacity (vp_layout (layer_plan m l))" using F(3) manager_okD(4) [OF M F(2)] by simp
    obtain res s' where S: "ensure_demand_set_locked L env (tm_ctx m) path l ds (set (map demand_global_id ds)) (lock_layer l ?m) = Some (res, s')"
      "tier_ok L env (tm_ctx m) l (layer_plan m l) {} {} s'"
      "(\<exists>rs. res = Inr rs \<and> length rs = length ds \<and>
          (\<forall>i < length ds. \<exists>x. recs L s' (demand_global_id (ds ! i)) = Some x \<and> ph_residency x = rs ! i)) \<or>
       (\<exists>e. res = Inl e \<and> reportable e)"
      by (rule ensure_demand_set_locked_ok [OF T _ _ len, of path l]) (use C in auto)
    have "clock (lock_layer l ?m) \<le> clock s'" by (rule ensure_demand_clock [OF S(1)])
    then have U: "manager_ok L env (unlock_layer l ?m s')" using unlock_ok [OF M' l, of s'] S(2) by simp
    have "ensure_demand_set L env path priority l ds m = Some (res, unlock_layer l ?m s')"
      using eq F C S(1) by (simp add: Let_def)
    then show thesis using that [OF _ U] S(3) l by simp
  qed
qed

end

subsection \<open>Creation\<close>

lemma create_layers_nth:
  assumes "create_layers L env ctx d limits k plans = Inr layers"
  shows "length layers = length plans \<and> (\<forall>i < length plans. \<exists>a.
    create_q4_expert_arena ctx d limits (k + i) (plans ! i) [] = Inr a \<and> lr_arena (layers ! i) = a \<and>
    lr_residents (layers ! i) = lru_unbounded L)"
  using assms
proof (induction plans arbitrary: k layers)
  case (Cons p plans)
  then obtain a rest where a: "create_q4_expert_arena ctx d limits k p [] = Inr a"
    and r: "create_layers L env ctx d limits (Suc k) plans = Inr rest"
    and l: "layers = \<lparr>lr_arena = a, lr_residents = lru_unbounded L, lr_last_installed_generations = Map.empty,
      lr_physical_evictions = 0\<rparr> # rest"
    by (auto simp: res_iff)
  note IH = Cons.IH [OF r]
  show ?case
  proof (intro conjI allI impI)
    show "length layers = length (p # plans)" using l IH by simp
    fix i assume i: "i < length (p # plans)"
    show "\<exists>a. create_q4_expert_arena ctx d limits (k + i) ((p # plans) ! i) [] = Inr a \<and> lr_arena (layers ! i) = a \<and>
        lr_residents (layers ! i) = lru_unbounded L"
    proof (cases i)
      case 0
      then show ?thesis using a l by simp
    next
      case (Suc j)
      then show ?thesis using IH i l by simp
    qed
  qed
qed simp

lemma create_view:
  assumes "create_q4_expert_arena ctx d limits l plan [] = Inr a"
  shows "arena_view a = Map.empty"
proof -
  obtain st where st: "arena_state_new (vp_geometry plan) (vp_layout plan) = Inr st" "qa_plan a = plan"
    "as_logical_slots (qa_state a) = as_logical_slots st"
    using assms by (auto simp: create_q4_expert_arena_def validate_q4_expert_uploads_def Let_def res_iff split: if_splits)
  then have "as_logical_slots (qa_state a) = replicate (eg_num_experts (vp_geometry plan)) None"
    by (auto simp: arena_state_new_def res_iff)
  then show ?thesis using st(2) by (auto simp: arena_view_def fun_eq_iff)
qed

context record_cache
begin

lemma manager_try_new_ok:
  assumes geo: "geometry_try_new dm df ne k = Inr g" and env: "env_ok env g"
    and m: "manager_try_new L env ctx d limits n g budget = Inr m"
  shows "manager_ok L env m"
proof -
  have g: "geometry_ok g" using geo geometry_try_new_ok by blast
  obtain plan layers where p: "model_plan_try_new n g budget limits = Inr plan"
    and c: "create_layers L env ctx d limits 0 (mp_layer_plans plan) = Inr layers"
    and eq: "tm_ctx m = \<lparr>mc_context_id = ctx, mc_limits = limits, mc_plan = plan\<rparr>" "tm_layers m = layers"
    using m by (auto simp: manager_try_new_def res_iff)
  note P = model_plan_Inr [OF g p] and C = create_layers_nth [OF c]
  have ns: "validate_namespace n (eg_num_experts g) = Inr ()" "mp_geometry plan = g"
    using p by (auto simp: model_plan_try_new_def res_iff split: if_splits)
  have n: "n \<noteq> 0" using ns(1) by (auto simp: validate_namespace_def split: if_splits)
  have "tier_ok L env (tm_ctx m) l (layer_plan m l) {} {} (lock_layer l m)" if l: "l < length layers" for l
  proof -
    let ?p = "mp_layer_plans plan ! l"
    have l': "l < length (mp_layer_plans plan)" using l C by simp
    obtain a where a: "create_q4_expert_arena ctx d limits l ?p [] = Inr a" "lr_arena (layers ! l) = a"
      "lr_residents (layers ! l) = lru_unbounded L" using C l' by auto
    have ex: "plan_exact g limits ?p" using P(1) l' by (simp add: layers_ok_def)
    have vg: "vp_geometry ?p = g" using plan_try_new_ok(1) [OF g slot_plan_reconstructed [OF g ex]] .
    have gp: "geometry_ok (vp_geometry ?p)" using g vg by simp
    note S = create_system [OF gp a(1)]
    have "layer_ctx env (tm_ctx m) ?p"
      using geo env ns P(2) S(2,3) vg eq(1) by (auto simp: layer_ctx_def)
    moreover have "in_flight ctx l ?p {} a"
      unfolding in_flight_empty arena_in_def using S(1,4-6) by blast
    ultimately show ?thesis
      using eq a unbounded_cache create_view [OF a(1)]
      by (simp add: tier_ok_def records_ok_def owners_known_def)
  qed
  moreover have "layers \<noteq> []" using C P(2) n by auto
  ultimately show ?thesis using eq C by (simp add: manager_ok_def)
qed

lemma records_capacity:
  assumes T: "tier_ok L env mc l plan {} {} s"
  shows "lru_len L (lr_residents s) \<le> al_slot_capacity (vp_layout plan)"
proof -
  note D = tier_okD [OF T] and F = in_flight_arena [OF tier_okD(2) [OF T]]
  let ?E = "set (lru_iter L (lr_residents s))" and ?V = "arena_view (lr_arena s)"
  define f where "f x = fst (the (?V (record_expert (snd x))))" for x :: "u32 \<times> physical_record"
  have rec: "record_ok mc l ?V (fst x) (snd x)" if "x \<in> ?E" for x
    using D(5) map_of_is_SomeI [OF keys_distinct [OF D(3)], of "fst x" "snd x"] that by (auto simp: records_ok_def)
  have slot: "\<exists>ow. ?V (record_expert (snd x)) = Some (f x, ow)" if "x \<in> ?E" for x
    using rec [OF that] by (auto simp: record_ok_def f_def)
  have "inj_on f ?E"
  proof (rule inj_onI)
    fix x y assume x: "x \<in> ?E" and y: "y \<in> ?E" and eq: "f x = f y"
    obtain ow ow' where "?V (record_expert (snd x)) = Some (f x, ow)" "?V (record_expert (snd y)) = Some (f x, ow')"
      using slot [OF x] slot [OF y] eq by auto
    from view_inj [OF F(2) this] have "qk_expert_id (ph_key (snd x)) = qk_expert_id (ph_key (snd y))"
      by (rule word_id_inj)
    then have "fst x = fst y" using rec [OF x] rec [OF y] layer_ctxD(3) [OF D(1)] by (auto simp: record_ok_def)
    then show "x = y" using eq_key_imp_eq_value [OF keys_distinct [OF D(3)]] x y by (metis prod.collapse)
  qed
  moreover have "f x < length (qa_slots (lr_arena s))" if x: "x \<in> ?E" for x
  proof -
    obtain ow where "?V (record_expert (snd x)) = Some (f x, ow)" using slot [OF x] by blast
    then show ?thesis by (rule view_Some(3) [OF F(2)])
  qed
  then have "f ` ?E \<subseteq> {..<length (qa_slots (lr_arena s))}" by auto
  ultimately have "card ?E \<le> length (qa_slots (lr_arena s))" 
    using card_inj_on_le [of f ?E "{..<length (qa_slots (lr_arena s))}"] by simp
  moreover have "card ?E = lru_len L (lr_residents s)"
    using len_entries [OF D(3)] distinct_card [of "lru_iter L (lr_residents s)"] keys_distinct [OF D(3)]
    by (simp add: distinct_map)
  ultimately show ?thesis using F(2,5) by (simp add: arena_wf_def)
qed

lemma slot_recorded:
  assumes T: "tier_ok L env mc l plan {} {} s" and gpu: "authoritative_gpu env (clock s) = Inr ()"
    and sl: "sl \<in> set (qa_slots (lr_arena s))" "sl_owner sl \<noteq> OwnerFree"
  shows "\<exists>g r. recs L s g = Some r \<and> sl_owner sl = OwnerResident (ph_residency r)"
proof -
  note D = tier_okD [OF T] and F = in_flight_arena [OF tier_okD(2) [OF T]]
  obtain i where i: "i < length (qa_slots (lr_arena s))" "sl = qa_slots (lr_arena s) ! i"
    using sl(1) by (auto simp: in_set_conv_nth)
  obtain e where e: "arena_view (lr_arena s) e = Some (i, sl_owner sl)" using owned_view [OF F(2) i(1)] i(2) sl(2) by auto
  then obtain g r where g: "recs L s g = Some r" "record_expert r = e"
    using D(6) [OF gpu] by (fastforce simp: owners_known_def)
  then have "record_ok mc l (arena_view (lr_arena s)) g r" using D(5) by (simp add: records_ok_def)
  then have "sl_owner sl = OwnerResident (ph_residency r)" using e g(2) by (auto simp: record_ok_def)
  then show ?thesis using g(1) by blast
qed

lemma legacy_install_succeeds:
  assumes T: "tier_ok L env mc l plan P X s" and p: "(p, Reserved) \<in> P"
    and gpu: "authoritative_gpu env (clock s) = Inr ()" and len: "length payload = eg_logical_expert_bytes (vp_geometry plan)"
  shows "fst (install_q4_expert_residency env mc LegacyFullSlotVecControl p payload s) = Inr (ip_residency p)"
proof -
  note D = tier_okD [OF T]
  obtain ts where A: "arena_in (mc_context_id mc) l plan ts (lr_arena s)" and F: "flight_tasks P ts (lr_arena s)"
    using D(2) by (auto simp: in_flight_def)
  note t = flight_taskD [OF F p] and AD = arena_inD [OF A]
  obtain ins where inv: "system_inv (lr_arena s, ts, ins)" using AD(5) by blast
  have "reservation_current p (qa_state (lr_arena s))"
    using current_view [OF AD(4)] t(2) arena_permit(3) [OF A t(1)] AD(3) by simp
  from install_executes [OF inv t(1) this] len AD(3) obtain a' where
    "install_with_writes payload p (lr_arena s) = (Inr (ip_residency p), False, a')" by auto
  then show ?thesis using gpu AD(1) by (simp add: install_q4_expert_residency_def)
qed

text \<open>On a working device the full-slot path installs a reserved expert whose generation stays admitted.\<close>

lemma install_locked_succeeds:
  assumes T: "tier_ok L env mc l plan {} {} s" and g: "identity mc g = Inr \<lparr>li_layer_index = l, li_local_expert_id = w\<rparr>"
    and none: "recs L s g = None"
    and a: "acquire_q4_expert_residency env mc
      \<lparr>qk_layer_index = l, qk_expert_id = w, qk_logical_generation = src_generation src\<rparr> s = (Inr (AcquireInstall p), s1)"
    and gpu: "\<And>n. authoritative_gpu env n = Inr ()" and adm: "\<And>n g x. en_contains_generation env n g x"
    and len: "length (src_data src) = eg_logical_expert_bytes (vp_geometry plan)"
  shows "\<exists>r s'. install_locked L env mc LegacyFullSlotVecControl g src sp s = (Inr r, s')"
proof -
  let ?key = "\<lparr>qk_layer_index = l, qk_expert_id = w, qk_logical_generation = src_generation src\<rparr>"
  have w: "unat w < eg_num_experts (vp_geometry plan)" using layer_ctxD(4) [OF tier_okD(1) [OF T] g] by simp
  have T1: "tier_ok L env mc l plan (insert (p, Reserved) {}) {} s1"
  proof (rule acquire_ok [OF T _ _ _ _ _ a])
    show "qk_layer_index ?key = l" "unat (qk_expert_id ?key) < eg_num_experts (vp_geometry plan)"
      "unat (qk_expert_id ?key) \<notin> {}" using w by simp_all
    show "record_expert r \<noteq> unat (qk_expert_id ?key)" if "recs L s g' = Some r" for g' r
      using unrecorded [OF T g none that] by simp
  qed simp_all
  obtain s2 where i: "install_q4_expert_residency env mc LegacyFullSlotVecControl p (src_data src) s1 = (Inr (ip_residency p), s2)"
    using legacy_install_succeeds [OF T1 insertI1 gpu len] by (metis prod.collapse)
  have "\<exists>s3. keep_if_current L env mc g ?key (ip_residency p) True sp s2 = (Inr (ip_residency p), s3)"
    using adm by (simp add: keep_if_current_def Let_def)
  then show ?thesis
    using a i by (auto simp: install_locked_def g key_of_identity [OF g] backend_def)
qed

lemma record_exact:
  assumes T: "tier_ok L env mc l plan P X s" and g: "recs L s g = Some r"
  shows "identity mc g = Inr \<lparr>li_layer_index = l, li_local_expert_id = qk_expert_id (qr_key (ph_residency r))\<rparr>"
    "qk_layer_index (qr_key (ph_residency r)) = l" "contains_exact_residency (mc_context_id mc) (ph_residency r) (lr_arena s)"
proof -
  note D = tier_okD [OF T]
  have ok: "record_ok mc l (arena_view (lr_arena s)) g r" using D(5) g by (simp add: records_ok_def)
  obtain ts where A: "arena_in (mc_context_id mc) l plan ts (lr_arena s)" using in_flight_arena(1) [OF D(2)] by blast
  show "identity mc g = Inr \<lparr>li_layer_index = l, li_local_expert_id = qk_expert_id (qr_key (ph_residency r))\<rparr>"
    "qk_layer_index (qr_key (ph_residency r)) = l" "contains_exact_residency (mc_context_id mc) (ph_residency r) (lr_arena s)"
    using ok exact_view [OF A] by (auto simp: record_ok_def)
qed

end

subsection \<open>Runs of the manager\<close>

inductive manager_step ::
    "('c, physical_record) lru_ops \<Rightarrow> env \<Rightarrow> 'c manager \<Rightarrow> 'c manager \<Rightarrow> bool" for L env where
  demand: "ensure_demand_set L env path priority l ds m = Some (res, m') \<Longrightarrow> manager_step L env m m'"
| speculative: "ensure_speculative_resident L env priority g src m = (res, m') \<Longrightarrow> manager_step L env m m'"
| probe: "probe_speculative L env priority g m = (res, m') \<Longrightarrow> manager_step L env m m'"
| query: "has_current_for_demand L g m = (res, m') \<Longrightarrow> manager_step L env m m'"

context record_cache
begin

lemma manager_step_ok: "manager_step L env m m' \<Longrightarrow> manager_ok L env m \<Longrightarrow> manager_ok L env m'"
proof (induction rule: manager_step.induct)
  case (demand path priority l ds m res m')
  then show ?case using ensure_demand_set_ok [of env m path priority l ds] by (metis Pair_inject option.inject)
next
  case (speculative priority g src m res m')
  then show ?case using ensure_speculative_ok(1) by blast
next
  case (probe priority g m res m')
  then show ?case using probe_speculative_ok(1) by blast
next
  case (query g m res m')
  then show ?case using has_current_ok(1) by blast
qed

lemma manager_steps_ok: "(manager_step L env)\<^sup>*\<^sup>* m m' \<Longrightarrow> manager_ok L env m \<Longrightarrow> manager_ok L env m'"
  by (induction rule: rtranclp_induct) (auto intro: manager_step_ok)

end

interpretation record_list: record_cache list_lru
  by (rule record_cache.intro) (rule list_lru.lru_cache_axioms)

subsection \<open>A manager with two layers\<close>

definition demo_env :: env where
  "demo_env = \<lparr>en_gpu_backend = True, en_device_loss = (\<lambda>_. None), en_contains_generation = (\<lambda>_ _ _. True),
     en_staging_view = (\<lambda>_. Some (replicate 1732 0)), en_try_lock = (\<lambda>_. True)\<rparr>"

definition demo_source :: install_source where
  "demo_source = \<lparr>src_resident_id = 1, src_data = replicate 1728 0, src_admission_id = 1, src_generation = 1\<rparr>"

lemma demo_simps [simp]:
  "src_resident_id demo_source = 1" "src_admission_id demo_source = 1" "src_generation demo_source = 1"
  "length (src_data demo_source) = 1728" "en_contains_generation demo_env i j k" "en_try_lock demo_env i"
  "eg_logical_expert_bytes demo_geometry = 1728"
  by (simp_all add: demo_source_def demo_env_def demo_geometry_def)

lemma demo_env_ok: "env_ok demo_env demo_geometry"
  by (simp add: env_ok_def demo_env_def demo_geometry_def)

lemma demo_gpu: "authoritative_gpu demo_env n = Inr ()"
  by (simp add: authoritative_gpu_def demo_env_def)

lemma demo_layers:
  assumes "\<forall>p \<in> set plans. plan_try_new demo_geometry (vp_requested_expert_budget_bytes p) demo_limits = Inr p"
  shows "\<exists>layers. create_layers L demo_env ctx 32 demo_limits k plans = Inr layers"
  using assms
proof (induction plans arbitrary: k)
  case (Cons p plans)
  obtain layers where "create_layers L demo_env ctx 32 demo_limits (Suc k) plans = Inr layers" using Cons by force
  moreover obtain a where "create_q4_expert_arena ctx 32 demo_limits k p [] = Inr a"
    using demo_create [of p ctx k] Cons.prems by auto
  ultimately show ?case by (simp add: demo_gpu)
qed simp

lemma demo_manager:
  obtains m plan where "manager_try_new L demo_env 9 32 demo_limits 2 demo_geometry 9000 = Inr m" "length (tm_layers m) = 2"
    "create_q4_expert_arena 9 32 demo_limits 0 plan [] = Inr (lr_arena (tm_layers m ! 0))"
    "plan_try_new demo_geometry (vp_requested_expert_budget_bytes plan) demo_limits = Inr plan"
    "lr_residents (tm_layers m ! 0) = lru_unbounded L" "mc_limits (tm_ctx m) = demo_limits" "mc_context_id (tm_ctx m) = 9"
    "mp_geometry (mc_plan (tm_ctx m)) = demo_geometry" "length (mp_layer_plans (mc_plan (tm_ctx m))) = 2"
proof -
  obtain q where q: "try_for_slot_capacity demo_geometry 2 demo_limits = Inr q" "plan_bytes q = 3508"
    using slot_plan_exists [OF demo_geometry_ok demo_limits_valid, of 2] demo_bank_slots
    by (auto simp: arena_bytes_def demo_geometry_def div_ceil_def)
  then obtain p where p: "model_plan_try_new 2 demo_geometry 9000 demo_limits = Inr p"
    using model_plan_outcome [OF demo_geometry_ok, of 2 demo_limits q 9000] demo_bank_slots
    by (cases "model_plan_try_new 2 demo_geometry 9000 demo_limits")
      (auto simp: validate_namespace_def demo_geometry_def u32_MAX_def usize_MAX_def)
  note P = model_plan_Inr [OF demo_geometry_ok p]
  have plans: "\<forall>r \<in> set (mp_layer_plans p). plan_try_new demo_geometry (vp_requested_expert_budget_bytes r) demo_limits = Inr r"
    using P(1) slot_plan_reconstructed [OF demo_geometry_ok] by (auto simp: layers_ok_def)
  from demo_layers [OF this, of L 9 0] obtain layers where
    c: "create_layers L demo_env 9 32 demo_limits 0 (mp_layer_plans p) = Inr layers" by blast
  have l: "length layers = 2" "create_q4_expert_arena 9 32 demo_limits 0 (mp_layer_plans p ! 0) [] = Inr (lr_arena (layers ! 0))"
    "lr_residents (layers ! 0) = lru_unbounded L" using create_layers_nth [OF c] P(2) by auto
  moreover have "mp_layer_plans p ! 0 \<in> set (mp_layer_plans p)" using P(2) by (intro nth_mem) simp
  moreover have "mp_geometry p = demo_geometry" using p by (auto simp: model_plan_try_new_def res_iff split: if_splits)
  ultimately show thesis
    using that plans p c P(2)
    by (simp add: manager_try_new_def demo_gpu)
qed

lemma demo_identity:
  assumes "mp_geometry (mc_plan mc) = demo_geometry" "length (mp_layer_plans (mc_plan mc)) = 2"
  shows "identity mc 1 = Inr \<lparr>li_layer_index = 0, li_local_expert_id = 1\<rparr>"
  using assms by (auto simp: identity_def global_to_layer_local_def validate_namespace_def demo_geometry_def u32_MAX_def)

lemma demo_acquire:
  assumes p: "plan_try_new demo_geometry (vp_requested_expert_budget_bytes plan) demo_limits = Inr plan"
    and a: "create_q4_expert_arena 9 32 demo_limits 0 plan [] = Inr a"
  shows "\<exists>q a1. acquire_with_unpublish demo_key a = (Inr (AcquireInstall q), a1)"
proof -
  note ok = plan_try_new_ok [OF demo_geometry_ok p]
  have pos: "0 < al_slot_capacity (vp_layout plan)" using ok(2) by (auto simp: layout_try_new_Inr [OF demo_geometry_ok])
  from demo_create [OF p, of 9 0] a obtain slots where s: "new_slots (vp_layout plan) 0 (al_slot_capacity (vp_layout plan)) = Inr slots"
    and eq: "a = uploads_arena 9 0 plan \<lparr>pu_mapping = replicate 4 UNMAPPED, pu_physical_slots = [],
       pu_state = \<lparr>as_slots = slots, as_logical_slots = replicate 4 None,
         as_latest_generations = replicate 4 None, as_next_install_ticket = 1, as_counters = counters_default\<rparr>\<rparr>"
    by (metis sum.inject(2))
  have S: "0 < length slots" "sl_owner (slots ! 0) = OwnerFree" "sl_last_epoch (slots ! 0) = 0"
    using new_slots_Inr [OF s] pos by auto
  then have "acquire_with_unpublish demo_key a = reserve_slot demo_key a"
    using ok(1) by (simp add: eq acquire_with_unpublish_def demo_key_def demo_geometry_def Let_def)
  then show ?thesis
    using first_slot_free [OF S] S
    by (auto simp: eq reserve_slot_def Let_def checked_add_u64_def u32_MAX_def prod_eq_iff)
qed

lemma demo_speculation:
  obtains m0 m :: "physical_record list_lru manager" and r where
    "manager_try_new list_lru demo_env 9 32 demo_limits 2 demo_geometry 9000 = Inr m0"
    "ensure_speculative_resident list_lru demo_env Speculative 1 demo_source m0 = (Inr (SpeculativeInstalled (ph_residency r)), m)"
    "length (tm_layers m) = 2" "layer_records list_lru m 0 1 = Some r" "manager_ok list_lru demo_env m"
proof -
  obtain m0 :: "physical_record list_lru manager" and plan where
    m0: "manager_try_new list_lru demo_env 9 32 demo_limits 2 demo_geometry 9000 = Inr m0" "length (tm_layers m0) = 2"
    and c: "create_q4_expert_arena 9 32 demo_limits 0 plan [] = Inr (lr_arena (tm_layers m0 ! 0))"
    and p: "plan_try_new demo_geometry (vp_requested_expert_budget_bytes plan) demo_limits = Inr plan"
    and f: "lr_residents (tm_layers m0 ! 0) = lru_unbounded list_lru" "mc_limits (tm_ctx m0) = demo_limits"
      "mc_context_id (tm_ctx m0) = 9"
    and geo: "mp_geometry (mc_plan (tm_ctx m0)) = demo_geometry" "length (mp_layer_plans (mc_plan (tm_ctx m0))) = 2"
    by (rule demo_manager)
  note id = demo_identity [OF geo]
  note M = record_list.manager_try_new_ok [OF demo_geometry_eq demo_env_ok m0(1)]
  let ?lg = "tick_log (tm_log m0)"
  let ?m = "m0\<lparr>tm_log := ?lg\<rparr>" and ?mc = "tm_ctx m0"
  let ?s = "tick (tick (lock_layer 0 ?m))"
  have M1: "manager_ok list_lru demo_env ?m" using M by (rule manager_ok_log) (simp add: tick_log_def)
  have l: "0 < length (tm_layers ?m)" using m0(2) by simp
  have plan: "layer_plan m0 0 = plan" "geometry_ok (vp_geometry plan)" "vp_geometry plan = demo_geometry"
    using manager_okD(4) [OF M] m0(2) create_system(4) [OF _ c] plan_try_new_ok(1) [OF demo_geometry_ok p] demo_geometry_ok
    by auto
  have T: "tier_ok list_lru demo_env ?mc 0 plan {} {} ?s"
    using tier_ok_tick [OF tier_ok_tick [OF manager_okD(3) [OF M1 l]]] plan(1) by simp
  obtain q a1 where q: "acquire_with_unpublish demo_key (lr_arena (tm_layers m0 ! 0)) = (Inr (AcquireInstall q), a1)"
    using demo_acquire [OF p c] by blast
  have none: "recs list_lru ?s 1 = None" using f(1) by (simp add: list_lru_def)
  obtain s1 where q1: "acquire_q4_expert_residency demo_env ?mc demo_key ?s = (Inr (AcquireInstall q), s1)"
    using q tier_validate [OF T] by (simp add: acquire_q4_expert_residency_def demo_gpu)
  obtain r' s2 where i: "install_locked list_lru demo_env ?mc LegacyFullSlotVecControl 1 demo_source True ?s = (Inr r', s2)"
    using record_list.install_locked_succeeds [OF T id none, of demo_source q s1 True] q1 plan(3)
    by (auto simp: demo_key_def demo_gpu)
  have cap: "0 < al_slot_capacity (vp_layout plan)"
    using plan_try_new_ok(2) [OF demo_geometry_ok p] by (auto simp: layout_try_new_Inr [OF demo_geometry_ok])
  have room: "lru_len list_lru (lr_residents ?s) < al_slot_capacity (vp_layout plan)"
    using f(1) cap by (simp add: list_lru_def)
  from T id none room i obtain x where x: "tier_ok list_lru demo_env ?mc 0 plan {} {} s2"
    "recs list_lru s2 = (recs list_lru ?s)(1 \<mapsto> x)" "ph_residency x = r'"
    by (cases rule: record_list.install_locked_ok) auto
  let ?m2 = "unlock_layer 0 ?m s2"
  have lcap: "lr_capacity ?s = al_slot_capacity (vp_layout plan)"
    using in_flight_arena(5) [OF tier_okD(2) [OF T]] by simp
  have peek: "current_record_locked list_lru ?mc 1 True (tick (lock_layer 0 ?m)) = (Inr None, tick (lock_layer 0 ?m))"
    using f(1) by (simp add: current_record_locked_def list_lru_def)
  have "ensure_speculative_locked list_lru demo_env ?mc 1 demo_source (tick (lock_layer 0 ?m)) = (Inr (SpeculativeInstalled r'), s2)"
    using peek i room lcap by (simp add: ensure_speculative_locked_def Let_def)
  moreover have "validate_source demo_env 1 demo_source (tm_log m0) = (Inr (), ?lg)"
    by (simp add: validate_source_def contains_generation_now_def)
  ultimately have run: "ensure_speculative_resident list_lru demo_env Speculative 1 demo_source m0 =
      (Inr (SpeculativeInstalled r'), ?m2)"
    using id by (simp add: ensure_speculative_resident_def Let_def)
  then have "manager_ok list_lru demo_env ?m2" using record_list.ensure_speculative_ok(1) [OF M] by blast
  moreover have "layer_records list_lru ?m2 0 1 = Some x" using x(2) l by simp
  ultimately show thesis using that [OF m0(1), of x ?m2] run x(3) m0(2) by simp
qed
subsection \<open>Properties\<close>

text \<open>C5: in every state the manager reaches from its creation by demand sets, speculative installs, probes
  and queries, each layer's records and its arena agree: a record names an expert of that layer and its
  residency is the one the arena publishes; there are at most as many records as slots; and unless the
  device is lost every slot that is not free holds the residency of a record, so no permit is left open
  and no slot is leaked.\<close>

theorem tiered_residency_consistent:
  assumes "lru_cache L" "geometry_try_new dm df ne k = Inr g" "env_ok env g"
    and "manager_try_new L env ctx d limits n g budget = Inr m0" "(manager_step L env)\<^sup>*\<^sup>* m0 m" "l < length (tm_layers m)"
  shows "(\<forall>x r. layer_records L m l x = Some r \<longrightarrow>
       identity (tm_ctx m) x = Inr \<lparr>li_layer_index = l, li_local_expert_id = qk_expert_id (qr_key (ph_residency r))\<rparr> \<and>
       contains_exact_residency (mc_context_id (tm_ctx m)) (ph_residency r) (lr_arena (tm_layers m ! l))) \<and>
    lru_len L (lr_residents (tm_layers m ! l)) \<le> lr_capacity (tm_layers m ! l) \<and>
    (authoritative_gpu env (tl_clock (tm_log m)) = Inr () \<longrightarrow>
      (\<forall>s \<in> set (qa_slots (lr_arena (tm_layers m ! l))). sl_owner s \<noteq> OwnerFree \<longrightarrow>
         (\<exists>x r. layer_records L m l x = Some r \<and> sl_owner s = OwnerResident (ph_residency r))))"
proof -
  note R = record_cache.intro [OF assms(1)]
  have M: "manager_ok L env m"
    using record_cache.manager_steps_ok [OF R assms(5) record_cache.manager_try_new_ok [OF R assms(2-4)]] .
  note T = manager_okD(3) [OF M assms(6)]
  show ?thesis
    using record_cache.record_exact [OF R T] record_cache.slot_recorded [OF R T] record_cache.records_capacity [OF R T]
      manager_okD(4) [OF M assms(6)] by auto
qed

text \<open>C4: a demand set of a reachable manager always returns. Either every demanded expert is resolved, in
  order, to a residency of that expert in that layer which the arena publishes, all of them at once in
  the state the call leaves; or the error is one a consistent manager may report: never a corrupted
  record, a foreign install, a missing slot or a victim that cannot be found.\<close>

theorem demand_set_resolved:
  assumes "lru_cache L" "geometry_try_new dm df ne k = Inr g" "env_ok env g"
    and "manager_try_new L env ctx d limits n g budget = Inr m0" "(manager_step L env)\<^sup>*\<^sup>* m0 m"
  shows "\<exists>res m'. ensure_demand_set L env path priority l ds m = Some (res, m') \<and>
    (case res of
       Inr rs \<Rightarrow> length rs = length ds \<and>
         (\<forall>i < length ds.
            identity (tm_ctx m') (demand_global_id (ds ! i)) =
              Inr \<lparr>li_layer_index = l, li_local_expert_id = qk_expert_id (qr_key (rs ! i))\<rparr> \<and>
            qk_layer_index (qr_key (rs ! i)) = l \<and>
            contains_exact_residency (mc_context_id (tm_ctx m')) (rs ! i) (lr_arena (tm_layers m' ! l)))
     | Inl e \<Rightarrow> reportable e)"
proof -
  note R = record_cache.intro [OF assms(1)]
  have M: "manager_ok L env m"
    using record_cache.manager_steps_ok [OF R assms(5) record_cache.manager_try_new_ok [OF R assms(2-4)]] .
  obtain res m' where
    E: "ensure_demand_set L env path priority l ds m = Some (res, m')" "manager_ok L env m'"
      "(\<exists>rs. res = Inr rs \<and> l < length (tm_layers m') \<and> length rs = length ds \<and>
        (\<forall>i < length ds. \<exists>x. layer_records L m' l (demand_global_id (ds ! i)) = Some x \<and> ph_residency x = rs ! i)) \<or>
       (\<exists>e. res = Inl e \<and> reportable e)"
    by (rule record_cache.ensure_demand_set_ok [OF R M, of path priority l ds])
  from E(3) show ?thesis
  proof
    assume "\<exists>e. res = Inl e \<and> reportable e"
    then show ?thesis using E(1) by auto
  next
    assume "\<exists>rs. res = Inr rs \<and> l < length (tm_layers m') \<and> length rs = length ds \<and>
        (\<forall>i < length ds. \<exists>x. layer_records L m' l (demand_global_id (ds ! i)) = Some x \<and> ph_residency x = rs ! i)"
    then obtain rs where rs: "res = Inr rs" "l < length (tm_layers m')" "length rs = length ds"
      "\<forall>i < length ds. \<exists>x. layer_records L m' l (demand_global_id (ds ! i)) = Some x \<and> ph_residency x = rs ! i" by blast
    have X: "recs L (lock_layer l m') = layer_records L m' l" by simp
    note T = record_cache.record_exact [OF R manager_okD(3) [OF E(2) rs(2)], unfolded X lock_simps]
    have "\<forall>i < length ds. identity (tm_ctx m') (demand_global_id (ds ! i)) =
            Inr \<lparr>li_layer_index = l, li_local_expert_id = qk_expert_id (qr_key (rs ! i))\<rparr> \<and>
          qk_layer_index (qr_key (rs ! i)) = l \<and>
          contains_exact_residency (mc_context_id (tm_ctx m')) (rs ! i) (lr_arena (tm_layers m' ! l))"
      using rs(4) T by metis
    then show ?thesis using E(1) rs(1,3) by auto
  qed
qed

text \<open>C23: a speculative install displaces nothing: whatever it returns, every record of every layer is still
  there with the same residency, and the arena still publishes that residency.\<close>

theorem speculation_displaces_nothing:
  assumes "lru_cache L" "geometry_try_new dm df ne k = Inr g" "env_ok env g"
    and "manager_try_new L env ctx d limits n g budget = Inr m0" "(manager_step L env)\<^sup>*\<^sup>* m0 m"
    and "ensure_speculative_resident L env priority x src m = (res, m')"
    and "l < length (tm_layers m')" "layer_records L m l y = Some r"
  shows "layer_records L m' l y = Some r \<and>
    contains_exact_residency (mc_context_id (tm_ctx m')) (ph_residency r) (lr_arena (tm_layers m' ! l))"
proof -
  note R = record_cache.intro [OF assms(1)]
  have M: "manager_ok L env m"
    using record_cache.manager_steps_ok [OF R assms(5) record_cache.manager_try_new_ok [OF R assms(2-4)]] .
  note S = record_cache.ensure_speculative_ok [OF R M assms(6)]
  have y: "layer_records L m' l y = Some r" using S(3) [of l] assms(8) by (force simp: map_le_def)
  then show ?thesis using record_cache.record_exact(3) [OF R manager_okD(3) [OF S(1) assms(7)], of y r] by simp
qed

text \<open>A demand for the expert that speculation installed is a hit.\<close>

lemma demo_hit:
  assumes M: "manager_ok list_lru demo_env m" and "length (tm_layers m) = 2" and x: "layer_records list_lru m 0 1 = Some r"
  shows "\<exists>m'. ensure_demand_set list_lru demo_env ProductionConcurrentDirectStaging Demand 0 [Current 1] m =
    Some (Inr [ph_residency r], m')"
proof -
  let ?lg = "count_log (\<lambda>c. c\<lparr>tc_demand_requests := tc_demand_requests c + 1\<rparr>) (tm_log m)"
  let ?m = "m\<lparr>tm_log := ?lg\<rparr>"
  have M': "manager_ok list_lru demo_env ?m" using M by (rule manager_ok_log) (simp add: count_log_def)
  have l: "0 < length (tm_layers ?m)" using assms(2) by simp
  let ?s = "lock_layer 0 ?m" and ?mc = "tm_ctx m"
  note T = manager_okD(3) [OF M' l]
  have rec: "recs list_lru ?s 1 = Some r" using x by simp
  have id: "identity ?mc 1 = Inr \<lparr>li_layer_index = 0, li_local_expert_id = qk_expert_id (qr_key (ph_residency r))\<rparr>"
    using record_list.record_exact(1) [OF T rec] by simp
  have cap: "lru_len list_lru (lr_residents ?s) \<le> lr_capacity (tm_layers m ! 0)"
    using record_list.records_capacity [OF T] manager_okD(4) [OF M] assms(2) by simp
  have one: "1 \<le> lr_capacity (tm_layers m ! 0)"
    using cap x by (cases "snd (lr_residents (tm_layers m ! 0))") (auto simp: list_lru_def case_prod_beta)
  obtain f s1 where c': "current_record_locked list_lru ?mc 1 True ?s = (f, s1)"
    by (cases "current_record_locked list_lru ?mc 1 True ?s")
  have T': "tier_ok list_lru demo_env ?mc 0 (layer_plan m 0) {} {} ?s" using T by simp
  note C = record_list.current_record_ok [OF T' c']
  have c: "current_record_locked list_lru ?mc 1 True ?s = (Inr (Some r), s1)" using c' C(1) rec by simp
  have "lr_capacity s1 = lr_capacity (tm_layers m ! 0)"
    using in_flight_arena(5) [OF tier_okD(2) [OF C(2)]] manager_okD(4) [OF M] assms(2) by simp
  then have room: "\<not> saturating_add (lru_len list_lru (lr_residents s1)) 0 > lr_capacity s1"
    using C(4) cap by (simp add: saturating_add_def)
  have evict: "evict_victims list_lru demo_env ?mc 0 {1} 0 (bump_counter g s1) = Some (Inr (), bump_counter g s1)" for g
    using room by (subst evict_victims.simps) simp
  have "check_demands demo_env ?mc 0 [Current 1] {} (tm_log m) = (Inr {1}, tm_log m)"
    using id by simp
  then show ?thesis
    using assms(2) one evict c
    by (simp add: ensure_demand_set_def ensure_demand_set_locked_def install_parallel_physical_misses_locked_def
        concurrent_path_def Let_def)
qed

theorem tiered_residency_consistent_witness:
  "\<exists>m0 m r. manager_try_new list_lru demo_env 9 32 demo_limits 2 demo_geometry 9000 = Inr m0 \<and>
     (manager_step list_lru demo_env)\<^sup>*\<^sup>* m0 m \<and> layer_records list_lru m 0 1 = Some r \<and>
     contains_exact_residency (mc_context_id (tm_ctx m)) (ph_residency r) (lr_arena (tm_layers m ! 0)) \<and>
     (\<forall>s \<in> set (qa_slots (lr_arena (tm_layers m ! 0))). sl_owner s \<noteq> OwnerFree \<longrightarrow>
        (\<exists>x r. layer_records list_lru m 0 x = Some r \<and> sl_owner s = OwnerResident (ph_residency r)))"
proof -
  obtain m0 m :: "physical_record list_lru manager" and r where
    m: "manager_try_new list_lru demo_env 9 32 demo_limits 2 demo_geometry 9000 = Inr m0"
      "ensure_speculative_resident list_lru demo_env Speculative 1 demo_source m0 = (Inr (SpeculativeInstalled (ph_residency r)), m)"
      "length (tm_layers m) = 2" "layer_records list_lru m 0 1 = Some r" by (rule demo_speculation)
  have run: "(manager_step list_lru demo_env)\<^sup>*\<^sup>* m0 m" using manager_step.speculative [OF m(2)] by blast
  from tiered_residency_consistent [OF list_lru.lru_cache_axioms demo_geometry_eq demo_env_ok m(1) run, of 0]
  show ?thesis using m(1,3,4) run demo_gpu by auto
qed

theorem demand_set_resolved_witness:
  "\<exists>m0 m r m'. manager_try_new list_lru demo_env 9 32 demo_limits 2 demo_geometry 9000 = Inr m0 \<and>
     (manager_step list_lru demo_env)\<^sup>*\<^sup>* m0 m \<and>
     ensure_demand_set list_lru demo_env ProductionConcurrentDirectStaging Demand 0 [Current 1] m = Some (Inr [r], m') \<and>
     identity (tm_ctx m') 1 = Inr \<lparr>li_layer_index = 0, li_local_expert_id = qk_expert_id (qr_key r)\<rparr> \<and>
     contains_exact_residency (mc_context_id (tm_ctx m')) r (lr_arena (tm_layers m' ! 0))"
proof -
  obtain m0 m :: "physical_record list_lru manager" and r where
    m: "manager_try_new list_lru demo_env 9 32 demo_limits 2 demo_geometry 9000 = Inr m0"
      "ensure_speculative_resident list_lru demo_env Speculative 1 demo_source m0 = (Inr (SpeculativeInstalled (ph_residency r)), m)"
      "length (tm_layers m) = 2" "layer_records list_lru m 0 1 = Some r" "manager_ok list_lru demo_env m" by (rule demo_speculation)
  have run: "(manager_step list_lru demo_env)\<^sup>*\<^sup>* m0 m" using manager_step.speculative [OF m(2)] by blast
  obtain m' where hit: "ensure_demand_set list_lru demo_env ProductionConcurrentDirectStaging Demand 0 [Current 1] m =
      Some (Inr [ph_residency r], m')" using demo_hit [OF m(5,3,4)] by blast
  have "identity (tm_ctx m') 1 = Inr \<lparr>li_layer_index = 0, li_local_expert_id = qk_expert_id (qr_key (ph_residency r))\<rparr> \<and>
      contains_exact_residency (mc_context_id (tm_ctx m')) (ph_residency r) (lr_arena (tm_layers m' ! 0))"
    using demand_set_resolved [OF list_lru.lru_cache_axioms demo_geometry_eq demo_env_ok m(1) run,
        of ProductionConcurrentDirectStaging Demand 0 "[Current 1]"] hit
    by auto
  then show ?thesis using m(1) run hit by blast
qed

theorem speculation_displaces_nothing_witness:
  "\<exists>m0 m r res m'. manager_try_new list_lru demo_env 9 32 demo_limits 2 demo_geometry 9000 = Inr m0 \<and>
     (manager_step list_lru demo_env)\<^sup>*\<^sup>* m0 m \<and> layer_records list_lru m 0 1 = Some r \<and>
     ensure_speculative_resident list_lru demo_env Speculative 2 demo_source m = (res, m') \<and>
     layer_records list_lru m' 0 1 = Some r"
proof -
  obtain m0 m :: "physical_record list_lru manager" and r where
    m: "manager_try_new list_lru demo_env 9 32 demo_limits 2 demo_geometry 9000 = Inr m0"
      "ensure_speculative_resident list_lru demo_env Speculative 1 demo_source m0 = (Inr (SpeculativeInstalled (ph_residency r)), m)"
      "length (tm_layers m) = 2" "layer_records list_lru m 0 1 = Some r" "manager_ok list_lru demo_env m" by (rule demo_speculation)
  have run: "(manager_step list_lru demo_env)\<^sup>*\<^sup>* m0 m" using manager_step.speculative [OF m(2)] by blast
  obtain res m' where s: "ensure_speculative_resident list_lru demo_env Speculative 2 demo_source m = (res, m')"
    by (cases "ensure_speculative_resident list_lru demo_env Speculative 2 demo_source m")
  have "0 < length (tm_layers m')" using manager_okD(1) [OF record_list.ensure_speculative_ok(1) [OF m(5) s]] by simp
  from speculation_displaces_nothing [OF list_lru.lru_cache_axioms demo_geometry_eq demo_env_ok m(1) run s this m(4)]
  show ?thesis using m(1,4) run s by blast
qed

end
