(* ===== verification/Float32.thy ===== *)
theory Float32
  imports Prelude "HOL-Library.Log_Nat"
begin

section \<open>Single-precision arithmetic\<close>

text \<open>
  The few places where integer state meets \<open>f32\<close> (block-pool pressure ratios, the anchor
  share of the GPU budget) are modelled with IEEE-754 binary32 rounding written out over the
  rationals: a finite value is the rational it denotes, every operation computes exactly and
  rounds to nearest, ties to even, with gradual underflow and overflow to infinity. The sign of
  zero is not represented: no modelled operation divides by a zero that could be negative or
  inspects a sign bit. The main fact is that rounding is monotone, so comparisons of ratios
  survive it.
\<close>

datatype f32 = F32_NaN | F32_NegInf | F32_PosInf | F32_Fin rat

text \<open>Rounding to an integer, ties to even.\<close>

definition round_half_even :: "rat \<Rightarrow> int" where
  "round_half_even x = (let n = \<lfloor>x\<rfloor>; d = x - of_int n in
     if d < 1 / 2 then n else if 1 / 2 < d then n + 1 else if even n then n else n + 1)"

text \<open>The binary exponent of a positive rational.\<close>

definition ilog2 :: "rat \<Rightarrow> int" where
  "ilog2 x = (case quotient_of x of (p, q) \<Rightarrow>
     let e = bitlen p - bitlen q in if 2 powi e \<le> x then e else e - 1)"

text \<open>Exponent of the last mantissa bit: 24 bits of precision, subnormals below \<open>2 powi -126\<close>.\<close>

definition f32_ulp_exp :: "rat \<Rightarrow> int" where
  "f32_ulp_exp a = max (ilog2 a) (- 126) - 23"

definition f32_round_pos :: "rat \<Rightarrow> rat" where
  "f32_round_pos a = of_int (round_half_even (a / 2 powi f32_ulp_exp a)) * 2 powi f32_ulp_exp a"

definition f32_round :: "rat \<Rightarrow> f32" where
  "f32_round x = (if x = 0 then F32_Fin 0
     else let r = f32_round_pos \<bar>x\<bar> in
       if 2 powi 128 \<le> r then (if x < 0 then F32_NegInf else F32_PosInf)
       else F32_Fin (sgn x * r))"

fun f32_le :: "f32 \<Rightarrow> f32 \<Rightarrow> bool" where
  "f32_le F32_NaN y = False"
| "f32_le x F32_NaN = False"
| "f32_le F32_NegInf y = True"
| "f32_le x F32_PosInf = True"
| "f32_le (F32_Fin a) (F32_Fin b) = (a \<le> b)"
| "f32_le x y = False"

definition f32_lt :: "f32 \<Rightarrow> f32 \<Rightarrow> bool" where
  "f32_lt x y \<longleftrightarrow> f32_le x y \<and> \<not> f32_le y x"

fun f32_div :: "f32 \<Rightarrow> f32 \<Rightarrow> f32" where
  "f32_div (F32_Fin a) (F32_Fin b) =
     (if b \<noteq> 0 then f32_round (a / b)
      else if a = 0 then F32_NaN else if a < 0 then F32_NegInf else F32_PosInf)"
| "f32_div (F32_Fin a) F32_PosInf = F32_Fin 0"
| "f32_div (F32_Fin a) F32_NegInf = F32_Fin 0"
| "f32_div F32_PosInf (F32_Fin b) = (if b < 0 then F32_NegInf else F32_PosInf)"
| "f32_div F32_NegInf (F32_Fin b) = (if b < 0 then F32_PosInf else F32_NegInf)"
| "f32_div x y = F32_NaN"

fun f32_mul :: "f32 \<Rightarrow> f32 \<Rightarrow> f32" where
  "f32_mul (F32_Fin a) (F32_Fin b) = f32_round (a * b)"
| "f32_mul (F32_Fin a) F32_PosInf =
     (if a = 0 then F32_NaN else if a < 0 then F32_NegInf else F32_PosInf)"
| "f32_mul (F32_Fin a) F32_NegInf =
     (if a = 0 then F32_NaN else if a < 0 then F32_PosInf else F32_NegInf)"
| "f32_mul F32_PosInf (F32_Fin b) =
     (if b = 0 then F32_NaN else if b < 0 then F32_NegInf else F32_PosInf)"
| "f32_mul F32_NegInf (F32_Fin b) =
     (if b = 0 then F32_NaN else if b < 0 then F32_PosInf else F32_NegInf)"
| "f32_mul F32_PosInf F32_PosInf = F32_PosInf"
| "f32_mul F32_NegInf F32_NegInf = F32_PosInf"
| "f32_mul F32_PosInf F32_NegInf = F32_NegInf"
| "f32_mul F32_NegInf F32_PosInf = F32_NegInf"
| "f32_mul x y = F32_NaN"

text \<open>\<open>n as f32\<close>, and the saturating \<open>x as usize\<close>.\<close>

definition usize_to_f32 :: "usize \<Rightarrow> f32" where
  "usize_to_f32 n = f32_round (of_nat n)"

fun f32_to_usize :: "f32 \<Rightarrow> usize" where
  "f32_to_usize F32_NaN = 0"
| "f32_to_usize F32_NegInf = 0"
| "f32_to_usize F32_PosInf = usize_MAX"
| "f32_to_usize (F32_Fin a) = min (nat \<lfloor>a\<rfloor>) usize_MAX"

definition f32_clamp :: "f32 \<Rightarrow> f32 \<Rightarrow> f32 \<Rightarrow> f32" where
  "f32_clamp x lo hi = (if f32_lt x lo then lo else if f32_lt hi x then hi else x)"

subsection \<open>Rounding is monotone\<close>

lemma round_half_even_int [simp]: "round_half_even (of_int n) = n"
  by (simp add: round_half_even_def)

lemma round_half_even_pow2 [simp]: "round_half_even (2 ^ n) = 2 ^ n"
  using round_half_even_int [of "2 ^ n"] by simp

lemma round_half_even_mono:
  assumes "x \<le> y" shows "round_half_even x \<le> round_half_even y"
proof (cases "\<lfloor>x\<rfloor> = \<lfloor>y\<rfloor>")
  case True
  with assms show ?thesis unfolding round_half_even_def Let_def by auto
next
  case False
  with assms have "\<lfloor>x\<rfloor> + 1 \<le> \<lfloor>y\<rfloor>"
    using floor_mono [OF assms] by linarith
  moreover have "round_half_even x \<le> \<lfloor>x\<rfloor> + 1" "\<lfloor>y\<rfloor> \<le> round_half_even y"
    unfolding round_half_even_def Let_def by auto
  ultimately show ?thesis by linarith
qed

lemma powi2_pos [simp]: "0 < (2 :: rat) powi e"
  by (simp add: zero_less_power_int)

lemma powi2_add: "(2 :: rat) powi (a + b) = 2 powi a * 2 powi b"
  by (simp add: power_int_add)

lemma powi2_mono: "a \<le> b \<Longrightarrow> (2 :: rat) powi a \<le> 2 powi b"
  by (simp add: power_int_increasing)

lemma powi2_less_iff: "(2 :: rat) powi a < 2 powi b \<longleftrightarrow> a < b"
  by (meson linorder_not_less not_less_iff_gr_or_eq power_int_strict_increasing
      one_less_numeral_iff powi2_mono semiring_norm(76))

lemma ilog2_bounds:
  assumes "0 < x" shows "2 powi ilog2 x \<le> x" "x < 2 powi (ilog2 x + 1)"
proof -
  obtain p q where pq: "quotient_of x = (p, q)" by fastforce
  have q: "0 < q" using pq by (rule quotient_of_denom_pos)
  have x: "x = of_int p / of_int q" using pq by (rule quotient_of_div)
  with assms q have p: "0 < p" by (simp add: zero_less_divide_iff)
  let ?e = "bitlen p - bitlen q"
  have bl: "1 \<le> bitlen p" "1 \<le> bitlen q" using p q by (simp_all add: bitlen_def floorlog_def)
  have conv: "0 \<le> m \<Longrightarrow> (of_int (2 ^ nat m) :: rat) = 2 powi m" for m
    by (simp add: power_int_def)
  have bb: "2 powi (bitlen n - 1) \<le> (of_int n :: rat) \<and> (of_int n :: rat) < 2 powi bitlen n"
    if "0 < n" "1 \<le> bitlen n" for n
    unfolding conv [of "bitlen n - 1", OF that(2) [THEN diff_ge_0_iff_ge [THEN iffD2]], symmetric]
      conv [of "bitlen n", OF order_trans [OF zero_le_one that(2)], symmetric]
    using bitlen_bounds [OF that(1)] by (simp only: of_int_le_iff of_int_less_iff)
  have pb: "2 powi (bitlen p - 1) \<le> (of_int p :: rat)" "(of_int p :: rat) < 2 powi bitlen p"
    using bb [OF p bl(1)] by simp_all
  have qb: "2 powi (bitlen q - 1) \<le> (of_int q :: rat)" "(of_int q :: rat) < 2 powi bitlen q"
    using bb [OF q bl(2)] by simp_all
  have lo: "2 powi (?e - 1) * of_int q \<le> (of_int p :: rat)"
  proof -
    have "2 powi (?e - 1) * of_int q \<le> 2 powi (?e - 1) * (2 powi bitlen q :: rat)"
      using qb(2) by (intro mult_left_mono) auto
    also have "\<dots> = 2 powi (bitlen p - 1)" by (simp flip: powi2_add)
    finally show ?thesis using pb(1) by linarith
  qed
  have hi: "(of_int p :: rat) < 2 powi (?e + 1) * of_int q"
  proof -
    have "2 powi bitlen p = 2 powi (?e + 1) * (2 powi (bitlen q - 1) :: rat)"
      by (simp flip: powi2_add)
    also have "\<dots> \<le> 2 powi (?e + 1) * of_int q"
      using qb(1) by (intro mult_left_mono) auto
    finally show ?thesis using pb(2) by linarith
  qed
  from lo hi q have "2 powi (?e - 1) \<le> x" "x < 2 powi (?e + 1)"
    by (simp_all add: x field_simps)
  then show "2 powi ilog2 x \<le> x" "x < 2 powi (ilog2 x + 1)"
    by (auto simp: ilog2_def pq Let_def)
qed

lemma ilog2_mono:
  assumes "0 < x" "x \<le> y" shows "ilog2 x \<le> ilog2 y"
proof -
  have "2 powi ilog2 x < (2 :: rat) powi (ilog2 y + 1)"
    using assms ilog2_bounds [of x] ilog2_bounds [of y] by linarith
  then show ?thesis by (simp add: powi2_less_iff)
qed

lemma f32_round_pos_le_pow2:
  assumes "0 < a" "a \<le> 2 powi k" "f32_ulp_exp a \<le> k"
  shows "f32_round_pos a \<le> 2 powi k"
proof -
  let ?g = "f32_ulp_exp a"
  have int: "(2 :: rat) powi (k - ?g) = of_int (2 ^ nat (k - ?g))"
    using assms(3) by (simp add: power_int_def)
  have "a / 2 powi ?g \<le> 2 powi (k - ?g)"
    using assms(2) by (simp add: field_simps flip: powi2_add)
  then have "round_half_even (a / 2 powi ?g) \<le> 2 ^ nat (k - ?g)"
    using round_half_even_mono [of "a / 2 powi ?g" "of_int (2 ^ nat (k - ?g))"] int by simp
  then have "of_int (round_half_even (a / 2 powi ?g)) \<le> (2 :: rat) powi (k - ?g)"
    unfolding int by (simp only: of_int_le_iff)
  then have "f32_round_pos a \<le> 2 powi (k - ?g) * 2 powi ?g"
    unfolding f32_round_pos_def by (intro mult_right_mono) auto
  then show ?thesis by (simp flip: powi2_add)
qed

lemma pow2_le_f32_round_pos:
  assumes "2 powi k \<le> a" "f32_ulp_exp a \<le> k"
  shows "2 powi k \<le> f32_round_pos a"
proof -
  let ?g = "f32_ulp_exp a"
  have int: "(2 :: rat) powi (k - ?g) = of_int (2 ^ nat (k - ?g))"
    using assms(2) by (simp add: power_int_def)
  have "2 powi (k - ?g) \<le> a / 2 powi ?g"
    using assms(1) by (simp add: field_simps flip: powi2_add)
  then have "2 ^ nat (k - ?g) \<le> round_half_even (a / 2 powi ?g)"
    using round_half_even_mono [of "of_int (2 ^ nat (k - ?g))" "a / 2 powi ?g"] int by simp
  then have "(2 :: rat) powi (k - ?g) \<le> of_int (round_half_even (a / 2 powi ?g))"
    unfolding int by (simp only: of_int_le_iff)
  then have "2 powi (k - ?g) * 2 powi ?g \<le> f32_round_pos a"
    unfolding f32_round_pos_def by (intro mult_right_mono) auto
  then show ?thesis by (simp flip: powi2_add)
qed

lemma f32_round_pos_mono:
  assumes "0 < a" "a \<le> b" shows "f32_round_pos a \<le> f32_round_pos b"
proof (cases "f32_ulp_exp a = f32_ulp_exp b")
  case True
  have "round_half_even (a / 2 powi f32_ulp_exp b) \<le> round_half_even (b / 2 powi f32_ulp_exp b)"
    using assms by (intro round_half_even_mono divide_right_mono) auto
  then show ?thesis
    unfolding f32_round_pos_def True by (intro mult_right_mono) auto
next
  case False
  let ?k = "ilog2 b"
  have lt: "ilog2 a < ?k" "- 126 < ?k"
    using False ilog2_mono [OF assms] by (auto simp: f32_ulp_exp_def max_def split: if_splits)
  have "a \<le> 2 powi (ilog2 a + 1)" using ilog2_bounds [OF assms(1)] by simp
  also have "\<dots> \<le> 2 powi ?k" using lt by (intro powi2_mono) simp
  finally have "f32_round_pos a \<le> 2 powi ?k"
    using lt assms by (intro f32_round_pos_le_pow2) (auto simp: f32_ulp_exp_def)
  also have "\<dots> \<le> f32_round_pos b"
    using lt assms ilog2_bounds(1) [of b] by (intro pow2_le_f32_round_pos) (auto simp: f32_ulp_exp_def)
  finally show ?thesis .
qed

lemma f32_round_pos_nonneg: "0 < a \<Longrightarrow> 0 \<le> f32_round_pos a"
  unfolding f32_round_pos_def
  using round_half_even_mono [of 0 "a / 2 powi f32_ulp_exp a"]
  by (auto simp: round_half_even_int [of 0, simplified])

lemma f32_round_mono:
  assumes "0 \<le> x" "x \<le> y" shows "f32_le (f32_round x) (f32_round y)"
proof (cases "x = 0")
  case True
  then show ?thesis
    using assms f32_round_pos_nonneg [of y] by (auto simp: f32_round_def Let_def sgn_if)
next
  case False
  with assms show ?thesis
    using f32_round_pos_mono [of x y] by (auto simp: f32_round_def Let_def sgn_if)
qed

lemma f32_le_trans: "f32_le x y \<Longrightarrow> f32_le y z \<Longrightarrow> f32_le x z"
  by (cases x; cases y; cases z) auto

lemma f32_round_pos_exact:
  assumes "0 < n" "n \<le> 2 ^ 24" shows "f32_round_pos (of_int n) = of_int n"
proof -
  let ?g = "f32_ulp_exp (of_int n)"
  have "2 powi ilog2 (of_int n) \<le> (of_int n :: rat)"
    using assms by (intro ilog2_bounds) simp
  also have "\<dots> \<le> 2 powi 24" using assms(2) by (simp add: power_int_def flip: of_int_le_iff)
  finally have le24: "ilog2 (of_int n) \<le> 24" using powi2_less_iff by (meson linorder_not_less)
  show ?thesis
  proof (cases "ilog2 (of_int n) = 24")
    case True
    then have "(2 :: rat) powi 24 \<le> of_int n"
      using assms ilog2_bounds(1) [of "of_int n"] by simp
    then have "n = 2 ^ 24" using assms(2)
      by (simp add: power_int_def)
    then show ?thesis
      using True round_half_even_int [of "2 ^ 23"]
      by (simp add: f32_round_pos_def f32_ulp_exp_def)
  next
    case False
    with le24 have g: "?g \<le> 0" by (simp add: f32_ulp_exp_def)
    have "of_int n / (2 :: rat) powi ?g = of_int (n * 2 ^ nat (- ?g))"
      using g by (simp add: power_int_def field_simps)
    then show ?thesis
      by (simp add: f32_round_pos_def del: of_int_mult of_int_power) (simp add: field_simps flip: \<open>of_int n / (2 :: rat) powi ?g = of_int (n * 2 ^ nat (- ?g))\<close>)
  qed
qed

lemma usize_to_f32_exact:
  assumes "n \<le> 2 ^ 24" shows "usize_to_f32 n = F32_Fin (of_nat n)"
proof (cases "n = 0")
  case False
  have "f32_round_pos (of_int (int n)) = of_int (int n)"
    using False assms by (intro f32_round_pos_exact) auto
  moreover have "(of_nat n :: rat) < 2 powi 128"
    using assms le_less_trans [of "of_nat n" "2 ^ 24 :: rat" "2 ^ 128"]
    by (simp add: power_int_def flip: of_nat_le_iff)
  ultimately show ?thesis using False
    by (simp add: usize_to_f32_def f32_round_def Let_def sgn_if)
qed (simp add: usize_to_f32_def f32_round_def)

lemma f32_round_le_pow2:
  assumes "0 \<le> a" "a \<le> 2 ^ k" "k < 128"
  shows "\<exists>x. f32_round a = F32_Fin x \<and> 0 \<le> x \<and> x \<le> 2 ^ k"
proof (cases "a = 0")
  case True
  then show ?thesis by (simp add: f32_round_def)
next
  case False
  with assms(1) have pos: "0 < a" by simp
  have "2 powi ilog2 a \<le> (2 :: rat) powi int k"
    using ilog2_bounds(1) [OF pos] assms(2) by (simp add: order_trans)
  then have "ilog2 a \<le> int k" using powi2_less_iff by (meson linorder_not_less)
  then have "f32_ulp_exp a \<le> int k" by (simp add: f32_ulp_exp_def)
  then have r: "f32_round_pos a \<le> 2 ^ k" using f32_round_pos_le_pow2 [OF pos, of "int k"] assms(2) by simp
  have "(2 :: rat) ^ k < 2 ^ 128" using assms(3) by (intro power_strict_increasing) simp_all
  then have "f32_round_pos a < 2 powi 128" using r by (simp add: power_int_def)
  then show ?thesis using r pos f32_round_pos_nonneg [OF pos] by (simp add: f32_round_def Let_def not_le)
qed

lemma f32_share_le:
  assumes "n \<le> 2 ^ 63"
  shows "f32_to_usize (f32_mul (usize_to_f32 n) (f32_clamp r (F32_Fin 0) (F32_Fin 1))) \<le> 2 ^ 63"
proof -
  have "(of_nat n :: rat) \<le> 2 ^ 63" using assms by (simp flip: of_nat_le_iff)
  then obtain x where x: "usize_to_f32 n = F32_Fin x" "0 \<le> x" "x \<le> 2 ^ 63"
    using f32_round_le_pow2 [of "of_nat n" 63] by (auto simp: usize_to_f32_def)
  have "f32_clamp r (F32_Fin 0) (F32_Fin 1) = F32_NaN \<or>
      (\<exists>b. f32_clamp r (F32_Fin 0) (F32_Fin 1) = F32_Fin b \<and> 0 \<le> b \<and> b \<le> 1)"
    by (cases r) (auto simp: f32_clamp_def f32_lt_def)
  then consider "f32_clamp r (F32_Fin 0) (F32_Fin 1) = F32_NaN"
    | b where "f32_clamp r (F32_Fin 0) (F32_Fin 1) = F32_Fin b" "0 \<le> b" "b \<le> 1" by blast
  then show ?thesis
  proof cases
    case 2
    have "0 \<le> x * b" "x * b \<le> 2 ^ 63"
      using x 2 mult_mono [of x "2 ^ 63" b 1] by simp_all
    then obtain y where y: "f32_round (x * b) = F32_Fin y" "0 \<le> y" "y \<le> 2 ^ 63"
      using f32_round_le_pow2 [of "x * b" 63] by auto
    have "\<lfloor>y\<rfloor> \<le> 2 ^ 63" using y(3) floor_mono [of y "2 ^ 63"] by simp
    then show ?thesis using x y 2 by (simp add: min.coboundedI1 nat_le_iff)
  qed (simp add: x)
qed

end
