(* ===== verification/BlockPool.thy ===== *)
theory BlockPool
  imports Float32
begin

unbundle bit_operations_syntax

section \<open>The shared KV block pool and the per-request block manager\<close>

text \<open>
  Model of \<open>block_pool.rs\<close>: one pool of fixed-size key/value blocks (a pre-allocated primary
  slab and an overflow slab that grows on demand), block ids whose top bit selects the slab, and
  the per-request \<open>BlockManager\<close> that keeps a block table over the pool. Cache entries are only
  stored and copied, so their type \<open>'f\<close> is a parameter with a zero. Every operation runs under
  the pool's mutexes and is one atomic state transformer here; \<open>assert!\<close> and slice-bound
  failures are \<open>Panic\<close>.
\<close>

subsection \<open>Block ids\<close>

definition POOL_BLOCK_TOKENS :: usize where
  "POOL_BLOCK_TOKENS = 16"

definition OVERFLOW_BIT :: u32 where
  "OVERFLOW_BIT = push_bit 31 1"

datatype block_id = BlockId (raw: u32)

definition is_overflow :: "block_id \<Rightarrow> bool" where
  "is_overflow b \<longleftrightarrow> raw b AND OVERFLOW_BIT \<noteq> 0"

definition index :: "block_id \<Rightarrow> usize" where
  "index b = unat (raw b AND NOT OVERFLOW_BIT)"

subsection \<open>Pressure thresholds\<close>

datatype pressure_level = Normal | High | Critical

definition SOFT_CAP_RATIO :: f32 where
  "SOFT_CAP_RATIO = f32_round (90 / 100)"

definition CRITICAL_PRESSURE_RATIO :: f32 where
  "CRITICAL_PRESSURE_RATIO = f32_round (98 / 100)"

record pressure_thresholds =
  high :: f32
  critical :: f32
  max_overflow_capacity :: "usize option"

definition default_thresholds :: pressure_thresholds where
  "default_thresholds =
     \<lparr>high = SOFT_CAP_RATIO, critical = CRITICAL_PRESSURE_RATIO, max_overflow_capacity = None\<rparr>"

datatype threshold_error = HighOutOfRange f32 | CriticalOutOfRange f32 | HighAboveCritical f32 f32

definition thresholds_try_new :: "f32 \<Rightarrow> f32 \<Rightarrow> threshold_error + pressure_thresholds" where
  "thresholds_try_new hi cr =
     (if \<not> (f32_lt (F32_Fin 0) hi \<and> f32_le hi (F32_Fin 1)) then Inl (HighOutOfRange hi)
      else if \<not> (f32_lt (F32_Fin 0) cr \<and> f32_le cr (F32_Fin 1)) then Inl (CriticalOutOfRange cr)
      else if f32_lt cr hi then Inl (HighAboveCritical hi cr)
      else Inr \<lparr>high = hi, critical = cr, max_overflow_capacity = None\<rparr>)"

definition with_max_overflow_capacity ::
    "pressure_thresholds \<Rightarrow> usize option \<Rightarrow> pressure_thresholds" where
  "with_max_overflow_capacity t m =
     t\<lparr>max_overflow_capacity := (case m of Some n \<Rightarrow> if n > 0 then Some n else None | None \<Rightarrow> None)\<rparr>"

subsection \<open>The pool\<close>

record 'f block_pool =
  kv_dim :: usize
  capacity :: usize
  block_floats :: usize
  keys :: "'f list"
  vals :: "'f list"
  free :: "u32 list"
  overflow_keys :: "'f list"
  overflow_values :: "'f list"
  overflow_free :: "u32 list"
  overflow_capacity :: usize
  thresholds :: pressure_thresholds

definition with_thresholds ::
    "usize \<Rightarrow> usize \<Rightarrow> pressure_thresholds \<Rightarrow> ('f::zero) block_pool outcome" where
  "with_thresholds kv cap t =
     (if kv = 0 then Panic
      else if cap = 0 then Panic
      else let bf = (POOL_BLOCK_TOKENS * kv) mod 2 ^ 64 in
        case checked_mul bf cap of
          None \<Rightarrow> Panic
        | Some n_floats \<Rightarrow>
            if (of_nat cap :: u32) \<le> NOT OVERFLOW_BIT
            then Return \<lparr>kv_dim = kv, capacity = cap, block_floats = bf,
                   keys = replicate n_floats 0, vals = replicate n_floats 0,
                   free = rev (map of_nat [0..<unat (of_nat cap :: u32)]),
                   overflow_keys = [], overflow_values = [], overflow_free = [],
                   overflow_capacity = 0, thresholds = t\<rparr>
            else Panic)"

definition pool_new :: "usize \<Rightarrow> usize \<Rightarrow> ('f::zero) block_pool outcome" where
  "pool_new kv cap = with_thresholds kv cap default_thresholds"

definition allocate :: "('f::zero) block_pool \<Rightarrow> (block_id option \<times> 'f block_pool) outcome" where
  "allocate p =
     (case vec_pop (free p) of
        Some (idx, rest) \<Rightarrow> Return (Some (BlockId idx), p\<lparr>free := rest\<rparr>)
      | None \<Rightarrow>
        (case vec_pop (overflow_free p) of
           Some (idx, rest) \<Rightarrow>
             Return (Some (BlockId (idx OR OVERFLOW_BIT)), p\<lparr>overflow_free := rest\<rparr>)
         | None \<Rightarrow>
             if (case max_overflow_capacity (thresholds p) of
                   Some m \<Rightarrow> m \<le> overflow_capacity p | None \<Rightarrow> False)
             then Return (None, p)
             else let new_idx = (of_nat (overflow_capacity p) :: u32) in
               if new_idx AND OVERFLOW_BIT \<noteq> 0 then Panic
               else Return (Some (BlockId (new_idx OR OVERFLOW_BIT)),
                 p\<lparr>overflow_keys :=
                     vec_resize (overflow_keys p) (length (overflow_keys p) + block_floats p) 0,
                   overflow_values :=
                     vec_resize (overflow_values p) (length (overflow_values p) + block_floats p) 0,
                   overflow_capacity := overflow_capacity p + 1\<rparr>)))"

definition release :: "'f block_pool \<Rightarrow> block_id \<Rightarrow> 'f block_pool" where
  "release p b =
     (if is_overflow b
      then p\<lparr>overflow_free := vec_push (overflow_free p) (of_nat (index b))\<rparr>
      else p\<lparr>free := vec_push (free p) (raw b)\<rparr>)"

definition free_blocks :: "'f block_pool \<Rightarrow> usize" where
  "free_blocks p = length (free p)"

definition overflow_in_use :: "'f block_pool \<Rightarrow> usize" where
  "overflow_in_use p = saturating_sub (overflow_capacity p) (length (overflow_free p))"

definition utilization :: "'f block_pool \<Rightarrow> f32" where
  "utilization p =
     (if capacity p = 0 then F32_Fin 0
      else let used_primary = saturating_sub (capacity p) (length (free p));
               ov_in_use = saturating_sub (overflow_capacity p) (length (overflow_free p))
           in f32_div (usize_to_f32 (used_primary + ov_in_use)) (usize_to_f32 (capacity p)))"

definition pressure_level :: "'f block_pool \<Rightarrow> pressure_level" where
  "pressure_level p =
     (let u = utilization p in
      if f32_le (critical (thresholds p)) u then Critical
      else if f32_le (high (thresholds p)) u then High
      else Normal)"

definition above_soft_cap :: "'f block_pool \<Rightarrow> bool" where
  "above_soft_cap p \<longleftrightarrow> f32_le (high (thresholds p)) (utilization p)"

definition block_off :: "'f block_pool \<Rightarrow> block_id \<Rightarrow> usize \<Rightarrow> usize" where
  "block_off p b in_block = index b * block_floats p + in_block * kv_dim p"

text \<open>\<open>keys[off..off + n].copy_from_slice(src)\<close>: a range past the end panics.\<close>

definition copy_into :: "'f list \<Rightarrow> usize \<Rightarrow> 'f list \<Rightarrow> 'f list outcome" where
  "copy_into xs off src =
     (if off + length src \<le> length xs then Return (subslice_write xs off src) else Panic)"

definition copy_from :: "'f list \<Rightarrow> usize \<Rightarrow> usize \<Rightarrow> 'f list outcome" where
  "copy_from xs off n = (if off + n \<le> length xs then Return (subslice xs off n) else Panic)"

definition write_token ::
    "'f block_pool \<Rightarrow> block_id \<Rightarrow> usize \<Rightarrow> 'f list \<Rightarrow> 'f list \<Rightarrow> 'f block_pool outcome" where
  "write_token p b in_block k v =
     (if length k \<noteq> kv_dim p then Panic
      else if length v \<noteq> kv_dim p then Panic
      else if \<not> in_block < POOL_BLOCK_TOKENS then Panic
      else let off = block_off p b in_block in
        if is_overflow b
        then obind (copy_into (overflow_keys p) off k) (\<lambda>ks.
             obind (copy_into (overflow_values p) off v) (\<lambda>vs.
               Return (p\<lparr>overflow_keys := ks, overflow_values := vs\<rparr>)))
        else obind (copy_into (keys p) off k) (\<lambda>ks.
             obind (copy_into (vals p) off v) (\<lambda>vs.
               Return (p\<lparr>keys := ks, vals := vs\<rparr>))))"

definition read_key_into ::
    "'f block_pool \<Rightarrow> block_id \<Rightarrow> usize \<Rightarrow> 'f list \<Rightarrow> 'f list outcome" where
  "read_key_into p b in_block dst =
     (if length dst \<noteq> kv_dim p then Panic
      else if \<not> in_block < POOL_BLOCK_TOKENS then Panic
      else copy_from (if is_overflow b then overflow_keys p else keys p)
             (block_off p b in_block) (kv_dim p))"

definition read_value_into ::
    "'f block_pool \<Rightarrow> block_id \<Rightarrow> usize \<Rightarrow> 'f list \<Rightarrow> 'f list outcome" where
  "read_value_into p b in_block dst =
     (if length dst \<noteq> kv_dim p then Panic
      else if \<not> in_block < POOL_BLOCK_TOKENS then Panic
      else copy_from (if is_overflow b then overflow_values p else vals p)
             (block_off p b in_block) (kv_dim p))"

definition read_key :: "('f::zero) block_pool \<Rightarrow> block_id \<Rightarrow> usize \<Rightarrow> 'f list outcome" where
  "read_key p b in_block = read_key_into p b in_block (replicate (kv_dim p) 0)"

definition read_value :: "('f::zero) block_pool \<Rightarrow> block_id \<Rightarrow> usize \<Rightarrow> 'f list outcome" where
  "read_value p b in_block = read_value_into p b in_block (replicate (kv_dim p) 0)"

definition shrink_overflow_to_fit :: "'f block_pool \<Rightarrow> usize \<times> 'f block_pool" where
  "shrink_overflow_to_fit p =
     (if length (overflow_free p) < overflow_capacity p then (0, p)
      else let reclaimed = overflow_capacity p in
        if reclaimed = 0 then (0, p)
        else (reclaimed, p\<lparr>overflow_keys := [], overflow_values := [], overflow_free := [],
                overflow_capacity := 0\<rparr>))"

subsection \<open>The per-request manager\<close>

record block_manager =
  block_table :: "block_id list"
  seq_len :: usize

definition manager_new :: block_manager where
  "manager_new = \<lparr>block_table = [], seq_len = 0\<rparr>"

datatype block_alloc_error = Exhausted

text \<open>
  \<open>append\<close> returns the new manager and pool. The table push that precedes a panicking write is
  not visible to any caller; an exhausted pool leaves both unchanged.
\<close>

definition append_token ::
    "block_manager \<Rightarrow> ('f::zero) block_pool \<Rightarrow> 'f list \<Rightarrow> 'f list \<Rightarrow>
     (block_alloc_error + block_manager \<times> 'f block_pool) outcome" where
  "append_token m p k v =
     (let pos = seq_len m;
          block_idx = pos div POOL_BLOCK_TOKENS;
          in_block = pos mod POOL_BLOCK_TOKENS;
          finish = (\<lambda>m p.
            if block_idx < length (block_table m)
            then obind (write_token p (block_table m ! block_idx) in_block k v) (\<lambda>p'.
                   Return (Inr (m\<lparr>seq_len := seq_len m + 1\<rparr>, p')))
            else Panic)
      in if in_block = 0
         then obind (allocate p) (\<lambda>(r, p').
                case r of
                  None \<Rightarrow> Return (Inl Exhausted)
                | Some b \<Rightarrow> finish (m\<lparr>block_table := vec_push (block_table m) b\<rparr>) p')
         else finish m p)"

definition num_blocks :: "block_manager \<Rightarrow> usize" where
  "num_blocks m = length (block_table m)"

definition physical_addr :: "block_manager \<Rightarrow> usize \<Rightarrow> (block_id \<times> usize) outcome" where
  "physical_addr m i =
     (if i < seq_len m \<and> i div POOL_BLOCK_TOKENS < length (block_table m)
      then Return (block_table m ! (i div POOL_BLOCK_TOKENS), i mod POOL_BLOCK_TOKENS)
      else Panic)"

definition manager_key :: "block_manager \<Rightarrow> ('f::zero) block_pool \<Rightarrow> usize \<Rightarrow> 'f list outcome" where
  "manager_key m p i = obind (physical_addr m i) (\<lambda>(b, s). read_key p b s)"

definition manager_value :: "block_manager \<Rightarrow> ('f::zero) block_pool \<Rightarrow> usize \<Rightarrow> 'f list outcome" where
  "manager_value m p i = obind (physical_addr m i) (\<lambda>(b, s). read_value p b s)"

definition release_all :: "block_manager \<Rightarrow> 'f block_pool \<Rightarrow> block_manager \<times> 'f block_pool" where
  "release_all m p =
     (m\<lparr>block_table := [], seq_len := 0\<rparr>, fold (\<lambda>b p. release p b) (block_table m) p)"

subsection \<open>Facts about block ids\<close>

lemma overflow_bit_val: "OVERFLOW_BIT = 0x80000000"
  by (simp add: OVERFLOW_BIT_def)

lemma not_overflow_bit: "NOT OVERFLOW_BIT = 0x7FFFFFFF"
  by (simp add: overflow_bit_val word_uint_eq_iff)

lemma bit_OVERFLOW_BIT [simp]: "bit OVERFLOW_BIT n \<longleftrightarrow> n = 31"
proof -
  have eq: "OVERFLOW_BIT = 2 ^ 31" by (simp add: OVERFLOW_BIT_def)
  show ?thesis unfolding eq bit_exp_iff by auto
qed

lemma and_overflow_bit: "x AND OVERFLOW_BIT = 0 \<longleftrightarrow> \<not> bit x 31" for x :: u32
  by (auto simp: bit_eq_iff [of "x AND OVERFLOW_BIT"] bit_and_iff dest: spec [of _ 31])

lemma bit31_iff: "bit x 31 \<longleftrightarrow> 2 ^ 31 \<le> unat x" for x :: u32
proof -
  have "bit x 31 \<longleftrightarrow> bit (unat x) 31"
    by (simp add: bit_unsigned_iff)
  then have "bit x 31 \<longleftrightarrow> odd (unat x div 2 ^ 31)"
    by (simp add: bit_iff_odd)
  moreover have "unat x div 2 ^ 31 < 2"
    using unat_bound [of x] by (simp add: less_mult_imp_div_less)
  then have "unat x div 2 ^ 31 = 0 \<or> unat x div 2 ^ 31 = 1" by linarith
  ultimately show ?thesis
    by (auto simp: div_eq_0_iff)
qed

lemma is_overflow_iff: "is_overflow b \<longleftrightarrow> 2 ^ 31 \<le> unat (raw b)"
  by (simp add: is_overflow_def and_overflow_bit bit31_iff)

lemma unat_mask31: "unat (x AND NOT OVERFLOW_BIT) = unat x mod 2 ^ 31" for x :: u32
proof -
  have "x AND NOT OVERFLOW_BIT = take_bit 31 x"
  proof (rule bit_eqI)
    fix n assume "possible_bit TYPE(32 word) n"
    then have "n < 32" by simp
    then show "bit (x AND NOT OVERFLOW_BIT) n = bit (take_bit 31 x) n"
      by (auto simp: bit_and_iff bit_not_iff bit_take_bit_iff)
  qed
  then show ?thesis by (simp add: take_bit_eq_mod unat_mod)
qed

lemma index_eq: "index b = unat (raw b) mod 2 ^ 31"
  by (simp add: index_def unat_mask31)

lemma index_primary: "\<not> is_overflow b \<Longrightarrow> index b = unat (raw b)"
  by (simp add: index_eq is_overflow_iff)

lemma index_bound: "index b < 2 ^ 31"
  by (simp add: index_eq)

lemma unat_raw: "unat (raw b) = (if is_overflow b then index b + 2 ^ 31 else index b)"
proof (cases "is_overflow b")
  case True
  then have "2 ^ 31 \<le> unat (raw b)" "unat (raw b) < 2 ^ 32"
    using unat_bound [of "raw b"] by (simp_all add: is_overflow_iff)
  then have "unat (raw b) mod 2 ^ 31 = unat (raw b) - 2 ^ 31"
    by (simp add: le_mod_geq)
  with True show ?thesis
    by (simp add: index_eq is_overflow_iff)
next
  case False
  then show ?thesis by (simp add: index_primary)
qed

lemma block_id_eqI: "is_overflow a = is_overflow b \<Longrightarrow> index a = index b \<Longrightarrow> a = b"
  by (metis block_id.expand unat_raw word_unat_eq_iff)

lemma overflow_id:
  assumes "unat i < 2 ^ 31"
  shows "is_overflow (BlockId (i OR OVERFLOW_BIT))"
    and "index (BlockId (i OR OVERFLOW_BIT)) = unat i"
proof -
  show "is_overflow (BlockId (i OR OVERFLOW_BIT))"
    by (simp add: is_overflow_def overflow_bit_val)
  have "(i OR OVERFLOW_BIT) AND NOT OVERFLOW_BIT = i AND NOT OVERFLOW_BIT"
    by (rule bit_eqI) (auto simp: bit_simps)
  with assms show "index (BlockId (i OR OVERFLOW_BIT)) = unat i"
    by (simp add: index_def unat_mask31)
qed

lemma primary_id:
  assumes "unat i < 2 ^ 31"
  shows "\<not> is_overflow (BlockId i)" and "index (BlockId i) = unat i"
  using assms by (simp_all add: is_overflow_iff index_eq)

lemma unat_of_nat_small: "n < 2 ^ 32 \<Longrightarrow> unat (of_nat n :: u32) = n"
  by (simp add: unat_of_nat)

lemma of_nat_index_unat: "of_nat (index b) = i \<longleftrightarrow> index b = unat i" for i :: u32
  using index_bound [of b] by (auto simp: word_unat_eq_iff unat_of_nat_small)

subsection \<open>The pool invariant\<close>

text \<open>
  A well-formed pool: the slabs hold whole blocks, the free lists hold distinct in-range
  indices, ids fit the 31 index bits and a configured overflow cap is respected. A block is
  \<open>allocated\<close> when its index lies in its slab and not on the slab's free list.
\<close>

definition pool_inv :: "'f block_pool \<Rightarrow> bool" where
  "pool_inv p \<longleftrightarrow>
     0 < kv_dim p \<and> 0 < capacity p \<and> capacity p < 2 ^ 31 \<and>
     block_floats p = POOL_BLOCK_TOKENS * kv_dim p \<and>
     length (keys p) = capacity p * block_floats p \<and>
     length (vals p) = capacity p * block_floats p \<and>
     length (overflow_keys p) = overflow_capacity p * block_floats p \<and>
     length (overflow_values p) = overflow_capacity p * block_floats p \<and>
     distinct (free p) \<and> (\<forall>i\<in>set (free p). unat i < capacity p) \<and>
     distinct (overflow_free p) \<and> (\<forall>i\<in>set (overflow_free p). unat i < overflow_capacity p) \<and>
     overflow_capacity p \<le> 2 ^ 31 \<and>
     (\<forall>m. max_overflow_capacity (thresholds p) = Some m \<longrightarrow> overflow_capacity p \<le> m)"

definition allocated :: "'f block_pool \<Rightarrow> block_id \<Rightarrow> bool" where
  "allocated p b \<longleftrightarrow>
     (if is_overflow b then index b < overflow_capacity p \<and> of_nat (index b) \<notin> set (overflow_free p)
      else index b < capacity p \<and> raw b \<notin> set (free p))"


lemmas pool_inv_defs = pool_inv_def allocated_def POOL_BLOCK_TOKENS_def

lemma pool_invD:
  assumes "pool_inv p"
  shows "capacity p < 2 ^ 31" "overflow_capacity p \<le> 2 ^ 31" "0 < kv_dim p" "0 < capacity p"
    "block_floats p = POOL_BLOCK_TOKENS * kv_dim p"
  using assms by (simp_all add: pool_inv_def)

lemma allocated_index:
  "allocated p b \<Longrightarrow> index b < (if is_overflow b then overflow_capacity p else capacity p)"
  by (simp add: allocated_def)

subsection \<open>Allocation\<close>

lemma allocate_primary:
  assumes "pool_inv p" "free p = rest @ [i]"
  shows "allocate p = Return (Some (BlockId i), p\<lparr>free := rest\<rparr>)"
    and "pool_inv (p\<lparr>free := rest\<rparr>)" and "\<not> allocated p (BlockId i)"
    and "allocated (p\<lparr>free := rest\<rparr>) c \<longleftrightarrow> c = BlockId i \<or> allocated p c"
proof -
  have i: "unat i < capacity p" "i \<notin> set rest" using assms by (auto simp: pool_inv_def)
  then have id: "\<not> is_overflow (BlockId i)" "index (BlockId i) = unat i"
    using pool_invD(1) [OF assms(1)] by (auto intro!: primary_id)
  show "allocate p = Return (Some (BlockId i), p\<lparr>free := rest\<rparr>)"
    by (simp add: allocate_def vec_pop_def assms(2))
  show "pool_inv (p\<lparr>free := rest\<rparr>)" using assms by (simp add: pool_inv_def)
  show "\<not> allocated p (BlockId i)" using assms(2) id by (simp add: allocated_def)
  show "allocated (p\<lparr>free := rest\<rparr>) c \<longleftrightarrow> c = BlockId i \<or> allocated p c"
    using assms(2) id i by (cases c) (auto simp: allocated_def)
qed

lemma allocate_recycled:
  assumes "pool_inv p" "free p = []" "overflow_free p = rest @ [i]"
  shows "allocate p = Return (Some (BlockId (i OR OVERFLOW_BIT)), p\<lparr>overflow_free := rest\<rparr>)"
    and "pool_inv (p\<lparr>overflow_free := rest\<rparr>)" and "\<not> allocated p (BlockId (i OR OVERFLOW_BIT))"
    and "allocated (p\<lparr>overflow_free := rest\<rparr>) c \<longleftrightarrow>
      c = BlockId (i OR OVERFLOW_BIT) \<or> allocated p c"
proof -
  let ?b = "BlockId (i OR OVERFLOW_BIT)"
  have i: "unat i < overflow_capacity p" "i \<notin> set rest" using assms by (auto simp: pool_inv_def)
  then have id: "is_overflow ?b" "index ?b = unat i"
    using pool_invD(2) [OF assms(1)] by (auto intro!: overflow_id)
  show "allocate p = Return (Some ?b, p\<lparr>overflow_free := rest\<rparr>)"
    by (simp add: allocate_def vec_pop_def assms(2,3))
  show "pool_inv (p\<lparr>overflow_free := rest\<rparr>)" using assms by (simp add: pool_inv_def)
  show "\<not> allocated p ?b" using assms(3) id by (simp add: allocated_def)
  have "c = ?b" if "is_overflow c" "index c = unat i"
    using that id by (auto intro: block_id_eqI)
  then show "allocated (p\<lparr>overflow_free := rest\<rparr>) c \<longleftrightarrow> c = ?b \<or> allocated p c"
    using assms(3) id i by (auto simp: allocated_def of_nat_index_unat)
qed

definition grown :: "('f::zero) block_pool \<Rightarrow> 'f block_pool" where
  "grown p = p\<lparr>overflow_keys := overflow_keys p @ replicate (block_floats p) 0,
     overflow_values := overflow_values p @ replicate (block_floats p) 0,
     overflow_capacity := overflow_capacity p + 1\<rparr>"

lemma allocate_grow:
  fixes p :: "('f::zero) block_pool"
  assumes "pool_inv p" "free p = []" "overflow_free p = []" "overflow_capacity p < 2 ^ 31"
    and room: "\<forall>m. max_overflow_capacity (thresholds p) = Some m \<longrightarrow> overflow_capacity p < m"
  defines "b \<equiv> BlockId (of_nat (overflow_capacity p) OR OVERFLOW_BIT)"
  shows "allocate p = Return (Some b, grown p)"
    and "pool_inv (grown p)" and "\<not> allocated p b"
    and "allocated (grown p) c \<longleftrightarrow> c = b \<or> allocated p c"
proof -
  have u: "unat (of_nat (overflow_capacity p) :: u32) = overflow_capacity p"
    using assms(4) by (intro unat_of_nat_small) simp
  have id: "is_overflow b" "index b = overflow_capacity p"
    using overflow_id [of "of_nat (overflow_capacity p)"] assms(4) u by (simp_all add: b_def)
  have "(of_nat (overflow_capacity p) :: u32) AND OVERFLOW_BIT = 0"
    using assms(4) u by (simp add: and_overflow_bit bit31_iff)
  then show "allocate p = Return (Some b, grown p)"
    using assms(2,3) room
    by (auto simp: allocate_def b_def grown_def vec_resize_grow split: option.splits)
  show "pool_inv (grown p)"
    using assms(1-4) room
    by (auto simp: pool_inv_def grown_def algebra_simps)
  show "\<not> allocated p b" using id by (simp add: allocated_def)
  have "c = b" if "is_overflow c" "index c = overflow_capacity p"
    using that id by (auto intro: block_id_eqI)
  then show "allocated (grown p) c \<longleftrightarrow> c = b \<or> allocated p c"
    using assms(2,3) id by (auto simp: allocated_def grown_def less_Suc_eq)
qed

text \<open>The four ways an allocation can go; everything about \<open>allocate\<close> is read off these.\<close>

lemma allocate_cases:
  fixes p :: "('f::zero) block_pool"
  assumes "pool_inv p"
  obtains (primary) i rest where "free p = rest @ [i]"
  | (recycled) i rest where "free p = []" "overflow_free p = rest @ [i]"
  | (capped) m where "free p = []" "overflow_free p = []"
      "max_overflow_capacity (thresholds p) = Some m" "overflow_capacity p = m"
      "allocate p = Return (None, p)"
  | (grow) "free p = []" "overflow_free p = []" "overflow_capacity p < 2 ^ 31"
      "\<forall>m. max_overflow_capacity (thresholds p) = Some m \<longrightarrow> overflow_capacity p < m"
  | (full) "free p = []" "overflow_free p = []" "overflow_capacity p = 2 ^ 31"
      "allocate p = Panic"
proof -
  consider (a) "free p \<noteq> []" | (b) "free p = []" "overflow_free p \<noteq> []"
    | (c) "free p = []" "overflow_free p = []" by blast
  then show thesis
  proof cases
    case a then show thesis using primary by (metis append_butlast_last_id)
  next
    case b then show thesis using recycled by (metis append_butlast_last_id)
  next
    case c
    show thesis
    proof (cases "\<exists>m. max_overflow_capacity (thresholds p) = Some m \<and> m \<le> overflow_capacity p")
      case True
      then obtain m where m: "max_overflow_capacity (thresholds p) = Some m" "m \<le> overflow_capacity p"
        by blast
      with assms have "overflow_capacity p = m" by (auto simp: pool_inv_def)
      moreover have "allocate p = Return (None, p)" using c m by (simp add: allocate_def)
      ultimately show thesis using capped c m by blast
    next
      case False
      show thesis
      proof (cases "overflow_capacity p < 2 ^ 31")
        case True then show thesis using grow c False by (metis linorder_not_less)
      next
        case oc: False
        with pool_invD(2) [OF assms] have eq: "overflow_capacity p = 2 ^ 31" by simp
        have "(of_nat (2 ^ 31) :: u32) AND OVERFLOW_BIT \<noteq> 0"
          by (simp add: overflow_bit_val)
        then have "allocate p = Panic" using c False eq
          by (auto simp: allocate_def split: option.splits)
        then show thesis using full c eq by blast
      qed
    qed
  qed
qed

lemma allocate_ReturnE:
  fixes p :: "('f::zero) block_pool"
  assumes "pool_inv p" "allocate p = Return (r, q)"
  obtains (primary) i rest where "free p = rest @ [i]" "r = Some (BlockId i)" "q = p\<lparr>free := rest\<rparr>"
  | (recycled) i rest where "free p = []" "overflow_free p = rest @ [i]"
      "r = Some (BlockId (i OR OVERFLOW_BIT))" "q = p\<lparr>overflow_free := rest\<rparr>"
  | (capped) "r = None" "q = p"
  | (grow) "free p = []" "overflow_free p = []" "overflow_capacity p < 2 ^ 31"
      "\<forall>m. max_overflow_capacity (thresholds p) = Some m \<longrightarrow> overflow_capacity p < m"
      "r = Some (BlockId (of_nat (overflow_capacity p) OR OVERFLOW_BIT))" "q = grown p"
proof (cases rule: allocate_cases [OF assms(1)])
  case (1 i rest)
  with assms(2) show thesis using primary allocate_primary(1) [OF assms(1), of rest i] by simp
next
  case (2 i rest)
  with assms(2) show thesis using recycled allocate_recycled(1) [OF assms(1), of rest i] by simp
next
  case (3 m)
  with assms(2) show thesis using capped by simp
next
  case 4
  with assms(2) show thesis using grow allocate_grow(1) [OF assms(1)] by simp
next
  case 5
  with assms(2) show thesis by simp
qed

lemma allocate_Some:
  fixes p :: "('f::zero) block_pool"
  assumes inv: "pool_inv p" and al: "allocate p = Return (Some b, q)"
  shows "\<not> allocated p b \<and> pool_inv q \<and> (\<forall>c. allocated q c \<longleftrightarrow> c = b \<or> allocated p c)"
  using inv al
proof (cases rule: allocate_ReturnE)
  case (primary i rest)
  then show ?thesis using allocate_primary [OF inv primary(1)] by simp
next
  case (recycled i rest)
  then show ?thesis using allocate_recycled [OF inv recycled(1,2)] by simp
next
  case grow
  then show ?thesis using allocate_grow [OF inv grow(1-4)] by simp
qed simp

lemma allocate_None:
  fixes p :: "('f::zero) block_pool"
  assumes "pool_inv p" "allocate p = Return (None, q)"
  shows "q = p"
  using assms by (cases rule: allocate_ReturnE) simp_all

lemma allocate_shape:
  fixes p :: "('f::zero) block_pool"
  assumes "pool_inv p" "allocate p = Return (r, q)"
  shows "kv_dim q = kv_dim p \<and> block_floats q = block_floats p \<and> capacity q = capacity p \<and>
    keys q = keys p \<and> vals q = vals p \<and> thresholds q = thresholds p \<and>
    (\<exists>z. overflow_keys q = overflow_keys p @ z) \<and> (\<exists>z. overflow_values q = overflow_values p @ z)"
  using assms by (cases rule: allocate_ReturnE) (simp_all add: grown_def)

subsection \<open>Reading and writing token slots\<close>

lemma slot_in_slab:
  assumes "pool_inv p" "allocated p b" "s < POOL_BLOCK_TOKENS"
  shows "block_off p b s + kv_dim p \<le>
    (if is_overflow b then overflow_capacity p else capacity p) * block_floats p"
proof -
  let ?n = "if is_overflow b then overflow_capacity p else capacity p"
  have "s * kv_dim p + kv_dim p \<le> block_floats p"
    using assms(3) pool_invD(5) [OF assms(1)] mult_le_mono1 [of "Suc s" POOL_BLOCK_TOKENS "kv_dim p"]
    by simp
  then have "block_off p b s + kv_dim p \<le> Suc (index b) * block_floats p"
    by (simp add: block_off_def)
  also have "\<dots> \<le> ?n * block_floats p"
    using allocated_index [OF assms(2)] by (intro mult_le_mono1) simp
  finally show ?thesis .
qed

lemma slot_in_range:
  assumes "pool_inv p" "allocated p b" "s < POOL_BLOCK_TOKENS"
  shows "is_overflow b \<Longrightarrow> block_off p b s + kv_dim p \<le> length (overflow_keys p)"
    "is_overflow b \<Longrightarrow> block_off p b s + kv_dim p \<le> length (overflow_values p)"
    "\<not> is_overflow b \<Longrightarrow> block_off p b s + kv_dim p \<le> length (keys p)"
    "\<not> is_overflow b \<Longrightarrow> block_off p b s + kv_dim p \<le> length (vals p)"
  using slot_in_slab [OF assms] assms(1) by (auto simp: pool_inv_def)

lemma read_allocated:
  assumes "pool_inv p" "allocated p b" "s < POOL_BLOCK_TOKENS"
  shows "read_key p b s = Return (subslice (if is_overflow b then overflow_keys p else keys p)
           (block_off p b s) (kv_dim p))"
    and "read_value p b s = Return (subslice (if is_overflow b then overflow_values p else vals p)
           (block_off p b s) (kv_dim p))"
  using slot_in_range [OF assms] assms(3)
  by (simp_all add: read_key_def read_key_into_def read_value_def read_value_into_def copy_from_def)

lemma allocate_frame:
  fixes p :: "('f::zero) block_pool"
  assumes "pool_inv p" "allocate p = Return (r, q)" "allocated p b"
  shows "read_key q b s = read_key p b s" "read_value q b s = read_value p b s"
proof -
  note sh = allocate_shape [OF assms(1,2)]
  have off: "block_off q b s = block_off p b s" using sh by (simp add: block_off_def)
  show "read_key q b s = read_key p b s" "read_value q b s = read_value p b s"
    using slot_in_range [OF assms(1,3), of s] sh
    by (auto simp: read_key_def read_key_into_def read_value_def read_value_into_def copy_from_def
        off slice_append_left)
qed

lemma slots_disjoint:
  assumes "pool_inv p" "is_overflow a = is_overflow b" "(a, s) \<noteq> (b, t)"
    "s < POOL_BLOCK_TOKENS" "t < POOL_BLOCK_TOKENS"
  shows "block_off p a s + kv_dim p \<le> block_off p b t \<or> block_off p b t + kv_dim p \<le> block_off p a s"
proof -
  let ?k = "kv_dim p"
  have flat: "block_off p c u = (index c * POOL_BLOCK_TOKENS + u) * ?k" for c u
    by (simp add: block_off_def pool_invD(5) [OF assms(1)] algebra_simps)
  have "index a * POOL_BLOCK_TOKENS + s \<noteq> index b * POOL_BLOCK_TOKENS + t"
  proof
    assume eq: "index a * POOL_BLOCK_TOKENS + s = index b * POOL_BLOCK_TOKENS + t"
    have "index a = (index a * POOL_BLOCK_TOKENS + s) div POOL_BLOCK_TOKENS"
      "index b = (index b * POOL_BLOCK_TOKENS + t) div POOL_BLOCK_TOKENS"
      using assms(4,5) by simp_all
    with eq have "index a = index b" by simp
    with eq assms(2,3) show False using block_id_eqI [of a b] by auto
  qed
  then consider "Suc (index a * POOL_BLOCK_TOKENS + s) \<le> index b * POOL_BLOCK_TOKENS + t"
    | "Suc (index b * POOL_BLOCK_TOKENS + t) \<le> index a * POOL_BLOCK_TOKENS + s" by linarith
  then show ?thesis
    by cases (drule mult_le_mono1 [of _ _ ?k], simp add: flat add.commute)+
qed

lemma write_token_spec:
  fixes p :: "('f::zero) block_pool"
  assumes inv: "pool_inv p" and al: "allocated p b" and s: "s < POOL_BLOCK_TOKENS"
    and k: "length k = kv_dim p" and v: "length v = kv_dim p"
  obtains q where "write_token p b s k v = Return q" "pool_inv q" "allocated q = allocated p"
    "kv_dim q = kv_dim p" "read_key q b s = Return k" "read_value q b s = Return v"
    "\<And>c t. allocated p c \<Longrightarrow> t < POOL_BLOCK_TOKENS \<Longrightarrow> (c, t) \<noteq> (b, s) \<Longrightarrow>
       read_key q c t = read_key p c t \<and> read_value q c t = read_value p c t"
proof -
  let ?o = "block_off p b s"
  define q where "q = (if is_overflow b
    then p\<lparr>overflow_keys := subslice_write (overflow_keys p) ?o k,
           overflow_values := subslice_write (overflow_values p) ?o v\<rparr>
    else p\<lparr>keys := subslice_write (keys p) ?o k, vals := subslice_write (vals p) ?o v\<rparr>)"
  note rng = slot_in_range [OF inv al s]
  have len: "length (overflow_keys q) = length (overflow_keys p)" "length (keys q) = length (keys p)"
    "length (overflow_values q) = length (overflow_values p)" "length (vals q) = length (vals p)"
    using rng k v by (simp_all add: q_def)
  have inv': "pool_inv q" using inv len by (simp add: pool_inv_def q_def split: if_splits)
  have al': "allocated q = allocated p" by (auto simp: allocated_def q_def fun_eq_iff)
  have off: "block_off q = block_off p" and kv: "kv_dim q = kv_dim p"
    by (simp_all add: block_off_def q_def fun_eq_iff)
  have rd: "allocated p c \<Longrightarrow> t < POOL_BLOCK_TOKENS \<Longrightarrow>
      read_key q c t = Return (subslice (if is_overflow c then overflow_keys q else keys q) (block_off p c t) (kv_dim p))
      \<and> read_value q c t = Return (subslice (if is_overflow c then overflow_values q else vals q) (block_off p c t) (kv_dim p))"
    for c t using read_allocated [OF inv', of c t] by (simp add: al' off kv)
  show thesis
  proof
    show "write_token p b s k v = Return q"
      using rng k v s by (simp add: write_token_def q_def copy_into_def Let_def)
    show "read_key q b s = Return k" "read_value q b s = Return v"
      using rd [OF al s] rng k v slice_write_same [of ?o _ k] slice_write_same [of ?o _ v]
      by (auto simp: q_def)
  next
    fix c t assume c: "allocated p c" "t < POOL_BLOCK_TOKENS" "(c, t) \<noteq> (b, s)"
    have dis: "is_overflow c = is_overflow b \<Longrightarrow>
        block_off p c t + kv_dim p \<le> ?o \<or> ?o + kv_dim p \<le> block_off p c t"
      using slots_disjoint [OF inv] c s by blast
    show "read_key q c t = read_key p c t \<and> read_value q c t = read_value p c t"
      using rd [OF c(1,2)] read_allocated [OF inv c(1,2)] dis rng k v
      by (cases "is_overflow b"; cases "is_overflow c") (simp_all add: q_def slice_write_disjoint)
  qed (use inv' al' kv in auto)
qed

subsection \<open>Release and reclamation\<close>

lemma release_spec:
  assumes "pool_inv p" "allocated p b"
  shows "pool_inv (release p b) \<and> (\<forall>c. allocated (release p b) c \<longleftrightarrow> c \<noteq> b \<and> allocated p c)"
proof (cases "is_overflow b")
  case True
  then have ib: "index b < overflow_capacity p" "of_nat (index b) \<notin> set (overflow_free p)"
    using assms(2) by (simp_all add: allocated_def)
  have u: "unat (of_nat (index b) :: u32) = index b"
    using index_bound [of b] by (intro unat_of_nat_small) simp
  have "pool_inv (release p b)"
    using assms(1) True ib u by (auto simp: pool_inv_def release_def vec_push_def)
  moreover have "c = b" if "is_overflow c" "(of_nat (index c) :: u32) = of_nat (index b)" for c
    using that True u by (intro block_id_eqI) (auto simp: of_nat_index_unat)
  then have "allocated (release p b) c \<longleftrightarrow> c \<noteq> b \<and> allocated p c" for c
    using True by (auto simp: allocated_def release_def vec_push_def)
  ultimately show ?thesis by blast
next
  case False
  then have ib: "unat (raw b) < capacity p" "raw b \<notin> set (free p)"
    using assms(2) by (simp_all add: allocated_def index_primary)
  have "pool_inv (release p b)"
    using assms(1) False ib by (auto simp: pool_inv_def release_def vec_push_def)
  moreover have "c = b" if "raw c = raw b" for c using that by (rule block_id.expand)
  then have "allocated (release p b) c \<longleftrightarrow> c \<noteq> b \<and> allocated p c" for c
    using False by (auto simp: allocated_def release_def vec_push_def)
  ultimately show ?thesis by blast
qed

lemma release_frame:
  "read_key (release p b) c s = read_key p c s" "read_value (release p b) c s = read_value p c s"
  "kv_dim (release p b) = kv_dim p" "thresholds (release p b) = thresholds p"
  by (simp_all add: release_def read_key_def read_key_into_def read_value_def read_value_into_def
      block_off_def)

text \<open>A free list of \<open>n\<close> distinct indices below \<open>n\<close> is full: nothing is allocated.\<close>

lemma full_free_list:
  fixes xs :: "u32 list"
  assumes "distinct xs" "\<forall>i\<in>set xs. unat i < n" "n \<le> length xs" "m < n"
  shows "of_nat m \<in> set xs"
proof -
  have "inj_on unat (set xs)" by (simp add: inj_on_def word_unat_eq_iff)
  then have "card (unat ` set xs) = length xs"
    using assms(1) by (simp only: card_image distinct_card)
  moreover have sub: "unat ` set xs \<subseteq> {..<n}" using assms(2) by auto
  moreover from sub have "card (unat ` set xs) \<le> n"
    using card_mono [of "{..<n}"] by simp
  ultimately have "unat ` set xs = {..<n}"
    using assms(3) by (intro card_subset_eq) auto
  with assms(4) obtain i where "i \<in> set xs" "m = unat i" by auto
  then show ?thesis by simp
qed

lemma shrink_spec:
  assumes "pool_inv p" "shrink_overflow_to_fit p = (n, q)"
  shows "pool_inv q \<and> allocated q = allocated p \<and> kv_dim q = kv_dim p \<and> capacity q = capacity p \<and>
    (\<forall>c s. allocated p c \<longrightarrow>
       read_key q c s = read_key p c s \<and> read_value q c s = read_value p c s)"
proof (cases "n = 0")
  case True
  with assms have "q = p" by (auto simp: shrink_overflow_to_fit_def Let_def split: if_splits)
  with assms(1) show ?thesis by simp
next
  case False
  with assms have q: "overflow_capacity p \<le> length (overflow_free p)"
    "q = p\<lparr>overflow_keys := [], overflow_values := [], overflow_free := [], overflow_capacity := 0\<rparr>"
    by (auto simp: shrink_overflow_to_fit_def Let_def split: if_splits)
  have none: "\<not> allocated p c" if "is_overflow c" for c
    using that full_free_list [of "overflow_free p" "overflow_capacity p" "index c"] q(1) assms(1)
    by (auto simp: allocated_def pool_inv_def)
  then have "allocated q = allocated p" by (auto simp: fun_eq_iff allocated_def q(2))
  moreover have "pool_inv q" using assms(1) by (auto simp: pool_inv_def q(2))
  moreover have "read_key q c s = read_key p c s \<and> read_value q c s = read_value p c s"
    if "allocated p c" for c s
    using that none by (auto simp: q(2) read_key_def read_key_into_def read_value_def
        read_value_into_def block_off_def)
  ultimately show ?thesis by (simp add: q(2))
qed

subsection \<open>The interface the block manager relies on\<close>

locale block_store =
  fixes inv :: "'p \<Rightarrow> bool" and owned :: "'p \<Rightarrow> 'b \<Rightarrow> bool"
    and alloc :: "'p \<Rightarrow> ('b option \<times> 'p) outcome" and rel :: "'p \<Rightarrow> 'b \<Rightarrow> 'p"
    and content :: "'p \<Rightarrow> 'b \<Rightarrow> nat \<Rightarrow> 'c"
  assumes alloc_fresh: "inv p \<Longrightarrow> alloc p = Return (Some b, q) \<Longrightarrow>
      \<not> owned p b \<and> inv q \<and> (\<forall>c. owned q c \<longleftrightarrow> c = b \<or> owned p c)"
    and alloc_frame: "inv p \<Longrightarrow> alloc p = Return (r, q) \<Longrightarrow> owned p c \<Longrightarrow> content q c s = content p c s"
    and rel_owned: "inv p \<Longrightarrow> owned p b \<Longrightarrow>
      inv (rel p b) \<and> (\<forall>c. owned (rel p b) c \<longleftrightarrow> c \<noteq> b \<and> owned p c)"
    and rel_frame: "content (rel p b) c s = content p c s"
begin

lemma rel_all_owned:
  assumes "inv p" "distinct bs" "\<forall>b\<in>set bs. owned p b"
  shows "inv (fold (\<lambda>b p. rel p b) bs p) \<and>
    (\<forall>c. owned (fold (\<lambda>b p. rel p b) bs p) c \<longleftrightarrow> c \<notin> set bs \<and> owned p c)"
  using assms
proof (induction bs arbitrary: p)
  case (Cons b bs)
  have "inv (rel p b)" "\<forall>c. owned (rel p b) c \<longleftrightarrow> c \<noteq> b \<and> owned p c"
    using rel_owned [of p b] Cons.prems by auto
  then show ?case using Cons.IH [of "rel p b"] Cons.prems by auto
qed simp

lemma rel_all_frame: "content (fold (\<lambda>b p. rel p b) bs p) c s = content p c s"
  by (induction bs arbitrary: p) (simp_all add: rel_frame)

lemma alloc_then_disjoint:
  assumes "inv p" "alloc p = Return (Some b, q)" "\<forall>c\<in>set cs. owned p c"
  shows "b \<notin> set cs" "\<forall>c\<in>set cs. owned q c"
  using alloc_fresh [OF assms(1,2)] assms(3) by auto

end

interpretation pool: block_store pool_inv allocated
  "allocate :: ('f::zero) block_pool \<Rightarrow> _" release "\<lambda>p b s. (read_key p b s, read_value p b s)"
proof
  fix p q :: "'f block_pool" and b c r s
  show "pool_inv p \<Longrightarrow> allocate p = Return (Some b, q) \<Longrightarrow>
      \<not> allocated p b \<and> pool_inv q \<and> (\<forall>c. allocated q c \<longleftrightarrow> c = b \<or> allocated p c)"
    by (rule allocate_Some)
  show "pool_inv p \<Longrightarrow> allocate p = Return (r, q) \<Longrightarrow> allocated p c \<Longrightarrow>
      (read_key q c s, read_value q c s) = (read_key p c s, read_value p c s)"
    using allocate_frame by blast
  show "pool_inv p \<Longrightarrow> allocated p b \<Longrightarrow>
      pool_inv (release p b) \<and> (\<forall>c. allocated (release p b) c \<longleftrightarrow> c \<noteq> b \<and> allocated p c)"
    by (rule release_spec)
  show "(read_key (release p b) c s, read_value (release p b) c s) = (read_key p c s, read_value p c s)"
    by (simp add: release_frame)
qed

subsection \<open>The manager caches a sequence\<close>

text \<open>
  A manager is well formed over a pool when its table has one block per started group of 16
  tokens, without repetition, all of them allocated. Its abstract value is the sequence of
  key/value pairs read back through the block table.
\<close>

definition manager_inv :: "block_manager \<Rightarrow> 'f block_pool \<Rightarrow> bool" where
  "manager_inv m p \<longleftrightarrow>
     length (block_table m) = (seq_len m + 15) div POOL_BLOCK_TOKENS \<and>
     distinct (block_table m) \<and> (\<forall>b\<in>set (block_table m). allocated p b)"

definition kv_view :: "block_manager \<Rightarrow> ('f::zero) block_pool \<Rightarrow> ('f list outcome \<times> 'f list outcome) list" where
  "kv_view m p = map (\<lambda>i. (manager_key m p i, manager_value m p i)) [0..<seq_len m]"

lemma table_index: "manager_inv m p \<Longrightarrow> i < seq_len m \<Longrightarrow> i div POOL_BLOCK_TOKENS < length (block_table m)"
  unfolding manager_inv_def POOL_BLOCK_TOKENS_def by linarith

lemma manager_read:
  assumes "i div POOL_BLOCK_TOKENS < length (block_table m)" "i < seq_len m"
  shows "manager_key m p i = read_key p (block_table m ! (i div POOL_BLOCK_TOKENS)) (i mod POOL_BLOCK_TOKENS)"
    "manager_value m p i = read_value p (block_table m ! (i div POOL_BLOCK_TOKENS)) (i mod POOL_BLOCK_TOKENS)"
  using assms by (simp_all add: manager_key_def manager_value_def physical_addr_def)

lemma slot_lt [simp]: "i mod POOL_BLOCK_TOKENS < POOL_BLOCK_TOKENS"
  by (simp add: POOL_BLOCK_TOKENS_def)

lemma manager_slot_allocated:
  assumes "manager_inv m p" "i < seq_len m"
  shows "allocated p (block_table m ! (i div POOL_BLOCK_TOKENS))"
  using assms table_index [OF assms] by (simp add: manager_inv_def)

text \<open>Changes to the pool that keep a manager's blocks and their contents keep its view.\<close>

lemma kv_view_frame:
  assumes "manager_inv m p" "\<forall>b\<in>set (block_table m). allocated q b"
    and "\<And>b s. b \<in> set (block_table m) \<Longrightarrow> s < POOL_BLOCK_TOKENS \<Longrightarrow>
      read_key q b s = read_key p b s \<and> read_value q b s = read_value p b s"
  shows "manager_inv m q" "kv_view m q = kv_view m p"
proof -
  show inv: "manager_inv m q" using assms(1,2) by (simp add: manager_inv_def)
  have "manager_key m q i = manager_key m p i \<and> manager_value m q i = manager_value m p i"
    if i: "i < seq_len m" for i
    using assms(3) [of "block_table m ! (i div POOL_BLOCK_TOKENS)"] table_index [OF assms(1) i]
    by (simp add: manager_read i)
  then show "kv_view m q = kv_view m p" by (simp add: kv_view_def)
qed

lemma append_write:
  fixes p :: "('f::zero) block_pool"
  assumes inv: "pool_inv p" and tab: "\<forall>b\<in>set (block_table m). allocated p b" "distinct (block_table m)"
    and len: "length (block_table m) = seq_len m div POOL_BLOCK_TOKENS + 1"
    and kv: "length k = kv_dim p" "length v = kv_dim p"
  defines "m' \<equiv> m\<lparr>seq_len := seq_len m + 1\<rparr>"
  obtains q where
    "write_token p (block_table m ! (seq_len m div POOL_BLOCK_TOKENS)) (seq_len m mod POOL_BLOCK_TOKENS) k v
       = Return q"
    "pool_inv q" "allocated q = allocated p" "kv_dim q = kv_dim p" "manager_inv m' q"
    "kv_view m' q = kv_view m p @ [(Return k, Return v)]"
    "\<And>b s. allocated p b \<Longrightarrow> b \<notin> set (block_table m) \<Longrightarrow> s < POOL_BLOCK_TOKENS \<Longrightarrow>
       read_key q b s = read_key p b s \<and> read_value q b s = read_value p b s"
proof -
  let ?n = "seq_len m"
  let ?b = "block_table m ! (?n div POOL_BLOCK_TOKENS)" and ?s = "?n mod POOL_BLOCK_TOKENS"
  have mem: "?b \<in> set (block_table m)" using len by simp
  then have "allocated p ?b" using tab(1) by blast
  from write_token_spec [OF inv this slot_lt kv] obtain q where q:
    "write_token p ?b ?s k v = Return q" "pool_inv q" "allocated q = allocated p" "kv_dim q = kv_dim p"
    "read_key q ?b ?s = Return k" "read_value q ?b ?s = Return v"
    and frame: "\<And>c t. allocated p c \<Longrightarrow> t < POOL_BLOCK_TOKENS \<Longrightarrow> (c, t) \<noteq> (?b, ?s) \<Longrightarrow>
       read_key q c t = read_key p c t \<and> read_value q c t = read_value p c t" by blast
  have minv: "manager_inv m' q"
    using tab len q(3) by (simp add: manager_inv_def m'_def POOL_BLOCK_TOKENS_def)
  have old: "manager_key m' q i = manager_key m p i \<and> manager_value m' q i = manager_value m p i"
    if i: "i < ?n" for i
  proof -
    have il: "i div POOL_BLOCK_TOKENS < length (block_table m)"
      using i len div_le_mono [of i ?n POOL_BLOCK_TOKENS] by simp
    have "(block_table m ! (i div POOL_BLOCK_TOKENS), i mod POOL_BLOCK_TOKENS) \<noteq> (?b, ?s)"
    proof
      assume eq: "(block_table m ! (i div POOL_BLOCK_TOKENS), i mod POOL_BLOCK_TOKENS) = (?b, ?s)"
      then have "i div POOL_BLOCK_TOKENS = ?n div POOL_BLOCK_TOKENS"
        using tab(2) il len by (simp add: nth_eq_iff_index_eq)
      with eq have "i = ?n" by (metis div_mult_mod_eq prod.inject)
      with i show False by simp
    qed
    then show ?thesis using frame tab(1) il i by (simp add: manager_read m'_def)
  qed
  have new: "manager_key m' q ?n = Return k \<and> manager_value m' q ?n = Return v"
    using q(5,6) len by (simp add: manager_read m'_def)
  have "kv_view m' q = map (\<lambda>i. (manager_key m' q i, manager_value m' q i)) [0..<?n] @ [(Return k, Return v)]"
    using new by (simp add: kv_view_def m'_def)
  also have "map (\<lambda>i. (manager_key m' q i, manager_value m' q i)) [0..<?n] = kv_view m p"
    using old by (simp add: kv_view_def)
  finally show thesis using that q minv frame mem by blast
qed

text \<open>
  What a successful \<open>append\<close> promises: the view grows by exactly the appended pair, newly taken
  blocks were free before, and slots of blocks outside the manager's table keep their contents.
\<close>

definition append_result ::
    "block_manager \<Rightarrow> ('f::zero) block_pool \<Rightarrow> 'f list \<Rightarrow> 'f list \<Rightarrow> block_manager \<Rightarrow> 'f block_pool \<Rightarrow> bool" where
  "append_result m p k v m' q \<longleftrightarrow>
     pool_inv q \<and> manager_inv m' q \<and> kv_dim q = kv_dim p \<and> seq_len m' = seq_len m + 1 \<and>
     kv_view m' q = kv_view m p @ [(Return k, Return v)] \<and>
     (\<forall>b. allocated q b \<longleftrightarrow> allocated p b \<or> b \<in> set (block_table m')) \<and>
     (\<forall>b\<in>set (block_table m'). b \<in> set (block_table m) \<or> \<not> allocated p b) \<and>
     set (block_table m) \<subseteq> set (block_table m') \<and>
     (\<forall>b s. allocated p b \<longrightarrow> b \<notin> set (block_table m) \<longrightarrow> s < POOL_BLOCK_TOKENS \<longrightarrow>
        read_key q b s = read_key p b s \<and> read_value q b s = read_value p b s)"

lemma started_block_open: "n mod 16 \<noteq> 0 \<Longrightarrow> (n + 15) div 16 = n div 16 + 1" for n :: nat
  using mult_div_mod_eq [of 16 n] by linarith

lemma started_block_full: "n mod 16 = 0 \<Longrightarrow> (n + 15) div 16 = n div 16" for n :: nat
  using mult_div_mod_eq [of 16 n] by linarith

lemma append_in_open_block:
  fixes p :: "('f::zero) block_pool"
  assumes inv: "pool_inv p" "manager_inv m p" and kv: "length k = kv_dim p" "length v = kv_dim p"
    and mid: "seq_len m mod POOL_BLOCK_TOKENS \<noteq> 0"
  shows "\<exists>m' q. append_token m p k v = Return (Inr (m', q)) \<and> append_result m p k v m' q"
proof -
  let ?m = "m\<lparr>seq_len := seq_len m + 1\<rparr>"
  have len: "length (block_table m) = seq_len m div POOL_BLOCK_TOKENS + 1"
    using inv(2) mid by (simp add: manager_inv_def POOL_BLOCK_TOKENS_def started_block_open)
  have tab: "\<forall>b\<in>set (block_table m). allocated p b" "distinct (block_table m)"
    using inv(2) by (simp_all add: manager_inv_def)
  show ?thesis
  proof (rule append_write [OF inv(1) tab len kv])
    fix q
    assume q: "write_token p (block_table m ! (seq_len m div POOL_BLOCK_TOKENS))
        (seq_len m mod POOL_BLOCK_TOKENS) k v = Return q" "pool_inv q" "allocated q = allocated p"
      "kv_dim q = kv_dim p" "manager_inv ?m q" "kv_view ?m q = kv_view m p @ [(Return k, Return v)]"
      "\<And>b s. allocated p b \<Longrightarrow> b \<notin> set (block_table m) \<Longrightarrow> s < POOL_BLOCK_TOKENS \<Longrightarrow>
         read_key q b s = read_key p b s \<and> read_value q b s = read_value p b s"
    have "append_token m p k v = Return (Inr (?m, q))"
      using mid len q(1) by (simp add: append_token_def Let_def)
    moreover have "\<forall>b. allocated q b \<longleftrightarrow> allocated p b \<or> b \<in> set (block_table ?m)"
      using q(3) tab(1) by auto
    then have "append_result m p k v ?m q"
      unfolding append_result_def using q(2,4-7) by simp
    ultimately show ?thesis by blast
  qed
qed

lemma kv_view_push:
  fixes p :: "('f::zero) block_pool"
  assumes inv: "pool_inv p" "manager_inv m p" and al: "allocate p = Return (Some b, q)"
  shows "kv_view (m\<lparr>block_table := vec_push (block_table m) b\<rparr>) q = kv_view m p"
proof -
  let ?m = "m\<lparr>block_table := vec_push (block_table m) b\<rparr>"
  have "manager_key ?m q i = manager_key m p i \<and> manager_value ?m q i = manager_value m p i"
    if i: "i < seq_len m" for i
    using table_index [OF inv(2) i] manager_slot_allocated [OF inv(2) i] i
      allocate_frame [OF inv(1) al]
    by (simp add: manager_read vec_push_def nth_append)
  then show ?thesis by (simp add: kv_view_def)
qed

lemma append_in_new_block:
  fixes p :: "('f::zero) block_pool"
  assumes inv: "pool_inv p" "manager_inv m p" and kv: "length k = kv_dim p" "length v = kv_dim p"
    and start: "seq_len m mod POOL_BLOCK_TOKENS = 0" and al: "allocate p = Return (Some b, p0)"
  shows "\<exists>m' q. append_token m p k v = Return (Inr (m', q)) \<and> append_result m p k v m' q"
proof -
  let ?ma = "m\<lparr>block_table := vec_push (block_table m) b\<rparr>"
  let ?m = "?ma\<lparr>seq_len := seq_len ?ma + 1\<rparr>"
  note fresh = allocate_Some [OF inv(1) al]
  note frame0 = allocate_frame [OF inv(1) al]
  have tab: "\<forall>c\<in>set (block_table ?ma). allocated p0 c" "distinct (block_table ?ma)"
    using inv(2) fresh by (auto simp: manager_inv_def vec_push_def)
  have len: "length (block_table ?ma) = seq_len ?ma div POOL_BLOCK_TOKENS + 1"
  proof -
    have "length (block_table m) = seq_len m div POOL_BLOCK_TOKENS"
      using inv(2) start by (simp add: manager_inv_def POOL_BLOCK_TOKENS_def started_block_full)
    then show ?thesis by (simp add: vec_push_def)
  qed
  have kv0: "length k = kv_dim p0" "length v = kv_dim p0" and dim: "kv_dim p0 = kv_dim p"
    using kv allocate_shape [OF inv(1) al] by simp_all
  have inv0: "pool_inv p0" using fresh by simp
  show ?thesis
  proof (rule append_write [OF inv0 tab len kv0])
    fix q
    assume q: "write_token p0 (block_table ?ma ! (seq_len ?ma div POOL_BLOCK_TOKENS))
        (seq_len ?ma mod POOL_BLOCK_TOKENS) k v = Return q" "pool_inv q" "allocated q = allocated p0"
      "kv_dim q = kv_dim p0" "manager_inv ?m q"
      "kv_view ?m q = kv_view ?ma p0 @ [(Return k, Return v)]"
      and fr: "\<And>c s. allocated p0 c \<Longrightarrow> c \<notin> set (block_table ?ma) \<Longrightarrow> s < POOL_BLOCK_TOKENS \<Longrightarrow>
         read_key q c s = read_key p0 c s \<and> read_value q c s = read_value p0 c s"
    have app: "append_token m p k v = Return (Inr (?m, q))"
      using start al len q(1) by (simp add: append_token_def Let_def)
    have old: "\<forall>c\<in>set (block_table m). allocated p c" using inv(2) by (simp add: manager_inv_def)
    have "read_key q c s = read_key p c s \<and> read_value q c s = read_value p c s"
      if "allocated p c" "c \<notin> set (block_table m)" "s < POOL_BLOCK_TOKENS" for c s
    proof -
      have "allocated p0 c" "c \<notin> set (block_table ?ma)"
        using that fresh by (auto simp: vec_push_def)
      then show ?thesis using fr that(3) frame0 that(1) by simp
    qed
    moreover have "\<forall>c. allocated q c \<longleftrightarrow> allocated p c \<or> c \<in> set (block_table ?m)"
      using q(3) fresh old by (auto simp: vec_push_def)
    moreover have "\<forall>c\<in>set (block_table ?m). c \<in> set (block_table m) \<or> \<not> allocated p c"
      using fresh by (auto simp: vec_push_def)
    moreover have "set (block_table m) \<subseteq> set (block_table ?m)" by (auto simp: vec_push_def)
    moreover have "kv_view ?m q = kv_view m p @ [(Return k, Return v)]"
      using q(6) kv_view_push [OF inv al] by simp
    ultimately have "append_result m p k v ?m q"
      unfolding append_result_def using q(2,4,5) dim by simp
    with app show ?thesis by blast
  qed
qed

lemma append_token_cases:
  fixes p :: "('f::zero) block_pool"
  assumes inv: "pool_inv p" "manager_inv m p" and kv: "length k = kv_dim p" "length v = kv_dim p"
  shows "append_token m p k v = Panic \<and> allocate p = Panic \<or>
    append_token m p k v = Return (Inl Exhausted) \<and> allocate p = Return (None, p) \<or>
    (\<exists>m' q. append_token m p k v = Return (Inr (m', q)) \<and> append_result m p k v m' q)"
proof (cases "seq_len m mod POOL_BLOCK_TOKENS = 0")
  case False
  then show ?thesis using append_in_open_block [OF inv kv] by blast
next
  case True
  show ?thesis
  proof (cases "allocate p")
    case Panic
    with True show ?thesis by (simp add: append_token_def Let_def)
  next
    case (Return rq)
    then obtain r p0 where rp: "allocate p = Return (r, p0)" by (cases rq) auto
    show ?thesis
    proof (cases r)
      case None
      with rp True allocate_None [OF inv(1)] show ?thesis by (simp add: append_token_def Let_def)
    next
      case (Some b)
      with rp append_in_new_block [OF inv kv True] show ?thesis by blast
    qed
  qed
qed

subsection \<open>Construction and accounting\<close>

lemma with_thresholds_inv:
  fixes p :: "('f::zero) block_pool"
  assumes mk: "with_thresholds kv cap t = Return p" and "kv < 2 ^ 60" "cap < 2 ^ 32"
  shows "pool_inv p" "\<not> allocated p b" "kv_dim p = kv" "capacity p = cap" "thresholds p = t"
proof -
  have u: "unat (of_nat cap :: u32) = cap" using assms(3) by (rule unat_of_nat_small)
  have bf: "POOL_BLOCK_TOKENS * kv mod 2 ^ 64 = POOL_BLOCK_TOKENS * kv"
    using assms(2) by (intro mod_less) (simp add: POOL_BLOCK_TOKENS_def)
  have pos: "kv \<noteq> 0" "cap \<noteq> 0" using mk unfolding with_thresholds_def by (cases "kv = 0"; cases "cap = 0"; simp)+
  have "with_thresholds kv cap t = (Panic :: 'f block_pool outcome)" if "\<not> (of_nat cap :: u32) \<le> NOT OVERFLOW_BIT"
    unfolding with_thresholds_def Let_def if_not_P [OF that] by (simp split: option.split)
  then have "(of_nat cap :: u32) \<le> NOT OVERFLOW_BIT" using mk by fastforce
  then have cap31: "cap < 2 ^ 31"
    using u by (simp add: overflow_bit_val word_le_nat_alt)
  have p: "p = \<lparr>kv_dim = kv, capacity = cap, block_floats = POOL_BLOCK_TOKENS * kv,
      keys = replicate (POOL_BLOCK_TOKENS * kv * cap) 0, vals = replicate (POOL_BLOCK_TOKENS * kv * cap) 0,
      free = rev (map of_nat [0..<cap]), overflow_keys = [], overflow_values = [],
      overflow_free = [], overflow_capacity = 0, thresholds = t\<rparr>"
    using mk bf u
    by (auto simp: with_thresholds_def Let_def checked_mul_def split: if_splits option.splits)
  have inj: "inj_on (of_nat :: nat \<Rightarrow> u32) {0..<cap}"
    using assms(3) by (intro inj_onI) (metis atLeastLessThan_iff order_less_trans unat_of_nat_small)
  have mem: "unat i < cap" if "i \<in> set (free p)" for i
    using that assms(3) by (auto simp: p unat_of_nat_small)
  show "pool_inv p"
    using pos cap31 inj mem by (simp add: pool_inv_def p distinct_map algebra_simps)
  show "\<not> allocated p b"
  proof
    assume "allocated p b"
    then have "\<not> is_overflow b" "index b < cap" "raw b \<notin> of_nat ` {0..<cap}"
      by (auto simp: allocated_def p split: if_splits)
    moreover have "raw b = of_nat (index b)" if "\<not> is_overflow b"
      using that by (simp add: index_primary)
    ultimately show False by auto
  qed
qed (use mk in \<open>auto simp: with_thresholds_def Let_def split: if_splits option.splits\<close>)

lemma covered_free_list:
  fixes xs :: "u32 list"
  assumes "distinct xs" "unat ` set xs = {..<n}"
  shows "length xs = n"
proof -
  have inj: "inj_on unat (set xs)" by (simp add: inj_on_def word_unat_eq_iff)
  have "length xs = card (set xs)" using assms(1) by (simp add: distinct_card)
  also have "\<dots> = card (unat ` set xs)" by (rule card_image [OF inj, symmetric])
  finally show ?thesis by (simp add: assms(2))
qed

lemma nothing_allocated:
  assumes "pool_inv p" "\<And>b. \<not> allocated p b"
  shows "free_blocks p = capacity p" "overflow_in_use p = 0"
proof -
  have mem: "of_nat i \<in> set (free p)" "unat (of_nat i :: u32) = i" if "i < capacity p" for i
  proof -
    have i: "i < 2 ^ 31" using that pool_invD(1) [OF assms(1)] by simp
    then show u: "unat (of_nat i :: u32) = i" by (intro unat_of_nat_small) simp
    show "of_nat i \<in> set (free p)" using assms(2) [of "BlockId (of_nat i)"] that i u
        primary_id [of "of_nat i"] by (simp add: allocated_def)
  qed
  have "unat ` set (free p) = {..<capacity p}"
  proof
    show "unat ` set (free p) \<subseteq> {..<capacity p}" using assms(1) by (auto simp: pool_inv_def)
    show "{..<capacity p} \<subseteq> unat ` set (free p)"
      using mem by (metis image_eqI lessThan_iff subsetI)
  qed
  then show "free_blocks p = capacity p"
    using assms(1) by (simp add: free_blocks_def covered_free_list pool_inv_def)
  have omem: "of_nat i \<in> set (overflow_free p)" "unat (of_nat i :: u32) = i"
    if "i < overflow_capacity p" for i
  proof -
    have i: "i < 2 ^ 31" using that pool_invD(2) [OF assms(1)] by simp
    then show u: "unat (of_nat i :: u32) = i" by (intro unat_of_nat_small) simp
    show "of_nat i \<in> set (overflow_free p)" using assms(2) [of "BlockId (of_nat i OR OVERFLOW_BIT)"]
        that i u overflow_id [of "of_nat i"] by (simp add: allocated_def)
  qed
  have "unat ` set (overflow_free p) = {..<overflow_capacity p}"
  proof
    show "unat ` set (overflow_free p) \<subseteq> {..<overflow_capacity p}" using assms(1) by (auto simp: pool_inv_def)
    show "{..<overflow_capacity p} \<subseteq> unat ` set (overflow_free p)"
      using omem by (metis image_eqI lessThan_iff subsetI)
  qed
  then show "overflow_in_use p = 0"
    using assms(1) by (simp add: overflow_in_use_def covered_free_list pool_inv_def)
qed

end
