(* ===== verification/KvSystem.thy ===== *)
theory KvSystem
  imports BlockPool
begin

section \<open>Requests sharing one block pool\<close>

text \<open>
  The scheduler creates one \<open>BlockManager\<close> per request over a shared \<open>BlockPool\<close>; requests
  append tokens, fail when the pool is exhausted, are reset or dropped, and the overflow slab is
  reclaimed on a timer, in any order. This theory models that as a step relation and shows that
  in every reachable state the block tables partition the allocated blocks, so requests never
  see each other's cache and dropping every request returns every block.
\<close>

record 'f kv_system =
  sys_pool :: "'f block_pool"
  managers :: "nat \<Rightarrow> block_manager option"

inductive kv_step :: "('f::zero) kv_system \<Rightarrow> 'f kv_system \<Rightarrow> bool" where
  create: "managers s r = None \<Longrightarrow>
    kv_step s (s\<lparr>managers := (managers s)(r \<mapsto> manager_new)\<rparr>)"
| append: "managers s r = Some m \<Longrightarrow> length k = kv_dim (sys_pool s) \<Longrightarrow>
    length v = kv_dim (sys_pool s) \<Longrightarrow>
    append_token m (sys_pool s) k v = Return (Inr (m', p)) \<Longrightarrow>
    kv_step s (s\<lparr>sys_pool := p, managers := (managers s)(r \<mapsto> m')\<rparr>)"
| reset: "managers s r = Some m \<Longrightarrow> release_all m (sys_pool s) = (m', p) \<Longrightarrow>
    kv_step s (s\<lparr>sys_pool := p, managers := (managers s)(r \<mapsto> m')\<rparr>)"
| drop: "managers s r = Some m \<Longrightarrow> release_all m (sys_pool s) = (m', p) \<Longrightarrow>
    kv_step s (s\<lparr>sys_pool := p, managers := (managers s)(r := None)\<rparr>)"
| shrink: "shrink_overflow_to_fit (sys_pool s) = (n, p) \<Longrightarrow> kv_step s (s\<lparr>sys_pool := p\<rparr>)"

inductive kv_reachable :: "('f::zero) kv_system \<Rightarrow> bool" where
  start: "with_thresholds kv cap t = Return p \<Longrightarrow> kv < 2 ^ 60 \<Longrightarrow> cap < 2 ^ 32 \<Longrightarrow>
    kv_reachable \<lparr>sys_pool = p, managers = Map.empty\<rparr>"
| step: "kv_reachable s \<Longrightarrow> kv_step s s' \<Longrightarrow> kv_reachable s'"

definition disjoint_tables :: "(nat \<Rightarrow> block_manager option) \<Rightarrow> bool" where
  "disjoint_tables ms \<longleftrightarrow> (\<forall>r r' m m'. ms r = Some m \<longrightarrow> ms r' = Some m' \<longrightarrow> r \<noteq> r' \<longrightarrow>
     set (block_table m) \<inter> set (block_table m') = {})"

definition sys_inv :: "('f::zero) kv_system \<Rightarrow> bool" where
  "sys_inv s \<longleftrightarrow> pool_inv (sys_pool s) \<and>
     (\<forall>r m. managers s r = Some m \<longrightarrow> manager_inv m (sys_pool s)) \<and>
     disjoint_tables (managers s) \<and>
     (\<forall>b. allocated (sys_pool s) b \<longrightarrow> (\<exists>r m. managers s r = Some m \<and> b \<in> set (block_table m)))"

lemma sys_invI:
  assumes "pool_inv (sys_pool s)"
    and "\<And>r m. managers s r = Some m \<Longrightarrow> manager_inv m (sys_pool s)"
    and "disjoint_tables (managers s)"
    and "\<And>b. allocated (sys_pool s) b \<Longrightarrow> \<exists>r m. managers s r = Some m \<and> b \<in> set (block_table m)"
  shows "sys_inv s"
  using assms by (simp add: sys_inv_def)

lemma sys_invD:
  assumes "sys_inv s"
  shows "pool_inv (sys_pool s)" "managers s r = Some m \<Longrightarrow> manager_inv m (sys_pool s)"
    "disjoint_tables (managers s)"
    "allocated (sys_pool s) b \<Longrightarrow> \<exists>r m. managers s r = Some m \<and> b \<in> set (block_table m)"
  using assms by (simp_all add: sys_inv_def)

lemma manager_tables_disjoint:
  "disjoint_tables ms \<Longrightarrow> ms r = Some m \<Longrightarrow> ms r' = Some m' \<Longrightarrow> r \<noteq> r' \<Longrightarrow>
    b \<in> set (block_table m) \<Longrightarrow> b \<notin> set (block_table m')"
  unfolding disjoint_tables_def by blast

lemma manager_new_inv: "manager_inv manager_new p"
  by (simp add: manager_inv_def manager_new_def POOL_BLOCK_TOKENS_def)

text \<open>A request's append leaves every other request's table, well-formedness and view alone.\<close>

lemma append_others:
  assumes inv: "sys_inv s" and ms: "managers s r = Some m" "managers s r' = Some n" "r \<noteq> r'"
    and res: "append_result m (sys_pool s) k v m' q"
  shows "manager_inv n q" "kv_view n q = kv_view n (sys_pool s)"
    "set (block_table m') \<inter> set (block_table n) = {}"
proof -
  have n: "manager_inv n (sys_pool s)" using inv ms(2) by (rule sys_invD)
  then have al: "\<forall>b\<in>set (block_table n). allocated (sys_pool s) b" by (simp add: manager_inv_def)
  have dis: "b \<notin> set (block_table m)" if "b \<in> set (block_table n)" for b
    using manager_tables_disjoint [OF sys_invD(3) [OF inv] ms(2,1)] ms(3) that by blast
  have q: "\<forall>b\<in>set (block_table n). allocated q b" using al res by (auto simp: append_result_def)
  have "read_key q b t = read_key (sys_pool s) b t \<and> read_value q b t = read_value (sys_pool s) b t"
    if "b \<in> set (block_table n)" "t < POOL_BLOCK_TOKENS" for b t
    using that al dis res by (auto simp: append_result_def)
  from kv_view_frame [OF n q this] show "manager_inv n q" "kv_view n q = kv_view n (sys_pool s)"
    by blast+
  show "set (block_table m') \<inter> set (block_table n) = {}"
    using al dis res by (auto simp: append_result_def)
qed

lemma append_success:
  assumes inv: "sys_inv s" "managers s r = Some m"
    and kv: "length k = kv_dim (sys_pool s)" "length v = kv_dim (sys_pool s)"
    and app: "append_token m (sys_pool s) k v = Return (Inr (m', q))"
  shows "append_result m (sys_pool s) k v m' q"
  using append_token_cases [OF sys_invD(1) [OF inv(1)] sys_invD(2) [OF inv] kv] app by auto

lemma append_sys_inv:
  assumes inv: "sys_inv s" and m: "managers s r = Some m"
    and res: "append_result m (sys_pool s) k v m' q"
  shows "sys_inv (s\<lparr>sys_pool := q, managers := (managers s)(r \<mapsto> m')\<rparr>)"
proof (rule sys_invI)
  let ?s = "s\<lparr>sys_pool := q, managers := (managers s)(r \<mapsto> m')\<rparr>"
  show "pool_inv (sys_pool ?s)" using res by (simp add: append_result_def)
  show "manager_inv n (sys_pool ?s)" if "managers ?s r' = Some n" for r' n
    using that append_others(1) [OF inv m _ _ res, of r' n] res
    by (cases "r' = r") (auto simp: append_result_def)
  have cross: "set (block_table m') \<inter> set (block_table n) = {}"
    if "managers s r' = Some n" "r \<noteq> r'" for r' n
    using append_others(3) [OF inv m that res] .
  then show "disjoint_tables (managers ?s)"
    using sys_invD(3) [OF inv] unfolding disjoint_tables_def by (auto split: if_splits)
  show "\<exists>r' n. managers ?s r' = Some n \<and> b \<in> set (block_table n)" if "allocated (sys_pool ?s) b" for b
  proof (cases "b \<in> set (block_table m')")
    case True then show ?thesis by (auto intro: exI [of _ r])
  next
    case False
    with that res have "allocated (sys_pool s) b" by (auto simp: append_result_def)
    then obtain r' n where rn: "managers s r' = Some n" "b \<in> set (block_table n)"
      using sys_invD(4) [OF inv] by blast
    with m False res have "r' \<noteq> r" by (auto simp: append_result_def)
    with rn show ?thesis by (auto intro!: exI [of _ r'])
  qed
qed

text \<open>Releasing a request's table: the other requests keep their blocks and views.\<close>

lemma release_all_facts:
  assumes inv: "sys_inv s" and m: "managers s r = Some m"
    and rel: "release_all m (sys_pool s) = (m', q)"
  shows "pool_inv q" "\<And>b. allocated q b \<longleftrightarrow> allocated (sys_pool s) b \<and> b \<notin> set (block_table m)"
    "m' = m\<lparr>block_table := [], seq_len := 0\<rparr>"
    "managers s r' = Some n \<Longrightarrow> r' \<noteq> r \<Longrightarrow> manager_inv n q \<and> kv_view n q = kv_view n (sys_pool s)"
proof -
  have q: "q = fold (\<lambda>b p. release p b) (block_table m) (sys_pool s)"
    and m': "m' = m\<lparr>block_table := [], seq_len := 0\<rparr>"
    using rel by (simp_all add: release_all_def)
  have mi: "manager_inv m (sys_pool s)" using inv m by (rule sys_invD)
  note all = pool.rel_all_owned [OF sys_invD(1) [OF inv], of "block_table m", folded q]
  show "pool_inv q" and own: "\<And>b. allocated q b \<longleftrightarrow> allocated (sys_pool s) b \<and> b \<notin> set (block_table m)"
    using all mi by (auto simp: manager_inv_def)
  show "m' = m\<lparr>block_table := [], seq_len := 0\<rparr>" by (fact m')
  assume n: "managers s r' = Some n" "r' \<noteq> r"
  have ni: "manager_inv n (sys_pool s)" using inv n(1) by (rule sys_invD)
  have "\<forall>b\<in>set (block_table n). allocated q b"
    using ni own manager_tables_disjoint [OF sys_invD(3) [OF inv] n(1) m n(2)]
    by (auto simp: manager_inv_def)
  moreover have "read_key q b t = read_key (sys_pool s) b t \<and> read_value q b t = read_value (sys_pool s) b t"
    for b t using pool.rel_all_frame [of "block_table m" "sys_pool s" b t] by (simp add: q)
  ultimately show "manager_inv n q \<and> kv_view n q = kv_view n (sys_pool s)"
    using kv_view_frame [OF ni] by blast
qed

lemma release_sys_inv:
  assumes inv: "sys_inv s" and m: "managers s r = Some m"
    and rel: "release_all m (sys_pool s) = (m', q)" and o: "x = None \<or> x = Some m'"
  shows "sys_inv (s\<lparr>sys_pool := q, managers := (managers s)(r := x)\<rparr>)"
proof (rule sys_invI)
  let ?s = "s\<lparr>sys_pool := q, managers := (managers s)(r := x)\<rparr>"
  note rf = release_all_facts [OF inv m rel]
  show "pool_inv (sys_pool ?s)" using rf(1) by simp
  have "manager_inv m' q" by (simp add: rf(3) manager_inv_def POOL_BLOCK_TOKENS_def)
  then show "manager_inv n (sys_pool ?s)" if "managers ?s r' = Some n" for r' n
    using that o rf(4) [of r' n] by (cases "r' = r") auto
  have "block_table m' = []" by (simp add: rf(3))
  then show "disjoint_tables (managers ?s)"
    using sys_invD(3) [OF inv] o unfolding disjoint_tables_def by (auto split: if_splits)
  show "\<exists>r' n. managers ?s r' = Some n \<and> b \<in> set (block_table n)" if "allocated (sys_pool ?s) b" for b
  proof -
    have b: "allocated (sys_pool s) b" "b \<notin> set (block_table m)" using that rf(2) by auto
    then obtain r' n where "managers s r' = Some n" "b \<in> set (block_table n)"
      using sys_invD(4) [OF inv] by blast
    with b(2) m show ?thesis by (intro exI [of _ r'] exI [of _ n]) auto
  qed
qed

lemma shrink_sys_inv:
  assumes inv: "sys_inv s" and sh: "shrink_overflow_to_fit (sys_pool s) = (n, q)"
  shows "sys_inv (s\<lparr>sys_pool := q\<rparr>)"
  using inv shrink_spec [OF sys_invD(1) [OF inv] sh]
  by (auto simp: sys_inv_def manager_inv_def)

lemma create_sys_inv:
  assumes inv: "sys_inv s" and free_slot: "managers s r = None"
  shows "sys_inv (s\<lparr>managers := (managers s)(r \<mapsto> manager_new)\<rparr>)"
proof (rule sys_invI)
  let ?s = "s\<lparr>managers := (managers s)(r \<mapsto> manager_new)\<rparr>"
  show "pool_inv (sys_pool ?s)" using sys_invD(1) [OF inv] by simp
  show "manager_inv n (sys_pool ?s)" if "managers ?s r' = Some n" for r' n
    using that sys_invD(2) [OF inv] manager_new_inv by (cases "r' = r") auto
  show "disjoint_tables (managers ?s)"
    using sys_invD(3) [OF inv] unfolding disjoint_tables_def
    by (auto simp: manager_new_def split: if_splits)
  show "\<exists>r' n. managers ?s r' = Some n \<and> b \<in> set (block_table n)" if al: "allocated (sys_pool ?s) b" for b
  proof -
    obtain r' n where "managers s r' = Some n" "b \<in> set (block_table n)"
      using sys_invD(4) [OF inv, of b] al by auto
    with free_slot show ?thesis by (intro exI [of _ r'] exI [of _ n]) auto
  qed
qed

lemma kv_step_sys_inv: "kv_step s s' \<Longrightarrow> sys_inv s \<Longrightarrow> sys_inv s'"
proof (induction rule: kv_step.induct)
  case (append s r m k v m' p)
  then show ?case using append_success append_sys_inv by blast
next
  case (reset s r m m' p)
  then show ?case using release_sys_inv [of s r m m' p "Some m'"] by simp
next
  case (drop s r m m' p)
  then show ?case using release_sys_inv [of s r m m' p None] by simp
qed (auto intro: create_sys_inv shrink_sys_inv)

lemma reachable_sys_inv: "kv_reachable s \<Longrightarrow> sys_inv s"
proof (induction rule: kv_reachable.induct)
  case (start kv cap t p)
  then show ?case using with_thresholds_inv [OF start]
    by (auto simp: sys_inv_def disjoint_tables_def)
next
  case (step s s')
  then show ?case using kv_step_sys_inv by blast
qed

subsection \<open>Pressure\<close>

fun level_rank :: "pressure_level \<Rightarrow> nat" where
  "level_rank Normal = 0" | "level_rank High = 1" | "level_rank Critical = 2"

lemma usize_to_f32_Fin:
  assumes "n \<le> 2 ^ 64"
  obtains r where "usize_to_f32 n = F32_Fin r" "0 \<le> r" "n \<noteq> 0 \<Longrightarrow> 0 < r"
proof (cases "n = 0")
  case True
  then show thesis using that [of 0] by (simp add: usize_to_f32_def f32_round_def)
next
  case False
  have one: "f32_round_pos 1 = 1" using f32_round_pos_exact [of 1] by simp
  have ge: "1 \<le> f32_round_pos (of_nat n)"
    using f32_round_pos_mono [of 1 "of_nat n"] False by (simp add: one)
  have pow: "f32_round_pos (2 ^ 64) \<le> 2 ^ 64"
    using f32_round_pos_le_pow2 [of "2 ^ 64" 64] ilog2_bounds [of "2 ^ 64"]
      powi2_less_iff [of "ilog2 (2 ^ 64)" 65]
    by (simp add: f32_ulp_exp_def power_int_def)
  have "(of_nat n :: rat) \<le> 2 ^ 64" using assms by (simp flip: of_nat_le_iff)
  then have "f32_round_pos (of_nat n) \<le> 2 ^ 64"
    using f32_round_pos_mono [of "of_nat n" "2 ^ 64"] False pow by simp
  then have "f32_round_pos (of_nat n) < 2 powi 128" by (simp add: power_int_def)
  then show thesis using that [of "f32_round_pos (of_nat n)"] False ge
    by (simp add: usize_to_f32_def f32_round_def Let_def sgn_if)
qed

lemma usize_to_f32_mono: "m \<le> n \<Longrightarrow> f32_le (usize_to_f32 m) (usize_to_f32 n)"
  unfolding usize_to_f32_def by (rule f32_round_mono) simp_all

definition blocks_in_use :: "'f block_pool \<Rightarrow> nat" where
  "blocks_in_use p = (capacity p - free_blocks p) + overflow_in_use p"

lemma utilization_mono:
  assumes "capacity p = capacity q" "blocks_in_use p \<le> blocks_in_use q"
    "blocks_in_use q \<le> 2 ^ 64" "capacity q \<le> 2 ^ 64"
  shows "f32_le (utilization p) (utilization q)"
proof (cases "capacity q = 0")
  case False
  obtain a where a: "usize_to_f32 (blocks_in_use p) = F32_Fin a" "0 \<le> a"
    using usize_to_f32_Fin [of "blocks_in_use p"] assms by auto
  obtain b where b: "usize_to_f32 (blocks_in_use q) = F32_Fin b"
    using usize_to_f32_Fin [of "blocks_in_use q"] assms by auto
  obtain c where c: "usize_to_f32 (capacity q) = F32_Fin c" "0 < c"
    using usize_to_f32_Fin [of "capacity q"] assms False by auto
  have "a \<le> b" using usize_to_f32_mono [OF assms(2)] a b by simp
  then have "f32_le (f32_round (a / c)) (f32_round (b / c))"
    using a c by (intro f32_round_mono) (auto simp: divide_right_mono)
  then show ?thesis
    using a b c False assms(1)
    by (simp add: utilization_def blocks_in_use_def free_blocks_def overflow_in_use_def Let_def)
qed (use assms in \<open>simp add: utilization_def\<close>)

lemma f32_le_total_ranks:
  assumes "f32_le u u'"
  shows "level_rank (if f32_le c u then Critical else if f32_le h u then High else Normal)
    \<le> level_rank (if f32_le c u' then Critical else if f32_le h u' then High else Normal)"
  using assms f32_le_trans [of c u u'] f32_le_trans [of h u u'] by auto

lemma blocks_in_use_bound: "pool_inv p \<Longrightarrow> blocks_in_use p \<le> 2 ^ 64 \<and> capacity p \<le> 2 ^ 64"
  using pool_invD(1,2) [of p] by (auto simp: blocks_in_use_def overflow_in_use_def)

subsection \<open>Example states\<close>

text \<open>A pool of one primary block and two requests, used to instantiate the theorems.\<close>

definition demo_thresholds :: pressure_thresholds where
  "demo_thresholds = \<lparr>high = F32_Fin (1 / 2), critical = F32_Fin 1, max_overflow_capacity = Some 1\<rparr>"

definition demo_pool :: "int block_pool" where
  "demo_pool = \<lparr>kv_dim = 1, capacity = 1, block_floats = 16, keys = replicate 16 0,
     vals = replicate 16 0, free = [0], overflow_keys = [], overflow_values = [],
     overflow_free = [], overflow_capacity = 0, thresholds = demo_thresholds\<rparr>"

lemma demo_pool_ok: "with_thresholds 1 1 demo_thresholds = Return demo_pool"
  by (simp add: with_thresholds_def demo_pool_def POOL_BLOCK_TOKENS_def checked_mul_def
      usize_MAX_def not_overflow_bit)

definition demo_system :: "int kv_system" where
  "demo_system = \<lparr>sys_pool = demo_pool, managers = Map.empty(0 \<mapsto> manager_new, 1 \<mapsto> manager_new)\<rparr>"

lemma demo_reachable: "kv_reachable demo_system"
proof -
  let ?a = "\<lparr>sys_pool = demo_pool, managers = Map.empty\<rparr>"
  let ?b = "?a\<lparr>managers := (managers ?a)(0 \<mapsto> manager_new)\<rparr>"
  have "kv_reachable ?a" by (rule kv_reachable.start [OF demo_pool_ok]) simp_all
  then have "kv_reachable ?b"
    by (rule kv_reachable.step) (rule kv_step.create, simp)
  then have "kv_reachable (?b\<lparr>managers := (managers ?b)(1 \<mapsto> manager_new)\<rparr>)"
    by (rule kv_reachable.step) (rule kv_step.create, simp)
  then show ?thesis by (simp add: demo_system_def)
qed

lemma demo_inv: "pool_inv demo_pool"
  using with_thresholds_inv(1) [OF demo_pool_ok] by simp

definition demo_step :: "block_manager \<times> int block_pool" where
  "demo_step = (\<lparr>block_table = [BlockId 0], seq_len = 1\<rparr>,
     demo_pool\<lparr>free := [], keys := 7 # replicate 15 0, vals := 8 # replicate 15 0\<rparr>)"

lemma demo_step_ok: "append_token manager_new demo_pool [7] [8] = Return (Inr demo_step)"
  by (simp add: append_token_def manager_new_def demo_pool_def POOL_BLOCK_TOKENS_def allocate_def
      vec_pop_def vec_push_def demo_step_def write_token_def copy_into_def is_overflow_def
      subslice_write_def block_off_def index_def Let_def)

subsection \<open>Properties\<close>

text \<open>C1: in every reachable state of the shared pool, a successful append extends the request's
  own key/value sequence by exactly the appended pair and leaves the sequence of every other
  request unchanged.\<close>

theorem kv_append_isolated:
  assumes "kv_reachable s" "managers s r = Some m" "managers s r' = Some n" "r \<noteq> r'"
    and "length k = kv_dim (sys_pool s)" "length v = kv_dim (sys_pool s)"
    and "append_token m (sys_pool s) k v = Return (Inr (m', q))"
  shows "kv_view m' q = kv_view m (sys_pool s) @ [(Return k, Return v)] \<and>
    kv_view n q = kv_view n (sys_pool s)"
proof -
  have inv: "sys_inv s" using assms(1) by (rule reachable_sys_inv)
  have res: "append_result m (sys_pool s) k v m' q"
    using append_success [OF inv assms(2,5,6,7)] .
  with append_others(2) [OF inv assms(2,3,4) res] show ?thesis by (simp add: append_result_def)
qed

theorem kv_append_isolated_witness:
  "kv_reachable demo_system \<and>
   kv_view (fst demo_step) (snd demo_step) = kv_view manager_new demo_pool @ [(Return [7], Return [8])] \<and>
   kv_view manager_new (snd demo_step) = kv_view manager_new demo_pool"
proof -
  have "kv_dim demo_pool = 1" by (simp add: demo_pool_def)
  then have "kv_view (fst demo_step) (snd demo_step) =
      kv_view manager_new (sys_pool demo_system) @ [(Return [7], Return [8])] \<and>
    kv_view manager_new (snd demo_step) = kv_view manager_new (sys_pool demo_system)"
    using demo_step_ok
    by (intro kv_append_isolated [OF demo_reachable, of 0 manager_new 1 manager_new])
      (simp_all add: demo_system_def)
  then show ?thesis using demo_reachable by (simp add: demo_system_def)
qed

text \<open>C19: in every reachable state each allocated block belongs to exactly one request's block
  table, and once no request is alive every primary block is free and no overflow block is in
  use.\<close>

theorem kv_blocks_owned_once:
  assumes "kv_reachable s"
  shows "(allocated (sys_pool s) b \<longleftrightarrow>
      (\<exists>!r. \<exists>m. managers s r = Some m \<and> b \<in> set (block_table m))) \<and>
    (managers s = Map.empty \<longrightarrow>
      free_blocks (sys_pool s) = capacity (sys_pool s) \<and> overflow_in_use (sys_pool s) = 0)"
proof -
  have inv: "sys_inv s" using assms by (rule reachable_sys_inv)
  have "\<exists>!r. \<exists>m. managers s r = Some m \<and> b \<in> set (block_table m)" if "allocated (sys_pool s) b"
    using sys_invD(4) [OF inv that] manager_tables_disjoint [OF sys_invD(3) [OF inv]] by blast
  moreover have "allocated (sys_pool s) b" if "managers s r = Some m" "b \<in> set (block_table m)" for r m
    using sys_invD(2) [OF inv that(1)] that(2) by (simp add: manager_inv_def)
  moreover have "free_blocks (sys_pool s) = capacity (sys_pool s) \<and> overflow_in_use (sys_pool s) = 0"
    if "managers s = Map.empty"
    using nothing_allocated [OF sys_invD(1) [OF inv]] sys_invD(4) [OF inv] that by auto
  ultimately show ?thesis by blast
qed

theorem kv_blocks_owned_once_witness:
  "kv_reachable demo_system \<and> (allocated demo_pool (BlockId 0) \<longleftrightarrow>
     (\<exists>!r. \<exists>m. managers demo_system r = Some m \<and> BlockId 0 \<in> set (block_table m)))"
  using kv_blocks_owned_once [OF demo_reachable, of "BlockId 0"] demo_reachable
  by (simp add: demo_system_def)

text \<open>In a reachable state an append of vectors of the right width never goes wrong in any
  other way than the two the code names: it reports exhaustion exactly when the append needs a
  block, both free lists are empty and the configured overflow cap is reached, and it panics
  exactly when the 31-bit overflow index space is used up.\<close>

theorem kv_append_outcomes:
  assumes "kv_reachable s" "managers s r = Some m"
    and "length k = kv_dim (sys_pool s)" "length v = kv_dim (sys_pool s)"
  defines "p \<equiv> sys_pool s"
  defines "dry \<equiv> seq_len m mod POOL_BLOCK_TOKENS = 0 \<and> free p = [] \<and> overflow_free p = []"
  shows "(append_token m p k v = Return (Inl Exhausted) \<longleftrightarrow>
      dry \<and> max_overflow_capacity (thresholds p) = Some (overflow_capacity p)) \<and>
    (append_token m p k v = Panic \<longleftrightarrow>
      dry \<and> max_overflow_capacity (thresholds p) \<noteq> Some (overflow_capacity p) \<and>
      overflow_capacity p = 2 ^ 31)"
proof -
  have inv: "pool_inv p" "manager_inv m p"
    using sys_invD(1,2) [OF reachable_sys_inv [OF assms(1)]] assms(2) by (simp_all add: p_def)
  note kv = assms(3,4) [folded p_def]
  note ac = append_token_cases [OF inv kv]
  show ?thesis
  proof (cases "seq_len m mod POOL_BLOCK_TOKENS = 0")
    case False
    then show ?thesis using append_in_open_block [OF inv kv] by (auto simp: dry_def)
  next
    case True
    show ?thesis
    proof (cases rule: allocate_cases [OF inv(1)])
      case (1 i rest)
      then show ?thesis
        using append_in_new_block [OF inv kv True allocate_primary(1) [OF inv(1) 1]]
        by (auto simp: dry_def)
    next
      case (2 i rest)
      then show ?thesis
        using append_in_new_block [OF inv kv True allocate_recycled(1) [OF inv(1) 2]]
        by (auto simp: dry_def)
    next
      case (3 x)
      then show ?thesis using True by (simp add: dry_def append_token_def Let_def)
    next
      case 4
      then show ?thesis
        using append_in_new_block [OF inv kv True allocate_grow(1) [OF inv(1) 4]]
        by (auto simp: dry_def)
    next
      case 5
      then have "max_overflow_capacity (thresholds p) \<noteq> Some (overflow_capacity p)"
        by (auto simp: allocate_def)
      with 5 True show ?thesis by (simp add: dry_def append_token_def Let_def)
    qed
  qed
qed

theorem kv_append_outcomes_witness:
  "kv_reachable demo_system \<and> append_token manager_new demo_pool [7] [8] \<noteq> Return (Inl Exhausted) \<and>
   append_token manager_new demo_pool [7] [8] \<noteq> Panic"
proof -
  have "kv_dim demo_pool = 1" "free demo_pool \<noteq> []" by (simp_all add: demo_pool_def)
  then show ?thesis
    using kv_append_outcomes [OF demo_reachable, of 0 manager_new "[7]" "[8]"] demo_reachable
    by (simp add: demo_system_def)
qed

text \<open>Memory pressure is monotone: of two well-formed pools with the same capacity and
  thresholds, the one with more blocks in use never reports a lower pressure level, single-precision
  rounding included; and thresholds accepted by \<open>try_new\<close> make \<open>above_soft_cap\<close> the same as a
  level other than Normal.\<close>

theorem pressure_monotone:
  assumes "pool_inv p" "pool_inv q" "capacity p = capacity q" "thresholds p = thresholds q"
    and "blocks_in_use p \<le> blocks_in_use q"
    and "thresholds_try_new h c = Inr t" "thresholds p = with_max_overflow_capacity t x"
  shows "level_rank (pressure_level p) \<le> level_rank (pressure_level q) \<and>
    (above_soft_cap p \<longleftrightarrow> pressure_level p \<noteq> Normal)"
proof -
  have mono: "f32_le (utilization p) (utilization q)"
    using utilization_mono assms(3,5) blocks_in_use_bound [OF assms(2)] by blast
  have t: "high (thresholds p) = h" "critical (thresholds p) = c" "\<not> f32_lt c h"
    "f32_le h (F32_Fin 1)" "f32_le c (F32_Fin 1)" "f32_lt (F32_Fin 0) h" "f32_lt (F32_Fin 0) c"
    using assms(6,7)
    by (auto simp: thresholds_try_new_def with_max_overflow_capacity_def split: if_splits)
  have "f32_le h c" using t(3-7) by (cases h; cases c) (auto simp: f32_lt_def)
  then have "f32_le c (utilization p) \<Longrightarrow> f32_le h (utilization p)" by (rule f32_le_trans)
  then have "above_soft_cap p \<longleftrightarrow> pressure_level p \<noteq> Normal"
    by (auto simp: above_soft_cap_def pressure_level_def Let_def t)
  moreover have "level_rank (pressure_level p) \<le> level_rank (pressure_level q)"
    using f32_le_total_ranks [OF mono] by (simp only: pressure_level_def Let_def assms(4))
  ultimately show ?thesis by blast
qed

theorem pressure_monotone_witness:
  "level_rank (pressure_level demo_pool) \<le> level_rank (pressure_level (snd demo_step)) \<and>
   (above_soft_cap demo_pool \<longleftrightarrow> pressure_level demo_pool \<noteq> Normal)"
proof (rule pressure_monotone)
  show "pool_inv demo_pool" by (rule demo_inv)
  have "append_result manager_new demo_pool [7] [8] (fst demo_step) (snd demo_step)"
    using append_success [OF reachable_sys_inv [OF demo_reachable], of 0 manager_new "[7]" "[8]"]
      demo_step_ok with_thresholds_inv(3) [OF demo_pool_ok] by (simp add: demo_system_def)
  then show "pool_inv (snd demo_step)" by (simp add: append_result_def)
  show "capacity demo_pool = capacity (snd demo_step)" "thresholds demo_pool = thresholds (snd demo_step)"
    by (simp_all add: demo_step_def)
  show "blocks_in_use demo_pool \<le> blocks_in_use (snd demo_step)"
    by (simp add: demo_step_def demo_pool_def blocks_in_use_def free_blocks_def overflow_in_use_def)
  show "thresholds_try_new (F32_Fin (1 / 2)) (F32_Fin 1) =
      Inr \<lparr>high = F32_Fin (1 / 2), critical = F32_Fin 1, max_overflow_capacity = None\<rparr>"
    by (simp add: thresholds_try_new_def f32_lt_def)
  show "thresholds demo_pool = with_max_overflow_capacity
      \<lparr>high = F32_Fin (1 / 2), critical = F32_Fin 1, max_overflow_capacity = None\<rparr> (Some 1)"
    by (simp add: demo_pool_def demo_thresholds_def with_max_overflow_capacity_def)
qed

end
