(* ===== verification/TensorHeader.thy ===== *)
theory TensorHeader
  imports WeightTypes
begin

section \<open>The unified tensor header\<close>

text \<open>
  Model of \<open>tensor_header.rs\<close>: the 64-byte header (magic \<open>UTH1\<close>) of a homogeneous expert
  blob and the 128-byte header (magic \<open>UTH2\<close>) of an expert whose three projections have
  their own dtypes and byte ranges. \<open>to_bytes\<close> fills a zeroed buffer by slice copies as the
  code does; \<open>probe\<close> and \<open>strip\<close> read it back. The lemmas give both directions of the round
  trip, and characterise the range validation that every UTH2 blob passes before a projection
  is sliced out of it.
\<close>

unbundle bit_operations_syntax

definition UTH_MAGIC :: "u8 list" where "UTH_MAGIC = [85, 84, 72, 49]"
definition UTH2_MAGIC :: "u8 list" where "UTH2_MAGIC = [85, 84, 72, 50]"
definition UTH_BYTES :: usize where "UTH_BYTES = 64"
definition UTH_VERSION :: u16 where "UTH_VERSION = 1"
definition UTH2_VERSION :: u16 where "UTH2_VERSION = 2"
definition UTH2_BYTES :: usize where "UTH2_BYTES = 128"
definition UTH_FLAG_PAGE_ALIGNED_PAYLOAD :: u32 where "UTH_FLAG_PAGE_ALIGNED_PAYLOAD = 1"
definition UTH_MAX_RANK :: usize where "UTH_MAX_RANK = 4"

lemmas uth_consts = UTH_MAGIC_def UTH2_MAGIC_def UTH_BYTES_def UTH2_BYTES_def UTH_MAX_RANK_def

datatype uth_dtype_id = IdF32 | IdF16 | IdInt8 | IdQ4K | IdQ4_0 | IdQ8_0 | IdBF16 | IdMXFP4
  | IdQ5K | IdQ6K | IdMixed

fun from_weight :: "weight_dtype \<Rightarrow> uth_dtype_id" where
  "from_weight F32 = IdF32"
| "from_weight F16 = IdF16"
| "from_weight Int8 = IdInt8"
| "from_weight Q4K = IdQ4K"
| "from_weight Q4_0 = IdQ4_0"
| "from_weight Q8_0 = IdQ8_0"
| "from_weight BF16 = IdBF16"
| "from_weight MXFP4 = IdMXFP4"
| "from_weight Q5K = IdQ5K"
| "from_weight Q6K = IdQ6K"
| "from_weight Mixed = IdMixed"

fun to_weight :: "uth_dtype_id \<Rightarrow> weight_dtype" where
  "to_weight IdF32 = F32"
| "to_weight IdF16 = F16"
| "to_weight IdInt8 = Int8"
| "to_weight IdQ4K = Q4K"
| "to_weight IdQ4_0 = Q4_0"
| "to_weight IdQ8_0 = Q8_0"
| "to_weight IdBF16 = BF16"
| "to_weight IdMXFP4 = MXFP4"
| "to_weight IdQ5K = Q5K"
| "to_weight IdQ6K = Q6K"
| "to_weight IdMixed = Mixed"

text \<open>\<open>dtype as u8\<close>: the discriminants of the \<open>repr(u8)\<close> enum.\<close>

fun dtype_as_u8 :: "uth_dtype_id \<Rightarrow> u8" where
  "dtype_as_u8 IdF32 = 0"
| "dtype_as_u8 IdF16 = 1"
| "dtype_as_u8 IdInt8 = 2"
| "dtype_as_u8 IdQ4K = 3"
| "dtype_as_u8 IdQ4_0 = 4"
| "dtype_as_u8 IdQ8_0 = 5"
| "dtype_as_u8 IdBF16 = 6"
| "dtype_as_u8 IdMXFP4 = 7"
| "dtype_as_u8 IdQ5K = 8"
| "dtype_as_u8 IdQ6K = 9"
| "dtype_as_u8 IdMixed = 10"

definition from_u8 :: "u8 \<Rightarrow> uth_dtype_id option" where
  "from_u8 b = (if b = 0 then Some IdF32 else if b = 1 then Some IdF16
     else if b = 2 then Some IdInt8 else if b = 3 then Some IdQ4K
     else if b = 4 then Some IdQ4_0 else if b = 5 then Some IdQ8_0
     else if b = 6 then Some IdBF16 else if b = 7 then Some IdMXFP4
     else if b = 8 then Some IdQ5K else if b = 9 then Some IdQ6K
     else if b = 10 then Some IdMixed else None)"

record projection_range =
  pr_dtype :: uth_dtype_id
  pr_offset :: u64
  pr_len :: u64
  pr_weights :: u32

definition range_end :: "projection_range \<Rightarrow> u64 option" where
  "range_end r = checked_add_u64 (pr_offset r) (pr_len r)"

record mixed_expert_header =
  mx_version :: u16
  mx_d_model :: u32
  mx_d_ff :: u32
  mx_flags :: u32
  mx_gate :: projection_range
  mx_up :: projection_range
  mx_down :: projection_range

definition mixed_new ::
    "usize \<Rightarrow> usize \<Rightarrow> projection_range \<Rightarrow> projection_range \<Rightarrow> projection_range \<Rightarrow> mixed_expert_header" where
  "mixed_new d_model d_ff gate up down =
     \<lparr>mx_version = UTH2_VERSION, mx_d_model = of_nat d_model, mx_d_ff = of_nat d_ff,
      mx_flags = UTH_FLAG_PAGE_ALIGNED_PAYLOAD, mx_gate = gate, mx_up = up, mx_down = down\<rparr>"

datatype projection_name = Gate | Up | Down

datatype uth2_error =
    UnsupportedVersion u16
  | ZeroDims
  | MixedDtype projection_name
  | ZeroLength projection_name
  | RangeOverflow projection_name
  | ExceedsPayload projection_name u64 u64 u64
  | RangesOverlap projection_name projection_name

definition named_ranges :: "mixed_expert_header \<Rightarrow> (projection_name \<times> projection_range) list" where
  "named_ranges h = [(Gate, mx_gate h), (Up, mx_up h), (Down, mx_down h)]"

fun check_ranges :: "u64 \<Rightarrow> (projection_name \<times> projection_range) list \<Rightarrow> uth2_error option" where
  "check_ranges payload_len [] = None"
| "check_ranges payload_len ((name, r) # rs) =
     (if pr_dtype r = IdMixed then Some (MixedDtype name)
      else if pr_len r = 0 then Some (ZeroLength name)
      else case range_end r of
        None \<Rightarrow> Some (RangeOverflow name)
      | Some e \<Rightarrow> if e > payload_len then Some (ExceedsPayload name (pr_offset r) e payload_len)
          else check_ranges payload_len rs)"

fun check_windows :: "(projection_name \<times> u64 \<times> u64) list \<Rightarrow> uth2_error option" where
  "check_windows ((left_name, _, left_end) # (right_name, right_start, right_end) # rest) =
     (if left_end > right_start then Some (RangesOverlap left_name right_name)
      else check_windows ((right_name, right_start, right_end) # rest))"
| "check_windows _ = None"

definition unwrap_end :: "projection_range \<Rightarrow> u64" where
  "unwrap_end r = (case range_end r of Some e \<Rightarrow> e | None \<Rightarrow> - 1)"

definition validate :: "mixed_expert_header \<Rightarrow> u64 \<Rightarrow> uth2_error + unit" where
  "validate h payload_len =
     (if mx_version h \<noteq> UTH2_VERSION then Inl (UnsupportedVersion (mx_version h))
      else if mx_d_model h = 0 \<or> mx_d_ff h = 0 then Inl ZeroDims
      else case check_ranges payload_len (named_ranges h) of
        Some e \<Rightarrow> Inl e
      | None \<Rightarrow>
          (case check_windows (sort_key (\<lambda>(_, start, _). start)
             (map (\<lambda>(n, r). (n, pr_offset r, unwrap_end r)) (named_ranges h))) of
             Some e \<Rightarrow> Inl e
           | None \<Rightarrow> Inr ()))"

definition put_projection :: "u8 list \<Rightarrow> nat \<Rightarrow> u8 \<Rightarrow> projection_range \<Rightarrow> u8 list" where
  "put_projection buf i role p =
     (let off = 24 + i * 24;
          buf = subslice_write buf off [dtype_as_u8 (pr_dtype p)];
          buf = subslice_write buf (off + 1) [role];
          buf = subslice_write buf (off + 4) (u64_to_le_bytes (pr_offset p));
          buf = subslice_write buf (off + 12) (u64_to_le_bytes (pr_len p))
      in subslice_write buf (off + 20) (u32_to_le_bytes (pr_weights p)))"

definition mixed_to_bytes :: "mixed_expert_header \<Rightarrow> u8 list" where
  "mixed_to_bytes h =
     (let buf = replicate UTH2_BYTES 0;
          buf = subslice_write buf 0 UTH2_MAGIC;
          buf = subslice_write buf 4 (u16_to_le_bytes (mx_version h));
          buf = subslice_write buf 6 (u16_to_le_bytes 3);
          buf = subslice_write buf 8 (u32_to_le_bytes (mx_d_model h));
          buf = subslice_write buf 12 (u32_to_le_bytes (mx_d_ff h));
          buf = subslice_write buf 16 (u32_to_le_bytes (mx_flags h));
          buf = put_projection buf 0 0 (mx_gate h);
          buf = put_projection buf 1 1 (mx_up h)
      in put_projection buf 2 2 (mx_down h))"

text \<open>The zero padding both writers append, and the prefix both readers skip.\<close>

definition block_pad :: "usize \<Rightarrow> usize \<Rightarrow> usize" where
  "block_pad block_align after =
     (if block_align > 0 then (block_align - after mod block_align) mod block_align else 0)"

definition mixed_write_padded :: "mixed_expert_header \<Rightarrow> usize \<Rightarrow> u8 list \<Rightarrow> u8 list" where
  "mixed_write_padded h block_align dst =
     (let start = length dst; dst = dst @ mixed_to_bytes h; after = length dst - start;
          pad = block_pad block_align after
      in vec_resize dst (length dst + pad) 0)"

definition read_projection :: "u8 list \<Rightarrow> nat \<Rightarrow> u8 \<Rightarrow> projection_range option" where
  "read_projection bytes idx expected_role =
     (let off = 24 + idx * 24 in
      if bytes ! (off + 1) \<noteq> expected_role then None
      else case from_u8 (bytes ! off) of
        None \<Rightarrow> None
      | Some dtype \<Rightarrow> Some \<lparr>pr_dtype = dtype,
          pr_offset = u64_from_le_bytes (subslice bytes (off + 4) 8),
          pr_len = u64_from_le_bytes (subslice bytes (off + 12) 8),
          pr_weights = u32_from_le_bytes (subslice bytes (off + 20) 4)\<rparr>)"

definition mixed_probe :: "u8 list \<Rightarrow> mixed_expert_header option" where
  "mixed_probe bytes =
     (if length bytes < UTH2_BYTES \<or> subslice bytes 0 4 \<noteq> UTH2_MAGIC then None
      else let version = u16_from_le_bytes (subslice bytes 4 2) in
      if version \<noteq> UTH2_VERSION then None
      else if u16_from_le_bytes (subslice bytes 6 2) \<noteq> 3 then None
      else case (read_projection bytes 0 0, read_projection bytes 1 1, read_projection bytes 2 2) of
        (Some gate, Some up, Some down) \<Rightarrow>
          Some \<lparr>mx_version = version, mx_d_model = u32_from_le_bytes (subslice bytes 8 4),
            mx_d_ff = u32_from_le_bytes (subslice bytes 12 4),
            mx_flags = u32_from_le_bytes (subslice bytes 16 4),
            mx_gate = gate, mx_up = up, mx_down = down\<rparr>
      | _ \<Rightarrow> None)"

definition mixed_strip :: "u8 list \<Rightarrow> usize \<Rightarrow> (mixed_expert_header \<times> u8 list) option" where
  "mixed_strip bytes block_align =
     (case mixed_probe bytes of
        None \<Rightarrow> None
      | Some h \<Rightarrow>
          let pre = (if mx_flags h AND UTH_FLAG_PAGE_ALIGNED_PAYLOAD \<noteq> 0 \<and> block_align > 0
                     then UTH2_BYTES + (block_align - UTH2_BYTES mod block_align) mod block_align
                     else UTH2_BYTES)
          in if pre > length bytes then None
             else let payload = drop pre bytes in
               case validate h (of_nat (length payload)) of
                 Inl _ \<Rightarrow> None
               | Inr _ \<Rightarrow> Some (h, payload))"

subsection \<open>The homogeneous header\<close>

record tensor_header =
  th_version :: u16
  th_dtype :: uth_dtype_id
  th_shape :: "u32 \<times> u32 \<times> u32 \<times> u32"
  th_shape_rank :: u8
  th_quant_scale_offset :: u32
  th_quant_scale_count :: u32
  th_amx_tile_m :: u32
  th_amx_tile_n :: u32
  th_amx_tile_k :: u32
  th_flags :: u32

definition for_swiglu_expert :: "weight_dtype \<Rightarrow> usize \<Rightarrow> usize \<Rightarrow> tensor_header" where
  "for_swiglu_expert dtype d_model d_ff =
     (let (quant_scale_offset, quant_scale_count) =
            (case dtype of Int8 \<Rightarrow> (0, 3) | _ \<Rightarrow> (0, 0))
      in \<lparr>th_version = UTH_VERSION, th_dtype = from_weight dtype,
          th_shape = (of_nat d_ff, of_nat d_model, 3, 0), th_shape_rank = 3,
          th_quant_scale_offset = quant_scale_offset, th_quant_scale_count = quant_scale_count,
          th_amx_tile_m = 16, th_amx_tile_n = 16, th_amx_tile_k = 64,
          th_flags = UTH_FLAG_PAGE_ALIGNED_PAYLOAD\<rparr>)"

definition header_to_bytes :: "tensor_header \<Rightarrow> u8 list" where
  "header_to_bytes h =
     (let buf = replicate UTH_BYTES 0;
          buf = subslice_write buf 0 UTH_MAGIC;
          buf = subslice_write buf 4 (u16_to_le_bytes (th_version h));
          buf = subslice_write buf 6 [dtype_as_u8 (th_dtype h)];
          buf = subslice_write buf 7 [th_shape_rank h];
          (s0, s1, s2, s3) = th_shape h;
          buf = subslice_write buf 8 (u32_to_le_bytes s0);
          buf = subslice_write buf 12 (u32_to_le_bytes s1);
          buf = subslice_write buf 16 (u32_to_le_bytes s2);
          buf = subslice_write buf 20 (u32_to_le_bytes s3);
          buf = subslice_write buf 24 (u32_to_le_bytes (th_quant_scale_offset h));
          buf = subslice_write buf 28 (u32_to_le_bytes (th_quant_scale_count h));
          buf = subslice_write buf 32 (u32_to_le_bytes (th_amx_tile_m h));
          buf = subslice_write buf 36 (u32_to_le_bytes (th_amx_tile_n h));
          buf = subslice_write buf 40 (u32_to_le_bytes (th_amx_tile_k h))
      in subslice_write buf 44 (u32_to_le_bytes (th_flags h)))"

definition header_write_padded :: "tensor_header \<Rightarrow> usize \<Rightarrow> u8 list \<Rightarrow> u8 list" where
  "header_write_padded h block_align dst =
     (let start = length dst; dst = dst @ header_to_bytes h; after = length dst - start;
          pad = block_pad block_align after
      in vec_resize dst (length dst + pad) 0)"

definition header_probe :: "u8 list \<Rightarrow> tensor_header option" where
  "header_probe bytes =
     (if length bytes < UTH_BYTES then None
      else if subslice bytes 0 4 \<noteq> UTH_MAGIC then None
      else let version = u16_from_le_bytes (subslice bytes 4 2) in
      if version = 0 \<or> version > UTH_VERSION then None
      else case from_u8 (bytes ! 6) of
        None \<Rightarrow> None
      | Some dtype \<Rightarrow>
          let shape_rank = bytes ! 7 in
          if shape_rank = 0 \<or> unat shape_rank > UTH_MAX_RANK then None
          else Some \<lparr>th_version = version, th_dtype = dtype,
            th_shape = (u32_from_le_bytes (subslice bytes 8 4), u32_from_le_bytes (subslice bytes 12 4),
              u32_from_le_bytes (subslice bytes 16 4), u32_from_le_bytes (subslice bytes 20 4)),
            th_shape_rank = shape_rank,
            th_quant_scale_offset = u32_from_le_bytes (subslice bytes 24 4),
            th_quant_scale_count = u32_from_le_bytes (subslice bytes 28 4),
            th_amx_tile_m = u32_from_le_bytes (subslice bytes 32 4),
            th_amx_tile_n = u32_from_le_bytes (subslice bytes 36 4),
            th_amx_tile_k = u32_from_le_bytes (subslice bytes 40 4),
            th_flags = u32_from_le_bytes (subslice bytes 44 4)\<rparr>)"

definition header_strip :: "u8 list \<Rightarrow> usize \<Rightarrow> tensor_header option \<times> u8 list" where
  "header_strip bytes block_align =
     (case header_probe bytes of
        None \<Rightarrow> (None, bytes)
      | Some h \<Rightarrow>
          let pre = (if th_flags h AND UTH_FLAG_PAGE_ALIGNED_PAYLOAD \<noteq> 0 \<and> block_align > 0
                     then UTH_BYTES + (block_align - UTH_BYTES mod block_align) mod block_align
                     else UTH_BYTES)
          in if pre > length bytes then (None, bytes) else (Some h, drop pre bytes))"

subsection \<open>Dtype tags\<close>

lemma from_u8_as_u8 [simp]: "from_u8 (dtype_as_u8 d) = Some d"
  by (cases d) (simp_all add: from_u8_def)

lemma as_u8_from_u8: "from_u8 b = Some d \<Longrightarrow> dtype_as_u8 d = b"
  by (auto simp: from_u8_def split: if_splits)

lemma to_weight_from_weight [simp]: "to_weight (from_weight d) = d"
  by (cases d) simp_all

lemma from_weight_to_weight [simp]: "from_weight (to_weight d) = d"
  by (cases d) simp_all

lemmas header_field_simps = slice_write_hit slice_write_disjoint nth_slice_write_hit nth_slice_write_miss

lemma length_put_projection [simp]:
  "48 + i * 24 \<le> length buf \<Longrightarrow> length (put_projection buf i role p) = length buf"
  by (simp add: put_projection_def Let_def)

lemma length_mixed_to_bytes [simp]: "length (mixed_to_bytes h) = UTH2_BYTES"
  by (simp add: mixed_to_bytes_def Let_def uth_consts)

lemma length_header_to_bytes [simp]: "length (header_to_bytes h) = UTH_BYTES"
  by (simp add: header_to_bytes_def Let_def uth_consts split: prod.split)

text \<open>A projection record occupies its own 24 bytes and is read back from them.\<close>

lemma put_projection_miss:
  assumes "a + n \<le> 24 + i * 24 \<or> 48 + i * 24 \<le> a" "48 + i * 24 \<le> length buf"
  shows "subslice (put_projection buf i role p) a n = subslice buf a n"
  using assms by (auto simp: put_projection_def Let_def slice_write_disjoint)

lemma put_projection_miss_nth:
  assumes "a < 24 + i * 24 \<or> 48 + i * 24 \<le> a" "48 + i * 24 \<le> length buf"
  shows "put_projection buf i role p ! a = buf ! a"
  using assms by (auto simp: put_projection_def Let_def nth_slice_write_miss)

lemma read_put_projection:
  assumes "48 + i * 24 \<le> length buf"
  shows "read_projection (put_projection buf i role p) i role = Some p"
  using assms
  by (simp add: read_projection_def put_projection_def Let_def header_field_simps)

lemma read_projection_cong:
  assumes "bytes ! (25 + i * 24) = bytes' ! (25 + i * 24)" "bytes ! (24 + i * 24) = bytes' ! (24 + i * 24)"
    and "subslice bytes (28 + i * 24) 8 = subslice bytes' (28 + i * 24) 8"
    and "subslice bytes (36 + i * 24) 8 = subslice bytes' (36 + i * 24) 8"
    and "subslice bytes (44 + i * 24) 4 = subslice bytes' (44 + i * 24) 4"
  shows "read_projection bytes i role = read_projection bytes' i role"
proof -
  have off: "24 + i * 24 + 1 = 25 + i * 24" "24 + i * 24 + 4 = 28 + i * 24"
    "24 + i * 24 + 12 = 36 + i * 24" "24 + i * 24 + 20 = 44 + i * 24" by simp_all
  show ?thesis unfolding read_projection_def Let_def off using assms by (simp split: option.split)
qed

lemma read_put_projection_miss:
  assumes "i < j \<or> j < i" "48 + i * 24 \<le> length buf"
  shows "read_projection (put_projection buf i role p) j role' = read_projection buf j role'"
proof -
  from assms(1) have "48 + j * 24 \<le> 24 + i * 24 \<or> 48 + i * 24 \<le> 24 + j * 24" by auto
  then show ?thesis using assms(2)
    by (intro read_projection_cong put_projection_miss put_projection_miss_nth) auto
qed

lemma read_projection_append:
  "48 + i * 24 \<le> length bytes \<Longrightarrow> read_projection (bytes @ rest) i role = read_projection bytes i role"
  by (rule read_projection_cong) (simp_all add: nth_append slice_append_left)

lemma mixed_header_fields:
  "subslice (mixed_to_bytes h) 0 4 = UTH2_MAGIC"
  "subslice (mixed_to_bytes h) 4 2 = u16_to_le_bytes (mx_version h)"
  "subslice (mixed_to_bytes h) 6 2 = u16_to_le_bytes 3"
  "subslice (mixed_to_bytes h) 8 4 = u32_to_le_bytes (mx_d_model h)"
  "subslice (mixed_to_bytes h) 12 4 = u32_to_le_bytes (mx_d_ff h)"
  "subslice (mixed_to_bytes h) 16 4 = u32_to_le_bytes (mx_flags h)"
  "read_projection (mixed_to_bytes h) 0 0 = Some (mx_gate h)"
  "read_projection (mixed_to_bytes h) 1 1 = Some (mx_up h)"
  "read_projection (mixed_to_bytes h) 2 2 = Some (mx_down h)"
  by (simp_all add: mixed_to_bytes_def Let_def uth_consts header_field_simps read_put_projection
      read_put_projection_miss put_projection_miss del: One_nat_def)

lemma mixed_probe_append:
  assumes "UTH2_BYTES \<le> length bytes"
  shows "mixed_probe (bytes @ rest) = mixed_probe bytes"
proof -
  have s: "subslice (bytes @ rest) a n = subslice bytes a n" if "a + n \<le> 128" for a n
    using assms that by (simp add: slice_append_left UTH2_BYTES_def)
  have r: "read_projection (bytes @ rest) i role = read_projection bytes i role" if "i \<le> 2" for i role
    using assms that by (simp add: read_projection_append UTH2_BYTES_def)
  show ?thesis using assms by (simp add: mixed_probe_def s r Let_def split: option.split)
qed

lemma mixed_probe_to_bytes:
  assumes "mx_version h = UTH2_VERSION"
  shows "mixed_probe (mixed_to_bytes h @ rest) = Some h"
proof -
  have "mixed_probe (mixed_to_bytes h) = Some h"
    using assms by (simp add: mixed_probe_def mixed_header_fields del: One_nat_def)
  then show ?thesis by (simp add: mixed_probe_append)
qed

lemma header_to_bytes_eq:
  assumes "th_shape h = (s0, s1, s2, s3)"
  shows "header_to_bytes h = UTH_MAGIC @ u16_to_le_bytes (th_version h) @ [dtype_as_u8 (th_dtype h)] @
    [th_shape_rank h] @ u32_to_le_bytes s0 @ u32_to_le_bytes s1 @ u32_to_le_bytes s2 @
    u32_to_le_bytes s3 @ u32_to_le_bytes (th_quant_scale_offset h) @
    u32_to_le_bytes (th_quant_scale_count h) @ u32_to_le_bytes (th_amx_tile_m h) @
    u32_to_le_bytes (th_amx_tile_n h) @ u32_to_le_bytes (th_amx_tile_k h) @
    u32_to_le_bytes (th_flags h) @ replicate 16 0"
proof -
  have m: "length UTH_MAGIC = 4" by (simp add: UTH_MAGIC_def)
  show ?thesis
    by (simp add: header_to_bytes_def assms Let_def UTH_BYTES_def put_first put_next m del: append_assoc)
qed

lemma header_fields:
  assumes "th_shape h = (s0, s1, s2, s3)"
  shows "subslice (header_to_bytes h) 0 4 = UTH_MAGIC"
  "subslice (header_to_bytes h) 4 2 = u16_to_le_bytes (th_version h)"
  "header_to_bytes h ! 6 = dtype_as_u8 (th_dtype h)"
  "header_to_bytes h ! 7 = th_shape_rank h"
  "subslice (header_to_bytes h) 8 4 = u32_to_le_bytes s0"
  "subslice (header_to_bytes h) 12 4 = u32_to_le_bytes s1"
  "subslice (header_to_bytes h) 16 4 = u32_to_le_bytes s2"
  "subslice (header_to_bytes h) 20 4 = u32_to_le_bytes s3"
  "subslice (header_to_bytes h) 24 4 = u32_to_le_bytes (th_quant_scale_offset h)"
  "subslice (header_to_bytes h) 28 4 = u32_to_le_bytes (th_quant_scale_count h)"
  "subslice (header_to_bytes h) 32 4 = u32_to_le_bytes (th_amx_tile_m h)"
  "subslice (header_to_bytes h) 36 4 = u32_to_le_bytes (th_amx_tile_n h)"
  "subslice (header_to_bytes h) 40 4 = u32_to_le_bytes (th_amx_tile_k h)"
  "subslice (header_to_bytes h) 44 4 = u32_to_le_bytes (th_flags h)"
proof -
  have m: "length UTH_MAGIC = 4" by (simp add: UTH_MAGIC_def)
  show "header_to_bytes h ! 6 = dtype_as_u8 (th_dtype h)" "header_to_bytes h ! 7 = th_shape_rank h"
    by (simp_all add: header_to_bytes_eq [OF assms] m nth_append)
qed (simp_all add: header_to_bytes_eq [OF assms] UTH_MAGIC_def slice_skip slice_hit del: append_Cons append_Nil)

lemma header_probe_append:
  assumes "UTH_BYTES \<le> length bytes"
  shows "header_probe (bytes @ rest) = header_probe bytes"
proof -
  have s: "subslice (bytes @ rest) a n = subslice bytes a n" if "a + n \<le> 64" for a n
    using assms that by (simp add: slice_append_left UTH_BYTES_def)
  have r: "(bytes @ rest) ! i = bytes ! i" if "i < 64" for i
    using assms that by (simp add: nth_append UTH_BYTES_def)
  show ?thesis using assms by (simp add: header_probe_def s r Let_def split: option.split)
qed

lemma header_probe_to_bytes:
  assumes "th_version h = UTH_VERSION" "th_shape_rank h \<noteq> 0" "unat (th_shape_rank h) \<le> UTH_MAX_RANK"
  shows "header_probe (header_to_bytes h @ rest) = Some h"
proof -
  obtain s0 s1 s2 s3 where s: "th_shape h = (s0, s1, s2, s3)" by (cases "th_shape h")
  have "header_probe (header_to_bytes h) = Some h"
    using assms s by (simp add: header_probe_def header_fields [OF s] UTH_VERSION_def)
  then show ?thesis by (simp add: header_probe_append)
qed


subsection \<open>Padding\<close>

lemma block_pad_aligned: "0 < a \<Longrightarrow> (n + block_pad a n) mod a = 0"
proof -
  assume a: "0 < a"
  then have "n mod a \<le> a" by (simp add: less_imp_le)
  then have "n + (a - n mod a) = a * (n div a) + a"
    using mult_div_mod_eq [of a n] by linarith
  then have "(n + (a - n mod a)) mod a = 0" by simp
  then show ?thesis using a by (simp add: block_pad_def mod_add_right_eq)
qed

lemma mixed_write_padded_eq:
  "mixed_write_padded h a dst = dst @ mixed_to_bytes h @ replicate (block_pad a UTH2_BYTES) 0"
  by (simp add: mixed_write_padded_def Let_def vec_resize_grow)

lemma header_write_padded_eq:
  "header_write_padded h a dst = dst @ header_to_bytes h @ replicate (block_pad a UTH_BYTES) 0"
  by (simp add: header_write_padded_def Let_def vec_resize_grow)

lemma mixed_strip_write:
  assumes v: "mx_version h = UTH2_VERSION"
    and fl: "mx_flags h AND UTH_FLAG_PAGE_ALIGNED_PAYLOAD \<noteq> 0 \<or> block_pad a UTH2_BYTES = 0"
  shows "mixed_strip (mixed_write_padded h a [] @ payload) a =
    (case validate h (of_nat (length payload)) of Inl _ \<Rightarrow> None | Inr _ \<Rightarrow> Some (h, payload))"
proof -
  let ?b = "mixed_to_bytes h @ replicate (block_pad a UTH2_BYTES) 0 @ payload"
  have pre: "(if mx_flags h AND UTH_FLAG_PAGE_ALIGNED_PAYLOAD \<noteq> 0 \<and> a > 0
     then UTH2_BYTES + (a - UTH2_BYTES mod a) mod a else UTH2_BYTES) = UTH2_BYTES + block_pad a UTH2_BYTES"
    using fl by (auto simp: block_pad_def)
  have "drop (UTH2_BYTES + block_pad a UTH2_BYTES) ?b = payload" by simp
  moreover have "UTH2_BYTES + block_pad a UTH2_BYTES \<le> length ?b" by simp
  moreover have "mixed_probe ?b = Some h" by (rule mixed_probe_to_bytes [OF v])
  ultimately show ?thesis
    unfolding mixed_strip_def mixed_write_padded_eq
    by (simp add: pre Let_def del: drop_append)
qed

lemma header_strip_write:
  assumes v: "th_version h = UTH_VERSION" "th_shape_rank h \<noteq> 0" "unat (th_shape_rank h) \<le> UTH_MAX_RANK"
    and fl: "th_flags h AND UTH_FLAG_PAGE_ALIGNED_PAYLOAD \<noteq> 0 \<or> block_pad a UTH_BYTES = 0"
  shows "header_strip (header_write_padded h a [] @ payload) a = (Some h, payload)"
proof -
  let ?b = "header_to_bytes h @ replicate (block_pad a UTH_BYTES) 0 @ payload"
  have pre: "(if th_flags h AND UTH_FLAG_PAGE_ALIGNED_PAYLOAD \<noteq> 0 \<and> a > 0
     then UTH_BYTES + (a - UTH_BYTES mod a) mod a else UTH_BYTES) = UTH_BYTES + block_pad a UTH_BYTES"
    using fl by (auto simp: block_pad_def)
  have "drop (UTH_BYTES + block_pad a UTH_BYTES) ?b = payload" by simp
  moreover have "UTH_BYTES + block_pad a UTH_BYTES \<le> length ?b" by simp
  moreover have "header_probe ?b = Some h" by (rule header_probe_to_bytes [OF v])
  ultimately show ?thesis
    unfolding header_strip_def header_write_padded_eq
    by (simp add: pre Let_def del: drop_append)
qed

subsection \<open>Canonical decoding\<close>

text \<open>Decoding is canonical: the bytes of an accepted header are the ones the writer emits.\<close>

lemma header_probe_canonical:
  assumes p: "header_probe bytes = Some h"
  shows "take 48 bytes = take 48 (header_to_bytes h)"
proof -
  have len: "64 \<le> length bytes" and magic: "subslice bytes 0 4 = UTH_MAGIC"
    using p by (auto simp: header_probe_def UTH_BYTES_def split: if_splits)
  have f: "th_version h = u16_from_le_bytes (subslice bytes 4 2)" "from_u8 (bytes ! 6) = Some (th_dtype h)"
    "th_shape_rank h = bytes ! 7"
    "th_shape h = (u32_from_le_bytes (subslice bytes 8 4), u32_from_le_bytes (subslice bytes 12 4),
       u32_from_le_bytes (subslice bytes 16 4), u32_from_le_bytes (subslice bytes 20 4))"
    "th_quant_scale_offset h = u32_from_le_bytes (subslice bytes 24 4)"
    "th_quant_scale_count h = u32_from_le_bytes (subslice bytes 28 4)"
    "th_amx_tile_m h = u32_from_le_bytes (subslice bytes 32 4)"
    "th_amx_tile_n h = u32_from_le_bytes (subslice bytes 36 4)"
    "th_amx_tile_k h = u32_from_le_bytes (subslice bytes 40 4)"
    "th_flags h = u32_from_le_bytes (subslice bytes 44 4)"
    using p by (auto simp: header_probe_def Let_def split: if_splits option.splits)
  have w: "length (subslice bytes a 4) = 4" if "a + 4 \<le> 64" for a using len that by simp
  have v: "length (subslice bytes 4 2) = 2" using len by simp
  have one: "[dtype_as_u8 (th_dtype h)] = subslice bytes 6 1" "[th_shape_rank h] = subslice bytes 7 1"
    using len as_u8_from_u8 [OF f(2)] f(3) by (simp_all add: nth_slice del: One_nat_def)
  have "take 48 bytes = subslice bytes 0 (4 + (2 + (1 + (1 + (4 + (4 + (4 + (4 + (4 + (4 +
      (4 + (4 + (4 + 4)))))))))))))"
    by (simp add: subslice_def)
  also have "\<dots> = UTH_MAGIC @ u16_to_le_bytes (th_version h) @ [dtype_as_u8 (th_dtype h)] @ [th_shape_rank h] @
    subslice bytes 8 4 @ subslice bytes 12 4 @ subslice bytes 16 4 @ subslice bytes 20 4 @
    subslice bytes 24 4 @ subslice bytes 28 4 @ subslice bytes 32 4 @ subslice bytes 36 4 @
    subslice bytes 40 4 @ subslice bytes 44 4"
    unfolding slice_split one f(1) u16_bytes_of_slice [OF v] magic [symmetric] by simp
  also have "\<dots> = take 48 (header_to_bytes h)"
    using len by (simp add: header_to_bytes_eq [OF f(4)] f(5-) u32_bytes_of_slice magic [symmetric])
  finally show ?thesis .
qed

subsection \<open>Range validation\<close>

definition range_ok :: "u64 \<Rightarrow> projection_range \<Rightarrow> bool" where
  "range_ok n r \<longleftrightarrow> pr_dtype r \<noteq> IdMixed \<and> 0 < unat (pr_len r) \<and>
     unat (pr_offset r) + unat (pr_len r) \<le> unat n"

definition ranges_disjoint :: "projection_range \<Rightarrow> projection_range \<Rightarrow> bool" where
  "ranges_disjoint r s \<longleftrightarrow> unat (pr_offset r) + unat (pr_len r) \<le> unat (pr_offset s) \<or>
     unat (pr_offset s) + unat (pr_len s) \<le> unat (pr_offset r)"

lemma range_end_Some: "range_end r = Some e \<longleftrightarrow>
    e = pr_offset r + pr_len r \<and> unat (pr_offset r) + unat (pr_len r) < 2 ^ 64"
  by (auto simp: range_end_def checked_add_u64_def)

lemma range_ok_end:
  assumes "range_ok n r"
  shows "range_end r = Some (pr_offset r + pr_len r)"
    "unat (pr_offset r + pr_len r) = unat (pr_offset r) + unat (pr_len r)"
    "unwrap_end r = pr_offset r + pr_len r"
proof -
  have "unat (pr_offset r) + unat (pr_len r) < 2 ^ 64"
    using assms unat_bound [of n] by (simp add: range_ok_def)
  then show e: "range_end r = Some (pr_offset r + pr_len r)"
    and "unat (pr_offset r + pr_len r) = unat (pr_offset r) + unat (pr_len r)"
    by (simp_all add: range_end_Some unat_word_ariths)
  from e show "unwrap_end r = pr_offset r + pr_len r" by (simp add: unwrap_end_def)
qed

lemma check_ranges_None:
  "check_ranges n rs = None \<longleftrightarrow> (\<forall>(name, r)\<in>set rs. range_ok n r)"
proof (induction rs)
  case (Cons x rs)
  obtain name r where x: "x = (name, r)" by (cases x)
  show ?case
  proof (cases "range_ok n r")
    case True
    note e = range_ok_end [OF this]
    have "\<not> pr_offset r + pr_len r > n" "pr_len r \<noteq> 0"
      using True e(2) by (auto simp: range_ok_def word_le_nat_alt word_less_nat_alt)
    then show ?thesis using True Cons e(1) by (simp add: x range_ok_def)
  next
    case False
    have "check_ranges n ((name, r) # rs) \<noteq> None"
    proof (cases "pr_dtype r = IdMixed \<or> pr_len r = 0")
      case nz: False
      then have "0 < unat (pr_len r)" by (simp add: unat_gt_0)
      with False nz have gt: "unat n < unat (pr_offset r) + unat (pr_len r)" by (simp add: range_ok_def)
      show ?thesis
      proof (cases "range_end r")
        case (Some e)
        then have "unat e = unat (pr_offset r) + unat (pr_len r)"
          by (auto simp: range_end_Some unat_word_ariths)
        with gt have "e > n" by (simp add: word_less_nat_alt)
        with nz Some show ?thesis by simp
      qed (use nz in simp)
    qed auto
    with False show ?thesis by (simp add: x del: check_ranges.simps)
  qed
qed simp

definition ends_before :: "projection_name \<times> u64 \<times> u64 \<Rightarrow> projection_name \<times> u64 \<times> u64 \<Rightarrow> bool" where
  "ends_before x y \<longleftrightarrow> snd (snd x) \<le> fst (snd y)"

lemma check_windows_None:
  assumes "\<forall>x\<in>set xs. fst (snd x) \<le> snd (snd x)"
  shows "check_windows xs = None \<longleftrightarrow> sorted_wrt ends_before xs"
  using assms
proof (induction xs rule: check_windows.induct)
  case (1 ln ls le rn rs re rest)
  show ?case
  proof (cases "le \<le> rs")
    case True
    then have "ends_before (ln, ls, le) z" if "ends_before (rn, rs, re) z" for z
      using that 1(2) by (auto simp: ends_before_def)
    with True 1 show ?thesis by (auto simp: ends_before_def not_less)
  qed (auto simp: ends_before_def not_le)
qed auto

lemma sorted_wrt_insort_key:
  assumes "symp D"
  shows "sorted_wrt D (insort_key f x xs) \<longleftrightarrow> sorted_wrt D (x # xs)"
proof (induction xs)
  case (Cons y ys)
  then show ?case using sympD [OF assms] by (auto simp: set_insort_key)
qed simp

lemma sorted_wrt_sort_key: "symp D \<Longrightarrow> sorted_wrt D (sort_key f xs) \<longleftrightarrow> sorted_wrt D xs"
  by (induction xs) (simp_all add: sorted_wrt_insort_key)

lemma sorted_windows_disjoint:
  assumes lt: "\<forall>x\<in>set xs. fst (snd x) < snd (snd x)"
  shows "check_windows (sort_key (\<lambda>(_, start, _). start) xs) = None \<longleftrightarrow>
    sorted_wrt (\<lambda>x y. ends_before x y \<or> ends_before y x) xs"
proof -
  let ?s = "sort_key (\<lambda>(_, start, _). start) xs"
  let ?D = "\<lambda>x y. ends_before x y \<or> ends_before y x"
  have "sorted (map (\<lambda>(_, start, _). start) ?s)" by simp
  then have srt: "sorted_wrt (\<lambda>x y. fst (snd x) \<le> fst (snd y)) ?s"
    by (simp add: sorted_wrt_map case_prod_unfold)
  have "check_windows ?s = None \<longleftrightarrow> sorted_wrt ends_before ?s"
    using lt by (intro check_windows_None) auto
  also have "\<dots> \<longleftrightarrow> sorted_wrt ?D ?s"
  proof
    assume d: "sorted_wrt ?D ?s"
    have no: "\<not> ends_before y x" if "x \<in> set xs" "y \<in> set xs" "fst (snd x) \<le> fst (snd y)" for x y
    proof -
      have "fst (snd y) < snd (snd y)" using lt that(2) by blast
      with that(3) have "fst (snd x) < snd (snd y)" by (rule order.strict_trans1)
      then show ?thesis by (simp add: ends_before_def not_le)
    qed
    show "sorted_wrt ends_before ?s"
      unfolding sorted_wrt_iff_nth_less
    proof (intro allI impI)
      fix i j assume ij: "i < j" "j < length ?s"
      have m: "?s ! i \<in> set xs" "?s ! j \<in> set xs"
        using ij nth_mem [of i ?s] nth_mem [of j ?s] by simp_all
      from sorted_wrt_nth_less [OF srt ij] have "\<not> ends_before (?s ! j) (?s ! i)" by (rule no [OF m])
      with sorted_wrt_nth_less [OF d ij] show "ends_before (?s ! i) (?s ! j)" by blast
    qed
  next
    assume "sorted_wrt ends_before ?s"
    then show "sorted_wrt ?D ?s" by (rule sorted_wrt_mono_rel [rotated]) blast
  qed
  also have "\<dots> \<longleftrightarrow> sorted_wrt ?D xs"
    by (rule sorted_wrt_sort_key) (auto intro: sympI)
  finally show ?thesis .
qed


lemma validate_ok_iff:
  "validate h n = Inr () \<longleftrightarrow>
     mx_version h = UTH2_VERSION \<and> mx_d_model h \<noteq> 0 \<and> mx_d_ff h \<noteq> 0 \<and>
     range_ok n (mx_gate h) \<and> range_ok n (mx_up h) \<and> range_ok n (mx_down h) \<and>
     ranges_disjoint (mx_gate h) (mx_up h) \<and> ranges_disjoint (mx_gate h) (mx_down h) \<and>
     ranges_disjoint (mx_up h) (mx_down h)"
proof (cases "check_ranges n (named_ranges h) = None")
  case True
  then have ok: "range_ok n (mx_gate h)" "range_ok n (mx_up h)" "range_ok n (mx_down h)"
    by (simp_all add: check_ranges_None named_ranges_def del: check_ranges.simps)
  let ?w = "map (\<lambda>(n, r). (n, pr_offset r, unwrap_end r)) (named_ranges h)"
  have lt: "pr_offset r < unwrap_end r" if "range_ok n r" for r
    using range_ok_end [OF that] that by (simp add: range_ok_def word_less_nat_alt)
  have eb: "ends_before (a, pr_offset r, unwrap_end r) (b, pr_offset s, unwrap_end s) \<longleftrightarrow>
      unat (pr_offset r) + unat (pr_len r) \<le> unat (pr_offset s)" if "range_ok n r" for a b r s
    using range_ok_end [OF that] by (simp add: ends_before_def word_le_nat_alt)
  have "check_windows (sort_key (\<lambda>(_, start, _). start) ?w) = None \<longleftrightarrow>
     ranges_disjoint (mx_gate h) (mx_up h) \<and> ranges_disjoint (mx_gate h) (mx_down h) \<and>
     ranges_disjoint (mx_up h) (mx_down h)"
    using ok by (subst sorted_windows_disjoint) (auto simp: named_ranges_def lt eb ranges_disjoint_def)
  with True ok show ?thesis
    by (auto simp: validate_def split: option.split)
next
  case False
  then have "\<not> (range_ok n (mx_gate h) \<and> range_ok n (mx_up h) \<and> range_ok n (mx_down h))"
    by (simp add: check_ranges_None named_ranges_def del: check_ranges.simps)
  with False show ?thesis by (auto simp: validate_def split: option.split)
qed

lemma mixed_strip_Some:
  assumes "mixed_strip bytes a = Some (h, payload)"
  shows "mixed_probe bytes = Some h" "validate h (of_nat (length payload)) = Inr ()"
    "\<exists>n. payload = drop n bytes \<and> UTH2_BYTES \<le> n \<and> n \<le> length bytes"
  using assms
  by (auto simp: mixed_strip_def Let_def split: option.splits if_splits sum.splits)

lemma range_ok_slice:
  assumes "range_ok (of_nat (length payload)) r" "length payload < 2 ^ 64"
  shows "length (subslice payload (unat (pr_offset r)) (unat (pr_len r))) = unat (pr_len r)"
  using assms by (auto simp: range_ok_def unat_of_nat min_def)

lemma magics_differ: "mixed_probe bytes \<noteq> None \<Longrightarrow> header_probe bytes = None"
  by (auto simp: mixed_probe_def header_probe_def uth_consts)

text \<open>C15: a mixed-projection header validates exactly when its version is supported, its
  dimensions are non-zero, and its three byte ranges are non-empty, carry a concrete dtype,
  end (computed without wrap-around) inside the payload and are pairwise disjoint.\<close>

theorem uth2_validate_correct:
  "validate h n = Inr () \<longleftrightarrow>
     mx_version h = UTH2_VERSION \<and> mx_d_model h \<noteq> 0 \<and> mx_d_ff h \<noteq> 0 \<and>
     (\<forall>r \<in> {mx_gate h, mx_up h, mx_down h}. pr_dtype r \<noteq> IdMixed \<and> 0 < unat (pr_len r) \<and>
        unat (pr_offset r) + unat (pr_len r) \<le> unat n) \<and>
     ranges_disjoint (mx_gate h) (mx_up h) \<and> ranges_disjoint (mx_gate h) (mx_down h) \<and>
     ranges_disjoint (mx_up h) (mx_down h)"
  by (simp add: validate_ok_iff range_ok_def conj_ac)

definition demo_range :: "u64 \<Rightarrow> projection_range" where
  "demo_range off = \<lparr>pr_dtype = IdQ5K, pr_offset = off, pr_len = 2, pr_weights = 1\<rparr>"

definition demo_mixed :: mixed_expert_header where
  "demo_mixed = mixed_new 1 1 (demo_range 4) (demo_range 0) (demo_range 2)"

lemma demo_mixed_valid: "validate demo_mixed 6 = Inr ()"
  by (simp add: validate_ok_iff demo_mixed_def mixed_new_def demo_range_def range_ok_def
      ranges_disjoint_def)

theorem uth2_validate_correct_witness:
  "validate demo_mixed 6 = Inr () \<and> ranges_disjoint (mx_gate demo_mixed) (mx_down demo_mixed)"
  using uth2_validate_correct [of demo_mixed 6] demo_mixed_valid by simp

text \<open>Whatever bytes a blob holds, if the UTH2 reader accepts it, every projection can be
  sliced out of the payload it returns (the slice has the recorded length), the three slices
  do not overlap, and the homogeneous reader rejects the same blob.\<close>

theorem uth2_strip_safe:
  assumes "mixed_strip bytes a = Some (h, payload)" "length bytes < 2 ^ 64"
  shows "(\<forall>r \<in> {mx_gate h, mx_up h, mx_down h}.
       length (subslice payload (unat (pr_offset r)) (unat (pr_len r))) = unat (pr_len r)) \<and>
     ranges_disjoint (mx_gate h) (mx_up h) \<and> ranges_disjoint (mx_gate h) (mx_down h) \<and>
     ranges_disjoint (mx_up h) (mx_down h) \<and> header_probe bytes = None"
proof -
  note s = mixed_strip_Some [OF assms(1)]
  have "length payload < 2 ^ 64" using s(3) assms(2) by auto
  moreover note s(2) [unfolded validate_ok_iff]
  moreover have "header_probe bytes = None" using s(1) by (simp add: magics_differ)
  ultimately show ?thesis using range_ok_slice [of payload] by auto
qed

definition demo_blob :: "u8 list" where
  "demo_blob = mixed_write_padded demo_mixed 256 [] @ [1, 2, 3, 4, 5, 6]"

lemma demo_blob_strip: "mixed_strip demo_blob 256 = Some (demo_mixed, [1, 2, 3, 4, 5, 6])"
proof -
  have "mixed_strip demo_blob 256 = (case validate demo_mixed (of_nat (length [1::u8, 2, 3, 4, 5, 6])) of
      Inl _ \<Rightarrow> None | Inr _ \<Rightarrow> Some (demo_mixed, [1, 2, 3, 4, 5, 6]))"
    unfolding demo_blob_def
    by (rule mixed_strip_write)
      (simp_all add: demo_mixed_def mixed_new_def UTH_FLAG_PAGE_ALIGNED_PAYLOAD_def)
  then show ?thesis using demo_mixed_valid by simp
qed

lemma length_demo_blob: "length demo_blob = 262"
  by (simp add: demo_blob_def mixed_write_padded_eq block_pad_def UTH2_BYTES_def)

theorem uth2_strip_safe_witness:
  "length (subslice [1::u8, 2, 3, 4, 5, 6] 4 2) = 2 \<and> header_probe demo_blob = None"
  using uth2_strip_safe [OF demo_blob_strip] length_demo_blob by (simp add: demo_mixed_def mixed_new_def demo_range_def)

text \<open>C32: writing a header with padding and appending a payload that validates is undone by the
  reader, for the mixed and the homogeneous format, and the payload starts at a multiple of the
  block alignment, as direct I/O requires.\<close>

theorem uth_blob_roundtrip:
  assumes "0 < a" "mx_version m = UTH2_VERSION" "mx_flags m AND UTH_FLAG_PAGE_ALIGNED_PAYLOAD \<noteq> 0"
    and "validate m (of_nat (length payload)) = Inr ()"
  shows "mixed_strip (mixed_write_padded m a [] @ payload) a = Some (m, payload) \<and>
    header_strip (header_write_padded (for_swiglu_expert d dm df) a [] @ payload) a =
      (Some (for_swiglu_expert d dm df), payload) \<and>
    length (mixed_write_padded m a []) mod a = 0 \<and>
    length (header_write_padded (for_swiglu_expert d dm df) a []) mod a = 0"
proof (intro conjI)
  show "mixed_strip (mixed_write_padded m a [] @ payload) a = Some (m, payload)"
    using mixed_strip_write [OF assms(2), of a payload] assms by simp
  show "header_strip (header_write_padded (for_swiglu_expert d dm df) a [] @ payload) a =
      (Some (for_swiglu_expert d dm df), payload)"
    by (rule header_strip_write)
      (simp_all add: for_swiglu_expert_def UTH_MAX_RANK_def UTH_FLAG_PAGE_ALIGNED_PAYLOAD_def
        split: prod.split)
qed (use assms in \<open>simp_all add: mixed_write_padded_eq header_write_padded_eq block_pad_aligned\<close>)

theorem uth_blob_roundtrip_witness:
  "mixed_strip (mixed_write_padded demo_mixed 256 [] @ [1, 2, 3, 4, 5, 6]) 256 =
     Some (demo_mixed, [1, 2, 3, 4, 5, 6])"
  using uth_blob_roundtrip [of 256 demo_mixed "[1, 2, 3, 4, 5, 6]"] demo_mixed_valid
  by (simp add: demo_mixed_def mixed_new_def UTH_FLAG_PAGE_ALIGNED_PAYLOAD_def)

text \<open>Decoding a homogeneous header is canonical: the 48 bytes of an accepted header that
  carry information are exactly the bytes the writer emits for it, its version is supported and
  its rank is between one and four.\<close>

theorem uth1_probe_canonical:
  assumes "header_probe bytes = Some h"
  shows "take 48 bytes = take 48 (header_to_bytes h) \<and> th_version h = UTH_VERSION \<and>
    0 < unat (th_shape_rank h) \<and> unat (th_shape_rank h) \<le> UTH_MAX_RANK"
proof -
  have v: "th_version h \<noteq> 0" "th_version h \<le> 1"
    and "th_shape_rank h \<noteq> 0" "unat (th_shape_rank h) \<le> UTH_MAX_RANK"
    using assms by (auto simp: header_probe_def Let_def UTH_VERSION_def not_less
        split: if_splits option.splits)
  moreover have "unat (th_version h) \<noteq> 0" "unat (th_version h) \<le> 1"
    using v by (simp_all add: word_le_nat_alt unat_eq_0)
  then have "unat (th_version h) = unat (1 :: u16)" by simp
  then have "th_version h = UTH_VERSION" by (simp only: word_unat_eq_iff UTH_VERSION_def)
  ultimately show ?thesis using header_probe_canonical [OF assms] by (simp add: unat_gt_0)
qed

theorem uth1_probe_canonical_witness:
  "take 48 (header_to_bytes (for_swiglu_expert Int8 4 8) @ [7]) =
     take 48 (header_to_bytes (for_swiglu_expert Int8 4 8))"
proof -
  have "header_probe (header_to_bytes (for_swiglu_expert Int8 4 8) @ [7]) = Some (for_swiglu_expert Int8 4 8)"
    by (rule header_probe_to_bytes) (simp_all add: for_swiglu_expert_def UTH_MAX_RANK_def)
  from uth1_probe_canonical [OF this] show ?thesis by simp
qed

end
