(* ===== verification/BufferPool.thy ===== *)
theory BufferPool
  imports WeightTypes "HOL-Library.Multiset"
begin

section \<open>The pool of page-aligned expert buffers\<close>

text \<open>
  Model of \<open>aligned_buffer.rs\<close> and \<open>buffer_pool.rs\<close>: a fixed set of zeroed, aligned buffers
  handed out as guards from a primary and an optional shadow free list. A buffer carries the
  address the allocator gave it, so that the lemmas can say that no buffer is lost or handed
  out twice. \<open>acquire\<close> and \<open>acquire_shadow\<close> loop over \<open>try_acquire\<close> and \<open>try_acquire_shadow\<close>
  until they succeed; the wake-ups they wait for (tokio's \<open>Notify\<close>) are recorded as counters of
  \<open>notify_one\<close> calls and the waiting itself is not modelled.
\<close>

record aligned_buffer =
  ab_ptr :: nat
  ab_bytes :: "u8 list"
  ab_align :: usize

definition isize_MAX :: usize where "isize_MAX = 2 ^ 63 - 1"

fun is_power_of_two :: "usize \<Rightarrow> bool" where
  "is_power_of_two n = (if n = 0 then False else if n = 1 then True
     else even n \<and> is_power_of_two (n div 2))"

declare is_power_of_two.simps [simp del]

definition aligned_buffer_new :: "nat \<Rightarrow> usize \<Rightarrow> usize \<Rightarrow> aligned_buffer outcome" where
  "aligned_buffer_new ptr sz align =
     (if \<not> is_power_of_two align then Panic
      else if \<not> sz > 0 then Panic
      else if sz mod align \<noteq> 0 then Panic
      else if sz > isize_MAX - (align - 1) then Panic
      else Return \<lparr>ab_ptr = ptr, ab_bytes = replicate sz 0, ab_align = align\<rparr>)"

definition buffer_len :: "aligned_buffer \<Rightarrow> usize" where
  "buffer_len b = length (ab_bytes b)"

datatype buffer_pool_origin = Production | QualificationOracleFutureSource

text \<open>The three process-wide byte gauges.\<close>

record pool_gauges =
  g_primary_bytes :: u64
  g_shadow_bytes :: u64
  g_oracle_bytes :: u64

record buffer_pool =
  bp_free :: "aligned_buffer list"
  bp_shadow :: "aligned_buffer list option"
  bp_notify :: nat
  bp_notify_shadow :: nat
  bp_primary_slots :: usize
  bp_shadow_slots :: usize
  bp_buffer_size :: usize
  bp_align :: usize
  bp_origin :: buffer_pool_origin

definition u64_saturating_mul :: "u64 \<Rightarrow> u64 \<Rightarrow> u64" where
  [rust_defs]: "u64_saturating_mul a b = (if unat a * unat b < 2 ^ 64 then a * b else - 1)"

definition u64_saturating_add :: "u64 \<Rightarrow> u64 \<Rightarrow> u64" where
  [rust_defs]: "u64_saturating_add a b = (if unat a + unat b < 2 ^ 64 then a + b else - 1)"

definition slot_bytes :: "usize \<Rightarrow> usize \<Rightarrow> u64" where
  "slot_bytes slots sz = u64_saturating_mul (of_nat slots) (of_nat sz)"

definition expert_buffer_pool_allocated_bytes :: "pool_gauges \<Rightarrow> u64" where
  "expert_buffer_pool_allocated_bytes g =
     u64_saturating_add (u64_saturating_add (g_primary_bytes g) (g_shadow_bytes g)) (g_oracle_bytes g)"

fun allocate_buffers :: "nat list \<Rightarrow> usize \<Rightarrow> usize \<Rightarrow> aligned_buffer list outcome" where
  "allocate_buffers [] sz align = Return []"
| "allocate_buffers (ptr # ptrs) sz align =
     obind (aligned_buffer_new ptr sz align) (\<lambda>b.
     obind (allocate_buffers ptrs sz align) (\<lambda>bs. Return (b # bs)))"

text \<open>\<open>ptrs\<close> and \<open>sptrs\<close> are the allocator's answers, one address per slot.\<close>

definition new_with_origin ::
    "nat list \<Rightarrow> nat list \<Rightarrow> usize \<Rightarrow> usize \<Rightarrow> buffer_pool_origin \<Rightarrow> pool_gauges \<Rightarrow>
     (buffer_pool \<times> pool_gauges) outcome" where
  "new_with_origin ptrs sptrs buffer_size align origin g =
     (let primary_slots = length ptrs; shadow_slots = length sptrs in
      if \<not> primary_slots > 0 then Panic
      else if \<not> (origin = Production \<or> shadow_slots = 0) then Panic
      else obind (allocate_buffers ptrs buffer_size align) (\<lambda>free.
        obind (if shadow_slots > 0
               then obind (allocate_buffers sptrs buffer_size align) (\<lambda>s. Return (Some s))
               else Return None) (\<lambda>shadow.
        let primary_bytes = slot_bytes primary_slots buffer_size;
            shadow_bytes = slot_bytes shadow_slots buffer_size;
            g' = (case origin of
                Production \<Rightarrow> g\<lparr>g_primary_bytes := g_primary_bytes g + primary_bytes,
                                g_shadow_bytes := g_shadow_bytes g + shadow_bytes\<rparr>
              | QualificationOracleFutureSource \<Rightarrow>
                  g\<lparr>g_oracle_bytes := g_oracle_bytes g + primary_bytes\<rparr>)
        in Return (\<lparr>bp_free = free, bp_shadow = shadow, bp_notify = 0, bp_notify_shadow = 0,
             bp_primary_slots = primary_slots, bp_shadow_slots = shadow_slots,
             bp_buffer_size = buffer_size, bp_align = align, bp_origin = origin\<rparr>, g'))))"

definition new_with_shadow ::
    "nat list \<Rightarrow> nat list \<Rightarrow> usize \<Rightarrow> usize \<Rightarrow> pool_gauges \<Rightarrow> (buffer_pool \<times> pool_gauges) outcome" where
  "new_with_shadow ptrs sptrs sz align g = new_with_origin ptrs sptrs sz align Production g"

definition pool_new_primary ::
    "nat list \<Rightarrow> usize \<Rightarrow> usize \<Rightarrow> pool_gauges \<Rightarrow> (buffer_pool \<times> pool_gauges) outcome" where
  "pool_new_primary ptrs sz align g = new_with_shadow ptrs [] sz align g"

definition new_qualification_oracle_future_source ::
    "nat list \<Rightarrow> usize \<Rightarrow> usize \<Rightarrow> pool_gauges \<Rightarrow> (buffer_pool \<times> pool_gauges) outcome" where
  "new_qualification_oracle_future_source ptrs sz align g =
     new_with_origin ptrs [] sz align QualificationOracleFutureSource g"

definition inner_drop :: "buffer_pool \<Rightarrow> pool_gauges \<Rightarrow> pool_gauges" where
  "inner_drop p g =
     (let primary = slot_bytes (bp_primary_slots p) (bp_buffer_size p);
          shadow = slot_bytes (bp_shadow_slots p) (bp_buffer_size p)
      in case bp_origin p of
           Production \<Rightarrow> g\<lparr>g_primary_bytes := g_primary_bytes g - primary,
                           g_shadow_bytes := g_shadow_bytes g - shadow\<rparr>
         | QualificationOracleFutureSource \<Rightarrow> g\<lparr>g_oracle_bytes := g_oracle_bytes g - primary\<rparr>)"

definition primary_allocated_bytes :: "buffer_pool \<Rightarrow> usize" where
  "primary_allocated_bytes p = saturating_mul (bp_primary_slots p) (bp_buffer_size p)"

definition shadow_allocated_bytes :: "buffer_pool \<Rightarrow> usize" where
  "shadow_allocated_bytes p = saturating_mul (bp_shadow_slots p) (bp_buffer_size p)"

definition allocated_bytes :: "buffer_pool \<Rightarrow> usize" where
  "allocated_bytes p = saturating_add (primary_allocated_bytes p) (shadow_allocated_bytes p)"

definition raw_iovecs :: "buffer_pool \<Rightarrow> (nat \<times> usize) list" where
  "raw_iovecs p = map (\<lambda>b. (ab_ptr b, buffer_len b))
     (bp_free p @ (case bp_shadow p of Some s \<Rightarrow> s | None \<Rightarrow> []))"

datatype slot = Primary | Shadow

record pooled_buffer =
  pb_buffer :: aligned_buffer
  pb_slot :: slot

definition as_slice :: "pooled_buffer \<Rightarrow> u8 list" where
  "as_slice b = ab_bytes (pb_buffer b)"

definition is_shadow :: "pooled_buffer \<Rightarrow> bool" where
  "is_shadow b \<longleftrightarrow> pb_slot b = Shadow"

definition try_acquire :: "buffer_pool \<Rightarrow> pooled_buffer option \<times> buffer_pool" where
  "try_acquire p =
     (case vec_pop (bp_free p) of
        None \<Rightarrow> (None, p)
      | Some (buf, free) \<Rightarrow> (Some \<lparr>pb_buffer = buf, pb_slot = Primary\<rparr>, p\<lparr>bp_free := free\<rparr>))"

definition primary_available :: "buffer_pool \<Rightarrow> usize" where
  "primary_available p = length (bp_free p)"

definition try_acquire_shadow :: "buffer_pool \<Rightarrow> pooled_buffer option \<times> buffer_pool" where
  "try_acquire_shadow p =
     (case bp_shadow p of
        None \<Rightarrow> (None, p)
      | Some s \<Rightarrow>
          (case vec_pop s of
             None \<Rightarrow> (None, p)
           | Some (buf, s') \<Rightarrow>
               (Some \<lparr>pb_buffer = buf, pb_slot = Shadow\<rparr>, p\<lparr>bp_shadow := Some s'\<rparr>)))"

definition promote_shadow :: "pooled_buffer \<Rightarrow> pooled_buffer" where
  "promote_shadow b = (if pb_slot b = Shadow then b\<lparr>pb_slot := Primary\<rparr> else b)"

definition pooled_drop :: "buffer_pool \<Rightarrow> pooled_buffer \<Rightarrow> buffer_pool" where
  "pooled_drop p b =
     (case pb_slot b of
        Primary \<Rightarrow> p\<lparr>bp_free := vec_push (bp_free p) (pb_buffer b), bp_notify := Suc (bp_notify p)\<rparr>
      | Shadow \<Rightarrow>
          (case bp_shadow p of
             Some s \<Rightarrow> p\<lparr>bp_shadow := Some (vec_push s (pb_buffer b)),
                         bp_notify_shadow := Suc (bp_notify_shadow p)\<rparr>
           | None \<Rightarrow> p\<lparr>bp_free := vec_push (bp_free p) (pb_buffer b), bp_notify := Suc (bp_notify p)\<rparr>))"

subsection \<open>Guards in circulation\<close>

text \<open>
  A pool together with the guards its clients hold. Clients acquire from either half, write
  into a guard (its length is fixed), confirm a speculative prefetch by promoting its guard, and
  drop guards, in any order.
\<close>

type_synonym circulation = "buffer_pool \<times> pooled_buffer list"

inductive pool_step :: "circulation \<Rightarrow> circulation \<Rightarrow> bool" where
  acquire_primary: "try_acquire p = (Some b, p') \<Longrightarrow> pool_step (p, gs) (p', b # gs)"
| acquire_shadow: "try_acquire_shadow p = (Some b, p') \<Longrightarrow> pool_step (p, gs) (p', b # gs)"
| promote: "i < length gs \<Longrightarrow> pool_step (p, gs) (p, gs[i := promote_shadow (gs ! i)])"
| write_bytes: "i < length gs \<Longrightarrow> length bs = length (as_slice (gs ! i)) \<Longrightarrow>
    pool_step (p, gs) (p, gs[i := (gs ! i)\<lparr>pb_buffer := (pb_buffer (gs ! i))\<lparr>ab_bytes := bs\<rparr>\<rparr>])"
| drop_guard: "i < length gs \<Longrightarrow> pool_step (p, gs) (pooled_drop p (gs ! i), take i gs @ drop (Suc i) gs)"

inductive pool_run :: "circulation \<Rightarrow> circulation \<Rightarrow> bool" where
  refl: "pool_run c c"
| step: "pool_run c d \<Longrightarrow> pool_step d e \<Longrightarrow> pool_run c e"

definition buffers :: "circulation \<Rightarrow> aligned_buffer multiset" where
  "buffers c = mset (bp_free (fst c)) + mset (case bp_shadow (fst c) of Some s \<Rightarrow> s | None \<Rightarrow> []) +
     mset (map pb_buffer (snd c))"

text \<open>The identity and shape of a buffer: what writing into it cannot change.\<close>

definition buffer_shape :: "aligned_buffer \<Rightarrow> nat \<times> usize \<times> usize" where
  "buffer_shape b = (ab_ptr b, buffer_len b, ab_align b)"

abbreviation shapes :: "circulation \<Rightarrow> (nat \<times> usize \<times> usize) multiset" where
  "shapes c \<equiv> image_mset buffer_shape (buffers c)"

lemma try_acquire_Some:
  "try_acquire p = (Some b, p') \<longleftrightarrow> pb_slot b = Primary \<and> bp_free p = bp_free p' @ [pb_buffer b] \<and>
     p' = p\<lparr>bp_free := bp_free p'\<rparr>"
  by (cases b) (auto simp: try_acquire_def vec_pop_Some split: option.splits)

lemma try_acquire_shadow_Some:
  "try_acquire_shadow p = (Some b, p') \<longleftrightarrow> pb_slot b = Shadow \<and>
     (\<exists>s. bp_shadow p = Some (s @ [pb_buffer b]) \<and> p' = p\<lparr>bp_shadow := Some s\<rparr>)"
  by (cases b) (auto simp: try_acquire_shadow_def vec_pop_Some split: option.splits)

lemma mset_update_image:
  "i < length xs \<Longrightarrow> f x = f (xs ! i) \<Longrightarrow>
    image_mset f (mset (xs[i := x])) = image_mset f (mset xs)"
  by (metis list_update_id map_update mset_map)

lemma mset_take_drop: "i < length xs \<Longrightarrow> mset xs = add_mset (xs ! i) (mset (take i xs @ drop (Suc i) xs))"
  by (subst id_take_nth_drop [of i xs]) auto

lemma pooled_drop_buffers:
  "buffers (pooled_drop p b, gs) = add_mset (pb_buffer b) (buffers (p, gs))"
  by (cases "pb_slot b") (auto simp: pooled_drop_def buffers_def vec_push_def split: option.splits)

lemma pool_step_shapes: "pool_step c d \<Longrightarrow> shapes d = shapes c"
proof (induction rule: pool_step.induct)
  case (acquire_primary p b p' gs)
  then have f: "bp_free p = bp_free p' @ [pb_buffer b]" and s: "bp_shadow p' = bp_shadow p"
    by (auto simp: try_acquire_Some) (metis buffer_pool.select_convs(2) buffer_pool.surjective buffer_pool.update_convs(1))
  then show ?case by (simp add: buffers_def)
next
  case (acquire_shadow p b p' gs)
  then show ?case by (auto simp: try_acquire_shadow_Some buffers_def)
next
  case (promote i gs p)
  then have "image_mset pb_buffer (mset (gs[i := promote_shadow (gs ! i)])) = image_mset pb_buffer (mset gs)"
    by (intro mset_update_image) (auto simp: promote_shadow_def)
  then show ?case by (simp add: buffers_def)
next
  case (write_bytes i gs bs p)
  let ?g = "(gs ! i)\<lparr>pb_buffer := (pb_buffer (gs ! i))\<lparr>ab_bytes := bs\<rparr>\<rparr>"
  have "image_mset (buffer_shape \<circ> pb_buffer) (mset (gs[i := ?g])) =
      image_mset (buffer_shape \<circ> pb_buffer) (mset gs)"
    using write_bytes by (intro mset_update_image) (auto simp: buffer_shape_def buffer_len_def as_slice_def)
  then show ?case by (simp add: buffers_def multiset.map_comp)
next
  case (drop_guard i gs p)
  from mset_take_drop [OF drop_guard] show ?case
    by (simp add: pooled_drop_buffers) (simp add: buffers_def)
qed

lemma pool_run_shapes: "pool_run c d \<Longrightarrow> shapes d = shapes c"
  by (induction rule: pool_run.induct) (auto dest: pool_step_shapes)

lemma aligned_buffer_new_Return:
  "aligned_buffer_new ptr sz al = Return b \<Longrightarrow>
    b = \<lparr>ab_ptr = ptr, ab_bytes = replicate sz 0, ab_align = al\<rparr> \<and> 0 < sz \<and> al dvd sz"
  by (auto simp: aligned_buffer_new_def split: if_splits)

lemma allocate_buffers_shapes:
  "allocate_buffers ptrs sz al = Return bs \<Longrightarrow> map buffer_shape bs = map (\<lambda>p. (p, sz, al)) ptrs"
  by (induction ptrs arbitrary: bs)
    (auto simp: obind_Return_iff buffer_shape_def buffer_len_def dest!: aligned_buffer_new_Return)

lemma new_with_origin_shapes:
  assumes "new_with_origin ptrs sptrs sz al origin g = Return (p, g')"
  shows "shapes (p, []) = mset (map (\<lambda>a. (a, sz, al)) (ptrs @ sptrs))"
proof -
  have len: "length sptrs = 0 \<longleftrightarrow> sptrs = []" by simp
  from assms show ?thesis
    by (auto simp: new_with_origin_def Let_def obind_Return_iff buffers_def len
        simp flip: mset_map dest!: allocate_buffers_shapes split: if_splits)
qed

definition all_buffers :: "circulation \<Rightarrow> aligned_buffer list" where
  "all_buffers c = bp_free (fst c) @ (case bp_shadow (fst c) of Some s \<Rightarrow> s | None \<Rightarrow> []) @
     map pb_buffer (snd c)"

lemma mset_all_buffers: "mset (all_buffers c) = buffers c"
  by (simp add: all_buffers_def buffers_def)

text \<open>C16: however clients acquire, write, promote and drop guards, the pool neither loses nor
  duplicates a buffer: the buffers in the two free lists and in the guards are always exactly
  those allocated at construction, each at its own address, with the configured length and
  alignment.\<close>

theorem buffers_conserved:
  assumes new: "new_with_origin ptrs sptrs sz al origin g = Return (p, g')"
    and "distinct (ptrs @ sptrs)" and run: "pool_run (p, []) c"
  shows "mset (map ab_ptr (all_buffers c)) = mset (ptrs @ sptrs) \<and>
    distinct (map ab_ptr (all_buffers c)) \<and>
    (\<forall>b\<in>set (all_buffers c). buffer_len b = sz \<and> ab_align b = al)"
proof -
  have sh: "mset (map buffer_shape (all_buffers c)) = mset (map (\<lambda>a. (a, sz, al)) (ptrs @ sptrs))"
    using pool_run_shapes [OF run] new_with_origin_shapes [OF new] by (simp add: mset_all_buffers)
  have fst_shape: "map ab_ptr bs = map fst (map buffer_shape bs)" for bs
    by (simp add: buffer_shape_def)
  have "mset (map ab_ptr (all_buffers c)) = image_mset fst (mset (map buffer_shape (all_buffers c)))"
    by (simp only: fst_shape mset_map)
  also have "\<dots> = mset (ptrs @ sptrs)" unfolding sh by (simp add: multiset.map_comp comp_def)
  finally have ptr: "mset (map ab_ptr (all_buffers c)) = mset (ptrs @ sptrs)" .
  moreover have "distinct (map ab_ptr (all_buffers c))"
    using assms(2) mset_eq_imp_distinct_iff [OF ptr] by simp
  moreover have "buffer_len b = sz \<and> ab_align b = al" if "b \<in> set (all_buffers c)" for b
  proof -
    have "buffer_shape b \<in> set (map buffer_shape (all_buffers c))" using that by simp
    also have "\<dots> = set (map (\<lambda>a. (a, sz, al)) (ptrs @ sptrs))" using sh by (metis set_mset_mset)
    finally show ?thesis by (auto simp: buffer_shape_def)
  qed
  ultimately show ?thesis by blast
qed

definition demo_buffer :: "nat \<Rightarrow> aligned_buffer" where
  "demo_buffer a = \<lparr>ab_ptr = a, ab_bytes = [0, 0], ab_align = 2\<rparr>"

definition demo_bpool :: buffer_pool where
  "demo_bpool = \<lparr>bp_free = [demo_buffer 10], bp_shadow = Some [demo_buffer 20], bp_notify = 0,
     bp_notify_shadow = 0, bp_primary_slots = 1, bp_shadow_slots = 1, bp_buffer_size = 2,
     bp_align = 2, bp_origin = Production\<rparr>"

definition no_gauges :: pool_gauges where
  "no_gauges = \<lparr>g_primary_bytes = 0, g_shadow_bytes = 0, g_oracle_bytes = 0\<rparr>"

lemma demo_bpool_new:
  "new_with_origin [10] [20] 2 2 Production no_gauges =
     Return (demo_bpool, no_gauges\<lparr>g_primary_bytes := 2, g_shadow_bytes := 2\<rparr>)"
  by (simp add: new_with_origin_def aligned_buffer_new_def is_power_of_two.simps isize_MAX_def
      demo_bpool_def demo_buffer_def no_gauges_def slot_bytes_def u64_saturating_mul_def)
    (simp add: numeral_2_eq_2)

lemma demo_bpool_run:
  "pool_run (demo_bpool, []) (demo_bpool\<lparr>bp_shadow := Some []\<rparr>, [\<lparr>pb_buffer = demo_buffer 20, pb_slot = Shadow\<rparr>])"
  by (rule pool_run.step [OF pool_run.refl pool_step.acquire_shadow])
    (simp add: try_acquire_shadow_Some demo_bpool_def)

theorem buffers_conserved_witness:
  "distinct (map ab_ptr (all_buffers (demo_bpool\<lparr>bp_shadow := Some []\<rparr>,
     [\<lparr>pb_buffer = demo_buffer 20, pb_slot = Shadow\<rparr>])))"
  using buffers_conserved [OF demo_bpool_new _ demo_bpool_run] by simp

text \<open>Confirming a prefetch moves one buffer of capacity from the shadow half to the primary
  half for good: after acquiring a shadow buffer, promoting and dropping it, the primary half
  offers one buffer more and the shadow half one less, a primary waiter is notified, and a
  buffer dropped without promotion goes back where it came from.\<close>

theorem promotion_moves_slot:
  assumes "try_acquire_shadow p = (Some b, p')"
  defines "q \<equiv> pooled_drop p' (promote_shadow b)"
  shows "primary_available q = primary_available p + 1 \<and>
    map_option length (bp_shadow p) = map_option (Suc \<circ> length) (bp_shadow q) \<and>
    bp_notify q = bp_notify p + 1 \<and> bp_notify_shadow q = bp_notify_shadow p \<and>
    pooled_drop p' b = p\<lparr>bp_notify_shadow := bp_notify_shadow p + 1\<rparr>"
  using assms
  by (auto simp: try_acquire_shadow_Some promote_shadow_def pooled_drop_def primary_available_def
      vec_push_def)

theorem promotion_moves_slot_witness:
  "primary_available (pooled_drop (demo_bpool\<lparr>bp_shadow := Some []\<rparr>)
     (promote_shadow \<lparr>pb_buffer = demo_buffer 20, pb_slot = Shadow\<rparr>)) = 2"
  using promotion_moves_slot [of demo_bpool "\<lparr>pb_buffer = demo_buffer 20, pb_slot = Shadow\<rparr>"
      "demo_bpool\<lparr>bp_shadow := Some []\<rparr>"]
  by (simp add: try_acquire_shadow_Some demo_bpool_def primary_available_def)

lemma gauges_balanced:
  assumes "new_with_origin ptrs sptrs sz al origin g = Return (p, g')"
  shows "inner_drop p g' = g"
  using assms
  by (auto simp: new_with_origin_def Let_def obind_Return_iff inner_drop_def split: if_splits
      buffer_pool_origin.splits)

end
