(* ===== verification/PackedStorage.thy ===== *)
theory PackedStorage
  imports Prelude "HOL-Library.Multiset"
begin

section \<open>Packed expert storage\<close>

text \<open>
  Model of \<open>packed_storage.rs\<close>: the manifest that maps an expert id to its slot in one blob
  file, its validation, and the grouping of requested experts into runs that one vectored read
  can fetch. The manifest's hash map is an association list in some iteration order; the file's
  length is an argument. JSON and file handling are left out. Sums of offsets and lengths are
  64-bit words, as in the code, so they wrap.
\<close>

record packed_entry =
  pe_offset :: u64
  pe_len :: u64

record packed_manifest =
  pm_block_align :: u64
  pm_expert_size :: u64
  pm_entries :: "(u32 \<times> packed_entry) list"
  pm_order :: "u32 list"

fun uniform_entries ::
    "nat \<Rightarrow> u32 list \<Rightarrow> u64 \<Rightarrow> (u32 \<times> packed_entry) list \<Rightarrow> (u32 \<times> packed_entry) list" where
  "uniform_entries i [] expert_size entries = entries"
| "uniform_entries i (eid # ids) expert_size entries =
     uniform_entries (Suc i) ids expert_size
       (map_insert entries eid \<lparr>pe_offset = of_nat i * expert_size, pe_len = expert_size\<rparr>)"

definition uniform :: "u32 list \<Rightarrow> u64 \<Rightarrow> u64 \<Rightarrow> packed_manifest" where
  "uniform order expert_size block_align =
     \<lparr>pm_block_align = block_align, pm_expert_size = expert_size,
      pm_entries = uniform_entries 0 order expert_size [], pm_order = order\<rparr>"

definition manifest_len :: "packed_manifest \<Rightarrow> usize" where
  "manifest_len m = length (pm_entries m)"

definition entry_end :: "packed_entry \<Rightarrow> u64" where
  "entry_end e = pe_offset e + pe_len e"

definition blob_len :: "packed_manifest \<Rightarrow> u64" where
  "blob_len m = (if pm_entries m = [] then 0 else Max (set (map (entry_end \<circ> snd) (pm_entries m))))"

datatype packed_error =
    ZeroExpertSize
  | EntryLen u32 u64 u64
  | EntryOffset u32 u64 u64
  | Truncated u64 u64

fun validate_entries :: "u64 \<Rightarrow> (u32 \<times> packed_entry) list \<Rightarrow> packed_error + unit" where
  "validate_entries expert_size [] = Inr ()"
| "validate_entries expert_size ((eid, e) # es) =
     (if pe_len e \<noteq> expert_size then Inl (EntryLen eid (pe_len e) expert_size)
      else if pe_offset e mod expert_size \<noteq> 0 then Inl (EntryOffset eid (pe_offset e) expert_size)
      else validate_entries expert_size es)"

definition manifest_validate :: "packed_manifest \<Rightarrow> packed_error + unit" where
  "manifest_validate m =
     (if pm_entries m = [] then Inr ()
      else if pm_expert_size m = 0 then Inl ZeroExpertSize
      else validate_entries (pm_expert_size m) (pm_entries m))"

definition manifest_entry :: "packed_manifest \<Rightarrow> u32 \<Rightarrow> packed_entry option" where
  "manifest_entry m eid = map_of (pm_entries m) eid"

definition blob_validate :: "packed_manifest \<Rightarrow> u64 \<Rightarrow> packed_error + unit" where
  "blob_validate m actual_len =
     (case manifest_validate m of
        Inl e \<Rightarrow> Inl e
      | Inr _ \<Rightarrow>
          let expected_len = blob_len m in
          if actual_len < expected_len then Inl (Truncated actual_len expected_len) else Inr ())"

record contiguous_run =
  start_offset :: u64
  total_len :: u64
  members :: "(u32 \<times> usize) list"

type_synonym request = "u32 \<times> usize \<times> packed_entry"

abbreviation req_entry :: "request \<Rightarrow> packed_entry" where
  "req_entry r \<equiv> snd (snd r)"

fun coalesce_loop ::
    "contiguous_run \<Rightarrow> u64 \<Rightarrow> contiguous_run list \<Rightarrow> request list \<Rightarrow> contiguous_run list" where
  "coalesce_loop cur cur_end runs [] = runs @ [cur]"
| "coalesce_loop cur cur_end runs ((eid, idx, entry) # rest) =
     (if pe_offset entry = cur_end
      then coalesce_loop
             (cur\<lparr>total_len := total_len cur + pe_len entry, members := members cur @ [(eid, idx)]\<rparr>)
             (pe_offset entry + pe_len entry) runs rest
      else coalesce_loop
             \<lparr>start_offset = pe_offset entry, total_len = pe_len entry, members = [(eid, idx)]\<rparr>
             (pe_offset entry + pe_len entry) (runs @ [cur]) rest)"

definition coalesce_runs :: "request list \<Rightarrow> contiguous_run list" where
  "coalesce_runs requested =
     (if requested = [] then []
      else case sort_key (\<lambda>r. pe_offset (req_entry r)) requested of
        (eid, idx, entry) # rest \<Rightarrow>
          coalesce_loop
            \<lparr>start_offset = pe_offset entry, total_len = pe_len entry, members = [(eid, idx)]\<rparr>
            (pe_offset entry + pe_len entry) [] rest
      | [] \<Rightarrow> [])"

subsection \<open>Manifests\<close>

definition slot_ok :: "u64 \<Rightarrow> packed_entry \<Rightarrow> bool" where
  "slot_ok n e \<longleftrightarrow> pe_len e = n \<and> pe_offset e mod n = 0"

lemma validate_entries_ok:
  "validate_entries n es = Inr () \<longleftrightarrow> (\<forall>(eid, e)\<in>set es. slot_ok n e)"
  by (induction n es rule: validate_entries.induct) (auto simp: slot_ok_def)

lemma manifest_validate_ok:
  "manifest_validate m = Inr () \<longleftrightarrow>
     pm_entries m = [] \<or> pm_expert_size m \<noteq> 0 \<and> (\<forall>(eid, e)\<in>set (pm_entries m). slot_ok (pm_expert_size m) e)"
  by (auto simp: manifest_validate_def validate_entries_ok)

lemma blob_validate_ok:
  "blob_validate m n = Inr () \<longleftrightarrow> manifest_validate m = Inr () \<and> blob_len m \<le> n"
  by (auto simp: blob_validate_def Let_def split: sum.splits)

lemma blob_len_ge: "(eid, e) \<in> set (pm_entries m) \<Longrightarrow> entry_end e \<le> blob_len m"
  unfolding blob_len_def by (auto intro!: Max_ge image_eqI [of _ _ "(eid, e)"])

lemma entry_end_exact:
  "unat (pe_offset e) + unat (pe_len e) < 2 ^ 64 \<Longrightarrow>
    unat (entry_end e) = unat (pe_offset e) + unat (pe_len e)"
  by (simp add: entry_end_def unat_word_ariths)

text \<open>Slots at multiples of the slot size are equal or disjoint.\<close>

lemma slots_apart:
  fixes a b n :: nat
  assumes "n dvd a" "n dvd b" "a \<noteq> b" "0 < n"
  shows "a + n \<le> b \<or> b + n \<le> a"
proof -
  obtain x y where xy: "a = n * x" "b = n * y" using assms(1,2) by (auto elim!: dvdE)
  have "x < y \<or> y < x" using assms(3) xy by auto
  then have "Suc x \<le> y \<or> Suc y \<le> x" by auto
  then have "n * Suc x \<le> n * y \<or> n * Suc y \<le> n * x" using mult_le_mono2 by blast
  then show ?thesis by (simp add: xy add.commute)
qed

lemma slot_ok_dvd: "slot_ok n e \<Longrightarrow> unat n dvd unat (pe_offset e)"
proof -
  assume "slot_ok n e"
  then have "pe_offset e mod n = 0" by (simp add: slot_ok_def)
  then have "unat (pe_offset e) mod unat n = 0" by (metis unat_0 unat_mod)
  then show ?thesis by auto
qed

subsection \<open>Coalescing\<close>

text \<open>The reference: a list split where an entry does not start at its predecessor's end.\<close>

abbreviation req_end :: "request \<Rightarrow> u64" where
  "req_end r \<equiv> entry_end (req_entry r)"

fun grow :: "request list \<Rightarrow> request list \<Rightarrow> request list list" where
  "grow pre [] = [pre]"
| "grow pre (x # xs) =
     (if pe_offset (req_entry x) = req_end (last pre) then grow (pre @ [x]) xs
      else pre # grow [x] xs)"

definition run_of :: "request list \<Rightarrow> contiguous_run" where
  "run_of g = \<lparr>start_offset = pe_offset (req_entry (hd g)),
     total_len = sum_list (map (pe_len \<circ> req_entry) g),
     members = map (\<lambda>r. (fst r, fst (snd r))) g\<rparr>"

fun chained :: "request list \<Rightarrow> bool" where
  "chained (x # y # xs) \<longleftrightarrow> pe_offset (req_entry y) = req_end x \<and> chained (y # xs)"
| "chained _ \<longleftrightarrow> True"

lemma run_of_snoc:
  "g \<noteq> [] \<Longrightarrow> run_of (g @ [(eid, idx, e)]) =
    (run_of g)\<lparr>total_len := total_len (run_of g) + pe_len e,
      members := members (run_of g) @ [(eid, idx)]\<rparr>"
  by (simp add: run_of_def)

lemma coalesce_loop_grow:
  "pre \<noteq> [] \<Longrightarrow> coalesce_loop (run_of pre) (req_end (last pre)) runs rest =
    runs @ map run_of (grow pre rest)"
proof (induction rest arbitrary: pre runs)
  case (Cons x xs)
  obtain eid idx e where x: "x = (eid, idx, e)" by (cases x)
  have single: "run_of [x] = \<lparr>start_offset = pe_offset e, total_len = pe_len e, members = [(eid, idx)]\<rparr>"
    by (simp add: run_of_def x)
  show ?case
  proof (cases "pe_offset e = req_end (last pre)")
    case True
    then show ?thesis using Cons.IH [of "pre @ [x]" runs] Cons.prems
      by (simp add: x run_of_snoc entry_end_def)
  next
    case False
    then show ?thesis using Cons.IH [of "[x]" "runs @ [run_of pre]"]
      by (simp add: x single [unfolded x] entry_end_def)
  qed
qed simp

lemma coalesce_runs_grow:
  assumes "sort_key (\<lambda>r. pe_offset (req_entry r)) requested = x # xs"
  shows "coalesce_runs requested = map run_of (grow [x] xs)"
proof -
  obtain eid idx e where x: "x = (eid, idx, e)" by (cases x)
  have ne: "requested \<noteq> []" using assms by auto
  have "run_of [x] = \<lparr>start_offset = pe_offset e, total_len = pe_len e, members = [(eid, idx)]\<rparr>"
    by (simp add: run_of_def x)
  with coalesce_loop_grow [of "[x]" "[]" xs] ne assms show ?thesis
    by (simp add: coalesce_runs_def x entry_end_def)
qed

lemma concat_grow: "concat (grow pre xs) = pre @ xs"
  by (induction pre xs rule: grow.induct) auto

lemma hd_grow: "pre \<noteq> [] \<Longrightarrow> grow pre xs \<noteq> [] \<and> hd (hd (grow pre xs)) = hd pre"
  by (induction pre xs rule: grow.induct) auto

lemma chained_snoc: "xs \<noteq> [] \<Longrightarrow>
    chained (xs @ [y]) \<longleftrightarrow> chained xs \<and> pe_offset (req_entry y) = req_end (last xs)"
  by (induction xs rule: chained.induct) auto

lemma grow_chained:
  "pre \<noteq> [] \<Longrightarrow> chained pre \<Longrightarrow> \<forall>g\<in>set (grow pre xs). g \<noteq> [] \<and> chained g"
  by (induction pre xs rule: grow.induct) (auto simp: chained_snoc)

lemma grow_maximal:
  assumes "pre \<noteq> []" "Suc i < length (grow pre xs)"
  shows "pe_offset (req_entry (hd (grow pre xs ! Suc i))) \<noteq> req_end (last (grow pre xs ! i))"
  using assms
proof (induction pre xs arbitrary: i rule: grow.induct)
  case (2 pre x xs)
  show ?case
  proof (cases "pe_offset (req_entry x) = req_end (last pre)")
    case False
    show ?thesis
    proof (cases i)
      case 0
      have "grow [x] xs ! 0 = hd (grow [x] xs)" using hd_grow [of "[x]" xs] by (simp add: hd_conv_nth)
      then show ?thesis using 0 False hd_grow [of "[x]" xs] by simp
    next
      case (Suc j)
      then show ?thesis using 2 False by simp
    qed
  qed (use 2 in simp)
qed simp

text \<open>A vectored read fills the destination buffers one after the other.\<close>

fun scatter :: "'a list \<Rightarrow> nat list \<Rightarrow> 'a list list" where
  "scatter bs [] = []"
| "scatter bs (n # ns) = take n bs # scatter (drop n bs) ns"

abbreviation req_off :: "request \<Rightarrow> nat" where
  "req_off r \<equiv> unat (pe_offset (req_entry r))"

abbreviation req_len :: "request \<Rightarrow> nat" where
  "req_len r \<equiv> unat (pe_len (req_entry r))"

lemma unat_sum_list:
  "sum_list (map unat ws) < 2 ^ 64 \<Longrightarrow> unat (sum_list (ws :: u64 list)) = sum_list (map unat ws)"
  by (induction ws) (auto simp: unat_word_ariths)

lemma chained_end:
  assumes "chained g" "g \<noteq> []" "\<forall>r\<in>set g. req_off r + req_len r < 2 ^ 64"
  shows "req_off (hd g) + sum_list (map req_len g) = req_off (last g) + req_len (last g)"
  using assms by (induction g rule: chained.induct) (auto simp: entry_end_exact)

lemma scatter_chained:
  assumes "chained g" "\<forall>r\<in>set g. req_off r + req_len r < 2 ^ 64"
  shows "scatter (subslice blob (req_off (hd g)) (sum_list (map req_len g))) (map req_len g) =
    map (\<lambda>r. subslice blob (req_off r) (req_len r)) g"
  using assms
proof (induction g rule: chained.induct)
  case (1 x y xs)
  have "req_off y = req_off x + req_len x" using 1 by (simp add: entry_end_exact)
  then have "drop (req_len x) (subslice blob (req_off x) (req_len x + sum_list (map req_len (y # xs)))) =
      subslice blob (req_off (hd (y # xs))) (sum_list (map req_len (y # xs)))"
    by (simp add: subslice_def drop_take add.commute)
  with 1 show ?case by (simp add: subslice_def)
qed (simp_all add: subslice_def)

text \<open>C28: a blob that passes validation can be read slot by slot: if no entry's end wraps, every
  expert's slot lies inside the file and has the uniform size, and the slots of two entries
  either coincide or do not overlap.\<close>

theorem packed_slots_safe:
  assumes "blob_validate m n = Inr ()"
    and "manifest_entry m i = Some e" "manifest_entry m j = Some f"
    and "unat (pe_offset e) + unat (pe_len e) < 2 ^ 64"
  shows "pe_len e = pm_expert_size m \<and> unat (pe_offset e) + unat (pe_len e) \<le> unat n \<and>
    (pe_offset e = pe_offset f \<or>
     unat (pe_offset e) + unat (pe_len e) \<le> unat (pe_offset f) \<or>
     unat (pe_offset f) + unat (pe_len f) \<le> unat (pe_offset e))"
proof -
  let ?n = "pm_expert_size m"
  have mem: "(i, e) \<in> set (pm_entries m)" "(j, f) \<in> set (pm_entries m)"
    using assms(2,3) by (auto simp: manifest_entry_def dest: map_of_SomeD)
  with assms(1) have nz: "?n \<noteq> 0" and ok: "slot_ok ?n e" "slot_ok ?n f" and le: "blob_len m \<le> n"
    by (auto simp: blob_validate_ok manifest_validate_ok)
  have "entry_end e \<le> n" using blob_len_ge [OF mem(1)] le by (rule order_trans)
  with assms(4) have "unat (pe_offset e) + unat (pe_len e) \<le> unat n"
    by (metis entry_end_exact word_le_nat_alt)
  moreover have "unat (pe_offset e) + unat ?n \<le> unat (pe_offset f) \<or>
      unat (pe_offset f) + unat ?n \<le> unat (pe_offset e)" if "pe_offset e \<noteq> pe_offset f"
    using that nz by (intro slots_apart slot_ok_dvd ok) (auto simp: word_unat_eq_iff)
  ultimately show ?thesis using ok by (auto simp: slot_ok_def)
qed

theorem packed_slots_safe_witness:
  "unat (4 :: u64) + unat (4 :: u64) \<le> unat (8 :: u64) \<and>
    blob_validate (uniform [7, 3] 4 4) 8 = Inr ()"
proof -
  have v: "blob_validate (uniform [7, 3] 4 4) 8 = Inr ()"
    by (simp add: blob_validate_def manifest_validate_def uniform_def rust_defs blob_len_def entry_end_def)
  have e: "manifest_entry (uniform [7, 3] 4 4) 3 = Some \<lparr>pe_offset = 4, pe_len = 4\<rparr>"
    by (simp add: manifest_entry_def uniform_def rust_defs)
  from packed_slots_safe [OF v e e] v show ?thesis by simp
qed

text \<open>C33: the grouping of requested experts is correct and useful: the groups, read in order, are
  the requests sorted by offset, each run describes its group, no two neighbouring runs could
  have been joined, and reading a run's bytes at once and scattering them over the members'
  buffers yields for every member exactly the bytes a separate read of its slot would.\<close>

theorem coalesce_runs_correct:
  assumes "\<forall>r\<in>set requested. req_off r + req_len r \<le> length blob" "length blob < 2 ^ 64"
  shows "\<exists>groups. concat groups = sort_key (\<lambda>r. pe_offset (req_entry r)) requested \<and>
    map members (coalesce_runs requested) = map (map (\<lambda>r. (fst r, fst (snd r)))) groups \<and>
    (\<forall>i < length groups. groups ! i \<noteq> [] \<and>
       scatter (subslice blob (unat (start_offset (coalesce_runs requested ! i)))
           (unat (total_len (coalesce_runs requested ! i)))) (map req_len (groups ! i)) =
         map (\<lambda>r. subslice blob (req_off r) (req_len r)) (groups ! i)) \<and>
    (\<forall>i. Suc i < length groups \<longrightarrow>
       pe_offset (req_entry (hd (groups ! Suc i))) \<noteq> req_end (last (groups ! i)))"
proof (cases "sort_key (\<lambda>r. pe_offset (req_entry r)) requested")
  case Nil
  then have "requested = []" by (metis length_0_conv length_sort)
  then show ?thesis by (intro exI [of _ "[]"]) (simp add: coalesce_runs_def)
next
  case (Cons x xs)
  let ?gs = "grow [x] xs"
  note runs = coalesce_runs_grow [OF Cons]
  have g: "g \<noteq> [] \<and> chained g" if "g \<in> set ?gs" for g
    using grow_chained [of "[x]" xs] that by simp
  have sub: "set g \<subseteq> set requested" if "g \<in> set ?gs" for g
  proof -
    have "set (concat ?gs) = set requested" using arg_cong [OF Cons, of set] by (simp add: concat_grow)
    then show ?thesis using that by auto
  qed
  have read: "scatter (subslice blob (unat (start_offset (run_of g))) (unat (total_len (run_of g))))
      (map req_len g) = map (\<lambda>r. subslice blob (req_off r) (req_len r)) g" if "g \<in> set ?gs" for g
  proof -
    have in_range: "\<forall>r\<in>set g. req_off r + req_len r < 2 ^ 64"
      using sub [OF that] assms by fastforce
    have "last g \<in> set g" using g [OF that] by simp
    then have "sum_list (map req_len g) < 2 ^ 64"
      using chained_end [OF _ _ in_range] g [OF that] in_range by fastforce
    then have "unat (total_len (run_of g)) = sum_list (map req_len g)"
      using unat_sum_list [of "map (pe_len \<circ> req_entry) g"] by (simp add: run_of_def comp_def)
    then show ?thesis using scatter_chained [OF _ in_range] g [OF that] by (simp add: run_of_def)
  qed
  show ?thesis
  proof (intro exI conjI)
    show "concat ?gs = sort_key (\<lambda>r. pe_offset (req_entry r)) requested"
      by (simp add: concat_grow Cons)
    show "map members (coalesce_runs requested) = map (map (\<lambda>r. (fst r, fst (snd r)))) ?gs"
      by (simp add: runs run_of_def)
  qed (use runs g read grow_maximal [of "[x]" _ xs] in auto)
qed

theorem coalesce_runs_correct_witness:
  "\<exists>groups. concat groups = sort_key (\<lambda>r. pe_offset (req_entry r))
       [(7, 0, \<lparr>pe_offset = 2, pe_len = 2\<rparr>), (3, 1, \<lparr>pe_offset = 0, pe_len = 2\<rparr>)] \<and>
     map (map (\<lambda>r. (fst r, fst (snd r)))) groups = [[(3, 1), (7, 0)]]"
  using coalesce_runs_correct [of "[(7, 0, \<lparr>pe_offset = 2, pe_len = 2\<rparr>), (3, 1, \<lparr>pe_offset = 0, pe_len = 2\<rparr>)]"
      "[1 :: u8, 2, 3, 4]"]
  by (auto simp: coalesce_runs_def)


subsection \<open>The uniform layout\<close>

lemma uniform_entries_eq:
  "distinct ids \<Longrightarrow> set ids \<inter> fst ` set es = {} \<Longrightarrow>
    uniform_entries i ids n es =
      rev (map (\<lambda>(k, eid). (eid, \<lparr>pe_offset = of_nat k * n, pe_len = n\<rparr>)) (enumerate i ids)) @ es"
proof (induction ids arbitrary: i es)
  case (Cons x ids)
  have "filter (\<lambda>e. fst e \<noteq> x) es = es" using Cons.prems(2) by (auto simp: filter_id_conv)
  then have "map_insert es x v = (x, v) # es" for v by (simp add: map_insert_def)
  then show ?case using Cons by auto
qed simp

lemma uniform_mem:
  assumes "distinct order"
  shows "(eid, e) \<in> set (pm_entries (uniform order n a)) \<longleftrightarrow>
    (\<exists>i<length order. eid = order ! i \<and> e = \<lparr>pe_offset = of_nat i * n, pe_len = n\<rparr>)"
  using assms
  by (simp add: uniform_def uniform_entries_eq in_set_enumerate_eq image_iff Bex_def split_paired_Ex)

lemma distinct_uniform: "distinct order \<Longrightarrow> distinct (map fst (pm_entries (uniform order n a)))"
  by (simp add: uniform_def uniform_entries_eq comp_def case_prod_unfold flip: rev_map)

lemma slot_exact:
  fixes n :: u64
  assumes "k * unat n < 2 ^ 64" "k < 2 ^ 64"
  shows "unat (of_nat k * n :: u64) = k * unat n"
  using assms by (simp add: unat_word_ariths unat_of_nat)

text \<open>The writer's layout is the one the reader checks: for distinct experts whose slots fit the
  address range, slot i holds the i-th expert of the order at i times the slot size, the blob
  ends after the last slot, and a file of that length passes validation.\<close>

theorem uniform_layout_correct:
  assumes "distinct order" "order \<noteq> []" "n \<noteq> 0" "length order * unat n < 2 ^ 64"
  shows "(\<forall>i<length order. manifest_entry (uniform order n a) (order ! i) =
      Some \<lparr>pe_offset = of_nat i * n, pe_len = n\<rparr>) \<and>
    unat (blob_len (uniform order n a)) = length order * unat n \<and>
    blob_validate (uniform order n a) (of_nat (length order) * n) = Inr ()"
proof -
  let ?m = "uniform order n a" and ?N = "length order"
  note mem = uniform_mem [OF assms(1), of _ _ n a]
  have n: "0 < unat n" using assms(3) by (simp add: unat_gt_0)
  have bound: "k * unat n < 2 ^ 64 \<and> k < 2 ^ 64" if "k \<le> ?N" for k
  proof -
    have "k * unat n \<le> ?N * unat n" using that by simp
    then have "k * unat n < 2 ^ 64" using assms(4) by linarith
    moreover have "k * 1 \<le> k * unat n" using n by (intro mult_le_mono2) simp
    ultimately show ?thesis by linarith
  qed
  have slot: "unat (of_nat k * n :: u64) = k * unat n" if "k \<le> ?N" for k
    using slot_exact bound [OF that] by blast
  have ent: "manifest_entry ?m (order ! i) = Some \<lparr>pe_offset = of_nat i * n, pe_len = n\<rparr>" if "i < ?N" for i
    unfolding manifest_entry_def
    by (rule map_of_is_SomeI [OF distinct_uniform [OF assms(1)]]) (use that in \<open>auto simp: mem\<close>)
  have ends: "entry_end e = of_nat (Suc i) * n" if "e = \<lparr>pe_offset = of_nat i * n, pe_len = n\<rparr>" for e i
    by (simp add: that entry_end_def algebra_simps)
  have ne: "pm_entries ?m \<noteq> []" using assms(2) mem [of "order ! 0"] by (metis length_greater_0_conv list.set(1) empty_iff)
  have len: "blob_len ?m = of_nat ?N * n"
    unfolding blob_len_def if_not_P [OF ne]
  proof (rule Max_eqI)
    fix y assume "y \<in> set (map (entry_end \<circ> snd) (pm_entries ?m))"
    then obtain eid e where "(eid, e) \<in> set (pm_entries ?m)" and y: "y = entry_end e" by auto
    then obtain i where i: "i < ?N" "e = \<lparr>pe_offset = of_nat i * n, pe_len = n\<rparr>" using mem by blast
    then have "unat y \<le> unat (of_nat ?N * n :: u64)"
      unfolding y ends [OF i(2)] slot [OF order_refl] slot [OF Suc_leI [OF i(1)]] by (intro mult_le_mono1) simp
    then show "y \<le> of_nat ?N * n" by (simp add: word_le_nat_alt)
  next
    obtain j where j: "?N = Suc j" using assms(2) by (meson length_0_conv not0_implies_Suc)
    let ?e = "\<lparr>pe_offset = of_nat j * n, pe_len = n\<rparr>"
    have "(order ! j, ?e) \<in> set (pm_entries ?m)" unfolding mem using j by (intro exI [of _ j]) simp
    then have "(entry_end \<circ> snd) (order ! j, ?e) \<in> set (map (entry_end \<circ> snd) (pm_entries ?m))"
      unfolding set_map by (rule imageI)
    moreover have "(entry_end \<circ> snd) (order ! j, ?e) = of_nat ?N * n" using ends [OF refl, of j] j by simp
    ultimately show "of_nat ?N * n \<in> set (map (entry_end \<circ> snd) (pm_entries ?m))" by simp
  qed simp
  have "slot_ok n e" if m: "(eid, e) \<in> set (pm_entries ?m)" for eid e
  proof -
    obtain i where i: "i < ?N" "e = \<lparr>pe_offset = of_nat i * n, pe_len = n\<rparr>" using m unfolding mem by blast
    have "unat (of_nat i * n mod n :: u64) = 0" using slot [of i] i(1) by (simp add: unat_mod)
    then have "of_nat i * n mod n = 0" by (simp only: unat_eq_zero)
    then show ?thesis by (simp add: slot_ok_def i(2))
  qed
  then have "manifest_validate ?m = Inr ()"
    using assms(3) by (auto simp: manifest_validate_ok uniform_def)
  then show ?thesis using ent len slot [OF order_refl] by (simp add: blob_validate_ok)
qed

theorem uniform_layout_correct_witness:
  "unat (blob_len (uniform [7, 3] 4 4)) = 8 \<and> manifest_entry (uniform [7, 3] 4 4) 3 = Some \<lparr>pe_offset = 4, pe_len = 4\<rparr>"
proof -
  have "(\<forall>i<2. manifest_entry (uniform [7, 3] 4 4) ([7, 3] ! i) = Some \<lparr>pe_offset = of_nat i * 4, pe_len = 4\<rparr>) \<and>
    unat (blob_len (uniform [7, 3] 4 4)) = 2 * 4"
    using uniform_layout_correct [of "[7, 3]" 4 4] by simp
  then show ?thesis by (auto dest: spec [of _ 1])
qed

end
