(* ===== verification/GpuCache.thy ===== *)
theory GpuCache
  imports WeightTypes Float32 LruSpec "HOL-Library.While_Combinator" "HOL-Library.Multiset"
begin

section \<open>The logical GPU admission cache\<close>

text \<open>
  Model of \<open>GpuResident\<close>, \<open>GpuAdmission\<close>, \<open>GpuExpertCache\<close> and \<open>GpuDemandSetProtection\<close> of
  \<open>expert_cache.rs\<close>: a byte-budgeted cache in two segments, the anchor core (never evicted) and
  the LRU edge, with promotion markers, generations that identify admissions, and reference
  counted protection of the expert sets that are being executed. The fields behind the mutex and
  the atomic counters form one record, and each operation is one atomic step. Panics are the
  outcome \<open>Panic\<close>; the eviction loops are \<open>while_option\<close>, so an endless loop would be \<open>None\<close>,
  and the lemmas show that neither happens in a well-formed cache.
\<close>

datatype gpu_resident_host_payload =
    Materialized "u8 list"
  | QualificationShared "u8 list"
  | QualificationLogicalOnly usize u64

record gpu_resident =
  gr_id :: u32
  gr_payload :: gpu_resident_host_payload
  gr_dtype :: weight_dtype

definition gpu_resident_new :: "u32 \<Rightarrow> u8 list \<Rightarrow> gpu_resident" where
  "gpu_resident_new eid bytes = \<lparr>gr_id = eid, gr_payload = Materialized bytes, gr_dtype = F32\<rparr>"

definition new_with_dtype :: "u32 \<Rightarrow> u8 list \<Rightarrow> weight_dtype \<Rightarrow> gpu_resident" where
  "new_with_dtype eid bytes dtype = \<lparr>gr_id = eid, gr_payload = Materialized bytes, gr_dtype = dtype\<rparr>"

definition gpu_new_qualification_shared :: "u32 \<Rightarrow> u8 list \<Rightarrow> weight_dtype \<Rightarrow> gpu_resident" where
  "gpu_new_qualification_shared eid bytes dtype =
     \<lparr>gr_id = eid, gr_payload = QualificationShared bytes, gr_dtype = dtype\<rparr>"

definition new_qualification_logical_only ::
    "u32 \<Rightarrow> usize \<Rightarrow> weight_dtype \<Rightarrow> u64 \<Rightarrow> gpu_resident outcome" where
  "new_qualification_logical_only eid charged_bytes dtype data_accesses =
     (if \<not> charged_bytes > 0 then Panic
      else Return \<lparr>gr_id = eid,
        gr_payload = QualificationLogicalOnly charged_bytes data_accesses, gr_dtype = dtype\<rparr>)"

definition gpu_resident_data :: "gpu_resident \<Rightarrow> u8 list outcome" where
  "gpu_resident_data r =
     (case gr_payload r of
        Materialized bytes \<Rightarrow> Return bytes
      | QualificationShared bytes \<Rightarrow> Return bytes
      | QualificationLogicalOnly _ _ \<Rightarrow> Panic)"

definition resident_byte_len :: "gpu_resident \<Rightarrow> usize" where
  "resident_byte_len r =
     (case gr_payload r of
        Materialized bytes \<Rightarrow> length bytes
      | QualificationShared bytes \<Rightarrow> length bytes
      | QualificationLogicalOnly charged_bytes _ \<Rightarrow> charged_bytes)"

record gpu_admission =
  ga_resident :: gpu_resident
  ga_generation :: u64

definition byte_len :: "gpu_admission \<Rightarrow> usize" where
  "byte_len a = resident_byte_len (ga_resident a)"

datatype gpu_lookup = AnchorHit gpu_admission | LruHit gpu_admission | Miss

definition is_hit :: "gpu_lookup \<Rightarrow> bool" where
  "is_hit l \<longleftrightarrow> l \<noteq> Miss"

datatype gpu_demand_admission_error =
    EmptyPayload
  | PayloadExceedsLruCapacity usize usize
  | DuplicateDemandExpert u32
  | DemandSourceIdentityMismatch u32 u32
  | DemandSetExceedsLruCapacity usize usize
  | ProtectedDemandCapacity usize usize usize
  | GenerationExhaustedError

datatype gpu_demand_admission_preflight = AlreadyAdmitted | NeedsPayload

datatype gpu_demand_set_admission =
    Ready "gpu_admission list" usize
  | SetPayloadRequired "u32 list"

datatype gpu_hot_promotion_outcome =
    MovedLruToAnchor | InstalledAnchor | InstalledLru | AlreadyAnchor | AlreadyLruAnchorFull
  | PayloadRequired | NoCapacity | GenerationExhausted

definition is_transition :: "gpu_hot_promotion_outcome \<Rightarrow> bool" where
  "is_transition o' \<longleftrightarrow> o' \<in> {MovedLruToAnchor, InstalledAnchor, InstalledLru}"

record 'c gpu_cache =
  anchor :: "(u32 \<times> gpu_admission) list"
  anchor_used_bytes :: usize
  lru :: 'c
  lru_used_bytes :: usize
  next_generation :: u64
  promotion_pending :: "u32 set"
  promotion_rearm :: "u32 set"
  demand_protections :: "u32 \<Rightarrow> usize option"
  anchor_capacity_bytes :: usize
  lru_capacity_bytes :: usize
  promote_after_hits :: u64
  promotions :: u64
  logical_admitted_bytes :: u64
  gpu_hits :: u64
  gpu_misses :: u64

type_synonym 'c gpu_lru = "('c, gpu_admission) lru_ops"

definition gpu_cache_new :: "'c gpu_lru \<Rightarrow> usize \<Rightarrow> f32 \<Rightarrow> u64 \<Rightarrow> 'c gpu_cache" where
  "gpu_cache_new L capacity_bytes anchor_ratio promote_after =
     (let ratio = f32_clamp anchor_ratio (F32_Fin 0) (F32_Fin 1);
          anchor_cap = f32_to_usize (f32_mul (usize_to_f32 capacity_bytes) ratio);
          lru_cap = saturating_sub capacity_bytes anchor_cap
      in \<lparr>anchor = [], anchor_used_bytes = 0, lru = lru_unbounded L, lru_used_bytes = 0,
          next_generation = 1, promotion_pending = {}, promotion_rearm = {},
          demand_protections = Map.empty, anchor_capacity_bytes = anchor_cap,
          lru_capacity_bytes = lru_cap, promote_after_hits = promote_after, promotions = 0,
          logical_admitted_bytes = 0, gpu_hits = 0, gpu_misses = 0\<rparr>)"

definition capacity_bytes :: "'c gpu_cache \<Rightarrow> usize" where
  "capacity_bytes g = anchor_capacity_bytes g + lru_capacity_bytes g"

definition gpu_get :: "'c gpu_lru \<Rightarrow> 'c gpu_cache \<Rightarrow> u32 \<Rightarrow> gpu_lookup \<times> 'c gpu_cache" where
  "gpu_get L g eid =
     (case map_of (anchor g) eid of
        Some r \<Rightarrow> (AnchorHit r, g\<lparr>gpu_hits := gpu_hits g + 1\<rparr>)
      | None \<Rightarrow>
          (let (r, l) = lru_get L (lru g) eid; g = g\<lparr>lru := l\<rparr> in
           case r of
             Some a \<Rightarrow> (LruHit a, g\<lparr>gpu_hits := gpu_hits g + 1\<rparr>)
           | None \<Rightarrow> (Miss, g\<lparr>gpu_misses := gpu_misses g + 1\<rparr>)))"

definition current_admission :: "'c gpu_lru \<Rightarrow> 'c gpu_cache \<Rightarrow> u32 \<Rightarrow> gpu_admission option" where
  "current_admission L g eid =
     (case map_of (anchor g) eid of Some a \<Rightarrow> Some a | None \<Rightarrow> lru_peek L (lru g) eid)"

definition gpu_contains :: "'c gpu_lru \<Rightarrow> 'c gpu_cache \<Rightarrow> u32 \<Rightarrow> bool" where
  "gpu_contains L g eid \<longleftrightarrow> map_of (anchor g) eid \<noteq> None \<or> lru_peek L (lru g) eid \<noteq> None"

definition current_generation :: "'c gpu_lru \<Rightarrow> 'c gpu_cache \<Rightarrow> u32 \<Rightarrow> u64 option" where
  "current_generation L g eid = map_option ga_generation (current_admission L g eid)"

definition contains_generation :: "'c gpu_lru \<Rightarrow> 'c gpu_cache \<Rightarrow> u32 \<Rightarrow> u64 \<Rightarrow> bool" where
  "contains_generation L g eid generation \<longleftrightarrow> current_generation L g eid = Some generation"

definition should_promote :: "'c gpu_cache \<Rightarrow> u64 \<Rightarrow> bool" where
  "should_promote g ram_hits \<longleftrightarrow> promote_after_hits g > 0 \<and> ram_hits \<ge> promote_after_hits g"

definition claim_promotion :: "'c gpu_cache \<Rightarrow> u32 \<Rightarrow> u64 \<Rightarrow> bool \<times> 'c gpu_cache" where
  "claim_promotion g eid ram_hits =
     (if \<not> should_promote g ram_hits then (False, g)
      else if map_of (anchor g) eid \<noteq> None \<or> eid \<in> promotion_pending g then (False, g)
      else
        let threshold_crossed = (ram_hits = promote_after_hits g);
            rearmed_after_eviction = (eid \<in> promotion_rearm g);
            g = g\<lparr>promotion_rearm := promotion_rearm g - {eid}\<rparr>
        in if \<not> threshold_crossed \<and> \<not> rearmed_after_eviction then (False, g)
           else (eid \<notin> promotion_pending g, g\<lparr>promotion_pending := insert eid (promotion_pending g)\<rparr>))"

definition cancel_promotion :: "'c gpu_cache \<Rightarrow> u32 \<Rightarrow> 'c gpu_cache" where
  "cancel_promotion g eid =
     (if eid \<in> promotion_pending g
      then g\<lparr>promotion_pending := promotion_pending g - {eid},
             promotion_rearm := insert eid (promotion_rearm g)\<rparr>
      else g)"

definition clear_markers :: "u32 \<Rightarrow> 'c gpu_cache \<Rightarrow> 'c gpu_cache" where
  "clear_markers eid g = g\<lparr>promotion_pending := promotion_pending g - {eid},
     promotion_rearm := promotion_rearm g - {eid}\<rparr>"

definition allocate_generation :: "'c gpu_cache \<Rightarrow> (u64 \<times> 'c gpu_cache) option" where
  "allocate_generation g =
     (case checked_add_u64 (next_generation g) 1 of
        None \<Rightarrow> None
      | Some n \<Rightarrow> Some (next_generation g, g\<lparr>next_generation := n\<rparr>))"

definition logical_lru_is_protected :: "'c gpu_cache \<Rightarrow> u32 \<Rightarrow> u32 set \<Rightarrow> bool" where
  "logical_lru_is_protected g eid extra \<longleftrightarrow>
     eid \<in> extra \<or> (case demand_protections g eid of Some n \<Rightarrow> n > 0 | None \<Rightarrow> False)"

definition oldest_unprotected_logical_lru :: "'c gpu_lru \<Rightarrow> 'c gpu_cache \<Rightarrow> u32 set \<Rightarrow> u32 option" where
  "oldest_unprotected_logical_lru L g extra =
     find (\<lambda>eid. \<not> logical_lru_is_protected g eid extra) (map fst (rev (lru_iter L (lru g))))"

definition unprotected_logical_lru_bytes :: "'c gpu_lru \<Rightarrow> 'c gpu_cache \<Rightarrow> u32 set \<Rightarrow> usize" where
  "unprotected_logical_lru_bytes L g extra =
     sum_list (map (\<lambda>(eid, a). byte_len a)
       (filter (\<lambda>(eid, a). \<not> logical_lru_is_protected g eid extra) (lru_iter L (lru g))))"

text \<open>Whether \<open>used + bytes\<close> is over the budget, an overflowing sum included.\<close>

definition over_budget :: "usize \<Rightarrow> usize \<Rightarrow> usize \<Rightarrow> bool" where
  "over_budget used bytes cap = (case checked_add used bytes of None \<Rightarrow> True | Some n \<Rightarrow> n > cap)"

definition fits :: "usize \<Rightarrow> usize \<Rightarrow> usize \<Rightarrow> bool" where
  "fits used bytes cap \<longleftrightarrow> bytes \<le> cap \<and>
     (case checked_add used bytes of None \<Rightarrow> False | Some n \<Rightarrow> n \<le> cap)"

text \<open>One turn of the eviction loops. \<open>checked\<close> tells the loops that expect no byte underflow
  from those that saturate.\<close>

definition evict_one :: "'c gpu_lru \<Rightarrow> bool \<Rightarrow> u32 set \<Rightarrow> 'c gpu_cache \<Rightarrow> 'c gpu_cache outcome" where
  "evict_one L checked extra g =
     (case oldest_unprotected_logical_lru L g extra of
        None \<Rightarrow> Panic
      | Some victim_id \<Rightarrow>
          (case lru_pop L (lru g) victim_id of
             (None, _) \<Rightarrow> Panic
           | (Some victim, l) \<Rightarrow>
               if checked \<and> lru_used_bytes g < byte_len victim then Panic
               else Return (g\<lparr>lru := l,
                 lru_used_bytes := saturating_sub (lru_used_bytes g) (byte_len victim),
                 promotion_rearm := insert victim_id (promotion_rearm g)\<rparr>)))"

definition evict_loop ::
    "'c gpu_lru \<Rightarrow> bool \<Rightarrow> u32 set \<Rightarrow> usize \<Rightarrow> 'c gpu_cache \<Rightarrow> 'c gpu_cache outcome option" where
  "evict_loop L checked extra bytes g =
     while_option
       (\<lambda>s. case s of Panic \<Rightarrow> False
            | Return g \<Rightarrow> over_budget (lru_used_bytes g) bytes (lru_capacity_bytes g))
       (\<lambda>s. case s of Panic \<Rightarrow> Panic | Return g \<Rightarrow> evict_one L checked extra g)
       (Return g)"

definition refresh_used_bytes :: "'c gpu_cache \<Rightarrow> 'c gpu_cache outcome" where
  "refresh_used_bytes g =
     (case checked_add (anchor_used_bytes g) (lru_used_bytes g) of
        None \<Rightarrow> Panic
      | Some n \<Rightarrow> Return (g\<lparr>logical_admitted_bytes := of_nat n\<rparr>))"

definition record_hot_transition :: "gpu_hot_promotion_outcome \<Rightarrow> 'c gpu_cache \<Rightarrow> 'c gpu_cache" where
  "record_hot_transition o' g = (if is_transition o' then g\<lparr>promotions := promotions g + 1\<rparr> else g)"

text \<open>\<open>put\<close> into the LRU edge and the accounting that follows it.\<close>

definition put_lru :: "'c gpu_lru \<Rightarrow> u32 \<Rightarrow> gpu_admission \<Rightarrow> 'c gpu_cache \<Rightarrow> 'c gpu_cache outcome" where
  "put_lru L eid a g =
     (let (previous, l) = lru_put L (lru g) eid a in
      case checked_add (lru_used_bytes g) (byte_len a) of
        None \<Rightarrow> Panic
      | Some n \<Rightarrow> Return (g\<lparr>lru := l, lru_used_bytes := n\<rparr>))"

definition insert_anchor :: "u32 \<Rightarrow> gpu_admission \<Rightarrow> 'c gpu_cache \<Rightarrow> 'c gpu_cache outcome" where
  "insert_anchor eid a g =
     (case checked_add (anchor_used_bytes g) (byte_len a) of
        None \<Rightarrow> Panic
      | Some n \<Rightarrow> Return (g\<lparr>anchor := map_insert (anchor g) eid a, anchor_used_bytes := n\<rparr>))"

definition resolve_existing_hot_locked ::
    "'c gpu_lru \<Rightarrow> 'c gpu_cache \<Rightarrow> u32 \<Rightarrow> (gpu_hot_promotion_outcome option \<times> 'c gpu_cache) outcome" where
  "resolve_existing_hot_locked L g eid =
     (if map_of (anchor g) eid \<noteq> None then Return (Some AlreadyAnchor, clear_markers eid g)
      else case lru_peek L (lru g) eid of
        None \<Rightarrow> Return (None, g)
      | Some a \<Rightarrow>
          if \<not> fits (anchor_used_bytes g) (byte_len a) (anchor_capacity_bytes g)
          then Return (Some AlreadyLruAnchorFull, clear_markers eid g)
          else (case lru_pop L (lru g) eid of
            (None, _) \<Rightarrow> Panic
          | (Some admission, l) \<Rightarrow>
              if lru_used_bytes g < byte_len a then Panic
              else obind (insert_anchor eid admission
                     (g\<lparr>lru := l, lru_used_bytes := lru_used_bytes g - byte_len a\<rparr>))
                   (\<lambda>g. Return (Some MovedLruToAnchor, clear_markers eid g))))"

definition promote_hot_existing ::
    "'c gpu_lru \<Rightarrow> 'c gpu_cache \<Rightarrow> u32 \<Rightarrow> (gpu_hot_promotion_outcome \<times> 'c gpu_cache) outcome" where
  "promote_hot_existing L g eid =
     obind (resolve_existing_hot_locked L g eid) (\<lambda>(r, g).
       case r of
         None \<Rightarrow> Return (PayloadRequired, g)
       | Some o' \<Rightarrow> Return (o', record_hot_transition o' g))"

definition promote_hot_sync ::
    "'c gpu_lru \<Rightarrow> 'c gpu_cache \<Rightarrow> gpu_resident \<Rightarrow>
     (gpu_hot_promotion_outcome \<times> 'c gpu_cache) outcome option" where
  "promote_hot_sync L g resident =
     (let eid = gr_id resident; bytes = resident_byte_len resident in
      case resolve_existing_hot_locked L g eid of
        Panic \<Rightarrow> Some Panic
      | Return (Some o', g) \<Rightarrow> Some (Return (o', record_hot_transition o' g))
      | Return (None, g) \<Rightarrow>
          if bytes = 0 then Some (Return (NoCapacity, clear_markers eid g))
          else let use_anchor = fits (anchor_used_bytes g) bytes (anchor_capacity_bytes g) in
          if \<not> use_anchor \<and> bytes > lru_capacity_bytes g
          then Some (Return (NoCapacity, clear_markers eid g))
          else if \<not> use_anchor \<and>
             saturating_sub (saturating_add (lru_used_bytes g) bytes) (lru_capacity_bytes g) >
               unprotected_logical_lru_bytes L g {}
          then Some (Return (NoCapacity, clear_markers eid g))
          else case allocate_generation g of
            None \<Rightarrow> Some (Return (GenerationExhausted, clear_markers eid g))
          | Some (generation, g) \<Rightarrow>
              let a = \<lparr>ga_resident = resident, ga_generation = generation\<rparr>;
                  g = clear_markers eid g
              in lbind (if use_anchor
                        then Some (obind (insert_anchor eid a g) (\<lambda>g. Return (InstalledAnchor, g)))
                        else lbind (evict_loop L True {} bytes g) (\<lambda>g.
                          Some (obind (put_lru L eid a g) (\<lambda>g. Return (InstalledLru, g)))))
                   (\<lambda>(o', g).
                     Some (obind (refresh_used_bytes (record_hot_transition o' g))
                             (\<lambda>g. Return (o', g)))))"

definition put_lru_replacing ::
    "'c gpu_lru \<Rightarrow> u32 \<Rightarrow> gpu_admission \<Rightarrow> 'c gpu_cache \<Rightarrow> 'c gpu_cache outcome" where
  "put_lru_replacing L eid a g =
     (let (already, l) = lru_put L (lru g) eid a;
          used = (case already of
              Some prev \<Rightarrow> saturating_sub (lru_used_bytes g) (byte_len prev)
            | None \<Rightarrow> lru_used_bytes g)
      in case checked_add used (byte_len a) of
           None \<Rightarrow> Panic
         | Some n \<Rightarrow> Return (g\<lparr>lru := l, lru_used_bytes := n\<rparr>))"

text \<open>The counter update and the gauge refresh that end a successful promotion.\<close>

definition count_promotions :: "usize \<Rightarrow> 'c gpu_cache \<Rightarrow> 'c gpu_cache outcome" where
  "count_promotions n g = refresh_used_bytes (g\<lparr>promotions := promotions g + of_nat n\<rparr>)"

definition promote_sync ::
    "'c gpu_lru \<Rightarrow> 'c gpu_cache \<Rightarrow> gpu_resident \<Rightarrow> (bool \<times> 'c gpu_cache) outcome option" where
  "promote_sync L g resident =
     (let bytes = resident_byte_len resident; eid = gr_id resident; g = clear_markers eid g in
      if bytes = 0 then Some (Return (False, g))
      else if map_of (anchor g) eid \<noteq> None then Some (Return (True, g))
      else let (hit, l) = lru_get L (lru g) eid; g = g\<lparr>lru := l\<rparr> in
      if hit \<noteq> None then Some (Return (True, g))
      else let use_anchor = fits (anchor_used_bytes g) bytes (anchor_capacity_bytes g) in
      if \<not> use_anchor \<and> bytes > lru_capacity_bytes g then Some (Return (False, g))
      else if \<not> use_anchor \<and>
         saturating_sub (saturating_add (lru_used_bytes g) bytes) (lru_capacity_bytes g) >
           unprotected_logical_lru_bytes L g {}
      then Some (Return (False, g))
      else case allocate_generation g of
        None \<Rightarrow> Some (Return (False, g))
      | Some (generation, g) \<Rightarrow>
          let a = \<lparr>ga_resident = resident, ga_generation = generation\<rparr> in
          if use_anchor
          then Some (obind (insert_anchor eid a g) (\<lambda>g.
                 obind (count_promotions 1 g) (\<lambda>g. Return (True, g))))
          else lbind (evict_loop L False {} bytes g) (\<lambda>g.
                 Some (obind (put_lru_replacing L eid a g) (\<lambda>g.
                   obind (count_promotions 1 g) (\<lambda>g. Return (True, g))))))"

definition try_promote_lru_no_evict ::
    "'c gpu_lru \<Rightarrow> 'c gpu_cache \<Rightarrow> gpu_resident \<Rightarrow> (bool \<times> 'c gpu_cache) outcome" where
  "try_promote_lru_no_evict L g resident =
     (let bytes = resident_byte_len resident; eid = gr_id resident in
      if bytes = 0 then Return (False, g)
      else if map_of (anchor g) eid \<noteq> None \<or> lru_peek L (lru g) eid \<noteq> None
      then Return (False, clear_markers eid g)
      else if over_budget (lru_used_bytes g) bytes (lru_capacity_bytes g) then Return (False, g)
      else case allocate_generation g of
        None \<Rightarrow> Return (False, g)
      | Some (generation, g) \<Rightarrow>
          let a = \<lparr>ga_resident = resident, ga_generation = generation\<rparr>; g = clear_markers eid g
          in obind (put_lru L eid a g) (\<lambda>g. obind (count_promotions 1 g) (\<lambda>g. Return (True, g))))"

fun first_duplicate :: "u32 set \<Rightarrow> u32 list \<Rightarrow> u32 option" where
  "first_duplicate seen [] = None"
| "first_duplicate seen (eid # ids) =
     (if eid \<in> seen then Some eid else first_duplicate (insert eid seen) ids)"

fun register_protections :: "u32 list \<Rightarrow> (u32 \<Rightarrow> usize option) \<Rightarrow> (u32 \<Rightarrow> usize option) outcome" where
  "register_protections [] ps = Return ps"
| "register_protections (eid # ids) ps =
     (case checked_add (case ps eid of Some n \<Rightarrow> n | None \<Rightarrow> 0) 1 of
        None \<Rightarrow> Panic
      | Some n \<Rightarrow> register_protections ids (ps(eid \<mapsto> n)))"

text \<open>A protection guard is the list of ids it registered.\<close>

definition protect_demand_set ::
    "'c gpu_cache \<Rightarrow> u32 list \<Rightarrow> ((gpu_demand_admission_error + u32 list) \<times> 'c gpu_cache) outcome" where
  "protect_demand_set g ids =
     (case first_duplicate {} ids of
        Some eid \<Rightarrow> Return (Inl (DuplicateDemandExpert eid), g)
      | None \<Rightarrow> obind (register_protections ids (demand_protections g))
          (\<lambda>ps. Return (Inr ids, g\<lparr>demand_protections := ps\<rparr>)))"

fun release_protections :: "u32 list \<Rightarrow> (u32 \<Rightarrow> usize option) \<Rightarrow> (u32 \<Rightarrow> usize option) outcome" where
  "release_protections [] ps = Return ps"
| "release_protections (eid # ids) ps =
     (case ps eid of
        None \<Rightarrow> Panic
      | Some n \<Rightarrow>
          if n = 0 then Panic
          else release_protections ids (if n - 1 = 0 then ps(eid := None) else ps(eid \<mapsto> n - 1)))"

definition protection_drop :: "'c gpu_cache \<Rightarrow> u32 list \<Rightarrow> 'c gpu_cache outcome" where
  "protection_drop g ids = obind (release_protections ids (demand_protections g))
     (\<lambda>ps. Return (g\<lparr>demand_protections := ps\<rparr>))"

record demand_scan =
  ds_payload_required :: "u32 list"
  ds_new_ids :: "u32 list"
  ds_selected_lru_bytes :: usize
  ds_new_bytes :: usize

fun scan_demand ::
    "'c gpu_lru \<Rightarrow> 'c gpu_cache \<Rightarrow> (u32 \<Rightarrow> gpu_resident option) \<Rightarrow> u32 list \<Rightarrow> demand_scan \<Rightarrow>
     gpu_demand_admission_error + demand_scan" where
  "scan_demand L g sources [] s = Inr s"
| "scan_demand L g sources (eid # ids) s =
     (let too_big = Inl (DemandSetExceedsLruCapacity usize_MAX (lru_capacity_bytes g)) in
      if map_of (anchor g) eid \<noteq> None then scan_demand L g sources ids s
      else case lru_peek L (lru g) eid of
        Some a \<Rightarrow>
          (case checked_add (ds_selected_lru_bytes s) (byte_len a) of
             None \<Rightarrow> too_big
           | Some n \<Rightarrow> scan_demand L g sources ids (s\<lparr>ds_selected_lru_bytes := n\<rparr>))
      | None \<Rightarrow>
          (case sources eid of
             None \<Rightarrow> scan_demand L g sources ids
               (s\<lparr>ds_payload_required := ds_payload_required s @ [eid]\<rparr>)
           | Some source \<Rightarrow>
               let bytes = resident_byte_len source in
               if gr_id source \<noteq> eid then Inl (DemandSourceIdentityMismatch eid (gr_id source))
               else if bytes = 0 then Inl EmptyPayload
               else if bytes > lru_capacity_bytes g
               then Inl (PayloadExceedsLruCapacity bytes (lru_capacity_bytes g))
               else case checked_add (ds_selected_lru_bytes s) bytes of
                 None \<Rightarrow> too_big
               | Some n \<Rightarrow>
                   (case checked_add (ds_new_bytes s) bytes of
                      None \<Rightarrow> too_big
                    | Some m \<Rightarrow> scan_demand L g sources ids
                        (s\<lparr>ds_selected_lru_bytes := n, ds_new_bytes := m,
                           ds_new_ids := ds_new_ids s @ [eid]\<rparr>))))"

fun install_new ::
    "'c gpu_lru \<Rightarrow> (u32 \<Rightarrow> gpu_resident option) \<Rightarrow> u64 \<Rightarrow> nat \<Rightarrow> u32 list \<Rightarrow> 'c gpu_cache \<Rightarrow>
     'c gpu_cache outcome" where
  "install_new L sources first offset [] g = Return g"
| "install_new L sources first offset (eid # ids) g =
     (case sources eid of
        None \<Rightarrow> Panic
      | Some source \<Rightarrow>
          (case checked_add_u64 first (of_nat offset) of
             None \<Rightarrow> Panic
           | Some generation \<Rightarrow>
               obind (put_lru L eid \<lparr>ga_resident = source, ga_generation = generation\<rparr>
                        (clear_markers eid g))
                 (install_new L sources first (Suc offset) ids)))"

fun collect_admissions ::
    "'c gpu_lru \<Rightarrow> 'c gpu_cache \<Rightarrow> u32 list \<Rightarrow> gpu_admission list outcome" where
  "collect_admissions L g [] = Return []"
| "collect_admissions L g (eid # ids) =
     (case current_admission L g eid of
        None \<Rightarrow> Panic
      | Some a \<Rightarrow> obind (collect_admissions L g ids) (\<lambda>as. Return (a # as)))"

definition empty_scan :: demand_scan where
  "empty_scan = \<lparr>ds_payload_required = [], ds_new_ids = [], ds_selected_lru_bytes = 0, ds_new_bytes = 0\<rparr>"

definition demand_admit_set ::
    "'c gpu_lru \<Rightarrow> 'c gpu_cache \<Rightarrow> u32 list \<Rightarrow> (u32 \<Rightarrow> gpu_resident option) \<Rightarrow>
     ((gpu_demand_admission_error + gpu_demand_set_admission) \<times> 'c gpu_cache) outcome option" where
  "demand_admit_set L g ids sources =
     (case first_duplicate {} ids of
        Some eid \<Rightarrow> Some (Return (Inl (DuplicateDemandExpert eid), g))
      | None \<Rightarrow>
      (case scan_demand L g sources ids empty_scan of
        Inl e \<Rightarrow> Some (Return (Inl e, g))
      | Inr s \<Rightarrow>
          if ds_payload_required s \<noteq> []
          then Some (Return (Inr (SetPayloadRequired (ds_payload_required s)), g))
          else if ds_selected_lru_bytes s > lru_capacity_bytes g
          then Some (Return (Inl (DemandSetExceedsLruCapacity (ds_selected_lru_bytes s) (lru_capacity_bytes g)), g))
          else case checked_add (lru_used_bytes g) (ds_new_bytes s) of
            None \<Rightarrow> Some (Return (Inl (ProtectedDemandCapacity usize_MAX (lru_used_bytes g) (lru_capacity_bytes g)), g))
          | Some required_bytes \<Rightarrow>
              let bytes_to_evict = saturating_sub required_bytes (lru_capacity_bytes g);
                  evictable_bytes = unprotected_logical_lru_bytes L g (set ids) in
              if bytes_to_evict > evictable_bytes
              then Some (Return (Inl (ProtectedDemandCapacity required_bytes
                     (saturating_sub (lru_used_bytes g) evictable_bytes) (lru_capacity_bytes g)), g))
              else if length (ds_new_ids s) \<ge> 2 ^ 64 then Some (Return (Inl GenerationExhaustedError, g))
              else case checked_add_u64 (next_generation g) (of_nat (length (ds_new_ids s))) of
                None \<Rightarrow> Some (Return (Inl GenerationExhaustedError, g))
              | Some next \<Rightarrow>
                  lbind (evict_loop L True (set ids) (ds_new_bytes s) g) (\<lambda>g.
                    let first = next_generation g; g = g\<lparr>next_generation := next\<rparr> in
                    Some (obind (install_new L sources first 0 (ds_new_ids s) g) (\<lambda>g.
                      obind (collect_admissions L g ids) (\<lambda>admissions.
                      let newly_admitted = length (ds_new_ids s) in
                      obind (if newly_admitted > 0 then count_promotions newly_admitted g else Return g)
                        (\<lambda>g. Return (Inr (Ready admissions newly_admitted), g))))))))"

definition demand_admission_preflight ::
    "'c gpu_lru \<Rightarrow> 'c gpu_cache \<Rightarrow> u32 \<Rightarrow> usize \<Rightarrow>
     gpu_demand_admission_error + gpu_demand_admission_preflight" where
  "demand_admission_preflight L g eid payload_bytes =
     (if gpu_contains L g eid then Inr AlreadyAdmitted
      else if payload_bytes = 0 then Inl EmptyPayload
      else if payload_bytes > lru_capacity_bytes g
      then Inl (PayloadExceedsLruCapacity payload_bytes (lru_capacity_bytes g))
      else Inr NeedsPayload)"

definition demand_admit_lru ::
    "'c gpu_lru \<Rightarrow> 'c gpu_cache \<Rightarrow> gpu_resident \<Rightarrow>
     ((gpu_demand_admission_error + bool) \<times> 'c gpu_cache) outcome option" where
  "demand_admit_lru L g resident =
     (let bytes = resident_byte_len resident; eid = gr_id resident in
      if bytes = 0 then Some (Return (Inl EmptyPayload, g))
      else if gpu_contains L g eid then Some (Return (Inr False, g))
      else if bytes > lru_capacity_bytes g
      then Some (Return (Inl (PayloadExceedsLruCapacity bytes (lru_capacity_bytes g)), g))
      else case checked_add (lru_used_bytes g) bytes of
        None \<Rightarrow> Some (Return (Inl (ProtectedDemandCapacity usize_MAX (lru_used_bytes g) (lru_capacity_bytes g)), g))
      | Some required_bytes \<Rightarrow>
          let evictable_bytes = unprotected_logical_lru_bytes L g {} in
          if saturating_sub required_bytes (lru_capacity_bytes g) > evictable_bytes
          then Some (Return (Inl (ProtectedDemandCapacity required_bytes
                 (saturating_sub (lru_used_bytes g) evictable_bytes) (lru_capacity_bytes g)), g))
          else case allocate_generation g of
            None \<Rightarrow> Some (Return (Inl GenerationExhaustedError, g))
          | Some (generation, g) \<Rightarrow>
              lbind (evict_loop L False {} bytes g) (\<lambda>g.
                Some (obind (put_lru L eid \<lparr>ga_resident = resident, ga_generation = generation\<rparr>
                               (clear_markers eid g)) (\<lambda>g.
                  obind (count_promotions 1 g) (\<lambda>g. Return (Inr True, g))))))"

definition anchor_len :: "'c gpu_cache \<Rightarrow> usize" where
  "anchor_len g = length (anchor g)"

definition lru_length :: "'c gpu_lru \<Rightarrow> 'c gpu_cache \<Rightarrow> usize" where
  "lru_length L g = lru_len L (lru g)"

subsection \<open>Well-formed caches\<close>

definition bytes_of :: "(u32 \<times> gpu_admission) list \<Rightarrow> nat" where
  "bytes_of es = sum_list (map (byte_len \<circ> snd) es)"

abbreviation edge :: "'c gpu_lru \<Rightarrow> 'c gpu_cache \<Rightarrow> (u32 \<times> gpu_admission) list" where
  "edge L g \<equiv> lru_iter L (lru g)"

text \<open>The structure every operation keeps, and on top of it the gauge. An edge of less than half
  the address space is assumed: beyond it the saturating sum of two preflight checks loses bytes.\<close>

definition admission_ok :: "u64 \<Rightarrow> u32 \<times> gpu_admission \<Rightarrow> bool" where
  "admission_ok next e \<longleftrightarrow> gr_id (ga_resident (snd e)) = fst e \<and> 0 < byte_len (snd e) \<and>
     unat (ga_generation (snd e)) < unat next"

definition gpu_core :: "'c gpu_lru \<Rightarrow> 'c gpu_cache \<Rightarrow> bool" where
  "gpu_core L g \<longleftrightarrow> lru_valid L (lru g) \<and> lru_bound L (lru g) = None \<and>
     distinct (map fst (anchor g @ edge L g)) \<and>
     anchor_used_bytes g = bytes_of (anchor g) \<and> lru_used_bytes g = bytes_of (edge L g) \<and>
     anchor_used_bytes g \<le> anchor_capacity_bytes g \<and> lru_used_bytes g \<le> lru_capacity_bytes g \<and>
     anchor_capacity_bytes g + lru_capacity_bytes g \<le> usize_MAX \<and>
     2 * lru_capacity_bytes g \<le> usize_MAX \<and>
     (\<forall>e\<in>set (anchor g @ edge L g). admission_ok (next_generation g) e) \<and>
     distinct (map (ga_generation \<circ> snd) (anchor g @ edge L g))"

definition gpu_inv :: "'c gpu_lru \<Rightarrow> 'c gpu_cache \<Rightarrow> bool" where
  "gpu_inv L g \<longleftrightarrow> gpu_core L g \<and>
     logical_admitted_bytes g = of_nat (anchor_used_bytes g + lru_used_bytes g)"

lemma bytes_of_simps [simp]:
  "bytes_of [] = 0" "bytes_of ((k, a) # es) = byte_len a + bytes_of es"
  "bytes_of (xs @ ys) = bytes_of xs + bytes_of ys"
  by (simp_all add: bytes_of_def)

lemma bytes_of_partition:
  "bytes_of es = bytes_of (filter P es) + bytes_of (filter (\<lambda>e. \<not> P e) es)"
  by (induction es) (auto simp: bytes_of_def)

lemma bytes_of_empty: "\<forall>(k, a)\<in>set es. 0 < byte_len a \<Longrightarrow> bytes_of es = 0 \<longleftrightarrow> es = []"
  by (cases es) auto

lemma unprotected_bytes_eq:
  "unprotected_logical_lru_bytes L g extra =
     bytes_of (filter (\<lambda>e. \<not> logical_lru_is_protected g (fst e) extra) (edge L g))"
  unfolding unprotected_logical_lru_bytes_def bytes_of_def
  by (rule arg_cong [of _ _ sum_list]) (simp add: case_prod_unfold comp_def)

lemma over_budget_iff: "cap \<le> usize_MAX \<Longrightarrow> over_budget used n cap \<longleftrightarrow> cap < used + n"
  by (auto simp: over_budget_def checked_add_def)

lemma fits_iff: "cap \<le> usize_MAX \<Longrightarrow> fits used n cap \<longleftrightarrow> used + n \<le> cap"
  by (auto simp: fits_def checked_add_def)

lemma core_cong:
  assumes "anchor g' = anchor g" "anchor_used_bytes g' = anchor_used_bytes g" "lru g' = lru g"
    "lru_used_bytes g' = lru_used_bytes g" "next_generation g' = next_generation g"
    "anchor_capacity_bytes g' = anchor_capacity_bytes g" "lru_capacity_bytes g' = lru_capacity_bytes g"
  shows "gpu_core L g' = gpu_core L g"
  by (simp add: gpu_core_def assms)

lemma core_markers [simp]:
  "gpu_core L (clear_markers e g) = gpu_core L g"
  "gpu_core L (g\<lparr>promotions := p\<rparr>) = gpu_core L g"
  "gpu_core L (g\<lparr>logical_admitted_bytes := b\<rparr>) = gpu_core L g"
  "gpu_core L (g\<lparr>gpu_hits := h\<rparr>) = gpu_core L g"
  "gpu_core L (g\<lparr>gpu_misses := h\<rparr>) = gpu_core L g"
  "gpu_core L (g\<lparr>promotion_pending := s\<rparr>) = gpu_core L g"
  "gpu_core L (g\<lparr>promotion_rearm := s\<rparr>) = gpu_core L g"
  "gpu_core L (g\<lparr>demand_protections := ps\<rparr>) = gpu_core L g"
  "gpu_core L (record_hot_transition o' g) = gpu_core L g"
  by (rule core_cong; simp add: clear_markers_def record_hot_transition_def)+

text \<open>Evicted sets: \<open>V\<close> are unprotected keys of the edge, and only they leave it.\<close>

definition evicted :: "'c gpu_lru \<Rightarrow> u32 set \<Rightarrow> 'c gpu_cache \<Rightarrow> u32 set \<Rightarrow> 'c gpu_cache \<Rightarrow> bool" where
  "evicted L extra g V g' \<longleftrightarrow> gpu_core L g' \<and>
     V \<subseteq> {k \<in> fst ` set (edge L g). \<not> logical_lru_is_protected g k extra} \<and>
     edge L g' = filter (\<lambda>e. fst e \<notin> V) (edge L g) \<and>
     g' = g\<lparr>lru := lru g', lru_used_bytes := lru_used_bytes g', promotion_rearm := promotion_rearm g \<union> V\<rparr>"

text \<open>An admission that may be installed: of an absent expert, with an unused generation.\<close>

definition fresh_admission :: "'c gpu_lru \<Rightarrow> 'c gpu_cache \<Rightarrow> u32 \<Rightarrow> gpu_admission \<Rightarrow> bool" where
  "fresh_admission L g e a \<longleftrightarrow> map_of (anchor g @ edge L g) e = None \<and> admission_ok (next_generation g) (e, a) \<and>
     ga_generation a \<notin> (ga_generation \<circ> snd) ` set (anchor g @ edge L g)"

lemma find_SomeD: "find P xs = Some x \<Longrightarrow> x \<in> set xs \<and> P x"
  by (induction xs) (auto split: if_splits)

lemma mset_del_key:
  "distinct (map fst es) \<Longrightarrow> map_of es k = Some v \<Longrightarrow> mset es = add_mset (k, v) (mset (del_key k es))"
  by (induction es) (auto simp: del_key_absent split: if_splits)

lemma mset_touch: "distinct (map fst es) \<Longrightarrow> mset (touch k es) = mset es"
  by (simp add: touch_def mset_del_key split: option.split)

lemma bytes_of_mset: "mset es = mset es' \<Longrightarrow> bytes_of es = bytes_of es'"
  unfolding bytes_of_def by (metis mset_map sum_mset_sum_list)

lemma distinct_map_mset: "mset xs = mset ys \<Longrightarrow> distinct (map f xs) = distinct (map f ys)"
  by (rule mset_eq_imp_distinct_iff) (simp only: mset_map)

lemma core_permute:
  assumes "gpu_core L g" "mset (lru_iter L l) = mset (edge L g)" "lru_valid L l" "lru_bound L l = None"
  shows "gpu_core L (g\<lparr>lru := l\<rparr>)"
proof -
  have m: "mset (anchor g @ lru_iter L l) = mset (anchor g @ edge L g)" using assms(2) by simp
  note distinct_map_mset [OF m, of fst] distinct_map_mset [OF m, of "ga_generation \<circ> snd"]
  moreover have "set (anchor g @ lru_iter L l) = set (anchor g @ edge L g)" using m by (rule mset_eq_setD)
  moreover have "bytes_of (lru_iter L l) = bytes_of (edge L g)" using assms(2) by (rule bytes_of_mset)
  ultimately show ?thesis using assms(1,3,4)
    unfolding gpu_core_def by (simp del: map_append set_append distinct_append)
qed

locale gpu_edge = lru_cache L for L :: "('c, gpu_admission) lru_ops"
begin

lemma coreD:
  assumes "gpu_core L g"
  shows "lru_valid L (lru g)" "lru_bound L (lru g) = None"
    "distinct (map fst (anchor g))" "distinct (map fst (edge L g))"
    "fst ` set (anchor g) \<inter> fst ` set (edge L g) = {}"
    "anchor_used_bytes g = bytes_of (anchor g)" "lru_used_bytes g = bytes_of (edge L g)"
    "anchor_used_bytes g \<le> anchor_capacity_bytes g" "lru_used_bytes g \<le> lru_capacity_bytes g"
    "anchor_capacity_bytes g \<le> usize_MAX" "lru_capacity_bytes g \<le> usize_MAX"
    "anchor_used_bytes g + lru_used_bytes g \<le> usize_MAX"
    "lru_peek L (lru g) k = map_of (edge L g) k"
    "n \<le> lru_capacity_bytes g \<Longrightarrow> saturating_add (lru_used_bytes g) n = lru_used_bytes g + n"
  using assms by (auto simp: gpu_core_def peek_entry saturating_add_def)

lemma current_admission_eq:
  "gpu_core L g \<Longrightarrow> current_admission L g e = map_of (anchor g @ edge L g) e"
  by (auto simp: current_admission_def coreD map_add_def split: option.splits
      dest!: map_of_SomeD dest: coreD(5))

lemma find_oldest:
  "oldest_unprotected_logical_lru L g extra = None \<longleftrightarrow>
     (\<forall>k\<in>fst ` set (edge L g). logical_lru_is_protected g k extra)"
  "oldest_unprotected_logical_lru L g extra = Some k \<Longrightarrow>
     k \<in> fst ` set (edge L g) \<and> \<not> logical_lru_is_protected g k extra"
  unfolding oldest_unprotected_logical_lru_def
  by (auto simp: find_None_iff dest!: find_SomeD)

lemma evicted_refl: "gpu_core L g \<Longrightarrow> evicted L extra g {} g"
  by (simp add: evicted_def)

lemma evicted_frame:
  assumes "evicted L extra g V g'"
  shows "anchor g' = anchor g" "anchor_used_bytes g' = anchor_used_bytes g"
    "next_generation g' = next_generation g" "demand_protections g' = demand_protections g"
    "anchor_capacity_bytes g' = anchor_capacity_bytes g" "lru_capacity_bytes g' = lru_capacity_bytes g"
    "promotions g' = promotions g" "promotion_pending g' = promotion_pending g"
    "promotion_rearm g' = promotion_rearm g \<union> V" "promote_after_hits g' = promote_after_hits g"
    "logical_lru_is_protected g' k extra = logical_lru_is_protected g k extra"
proof -
  have eq: "g' = g\<lparr>lru := lru g', lru_used_bytes := lru_used_bytes g', promotion_rearm := promotion_rearm g \<union> V\<rparr>"
    using assms by (simp only: evicted_def)
  have frame: "anchor g' = anchor g \<and> anchor_used_bytes g' = anchor_used_bytes g \<and>
    next_generation g' = next_generation g \<and> demand_protections g' = demand_protections g \<and>
    anchor_capacity_bytes g' = anchor_capacity_bytes g \<and> lru_capacity_bytes g' = lru_capacity_bytes g \<and>
    promotions g' = promotions g \<and> promotion_pending g' = promotion_pending g \<and>
    promotion_rearm g' = r \<and> promote_after_hits g' = promote_after_hits g"
    if "g' = g\<lparr>lru := l, lru_used_bytes := u, promotion_rearm := r\<rparr>" for l u r
    using that by simp
  note F = frame [OF eq]
  then show "anchor g' = anchor g" "anchor_used_bytes g' = anchor_used_bytes g"
    "next_generation g' = next_generation g" "demand_protections g' = demand_protections g"
    "anchor_capacity_bytes g' = anchor_capacity_bytes g" "lru_capacity_bytes g' = lru_capacity_bytes g"
    "promotions g' = promotions g" "promotion_pending g' = promotion_pending g"
    "promotion_rearm g' = promotion_rearm g \<union> V" "promote_after_hits g' = promote_after_hits g"
    by simp_all
  show "logical_lru_is_protected g' k extra = logical_lru_is_protected g k extra"
    using F by (simp add: logical_lru_is_protected_def)
qed

lemma core_remove:
  assumes core: "gpu_core L g" and pop: "lru_pop L (lru g) k = (Some v, l)"
  shows "gpu_core L (g\<lparr>lru := l, lru_used_bytes := lru_used_bytes g - byte_len v\<rparr>)"
    "byte_len v \<le> lru_used_bytes g" "lru_iter L l = del_key k (edge L g)" "map_of (edge L g) k = Some v"
    "lru_valid L l" "lru_bound L l = None"
proof -
  note I = coreD [OF core]
  note P = pop_entry [OF I(1) pop]
  then show it: "lru_iter L l = del_key k (edge L g)" and v: "map_of (edge L g) k = Some v"
    and "lru_valid L l" "lru_bound L l = None" using I(2) by simp_all
  have sum: "bytes_of (edge L g) = byte_len v + bytes_of (del_key k (edge L g))"
    using sum_del_key [OF I(4) v, of byte_len] by (simp add: bytes_of_def)
  then show "byte_len v \<le> lru_used_bytes g" using I(7) by simp
  have gen: "distinct (map (ga_generation \<circ> snd) (anchor g @ del_key k (edge L g)))"
    using core unfolding gpu_core_def
    by (auto simp: del_key_def distinct_map filter_is_subset intro: inj_on_subset)
  show "gpu_core L (g\<lparr>lru := l, lru_used_bytes := lru_used_bytes g - byte_len v\<rparr>)"
    using core P sum gen I(2,7) distinct_del_key [OF I(4), of k]
    by (auto simp: gpu_core_def fst_del_key set_del_key)
qed

text \<open>While the edge is over budget, one turn evicts one more unprotected entry.\<close>

lemma unprotected_left:
  assumes ev: "evicted L extra g V g'"
    and over: "over_budget (lru_used_bytes g') n (lru_capacity_bytes g')"
    and n: "n \<le> lru_capacity_bytes g"
    and enough: "lru_used_bytes g + n - lru_capacity_bytes g \<le> unprotected_logical_lru_bytes L g extra"
    and core: "gpu_core L g"
  shows "oldest_unprotected_logical_lru L g' extra \<noteq> None"
proof
  assume "oldest_unprotected_logical_lru L g' extra = None"
  then have none: "\<forall>k\<in>fst ` set (edge L g'). logical_lru_is_protected g k extra"
    using evicted_frame(11) [OF ev] by (simp add: find_oldest(1))
  have core': "gpu_core L g'" and es: "edge L g' = filter (\<lambda>e. fst e \<notin> V) (edge L g)"
    and V: "V \<subseteq> {k \<in> fst ` set (edge L g). \<not> logical_lru_is_protected g k extra}"
    using ev by (simp_all add: evicted_def)
  have "filter (\<lambda>e. \<not> fst e \<notin> V) (edge L g) =
      filter (\<lambda>e. \<not> logical_lru_is_protected g (fst e) extra) (edge L g)"
    using none V es by (intro filter_cong) auto
  then have "bytes_of (edge L g) = bytes_of (edge L g') + unprotected_logical_lru_bytes L g extra"
    using bytes_of_partition [of "edge L g" "\<lambda>e. fst e \<notin> V"] es by (simp add: unprotected_bytes_eq)
  then have "lru_used_bytes g = lru_used_bytes g' + unprotected_logical_lru_bytes L g extra"
    using coreD(7) [OF core] coreD(7) [OF core'] by simp
  moreover have "lru_capacity_bytes g < lru_used_bytes g' + n"
    using over coreD(11) [OF core'] evicted_frame(6) [OF ev] by (simp add: over_budget_iff)
  ultimately show False using enough by linarith
qed

lemma evict_one_spec:
  assumes ev: "evicted L extra g V g'"
    and old: "oldest_unprotected_logical_lru L g' extra = Some k"
  shows "\<exists>g''. evict_one L checked extra g' = Return g'' \<and> evicted L extra g (insert k V) g'' \<and>
    length (edge L g'') < length (edge L g')"
proof -
  have core': "gpu_core L g'" and es: "edge L g' = filter (\<lambda>e. fst e \<notin> V) (edge L g)"
    and V: "V \<subseteq> {k \<in> fst ` set (edge L g). \<not> logical_lru_is_protected g k extra}"
    and eq: "g' = g\<lparr>lru := lru g', lru_used_bytes := lru_used_bytes g', promotion_rearm := promotion_rearm g \<union> V\<rparr>"
    using ev unfolding evicted_def by blast+
  from find_oldest(2) [OF old] have k: "k \<in> fst ` set (edge L g')" "\<not> logical_lru_is_protected g k extra"
    using evicted_frame(11) [OF ev] by simp_all
  obtain v l where pop: "lru_pop L (lru g') k = (Some v, l)"
    using pop_entry [OF coreD(1) [OF core']] k(1) by (metis map_of_eq_None_iff not_None_eq surj_pair)
  note R = core_remove [OF core' pop]
  let ?g = "g'\<lparr>lru := l, lru_used_bytes := lru_used_bytes g' - byte_len v, promotion_rearm := insert k (promotion_rearm g')\<rparr>"
  have shift: "g'\<lparr>lru := l, lru_used_bytes := u, promotion_rearm := r\<rparr> =
      g\<lparr>lru := l, lru_used_bytes := u, promotion_rearm := r\<rparr>" for l u r
    by (subst eq) simp
  have one: "evict_one L checked extra g' = Return ?g"
    using old pop R(2) by (simp add: evict_one_def)
  have "?g = g\<lparr>lru := lru ?g, lru_used_bytes := lru_used_bytes ?g, promotion_rearm := promotion_rearm g \<union> insert k V\<rparr>"
    using shift [where l = l and u = "lru_used_bytes g' - byte_len v" and r = "insert k (promotion_rearm g')"] evicted_frame(9) [OF ev]
    by simp
  moreover have "gpu_core L ?g" using R(1) by (simp add: core_markers)
  moreover have "edge L ?g = filter (\<lambda>e. fst e \<notin> insert k V) (edge L g)"
    using R(3) es by (simp add: del_key_def conj_commute)
  moreover have "insert k V \<subseteq> {k \<in> fst ` set (edge L g). \<not> logical_lru_is_protected g k extra}"
    using V k es by auto
  ultimately have "evicted L extra g (insert k V) ?g" unfolding evicted_def by blast
  moreover have "length (edge L ?g) < length (edge L g')"
    using length_del_key [OF coreD(4) [OF core'] R(4)] R(3) by simp
  ultimately show ?thesis using one by blast
qed

text \<open>The eviction loop ends, never panics, evicts only unprotected entries and makes room.\<close>

lemma evict_loop_spec:
  assumes core: "gpu_core L g" and n: "n \<le> lru_capacity_bytes g"
    and enough: "lru_used_bytes g + n - lru_capacity_bytes g \<le> unprotected_logical_lru_bytes L g extra"
  shows "\<exists>V g'. evict_loop L checked extra n g = Some (Return g') \<and> evicted L extra g V g' \<and>
    lru_used_bytes g' + n \<le> lru_capacity_bytes g'"
proof -
  let ?b = "\<lambda>s. case s of Panic \<Rightarrow> False
    | Return g \<Rightarrow> over_budget (lru_used_bytes g) n (lru_capacity_bytes g)"
  let ?c = "\<lambda>s. case s of Panic \<Rightarrow> Panic | Return g \<Rightarrow> evict_one L checked extra g"
  let ?P = "\<lambda>s. \<exists>V g'. s = Return g' \<and> evicted L extra g V g'"
  let ?f = "\<lambda>s. case s of Panic \<Rightarrow> 0 | Return g \<Rightarrow> length (edge L g)"
  have step: "?P (?c s) \<and> ?f (?c s) < ?f s" if P: "?P s" and b: "?b s" for s
  proof -
    obtain V g' where s: "s = Return g'" and ev: "evicted L extra g V g'" using P by blast
    have "over_budget (lru_used_bytes g') n (lru_capacity_bytes g')" using b s by simp
    then obtain k where "oldest_unprotected_logical_lru L g' extra = Some k"
      using unprotected_left [OF ev _ n enough core] by blast
    from evict_one_spec [OF ev this, of checked] s show ?thesis by auto
  qed
  have start: "?P (Return g)" using evicted_refl [OF core] by blast
  obtain s where w: "while_option ?b ?c (Return g) = Some s"
    using measure_while_option_Some [of ?P ?b ?c ?f "Return g"] step start by blast
  have "?P s" using while_option_rule [of ?P ?b ?c, OF _ w start] step by blast
  then obtain V g' where s: "s = Return g'" and ev: "evicted L extra g V g'" by blast
  have "\<not> ?b s" by (rule while_option_stop [OF w])
  then have "lru_used_bytes g' + n \<le> lru_capacity_bytes g'"
    using ev s coreD(11) [of g'] by (simp add: over_budget_iff evicted_def not_less)
  with ev w s show ?thesis unfolding evict_loop_def by blast
qed

text \<open>Installing a new admission in either segment.\<close>

lemma put_lru_spec:
  assumes core: "gpu_core L g" and fresh: "fresh_admission L g e a"
    and room: "lru_used_bytes g + byte_len a \<le> lru_capacity_bytes g"
  shows "\<exists>l. put_lru L e a g = Return (g\<lparr>lru := l, lru_used_bytes := lru_used_bytes g + byte_len a\<rparr>) \<and>
    put_lru_replacing L e a g = Return (g\<lparr>lru := l, lru_used_bytes := lru_used_bytes g + byte_len a\<rparr>) \<and>
    lru_iter L l = (e, a) # edge L g \<and>
    gpu_core L (g\<lparr>lru := l, lru_used_bytes := lru_used_bytes g + byte_len a\<rparr>)"
proof -
  note I = coreD [OF core]
  obtain r l where put: "lru_put L (lru g) e a = (r, l)" by fastforce
  have absent: "map_of (edge L g) e = None" "map_of (anchor g) e = None"
    using fresh by (auto simp: fresh_admission_def map_add_def split: option.splits)
  note P = put_unbounded [OF I(1) _ I(2) put, unfolded I(13), OF absent(1)]
  have "checked_add (lru_used_bytes g) (byte_len a) = Some (lru_used_bytes g + byte_len a)"
    using room I(11) by (simp add: checked_add_def)
  moreover have "gpu_core L (g\<lparr>lru := l, lru_used_bytes := lru_used_bytes g + byte_len a\<rparr>)"
    using core P fresh room absent
    by (auto simp: gpu_core_def fresh_admission_def map_of_eq_None_iff)
  ultimately show ?thesis using put P by (auto simp: put_lru_def put_lru_replacing_def)
qed

lemma insert_anchor_spec:
  assumes core: "gpu_core L g" and fresh: "fresh_admission L g e a"
    and room: "anchor_used_bytes g + byte_len a \<le> anchor_capacity_bytes g"
  shows "insert_anchor e a g = Return (g\<lparr>anchor := (e, a) # anchor g,
      anchor_used_bytes := anchor_used_bytes g + byte_len a\<rparr>)"
    "gpu_core L (g\<lparr>anchor := (e, a) # anchor g, anchor_used_bytes := anchor_used_bytes g + byte_len a\<rparr>)"
proof -
  note I = coreD [OF core]
  have absent: "map_of (edge L g) e = None" "map_of (anchor g) e = None"
    using fresh by (auto simp: fresh_admission_def map_add_def split: option.splits)
  then have "filter (\<lambda>x. fst x \<noteq> e) (anchor g) = anchor g"
    by (metis del_key_absent del_key_def map_of_eq_None_iff)
  then show "insert_anchor e a g = Return (g\<lparr>anchor := (e, a) # anchor g,
      anchor_used_bytes := anchor_used_bytes g + byte_len a\<rparr>)"
    using room I(10) by (simp add: insert_anchor_def checked_add_def map_insert_def)
  show "gpu_core L (g\<lparr>anchor := (e, a) # anchor g, anchor_used_bytes := anchor_used_bytes g + byte_len a\<rparr>)"
    using core fresh room absent by (auto simp: gpu_core_def fresh_admission_def map_of_eq_None_iff)
qed

lemma allocate_generation_spec:
  assumes core: "gpu_core L g" and al: "allocate_generation g = Some (gen, g')"
  shows "gen = next_generation g" "g' = g\<lparr>next_generation := next_generation g + 1\<rparr>"
    "unat (next_generation g + 1) = unat gen + 1" "gpu_core L g'"
    "gen \<notin> (ga_generation \<circ> snd) ` set (anchor g @ edge L g)"
proof -
  show gen: "gen = next_generation g" and g': "g' = g\<lparr>next_generation := next_generation g + 1\<rparr>"
    using al by (auto simp: allocate_generation_def checked_add_u64_def split: option.splits if_splits)
  show nx: "unat (next_generation g + 1) = unat gen + 1"
  proof -
    have "checked_add_u64 (next_generation g) 1 = Some (next_generation g + 1)"
      using al by (auto simp: allocate_generation_def checked_add_u64_def split: option.splits if_splits)
    from checked_add_u64_Some [OF this] gen show ?thesis by simp
  qed
  have "admission_ok (next_generation g + 1) e" if "admission_ok (next_generation g) e" for e
    using that nx gen by (auto simp: admission_ok_def)
  then show "gpu_core L g'" using core by (auto simp: gpu_core_def g')
  show "gen \<notin> (ga_generation \<circ> snd) ` set (anchor g @ edge L g)"
  proof
    assume "gen \<in> (ga_generation \<circ> snd) ` set (anchor g @ edge L g)"
    then obtain e where e: "e \<in> set (anchor g @ edge L g)" "ga_generation (snd e) = gen" by auto
    then have "admission_ok (next_generation g) e" using core by (simp add: gpu_core_def)
    with e gen show False by (simp add: admission_ok_def)
  qed
qed

lemma refresh_spec:
  assumes "gpu_core L g"
  shows "refresh_used_bytes g = Return (g\<lparr>logical_admitted_bytes := of_nat (anchor_used_bytes g + lru_used_bytes g)\<rparr>)"
    "gpu_inv L (g\<lparr>logical_admitted_bytes := of_nat (anchor_used_bytes g + lru_used_bytes g)\<rparr>)"
  using assms coreD(12) [OF assms] by (simp_all add: refresh_used_bytes_def checked_add_def gpu_inv_def)

end

subsection \<open>The effect of an operation\<close>

text \<open>
  What every operation guarantees: it keeps the cache well formed and its budgets, never removes
  an anchored admission, hands out only unused generations for admissions that were not there
  before, and keeps every admission whose expert a live guard protects.
\<close>

definition protected_id :: "'c gpu_cache \<Rightarrow> u32 \<Rightarrow> bool" where
  "protected_id g e \<longleftrightarrow> logical_lru_is_protected g e {}"

definition gpu_effect :: "'c gpu_lru \<Rightarrow> 'c gpu_cache \<Rightarrow> 'c gpu_cache \<Rightarrow> bool" where
  "gpu_effect L g g' \<longleftrightarrow> gpu_inv L g' \<and>
     anchor_capacity_bytes g' = anchor_capacity_bytes g \<and>
     lru_capacity_bytes g' = lru_capacity_bytes g \<and>
     (\<forall>e a. map_of (anchor g) e = Some a \<longrightarrow> map_of (anchor g') e = Some a) \<and>
     unat (next_generation g) \<le> unat (next_generation g') \<and>
     (\<forall>e a. current_admission L g' e = Some a \<longrightarrow>
        current_admission L g e = Some a \<or> unat (next_generation g) \<le> unat (ga_generation a)) \<and>
     (\<forall>e a. protected_id g e \<longrightarrow> current_admission L g e = Some a \<longrightarrow> current_admission L g' e = Some a)"

lemma effect_same:
  assumes "gpu_inv L g'" "anchor g' = anchor g" "lru_peek L (lru g') = lru_peek L (lru g)"
    "next_generation g' = next_generation g" "anchor_capacity_bytes g' = anchor_capacity_bytes g"
    "lru_capacity_bytes g' = lru_capacity_bytes g"
  shows "gpu_effect L g g'"
proof -
  have "current_admission L g' = current_admission L g"
    by (simp add: current_admission_def fun_eq_iff assms split: option.split)
  then show ?thesis using assms by (simp add: gpu_effect_def)
qed

text \<open>Operations that only touch markers, counters, protections or recency.\<close>

lemma inv_cong:
  assumes "gpu_inv L g" "gpu_core L g' = gpu_core L g" "anchor_used_bytes g' = anchor_used_bytes g"
    "lru_used_bytes g' = lru_used_bytes g" "logical_admitted_bytes g' = logical_admitted_bytes g"
  shows "gpu_inv L g'"
  using assms by (simp add: gpu_inv_def)

context gpu_edge
begin

lemma effect_markers:
  assumes "gpu_inv L g"
  shows "gpu_effect L g (clear_markers e g)" "gpu_effect L g (record_hot_transition o' g)"
    "gpu_effect L g g" "gpu_effect L g (g\<lparr>promotion_pending := s, promotion_rearm := t\<rparr>)"
    "gpu_effect L g (g\<lparr>promotion_rearm := t\<rparr>)" "gpu_effect L g (g\<lparr>demand_protections := ps\<rparr>)"
  by (rule effect_same; (rule inv_cong [OF assms])?;
      simp add: clear_markers_def record_hot_transition_def core_markers)+

lemma effect_touch:
  assumes inv: "gpu_inv L g" and get: "lru_get L (lru g) e = (r, l)"
  shows "gpu_inv L (g\<lparr>lru := l\<rparr>)" "lru_peek L l = lru_peek L (lru g)" "r = lru_peek L (lru g) e"
    "map_of (lru_iter L l) = map_of (edge L g)"
proof -
  have core: "gpu_core L g" using inv by (simp add: gpu_inv_def)
  note I = coreD [OF core]
  note G = get_entry [OF I(1) get]
  show "lru_peek L l = lru_peek L (lru g)" "map_of (lru_iter L l) = map_of (edge L g)" "r = lru_peek L (lru g) e"
    using G I(1) by (auto simp: peek_entry fun_eq_iff)
  have "gpu_core L (g\<lparr>lru := l\<rparr>)"
    using G I(2) mset_touch [OF I(4), of e] by (intro core_permute [OF core]) simp_all
  then show "gpu_inv L (g\<lparr>lru := l\<rparr>)" using inv by (simp add: gpu_inv_def)
qed

lemma get_effect:
  assumes inv: "gpu_inv L g" and get: "gpu_get L g e = (r, g')"
  shows "gpu_effect L g g' \<and> r = (case map_of (anchor g) e of Some a \<Rightarrow> AnchorHit a
    | None \<Rightarrow> (case lru_peek L (lru g) e of Some a \<Rightarrow> LruHit a | None \<Rightarrow> Miss))"
proof (cases "map_of (anchor g) e")
  case (Some a)
  then have "g' = g\<lparr>gpu_hits := gpu_hits g + 1\<rparr>" "r = AnchorHit a" using get by (simp_all add: gpu_get_def)
  then show ?thesis using Some effect_same [OF inv_cong [OF inv], of g' g] by (simp add: core_markers)
next
  case None
  obtain x l where gl: "lru_get L (lru g) e = (x, l)" by fastforce
  note T = effect_touch [OF inv gl]
  have g': "g' = g\<lparr>lru := l, gpu_hits := gpu_hits g + 1\<rparr> \<or> g' = g\<lparr>lru := l, gpu_misses := gpu_misses g + 1\<rparr>"
    and r: "r = (case x of Some a \<Rightarrow> LruHit a | None \<Rightarrow> Miss)"
    using get None gl by (auto simp: gpu_get_def Let_def split: option.splits)
  have "gpu_inv L g'" by (rule inv_cong [OF T(1)]) (use g' in \<open>auto simp: core_markers\<close>)
  then have "gpu_effect L g g'" by (rule effect_same) (use g' T(2) in auto)
  with r None T(3) show ?thesis by simp
qed

end

text \<open>
  Admission into the edge: \<open>news\<close> are the admissions installed, in order, after the unprotected
  entries \<open>V\<close> were evicted.
\<close>

definition admitted ::
    "'c gpu_lru \<Rightarrow> u32 set \<Rightarrow> 'c gpu_cache \<Rightarrow> (u32 \<times> gpu_admission) list \<Rightarrow> u32 set \<Rightarrow> 'c gpu_cache \<Rightarrow> bool" where
  "admitted L extra g news V g' \<longleftrightarrow> gpu_core L g' \<and> anchor g' = anchor g \<and>
     edge L g' = rev news @ filter (\<lambda>e. fst e \<notin> V) (edge L g) \<and>
     V \<subseteq> {k \<in> fst ` set (edge L g). \<not> logical_lru_is_protected g k extra} \<and>
     anchor_capacity_bytes g' = anchor_capacity_bytes g \<and>
     lru_capacity_bytes g' = lru_capacity_bytes g \<and>
     demand_protections g' = demand_protections g \<and>
     unat (next_generation g') = unat (next_generation g) + length news \<and>
     (\<forall>e\<in>set news. map_of (anchor g @ edge L g) (fst e) = None \<and>
        unat (next_generation g) \<le> unat (ga_generation (snd e)))"

lemma admitted_markers [simp]:
  "admitted L extra g news V (clear_markers e g') = admitted L extra g news V g'"
  "admitted L extra g news V (g'\<lparr>promotions := p\<rparr>) = admitted L extra g news V g'"
  "admitted L extra g news V (g'\<lparr>logical_admitted_bytes := b\<rparr>) = admitted L extra g news V g'"
  "admitted L extra g news V (record_hot_transition o' g') = admitted L extra g news V g'"
  "admitted L extra (clear_markers e g) news V g' = admitted L extra g news V g'"
  by (simp_all add: admitted_def logical_lru_is_protected_def core_markers)
    (simp_all add: clear_markers_def record_hot_transition_def)

text \<open>Outcome of a promotion attempt that finds its expert, or does not.\<close>

definition resolved ::
    "'c gpu_lru \<Rightarrow> 'c gpu_cache \<Rightarrow> u32 \<Rightarrow> gpu_hot_promotion_outcome option \<Rightarrow> 'c gpu_cache \<Rightarrow> bool" where
  "resolved L g e o' g' \<longleftrightarrow> gpu_effect L g g' \<and>
     (\<forall>x. current_admission L g' x = current_admission L g x) \<and>
     (o' = None \<longleftrightarrow> current_admission L g e = None) \<and> (o' = None \<longrightarrow> g' = g) \<and>
     (o' = Some MovedLruToAnchor \<longrightarrow> map_of (anchor g') e = current_admission L g e \<and> map_of (anchor g) e = None) \<and>
     o' \<in> {None, Some AlreadyAnchor, Some AlreadyLruAnchorFull, Some MovedLruToAnchor} \<and>
     next_generation g' = next_generation g"

context gpu_edge
begin

lemma admitted_effect:
  assumes inv: "gpu_inv L g" and ad: "admitted L extra g news V g'" and inv': "gpu_inv L g'"
  shows "gpu_effect L g g'"
proof -
  have core: "gpu_core L g" "gpu_core L g'" using inv inv' by (simp_all add: gpu_inv_def)
  note adm = current_admission_eq [OF core(1)] current_admission_eq [OF core(2)]
  have es: "anchor g' = anchor g" "edge L g' = rev news @ filter (\<lambda>e. fst e \<notin> V) (edge L g)"
    and V: "V \<subseteq> {k \<in> fst ` set (edge L g). \<not> logical_lru_is_protected g k extra}"
    and nw: "\<forall>e\<in>set news. map_of (anchor g @ edge L g) (fst e) = None \<and>
        unat (next_generation g) \<le> unat (ga_generation (snd e))"
    and fr: "anchor_capacity_bytes g' = anchor_capacity_bytes g" "lru_capacity_bytes g' = lru_capacity_bytes g"
      "unat (next_generation g') = unat (next_generation g) + length news"
    using ad by (simp_all add: admitted_def)
  have filt: "map_of (filter (\<lambda>e. fst e \<notin> V) xs) x = (if x \<in> V then None else map_of xs x)" for xs x
    by (induction xs) auto
  have new: "x \<notin> fst ` set news" if "map_of (anchor g @ edge L g) x = Some a" for x a
    using nw that by fastforce
  have old: "map_of (anchor g @ edge L g) x = Some a \<or> unat (next_generation g) \<le> unat (ga_generation a)"
    if look: "map_of (anchor g' @ edge L g') x = Some a" for x a
  proof (cases "map_of (anchor g) x")
    case None
    show ?thesis
    proof (cases "map_of (rev news) x")
      case (Some b)
      then have "(x, b) \<in> set news" by (auto dest: map_of_SomeD)
      moreover have "b = a" using look None Some by (simp add: es map_add_def split: option.splits)
      ultimately show ?thesis using nw by auto
    next
      case n2: None
      then show ?thesis using look None filt [of "edge L g" x] by (auto simp: es map_add_def split: option.splits if_splits)
    qed
  next
    case (Some b)
    have "(x, b) \<in> set (anchor g')" using Some by (simp add: es map_of_SomeD)
    then have "map_of (anchor g' @ edge L g') x = Some b"
      using core(2) unfolding gpu_core_def by (metis UnCI map_of_is_SomeI set_append)
    moreover have "map_of (anchor g @ edge L g) x = Some b"
      using Some core(1) unfolding gpu_core_def by (metis UnCI map_of_SomeD map_of_is_SomeI set_append)
    ultimately show ?thesis using look by simp
  qed
  have keep: "map_of (anchor g' @ edge L g') x = Some a"
    if p: "protected_id g x" and look: "map_of (anchor g @ edge L g) x = Some a" for x a
  proof -
    have "x \<notin> V" using V p by (auto simp: protected_id_def logical_lru_is_protected_def)
    moreover have "(x, a) \<in> set (anchor g @ edge L g)" using look by (rule map_of_SomeD)
    ultimately have "(x, a) \<in> set (anchor g' @ edge L g')" by (auto simp: es)
    then show ?thesis using core(2) unfolding gpu_core_def by (metis map_of_is_SomeI)
  qed
  show ?thesis unfolding gpu_effect_def
    using inv' fr es(1) old keep by (simp add: adm)
qed

text \<open>Evicting and then installing one admission under the next generation.\<close>

lemma evict_put_spec:
  assumes core: "gpu_core L g" and al: "allocate_generation g = Some (gen, g1)"
    and absent: "map_of (anchor g @ edge L g) e = None"
    and a: "a = \<lparr>ga_resident = r, ga_generation = gen\<rparr>" "gr_id r = e" "0 < resident_byte_len r"
    and n: "resident_byte_len r \<le> lru_capacity_bytes g"
    and enough: "lru_used_bytes g + resident_byte_len r - lru_capacity_bytes g \<le> unprotected_logical_lru_bytes L g extra"
    and h: "h = g1 \<or> h = clear_markers e g1"
  shows "\<exists>V g2 g3. evict_loop L checked extra (resident_byte_len r) h = Some (Return g2) \<and>
    put_lru L e a g2 = Return g3 \<and> put_lru_replacing L e a g2 = Return g3 \<and>
    (\<exists>g4. put_lru L e a (clear_markers e g2) = Return g4 \<and> admitted L extra g [(e, a)] V g4) \<and>
    admitted L extra g [(e, a)] V g3"
proof -
  note G = allocate_generation_spec [OF core al]
  have f: "anchor h = anchor g" "lru h = lru g" "lru_used_bytes h = lru_used_bytes g"
    "lru_capacity_bytes h = lru_capacity_bytes g" "anchor_capacity_bytes h = anchor_capacity_bytes g"
    "demand_protections h = demand_protections g" "next_generation h = next_generation g + 1"
    using h G(2) by (auto simp: clear_markers_def)
  have prot: "logical_lru_is_protected h x extra = logical_lru_is_protected g x extra" for x
    by (simp add: logical_lru_is_protected_def f)
  have core_h: "gpu_core L h" using h G(4) by (auto simp: core_markers)
  have "lru_used_bytes h + resident_byte_len r - lru_capacity_bytes h \<le> unprotected_logical_lru_bytes L h extra"
    using enough by (simp add: f prot unprotected_bytes_eq)
  then obtain V g2 where loop: "evict_loop L checked extra (resident_byte_len r) h = Some (Return g2)"
    and ev: "evicted L extra h V g2" and room: "lru_used_bytes g2 + resident_byte_len r \<le> lru_capacity_bytes g2"
    using evict_loop_spec [OF core_h, of "resident_byte_len r" extra checked] n by (auto simp: f)
  note E = evicted_frame [OF ev]
  have core2: "gpu_core L g2" and es2: "edge L g2 = filter (\<lambda>x. fst x \<notin> V) (edge L g)"
    and V: "V \<subseteq> {k \<in> fst ` set (edge L g). \<not> logical_lru_is_protected g k extra}"
    using ev by (simp_all add: evicted_def f prot)
  have bl: "byte_len a = resident_byte_len r" using a by (simp add: byte_len_def)
  have ok: "admission_ok (next_generation g + 1) (e, a)"
    using a G(3) by (simp add: admission_ok_def byte_len_def)
  have fresh: "fresh_admission L g2 e a"
    using absent G(1,5) a ok unfolding fresh_admission_def E(1,3) es2 f
    by (auto simp: map_of_eq_None_iff map_add_None)
  have fresh': "fresh_admission L (clear_markers e g2) e a"
    using fresh by (simp add: fresh_admission_def clear_markers_def)
  have room': "lru_used_bytes g2 + byte_len a \<le> lru_capacity_bytes g2" using room bl by simp
  have adm: "admitted L extra g [(e, a)] V (g2\<lparr>lru := l, lru_used_bytes := u\<rparr>)"
    if "lru_iter L l = (e, a) # edge L g2" "gpu_core L (g2\<lparr>lru := l, lru_used_bytes := u\<rparr>)" for l u
    using that V G(1,3) absent a E f by (simp add: admitted_def es2)
  from put_lru_spec [OF core2 fresh room'] obtain l where l:
    "put_lru L e a g2 = Return (g2\<lparr>lru := l, lru_used_bytes := lru_used_bytes g2 + byte_len a\<rparr>)"
    "put_lru_replacing L e a g2 = Return (g2\<lparr>lru := l, lru_used_bytes := lru_used_bytes g2 + byte_len a\<rparr>)"
    "lru_iter L l = (e, a) # edge L g2"
    "gpu_core L (g2\<lparr>lru := l, lru_used_bytes := lru_used_bytes g2 + byte_len a\<rparr>)" by blast
  let ?c = "clear_markers e g2"
  have c: "lru_used_bytes ?c = lru_used_bytes g2" "lru_capacity_bytes ?c = lru_capacity_bytes g2" "lru ?c = lru g2"
    by (simp_all add: clear_markers_def)
  from put_lru_spec [OF _ fresh', unfolded core_markers c, OF core2 room'] obtain l' where l':
    "put_lru L e a ?c = Return (?c\<lparr>lru := l', lru_used_bytes := lru_used_bytes g2 + byte_len a\<rparr>)"
    "lru_iter L l' = (e, a) # edge L g2"
    "gpu_core L (?c\<lparr>lru := l', lru_used_bytes := lru_used_bytes g2 + byte_len a\<rparr>)" by blast
  have comm: "?c\<lparr>lru := l', lru_used_bytes := u\<rparr> = clear_markers e (g2\<lparr>lru := l', lru_used_bytes := u\<rparr>)" for u
    by (simp add: clear_markers_def)
  have "admitted L extra g [(e, a)] V (?c\<lparr>lru := l', lru_used_bytes := lru_used_bytes g2 + byte_len a\<rparr>)"
    using adm [OF l'(2)] l'(3) unfolding comm by (simp add: core_markers)
  with loop l adm [OF l(3,4)] l'(1) show ?thesis by blast
qed

lemma finish_spec:
  assumes "gpu_core L g"
  shows "\<exists>g'. count_promotions n g = Return g' \<and> gpu_inv L g' \<and>
    g' = g\<lparr>promotions := promotions g + of_nat n, logical_admitted_bytes := of_nat (anchor_used_bytes g + lru_used_bytes g)\<rparr>"
  using refresh_spec [of "g\<lparr>promotions := promotions g + of_nat n\<rparr>"] assms
  by (simp add: count_promotions_def core_markers)

lemma contains_iff: "gpu_core L g \<Longrightarrow> gpu_contains L g e \<longleftrightarrow> map_of (anchor g @ edge L g) e \<noteq> None"
  by (auto simp: gpu_contains_def coreD map_add_def split: option.splits)

text \<open>A foreground admission either fails without a trace, finds the expert, or installs it.\<close>

lemma demand_admit_lru_spec:
  assumes inv: "gpu_inv L g"
  shows "\<exists>res g'. demand_admit_lru L g r = Some (Return (res, g')) \<and> gpu_effect L g g' \<and>
    (res = Inr True \<longrightarrow> \<not> gpu_contains L g (gr_id r) \<and> 0 < resident_byte_len r \<and>
       (\<exists>V. admitted L {} g [(gr_id r, \<lparr>ga_resident = r, ga_generation = next_generation g\<rparr>)] V g')) \<and>
    (res \<noteq> Inr True \<longrightarrow> g' = g) \<and> (res = Inr False \<longleftrightarrow> 0 < resident_byte_len r \<and> gpu_contains L g (gr_id r))"
proof -
  have core: "gpu_core L g" using inv by (simp add: gpu_inv_def)
  note eff = effect_markers(3) [OF inv]
  show ?thesis
  proof (cases "resident_byte_len r = 0 \<or> gpu_contains L g (gr_id r) \<or>
      resident_byte_len r > lru_capacity_bytes g \<or> checked_add (lru_used_bytes g) (resident_byte_len r) = None \<or>
      lru_used_bytes g + resident_byte_len r - lru_capacity_bytes g > unprotected_logical_lru_bytes L g {} \<or>
      allocate_generation g = None")
    case True
    then show ?thesis using eff
      by (auto simp: demand_admit_lru_def Let_def checked_add_def split: if_splits)
  next
    case False
    obtain gen g1 where al: "allocate_generation g = Some (gen, g1)" using False by fastforce
    let ?a = "\<lparr>ga_resident = r, ga_generation = gen\<rparr>"
    have absent: "map_of (anchor g @ edge L g) (gr_id r) = None" using False contains_iff [OF core] by blast
    have "0 < resident_byte_len r" "resident_byte_len r \<le> lru_capacity_bytes g"
      "lru_used_bytes g + resident_byte_len r - lru_capacity_bytes g \<le> unprotected_logical_lru_bytes L g {}"
      using False by auto
    from evict_put_spec [OF core al absent refl refl this, of g1 False] obtain V g2 g4 where
      loop: "evict_loop L False {} (resident_byte_len r) g1 = Some (Return g2)"
      and put: "put_lru L (gr_id r) ?a (clear_markers (gr_id r) g2) = Return g4"
      and ad: "admitted L {} g [(gr_id r, ?a)] V g4" by blast
    have "gpu_core L g4" using ad by (simp add: admitted_def)
    from finish_spec [OF this, of 1] obtain g5 where fin: "count_promotions 1 g4 = Return g5" "gpu_inv L g5"
      and g5: "g5 = g4\<lparr>promotions := promotions g4 + of_nat 1, logical_admitted_bytes := of_nat (anchor_used_bytes g4 + lru_used_bytes g4)\<rparr>"
      by blast
    have ad5: "admitted L {} g [(gr_id r, ?a)] V g5" using ad by (simp add: g5)
    have "demand_admit_lru L g r = Some (Return (Inr True, g5))"
      using False al loop put fin(1) by (simp add: demand_admit_lru_def Let_def checked_add_def split: if_splits)
    moreover have "gpu_effect L g g5" by (rule admitted_effect [OF inv ad5 fin(2)])
    moreover have "gen = next_generation g" by (rule allocate_generation_spec(1) [OF core al])
    ultimately show ?thesis using ad5 False by auto
  qed
qed

text \<open>Promotion of an admission that exists: an edge entry moves intact into the anchor.\<close>

lemma move_to_anchor:
  assumes inv: "gpu_inv L g" and na: "map_of (anchor g) e = None" and pk: "lru_peek L (lru g) e = Some a"
    and room: "fits (anchor_used_bytes g) (byte_len a) (anchor_capacity_bytes g)"
  shows "\<exists>g'. resolve_existing_hot_locked L g e = Return (Some MovedLruToAnchor, g') \<and> gpu_effect L g g' \<and>
    (\<forall>x. current_admission L g' x = current_admission L g x) \<and>
    map_of (anchor g') e = current_admission L g e \<and> current_admission L g e = Some a \<and>
    next_generation g' = next_generation g"
proof -
  have core: "gpu_core L g" using inv by (simp add: gpu_inv_def)
  note I = coreD [OF core]
  have ma: "map_of (edge L g) e = Some a" using pk I(13) by simp
  obtain v l where pop: "lru_pop L (lru g) e = (v, l)" by fastforce
  with pop_entry [OF I(1) pop] ma have pop: "lru_pop L (lru g) e = (Some a, l)" by simp
  note R = core_remove [OF core pop]
  let ?g1 = "g\<lparr>lru := l, lru_used_bytes := lru_used_bytes g - byte_len a\<rparr>"
  let ?g2 = "?g1\<lparr>anchor := (e, a) # anchor g, anchor_used_bytes := anchor_used_bytes g + byte_len a\<rparr>"
  have mem: "(e, a) \<in> set (edge L g)" using ma by (rule map_of_SomeD)
  have gens: "distinct (map (ga_generation \<circ> snd) (anchor g @ edge L g))"
    and ok: "admission_ok (next_generation g) (e, a)" using core mem by (auto simp: gpu_core_def)
  have gen: "ga_generation a \<notin> (ga_generation \<circ> snd) ` set (anchor g @ del_key e (edge L g))"
  proof -
    have "mset (anchor g @ edge L g) = mset ((e, a) # anchor g @ del_key e (edge L g))"
      using mset_del_key [OF I(4) ma] by simp
    from distinct_map_mset [OF this, of "ga_generation \<circ> snd"] gens show ?thesis by (simp add: image_Un)
  qed
  have "fresh_admission L ?g1 e a"
    using na ok gen R(3) by (simp add: fresh_admission_def map_add_None)
  moreover have "anchor_used_bytes ?g1 + byte_len a \<le> anchor_capacity_bytes ?g1"
    using room fits_iff [OF I(10)] by simp
  ultimately have ins: "insert_anchor e a ?g1 = Return ?g2" and core2: "gpu_core L ?g2"
    using insert_anchor_spec [OF R(1)] by simp_all
  let ?g3 = "clear_markers e ?g2"
  have res: "resolve_existing_hot_locked L g e = Return (Some MovedLruToAnchor, ?g3)"
    using na pk room pop R(2) ins by (simp add: resolve_existing_hot_locked_def)
  have core3: "gpu_core L ?g3" using core2 by (simp only: core_markers)
  have same: "current_admission L ?g3 x = current_admission L g x" for x
    unfolding current_admission_eq [OF core3] current_admission_eq [OF core]
    using na ma R(3) by (simp add: clear_markers_def map_add_def split: option.split)
  have "gpu_inv L ?g3" using core3 inv R(2) by (simp add: gpu_inv_def clear_markers_def)
  moreover have "map_of (anchor ?g3) x = Some b" if "map_of (anchor g) x = Some b" for x b
    using that na by (auto simp: clear_markers_def)
  ultimately have "gpu_effect L g ?g3"
    using same by (simp add: gpu_effect_def) (simp add: clear_markers_def)
  moreover have "current_admission L g e = Some a" using na pk by (simp add: current_admission_def)
  ultimately show ?thesis using res same by (intro exI [of _ ?g3]) (simp add: clear_markers_def)
qed

lemma resolve_existing_spec:
  assumes inv: "gpu_inv L g"
  shows "\<exists>o' g'. resolve_existing_hot_locked L g e = Return (o', g') \<and> resolved L g e o' g'"
proof -
  have core: "gpu_core L g" using inv by (simp add: gpu_inv_def)
  note I = coreD [OF core]
  note eff = effect_markers [OF inv]
  have cm: "current_admission L (clear_markers e g) = current_admission L g"
    by (simp add: current_admission_def clear_markers_def fun_eq_iff split: option.split)
  show ?thesis
  proof (cases "map_of (anchor g) e \<noteq> None")
    case True
    then have "resolve_existing_hot_locked L g e = Return (Some AlreadyAnchor, clear_markers e g)"
      by (simp add: resolve_existing_hot_locked_def)
    then show ?thesis using eff(1) cm True
      by (auto simp: resolved_def current_admission_def clear_markers_def split: option.splits)
  next
    case na: False
    show ?thesis
    proof (cases "lru_peek L (lru g) e")
      case None
      then have "resolve_existing_hot_locked L g e = Return (None, g)" using na
        by (simp add: resolve_existing_hot_locked_def)
      then show ?thesis using eff(3) na None by (auto simp: resolved_def current_admission_def)
    next
      case (Some a)
      show ?thesis
      proof (cases "fits (anchor_used_bytes g) (byte_len a) (anchor_capacity_bytes g)")
        case False
        then have "resolve_existing_hot_locked L g e = Return (Some AlreadyLruAnchorFull, clear_markers e g)"
          using na Some by (simp add: resolve_existing_hot_locked_def)
        then show ?thesis using eff(1) cm na Some
          by (auto simp: resolved_def current_admission_def clear_markers_def split: option.splits)
      next
        case True
        then show ?thesis using move_to_anchor [OF inv _ Some] na by (auto simp: resolved_def)
      qed
    qed
  qed
qed

lemma promote_hot_existing_spec:
  assumes inv: "gpu_inv L g"
  shows "\<exists>o' g'. promote_hot_existing L g e = Return (case o' of None \<Rightarrow> PayloadRequired | Some p \<Rightarrow> p, g') \<and>
    resolved L g e o' g'"
proof -
  from resolve_existing_spec [OF inv, of e] obtain o' h where
    r: "resolve_existing_hot_locked L g e = Return (o', h)" and res: "resolved L g e o' h" by blast
  show ?thesis
  proof (cases o')
    case None
    then show ?thesis using r res by (intro exI [of _ None] exI [of _ h]) (simp add: promote_hot_existing_def)
  next
    case (Some p)
    have inv_h: "gpu_inv L h" using res by (simp add: resolved_def gpu_effect_def)
    have adm: "current_admission L (record_hot_transition p h) x = current_admission L h x" for x
      by (simp add: current_admission_def record_hot_transition_def split: option.split)
    have f: "anchor (record_hot_transition p h) = anchor h" "next_generation (record_hot_transition p h) = next_generation h"
      by (simp_all add: record_hot_transition_def)
    have "gpu_inv L (record_hot_transition p h)"
      by (rule inv_cong [OF inv_h]) (simp_all add: core_markers record_hot_transition_def)
    then have "gpu_effect L g (record_hot_transition p h)"
      using res adm unfolding gpu_effect_def resolved_def by (simp add: record_hot_transition_def)
    then have "resolved L g e o' (record_hot_transition p h)"
      using res Some unfolding resolved_def adm f by blast
    then show ?thesis using r Some by (intro exI [of _ o'] exI) (simp add: promote_hot_existing_def)
  qed
qed

text \<open>Installing a new admission directly in the anchor.\<close>

lemma anchor_install_spec:
  assumes core: "gpu_core L g" and al: "allocate_generation g = Some (gen, g1)"
    and absent: "map_of (anchor g @ edge L g) e = None"
    and a: "a = \<lparr>ga_resident = r, ga_generation = gen\<rparr>" "gr_id r = e" "0 < resident_byte_len r"
    and room: "fits (anchor_used_bytes g) (resident_byte_len r) (anchor_capacity_bytes g)"
    and h: "h = g1 \<or> h = clear_markers e g1"
  shows "\<exists>g2. insert_anchor e a h = Return g2 \<and> gpu_core L g2 \<and> anchor g2 = (e, a) # anchor g \<and> lru g2 = lru g \<and>
    anchor_capacity_bytes g2 = anchor_capacity_bytes g \<and> lru_capacity_bytes g2 = lru_capacity_bytes g \<and>
    demand_protections g2 = demand_protections g \<and> unat (next_generation g2) = unat (next_generation g) + 1 \<and>
    gen = next_generation g"
proof -
  note G = allocate_generation_spec [OF core al]
  have f: "anchor h = anchor g" "lru h = lru g" "anchor_used_bytes h = anchor_used_bytes g"
    "lru_capacity_bytes h = lru_capacity_bytes g" "anchor_capacity_bytes h = anchor_capacity_bytes g"
    "demand_protections h = demand_protections g" "next_generation h = next_generation g + 1"
    using h G(2) by (auto simp: clear_markers_def)
  have core_h: "gpu_core L h" using h G(4) by (auto simp: core_markers)
  have bl: "byte_len a = resident_byte_len r" using a by (simp add: byte_len_def)
  have "admission_ok (next_generation g + 1) (e, a)" using a G(3) by (simp add: admission_ok_def byte_len_def)
  then have fresh: "fresh_admission L h e a"
    using absent G(1,5) a unfolding fresh_admission_def f by simp
  have "anchor_used_bytes h + byte_len a \<le> anchor_capacity_bytes h"
    using room fits_iff [OF coreD(10) [OF core]] by (simp add: f bl)
  from insert_anchor_spec [OF core_h fresh this] show ?thesis using G(1,3) by (simp add: f)
qed

lemma anchored_effect:
  assumes inv: "gpu_inv L g" and inv': "gpu_inv L g'" and absent: "map_of (anchor g @ edge L g) e = None"
    and f: "anchor g' = (e, a) # anchor g" "lru g' = lru g" "anchor_capacity_bytes g' = anchor_capacity_bytes g"
    "lru_capacity_bytes g' = lru_capacity_bytes g" "unat (next_generation g') = unat (next_generation g) + 1"
    "ga_generation a = next_generation g"
  shows "gpu_effect L g g'"
proof -
  have none: "current_admission L g e = None"
    using absent inv current_admission_eq [of g e] by (simp add: gpu_inv_def)
  have "current_admission L g' x = (if x = e then Some a else current_admission L g x)" for x
    by (simp add: current_admission_def f split: option.split)
  moreover have "map_of (anchor g) e = None" using none by (simp add: current_admission_def split: option.splits)
  ultimately show ?thesis using inv' none f by (auto simp: gpu_effect_def)
qed

lemma resolve_none:
  assumes "gpu_inv L g" "map_of (anchor g @ edge L g) e = None"
  shows "resolve_existing_hot_locked L g e = Return (None, g)"
proof -
  have "current_admission L g e = None" using assms current_admission_eq [of g e] by (simp add: gpu_inv_def)
  then show ?thesis using resolve_existing_spec [OF assms(1), of e] by (auto simp: resolved_def)
qed

lemma promote_hot_sync_present:
  assumes inv: "gpu_inv L g" and "map_of (anchor g @ edge L g) (gr_id r) \<noteq> None"
  shows "promote_hot_sync L g r = Some (promote_hot_existing L g (gr_id r))"
proof -
  from resolve_existing_spec [OF inv, of "gr_id r"] obtain o' h where
    r: "resolve_existing_hot_locked L g (gr_id r) = Return (o', h)" "resolved L g (gr_id r) o' h" by blast
  have "current_admission L g (gr_id r) \<noteq> None" using assms current_admission_eq [of g] by (simp add: gpu_inv_def)
  then obtain p where "o' = Some p" using r(2) by (auto simp: resolved_def)
  with r show ?thesis by (simp add: promote_hot_sync_def promote_hot_existing_def)
qed

text \<open>The common end of the promotion paths that install a new admission.\<close>

lemma install_finish:
  assumes inv: "gpu_inv L g" and core: "gpu_core L g3"
    and how: "(\<exists>extra V. admitted L extra g [(e, a)] V g3) \<or>
      (anchor g3 = (e, a) # anchor g \<and> lru g3 = lru g \<and> anchor_capacity_bytes g3 = anchor_capacity_bytes g \<and>
       lru_capacity_bytes g3 = lru_capacity_bytes g \<and> unat (next_generation g3) = unat (next_generation g) + 1 \<and>
       ga_generation a = next_generation g)"
    and absent: "map_of (anchor g @ edge L g) e = None"
  shows "\<exists>g4. refresh_used_bytes (g3\<lparr>promotions := p\<rparr>) = Return g4 \<and> gpu_effect L g g4 \<and>
    current_admission L g4 e = Some a \<and> current_admission L g e = None"
proof -
  let ?g4 = "g3\<lparr>promotions := p, logical_admitted_bytes := of_nat (anchor_used_bytes g3 + lru_used_bytes g3)\<rparr>"
  have r: "refresh_used_bytes (g3\<lparr>promotions := p\<rparr>) = Return ?g4" and inv4: "gpu_inv L ?g4"
    using refresh_spec [of "g3\<lparr>promotions := p\<rparr>"] core by (simp_all add: core_markers)
  have core4: "gpu_core L ?g4" using inv4 by (simp add: gpu_inv_def)
  have "gpu_effect L g ?g4"
    using how
  proof
    assume "\<exists>extra V. admitted L extra g [(e, a)] V g3"
    then obtain extra V where "admitted L extra g [(e, a)] V ?g4" by (auto simp: admitted_markers)
    then show ?thesis by (rule admitted_effect [OF inv _ inv4])
  next
    assume "anchor g3 = (e, a) # anchor g \<and> lru g3 = lru g \<and> anchor_capacity_bytes g3 = anchor_capacity_bytes g \<and>
       lru_capacity_bytes g3 = lru_capacity_bytes g \<and> unat (next_generation g3) = unat (next_generation g) + 1 \<and>
       ga_generation a = next_generation g"
    then show ?thesis by (intro anchored_effect [OF inv inv4 absent]) auto
  qed
  moreover have "(e, a) \<in> set (anchor ?g4 @ edge L ?g4)" using how by (auto simp: admitted_def)
  then have "current_admission L ?g4 e = Some a"
    using core4 unfolding current_admission_eq [OF core4] gpu_core_def by (metis map_of_is_SomeI)
  moreover have "current_admission L g e = None"
    using absent inv current_admission_eq [of g e] by (simp add: gpu_inv_def)
  ultimately show ?thesis using r by blast
qed

lemma promote_hot_sync_absent:
  assumes inv: "gpu_inv L g" and absent: "map_of (anchor g @ edge L g) (gr_id r) = None"
  shows "\<exists>o' g'. promote_hot_sync L g r = Some (Return (o', g')) \<and> gpu_effect L g g' \<and>
    (if o' \<in> {InstalledAnchor, InstalledLru}
     then current_admission L g' (gr_id r) = Some \<lparr>ga_resident = r, ga_generation = next_generation g\<rparr>
     else g' = clear_markers (gr_id r) g \<and> o' \<in> {NoCapacity, GenerationExhausted})"
proof -
  have core: "gpu_core L g" using inv by (simp add: gpu_inv_def)
  note I = coreD [OF core]
  let ?e = "gr_id r" and ?n = "resident_byte_len r"
  let ?anchor = "fits (anchor_used_bytes g) ?n (anchor_capacity_bytes g)"
  note res = resolve_none [OF inv absent]
  let ?refused = "?n = 0 \<or> \<not> ?anchor \<and> ?n > lru_capacity_bytes g \<or>
    \<not> ?anchor \<and> lru_used_bytes g + ?n - lru_capacity_bytes g > unprotected_logical_lru_bytes L g {} \<or>
    allocate_generation g = None"
  show ?thesis
  proof (cases ?refused)
    case True
    then have "\<exists>o'. promote_hot_sync L g r = Some (Return (o', clear_markers ?e g)) \<and> o' \<in> {NoCapacity, GenerationExhausted}"
      using res I(14) [of ?n] by (auto simp: promote_hot_sync_def Let_def not_less split: option.split)
    then show ?thesis using effect_markers(1) [OF inv] by fastforce
  next
    case False
    then obtain gen g1 where al: "allocate_generation g = Some (gen, g1)" by fastforce
    have gen: "gen = next_generation g" by (rule allocate_generation_spec(1) [OF core al])
    let ?a = "\<lparr>ga_resident = r, ga_generation = gen\<rparr>" and ?h = "clear_markers ?e g1"
    have pos: "0 < ?n" using False by simp
    show ?thesis
    proof (cases ?anchor)
      case True
      from anchor_install_spec [OF core al absent refl refl pos True, of ?h] obtain g2 where
        ins: "insert_anchor ?e ?a ?h = Return g2" "gpu_core L g2" and how: "anchor g2 = (?e, ?a) # anchor g \<and> lru g2 = lru g \<and>
          anchor_capacity_bytes g2 = anchor_capacity_bytes g \<and> lru_capacity_bytes g2 = lru_capacity_bytes g \<and>
          unat (next_generation g2) = unat (next_generation g) + 1 \<and> ga_generation ?a = next_generation g"
        by auto
      from install_finish [OF inv ins(2) disjI2 [OF how] absent, of "promotions g2 + 1"] obtain g4 where
        fin: "refresh_used_bytes (g2\<lparr>promotions := promotions g2 + 1\<rparr>) = Return g4" "gpu_effect L g g4"
          "current_admission L g4 ?e = Some ?a" by blast
      have "promote_hot_sync L g r = Some (Return (InstalledAnchor, g4))"
        using False True res al ins(1) fin(1)
        by (simp add: promote_hot_sync_def Let_def record_hot_transition_def is_transition_def)
      then show ?thesis using fin gen by auto
    next
      case na: False
      have room: "?n \<le> lru_capacity_bytes g"
        "lru_used_bytes g + ?n - lru_capacity_bytes g \<le> unprotected_logical_lru_bytes L g {}"
        using False na by auto
      from evict_put_spec [OF core al absent refl refl pos room, of ?h True] obtain V g2 g3 where
        loop: "evict_loop L True {} ?n ?h = Some (Return g2)" and put: "put_lru L ?e ?a g2 = Return g3"
        and ad: "admitted L {} g [(?e, ?a)] V g3" by blast
      have core3: "gpu_core L g3" using ad by (simp add: admitted_def)
      from install_finish [OF inv core3 disjI1 absent, of ?a "promotions g3 + 1"] ad obtain g4 where
        fin: "refresh_used_bytes (g3\<lparr>promotions := promotions g3 + 1\<rparr>) = Return g4" "gpu_effect L g g4"
          "current_admission L g4 ?e = Some ?a" by blast
      have "promote_hot_sync L g r = Some (Return (InstalledLru, g4))"
        using False na res al loop put fin(1) room I(14) [OF room(1)]
        by (simp add: promote_hot_sync_def Let_def record_hot_transition_def is_transition_def)
      then show ?thesis using fin gen by auto
    qed
  qed
qed

end

lemma effect_trans:
  assumes "gpu_effect L g h" "gpu_effect L h k" "demand_protections h = demand_protections g"
  shows "gpu_effect L g k"
proof -
  have p: "protected_id h e = protected_id g e" for e
    by (simp add: protected_id_def logical_lru_is_protected_def assms(3))
  have gh: "gpu_inv L h" "anchor_capacity_bytes h = anchor_capacity_bytes g" "lru_capacity_bytes h = lru_capacity_bytes g"
    "\<And>e a. map_of (anchor g) e = Some a \<Longrightarrow> map_of (anchor h) e = Some a"
    "unat (next_generation g) \<le> unat (next_generation h)"
    "\<And>e a. current_admission L h e = Some a \<Longrightarrow>
       current_admission L g e = Some a \<or> unat (next_generation g) \<le> unat (ga_generation a)"
    "\<And>e a. protected_id g e \<Longrightarrow> current_admission L g e = Some a \<Longrightarrow> current_admission L h e = Some a"
    using assms(1) by (auto simp: gpu_effect_def)
  have hk: "gpu_inv L k" "anchor_capacity_bytes k = anchor_capacity_bytes h" "lru_capacity_bytes k = lru_capacity_bytes h"
    "\<And>e a. map_of (anchor h) e = Some a \<Longrightarrow> map_of (anchor k) e = Some a"
    "unat (next_generation h) \<le> unat (next_generation k)"
    "\<And>e a. current_admission L k e = Some a \<Longrightarrow>
       current_admission L h e = Some a \<or> unat (next_generation h) \<le> unat (ga_generation a)"
    "\<And>e a. protected_id g e \<Longrightarrow> current_admission L h e = Some a \<Longrightarrow> current_admission L k e = Some a"
    using assms(2) by (auto simp: gpu_effect_def p)
  have "current_admission L g e = Some a \<or> unat (next_generation g) \<le> unat (ga_generation a)"
    if "current_admission L k e = Some a" for e a
    using hk(6) [OF that] gh(5,6) order_trans by blast
  then show ?thesis using gh(2-5,7) hk(1-5,7) unfolding gpu_effect_def by simp
qed

context gpu_edge
begin

lemma promote_sync_spec:
  assumes inv: "gpu_inv L g"
  shows "\<exists>b g'. promote_sync L g r = Some (Return (b, g')) \<and> gpu_effect L g g' \<and>
    (0 < resident_byte_len r \<longrightarrow> (b \<longleftrightarrow> current_admission L g' (gr_id r) \<noteq> None))"
proof -
  let ?e = "gr_id r" and ?n = "resident_byte_len r"
  let ?g = "clear_markers ?e g"
  have eff0: "gpu_effect L g ?g" by (rule effect_markers(1) [OF inv])
  have inv0: "gpu_inv L ?g" using eff0 by (simp add: gpu_effect_def)
  obtain x l where get: "lru_get L (lru ?g) ?e = (x, l)" by fastforce
  note T = effect_touch [OF inv0 get]
  let ?h = "?g\<lparr>lru := l\<rparr>"
  have adm: "current_admission L ?h = current_admission L ?g" "current_admission L ?g = current_admission L g"
    using T(2) by (simp_all add: current_admission_def fun_eq_iff clear_markers_def split: option.split)
  have effh: "gpu_effect L g ?h"
    by (rule effect_same [OF T(1)]) (use T(2) in \<open>simp_all add: clear_markers_def\<close>)
  have core: "gpu_core L ?h" using T(1) by (simp add: gpu_inv_def)
  note I = coreD [OF core]
  show ?thesis
  proof (cases "?n = 0 \<or> map_of (anchor ?g) ?e \<noteq> None \<or> x \<noteq> None")
    case True
    then consider "?n = 0" | "?n \<noteq> 0" "map_of (anchor ?g) ?e \<noteq> None"
      | "?n \<noteq> 0" "map_of (anchor ?g) ?e = None" "x \<noteq> None" by argo
    then show ?thesis
    proof cases
      case 1
      then show ?thesis using eff0 by (intro exI [of _ False] exI [of _ ?g]) (simp add: promote_sync_def)
    next
      case 2
      then show ?thesis using eff0 by (auto simp: promote_sync_def Let_def current_admission_def split: option.splits)
    next
      case 3
      then have "promote_sync L g r = Some (Return (True, ?h))" using get by (simp add: promote_sync_def Let_def)
      moreover have "current_admission L ?h ?e \<noteq> None"
        using 3 T(2,3) by (auto simp: current_admission_def split: option.splits)
      ultimately show ?thesis using effh by blast
    qed
  next
    case False
    have pos: "0 < ?n" using False by simp
    have absent: "map_of (anchor ?h @ edge L ?h) ?e = None"
      using False T(2,3) I(13) by (simp add: map_add_None)
    have none: "current_admission L ?h ?e = None" using absent current_admission_eq [OF core] by simp
    let ?anchor = "fits (anchor_used_bytes ?h) ?n (anchor_capacity_bytes ?h)"
    let ?refused = "\<not> ?anchor \<and> ?n > lru_capacity_bytes ?h \<or>
      \<not> ?anchor \<and> lru_used_bytes ?h + ?n - lru_capacity_bytes ?h > unprotected_logical_lru_bytes L ?h {} \<or>
      allocate_generation ?h = None"
    have go: "promote_sync L g r = (if \<not> ?anchor \<and> ?n > lru_capacity_bytes ?h then Some (Return (False, ?h))
      else if \<not> ?anchor \<and> saturating_add (lru_used_bytes ?h) ?n - lru_capacity_bytes ?h > unprotected_logical_lru_bytes L ?h {}
      then Some (Return (False, ?h))
      else case allocate_generation ?h of None \<Rightarrow> Some (Return (False, ?h))
      | Some (generation, g) \<Rightarrow>
          let a = \<lparr>ga_resident = r, ga_generation = generation\<rparr> in
          if ?anchor
          then Some (obind (insert_anchor ?e a g) (\<lambda>g. obind (count_promotions 1 g) (\<lambda>g. Return (True, g))))
          else lbind (evict_loop L False {} ?n g) (\<lambda>g.
                 Some (obind (put_lru_replacing L ?e a g) (\<lambda>g.
                   obind (count_promotions 1 g) (\<lambda>g. Return (True, g))))))"
      using False get by (simp add: promote_sync_def Let_def split: option.split)
    show ?thesis
    proof (cases ?refused)
      case True
      then have "promote_sync L g r = Some (Return (False, ?h))"
        unfolding go using I(14) [of ?n] by (auto simp: not_less)
      then show ?thesis using effh none by auto
    next
      case ok: False
      then obtain gen g1 where al: "allocate_generation ?h = Some (gen, g1)" by fastforce
      let ?a = "\<lparr>ga_resident = r, ga_generation = gen\<rparr>"
      have "\<exists>g4. promote_sync L g r = Some (Return (True, g4)) \<and> gpu_effect L ?h g4 \<and> current_admission L g4 ?e = Some ?a"
      proof (cases ?anchor)
        case True
        from anchor_install_spec [OF core al absent refl refl pos True, of g1] obtain g2 where
          ins: "insert_anchor ?e ?a g1 = Return g2" "gpu_core L g2" and how: "anchor g2 = (?e, ?a) # anchor ?h \<and> lru g2 = lru ?h \<and>
            anchor_capacity_bytes g2 = anchor_capacity_bytes ?h \<and> lru_capacity_bytes g2 = lru_capacity_bytes ?h \<and>
            unat (next_generation g2) = unat (next_generation ?h) + 1 \<and> ga_generation ?a = next_generation ?h"
          by auto
        from install_finish [OF T(1) ins(2) disjI2 [OF how] absent, of "promotions g2 + of_nat 1"] obtain g4 where
          fin: "count_promotions 1 g2 = Return g4" "gpu_effect L ?h g4" "current_admission L g4 ?e = Some ?a"
          unfolding count_promotions_def by blast
        then show ?thesis unfolding go using ok True al ins(1) by simp
      next
        case na: False
        have room: "?n \<le> lru_capacity_bytes ?h"
          "lru_used_bytes ?h + ?n - lru_capacity_bytes ?h \<le> unprotected_logical_lru_bytes L ?h {}"
          using ok na by auto
        from evict_put_spec [OF core al absent refl refl pos room, of g1 False] obtain V g2 g3 where
          loop: "evict_loop L False {} ?n g1 = Some (Return g2)" and put: "put_lru_replacing L ?e ?a g2 = Return g3"
          and ad: "admitted L {} ?h [(?e, ?a)] V g3" by blast
        have core3: "gpu_core L g3" using ad by (simp add: admitted_def)
        from install_finish [OF T(1) core3 disjI1 absent, of ?a "promotions g3 + of_nat 1"] ad obtain g4 where
          fin: "count_promotions 1 g3 = Return g4" "gpu_effect L ?h g4" "current_admission L g4 ?e = Some ?a"
          unfolding count_promotions_def by blast
        then show ?thesis unfolding go using ok na al loop put room I(14) [OF room(1)] by simp
      qed
      then obtain g4 where g4: "promote_sync L g r = Some (Return (True, g4))" "gpu_effect L ?h g4"
        "current_admission L g4 ?e = Some ?a" by blast
      have "gpu_effect L g g4"
        by (rule effect_trans [OF effh g4(2)]) (simp add: clear_markers_def)
      with g4 show ?thesis by auto
    qed
  qed
qed

lemma try_promote_spec:
  assumes inv: "gpu_inv L g"
  shows "\<exists>b g'. try_promote_lru_no_evict L g r = Return (b, g') \<and> gpu_effect L g g' \<and>
    (\<forall>x a. current_admission L g x = Some a \<longrightarrow> current_admission L g' x = Some a) \<and>
    (b \<longrightarrow> current_admission L g (gr_id r) = None \<and>
       current_admission L g' (gr_id r) = Some \<lparr>ga_resident = r, ga_generation = next_generation g\<rparr>)"
proof -
  let ?e = "gr_id r" and ?n = "resident_byte_len r"
  have core: "gpu_core L g" using inv by (simp add: gpu_inv_def)
  note I = coreD [OF core]
  have cm: "current_admission L (clear_markers ?e g) = current_admission L g"
    by (simp add: current_admission_def clear_markers_def fun_eq_iff split: option.split)
  let ?refused = "?n = 0 \<or> map_of (anchor g) ?e \<noteq> None \<or> lru_peek L (lru g) ?e \<noteq> None \<or>
    over_budget (lru_used_bytes g) ?n (lru_capacity_bytes g) \<or> allocate_generation g = None"
  show ?thesis
  proof (cases ?refused)
    case True
    then have "\<exists>g'. try_promote_lru_no_evict L g r = Return (False, g') \<and> (g' = g \<or> g' = clear_markers ?e g)"
      by (auto simp: try_promote_lru_no_evict_def Let_def)
    then show ?thesis using effect_markers(1,3) [OF inv] cm by auto
  next
    case False
    then obtain gen g1 where al: "allocate_generation g = Some (gen, g1)" by fastforce
    note G = allocate_generation_spec [OF core al]
    let ?a = "\<lparr>ga_resident = r, ga_generation = gen\<rparr>" and ?h = "clear_markers ?e g1"
    have absent: "map_of (anchor g @ edge L g) ?e = None" using False I(13) by (simp add: map_add_None)
    have room: "lru_used_bytes g + ?n \<le> lru_capacity_bytes g"
      using False over_budget_iff [OF I(11)] by (simp add: not_less)
    have n: "?n \<le> lru_capacity_bytes g" "lru_used_bytes g + ?n - lru_capacity_bytes g \<le> unprotected_logical_lru_bytes L g UNIV"
      using room by auto
    from False have pos: "0 < ?n" by simp
    from evict_put_spec [OF core al absent refl refl pos n, of ?h False] obtain V g2 g3 where
      loop: "evict_loop L False UNIV ?n ?h = Some (Return g2)" and put: "put_lru L ?e ?a g2 = Return g3"
      and ad: "admitted L UNIV g [(?e, ?a)] V g3" by blast
    have "g2 = ?h" using loop room over_budget_iff [OF I(11)] G(2)
      by (subst (asm) evict_loop_def, subst (asm) while_option_unfold) (simp add: clear_markers_def)
    have V: "V = {}" using ad by (auto simp: admitted_def logical_lru_is_protected_def)
    have core3: "gpu_core L g3" using ad by (simp add: admitted_def)
    from install_finish [OF inv core3 disjI1 absent, of ?a "promotions g3 + of_nat 1"] ad obtain g4 where
      fin: "count_promotions 1 g3 = Return g4" "gpu_effect L g g4" "current_admission L g4 ?e = Some ?a"
        "current_admission L g ?e = None"
      unfolding count_promotions_def by blast
    have "try_promote_lru_no_evict L g r = Return (True, g4)"
      using False al put fin(1) \<open>g2 = ?h\<close> by (simp add: try_promote_lru_no_evict_def Let_def)
    moreover have "current_admission L g4 x = Some b" if "current_admission L g x = Some b" for x b
    proof -
      have core4: "gpu_core L g4" using fin(2) by (simp add: gpu_effect_def gpu_inv_def)
      have es: "anchor g4 = anchor g" "edge L g4 = (?e, ?a) # edge L g"
        using ad V fin(1) core3 finish_spec [OF core3, of 1] by (auto simp: admitted_def)
      have "x \<noteq> ?e" using that fin(4) by auto
      then show ?thesis using that
        unfolding current_admission_eq [OF core] current_admission_eq [OF core4] es
        by (simp add: map_add_def split: option.splits)
    qed
    ultimately show ?thesis using fin G(1) by auto
  qed
qed

end

subsection \<open>Admission of a whole demand set\<close>

lemma first_duplicate_None: "first_duplicate seen ids = None \<longleftrightarrow> distinct ids \<and> set ids \<inter> seen = {}"
  by (induction seen ids rule: first_duplicate.induct) auto

definition source_bytes :: "(u32 \<Rightarrow> gpu_resident option) \<Rightarrow> u32 \<Rightarrow> nat" where
  "source_bytes sources e = (case sources e of Some r \<Rightarrow> resident_byte_len r | None \<Rightarrow> 0)"

definition source_ok :: "(u32 \<Rightarrow> gpu_resident option) \<Rightarrow> u32 \<Rightarrow> bool" where
  "source_ok sources e \<longleftrightarrow> (\<exists>r. sources e = Some r \<and> gr_id r = e \<and> 0 < resident_byte_len r)"

abbreviation absent :: "'c gpu_lru \<Rightarrow> 'c gpu_cache \<Rightarrow> u32 \<Rightarrow> bool" where
  "absent L g e \<equiv> map_of (anchor g @ lru_iter L (lru g)) e = None"

text \<open>What a successful set admission leaves behind.\<close>

definition set_admitted ::
    "'c gpu_lru \<Rightarrow> 'c gpu_cache \<Rightarrow> u32 list \<Rightarrow> (u32 \<Rightarrow> gpu_resident option) \<Rightarrow> gpu_admission list \<Rightarrow> nat \<Rightarrow>
     'c gpu_cache \<Rightarrow> bool" where
  "set_admitted L g ids sources adm n g' \<longleftrightarrow> distinct ids \<and> map Some adm = map (current_admission L g') ids \<and>
     n = length (filter (\<lambda>e. current_admission L g e = None) ids) \<and>
     (\<exists>news V. map fst news = filter (\<lambda>e. current_admission L g e = None) ids \<and> admitted L (set ids) g news V g' \<and>
        (\<forall>x\<in>set news. Some (ga_resident (snd x)) = sources (fst x)))"

context gpu_edge
begin

lemma scan_demand_spec:
  assumes core: "gpu_core L g" and "scan_demand L g sources ids s = Inr s'"
  shows "ds_new_ids s' = ds_new_ids s @ filter (\<lambda>e. absent L g e \<and> sources e \<noteq> None) ids \<and>
    ds_payload_required s' = ds_payload_required s @ filter (\<lambda>e. absent L g e \<and> sources e = None) ids \<and>
    ds_new_bytes s' = ds_new_bytes s +
      sum_list (map (source_bytes sources) (filter (\<lambda>e. absent L g e \<and> sources e \<noteq> None) ids)) \<and>
    ds_selected_lru_bytes s + ds_new_bytes s' \<le> ds_selected_lru_bytes s' + ds_new_bytes s \<and>
    (\<forall>e\<in>set ids. absent L g e \<longrightarrow> sources e \<noteq> None \<longrightarrow> source_ok sources e)"
  using assms(2)
proof (induction ids arbitrary: s)
  case Nil
  then show ?case by simp
next
  case (Cons e ids)
  note peek = coreD(13) [OF core, of e]
  show ?case
  proof (cases "absent L g e")
    case present: False
    have "\<exists>n. scan_demand L g sources ids (s\<lparr>ds_selected_lru_bytes := n\<rparr>) = Inr s' \<and> ds_selected_lru_bytes s \<le> n"
    proof (cases "map_of (anchor g) e")
      case (Some a)
      then show ?thesis using Cons.prems by (intro exI [of _ "ds_selected_lru_bytes s"]) (simp add: Let_def)
    next
      case None
      then obtain a where "lru_peek L (lru g) e = Some a" using present peek by (auto simp: map_add_None)
      then show ?thesis using Cons.prems None
        by (auto simp: checked_add_def Let_def split: if_splits)
    qed
    then obtain n where "scan_demand L g sources ids (s\<lparr>ds_selected_lru_bytes := n\<rparr>) = Inr s'"
      "ds_selected_lru_bytes s \<le> n" by blast
    from Cons.IH [OF this(1)] this(2) present show ?thesis by (auto simp del: map_of_append)
  next
    case ab: True
    then have a: "map_of (anchor g) e = None" "lru_peek L (lru g) e = None" using peek by (simp_all add: map_add_None)
    show ?thesis
    proof (cases "sources e")
      case None
      then have "scan_demand L g sources ids (s\<lparr>ds_payload_required := ds_payload_required s @ [e]\<rparr>) = Inr s'"
        using Cons.prems a by (simp add: Let_def)
      from Cons.IH [OF this] ab None show ?thesis by auto
    next
      case (Some r)
      let ?n = "resident_byte_len r"
      have ok: "gr_id r = e" "0 < ?n"
        and rec: "scan_demand L g sources ids (s\<lparr>ds_selected_lru_bytes := ds_selected_lru_bytes s + ?n,
          ds_new_bytes := ds_new_bytes s + ?n, ds_new_ids := ds_new_ids s @ [e]\<rparr>) = Inr s'"
        using Cons.prems a Some by (auto simp: Let_def checked_add_def split: if_splits)
      from Cons.IH [OF rec] ab Some ok show ?thesis by (auto simp: source_bytes_def source_ok_def)
    qed
  qed
qed

lemma install_new_spec:
  assumes "gpu_core L h" "distinct ids" "\<forall>e\<in>set ids. absent L h e \<and> source_ok sources e"
    and "unat first + offset + length ids \<le> unat (next_generation h)"
    and "\<forall>x\<in>set (anchor h @ edge L h). unat (ga_generation (snd x)) < unat first + offset"
    and "lru_used_bytes h + sum_list (map (source_bytes sources) ids) \<le> lru_capacity_bytes h"
  shows "\<exists>news h'. install_new L sources first offset ids h = Return h' \<and> gpu_core L h' \<and>
    map fst news = ids \<and> edge L h' = rev news @ edge L h \<and> anchor h' = anchor h \<and>
    next_generation h' = next_generation h \<and> anchor_capacity_bytes h' = anchor_capacity_bytes h \<and>
    lru_capacity_bytes h' = lru_capacity_bytes h \<and> demand_protections h' = demand_protections h \<and>
    (\<forall>x\<in>set news. unat first \<le> unat (ga_generation (snd x)) \<and> Some (ga_resident (snd x)) = sources (fst x))"
  using assms
proof (induction ids arbitrary: h offset)
  case Nil
  then show ?case by (intro exI [of _ "[]"] exI [of _ h]) simp
next
  case (Cons e ids)
  obtain r where r: "sources e = Some r" "gr_id r = e" "0 < resident_byte_len r"
    using Cons.prems(3) by (auto simp: source_ok_def)
  have nb: "unat (next_generation h) < 2 ^ 64" using unat_bound [of "next_generation h"] by simp
  have off: "offset < 2 ^ 64" "unat first + offset < 2 ^ 64" using Cons.prems(4) nb by simp_all
  have un: "unat (of_nat offset :: u64) = offset" using off(1) by (simp add: unat_of_nat)
  let ?gen = "first + of_nat offset :: u64"
  have gen: "checked_add_u64 first (of_nat offset) = Some ?gen" "unat ?gen = unat first + offset"
    using off un by (simp_all add: checked_add_u64_def unat_word_ariths)
  let ?a = "\<lparr>ga_resident = r, ga_generation = ?gen\<rparr>" and ?c = "clear_markers e h"
  have c: "anchor ?c = anchor h" "lru ?c = lru h" "lru_used_bytes ?c = lru_used_bytes h"
    "lru_capacity_bytes ?c = lru_capacity_bytes h" "next_generation ?c = next_generation h"
    "anchor_capacity_bytes ?c = anchor_capacity_bytes h" "demand_protections ?c = demand_protections h"
    by (simp_all add: clear_markers_def)
  have core_c: "gpu_core L ?c" using Cons.prems(1) by (simp add: core_markers)
  have bl: "byte_len ?a = resident_byte_len r" by (simp add: byte_len_def)
  have room: "lru_used_bytes ?c + byte_len ?a \<le> lru_capacity_bytes ?c"
    using Cons.prems(6) r by (simp add: c bl source_bytes_def)
  have "?gen \<notin> (ga_generation \<circ> snd) ` set (anchor h @ edge L h)"
    using Cons.prems(5) gen(2) by fastforce
  then have fresh: "fresh_admission L ?c e ?a"
    using Cons.prems(3,4) r gen(2) by (simp add: fresh_admission_def c admission_ok_def bl)
  from put_lru_spec [OF core_c fresh room] obtain l where
    put: "put_lru L e ?a ?c = Return (?c\<lparr>lru := l, lru_used_bytes := lru_used_bytes ?c + byte_len ?a\<rparr>)"
    and l: "lru_iter L l = (e, ?a) # edge L ?c" and
    core': "gpu_core L (?c\<lparr>lru := l, lru_used_bytes := lru_used_bytes ?c + byte_len ?a\<rparr>)" by blast
  let ?h = "?c\<lparr>lru := l, lru_used_bytes := lru_used_bytes ?c + byte_len ?a\<rparr>"
  have "\<exists>news h'. install_new L sources first (Suc offset) ids ?h = Return h' \<and> gpu_core L h' \<and>
    map fst news = ids \<and> edge L h' = rev news @ edge L ?h \<and> anchor h' = anchor ?h \<and>
    next_generation h' = next_generation ?h \<and> anchor_capacity_bytes h' = anchor_capacity_bytes ?h \<and>
    lru_capacity_bytes h' = lru_capacity_bytes ?h \<and> demand_protections h' = demand_protections ?h \<and>
    (\<forall>x\<in>set news. unat first \<le> unat (ga_generation (snd x)) \<and> Some (ga_resident (snd x)) = sources (fst x))"
  proof (rule Cons.IH [OF core'])
    show "distinct ids" using Cons.prems(2) by simp
    show "\<forall>x\<in>set ids. absent L ?h x \<and> source_ok sources x"
      using Cons.prems(2,3) l by (auto simp: c map_add_None)
    show "unat first + Suc offset + length ids \<le> unat (next_generation ?h)" using Cons.prems(4) by (simp add: c)
    have "\<forall>x\<in>set (anchor h @ edge L h). unat (ga_generation (snd x)) < unat first + Suc offset"
      using Cons.prems(5) by (simp add: ball_Un less_SucI)
    with l gen(2) show "\<forall>x\<in>set (anchor ?h @ edge L ?h). unat (ga_generation (snd x)) < unat first + Suc offset"
      by (simp add: c ball_Un)
    show "lru_used_bytes ?h + sum_list (map (source_bytes sources) ids) \<le> lru_capacity_bytes ?h"
      using Cons.prems(6) r source_bytes_def [of sources e] by (simp add: c bl)
  qed
  then obtain news h' where N: "install_new L sources first (Suc offset) ids ?h = Return h'" "gpu_core L h'"
    "map fst news = ids" "edge L h' = rev news @ edge L ?h" "anchor h' = anchor ?h"
    "next_generation h' = next_generation ?h" "anchor_capacity_bytes h' = anchor_capacity_bytes ?h"
    "lru_capacity_bytes h' = lru_capacity_bytes ?h" "demand_protections h' = demand_protections ?h"
    "\<forall>x\<in>set news. unat first \<le> unat (ga_generation (snd x)) \<and> Some (ga_resident (snd x)) = sources (fst x)"
    by metis
  have "install_new L sources first offset (e # ids) h = Return h'" using r gen put N(1) by simp
  then show ?case using N l r gen(2) by (intro exI [of _ "(e, ?a) # news"] exI [of _ h']) (simp add: c)
qed

lemma collect_spec:
  "\<forall>e\<in>set ids. current_admission L g e \<noteq> None \<Longrightarrow>
    collect_admissions L g ids = Return (map (\<lambda>e. the (current_admission L g e)) ids)"
  by (induction ids) auto

lemma core_advance:
  assumes "gpu_core L g" "unat (next_generation g) \<le> unat n"
  shows "gpu_core L (g\<lparr>next_generation := n\<rparr>)"
proof -
  have "admission_ok n e" if "admission_ok (next_generation g) e" for e
    using that assms(2) by (auto simp: admission_ok_def)
  then show ?thesis using assms(1) by (auto simp: gpu_core_def)
qed

lemma demand_commit_spec:
  assumes inv: "gpu_inv L g" and d: "distinct ids" and scan: "scan_demand L g sources ids empty_scan = Inr s"
    and none: "ds_payload_required s = []" and cap: "ds_selected_lru_bytes s \<le> lru_capacity_bytes g"
    and enough: "lru_used_bytes g + ds_new_bytes s - lru_capacity_bytes g \<le> unprotected_logical_lru_bytes L g (set ids)"
    and len: "length (ds_new_ids s) < 2 ^ 64"
    and nx: "checked_add_u64 (next_generation g) (of_nat (length (ds_new_ids s))) = Some nx"
  shows "\<exists>g1 g2 adm g'. evict_loop L True (set ids) (ds_new_bytes s) g = Some (Return g1) \<and>
    install_new L sources (next_generation g1) 0 (ds_new_ids s) (g1\<lparr>next_generation := nx\<rparr>) = Return g2 \<and>
    collect_admissions L g2 ids = Return adm \<and>
    (if length (ds_new_ids s) > 0 then count_promotions (length (ds_new_ids s)) g2 else Return g2) = Return g' \<and>
    gpu_effect L g g' \<and> set_admitted L g ids sources adm (length (ds_new_ids s)) g'"
proof -
  have core: "gpu_core L g" using inv by (simp add: gpu_inv_def)
  note S = scan_demand_spec [OF core scan, unfolded empty_scan_def, simplified]
  note adm_eq = current_admission_eq [OF core]
  let ?new = "ds_new_ids s"
  have new: "?new = filter (absent L g) ids" and src: "\<forall>e\<in>set ?new. absent L g e \<and> source_ok sources e"
    and bytes: "ds_new_bytes s = sum_list (map (source_bytes sources) ?new)"
  proof -
    have "filter (\<lambda>e. absent L g e \<and> sources e = None) ids = []" using S none by simp
    then have "\<forall>e\<in>set ids. absent L g e \<longrightarrow> sources e \<noteq> None" unfolding filter_empty_conv by metis
    then have "filter (\<lambda>e. absent L g e \<and> sources e \<noteq> None) ids = filter (absent L g) ids"
      by (intro filter_cong) auto
    then show "?new = filter (absent L g) ids" using S by simp
    show "\<forall>e\<in>set ?new. absent L g e \<and> source_ok sources e" using S by auto
    show "ds_new_bytes s = sum_list (map (source_bytes sources) ?new)" using S by simp
  qed
  have nxu: "unat nx = unat (next_generation g) + length ?new"
    using checked_add_u64_Some [OF nx] len by (simp add: unat_of_nat)
  have room: "ds_new_bytes s \<le> lru_capacity_bytes g" using S cap by simp
  from evict_loop_spec [OF core room enough, of True] obtain V g1 where
    loop: "evict_loop L True (set ids) (ds_new_bytes s) g = Some (Return g1)"
    and ev: "evicted L (set ids) g V g1" and fit: "lru_used_bytes g1 + ds_new_bytes s \<le> lru_capacity_bytes g1" by blast
  note E = evicted_frame [OF ev]
  have core1: "gpu_core L g1" and es1: "edge L g1 = filter (\<lambda>e. fst e \<notin> V) (edge L g)"
    and V: "V \<subseteq> {k \<in> fst ` set (edge L g). \<not> logical_lru_is_protected g k (set ids)}"
    using ev by (simp_all add: evicted_def)
  let ?h = "g1\<lparr>next_generation := nx\<rparr>"
  have core_h: "gpu_core L ?h" by (rule core_advance [OF core1]) (use nxu E(3) in simp)
  have "\<forall>x\<in>set (anchor ?h @ edge L ?h). unat (ga_generation (snd x)) < unat (next_generation g1) + 0"
    using core1 by (auto simp: gpu_core_def admission_ok_def)
  moreover have "\<forall>e\<in>set ?new. absent L ?h e \<and> source_ok sources e"
    using src by (auto simp: E(1) es1 map_add_None map_of_eq_None_iff)
  moreover have "distinct ?new" using d new by simp
  moreover have "unat (next_generation g1) + 0 + length ?new \<le> unat (next_generation ?h)" using nxu E(3) by simp
  moreover have "lru_used_bytes ?h + sum_list (map (source_bytes sources) ?new) \<le> lru_capacity_bytes ?h"
    using fit bytes by simp
  ultimately obtain news g2 where N: "install_new L sources (next_generation g1) 0 ?new ?h = Return g2" "gpu_core L g2"
    "map fst news = ?new" "edge L g2 = rev news @ edge L ?h" "anchor g2 = anchor ?h"
    "next_generation g2 = next_generation ?h" "anchor_capacity_bytes g2 = anchor_capacity_bytes ?h"
    "lru_capacity_bytes g2 = lru_capacity_bytes ?h" "demand_protections g2 = demand_protections ?h"
    "\<forall>x\<in>set news. unat (next_generation g1) \<le> unat (ga_generation (snd x)) \<and> Some (ga_resident (snd x)) = sources (fst x)"
    using install_new_spec [OF core_h] by metis
  have len': "length news = length ?new" using N(3) by (metis length_map)
  have nws: "absent L g (fst x)" if "x \<in> set news" for x
    using that src N(3) by (metis in_set_conv_nth length_map nth_map)
  have ad: "admitted L (set ids) g news V g2"
    unfolding admitted_def using N V E nxu len' es1 nws by (simp del: map_of_append)
  have there: "current_admission L g2 e \<noteq> None" if "e \<in> set ids" for e
  proof (cases "absent L g e")
    case True
    then have "e \<in> set (map fst news)" unfolding N(3) new using that by simp
    then have "e \<in> fst ` set news" by simp
    then show ?thesis unfolding current_admission_eq [OF N(2)] map_of_eq_None_iff using N(4) by auto
  next
    case False
    then have "e \<in> fst ` set (anchor g @ edge L g)" unfolding map_of_eq_None_iff by blast
    moreover have "e \<notin> V" using V that by (auto simp: logical_lru_is_protected_def)
    ultimately show ?thesis
      unfolding current_admission_eq [OF N(2)] map_of_eq_None_iff using N(4,5) E(1) es1 by force
  qed
  let ?adm = "map (\<lambda>e. the (current_admission L g2 e)) ids"
  have col: "collect_admissions L g2 ids = Return ?adm" by (rule collect_spec) (use there in blast)
  have done': "set_admitted L g ids sources ?adm (length ?new) g'"
    if "admitted L (set ids) g news V g'" "current_admission L g' = current_admission L g2" for g'
    unfolding set_admitted_def adm_eq using d new N(3,10) that there by (auto simp del: map_of_append)
  show ?thesis
  proof (cases "?new = []")
    case True
    then have "lru_used_bytes g + ds_new_bytes s \<le> lru_capacity_bytes g" using bytes coreD(9) [OF core] by simp
    then have "g1 = g" using loop over_budget_iff [OF coreD(11) [OF core]]
      by (subst (asm) evict_loop_def, subst (asm) while_option_unfold) simp
    moreover have "nx = next_generation g" using nxu True by (simp add: word_unat_eq_iff)
    ultimately have "g2 = g" using N(1) True by simp
    then show ?thesis using loop N(1) col True ad done' [OF ad refl] admitted_effect [OF inv ad] inv by auto
  next
    case False
    from finish_spec [OF N(2), of "length ?new"] obtain g' where fin: "count_promotions (length ?new) g2 = Return g'" "gpu_inv L g'"
      and g': "g' = g2\<lparr>promotions := promotions g2 + of_nat (length ?new), logical_admitted_bytes := of_nat (anchor_used_bytes g2 + lru_used_bytes g2)\<rparr>"
      by blast
    have ad': "admitted L (set ids) g news V g'" using ad by (simp add: g')
    have "current_admission L g' = current_admission L g2"
      by (simp add: g' current_admission_def fun_eq_iff split: option.split)
    from done' [OF ad' this] admitted_effect [OF inv ad' fin(2)] loop N(1) col fin(1) False show ?thesis by auto
  qed
qed

text \<open>The outcome of a set admission: all of it, or nothing.\<close>

lemma demand_admit_set_spec:
  assumes inv: "gpu_inv L g"
  shows "\<exists>res g'. demand_admit_set L g ids sources = Some (Return (res, g')) \<and> gpu_effect L g g' \<and>
    (case res of
       Inl er \<Rightarrow> g' = g
     | Inr (SetPayloadRequired miss) \<Rightarrow> g' = g \<and> miss \<noteq> [] \<and>
         miss = filter (\<lambda>e. current_admission L g e = None \<and> sources e = None) ids
     | Inr (Ready adm n) \<Rightarrow> set_admitted L g ids sources adm n g')"
proof -
  have core: "gpu_core L g" using inv by (simp add: gpu_inv_def)
  note eff = effect_markers(3) [OF inv]
  show ?thesis
  proof (cases "first_duplicate {} ids")
    case (Some e)
    then show ?thesis using eff by (simp add: demand_admit_set_def)
  next
    case fd: None
    then have d: "distinct ids" by (simp add: first_duplicate_None)
    show ?thesis
    proof (cases "scan_demand L g sources ids empty_scan")
      case (Inl er)
      then show ?thesis using eff fd by (simp add: demand_admit_set_def)
    next
      case scan: (Inr s)
      note S = scan_demand_spec [OF core scan, unfolded empty_scan_def, simplified]
      let ?u = "unprotected_logical_lru_bytes L g (set ids)"
      show ?thesis
      proof (cases "ds_payload_required s \<noteq> [] \<or> ds_selected_lru_bytes s > lru_capacity_bytes g \<or>
          checked_add (lru_used_bytes g) (ds_new_bytes s) = None \<or>
          lru_used_bytes g + ds_new_bytes s - lru_capacity_bytes g > ?u \<or> length (ds_new_ids s) \<ge> 2 ^ 64 \<or>
          checked_add_u64 (next_generation g) (of_nat (length (ds_new_ids s))) = None")
        case True
        have "\<exists>er. demand_admit_set L g ids sources = Some (Return (Inl er, g))" if "ds_payload_required s = []"
          using True fd scan that
          by (simp add: demand_admit_set_def Let_def not_less split: option.split)
            (auto simp: checked_add_def split: if_splits)
        then consider "ds_payload_required s \<noteq> []"
          | er where "demand_admit_set L g ids sources = Some (Return (Inl er, g))" by blast
        then show ?thesis
        proof cases
          case 1
          then have "demand_admit_set L g ids sources = Some (Return (Inr (SetPayloadRequired (ds_payload_required s)), g))"
            using fd scan by (simp add: demand_admit_set_def)
          then show ?thesis using eff S 1 by (simp add: current_admission_eq [OF core])
        qed (use eff in simp)
      next
        case False
        then obtain nx where nx: "checked_add_u64 (next_generation g) (of_nat (length (ds_new_ids s))) = Some nx" by auto
        from False demand_commit_spec [OF inv d scan _ _ _ _ nx] obtain g1 g2 adm g' where
          "evict_loop L True (set ids) (ds_new_bytes s) g = Some (Return g1)"
          "install_new L sources (next_generation g1) 0 (ds_new_ids s) (g1\<lparr>next_generation := nx\<rparr>) = Return g2"
          "collect_admissions L g2 ids = Return adm"
          "(if length (ds_new_ids s) > 0 then count_promotions (length (ds_new_ids s)) g2 else Return g2) = Return g'"
          and post: "gpu_effect L g g'" "set_admitted L g ids sources adm (length (ds_new_ids s)) g'"
          unfolding not_less not_le de_Morgan_disj by blast
        then have "demand_admit_set L g ids sources = Some (Return (Inr (Ready adm (length (ds_new_ids s))), g'))"
          using False fd scan nx by (simp add: demand_admit_set_def checked_add_def Let_def split: if_splits)
        then show ?thesis using post by simp
      qed
    qed
  qed
qed

end

end
