(* ===== verification/GpuRuns.thy ===== *)
theory GpuRuns
  imports GpuCache
begin

section \<open>Runs of the GPU admission cache\<close>

text \<open>
  The operations of \<open>GpuExpertCache\<close> as the steps of a transition system. A state is a cache
  together with the protection guards that are alive (a guard is the list of ids it registered;
  dropping it is a step). The run theorems hold in every state reachable from
  \<open>GpuExpertCache::new\<close>, whatever the order in which the callers invoke the operations.
\<close>

type_synonym 'c gpu_state = "'c gpu_cache \<times> u32 list list"

inductive gpu_step :: "'c gpu_lru \<Rightarrow> 'c gpu_state \<Rightarrow> 'c gpu_state \<Rightarrow> bool" for L where
  step_get: "gpu_get L g e = (r, g') \<Longrightarrow> gpu_step L (g, G) (g', G)"
| step_claim: "claim_promotion g e hits = (b, g') \<Longrightarrow> gpu_step L (g, G) (g', G)"
| step_cancel: "gpu_step L (g, G) (cancel_promotion g e, G)"
| step_existing: "promote_hot_existing L g e = Return (o', g') \<Longrightarrow> gpu_step L (g, G) (g', G)"
| step_hot: "promote_hot_sync L g res = Some (Return (o', g')) \<Longrightarrow> gpu_step L (g, G) (g', G)"
| step_promote: "promote_sync L g res = Some (Return (b, g')) \<Longrightarrow> gpu_step L (g, G) (g', G)"
| step_try: "try_promote_lru_no_evict L g res = Return (b, g') \<Longrightarrow> gpu_step L (g, G) (g', G)"
| step_admit: "demand_admit_lru L g res = Some (Return (x, g')) \<Longrightarrow> gpu_step L (g, G) (g', G)"
| step_admit_set: "demand_admit_set L g ids sources = Some (Return (y, g')) \<Longrightarrow> gpu_step L (g, G) (g', G)"
| step_protect: "protect_demand_set g ids = Return (Inr guard, g') \<Longrightarrow> gpu_step L (g, G) (g', guard # G)"
| step_refused: "protect_demand_set g ids = Return (Inl er, g') \<Longrightarrow> gpu_step L (g, G) (g', G)"
| step_drop: "guard \<in> set G \<Longrightarrow> protection_drop g guard = Return g' \<Longrightarrow>
    gpu_step L (g, G) (g', remove1 guard G)"

abbreviation gpu_run :: "'c gpu_lru \<Rightarrow> 'c gpu_state \<Rightarrow> 'c gpu_state \<Rightarrow> bool" where
  "gpu_run L \<equiv> (gpu_step L)\<^sup>*\<^sup>*"

lemma gpu_cache_new_caps:
  assumes "n < 2 ^ 63"
  shows "anchor_capacity_bytes (gpu_cache_new L n r k) + lru_capacity_bytes (gpu_cache_new L n r k) \<le> usize_MAX"
    "2 * lru_capacity_bytes (gpu_cache_new L n r k) \<le> usize_MAX"
    "n \<le> capacity_bytes (gpu_cache_new L n r k)"
  using f32_share_le [of n r] assms by (simp_all add: gpu_cache_new_def Let_def usize_MAX_def capacity_bytes_def)

subsection \<open>Reference counts of the guards\<close>

definition guard_count :: "u32 list list \<Rightarrow> u32 \<Rightarrow> nat" where
  "guard_count G e = length (filter (\<lambda>ids. e \<in> set ids) G)"

definition guards_inv :: "'c gpu_cache \<Rightarrow> u32 list list \<Rightarrow> bool" where
  "guards_inv g G \<longleftrightarrow> (\<forall>ids\<in>set G. distinct ids) \<and>
     (\<forall>e. demand_protections g e = (if guard_count G e = 0 then None else Some (guard_count G e)))"

lemma guard_count_simps [simp]:
  "guard_count [] e = 0"
  "guard_count (ids # G) e = (if e \<in> set ids then 1 else 0) + guard_count G e"
  by (simp_all add: guard_count_def)

lemma guard_count_remove1:
  "ids \<in> set G \<Longrightarrow> guard_count G e = (if e \<in> set ids then 1 else 0) + guard_count (remove1 ids G) e"
  by (induction G) auto

lemma guard_count_pos: "ids \<in> set G \<Longrightarrow> e \<in> set ids \<Longrightarrow> 0 < guard_count G e"
  using guard_count_remove1 [of ids G e] by simp

lemma register_spec:
  assumes "distinct ids" "register_protections ids ps = Return ps'"
  shows "ps' e = (if e \<in> set ids then Some (Suc (case ps e of Some n \<Rightarrow> n | None \<Rightarrow> 0)) else ps e)"
  using assms
  by (induction ids arbitrary: ps) (auto simp: checked_add_def split: option.splits if_splits)

lemma register_total:
  assumes "distinct ids" "\<forall>e\<in>set ids. (case ps e of Some n \<Rightarrow> n | None \<Rightarrow> 0) < usize_MAX"
  shows "\<exists>ps'. register_protections ids ps = Return ps'"
  using assms by (induction ids arbitrary: ps) (auto simp: checked_add_def)

lemma release_counts:
  assumes "distinct ids" "\<forall>e\<in>set ids. \<exists>n. ps e = Some n \<and> 0 < n"
  shows "\<exists>ps'. release_protections ids ps = Return ps' \<and>
    (\<forall>e. ps' e = (if e \<in> set ids then (if ps e = Some 1 then None else Some (the (ps e) - 1)) else ps e))"
  using assms
proof (induction ids arbitrary: ps)
  case (Cons x ids)
  then obtain n where n: "ps x = Some n" "0 < n" by auto
  let ?ps = "if n - 1 = 0 then ps(x := None) else ps(x \<mapsto> n - 1)"
  have "\<forall>e\<in>set ids. \<exists>n. ?ps e = Some n \<and> 0 < n" using Cons.prems by auto
  from Cons.IH [OF _ this] Cons.prems(1) obtain ps' where
    "release_protections ids ?ps = Return ps'"
    "\<forall>e. ps' e = (if e \<in> set ids then (if ?ps e = Some 1 then None else Some (the (?ps e) - 1)) else ?ps e)"
    by auto
  then show ?case using n Cons.prems(1) by (intro exI [of _ ps']) auto
qed simp

lemma protect_guards:
  assumes inv: "guards_inv g G" and p: "protect_demand_set g ids = Return (Inr guard, g')"
  shows "guards_inv g' (guard # G) \<and> guard = ids \<and> (\<exists>ps. g' = g\<lparr>demand_protections := ps\<rparr>)"
proof -
  have fd: "first_duplicate {} ids = None" using p by (cases "first_duplicate {} ids") (simp_all add: protect_demand_set_def)
  then have "distinct ids" by (simp add: first_duplicate_None)
  moreover obtain ps where reg: "register_protections ids (demand_protections g) = Return ps"
    using p fd by (cases "register_protections ids (demand_protections g)") (simp_all add: protect_demand_set_def)
  moreover have g': "g' = g\<lparr>demand_protections := ps\<rparr>" "guard = ids"
    using p by (simp_all add: protect_demand_set_def fd reg)
  ultimately have "distinct ids" "register_protections ids (demand_protections g) = Return ps" by blast+
  note R = register_spec [OF this(1,2)]
  have cnt: "demand_protections g e = (if guard_count G e = 0 then None else Some (guard_count G e))" for e
    using inv by (simp add: guards_inv_def)
  have "ps e = (if guard_count (ids # G) e = 0 then None else Some (guard_count (ids # G) e))" for e
    using R [of e] cnt [of e] by simp
  then show ?thesis using inv g' \<open>distinct ids\<close> by (auto simp add: guards_inv_def)
qed

lemma drop_guards:
  assumes inv: "guards_inv g G" and m: "guard \<in> set G"
  shows "\<exists>ps. protection_drop g guard = Return (g\<lparr>demand_protections := ps\<rparr>) \<and>
    guards_inv (g\<lparr>demand_protections := ps\<rparr>) (remove1 guard G)"
proof -
  have d: "distinct guard" and cnt: "demand_protections g e = (if guard_count G e = 0 then None else Some (guard_count G e))" for e
    using inv m by (auto simp: guards_inv_def)
  have "\<forall>e\<in>set guard. \<exists>n. demand_protections g e = Some n \<and> 0 < n"
    using guard_count_pos [OF m] cnt by auto
  from release_counts [OF d this] obtain ps where
    ps: "release_protections guard (demand_protections g) = Return ps"
    "ps e = (if e \<in> set guard then (if demand_protections g e = Some 1 then None else Some (the (demand_protections g e) - 1)) else demand_protections g e)" for e
    by blast
  have "ps e = (if guard_count (remove1 guard G) e = 0 then None else Some (guard_count (remove1 guard G) e))" for e
    unfolding ps(2) cnt using guard_count_remove1 [OF m, of e] by auto
  moreover have "\<forall>ids\<in>set (remove1 guard G). distinct ids" using inv by (auto simp: guards_inv_def dest: notin_set_remove1)
  ultimately show ?thesis using ps(1) by (auto simp: protection_drop_def guards_inv_def)
qed

lemma guard_protects: "guards_inv g G \<Longrightarrow> guard \<in> set G \<Longrightarrow> e \<in> set guard \<Longrightarrow> protected_id g e"
  using guard_count_pos by (force simp: guards_inv_def protected_id_def logical_lru_is_protected_def)

subsection \<open>Frame of the guards\<close>

text \<open>No operation but those of the guards touches the reference counts.\<close>

lemma lbind_Return:
  "lbind m f = Some (Return y) \<longleftrightarrow> (\<exists>x. m = Some (Return x) \<and> f x = Some (Return y))"
  by (cases "(m, f)" rule: lbind.cases) auto

lemma evict_loop_guards:
  assumes "evict_loop L checked extra n g = Some (Return g')"
  shows "demand_protections g' = demand_protections g"
proof -
  have one: "demand_protections k' = demand_protections k" if "evict_one L checked extra k = Return k'" for k k' :: "'a gpu_cache"
    using that by (auto simp: evict_one_def split: option.splits prod.splits if_splits)
  let ?P = "\<lambda>s. case s of Panic \<Rightarrow> True | Return k \<Rightarrow> demand_protections k = demand_protections g"
  from assms have "?P (Return g')"
    unfolding evict_loop_def
    by (rule while_option_rule [rotated]) (auto split: outcome.splits dest: one)
  then show ?thesis by simp
qed

lemma small_guards [simp]:
  "demand_protections (clear_markers e g) = demand_protections g"
  "demand_protections (record_hot_transition o' g) = demand_protections g"
  "demand_protections (cancel_promotion g e) = demand_protections g"
  by (simp_all add: clear_markers_def record_hot_transition_def cancel_promotion_def)

lemma part_guards:
  "put_lru L e a g = Return g' \<Longrightarrow> demand_protections g' = demand_protections g"
  "put_lru_replacing L e a g = Return g' \<Longrightarrow> demand_protections g' = demand_protections g"
  "insert_anchor e a g = Return g' \<Longrightarrow> demand_protections g' = demand_protections g"
  "refresh_used_bytes g = Return g' \<Longrightarrow> demand_protections g' = demand_protections g"
  "count_promotions n g = Return g' \<Longrightarrow> demand_protections g' = demand_protections g"
  "allocate_generation g = Some (gen, g') \<Longrightarrow> demand_protections g' = demand_protections g"
  by (auto simp: put_lru_def put_lru_replacing_def insert_anchor_def refresh_used_bytes_def count_promotions_def
      allocate_generation_def Let_def split: option.splits prod.splits)

lemma resolve_guards:
  "resolve_existing_hot_locked L g e = Return (r, g') \<Longrightarrow> demand_protections g' = demand_protections g"
  by (auto simp: resolve_existing_hot_locked_def obind_Return_iff split: if_splits option.splits prod.splits
      dest!: part_guards)

lemma install_guards:
  "install_new L sources first k ids g = Return g' \<Longrightarrow> demand_protections g' = demand_protections g"
  by (induction ids arbitrary: k g) (auto simp: obind_Return_iff split: option.splits dest!: part_guards)

lemmas guards_frame = part_guards evict_loop_guards resolve_guards install_guards

lemma existing_guards:
  assumes "promote_hot_existing L g e = Return (o', g')"
  shows "demand_protections g' = demand_protections g"
proof -
  obtain r h where res: "resolve_existing_hot_locked L g e = Return (r, h)"
    using assms by (cases "resolve_existing_hot_locked L g e") (auto simp: promote_hot_existing_def)
  then show ?thesis
    using assms resolve_guards [OF res] by (cases r) (simp_all add: promote_hot_existing_def, metis small_guards(2))
qed

lemma get_guards: "gpu_get L g e = (r, g') \<Longrightarrow> demand_protections g' = demand_protections g"
  by (auto simp: gpu_get_def Let_def split: option.splits prod.splits)

lemma claim_guards: "claim_promotion g e h = (b, g') \<Longrightarrow> demand_protections g' = demand_protections g"
  by (auto simp: claim_promotion_def Let_def split: if_splits)

lemma try_guards:
  "try_promote_lru_no_evict L g res = Return (b, g') \<Longrightarrow> demand_protections g' = demand_protections g"
  by (auto simp: try_promote_lru_no_evict_def Let_def obind_Return_iff part_guards
      split: option.splits if_splits)

lemma hot_guards:
  assumes "promote_hot_sync L g res = Some (Return (o', g'))"
  shows "demand_protections g' = demand_protections g"
proof -
  obtain r h where res: "resolve_existing_hot_locked L g (gr_id res) = Return (r, h)"
    using assms by (cases "resolve_existing_hot_locked L g (gr_id res)") (auto simp: promote_hot_sync_def Let_def)
  note h = resolve_guards [OF res]
  show ?thesis
  proof (cases r)
    case None
    show ?thesis using assms
      by (auto simp: promote_hot_sync_def Let_def res None lbind_Return obind_Return_iff h guards_frame
          split: if_splits option.splits)
  next
    case (Some p)
    then have "g' = record_hot_transition p h" using assms by (auto simp: promote_hot_sync_def Let_def res)
    then show ?thesis using h by simp
  qed
qed

lemma promote_guards:
  "promote_sync L g res = Some (Return (b, g')) \<Longrightarrow> demand_protections g' = demand_protections g"
  by (auto simp: promote_sync_def Let_def lbind_Return obind_Return_iff guards_frame
      split: prod.splits option.splits if_splits)

lemma admit_guards:
  "demand_admit_lru L g res = Some (Return (x, g')) \<Longrightarrow> demand_protections g' = demand_protections g"
  by (auto simp: demand_admit_lru_def Let_def lbind_Return obind_Return_iff guards_frame
      split: option.splits if_splits)

lemma guards_cong: "demand_protections g' = demand_protections g \<Longrightarrow> guards_inv g' G = guards_inv g G"
  by (simp add: guards_inv_def)

lemma protect_refused:
  assumes "protect_demand_set g ids = Return (Inl er, g')"
  shows "g' = g \<and> \<not> distinct ids"
proof (cases "first_duplicate {} ids")
  case None
  then show ?thesis using assms
    by (cases "register_protections ids (demand_protections g)") (simp_all add: protect_demand_set_def)
next
  case (Some e)
  then have "first_duplicate {} ids \<noteq> None" by simp
  then have "\<not> distinct ids" by (simp add: first_duplicate_None del: not_None_eq)
  then show ?thesis using assms Some by (simp add: protect_demand_set_def)
qed

subsection \<open>One step\<close>

definition run_inv :: "'c gpu_lru \<Rightarrow> 'c gpu_state \<Rightarrow> bool" where
  "run_inv L s \<longleftrightarrow> gpu_inv L (fst s) \<and> guards_inv (fst s) (snd s)"

text \<open>Along a run the budgets are fixed, anchored admissions stay, generations only grow, and an
  admission that was not there before carries a generation handed out since.\<close>

definition run_effect :: "'c gpu_lru \<Rightarrow> 'c gpu_cache \<Rightarrow> 'c gpu_cache \<Rightarrow> bool" where
  "run_effect L g g' \<longleftrightarrow> anchor_capacity_bytes g' = anchor_capacity_bytes g \<and>
     lru_capacity_bytes g' = lru_capacity_bytes g \<and>
     (\<forall>e a. map_of (anchor g) e = Some a \<longrightarrow> map_of (anchor g') e = Some a) \<and>
     unat (next_generation g) \<le> unat (next_generation g') \<and>
     (\<forall>e a. current_admission L g' e = Some a \<longrightarrow>
        current_admission L g e = Some a \<or> unat (next_generation g) \<le> unat (ga_generation a))"

context gpu_edge
begin

lemma admit_set_guards:
  assumes "gpu_inv L g" "demand_admit_set L g ids sources = Some (Return (y, g'))"
  shows "demand_protections g' = demand_protections g"
  using demand_admit_set_spec [OF assms(1), of ids sources] assms(2)
  by (auto simp: set_admitted_def admitted_def split: sum.splits gpu_demand_set_admission.splits)

lemma claim_effect:
  assumes "gpu_inv L g" "claim_promotion g e h = (b, g')"
  shows "gpu_effect L g g'"
proof -
  have "\<exists>s t. g' = g\<lparr>promotion_pending := s, promotion_rearm := t\<rparr>"
  proof -
    have "g' = g \<or> g' = g\<lparr>promotion_rearm := promotion_rearm g - {e}\<rparr> \<or>
      g' = g\<lparr>promotion_rearm := promotion_rearm g - {e}, promotion_pending := insert e (promotion_pending g)\<rparr>"
      using assms(2) by (auto simp: claim_promotion_def Let_def split: if_splits)
    moreover have "g = g\<lparr>promotion_pending := promotion_pending g, promotion_rearm := promotion_rearm g\<rparr>"
      "g\<lparr>promotion_rearm := t\<rparr> = g\<lparr>promotion_pending := promotion_pending g, promotion_rearm := t\<rparr>"
      "g\<lparr>promotion_rearm := t, promotion_pending := s\<rparr> = g\<lparr>promotion_pending := s, promotion_rearm := t\<rparr>" for s t
      by simp_all
    ultimately show ?thesis by metis
  qed
  then show ?thesis using effect_markers(4) [OF assms(1)] by auto
qed

lemma cancel_effect: "gpu_inv L g \<Longrightarrow> gpu_effect L g (cancel_promotion g e)"
  using effect_markers(3,4) by (simp add: cancel_promotion_def)

lemma hot_effect:
  assumes inv: "gpu_inv L g" and "promote_hot_sync L g r = Some (Return (o', g'))"
  shows "gpu_effect L g g'"
proof (cases "map_of (anchor g @ edge L g) (gr_id r) = None")
  case True
  then show ?thesis using promote_hot_sync_absent [OF inv True] assms(2) by auto
next
  case False
  then show ?thesis
    using promote_hot_sync_present [OF inv False] promote_hot_existing_spec [OF inv, of "gr_id r"] assms(2)
    by (auto simp: resolved_def)
qed

lemma step_effect:
  assumes "gpu_step L (g, G) (g', G')" "run_inv L (g, G)"
  shows "gpu_effect L g g' \<and> guards_inv g' G'"
proof -
  have inv: "gpu_inv L g" "guards_inv g G" using assms(2) by (simp_all add: run_inv_def)
  have same: "gpu_effect L g g' \<and> guards_inv g' G"
    if "gpu_effect L g g'" "demand_protections g' = demand_protections g"
    using that inv guards_cong [OF that(2), of G] by simp
  from assms(1) show ?thesis
  proof cases
    case (step_get e r)
    then show ?thesis using same get_effect [OF inv(1)] get_guards by metis
  next
    case (step_claim e hits b)
    then show ?thesis using same claim_effect [OF inv(1)] claim_guards by metis
  next
    case (step_cancel e)
    then show ?thesis using same cancel_effect [OF inv(1)] small_guards(3) by metis
  next
    case (step_existing e o')
    have "gpu_effect L g g'" using step_existing(2) promote_hot_existing_spec [OF inv(1), of e] by (auto simp: resolved_def)
    then show ?thesis using same existing_guards [OF step_existing(2)] step_existing(1) by simp
  next
    case (step_hot res o')
    then show ?thesis using same hot_effect [OF inv(1)] hot_guards by metis
  next
    case (step_promote res b)
    have "gpu_effect L g g'" using step_promote(2) promote_sync_spec [OF inv(1), of res] by auto
    then show ?thesis using same promote_guards [OF step_promote(2)] step_promote(1) by simp
  next
    case (step_try res b)
    have "gpu_effect L g g'" using step_try(2) try_promote_spec [OF inv(1), of res] by auto
    then show ?thesis using same try_guards [OF step_try(2)] step_try(1) by simp
  next
    case (step_admit res x)
    have "gpu_effect L g g'" using step_admit(2) demand_admit_lru_spec [OF inv(1), of res] by auto
    then show ?thesis using same admit_guards [OF step_admit(2)] step_admit(1) by simp
  next
    case (step_admit_set ids sources y)
    have "gpu_effect L g g'" using step_admit_set(2) demand_admit_set_spec [OF inv(1), of ids sources] by auto
    then show ?thesis using same admit_set_guards [OF inv(1) step_admit_set(2)] step_admit_set(1) by simp
  next
    case (step_protect ids guard)
    from protect_guards [OF inv(2) step_protect(2)] step_protect(1) show ?thesis
      using effect_markers(6) [OF inv(1)] by auto
  next
    case (step_refused ids er)
    then show ?thesis using same protect_refused effect_markers(3) [OF inv(1)] by metis
  next
    case (step_drop guard)
    from drop_guards [OF inv(2) step_drop(2)] step_drop show ?thesis
      using effect_markers(6) [OF inv(1)] by auto
  qed
qed

lemma step_inv: "gpu_step L s t \<Longrightarrow> run_inv L s \<Longrightarrow> run_inv L t"
  using step_effect [of "fst s" "snd s" "fst t" "snd t"] by (simp add: run_inv_def gpu_effect_def)

lemma run_effect_step:
  assumes e1: "run_effect L g h" and e2: "gpu_effect L h k"
  shows "run_effect L g k"
proof -
  have caps: "anchor_capacity_bytes k = anchor_capacity_bytes g" "lru_capacity_bytes k = lru_capacity_bytes g"
    "unat (next_generation g) \<le> unat (next_generation k)"
    using e1 e2 by (simp_all add: run_effect_def gpu_effect_def)
  moreover have "map_of (anchor k) e = Some a" if "map_of (anchor g) e = Some a" for e a
    using e1 e2 that by (simp add: run_effect_def gpu_effect_def)
  moreover have "current_admission L g e = Some a \<or> unat (next_generation g) \<le> unat (ga_generation a)"
    if "current_admission L k e = Some a" for e a
  proof -
    have "current_admission L h e = Some a \<or> unat (next_generation h) \<le> unat (ga_generation a)"
      using e2 that by (simp add: gpu_effect_def)
    moreover have "unat (next_generation g) \<le> unat (next_generation h)" using e1 by (simp add: run_effect_def)
    ultimately show ?thesis using e1 unfolding run_effect_def by fastforce
  qed
  ultimately show ?thesis by (simp add: run_effect_def)
qed

lemma run_effect:
  assumes "gpu_run L s t" "run_inv L s"
  shows "run_inv L t \<and> run_effect L (fst s) (fst t)"
  using assms
proof (induction rule: rtranclp_induct)
  case base
  then show ?case by (simp add: run_effect_def)
next
  case (step t u)
  have inv: "run_inv L t" and e1: "run_effect L (fst s) (fst t)" using step.IH [OF step.prems] by simp_all
  have e2: "gpu_effect L (fst t) (fst u)"
    using step_effect [of "fst t" "snd t" "fst u" "snd u"] step.hyps(2) inv by simp
  have "run_effect L (fst s) (fst u)"
    by (rule run_effect_step [OF e1 e2])
  then show ?case using step_inv [OF step.hyps(2) inv] by simp
qed

lemma start_run_inv:
  assumes "n < 2 ^ 63"
  shows "run_inv L (gpu_cache_new L n ratio k, [])"
proof -
  let ?g = "gpu_cache_new L n ratio k"
  have f: "anchor ?g = []" "anchor_used_bytes ?g = 0" "lru ?g = lru_unbounded L" "lru_used_bytes ?g = 0"
    "demand_protections ?g = Map.empty" "logical_admitted_bytes ?g = 0"
    by (simp_all add: gpu_cache_new_def Let_def)
  show ?thesis
    using gpu_cache_new_caps [OF assms, of L ratio k] unbounded_cache
    by (simp add: run_inv_def gpu_inv_def gpu_core_def guards_inv_def f)
qed

lemma held_effect:
  assumes "(\<lambda>s t. gpu_step L s t \<and> guard \<in> set (snd s))\<^sup>*\<^sup>* s t" "run_inv L s" "e \<in> set guard"
    "current_admission L (fst s) e = Some a"
  shows "run_inv L t \<and> current_admission L (fst t) e = Some a"
  using assms
proof (induction rule: rtranclp_induct)
  case (step t u)
  have inv: "run_inv L t" and adm: "current_admission L (fst t) e = Some a" using step by simp_all
  have "protected_id (fst t) e"
    using guard_protects [of "fst t" "snd t" guard e] inv step by (simp add: run_inv_def)
  moreover have "gpu_effect L (fst t) (fst u)"
    using step_effect [of "fst t" "snd t" "fst u" "snd u"] step.hyps(2) inv by simp
  ultimately show ?case using adm step_inv [OF _ inv] step.hyps(2) by (simp add: gpu_effect_def)
qed simp

text \<open>Generations are an identity: distinct admissions of a well-formed cache differ in them.\<close>

lemma generation_unique:
  assumes "gpu_inv L g" "current_admission L g e = Some a" "current_admission L g e' = Some a'"
    "ga_generation a = ga_generation a'"
  shows "e = e' \<and> a = a'"
proof -
  have core: "gpu_core L g" using assms(1) by (simp add: gpu_inv_def)
  have "(e, a) \<in> set (anchor g @ edge L g)" "(e', a') \<in> set (anchor g @ edge L g)"
    using assms(2,3) unfolding current_admission_eq [OF core] by (auto dest: map_of_SomeD simp del: map_of_append)
  moreover have "inj_on (ga_generation \<circ> snd) (set (anchor g @ edge L g))"
    using core unfolding gpu_core_def distinct_map by blast
  ultimately have "(e, a) = (e', a')" using assms(4) by (metis comp_apply inj_onD snd_conv)
  then show ?thesis by simp
qed

lemma generation_old:
  assumes "gpu_inv L g" "current_admission L g e = Some a"
  shows "unat (ga_generation a) < unat (next_generation g)"
proof -
  have core: "gpu_core L g" using assms(1) by (simp add: gpu_inv_def)
  have "(e, a) \<in> set (anchor g @ edge L g)"
    using assms(2) unfolding current_admission_eq [OF core] by (rule map_of_SomeD)
  then have "admission_ok (next_generation g) (e, a)" using core by (simp add: gpu_core_def)
  then show ?thesis by (simp add: admission_ok_def)
qed

end

interpretation gpu_list: gpu_edge list_lru
  by (rule gpu_edge.intro) (rule list_lru.lru_cache_axioms)

subsection \<open>A concrete run\<close>

definition demo_gpu :: "(u32 \<times> gpu_admission) list \<Rightarrow> u64 \<Rightarrow> (u32 \<Rightarrow> usize option) \<Rightarrow> gpu_admission list_lru gpu_cache" where
  "demo_gpu es n ps = \<lparr>anchor = [], anchor_used_bytes = 0, lru = (None, es), lru_used_bytes = bytes_of es,
     next_generation = n, promotion_pending = {}, promotion_rearm = {}, demand_protections = ps,
     anchor_capacity_bytes = 0, lru_capacity_bytes = 8, promote_after_hits = 2, promotions = n - 1,
     logical_admitted_bytes = of_nat (bytes_of es), gpu_hits = 0, gpu_misses = 0\<rparr>"

definition demo_resident :: "u32 \<Rightarrow> gpu_resident" where
  "demo_resident e = gpu_resident_new e [1, 2, 3]"

definition demo_admission :: "u32 \<Rightarrow> u64 \<Rightarrow> u32 \<times> gpu_admission" where
  "demo_admission e n = (e, \<lparr>ga_resident = demo_resident e, ga_generation = n\<rparr>)"

lemma demo_start: "gpu_cache_new list_lru 8 (F32_Fin 0) 2 = demo_gpu [] 1 Map.empty"
  by (simp add: gpu_cache_new_def Let_def f32_clamp_def f32_lt_def usize_to_f32_exact f32_round_def
      demo_gpu_def list_lru_def)

lemma demo_bytes [simp]:
  "resident_byte_len (demo_resident e) = 3" "gr_id (demo_resident e) = e"
  "byte_len \<lparr>ga_resident = demo_resident e, ga_generation = n\<rparr> = 3"
  by (simp_all add: demo_resident_def gpu_resident_new_def resident_byte_len_def byte_len_def)

lemma evict_loop_fits:
  "lru_used_bytes g + n \<le> lru_capacity_bytes g \<Longrightarrow> lru_capacity_bytes g \<le> usize_MAX \<Longrightarrow>
    evict_loop L checked extra n g = Some (Return g)"
  unfolding evict_loop_def by (subst while_option_unfold) (simp add: over_budget_iff)

lemma demo_admit:
  "demand_admit_lru list_lru (demo_gpu [] 1 ps) (demo_resident 5) =
     Some (Return (Inr True, demo_gpu [demo_admission 5 1] 2 ps))"
  by (simp add: demand_admit_lru_def Let_def demo_gpu_def gpu_contains_def list_lru_def checked_add_def usize_MAX_def
      unprotected_logical_lru_bytes_def allocate_generation_def checked_add_u64_def evict_loop_fits
      put_lru_def clear_markers_def count_promotions_def refresh_used_bytes_def demo_admission_def push_entries_def full_def)

lemma demo_protect:
  "protect_demand_set (demo_gpu es n Map.empty) [5] = Return (Inr [5], demo_gpu es n [5 \<mapsto> 1])"
  by (simp add: protect_demand_set_def demo_gpu_def checked_add_def usize_MAX_def)

lemma demo_run1: "gpu_run list_lru (gpu_cache_new list_lru 8 (F32_Fin 0) 2, []) (demo_gpu [demo_admission 5 1] 2 Map.empty, [])"
  unfolding demo_start by (rule r_into_rtranclp, rule step_admit, rule demo_admit)

lemma demo_run2:
  "gpu_run list_lru (gpu_cache_new list_lru 8 (F32_Fin 0) 2, []) (demo_gpu [demo_admission 5 1] 2 [5 \<mapsto> 1], [[5]])"
  by (rule rtranclp.rtrancl_into_rtrancl [OF demo_run1], rule step_protect, rule demo_protect)

subsection \<open>Properties\<close>

lemma reachable_inv:
  assumes "lru_cache L" "n < 2 ^ 63" "gpu_run L (gpu_cache_new L n ratio k, []) s"
  shows "run_inv L s" "run_effect L (gpu_cache_new L n ratio k) (fst s)"
  using gpu_edge.run_effect [OF gpu_edge.intro [OF assms(1)] assms(3)
      gpu_edge.start_run_inv [OF gpu_edge.intro [OF assms(1)] assms(2)]] by simp_all





text \<open>C20: while a protection guard is alive, the experts it names that are admitted keep their
  admission, payload and generation included: no step of any caller (promotion, demand admission,
  another guard) evicts or replaces one of them.\<close>

theorem guarded_experts_stay:
  assumes "lru_cache L" "n < 2 ^ 63" "gpu_run L (gpu_cache_new L n ratio k, []) s"
    and "(\<lambda>s t. gpu_step L s t \<and> guard \<in> set (snd s))\<^sup>*\<^sup>* s t" "e \<in> set guard"
    and "current_admission L (fst s) e = Some a"
  shows "current_admission L (fst t) e = Some a"
  using gpu_edge.held_effect [OF gpu_edge.intro [OF assms(1)] assms(4) reachable_inv(1) [OF assms(1-3)] assms(5,6)]
  by simp

lemma demo_held:
  "(\<lambda>s t. gpu_step list_lru s t \<and> [5] \<in> set (snd s))\<^sup>*\<^sup>*
     (demo_gpu [demo_admission 5 1] 2 [5 \<mapsto> 1], [[5]]) (cancel_promotion (demo_gpu [demo_admission 5 1] 2 [5 \<mapsto> 1]) 5, [[5]])"
  by (rule r_into_rtranclp) (simp add: step_cancel)

theorem guarded_experts_stay_witness:
  "current_admission list_lru (cancel_promotion (demo_gpu [demo_admission 5 1] 2 [5 \<mapsto> 1]) 5) 5 = Some (snd (demo_admission 5 1))"
  using guarded_experts_stay [OF list_lru.lru_cache_axioms _ demo_run2 demo_held, of 5 "snd (demo_admission 5 1)"]
  by (simp add: demo_gpu_def demo_admission_def list_lru_def current_admission_def)

text \<open>C35: a generation identifies one admission for the life of the cache: if the same generation is
  seen in two states of a run it belongs to the same expert with the same payload, and that
  admission was resident in every state between them (an evicted and readmitted expert gets a
  new generation).\<close>

theorem generation_identifies_admission:
  assumes "lru_cache L" "n < 2 ^ 63" "gpu_run L (gpu_cache_new L n ratio k, []) s"
    and "gpu_run L s t" "gpu_run L t u"
    and "current_generation L (fst s) e = Some gen" "current_generation L (fst u) e' = Some gen"
  shows "e' = e \<and> current_admission L (fst u) e = current_admission L (fst s) e \<and>
    current_admission L (fst t) e = current_admission L (fst s) e"
proof -
  note E = gpu_edge.intro [OF assms(1)]
  note rs = reachable_inv(1) [OF assms(1-3)]
  note st = gpu_edge.run_effect [OF E assms(4) rs]
  note tu = gpu_edge.run_effect [OF E assms(5) conjunct1 [OF st]]
  obtain a a' where a: "current_admission L (fst s) e = Some a" "ga_generation a = gen"
    and a': "current_admission L (fst u) e' = Some a'" "ga_generation a' = gen"
    using assms(6,7) by (auto simp: current_generation_def)
  have inv: "gpu_inv L (fst s)" using rs by (simp add: run_inv_def)
  have lt: "unat gen < unat (next_generation (fst s))" using gpu_edge.generation_old [OF E inv a(1)] a(2) by simp
  then have "current_admission L (fst t) e' = Some a'"
    using tu st a' unfolding run_effect_def by fastforce
  moreover from this have "current_admission L (fst s) e' = Some a'"
    using st a'(2) lt unfolding run_effect_def by fastforce
  moreover from this have "e = e' \<and> a = a'" using gpu_edge.generation_unique [OF E inv a(1)] a(2) a'(2) by simp
  ultimately show ?thesis using a a' by simp
qed

theorem generation_identifies_admission_witness:
  "current_admission list_lru (demo_gpu [demo_admission 5 1] 2 [5 \<mapsto> 1]) 5 =
   current_admission list_lru (demo_gpu [demo_admission 5 1] 2 Map.empty) 5"
proof -
  have "gpu_run list_lru (demo_gpu [demo_admission 5 1] 2 Map.empty, []) (demo_gpu [demo_admission 5 1] 2 [5 \<mapsto> 1], [[5]])"
    by (rule r_into_rtranclp, rule step_protect, rule demo_protect)
  moreover have "current_generation list_lru (demo_gpu [demo_admission 5 1] 2 ps) 5 = Some 1" for ps
    by (simp add: current_generation_def current_admission_def demo_gpu_def list_lru_def demo_admission_def)
  ultimately show ?thesis
    using generation_identifies_admission [OF list_lru.lru_cache_axioms _ demo_run1 _ rtranclp.rtrancl_refl, of
        "(demo_gpu [demo_admission 5 1] 2 [5 \<mapsto> 1], [[5]])" 5 1 5] by simp
qed

context gpu_edge
begin

lemma set_admitted_members:
  assumes core: "gpu_core L g" and S: "set_admitted L g ids sources adm n g'" and e: "e \<in> set ids"
  shows "case current_admission L g e of
      Some a \<Rightarrow> current_admission L g' e = Some a
    | None \<Rightarrow> \<exists>a. current_admission L g' e = Some a \<and> Some (ga_resident a) = sources e"
proof -
  obtain news V where N: "map fst news = filter (\<lambda>e. current_admission L g e = None) ids"
    and ad: "admitted L (set ids) g news V g'" and src: "\<forall>x\<in>set news. Some (ga_resident (snd x)) = sources (fst x)"
    using S by (auto simp: set_admitted_def)
  have es: "anchor g' = anchor g" "edge L g' = rev news @ filter (\<lambda>e. fst e \<notin> V) (edge L g)" "gpu_core L g'"
    and V: "V \<subseteq> {k \<in> fst ` set (edge L g). \<not> logical_lru_is_protected g k (set ids)}"
    using ad by (simp_all add: admitted_def)
  have member: "current_admission L g' e = Some a" if "(e, a) \<in> set (anchor g' @ edge L g')" for a
    unfolding current_admission_eq [OF es(3)] using es(3) that unfolding gpu_core_def by (metis map_of_is_SomeI)
  show ?thesis
  proof (cases "current_admission L g e")
    case (Some a)
    then have "(e, a) \<in> set (anchor g @ edge L g)"
      unfolding current_admission_eq [OF core] by (rule map_of_SomeD)
    moreover have "e \<notin> V" using V e by (auto simp: logical_lru_is_protected_def)
    ultimately have "(e, a) \<in> set (anchor g' @ edge L g')" by (auto simp: es)
    then show ?thesis using Some member by simp
  next
    case None
    then have "e \<in> set (map fst news)" using N e by simp
    then obtain a where a: "(e, a) \<in> set news" by auto
    then have "current_admission L g' e = Some a" by (intro member) (simp add: es)
    then show ?thesis using None src a by fastforce
  qed
qed

end

text \<open>C7: a demand set is admitted as one transaction: a refusal (duplicate id, wrong source, oversized
  or unevictable set, exhausted generations) and a request for missing payloads leave the cache
  unchanged, and name exactly the absent experts without a source; success returns one admission
  per requested expert, in order, keeps those that were admitted, and installs every absent one
  from its own source.\<close>

theorem demand_set_transaction:
  assumes "lru_cache L" "n < 2 ^ 63" "gpu_run L (gpu_cache_new L n ratio k, []) (g, G)"
    and "demand_admit_set L g ids sources = Some (Return (res, g'))"
  shows "case res of
      Inl er \<Rightarrow> g' = g
    | Inr (SetPayloadRequired miss) \<Rightarrow> g' = g \<and> miss \<noteq> [] \<and>
        miss = filter (\<lambda>e. current_admission L g e = None \<and> sources e = None) ids
    | Inr (Ready adm m) \<Rightarrow> distinct ids \<and> map Some adm = map (current_admission L g') ids \<and>
        m = length (filter (\<lambda>e. current_admission L g e = None) ids) \<and>
        (\<forall>e\<in>set ids. case current_admission L g e of
            Some a \<Rightarrow> current_admission L g' e = Some a
          | None \<Rightarrow> \<exists>a. current_admission L g' e = Some a \<and> Some (ga_resident a) = sources e)"
proof -
  note E = gpu_edge.intro [OF assms(1)]
  have inv: "gpu_inv L g" using reachable_inv(1) [OF assms(1-3)] by (simp add: run_inv_def)
  then have core: "gpu_core L g" by (simp add: gpu_inv_def)
  from gpu_edge.demand_admit_set_spec [OF E inv, of ids sources] assms(4) have
    "case res of Inl er \<Rightarrow> g' = g
     | Inr (SetPayloadRequired miss) \<Rightarrow> g' = g \<and> miss \<noteq> [] \<and>
         miss = filter (\<lambda>e. current_admission L g e = None \<and> sources e = None) ids
     | Inr (Ready adm n) \<Rightarrow> set_admitted L g ids sources adm n g'" by auto
  then show ?thesis
    using gpu_edge.set_admitted_members [OF E core]
    by (auto simp: set_admitted_def split: sum.splits gpu_demand_set_admission.splits)
qed

lemma demo_set:
  "demand_admit_set list_lru (demo_gpu [demo_admission 5 1] 2 Map.empty) [5] Map.empty =
     Some (Return (Inr (Ready [snd (demo_admission 5 1)] 0), demo_gpu [demo_admission 5 1] 2 Map.empty))"
  by (simp add: demand_admit_set_def empty_scan_def Let_def demo_gpu_def list_lru_def demo_admission_def checked_add_def
      usize_MAX_def unprotected_logical_lru_bytes_def checked_add_u64_def evict_loop_fits current_admission_def)

theorem demand_set_transaction_witness:
  "map Some [snd (demo_admission 5 1)] =
     map (current_admission list_lru (demo_gpu [demo_admission 5 1] 2 Map.empty)) [5]"
  using demand_set_transaction [OF list_lru.lru_cache_axioms _ demo_run1 demo_set] by simp

text \<open>A single demand admission refuses without a trace, reports an expert that is already
  admitted (exactly when it is, for a non-empty payload), and otherwise installs the payload under
  the next generation, without evicting anything anchored or guarded.\<close>

theorem demand_admission_outcome:
  assumes "lru_cache L" "n < 2 ^ 63" "gpu_run L (gpu_cache_new L n ratio k, []) (g, G)"
    and "demand_admit_lru L g r = Some (Return (res, g'))"
  shows "(res \<noteq> Inr True \<longrightarrow> g' = g) \<and>
    (res = Inr False \<longleftrightarrow> 0 < resident_byte_len r \<and> gpu_contains L g (gr_id r)) \<and>
    (res = Inr True \<longrightarrow> current_admission L g (gr_id r) = None \<and>
       current_admission L g' (gr_id r) = Some \<lparr>ga_resident = r, ga_generation = next_generation g\<rparr> \<and>
       (\<forall>e a. map_of (anchor g) e = Some a \<or> protected_id g e \<and> current_admission L g e = Some a \<longrightarrow>
          current_admission L g' e = Some a))"
proof -
  note E = gpu_edge.intro [OF assms(1)]
  have inv: "gpu_inv L g" using reachable_inv(1) [OF assms(1-3)] by (simp add: run_inv_def)
  then have core: "gpu_core L g" by (simp add: gpu_inv_def)
  let ?a = "\<lparr>ga_resident = r, ga_generation = next_generation g\<rparr>"
  from gpu_edge.demand_admit_lru_spec [OF E inv, of r] assms(4) have
    eff: "gpu_effect L g g'" and ok: "res = Inr True \<Longrightarrow> \<not> gpu_contains L g (gr_id r) \<and>
       (\<exists>V. admitted L {} g [(gr_id r, ?a)] V g')"
    and rest: "res \<noteq> Inr True \<longrightarrow> g' = g"
      "res = Inr False \<longleftrightarrow> 0 < resident_byte_len r \<and> gpu_contains L g (gr_id r)" by auto
  have "current_admission L g (gr_id r) = None \<and> current_admission L g' (gr_id r) = Some ?a" if t: "res = Inr True"
  proof -
    obtain V where ad: "admitted L {} g [(gr_id r, ?a)] V g'" using ok [OF t] by blast
    then have core': "gpu_core L g'" and m: "(gr_id r, ?a) \<in> set (anchor g' @ lru_iter L (lru g'))"
      by (simp_all add: admitted_def)
    have "current_admission L g (gr_id r) = None"
      using ok [OF t] gpu_edge.contains_iff [OF E core] gpu_edge.current_admission_eq [OF E core] by simp
    then show ?thesis unfolding gpu_edge.current_admission_eq [OF E core']
      using core' m unfolding gpu_core_def by (metis map_of_is_SomeI)
  qed
  moreover have "current_admission L g' e = Some a"
    if "map_of (anchor g) e = Some a \<or> protected_id g e \<and> current_admission L g e = Some a" for e a
    using eff that by (auto simp: gpu_effect_def current_admission_def)
  ultimately show ?thesis using rest by simp
qed

theorem demand_admission_outcome_witness:
  "current_admission list_lru (demo_gpu [demo_admission 5 1] 2 Map.empty) 5 =
     Some \<lparr>ga_resident = demo_resident 5, ga_generation = 1\<rparr>"
  using demand_admission_outcome [OF list_lru.lru_cache_axioms _ rtranclp.rtrancl_refl demo_admit [of Map.empty, folded demo_start]]
  unfolding demo_start by (simp add: demo_gpu_def)

text \<open>A hot promotion of an admitted expert never changes which admission any expert has (an edge
  entry may move into the anchor, with payload and generation intact, and no generation is used);
  a hot promotion of an absent expert installs the given payload under the next generation, or
  refuses and only clears that expert's promotion markers.\<close>

theorem hot_promotion_outcome:
  assumes "lru_cache L" "n < 2 ^ 63" "gpu_run L (gpu_cache_new L n ratio k, []) (g, G)"
    and "promote_hot_sync L g r = Some (Return (o', g'))"
  shows "(current_admission L g (gr_id r) \<noteq> None \<longrightarrow>
      (\<forall>x. current_admission L g' x = current_admission L g x) \<and> next_generation g' = next_generation g \<and>
      o' \<in> {AlreadyAnchor, AlreadyLruAnchorFull, MovedLruToAnchor} \<and>
      (o' = MovedLruToAnchor \<longrightarrow> map_of (anchor g) (gr_id r) = None \<and>
         map_of (anchor g') (gr_id r) = current_admission L g (gr_id r))) \<and>
    (current_admission L g (gr_id r) = None \<longrightarrow>
      (if o' \<in> {InstalledAnchor, InstalledLru}
       then current_admission L g' (gr_id r) = Some \<lparr>ga_resident = r, ga_generation = next_generation g\<rparr>
       else g' = clear_markers (gr_id r) g \<and> o' \<in> {NoCapacity, GenerationExhausted}))"
proof -
  note E = gpu_edge.intro [OF assms(1)]
  have inv: "gpu_inv L g" using reachable_inv(1) [OF assms(1-3)] by (simp add: run_inv_def)
  then have core: "gpu_core L g" by (simp add: gpu_inv_def)
  note adm = gpu_edge.current_admission_eq [OF E core]
  show ?thesis
  proof (cases "current_admission L g (gr_id r) = None")
    case True
    then show ?thesis using gpu_edge.promote_hot_sync_absent [OF E inv, of r] assms(4)
      by (simp add: adm del: map_of_append) auto
  next
    case False
    then have "promote_hot_existing L g (gr_id r) = Return (o', g')"
      using gpu_edge.promote_hot_sync_present [OF E inv, of r] assms(4) unfolding adm by simp
    then obtain p where p: "o' = (case p of None \<Rightarrow> PayloadRequired | Some q \<Rightarrow> q)" "resolved L g (gr_id r) p g'"
      using gpu_edge.promote_hot_existing_spec [OF E inv, of "gr_id r"] by auto
    then obtain q where "p = Some q" "o' = q" using False by (auto simp: resolved_def)
    then show ?thesis using p(2) False by (auto simp: resolved_def)
  qed
qed

lemma demo_hot:
  "promote_hot_sync list_lru (demo_gpu [demo_admission 5 1] 2 Map.empty) (demo_resident 5) =
     Some (Return (AlreadyLruAnchorFull, demo_gpu [demo_admission 5 1] 2 Map.empty))"
  by (simp add: promote_hot_sync_def resolve_existing_hot_locked_def Let_def demo_gpu_def list_lru_def demo_admission_def
      fits_def checked_add_def usize_MAX_def clear_markers_def record_hot_transition_def is_transition_def)

theorem hot_promotion_outcome_witness:
  "current_admission list_lru (demo_gpu [demo_admission 5 1] 2 Map.empty) 5 \<noteq> None \<and>
   AlreadyLruAnchorFull \<in> {AlreadyAnchor, AlreadyLruAnchorFull, MovedLruToAnchor}"
  using hot_promotion_outcome [OF list_lru.lru_cache_axioms _ demo_run1 demo_hot]
  by (simp add: current_admission_def demo_gpu_def list_lru_def demo_admission_def)

text \<open>The promotion of an expert is claimed at most once: a successful claim happens only at or
  above the hit threshold for an expert that is neither anchored nor already claimed, no further
  claim for it succeeds while it is pending, and after the claim is cancelled the expert can be
  claimed again by any later hit at or above the threshold.\<close>

theorem promotion_claimed_once:
  assumes "claim_promotion g e hits = (True, g1)"
  shows "should_promote g hits \<and> map_of (anchor g) e = None \<and> e \<notin> promotion_pending g \<and>
    e \<in> promotion_pending g1 \<and> \<not> fst (claim_promotion g1 e hits') \<and>
    (promote_after_hits g \<le> hits' \<longrightarrow> fst (claim_promotion (cancel_promotion g1 e) e hits'))"
proof -
  have c: "should_promote g hits" "map_of (anchor g) e = None" "e \<notin> promotion_pending g"
    and g1: "g1 = g\<lparr>promotion_rearm := promotion_rearm g - {e}, promotion_pending := insert e (promotion_pending g)\<rparr>"
    using assms by (auto simp: claim_promotion_def Let_def split: if_splits)
  then have "\<not> fst (claim_promotion g1 e hits')" by (simp add: claim_promotion_def)
  moreover have "fst (claim_promotion (cancel_promotion g1 e) e hits')" if "promote_after_hits g \<le> hits'"
    using c that by (simp add: g1 cancel_promotion_def claim_promotion_def should_promote_def)
  ultimately show ?thesis using c g1 by simp
qed

theorem promotion_claimed_once_witness:
  "\<not> fst (claim_promotion (snd (claim_promotion (demo_gpu [] 1 Map.empty) 5 2)) 5 2) \<and>
   fst (claim_promotion (cancel_promotion (snd (claim_promotion (demo_gpu [] 1 Map.empty) 5 2)) 5) 5 3)"
proof -
  have "claim_promotion (demo_gpu [] 1 Map.empty) 5 2 = (True, snd (claim_promotion (demo_gpu [] 1 Map.empty) 5 2))"
    by (simp add: claim_promotion_def demo_gpu_def should_promote_def)
  from promotion_claimed_once [OF this, of 2] promotion_claimed_once [OF this, of 3] show ?thesis
    by (simp add: demo_gpu_def)
qed

text \<open>The protection counts are exactly the numbers of live guards that name each expert, a new guard
  is granted for every set without duplicates as long as no count would overflow, and creating
  and then dropping a guard restores the counts.\<close>

theorem guards_counted:
  assumes "lru_cache L" "n < 2 ^ 63" "gpu_run L (gpu_cache_new L n ratio k, []) (g, G)"
  shows "demand_protections g e = (if guard_count G e = 0 then None else Some (guard_count G e)) \<and>
    (distinct ids \<and> length G < usize_MAX \<longrightarrow>
       (\<exists>g1 g2. protect_demand_set g ids = Return (Inr ids, g1) \<and> protection_drop g1 ids = Return g2 \<and>
          demand_protections g2 = demand_protections g))"
proof -
  have inv: "guards_inv g G" using reachable_inv(1) [OF assms] by (simp add: run_inv_def)
  then have cnt: "demand_protections h e = (if guard_count G e = 0 then None else Some (guard_count G e))"
    if "guards_inv h G" for h :: "'a gpu_cache" and e using that by (simp add: guards_inv_def)
  have "\<exists>g1 g2. protect_demand_set g ids = Return (Inr ids, g1) \<and> protection_drop g1 ids = Return g2 \<and>
      demand_protections g2 = demand_protections g" if d: "distinct ids" and len: "length G < usize_MAX"
  proof -
    have "guard_count G x \<le> length G" for x by (simp add: guard_count_def)
    then have "\<forall>x\<in>set ids. (case demand_protections g x of Some n \<Rightarrow> n | None \<Rightarrow> 0) < usize_MAX"
      using len cnt [OF inv] by (auto intro: le_less_trans)
    from register_total [OF d this] obtain ps where ps: "register_protections ids (demand_protections g) = Return ps" by blast
    have fd: "first_duplicate {} ids = None" using d by (simp add: first_duplicate_None)
    let ?g1 = "g\<lparr>demand_protections := ps\<rparr>"
    have p: "protect_demand_set g ids = Return (Inr ids, ?g1)" by (simp add: protect_demand_set_def fd ps)
    have "guards_inv ?g1 (ids # G)" using protect_guards [OF inv p] by blast
    from drop_guards [OF this, of ids] obtain qs where
      q: "protection_drop ?g1 ids = Return (?g1\<lparr>demand_protections := qs\<rparr>)" "guards_inv (?g1\<lparr>demand_protections := qs\<rparr>) G" by auto
    have "demand_protections (?g1\<lparr>demand_protections := qs\<rparr>) = demand_protections g"
      using cnt [OF q(2)] cnt [OF inv] by (simp add: fun_eq_iff)
    with p q(1) show ?thesis by blast
  qed
  then show ?thesis using cnt [OF inv] by simp
qed

theorem guards_counted_witness:
  "demand_protections (demo_gpu [demo_admission 5 1] 2 [5 \<mapsto> 1]) 5 = Some (guard_count [[5]] 5)"
  using guards_counted [OF list_lru.lru_cache_axioms _ demo_run2, of 5] by simp

end
