(* ===== verification/ExpertCache.thy ===== *)
theory ExpertCache
  imports TensorHeader BufferPool LruSpec
begin

section \<open>The RAM cache of resident experts\<close>

text \<open>
  Model of \<open>ExpertResident\<close>, \<open>ExpertCache\<close> and \<open>ExpertCacheSlotReservation\<close> of
  \<open>expert_cache.rs\<close>. An \<open>Arc<ExpertResident>\<close> is an address into a store of residents, because
  a hit updates the heat of a resident that the cache and its clients share. Double-precision
  arithmetic is the record \<open>f64_ops\<close> (the precision of \<open>powi\<close> is unspecified), and the \<open>lru\<close>
  crate is the record \<open>lru_ops\<close>. Locks are taken in one order by every operation, so each
  operation is one atomic step.
\<close>

record 'h f64_ops =
  f64_zero :: 'h
  f64_one :: 'h
  f64_heat_decay :: 'h
  f64_add :: "'h \<Rightarrow> 'h \<Rightarrow> 'h"
  f64_mul :: "'h \<Rightarrow> 'h \<Rightarrow> 'h"
  f64_powi :: "'h \<Rightarrow> int \<Rightarrow> 'h"
  f64_le :: "'h \<Rightarrow> 'h \<Rightarrow> bool"

subsection \<open>Residents\<close>

record 'h expert_resident =
  er_id :: u32
  er_buffer :: pooled_buffer
  er_shared_payload :: "u8 list option"
  er_payload_offset :: usize
  er_mixed_layout :: "mixed_expert_header option"
  er_hits :: u64
  er_q4_0_padded :: "(usize \<times> u8 list) option"
  er_heat :: 'h
  er_heat_last_epoch :: u64

definition DEFAULT_BLOCK_ALIGN :: usize where "DEFAULT_BLOCK_ALIGN = 4096"

text \<open>The constructors also add the buffer's length to the process-wide gauge \<open>g\<close>.\<close>

definition new_with_block_align ::
    "'h f64_ops \<Rightarrow> u32 \<Rightarrow> pooled_buffer \<Rightarrow> usize \<Rightarrow> u64 \<Rightarrow> 'h expert_resident \<times> u64" where
  "new_with_block_align F eid buffer block_align g =
     (let raw = as_slice buffer;
          (payload, mixed) =
            (case mixed_strip raw block_align of
               Some (h, payload) \<Rightarrow> (payload, Some h)
             | None \<Rightarrow> (snd (header_strip raw block_align), None));
          payload_offset = length raw - length payload
      in (\<lparr>er_id = eid, er_buffer = buffer, er_shared_payload = None,
           er_payload_offset = payload_offset, er_mixed_layout = mixed, er_hits = 0,
           er_q4_0_padded = None, er_heat = f64_zero F, er_heat_last_epoch = 0\<rparr>,
          g + of_nat (length raw)))"

definition resident_new :: "'h f64_ops \<Rightarrow> u32 \<Rightarrow> pooled_buffer \<Rightarrow> u64 \<Rightarrow> 'h expert_resident \<times> u64" where
  "resident_new F eid buffer g = new_with_block_align F eid buffer DEFAULT_BLOCK_ALIGN g"

definition new_qualification_shared ::
    "'h f64_ops \<Rightarrow> u32 \<Rightarrow> pooled_buffer \<Rightarrow> u8 list \<Rightarrow> u64 \<Rightarrow> ('h expert_resident \<times> u64) outcome" where
  "new_qualification_shared F eid capacity_lease payload g =
     (if payload = [] then Panic
      else Return (\<lparr>er_id = eid, er_buffer = capacity_lease, er_shared_payload = Some payload,
           er_payload_offset = 0, er_mixed_layout = None, er_hits = 0, er_q4_0_padded = None,
           er_heat = f64_zero F, er_heat_last_epoch = 0\<rparr>,
          g + of_nat (length (as_slice capacity_lease))))"

definition resident_drop :: "'h expert_resident \<Rightarrow> u64 \<Rightarrow> u64" where
  "resident_drop r g = g - of_nat (length (as_slice (er_buffer r)))"

definition record_hit :: "'h expert_resident \<Rightarrow> u64 \<times> 'h expert_resident" where
  "record_hit r = (er_hits r + 1, r\<lparr>er_hits := er_hits r + 1\<rparr>)"

definition heat_dt :: "u64 \<Rightarrow> u64 \<Rightarrow> int" where
  "heat_dt epoch prev = int (min (unat epoch - unat prev) 4096)"

definition bump_heat :: "'h f64_ops \<Rightarrow> 'h expert_resident \<Rightarrow> u64 \<Rightarrow> 'h \<Rightarrow> 'h expert_resident" where
  "bump_heat F r epoch decay =
     (let dt = heat_dt epoch (er_heat_last_epoch r);
          decayed = f64_mul F (er_heat r) (f64_powi F decay dt)
      in r\<lparr>er_heat_last_epoch := epoch, er_heat := f64_add F decayed (f64_one F)\<rparr>)"

definition decayed_heat :: "'h f64_ops \<Rightarrow> 'h expert_resident \<Rightarrow> u64 \<Rightarrow> 'h \<Rightarrow> 'h" where
  "decayed_heat F r epoch decay =
     f64_mul F (er_heat r) (f64_powi F decay (heat_dt epoch (er_heat_last_epoch r)))"

definition is_shadow_backed :: "'h expert_resident \<Rightarrow> bool" where
  "is_shadow_backed r = is_shadow (er_buffer r)"

definition resident_data :: "'h expert_resident \<Rightarrow> u8 list" where
  "resident_data r =
     (case er_shared_payload r of
        Some payload \<Rightarrow> payload
      | None \<Rightarrow> drop (er_payload_offset r) (as_slice (er_buffer r)))"

definition q4_0_padded_payload ::
    "'h expert_resident \<Rightarrow> usize \<Rightarrow> usize \<Rightarrow> u8 list option \<times> 'h expert_resident" where
  "q4_0_padded_payload r need tolerance =
     (let data = resident_data r in
      if length data \<ge> need then (None, r)
      else let shortfall = need - length data in
        if need \<le> tolerance \<or> shortfall > tolerance then (None, r)
        else
          let (cached_need, cached) =
                (case er_q4_0_padded r of
                   Some c \<Rightarrow> c
                 | None \<Rightarrow> (need, vec_resize data need 0))
          in (if cached_need = need then Some cached else None,
              r\<lparr>er_q4_0_padded := Some (cached_need, cached)\<rparr>))"

subsection \<open>The cache\<close>

type_synonym 'h store = "nat \<Rightarrow> 'h expert_resident"

record 'c expert_cache =
  ec_inner :: 'c
  ec_pinned :: "u32 set"
  ec_capacity :: usize
  ec_cost_aware :: bool
  ec_epoch :: u64
  ec_reserved_slots :: usize

datatype expert_cache_reservation_error =
    Capacity | VictimUnavailable | CostAwarePolicy | InvalidExpertId | DuplicateExpertId
  | ConcurrentReservationConflict

definition cache_new :: "('c, nat) lru_ops \<Rightarrow> usize \<Rightarrow> 'c expert_cache outcome" where
  "cache_new L capacity =
     (if capacity = 0 then Panic
      else Return \<lparr>ec_inner = lru_new L capacity, ec_pinned = {}, ec_capacity = capacity,
        ec_cost_aware = False, ec_epoch = 0, ec_reserved_slots = 0\<rparr>)"

definition set_cost_aware :: "'c expert_cache \<Rightarrow> bool \<Rightarrow> 'c expert_cache" where
  "set_cost_aware c on = c\<lparr>ec_cost_aware := on\<rparr>"

definition cache_get ::
    "('c, nat) lru_ops \<Rightarrow> 'h f64_ops \<Rightarrow> 'c expert_cache \<Rightarrow> 'h store \<Rightarrow> u32 \<Rightarrow>
     nat option \<times> 'c expert_cache \<times> 'h store" where
  "cache_get L F c h eid =
     (let (resident, inner) = lru_get L (ec_inner c) eid;
          c' = c\<lparr>ec_inner := inner\<rparr>
      in case resident of
           Some r \<Rightarrow>
             if ec_cost_aware c
             then (resident, c', h(r := bump_heat F (h r) (ec_epoch c) (f64_heat_decay F)))
             else (resident, c', h)
         | None \<Rightarrow> (resident, c', h))"

definition contains :: "('c, nat) lru_ops \<Rightarrow> 'c expert_cache \<Rightarrow> u32 \<Rightarrow> bool" where
  "contains L c eid = (lru_peek L (ec_inner c) eid \<noteq> None)"

fun coldest ::
    "'h f64_ops \<Rightarrow> 'h store \<Rightarrow> u64 \<Rightarrow> u32 set \<Rightarrow> (u32 \<times> 'h) option \<Rightarrow> (u32 \<times> nat) list \<Rightarrow>
     (u32 \<times> 'h) option" where
  "coldest F h epoch pinned best [] = best"
| "coldest F h epoch pinned best ((k, r) # rest) =
     (if k \<in> pinned then coldest F h epoch pinned best rest
      else let score = decayed_heat F (h r) epoch (f64_heat_decay F);
               replace = (case best of None \<Rightarrow> True | Some (_, bs) \<Rightarrow> f64_le F score bs)
           in coldest F h epoch pinned (if replace then Some (k, score) else best) rest)"

definition last_opt :: "'a list \<Rightarrow> 'a option" where
  "last_opt xs = (if xs = [] then None else Some (last xs))"

definition select_victim_id ::
    "('c, nat) lru_ops \<Rightarrow> 'h f64_ops \<Rightarrow> 'c expert_cache \<Rightarrow> 'h store \<Rightarrow> u32 option" where
  "select_victim_id L F c h =
     (if ec_cost_aware c
      then map_option fst (coldest F h (ec_epoch c) (ec_pinned c) None (lru_iter L (ec_inner c)))
      else last_opt (filter (\<lambda>k. k \<notin> ec_pinned c) (map fst (lru_iter L (ec_inner c)))))"

definition insert_resident ::
    "('c, nat) lru_ops \<Rightarrow> 'h f64_ops \<Rightarrow> 'c expert_cache \<Rightarrow> 'h store \<Rightarrow> nat \<Rightarrow>
     (nat + nat option) \<times> 'c expert_cache \<times> 'h store" where
  "insert_resident L F c h r =
     (let eid = er_id (h r);
          cost_aware = ec_cost_aware c;
          epoch = (if cost_aware then ec_epoch c + 1 else 0);
          c = (if cost_aware then c\<lparr>ec_epoch := ec_epoch c + 1\<rparr> else c);
          effective_len = saturating_add (lru_len L (ec_inner c)) (ec_reserved_slots c);
          pre = (if effective_len \<ge> ec_capacity c \<and> lru_peek L (ec_inner c) eid = None
                 then (case select_victim_id L F c h of
                         Some victim \<Rightarrow> Some (lru_pop L (ec_inner c) victim)
                       | None \<Rightarrow> None)
                 else Some (None, ec_inner c))
      in case pre of
           None \<Rightarrow> (Inl r, c, h)
         | Some (pre_evicted, inner) \<Rightarrow>
             (let h = (if cost_aware then h(r := bump_heat F (h r) epoch (f64_heat_decay F)) else h);
                  (pushed, inner) = lru_push L inner eid r;
                  push_evicted = map_option snd pushed
              in (Inr (case push_evicted of Some v \<Rightarrow> Some v | None \<Rightarrow> pre_evicted),
                  c\<lparr>ec_inner := inner\<rparr>, h)))"

definition evict_lru ::
    "('c, nat) lru_ops \<Rightarrow> 'h f64_ops \<Rightarrow> 'c expert_cache \<Rightarrow> 'h store \<Rightarrow> nat option \<times> 'c expert_cache" where
  "evict_lru L F c h =
     (if ec_pinned c = {} \<and> \<not> ec_cost_aware c
      then let (e, inner) = lru_pop_lru L (ec_inner c) in (map_option snd e, c\<lparr>ec_inner := inner\<rparr>)
      else case select_victim_id L F c h of
             None \<Rightarrow> (None, c)
           | Some victim \<Rightarrow>
               let (e, inner) = lru_pop L (ec_inner c) victim in (e, c\<lparr>ec_inner := inner\<rparr>))"

fun evict_first ::
    "('c, nat) lru_ops \<Rightarrow> u32 set \<Rightarrow> 'c \<Rightarrow> u32 list \<Rightarrow> nat option \<times> 'c" where
  "evict_first L pinned inner [] = (None, inner)"
| "evict_first L pinned inner (eid # rest) =
     (if eid \<notin> pinned
      then (case lru_pop L inner eid of
              (Some v, inner') \<Rightarrow> (Some v, inner')
            | (None, inner') \<Rightarrow> evict_first L pinned inner' rest)
      else evict_first L pinned inner rest)"

definition evict_lru_shadow_backed ::
    "('c, nat) lru_ops \<Rightarrow> 'c expert_cache \<Rightarrow> 'h store \<Rightarrow> nat option \<times> 'c expert_cache" where
  "evict_lru_shadow_backed L c h =
     (let id_order = map fst (filter (\<lambda>(k, v). is_shadow_backed (h v)) (lru_iter L (ec_inner c)));
          (e, inner) = evict_first L (ec_pinned c) (ec_inner c) (rev id_order)
      in (e, c\<lparr>ec_inner := inner\<rparr>))"

definition pin :: "'c expert_cache \<Rightarrow> u32 \<Rightarrow> 'c expert_cache" where
  "pin c eid = c\<lparr>ec_pinned := insert eid (ec_pinned c)\<rparr>"

definition unpin :: "'c expert_cache \<Rightarrow> u32 \<Rightarrow> 'c expert_cache" where
  "unpin c eid = c\<lparr>ec_pinned := ec_pinned c - {eid}\<rparr>"

definition is_pinned :: "'c expert_cache \<Rightarrow> u32 \<Rightarrow> bool" where
  "is_pinned c eid \<longleftrightarrow> eid \<in> ec_pinned c"

definition pinned_count :: "'c expert_cache \<Rightarrow> usize" where
  "pinned_count c = card (ec_pinned c)"

definition resident_ids :: "('c, nat) lru_ops \<Rightarrow> 'c expert_cache \<Rightarrow> u32 list" where
  "resident_ids L c = map fst (lru_iter L (ec_inner c))"

definition cache_len :: "('c, nat) lru_ops \<Rightarrow> 'c expert_cache \<Rightarrow> usize" where
  "cache_len L c = lru_len L (ec_inner c)"

text \<open>A reservation guard is its number of positions left; the cache it points to is the
  argument.\<close>

definition reservation_new :: "'c expert_cache \<Rightarrow> usize \<Rightarrow> usize \<times> 'c expert_cache" where
  "reservation_new c n = (n, c\<lparr>ec_reserved_slots := ec_reserved_slots c + n\<rparr>)"

definition reservation_commit ::
    "('c, nat) lru_ops \<Rightarrow> usize \<Rightarrow> 'c expert_cache \<Rightarrow> 'h store \<Rightarrow> nat \<Rightarrow>
     (nat + unit) \<times> usize \<times> 'c expert_cache" where
  "reservation_commit L remaining c h r =
     (if remaining = 0 then (Inl r, remaining, c)
      else let eid = er_id (h r); reserved = ec_reserved_slots c in
        if reserved = 0 \<or> lru_peek L (ec_inner c) eid \<noteq> None \<or>
           saturating_add (lru_len L (ec_inner c)) reserved > ec_capacity c
        then (Inl r, remaining, c)
        else let (evicted, inner) = lru_push L (ec_inner c) eid r
             in (Inr (), remaining - 1,
                 c\<lparr>ec_reserved_slots := ec_reserved_slots c - 1, ec_inner := inner\<rparr>))"

definition reservation_drop :: "usize \<Rightarrow> 'c expert_cache \<Rightarrow> 'c expert_cache" where
  "reservation_drop remaining c =
     (if remaining = 0 then c else c\<lparr>ec_reserved_slots := ec_reserved_slots c - remaining\<rparr>)"

subsection \<open>Invariant\<close>

definition cache_inv :: "('c, nat) lru_ops \<Rightarrow> 'c expert_cache \<Rightarrow> 'h store \<Rightarrow> bool" where
  "cache_inv L c h \<longleftrightarrow> lru_valid L (ec_inner c) \<and> lru_bound L (ec_inner c) = Some (ec_capacity c) \<and>
     0 < ec_capacity c \<and> ec_capacity c \<le> usize_MAX \<and>
     length (lru_iter L (ec_inner c)) + ec_reserved_slots c \<le> ec_capacity c \<and>
     (\<forall>(k, r)\<in>set (lru_iter L (ec_inner c)). er_id (h r) = k)"

abbreviation entries :: "('c, nat) lru_ops \<Rightarrow> 'c expert_cache \<Rightarrow> (u32 \<times> nat) list" where
  "entries L c \<equiv> lru_iter L (ec_inner c)"

lemma bump_heat_id [simp]: "er_id (bump_heat F r e d) = er_id r"
  by (simp add: bump_heat_def Let_def)

lemma bump_heat_buffer [simp]: "er_buffer (bump_heat F r e d) = er_buffer r"
  by (simp add: bump_heat_def Let_def)

lemma last_opt_None [simp]: "last_opt xs = None \<longleftrightarrow> xs = []"
  by (simp add: last_opt_def)

lemma last_opt_Some: "last_opt xs = Some x \<Longrightarrow> x \<in> set xs"
  by (auto simp: last_opt_def split: if_splits)

lemma coldest_None:
  "coldest F h e pinned best xs = None \<longleftrightarrow> best = None \<and> (\<forall>k\<in>fst ` set xs. k \<in> pinned)"
  by (induction F h e pinned best xs rule: coldest.induct) (auto simp: Let_def split: option.splits)

lemma coldest_Some:
  "coldest F h e pinned best xs = Some (k, s) \<Longrightarrow>
    best = Some (k, s) \<or> k \<in> fst ` set xs \<and> k \<notin> pinned"
  by (induction F h e pinned best xs rule: coldest.induct)
    (auto simp: Let_def split: if_splits option.splits)

lemma select_victim_None:
  "select_victim_id L F c h = None \<longleftrightarrow> fst ` set (entries L c) \<subseteq> ec_pinned c"
  by (auto simp: select_victim_id_def coldest_None filter_empty_conv)

lemma select_victim_Some:
  "select_victim_id L F c h = Some k \<Longrightarrow> k \<in> fst ` set (entries L c) \<and> k \<notin> ec_pinned c"
  by (auto simp: select_victim_id_def dest!: last_opt_Some coldest_Some split: if_splits)

text \<open>What an insertion does, case by case; \<open>es\<close> are the entries before it.\<close>

definition insert_effect ::
    "(u32 \<times> nat) list \<Rightarrow> 'c expert_cache \<Rightarrow> u32 \<Rightarrow> nat \<Rightarrow> nat + nat option \<Rightarrow> (u32 \<times> nat) list \<Rightarrow> bool" where
  "insert_effect es c eid r res es' \<longleftrightarrow>
     (case map_of es eid of
        Some old \<Rightarrow> res = Inr (Some old) \<and> es' = (eid, r) # del_key eid es
      | None \<Rightarrow>
          if length es + ec_reserved_slots c < ec_capacity c
          then res = Inr None \<and> es' = (eid, r) # es
          else if fst ` set es \<subseteq> ec_pinned c then res = Inl r \<and> es' = es
          else \<exists>victim. victim \<in> fst ` set es - ec_pinned c \<and>
            res = Inr (map_of es victim) \<and> es' = (eid, r) # del_key victim es)"

text \<open>What an eviction does: nothing, or it removes one unpinned entry and returns it.\<close>

definition evict_effect ::
    "u32 set \<Rightarrow> (u32 \<times> nat) list \<Rightarrow> nat option \<Rightarrow> (u32 \<times> nat) list \<Rightarrow> bool" where
  "evict_effect pinned es res es' \<longleftrightarrow>
     res = None \<and> es' = es \<or>
     (\<exists>k. k \<in> fst ` set es - pinned \<and> res = map_of es k \<and> res \<noteq> None \<and> es' = del_key k es)"

lemma butlast_del_key:
  assumes "distinct (map fst es)" "es \<noteq> []"
  shows "butlast es = del_key (fst (last es)) es" "map_of es (fst (last es)) = Some (snd (last es))"
proof -
  obtain ys y where es: "es = ys @ [y]" using assms(2) by (metis append_butlast_last_id)
  with assms(1) have "fst y \<notin> fst ` set ys" by auto
  then show "butlast es = del_key (fst (last es)) es"
    by (simp add: es del_key_def) (metis del_key_absent del_key_def)
  show "map_of es (fst (last es)) = Some (snd (last es))"
    using assms(1) last_in_set [OF assms(2)] by (metis map_of_is_SomeI prod.collapse)
qed

locale expert_lru = lru_cache L for L :: "('c, nat) lru_ops"
begin

lemma cache_invD:
  assumes "cache_inv L c h"
  shows "lru_valid L (ec_inner c)" "lru_bound L (ec_inner c) = Some (ec_capacity c)"
    "length (entries L c) + ec_reserved_slots c \<le> ec_capacity c" "ec_capacity c \<le> usize_MAX"
    "distinct (map fst (entries L c))" "(k, r) \<in> set (entries L c) \<Longrightarrow> er_id (h r) = k"
    "lru_len L (ec_inner c) = length (entries L c)"
    "lru_peek L (ec_inner c) k = map_of (entries L c) k"
    "saturating_add (length (entries L c)) (ec_reserved_slots c) =
       length (entries L c) + ec_reserved_slots c"
  using assms by (auto simp: cache_inv_def keys_distinct len_entries peek_entry saturating_add_def)

lemma new_inv:
  assumes "cache_new L n = Return c" "n \<le> usize_MAX"
  shows "cache_inv L c h" "entries L c = []" "ec_pinned c = {}" "ec_reserved_slots c = 0"
  using assms new_cache [of n] by (auto simp: cache_new_def cache_inv_def split: if_splits)

text \<open>The entry list after an insertion, shared by the four cases.\<close>

lemma insert_push:
  assumes v: "lru_valid L i" "lru_bound L i = Some (ec_capacity c)"
    and push: "lru_push L i (er_id (h r)) r = (e, i')"
    and es: "lru_iter L i' = (er_id (h r), r) # es'" "set es' \<subseteq> set (entries L c)"
    and len: "length es' + 1 + ec_reserved_slots c \<le> ec_capacity c"
    and inv: "cache_inv L c h" and h': "\<And>a. er_id (h' a) = er_id (h a)"
    and c': "ec_inner c' = i'" "ec_capacity c' = ec_capacity c" "ec_reserved_slots c' = ec_reserved_slots c"
  shows "cache_inv L c' h'"
proof -
  have "lru_valid L i'" "lru_bound L i' = Some (ec_capacity c)"
    using push_entry [OF v(1) push] v(2) by auto
  moreover have "er_id (h a) = k" if "(k, a) \<in> set es'" for k a
    using cache_invD(6) [OF inv] es(2) that by blast
  ultimately show ?thesis using len inv h' es(1) by (auto simp: cache_inv_def c')
qed

lemma insert_spec:
  assumes inv: "cache_inv L c h" and ins: "insert_resident L F c h r = (res, c', h')"
  shows "cache_inv L c' h' \<and> insert_effect (entries L c) c (er_id (h r)) r res (entries L c') \<and>
    ec_pinned c' = ec_pinned c \<and> ec_capacity c' = ec_capacity c \<and>
    ec_reserved_slots c' = ec_reserved_slots c \<and> ec_cost_aware c' = ec_cost_aware c \<and>
    (\<forall>a. er_id (h' a) = er_id (h a) \<and> er_buffer (h' a) = er_buffer (h a))"
proof -
  let ?es = "entries L c" and ?id = "er_id (h r)"
  define d where "d = (if ec_cost_aware c then c\<lparr>ec_epoch := ec_epoch c + 1\<rparr> else c)"
  have d: "ec_inner d = ec_inner c" "ec_pinned d = ec_pinned c" "ec_capacity d = ec_capacity c"
    "ec_reserved_slots d = ec_reserved_slots c" "ec_cost_aware d = ec_cost_aware c"
    by (simp_all add: d_def)
  define g where "g = (if ec_cost_aware c
    then h(r := bump_heat F (h r) (ec_epoch c + 1) (f64_heat_decay F)) else h)"
  have g: "er_id (g a) = er_id (h a) \<and> er_buffer (g a) = er_buffer (h a)" for a
    by (simp add: g_def)
  note I = cache_invD [OF inv]
  let ?full = "length ?es + ec_reserved_slots c \<ge> ec_capacity c \<and> map_of ?es ?id = None"
  have ins': "(res, c', h') = (case (if ?full then (case select_victim_id L F d h of
        Some victim \<Rightarrow> Some (lru_pop L (ec_inner c) victim) | None \<Rightarrow> None)
      else Some (None, ec_inner c)) of
        None \<Rightarrow> (Inl r, d, h)
      | Some (pre, i) \<Rightarrow> (let (pushed, i') = lru_push L i ?id r in
          (Inr (case map_option snd pushed of Some v \<Rightarrow> Some v | None \<Rightarrow> pre), d\<lparr>ec_inner := i'\<rparr>, g)))"
    unfolding ins [symmetric] insert_resident_def
    by (simp only: Let_def d_def [symmetric] d I(7-9) if_True cong: if_cong)
      (simp only: g_def [symmetric])
  have frame: "ec_pinned (d\<lparr>ec_inner := i\<rparr>) = ec_pinned c \<and> ec_capacity (d\<lparr>ec_inner := i\<rparr>) = ec_capacity c \<and>
    ec_reserved_slots (d\<lparr>ec_inner := i\<rparr>) = ec_reserved_slots c \<and> ec_cost_aware (d\<lparr>ec_inner := i\<rparr>) = ec_cost_aware c" for i
    by (simp add: d)
  show ?thesis
  proof (cases ?full)
    case full: True
    show ?thesis
    proof (cases "select_victim_id L F d h")
      case None
      then have "fst ` set ?es \<subseteq> ec_pinned c" by (simp add: select_victim_None d)
      moreover have "cache_inv L d h" using inv by (simp add: cache_inv_def d)
      ultimately show ?thesis using ins' full None by (simp add: insert_effect_def d)
    next
      case (Some k)
      then have k: "k \<in> fst ` set ?es" "k \<notin> ec_pinned c"
        using select_victim_Some [OF Some] by (simp_all add: d)
      obtain pre i where pop: "lru_pop L (ec_inner c) k = (pre, i)" by fastforce
      note P = pop_entry [OF I(1) pop]
      obtain v where v: "map_of ?es k = Some v" using k(1) by (metis map_of_eq_None_iff not_None_eq)
      have len: "Suc (length (lru_iter L i)) = length ?es" using P length_del_key [OF I(5) v] by simp
      obtain pushed i' where push: "lru_push L i ?id r = (pushed, i')" by fastforce
      have room: "pushed = None \<and> lru_iter L i' = (?id, r) # del_key k ?es"
        using push_room [OF _ _ _ _ push] P I(2,3) len full by (simp add: peek_entry)
      have "cache_inv L (d\<lparr>ec_inner := i'\<rparr>) g"
        by (rule insert_push [OF _ _ push _ _ _ inv])
          (use P I(2,3) room len g in \<open>auto simp: set_del_key d\<close>)
      moreover have "k \<in> fst ` set ?es - ec_pinned c" using k by blast
      moreover have "(res, c', h') = (Inr pre, d\<lparr>ec_inner := i'\<rparr>, g)"
        using ins' full Some pop push room by simp
      ultimately show ?thesis using full P room frame [of i'] g k
        by (auto simp: insert_effect_def)
    qed
  next
    case nf: False
    obtain pushed i' where push: "lru_push L (ec_inner c) ?id r = (pushed, i')" by fastforce
    have eq: "(res, c', h') = (Inr (map_option snd pushed), d\<lparr>ec_inner := i'\<rparr>, g)"
      using ins' nf push by (simp add: option.case_eq_if)
    note Q = push_entry [OF I(1) push]
    show ?thesis
    proof (cases "map_of ?es ?id")
      case None
      have room: "pushed = None \<and> lru_iter L i' = (?id, r) # ?es"
        using push_room [OF I(1) _ I(2) _ push] None nf I(8) by simp
      have "cache_inv L (d\<lparr>ec_inner := i'\<rparr>) g"
        by (rule insert_push [OF I(1,2) push _ _ _ inv]) (use room nf None g in \<open>auto simp: d\<close>)
      then show ?thesis using eq room None nf frame [of i'] g by (simp add: insert_effect_def)
    next
      case (Some old)
      have rep: "pushed = Some (?id, old) \<and> lru_iter L i' = (?id, r) # del_key ?id ?es"
        using Q Some by (simp add: push_result_def push_entries_def)
      have "cache_inv L (d\<lparr>ec_inner := i'\<rparr>) g"
        by (rule insert_push [OF I(1,2) push _ _ _ inv])
          (use rep length_del_key [OF I(5) Some] I(3) g in \<open>auto simp: set_del_key d\<close>)
      then show ?thesis using eq rep Some frame [of i'] g by (simp add: insert_effect_def)
    qed
  qed
qed

lemma get_spec:
  assumes inv: "cache_inv L c h" and get: "cache_get L F c h eid = (res, c', h')"
  shows "cache_inv L c' h' \<and> res = map_of (entries L c) eid \<and> entries L c' = touch eid (entries L c) \<and>
    ec_pinned c' = ec_pinned c \<and> ec_reserved_slots c' = ec_reserved_slots c \<and> ec_capacity c' = ec_capacity c \<and>
    (\<forall>a. er_id (h' a) = er_id (h a) \<and> er_buffer (h' a) = er_buffer (h a))"
proof -
  note I = cache_invD [OF inv]
  obtain r i where g: "lru_get L (ec_inner c) eid = (r, i)" by fastforce
  note G = get_entry [OF I(1) g]
  have c': "c' = c\<lparr>ec_inner := i\<rparr>" and res: "res = r"
    and h': "\<forall>a. er_id (h' a) = er_id (h a) \<and> er_buffer (h' a) = er_buffer (h a)"
    using get g by (auto simp: cache_get_def Let_def split: option.splits if_splits)
  have "er_id (h a) = k" if "(k, a) \<in> set (touch eid (entries L c))" for k a
    using that I(6) by (auto simp: touch_def set_del_key dest: map_of_SomeD split: option.splits)
  then have "cache_inv L c' h'"
    using G I inv h' length_touch [OF I(5), of eid] by (auto simp: c' cache_inv_def)
  then show ?thesis using G res h' by (simp add: c')
qed

text \<open>Removing one unpinned entry.\<close>

lemma pop_spec:
  assumes inv: "cache_inv L c h" and pop: "lru_pop L (ec_inner c) k = (e, i)"
  shows "cache_inv L (c\<lparr>ec_inner := i\<rparr>) h" "e = map_of (entries L c) k" "lru_iter L i = del_key k (entries L c)"
proof -
  note P = pop_entry [OF cache_invD(1) [OF inv] pop]
  then show "e = map_of (entries L c) k" "lru_iter L i = del_key k (entries L c)" by simp_all
  show "cache_inv L (c\<lparr>ec_inner := i\<rparr>) h"
    using P inv length_del_key_le [of k "entries L c"] by (auto simp: cache_inv_def set_del_key)
qed

lemma evict_lru_spec:
  assumes inv: "cache_inv L c h" and ev: "evict_lru L F c h = (res, c')"
  shows "cache_inv L c' h \<and> c' = c\<lparr>ec_inner := ec_inner c'\<rparr> \<and>
    evict_effect (ec_pinned c) (entries L c) res (entries L c') \<and>
    (res = None \<longleftrightarrow> fst ` set (entries L c) \<subseteq> ec_pinned c)"
proof (cases "ec_pinned c = {} \<and> \<not> ec_cost_aware c")
  case True
  note I = cache_invD [OF inv]
  obtain e i where p: "lru_pop_lru L (ec_inner c) = (e, i)" by fastforce
  note P = pop_lru_entry [OF I(1) p]
  have res: "res = map_option snd e" "c' = c\<lparr>ec_inner := i\<rparr>"
    using ev True p by (simp_all add: evict_lru_def)
  have "cache_inv L c' h"
    using P inv by (auto simp: res cache_inv_def dest: in_set_butlastD)
  then show ?thesis
    using P res True butlast_del_key [OF I(5)] last_in_set [of "entries L c"]
    by (auto simp: evict_effect_def intro!: bexI [of _ "last (entries L c)"])
next
  case False
  show ?thesis
  proof (cases "select_victim_id L F c h")
    case None
    with ev False have "res = None" "c' = c" by (auto simp: evict_lru_def)
    with None inv show ?thesis by (simp add: evict_effect_def select_victim_None)
  next
    case (Some k)
    obtain e i where p: "lru_pop L (ec_inner c) k = (e, i)" by fastforce
    with ev False Some have r: "res = e" "c' = c\<lparr>ec_inner := i\<rparr>" by (auto simp: evict_lru_def)
    note P = pop_spec [OF inv p]
    note k = select_victim_Some [OF Some]
    then have "map_of (entries L c) k \<noteq> None" by (simp add: map_of_eq_None_iff)
    with P r k show ?thesis by (auto simp: evict_effect_def)
  qed
qed

lemma evict_first_spec:
  assumes "cache_inv L c h" "evict_first L (ec_pinned c) (ec_inner c) ids = (res, i)"
    and "set ids \<subseteq> fst ` set (entries L c)"
  shows "cache_inv L (c\<lparr>ec_inner := i\<rparr>) h \<and> evict_effect (ec_pinned c) (entries L c) res (lru_iter L i) \<and>
    (res = None \<longleftrightarrow> set ids \<subseteq> ec_pinned c)"
  using assms
proof (induction ids)
  case Nil
  then show ?case by (auto simp: evict_effect_def cache_inv_def)
next
  case (Cons k ids)
  show ?case
  proof (cases "k \<in> ec_pinned c")
    case True
    with Cons show ?thesis by simp
  next
    case False
    obtain e j where p: "lru_pop L (ec_inner c) k = (e, j)" by fastforce
    note P = pop_spec [OF Cons.prems(1) p]
    obtain v where v: "e = Some v" "map_of (entries L c) k = Some v"
      using Cons.prems(3) P(2) by (auto simp: map_of_eq_None_iff) (metis fst_conv image_eqI map_of_eq_None_iff not_None_eq)
    with Cons.prems(2) False p have "res = Some v" "i = j" by simp_all
    with P v False show ?thesis
      by (auto simp: evict_effect_def intro!: bexI [of _ "(k, v)"] dest: map_of_SomeD)
  qed
qed

lemma evict_shadow_spec:
  assumes inv: "cache_inv L c h" and ev: "evict_lru_shadow_backed L c h = (res, c')"
  shows "cache_inv L c' h \<and> c' = c\<lparr>ec_inner := ec_inner c'\<rparr> \<and>
    evict_effect (ec_pinned c) (entries L c) res (entries L c') \<and>
    (res = None \<longleftrightarrow> (\<forall>(k, a)\<in>set (entries L c). is_shadow_backed (h a) \<longrightarrow> k \<in> ec_pinned c))"
proof -
  let ?ids = "rev (map fst (filter (\<lambda>(k, v). is_shadow_backed (h v)) (entries L c)))"
  obtain e i where f: "evict_first L (ec_pinned c) (ec_inner c) ?ids = (e, i)" by fastforce
  have "set ?ids \<subseteq> fst ` set (entries L c)" by auto
  note S = evict_first_spec [OF inv f this]
  have "res = e" "c' = c\<lparr>ec_inner := i\<rparr>"
    using ev f by (auto simp: evict_lru_shadow_backed_def Let_def)
  moreover have "set ?ids \<subseteq> ec_pinned c \<longleftrightarrow>
      (\<forall>(k, a)\<in>set (entries L c). is_shadow_backed (h a) \<longrightarrow> k \<in> ec_pinned c)" by auto
  ultimately show ?thesis using S by auto
qed

lemma commit_spec:
  assumes inv: "cache_inv L c h" and rem: "remaining \<le> ec_reserved_slots c"
    and com: "reservation_commit L remaining c h r = (res, remaining', c')"
  shows "cache_inv L c' h \<and>
    (if 0 < remaining \<and> map_of (entries L c) (er_id (h r)) = None
     then res = Inr () \<and> remaining' = remaining - 1 \<and> entries L c' = (er_id (h r), r) # entries L c \<and>
       c' = c\<lparr>ec_inner := ec_inner c', ec_reserved_slots := ec_reserved_slots c - 1\<rparr>
     else res = Inl r \<and> remaining' = remaining \<and> c' = c)"
proof -
  note I = cache_invD [OF inv]
  show ?thesis
  proof (cases "0 < remaining \<and> map_of (entries L c) (er_id (h r)) = None")
    case True
    obtain e i where p: "lru_push L (ec_inner c) (er_id (h r)) r = (e, i)" by fastforce
    have "length (entries L c) < ec_capacity c" using I(3) rem True by linarith
    with True have room: "lru_valid L i \<and> lru_bound L i = Some (ec_capacity c) \<and>
        lru_iter L i = (er_id (h r), r) # entries L c"
      using push_room [OF I(1) _ I(2) _ p] I(8) by simp
    have c': "res = Inr ()" "remaining' = remaining - 1"
      "c' = c\<lparr>ec_reserved_slots := ec_reserved_slots c - 1, ec_inner := i\<rparr>"
      using com True rem I(3,7,8,9) p by (auto simp: reservation_commit_def Let_def split: if_splits)
    have "cache_inv L c' h" using room inv True rem by (auto simp: cache_inv_def c')
    then show ?thesis using c' room True by simp
  next
    case False
    then show ?thesis using com inv I(8) by (auto simp: reservation_commit_def Let_def split: if_splits)
  qed
qed

end

subsection \<open>The cache under concurrent clients\<close>

text \<open>
  A cache with its store and the reservation guards its clients hold. Besides the cache's own
  operations, clients allocate fresh residents and record hits on them. A guard is created only
  after the planner has shown, under the cache's lock, that its positions fit.
\<close>

type_synonym ('c, 'h) cache_system = "'c expert_cache \<times> 'h store \<times> usize list"

inductive cache_step ::
    "('c, nat) lru_ops \<Rightarrow> 'h f64_ops \<Rightarrow> ('c, 'h) cache_system \<Rightarrow> ('c, 'h) cache_system \<Rightarrow> bool"
  for L :: "('c, nat) lru_ops" and F :: "'h f64_ops" where
  lookup: "cache_get L F c h eid = (res, c', h') \<Longrightarrow> cache_step L F (c, h, rs) (c', h', rs)"
| insertion: "insert_resident L F c h r = (res, c', h') \<Longrightarrow> cache_step L F (c, h, rs) (c', h', rs)"
| eviction: "evict_lru L F c h = (res, c') \<Longrightarrow> cache_step L F (c, h, rs) (c', h, rs)"
| shadow_eviction: "evict_lru_shadow_backed L c h = (res, c') \<Longrightarrow> cache_step L F (c, h, rs) (c', h, rs)"
| pinning: "cache_step L F (c, h, rs) (pin c eid, h, rs)"
| policy: "cache_step L F (c, h, rs) (set_cost_aware c on, h, rs)"
| reserve: "cache_len L c + ec_reserved_slots c + n \<le> ec_capacity c \<Longrightarrow>
    reservation_new c n = (m, c') \<Longrightarrow> cache_step L F (c, h, rs) (c', h, m # rs)"
| commit: "i < length rs \<Longrightarrow> reservation_commit L (rs ! i) c h r = (res, m, c') \<Longrightarrow>
    cache_step L F (c, h, rs) (c', h, rs[i := m])"
| release: "i < length rs \<Longrightarrow>
    cache_step L F (c, h, rs) (reservation_drop (rs ! i) c, h, take i rs @ drop (Suc i) rs)"
| fresh_resident: "a \<notin> snd ` set (lru_iter L (ec_inner c)) \<Longrightarrow> cache_step L F (c, h, rs) (c, h(a := r), rs)"
| hit: "cache_step L F (c, h, rs) (c, h(a := snd (record_hit (h a))), rs)"

inductive cache_run ::
    "('c, nat) lru_ops \<Rightarrow> 'h f64_ops \<Rightarrow> ('c, 'h) cache_system \<Rightarrow> ('c, 'h) cache_system \<Rightarrow> bool"
  for L :: "('c, nat) lru_ops" and F :: "'h f64_ops" where
  run_refl: "cache_run L F s s"
| run_step: "cache_run L F s t \<Longrightarrow> cache_step L F t u \<Longrightarrow> cache_run L F s u"

definition system_inv :: "('c, nat) lru_ops \<Rightarrow> ('c, 'h) cache_system \<Rightarrow> bool" where
  "system_inv L s = (case s of (c, h, rs) \<Rightarrow> cache_inv L c h \<and> sum_list rs = ec_reserved_slots c)"

text \<open>What every step keeps: the pins, and each pinned resident.\<close>

definition keeps_pinned :: "('c, nat) lru_ops \<Rightarrow> ('c, 'h) cache_system \<Rightarrow> ('c, 'h) cache_system \<Rightarrow> bool" where
  "keeps_pinned L s t \<longleftrightarrow> ec_pinned (fst s) \<subseteq> ec_pinned (fst t) \<and>
     fst ` set (entries L (fst s)) \<inter> ec_pinned (fst s) \<subseteq> fst ` set (entries L (fst t)) \<and>
     ec_capacity (fst t) = ec_capacity (fst s)"

lemma keeps_pinned_refl: "keeps_pinned L s s"
  by (simp add: keeps_pinned_def)

lemma keeps_pinned_trans:
  assumes "keeps_pinned L s t" "keeps_pinned L t u"
  shows "keeps_pinned L s u"
proof -
  have "A \<inter> P \<subseteq> C" if "P \<subseteq> Q" "A \<inter> P \<subseteq> B" "B \<inter> Q \<subseteq> C" for A B C P Q :: "u32 set"
    using that by blast
  note abs = this
  show ?thesis unfolding keeps_pinned_def
  proof (intro conjI)
    show "ec_pinned (fst s) \<subseteq> ec_pinned (fst u)"
      using assms unfolding keeps_pinned_def by (elim conjE) (rule order_trans)
    show "fst ` set (entries L (fst s)) \<inter> ec_pinned (fst s) \<subseteq> fst ` set (entries L (fst u))"
      by (rule abs [where Q = "ec_pinned (fst t)" and B = "fst ` set (entries L (fst t))"]) (use assms in \<open>simp_all add: keeps_pinned_def\<close>)
    show "ec_capacity (fst u) = ec_capacity (fst s)" using assms by (simp add: keeps_pinned_def)
  qed
qed

lemma evict_effect_keeps:
  "evict_effect pinned es res es' \<Longrightarrow> fst ` set es \<inter> pinned \<subseteq> fst ` set es'"
  by (auto simp: evict_effect_def fst_del_key) (metis fst_conv rev_image_eqI)

lemma insert_effect_keeps:
  "insert_effect es c eid r res es' \<Longrightarrow> fst ` set es \<inter> ec_pinned c \<subseteq> fst ` set es'"
  by (auto simp: insert_effect_def fst_del_key split: option.splits if_splits)
    (metis fst_conv rev_image_eqI)

lemma inner_frame:
  "c' = c\<lparr>ec_inner := i\<rparr> \<Longrightarrow> ec_pinned c' = ec_pinned c \<and> ec_capacity c' = ec_capacity c \<and>
    ec_reserved_slots c' = ec_reserved_slots c"
  "c' = c\<lparr>ec_inner := i, ec_reserved_slots := n\<rparr> \<Longrightarrow> ec_pinned c' = ec_pinned c \<and>
    ec_capacity c' = ec_capacity c \<and> ec_reserved_slots c' = n"
  by simp_all

lemma sum_list_nth_split:
  fixes xs :: "nat list"
  assumes "i < length xs"
  shows "sum_list xs = xs ! i + sum_list (take i xs @ drop (Suc i) xs)"
    "sum_list (xs[i := y]) = y + sum_list (take i xs @ drop (Suc i) xs)"
  using assms by (simp_all add: id_take_nth_drop [of i xs, THEN arg_cong [of _ _ sum_list]] upd_conv_take_nth_drop)

context expert_lru
begin

lemma step_inv:
  assumes "cache_step L F s t" "system_inv L s"
  shows "system_inv L t \<and> keeps_pinned L s t"
  using assms
proof (induction rule: cache_step.induct)
  case (lookup c h eid res c' h' rs)
  then have inv: "cache_inv L c h" by (simp add: system_inv_def)
  from get_spec [OF inv lookup(1)] lookup show ?case
    by (simp add: system_inv_def keeps_pinned_def fst_touch)
next
  case (insertion c h r res c' h' rs)
  then have inv: "cache_inv L c h" by (simp add: system_inv_def)
  from insert_spec [OF inv insertion(1)] insertion insert_effect_keeps show ?case
    by (simp add: system_inv_def keeps_pinned_def) blast
next
  case (eviction c h res c' rs)
  then have inv: "cache_inv L c h" by (simp add: system_inv_def)
  note E = evict_lru_spec [OF inv eviction(1)]
  from E have "ec_pinned c' = ec_pinned c \<and> ec_capacity c' = ec_capacity c \<and> ec_reserved_slots c' = ec_reserved_slots c"
    by (intro inner_frame(1)) blast
  with E eviction evict_effect_keeps show ?case by (simp add: system_inv_def keeps_pinned_def) blast
next
  case (shadow_eviction c h res c' rs)
  then have inv: "cache_inv L c h" by (simp add: system_inv_def)
  note E = evict_shadow_spec [OF inv shadow_eviction(1)]
  from E have "ec_pinned c' = ec_pinned c \<and> ec_capacity c' = ec_capacity c \<and> ec_reserved_slots c' = ec_reserved_slots c"
    by (intro inner_frame(1)) blast
  with E shadow_eviction evict_effect_keeps show ?case by (simp add: system_inv_def keeps_pinned_def) blast
next
  case (pinning c h rs eid)
  then show ?case by (auto simp: system_inv_def keeps_pinned_def pin_def cache_inv_def)
next
  case (policy c h rs on)
  then show ?case by (auto simp: system_inv_def keeps_pinned_def set_cost_aware_def cache_inv_def)
next
  case (reserve c n m c' h rs)
  then show ?case
    by (auto simp: system_inv_def keeps_pinned_def reservation_new_def cache_inv_def cache_len_def len_entries)
next
  case (commit i rs c h r res m c')
  then have inv: "cache_inv L c h" and sum: "sum_list rs = ec_reserved_slots c" by (simp_all add: system_inv_def)
  note split = sum_list_nth_split [OF commit(1)]
  have le: "rs ! i \<le> ec_reserved_slots c" using split(1) sum by simp
  note C = commit_spec [OF inv le commit(2)]
  show ?case
  proof (cases "0 < rs ! i \<and> map_of (entries L c) (er_id (h r)) = None")
    case True
    with C have c': "c' = c\<lparr>ec_inner := ec_inner c', ec_reserved_slots := ec_reserved_slots c - 1\<rparr>"
      and m: "m = rs ! i - 1" and es: "entries L c' = (er_id (h r), r) # entries L c" by simp_all
    note f = inner_frame(2) [OF c']
    have "sum_list (rs[i := m]) = ec_reserved_slots c'" using split sum True m f by simp
    with C f es show ?thesis by (auto simp: system_inv_def keeps_pinned_def)
  next
    case False
    with C have "c' = c" "m = rs ! i" by (auto split: if_splits)
    then show ?thesis using inv sum by (simp add: system_inv_def keeps_pinned_refl)
  qed
next
  case (release i rs c h)
  then show ?case using sum_list_nth_split(1) [OF release(1)]
    by (auto simp: system_inv_def keeps_pinned_def reservation_drop_def cache_inv_def)
next
  case (fresh_resident a c h rs r)
  then have "b \<noteq> a" if "(k, b) \<in> set (entries L c)" for k b
    using that by (metis image_eqI snd_conv)
  with fresh_resident show ?case by (auto simp: system_inv_def keeps_pinned_def cache_inv_def)
next
  case (hit c h rs a)
  then show ?case by (auto simp: system_inv_def keeps_pinned_def cache_inv_def record_hit_def)
qed

lemma run_inv:
  "cache_run L F s t \<Longrightarrow> system_inv L s \<Longrightarrow> system_inv L t \<and> keeps_pinned L s t"
  by (induction rule: cache_run.induct) (auto simp: keeps_pinned_refl dest: step_inv intro: keeps_pinned_trans)

lemma start_inv:
  assumes "cache_new L n = Return c" "n \<le> usize_MAX"
  shows "system_inv L (c, h, [])"
  using new_inv [OF assms] by (simp add: system_inv_def)

end

subsection \<open>Choice of the victim\<close>

lemma coldest_least:
  assumes tot: "\<forall>x y. f64_le F x y \<or> f64_le F y x"
    and tr: "\<forall>x y z. f64_le F x y \<longrightarrow> f64_le F y z \<longrightarrow> f64_le F x z"
    and "coldest F h e pinned best xs = Some (k, s)"
  shows "(\<forall>(k', a)\<in>set xs. k' \<notin> pinned \<longrightarrow> f64_le F s (decayed_heat F (h a) e (f64_heat_decay F))) \<and>
    (\<forall>k' b. best = Some (k', b) \<longrightarrow> f64_le F s b) \<and>
    (best = Some (k, s) \<or> (\<exists>a. (k, a) \<in> set xs \<and> s = decayed_heat F (h a) e (f64_heat_decay F)))"
  using assms(3)
proof (induction xs arbitrary: best)
  case Nil
  then show ?case using tot by auto
next
  case (Cons x xs)
  obtain k' a where x: "x = (k', a)" by (cases x)
  show ?case
  proof (cases "k' \<in> pinned")
    case True
    with Cons.IH [of best] Cons.prems show ?thesis by (auto simp: x)
  next
    case False
    let ?sc = "decayed_heat F (h a) e (f64_heat_decay F)"
    define nb where "nb = (if case best of None \<Rightarrow> True | Some (_, bs) \<Rightarrow> f64_le F ?sc bs then Some (k', ?sc) else best)"
    have "coldest F h e pinned nb xs = Some (k, s)" using Cons.prems False by (simp add: x Let_def nb_def)
    note IH = Cons.IH [OF this]
    have best: "f64_le F s ?sc \<and> (\<forall>k'' b. best = Some (k'', b) \<longrightarrow> f64_le F s b)"
    proof (cases "nb = best")
      case True
      then obtain k'' b where b: "best = Some (k'', b)"
        by (cases best) (auto simp: nb_def)
      have "f64_le F b ?sc"
        using True b tot [rule_format, of b ?sc] tot [rule_format, of ?sc ?sc] by (auto simp: nb_def split: if_splits)
      moreover have "f64_le F s b" using IH True b by blast
      ultimately show ?thesis using b tr by blast
    next
      case False
      then have nb: "nb = Some (k', ?sc)" and le: "\<forall>k'' b. best = Some (k'', b) \<longrightarrow> f64_le F ?sc b"
        by (auto simp: nb_def split: if_splits)
      then have "f64_le F s ?sc" using IH by blast
      with le tr show ?thesis by blast
    qed
    have "best = Some (k, s) \<or> (\<exists>a. (k, a) \<in> set (x # xs) \<and> s = decayed_heat F (h a) e (f64_heat_decay F))"
      using IH by (auto simp: x nb_def split: if_splits)
    with best IH show ?thesis by (auto simp: x)
  qed
qed

subsection \<open>Example states\<close>

definition nat_heat :: "nat f64_ops" where
  "nat_heat = \<lparr>f64_zero = 0, f64_one = 1, f64_heat_decay = 1, f64_add = (+), f64_mul = (*),
     f64_powi = (\<lambda>x n. 1), f64_le = (\<le>)\<rparr>"

definition demo_store :: "nat store" where
  "demo_store a = \<lparr>er_id = of_nat a,
     er_buffer = \<lparr>pb_buffer = \<lparr>ab_ptr = a, ab_bytes = [], ab_align = 1\<rparr>, pb_slot = Primary\<rparr>,
     er_shared_payload = None, er_payload_offset = 0, er_mixed_layout = None, er_hits = 0,
     er_q4_0_padded = None, er_heat = 0, er_heat_last_epoch = 0\<rparr>"

text \<open>A cache of two positions in which expert 1 is resident and pinned, with one position reserved.\<close>

definition demo_cache :: "(u32 \<times> nat) list \<Rightarrow> u32 set \<Rightarrow> usize \<Rightarrow> nat list_lru expert_cache" where
  "demo_cache es pinned reserved = \<lparr>ec_inner = (Some 2, es), ec_pinned = pinned, ec_capacity = 2,
     ec_cost_aware = False, ec_epoch = 0, ec_reserved_slots = reserved\<rparr>"

lemma demo_cache_new: "cache_new list_lru 2 = Return (demo_cache [] {} 0)"
  by (simp add: cache_new_def demo_cache_def list_lru_def)

lemma two_le_MAX: "2 \<le> usize_MAX"
  by (simp add: usize_MAX_def)

lemma demo_cache_run:
  "cache_run list_lru nat_heat (demo_cache [] {} 0, demo_store, []) (demo_cache [(1, 1)] {1} 1, demo_store, [1])"
proof -
  have 1: "cache_step list_lru nat_heat (demo_cache [] {} 0, demo_store, []) (demo_cache [(1, 1)] {} 0, demo_store, [])"
    by (rule cache_step.insertion [where r = 1 and res = "Inr None"])
      (simp add: insert_resident_def demo_cache_def list_lru_def demo_store_def push_result_def
        push_entries_def full_def saturating_add_def two_le_MAX)
  have 2: "cache_step list_lru nat_heat (demo_cache [(1, 1)] {} 0, demo_store, []) (demo_cache [(1, 1)] {1} 0, demo_store, [])"
    using cache_step.pinning [of list_lru nat_heat "demo_cache [(1, 1)] {} 0" demo_store "[]" 1]
    by (simp add: pin_def demo_cache_def)
  have 3: "cache_step list_lru nat_heat (demo_cache [(1, 1)] {1} 0, demo_store, []) (demo_cache [(1, 1)] {1} 1, demo_store, [1])"
    by (rule cache_step.reserve [where n = 1])
      (simp_all add: cache_len_def demo_cache_def list_lru_def reservation_new_def)
  show ?thesis by (rule run_step [OF run_step [OF run_step [OF run_refl 1] 2] 3])
qed

lemmas demo_run = list_lru.lru_cache_axioms demo_cache_new two_le_MAX demo_cache_run

interpretation expert_list: expert_lru list_lru
  by (rule expert_lru.intro) (rule list_lru.lru_cache_axioms)

subsection \<open>Properties\<close>



text \<open>C8: a pinned expert that is resident stays resident: from any state of the cache, no
  interleaving of lookups, insertions, evictions, reservations, policy changes and further pins
  removes it, and its pin stays.\<close>

theorem pinned_never_evicted:
  assumes "lru_cache L" "cache_new L n = Return c0" "n \<le> usize_MAX"
    and "cache_run L F (c0, h0, []) (c, h, rs)" "cache_run L F (c, h, rs) (c', h', rs')"
    and "is_pinned c k" "contains L c k"
  shows "is_pinned c' k \<and> contains L c' k"
proof -
  have E: "expert_lru L" using assms(1) by (rule expert_lru.intro)
  note inv = expert_lru.run_inv [OF E assms(4) expert_lru.start_inv [OF E assms(2,3)]]
  note inv' = expert_lru.run_inv [OF E assms(5) inv [THEN conjunct1]]
  have con: "contains L d k \<longleftrightarrow> k \<in> fst ` set (entries L d)" if "system_inv L (d, g, ts)" for d g ts
    using expert_lru.cache_invD(8) [OF E, of d g k] that
    by (simp add: contains_def system_inv_def map_of_eq_None_iff)
  have "k \<in> fst ` set (entries L c) \<inter> ec_pinned c"
    using con [OF inv [THEN conjunct1]] assms(6,7) by (simp add: is_pinned_def)
  then have "k \<in> fst ` set (entries L c')" "k \<in> ec_pinned c'"
    using inv' unfolding keeps_pinned_def by auto
  then show ?thesis using con [OF inv' [THEN conjunct1]] by (simp add: is_pinned_def)
qed

theorem pinned_never_evicted_witness:
  "\<exists>c'. evict_lru list_lru nat_heat (demo_cache [(1, 1)] {1} 1) demo_store = (None, c') \<and> contains list_lru c' 1"
proof -
  let ?c = "demo_cache [(1, 1)] {1} 1"
  have ev: "evict_lru list_lru nat_heat ?c demo_store = (None, ?c)"
    by (simp add: evict_lru_def select_victim_id_def demo_cache_def list_lru_def last_opt_def)
  have "cache_run list_lru nat_heat (?c, demo_store, [1]) (?c, demo_store, [1])"
    by (rule run_step [OF run_refl cache_step.eviction [OF ev]])
  from pinned_never_evicted [OF demo_run this, of 1] ev show ?thesis
    by (simp add: is_pinned_def contains_def demo_cache_def list_lru_def)
qed

text \<open>An insertion into a well-formed cache has exactly four outcomes. A resident id is
  replaced and its old resident returned; with a free position nothing is displaced; at capacity
  one unpinned resident is displaced and returned; and the resident is handed back, with every
  entry kept, exactly when the id is absent, no position is free and all residents are pinned.
  In every successful case the new resident is the most recently used one.\<close>

theorem insert_outcomes:
  assumes "lru_cache L" "cache_inv L c h" "insert_resident L F c h r = (res, c', h')"
  defines "es \<equiv> lru_iter L (ec_inner c)" and "eid \<equiv> er_id (h r)"
  shows "cache_inv L c' h' \<and>
    (case map_of es eid of
       Some old \<Rightarrow> res = Inr (Some old) \<and> lru_iter L (ec_inner c') = (eid, r) # del_key eid es
     | None \<Rightarrow>
         if length es + ec_reserved_slots c < ec_capacity c
         then res = Inr None \<and> lru_iter L (ec_inner c') = (eid, r) # es
         else if fst ` set es \<subseteq> ec_pinned c then res = Inl r \<and> lru_iter L (ec_inner c') = es
         else \<exists>victim. victim \<in> fst ` set es - ec_pinned c \<and>
           res = Inr (map_of es victim) \<and> lru_iter L (ec_inner c') = (eid, r) # del_key victim es)"
proof -
  have E: "expert_lru L" using assms(1) by (rule expert_lru.intro)
  from expert_lru.insert_spec [OF E assms(2,3)] show ?thesis
    unfolding insert_effect_def es_def eid_def by blast
qed

theorem insert_outcomes_witness:
  "fst (insert_resident list_lru nat_heat (demo_cache [(1, 1)] {1} 1) demo_store 2) = Inl 2"
proof -
  let ?c = "demo_cache [(1, 1)] {1} 1"
  have inv: "cache_inv list_lru ?c demo_store"
    by (simp add: cache_inv_def demo_cache_def list_lru_def demo_store_def two_le_MAX)
  obtain res c' h' where i: "insert_resident list_lru nat_heat ?c demo_store 2 = (res, c', h')"
    by (metis prod_cases3)
  from insert_outcomes [OF list_lru.lru_cache_axioms inv i] i show ?thesis
    by (simp add: demo_cache_def list_lru_def demo_store_def)
qed

text \<open>A reservation is honoured: while a guard still owns a position, committing a resident
  whose id is absent succeeds, displaces nothing and uses up exactly one position; otherwise the
  commit changes nothing and hands the resident back.\<close>

theorem reservation_honoured:
  assumes "lru_cache L" "cache_new L n = Return c0" "n \<le> usize_MAX"
    and "cache_run L F (c0, h0, []) (c, h, rs)" "i < length rs"
    and "reservation_commit L (rs ! i) c h r = (res, m, c')"
  shows "(if 0 < rs ! i \<and> \<not> contains L c (er_id (h r))
     then res = Inr () \<and> m = rs ! i - 1 \<and> ec_reserved_slots c' = ec_reserved_slots c - 1 \<and>
       lru_iter L (ec_inner c') = (er_id (h r), r) # lru_iter L (ec_inner c)
     else res = Inl r \<and> m = rs ! i \<and> c' = c)"
proof -
  have E: "expert_lru L" using assms(1) by (rule expert_lru.intro)
  note inv = expert_lru.run_inv [OF E assms(4) expert_lru.start_inv [OF E assms(2,3)]]
  then have ci: "cache_inv L c h" and sum: "sum_list rs = ec_reserved_slots c" by (simp_all add: system_inv_def)
  have "rs ! i \<le> ec_reserved_slots c" using sum_list_nth_split(1) [OF assms(5)] sum by simp
  note C = expert_lru.commit_spec [OF E ci this assms(6)]
  have "contains L c (er_id (h r)) \<longleftrightarrow> map_of (entries L c) (er_id (h r)) \<noteq> None"
    using expert_lru.cache_invD(8) [OF E ci] by (simp add: contains_def)
  with C inner_frame(2) [where c = c and c' = c' and i = "ec_inner c'" and n = "ec_reserved_slots c - 1"] show ?thesis
    by (auto split: if_splits)
qed

theorem reservation_honoured_witness:
  "fst (reservation_commit list_lru 1 (demo_cache [(1, 1)] {1} 1) demo_store 2) = Inr ()"
proof -
  let ?c = "demo_cache [(1, 1)] {1} 1"
  obtain res m c' where r: "reservation_commit list_lru ([1] ! 0) ?c demo_store 2 = (res, m, c')"
    by (metis prod_cases3)
  from reservation_honoured [OF demo_run _ r] r show ?thesis
    by (simp add: contains_def demo_cache_def list_lru_def demo_store_def)
qed

text \<open>The victim is the right one. In the default policy it is the least recently used unpinned
  resident; in the cost-aware policy it is an unpinned resident whose decayed heat is lowest
  among the unpinned residents, for any total preorder of heats; and there is no victim exactly
  when every resident is pinned.\<close>

theorem victim_choice:
  assumes "\<forall>x y. f64_le F x y \<or> f64_le F y x"
    and "\<forall>x y z. f64_le F x y \<longrightarrow> f64_le F y z \<longrightarrow> f64_le F x z"
  shows "(select_victim_id L F c h = None \<longleftrightarrow> fst ` set (lru_iter L (ec_inner c)) \<subseteq> ec_pinned c) \<and>
    (\<forall>k. select_victim_id L F c h = Some k \<longrightarrow> k \<notin> ec_pinned c \<and>
      (if ec_cost_aware c
       then \<exists>a. (k, a) \<in> set (lru_iter L (ec_inner c)) \<and>
         (\<forall>(k', a') \<in> set (lru_iter L (ec_inner c)). k' \<notin> ec_pinned c \<longrightarrow>
           f64_le F (decayed_heat F (h a) (ec_epoch c) (f64_heat_decay F))
             (decayed_heat F (h a') (ec_epoch c) (f64_heat_decay F)))
       else \<exists>newer older. map fst (lru_iter L (ec_inner c)) = newer @ k # older \<and> set older \<subseteq> ec_pinned c))"
proof (intro conjI allI impI)
  show "select_victim_id L F c h = None \<longleftrightarrow> fst ` set (lru_iter L (ec_inner c)) \<subseteq> ec_pinned c"
    by (rule select_victim_None)
next
  fix k assume sel: "select_victim_id L F c h = Some k"
  show "k \<notin> ec_pinned c" using select_victim_Some [OF sel] by blast
  show "if ec_cost_aware c
       then \<exists>a. (k, a) \<in> set (lru_iter L (ec_inner c)) \<and>
         (\<forall>(k', a') \<in> set (lru_iter L (ec_inner c)). k' \<notin> ec_pinned c \<longrightarrow>
           f64_le F (decayed_heat F (h a) (ec_epoch c) (f64_heat_decay F))
             (decayed_heat F (h a') (ec_epoch c) (f64_heat_decay F)))
       else \<exists>newer older. map fst (lru_iter L (ec_inner c)) = newer @ k # older \<and> set older \<subseteq> ec_pinned c"
  proof (cases "ec_cost_aware c")
    case True
    then obtain s where "coldest F h (ec_epoch c) (ec_pinned c) None (lru_iter L (ec_inner c)) = Some (k, s)"
      using sel by (auto simp: select_victim_id_def)
    note least = coldest_least [OF assms this]
    then obtain a where "(k, a) \<in> set (lru_iter L (ec_inner c))"
      "s = decayed_heat F (h a) (ec_epoch c) (f64_heat_decay F)" by blast
    with least True show ?thesis by auto
  next
    case False
    let ?ks = "map fst (lru_iter L (ec_inner c))"
    from False sel have "filter (\<lambda>k. k \<notin> ec_pinned c) (rev ?ks) \<noteq> []"
      and "k = hd (filter (\<lambda>k. k \<notin> ec_pinned c) (rev ?ks))"
      by (auto simp: select_victim_id_def last_opt_def hd_rev simp flip: rev_filter split: if_splits)
    then obtain ys where "filter (\<lambda>k. k \<notin> ec_pinned c) (rev ?ks) = k # ys"
      by (metis list.collapse)
    then obtain us vs where "rev ?ks = us @ k # vs" "\<forall>u\<in>set us. u \<in> ec_pinned c"
      by (auto simp: filter_eq_Cons_iff)
    then have "?ks = rev vs @ k # rev us" "set (rev us) \<subseteq> ec_pinned c"
      by (auto simp: rev_swap)
    with False show ?thesis
      by simp (rule exI [of _ "rev vs"], rule exI [of _ "rev us"], simp)
  qed
qed

theorem victim_choice_witness:
  "select_victim_id list_lru nat_heat (demo_cache [(2, 2), (1, 1)] {1} 0) demo_store = Some 2 \<and> 2 \<notin> ({1} :: u32 set)"
proof -
  have "select_victim_id list_lru nat_heat (demo_cache [(2, 2), (1, 1)] {1} 0) demo_store = Some 2"
    by (simp add: select_victim_id_def demo_cache_def list_lru_def last_opt_def)
  with victim_choice [of nat_heat list_lru "demo_cache [(2, 2), (1, 1)] {1} 0" demo_store] show ?thesis
    by (auto simp: nat_heat_def demo_cache_def)
qed

lemma header_strip_suffix: "\<exists>n\<le>length bytes. snd (header_strip bytes a) = drop n bytes"
proof (cases "header_probe bytes")
  case None
  then show ?thesis by (intro exI [of _ 0]) (simp add: header_strip_def)
next
  case (Some h)
  show ?thesis
    by (simp add: header_strip_def Some Let_def not_less) (metis drop0 le0)
qed

text \<open>The payload offset computed once at load time is right: the bytes a resident serves are
  exactly those the header parser would return for its buffer (the validated mixed payload, else
  the payload behind a plain header, else the whole buffer), they are a suffix of the buffer, and
  dropping the resident undoes its contribution to the process-wide gauge.\<close>

theorem resident_payload_faithful:
  "(case new_with_block_align F e buf al g of (r, g') \<Rightarrow>
      resident_data r = (case mixed_strip (as_slice buf) al of
          Some (h, payload) \<Rightarrow> payload
        | None \<Rightarrow> snd (header_strip (as_slice buf) al)) \<and>
      er_mixed_layout r = map_option fst (mixed_strip (as_slice buf) al) \<and>
      (\<exists>n\<le>length (as_slice buf). resident_data r = drop n (as_slice buf)) \<and> resident_drop r g' = g)"
proof -
  let ?raw = "as_slice buf"
  have "\<exists>n\<le>length ?raw. (case mixed_strip ?raw al of Some (h, payload) \<Rightarrow> payload
      | None \<Rightarrow> snd (header_strip ?raw al)) = drop n ?raw"
    using header_strip_suffix [of ?raw al] mixed_strip_Some(3) [of ?raw al]
    by (auto split: option.split)
  then obtain n where n: "n \<le> length ?raw" "(case mixed_strip ?raw al of Some (h, payload) \<Rightarrow> payload
      | None \<Rightarrow> snd (header_strip ?raw al)) = drop n ?raw" by blast
  then have "drop (length ?raw - length (drop n ?raw)) ?raw = drop n ?raw" by simp
  then show ?thesis using n
    by (auto simp: new_with_block_align_def resident_data_def resident_drop_def Let_def split: option.splits)
qed

text \<open>A cached padding is the payload followed by zeros.\<close>

definition padded_ok :: "'h expert_resident \<Rightarrow> bool" where
  "padded_ok r = (case er_q4_0_padded r of
     None \<Rightarrow> True
   | Some (n, bytes) \<Rightarrow> bytes = resident_data r @ replicate (n - length (resident_data r)) 0 \<and>
       length (resident_data r) \<le> n)"

text \<open>The memoised padding of a short Q4_0 payload is sound: whatever lengths it was asked for
  before, an answer has exactly the requested length and is the payload followed by at most
  tolerance zero bytes, the first request within tolerance is answered, and the payload itself is
  unchanged.\<close>

theorem q4_0_padding_correct:
  assumes "padded_ok r" "q4_0_padded_payload r need tolerance = (res, r')"
  shows "padded_ok r' \<and> resident_data r' = resident_data r \<and>
    (\<forall>bytes. res = Some bytes \<longrightarrow> bytes = resident_data r @ replicate (need - length (resident_data r)) 0 \<and>
       length bytes = need \<and> 0 < need - length (resident_data r) \<and> need - length (resident_data r) \<le> tolerance) \<and>
    (er_q4_0_padded r = None \<longrightarrow>
       (res \<noteq> None \<longleftrightarrow> length (resident_data r) < need \<and> need - length (resident_data r) \<le> tolerance \<and> tolerance < need))"
proof -
  let ?d = "resident_data r"
  have frame: "resident_data (r\<lparr>er_q4_0_padded := c\<rparr>) = ?d" for c by (simp add: resident_data_def split: option.split)
  show ?thesis
  proof (cases "need \<le> length ?d \<or> need \<le> tolerance \<or> need - length ?d > tolerance")
    case True
    then have "res = None" "r' = r" using assms(2) by (auto simp: q4_0_padded_payload_def Let_def split: if_splits)
    then show ?thesis using assms(1) True by auto
  next
    case False
    show ?thesis
    proof (cases "er_q4_0_padded r")
      case None
      then have "res = Some (vec_resize ?d need 0)" "r' = r\<lparr>er_q4_0_padded := Some (need, vec_resize ?d need 0)\<rparr>"
        using assms(2) False by (auto simp: q4_0_padded_payload_def Let_def)
      then show ?thesis using False by (simp add: padded_ok_def frame vec_resize_grow)
    next
      case (Some c)
      obtain n bytes where c: "c = (n, bytes)" by (cases c)
      have "r' = r" "res = (if n = need then Some bytes else None)"
        using assms(2) False Some c by (auto simp: q4_0_padded_payload_def Let_def)
      then show ?thesis using assms(1) Some c False by (auto simp: padded_ok_def)
    qed
  qed
qed

theorem q4_0_padding_correct_witness:
  "padded_ok (snd (q4_0_padded_payload (demo_store 1) 3 2)) \<and> padded_ok (demo_store 1)"
proof -
  have "padded_ok (demo_store 1)" by (simp add: padded_ok_def demo_store_def)
  moreover from q4_0_padding_correct [OF this, of 3 2] have "padded_ok (snd (q4_0_padded_payload (demo_store 1) 3 2))"
    by (metis prod.collapse)
  ultimately show ?thesis by simp
qed

end
