(* ===== verification/MultiLayer.thy ===== *)
theory MultiLayer
  imports ExpertCache
begin

section \<open>One expert cache per layer\<close>

text \<open>
  Model of \<open>MultiLayerExpertCache\<close> of \<open>multi_layer_cache.rs\<close>: one \<open>ExpertCache\<close> per layer and the
  stride that decodes a global expert id. Every operation is routed to the layer that owns the id,
  and an id outside the namespace misses, is rejected or is ignored. The eviction across layers
  (heaviest layer first, then the others in cyclic order) is the one the demand planner of
  \<open>DemandPlan\<close> replays on virtual layers. The state hash (a SHA-256 over the resident ids) is left
  out.
\<close>

record expert_key =
  ek_layer :: u32
  ek_expert :: u32

record 'c multi_layer =
  ml_caches :: "'c expert_cache list"
  ml_experts_per_layer :: u32

subsection \<open>Construction and routing\<close>

fun new_layers :: "('c, nat) lru_ops \<Rightarrow> usize list \<Rightarrow> 'c expert_cache list outcome" where
  "new_layers L [] = Return []"
| "new_layers L (n # ns) =
     obind (cache_new L n) (\<lambda>c. obind (new_layers L ns) (\<lambda>cs. Return (c # cs)))"

definition with_capacities :: "('c, nat) lru_ops \<Rightarrow> usize list \<Rightarrow> u32 \<Rightarrow> 'c multi_layer outcome" where
  "with_capacities L caps stride =
     (if caps = [] \<or> stride = 0 then Panic
      else obind (new_layers L caps)
             (\<lambda>cs. Return \<lparr>ml_caches = cs, ml_experts_per_layer = stride\<rparr>))"

definition with_uniform_capacity ::
    "('c, nat) lru_ops \<Rightarrow> usize \<Rightarrow> usize \<Rightarrow> u32 \<Rightarrow> 'c multi_layer outcome" where
  "with_uniform_capacity L num_layers cap stride =
     (if num_layers = 0 \<or> stride = 0 then Panic
      else obind (new_layers L (replicate num_layers cap))
             (\<lambda>cs. Return \<lparr>ml_caches = cs, ml_experts_per_layer = stride\<rparr>))"

definition single_layer :: "('c, nat) lru_ops \<Rightarrow> usize \<Rightarrow> 'c multi_layer outcome" where
  "single_layer L cap =
     obind (cache_new L cap) (\<lambda>c. Return \<lparr>ml_caches = [c], ml_experts_per_layer = - 1\<rparr>)"

definition num_layers :: "'c multi_layer \<Rightarrow> usize" where
  "num_layers m = length (ml_caches m)"

definition try_layer_idx :: "'c multi_layer \<Rightarrow> u32 \<Rightarrow> usize option" where
  "try_layer_idx m eid =
     (let layer = unat (eid div ml_experts_per_layer m)
      in if layer < length (ml_caches m) then Some layer else None)"

definition layer_of :: "'c multi_layer \<Rightarrow> u32 \<Rightarrow> usize" where
  "layer_of m eid =
     min (unat (eid div ml_experts_per_layer m)) (saturating_sub (length (ml_caches m)) 1)"

definition capacity_of_layer :: "'c multi_layer \<Rightarrow> usize \<Rightarrow> usize" where
  "capacity_of_layer m layer =
     (if layer < length (ml_caches m) then ec_capacity (ml_caches m ! layer) else 0)"

definition cache_for_layer :: "'c multi_layer \<Rightarrow> u32 \<Rightarrow> 'c expert_cache outcome" where
  "cache_for_layer m layer =
     (if unat layer < length (ml_caches m) then Return (ml_caches m ! unat layer) else Panic)"

abbreviation set_layer :: "'c multi_layer \<Rightarrow> usize \<Rightarrow> 'c expert_cache \<Rightarrow> 'c multi_layer" where
  "set_layer m i c \<equiv> m\<lparr>ml_caches := (ml_caches m)[i := c]\<rparr>"

definition global_id :: "'c multi_layer \<Rightarrow> expert_key \<Rightarrow> u32" where
  "global_id m key =
     of_nat (min (min (unat (ek_layer key) * unat (ml_experts_per_layer m)) (2 ^ 32 - 1) + unat (ek_expert key)) (2 ^ 32 - 1))"

subsection \<open>The cache operations on global ids\<close>

definition ml_get ::
    "('c, nat) lru_ops \<Rightarrow> 'h f64_ops \<Rightarrow> 'c multi_layer \<Rightarrow> 'h store \<Rightarrow> u32 \<Rightarrow>
     nat option \<times> 'c multi_layer \<times> 'h store" where
  "ml_get L F m h eid =
     (case try_layer_idx m eid of
        None \<Rightarrow> (None, m, h)
      | Some i \<Rightarrow> let (res, c, h') = cache_get L F (ml_caches m ! i) h eid in (res, set_layer m i c, h'))"

definition ml_contains :: "('c, nat) lru_ops \<Rightarrow> 'c multi_layer \<Rightarrow> u32 \<Rightarrow> bool" where
  "ml_contains L m eid =
     (case try_layer_idx m eid of None \<Rightarrow> False | Some i \<Rightarrow> contains L (ml_caches m ! i) eid)"

definition contains_at :: "('c, nat) lru_ops \<Rightarrow> 'c multi_layer \<Rightarrow> expert_key \<Rightarrow> bool" where
  "contains_at L m key =
     (unat (ek_layer key) < length (ml_caches m) \<and>
      contains L (ml_caches m ! unat (ek_layer key)) (global_id m key))"

definition ml_insert ::
    "('c, nat) lru_ops \<Rightarrow> 'h f64_ops \<Rightarrow> 'c multi_layer \<Rightarrow> 'h store \<Rightarrow> nat \<Rightarrow>
     (nat + nat option) \<times> 'c multi_layer \<times> 'h store" where
  "ml_insert L F m h r =
     (case try_layer_idx m (er_id (h r)) of
        None \<Rightarrow> (Inl r, m, h)
      | Some i \<Rightarrow>
          let (res, c, h') = insert_resident L F (ml_caches m ! i) h r in (res, set_layer m i c, h'))"

definition ml_pin :: "'c multi_layer \<Rightarrow> u32 \<Rightarrow> 'c multi_layer" where
  "ml_pin m eid =
     (case try_layer_idx m eid of None \<Rightarrow> m | Some i \<Rightarrow> set_layer m i (pin (ml_caches m ! i) eid))"

definition ml_unpin :: "'c multi_layer \<Rightarrow> u32 \<Rightarrow> 'c multi_layer" where
  "ml_unpin m eid =
     (case try_layer_idx m eid of None \<Rightarrow> m | Some i \<Rightarrow> set_layer m i (unpin (ml_caches m ! i) eid))"

definition ml_is_pinned :: "'c multi_layer \<Rightarrow> u32 \<Rightarrow> bool" where
  "ml_is_pinned m eid =
     (case try_layer_idx m eid of None \<Rightarrow> False | Some i \<Rightarrow> is_pinned (ml_caches m ! i) eid)"

definition ml_reserved_slots :: "'c multi_layer \<Rightarrow> usize" where
  "ml_reserved_slots m = sum_list (map ec_reserved_slots (ml_caches m))"

definition ml_set_cost_aware :: "'c multi_layer \<Rightarrow> bool \<Rightarrow> 'c multi_layer" where
  "ml_set_cost_aware m on = m\<lparr>ml_caches := map (\<lambda>c. set_cost_aware c on) (ml_caches m)\<rparr>"

definition ml_len :: "('c, nat) lru_ops \<Rightarrow> 'c multi_layer \<Rightarrow> usize" where
  "ml_len L m = sum_list (map (cache_len L) (ml_caches m))"

definition total_resident :: "('c, nat) lru_ops \<Rightarrow> 'c multi_layer \<Rightarrow> usize" where
  "total_resident L m = ml_len L m"

definition ml_capacity :: "'c multi_layer \<Rightarrow> usize" where
  "ml_capacity m = sum_list (map ec_capacity (ml_caches m))"

definition ml_pinned_count :: "'c multi_layer \<Rightarrow> usize" where
  "ml_pinned_count m = sum_list (map pinned_count (ml_caches m))"

definition pinned_ids :: "'c expert_cache \<Rightarrow> u32 list" where
  "pinned_ids c = sorted_list_of_set (ec_pinned c)"

definition ml_pinned_ids :: "'c multi_layer \<Rightarrow> u32 list" where
  "ml_pinned_ids m = sort (concat (map pinned_ids (ml_caches m)))"

definition ml_resident_ids :: "('c, nat) lru_ops \<Rightarrow> 'c multi_layer \<Rightarrow> u32 list" where
  "ml_resident_ids L m = concat (map (resident_ids L) (ml_caches m))"

subsection \<open>Eviction across layers\<close>

text \<open>The scan for the layer with the most entries: index and length of the first maximum.\<close>

fun heaviest :: "usize \<Rightarrow> (usize \<times> usize) option \<Rightarrow> usize list \<Rightarrow> (usize \<times> usize) option" where
  "heaviest idx best [] = best"
| "heaviest idx best (len # lens) =
     (if len = 0 then heaviest (Suc idx) best lens
      else case best of
        Some (b, best_len) \<Rightarrow>
          if len \<le> best_len then heaviest (Suc idx) best lens
          else heaviest (Suc idx) (Some (idx, len)) lens
      | None \<Rightarrow> heaviest (Suc idx) (Some (idx, len)) lens)"

fun evict_layers ::
    "('c, nat) lru_ops \<Rightarrow> 'h f64_ops \<Rightarrow> 'h store \<Rightarrow> usize list \<Rightarrow> 'c multi_layer \<Rightarrow>
     nat option \<times> 'c multi_layer" where
  "evict_layers L F h [] m = (None, m)"
| "evict_layers L F h (i # is) m =
     (case evict_lru L F (ml_caches m ! i) h of
        (Some r, c) \<Rightarrow> (Some r, set_layer m i c)
      | (None, c) \<Rightarrow> evict_layers L F h is (set_layer m i c))"

definition cyclic_order :: "usize \<Rightarrow> usize \<Rightarrow> usize list" where
  "cyclic_order start n = map (\<lambda>offset. (start + offset) mod n) [0..<n]"

definition ml_evict_lru ::
    "('c, nat) lru_ops \<Rightarrow> 'h f64_ops \<Rightarrow> 'c multi_layer \<Rightarrow> 'h store \<Rightarrow> nat option \<times> 'c multi_layer" where
  "ml_evict_lru L F m h =
     (case heaviest 0 None (map (cache_len L) (ml_caches m)) of
        None \<Rightarrow> (None, m)
      | Some (start, _) \<Rightarrow> evict_layers L F h (cyclic_order start (length (ml_caches m))) m)"

fun evict_shadow_layers ::
    "('c, nat) lru_ops \<Rightarrow> 'h store \<Rightarrow> usize list \<Rightarrow> 'c multi_layer \<Rightarrow> nat option \<times> 'c multi_layer" where
  "evict_shadow_layers L h [] m = (None, m)"
| "evict_shadow_layers L h (i # is) m =
     (case evict_lru_shadow_backed L (ml_caches m ! i) h of
        (Some r, c) \<Rightarrow> (Some r, set_layer m i c)
      | (None, c) \<Rightarrow> evict_shadow_layers L h is (set_layer m i c))"

definition ml_evict_lru_shadow_backed ::
    "('c, nat) lru_ops \<Rightarrow> 'c multi_layer \<Rightarrow> 'h store \<Rightarrow> nat option \<times> 'c multi_layer" where
  "ml_evict_lru_shadow_backed L m h =
     (let lens = map (cache_len L) (ml_caches m);
          order = sort_key (\<lambda>i. - int (lens ! i)) [0..<length (ml_caches m)]
      in evict_shadow_layers L h order m)"

subsection \<open>Invariant\<close>

text \<open>Every layer is a cache within its capacity that holds only experts of its own layer. The
  capacities sum within a \<open>usize\<close>.\<close>

abbreviation layer_entries :: "('c, nat) lru_ops \<Rightarrow> 'c multi_layer \<Rightarrow> usize \<Rightarrow> (u32 \<times> nat) list" where
  "layer_entries L m i \<equiv> lru_iter L (ec_inner (ml_caches m ! i))"

definition ml_inv :: "('c, nat) lru_ops \<Rightarrow> 'c multi_layer \<Rightarrow> 'h store \<Rightarrow> bool" where
  "ml_inv L m h \<longleftrightarrow> ml_caches m \<noteq> [] \<and> ml_capacity m \<le> usize_MAX \<and>
     (\<forall>i < length (ml_caches m). cache_inv L (ml_caches m ! i) h \<and>
        (\<forall>k \<in> fst ` set (layer_entries L m i). try_layer_idx m k = Some i))"

lemma set_layer_simps [simp]:
  "ml_experts_per_layer (set_layer m i c) = ml_experts_per_layer m"
  "length (ml_caches (set_layer m i c)) = length (ml_caches m)"
  "try_layer_idx (set_layer m i c) k = try_layer_idx m k"
  by (simp_all add: try_layer_idx_def)

lemma try_layer_idx_less: "try_layer_idx m k = Some i \<Longrightarrow> i < length (ml_caches m)"
  by (auto simp: try_layer_idx_def Let_def split: if_splits)

lemma ml_capacity_set_layer:
  "i < length (ml_caches m) \<Longrightarrow> ec_capacity c = ec_capacity (ml_caches m ! i) \<Longrightarrow>
   ml_capacity (set_layer m i c) = ml_capacity m"
  by (simp add: ml_capacity_def map_update) (metis list_update_id length_map nth_map)

lemma ml_invD:
  assumes "ml_inv L m h" "i < length (ml_caches m)"
  shows "cache_inv L (ml_caches m ! i) h"
    "k \<in> fst ` set (layer_entries L m i) \<Longrightarrow> try_layer_idx m k = Some i"
  using assms by (auto simp: ml_inv_def)

text \<open>Replacing one layer by a cache that holds no new experts, or one that belongs there.\<close>

lemma ml_inv_set_layer:
  assumes inv: "ml_inv L m h" and i: "i < length (ml_caches m)"
    and c: "cache_inv L c h'" "ec_capacity c = ec_capacity (ml_caches m ! i)"
    and keys: "\<And>k. k \<in> fst ` set (entries L c) \<Longrightarrow> try_layer_idx m k = Some i"
    and h': "\<And>a. er_id (h' a) = er_id (h a)"
  shows "ml_inv L (set_layer m i c) h'"
proof -
  have other: "cache_inv L d h'" if "cache_inv L d h" for d
    using that h' by (auto simp: cache_inv_def)
  have cap: "ml_capacity (set_layer m i c) \<le> usize_MAX"
    using inv by (simp only: ml_capacity_set_layer [OF i c(2)]) (simp add: ml_inv_def)
  show ?thesis unfolding ml_inv_def
  proof (intro conjI allI impI cap)
    show "ml_caches (set_layer m i c) \<noteq> []" using inv by (simp add: ml_inv_def)
    fix j assume "j < length (ml_caches (set_layer m i c))"
    then have j: "j < length (ml_caches m)" by simp
    show "cache_inv L (ml_caches (set_layer m i c) ! j) h'"
      using ml_invD(1) [OF inv j] other c(1) i j by (cases "j = i") simp_all
    show "\<forall>k\<in>fst ` set (layer_entries L (set_layer m i c) j). try_layer_idx (set_layer m i c) k = Some j"
    proof
      fix k assume k: "k \<in> fst ` set (layer_entries L (set_layer m i c) j)"
      show "try_layer_idx (set_layer m i c) k = Some j"
      proof (cases "j = i")
        case True
        with k i have "k \<in> fst ` set (entries L c)" by simp
        from keys [OF this] True show ?thesis by simp
      next
        case False
        with k have "k \<in> fst ` set (layer_entries L m j)" by simp
        from ml_invD(2) [OF inv j this] show ?thesis by simp
      qed
    qed
  qed
qed

text \<open>The scan returns the first of the longest non-empty layers.\<close>

fun first_longest :: "usize list \<Rightarrow> (usize \<times> usize) option \<Rightarrow> bool" where
  "first_longest lens None \<longleftrightarrow> (\<forall>n\<in>set lens. n = 0)"
| "first_longest lens (Some (b, n)) \<longleftrightarrow> b < length lens \<and> lens ! b = n \<and> 0 < n \<and>
     (\<forall>x\<in>set lens. x \<le> n) \<and> (\<forall>j<b. lens ! j < n)"

lemma heaviest_scan:
  "first_longest pre best \<Longrightarrow> first_longest (pre @ lens) (heaviest (length pre) best lens)"
proof (induction lens arbitrary: pre best)
  case (Cons len lens)
  have step: "first_longest (pre @ len # lens) (heaviest (Suc (length pre)) best' lens)"
    if "first_longest (pre @ [len]) best'" for best'
    using Cons.IH [OF that] by simp
  show ?case
  proof (cases best)
    case None
    with Cons.prems have "first_longest (pre @ [len]) (if len = 0 then None else Some (length pre, len))"
      by (auto simp: nth_append all_set_conv_all_nth)
    from step [OF this] None show ?thesis by (auto split: if_splits)
  next
    case (Some p)
    obtain b n where p: "p = (b, n)" by (cases p)
    have "first_longest (pre @ [len]) (if len \<le> n then best else Some (length pre, len))"
      using Cons.prems Some p
      by (auto simp: nth_append all_set_conv_all_nth less_Suc_eq not_le)
    from step [OF this] Some p Cons.prems show ?thesis by (auto split: if_splits)
  qed
qed simp

lemma heaviest_first_longest: "first_longest lens (heaviest 0 None lens)"
  using heaviest_scan [of "[]" None lens] by simp

lemma set_cyclic_order: "start < n \<Longrightarrow> set (cyclic_order start n) = {..<n}"
proof -
  assume s: "start < n"
  have "\<exists>x<n. i = (start + x) mod n" if "i < n" for i
  proof (cases "start \<le> i")
    case True
    then show ?thesis using that s by (intro exI [of _ "i - start"]) auto
  next
    case False
    have "(start + (n - start + i)) mod n = (n + i) mod n"
      using s by simp
    then show ?thesis using that s False by (intro exI [of _ "n - start + i"]) auto
  qed
  then show ?thesis using s by (fastforce simp: cyclic_order_def image_iff)
qed

text \<open>What an operation leaves alone in every layer.\<close>

definition same_layers :: "'c multi_layer \<Rightarrow> 'c multi_layer \<Rightarrow> bool" where
  "same_layers m m' \<longleftrightarrow> ml_experts_per_layer m' = ml_experts_per_layer m \<and>
     length (ml_caches m') = length (ml_caches m) \<and>
     (\<forall>i < length (ml_caches m).
        ec_pinned (ml_caches m' ! i) = ec_pinned (ml_caches m ! i) \<and>
        ec_capacity (ml_caches m' ! i) = ec_capacity (ml_caches m ! i) \<and>
        ec_reserved_slots (ml_caches m' ! i) = ec_reserved_slots (ml_caches m ! i) \<and>
        ec_cost_aware (ml_caches m' ! i) = ec_cost_aware (ml_caches m ! i))"

lemma same_layers_refl: "same_layers m m"
  by (simp add: same_layers_def)

lemma same_layers_trans: "same_layers a b \<Longrightarrow> same_layers b c \<Longrightarrow> same_layers a c"
  by (simp add: same_layers_def)

lemma same_layers_idx: "same_layers m m' \<Longrightarrow> try_layer_idx m' k = try_layer_idx m k"
  by (simp add: same_layers_def try_layer_idx_def)

lemma same_layers_set:
  assumes "i < length (ml_caches m)" "ec_pinned c = ec_pinned (ml_caches m ! i)"
    "ec_capacity c = ec_capacity (ml_caches m ! i)"
    "ec_reserved_slots c = ec_reserved_slots (ml_caches m ! i)"
    "ec_cost_aware c = ec_cost_aware (ml_caches m ! i)"
  shows "same_layers m (set_layer m i c)"
  using assms by (simp add: same_layers_def nth_list_update)

abbreviation all_pinned :: "('c, nat) lru_ops \<Rightarrow> 'c multi_layer \<Rightarrow> usize \<Rightarrow> bool" where
  "all_pinned L m i \<equiv> fst ` set (layer_entries L m i) \<subseteq> ec_pinned (ml_caches m ! i)"

context expert_lru
begin

text \<open>Both eviction paths of \<open>evict_lru\<close> remove the entry that \<open>select_victim_id\<close> names.\<close>

lemma evict_lru_selected:
  assumes inv: "cache_inv L c h" and ev: "evict_lru L F c h = (res, c')"
  shows "case select_victim_id L F c h of
      None \<Rightarrow> res = None \<and> entries L c' = entries L c
    | Some k \<Rightarrow> res = map_of (entries L c) k \<and> res \<noteq> None \<and> entries L c' = del_key k (entries L c)"
proof (cases "ec_pinned c = {} \<and> \<not> ec_cost_aware c")
  case True
  obtain e i where p: "lru_pop_lru L (ec_inner c) = (e, i)" by fastforce
  note P = pop_lru_entry [OF cache_invD(1) [OF inv] p]
  have sel: "select_victim_id L F c h = (if entries L c = [] then None else Some (fst (last (entries L c))))"
    using True by (auto simp: select_victim_id_def last_opt_def last_map)
  show ?thesis
    using True p ev P sel butlast_del_key [OF cache_invD(5) [OF inv]]
    by (auto simp: evict_lru_def)
next
  case False
  show ?thesis
  proof (cases "select_victim_id L F c h")
    case None
    then have "(res, c') = (None, c)" using ev unfolding evict_lru_def by (simp add: False)
    with None show ?thesis by simp
  next
    case (Some k)
    obtain e i where p: "lru_pop L (ec_inner c) k = (e, i)" by fastforce
    note P = pop_spec [OF inv p]
    have "map_of (entries L c) k \<noteq> None"
      using select_victim_Some [OF Some] by (metis map_of_eq_None_iff)
    moreover have "res = e" "c' = c\<lparr>ec_inner := i\<rparr>"
      using ev Some p unfolding evict_lru_def by (simp_all add: False)
    ultimately show ?thesis using P Some by simp
  qed
qed

text \<open>The aggregate eviction: the layers before the victim's are entirely pinned.\<close>

lemma evict_layers_spec:
  assumes "ml_inv L m h" "set is \<subseteq> {..<length (ml_caches m)}" "evict_layers L F h is m = (res, m')"
  shows "ml_inv L m' h \<and> same_layers m m' \<and>
    (case res of
       None \<Rightarrow> (\<forall>i\<in>set is. all_pinned L m i) \<and>
         (\<forall>j<length (ml_caches m). layer_entries L m' j = layer_entries L m j)
     | Some r \<Rightarrow> \<exists>pre i post k. is = pre @ i # post \<and> (\<forall>j\<in>set pre. all_pinned L m j) \<and>
         select_victim_id L F (ml_caches m ! i) h = Some k \<and> map_of (layer_entries L m i) k = Some r \<and>
         (\<forall>j<length (ml_caches m). layer_entries L m' j =
            (if j = i then del_key k (layer_entries L m i) else layer_entries L m j)))"
  using assms
proof (induction "is" arbitrary: m)
  case Nil
  then show ?case by (auto simp: same_layers_refl)
next
  case (Cons i "is")
  have i: "i < length (ml_caches m)" using Cons.prems(2) by simp
  let ?c = "ml_caches m ! i"
  note ci = ml_invD(1) [OF Cons.prems(1) i]
  obtain e c where ev: "evict_lru L F ?c h = (e, c)" by fastforce
  note S = evict_lru_spec [OF ci ev] and V = evict_lru_selected [OF ci ev]
  have keys: "k \<in> fst ` set (entries L c) \<Longrightarrow> try_layer_idx m k = Some i" for k
    using V ml_invD(2) [OF Cons.prems(1) i, of k] by (auto simp: fst_del_key split: option.splits)
  have cf: "ec_pinned c = ec_pinned ?c" "ec_capacity c = ec_capacity ?c"
      "ec_reserved_slots c = ec_reserved_slots ?c" "ec_cost_aware c = ec_cost_aware ?c"
    using S by (metis expert_cache.select_convs expert_cache.surjective expert_cache.update_convs(1))+
  have inv1: "ml_inv L (set_layer m i c) h"
    using ml_inv_set_layer [OF Cons.prems(1) i] S cf(2) keys by blast
  have same1: "same_layers m (set_layer m i c)" by (rule same_layers_set [OF i cf])
  show ?case
  proof (cases e)
    case (Some r)
    then have out: "res = Some r" "m' = set_layer m i c" using Cons.prems(3) ev by auto
    obtain k where k: "select_victim_id L F ?c h = Some k" "map_of (layer_entries L m i) k = Some r"
        "entries L c = del_key k (layer_entries L m i)"
      using V Some by (auto split: option.splits)
    have "\<forall>j<length (ml_caches m). layer_entries L m' j =
        (if j = i then del_key k (layer_entries L m i) else layer_entries L m j)"
      using k(3) i by (simp add: out)
    with k(1,2) inv1 same1 show ?thesis
      unfolding out option.case by (intro conjI exI [of _ "[]"] exI [of _ i] exI [of _ "is"] exI [of _ k]) simp_all
  next
    case None
    let ?m = "set_layer m i c"
    have ev': "evict_layers L F h is ?m = (res, m')" using Cons.prems(3) ev None by simp
    have "set is \<subseteq> {..<length (ml_caches ?m)}" using Cons.prems(2) by simp
    note IH = Cons.IH [OF inv1 this ev']
    have same: "same_layers m m'" using IH same1 same_layers_trans by blast
    have unch: "entries L c = layer_entries L m i"
      using V None by (auto split: option.splits)
    have le: "layer_entries L ?m j = layer_entries L m j" if "j < length (ml_caches m)" for j
      using that unch i by (cases "j = i") simp_all
    have pin: "ec_pinned (ml_caches ?m ! j) = ec_pinned (ml_caches m ! j)" if "j < length (ml_caches m)" for j
      using same1 that by (simp add: same_layers_def)
    have ap: "all_pinned L ?m j \<longleftrightarrow> all_pinned L m j" if "j < length (ml_caches m)" for j
      by (simp only: le [OF that] pin [OF that])
    have api: "all_pinned L m i" using S None by simp
    have lt: "j < length (ml_caches m)" if "j \<in> set is" for j using Cons.prems(2) that by auto
    show ?thesis
    proof (cases res)
      case N: None
      then have "\<forall>j\<in>set is. all_pinned L m j" using IH ap lt by simp
      moreover have "\<forall>j<length (ml_caches m). layer_entries L m' j = layer_entries L m j"
        using IH N le by simp
      ultimately show ?thesis using IH same api N by simp
    next
      case (Some r)
      then obtain pre l post k where w: "is = pre @ l # post" "\<forall>j\<in>set pre. all_pinned L ?m j"
          "select_victim_id L F (ml_caches ?m ! l) h = Some k" "map_of (layer_entries L ?m l) k = Some r"
          "\<forall>j<length (ml_caches ?m). layer_entries L m' j =
            (if j = l then del_key k (layer_entries L ?m l) else layer_entries L ?m j)"
        using IH by (simp only: option.case) blast
      have l: "l < length (ml_caches m)" using lt w(1) by simp
      have ne: "l \<noteq> i"
      proof
        assume "l = i"
        then have "k \<in> fst ` set (entries L c) \<and> k \<notin> ec_pinned c"
          using w(3) select_victim_Some [of L F c h k] i by simp
        with api unch cf(1) show False by auto
      qed
      have "\<forall>j\<in>set (i # pre). all_pinned L m j" using w(1,2) ap lt api by simp
      moreover have "select_victim_id L F (ml_caches m ! l) h = Some k" using w(3) ne by simp
      moreover have "map_of (layer_entries L m l) k = Some r" using w(4) le l by simp
      moreover have "\<forall>j<length (ml_caches m). layer_entries L m' j =
            (if j = l then del_key k (layer_entries L m l) else layer_entries L m j)"
        using w(5) le l by simp
      ultimately show ?thesis using IH same Some w(1)
        by (simp only: option.case) (metis append_Cons)
    qed
  qed
qed

text \<open>The frame of one layer's operation, and the layers after it.\<close>

lemma set_layer_keeps:
  assumes inv: "ml_inv L m h" and i: "i < length (ml_caches m)" and c: "cache_inv L c h'"
    and f: "ec_pinned c = ec_pinned (ml_caches m ! i)" "ec_capacity c = ec_capacity (ml_caches m ! i)"
      "ec_reserved_slots c = ec_reserved_slots (ml_caches m ! i)"
      "ec_cost_aware c = ec_cost_aware (ml_caches m ! i)"
    and sub: "fst ` set (entries L c) \<subseteq> insert k (fst ` set (layer_entries L m i))"
    and k: "try_layer_idx m k = Some i" and h': "\<And>a. er_id (h' a) = er_id (h a)"
  shows "ml_inv L (set_layer m i c) h' \<and> same_layers m (set_layer m i c)"
proof -
  have "try_layer_idx m x = Some i" if "x \<in> fst ` set (entries L c)" for x
    using that sub k ml_invD(2) [OF inv i] by auto
  then show ?thesis
    using ml_inv_set_layer [OF inv i c f(2) _ h'] same_layers_set [OF i f] by blast
qed

lemma ml_get_spec:
  assumes inv: "ml_inv L m h" and get: "ml_get L F m h eid = (res, m', h')"
  shows "ml_inv L m' h' \<and> same_layers m m' \<and> (\<forall>a. er_id (h' a) = er_id (h a)) \<and>
    (\<forall>i<length (ml_caches m). set (layer_entries L m' i) = set (layer_entries L m i)) \<and>
    res = (case try_layer_idx m eid of None \<Rightarrow> None | Some i \<Rightarrow> map_of (layer_entries L m i) eid)"
proof (cases "try_layer_idx m eid")
  case None
  with get inv show ?thesis by (simp add: ml_get_def same_layers_refl)
next
  case (Some i)
  note i = try_layer_idx_less [OF Some]
  obtain c where g: "cache_get L F (ml_caches m ! i) h eid = (res, c, h')" and m': "m' = set_layer m i c"
    using get Some by (auto simp: ml_get_def split: prod.splits)
  note S = get_spec [OF ml_invD(1) [OF inv i] g]
  have cost: "ec_cost_aware c = ec_cost_aware (ml_caches m ! i)"
    using g by (auto simp: cache_get_def Let_def split: prod.splits option.splits if_splits)
  have touched: "set (touch eid es) = set es" if "distinct (map fst es)" for es :: "(u32 \<times> nat) list"
    using that by (auto simp: touch_def set_del_key split: option.splits dest: eq_key_imp_eq_value)
  have es: "set (entries L c) = set (layer_entries L m i)"
    using S touched cache_invD(5) [OF ml_invD(1) [OF inv i]] by simp
  have "ml_inv L m' h' \<and> same_layers m m'"
    unfolding m' by (rule set_layer_keeps [OF inv i, where k = eid]) (use S cost es Some in auto)
  moreover have "set (layer_entries L m' j) = set (layer_entries L m j)" if "j < length (ml_caches m)" for j
    using es that i by (cases "j = i") (simp_all add: m')
  ultimately show ?thesis using S Some by simp
qed

lemma ml_insert_spec:
  assumes inv: "ml_inv L m h" and ins: "ml_insert L F m h r = (res, m', h')"
  shows "ml_inv L m' h' \<and> same_layers m m' \<and> (\<forall>a. er_id (h' a) = er_id (h a)) \<and>
    (case try_layer_idx m (er_id (h r)) of
       None \<Rightarrow> res = Inl r \<and> m' = m
     | Some i \<Rightarrow> insert_effect (layer_entries L m i) (ml_caches m ! i) (er_id (h r)) r res (layer_entries L m' i) \<and>
         (\<forall>j. j \<noteq> i \<longrightarrow> ml_caches m' ! j = ml_caches m ! j))"
proof (cases "try_layer_idx m (er_id (h r))")
  case None
  with ins inv show ?thesis by (simp add: ml_insert_def same_layers_refl)
next
  case (Some i)
  note i = try_layer_idx_less [OF Some]
  obtain c where g: "insert_resident L F (ml_caches m ! i) h r = (res, c, h')" and m': "m' = set_layer m i c"
    using ins Some by (auto simp: ml_insert_def split: prod.splits)
  note S = insert_spec [OF ml_invD(1) [OF inv i] g]
  have "fst ` set (entries L c) \<subseteq> insert (er_id (h r)) (fst ` set (layer_entries L m i))"
    using S by (auto simp: insert_effect_def set_del_key split: option.splits if_splits)
  then have "ml_inv L m' h' \<and> same_layers m m'"
    unfolding m' by (rule set_layer_keeps [OF inv i, rotated 5]) (use S Some in auto)
  then show ?thesis using S Some i by (simp add: m')
qed

text \<open>What an eviction may do to the layers.\<close>

definition evicts_only :: "'c multi_layer \<Rightarrow> 'c multi_layer \<Rightarrow> bool" where
  "evicts_only m m' \<longleftrightarrow> (\<forall>i<length (ml_caches m).
     fst ` set (layer_entries L m' i) \<subseteq> fst ` set (layer_entries L m i) \<and>
     fst ` set (layer_entries L m i) \<inter> ec_pinned (ml_caches m ! i) \<subseteq> fst ` set (layer_entries L m' i))"

lemma ml_evict_lru_spec:
  assumes inv: "ml_inv L m h" and ev: "ml_evict_lru L F m h = (res, m')"
  shows "ml_inv L m' h \<and> same_layers m m' \<and>
    (case res of
       None \<Rightarrow> (\<forall>i<length (ml_caches m). all_pinned L m i) \<and>
         (\<forall>j<length (ml_caches m). layer_entries L m' j = layer_entries L m j)
     | Some r \<Rightarrow> \<exists>start pre i post k.
         first_longest (map (cache_len L) (ml_caches m)) (Some (start, cache_len L (ml_caches m ! start))) \<and>
         cyclic_order start (length (ml_caches m)) = pre @ i # post \<and> (\<forall>j\<in>set pre. all_pinned L m j) \<and>
         select_victim_id L F (ml_caches m ! i) h = Some k \<and> map_of (layer_entries L m i) k = Some r \<and>
         (\<forall>j<length (ml_caches m). layer_entries L m' j =
            (if j = i then del_key k (layer_entries L m i) else layer_entries L m j)))"
proof -
  let ?lens = "map (cache_len L) (ml_caches m)" and ?n = "length (ml_caches m)"
  note H = heaviest_first_longest [of ?lens]
  show ?thesis
  proof (cases "heaviest 0 None ?lens")
    case None
    have "all_pinned L m i" if i: "i < ?n" for i
    proof -
      have "cache_len L (ml_caches m ! i) = 0" using H None i by simp
      then show ?thesis
        using cache_invD(7) [OF ml_invD(1) [OF inv i]] by (simp add: cache_len_def)
    qed
    with None ev inv show ?thesis by (auto simp: ml_evict_lru_def same_layers_refl)
  next
    case (Some p)
    obtain start n where p: "p = (start, n)" by (cases p)
    have s: "start < ?n" "n = cache_len L (ml_caches m ! start)" using H Some p by auto
    have ev': "evict_layers L F h (cyclic_order start ?n) m = (res, m')"
      using ev Some p by (simp add: ml_evict_lru_def)
    note S = evict_layers_spec [OF inv _ ev'] and C = set_cyclic_order [OF s(1)]
    show ?thesis
    proof (cases res)
      case None
      with S C show ?thesis by (auto simp del: first_longest.simps)
    next
      case r: (Some r)
      have "first_longest ?lens (Some (start, cache_len L (ml_caches m ! start)))"
        using H unfolding Some p s(2) .
      with S C r show ?thesis by (simp only: option.case order_refl simp_thms) blast
    qed
  qed
qed

lemma ml_evicts_only:
  assumes inv: "ml_inv L m h" and ev: "ml_evict_lru L F m h = (res, m')"
  shows "evicts_only m m'"
proof (cases res)
  case None
  with ml_evict_lru_spec [OF assms] show ?thesis by (simp add: evicts_only_def)
next
  case (Some r)
  then obtain i k where "select_victim_id L F (ml_caches m ! i) h = Some k"
      "\<forall>j<length (ml_caches m). layer_entries L m' j =
         (if j = i then del_key k (layer_entries L m i) else layer_entries L m j)"
    using ml_evict_lru_spec [OF assms] by (simp only: option.case) blast
  with select_victim_Some [OF this(1)] show ?thesis
    by (auto simp: evicts_only_def fst_del_key)
qed

lemma evicts_only_trans:
  assumes "evicts_only a b" "same_layers a b" "evicts_only b c"
  shows "evicts_only a c"
proof -
  have *: "C \<subseteq> A \<and> A \<inter> P \<subseteq> C" if "B \<subseteq> A \<and> A \<inter> P \<subseteq> B" "C \<subseteq> B \<and> B \<inter> P \<subseteq> C" for A B C P :: "u32 set"
    using that by blast
  show ?thesis unfolding evicts_only_def
  proof (intro allI impI)
    fix i assume i: "i < length (ml_caches a)"
    show "fst ` set (layer_entries L c i) \<subseteq> fst ` set (layer_entries L a i) \<and>
        fst ` set (layer_entries L a i) \<inter> ec_pinned (ml_caches a ! i) \<subseteq> fst ` set (layer_entries L c i)"
      by (rule * [where B = "fst ` set (layer_entries L b i)"])
        (use assms i in \<open>simp_all add: evicts_only_def same_layers_def\<close>)
  qed
qed

lemma evict_shadow_layers_spec:
  assumes "ml_inv L m h" "set is \<subseteq> {..<length (ml_caches m)}" "evict_shadow_layers L h is m = (res, m')"
  shows "ml_inv L m' h \<and> same_layers m m' \<and> evicts_only m m'"
  using assms
proof (induction "is" arbitrary: m)
  case Nil
  then show ?case by (auto simp: same_layers_refl evicts_only_def)
next
  case (Cons i "is")
  have i: "i < length (ml_caches m)" using Cons.prems(2) by simp
  let ?c = "ml_caches m ! i"
  note ci = ml_invD(1) [OF Cons.prems(1) i]
  obtain e c where ev: "evict_lru_shadow_backed L ?c h = (e, c)" by fastforce
  note S = evict_shadow_spec [OF ci ev]
  have sub: "fst ` set (entries L c) \<subseteq> fst ` set (layer_entries L m i)"
      "fst ` set (layer_entries L m i) \<inter> ec_pinned ?c \<subseteq> fst ` set (entries L c)"
    using S evict_effect_keeps by (auto simp: evict_effect_def set_del_key)
  have cf: "ec_pinned c = ec_pinned ?c" "ec_capacity c = ec_capacity ?c"
      "ec_reserved_slots c = ec_reserved_slots ?c" "ec_cost_aware c = ec_cost_aware ?c"
    using S by (metis expert_cache.select_convs expert_cache.surjective expert_cache.update_convs(1))+
  have inv1: "ml_inv L (set_layer m i c) h"
    using ml_inv_set_layer [OF Cons.prems(1) i] S cf(2) sub(1) ml_invD(2) [OF Cons.prems(1) i] by blast
  have same1: "same_layers m (set_layer m i c)" by (rule same_layers_set [OF i cf])
  have only1: "evicts_only m (set_layer m i c)"
    unfolding evicts_only_def
  proof (intro allI impI)
    fix j assume "j < length (ml_caches m)"
    then show "fst ` set (layer_entries L (set_layer m i c) j) \<subseteq> fst ` set (layer_entries L m j) \<and>
        fst ` set (layer_entries L m j) \<inter> ec_pinned (ml_caches m ! j) \<subseteq> fst ` set (layer_entries L (set_layer m i c) j)"
      using sub i by (cases "j = i") simp_all
  qed
  show ?case
  proof (cases e)
    case (Some r)
    then show ?thesis using Cons.prems(3) ev inv1 same1 only1 by auto
  next
    case None
    have "evict_shadow_layers L h is (set_layer m i c) = (res, m')" using Cons.prems(3) ev None by simp
    moreover have "set is \<subseteq> {..<length (ml_caches (set_layer m i c))}" using Cons.prems(2) by simp
    ultimately have IH: "ml_inv L m' h \<and> same_layers (set_layer m i c) m' \<and> evicts_only (set_layer m i c) m'"
      using Cons.IH [OF inv1] by blast
    then have "evicts_only m m'" using evicts_only_trans [OF only1 same1] by blast
    with IH same1 show ?thesis using same_layers_trans by blast
  qed
qed

lemma ml_evict_shadow_spec:
  assumes "ml_inv L m h" "ml_evict_lru_shadow_backed L m h = (res, m')"
  shows "ml_inv L m' h \<and> same_layers m m' \<and> evicts_only m m'"
proof -
  let ?is = "sort_key (\<lambda>i. - int (map (cache_len L) (ml_caches m) ! i)) [0..<length (ml_caches m)]"
  have "set ?is \<subseteq> {..<length (ml_caches m)}" by auto
  moreover have "evict_shadow_layers L h ?is m = (res, m')"
    using assms(2) by (simp add: ml_evict_lru_shadow_backed_def)
  ultimately show ?thesis using evict_shadow_layers_spec [OF assms(1)] by blast
qed

lemma new_layers_inv:
  "new_layers L caps = Return cs \<Longrightarrow> \<forall>n\<in>set caps. n \<le> usize_MAX \<Longrightarrow>
    length cs = length caps \<and> map ec_capacity cs = caps \<and>
    (\<forall>c\<in>set cs. cache_inv L c h \<and> entries L c = [] \<and> ec_reserved_slots c = 0)"
proof (induction caps arbitrary: cs)
  case (Cons n caps)
  then obtain c ds where d: "cache_new L n = Return c" "new_layers L caps = Return ds" "cs = c # ds"
    by (auto simp: obind_Return_iff)
  have "ec_capacity c = n" using d(1) by (auto simp: cache_new_def split: if_splits)
  with Cons.IH [OF d(2)] Cons.prems(2) d new_inv [OF d(1)] show ?case by auto
qed simp

lemma with_capacities_inv:
  assumes "with_capacities L caps stride = Return m" "sum_list caps \<le> usize_MAX"
  shows "ml_inv L m h" "map ec_capacity (ml_caches m) = caps" "ml_reserved_slots m = 0"
    "\<forall>c\<in>set (ml_caches m). ec_reserved_slots c = 0"
proof -
  obtain cs where cs: "new_layers L caps = Return cs" "m = \<lparr>ml_caches = cs, ml_experts_per_layer = stride\<rparr>"
      "caps \<noteq> []"
    using assms(1) by (auto simp: with_capacities_def obind_Return_iff split: if_splits)
  have "\<forall>n\<in>set caps. n \<le> usize_MAX"
    using assms(2) member_le_sum_list order_trans by blast
  note N = new_layers_inv [OF cs(1) this, of h]
  show "map ec_capacity (ml_caches m) = caps" using N by (simp add: cs)
  show z: "\<forall>c\<in>set (ml_caches m). ec_reserved_slots c = 0" using N by (simp add: cs)
  then show "ml_reserved_slots m = 0" by (simp add: ml_reserved_slots_def)
  show "ml_inv L m h" using N assms(2) cs(3)
    by (auto simp: ml_inv_def cs ml_capacity_def dest: nth_mem)
qed

end

end
