(* ===== verification/DemandPlan.thy ===== *)
theory DemandPlan
  imports MultiLayer
begin

section \<open>Exact demand reservation across layers\<close>

text \<open>
  Model of the batched demand path of \<open>multi_layer_cache.rs\<close>. \<open>try_reserve_exact_demand\<close> replays, on
  virtual layers, what fetching the requested experts one after the other would do to the caches
  (\<open>plan_sequential_victims\<close>), removes the victims of that plan and reserves the final positions;
  \<open>commit\<close> then installs the experts as their reads complete. The sequential path it must agree
  with is the cache part of \<open>fetch_once\<close> of \<open>engine.rs\<close>. Every call holds all the locks it
  touches, so it is one atomic step.
\<close>

subsection \<open>The planner\<close>

datatype virtual_cache_entry =
    Resident (ve_id: u32) (ve_pinned: bool)
  | OutstandingReservation
  | Requested (ve_id: u32) (ve_request_index: usize) (ve_pinned: bool)

fun entry_pinned :: "virtual_cache_entry \<Rightarrow> bool" where
  "entry_pinned (Resident _ pinned) = pinned"
| "entry_pinned (Requested _ _ pinned) = pinned"
| "entry_pinned OutstandingReservation = False"

fun rposition :: "('a \<Rightarrow> bool) \<Rightarrow> 'a list \<Rightarrow> usize option" where
  "rposition P [] = None"
| "rposition P (x # xs) =
     (case rposition P xs of Some i \<Rightarrow> Some (Suc i) | None \<Rightarrow> if P x then Some 0 else None)"

definition vec_remove :: "'a list \<Rightarrow> usize \<Rightarrow> 'a list" where
  "vec_remove xs i = take i xs @ drop (Suc i) xs"

record plan_state =
  ps_layers :: "virtual_cache_entry list list"
  ps_total :: usize
  ps_eviction_ids :: "u32 list"
  ps_resident_victims :: "(usize \<times> u32) list"
  ps_final_layers :: "usize option list"

record sequential_victim_plan =
  svp_eviction_ids :: "u32 list"
  svp_resident_victims :: "(usize \<times> u32) list"
  svp_request_final_layers :: "usize option list"
  svp_final_layer_lengths :: "usize list"

definition remove_victim ::
    "usize \<Rightarrow> plan_state \<Rightarrow> expert_cache_reservation_error + bool \<times> plan_state" where
  "remove_victim layer st =
     (case rposition (\<lambda>e. \<not> entry_pinned e) (ps_layers st ! layer) of
        None \<Rightarrow> Inr (False, st)
      | Some index \<Rightarrow>
          let st' = st\<lparr>ps_layers := (ps_layers st)[layer := vec_remove (ps_layers st ! layer) index]\<rparr> in
          case ps_layers st ! layer ! index of
            Resident eid _ \<Rightarrow>
              Inr (True, st'\<lparr>ps_eviction_ids := vec_push (ps_eviction_ids st) eid,
                            ps_resident_victims := vec_push (ps_resident_victims st) (layer, eid)\<rparr>)
          | Requested eid request_index _ \<Rightarrow>
              Inr (True, st'\<lparr>ps_eviction_ids := vec_push (ps_eviction_ids st) eid,
                            ps_final_layers := (ps_final_layers st)[request_index := None]\<rparr>)
          | OutstandingReservation \<Rightarrow> Inl ConcurrentReservationConflict)"

fun remove_any :: "usize list \<Rightarrow> plan_state \<Rightarrow> expert_cache_reservation_error + plan_state" where
  "remove_any [] st = Inl VictimUnavailable"
| "remove_any (layer # layers) st =
     (case remove_victim layer st of
        Inl e \<Rightarrow> Inl e
      | Inr (True, st') \<Rightarrow> Inr (st'\<lparr>ps_total := ps_total st' - 1\<rparr>)
      | Inr (False, st') \<Rightarrow> remove_any layers st')"

definition aggregate_room ::
    "usize list \<Rightarrow> plan_state \<Rightarrow> expert_cache_reservation_error + plan_state" where
  "aggregate_room capacities st =
     (if ps_total st \<ge> sum_list capacities
      then case heaviest 0 None (map length (ps_layers st)) of
             None \<Rightarrow> Inl VictimUnavailable
           | Some (start, _) \<Rightarrow> remove_any (cyclic_order start (length (ps_layers st))) st
      else Inr st)"

definition layer_room ::
    "usize list \<Rightarrow> usize \<Rightarrow> plan_state \<Rightarrow> expert_cache_reservation_error + plan_state" where
  "layer_room capacities target st =
     (if length (ps_layers st ! target) \<ge> capacities ! target
      then case remove_victim target st of
             Inl e \<Rightarrow> Inl e
           | Inr (False, _) \<Rightarrow> Inl VictimUnavailable
           | Inr (True, st') \<Rightarrow> Inr (st'\<lparr>ps_total := ps_total st' - 1\<rparr>)
      else Inr st)"

fun plan_requests ::
    "usize list \<Rightarrow> usize \<Rightarrow> (u32 \<times> usize \<times> bool) list \<Rightarrow> plan_state \<Rightarrow>
     expert_cache_reservation_error + plan_state" where
  "plan_requests capacities j [] st = Inr st"
| "plan_requests capacities j ((eid, target, pinned) # requests) st =
     (case aggregate_room capacities st of
        Inl e \<Rightarrow> Inl e
      | Inr st \<Rightarrow>
          case layer_room capacities target st of
            Inl e \<Rightarrow> Inl e
          | Inr st \<Rightarrow>
              plan_requests capacities (Suc j) requests
                (st\<lparr>ps_layers := (ps_layers st)[target := Requested eid j pinned # ps_layers st ! target],
                    ps_total := ps_total st + 1\<rparr>))"

definition plan_start :: "virtual_cache_entry list list \<Rightarrow> (u32 \<times> usize \<times> bool) list \<Rightarrow> plan_state" where
  "plan_start layers requested =
     \<lparr>ps_layers = layers, ps_total = sum_list (map length layers), ps_eviction_ids = [],
      ps_resident_victims = [], ps_final_layers = map (\<lambda>(_, layer, _). Some layer) requested\<rparr>"

definition plan_sequential_victims ::
    "virtual_cache_entry list list \<Rightarrow> usize list \<Rightarrow> (u32 \<times> usize \<times> bool) list \<Rightarrow>
     expert_cache_reservation_error + sequential_victim_plan" where
  "plan_sequential_victims layers capacities requested =
     (case plan_requests capacities 0 requested (plan_start layers requested) of
        Inl e \<Rightarrow> Inl e
      | Inr st \<Rightarrow> Inr \<lparr>svp_eviction_ids = ps_eviction_ids st,
                       svp_resident_victims = ps_resident_victims st,
                       svp_request_final_layers = ps_final_layers st,
                       svp_final_layer_lengths = map length (ps_layers st)\<rparr>)"

subsection \<open>Reservation, commit and release\<close>

record demand_reservation =
  dr_layers :: "usize option list"
  dr_requests :: "(u32 \<times> usize option) list"
  dr_next_request :: usize

record reservation_outcome =
  ro_reservation :: demand_reservation
  ro_eviction_ids :: "u32 list"
  ro_victims :: "nat list"

fun scan_requests ::
    "'c multi_layer \<Rightarrow> u32 list \<Rightarrow> usize list \<Rightarrow> usize list \<Rightarrow> u32 list \<Rightarrow>
     expert_cache_reservation_error + usize list" where
  "scan_requests m seen per_layer request_layers [] = Inr request_layers"
| "scan_requests m seen per_layer request_layers (eid # ids) =
     (if eid \<in> set seen then Inl DuplicateExpertId
      else case try_layer_idx m eid of
        None \<Rightarrow> Inl InvalidExpertId
      | Some layer \<Rightarrow>
          let per_layer = per_layer[layer := per_layer ! layer + 1] in
          if per_layer ! layer > ec_capacity (ml_caches m ! layer) then Inl Capacity
          else scan_requests m (eid # seen) per_layer (vec_push request_layers layer) ids)"

definition virtual_layer :: "('c, nat) lru_ops \<Rightarrow> 'c expert_cache \<Rightarrow> virtual_cache_entry list" where
  "virtual_layer L c =
     replicate (ec_reserved_slots c) OutstandingReservation @
     map (\<lambda>(eid, _). Resident eid (eid \<in> ec_pinned c)) (lru_iter L (ec_inner c))"

fun pop_victims ::
    "('c, nat) lru_ops \<Rightarrow> (usize \<times> u32) list \<Rightarrow> 'c multi_layer \<Rightarrow> (nat list \<times> 'c multi_layer) outcome" where
  "pop_victims L [] m = Return ([], m)"
| "pop_victims L ((layer, eid) # victims) m =
     (case lru_pop L (ec_inner (ml_caches m ! layer)) eid of
        (None, inner) \<Rightarrow> Panic
      | (Some r, inner) \<Rightarrow>
          obind (pop_victims L victims (set_layer m layer ((ml_caches m ! layer)\<lparr>ec_inner := inner\<rparr>)))
            (\<lambda>(rs, m'). Return (r # rs, m')))"

definition final_reservations :: "usize \<Rightarrow> usize option list \<Rightarrow> usize list" where
  "final_reservations n finals = map (\<lambda>i. length (filter (\<lambda>f. f = Some i) finals)) [0..<n]"

definition reserve_layers :: "'c multi_layer \<Rightarrow> usize list \<Rightarrow> usize option list \<times> 'c multi_layer" where
  "reserve_layers m counts =
     (map (\<lambda>n. if n > 0 then Some n else None) counts,
      m\<lparr>ml_caches := map2 (\<lambda>c n. if n > 0 then snd (reservation_new c n) else c) (ml_caches m) counts\<rparr>)"

definition try_reserve_exact_demand ::
    "('c, nat) lru_ops \<Rightarrow> 'c multi_layer \<Rightarrow> u32 list \<Rightarrow>
     ((expert_cache_reservation_error + reservation_outcome) \<times> 'c multi_layer) outcome" where
  "try_reserve_exact_demand L m global_ids =
     (case scan_requests m [] (replicate (length (ml_caches m)) 0) [] global_ids of
        Inl e \<Rightarrow> Return (Inl e, m)
      | Inr request_layers \<Rightarrow>
          if \<exists>c\<in>set (ml_caches m). ec_cost_aware c then Return (Inl CostAwarePolicy, m)
          else
            let virtual_layers = map (virtual_layer L) (ml_caches m);
                requested = map (\<lambda>(eid, layer). (eid, layer, eid \<in> ec_pinned (ml_caches m ! layer)))
                              (zip global_ids request_layers);
                capacities = map ec_capacity (ml_caches m)
            in case plan_sequential_victims virtual_layers capacities requested of
                 Inl e \<Rightarrow> Return (Inl e, m)
               | Inr plan \<Rightarrow>
                   obind (pop_victims L (svp_resident_victims plan) m) (\<lambda>(victims, m).
                     let (layers, m) =
                           reserve_layers m
                             (final_reservations (length (ml_caches m)) (svp_request_final_layers plan))
                     in Return (Inr \<lparr>ro_reservation =
                            \<lparr>dr_layers = layers,
                             dr_requests = zip global_ids (svp_request_final_layers plan),
                             dr_next_request = 0\<rparr>,
                          ro_eviction_ids = svp_eviction_ids plan, ro_victims = victims\<rparr>, m)))"

definition remaining :: "demand_reservation \<Rightarrow> usize" where
  "remaining d = sum_list (map (\<lambda>r. case r of None \<Rightarrow> 0 | Some n \<Rightarrow> n) (dr_layers d))"

definition demand_commit ::
    "('c, nat) lru_ops \<Rightarrow> demand_reservation \<Rightarrow> 'c multi_layer \<Rightarrow> 'h store \<Rightarrow> nat \<Rightarrow>
     (nat + bool) \<times> demand_reservation \<times> 'c multi_layer" where
  "demand_commit L d m h r =
     (if length (dr_requests d) \<le> dr_next_request d then (Inl r, d, m)
      else case dr_requests d ! dr_next_request d of (expected_id, final_layer) \<Rightarrow>
        if er_id (h r) \<noteq> expected_id then (Inl r, d, m)
        else case final_layer of
          None \<Rightarrow> (Inr False, d\<lparr>dr_next_request := dr_next_request d + 1\<rparr>, m)
        | Some layer \<Rightarrow>
            (if layer < length (dr_layers d)
             then case dr_layers d ! layer of
               None \<Rightarrow> (Inl r, d, m)
             | Some n \<Rightarrow>
                 (case reservation_commit L n (ml_caches m ! layer) h r of
                    (Inl r', n', c) \<Rightarrow>
                      (Inl r', d\<lparr>dr_layers := (dr_layers d)[layer := Some n']\<rparr>, set_layer m layer c)
                  | (Inr _, n', c) \<Rightarrow>
                      (Inr True, d\<lparr>dr_layers := (dr_layers d)[layer := Some n'],
                                   dr_next_request := dr_next_request d + 1\<rparr>, set_layer m layer c))
             else (Inl r, d, m)))"

text \<open>Dropping the guard drops the reservation of each layer.\<close>

definition demand_drop :: "demand_reservation \<Rightarrow> 'c multi_layer \<Rightarrow> 'c multi_layer" where
  "demand_drop d m =
     m\<lparr>ml_caches := map2 (\<lambda>c r. case r of None \<Rightarrow> c | Some n \<Rightarrow> reservation_drop n c)
                     (ml_caches m) (dr_layers d)\<rparr>"

subsection \<open>The sequential path\<close>

text \<open>The cache part of one \<open>fetch_once\<close> whose read succeeds: before the read a full cache
  evicts, after it the expert is inserted. The result lists the experts evicted, in order; a
  rejected insertion hands the resident to the caller uncached.\<close>

definition fetch_make_room ::
    "('c, nat) lru_ops \<Rightarrow> 'h f64_ops \<Rightarrow> 'c multi_layer \<Rightarrow> 'h store \<Rightarrow> nat option \<times> 'c multi_layer" where
  "fetch_make_room L F m h = (if ml_len L m \<ge> ml_capacity m then ml_evict_lru L F m h else (None, m))"

definition fetch_once ::
    "('c, nat) lru_ops \<Rightarrow> 'h f64_ops \<Rightarrow> 'c multi_layer \<Rightarrow> 'h store \<Rightarrow> nat \<Rightarrow>
     nat list \<times> 'c multi_layer \<times> 'h store" where
  "fetch_once L F m h r =
     (let (pre, m) = fetch_make_room L F m h;
          (res, m, h) = ml_insert L F m h r
      in ((case pre of Some v \<Rightarrow> [v] | None \<Rightarrow> []) @
          (case res of Inr (Some v) \<Rightarrow> [v] | _ \<Rightarrow> []), m, h))"

fun fetch_sequence ::
    "('c, nat) lru_ops \<Rightarrow> 'h f64_ops \<Rightarrow> 'c multi_layer \<Rightarrow> 'h store \<Rightarrow> nat list \<Rightarrow>
     nat list \<times> 'c multi_layer \<times> 'h store" where
  "fetch_sequence L F m h [] = ([], m, h)"
| "fetch_sequence L F m h (r # rs) =
     (let (vs, m, h) = fetch_once L F m h r;
          (ws, m, h) = fetch_sequence L F m h rs
      in (vs @ ws, m, h))"

fun commit_all ::
    "('c, nat) lru_ops \<Rightarrow> demand_reservation \<Rightarrow> 'c multi_layer \<Rightarrow> 'h store \<Rightarrow> nat list \<Rightarrow>
     (nat + bool) list \<times> demand_reservation \<times> 'c multi_layer" where
  "commit_all L d m h [] = ([], d, m)"
| "commit_all L d m h (r # rs) =
     (let (x, d, m) = demand_commit L d m h r;
          (xs, d, m) = commit_all L d m h rs
      in (x # xs, d, m))"

subsection \<open>The state of a plan\<close>

lemma rposition_None: "rposition P xs = None \<longleftrightarrow> (\<forall>x\<in>set xs. \<not> P x)"
  by (induction xs) (auto split: option.splits)

lemma rposition_Some:
  "rposition P xs = Some i \<Longrightarrow>
    \<exists>ys e zs. xs = ys @ e # zs \<and> length ys = i \<and> P e \<and> (\<forall>z\<in>set zs. \<not> P z)"
proof (induction xs arbitrary: i)
  case (Cons x xs)
  show ?case
  proof (cases "rposition P xs")
    case None
    with Cons.prems show ?thesis
      by (intro exI [of _ "[]"] exI [of _ x] exI [of _ xs]) (auto simp: rposition_None split: if_splits)
  next
    case (Some i')
    from Cons.IH [OF this] obtain ys e zs
      where w: "xs = ys @ e # zs" "length ys = i'" "P e" "\<forall>z\<in>set zs. \<not> P z" by blast
    with Some Cons.prems show ?thesis
      by (intro exI [of _ "x # ys"] exI [of _ e] exI [of _ zs]) simp
  qed
qed simp

text \<open>
  The planner's input: \<open>n\<close> layers, the entries \<open>es i\<close> of each, its pins \<open>P i\<close> and outstanding
  reservations \<open>R i\<close>; the requested experts are distinct and not resident.
\<close>

definition plan_input ::
    "usize \<Rightarrow> (u32 \<times> usize \<times> bool) list \<Rightarrow> (usize \<Rightarrow> (u32 \<times> nat) list) \<Rightarrow> (usize \<Rightarrow> u32 set) \<Rightarrow> bool" where
  "plan_input n reqs es P \<longleftrightarrow> distinct (map fst reqs) \<and>
     (\<forall>j<length reqs. fst (snd (reqs ! j)) < n \<and>
        (snd (snd (reqs ! j)) \<longleftrightarrow> fst (reqs ! j) \<in> P (fst (snd (reqs ! j)))) \<and>
        (\<forall>i<n. fst (reqs ! j) \<notin> fst ` set (es i))) \<and>
     (\<forall>i<n. distinct (map fst (es i)))"

text \<open>The requests below \<open>k\<close> that end in layer \<open>i\<close>, latest first, and the residents not evicted.\<close>

definition staying :: "usize option list \<Rightarrow> usize \<Rightarrow> usize \<Rightarrow> usize list" where
  "staying finals k i = rev (filter (\<lambda>j. finals ! j = Some i) [0..<k])"

definition kept :: "(usize \<times> u32) list \<Rightarrow> usize \<Rightarrow> (u32 \<times> nat) list \<Rightarrow> (u32 \<times> nat) list" where
  "kept victims i es = filter (\<lambda>e. (i, fst e) \<notin> set victims) es"

text \<open>Layer \<open>i\<close> in the plan, and the cache entries it stands for (\<open>rs\<close> are the residents read).\<close>

definition planned_layer ::
    "(u32 \<times> usize \<times> bool) list \<Rightarrow> (usize \<Rightarrow> (u32 \<times> nat) list) \<Rightarrow> (usize \<Rightarrow> u32 set) \<Rightarrow> (usize \<Rightarrow> usize) \<Rightarrow>
     usize \<Rightarrow> plan_state \<Rightarrow> usize \<Rightarrow> virtual_cache_entry list" where
  "planned_layer reqs es P R k st i =
     map (\<lambda>j. Requested (fst (reqs ! j)) j (snd (snd (reqs ! j)))) (staying (ps_final_layers st) k i) @
     replicate (R i) OutstandingReservation @
     map (\<lambda>e. Resident (fst e) (fst e \<in> P i)) (kept (ps_resident_victims st) i (es i))"

definition planned_entries ::
    "(u32 \<times> usize \<times> bool) list \<Rightarrow> nat list \<Rightarrow> (usize \<Rightarrow> (u32 \<times> nat) list) \<Rightarrow> usize \<Rightarrow> usize option list \<Rightarrow>
     (usize \<times> u32) list \<Rightarrow> usize \<Rightarrow> (u32 \<times> nat) list" where
  "planned_entries reqs rs es k finals victims i =
     map (\<lambda>j. (fst (reqs ! j), rs ! j)) (staying finals k i) @ kept victims i (es i)"

definition plan_inv ::
    "usize list \<Rightarrow> (u32 \<times> usize \<times> bool) list \<Rightarrow> (usize \<Rightarrow> (u32 \<times> nat) list) \<Rightarrow> (usize \<Rightarrow> u32 set) \<Rightarrow>
     (usize \<Rightarrow> usize) \<Rightarrow> usize \<Rightarrow> plan_state \<Rightarrow> bool" where
  "plan_inv caps reqs es P R k st \<longleftrightarrow> length (ps_layers st) = length caps \<and>
     length (ps_final_layers st) = length reqs \<and> k \<le> length reqs \<and>
     (\<forall>i<length caps. ps_layers st ! i = planned_layer reqs es P R k st i \<and>
        length (ps_layers st ! i) \<le> caps ! i) \<and>
     distinct (ps_resident_victims st) \<and>
     (\<forall>(i, v)\<in>set (ps_resident_victims st). i < length caps \<and> v \<in> fst ` set (es i) \<and> v \<notin> P i) \<and>
     (\<forall>j<length reqs. ps_final_layers st ! j = Some (fst (snd (reqs ! j))) \<or>
        j < k \<and> ps_final_layers st ! j = None)"

lemma set_staying: "set (staying finals k i) = {j. j < k \<and> finals ! j = Some i}"
  by (auto simp: staying_def)

lemma distinct_staying: "distinct (staying finals k i)"
  by (simp add: staying_def)

lemma staying_drop:
  assumes "j < length finals"
  shows "staying (finals[j := None]) k i = filter (\<lambda>x. x \<noteq> j) (staying finals k i)"
  using assms
  by (auto simp: staying_def rev_filter filter_filter nth_list_update intro!: filter_cong arg_cong [of _ _ rev])

lemma kept_push:
  "kept (vec_push victims (l, v)) i es = (if i = l then del_key v (kept victims i es) else kept victims i es)"
  by (auto simp: kept_def vec_push_def del_key_def filter_filter intro!: filter_cong)

lemma kept_subset: "set (kept victims i es) \<subseteq> set es"
  by (auto simp: kept_def)

lemma plan_inputD:
  assumes "plan_input n reqs es P"
  shows "j < length reqs \<Longrightarrow> j' < length reqs \<Longrightarrow> fst (reqs ! j) = fst (reqs ! j') \<longleftrightarrow> j = j'"
    "j < length reqs \<Longrightarrow> fst (snd (reqs ! j)) < n"
    "j < length reqs \<Longrightarrow> snd (snd (reqs ! j)) \<longleftrightarrow> fst (reqs ! j) \<in> P (fst (snd (reqs ! j)))"
    "j < length reqs \<Longrightarrow> i < n \<Longrightarrow> fst (reqs ! j) \<notin> fst ` set (es i)"
    "i < n \<Longrightarrow> distinct (map fst (es i))"
  using assms nth_eq_iff_index_eq [of "map fst reqs" j j'] by (auto simp: plan_input_def)

lemma distinct_planned_keys:
  assumes inp: "plan_input n reqs es P" and k: "k \<le> length reqs" and i: "i < n"
  shows "distinct (map fst (planned_entries reqs rs es k finals victims i))"
proof -
  have "distinct (map (\<lambda>j. fst (reqs ! j)) (staying finals k i))"
    using plan_inputD(1) [OF inp] k distinct_staying
    by (auto simp: distinct_map inj_on_def set_staying)
  moreover have "distinct (map fst (kept victims i (es i)))"
    using plan_inputD(5) [OF inp i] by (simp add: kept_def distinct_map_filter)
  moreover have "fst (reqs ! j) \<notin> fst ` set (kept victims i (es i))" if "j < k" for j
    using plan_inputD(4) [OF inp _ i, of j] kept_subset [of victims i "es i"] k that by auto
  ultimately show ?thesis
    by (auto simp: planned_entries_def set_staying comp_def)
qed

text \<open>Removing one entry of a layer is deleting its expert.\<close>

lemma remove_once:
  assumes "xs = ys @ e # zs" "distinct (filter (\<lambda>x. x \<noteq> d) xs)" "e \<noteq> d"
  shows "ys @ zs = filter (\<lambda>x. x \<noteq> e) xs"
proof -
  have "e \<notin> set ys" "e \<notin> set zs" using assms by auto
  then have "filter (\<lambda>x. x \<noteq> e) ys = ys" "filter (\<lambda>x. x \<noteq> e) zs = zs" by (auto simp: filter_id_conv)
  then show ?thesis using assms(1) by simp
qed

lemma planned_layer_distinct:
  assumes inp: "plan_input n reqs es P" and i: "i < n"
  shows "distinct (filter (\<lambda>x. x \<noteq> OutstandingReservation) (planned_layer reqs es P R k st i))"
proof -
  have "distinct (map (\<lambda>e. Resident (fst e) (fst e \<in> P i)) (kept (ps_resident_victims st) i (es i)))"
    using plan_inputD(5) [OF inp i] kept_subset
    by (auto simp: distinct_map inj_on_def kept_def)
  moreover have "distinct (map (\<lambda>j. Requested (fst (reqs ! j)) j (snd (snd (reqs ! j)))) (staying (ps_final_layers st) k i))"
    by (simp add: distinct_map inj_on_def distinct_staying)
  ultimately show ?thesis
    by (auto simp: planned_layer_def filter_map comp_def filter_replicate distinct_filter)
qed

lemma planned_keys:
  "map fst (planned_entries reqs rs es k (ps_final_layers st) (ps_resident_victims st) i) =
   map ve_id (filter (\<lambda>x. x \<noteq> OutstandingReservation) (planned_layer reqs es P R k st i))"
  by (simp add: planned_entries_def planned_layer_def filter_map comp_def filter_replicate)

lemma plan_invD:
  assumes "plan_inv caps reqs es P R k st"
  shows "length (ps_layers st) = length caps" "length (ps_final_layers st) = length reqs"
    "k \<le> length reqs" "i < length caps \<Longrightarrow> ps_layers st ! i = planned_layer reqs es P R k st i"
    "i < length caps \<Longrightarrow> length (ps_layers st ! i) \<le> caps ! i"
    "distinct (ps_resident_victims st)"
    "(i, v) \<in> set (ps_resident_victims st) \<Longrightarrow> i < length caps \<and> v \<in> fst ` set (es i) \<and> v \<notin> P i"
    "j < length reqs \<Longrightarrow> ps_final_layers st ! j = Some (fst (snd (reqs ! j))) \<or>
       j < k \<and> ps_final_layers st ! j = None"
  using assms by (auto simp: plan_inv_def)

lemma planned_pinned:
  assumes inp: "plan_input (length caps) reqs es P" and inv: "plan_inv caps reqs es P R k st"
    and e: "e \<in> set (planned_layer reqs es P R k st i)" "e \<noteq> OutstandingReservation"
  shows "entry_pinned e \<longleftrightarrow> ve_id e \<in> P i"
proof (cases e)
  case (Requested v j p)
  then have j: "e = Requested (fst (reqs ! j)) j (snd (snd (reqs ! j)))" "j < k" "ps_final_layers st ! j = Some i"
    using e(1) by (auto simp: planned_layer_def set_staying)
  then have l: "j < length reqs" using plan_invD(3) [OF inv] by simp
  with plan_invD(8) [OF inv l] j(3) have "fst (snd (reqs ! j)) = i" by auto
  with plan_inputD(3) [OF inp l] j(1) show ?thesis by simp
qed (use e in \<open>auto simp: planned_layer_def\<close>)

text \<open>The state after the removal of one entry, by the kind of entry.\<close>

lemma planned_after_request:
  assumes j: "j < length (ps_final_layers st)" "ps_final_layers st ! j = Some i"
    and inp: "plan_input n reqs es P" and k: "k \<le> length reqs" "j < k" and l: "l < n"
    and st': "ps_final_layers st' = (ps_final_layers st)[j := None]" "ps_resident_victims st' = ps_resident_victims st"
  shows "planned_layer reqs es P R k st' l =
      (if l = i then filter (\<lambda>x. x \<noteq> Requested (fst (reqs ! j)) j (snd (snd (reqs ! j)))) (planned_layer reqs es P R k st i)
       else planned_layer reqs es P R k st l)"
    "planned_entries reqs rs es k (ps_final_layers st') (ps_resident_victims st') l =
      (if l = i then del_key (fst (reqs ! j)) (planned_entries reqs rs es k (ps_final_layers st) (ps_resident_victims st) i)
       else planned_entries reqs rs es k (ps_final_layers st) (ps_resident_victims st) l)"
proof -
  let ?S = "staying (ps_final_layers st) k" and ?K = "kept (ps_resident_victims st)"
  have other: "filter (\<lambda>x. x \<noteq> j) (?S l) = ?S l" if "l \<noteq> i"
    using that j(2) by (auto simp: filter_id_conv set_staying)
  show "planned_layer reqs es P R k st' l =
      (if l = i then filter (\<lambda>x. x \<noteq> Requested (fst (reqs ! j)) j (snd (snd (reqs ! j)))) (planned_layer reqs es P R k st i)
       else planned_layer reqs es P R k st l)"
    using other
    by (auto simp: planned_layer_def st' staying_drop [OF j(1)] filter_map comp_def filter_replicate
        filter_id_conv intro!: arg_cong [of _ _ "map _"] filter_cong)
  have req: "fst (reqs ! x) = fst (reqs ! j) \<longleftrightarrow> x = j" if "x \<in> set (?S i)" for x
    using that plan_inputD(1) [OF inp, of x j] k by (auto simp: set_staying)
  have "fst (reqs ! j) \<notin> fst ` set (es l)" using plan_inputD(4) [OF inp _ l] k by simp
  then have res: "del_key (fst (reqs ! j)) (?K l (es l)) = ?K l (es l)"
    using kept_subset by (intro del_key_absent) blast
  have "filter (\<lambda>x. fst (reqs ! x) \<noteq> fst (reqs ! j)) (?S i) = filter (\<lambda>x. x \<noteq> j) (?S i)"
    by (rule filter_cong [OF HOL.refl]) (simp add: req)
  then show "planned_entries reqs rs es k (ps_final_layers st') (ps_resident_victims st') l =
      (if l = i then del_key (fst (reqs ! j)) (planned_entries reqs rs es k (ps_final_layers st) (ps_resident_victims st) i)
       else planned_entries reqs rs es k (ps_final_layers st) (ps_resident_victims st) l)"
    using other res
    by (auto simp: planned_entries_def st' staying_drop [OF j(1)] del_key_def filter_map comp_def)
qed

lemma planned_after_resident:
  assumes v: "v \<in> fst ` set (es i)"
    and inp: "plan_input n reqs es P" and k: "k \<le> length reqs" and i: "i < n"
    and st': "ps_final_layers st' = ps_final_layers st"
      "ps_resident_victims st' = vec_push (ps_resident_victims st) (i, v)"
  shows "planned_layer reqs es P R k st' l =
      (if l = i then filter (\<lambda>x. x \<noteq> Resident v (v \<in> P i)) (planned_layer reqs es P R k st i)
       else planned_layer reqs es P R k st l)"
    "planned_entries reqs rs es k (ps_final_layers st') (ps_resident_victims st') l =
      (if l = i then del_key v (planned_entries reqs rs es k (ps_final_layers st) (ps_resident_victims st) i)
       else planned_entries reqs rs es k (ps_final_layers st) (ps_resident_victims st) l)"
proof -
  let ?S = "staying (ps_final_layers st) k" and ?K = "kept (ps_resident_victims st)"
  show "planned_layer reqs es P R k st' l =
      (if l = i then filter (\<lambda>x. x \<noteq> Resident v (v \<in> P i)) (planned_layer reqs es P R k st i)
       else planned_layer reqs es P R k st l)"
    by (auto simp: planned_layer_def st' kept_push filter_map comp_def filter_replicate del_key_def
        filter_id_conv intro!: arg_cong [of _ _ "map _"] filter_cong)
  have "fst (reqs ! x) \<noteq> v" if "x \<in> set (?S i)" for x
    using that plan_inputD(4) [OF inp _ i, of x] k v by (auto simp: set_staying)
  then have "filter (\<lambda>x. fst (reqs ! x) \<noteq> v) (?S i) = ?S i" by (simp add: filter_id_conv)
  then show "planned_entries reqs rs es k (ps_final_layers st') (ps_resident_victims st') l =
      (if l = i then del_key v (planned_entries reqs rs es k (ps_final_layers st) (ps_resident_victims st) i)
       else planned_entries reqs rs es k (ps_final_layers st) (ps_resident_victims st) l)"
    by (auto simp: planned_entries_def st' kept_push del_key_def filter_map comp_def)
qed

lemma requested_absent:
  assumes inp: "plan_input n reqs es P" and k: "k < length reqs" and t: "t < n" and k': "k' \<le> k"
  shows "fst (reqs ! k) \<notin> fst ` set (planned_entries reqs rs es k' finals victims t)"
proof -
  have "fst (reqs ! k) \<notin> (\<lambda>j. fst (reqs ! j)) ` set (staying finals k' t)"
  proof
    assume "fst (reqs ! k) \<in> (\<lambda>j. fst (reqs ! j)) ` set (staying finals k' t)"
    then obtain x where "x < k'" "fst (reqs ! k) = fst (reqs ! x)" by (auto simp: set_staying)
    with plan_inputD(1) [OF inp k, of x] k k' show False by simp
  qed
  moreover have "fst (reqs ! k) \<notin> fst ` set (kept victims t (es t))"
    using plan_inputD(4) [OF inp k t] kept_subset [of victims t "es t"] by auto
  ultimately show ?thesis by (simp add: planned_entries_def image_Un image_image)
qed

lemma sum_length_update:
  assumes "i < length xss" "Suc (length ys) = length (xss ! i)"
  shows "Suc (sum_list (map length (xss[i := ys]))) = sum_list (map length xss)"
  using assms
proof (induction xss arbitrary: i)
  case (Cons a xss)
  then show ?case by (cases i) auto
qed simp

lemma plan_inv_removal:
  assumes inv: "plan_inv caps reqs es P R k st" and i: "i < length caps"
    and layers: "ps_layers st' = (ps_layers st)[i := ys]" "length ys \<le> length (ps_layers st ! i)"
      "ys = planned_layer reqs es P R k st' i"
    and other: "\<And>l. l < length caps \<Longrightarrow> l \<noteq> i \<Longrightarrow> planned_layer reqs es P R k st' l = planned_layer reqs es P R k st l"
    and vs: "distinct (ps_resident_victims st')" "\<And>l v. (l, v) \<in> set (ps_resident_victims st') \<Longrightarrow>
        l < length caps \<and> v \<in> fst ` set (es l) \<and> v \<notin> P l"
    and fin: "length (ps_final_layers st') = length reqs"
      "\<And>j. j < length reqs \<Longrightarrow> ps_final_layers st' ! j = Some (fst (snd (reqs ! j))) \<or>
        j < k \<and> ps_final_layers st' ! j = None"
  shows "plan_inv caps reqs es P R k st'"
proof -
  note I = plan_invD [OF inv]
  have "ps_layers st' ! l = planned_layer reqs es P R k st' l \<and> length (ps_layers st' ! l) \<le> caps ! l"
    if l: "l < length caps" for l
    using I(1) I(4,5) [OF l] layers other [OF l] l i by (cases "l = i") auto
  moreover have "length (ps_layers st') = length caps" using I(1) layers by simp
  ultimately show ?thesis unfolding plan_inv_def using vs fin I(3) by blast
qed

definition removal ::
    "(u32 \<times> usize \<times> bool) list \<Rightarrow> (usize \<Rightarrow> (u32 \<times> nat) list) \<Rightarrow> (usize \<Rightarrow> u32 set) \<Rightarrow> usize \<Rightarrow> usize \<Rightarrow>
     usize \<Rightarrow> u32 \<Rightarrow> plan_state \<Rightarrow> plan_state \<Rightarrow> bool" where
  "removal reqs es P n k i v st st' \<longleftrightarrow>
     ps_eviction_ids st' = ps_eviction_ids st @ [v] \<and>
     Suc (sum_list (map length (ps_layers st'))) = sum_list (map length (ps_layers st)) \<and>
     Suc (length (ps_layers st' ! i)) = length (ps_layers st ! i) \<and>
     (\<forall>rs. last_opt (filter (\<lambda>x. x \<notin> P i) (map fst
        (planned_entries reqs rs es k (ps_final_layers st) (ps_resident_victims st) i))) = Some v \<and>
      (\<forall>l<n. planned_entries reqs rs es k (ps_final_layers st') (ps_resident_victims st') l =
         (if l = i then del_key v (planned_entries reqs rs es k (ps_final_layers st) (ps_resident_victims st) i)
          else planned_entries reqs rs es k (ps_final_layers st) (ps_resident_victims st) l)))"

lemma removal_kind:
  assumes inp: "plan_input (length caps) reqs es P" and inv: "plan_inv caps reqs es P R k st"
    and i: "i < length caps" and split: "ps_layers st ! i = ys @ e # zs"
    and e: "\<not> entry_pinned e" "e \<noteq> OutstandingReservation"
    and st': "ps_layers st' = (ps_layers st)[i := ys @ zs]"
      "case e of Requested v j p \<Rightarrow> ps_final_layers st' = (ps_final_layers st)[j := None] \<and>
          ps_resident_victims st' = ps_resident_victims st
       | Resident v p \<Rightarrow> ps_final_layers st' = ps_final_layers st \<and>
          ps_resident_victims st' = vec_push (ps_resident_victims st) (i, v)"
  shows "plan_inv caps reqs es P R k st' \<and>
    (\<forall>rs. \<forall>l<length caps. planned_entries reqs rs es k (ps_final_layers st') (ps_resident_victims st') l =
       (if l = i then del_key (ve_id e) (planned_entries reqs rs es k (ps_final_layers st) (ps_resident_victims st) i)
        else planned_entries reqs rs es k (ps_final_layers st) (ps_resident_victims st) l))"
proof -
  note I = plan_invD [OF inv]
  have L: "planned_layer reqs es P R k st i = ys @ e # zs" using I(4) [OF i] split by simp
  have mem: "e \<in> set (planned_layer reqs es P R k st i)" by (simp add: L)
  have ysz: "ys @ zs = filter (\<lambda>x. x \<noteq> e) (planned_layer reqs es P R k st i)"
    using remove_once [OF L [THEN sym, THEN sym] planned_layer_distinct [OF inp i] e(2)] .
  have len: "length (ys @ zs) \<le> length (ps_layers st ! i)" by (simp add: split)
  note rem = plan_inv_removal [OF inv i st'(1) len]
  show ?thesis
  proof (cases e)
    case (Resident v p)
    have v: "v \<in> fst ` set (kept (ps_resident_victims st) i (es i))" "p = (v \<in> P i)"
      using mem by (auto simp: planned_layer_def Resident)
    have ve: "v \<in> fst ` set (es i)" using v(1) kept_subset [of "ps_resident_victims st" i "es i"] by blast
    have new: "(i, v) \<notin> set (ps_resident_victims st)" using v(1) by (auto simp: kept_def)
    have np: "v \<notin> P i" using e(1) v(2) by (simp add: Resident)
    have f: "ps_final_layers st' = ps_final_layers st"
        "ps_resident_victims st' = vec_push (ps_resident_victims st) (i, v)"
      using st'(2) by (simp_all add: Resident)
    note A = planned_after_resident [OF ve inp I(3) i f]
    have ys': "ys @ zs = planned_layer reqs es P R k st' i"
      using ysz A(1) [of R i] v(2) by (simp add: Resident)
    have "plan_inv caps reqs es P R k st'"
    proof (rule rem [OF ys'])
      show "distinct (ps_resident_victims st')" using I(6) new by (simp add: f vec_push_def)
      show "l < length caps \<and> w \<in> fst ` set (es l) \<and> w \<notin> P l" if "(l, w) \<in> set (ps_resident_victims st')" for l w
        using that I(7) [of l w] i ve np by (auto simp: f vec_push_def)
    qed (use A(1) I(2,8) in \<open>simp_all add: f\<close>)
    with A(2) show ?thesis by (simp add: Resident)
  next
    case (Requested v j p)
    have j: "j < k" "ps_final_layers st ! j = Some i" "v = fst (reqs ! j)" "p = snd (snd (reqs ! j))"
      using mem by (auto simp: planned_layer_def set_staying Requested)
    have jl: "j < length (ps_final_layers st)" using j(1) I(2,3) by simp
    have f: "ps_final_layers st' = (ps_final_layers st)[j := None]"
        "ps_resident_victims st' = ps_resident_victims st"
      using st'(2) by (simp_all add: Requested)
    note A = planned_after_request [OF jl j(2) inp I(3) j(1) _ f]
    have ys': "ys @ zs = planned_layer reqs es P R k st' i"
      using ysz A(1) [OF i, of R] j by (simp add: Requested)
    have "plan_inv caps reqs es P R k st'"
    proof (rule rem [OF ys'])
      show "ps_final_layers st' ! x = Some (fst (snd (reqs ! x))) \<or> x < k \<and> ps_final_layers st' ! x = None"
        if "x < length reqs" for x
        using that I(8) [OF that] I(2) j(1) by (cases "x = j") (simp_all add: f)
    qed (use A(1) I(2,6,7) in \<open>simp_all add: f\<close>)
    with A(2) show ?thesis by (simp add: Requested j(3))
  next
    case OutstandingReservation
    with e(2) show ?thesis by simp
  qed
qed

lemma remove_victim_spec:
  assumes inp: "plan_input (length caps) reqs es P" and inv: "plan_inv caps reqs es P R k st"
    and i: "i < length caps" and rem: "remove_victim i st = Inr (b, st')"
  shows "if b then plan_inv caps reqs es P R k st' \<and> ps_total st' = ps_total st \<and>
      (\<exists>v. removal reqs es P (length caps) k i v st st')
    else st' = st \<and> R i = 0 \<and>
      (\<forall>rs. fst ` set (planned_entries reqs rs es k (ps_final_layers st) (ps_resident_victims st) i) \<subseteq> P i)"
proof (cases "rposition (\<lambda>e. \<not> entry_pinned e) (ps_layers st ! i)")
  case None
  note I = plan_invD [OF inv]
  have all: "\<forall>e\<in>set (planned_layer reqs es P R k st i). entry_pinned e"
    using None I(4) [OF i] by (simp add: rposition_None)
  have "R i = 0"
  proof (rule ccontr)
    assume "R i \<noteq> 0"
    then have "OutstandingReservation \<in> set (planned_layer reqs es P R k st i)" by (simp add: planned_layer_def)
    with all show False by fastforce
  qed
  moreover have "fst ` set (planned_entries reqs rs es k (ps_final_layers st) (ps_resident_victims st) i) \<subseteq> P i" for rs
  proof -
    have "set (map fst (planned_entries reqs rs es k (ps_final_layers st) (ps_resident_victims st) i)) \<subseteq> P i"
      unfolding planned_keys [where P = P and R = R]
      using all planned_pinned [OF inp inv] by fastforce
    then show ?thesis by simp
  qed
  ultimately show ?thesis using rem None by (auto simp: remove_victim_def)
next
  case (Some p)
  note I = plan_invD [OF inv]
  obtain ys e zs where w: "ps_layers st ! i = ys @ e # zs" "length ys = p" "\<not> entry_pinned e"
      "\<forall>z\<in>set zs. entry_pinned z"
    using rposition_Some [OF Some] by auto
  have vr: "vec_remove (ps_layers st ! i) p = ys @ zs" "ps_layers st ! i ! p = e"
    using w(1,2) by (simp_all add: vec_remove_def nth_append)
  have ne: "e \<noteq> OutstandingReservation"
    using rem Some vr by (auto simp: remove_victim_def Let_def)
  have out: "b" "ps_total st' = ps_total st" "ps_layers st' = (ps_layers st)[i := ys @ zs]"
      "ps_eviction_ids st' = ps_eviction_ids st @ [ve_id e]"
      "case e of Requested v j p \<Rightarrow> ps_final_layers st' = (ps_final_layers st)[j := None] \<and>
          ps_resident_victims st' = ps_resident_victims st
       | Resident v p \<Rightarrow> ps_final_layers st' = ps_final_layers st \<and>
          ps_resident_victims st' = vec_push (ps_resident_victims st) (i, v)"
    using rem Some vr ne
    by (auto simp: remove_victim_def Let_def vec_push_def split: virtual_cache_entry.splits)
  note K = removal_kind [OF inp inv i w(1,3) ne out(3,5)]
  have L: "planned_layer reqs es P R k st i = ys @ e # zs" using I(4) [OF i] w(1) by simp
  have pz: "ve_id z \<in> P i" if "z \<in> set zs" "z \<noteq> OutstandingReservation" for z
    using planned_pinned [OF inp inv, of z i] that w(4) by (simp add: L)
  have pe: "ve_id e \<notin> P i" using planned_pinned [OF inp inv, of e i] w(3) ne by (simp add: L)
  have "filter (\<lambda>x. x \<notin> P i) (map ve_id (filter (\<lambda>x. x \<noteq> OutstandingReservation) zs)) = []"
    using pz by (simp add: filter_empty_conv)
  then have last: "last_opt (filter (\<lambda>x. x \<notin> P i) (map fst
        (planned_entries reqs rs es k (ps_final_layers st) (ps_resident_victims st) i))) = Some (ve_id e)" for rs
    unfolding planned_keys [where P = P and R = R] L using ne pe by (simp add: last_opt_def)
  have "Suc (sum_list (map length (ps_layers st'))) = sum_list (map length (ps_layers st))"
    unfolding out(3) by (rule sum_length_update) (use i I(1) w(1) in simp_all)
  moreover have "Suc (length (ps_layers st' ! i)) = length (ps_layers st ! i)"
    using out(3) i I(1) w(1) by simp
  ultimately have "removal reqs es P (length caps) k i (ve_id e) st st'"
    unfolding removal_def using K last out(4) by blast
  with K out show ?thesis by auto
qed

text \<open>Steps of the planner. \<open>counted\<close> says that the running total is exact.\<close>

definition counted :: "plan_state \<Rightarrow> bool" where
  "counted st \<longleftrightarrow> ps_total st = sum_list (map length (ps_layers st))"

abbreviation entries_now ::
    "(u32 \<times> usize \<times> bool) list \<Rightarrow> nat list \<Rightarrow> (usize \<Rightarrow> (u32 \<times> nat) list) \<Rightarrow> usize \<Rightarrow> plan_state \<Rightarrow> usize \<Rightarrow>
     (u32 \<times> nat) list" where
  "entries_now reqs rs es k st i \<equiv>
     planned_entries reqs rs es k (ps_final_layers st) (ps_resident_victims st) i"

lemma total_irrelevant [simp]:
  "plan_inv caps reqs es P R k (st\<lparr>ps_total := t\<rparr>) \<longleftrightarrow> plan_inv caps reqs es P R k st"
  "removal reqs es P n k i v st (st'\<lparr>ps_total := t\<rparr>) \<longleftrightarrow> removal reqs es P n k i v st st'"
  by (simp_all add: plan_inv_def removal_def planned_layer_def)

lemma counted_removal:
  "removal reqs es P n k i v st st' \<Longrightarrow> counted st \<Longrightarrow> ps_total st' = ps_total st \<Longrightarrow>
    counted (st'\<lparr>ps_total := ps_total st' - 1\<rparr>) \<and> Suc (ps_total st' - 1) = ps_total st"
  by (auto simp: counted_def removal_def)

lemma remove_any_spec:
  assumes inp: "plan_input (length caps) reqs es P"
    and "plan_inv caps reqs es P R k st" "counted st" "set is \<subseteq> {..<length caps}" "remove_any is st = Inr st'"
  shows "plan_inv caps reqs es P R k st' \<and> counted st' \<and> Suc (ps_total st') = ps_total st \<and>
    (\<exists>pre i post v. is = pre @ i # post \<and> removal reqs es P (length caps) k i v st st' \<and>
       (\<forall>j\<in>set pre. \<forall>rs. fst ` set (entries_now reqs rs es k st j) \<subseteq> P j))"
  using assms(2-)
proof (induction "is")
  case (Cons i "is")
  have i: "i < length caps" using Cons.prems(3) by simp
  obtain b st1 where rv: "remove_victim i st = Inr (b, st1)"
    using Cons.prems(4) by (auto split: sum.splits)
  note S = remove_victim_spec [OF inp Cons.prems(1) i rv]
  show ?case
  proof (cases b)
    case True
    then obtain v where v: "removal reqs es P (length caps) k i v st st1" and
        st1: "plan_inv caps reqs es P R k st1" "ps_total st1 = ps_total st"
      using S by auto
    have st': "st' = st1\<lparr>ps_total := ps_total st1 - 1\<rparr>" using Cons.prems(4) rv True by simp
    note C = counted_removal [OF v Cons.prems(2) st1(2)]
    have "removal reqs es P (length caps) k i v st st'" unfolding st' using v by simp
    then have "\<exists>pre l post v. i # is = pre @ l # post \<and> removal reqs es P (length caps) k l v st st' \<and>
       (\<forall>j\<in>set pre. \<forall>rs. fst ` set (entries_now reqs rs es k st j) \<subseteq> P j)"
      by (intro exI [of _ "[]"]) auto
    with C st1 show ?thesis unfolding st' by simp
  next
    case False
    then have "st1 = st" and pin: "\<forall>rs. fst ` set (entries_now reqs rs es k st i) \<subseteq> P i" using S by auto
    then have "remove_any is st = Inr st'" using Cons.prems(4) rv False by simp
    note IH = Cons.IH [OF Cons.prems(1,2) _ this]
    then obtain pre l post v where "is = pre @ l # post" "removal reqs es P (length caps) k l v st st'"
        "\<forall>j\<in>set pre. \<forall>rs. fst ` set (entries_now reqs rs es k st j) \<subseteq> P j"
      using Cons.prems(3) by auto
    with pin have "i # is = (i # pre) @ l # post \<and> removal reqs es P (length caps) k l v st st' \<and>
        (\<forall>j\<in>set (i # pre). \<forall>rs. fst ` set (entries_now reqs rs es k st j) \<subseteq> P j)" by simp
    then show ?thesis using IH Cons.prems(3) by (metis insert_subset list.set(2))
  qed
qed simp

lemma aggregate_room_spec:
  assumes inp: "plan_input (length caps) reqs es P"
    and inv: "plan_inv caps reqs es P R k st" "counted st" and ag: "aggregate_room caps st = Inr st'"
  shows "plan_inv caps reqs es P R k st' \<and> counted st' \<and>
    (if ps_total st \<ge> sum_list caps
     then \<exists>start len pre i post v. heaviest 0 None (map length (ps_layers st)) = Some (start, len) \<and>
       cyclic_order start (length caps) = pre @ i # post \<and> i < length caps \<and>
       removal reqs es P (length caps) k i v st st' \<and>
       (\<forall>j\<in>set pre. \<forall>rs. fst ` set (entries_now reqs rs es k st j) \<subseteq> P j)
     else st' = st)"
proof (cases "ps_total st \<ge> sum_list caps")
  case True
  then obtain start len where h: "heaviest 0 None (map length (ps_layers st)) = Some (start, len)"
      "remove_any (cyclic_order start (length (ps_layers st))) st = Inr st'"
    using ag by (auto simp: aggregate_room_def split: option.splits)
  have len: "length (ps_layers st) = length caps" by (rule plan_invD(1) [OF inv(1)])
  have "start < length caps"
    using heaviest_first_longest [of "map length (ps_layers st)"] h(1) len by simp
  then have C: "set (cyclic_order start (length caps)) = {..<length caps}" by (rule set_cyclic_order)
  obtain pre i post v where w: "cyclic_order start (length caps) = pre @ i # post"
      "removal reqs es P (length caps) k i v st st'"
      "\<forall>j\<in>set pre. \<forall>rs. fst ` set (entries_now reqs rs es k st j) \<subseteq> P j"
      "plan_inv caps reqs es P R k st'" "counted st'"
    using remove_any_spec [OF inp inv _ h(2)] C len by auto
  moreover have "i < length caps" using C w(1) by (metis in_set_conv_decomp lessThan_iff)
  ultimately show ?thesis using True h(1) by auto
next
  case False
  with ag inv show ?thesis by (simp add: aggregate_room_def)
qed

lemma layer_room_spec:
  assumes inp: "plan_input (length caps) reqs es P"
    and inv: "plan_inv caps reqs es P R k st" "counted st" and t: "t < length caps"
    and lr: "layer_room caps t st = Inr st'"
  shows "plan_inv caps reqs es P R k st' \<and> counted st' \<and> length (ps_layers st' ! t) < caps ! t \<and>
    (if length (ps_layers st ! t) \<ge> caps ! t then \<exists>v. removal reqs es P (length caps) k t v st st' else st' = st)"
proof (cases "length (ps_layers st ! t) \<ge> caps ! t")
  case True
  then obtain st1 where rv: "remove_victim t st = Inr (True, st1)" and st': "st' = st1\<lparr>ps_total := ps_total st1 - 1\<rparr>"
    using lr by (auto simp: layer_room_def split: sum.splits prod.splits bool.splits)
  note S = remove_victim_spec [OF inp inv(1) t rv]
  then obtain v where v: "removal reqs es P (length caps) k t v st st1"
      "plan_inv caps reqs es P R k st1" "ps_total st1 = ps_total st" by auto
  note C = counted_removal [OF v(1) inv(2) v(3)]
  have "length (ps_layers st' ! t) < caps ! t"
    using v(1) plan_invD(5) [OF inv(1) t] by (simp add: removal_def st')
  with v C True show ?thesis by (auto simp: st')
next
  case False
  with lr inv show ?thesis by (simp add: layer_room_def)
qed

lemma staying_Suc:
  "staying finals (Suc k) i = (if finals ! k = Some i then k # staying finals k i else staying finals k i)"
  by (simp add: staying_def)

lemma place_request:
  assumes inp: "plan_input (length caps) reqs es P"
    and inv: "plan_inv caps reqs es P R k st" "counted st" and k: "k < length reqs"
    and r: "reqs ! k = (eid, t, pinned)" and room: "length (ps_layers st ! t) < caps ! t"
    and st': "st' = st\<lparr>ps_layers := (ps_layers st)[t := Requested eid k pinned # ps_layers st ! t],
                    ps_total := ps_total st + 1\<rparr>"
  shows "plan_inv caps reqs es P R (Suc k) st' \<and> counted st' \<and>
    (\<forall>rs. \<forall>i<length caps. entries_now reqs rs es (Suc k) st' i =
       (if i = t then (eid, rs ! k) # entries_now reqs rs es k st t else entries_now reqs rs es k st i))"
proof -
  note I = plan_invD [OF inv(1)]
  have t: "t < length caps" using plan_inputD(2) [OF inp k] r by simp
  have fk: "ps_final_layers st ! k = Some t" using I(8) [OF k] r by auto
  have sim: "staying (ps_final_layers st) (Suc k) i =
      (if i = t then k # staying (ps_final_layers st) k t else staying (ps_final_layers st) k i)" for i
    using fk by (auto simp: staying_Suc)
  have lay: "planned_layer reqs es P R (Suc k) st' i =
      (if i = t then Requested eid k pinned # planned_layer reqs es P R k st t else planned_layer reqs es P R k st i)" for i
    by (simp add: planned_layer_def st' sim r)
  have "ps_layers st' ! i = planned_layer reqs es P R (Suc k) st' i \<and> length (ps_layers st' ! i) \<le> caps ! i"
    if "i < length caps" for i
    using I(4,5) [OF that] I(1) that room by (cases "i = t") (simp_all add: lay, simp_all add: st')
  moreover have "counted st'"
    using inv(2) sum_length_update [of t "ps_layers st'" "ps_layers st ! t"] I(1) t by (simp add: counted_def st')
  moreover have same: "ps_final_layers st' = ps_final_layers st" "ps_resident_victims st' = ps_resident_victims st"
      "length (ps_layers st') = length caps"
    using I(1) by (simp_all add: st')
  moreover have "\<forall>j<length reqs. ps_final_layers st ! j = Some (fst (snd (reqs ! j))) \<or>
      j < Suc k \<and> ps_final_layers st ! j = None"
    using I(8) less_SucI by blast
  moreover have "entries_now reqs rs es (Suc k) st' i =
       (if i = t then (eid, rs ! k) # entries_now reqs rs es k st t else entries_now reqs rs es k st i)" for rs i
    by (simp add: planned_entries_def same sim r)
  ultimately show ?thesis
    unfolding plan_inv_def same using I(2,6,7) k Suc_leI by blast
qed

subsection \<open>The plan and the sequential path\<close>

lemma find_first:
  "xs = pre @ x # post \<Longrightarrow> \<forall>y\<in>set pre. Q y \<Longrightarrow> \<not> Q x \<Longrightarrow> find (\<lambda>y. \<not> Q y) xs = Some x"
  by (induction pre arbitrary: xs) auto

text \<open>The caches are where the plan says they are after \<open>k\<close> requests.\<close>

definition follows ::
    "('c, nat) lru_ops \<Rightarrow> usize list \<Rightarrow> (u32 \<times> usize \<times> bool) list \<Rightarrow> nat list \<Rightarrow> (usize \<Rightarrow> (u32 \<times> nat) list) \<Rightarrow>
     (usize \<Rightarrow> u32 set) \<Rightarrow> usize \<Rightarrow> plan_state \<Rightarrow> 'c multi_layer \<Rightarrow> 'h store \<Rightarrow> bool" where
  "follows L caps reqs rs es P k st m h \<longleftrightarrow> ml_inv L m h \<and> map ec_capacity (ml_caches m) = caps \<and>
     (\<forall>i<length caps. ec_pinned (ml_caches m ! i) = P i \<and> \<not> ec_cost_aware (ml_caches m ! i) \<and>
        ec_reserved_slots (ml_caches m ! i) = 0 \<and> layer_entries L m i = entries_now reqs rs es k st i)"

lemma followsD:
  assumes "follows L caps reqs rs es P k st m h"
  shows "ml_inv L m h" "length (ml_caches m) = length caps" "ml_capacity m = sum_list caps"
    "i < length caps \<Longrightarrow> ec_pinned (ml_caches m ! i) = P i" "i < length caps \<Longrightarrow> \<not> ec_cost_aware (ml_caches m ! i)"
    "i < length caps \<Longrightarrow> ec_reserved_slots (ml_caches m ! i) = 0"
    "i < length caps \<Longrightarrow> ec_capacity (ml_caches m ! i) = caps ! i"
    "i < length caps \<Longrightarrow> layer_entries L m i = entries_now reqs rs es k st i"
  using assms by (auto simp: follows_def ml_capacity_def)

lemma follows_same:
  assumes f: "follows L caps reqs rs es P k st m h" and s: "same_layers m m'" "ml_inv L m' h'"
    and e: "\<And>i. i < length caps \<Longrightarrow> layer_entries L m' i = entries_now reqs rs es k' st' i"
  shows "follows L caps reqs rs es P k' st' m' h'"
proof -
  note D = followsD [OF f]
  have "map ec_capacity (ml_caches m') = caps"
    using s(1) D(2,7) by (intro nth_equalityI) (simp_all add: same_layers_def)
  then show ?thesis using f s e D(2) by (simp add: follows_def same_layers_def)
qed

context expert_lru
begin

lemma follows_lens:
  assumes f: "follows L caps reqs rs es P k st m h" and inv: "plan_inv caps reqs es P (\<lambda>_. 0) k st"
  shows "map (cache_len L) (ml_caches m) = map length (ps_layers st)"
    "i < length caps \<Longrightarrow> length (layer_entries L m i) = length (ps_layers st ! i)"
proof -
  note D = followsD [OF f] and I = plan_invD [OF inv]
  show len: "length (layer_entries L m i) = length (ps_layers st ! i)" if "i < length caps" for i
    using D(8) [OF that] I(4) [OF that] by (simp add: planned_layer_def planned_entries_def)
  have "cache_len L (ml_caches m ! i) = length (layer_entries L m i)" if "i < length caps" for i
    using cache_invD(7) [OF ml_invD(1) [OF D(1)]] D(2) that by (simp add: cache_len_def)
  with len D(2) I(1) show "map (cache_len L) (ml_caches m) = map length (ps_layers st)"
    by (intro nth_equalityI) simp_all
qed

lemma follows_victim:
  assumes f: "follows L caps reqs rs es P k st m h" and i: "i < length caps"
    and r: "removal reqs es P (length caps) k i v st st'"
  shows "select_victim_id L F (ml_caches m ! i) h = Some v" "\<not> all_pinned L m i"
    "map_of (layer_entries L m i) v = Some a \<Longrightarrow> er_id (h a) = v"
proof -
  note D = followsD [OF f]
  show sel: "select_victim_id L F (ml_caches m ! i) h = Some v"
    using D(4,5,8) [OF i] r by (simp add: select_victim_id_def removal_def)
  show "\<not> all_pinned L m i" using select_victim_Some [OF sel] by blast
  show "er_id (h a) = v" if "map_of (layer_entries L m i) v = Some a"
    using cache_invD(6) [OF ml_invD(1) [OF D(1)]] D(2) i map_of_SomeD [OF that] by simp
qed

text \<open>The aggregate eviction.\<close>

lemma aggregate_follows:
  assumes inp: "plan_input (length caps) reqs es P" and inv: "plan_inv caps reqs es P (\<lambda>_. 0) k st" "counted st"
    and f: "follows L caps reqs rs es P k st m h" and ag: "aggregate_room caps st = Inr st'"
    and leg: "(if ml_len L m \<ge> ml_capacity m then ml_evict_lru L F m h else (None, m)) = (pre, m')"
  shows "follows L caps reqs rs es P k st' m' h \<and>
    ps_eviction_ids st' = ps_eviction_ids st @ (case pre of Some a \<Rightarrow> [er_id (h a)] | None \<Rightarrow> [])"
proof -
  note D = followsD [OF f] and S = aggregate_room_spec [OF inp inv ag]
  have len: "ml_len L m = ps_total st"
    using follows_lens(1) [OF f inv(1)] inv(2) by (simp add: ml_len_def counted_def)
  show ?thesis
  proof (cases "ps_total st \<ge> sum_list caps")
    case True
    then obtain start n ls i post v where w: "heaviest 0 None (map length (ps_layers st)) = Some (start, n)"
        "cyclic_order start (length caps) = ls @ i # post" "i < length caps"
        "removal reqs es P (length caps) k i v st st'"
        "\<forall>j\<in>set ls. \<forall>rs. fst ` set (entries_now reqs rs es k st j) \<subseteq> P j"
      using S by auto
    have s: "start < length caps"
      using heaviest_first_longest [of "map length (ps_layers st)"] w(1) plan_invD(1) [OF inv(1)] by simp
    have C: "set (cyclic_order start (length caps)) = {..<length caps}" by (rule set_cyclic_order [OF s])
    have "evict_layers L F h (cyclic_order start (length caps)) m = (pre, m')"
      using leg True len D(2,3) w(1) follows_lens(1) [OF f inv(1)] by (simp add: ml_evict_lru_def)
    note E = evict_layers_spec [OF D(1) _ this]
    note V = follows_victim [OF f w(3,4)]
    have lt: "j < length caps" if "j \<in> set ls" for j using C w(2) that by (metis Un_iff lessThan_iff set_append)
    have "\<forall>j\<in>set ls. all_pinned L m j" using w(5) lt D(4,8) by simp
    then have first: "find (\<lambda>j. \<not> all_pinned L m j) (cyclic_order start (length caps)) = Some i"
      using find_first [OF w(2)] V(2) by simp
    have "pre \<noteq> None"
      using E C w(3) V(2) D(2) by (auto split: option.splits)
    then obtain a ls' i' post' v' where x: "pre = Some a" "cyclic_order start (length caps) = ls' @ i' # post'"
        "\<forall>j\<in>set ls'. all_pinned L m j" "select_victim_id L F (ml_caches m ! i') h = Some v'"
        "map_of (layer_entries L m i') v' = Some a"
        "\<forall>j<length caps. layer_entries L m' j = (if j = i' then del_key v' (layer_entries L m i') else layer_entries L m j)"
        "ml_inv L m' h" "same_layers m m'"
      using E C D(2) by (cases pre) (simp, simp only: option.case order_refl simp_thms, blast)
    have "\<not> all_pinned L m i'" using select_victim_Some [OF x(4)] by blast
    then have "i' = i" using find_first [OF x(2,3)] first by simp
    then have v': "v' = v" using x(4) V(1) [where F = F] by simp
    have "layer_entries L m' j = entries_now reqs rs es k st' j" if "j < length caps" for j
      using x(6) that D(8) w(3,4) by (simp add: \<open>i' = i\<close> v' removal_def)
    then have "follows L caps reqs rs es P k st' m' h" by (rule follows_same [OF f x(8,7)])
    moreover have "ps_eviction_ids st' = ps_eviction_ids st @ [er_id (h a)]"
      using w(4) V(3) x(5) by (simp add: \<open>i' = i\<close> v' removal_def)
    ultimately show ?thesis using x(1) by simp
  next
    case False
    with S leg f len D(3) show ?thesis by auto
  qed
qed

lemma insert_selected:
  assumes inv: "cache_inv L c h" and ncost: "\<not> ec_cost_aware c"
    and absent: "map_of (entries L c) (er_id (h r)) = None" and ins: "insert_resident L F c h r = (res, c', h')"
  shows "h' = h"
    "length (entries L c) + ec_reserved_slots c < ec_capacity c \<Longrightarrow> res = Inr None \<and> entries L c' = (er_id (h r), r) # entries L c"
    "length (entries L c) + ec_reserved_slots c \<ge> ec_capacity c \<Longrightarrow> select_victim_id L F c h = Some v \<Longrightarrow>
      res = Inr (map_of (entries L c) v) \<and> entries L c' = (er_id (h r), r) # del_key v (entries L c)"
proof -
  note I = cache_invD [OF inv]
  show "h' = h" using ins ncost
    by (auto simp: insert_resident_def Let_def split: option.splits prod.splits if_splits)
  show "res = Inr None \<and> entries L c' = (er_id (h r), r) # entries L c"
    if "length (entries L c) + ec_reserved_slots c < ec_capacity c"
    using insert_spec [OF inv ins] absent that by (simp add: insert_effect_def)
  show "res = Inr (map_of (entries L c) v) \<and> entries L c' = (er_id (h r), r) # del_key v (entries L c)"
    if full: "length (entries L c) + ec_reserved_slots c \<ge> ec_capacity c" and v: "select_victim_id L F c h = Some v"
  proof -
    obtain e i where pop: "lru_pop L (ec_inner c) v = (e, i)" by fastforce
    obtain p i' where push: "lru_push L i (er_id (h r)) r = (p, i')" by fastforce
    note P = pop_spec [OF inv pop]
    have iv: "lru_valid L i" "lru_bound L i = Some (ec_capacity c)"
      using cache_invD(1,2) [OF P(1)] by simp_all
    obtain a where a: "map_of (entries L c) v = Some a"
      using select_victim_Some [OF v] by (metis map_of_eq_None_iff not_None_eq)
    have "Suc (length (lru_iter L i)) = length (entries L c)" using length_del_key [OF I(5) a] P(3) by simp
    then have "length (lru_iter L i) < ec_capacity c" using I(3) by simp
    moreover have "lru_peek L i (er_id (h r)) = None" using absent P(3) by (simp add: peek_entry [OF iv(1)])
    ultimately have Q: "p = None" "lru_iter L i' = (er_id (h r), r) # del_key v (entries L c)"
      using push_room [OF iv(1) _ iv(2) _ push] P(3) by auto
    have "(res, c') = (Inr e, c\<lparr>ec_inner := i'\<rparr>)"
      using ins ncost full v absent pop push Q(1) I(7,8,9) by (simp add: insert_resident_def)
    then show ?thesis using P(2) Q(2) by simp
  qed
qed

text \<open>One fetch follows one request of the plan.\<close>

lemma request_follows:
  assumes inp: "plan_input (length caps) reqs es P" and inv: "plan_inv caps reqs es P (\<lambda>_. 0) k st" "counted st"
    and f: "follows L caps reqs rs es P k st m h" and k: "k < length reqs" and r: "reqs ! k = (eid, t, pinned)"
    and route: "try_layer_idx m eid = Some t" "er_id (h (rs ! k)) = eid"
    and room: "aggregate_room caps st = Inr st1" "layer_room caps t st1 = Inr st2"
    and st': "st' = st2\<lparr>ps_layers := (ps_layers st2)[t := Requested eid k pinned # ps_layers st2 ! t],
                    ps_total := ps_total st2 + 1\<rparr>"
    and leg: "fetch_once L F m h (rs ! k) = (vs, m', h')"
  shows "plan_inv caps reqs es P (\<lambda>_. 0) (Suc k) st' \<and> counted st' \<and> follows L caps reqs rs es P (Suc k) st' m' h' \<and>
    h' = h \<and> ps_eviction_ids st' = ps_eviction_ids st @ map (er_id \<circ> h) vs \<and>
    ml_experts_per_layer m' = ml_experts_per_layer m"
proof -
  have t: "t < length caps" using plan_inputD(2) [OF inp k] r by simp
  obtain pre m1 where e1: "(if ml_len L m \<ge> ml_capacity m then ml_evict_lru L F m h else (None, m)) = (pre, m1)"
    by fastforce
  note F1 = aggregate_follows [OF inp inv f room(1) e1]
  note S1 = aggregate_room_spec [OF inp inv room(1)]
  then have inv1: "plan_inv caps reqs es P (\<lambda>_. 0) k st1" "counted st1" by simp_all
  have f1: "follows L caps reqs rs es P k st1 m1 h" using F1 ..
  note D = followsD [OF f1]
  have stride: "ml_experts_per_layer m1 = ml_experts_per_layer m"
    using e1 ml_evict_lru_spec [OF followsD(1) [OF f]] by (auto simp: same_layers_def split: if_splits)
  have idx: "try_layer_idx m1 eid = Some t"
    using route(1) stride followsD(2) [OF f] D(2) by (simp add: try_layer_idx_def)
  obtain res where e2: "ml_insert L F m1 h (rs ! k) = (res, m', h')"
      and vs: "vs = (case pre of Some v \<Rightarrow> [v] | None \<Rightarrow> []) @ (case res of Inr (Some v) \<Rightarrow> [v] | _ \<Rightarrow> [])"
    using leg e1 unfolding fetch_once_def fetch_make_room_def by (auto simp: Let_def split: prod.splits)
  note M = ml_insert_spec [OF D(1) e2]
  let ?c = "ml_caches m1 ! t"
  obtain c' where ins: "insert_resident L F ?c h (rs ! k) = (res, c', h')" and m': "m' = set_layer m1 t c'"
    using e2 idx route(2) by (auto simp: ml_insert_def split: prod.splits)
  have tl: "t < length (ml_caches m1)" using D(2) t by simp
  have "eid \<notin> fst ` set (entries_now reqs rs es k st1 t)"
    using requested_absent [OF inp k t order_refl] r by simp
  then have absent: "map_of (layer_entries L m1 t) (er_id (h (rs ! k))) = None"
    using D(8) [OF t] route(2) by (simp add: map_of_eq_None_iff)
  note J = insert_selected [OF ml_invD(1) [OF D(1) tl] D(5) [OF t] absent ins]
  note S2 = layer_room_spec [OF inp inv1 t room(2)]
  note PR = place_request [OF inp _ _ k r _ st']
  have full: "length (ps_layers st1 ! t) \<ge> caps ! t \<longleftrightarrow>
      length (layer_entries L m1 t) + ec_reserved_slots ?c \<ge> ec_capacity ?c"
    using follows_lens(2) [OF f1 inv1(1) t] D(6,7) [OF t] by simp
  have "layer_entries L m' t = (eid, rs ! k) # entries_now reqs rs es k st2 t \<and>
      (\<forall>i<length caps. i \<noteq> t \<longrightarrow> entries_now reqs rs es k st1 i = entries_now reqs rs es k st2 i) \<and>
      ps_eviction_ids st2 = ps_eviction_ids st1 @ map (er_id \<circ> h) (case res of Inr (Some v) \<Rightarrow> [v] | _ \<Rightarrow> [])"
  proof (cases "length (ps_layers st1 ! t) \<ge> caps ! t")
    case True
    then obtain v where rem: "removal reqs es P (length caps) k t v st1 st2" using S2 by auto
    note V = follows_victim [OF f1 t rem]
    have r2: "res = Inr (map_of (layer_entries L m1 t) v)" "entries L c' = (eid, rs ! k) # del_key v (layer_entries L m1 t)"
      using J(3) [OF full [THEN iffD1, OF True] V(1)] route(2) by simp_all
    obtain a where a: "map_of (layer_entries L m1 t) v = Some a"
      using select_victim_Some [OF V(1)] by (metis map_of_eq_None_iff not_None_eq)
    show ?thesis using r2 a V(3) [OF a] rem t tl D(8) [OF t] by (simp add: m' removal_def)
  next
    case False
    then have st2: "st2 = st1" using S2 by simp
    have "\<not> length (layer_entries L m1 t) + ec_reserved_slots ?c \<ge> ec_capacity ?c" using False full by blast
    with J(2) have "res = Inr None" "entries L c' = (eid, rs ! k) # layer_entries L m1 t"
      using route(2) by simp_all
    then show ?thesis using tl D(8) [OF t] by (simp add: m' st2)
  qed
  note step = this
  have PR: "plan_inv caps reqs es P (\<lambda>_. 0) (Suc k) st' \<and> counted st' \<and>
      (\<forall>rs. \<forall>i<length caps. entries_now reqs rs es (Suc k) st' i =
       (if i = t then (eid, rs ! k) # entries_now reqs rs es k st2 t else entries_now reqs rs es k st2 i))"
    using PR S2 by blast
  have "layer_entries L m' i = entries_now reqs rs es (Suc k) st' i" if "i < length caps" for i
    using step PR that D(8) [OF that] by (cases "i = t") (auto simp: m')
  then have "follows L caps reqs rs es P (Suc k) st' m' h'"
    using follows_same [OF f1] M by blast
  moreover have "ps_eviction_ids st' = ps_eviction_ids st @ map (er_id \<circ> h) vs"
    using F1 step by (simp add: st' vs split: option.splits)
  moreover have "ml_experts_per_layer m' = ml_experts_per_layer m" using stride by (simp add: m')
  ultimately show ?thesis using PR J(1) by blast
qed

lemma plan_follows:
  assumes inp: "plan_input (length caps) reqs es P"
  shows "plan_requests caps k (drop k reqs) st = Inr st' \<Longrightarrow> plan_inv caps reqs es P (\<lambda>_. 0) k st \<Longrightarrow> counted st \<Longrightarrow>
    follows L caps reqs rs es P k st m h \<Longrightarrow> length rs = length reqs \<Longrightarrow>
    \<forall>j<length reqs. try_layer_idx m (fst (reqs ! j)) = Some (fst (snd (reqs ! j))) \<and> er_id (h (rs ! j)) = fst (reqs ! j) \<Longrightarrow>
    fetch_sequence L F m h (drop k rs) = (vs, m', h') \<Longrightarrow>
    plan_inv caps reqs es P (\<lambda>_. 0) (length reqs) st' \<and> follows L caps reqs rs es P (length reqs) st' m' h' \<and> h' = h \<and>
    ps_eviction_ids st' = ps_eviction_ids st @ map (er_id \<circ> h) vs"
proof (induction "length reqs - k" arbitrary: k st m vs)
  case 0
  then show ?case using plan_invD(3) [OF 0(3)] by simp
next
  case (Suc n)
  have k: "k < length reqs" using Suc.hyps(2) by simp
  obtain eid t p where r: "reqs ! k = (eid, t, p)" by (metis prod_cases3)
  have dr: "drop k reqs = (eid, t, p) # drop (Suc k) reqs" "drop k rs = rs ! k # drop (Suc k) rs"
    using k r Suc.prems(5) by (metis Cons_nth_drop_Suc)+
  obtain st1 st2 where room: "aggregate_room caps st = Inr st1" "layer_room caps t st1 = Inr st2"
      and rest: "plan_requests caps (Suc k) (drop (Suc k) reqs)
        (st2\<lparr>ps_layers := (ps_layers st2)[t := Requested eid k p # ps_layers st2 ! t], ps_total := ps_total st2 + 1\<rparr>) = Inr st'"
    using Suc.prems(1) unfolding dr by (auto split: sum.splits)
  obtain us m1 h1 ws where leg: "fetch_once L F m h (rs ! k) = (us, m1, h1)"
      "fetch_sequence L F m1 h1 (drop (Suc k) rs) = (ws, m', h')" "vs = us @ ws"
    using Suc.prems(7) unfolding dr by (auto simp: Let_def split: prod.splits)
  have route: "try_layer_idx m eid = Some t" "er_id (h (rs ! k)) = eid" using Suc.prems(6) k r by auto
  note RF = request_follows [OF inp Suc.prems(2,3,4) k r route room HOL.refl leg(1)]
  then have h1: "h1 = h" by blast
  have "length (ml_caches m1) = length caps" "ml_experts_per_layer m1 = ml_experts_per_layer m"
    using RF followsD(2) [of L caps reqs rs es P "Suc k"] by blast+
  then have "try_layer_idx m1 x = try_layer_idx m x" for x
    using followsD(2) [OF Suc.prems(4)] by (simp add: try_layer_idx_def)
  then have "\<forall>j<length reqs. try_layer_idx m1 (fst (reqs ! j)) = Some (fst (snd (reqs ! j))) \<and> er_id (h (rs ! j)) = fst (reqs ! j)"
    using Suc.prems(6) by simp
  moreover have "n = length reqs - Suc k" using Suc.hyps(2) by simp
  ultimately show ?case
    using Suc.hyps(1) [OF _ rest, of m1 ws] RF leg(2,3) Suc.prems(5) by (auto simp: h1)
qed

end

end
