(* ===== verification/DemandRuns.thy ===== *)
theory DemandRuns
  imports DemandPlan
begin

section \<open>Demand reservations in a running engine\<close>

text \<open>
  What the batched demand path of \<open>DemandPlan\<close> guarantees: a granted reservation holds exactly the
  planned positions, committing the reads in order leaves the caches where the sequential path
  leaves them, and clients that interleave lookups, insertions, evictions, pins and reservations
  keep every layer within its capacity.
\<close>

subsection \<open>The reservation realises the plan\<close>

lemma plan_requests_inv:
  assumes inp: "plan_input (length caps) reqs es P"
  shows "plan_requests caps k (drop k reqs) st = Inr st' \<Longrightarrow> plan_inv caps reqs es P R k st \<Longrightarrow> counted st \<Longrightarrow>
    plan_inv caps reqs es P R (length reqs) st'"
proof (induction "length reqs - k" arbitrary: k st)
  case 0
  then show ?case using plan_invD(3) [OF 0(3)] by simp
next
  case (Suc n)
  have k: "k < length reqs" using Suc.hyps(2) by simp
  obtain eid t p where r: "reqs ! k = (eid, t, p)" by (metis prod_cases3)
  have dr: "drop k reqs = (eid, t, p) # drop (Suc k) reqs" using k r by (metis Cons_nth_drop_Suc)
  obtain st1 st2 where room: "aggregate_room caps st = Inr st1" "layer_room caps t st1 = Inr st2"
      and rest: "plan_requests caps (Suc k) (drop (Suc k) reqs)
        (st2\<lparr>ps_layers := (ps_layers st2)[t := Requested eid k p # ps_layers st2 ! t], ps_total := ps_total st2 + 1\<rparr>) = Inr st'"
    using Suc.prems(1) unfolding dr by (auto split: sum.splits)
  have t: "t < length caps" using plan_inputD(2) [OF inp k] r by simp
  note S1 = aggregate_room_spec [OF inp Suc.prems(2,3) room(1)]
  note S2 = layer_room_spec [OF inp conjunct1 [OF S1] conjunct1 [OF conjunct2 [OF S1]] t room(2)]
  note S3 = place_request [OF inp conjunct1 [OF S2] conjunct1 [OF conjunct2 [OF S2]] k r _ HOL.refl]
  have "n = length reqs - Suc k" using Suc.hyps(2) by simp
  from Suc.hyps(1) [OF this rest] S2 S3 show ?case by blast
qed

lemma plan_start_inv:
  assumes layers: "length layers = length caps"
      "\<And>i. i < length caps \<Longrightarrow> layers ! i = replicate (R i) OutstandingReservation @
         map (\<lambda>e. Resident (fst e) (fst e \<in> P i)) (es i)"
      "\<And>i. i < length caps \<Longrightarrow> length (layers ! i) \<le> caps ! i"
  shows "plan_inv caps reqs es P R 0 (plan_start layers reqs)" "counted (plan_start layers reqs)"
  using assms
  by (simp_all add: plan_inv_def plan_start_def counted_def planned_layer_def staying_def kept_def
      nth_map split_def)

lemma scan_requests_spec:
  "scan_requests m seen per acc ids = Inr ls \<Longrightarrow> distinct ids \<and> set ids \<inter> set seen = {} \<and>
    (\<exists>ls'. ls = acc @ ls' \<and> list_all2 (\<lambda>x l. try_layer_idx m x = Some l) ids ls')"
proof (induction m seen per acc ids rule: scan_requests.induct)
  case (2 m seen per acc eid ids)
  obtain l where l: "eid \<notin> set seen" "try_layer_idx m eid = Some l"
      and rest: "scan_requests m (eid # seen) (per[l := per ! l + 1]) (vec_push acc l) ids = Inr ls"
      and cap: "\<not> per[l := per ! l + 1] ! l > ec_capacity (ml_caches m ! l)"
    using 2(2) by (auto simp: Let_def split: if_splits option.splits)
  from 2(1) [OF l HOL.refl cap rest] l show ?case by (auto simp: vec_push_def)
qed auto

lemma kept_Cons:
  "kept ((l, v) # victims) i es = (if i = l then kept victims i (del_key v es) else kept victims i es)"
  by (auto simp: kept_def del_key_def filter_filter intro!: filter_cong)

context expert_lru
begin

lemma pop_victims_spec:
  assumes "ml_inv L m h" "distinct vs"
    and "\<forall>(l, v)\<in>set vs. l < length (ml_caches m) \<and> v \<in> fst ` set (layer_entries L m l)"
  shows "\<exists>as m'. pop_victims L vs m = Return (as, m') \<and> ml_inv L m' h \<and> same_layers m m' \<and>
    map (er_id \<circ> h) as = map snd vs \<and>
    (\<forall>i<length (ml_caches m). layer_entries L m' i = kept vs i (layer_entries L m i))"
  using assms
proof (induction vs arbitrary: m)
  case Nil
  then show ?case by (simp add: same_layers_refl kept_def)
next
  case (Cons p vs)
  obtain l v where p: "p = (l, v)" by (cases p)
  have l: "l < length (ml_caches m)" and v: "v \<in> fst ` set (layer_entries L m l)" using Cons.prems(3) p by auto
  note ci = ml_invD(1) [OF Cons.prems(1) l]
  obtain e i where pop: "lru_pop L (ec_inner (ml_caches m ! l)) v = (e, i)" by fastforce
  note S = pop_spec [OF ci pop]
  obtain a where a: "e = Some a" "map_of (layer_entries L m l) v = Some a"
    using S(2) v by (metis map_of_eq_None_iff not_None_eq)
  have ida: "er_id (h a) = v" using cache_invD(6) [OF ci map_of_SomeD [OF a(2)]] .
  let ?c = "(ml_caches m ! l)\<lparr>ec_inner := i\<rparr>"
  let ?m = "set_layer m l ?c"
  have route: "try_layer_idx m v = Some l" using ml_invD(2) [OF Cons.prems(1) l v] .
  have "fst ` set (entries L ?c) \<subseteq> insert v (fst ` set (layer_entries L m l))"
    using S(3) by (auto simp: set_del_key)
  then have K: "ml_inv L ?m h \<and> same_layers m ?m"
    using set_layer_keeps [OF Cons.prems(1) l S(1) _ _ _ _ _ route] by simp
  have le: "layer_entries L ?m j = (if j = l then del_key v (layer_entries L m l) else layer_entries L m j)"
    if "j < length (ml_caches m)" for j
    using that l S(3) by simp
  have dv: "distinct vs" using Cons.prems(2) by simp
  have vs: "\<forall>(j, w)\<in>set vs. j < length (ml_caches ?m) \<and> w \<in> fst ` set (layer_entries L ?m j)"
  proof clarify
    fix j w assume m: "(j, w) \<in> set vs"
    then have j: "j < length (ml_caches m)" "w \<in> fst ` set (layer_entries L m j)" using Cons.prems(3) by auto
    have "(j, w) \<noteq> (l, v)" using m Cons.prems(2) p by auto
    then show "j < length (ml_caches ?m) \<and> w \<in> fst ` set (layer_entries L ?m j)"
      using j le [OF j(1)] by (auto simp: fst_del_key)
  qed
  obtain as m' where w: "pop_victims L vs ?m = Return (as, m')" "ml_inv L m' h" "same_layers ?m m'"
      "map (er_id \<circ> h) as = map snd vs"
      "\<forall>i<length (ml_caches ?m). layer_entries L m' i = kept vs i (layer_entries L ?m i)"
    using Cons.IH [OF conjunct1 [OF K] dv vs] by blast
  have "\<forall>j<length (ml_caches m). layer_entries L m' j = kept (p # vs) j (layer_entries L m j)"
    using w(5) le by (simp add: p kept_Cons)
  moreover have "pop_victims L (p # vs) m = Return (a # as, m')"
    using w(1) pop a(1) by (simp add: p)
  moreover have "same_layers m m'" using K w(3) same_layers_trans by blast
  moreover have "map (er_id \<circ> h) (a # as) = map snd (p # vs)" using w(4) by (simp add: p ida comp_def)
  ultimately show ?case using w(2) by blast
qed

text \<open>What a granted reservation is: the caches minus the victims, with the positions of the plan.\<close>

definition granted ::
    "'c multi_layer \<Rightarrow> 'h store \<Rightarrow> (u32 \<times> usize \<times> bool) list \<Rightarrow> plan_state \<Rightarrow> reservation_outcome \<Rightarrow> 'c multi_layer \<Rightarrow> bool" where
  "granted m h reqs st out m' \<longleftrightarrow>
     ro_eviction_ids out = ps_eviction_ids st \<and>
     map (er_id \<circ> h) (ro_victims out) = map snd (ps_resident_victims st) \<and>
     dr_requests (ro_reservation out) = zip (map fst reqs) (ps_final_layers st) \<and>
     dr_next_request (ro_reservation out) = 0 \<and>
     length (dr_layers (ro_reservation out)) = length (ml_caches m) \<and>
     (\<forall>i<length (ml_caches m). dr_layers (ro_reservation out) ! i =
        (let n = length (staying (ps_final_layers st) (length reqs) i) in if n > 0 then Some n else None)) \<and>
     ml_inv L m' h \<and> ml_experts_per_layer m' = ml_experts_per_layer m \<and>
     length (ml_caches m') = length (ml_caches m) \<and>
     (\<forall>i<length (ml_caches m).
        ec_pinned (ml_caches m' ! i) = ec_pinned (ml_caches m ! i) \<and>
        ec_capacity (ml_caches m' ! i) = ec_capacity (ml_caches m ! i) \<and>
        ec_cost_aware (ml_caches m' ! i) = ec_cost_aware (ml_caches m ! i) \<and>
        ec_reserved_slots (ml_caches m' ! i) =
          ec_reserved_slots (ml_caches m ! i) + length (staying (ps_final_layers st) (length reqs) i) \<and>
        layer_entries L m' i = kept (ps_resident_victims st) i (layer_entries L m i))"

lemma count_staying:
  "length finals = k \<Longrightarrow> length (filter (\<lambda>f. f = Some i) finals) = length (staying finals k i)"
  by (auto simp: staying_def length_filter_conv_card intro!: arg_cong [of _ _ card])

lemma reserve_layers_nth:
  assumes "reserve_layers m counts = (ds, m')" "length counts = length (ml_caches m)" "i < length (ml_caches m)"
  shows "ml_caches m' ! i = (ml_caches m ! i)\<lparr>ec_reserved_slots := ec_reserved_slots (ml_caches m ! i) + counts ! i\<rparr>"
  using assms by (auto simp: reserve_layers_def reservation_new_def)

lemma reserve_granted:
  assumes inv: "ml_inv L m h"
    and pi: "plan_inv (map ec_capacity (ml_caches m)) reqs (layer_entries L m) (\<lambda>i. ec_pinned (ml_caches m ! i))
       (\<lambda>i. ec_reserved_slots (ml_caches m ! i)) (length reqs) st"
    and pop: "pop_victims L (ps_resident_victims st) m = Return (as, m1)" "ml_inv L m1 h" "same_layers m m1"
      "map (er_id \<circ> h) as = map snd (ps_resident_victims st)"
      "\<forall>i<length (ml_caches m). layer_entries L m1 i = kept (ps_resident_victims st) i (layer_entries L m i)"
    and res: "reserve_layers m1 (final_reservations (length (ml_caches m1)) (ps_final_layers st)) = (ds, m')"
  shows "granted m h reqs st \<lparr>ro_reservation = \<lparr>dr_layers = ds, dr_requests = zip (map fst reqs) (ps_final_layers st),
     dr_next_request = 0\<rparr>, ro_eviction_ids = ps_eviction_ids st, ro_victims = as\<rparr> m'"
proof -
  let ?n = "length (ml_caches m)" and ?s = "\<lambda>i. length (staying (ps_final_layers st) (length reqs) i)"
  note I = plan_invD [OF pi]
  have n1: "length (ml_caches m1) = ?n" using pop(3) by (simp add: same_layers_def)
  let ?counts = "final_reservations ?n (ps_final_layers st)"
  have counts: "length ?counts = ?n" "i < ?n \<Longrightarrow> ?counts ! i = ?s i" for i
    using count_staying [OF I(2)] by (simp_all add: final_reservations_def)
  have res': "reserve_layers m1 ?counts = (ds, m')" using res by (simp add: n1)
  note N = reserve_layers_nth [OF res', unfolded n1, OF counts(1)]
  have ds: "ds = map (\<lambda>n. if n > 0 then Some n else None) ?counts" and m': "length (ml_caches m') = ?n"
      "ml_experts_per_layer m' = ml_experts_per_layer m"
    using res' counts(1) n1 pop(3) by (auto simp: reserve_layers_def same_layers_def)
  have fr: "ec_pinned (ml_caches m' ! i) = ec_pinned (ml_caches m ! i) \<and>
        ec_capacity (ml_caches m' ! i) = ec_capacity (ml_caches m ! i) \<and>
        ec_cost_aware (ml_caches m' ! i) = ec_cost_aware (ml_caches m ! i) \<and>
        ec_reserved_slots (ml_caches m' ! i) = ec_reserved_slots (ml_caches m ! i) + ?s i \<and>
        layer_entries L m' i = kept (ps_resident_victims st) i (layer_entries L m i)" if i: "i < ?n" for i
    using N [OF i] counts(2) [OF i] pop(3,5) i by (simp add: same_layers_def)
  have inv': "cache_inv L (ml_caches m' ! i) h" if i: "i < ?n" for i
  proof -
    have "length (ps_layers st ! i) \<le> ec_capacity (ml_caches m ! i)" using I(5) [of i] i by simp
    then have "?s i + ec_reserved_slots (ml_caches m ! i) +
        length (kept (ps_resident_victims st) i (layer_entries L m i)) \<le> ec_capacity (ml_caches m ! i)"
      using I(4) [of i] i by (simp add: planned_layer_def)
    moreover have "cache_inv L (ml_caches m1 ! i) h" using ml_invD(1) [OF pop(2)] i n1 by simp
    ultimately show ?thesis using N [OF i] fr [OF i] by (simp add: cache_inv_def)
  qed
  have "map ec_capacity (ml_caches m') = map ec_capacity (ml_caches m)"
    using fr m'(1) by (intro nth_equalityI) simp_all
  then have cap: "ml_capacity m' = ml_capacity m" by (simp add: ml_capacity_def)
  have "try_layer_idx m' k = Some i" if "i < ?n" "k \<in> fst ` set (layer_entries L m' i)" for i k
  proof -
    have "k \<in> fst ` set (layer_entries L m i)" using that fr [OF that(1)] kept_subset by fastforce
    from ml_invD(2) [OF inv that(1) this] show ?thesis using m' by (simp add: try_layer_idx_def)
  qed
  then have "ml_inv L m' h" using inv cap inv' m'(1) by (auto simp: ml_inv_def)
  then show ?thesis using fr m' pop(4) counts by (simp add: granted_def ds Let_def)
qed

lemma plan_input_of_cache:
  assumes inv: "ml_inv L m h" and absent: "\<forall>x\<in>set ids. \<not> ml_contains L m x"
    and scan: "scan_requests m [] (replicate (length (ml_caches m)) 0) [] ids = Inr ls"
    and reqs: "reqs = map (\<lambda>(eid, layer). (eid, layer, eid \<in> ec_pinned (ml_caches m ! layer))) (zip ids ls)"
  shows "plan_input (length (ml_caches m)) reqs (layer_entries L m) (\<lambda>i. ec_pinned (ml_caches m ! i))"
    "map fst reqs = ids" "\<forall>j<length reqs. try_layer_idx m (fst (reqs ! j)) = Some (fst (snd (reqs ! j)))"
proof -
  have S: "distinct ids" "length ids = length ls" "\<And>j. j < length ids \<Longrightarrow> try_layer_idx m (ids ! j) = Some (ls ! j)"
    using scan_requests_spec [OF scan] by (auto dest: list_all2_lengthD list_all2_nthD)
  show f: "map fst reqs = ids" using S(2) by (simp add: reqs comp_def split_def)
  show "\<forall>j<length reqs. try_layer_idx m (fst (reqs ! j)) = Some (fst (snd (reqs ! j)))"
    using S by (simp add: reqs)
  have "ids ! j \<notin> fst ` set (layer_entries L m i)" if "j < length ids" "i < length (ml_caches m)" for i j
  proof
    assume mem: "ids ! j \<in> fst ` set (layer_entries L m i)"
    then have "try_layer_idx m (ids ! j) = Some i" by (rule ml_invD(2) [OF inv that(2)])
    moreover have "contains L (ml_caches m ! i) (ids ! j)"
      using mem cache_invD(8) [OF ml_invD(1) [OF inv that(2)]] by (metis contains_def map_of_eq_None_iff)
    ultimately show False using absent nth_mem [OF that(1)] by (auto simp: ml_contains_def)
  qed
  then show "plan_input (length (ml_caches m)) reqs (layer_entries L m) (\<lambda>i. ec_pinned (ml_caches m ! i))"
    using S try_layer_idx_less [OF S(3)] f cache_invD(5) [OF ml_invD(1) [OF inv]]
    by (simp add: plan_input_def reqs)
qed

lemma reserve_spec:
  assumes inv: "ml_inv L m h" and absent: "\<forall>x\<in>set ids. \<not> ml_contains L m x"
  defines "caps \<equiv> map ec_capacity (ml_caches m)" and "es \<equiv> layer_entries L m"
    and "P \<equiv> \<lambda>i. ec_pinned (ml_caches m ! i)" and "R \<equiv> \<lambda>i. ec_reserved_slots (ml_caches m ! i)"
  shows "\<exists>res m'. try_reserve_exact_demand L m ids = Return (res, m') \<and>
    (case res of
       Inl e \<Rightarrow> m' = m
     | Inr out \<Rightarrow> \<exists>reqs st. map fst reqs = ids \<and> plan_input (length caps) reqs es P \<and>
         (\<forall>j<length reqs. try_layer_idx m (fst (reqs ! j)) = Some (fst (snd (reqs ! j)))) \<and>
         (\<forall>c\<in>set (ml_caches m). \<not> ec_cost_aware c) \<and>
         plan_inv caps reqs es P R 0 (plan_start (map (virtual_layer L) (ml_caches m)) reqs) \<and>
         counted (plan_start (map (virtual_layer L) (ml_caches m)) reqs) \<and>
         plan_requests caps 0 reqs (plan_start (map (virtual_layer L) (ml_caches m)) reqs) = Inr st \<and>
         plan_inv caps reqs es P R (length reqs) st \<and> granted m h reqs st out m')"
proof (cases "scan_requests m [] (replicate (length (ml_caches m)) 0) [] ids")
  case (Inl e)
  then show ?thesis by (intro exI [of _ "Inl e"] exI [of _ m]) (simp add: try_reserve_exact_demand_def)
next
  case scan: (Inr ls)
  define reqs where "reqs = map (\<lambda>(eid, layer). (eid, layer, eid \<in> ec_pinned (ml_caches m ! layer))) (zip ids ls)"
  let ?start = "plan_start (map (virtual_layer L) (ml_caches m)) reqs"
  show ?thesis
  proof (cases "\<exists>c\<in>set (ml_caches m). ec_cost_aware c")
    case True
    then show ?thesis using scan
      by (intro exI [of _ "Inl CostAwarePolicy"] exI [of _ m]) (simp add: try_reserve_exact_demand_def)
  next
    case ncost: False
    note PI = plan_input_of_cache [OF inv absent scan reqs_def]
    have inp: "plan_input (length caps) reqs es P" using PI(1) by (simp add: caps_def es_def P_def)
    have start: "plan_inv caps reqs es P R 0 ?start" "counted ?start"
      by (rule plan_start_inv [where es = es and P = P and R = R and caps = caps];
          use cache_invD(3) [OF ml_invD(1) [OF inv]] in
          \<open>simp add: caps_def es_def P_def R_def virtual_layer_def split_def add.commute\<close>)+
    show ?thesis
    proof (cases "plan_requests caps 0 reqs ?start")
      case (Inl e)
      then show ?thesis using scan ncost
        by (intro exI [of _ "Inl e"] exI [of _ m])
          (simp add: try_reserve_exact_demand_def Let_def plan_sequential_victims_def reqs_def caps_def)
    next
      case plan: (Inr st)
      have pi: "plan_inv caps reqs es P R (length reqs) st"
        by (rule plan_requests_inv [OF inp _ start]) (simp add: plan)
      have "\<forall>(l, v)\<in>set (ps_resident_victims st). l < length (ml_caches m) \<and> v \<in> fst ` set (layer_entries L m l)"
        using plan_invD(7) [OF pi] by (auto simp: caps_def es_def)
      from pop_victims_spec [OF inv plan_invD(6) [OF pi] this] obtain as m1
        where pop: "pop_victims L (ps_resident_victims st) m = Return (as, m1)" "ml_inv L m1 h" "same_layers m m1"
          "map (er_id \<circ> h) as = map snd (ps_resident_victims st)"
          "\<forall>i<length (ml_caches m). layer_entries L m1 i = kept (ps_resident_victims st) i (layer_entries L m i)"
        by blast
      obtain ds m' where res: "reserve_layers m1 (final_reservations (length (ml_caches m1)) (ps_final_layers st)) = (ds, m')"
        by fastforce
      note G = reserve_granted [OF inv pi [unfolded caps_def es_def P_def R_def] pop res]
      let ?out = "\<lparr>ro_reservation = \<lparr>dr_layers = ds, dr_requests = zip (map fst reqs) (ps_final_layers st),
         dr_next_request = 0\<rparr>, ro_eviction_ids = ps_eviction_ids st, ro_victims = as\<rparr>"
      have "try_reserve_exact_demand L m ids = Return (Inr ?out, m')"
        unfolding try_reserve_exact_demand_def scan sum.case if_not_P [OF ncost] Let_def
          plan_sequential_victims_def reqs_def [symmetric] caps_def [symmetric] plan
        using pop(1) res PI(2) by simp
      then show ?thesis using G PI inp ncost start plan pi by (intro exI [of _ "Inr ?out"] exI [of _ m']) auto
    qed
  qed
qed

end

subsection \<open>Committing the reads\<close>

definition slots :: "demand_reservation \<Rightarrow> usize \<Rightarrow> usize" where
  "slots d i = (case dr_layers d ! i of None \<Rightarrow> 0 | Some n \<Rightarrow> n)"

definition left_for :: "usize option list \<Rightarrow> usize \<Rightarrow> usize \<Rightarrow> usize" where
  "left_for finals j i = length (filter (\<lambda>x. finals ! x = Some i) [j..<length finals])"

lemma left_for_step:
  "j < length finals \<Longrightarrow> left_for finals j i = (if finals ! j = Some i then 1 else 0) + left_for finals (Suc j) i"
  by (simp add: left_for_def upt_conv_Cons)

lemma left_for_start: "length (staying finals (length finals) i) = left_for finals 0 i"
  by (simp add: left_for_def staying_def)

context expert_lru
begin

definition committing ::
    "usize \<Rightarrow> (u32 \<times> usize \<times> bool) list \<Rightarrow> nat list \<Rightarrow> (usize \<Rightarrow> (u32 \<times> nat) list) \<Rightarrow> usize option list \<Rightarrow>
     (usize \<times> u32) list \<Rightarrow> (usize \<Rightarrow> usize) \<Rightarrow> usize \<Rightarrow> demand_reservation \<Rightarrow> 'c multi_layer \<Rightarrow> 'h store \<Rightarrow> bool" where
  "committing n reqs rs es finals victims R j d m h \<longleftrightarrow> ml_inv L m h \<and> length (ml_caches m) = n \<and>
     dr_next_request d = j \<and> dr_requests d = zip (map fst reqs) finals \<and> length (dr_layers d) = n \<and>
     length finals = length reqs \<and>
     (\<forall>i<n. layer_entries L m i = planned_entries reqs rs es j finals victims i \<and>
        ec_reserved_slots (ml_caches m ! i) = R i + left_for finals j i \<and>
        slots d i = left_for finals j i)"

lemma commit_step:
  assumes inp: "plan_input n reqs es P" and j: "j < length reqs"
    and com: "committing n reqs rs es finals victims R j d m h"
    and fin: "finals ! j = None \<or> finals ! j = Some (fst (snd (reqs ! j)))"
    and route: "try_layer_idx m (fst (reqs ! j)) = Some (fst (snd (reqs ! j)))" "er_id (h (rs ! j)) = fst (reqs ! j)"
    and dc: "demand_commit L d m h (rs ! j) = (x, d', m')"
  shows "x = Inr (finals ! j \<noteq> None) \<and> committing n reqs rs es finals victims R (Suc j) d' m' h \<and>
    ml_experts_per_layer m' = ml_experts_per_layer m \<and>
    map ec_pinned (ml_caches m') = map ec_pinned (ml_caches m)"
proof -
  have C: "ml_inv L m h" "length (ml_caches m) = n" "dr_next_request d = j" "dr_requests d = zip (map fst reqs) finals"
      "length (dr_layers d) = n" "length finals = length reqs"
      "\<And>i. i < n \<Longrightarrow> layer_entries L m i = planned_entries reqs rs es j finals victims i"
      "\<And>i. i < n \<Longrightarrow> ec_reserved_slots (ml_caches m ! i) = R i + left_for finals j i"
      "\<And>i. i < n \<Longrightarrow> slots d i = left_for finals j i"
    using com by (simp_all add: committing_def)
  have jf: "j < length finals" using j C(6) by simp
  have req: "\<not> length (dr_requests d) \<le> dr_next_request d" "dr_requests d ! dr_next_request d = (fst (reqs ! j), finals ! j)"
    using j jf by (simp_all add: C(3,4))
  note step = left_for_step [OF jf]
  show ?thesis
  proof (cases "finals ! j")
    case None
    then have o: "x = Inr False" "d' = d\<lparr>dr_next_request := dr_next_request d + 1\<rparr>" "m' = m"
      using dc req route(2) by (simp_all add: demand_commit_def)
    have "planned_entries reqs rs es (Suc j) finals victims i = planned_entries reqs rs es j finals victims i" for i
      using None by (simp add: planned_entries_def staying_Suc)
    moreover have "left_for finals (Suc j) i = left_for finals j i" for i using step [of i] None by simp
    ultimately have "committing n reqs rs es finals victims R (Suc j) d' m' h"
      using com by (simp add: committing_def o slots_def)
    then show ?thesis using None o by simp
  next
    case (Some l)
    then have l: "l = fst (snd (reqs ! j))" "l < n" using fin plan_inputD(2) [OF inp j] by auto
    have pos: "left_for finals j l = Suc (left_for finals (Suc j) l)" using step [of l] Some by simp
    then have dl: "dr_layers d ! l = Some (left_for finals j l)" using C(9) [OF l(2)] by (auto simp: slots_def split: option.splits)
    let ?c = "ml_caches m ! l" and ?k = "left_for finals j l"
    have lm: "l < length (ml_caches m)" using l C(2) by simp
    obtain e k' c' where rc: "reservation_commit L ?k ?c h (rs ! j) = (e, k', c')" by (metis prod_cases3)
    have "map_of (layer_entries L m l) (er_id (h (rs ! j))) = None"
      using requested_absent [OF inp j l(2) order_refl] C(7) [OF l(2)] route(2) by (simp add: map_of_eq_None_iff)
    then have S: "cache_inv L c' h" "e = Inr ()" "k' = ?k - 1" "entries L c' = (fst (reqs ! j), rs ! j) # layer_entries L m l"
        "c' = ?c\<lparr>ec_inner := ec_inner c', ec_reserved_slots := ec_reserved_slots ?c - 1\<rparr>"
      using commit_spec [OF ml_invD(1) [OF C(1) lm] _ rc] C(8) [OF l(2)] pos route(2) by simp_all
    have cf: "ec_capacity c' = ec_capacity ?c" "ec_pinned c' = ec_pinned ?c" "ec_reserved_slots c' = ec_reserved_slots ?c - 1"
      by (subst S(5), simp)+
    have o: "x = Inr True" "d' = d\<lparr>dr_layers := (dr_layers d)[l := Some k'], dr_next_request := dr_next_request d + 1\<rparr>"
        "m' = set_layer m l c'"
      using dc req route(2) Some dl rc S(2) C(5) l(2) by (simp_all add: demand_commit_def)
    have keys: "try_layer_idx m y = Some l" if "y \<in> fst ` set (entries L c')" for y
      using that S(4) route(1) l(1) ml_invD(2) [OF C(1) lm] by auto
    have inv': "ml_inv L m' h" unfolding o(3) by (rule ml_inv_set_layer [OF C(1) lm S(1) cf(1) keys]) simp_all
    have "layer_entries L m' i = planned_entries reqs rs es (Suc j) finals victims i \<and>
        ec_reserved_slots (ml_caches m' ! i) = R i + left_for finals (Suc j) i \<and>
        slots d' i = left_for finals (Suc j) i"
      if i: "i < n" for i
    proof (cases "i = l")
      case True
      then show ?thesis using S(3,4) cf(3) C(7,8) [OF l(2)] C(5) lm l(2) pos Some
        by (simp add: o planned_entries_def staying_Suc slots_def)
    next
      case False
      then show ?thesis using C(7,8,9) [OF i] step [of i] Some by (simp add: o planned_entries_def staying_Suc slots_def)
    qed
    then have "committing n reqs rs es finals victims R (Suc j) d' m' h"
      using C inv' by (simp add: committing_def o)
    moreover have "map ec_pinned (ml_caches m') = map ec_pinned (ml_caches m)"
      by (simp add: o(3) map_update cf(2)) (metis list_update_id nth_map lm)
    ultimately show ?thesis using Some o by simp
  qed
qed

lemma commit_all_spec:
  assumes inp: "plan_input n reqs es P" and fin: "\<forall>j<length reqs. finals ! j = None \<or> finals ! j = Some (fst (snd (reqs ! j)))"
    and len: "length rs = length reqs"
  shows "j \<le> length reqs \<Longrightarrow> committing n reqs rs es finals victims R j d m h \<Longrightarrow>
    \<forall>j<length reqs. try_layer_idx m (fst (reqs ! j)) = Some (fst (snd (reqs ! j))) \<and> er_id (h (rs ! j)) = fst (reqs ! j) \<Longrightarrow>
    commit_all L d m h (drop j rs) = (xs, d', m') \<Longrightarrow>
    xs = map (\<lambda>x. Inr (finals ! x \<noteq> None)) [j..<length reqs] \<and>
    committing n reqs rs es finals victims R (length reqs) d' m' h \<and>
    ml_experts_per_layer m' = ml_experts_per_layer m \<and> map ec_pinned (ml_caches m') = map ec_pinned (ml_caches m)"
proof (induction "length reqs - j" arbitrary: j d m xs)
  case 0
  then show ?case using len by simp
next
  case (Suc k)
  have j: "j < length reqs" using Suc.hyps(2) by simp
  have dr: "drop j rs = rs ! j # drop (Suc j) rs" using j len by (metis Cons_nth_drop_Suc)
  obtain x d1 m1 ys where c1: "demand_commit L d m h (rs ! j) = (x, d1, m1)"
      and c2: "commit_all L d1 m1 h (drop (Suc j) rs) = (ys, d', m')" and xs: "xs = x # ys"
    using Suc.prems(4) unfolding dr by (auto simp: Let_def split: prod.splits)
  have rj: "try_layer_idx m (fst (reqs ! j)) = Some (fst (snd (reqs ! j)))" "er_id (h (rs ! j)) = fst (reqs ! j)"
      "finals ! j = None \<or> finals ! j = Some (fst (snd (reqs ! j)))"
    using Suc.prems(3) fin j by auto
  note S = commit_step [OF inp j Suc.prems(2) rj(3,1,2) c1]
  have "length (ml_caches m1) = length (ml_caches m)" "ml_experts_per_layer m1 = ml_experts_per_layer m"
    using S Suc.prems(2) by (simp_all add: committing_def)
  then have "try_layer_idx m1 y = try_layer_idx m y" for y by (simp add: try_layer_idx_def)
  then have r1: "\<forall>j<length reqs. try_layer_idx m1 (fst (reqs ! j)) = Some (fst (snd (reqs ! j))) \<and> er_id (h (rs ! j)) = fst (reqs ! j)"
    using Suc.prems(3) by simp
  have k: "k = length reqs - Suc j" using Suc.hyps(2) by simp
  have le: "Suc j \<le> length reqs" using j by simp
  note IH = Suc.hyps(1) [OF k le conjunct1 [OF conjunct2 [OF S]] r1 c2]
  have "[j..<length reqs] = j # [Suc j..<length reqs]" using j by (rule upt_conv_Cons)
  then show ?case using IH S xs by simp
qed

end

subsection \<open>The caches under concurrent clients\<close>

text \<open>
  The caches with their store and the demand guards that clients hold. A reservation is asked for
  after the caller has seen that no requested expert is resident, as the batched source path does.
\<close>

type_synonym ('c, 'h) ml_system = "'c multi_layer \<times> 'h store \<times> demand_reservation list"

inductive ml_step ::
    "('c, nat) lru_ops \<Rightarrow> 'h f64_ops \<Rightarrow> ('c, 'h) ml_system \<Rightarrow> ('c, 'h) ml_system \<Rightarrow> bool"
  for L :: "('c, nat) lru_ops" and F :: "'h f64_ops" where
  ml_lookup: "ml_get L F m h eid = (res, m', h') \<Longrightarrow> ml_step L F (m, h, ds) (m', h', ds)"
| ml_insertion: "ml_insert L F m h r = (res, m', h') \<Longrightarrow> ml_step L F (m, h, ds) (m', h', ds)"
| ml_eviction: "ml_evict_lru L F m h = (res, m') \<Longrightarrow> ml_step L F (m, h, ds) (m', h, ds)"
| ml_shadow_eviction: "ml_evict_lru_shadow_backed L m h = (res, m') \<Longrightarrow> ml_step L F (m, h, ds) (m', h, ds)"
| ml_pinning: "ml_step L F (m, h, ds) (ml_pin m eid, h, ds)"
| ml_unpinning: "ml_step L F (m, h, ds) (ml_unpin m eid, h, ds)"
| ml_policy: "ml_step L F (m, h, ds) (ml_set_cost_aware m on, h, ds)"
| ml_demand: "\<forall>x\<in>set ids. \<not> ml_contains L m x \<Longrightarrow>
    try_reserve_exact_demand L m ids = Return (Inr out, m') \<Longrightarrow>
    ml_step L F (m, h, ds) (m', h, ro_reservation out # ds)"
| ml_commit: "i < length ds \<Longrightarrow> demand_commit L (ds ! i) m h r = (res, d, m') \<Longrightarrow>
    ml_step L F (m, h, ds) (m', h, ds[i := d])"
| ml_release: "i < length ds \<Longrightarrow>
    ml_step L F (m, h, ds) (demand_drop (ds ! i) m, h, take i ds @ drop (Suc i) ds)"
| ml_fresh_resident: "\<forall>c\<in>set (ml_caches m). a \<notin> snd ` set (lru_iter L (ec_inner c)) \<Longrightarrow>
    ml_step L F (m, h, ds) (m, h(a := r), ds)"
| ml_hit: "ml_step L F (m, h, ds) (m, h(a := snd (record_hit (h a))), ds)"

inductive ml_run ::
    "('c, nat) lru_ops \<Rightarrow> 'h f64_ops \<Rightarrow> ('c, 'h) ml_system \<Rightarrow> ('c, 'h) ml_system \<Rightarrow> bool"
  for L :: "('c, nat) lru_ops" and F :: "'h f64_ops" where
  ml_run_refl: "ml_run L F s s"
| ml_run_step: "ml_run L F s t \<Longrightarrow> ml_step L F t u \<Longrightarrow> ml_run L F s u"

definition guard_ok :: "'c multi_layer \<Rightarrow> demand_reservation \<Rightarrow> bool" where
  "guard_ok m d \<longleftrightarrow> length (dr_layers d) = length (ml_caches m) \<and>
     (\<forall>(x, f)\<in>set (dr_requests d). \<forall>l. f = Some l \<longrightarrow> try_layer_idx m x = Some l)"

definition ml_system_inv :: "('c, nat) lru_ops \<Rightarrow> ('c, 'h) ml_system \<Rightarrow> bool" where
  "ml_system_inv L s = (case s of (m, h, ds) \<Rightarrow> ml_inv L m h \<and> (\<forall>d\<in>set ds. guard_ok m d) \<and>
     (\<forall>i<length (ml_caches m). ec_reserved_slots (ml_caches m ! i) = sum_list (map (\<lambda>d. slots d i) ds)))"

text \<open>What every step keeps: the layers, their capacities and the stride.\<close>

definition same_frame :: "'c multi_layer \<Rightarrow> 'c multi_layer \<Rightarrow> bool" where
  "same_frame m m' \<longleftrightarrow> ml_experts_per_layer m' = ml_experts_per_layer m \<and>
     map ec_capacity (ml_caches m') = map ec_capacity (ml_caches m)"

lemma same_frameD:
  assumes "same_frame m m'"
  shows "length (ml_caches m') = length (ml_caches m)" "try_layer_idx m' k = try_layer_idx m k"
    "guard_ok m' d \<longleftrightarrow> guard_ok m d" "ml_capacity m' = ml_capacity m"
proof -
  show l: "length (ml_caches m') = length (ml_caches m)"
    using assms unfolding same_frame_def by (metis length_map)
  show "try_layer_idx m' k = try_layer_idx m k" for k
    using assms l by (simp add: same_frame_def try_layer_idx_def)
  then show "guard_ok m' d \<longleftrightarrow> guard_ok m d" by (simp add: guard_ok_def l)
  show "ml_capacity m' = ml_capacity m" using assms by (simp add: same_frame_def ml_capacity_def)
qed

lemma same_layers_frame: "same_layers m m' \<Longrightarrow> same_frame m m'"
  by (auto simp: same_layers_def same_frame_def intro: nth_equalityI)

text \<open>A step that changes caches only inside their layers.\<close>

lemma ml_inv_pointwise:
  assumes inv: "ml_inv L m h" and f: "same_frame m m'"
    and c: "\<And>i. i < length (ml_caches m) \<Longrightarrow> cache_inv L (ml_caches m' ! i) h' \<and>
      fst ` set (layer_entries L m' i) \<subseteq> fst ` set (layer_entries L m i)"
  shows "ml_inv L m' h'"
proof -
  note D = same_frameD [OF f]
  have "try_layer_idx m' k = Some i" if "i < length (ml_caches m)" "k \<in> fst ` set (layer_entries L m' i)" for i k
    using ml_invD(2) [OF inv that(1), of k] c [OF that(1)] that(2) D(2) by auto
  moreover have "ml_caches m' \<noteq> []" using inv D(1) by (auto simp: ml_inv_def)
  moreover have "ml_capacity m' \<le> usize_MAX" using inv D(4) by (simp add: ml_inv_def)
  ultimately show ?thesis unfolding ml_inv_def D(1) using c by blast
qed

lemma store_change:
  assumes inv: "ml_inv L m h"
    and h': "\<And>i k r. i < length (ml_caches m) \<Longrightarrow> (k, r) \<in> set (layer_entries L m i) \<Longrightarrow> er_id (h' r) = er_id (h r)"
  shows "ml_inv L m h'"
proof (rule ml_inv_pointwise [OF inv])
  show "same_frame m m" by (simp add: same_frame_def)
  fix i assume i: "i < length (ml_caches m)"
  have "\<forall>(k, r)\<in>set (layer_entries L m i). er_id (h' r) = k"
    using ml_invD(1) [OF inv i] h' [OF i] by (auto simp: cache_inv_def)
  then show "cache_inv L (ml_caches m ! i) h' \<and> fst ` set (layer_entries L m i) \<subseteq> fst ` set (layer_entries L m i)"
    using ml_invD(1) [OF inv i] by (simp add: cache_inv_def)
qed

lemma same_layers_system:
  assumes "ml_system_inv L (m, h, ds)" "ml_inv L m' h'" "same_layers m m'"
  shows "ml_system_inv L (m', h', ds) \<and> same_frame m m'"
  using assms same_frameD [OF same_layers_frame [OF assms(3)]] same_layers_frame [OF assms(3)]
  by (simp add: ml_system_inv_def same_layers_def)

lemma map_layers_system:
  assumes inv: "ml_system_inv L (m, h, ds)"
    and c: "length (ml_caches m') = length (ml_caches m)" "ml_experts_per_layer m' = ml_experts_per_layer m"
      "\<And>i. i < length (ml_caches m) \<Longrightarrow> ec_inner (ml_caches m' ! i) = ec_inner (ml_caches m ! i) \<and>
         ec_capacity (ml_caches m' ! i) = ec_capacity (ml_caches m ! i) \<and>
         ec_reserved_slots (ml_caches m' ! i) = ec_reserved_slots (ml_caches m ! i)"
  shows "ml_system_inv L (m', h, ds) \<and> same_frame m m'"
proof -
  have mi: "ml_inv L m h" using inv by (simp add: ml_system_inv_def)
  have f: "same_frame m m'" using c by (auto simp: same_frame_def intro: nth_equalityI)
  have "ml_inv L m' h"
    by (rule ml_inv_pointwise [OF mi f]) (use ml_invD(1) [OF mi] c(3) in \<open>simp add: cache_inv_def\<close>)
  then show ?thesis using inv f c same_frameD [OF f] by (simp add: ml_system_inv_def)
qed

lemma pin_system:
  assumes "ml_system_inv L (m, h, ds)"
  shows "ml_system_inv L (ml_pin m eid, h, ds) \<and> same_frame m (ml_pin m eid)"
    "ml_system_inv L (ml_unpin m eid, h, ds) \<and> same_frame m (ml_unpin m eid)"
    "ml_system_inv L (ml_set_cost_aware m on, h, ds) \<and> same_frame m (ml_set_cost_aware m on)"
  by (rule map_layers_system [OF assms];
      auto simp: ml_pin_def ml_unpin_def ml_set_cost_aware_def pin_def unpin_def set_cost_aware_def
        nth_list_update split: option.split dest: try_layer_idx_less)+

lemma remaining_slots: "remaining d = sum_list (map (slots d) [0..<length (dr_layers d)])"
  unfolding remaining_def
  by (rule arg_cong [of _ _ sum_list], rule nth_equalityI) (simp_all add: slots_def)

lemma slots_le:
  assumes "ml_system_inv L (m, h, ds)" "i < length ds" "l < length (ml_caches m)"
  shows "slots (ds ! i) l \<le> ec_reserved_slots (ml_caches m ! l)"
proof -
  have "slots (ds ! i) l \<in> set (map (\<lambda>d. slots d l) ds)" using assms(2) by auto
  then show ?thesis using assms(1,3) member_le_sum_list by (fastforce simp: ml_system_inv_def)
qed

lemma release_system:
  assumes inv: "ml_system_inv L (m, h, ds)" and i: "i < length ds"
  shows "ml_system_inv L (demand_drop (ds ! i) m, h, take i ds @ drop (Suc i) ds) \<and>
    same_frame m (demand_drop (ds ! i) m)"
proof -
  let ?d = "ds ! i" and ?n = "length (ml_caches m)"
  let ?m = "demand_drop ?d m"
  have mi: "ml_inv L m h" and len: "length (dr_layers ?d) = ?n"
    using inv i by (auto simp: ml_system_inv_def guard_ok_def)
  have c: "ml_caches ?m ! l = (ml_caches m ! l)\<lparr>ec_reserved_slots := ec_reserved_slots (ml_caches m ! l) - slots ?d l\<rparr>"
    if "l < ?n" for l
    using that len by (simp add: demand_drop_def slots_def reservation_drop_def split: option.split)
  have l: "length (ml_caches ?m) = ?n" using len by (simp add: demand_drop_def)
  have f: "same_frame m ?m"
    using c l by (auto simp: same_frame_def demand_drop_def intro!: nth_equalityI)
  have "ml_inv L ?m h"
  proof (rule ml_inv_pointwise [OF mi f])
    fix j assume j: "j < ?n"
    have "cache_inv L (ml_caches m ! j) h" by (rule ml_invD(1) [OF mi j])
    then show "cache_inv L (ml_caches ?m ! j) h \<and> fst ` set (layer_entries L ?m j) \<subseteq> fst ` set (layer_entries L m j)"
      unfolding c [OF j] cache_inv_def by auto
  qed
  moreover have "ec_reserved_slots (ml_caches ?m ! j) = sum_list (map (\<lambda>d. slots d j) (take i ds @ drop (Suc i) ds))"
    if j: "j < ?n" for j
  proof -
    have "sum_list (map (\<lambda>d. slots d j) ds) = slots ?d j + sum_list (map (\<lambda>d. slots d j) (take i ds @ drop (Suc i) ds))"
      using sum_list_nth_split(1) [of i "map (\<lambda>d. slots d j) ds"] i by (simp add: take_map drop_map)
    then show ?thesis using inv j c [OF j] by (simp add: ml_system_inv_def)
  qed
  moreover have "\<forall>d\<in>set (take i ds @ drop (Suc i) ds). guard_ok ?m d"
    using inv same_frameD(3) [OF f] by (auto simp: ml_system_inv_def dest: in_set_takeD in_set_dropD)
  ultimately show ?thesis using f l by (simp add: ml_system_inv_def)
qed

lemma demand_commit_cases:
  assumes dc: "demand_commit L d m h r = (res, d', m')"
  obtains (rejected) "d' = d" "m' = m" "res = Inl r"
  | (skipped) "d' = d\<lparr>dr_next_request := dr_next_request d + 1\<rparr>" "m' = m" "res = Inr False"
  | (placed) l n e n' c where "(er_id (h r), Some l) \<in> set (dr_requests d)" "l < length (dr_layers d)"
      "dr_layers d ! l = Some n" "reservation_commit L n (ml_caches m ! l) h r = (e, n', c)"
      "dr_layers d' = (dr_layers d)[l := Some n']" "dr_requests d' = dr_requests d" "m' = set_layer m l c"
proof (cases "length (dr_requests d) \<le> dr_next_request d")
  case True
  with dc rejected show thesis by (simp add: demand_commit_def)
next
  case in_range: False
  obtain x f where q: "dr_requests d ! dr_next_request d = (x, f)" by fastforce
  have mem: "(x, f) \<in> set (dr_requests d)" using in_range q nth_mem by (metis not_le)
  show thesis
  proof (cases "er_id (h r) = x")
    case False
    with dc q in_range rejected show thesis by (simp add: demand_commit_def)
  next
    case x: True
    show thesis
    proof (cases f)
      case None
      with dc q in_range x skipped show thesis by (simp add: demand_commit_def)
    next
      case f: (Some l)
      show thesis
      proof (cases "l < length (dr_layers d) \<and> dr_layers d ! l \<noteq> None")
        case False
        with dc q in_range x f rejected show thesis by (auto simp: demand_commit_def split: if_splits)
      next
        case True
        then obtain n where n: "dr_layers d ! l = Some n" by auto
        obtain e n' c where rc: "reservation_commit L n (ml_caches m ! l) h r = (e, n', c)" by (metis prod_cases3)
        have "dr_layers d' = (dr_layers d)[l := Some n'] \<and> dr_requests d' = dr_requests d \<and> m' = set_layer m l c"
          using dc q in_range x f True n rc by (cases e) (auto simp: demand_commit_def)
        with placed mem x f True n rc show thesis by blast
      qed
    qed
  qed
qed

context expert_lru
begin

lemma commit_system:
  assumes inv: "ml_system_inv L (m, h, ds)" and i: "i < length ds"
    and dc: "demand_commit L (ds ! i) m h r = (res, d', m')"
  shows "ml_system_inv L (m', h, ds[i := d']) \<and> same_frame m m'"
  using dc
proof (cases rule: demand_commit_cases)
  case rejected
  with inv show ?thesis by (simp add: same_frame_def)
next
  case skipped
  have s: "slots d' l = slots (ds ! i) l" "guard_ok m d' = guard_ok m (ds ! i)" for l
    by (simp_all add: skipped slots_def guard_ok_def)
  have "sum_list (map (\<lambda>d. slots d l) (ds[i := d'])) = sum_list (map (\<lambda>d. slots d l) ds)" for l
    by (simp add: map_update s) (metis i length_map list_update_id nth_map)
  moreover have "\<forall>d\<in>set (ds[i := d']). guard_ok m d"
    using inv i s(2) set_update_subset_insert [of ds i d'] by (auto simp: ml_system_inv_def)
  ultimately show ?thesis using inv by (simp add: ml_system_inv_def skipped same_frame_def)
next
  case (placed l n e n' c)
  have mi: "ml_inv L m h" and g: "guard_ok m (ds ! i)" using inv i by (auto simp: ml_system_inv_def)
  have route: "try_layer_idx m (er_id (h r)) = Some l" using g placed(1) by (auto simp: guard_ok_def)
  note l = try_layer_idx_less [OF route]
  let ?c = "ml_caches m ! l"
  have n: "slots (ds ! i) l = n" by (simp add: slots_def placed)
  have le: "n \<le> ec_reserved_slots ?c" using slots_le [OF inv i l] by (simp add: n)
  note S = commit_spec [OF ml_invD(1) [OF mi l] le placed(4)]
  have "ec_capacity c = ec_capacity ?c \<and> cache_inv L c h \<and> ec_reserved_slots c + n = ec_reserved_slots ?c + n' \<and>
      fst ` set (entries L c) \<subseteq> insert (er_id (h r)) (fst ` set (layer_entries L m l))"
  proof (cases "0 < n \<and> map_of (layer_entries L m l) (er_id (h r)) = None")
    case True
    then have c: "c = ?c\<lparr>ec_inner := ec_inner c, ec_reserved_slots := ec_reserved_slots ?c - 1\<rparr>"
        and o: "n' = n - 1" "entries L c = (er_id (h r), r) # layer_entries L m l"
      using S by simp_all
    have "ec_capacity c = ec_capacity ?c" "ec_reserved_slots c = ec_reserved_slots ?c - 1" by (subst c, simp)+
    then show ?thesis using o True le conjunct1 [OF S] by simp
  next
    case False
    with S have "c = ?c" "n' = n" by simp_all
    with conjunct1 [OF S] show ?thesis by auto
  qed
  then have cf: "ec_capacity c = ec_capacity ?c" "cache_inv L c h" "ec_reserved_slots c + n = ec_reserved_slots ?c + n'"
      "fst ` set (entries L c) \<subseteq> insert (er_id (h r)) (fst ` set (layer_entries L m l))"
    by blast+
  have keys: "try_layer_idx m x = Some l" if "x \<in> fst ` set (entries L c)" for x
    using subsetD [OF cf(4) that] route ml_invD(2) [OF mi l] by blast
  have mi': "ml_inv L m' h" unfolding placed(7) by (rule ml_inv_set_layer [OF mi l cf(2,1) keys]) simp_all
  have f: "same_frame m m'"
    by (simp add: same_frame_def placed(7) map_update cf(1)) (metis l length_map list_update_id nth_map)
  have lay: "length (dr_layers (ds ! i)) = length (ml_caches m)" using g by (simp add: guard_ok_def)
  have sl: "slots d' j = (if j = l then n' else slots (ds ! i) j)" for j
    using l lay by (auto simp: slots_def placed)
  have "ec_reserved_slots (ml_caches m' ! j) = sum_list (map (\<lambda>d. slots d j) (ds[i := d']))"
    if j: "j < length (ml_caches m)" for j
  proof (cases "j = l")
    case True
    have "sum_list (map (\<lambda>d. slots d j) (ds[i := d'])) = ec_reserved_slots ?c + n' - n"
      using inv i l by (simp add: map_update sum_list_update sl n True ml_system_inv_def)
    then show ?thesis using True cf(3) l by (simp add: placed)
  next
    case False
    then have "sum_list (map (\<lambda>d. slots d j) (ds[i := d'])) = sum_list (map (\<lambda>d. slots d j) ds)"
      by (simp add: map_update sl) (metis i length_map list_update_id nth_map)
    then show ?thesis using inv j False by (simp add: placed ml_system_inv_def)
  qed
  moreover have "guard_ok m d'" using g by (simp add: guard_ok_def placed)
  then have "\<forall>d\<in>set (ds[i := d']). guard_ok m' d"
    using inv same_frameD(3) [OF f] set_update_subset_insert [of ds i d'] by (auto simp: ml_system_inv_def)
  ultimately show ?thesis using mi' f same_frameD(1) [OF f] by (simp add: ml_system_inv_def)
qed

lemma demand_system:
  assumes inv: "ml_system_inv L (m, h, ds)" and absent: "\<forall>x\<in>set ids. \<not> ml_contains L m x"
    and res: "try_reserve_exact_demand L m ids = Return (Inr out, m')"
  shows "ml_system_inv L (m', h, ro_reservation out # ds) \<and> same_frame m m'"
proof -
  let ?d = "ro_reservation out"
  have mi: "ml_inv L m h" using inv by (simp add: ml_system_inv_def)
  obtain reqs st where w: "plan_inv (map ec_capacity (ml_caches m)) reqs (layer_entries L m) (\<lambda>i. ec_pinned (ml_caches m ! i))
         (\<lambda>i. ec_reserved_slots (ml_caches m ! i)) (length reqs) st"
      "\<forall>j<length reqs. try_layer_idx m (fst (reqs ! j)) = Some (fst (snd (reqs ! j)))" and "granted m h reqs st out m'"
    using reserve_spec [OF mi absent] res by auto
  then have G: "ml_inv L m' h" "ml_experts_per_layer m' = ml_experts_per_layer m"
      "length (ml_caches m') = length (ml_caches m)" "dr_requests ?d = zip (map fst reqs) (ps_final_layers st)"
      "length (dr_layers ?d) = length (ml_caches m)"
      "\<And>i. i < length (ml_caches m) \<Longrightarrow> ec_capacity (ml_caches m' ! i) = ec_capacity (ml_caches m ! i) \<and>
         ec_reserved_slots (ml_caches m' ! i) =
           ec_reserved_slots (ml_caches m ! i) + length (staying (ps_final_layers st) (length reqs) i)"
      "\<And>i. i < length (ml_caches m) \<Longrightarrow> slots ?d i = length (staying (ps_final_layers st) (length reqs) i)"
    by (simp_all add: granted_def slots_def)
  have f: "same_frame m m'" using G(2,3,6) by (auto simp: same_frame_def intro: nth_equalityI)
  note I = plan_invD [OF w(1)]
  have "try_layer_idx m x = Some l" if mem: "(x, Some l) \<in> set (dr_requests ?d)" for x l
  proof -
    obtain j where "j < length reqs" "x = fst (reqs ! j)" "ps_final_layers st ! j = Some l"
      using mem I(2) unfolding G(4) in_set_conv_nth by (auto simp: nth_zip)
    with I(8) [of j] w(2) show ?thesis by auto
  qed
  then have "guard_ok m ?d" using G(5) by (auto simp: guard_ok_def)
  then have "\<forall>d\<in>set (?d # ds). guard_ok m' d" using inv same_frameD(3) [OF f] by (simp add: ml_system_inv_def)
  then show ?thesis using inv G(1,3,6,7) f by (simp add: ml_system_inv_def)
qed

lemma ml_step_inv:
  "ml_step L F s t \<Longrightarrow> ml_system_inv L s \<Longrightarrow> ml_system_inv L t \<and> same_frame (fst s) (fst t)"
proof (induction rule: ml_step.induct)
  case (ml_lookup m h eid res m' h' ds)
  then show ?case
    using ml_get_spec [OF _ ml_lookup(1)] same_layers_system [of L m h ds m' h'] by (simp add: ml_system_inv_def)
next
  case (ml_insertion m h r res m' h' ds)
  then show ?case
    using ml_insert_spec [OF _ ml_insertion(1)] same_layers_system [of L m h ds m' h'] by (simp add: ml_system_inv_def)
next
  case (ml_eviction m h res m' ds)
  then show ?case
    using ml_evict_lru_spec [OF _ ml_eviction(1)] same_layers_system [of L m h ds m' h] by (simp add: ml_system_inv_def)
next
  case (ml_shadow_eviction m h res m' ds)
  then show ?case
    using ml_evict_shadow_spec [OF _ ml_shadow_eviction(1)] same_layers_system [of L m h ds m' h] by (simp add: ml_system_inv_def)
next
  case (ml_demand ids m out m' h ds)
  then show ?case using demand_system [of m h ds ids out m'] by simp
next
  case (ml_commit i ds m h r res d m')
  then show ?case using commit_system [of m h ds i r res d m'] by simp
next
  case (ml_release i ds m h)
  then show ?case using release_system [of L m h ds i] by simp
next
  case (ml_fresh_resident m a h ds r)
  have "ml_inv L m (h(a := r))"
  proof (rule store_change)
    show "ml_inv L m h" using ml_fresh_resident by (simp add: ml_system_inv_def)
    fix i k b assume i: "i < length (ml_caches m)" and b: "(k, b) \<in> set (layer_entries L m i)"
    then have "b \<noteq> a" using ml_fresh_resident(1) nth_mem [OF i] by force
    then show "er_id ((h(a := r)) b) = er_id (h b)" by simp
  qed
  then show ?case using ml_fresh_resident by (simp add: ml_system_inv_def same_frame_def)
next
  case (ml_hit m h ds a)
  have "ml_inv L m (h(a := snd (record_hit (h a))))"
    by (rule store_change [where h = h]) (use ml_hit in \<open>auto simp: ml_system_inv_def record_hit_def\<close>)
  then show ?case using ml_hit by (simp add: ml_system_inv_def same_frame_def)
qed (simp_all add: pin_system)

lemma ml_run_inv:
  "ml_run L F s t \<Longrightarrow> ml_system_inv L s \<Longrightarrow> ml_system_inv L t \<and> same_frame (fst s) (fst t)"
proof (induction rule: ml_run.induct)
  case (ml_run_step s t u)
  then show ?case using ml_step_inv [OF ml_run_step(2)] by (auto simp: same_frame_def)
qed (simp add: same_frame_def)

lemma ml_reachable:
  assumes "with_capacities L caps stride = Return m0" "sum_list caps \<le> usize_MAX" "ml_run L F (m0, h0, []) (m, h, ds)"
  shows "ml_system_inv L (m, h, ds)" "map ec_capacity (ml_caches m) = caps"
proof -
  note W = with_capacities_inv [OF assms(1,2)]
  have "ml_system_inv L (m0, h0, [])" using W(1,4) by (simp add: ml_system_inv_def)
  from ml_run_inv [OF assms(3) this] show "ml_system_inv L (m, h, ds)" "map ec_capacity (ml_caches m) = caps"
    using W(2) by (simp_all add: same_frame_def)
qed

end

subsection \<open>Agreement with the sequential path\<close>

lemma plan_inv_no_reservations:
  "(\<And>i. i < length caps \<Longrightarrow> R i = 0) \<Longrightarrow> plan_inv caps reqs es P R k st \<longleftrightarrow> plan_inv caps reqs es P (\<lambda>_. 0) k st"
  by (simp add: plan_inv_def planned_layer_def)

context expert_lru
begin

lemma follows_start:
  assumes "ml_inv L m h" "\<And>i. i < length (ml_caches m) \<Longrightarrow> ec_reserved_slots (ml_caches m ! i) = 0"
    "\<forall>c\<in>set (ml_caches m). \<not> ec_cost_aware c"
  shows "follows L (map ec_capacity (ml_caches m)) reqs rs (layer_entries L m) (\<lambda>i. ec_pinned (ml_caches m ! i)) 0
    (plan_start layers reqs) m h"
  using assms by (simp add: follows_def planned_entries_def staying_def kept_def plan_start_def)

lemma committing_start:
  assumes "granted m h reqs st out m'" "length (ps_final_layers st) = length reqs"
  shows "committing (length (ml_caches m)) reqs rs (layer_entries L m) (ps_final_layers st) (ps_resident_victims st)
    (\<lambda>i. ec_reserved_slots (ml_caches m ! i)) 0 (ro_reservation out) m' h"
proof -
  have "slots (ro_reservation out) i = left_for (ps_final_layers st) 0 i" if "i < length (ml_caches m)" for i
    using assms that by (simp add: granted_def slots_def Let_def flip: left_for_start)
  then show ?thesis using assms left_for_start [of "ps_final_layers st"]
    by (simp add: committing_def granted_def planned_entries_def staying_def)
qed

text \<open>A requested expert is in its cache at the end exactly if the plan keeps it.\<close>

lemma placed_contains:
  assumes inp: "plan_input n reqs es P" and j: "j < length reqs" and inv: "ml_inv L m h" "length (ml_caches m) = n"
    and e: "layer_entries L m (fst (snd (reqs ! j))) = planned_entries reqs rs es (length reqs) finals victims (fst (snd (reqs ! j)))"
    and fin: "finals ! j = None \<or> finals ! j = Some (fst (snd (reqs ! j)))"
    and route: "try_layer_idx m (fst (reqs ! j)) = Some (fst (snd (reqs ! j)))"
  shows "ml_contains L m (fst (reqs ! j)) \<longleftrightarrow> finals ! j \<noteq> None"
proof -
  let ?t = "fst (snd (reqs ! j))"
  have t: "?t < n" using plan_inputD(2) [OF inp j] .
  have "ml_contains L m (fst (reqs ! j)) \<longleftrightarrow> fst (reqs ! j) \<in> fst ` set (layer_entries L m ?t)"
    using route cache_invD(8) [OF ml_invD(1) [OF inv(1)]] t inv(2)
    by (simp add: ml_contains_def contains_def map_of_eq_None_iff)
  also have "\<dots> \<longleftrightarrow> j \<in> set (staying finals (length reqs) ?t)"
  proof -
    have "fst (reqs ! j) \<notin> fst ` set (kept victims ?t (es ?t))"
      using plan_inputD(4) [OF inp j t] kept_subset [of victims ?t "es ?t"] by auto
    moreover have "fst (reqs ! j) = fst (reqs ! x) \<longleftrightarrow> x = j" if "x \<in> set (staying finals (length reqs) ?t)" for x
      using plan_inputD(1) [OF inp j, of x] that by (auto simp: set_staying)
    ultimately show ?thesis unfolding e planned_entries_def by (auto simp: image_Un image_image)
  qed
  also have "\<dots> \<longleftrightarrow> finals ! j \<noteq> None" using fin j by (auto simp: set_staying)
  finally show ?thesis .
qed

lemma reserved_demand_exact:
  assumes inv: "ml_inv L m h" and zero: "\<And>i. i < length (ml_caches m) \<Longrightarrow> ec_reserved_slots (ml_caches m ! i) = 0"
    and absent: "\<forall>r\<in>set rs. \<not> ml_contains L m (er_id (h r))"
    and res: "try_reserve_exact_demand L m (map (er_id \<circ> h) rs) = Return (Inr out, m1)"
    and com: "commit_all L (ro_reservation out) m1 h rs = (xs, d, m2)"
    and seq: "fetch_sequence L F m h rs = (vs, m3, h3)"
  shows "h3 = h \<and> ro_eviction_ids out = map (er_id \<circ> h) vs \<and>
    xs = map (\<lambda>r. Inr (ml_contains L m2 (er_id (h r)))) rs \<and> remaining d = 0 \<and> length (ml_caches m2) = length (ml_caches m) \<and>
    length (ml_caches m3) = length (ml_caches m) \<and>
    (\<forall>i<length (ml_caches m). layer_entries L m2 i = layer_entries L m3 i \<and>
       ec_pinned (ml_caches m2 ! i) = ec_pinned (ml_caches m3 ! i) \<and>
       ec_reserved_slots (ml_caches m2 ! i) = 0 \<and> ec_reserved_slots (ml_caches m3 ! i) = 0)"
proof -
  let ?n = "length (ml_caches m)" and ?caps = "map ec_capacity (ml_caches m)" and ?es = "layer_entries L m"
    and ?P = "\<lambda>i. ec_pinned (ml_caches m ! i)" and ?R = "\<lambda>i. ec_reserved_slots (ml_caches m ! i)"
  have "\<forall>x\<in>set (map (er_id \<circ> h) rs). \<not> ml_contains L m x" using absent by simp
  from reserve_spec [OF inv this] res obtain reqs st
    where ids: "map fst reqs = map (er_id \<circ> h) rs" and inp: "plan_input ?n reqs ?es ?P"
      and route: "\<forall>j<length reqs. try_layer_idx m (fst (reqs ! j)) = Some (fst (snd (reqs ! j)))"
      and ncost: "\<forall>c\<in>set (ml_caches m). \<not> ec_cost_aware c"
      and start: "plan_inv ?caps reqs ?es ?P ?R 0 (plan_start (map (virtual_layer L) (ml_caches m)) reqs)"
        "counted (plan_start (map (virtual_layer L) (ml_caches m)) reqs)"
      and plan: "plan_requests ?caps 0 reqs (plan_start (map (virtual_layer L) (ml_caches m)) reqs) = Inr st"
      and fin: "plan_inv ?caps reqs ?es ?P ?R (length reqs) st" and gr: "granted m h reqs st out m1"
    by auto
  have len: "length rs = length reqs" using ids by (metis length_map)
  have idj: "er_id (h (rs ! j)) = fst (reqs ! j)" if "j < length reqs" for j
    using ids that len by (metis comp_apply nth_map)
  have both: "\<forall>j<length reqs. try_layer_idx m (fst (reqs ! j)) = Some (fst (snd (reqs ! j))) \<and> er_id (h (rs ! j)) = fst (reqs ! j)"
    using route idj by simp
  have start0: "plan_inv ?caps reqs ?es ?P (\<lambda>_. 0) 0 (plan_start (map (virtual_layer L) (ml_caches m)) reqs)"
    using plan_inv_no_reservations [of ?caps ?R] start(1) zero by simp
  have F: "plan_inv ?caps reqs ?es ?P (\<lambda>_. 0) (length reqs) st \<and>
      follows L ?caps reqs rs ?es ?P (length reqs) st m3 h3 \<and> h3 = h \<and>
      ps_eviction_ids st = ps_eviction_ids (plan_start (map (virtual_layer L) (ml_caches m)) reqs) @ map (er_id \<circ> h) vs"
    by (rule plan_follows [OF _ _ start0 start(2) follows_start [OF inv zero ncost] len both])
      (use inp plan seq in simp_all)
  then have fol: "follows L ?caps reqs rs ?es ?P (length reqs) st m3 h3" by blast
  have ev: "ps_eviction_ids st = map (er_id \<circ> h) vs" and h3: "h3 = h" using F by (simp_all add: plan_start_def)
  note D = followsD [OF fol, simplified]
  let ?f = "ps_final_layers st" and ?v = "ps_resident_victims st"
  note I = plan_invD [OF fin]
  have finals: "\<forall>j<length reqs. ?f ! j = None \<or> ?f ! j = Some (fst (snd (reqs ! j)))" using I(8) by blast
  have same1: "length (ml_caches m1) = ?n" "ml_experts_per_layer m1 = ml_experts_per_layer m"
    and pins1: "\<And>i. i < ?n \<Longrightarrow> ec_pinned (ml_caches m1 ! i) = ec_pinned (ml_caches m ! i)"
    using gr by (simp_all add: granted_def)
  have idx: "try_layer_idx m1 x = try_layer_idx m x" for x using same1 by (simp add: try_layer_idx_def)
  have C: "xs = map (\<lambda>x. Inr (?f ! x \<noteq> None)) [0..<length reqs] \<and>
      committing ?n reqs rs ?es ?f ?v ?R (length reqs) d m2 h \<and>
      ml_experts_per_layer m2 = ml_experts_per_layer m1 \<and> map ec_pinned (ml_caches m2) = map ec_pinned (ml_caches m1)"
    by (rule commit_all_spec [OF inp finals len _ committing_start [OF gr I(2)]]) (use both idx com in simp_all)
  then have M: "ml_inv L m2 h" "length (ml_caches m2) = ?n" "length (dr_layers d) = ?n"
      "\<And>i. i < ?n \<Longrightarrow> layer_entries L m2 i = planned_entries reqs rs ?es (length reqs) ?f ?v i"
      "\<And>i. i < ?n \<Longrightarrow> ec_reserved_slots (ml_caches m2 ! i) = 0" "\<And>i. i < ?n \<Longrightarrow> slots d i = 0"
    using zero I(2) by (simp_all add: committing_def left_for_def)
  have pins: "ec_pinned (ml_caches m2 ! i) = ec_pinned (ml_caches m1 ! i)" if "i < ?n" for i
    using C M(2) same1(1) that by (metis nth_map)
  have idx2: "try_layer_idx m2 x = try_layer_idx m x" for x using same1 M(2) C by (simp add: try_layer_idx_def)
  have "ml_contains L m2 (er_id (h (rs ! j))) \<longleftrightarrow> ?f ! j \<noteq> None" if j: "j < length reqs" for j
    unfolding idj [OF j]
    by (rule placed_contains [OF inp j M(1,2)]) (use M(4) plan_inputD(2) [OF inp j] finals j idx2 route in simp_all)
  then have "xs = map (\<lambda>r. Inr (ml_contains L m2 (er_id (h r)))) rs"
    using C len by (intro nth_equalityI) simp_all
  moreover have "remaining d = 0" using M(3,6) by (simp add: remaining_slots)
  moreover have "ro_eviction_ids out = map (er_id \<circ> h) vs" using gr ev by (simp add: granted_def)
  ultimately show ?thesis using h3 M D pins pins1 by simp
qed

lemma distinct_concat_upt:
  "(\<And>i. i < n \<Longrightarrow> distinct (f i)) \<Longrightarrow> (\<And>i j. i < n \<Longrightarrow> j < n \<Longrightarrow> i \<noteq> j \<Longrightarrow> set (f i) \<inter> set (f j) = {}) \<Longrightarrow>
    distinct (concat (map f [0..<n]))"
proof (induction n)
  case (Suc n)
  have "distinct (concat (map f [0..<n]))" using Suc by simp
  moreover have "\<forall>i<n. set (f i) \<inter> set (f n) = {}" using Suc.prems(2) by simp
  then have "set (concat (map f [0..<n])) \<inter> set (f n) = {}" by fastforce
  ultimately show ?case using Suc.prems(1) [of n] by simp
qed simp

text \<open>A grant, read off the caches.\<close>

lemma victims_by_layer:
  assumes inv: "ml_inv L m h" and i: "i < length (ml_caches m)"
    and vs: "\<And>l v. (l, v) \<in> set victims \<Longrightarrow> l < length (ml_caches m) \<and> v \<in> fst ` set (layer_entries L m l)"
  shows "kept victims i (layer_entries L m i) = filter (\<lambda>e. fst e \<notin> snd ` set victims) (layer_entries L m i)"
  unfolding kept_def
proof (rule filter_cong [OF HOL.refl])
  fix e assume e: "e \<in> set (layer_entries L m i)"
  have "l = i" if "(l, fst e) \<in> set victims" for l
    using vs [OF that] ml_invD(2) [OF inv, of l "fst e"] ml_invD(2) [OF inv i, of "fst e"] e by auto
  then show "((i, fst e) \<notin> set victims) = (fst e \<notin> snd ` set victims)" by force
qed

lemma sum_left_for:
  "sum_list (map (left_for finals 0) [0..<n]) \<le> length finals"
proof -
  have "sum_list (map (left_for finals 0) [0..<n]) = (\<Sum>i<n. card {x. x < length finals \<and> finals ! x = Some i})"
  proof -
    have "left_for finals 0 i = card {x. x < length finals \<and> finals ! x = Some i}" for i
      by (auto simp: left_for_def length_filter_conv_card intro!: arg_cong [of _ _ card])
    then show ?thesis by (simp add: interv_sum_list_conv_sum_set_nat atLeast0LessThan)
  qed
  also have "\<dots> = card (\<Union>i\<in>{..<n}. {x. x < length finals \<and> finals ! x = Some i})"
    by (rule card_UN_disjoint [symmetric]) auto
  also have "\<dots> \<le> card {..<length finals}" by (rule card_mono) auto
  finally show ?thesis by simp
qed

lemma granted_effect:
  assumes sys: "ml_system_inv L (m, h, ds)" and absent: "\<forall>x\<in>set ids. \<not> ml_contains L m x"
    and res: "try_reserve_exact_demand L m ids = Return (Inr out, m')"
  shows "(\<forall>v\<in>set (ro_victims out). ml_contains L m (er_id (h v)) \<and> \<not> ml_is_pinned m (er_id (h v))) \<and>
    (\<forall>i<length (ml_caches m). layer_entries L m' i =
       filter (\<lambda>e. fst e \<notin> er_id ` h ` set (ro_victims out)) (layer_entries L m i) \<and>
       cache_len L (ml_caches m' ! i) + ec_reserved_slots (ml_caches m' ! i) \<le> ec_capacity (ml_caches m ! i)) \<and>
    remaining (ro_reservation out) \<le> length ids \<and>
    ml_reserved_slots m' = ml_reserved_slots m + remaining (ro_reservation out)"
proof -
  have inv: "ml_inv L m h" using sys by (simp add: ml_system_inv_def)
  obtain reqs st where ids: "map fst reqs = ids" and
      pi: "plan_inv (map ec_capacity (ml_caches m)) reqs (layer_entries L m) (\<lambda>i. ec_pinned (ml_caches m ! i))
         (\<lambda>i. ec_reserved_slots (ml_caches m ! i)) (length reqs) st" and gr: "granted m h reqs st out m'"
    using reserve_spec [OF inv absent] res by auto
  note I = plan_invD [OF pi]
  let ?n = "length (ml_caches m)" and ?V = "ps_resident_victims st"
  have G: "ml_inv L m' h" "length (ml_caches m') = ?n" "length (dr_layers (ro_reservation out)) = ?n"
      "map (er_id \<circ> h) (ro_victims out) = map snd ?V"
    using gr by (simp_all add: granted_def)
  have Gi: "layer_entries L m' i = kept ?V i (layer_entries L m i)"
      "ec_capacity (ml_caches m' ! i) = ec_capacity (ml_caches m ! i)"
      "slots (ro_reservation out) i = left_for (ps_final_layers st) 0 i"
      "ec_reserved_slots (ml_caches m' ! i) = ec_reserved_slots (ml_caches m ! i) + left_for (ps_final_layers st) 0 i"
    if "i < ?n" for i
    using gr that I(2) left_for_start [of "ps_final_layers st" i]
    by (simp_all add: granted_def slots_def flip: left_for_start)
  have V: "(l, v) \<in> set ?V \<Longrightarrow> l < ?n \<and> v \<in> fst ` set (layer_entries L m l) \<and> v \<notin> ec_pinned (ml_caches m ! l)" for l v
    using I(7) [of l v] by simp
  have vid: "er_id ` h ` set (ro_victims out) = snd ` set ?V"
    using arg_cong [OF G(4), of set] by (simp add: image_comp)
  have rem: "remaining (ro_reservation out) = sum_list (map (left_for (ps_final_layers st) 0) [0..<?n])"
    unfolding remaining_slots G(3) using Gi(3) by (intro arg_cong [of _ _ sum_list] map_cong) simp_all
  have vict: "ml_contains L m (er_id (h v)) \<and> \<not> ml_is_pinned m (er_id (h v))" if v: "v \<in> set (ro_victims out)" for v
  proof -
    obtain l where l: "(l, er_id (h v)) \<in> set ?V" using vid v by force
    note W = V [OF l]
    then have "try_layer_idx m (er_id (h v)) = Some l" using ml_invD(2) [OF inv] by blast
    then show ?thesis using W cache_invD(8) [OF ml_invD(1) [OF inv], of l "er_id (h v)"]
      by (simp add: ml_contains_def contains_def ml_is_pinned_def is_pinned_def map_of_eq_None_iff)
  qed
  have lay: "layer_entries L m' i = filter (\<lambda>e. fst e \<notin> er_id ` h ` set (ro_victims out)) (layer_entries L m i) \<and>
      cache_len L (ml_caches m' ! i) + ec_reserved_slots (ml_caches m' ! i) \<le> ec_capacity (ml_caches m ! i)" if i: "i < ?n" for i
    using victims_by_layer [OF inv i, of ?V] V Gi(1,2) [OF i] vid cache_invD(3,7) [OF ml_invD(1) [OF G(1)], of i] i G(2)
    by (simp add: cache_len_def)
  have "ml_reserved_slots m' = sum_list (map (\<lambda>i. ec_reserved_slots (ml_caches m' ! i)) [0..<?n])"
    unfolding ml_reserved_slots_def by (rule arg_cong [of _ _ sum_list], rule nth_equalityI) (simp_all add: G(2))
  also have "\<dots> = sum_list (map (\<lambda>i. ec_reserved_slots (ml_caches m ! i) + left_for (ps_final_layers st) 0 i) [0..<?n])"
    using Gi(4) by (intro arg_cong [of _ _ sum_list] map_cong) simp_all
  also have "\<dots> = sum_list (map (\<lambda>i. ec_reserved_slots (ml_caches m ! i)) [0..<?n]) + remaining (ro_reservation out)"
    by (simp add: sum_list_addf rem)
  also have "sum_list (map (\<lambda>i. ec_reserved_slots (ml_caches m ! i)) [0..<?n]) = ml_reserved_slots m"
    unfolding ml_reserved_slots_def by (rule arg_cong [of _ _ sum_list], rule nth_equalityI) simp_all
  finally have "ml_reserved_slots m' = ml_reserved_slots m + remaining (ro_reservation out)" .
  moreover have "remaining (ro_reservation out) \<le> length ids"
    using sum_left_for [of "ps_final_layers st" ?n] I(2) ids by (auto simp: rem)
  ultimately show ?thesis using vict lay by blast
qed

lemma system_layers:
  assumes sys: "ml_system_inv L (m, h, ds)"
  shows "(\<forall>i<length (ml_caches m). cache_len L (ml_caches m ! i) + ec_reserved_slots (ml_caches m ! i) \<le> ec_capacity (ml_caches m ! i) \<and>
       (\<forall>x\<in>set (resident_ids L (ml_caches m ! i)). try_layer_idx m x = Some i)) \<and>
    distinct (ml_resident_ids L m) \<and> ml_len L m \<le> ml_capacity m \<and> ml_reserved_slots m = sum_list (map remaining ds)"
proof -
  let ?n = "length (ml_caches m)"
  have inv: "ml_inv L m h" using sys by (simp add: ml_system_inv_def)
  have lay: "cache_len L (ml_caches m ! i) + ec_reserved_slots (ml_caches m ! i) \<le> ec_capacity (ml_caches m ! i) \<and>
       (\<forall>x\<in>set (resident_ids L (ml_caches m ! i)). try_layer_idx m x = Some i) \<and>
       distinct (resident_ids L (ml_caches m ! i))" if i: "i < ?n" for i
    using cache_invD(3,5,7) [OF ml_invD(1) [OF inv i]] ml_invD(2) [OF inv i] by (simp add: cache_len_def resident_ids_def)
  have "distinct (concat (map (\<lambda>i. resident_ids L (ml_caches m ! i)) [0..<?n]))"
    using lay by (intro distinct_concat_upt) (auto, metis option.inject)
  moreover have cs: "ml_caches m = map (\<lambda>i. ml_caches m ! i) [0..<?n]" by (rule map_nth [symmetric])
  have "map (resident_ids L) (ml_caches m) = map (\<lambda>i. resident_ids L (ml_caches m ! i)) [0..<?n]"
    by (rule nth_equalityI) simp_all
  ultimately have "distinct (ml_resident_ids L m)" by (simp add: ml_resident_ids_def)
  moreover have "ml_len L m \<le> ml_capacity m"
    unfolding ml_len_def ml_capacity_def using lay
    by (intro sum_list_mono) (metis add_leD1 in_set_conv_nth)
  moreover have "ml_reserved_slots m = sum_list (map remaining ds)"
  proof -
    have "ml_reserved_slots m = (\<Sum>i<?n. ec_reserved_slots (ml_caches m ! i))"
      by (simp add: ml_reserved_slots_def sum_list_sum_nth atLeast0LessThan)
    also have "\<dots> = (\<Sum>i<?n. \<Sum>d\<leftarrow>ds. slots d i)" using sys by (simp add: ml_system_inv_def)
    also have "\<dots> = (\<Sum>d\<leftarrow>ds. \<Sum>i<?n. slots d i)" by (induction ds) (simp_all add: sum.distrib)
    also have "\<dots> = sum_list (map remaining ds)"
      using sys by (intro arg_cong [of _ _ sum_list] map_cong)
        (simp_all add: remaining_slots ml_system_inv_def guard_ok_def interv_sum_list_conv_sum_set_nat atLeast0LessThan)
    finally show ?thesis .
  qed
  ultimately show ?thesis using lay by blast
qed

end

subsection \<open>Example states\<close>

definition demo_layer :: "usize \<Rightarrow> (u32 \<times> nat) list \<Rightarrow> usize \<Rightarrow> nat list_lru expert_cache" where
  "demo_layer cap es reserved = \<lparr>ec_inner = (Some cap, es), ec_pinned = {}, ec_capacity = cap,
     ec_cost_aware = False, ec_epoch = 0, ec_reserved_slots = reserved\<rparr>"

text \<open>Two layers of one position each, two experts per layer.\<close>

definition demo_layers :: "(u32 \<times> nat) list \<Rightarrow> usize \<Rightarrow> (u32 \<times> nat) list \<Rightarrow> usize \<Rightarrow> nat list_lru multi_layer" where
  "demo_layers es0 r0 es1 r1 = \<lparr>ml_caches = [demo_layer 1 es0 r0, demo_layer 1 es1 r1], ml_experts_per_layer = 2\<rparr>"

lemma demo_layers_new: "with_capacities list_lru [1, 1] 2 = Return (demo_layers [] 0 [] 0)"
  by (simp add: with_capacities_def cache_new_def list_lru_def demo_layers_def demo_layer_def)

lemma demo_insert0: "ml_insert list_lru nat_heat (demo_layers [] 0 [] 0) demo_store 0 = (Inr None, demo_layers [(0, 0)] 0 [] 0, demo_store)"
  by (simp add: ml_insert_def try_layer_idx_def demo_layers_def demo_layer_def insert_resident_def list_lru_def demo_store_def
      push_result_def push_entries_def full_def saturating_add_def usize_MAX_def)

lemma demo_insert2: "ml_insert list_lru nat_heat (demo_layers [(0, 0)] 0 [] 0) demo_store 2 = (Inr None, demo_layers [(0, 0)] 0 [(2, 2)] 0, demo_store)"
  by (simp add: ml_insert_def try_layer_idx_def demo_layers_def demo_layer_def insert_resident_def list_lru_def demo_store_def
      push_result_def push_entries_def full_def saturating_add_def usize_MAX_def)

lemma demo_layers_run:
  "ml_run list_lru nat_heat (demo_layers [] 0 [] 0, demo_store, []) (demo_layers [(0, 0)] 0 [(2, 2)] 0, demo_store, [])"
  by (rule ml_run_step [OF ml_run_step [OF ml_run_refl ml_insertion [OF demo_insert0]] ml_insertion [OF demo_insert2]])

lemma demo_absent: "\<forall>r\<in>set [1, 3]. \<not> ml_contains list_lru (demo_layers [(0, 0)] 0 [(2, 2)] 0) (er_id (demo_store r))"
  by (simp add: ml_contains_def try_layer_idx_def demo_layers_def demo_layer_def contains_def list_lru_def demo_store_def)

definition demo_outcome :: reservation_outcome where
  "demo_outcome = \<lparr>ro_reservation = \<lparr>dr_layers = [None, Some 1], dr_requests = [(1, None), (3, Some 1)], dr_next_request = 0\<rparr>,
     ro_eviction_ids = [0, 1, 2], ro_victims = [0, 2]\<rparr>"

lemma demo_reserve:
  "try_reserve_exact_demand list_lru (demo_layers [(0, 0)] 0 [(2, 2)] 0) [1, 3] =
   Return (Inr demo_outcome, demo_layers [] 0 [] 1)"
  by (simp add: try_reserve_exact_demand_def try_layer_idx_def demo_layers_def demo_layer_def Let_def vec_push_def
      virtual_layer_def list_lru_def plan_sequential_victims_def plan_start_def aggregate_room_def cyclic_order_def
      layer_room_def remove_victim_def vec_remove_def upt_rec final_reservations_def reserve_layers_def
      reservation_new_def demo_outcome_def)

lemma demo_cap: "sum_list [1, 1] \<le> usize_MAX"
  by (simp add: usize_MAX_def)

subsection \<open>Properties\<close>

text \<open>C2: batched demand equals sequential demand. In a reachable state with no outstanding
  reservation, when a reservation for experts that are not resident is granted and their reads are
  committed in order, every commit succeeds and reports exactly whether the expert ends up in its
  cache, no reserved position is left over, the announced evictions are, in order, the evictions
  that fetching the experts one after the other would have made, and every layer ends with the same
  entries in the same recency order and the same pins as after those sequential fetches.\<close>

theorem exact_demand_equals_sequential:
  assumes "lru_cache L" "with_capacities L caps stride = Return m0" "sum_list caps \<le> usize_MAX"
    and "ml_run L F (m0, h0, []) (m, h, [])"
    and "\<forall>r\<in>set rs. \<not> ml_contains L m (er_id (h r))"
    and "try_reserve_exact_demand L m (map (er_id \<circ> h) rs) = Return (Inr out, m1)"
    and "commit_all L (ro_reservation out) m1 h rs = (xs, d, m2)"
    and "fetch_sequence L F m h rs = (vs, m3, h3)"
  shows "xs = map (\<lambda>r. Inr (ml_contains L m2 (er_id (h r)))) rs \<and> remaining d = 0 \<and> ml_reserved_slots m2 = 0 \<and>
    ro_eviction_ids out = map (er_id \<circ> h) vs \<and>
    map (\<lambda>c. (lru_iter L (ec_inner c), ec_pinned c)) (ml_caches m2) =
    map (\<lambda>c. (lru_iter L (ec_inner c), ec_pinned c)) (ml_caches m3)"
proof -
  have E: "expert_lru L" using assms(1) by (rule expert_lru.intro)
  have S: "ml_system_inv L (m, h, [])" by (rule expert_lru.ml_reachable(1) [OF E assms(2-4)])
  then have inv: "ml_inv L m h" and zero: "\<And>i. i < length (ml_caches m) \<Longrightarrow> ec_reserved_slots (ml_caches m ! i) = 0"
    by (simp_all add: ml_system_inv_def)
  note X = expert_lru.reserved_demand_exact [OF E inv zero assms(5-8)]
  have "\<forall>c\<in>set (ml_caches m2). ec_reserved_slots c = 0" using X unfolding all_set_conv_all_nth by simp
  then have "ml_reserved_slots m2 = 0" by (simp add: ml_reserved_slots_def)
  moreover have "map (\<lambda>c. (lru_iter L (ec_inner c), ec_pinned c)) (ml_caches m2) =
      map (\<lambda>c. (lru_iter L (ec_inner c), ec_pinned c)) (ml_caches m3)"
    by (rule nth_equalityI) (use X in auto)
  ultimately show ?thesis using X by blast
qed

theorem exact_demand_equals_sequential_witness:
  "ro_eviction_ids demo_outcome = [0, 1, 2] \<and>
   (\<exists>xs d m2 vs m3 h3. commit_all list_lru (ro_reservation demo_outcome) (demo_layers [] 0 [] 1) demo_store [1, 3] = (xs, d, m2) \<and>
      fetch_sequence list_lru nat_heat (demo_layers [(0, 0)] 0 [(2, 2)] 0) demo_store [1, 3] = (vs, m3, h3) \<and>
      ro_eviction_ids demo_outcome = map (er_id \<circ> demo_store) vs \<and> remaining d = 0)"
proof -
  obtain xs d m2 where c: "commit_all list_lru (ro_reservation demo_outcome) (demo_layers [] 0 [] 1) demo_store [1, 3] = (xs, d, m2)"
    by (metis prod_cases3)
  obtain vs m3 h3 where f: "fetch_sequence list_lru nat_heat (demo_layers [(0, 0)] 0 [(2, 2)] 0) demo_store [1, 3] = (vs, m3, h3)"
    by (metis prod_cases3)
  have r: "try_reserve_exact_demand list_lru (demo_layers [(0, 0)] 0 [(2, 2)] 0) (map (er_id \<circ> demo_store) [1, 3]) =
      Return (Inr demo_outcome, demo_layers [] 0 [] 1)"
    using demo_reserve by (simp add: demo_store_def)
  from exact_demand_equals_sequential [OF list_lru.lru_cache_axioms demo_layers_new demo_cap demo_layers_run demo_absent r c f] c f
  show ?thesis by (simp add: demo_outcome_def)
qed

text \<open>Asking for a batch of experts that are not resident never panics, whatever else is
  reserved. A refusal leaves the caches as they were. A grant evicts only residents that are not
  pinned, and exactly those it hands back; every other resident keeps its place; the positions it
  reserves are at most one per requested expert, are added to the layers' reserved counters, and
  still fit beside the residents and the reservations of others.\<close>

theorem demand_reservation_outcome:
  assumes "lru_cache L" "with_capacities L caps stride = Return m0" "sum_list caps \<le> usize_MAX"
    and "ml_run L F (m0, h0, []) (m, h, ds)"
    and "\<forall>x\<in>set ids. \<not> ml_contains L m x"
  shows "\<exists>res m'. try_reserve_exact_demand L m ids = Return (res, m') \<and>
    (case res of
       Inl e \<Rightarrow> m' = m
     | Inr out \<Rightarrow>
         (\<forall>v\<in>set (ro_victims out). ml_contains L m (er_id (h v)) \<and> \<not> ml_is_pinned m (er_id (h v))) \<and>
         (\<forall>i<length caps. lru_iter L (ec_inner (ml_caches m' ! i)) =
            filter (\<lambda>e. fst e \<notin> er_id ` h ` set (ro_victims out)) (lru_iter L (ec_inner (ml_caches m ! i))) \<and>
            cache_len L (ml_caches m' ! i) + ec_reserved_slots (ml_caches m' ! i) \<le> caps ! i) \<and>
         remaining (ro_reservation out) \<le> length ids \<and>
         ml_reserved_slots m' = ml_reserved_slots m + remaining (ro_reservation out))"
proof -
  have E: "expert_lru L" using assms(1) by (rule expert_lru.intro)
  have S: "ml_system_inv L (m, h, ds)" "map ec_capacity (ml_caches m) = caps"
    by (rule expert_lru.ml_reachable [OF E assms(2-4)])+
  then have inv: "ml_inv L m h" by (simp add: ml_system_inv_def)
  obtain res m' where r: "try_reserve_exact_demand L m ids = Return (res, m')"
    using expert_lru.reserve_spec [OF E inv assms(5)] by blast
  show ?thesis
  proof (cases res)
    case (Inl e)
    then show ?thesis using expert_lru.reserve_spec [OF E inv assms(5)] r by simp
  next
    case (Inr out)
    from expert_lru.granted_effect [OF E S(1) assms(5) r [unfolded Inr]] S(2)
    show ?thesis unfolding r Inr by auto
  qed
qed

theorem demand_reservation_outcome_witness:
  "\<exists>m'. try_reserve_exact_demand list_lru (demo_layers [(0, 0)] 0 [(2, 2)] 0) [1, 3] = Return (Inr demo_outcome, m') \<and>
     remaining (ro_reservation demo_outcome) \<le> 2 \<and> ml_reserved_slots m' = remaining (ro_reservation demo_outcome)"
proof -
  have "\<forall>x\<in>set [1, 3]. \<not> ml_contains list_lru (demo_layers [(0, 0)] 0 [(2, 2)] 0) x"
    using demo_absent by (simp add: demo_store_def)
  from demand_reservation_outcome [OF list_lru.lru_cache_axioms demo_layers_new demo_cap demo_layers_run this] demo_reserve
  show ?thesis by (auto simp: ml_reserved_slots_def demo_layers_def demo_layer_def)
qed

text \<open>C24: whatever operations clients interleave on the per-layer caches (lookups, insertions,
  evictions of either kind, pins, unpins, policy changes, demand reservations, their commits and
  their release), every layer stays within its own capacity together with what is reserved in it,
  holds only experts whose id belongs to that layer, no expert is resident twice, and the reserved
  positions are exactly those the live guards still own, so none is left when no guard is.\<close>

theorem multi_layer_invariant:
  assumes "lru_cache L" "with_capacities L caps stride = Return m0" "sum_list caps \<le> usize_MAX"
    and "ml_run L F (m0, h0, []) (m, h, ds)"
  shows "map ec_capacity (ml_caches m) = caps \<and>
    (\<forall>i<length caps. cache_len L (ml_caches m ! i) + ec_reserved_slots (ml_caches m ! i) \<le> caps ! i \<and>
       (\<forall>x\<in>set (resident_ids L (ml_caches m ! i)). try_layer_idx m x = Some i)) \<and>
    distinct (ml_resident_ids L m) \<and> ml_len L m \<le> ml_capacity m \<and>
    ml_reserved_slots m = sum_list (map remaining ds)"
proof -
  have E: "expert_lru L" using assms(1) by (rule expert_lru.intro)
  have S: "ml_system_inv L (m, h, ds)" and caps: "map ec_capacity (ml_caches m) = caps"
    by (rule expert_lru.ml_reachable [OF E assms(2-4)])+
  from expert_lru.system_layers [OF E S] caps show ?thesis by auto
qed

theorem multi_layer_invariant_witness:
  "ml_len list_lru (demo_layers [(0, 0)] 0 [(2, 2)] 0) \<le> 2 \<and> distinct (ml_resident_ids list_lru (demo_layers [(0, 0)] 0 [(2, 2)] 0))"
  using multi_layer_invariant [OF list_lru.lru_cache_axioms demo_layers_new demo_cap demo_layers_run]
  by (simp add: ml_capacity_def demo_layers_def demo_layer_def)

end
