(* ===== verification/KvCache.thy ===== *)
theory KvCache
  imports Prelude
begin

section \<open>The per-request paged KV cache\<close>

text \<open>
  Model of \<open>KvCache\<close> of \<open>transformer.rs\<close>: the key and value rows of one layer in blocks of
  sixteen tokens, with sliding-window eviction of leading blocks and a bounded free list that
  recycles them. \<open>'f\<close> is the float type. Slices out of range, an empty block table at a write and
  a read of an evicted position are \<open>Panic\<close>; the debug assertions are not part of the model (they
  follow from the invariant). \<open>reset\<close> and \<open>zeroize\<close> also return the blocks they hand back to the
  allocator, with the contents they have at that moment.
\<close>

definition PAGED_BLOCK_TOKENS :: usize where "PAGED_BLOCK_TOKENS = 16"

definition FREE_BLOCKS_CAP :: usize where "FREE_BLOCKS_CAP = 8"

record 'f kv_cache =
  keys_blocks :: "'f list list"
  values_blocks :: "'f list list"
  free_keys :: "'f list list"
  free_values :: "'f list list"
  evicted_blocks :: usize
  kc_seq_len :: usize
  kc_dim :: usize
  kc_v_dim :: usize

definition new_kv :: "usize \<Rightarrow> usize \<Rightarrow> 'f kv_cache" where
  "new_kv k_dim v_dim = \<lparr>keys_blocks = [], values_blocks = [], free_keys = [], free_values = [],
     evicted_blocks = 0, kc_seq_len = 0, kc_dim = k_dim, kc_v_dim = v_dim\<rparr>"

definition kv_new :: "usize \<Rightarrow> 'f kv_cache" where
  "kv_new d = new_kv d d"

text \<open>The block a boundary append opens: a recycled one, cleared, or a fresh one.\<close>

definition take_block :: "usize \<Rightarrow> ('f::zero) list list \<Rightarrow> 'f list \<times> 'f list list" where
  "take_block w free = (case vec_pop free of
     Some (b, rest) \<Rightarrow> (replicate (length b) 0, rest)
   | None \<Rightarrow> (replicate (PAGED_BLOCK_TOKENS * w) 0, free))"

definition write_row :: "'f list list \<Rightarrow> usize \<Rightarrow> usize \<Rightarrow> 'f list \<Rightarrow> 'f list list outcome" where
  "write_row blocks in_block w row =
     (case vec_pop blocks of
        None \<Rightarrow> Panic
      | Some (b, rest) \<Rightarrow>
          if in_block * w + w \<le> length b \<and> length row = w
          then Return (vec_push rest (subslice_write b (in_block * w) row))
          else Panic)"

definition kv_append :: "('f::zero) kv_cache \<Rightarrow> 'f list \<Rightarrow> 'f list \<Rightarrow> 'f kv_cache outcome" where
  "kv_append c k v =
     (let pos = kc_seq_len c;
          in_block = pos mod PAGED_BLOCK_TOKENS;
          c = (if in_block = 0
               then let (kb, fk) = take_block (kc_dim c) (free_keys c);
                        (vb, fv) = take_block (kc_v_dim c) (free_values c)
                    in c\<lparr>keys_blocks := vec_push (keys_blocks c) kb, free_keys := fk,
                         values_blocks := vec_push (values_blocks c) vb, free_values := fv\<rparr>
               else c)
      in obind (write_row (keys_blocks c) in_block (kc_dim c) k) (\<lambda>kbs.
         obind (write_row (values_blocks c) in_block (kc_v_dim c) v) (\<lambda>vbs.
           Return (c\<lparr>keys_blocks := kbs, values_blocks := vbs, kc_seq_len := kc_seq_len c + 1\<rparr>))))"

definition kv_blocks :: "'f kv_cache \<Rightarrow> 'f list list" where
  "kv_blocks c = keys_blocks c @ values_blocks c @ free_keys c @ free_values c"

definition kv_reset :: "'f kv_cache \<Rightarrow> 'f list list \<times> 'f kv_cache" where
  "kv_reset c = (kv_blocks c,
     c\<lparr>keys_blocks := [], values_blocks := [], free_keys := [], free_values := [],
       evicted_blocks := 0, kc_seq_len := 0\<rparr>)"

definition zeroize_blocks :: "('f::zero) list list \<Rightarrow> 'f list list" where
  "zeroize_blocks = map (\<lambda>b. replicate (length b) 0)"

definition kv_zeroize :: "('f::zero) kv_cache \<Rightarrow> 'f list list \<times> 'f kv_cache" where
  "kv_zeroize c = kv_reset (c\<lparr>keys_blocks := zeroize_blocks (keys_blocks c),
     values_blocks := zeroize_blocks (values_blocks c),
     free_keys := zeroize_blocks (free_keys c), free_values := zeroize_blocks (free_values c)\<rparr>)"

definition kv_num_blocks :: "'f kv_cache \<Rightarrow> usize" where
  "kv_num_blocks c = length (keys_blocks c)"

text \<open>\<open>pop_front\<close>, and keeping the block if the free list has room.\<close>

definition recycle_front :: "'f list list \<Rightarrow> 'f list list \<Rightarrow> 'f list list \<times> 'f list list" where
  "recycle_front blocks free = (case blocks of
     [] \<Rightarrow> (blocks, free)
   | b # rest \<Rightarrow> (rest, if length free < FREE_BLOCKS_CAP then vec_push free b else free))"

primrec evict_blocks :: "nat \<Rightarrow> 'f kv_cache \<Rightarrow> 'f kv_cache" where
  "evict_blocks 0 c = c"
| "evict_blocks (Suc n) c =
     (let (kbs, fk) = recycle_front (keys_blocks c) (free_keys c);
          (vbs, fv) = recycle_front (values_blocks c) (free_values c)
      in evict_blocks n (c\<lparr>keys_blocks := kbs, free_keys := fk, values_blocks := vbs, free_values := fv\<rparr>))"

definition evict_before :: "'f kv_cache \<Rightarrow> usize \<Rightarrow> 'f kv_cache" where
  "evict_before c pos =
     (let pos = min pos (kc_seq_len c);
          target_evicted = pos div PAGED_BLOCK_TOKENS
      in if target_evicted \<le> evicted_blocks c then c
         else let blocks_to_drop = min (target_evicted - evicted_blocks c) (length (keys_blocks c)) in
           if blocks_to_drop = 0 then c
           else (evict_blocks blocks_to_drop c)\<lparr>evicted_blocks := evicted_blocks c + blocks_to_drop\<rparr>)"

definition kv_free_blocks :: "'f kv_cache \<Rightarrow> usize" where
  "kv_free_blocks c = length (free_keys c)"

definition read_row :: "'f list list \<Rightarrow> usize \<Rightarrow> usize \<Rightarrow> usize \<Rightarrow> 'f list outcome" where
  "read_row blocks evicted w i =
     (let abs_block = i div PAGED_BLOCK_TOKENS; block_idx = abs_block - evicted;
          start = (i mod PAGED_BLOCK_TOKENS) * w
      in if evicted \<le> abs_block \<and> block_idx < length blocks \<and> start + w \<le> length (blocks ! block_idx)
         then Return (subslice (blocks ! block_idx) start w)
         else Panic)"

definition kv_key :: "'f kv_cache \<Rightarrow> usize \<Rightarrow> 'f list outcome" where
  "kv_key c i = read_row (keys_blocks c) (evicted_blocks c) (kc_dim c) i"

definition kv_value :: "'f kv_cache \<Rightarrow> usize \<Rightarrow> 'f list outcome" where
  "kv_value c i = read_row (values_blocks c) (evicted_blocks c) (kc_v_dim c) i"

subsection \<open>One half of the cache\<close>

text \<open>
  The halves are the same data structure. Its invariant: after \<open>n\<close> rows, \<open>e\<close> leading blocks of
  which were evicted, the table holds the other blocks at full size, and row \<open>i\<close> of a resident
  block is the \<open>i\<close>-th row written.
\<close>

definition half_inv :: "usize \<Rightarrow> nat \<Rightarrow> 'f list list \<Rightarrow> 'f list list \<Rightarrow> 'f list list \<Rightarrow> bool" where
  "half_inv w e rows blocks free \<longleftrightarrow> 16 * e \<le> length rows \<and> length blocks + e = (length rows + 15) div 16 \<and>
     (\<forall>b\<in>set blocks \<union> set free. length b = 16 * w) \<and> length free \<le> 8 \<and>
     (\<forall>i<length rows. 16 * e \<le> i \<longrightarrow> subslice (blocks ! (i div 16 - e)) (i mod 16 * w) w = rows ! i)"

lemma sixteen_facts:
  fixes n i e :: nat
  shows "16 * e \<le> i \<Longrightarrow> e \<le> i div 16"
    "i < n \<Longrightarrow> i div 16 < (n + 15) div 16"
    "n mod 16 = 0 \<Longrightarrow> (n + 15) div 16 = n div 16"
    "n mod 16 \<noteq> 0 \<Longrightarrow> (n + 15) div 16 = Suc (n div 16)"
    "(n + 16) div 16 = Suc (n div 16)"
    "n mod 16 = 0 \<Longrightarrow> i < n \<Longrightarrow> i div 16 < n div 16"
    "i div 16 = n div 16 \<Longrightarrow> i < n \<Longrightarrow> i mod 16 < n mod 16"
    "(i mod 16) * w + w \<le> 16 * w"
proof -
  show "16 * e \<le> i \<Longrightarrow> e \<le> i div 16" by (simp add: less_eq_div_iff_mult_less_eq mult.commute)
  show "i < n \<Longrightarrow> i div 16 < (n + 15) div 16" using div_le_mono [of "i + 16" "n + 15" 16] by simp
  have split: "(n + 15) div 16 = n div 16 + (n mod 16 + 15) div 16" by (simp add: div_add1_eq [of n 15])
  then show "n mod 16 = 0 \<Longrightarrow> (n + 15) div 16 = n div 16" by simp
  have "(n mod 16 + 15) div 16 = 1" if "n mod 16 \<noteq> 0"
  proof -
    have "16 \<le> n mod 16 + 15" "n mod 16 + 15 < 32" using that mod_less_divisor [of 16 n] by linarith+
    then show ?thesis by (simp add: div_nat_eqI)
  qed
  then show "n mod 16 \<noteq> 0 \<Longrightarrow> (n + 15) div 16 = Suc (n div 16)" using split by simp
  show "(n + 16) div 16 = Suc (n div 16)" by simp
  show "n mod 16 = 0 \<Longrightarrow> i < n \<Longrightarrow> i div 16 < n div 16"
    using mult_div_mod_eq [of 16 n] by (simp add: div_less_iff_less_mult mult.commute)
  show "i div 16 = n div 16 \<Longrightarrow> i < n \<Longrightarrow> i mod 16 < n mod 16"
    using mult_div_mod_eq [of 16 n] mult_div_mod_eq [of 16 i] by linarith
  have "i mod 16 < 16" by simp
  then have "Suc (i mod 16) \<le> 16" by (rule Suc_leI)
  then show "(i mod 16) * w + w \<le> 16 * w" using mult_le_mono1 [of "Suc (i mod 16)" 16 w] by simp
qed

lemma half_read:
  assumes "half_inv w e rows blocks free" "i < length rows" "16 * e \<le> i"
  shows "read_row blocks e w i = Return (rows ! i)"
proof -
  have e: "e \<le> i div 16" using assms(3) by (rule sixteen_facts(1))
  have "i div 16 < (length rows + 15) div 16" using assms(2) by (rule sixteen_facts(2))
  then have idx: "i div 16 - e < length blocks" using assms(1) e unfolding half_inv_def by linarith
  then have "length (blocks ! (i div 16 - e)) = 16 * w" using assms(1) by (auto simp: half_inv_def)
  moreover have "(i mod 16) * w + w \<le> 16 * w" by (rule sixteen_facts(8))
  ultimately show ?thesis using assms e idx by (simp add: read_row_def PAGED_BLOCK_TOKENS_def half_inv_def)
qed

lemma take_block_size:
  assumes "take_block w free = (b, free')" "\<forall>x\<in>set free. length x = 16 * w" "length free \<le> 8"
  shows "length b = 16 * w" "\<forall>x\<in>set free'. length x = 16 * w" "length free' \<le> 8"
  using assms by (auto simp: take_block_def PAGED_BLOCK_TOKENS_def vec_pop_Some split: option.splits)

lemma half_open:
  assumes inv: "half_inv w e rows blocks free" and t: "take_block w free = (b, free')"
    and "length rows mod 16 = 0" "length row = w"
  shows "\<exists>blocks'. write_row (vec_push blocks b) (length rows mod 16) w row = Return blocks' \<and>
    half_inv w e (rows @ [row]) blocks' free'"
proof -
  have sz: "\<forall>x\<in>set free. length x = 16 * w" "length free \<le> 8" using inv by (auto simp: half_inv_def)
  note T = take_block_size [OF t sz]
  let ?b = "subslice_write b 0 row"
  have len: "length ?b = 16 * w" using T(1) assms(4) by simp
  have n: "length blocks + e = length rows div 16" "(length rows + 16) div 16 = Suc (length rows div 16)"
    using inv sixteen_facts(3) [OF assms(3)] by (simp_all add: half_inv_def)
  have rd: "subslice ((blocks @ [?b]) ! (i div 16 - e)) (i mod 16 * w) w = (rows @ [row]) ! i"
    if i: "i < Suc (length rows)" "16 * e \<le> i" for i
  proof (cases "i = length rows")
    case True
    then have "i div 16 - e = length blocks" "i mod 16 = 0" using n assms(3) by simp_all
    then show ?thesis using True assms(4) T(1) by (simp add: slice_write_hit)
  next
    case False
    then have "i < length rows" using i by simp
    moreover have "i div 16 - e < length blocks"
      using sixteen_facts(6) [OF assms(3) \<open>i < length rows\<close>] sixteen_facts(1) [OF i(2)] n by linarith
    ultimately show ?thesis using inv i(2) by (simp add: half_inv_def nth_append)
  qed
  have "half_inv w e (rows @ [row]) (blocks @ [?b]) free'"
    using inv n len T rd unfolding half_inv_def by auto
  then show ?thesis using assms(3,4) T(1) by (simp add: write_row_def vec_push_def)
qed

lemma half_extend:
  assumes inv: "half_inv w e rows blocks free" and m: "length rows mod 16 \<noteq> 0" and "length row = w"
  shows "\<exists>blocks'. write_row blocks (length rows mod 16) w row = Return blocks' \<and>
    half_inv w e (rows @ [row]) blocks' free"
proof -
  let ?n = "length rows" and ?m = "length rows mod 16"
  have n: "length blocks + e = Suc (?n div 16)" "(?n + 16) div 16 = Suc (?n div 16)" "e \<le> ?n div 16"
    using inv sixteen_facts(4) [OF m] sixteen_facts(1) [of e ?n] by (simp_all add: half_inv_def)
  then have "blocks \<noteq> []" by auto
  then obtain bs b where b: "blocks = bs @ [b]" by (cases blocks rule: rev_cases) auto
  have lb: "length b = 16 * w" "length bs + e = ?n div 16" using inv n b by (auto simp: half_inv_def)
  have fit: "?m * w + w \<le> 16 * w" by (rule sixteen_facts(8))
  let ?b = "subslice_write b (?m * w) row"
  have rd: "subslice ((bs @ [?b]) ! (i div 16 - e)) (i mod 16 * w) w = (rows @ [row]) ! i"
    if i: "i < Suc ?n" "16 * e \<le> i" for i
  proof (cases "i = ?n")
    case True
    then have "i div 16 - e = length bs" using lb(2) by simp
    then show ?thesis using True assms(3) lb(1) fit by (simp add: slice_write_hit)
  next
    case False
    then have lt: "i < ?n" using i by simp
    then have old: "subslice ((bs @ [b]) ! (i div 16 - e)) (i mod 16 * w) w = rows ! i"
      using inv i(2) b by (simp add: half_inv_def)
    show ?thesis
    proof (cases "i div 16 - e = length bs")
      case True
      then have "i div 16 = ?n div 16" using lb(2) sixteen_facts(1) [OF i(2)] by linarith
      then have "i mod 16 < ?m" using lt by (rule sixteen_facts(7))
      then have "i mod 16 * w + w \<le> ?m * w" using mult_le_mono1 [of "Suc (i mod 16)" ?m w] by simp
      then show ?thesis using True old lt lb(1) fit assms(3) by (simp add: nth_append slice_write_below)
    next
      case False
      then show ?thesis using old lt by (simp add: nth_append split: if_splits)
    qed
  qed
  have "half_inv w e (rows @ [row]) (bs @ [?b]) free"
    using inv n lb fit rd b assms(3) unfolding half_inv_def by auto
  then show ?thesis using assms(3) lb(1) fit b by (simp add: write_row_def vec_push_def)
qed

lemma half_recycle:
  assumes inv: "half_inv w e rows (b # blocks) free" and "16 * Suc e \<le> length rows"
    and "recycle_front (b # blocks) free = (blocks', free')"
  shows "half_inv w (Suc e) rows blocks' free'"
proof -
  have b: "blocks' = blocks" and f: "set free' \<subseteq> insert b (set free)" "length free' \<le> 8"
    using assms inv by (auto simp: recycle_front_def FREE_BLOCKS_CAP_def vec_push_def half_inv_def split: if_splits)
  have "subslice (blocks ! (i div 16 - Suc e)) (i mod 16 * w) w = rows ! i"
    if i: "i < length rows" "16 * Suc e \<le> i" for i
  proof -
    have "i div 16 - e = Suc (i div 16 - Suc e)" using sixteen_facts(1) [OF i(2)] by linarith
    then have "(b # blocks) ! (i div 16 - e) = blocks ! (i div 16 - Suc e)" by simp
    moreover have "16 * e \<le> i" using i(2) by simp
    ultimately show ?thesis using inv i(1) unfolding half_inv_def by metis
  qed
  then show ?thesis using inv f assms(2) unfolding half_inv_def b by auto
qed

subsection \<open>The cache against the history of rows\<close>

text \<open>\<open>kv_holds c ks vs\<close>: the rows appended since the last reset are \<open>ks\<close> and \<open>vs\<close>.\<close>

definition kv_holds :: "'f kv_cache \<Rightarrow> 'f list list \<Rightarrow> 'f list list \<Rightarrow> bool" where
  "kv_holds c ks vs \<longleftrightarrow> kc_seq_len c = length ks \<and> length vs = length ks \<and>
     half_inv (kc_dim c) (evicted_blocks c) ks (keys_blocks c) (free_keys c) \<and>
     half_inv (kc_v_dim c) (evicted_blocks c) vs (values_blocks c) (free_values c)"

lemma new_holds: "kv_holds (new_kv dk dv) [] []"
  by (simp add: kv_holds_def new_kv_def half_inv_def)

lemma reset_holds: "kv_holds (snd (kv_reset c)) [] []"
  by (simp add: kv_holds_def kv_reset_def half_inv_def)

lemma append_holds:
  assumes "kv_holds c ks vs" "length k = kc_dim c" "length v = kc_v_dim c"
  shows "\<exists>c'. kv_append c k v = Return c' \<and> kv_holds c' (ks @ [k]) (vs @ [v]) \<and>
    evicted_blocks c' = evicted_blocks c \<and> kc_dim c' = kc_dim c \<and> kc_v_dim c' = kc_v_dim c"
proof -
  have n: "kc_seq_len c = length ks" "length vs = length ks"
    and K: "half_inv (kc_dim c) (evicted_blocks c) ks (keys_blocks c) (free_keys c)"
    and V: "half_inv (kc_v_dim c) (evicted_blocks c) vs (values_blocks c) (free_values c)"
    using assms(1) by (simp_all add: kv_holds_def)
  show ?thesis
  proof (cases "length ks mod 16 = 0")
    case True
    obtain kb fk where tk: "take_block (kc_dim c) (free_keys c) = (kb, fk)" by fastforce
    obtain vb fv where tv: "take_block (kc_v_dim c) (free_values c) = (vb, fv)" by fastforce
    have Tv: "length vs mod 16 = 0" using True n by simp
    obtain kbs where kw: "write_row (vec_push (keys_blocks c) kb) (length ks mod 16) (kc_dim c) k = Return kbs"
      "half_inv (kc_dim c) (evicted_blocks c) (ks @ [k]) kbs fk"
      using half_open [OF K tk True assms(2)] by blast
    obtain vbs where vw: "write_row (vec_push (values_blocks c) vb) (length vs mod 16) (kc_v_dim c) v = Return vbs"
      "half_inv (kc_v_dim c) (evicted_blocks c) (vs @ [v]) vbs fv"
      using half_open [OF V tv Tv assms(3)] by blast
    show ?thesis using kw vw n True tk tv
      by (simp add: kv_append_def PAGED_BLOCK_TOKENS_def Let_def kv_holds_def)
  next
    case False
    then have Fv: "length vs mod 16 \<noteq> 0" using n by simp
    obtain kbs where kw: "write_row (keys_blocks c) (length ks mod 16) (kc_dim c) k = Return kbs"
      "half_inv (kc_dim c) (evicted_blocks c) (ks @ [k]) kbs (free_keys c)"
      using half_extend [OF K False assms(2)] by blast
    obtain vbs where vw: "write_row (values_blocks c) (length vs mod 16) (kc_v_dim c) v = Return vbs"
      "half_inv (kc_v_dim c) (evicted_blocks c) (vs @ [v]) vbs (free_values c)"
      using half_extend [OF V Fv assms(3)] by blast
    show ?thesis using kw vw n False
      by (simp add: kv_append_def PAGED_BLOCK_TOKENS_def Let_def kv_holds_def)
  qed
qed

lemma evict_blocks_commute:
  "evict_blocks m (d\<lparr>evicted_blocks := x\<rparr>) = (evict_blocks m d)\<lparr>evicted_blocks := x\<rparr>"
proof (induction m arbitrary: d)
  case (Suc m)
  show ?case
    by (simp add: case_prod_unfold Let_def flip: Suc.IH) (rule arg_cong [of _ _ "evict_blocks m"], simp)
qed simp

lemma evict_blocks_holds:
  assumes "kv_holds c ks vs" "16 * (evicted_blocks c + m) \<le> length ks"
  shows "kv_holds ((evict_blocks m c)\<lparr>evicted_blocks := evicted_blocks c + m\<rparr>) ks vs \<and>
    kc_dim (evict_blocks m c) = kc_dim c \<and> kc_v_dim (evict_blocks m c) = kc_v_dim c \<and>
    kc_seq_len (evict_blocks m c) = kc_seq_len c"
  using assms
proof (induction m arbitrary: c)
  case 0
  then show ?case by simp
next
  case (Suc m)
  let ?e = "evicted_blocks c"
  have n: "kc_seq_len c = length ks" "length vs = length ks"
    and K: "half_inv (kc_dim c) ?e ks (keys_blocks c) (free_keys c)"
    and V: "half_inv (kc_v_dim c) ?e vs (values_blocks c) (free_values c)"
    using Suc.prems(1) by (simp_all add: kv_holds_def)
  have room: "16 * Suc ?e \<le> length ks" using Suc.prems(2) by simp
  then have "?e < (length ks + 15) div 16" using sixteen_facts(1) [OF room] div_le_mono [of "length ks" "length ks + 15" 16] by linarith
  then have "keys_blocks c \<noteq> []" "values_blocks c \<noteq> []" using K V n by (auto simp: half_inv_def)
  then obtain kb kbs vb vbs where b: "keys_blocks c = kb # kbs" "values_blocks c = vb # vbs"
    by (cases "keys_blocks c"; cases "values_blocks c") auto
  obtain kbs' fk where rk: "recycle_front (keys_blocks c) (free_keys c) = (kbs', fk)" by fastforce
  obtain vbs' fv where rv: "recycle_front (values_blocks c) (free_values c) = (vbs', fv)" by fastforce
  let ?c = "c\<lparr>keys_blocks := kbs', free_keys := fk, values_blocks := vbs', free_values := fv\<rparr>"
  have "half_inv (kc_dim c) (Suc ?e) ks kbs' fk" using half_recycle [OF _ room] K rk b by simp
  moreover have "half_inv (kc_v_dim c) (Suc ?e) vs vbs' fv" using half_recycle [of _ ?e vs] V rv b room n by simp
  ultimately have "kv_holds (?c\<lparr>evicted_blocks := Suc ?e\<rparr>) ks vs" using n by (simp add: kv_holds_def)
  from Suc.IH [OF this] Suc.prems(2) have IH:
    "kv_holds ((evict_blocks m (?c\<lparr>evicted_blocks := Suc ?e\<rparr>))\<lparr>evicted_blocks := Suc ?e + m\<rparr>) ks vs \<and>
     kc_dim (evict_blocks m (?c\<lparr>evicted_blocks := Suc ?e\<rparr>)) = kc_dim c \<and>
     kc_v_dim (evict_blocks m (?c\<lparr>evicted_blocks := Suc ?e\<rparr>)) = kc_v_dim c \<and>
     kc_seq_len (evict_blocks m (?c\<lparr>evicted_blocks := Suc ?e\<rparr>)) = kc_seq_len c" by simp
  show ?case using IH unfolding evict_blocks_commute by (simp add: rk rv)
qed

lemma evict_before_holds:
  assumes "kv_holds c ks vs"
  shows "kv_holds (evict_before c pos) ks vs \<and>
    evicted_blocks (evict_before c pos) = max (evicted_blocks c) (min pos (length ks) div 16) \<and>
    kc_dim (evict_before c pos) = kc_dim c \<and> kc_v_dim (evict_before c pos) = kc_v_dim c"
proof -
  let ?e = "evicted_blocks c" and ?t = "min pos (length ks) div 16"
  have n: "kc_seq_len c = length ks" and K: "half_inv (kc_dim c) ?e ks (keys_blocks c) (free_keys c)"
    using assms by (simp_all add: kv_holds_def)
  show ?thesis
  proof (cases "?t \<le> ?e")
    case True
    then show ?thesis using assms n by (simp add: evict_before_def Let_def PAGED_BLOCK_TOKENS_def)
  next
    case False
    have "?t \<le> (length ks + 15) div 16" by (intro div_le_mono) simp
    then have all: "min (?t - ?e) (length (keys_blocks c)) = ?t - ?e" using K unfolding half_inv_def by linarith
    have "16 * ?t \<le> min pos (length ks)" by (metis mult.commute div_times_less_eq_dividend)
    then have "16 * (?e + (?t - ?e)) \<le> length ks" using False by simp
    from evict_blocks_holds [OF assms this] False all n show ?thesis
      by (simp add: evict_before_def Let_def PAGED_BLOCK_TOKENS_def)
  qed
qed

subsection \<open>Sequences of operations\<close>

text \<open>
  The abstract window: the rows since the last reset and the first position that is still
  readable. \<open>evict_before\<close> raises that floor, in whole blocks, and never above its argument.
\<close>

datatype 'f kv_op = KvAppend "'f list" "'f list" | KvEvict usize | KvReset

fun kv_op_run :: "('f::zero) kv_op \<Rightarrow> 'f kv_cache \<Rightarrow> 'f kv_cache outcome" where
  "kv_op_run (KvAppend k v) c = kv_append c k v"
| "kv_op_run (KvEvict pos) c = Return (evict_before c pos)"
| "kv_op_run KvReset c = Return (snd (kv_reset c))"

fun kv_ops_run :: "('f::zero) kv_op list \<Rightarrow> 'f kv_cache \<Rightarrow> 'f kv_cache outcome" where
  "kv_ops_run [] c = Return c"
| "kv_ops_run (x # xs) c = obind (kv_op_run x c) (kv_ops_run xs)"

type_synonym 'f kv_window = "('f list \<times> 'f list) list \<times> usize"

fun window_op :: "'f kv_op \<Rightarrow> 'f kv_window \<Rightarrow> 'f kv_window" where
  "window_op (KvAppend k v) (rows, low) = (rows @ [(k, v)], low)"
| "window_op (KvEvict pos) (rows, low) = (rows, max low (16 * (min pos (length rows) div 16)))"
| "window_op KvReset (rows, low) = ([], 0)"

fun op_widths :: "usize \<Rightarrow> usize \<Rightarrow> 'f kv_op \<Rightarrow> bool" where
  "op_widths dk dv (KvAppend k v) \<longleftrightarrow> length k = dk \<and> length v = dv"
| "op_widths dk dv _ \<longleftrightarrow> True"

definition kv_refines :: "usize \<Rightarrow> usize \<Rightarrow> 'f kv_cache \<Rightarrow> 'f kv_window \<Rightarrow> bool" where
  "kv_refines dk dv c w \<longleftrightarrow> kv_holds c (map fst (fst w)) (map snd (fst w)) \<and>
     snd w = 16 * evicted_blocks c \<and> kc_dim c = dk \<and> kc_v_dim c = dv"

lemma kv_op_refines:
  assumes "kv_refines dk dv c w" "op_widths dk dv x"
  shows "\<exists>c'. kv_op_run x c = Return c' \<and> kv_refines dk dv c' (window_op x w)"
proof (cases x)
  case (KvAppend k v)
  then show ?thesis using assms append_holds [of c "map fst (fst w)" "map snd (fst w)" k v]
    by (cases w) (auto simp: kv_refines_def)
next
  case (KvEvict pos)
  have "max (16 * a) (16 * b) = 16 * max a b" for a b :: nat by (simp add: max_def)
  then show ?thesis using KvEvict assms evict_before_holds [of c "map fst (fst w)" "map snd (fst w)" pos]
    by (cases w) (auto simp: kv_refines_def)
next
  case KvReset
  then show ?thesis using assms reset_holds [of c] by (cases w) (auto simp: kv_refines_def kv_reset_def)
qed

lemma kv_ops_refine:
  assumes "kv_refines dk dv c w" "\<forall>x\<in>set xs. op_widths dk dv x"
  shows "\<exists>c'. kv_ops_run xs c = Return c' \<and> kv_refines dk dv c' (fold window_op xs w)"
  using assms
proof (induction xs arbitrary: c w)
  case (Cons x xs)
  then obtain c1 where "kv_op_run x c = Return c1" "kv_refines dk dv c1 (window_op x w)"
    using kv_op_refines [of dk dv c w x] by auto
  with Cons.IH [of c1 "window_op x w"] Cons.prems show ?case by simp
qed auto

text \<open>C14: the paged sliding-window cache implements the window specification. However appends,
  evictions and resets are interleaved, it never panics, the row read at any position between
  the window's floor and the end is the row appended there, it holds exactly the blocks that
  cover those positions, and each free list keeps at most eight spare blocks.\<close>

theorem kv_window_refinement:
  assumes "\<forall>x\<in>set xs. op_widths dk dv x" "fold window_op xs ([], 0) = (rows, low)"
  shows "\<exists>c. kv_ops_run xs (new_kv dk dv) = Return c \<and> kc_seq_len c = length rows \<and> low \<le> length rows \<and>
    (\<forall>i. low \<le> i \<and> i < length rows \<longrightarrow> kv_key c i = Return (fst (rows ! i)) \<and> kv_value c i = Return (snd (rows ! i))) \<and>
    kv_num_blocks c = (length rows + 15) div 16 - low div 16 \<and>
    length (free_keys c) \<le> FREE_BLOCKS_CAP \<and> length (free_values c) \<le> FREE_BLOCKS_CAP"
proof -
  have start: "kv_refines dk dv (new_kv dk dv) ([], 0)"
    using new_holds by (simp add: kv_refines_def) (simp add: new_kv_def)
  from kv_ops_refine [OF start assms(1)] assms(2) obtain c where
    c: "kv_ops_run xs (new_kv dk dv) = Return c" and R: "kv_refines dk dv c (rows, low)" by auto
  have K: "half_inv dk (evicted_blocks c) (map fst rows) (keys_blocks c) (free_keys c)"
    and V: "half_inv dv (evicted_blocks c) (map snd rows) (values_blocks c) (free_values c)"
    and f: "low = 16 * evicted_blocks c" "kc_dim c = dk" "kc_v_dim c = dv" "kc_seq_len c = length rows"
    using R by (auto simp: kv_refines_def kv_holds_def)
  have "kv_key c i = Return (fst (rows ! i)) \<and> kv_value c i = Return (snd (rows ! i))"
    if "low \<le> i" "i < length rows" for i
    using half_read [OF K, of i] half_read [OF V, of i] that f by (simp add: kv_key_def kv_value_def)
  moreover have "low \<le> length rows" "length (keys_blocks c) + evicted_blocks c = (length rows + 15) div 16"
    using K f by (simp_all add: half_inv_def)
  moreover from this(2) have "kv_num_blocks c = (length rows + 15) div 16 - low div 16"
    using f(1) by (simp add: kv_num_blocks_def)
  ultimately show ?thesis using c f K V by (auto simp: half_inv_def FREE_BLOCKS_CAP_def)
qed

theorem kv_window_refinement_witness:
  "\<exists>c. kv_ops_run [KvAppend [1 :: int] [2], KvEvict 1] (new_kv 1 1) = Return c \<and> kv_key c 0 = Return [1]"
  using kv_window_refinement [of "[KvAppend [1 :: int] [2], KvEvict 1]" 1 1 "[([1], [2])]" 0] by force

text \<open>Sliding-window decoding runs in bounded memory and keeps the window: evicting before
  position \<open>pos\<close> keeps every row from \<open>pos\<close> on, and once a window of \<open>n\<close> tokens is evicted
  behind the end, at most \<open>n div 16 + 2\<close> blocks stay resident per half, however long the
  sequence is.\<close>

theorem sliding_window_bounded:
  assumes "kv_holds c ks vs"
  shows "(\<forall>i. pos \<le> i \<and> i < length ks \<and> 16 * evicted_blocks c \<le> i \<longrightarrow>
      kv_key (evict_before c pos) i = kv_key c i \<and> kv_value (evict_before c pos) i = kv_value c i) \<and>
    kv_num_blocks (evict_before c (kc_seq_len c - n)) \<le> n div 16 + 2"
proof -
  have keep: "kv_key d i = Return (ks ! i) \<and> kv_value d i = Return (vs ! i)"
    if "kv_holds d ks vs" "i < length ks" "16 * evicted_blocks d \<le> i" for d i
  proof -
    have "half_inv (kc_dim d) (evicted_blocks d) ks (keys_blocks d) (free_keys d)"
      "half_inv (kc_v_dim d) (evicted_blocks d) vs (values_blocks d) (free_values d)" "length vs = length ks"
      using that(1) by (simp_all add: kv_holds_def)
    from half_read [OF this(1), of i] half_read [OF this(2), of i] this(3) that(2,3) show ?thesis
      by (simp add: kv_key_def kv_value_def)
  qed
  have "kv_key (evict_before c pos) i = kv_key c i \<and> kv_value (evict_before c pos) i = kv_value c i"
    if i: "pos \<le> i" "i < length ks" "16 * evicted_blocks c \<le> i" for i
  proof -
    have "16 * (min pos (length ks) div 16) \<le> i" using i(1) by (metis div_times_less_eq_dividend mult.commute min.coboundedI1 order_trans)
    then have "16 * evicted_blocks (evict_before c pos) \<le> i"
      using evict_before_holds [OF assms, of pos] i(3) by (simp add: max_def)
    then show ?thesis using keep [OF assms i(2,3)] keep [of "evict_before c pos" i] evict_before_holds [OF assms, of pos] i(2) by simp
  qed
  moreover have "kv_num_blocks (evict_before c (kc_seq_len c - n)) \<le> n div 16 + 2"
  proof -
    let ?d = "evict_before c (kc_seq_len c - n)" and ?m = "length ks"
    have h: "kv_holds ?d ks vs" and e: "(?m - n) div 16 \<le> evicted_blocks ?d"
      using evict_before_holds [OF assms, of "kc_seq_len c - n"] assms by (auto simp: kv_holds_def)
    have "kv_num_blocks ?d + evicted_blocks ?d = (?m + 15) div 16" using h by (simp add: kv_holds_def half_inv_def kv_num_blocks_def)
    moreover have "(?m + 15) div 16 \<le> (?m - n) div 16 + n div 16 + 2"
    proof -
      have "?m + 15 \<le> 16 * ((?m - n) div 16) + 16 * (n div 16) + 45"
        using mult_div_mod_eq [of 16 "?m - n"] mult_div_mod_eq [of 16 n] mod_less_divisor [of 16 "?m - n"]
          mod_less_divisor [of 16 n] by linarith
      then have "(?m + 15) div 16 \<le> (16 * ((?m - n) div 16 + n div 16) + 45) div 16" by (intro div_le_mono) simp
      then show ?thesis by simp
    qed
    ultimately show ?thesis using e by linarith
  qed
  ultimately show ?thesis by blast
qed

theorem sliding_window_bounded_witness:
  "kv_num_blocks (evict_before (new_kv 1 1 :: int kv_cache) (kc_seq_len (new_kv 1 1 :: int kv_cache) - 32)) \<le> 4"
  using sliding_window_bounded [OF new_holds [where 'a = int], of 0 1 1 32] by simp

lemma zeroize_released:
  "\<forall>b\<in>set (fst (kv_zeroize c)). \<forall>x\<in>set b. x = 0"
  "length (fst (kv_zeroize c)) = length (kv_blocks c)"
  "snd (kv_zeroize c) = snd (kv_reset c)"
  by (auto simp: kv_zeroize_def kv_reset_def kv_blocks_def zeroize_blocks_def)

end
