(* ===== verification/Session.thy ===== *)
theory Session
  imports KvCache
begin

section \<open>The session store\<close>

text \<open>
  Model of \<open>session.rs\<close>: resident sessions, the markers of sessions that are checked out, and the
  tombstones of sessions deleted while checked out. Each access to one of the concurrent maps is
  atomic in the code; the operations below compose these accesses in the code's order, and the
  interleaving of \<open>delete\<close> with another request is studied on its two halves. Time is a number
  (\<open>Instant\<close>), supplied by the caller; session ids are strings. Operations that destroy KV state
  also return the memory blocks handed back to the allocator.
\<close>

record 'f session_state =
  ss_kv :: "'f kv_cache list"
  ss_position :: usize
  ss_pending_token :: "u32 option"
  ss_last_used :: nat

definition session_state_new :: "'f kv_cache list \<Rightarrow> nat \<Rightarrow> 'f session_state" where
  "session_state_new kv now = \<lparr>ss_kv = kv, ss_position = 0, ss_pending_token = None, ss_last_used = now\<rparr>"

definition zeroize_in_place :: "('f::zero) session_state \<Rightarrow> 'f list list" where
  "zeroize_in_place s = concat (map (\<lambda>c. fst (kv_zeroize c)) (ss_kv s))"

record 'f session_store =
  st_inner :: "(string \<times> 'f session_state) list"
  st_in_flight :: "string \<Rightarrow> u64 option"
  st_tombstones :: "string set"
  st_next_checkout :: u64
  st_ttl :: nat

record session_checkout =
  co_id :: string
  co_token :: u64

definition session_store_new :: "nat \<Rightarrow> 'f session_store" where
  "session_store_new ttl = \<lparr>st_inner = [], st_in_flight = Map.empty, st_tombstones = {},
     st_next_checkout = 1, st_ttl = ttl\<rparr>"

definition store_len :: "'f session_store \<Rightarrow> usize" where
  "store_len s = length (st_inner s)"

text \<open>\<open>remove\<close> and \<open>insert\<close> on the map of resident sessions.\<close>

definition inner_remove :: "string \<Rightarrow> 'f session_store \<Rightarrow> 'f session_state option \<times> 'f session_store" where
  "inner_remove i s = (map_of (st_inner s) i, s\<lparr>st_inner := filter (\<lambda>e. fst e \<noteq> i) (st_inner s)\<rparr>)"

definition inner_insert :: "string \<Rightarrow> 'f session_state \<Rightarrow> 'f session_store \<Rightarrow> 'f session_store" where
  "inner_insert i state s = s\<lparr>st_inner := (i, state) # filter (\<lambda>e. fst e \<noteq> i) (st_inner s)\<rparr>"

text \<open>Dropping an armed guard.\<close>

definition checkout_drop :: "session_checkout \<Rightarrow> 'f session_store \<Rightarrow> 'f session_store" where
  "checkout_drop g s = (if st_in_flight s (co_id g) = Some (co_token g)
     then s\<lparr>st_in_flight := (st_in_flight s)(co_id g := None)\<rparr> else s)"

definition session_take ::
    "('f::zero) session_store \<Rightarrow> string \<Rightarrow>
     ('f session_state \<times> session_checkout) option \<times> 'f list list \<times> 'f session_store" where
  "session_take s i =
     (if i \<in> st_tombstones s then (None, [], s)
      else let token = st_next_checkout s; s = s\<lparr>st_next_checkout := token + 1\<rparr> in
        if st_in_flight s i \<noteq> None then (None, [], s)
        else let s = s\<lparr>st_in_flight := (st_in_flight s)(i \<mapsto> token)\<rparr>;
                 guard = \<lparr>co_id = i, co_token = token\<rparr>
          in case inner_remove i s of
               (Some state, s) \<Rightarrow>
                 if i \<in> st_tombstones s then (None, zeroize_in_place state, checkout_drop guard s)
                 else (Some (state, guard), [], s)
             | (None, s) \<Rightarrow> (None, [], checkout_drop guard s))"

definition session_put ::
    "('f::zero) session_store \<Rightarrow> string \<Rightarrow> 'f session_state \<Rightarrow> session_checkout option \<Rightarrow> nat \<Rightarrow>
     'f list list \<times> 'f session_store" where
  "session_put s i state checkout now =
     (let owns = (case checkout of None \<Rightarrow> True
           | Some g \<Rightarrow> co_id g = i \<and> st_in_flight s i = Some (co_token g))
      in if \<not> owns
         then (zeroize_in_place state, case checkout of Some g \<Rightarrow> checkout_drop g s | None \<Rightarrow> s)
         else let s = (if checkout \<noteq> None then s\<lparr>st_in_flight := (st_in_flight s)(i := None)\<rparr> else s) in
           if i \<in> st_tombstones s
           then (zeroize_in_place state,
                 if checkout \<noteq> None then s\<lparr>st_tombstones := st_tombstones s - {i}\<rparr> else s)
           else (case map_of (st_inner s) i of
                   Some replaced \<Rightarrow> concat (map kv_blocks (ss_kv replaced))
                 | None \<Rightarrow> [],
                 inner_insert i (state\<lparr>ss_last_used := now\<rparr>) s))"

text \<open>\<open>delete\<close> is two accesses: the resident entry, then the marker of a checked-out session.\<close>

definition delete_resident ::
    "('f::zero) session_store \<Rightarrow> string \<Rightarrow> bool \<times> 'f list list \<times> 'f session_store" where
  "delete_resident s i =
     (case inner_remove i s of
        (Some state, s) \<Rightarrow> (True, zeroize_in_place state, s\<lparr>st_tombstones := st_tombstones s - {i}\<rparr>)
      | (None, s) \<Rightarrow> (False, [], s))"

definition delete_in_flight :: "'f session_store \<Rightarrow> string \<Rightarrow> bool \<times> 'f session_store" where
  "delete_in_flight s i =
     (if st_in_flight s i \<noteq> None then (True, s\<lparr>st_tombstones := insert i (st_tombstones s)\<rparr>) else (False, s))"

definition session_delete ::
    "('f::zero) session_store \<Rightarrow> string \<Rightarrow> bool \<times> 'f list list \<times> 'f session_store" where
  "session_delete s i =
     (case delete_resident s i of
        (True, released, s) \<Rightarrow> (True, released, s)
      | (False, released, s) \<Rightarrow> (case delete_in_flight s i of (b, s) \<Rightarrow> (b, released, s)))"

text \<open>The evictor: a scan for expired ids, then a conditional removal of each.\<close>

definition expired :: "'f session_store \<Rightarrow> nat \<Rightarrow> 'f session_state \<Rightarrow> bool" where
  "expired s now state \<longleftrightarrow> now - ss_last_used state > st_ttl s"

fun evict_keys ::
    "nat \<Rightarrow> string list \<Rightarrow> ('f::zero) session_store \<Rightarrow> usize \<times> 'f list list \<times> 'f session_store" where
  "evict_keys now [] s = (0, [], s)"
| "evict_keys now (k # ks) s =
     (case map_of (st_inner s) k of
        Some state \<Rightarrow>
          if expired s now state
          then (case evict_keys now ks (snd (inner_remove k s)) of
                  (n, released, s) \<Rightarrow> (Suc n, zeroize_in_place state @ released, s))
          else evict_keys now ks s
      | None \<Rightarrow> evict_keys now ks s)"

definition evict_expired :: "('f::zero) session_store \<Rightarrow> nat \<Rightarrow> usize \<times> 'f list list \<times> 'f session_store" where
  "evict_expired s now =
     (if st_ttl s = 0 then (0, [], s)
      else evict_keys now (map fst (filter (\<lambda>e. expired s now (snd e)) (st_inner s))) s)"

subsection \<open>Runs\<close>

text \<open>A state of the system: the store and the guards that are alive (and armed).\<close>

type_synonym 'f session_system = "'f session_store \<times> session_checkout set"

inductive session_step :: "('f::zero) session_system \<Rightarrow> 'f session_system \<Rightarrow> bool" where
  taken: "session_take s i = (Some (state, g), rel, s') \<Longrightarrow> session_step (s, G) (s', insert g G)"
| not_taken: "session_take s i = (None, rel, s') \<Longrightarrow> session_step (s, G) (s', G)"
| returned: "g \<in> G \<Longrightarrow> session_put s i state (Some g) now = (rel, s') \<Longrightarrow> session_step (s, G) (s', G - {g})"
| stored: "session_put s i state None now = (rel, s') \<Longrightarrow> session_step (s, G) (s', G)"
| dropped: "g \<in> G \<Longrightarrow> session_step (s, G) (checkout_drop g s, G - {g})"
| deleted: "session_delete s i = (b, rel, s') \<Longrightarrow> session_step (s, G) (s', G)"
| evicted: "evict_expired s now = (n, rel, s') \<Longrightarrow> session_step (s, G) (s', G)"

abbreviation session_run :: "('f::zero) session_system \<Rightarrow> 'f session_system \<Rightarrow> bool" where
  "session_run \<equiv> session_step\<^sup>*\<^sup>*"

text \<open>
  The markers are exactly the live guards, a tombstoned session is not resident, and ids are unique.
\<close>

definition session_inv :: "'f session_system \<Rightarrow> bool" where
  "session_inv x \<longleftrightarrow> (case x of (s, G) \<Rightarrow>
     (\<forall>i t. st_in_flight s i = Some t \<longleftrightarrow> \<lparr>co_id = i, co_token = t\<rparr> \<in> G) \<and>
     (\<forall>i\<in>st_tombstones s. map_of (st_inner s) i = None) \<and> distinct (map fst (st_inner s)))"

lemma session_invD:
  assumes "session_inv (s, G)"
  shows "st_in_flight s i = Some t \<longleftrightarrow> \<lparr>co_id = i, co_token = t\<rparr> \<in> G"
    "i \<in> st_tombstones s \<Longrightarrow> map_of (st_inner s) i = None" "distinct (map fst (st_inner s))"
  using assms by (simp_all add: session_inv_def)

lemma entry_lookup: "distinct (map fst es) \<Longrightarrow> e \<in> set es \<Longrightarrow> map_of es (fst e) = Some (snd e)"
  by (metis map_of_is_SomeI prod.collapse)

lemma store_start_inv: "session_inv (session_store_new ttl, {})"
  by (simp add: session_inv_def session_store_new_def)

lemma map_of_filter_key: "map_of (filter (\<lambda>e. fst e \<noteq> i) es) j = (if j = i then None else map_of es j)"
  by (induction es) auto

lemma distinct_filter_key: "distinct (map fst es) \<Longrightarrow> distinct (map fst (filter P es))"
  by (induction es) auto

lemma checkout_drop_frame [simp]:
  "st_tombstones (checkout_drop g s) = st_tombstones s" "st_inner (checkout_drop g s) = st_inner s"
  "st_ttl (checkout_drop g s) = st_ttl s" "st_next_checkout (checkout_drop g s) = st_next_checkout s"
  by (simp_all add: checkout_drop_def)

lemma drop_inv:
  assumes "session_inv (s, G)" "g \<in> G"
  shows "session_inv (checkout_drop g s, G - {g})" "st_in_flight s (co_id g) = Some (co_token g)"
proof -
  show own: "st_in_flight s (co_id g) = Some (co_token g)"
    using assms by (cases g) (simp add: session_inv_def)
  have uniq: "t = t'" if "\<lparr>co_id = i, co_token = t\<rparr> \<in> G" "\<lparr>co_id = i, co_token = t'\<rparr> \<in> G" for i t t'
    using session_invD(1) [OF assms(1), of i t] session_invD(1) [OF assms(1), of i t'] that by simp
  have "\<lparr>co_id = i, co_token = t\<rparr> \<in> G - {g} \<longleftrightarrow> \<lparr>co_id = i, co_token = t\<rparr> \<in> G \<and> i \<noteq> co_id g" for i t
    using assms(2) uniq by (cases g) auto
  then show "session_inv (checkout_drop g s, G - {g})"
    using assms own by (auto simp: session_inv_def checkout_drop_def)
qed

lemma take_cases:
  assumes "session_take s i = (r, rel, s')" "session_inv (s, G)"
  shows "case r of
      None \<Rightarrow> rel = [] \<and> st_in_flight s' = st_in_flight s \<and> st_inner s' = st_inner s \<and>
        st_tombstones s' = st_tombstones s
    | Some (state, g) \<Rightarrow> rel = [] \<and> i \<notin> st_tombstones s \<and> map_of (st_inner s) i = Some state \<and>
        co_id g = i \<and> st_in_flight s i = None \<and>
        st_in_flight s' = (st_in_flight s)(i \<mapsto> co_token g) \<and>
        st_inner s' = filter (\<lambda>e. fst e \<noteq> i) (st_inner s) \<and> st_tombstones s' = st_tombstones s"
proof -
  have absent: "map_of (st_inner s) i = None \<Longrightarrow> filter (\<lambda>e. fst e \<noteq> i) (st_inner s) = st_inner s"
    by (auto simp: filter_id_conv map_of_eq_None_iff)
  have undo: "st_in_flight s i = None \<Longrightarrow> (st_in_flight s)(i := None) = st_in_flight s" by auto
  show ?thesis using assms(1) absent undo
    by (auto simp: session_take_def Let_def inner_remove_def checkout_drop_def split: if_splits option.splits)
qed

definition all_zero :: "('f::zero) list list \<Rightarrow> bool" where
  "all_zero released \<longleftrightarrow> (\<forall>b\<in>set released. \<forall>x\<in>set b. x = 0)"

lemma all_zero_simps [simp]: "all_zero []" "all_zero (xs @ ys) \<longleftrightarrow> all_zero xs \<and> all_zero ys"
  "all_zero (zeroize_in_place state)"
  using zeroize_released(1) by (auto simp: all_zero_def zeroize_in_place_def)

text \<open>A return that is refused, or that replaces nothing, releases zeroed memory only.\<close>

lemma put_released:
  assumes "i \<in> st_tombstones s \<or> map_of (st_inner s) i = None"
  shows "all_zero (fst (session_put s i state co now))"
  using assms by (auto simp: session_put_def Let_def)

text \<open>Returning a live guard under its own id, and under another id.\<close>

lemma put_owned:
  assumes "session_inv (s, G)" "g \<in> G" "session_put s (co_id g) state (Some g) now = (rel, s')"
  shows "s' = (if co_id g \<in> st_tombstones s then (checkout_drop g s)\<lparr>st_tombstones := st_tombstones s - {co_id g}\<rparr>
    else inner_insert (co_id g) (state\<lparr>ss_last_used := now\<rparr>) (checkout_drop g s))"
  using assms drop_inv(2) [OF assms(1,2)]
  by (auto simp: session_put_def Let_def checkout_drop_def split: if_splits)

lemma put_foreign:
  assumes "co_id g \<noteq> i" "session_put s i state (Some g) now = (rel, s')"
  shows "s' = checkout_drop g s"
  using assms by (simp add: session_put_def Let_def)

lemma put_fresh:
  assumes "session_put s i state None now = (rel, s')"
  shows "s' = (if i \<in> st_tombstones s then s else inner_insert i (state\<lparr>ss_last_used := now\<rparr>) s)"
  using assms by (simp add: session_put_def Let_def split: if_splits)

lemma delete_cases:
  assumes "session_delete s i = (b, rel, s')"
  shows "all_zero rel \<and> (case map_of (st_inner s) i of
      Some state \<Rightarrow> b \<and> s' = s\<lparr>st_inner := filter (\<lambda>e. fst e \<noteq> i) (st_inner s), st_tombstones := st_tombstones s - {i}\<rparr>
    | None \<Rightarrow> (b \<longleftrightarrow> st_in_flight s i \<noteq> None) \<and>
        s' = (if b then s\<lparr>st_tombstones := insert i (st_tombstones s)\<rparr> else s))"
proof -
  have absent: "map_of (st_inner s) i = None \<Longrightarrow> filter (\<lambda>e. fst e \<noteq> i) (st_inner s) = st_inner s"
    by (auto simp: filter_id_conv map_of_eq_None_iff)
  show ?thesis using assms absent
    by (auto simp: session_delete_def delete_resident_def delete_in_flight_def inner_remove_def
        split: option.splits if_splits)
qed

lemma expired_frame [simp]: "expired (s\<lparr>st_inner := es\<rparr>) now = expired s now"
  by (simp add: expired_def fun_eq_iff)

lemma length_filter_key:
  "distinct (map fst es) \<Longrightarrow> map_of es k = Some v \<Longrightarrow> Suc (length (filter (\<lambda>e. fst e \<noteq> k) es)) = length es"
proof (induction es)
  case (Cons e es)
  show ?case
  proof (cases "fst e = k")
    case True
    then have "filter (\<lambda>e. fst e \<noteq> k) es = es" unfolding filter_id_conv using Cons.prems(1) True by (metis distinct.simps(2) image_eqI list.set_map list.simps(9))
    then show ?thesis using True by simp
  qed (use Cons in \<open>auto split: if_splits\<close>)
qed simp

lemma evict_keys_spec:
  assumes "evict_keys now ks s = (n, rel, s')" "distinct (map fst (st_inner s))"
  shows "all_zero rel \<and> n + length (st_inner s') = length (st_inner s) \<and>
    s' = s\<lparr>st_inner := filter (\<lambda>e. \<not> (fst e \<in> set ks \<and> expired s now (snd e))) (st_inner s)\<rparr>"
  using assms
proof (induction ks arbitrary: s n rel)
  case Nil
  then show ?case by simp
next
  case (Cons k ks)
  show ?case
  proof (cases "\<exists>state. map_of (st_inner s) k = Some state \<and> expired s now state")
    case True
    then obtain state where st: "map_of (st_inner s) k = Some state" "expired s now state" by blast
    let ?s = "s\<lparr>st_inner := filter (\<lambda>e. fst e \<noteq> k) (st_inner s)\<rparr>"
    obtain n' rel' where ev: "evict_keys now ks ?s = (n', rel', s')" and n: "n = Suc n'" "rel = zeroize_in_place state @ rel'"
      using Cons.prems(1) st by (auto simp: inner_remove_def split: prod.splits)
    have d: "distinct (map fst (st_inner ?s))" using Cons.prems(2) by (simp add: distinct_filter_key)
    have ex: "expired s now (snd e)" if "e \<in> set (st_inner s)" "fst e = k" for e
    proof -
      have "map_of (st_inner s) k = Some (snd e)" using that Cons.prems(2) entry_lookup by blast
      then show ?thesis using st by simp
    qed
    have eq: "filter (\<lambda>e. \<not> (fst e \<in> set ks \<and> expired s now (snd e))) (filter (\<lambda>e. fst e \<noteq> k) (st_inner s)) =
        filter (\<lambda>e. \<not> (fst e \<in> set (k # ks) \<and> expired s now (snd e))) (st_inner s)"
      unfolding filter_filter by (rule filter_cong) (use ex in auto)
    have IH: "all_zero rel' \<and> n' + length (st_inner s') = length (st_inner ?s) \<and>
        s' = ?s\<lparr>st_inner := filter (\<lambda>e. \<not> (fst e \<in> set ks \<and> expired s now (snd e))) (st_inner ?s)\<rparr>"
      using Cons.IH [OF ev d] unfolding expired_frame .
    have "s' = s\<lparr>st_inner := filter (\<lambda>e. \<not> (fst e \<in> set (k # ks) \<and> expired s now (snd e))) (st_inner s)\<rparr>"
      using IH unfolding eq [symmetric] by simp
    moreover have "n' + length (st_inner s') = length (st_inner ?s)" "all_zero rel'" using IH by blast+
    moreover from this(1) have "n + length (st_inner s') = length (st_inner s)"
      using n length_filter_key [OF Cons.prems(2) st(1)] by simp
    ultimately show ?thesis using n by (simp only: all_zero_simps)
  next
    case False
    then have ev: "evict_keys now ks s = (n, rel, s')" using Cons.prems(1) by (auto split: option.splits if_splits)
    have eq: "filter (\<lambda>e. \<not> (fst e \<in> set ks \<and> expired s now (snd e))) (st_inner s) =
        filter (\<lambda>e. \<not> (fst e \<in> set (k # ks) \<and> expired s now (snd e))) (st_inner s)"
    proof (rule filter_cong [OF refl])
      fix e assume "e \<in> set (st_inner s)"
      then have "map_of (st_inner s) (fst e) = Some (snd e)" using Cons.prems(2) by (intro entry_lookup)
      then show "(\<not> (fst e \<in> set ks \<and> expired s now (snd e))) = (\<not> (fst e \<in> set (k # ks) \<and> expired s now (snd e)))"
        using False by auto
    qed
    show ?thesis using Cons.IH [OF ev Cons.prems(2)] unfolding eq .
  qed
qed

lemma evict_expired_spec:
  assumes "evict_expired s now = (n, rel, s')" "distinct (map fst (st_inner s))"
  shows "all_zero rel \<and> n + length (st_inner s') = length (st_inner s) \<and>
    s' = s\<lparr>st_inner := filter (\<lambda>e. st_ttl s = 0 \<or> \<not> expired s now (snd e)) (st_inner s)\<rparr>"
proof (cases "st_ttl s = 0")
  case True
  then show ?thesis using assms by (simp add: evict_expired_def)
next
  case False
  let ?ks = "map fst (filter (\<lambda>e. expired s now (snd e)) (st_inner s))"
  have eq: "filter (\<lambda>e. \<not> (fst e \<in> set ?ks \<and> expired s now (snd e))) (st_inner s) =
      filter (\<lambda>e. st_ttl s = 0 \<or> \<not> expired s now (snd e)) (st_inner s)"
    using False by (intro filter_cong) auto
  have "evict_keys now ?ks s = (n, rel, s')" using assms(1) False by (simp add: evict_expired_def)
  from evict_keys_spec [OF this assms(2)] show ?thesis unfolding eq .
qed

lemma session_step_inv:
  assumes "session_step x y" "session_inv x"
  shows "session_inv y"
  using assms
proof cases
  case (taken s i state g rel s' G)
  have T: "rel = [] \<and> i \<notin> st_tombstones s \<and> map_of (st_inner s) i = Some state \<and> co_id g = i \<and> st_in_flight s i = None \<and>
        st_in_flight s' = (st_in_flight s)(i \<mapsto> co_token g) \<and>
        st_inner s' = filter (\<lambda>e. fst e \<noteq> i) (st_inner s) \<and> st_tombstones s' = st_tombstones s"
    using take_cases [OF taken(3)] assms(2) taken(1) by auto
  have "\<lparr>co_id = i, co_token = t\<rparr> \<notin> G" for t
    using session_invD(1) [of s G i t] assms(2) taken(1) T by simp
  then show ?thesis using assms(2) taken(1,2) T
    by (cases g) (auto simp: session_inv_def map_of_filter_key distinct_filter_key)
next
  case (not_taken s i rel s' G)
  have "st_in_flight s' = st_in_flight s" "st_tombstones s' = st_tombstones s" "st_inner s' = st_inner s"
    using take_cases [OF not_taken(3)] assms(2) not_taken(1) by auto
  then show ?thesis using assms(2) not_taken(1,2) by (simp add: session_inv_def)
next
  case (returned g G s i state now rel s')
  note D = drop_inv [of s G g]
  show ?thesis
  proof (cases "co_id g = i")
    case True
    then show ?thesis using put_owned [of s G g state now rel s'] D assms(2) returned
      by (auto simp: session_inv_def inner_insert_def map_of_filter_key distinct_filter_key)
  next
    case False
    then show ?thesis using put_foreign [OF False returned(4)] D assms(2) returned by simp
  qed
next
  case (stored s i state now rel s' G)
  then show ?thesis using put_fresh [OF stored(3)] assms(2)
    by (auto simp: session_inv_def inner_insert_def map_of_filter_key distinct_filter_key)
next
  case (dropped g G s)
  then show ?thesis using drop_inv(1) assms(2) by blast
next
  case (deleted s i b rel s' G)
  then show ?thesis using delete_cases [OF deleted(3)] assms(2)
    by (auto simp: session_inv_def map_of_filter_key distinct_filter_key split: option.splits)
next
  case (evicted s now n rel s' G)
  have "distinct (map fst (st_inner s))" using assms(2) evicted(1) by (simp add: session_inv_def)
  note E = evict_expired_spec [OF evicted(3) this]
  have "map_of (filter P es) k = None" if "map_of es k = None" for P k and es :: "(string \<times> 'a session_state) list"
    using that by (auto simp: map_of_eq_None_iff)
  then show ?thesis using E assms(2) evicted(1,2) by (auto simp: session_inv_def distinct_filter_key)
qed

lemma session_run_inv: "session_run x y \<Longrightarrow> session_inv x \<Longrightarrow> session_inv y"
  by (induction rule: rtranclp_induct) (auto intro: session_step_inv)

text \<open>A tombstone without a checkout stays.\<close>

definition dead_id :: "string \<Rightarrow> 'f session_system \<Rightarrow> bool" where
  "dead_id i x \<longleftrightarrow> session_inv x \<and> i \<in> st_tombstones (fst x) \<and> st_in_flight (fst x) i = None"

lemma dead_step:
  assumes "session_step x y" "dead_id i x"
  shows "dead_id i y"
proof -
  have inv: "session_inv x" and d: "i \<in> st_tombstones (fst x)" "st_in_flight (fst x) i = None"
    using assms(2) by (simp_all add: dead_id_def)
  have "i \<in> st_tombstones (fst y) \<and> st_in_flight (fst y) i = None"
    using assms(1)
  proof cases
    case (taken s j state g rel s' G)
    then show ?thesis using take_cases [OF taken(3), of G] inv d by auto
  next
    case (not_taken s j rel s' G)
    then show ?thesis using take_cases [OF not_taken(3), of G] inv d by auto
  next
    case (returned g G s j state now rel s')
    have own: "st_in_flight s (co_id g) = Some (co_token g)" using drop_inv(2) [of s G g] inv returned by simp
    then have ne: "co_id g \<noteq> i" using d returned by auto
    show ?thesis
    proof (cases "co_id g = j")
      case True
      then show ?thesis using put_owned [of s G g state now rel s'] inv returned d ne own
        by (auto simp: checkout_drop_def inner_insert_def)
    next
      case False
      then show ?thesis using put_foreign [OF False returned(4)] returned d by (simp add: checkout_drop_def)
    qed
  next
    case (stored s j state now rel s' G)
    then show ?thesis using put_fresh [OF stored(3)] d by (simp add: inner_insert_def)
  next
    case (dropped g G s)
    then show ?thesis using d by (simp add: checkout_drop_def)
  next
    case (deleted s j b rel s' G)
    have "map_of (st_inner s) i = None" using session_invD(2) [of s G i] inv d deleted by simp
    then show ?thesis using delete_cases [OF deleted(3)] d deleted(1,2) by (auto split: option.splits)
  next
    case (evicted s now n rel s' G)
    have "distinct (map fst (st_inner s))" using session_invD(3) [of s G] inv evicted by simp
    from evict_expired_spec [OF evicted(3) this] show ?thesis using d evicted(1,2) by auto
  qed
  then show ?thesis using session_step_inv [OF assms(1) inv] by (simp add: dead_id_def)
qed

lemma dead_run: "session_run x y \<Longrightarrow> dead_id i x \<Longrightarrow> dead_id i y"
  by (induction rule: rtranclp_induct) (auto intro: dead_step)

subsection \<open>Properties\<close>

text \<open>At most one request holds a session: in every reachable state two live guards for the same id
  are the same guard, a marker exists exactly as long as its guard (none leaks when a request is
  cancelled), and a checked-out id is refused to everybody else.\<close>

theorem checkout_exclusive:
  assumes "session_run (session_store_new ttl, {}) (s, G)"
  shows "(\<forall>g\<in>G. \<forall>h\<in>G. co_id g = co_id h \<longrightarrow> g = h) \<and>
    (st_in_flight s i \<noteq> None \<longleftrightarrow> (\<exists>g\<in>G. co_id g = i)) \<and>
    ((\<exists>g\<in>G. co_id g = i) \<longrightarrow> fst (session_take s i) = None)"
proof -
  have inv: "session_inv (s, G)" using session_run_inv [OF assms store_start_inv] .
  have own: "st_in_flight s (co_id g) = Some (co_token g)" if "g \<in> G" for g using drop_inv(2) [OF inv that] .
  have "g = h" if "g \<in> G" "h \<in> G" "co_id g = co_id h" for g h
    using own [OF that(1)] own [OF that(2)] that(3) by (cases g; cases h) simp
  moreover have "\<exists>g\<in>G. co_id g = i" if "st_in_flight s i = Some t" for t
    using that session_invD(1) [OF inv, of i t] by (intro bexI [of _ "\<lparr>co_id = i, co_token = t\<rparr>"]) simp_all
  moreover have "fst (session_take s i) = None" if "g \<in> G" "co_id g = i" for g
    using own [OF that(1)] that(2) by (simp add: session_take_def Let_def)
  ultimately show ?thesis using own by (metis not_None_eq)
qed

definition demo_session :: "int session_store" where
  "demo_session = \<lparr>st_inner = [], st_in_flight = [''a'' \<mapsto> 1], st_tombstones = {}, st_next_checkout = 2, st_ttl = 0\<rparr>"

lemma demo_session_run:
  "session_run (session_store_new 0, {}) (demo_session, {\<lparr>co_id = ''a'', co_token = 1\<rparr>})"
proof -
  let ?st = "session_state_new [] 0 :: int session_state"
  let ?s = "(session_store_new 0 :: int session_store)\<lparr>st_inner := [(''a'', ?st)]\<rparr>"
  have "session_step (session_store_new 0, {}) (?s, {})"
    by (rule stored [of _ "''a''" ?st 0 "[]"])
      (simp add: session_put_def inner_insert_def session_store_new_def session_state_new_def)
  moreover have "session_step (?s, {}) (demo_session, insert \<lparr>co_id = ''a'', co_token = 1\<rparr> {})"
    by (rule taken [of _ "''a''" ?st _ "[]"])
      (simp add: session_take_def inner_remove_def session_store_new_def demo_session_def Let_def)
  ultimately show ?thesis by (meson converse_rtranclp_into_rtranclp r_into_rtranclp)
qed

theorem checkout_exclusive_witness:
  "fst (session_take demo_session ''a'') = None"
  using checkout_exclusive [OF demo_session_run, of "''a''"] by simp



text \<open>A session that is deleted while checked out and whose request is then cancelled is lost for good:
  the tombstone is only removed by returning the checkout, which can no longer happen, so in every
  later state the id cannot be taken and a fresh session stored under it is discarded.\<close>

theorem tombstone_outlives_cancellation:
  assumes "session_run (session_store_new ttl, {}) (s, G)" "i \<in> st_tombstones s" "g \<in> G" "co_id g = i"
    and "session_run (checkout_drop g s, G - {g}) (t, H)"
  shows "fst (session_take t i) = None \<and> map_of (st_inner (snd (session_put t i state None now))) i = None \<and>
    map_of (st_inner t) i = None"
proof -
  have inv: "session_inv (s, G)" using session_run_inv [OF assms(1) store_start_inv] .
  have "dead_id i (checkout_drop g s, G - {g})"
    using drop_inv [OF inv assms(3)] assms(2,4) by (simp add: dead_id_def checkout_drop_def)
  from dead_run [OF assms(5) this] have dead: "session_inv (t, H)" "i \<in> st_tombstones t" by (simp_all add: dead_id_def)
  then have "map_of (st_inner t) i = None" using session_invD(2) [of t H i] by simp
  then show ?thesis using dead by (simp add: session_take_def session_put_def Let_def)
qed

lemma demo_tombstone_run:
  "session_run (session_store_new 0, {}) (demo_session\<lparr>st_tombstones := {''a''}\<rparr>, {\<lparr>co_id = ''a'', co_token = 1\<rparr>})"
  by (rule rtranclp.rtrancl_into_rtrancl [OF demo_session_run], rule deleted [of _ "''a''" True "[]"])
    (simp add: session_delete_def delete_resident_def delete_in_flight_def inner_remove_def demo_session_def)

theorem tombstone_outlives_cancellation_witness:
  "fst (session_take (checkout_drop \<lparr>co_id = ''a'', co_token = 1\<rparr> (demo_session\<lparr>st_tombstones := {''a''}\<rparr>)) ''a'') = None"
  using tombstone_outlives_cancellation [OF demo_tombstone_run _ _ _ rtranclp.rtrancl_refl, of "''a''"] by simp

text \<open>C39: a delete can miss a live session: when a request returns its checkout between the two
  accesses of a delete, the delete reports that there was no such session, no tombstone is left,
  and the session stays resident and can be taken again, although it existed the whole time.\<close>

theorem delete_races_with_return:
  assumes "session_inv (s, G)" "g \<in> G" "co_id g = i" "map_of (st_inner s) i = None" "i \<notin> st_tombstones s"
    and "delete_resident s i = (found, rel, s1)" "session_put s1 i state (Some g) now = (rel2, s2)"
    and "delete_in_flight s2 i = (found2, s3)"
  shows "\<not> found \<and> \<not> found2 \<and> map_of (st_inner s3) i = Some (state\<lparr>ss_last_used := now\<rparr>) \<and>
    map_option fst (fst (session_take s3 i)) = Some (state\<lparr>ss_last_used := now\<rparr>)"
proof -
  have "filter (\<lambda>e. fst e \<noteq> i) (st_inner s) = st_inner s"
    using assms(4) by (auto simp: filter_id_conv map_of_eq_None_iff)
  then have 1: "\<not> found" "s1 = s" using assms(4,6) by (simp_all add: delete_resident_def inner_remove_def)
  have own: "st_in_flight s i = Some (co_token g)" using drop_inv(2) [OF assms(1,2)] assms(3) by simp
  have 2: "s2 = inner_insert i (state\<lparr>ss_last_used := now\<rparr>) (checkout_drop g s)"
    using put_owned [OF assms(1,2), of state now rel2 s2] assms(3,5,7) 1(2) by simp
  then have "st_in_flight s2 i = None" using own assms(3) by (simp add: inner_insert_def checkout_drop_def)
  then have 3: "\<not> found2" "s3 = s2" using assms(8) by (auto simp: delete_in_flight_def)
  have f: "st_tombstones s2 = st_tombstones s" "map_of (st_inner s2) i = Some (state\<lparr>ss_last_used := now\<rparr>)"
    by (simp_all add: 2 inner_insert_def)
  then have "map_option fst (fst (session_take s2 i)) = Some (state\<lparr>ss_last_used := now\<rparr>)"
    using assms(5) \<open>st_in_flight s2 i = None\<close> by (simp add: session_take_def inner_remove_def Let_def)
  then show ?thesis using 1 3 f by simp
qed

theorem delete_races_with_return_witness:
  "\<not> fst (delete_in_flight (snd (session_put demo_session ''a'' (session_state_new [] 0)
      (Some \<lparr>co_id = ''a'', co_token = 1\<rparr>) 5)) ''a'')"
proof -
  have d: "delete_resident demo_session ''a'' = (False, [], demo_session)"
    by (simp add: delete_resident_def inner_remove_def demo_session_def)
  have inv: "session_inv (demo_session, {\<lparr>co_id = ''a'', co_token = 1\<rparr>})"
    by (rule session_run_inv [OF demo_session_run store_start_inv])
  let ?p = "session_put demo_session ''a'' (session_state_new [] 0) (Some \<lparr>co_id = ''a'', co_token = 1\<rparr>) 5"
  let ?q = "delete_in_flight (snd ?p) ''a''"
  from delete_races_with_return [OF inv _ _ _ _ d, of "\<lparr>co_id = ''a'', co_token = 1\<rparr>" "session_state_new [] 0" 5
      "fst ?p" "snd ?p" "fst ?q" "snd ?q"] show ?thesis by (simp add: demo_session_def)
qed

text \<open>TTL eviction removes exactly the sessions idle for longer than the TTL (none when the TTL is
  zero), counts them, keeps all the others unchanged and zeroes every block it releases.\<close>

theorem ttl_eviction_exact:
  assumes "session_run (session_store_new ttl, {}) (s, G)" "evict_expired s now = (n, released, s')"
  shows "map_of (st_inner s') i = (case map_of (st_inner s) i of
      Some state \<Rightarrow> if st_ttl s \<noteq> 0 \<and> now - ss_last_used state > st_ttl s then None else Some state
    | None \<Rightarrow> None) \<and>
    n + store_len s' = store_len s \<and> all_zero released \<and>
    st_in_flight s' = st_in_flight s \<and> st_tombstones s' = st_tombstones s"
proof -
  have d: "distinct (map fst (st_inner s))" using session_invD(3) session_run_inv [OF assms(1) store_start_inv] by blast
  note E = evict_expired_spec [OF assms(2) d]
  have look: "map_of (filter (\<lambda>e. P (snd e)) es) i = (case map_of es i of
      Some v \<Rightarrow> if P v then Some v else None | None \<Rightarrow> None)" if "distinct (map fst es)" for P and es :: "(string \<times> 'a session_state) list"
    using that by (induction es) (auto simp: map_of_eq_None_iff split: option.splits)
  have "st_inner s' = filter (\<lambda>e. st_ttl s = 0 \<or> \<not> expired s now (snd e)) (st_inner s)"
    "st_in_flight s' = st_in_flight s" "st_tombstones s' = st_tombstones s" using E by simp_all
  then show ?thesis using E look [OF d, of "\<lambda>v. st_ttl s = 0 \<or> \<not> expired s now v"]
    by (auto simp: store_len_def expired_def split: option.splits)
qed

theorem ttl_eviction_exact_witness:
  "\<exists>n released s'. evict_expired demo_session 9 = (n, released, s') \<and> n + store_len s' = 0"
proof -
  have e: "evict_expired demo_session 9 = (0, [], demo_session)" by (simp add: evict_expired_def demo_session_def)
  from ttl_eviction_exact [OF demo_session_run e, of "''a''"] e show ?thesis
    by (simp add: store_len_def demo_session_def)
qed

end
