(* ===== verification/Gguf.thy ===== *)
theory Gguf
  imports WeightTypes
begin

section \<open>GGUF files: values, cursor and the eager parser\<close>

text \<open>
  Model of the container reader of \<open>gguf.rs\<close>: the metadata values, the tensor table, the
  bounds-checked \<open>Cursor\<close>, the recursive value reader and \<open>GgufFile::parse\<close>. A reader maps
  the buffer and the cursor position to a result: a panic, an \<open>io::Error\<close>, or a value with
  the new position. Rust's \<open>String\<close> is its list of UTF-8 bytes, floats are their bit patterns
  (\<open>from_bits\<close> is a transmute), a \<open>HashMap\<close> is a list of pairs in some order. An allocation
  whose size comes from the file (\<open>with_capacity\<close>) panics or aborts when the allocator does not
  grant it: \<open>granted\<close> is a parameter. The 64-bit release build is modelled: \<open>product\<close> wraps.
\<close>

named_theorems reader_stable "readers that give the same answer on a longer buffer"
named_theorems io_iff "inversion rules of the result type"

subsection \<open>Results\<close>

datatype error_kind = UnexpectedEof | InvalidData | InvalidInput | NotFound | OtherKind

datatype gguf_error =
    EofBuffer
  | BadMagic "u8 list"
  | BadVersion u32
  | UnknownValueType u32
  | UnknownByteLen "u8 list" u32
  | EofDataStart

fun parse_error_kind :: "gguf_error \<Rightarrow> error_kind" where
  "parse_error_kind EofBuffer = UnexpectedEof"
| "parse_error_kind EofDataStart = UnexpectedEof"
| "parse_error_kind (BadMagic m) = InvalidData"
| "parse_error_kind (BadVersion v) = InvalidData"
| "parse_error_kind (UnknownValueType t) = InvalidData"
| "parse_error_kind (UnknownByteLen n c) = InvalidData"

type_synonym ('e, 'a) io_result = "('e + 'a) outcome"

abbreviation Err :: "'e \<Rightarrow> ('e, 'a) io_result" where "Err e \<equiv> Return (Inl e)"
abbreviation Ok :: "'a \<Rightarrow> ('e, 'a) io_result" where "Ok a \<equiv> Return (Inr a)"

definition io_bind ::
  "('e, 'a) io_result \<Rightarrow> ('a \<Rightarrow> ('e, 'b) io_result) \<Rightarrow> ('e, 'b) io_result" where
  "io_bind m f = (case m of Panic \<Rightarrow> Panic
     | Return r \<Rightarrow> (case r of Inl e \<Rightarrow> Err e | Inr a \<Rightarrow> f a))"

lemma io_bind_simps [simp]:
  "io_bind Panic f = Panic" "io_bind (Err e) f = Err e" "io_bind (Ok a) f = f a"
  by (simp_all add: io_bind_def)

lemma io_bind_cong [fundef_cong]:
  "m = m' \<Longrightarrow> (\<And>a. m' = Ok a \<Longrightarrow> f a = f' a) \<Longrightarrow> io_bind m f = io_bind m' f'"
  by (auto simp: io_bind_def split: outcome.splits sum.splits)

lemma io_bind_Ok [io_iff]: "io_bind m f = Ok b \<longleftrightarrow> (\<exists>a. m = Ok a \<and> f a = Ok b)"
  by (auto simp: io_bind_def split: outcome.splits sum.splits)

lemma io_bind_Err [io_iff]: "io_bind m f = Err e \<longleftrightarrow> m = Err e \<or> (\<exists>a. m = Ok a \<and> f a = Err e)"
  by (auto simp: io_bind_def split: outcome.splits sum.splits)

lemma io_result_cases:
  obtains (panic) "m = Panic" | (err) e where "m = Err e" | (ok) a where "m = Ok a"
  by (cases m; metis sum.exhaust)

subsection \<open>Readers over a buffer\<close>

type_synonym 'a reader = "u8 list \<Rightarrow> usize \<Rightarrow> (gguf_error, 'a \<times> usize) io_result"

definition ret :: "'a \<Rightarrow> 'a reader" where
  "ret a buf pos = Ok (a, pos)"

definition fail :: "gguf_error \<Rightarrow> 'a reader" where
  "fail e buf pos = Err e"

definition pbind :: "'a reader \<Rightarrow> ('a \<Rightarrow> 'b reader) \<Rightarrow> 'b reader" where
  "pbind m f buf pos = io_bind (m buf pos) (\<lambda>(a, p). f a buf p)"

datatype reservation = MetadataTable | TensorTable | ShapeVec | ArrayVec | TensorBody | ShardReaders

definition reserve :: "(reservation \<Rightarrow> usize \<Rightarrow> bool) \<Rightarrow> reservation \<Rightarrow> usize \<Rightarrow> unit reader" where
  "reserve granted k n buf pos = (if granted k n then Ok ((), pos) else Panic)"

definition advance :: "usize \<Rightarrow> unit reader" where
  "advance n buf pos = (case checked_add pos n of None \<Rightarrow> Err EofBuffer
     | Some p \<Rightarrow> if length buf < p then Err EofBuffer else Ok ((), p))"

definition read_bytes :: "usize \<Rightarrow> u8 list reader" where
  "read_bytes n buf pos =
     io_bind (advance n buf pos) (\<lambda>(_, p). Ok (subslice buf pos n, p))"

definition read_u8 :: "u8 reader" where
  "read_u8 = pbind (read_bytes 1) (\<lambda>b. ret (b ! 0))"

definition read_u16 :: "u16 reader" where
  "read_u16 = pbind (read_bytes 2) (\<lambda>b. ret (u16_from_le_bytes b))"

definition read_u32 :: "u32 reader" where
  "read_u32 = pbind (read_bytes 4) (\<lambda>b. ret (u32_from_le_bytes b))"

definition read_u64 :: "u64 reader" where
  "read_u64 = pbind (read_bytes 8) (\<lambda>b. ret (u64_from_le_bytes b))"

definition read_count :: "u32 \<Rightarrow> u64 reader" where
  "read_count version =
     (if version = 1 then pbind read_u32 (\<lambda>n. ret (ucast n)) else read_u64)"

subsection \<open>Strings\<close>

text \<open>
  \<open>String::from_utf8_lossy\<close>: every maximal prefix of an ill-formed sequence becomes U+FFFD.
  \<open>utf8_width\<close> is the length a leading byte announces (0 for none); \<open>utf8_step\<close> gives, for a
  non-empty input, whether it starts with a well-formed character and how many bytes the
  character or the ill-formed prefix has.
\<close>

definition utf8_cont :: "u8 \<Rightarrow> bool" where
  "utf8_cont b \<longleftrightarrow> 128 \<le> b \<and> b \<le> 191"

definition utf8_second :: "u8 \<Rightarrow> u8 \<Rightarrow> bool" where
  "utf8_second a b \<longleftrightarrow>
     (if a = 224 then 160 \<le> b \<and> b \<le> 191 else if a = 237 then 128 \<le> b \<and> b \<le> 159
      else if a = 240 then 144 \<le> b \<and> b \<le> 191 else if a = 244 then 128 \<le> b \<and> b \<le> 143
      else utf8_cont b)"

definition utf8_width :: "u8 \<Rightarrow> nat" where
  "utf8_width a = (if a < 128 then 1 else if 194 \<le> a \<and> a \<le> 223 then 2
     else if 224 \<le> a \<and> a \<le> 239 then 3 else if 240 \<le> a \<and> a \<le> 244 then 4 else 0)"

definition utf8_good :: "u8 list \<Rightarrow> nat \<Rightarrow> bool" where
  "utf8_good bs i \<longleftrightarrow> i < length bs \<and>
     (if i = 1 then utf8_second (bs ! 0) (bs ! 1) else utf8_cont (bs ! i))"

definition utf8_step :: "u8 list \<Rightarrow> bool \<times> nat" where
  "utf8_step bs = (let w = utf8_width (bs ! 0); n = length (takeWhile (utf8_good bs) [1..<w])
     in (w = n + 1, n + 1))"

lemma utf8_step_pos: "0 < snd (utf8_step bs)"
  by (simp add: utf8_step_def Let_def)

function from_utf8_lossy :: "u8 list \<Rightarrow> u8 list" where
  "from_utf8_lossy bs = (if bs = [] then [] else
     (if fst (utf8_step bs) then take (snd (utf8_step bs)) bs else [239, 191, 189])
       @ from_utf8_lossy (drop (snd (utf8_step bs)) bs))"
  by pat_completeness auto
termination
  by (relation "measure length") (use utf8_step_pos in auto)

declare from_utf8_lossy.simps [simp del]

function is_utf8 :: "u8 list \<Rightarrow> bool" where
  "is_utf8 bs = (if bs = [] then True
     else if fst (utf8_step bs) then is_utf8 (drop (snd (utf8_step bs)) bs) else False)"
  by pat_completeness auto
termination
  by (relation "measure length") (use utf8_step_pos in auto)

declare is_utf8.simps [simp del]

definition read_string :: "u32 \<Rightarrow> u8 list reader" where
  "read_string version = pbind (read_count version) (\<lambda>len.
     pbind (read_bytes (unat len)) (\<lambda>b. ret (from_utf8_lossy b)))"

text \<open>The bytes of a string literal of the source.\<close>

definition str_bytes :: "string \<Rightarrow> u8 list" where
  "str_bytes s = map (\<lambda>c. of_nat (of_char c)) s"

subsection \<open>Metadata values\<close>

datatype gguf_type = UINT8 | INT8 | UINT16 | INT16 | UINT32 | INT32 | FLOAT32 | BOOL | STRING
  | ARRAY | UINT64 | INT64 | FLOAT64

fun type_code :: "gguf_type \<Rightarrow> u32" where
  "type_code UINT8 = 0" | "type_code INT8 = 1" | "type_code UINT16 = 2" | "type_code INT16 = 3"
| "type_code UINT32 = 4" | "type_code INT32 = 5" | "type_code FLOAT32 = 6" | "type_code BOOL = 7"
| "type_code STRING = 8" | "type_code ARRAY = 9" | "type_code UINT64 = 10"
| "type_code INT64 = 11" | "type_code FLOAT64 = 12"

datatype gguf_value = VU8 u8 | VI8 "8 word" | VU16 u16 | VI16 "16 word" | VU32 u32
  | VI32 "32 word" | VU64 u64 | VI64 "64 word" | VF32 u32 | VF64 u64 | VBool bool
  | VString "u8 list" | VArray "gguf_value list"

fun value_as_u64 :: "gguf_value \<Rightarrow> u64 option" where
  "value_as_u64 (VU8 v) = Some (ucast v)"
| "value_as_u64 (VU16 v) = Some (ucast v)"
| "value_as_u64 (VU32 v) = Some (ucast v)"
| "value_as_u64 (VU64 v) = Some v"
| "value_as_u64 (VI8 v) = (if 0 \<le> sint v then Some (scast v) else None)"
| "value_as_u64 (VI16 v) = (if 0 \<le> sint v then Some (scast v) else None)"
| "value_as_u64 (VI32 v) = (if 0 \<le> sint v then Some (scast v) else None)"
| "value_as_u64 (VI64 v) = (if 0 \<le> sint v then Some v else None)"
| "value_as_u64 _ = None"

fun value_as_str :: "gguf_value \<Rightarrow> u8 list option" where
  "value_as_str (VString s) = Some s"
| "value_as_str _ = None"

text \<open>
  The arms of \<open>read_value_typed\<close> are disjoint tags: \<open>read_scalar\<close> has those that do not recurse
  and the error for an unknown tag, the array arm is the recursive one.
\<close>

definition read_scalar :: "u32 \<Rightarrow> u32 \<Rightarrow> gguf_value reader" where
  "read_scalar version ty =
    (if ty = type_code UINT8 then pbind read_u8 (\<lambda>x. ret (VU8 x))
     else if ty = type_code INT8 then pbind read_u8 (\<lambda>x. ret (VI8 x))
     else if ty = type_code UINT16 then pbind read_u16 (\<lambda>x. ret (VU16 x))
     else if ty = type_code INT16 then pbind read_u16 (\<lambda>x. ret (VI16 x))
     else if ty = type_code UINT32 then pbind read_u32 (\<lambda>x. ret (VU32 x))
     else if ty = type_code INT32 then pbind read_u32 (\<lambda>x. ret (VI32 x))
     else if ty = type_code UINT64 then pbind read_u64 (\<lambda>x. ret (VU64 x))
     else if ty = type_code INT64 then pbind read_u64 (\<lambda>x. ret (VI64 x))
     else if ty = type_code FLOAT32 then pbind read_u32 (\<lambda>x. ret (VF32 x))
     else if ty = type_code FLOAT64 then pbind read_u64 (\<lambda>x. ret (VF64 x))
     else if ty = type_code BOOL then pbind read_u8 (\<lambda>x. ret (VBool (x \<noteq> 0)))
     else if ty = type_code STRING then pbind (read_string version) (\<lambda>x. ret (VString x))
     else fail (UnknownValueType ty))"

function read_value_typed ::
    "(reservation \<Rightarrow> usize \<Rightarrow> bool) \<Rightarrow> u32 \<Rightarrow> u32 \<Rightarrow> gguf_value reader"
  and read_values ::
    "(reservation \<Rightarrow> usize \<Rightarrow> bool) \<Rightarrow> u32 \<Rightarrow> u32 \<Rightarrow> usize \<Rightarrow> gguf_value list reader"
where
  "read_value_typed granted version ty buf pos =
    (if ty = type_code ARRAY then
       io_bind (read_u32 buf pos) (\<lambda>(inner_ty, p1).
       io_bind (read_count version buf p1) (\<lambda>(n, p2).
       io_bind (reserve granted ArrayVec (unat n) buf p2) (\<lambda>_.
       io_bind (read_values granted version inner_ty (unat n) buf p2) (\<lambda>(out, p3).
       Ok (VArray out, p3)))))
     else read_scalar version ty buf pos)"
| "read_values granted version ty 0 buf pos = Ok ([], pos)"
| "read_values granted version ty (Suc n) buf pos =
     io_bind (read_value_typed granted version ty buf pos) (\<lambda>(x, p1).
     io_bind (read_values granted version ty n buf p1) (\<lambda>(xs, p2). Ok (x # xs, p2)))"
  by pat_completeness auto


subsection \<open>The laws of a reader\<close>

text \<open>
  Every reader of the file moves the cursor forward inside the buffer, and a longer buffer does
  not change its answer unless the answer was that the buffer ended.
\<close>

definition settled :: "(gguf_error, 'a) io_result \<Rightarrow> (gguf_error, 'a) io_result \<Rightarrow> bool" where
  "settled r r' \<longleftrightarrow> r = Err EofBuffer \<or> r' = r"

lemma settled_same [simp]: "settled r r"
  by (simp add: settled_def)

lemma settled_bind:
  assumes "settled m m'" "\<And>a. m = Ok a \<Longrightarrow> settled (f a) (f' a)"
  shows "settled (io_bind m f) (io_bind m' f')"
  using assms by (cases m rule: io_result_cases) (auto simp: settled_def)

locale cursor_reader =
  fixes p :: "'a reader"
  assumes forward: "p buf pos = Ok (a, pos') \<Longrightarrow> pos \<le> pos' \<and> pos' \<le> max pos (length buf)"
    and stable: "settled (p buf pos) (p (buf @ ext) pos)"
begin

lemma ok_extend: "p buf pos = Ok r \<Longrightarrow> p (buf @ ext) pos = Ok r"
  using stable [of buf pos ext] by (simp add: settled_def)

lemma settled_extend: "p buf pos \<noteq> Err EofBuffer \<Longrightarrow> p (buf @ ext) pos = p buf pos"
  using stable [of buf pos ext] by (auto simp: settled_def)

lemma ends_inside: "p buf pos = Ok (a, pos') \<Longrightarrow> pos \<le> length buf \<Longrightarrow> pos' \<le> length buf"
  using forward [of buf pos a pos'] by simp

end

lemma reader_ret [reader_stable]: "cursor_reader (ret a)"
  by unfold_locales (auto simp: ret_def)

lemma reader_fail [reader_stable]: "cursor_reader (fail e)"
  by unfold_locales (auto simp: fail_def)

lemma reader_reserve [reader_stable]: "cursor_reader (reserve granted k n)"
  by unfold_locales (auto simp: reserve_def split: if_splits)

lemma reader_pbind [reader_stable]:
  assumes "cursor_reader m" "\<And>a. cursor_reader (f a)"
  shows "cursor_reader (pbind m f)"
proof
  fix buf pos b pos'
  assume "pbind m f buf pos = Ok (b, pos')"
  then obtain a p1 where 1: "m buf pos = Ok (a, p1)" "f a buf p1 = Ok (b, pos')"
    by (auto simp: pbind_def io_iff)
  have "pos \<le> p1" "p1 \<le> max pos (length buf)" "p1 \<le> pos'" "pos' \<le> max p1 (length buf)"
    using cursor_reader.forward [OF assms(1) 1(1)] cursor_reader.forward [OF assms(2) 1(2)]
    by simp_all
  then show "pos \<le> pos' \<and> pos' \<le> max pos (length buf)" by simp
next
  fix buf pos and ext :: "u8 list"
  show "settled (pbind m f buf pos) (pbind m f (buf @ ext) pos)"
    unfolding pbind_def
    by (rule settled_bind, rule cursor_reader.stable [OF assms(1)])
      (auto intro: cursor_reader.stable [OF assms(2)] split: prod.split)
qed

lemma reader_if [reader_stable]:
  "cursor_reader m \<Longrightarrow> cursor_reader m' \<Longrightarrow> cursor_reader (if b then m else m')"
  by simp

lemma advance_Ok: "advance n buf pos = Ok r \<longleftrightarrow> r = ((), pos + n) \<and> pos + n \<le> min usize_MAX (length buf)"
  by (auto simp: advance_def checked_add_def)

lemma advance_cases:
  "advance n buf pos = (if pos + n \<le> min usize_MAX (length buf) then Ok ((), pos + n) else Err EofBuffer)"
  by (auto simp: advance_def checked_add_def)

lemma read_bytes_eq:
  "read_bytes n buf pos = (if pos + n \<le> min usize_MAX (length buf)
     then Ok (subslice buf pos n, pos + n) else Err EofBuffer)"
  by (simp add: read_bytes_def advance_cases)

lemma reader_read_bytes [reader_stable]: "cursor_reader (read_bytes n)"
proof
  fix buf pos a pos'
  assume "read_bytes n buf pos = Ok (a, pos')"
  then show "pos \<le> pos' \<and> pos' \<le> max pos (length buf)"
    by (auto simp: read_bytes_eq split: if_splits)
next
  fix buf pos and ext :: "u8 list"
  show "settled (read_bytes n buf pos) (read_bytes n (buf @ ext) pos)"
    by (auto simp: settled_def read_bytes_eq slice_append_left)
qed

lemma reader_fixed [reader_stable]:
  "cursor_reader read_u8" "cursor_reader read_u16" "cursor_reader read_u32" "cursor_reader read_u64"
  unfolding read_u8_def read_u16_def read_u32_def read_u64_def by (intro reader_stable)+

lemma reader_read_count [reader_stable]: "cursor_reader (read_count v)"
  unfolding read_count_def by (intro reader_stable)

lemma reader_read_string [reader_stable]: "cursor_reader (read_string v)"
  unfolding read_string_def by (intro reader_stable)

lemma pbind_ret_Ok:
  "pbind m (\<lambda>x. ret (g x)) buf pos = Ok (a, q) \<longleftrightarrow> (\<exists>x. m buf pos = Ok (x, q) \<and> a = g x)"
  by (auto simp: pbind_def ret_def io_iff)

lemma read_bytes_consumes: "read_bytes n buf pos = Ok (b, q) \<Longrightarrow> q = pos + n \<and> q \<le> length buf"
  by (auto simp: read_bytes_eq split: if_splits)

lemma fixed_consumes:
  "read_u8 buf pos = Ok (a, q) \<Longrightarrow> q = pos + 1 \<and> q \<le> length buf"
  "read_u16 buf pos = Ok (b, q) \<Longrightarrow> q = pos + 2 \<and> q \<le> length buf"
  "read_u32 buf pos = Ok (c, q) \<Longrightarrow> q = pos + 4 \<and> q \<le> length buf"
  "read_u64 buf pos = Ok (d, q) \<Longrightarrow> q = pos + 8 \<and> q \<le> length buf"
  by (auto simp: read_u8_def read_u16_def read_u32_def read_u64_def pbind_ret_Ok
      dest: read_bytes_consumes)

lemma read_count_consumes: "read_count v buf pos = Ok (n, q) \<Longrightarrow> pos < q \<and> q \<le> length buf"
  by (auto simp: read_count_def pbind_ret_Ok dest: fixed_consumes split: if_splits)

lemma read_string_consumes: "read_string v buf pos = Ok (s, q) \<Longrightarrow> pos < q \<and> q \<le> length buf"
  by (fastforce simp: read_string_def pbind_def io_iff ret_def dest: read_count_consumes read_bytes_consumes)

subsection \<open>The value reader terminates\<close>

lemma reader_scalar [reader_stable]: "cursor_reader (read_scalar v ty)"
  unfolding read_scalar_def by (intro reader_stable)

lemma values_forward_dom:
  "read_value_typed_read_values_dom (Inl (granted, version, ty, buf, pos)) \<Longrightarrow>
    (\<And>a q. read_value_typed granted version ty buf pos = Ok (a, q) \<Longrightarrow> pos \<le> q)"
  "read_value_typed_read_values_dom (Inr (granted, version, ty, n, buf, pos)) \<Longrightarrow>
    (\<And>as q. read_values granted version ty n buf pos = Ok (as, q) \<Longrightarrow> pos \<le> q)"
proof (induction rule: read_value_typed_read_values.pinduct)
  case (1 granted version ty buf pos)
  show ?case
  proof (cases "ty = type_code ARRAY")
    case True
    with 1 show ?thesis
      by (fastforce simp: read_value_typed.psimps io_iff reserve_def
          dest: fixed_consumes read_count_consumes split: if_splits)
  next
    case False
    with 1 cursor_reader.forward [OF reader_scalar] show ?thesis
      by (fastforce simp: read_value_typed.psimps)
  qed
next
  case (2 granted version ty buf pos)
  then show ?case by (simp add: read_values.psimps)
next
  case (3 granted version ty n buf pos)
  then show ?case by (fastforce simp: read_values.psimps io_iff dest: order_trans)
qed

termination read_value_typed
proof (relation "measures [\<lambda>x. case x of Inl (g, v, ty, buf, pos) \<Rightarrow> length buf - pos
      | Inr (g, v, ty, n, buf, pos) \<Rightarrow> length buf - pos,
    \<lambda>x. case x of Inl _ \<Rightarrow> 0 | Inr (g, v, ty, n, buf, pos) \<Rightarrow> n]", goal_cases)
  case (2 granted version ty buf pos r inner_ty p1 c n p2)
  then have "pos < p2" "p2 \<le> length buf"
    using fixed_consumes(3) [of buf pos inner_ty p1] read_count_consumes [of version buf p1 n p2]
    by auto
  then show ?case by (simp add: diff_less_mono2)
next
  case (4 granted version ty n buf pos r x p1)
  then have "pos \<le> p1" by (auto dest: values_forward_dom(1))
  then show ?case by auto
qed simp_all

declare read_value_typed.simps [simp del] read_values.simps [simp del]

lemma read_values_forward:
  "read_value_typed granted version ty buf pos = Ok (a, q) \<Longrightarrow> pos \<le> q \<and> q \<le> max pos (length buf)"
  "read_values granted version ty n buf pos = Ok (as, q) \<Longrightarrow> pos \<le> q \<and> q \<le> max pos (length buf)"
proof (induction granted version ty buf pos and granted version ty n buf pos
    arbitrary: a q and as q rule: read_value_typed_read_values.induct)
  case (1 granted version ty buf pos)
  show ?case
  proof (cases "ty = type_code ARRAY")
    case True
    with 1(2) obtain inner p1 n p2 out where
      r: "read_u32 buf pos = Ok (inner, p1)" "read_count version buf p1 = Ok (n, p2)"
        "reserve granted ArrayVec (unat n) buf p2 = Ok ((), p2)"
        "read_values granted version inner (unat n) buf p2 = Ok (out, q)"
      by (auto simp: read_value_typed.simps io_iff reserve_def split: if_splits)
    have "p2 \<le> q \<and> q \<le> max p2 (length buf)"
      using 1(1) [OF True r(1) HOL.refl r(2) HOL.refl r(3) r(4)] .
    with r(1,2) show ?thesis by (auto dest!: fixed_consumes read_count_consumes)
  next
    case False
    with 1(2) cursor_reader.forward [OF reader_scalar] show ?thesis
      by (simp add: read_value_typed.simps)
  qed
next
  case (2 granted version ty buf pos)
  then show ?case by (simp add: read_values.simps)
next
  case (3 granted version ty n buf pos)
  then obtain x p1 xs where r: "read_value_typed granted version ty buf pos = Ok (x, p1)"
      "read_values granted version ty n buf p1 = Ok (xs, q)"
    by (auto simp: read_values.simps io_iff)
  from 3(1) [OF r(1)] 3(2) [OF r(1) HOL.refl r(2)] show ?case by (auto simp: le_max_iff_disj)
qed

lemma read_values_stable:
  "settled (read_value_typed granted version ty buf pos) (read_value_typed granted version ty (buf @ ext) pos)"
  "settled (read_values granted version ty n buf pos) (read_values granted version ty n (buf @ ext) pos)"
proof (induction granted version ty buf pos and granted version ty n buf pos
    rule: read_value_typed_read_values.induct)
  case (1 granted version ty buf pos)
  show ?case
  proof (cases "ty = type_code ARRAY")
    case True
    then show ?thesis unfolding read_value_typed.simps
      by (auto intro!: settled_bind 1 cursor_reader.stable [OF reader_fixed(3)]
          cursor_reader.stable [OF reader_read_count] cursor_reader.stable [OF reader_reserve]
          split: prod.split)
  qed (simp add: read_value_typed.simps cursor_reader.stable reader_scalar)
next
  case (2 granted version ty buf pos)
  then show ?case by (simp add: read_values.simps)
next
  case (3 granted version ty n buf pos)
  then show ?case unfolding read_values.simps
    by (auto intro!: settled_bind split: prod.split)
qed

lemma reader_values [reader_stable]:
  "cursor_reader (read_value_typed granted version ty)" "cursor_reader (read_values granted version ty n)"
  by unfold_locales (use read_values_forward read_values_stable in \<open>auto simp: settled_def\<close>)

subsection \<open>Tensor table and file\<close>

text \<open>GGML dtype codes.\<close>

definition ggml_F32 :: u32 where "ggml_F32 = 0"
definition ggml_F16 :: u32 where "ggml_F16 = 1"
definition ggml_Q4_0 :: u32 where "ggml_Q4_0 = 2"
definition ggml_Q8_0 :: u32 where "ggml_Q8_0 = 8"
definition ggml_Q4_K :: u32 where "ggml_Q4_K = 12"
definition ggml_Q5_K :: u32 where "ggml_Q5_K = 13"
definition ggml_Q6_K :: u32 where "ggml_Q6_K = 14"
definition ggml_BF16 :: u32 where "ggml_BF16 = 32"

lemmas ggml_codes = ggml_F32_def ggml_F16_def ggml_Q4_0_def ggml_Q8_0_def ggml_Q4_K_def
  ggml_Q5_K_def ggml_Q6_K_def ggml_BF16_def

record tensor_info =
  ti_name :: "u8 list"
  ti_shape :: "u64 list"
  ti_dtype :: u32
  ti_offset :: u64
  ti_byte_len :: u64

type_synonym metadata = "(u8 list \<times> gguf_value) list"
type_synonym tensor_table = "(u8 list \<times> tensor_info) list"

text \<open>\<open>iter().product()\<close> on \<open>u64\<close> multiplies modulo 2^64 in a release build.\<close>

definition product_u64 :: "u64 list \<Rightarrow> u64" where
  "product_u64 ds = foldl (*) 1 ds"

definition elem_count :: "tensor_info \<Rightarrow> u64" where
  "elem_count info = product_u64 (ti_shape info)"

definition checked_mul_u64 :: "u64 \<Rightarrow> u64 \<Rightarrow> u64 option" where
  [rust_defs]: "checked_mul_u64 a b = (if unat a * unat b < 2 ^ 64 then Some (a * b) else None)"

definition div_ceil_u64 :: "u64 \<Rightarrow> usize \<Rightarrow> u64" where
  [rust_defs]: "div_ceil_u64 a b = of_nat (div_ceil (unat a) b)"

definition ggml_to_weight_dtype :: "u32 \<Rightarrow> weight_dtype option" where
  "ggml_to_weight_dtype code =
    (if code = ggml_F32 then Some F32 else if code = ggml_F16 then Some F16
     else if code = ggml_BF16 then Some BF16 else if code = ggml_Q4_0 then Some Q4_0
     else if code = ggml_Q4_K then Some Q4K else if code = ggml_Q5_K then Some Q5K
     else if code = ggml_Q6_K then Some Q6K else if code = ggml_Q8_0 then Some Q8_0
     else None)"

definition ggml_tensor_bytes :: "u32 \<Rightarrow> u64 list \<Rightarrow> u64 option" where
  "ggml_tensor_bytes code shape = (let elems = product_u64 shape in
     if code = ggml_F32 then checked_mul_u64 elems 4
     else if code = ggml_F16 then checked_mul_u64 elems 2
     else if code = ggml_BF16 then checked_mul_u64 elems 2
     else if code = ggml_Q4_0 then
       checked_mul_u64 (div_ceil_u64 elems Q4_0_BLOCK_ELEMS) (of_nat Q4_0_BLOCK_BYTES)
     else if code = ggml_Q4_K then
       checked_mul_u64 (div_ceil_u64 elems Q4K_BLOCK_ELEMS) (of_nat Q4K_BLOCK_BYTES)
     else if code = ggml_Q5_K then
       checked_mul_u64 (div_ceil_u64 elems Q5K_BLOCK_ELEMS) (of_nat Q5K_BLOCK_BYTES)
     else if code = ggml_Q8_0 then checked_mul_u64 (div_ceil_u64 elems 32) 34
     else if code = ggml_Q6_K then
       checked_mul_u64 (div_ceil_u64 elems Q6K_BLOCK_ELEMS) (of_nat Q6K_BLOCK_BYTES)
     else None)"

definition GGUF_MAGIC :: "u8 list" where
  "GGUF_MAGIC = [71, 71, 85, 70]"

definition gguf_read_value :: "(reservation \<Rightarrow> usize \<Rightarrow> bool) \<Rightarrow> u32 \<Rightarrow> gguf_value reader" where
  "gguf_read_value granted version = pbind read_u32 (\<lambda>ty. read_value_typed granted version ty)"

primrec read_metadata ::
  "(reservation \<Rightarrow> usize \<Rightarrow> bool) \<Rightarrow> u32 \<Rightarrow> usize \<Rightarrow> metadata \<Rightarrow> metadata reader" where
  "read_metadata granted version 0 metadata = ret metadata"
| "read_metadata granted version (Suc n) metadata =
     pbind (read_string version) (\<lambda>key. pbind (gguf_read_value granted version) (\<lambda>val.
     read_metadata granted version n (map_insert metadata key val)))"

definition read_dim :: "u32 \<Rightarrow> u64 reader" where
  "read_dim version = (if version = 1 then pbind read_u32 (\<lambda>d. ret (ucast d)) else read_u64)"

primrec read_shape :: "u32 \<Rightarrow> usize \<Rightarrow> u64 list reader" where
  "read_shape version 0 = ret []"
| "read_shape version (Suc n) =
     pbind (read_dim version) (\<lambda>d. pbind (read_shape version n) (\<lambda>ds. ret (d # ds)))"

definition read_tensor_entry :: "(reservation \<Rightarrow> usize \<Rightarrow> bool) \<Rightarrow> u32 \<Rightarrow> tensor_info reader" where
  "read_tensor_entry granted version =
     pbind (read_string version) (\<lambda>name.
     pbind read_u32 (\<lambda>n_dims.
     pbind (reserve granted ShapeVec (unat n_dims)) (\<lambda>_.
     pbind (read_shape version (unat n_dims)) (\<lambda>shape.
     pbind read_u32 (\<lambda>dtype.
     pbind read_u64 (\<lambda>offset.
     case ggml_tensor_bytes dtype shape of
       None \<Rightarrow> fail (UnknownByteLen name dtype)
     | Some byte_len \<Rightarrow> ret \<lparr>ti_name = name, ti_shape = shape, ti_dtype = dtype,
         ti_offset = offset, ti_byte_len = byte_len\<rparr>))))))"

primrec read_tensors ::
  "(reservation \<Rightarrow> usize \<Rightarrow> bool) \<Rightarrow> u32 \<Rightarrow> usize \<Rightarrow> tensor_table \<Rightarrow> tensor_table reader" where
  "read_tensors granted version 0 tensors = ret tensors"
| "read_tensors granted version (Suc n) tensors =
     pbind (read_tensor_entry granted version) (\<lambda>info.
     read_tensors granted version n (map_insert tensors (ti_name info) info))"

definition alignment_of :: "metadata \<Rightarrow> usize" where
  "alignment_of metadata =
     max 1 (unat (case Option.bind (map_of metadata (str_bytes ''general.alignment'')) value_as_u64 of
       None \<Rightarrow> 32 | Some a \<Rightarrow> a))"

record gguf_file =
  gf_version :: u32
  gf_metadata :: metadata
  gf_tensors :: tensor_table
  gf_bytes :: "u8 list"
  gf_data_start :: usize

definition parse_tables ::
  "(reservation \<Rightarrow> usize \<Rightarrow> bool) \<Rightarrow> (u32 \<times> metadata \<times> tensor_table) reader" where
  "parse_tables granted =
     pbind (read_bytes 4) (\<lambda>magic.
     if magic \<noteq> GGUF_MAGIC then fail (BadMagic magic) else
     pbind read_u32 (\<lambda>version.
     if version = 0 \<or> 3 < version then fail (BadVersion version) else
     pbind (read_count version) (\<lambda>tensor_count.
     pbind (read_count version) (\<lambda>kv_count.
     pbind (reserve granted MetadataTable (unat kv_count)) (\<lambda>_.
     pbind (read_metadata granted version (unat kv_count) []) (\<lambda>metadata.
     pbind (reserve granted TensorTable (unat tensor_count)) (\<lambda>_.
     pbind (read_tensors granted version (unat tensor_count) []) (\<lambda>tensors.
     ret (version, metadata, tensors)))))))))"

definition data_start :: "usize \<Rightarrow> usize \<Rightarrow> usize" where
  "data_start alignment after_header =
     after_header + (alignment - after_header mod alignment) mod alignment"

definition parse ::
  "(reservation \<Rightarrow> usize \<Rightarrow> bool) \<Rightarrow> u8 list \<Rightarrow> (gguf_error, gguf_file) io_result" where
  "parse granted bytes =
     io_bind (parse_tables granted bytes 0) (\<lambda>((version, metadata, tensors), after_header).
       let tensor_data_start = data_start (alignment_of metadata) after_header in
       if length bytes < tensor_data_start then Err EofDataStart
       else Ok \<lparr>gf_version = version, gf_metadata = metadata, gf_tensors = tensors,
         gf_bytes = bytes, gf_data_start = tensor_data_start\<rparr>)"

definition tensor_data :: "gguf_file \<Rightarrow> u8 list \<Rightarrow> u8 list option" where
  "tensor_data f name = (case map_of (gf_tensors f) name of None \<Rightarrow> None
     | Some info \<Rightarrow> (case checked_add (gf_data_start f) (unat (ti_offset info)) of None \<Rightarrow> None
     | Some start \<Rightarrow> (case checked_add start (unat (ti_byte_len info)) of None \<Rightarrow> None
     | Some e \<Rightarrow> if length (gf_bytes f) < e then None
         else Some (subslice (gf_bytes f) start (e - start)))))"

definition file_tensor_dtype :: "gguf_file \<Rightarrow> u8 list \<Rightarrow> weight_dtype option" where
  "file_tensor_dtype f name = (case map_of (gf_tensors f) name of None \<Rightarrow> None
     | Some info \<Rightarrow> ggml_to_weight_dtype (ti_dtype info))"

definition metadata_architecture :: "metadata \<Rightarrow> u8 list option" where
  "metadata_architecture metadata =
     Option.bind (map_of metadata (str_bytes ''general.architecture'')) value_as_str"

definition architecture :: "gguf_file \<Rightarrow> u8 list option" where
  "architecture f = metadata_architecture (gf_metadata f)"

definition has_tensor :: "gguf_file \<Rightarrow> u8 list \<Rightarrow> bool" where
  "has_tensor f name \<longleftrightarrow> map_of (gf_tensors f) name \<noteq> None"

subsection \<open>The parser obeys the reader laws\<close>

lemma reader_read_value [reader_stable]: "cursor_reader (gguf_read_value granted v)"
  unfolding gguf_read_value_def by (intro reader_stable)

lemma reader_read_metadata [reader_stable]: "cursor_reader (read_metadata granted v n m)"
  by (induction n arbitrary: m) (simp_all add: reader_stable)

lemma reader_read_dim [reader_stable]: "cursor_reader (read_dim v)"
  unfolding read_dim_def by (intro reader_stable)

lemma reader_read_shape [reader_stable]: "cursor_reader (read_shape v n)"
  by (induction n) (simp_all add: reader_stable)

lemma reader_option [reader_stable]:
  "cursor_reader m \<Longrightarrow> (\<And>x. cursor_reader (f x)) \<Longrightarrow>
    cursor_reader (case x of None \<Rightarrow> m | Some y \<Rightarrow> f y)"
  by (cases x) simp_all

lemma reader_tensor_entry [reader_stable]: "cursor_reader (read_tensor_entry granted v)"
  unfolding read_tensor_entry_def by (intro reader_stable)

lemma reader_read_tensors [reader_stable]: "cursor_reader (read_tensors granted v n ts)"
  by (induction n arbitrary: ts) (simp_all add: reader_stable)

lemma reader_parse_tables [reader_stable]: "cursor_reader (parse_tables granted)"
  unfolding parse_tables_def by (intro reader_stable)

interpretation value_cursor: cursor_reader "gguf_read_value granted version" for granted version
  by (rule reader_read_value)

interpretation tables_cursor: cursor_reader "parse_tables granted" for granted
  by (rule reader_parse_tables)

text \<open>The header of a parsed file: everything but the bytes it was parsed from.\<close>

definition header_of :: "(gguf_error, gguf_file) io_result \<Rightarrow> (gguf_error, gguf_file) io_result" where
  "header_of r = io_bind r (\<lambda>f. Ok (f\<lparr>gf_bytes := []\<rparr>))"

definition is_eof :: "(gguf_error, 'a) io_result \<Rightarrow> bool" where
  "is_eof r \<longleftrightarrow> (\<exists>e. r = Err e \<and> parse_error_kind e = UnexpectedEof)"

lemma parse_prefix_stable:
  assumes "\<not> is_eof (parse granted buf)"
  shows "header_of (parse granted (buf @ ext)) = header_of (parse granted buf)"
proof -
  have "parse_tables granted buf 0 \<noteq> Err EofBuffer"
    using assms by (auto simp: parse_def is_eof_def)
  then have eq: "parse_tables granted (buf @ ext) 0 = parse_tables granted buf 0"
    by (rule tables_cursor.settled_extend)
  show ?thesis
  proof (cases "parse_tables granted buf 0" rule: io_result_cases)
    case (ok r)
    then show ?thesis using assms
      by (cases r) (auto simp: parse_def eq header_of_def is_eof_def Let_def split: if_splits)
  qed (simp_all add: parse_def eq header_of_def)
qed

lemma alignment_pos: "0 < alignment_of m"
  by (simp add: alignment_of_def)

lemma alignment_bound: "alignment_of m \<le> usize_MAX"
  using unat_bound [of "case Option.bind (map_of m (str_bytes ''general.alignment'')) value_as_u64 of
       None \<Rightarrow> 32 | Some a \<Rightarrow> a"]
  by (simp add: alignment_of_def usize_MAX_def)

lemma data_start_aligned:
  assumes "0 < a"
  shows "a dvd data_start a p" "p \<le> data_start a p" "data_start a p < p + a"
proof -
  show "a dvd data_start a p"
  proof (cases "p mod a = 0")
    case False
    then have "(a - p mod a) mod a = a - p mod a" using assms by simp
    then have "data_start a p = (p - p mod a) + a"
      using assms mod_less_divisor [of a p] by (simp add: data_start_def)
    moreover have "a dvd (p - p mod a) + a" by (intro dvd_add dvd_minus_mod dvd_refl)
    ultimately show ?thesis by metis
  qed (simp add: data_start_def mod_eq_0_iff_dvd)
  show "p \<le> data_start a p" "data_start a p < p + a"
    using assms by (simp_all add: data_start_def)
qed

text \<open>The sum that gives the start of the data section stays inside \<open>usize\<close>: a Rust buffer
  has at most \<open>isize::MAX\<close> bytes.\<close>

lemma data_start_no_overflow:
  assumes "0 < a" "a \<le> usize_MAX" "p < 2 ^ 63"
  shows "data_start a p \<le> usize_MAX"
proof (cases "p < a")
  case True
  then have "p mod a = p" by simp
  then show ?thesis using assms True
    by (cases "p = 0") (simp_all add: data_start_def)
next
  case False
  with data_start_aligned(3) [OF assms(1), of p] assms show ?thesis
    by (simp add: usize_MAX_def)
qed

subsection \<open>Lossy decoding\<close>

lemma utf8_step_le:
  assumes "bs \<noteq> []"
  shows "snd (utf8_step bs) \<le> length bs"
proof (cases "takeWhile (utf8_good bs) [Suc 0..<utf8_width (bs ! 0)]" rule: rev_cases)
  case Nil
  with assms show ?thesis by (cases bs) (simp_all add: utf8_step_def)
next
  case (snoc js i)
  let ?xs = "[Suc 0..<utf8_width (bs ! 0)]"
  have good: "utf8_good bs i"
    using set_takeWhileD [of i "utf8_good bs" ?xs] by (simp add: snoc)
  have "length js < length ?xs"
    using length_takeWhile_le [of "utf8_good bs" ?xs] by (simp add: snoc)
  then have "?xs ! length js = Suc (length js)" by (simp add: nth_upt del: upt_Suc)
  moreover have "?xs ! length js = (js @ [i]) ! length js"
    using takeWhile_nth [of "length js" "utf8_good bs" ?xs] by (simp add: snoc)
  ultimately have "i = Suc (length js)" by simp
  with good show ?thesis by (simp add: utf8_step_def snoc utf8_good_def)
qed

lemma utf8_step_take:
  assumes "bs \<noteq> []" "fst (utf8_step bs)"
  shows "utf8_step (take (snd (utf8_step bs)) bs @ rest) = utf8_step bs"
proof -
  define cs where "cs = take (snd (utf8_step bs)) bs @ rest"
  let ?w = "utf8_width (bs ! 0)"
  have w: "snd (utf8_step bs) = ?w" "0 < ?w" "length (takeWhile (utf8_good bs) [Suc 0..<?w]) = length [Suc 0..<?w]"
    using assms(2) by (auto simp: utf8_step_def Let_def)
  have le: "?w \<le> length bs" using utf8_step_le [OF assms(1)] w(1) by simp
  have nth: "cs ! i = bs ! i" if "i < ?w" for i
    using that le by (simp add: cs_def w(1) nth_append)
  have "takeWhile (utf8_good bs) [Suc 0..<?w] = [Suc 0..<?w]"
    using w(3) by (metis takeWhile_eq_take take_all order.refl)
  then have "\<forall>i \<in> set [Suc 0..<?w]. utf8_good bs i" by (metis set_takeWhileD)
  moreover have "utf8_good cs i" if "utf8_good bs i" "i < ?w" for i
    using that nth [of i] nth [of 0] nth [of 1] w(2) le by (simp add: utf8_good_def cs_def w(1) split: if_splits)
  ultimately have "\<forall>i \<in> set [Suc 0..<?w]. utf8_good cs i" by simp
  then have all: "takeWhile (utf8_good cs) [Suc 0..<?w] = [Suc 0..<?w]" by simp
  have "utf8_step cs = (True, ?w)"
    using w(2) by (simp add: utf8_step_def Let_def nth [OF w(2)] all)
  moreover have "utf8_step bs = (True, ?w)" using assms(2) w(1) by (simp add: prod_eq_iff)
  ultimately show ?thesis by (simp add: cs_def)
qed

lemma is_utf8_Nil [simp]: "is_utf8 []"
  by (simp add: is_utf8.simps)

lemma from_utf8_lossy_Nil [simp]: "from_utf8_lossy [] = []"
  by (simp add: from_utf8_lossy.simps)

lemma from_utf8_lossy_valid [simp]: "is_utf8 (from_utf8_lossy bs)"
proof (induction bs rule: from_utf8_lossy.induct)
  case (1 bs)
  show ?case
  proof (cases "bs = []")
    case False
    let ?n = "snd (utf8_step bs)"
    have IH: "is_utf8 (from_utf8_lossy (drop ?n bs))" by (rule 1 [OF False])
    show ?thesis
    proof (cases "fst (utf8_step bs)")
      case True
      have "length (take ?n bs) = ?n" using utf8_step_le [OF False] by simp
      then show ?thesis
        using False True IH utf8_step_pos [of bs] utf8_step_take [OF False True]
        by (simp add: from_utf8_lossy.simps [of bs] is_utf8.simps [of "take ?n bs @ _"])
    next
      case f: False
      have "utf8_step ([239, 191, 189] @ r) = (True, 3)" for r
        by (simp add: utf8_step_def utf8_width_def utf8_good_def utf8_second_def utf8_cont_def upt_rec)
      then show ?thesis using False f IH
        by (simp add: from_utf8_lossy.simps [of bs] is_utf8.simps [of "239 # _"])
    qed
  qed simp
qed

lemma from_utf8_lossy_id: "is_utf8 bs \<Longrightarrow> from_utf8_lossy bs = bs"
proof (induction bs rule: from_utf8_lossy.induct)
  case (1 bs)
  show ?case
  proof (cases "bs = []")
    case False
    with 1(2) have "fst (utf8_step bs)" "is_utf8 (drop (snd (utf8_step bs)) bs)"
      by (auto simp: is_utf8.simps [of bs] split: if_splits)
    with 1(1) [OF False] False show ?thesis by (simp add: from_utf8_lossy.simps [of bs])
  qed simp
qed

subsection \<open>Types of parsed values\<close>

text \<open>The wire type of a value, and a value whose arrays are homogeneous and whose strings are
  well-formed UTF-8.\<close>

fun value_type :: "gguf_value \<Rightarrow> gguf_type" where
  "value_type (VU8 _) = UINT8" | "value_type (VI8 _) = INT8"
| "value_type (VU16 _) = UINT16" | "value_type (VI16 _) = INT16"
| "value_type (VU32 _) = UINT32" | "value_type (VI32 _) = INT32"
| "value_type (VU64 _) = UINT64" | "value_type (VI64 _) = INT64"
| "value_type (VF32 _) = FLOAT32" | "value_type (VF64 _) = FLOAT64"
| "value_type (VBool _) = BOOL" | "value_type (VString _) = STRING"
| "value_type (VArray _) = ARRAY"

fun well_typed :: "gguf_value \<Rightarrow> bool" where
  "well_typed (VString s) \<longleftrightarrow> is_utf8 s"
| "well_typed (VArray vs) \<longleftrightarrow>
     list_all (\<lambda>v. value_type v = value_type (hd vs)) vs \<and> list_all well_typed vs"
| "well_typed _ \<longleftrightarrow> True"

lemma type_code_inj: "type_code s = type_code t \<longleftrightarrow> s = t"
  by (cases s; cases t) simp_all

lemma pbind_Ok: "pbind m f buf pos = Ok (b, q) \<longleftrightarrow> (\<exists>a p. m buf pos = Ok (a, p) \<and> f a buf p = Ok (b, q))"
  by (auto simp: pbind_def io_iff)

lemma ret_Ok: "ret a buf pos = Ok (b, q) \<longleftrightarrow> b = a \<and> q = pos"
  by (auto simp: ret_def)

lemma fail_Ok: "fail e buf pos \<noteq> Ok r"
  by (simp add: fail_def)

lemma reserve_Ok: "reserve granted k n buf pos = Ok (u, q) \<longleftrightarrow> q = pos \<and> granted k n"
  by (auto simp: reserve_def)

lemmas reader_iff = pbind_Ok ret_Ok fail_Ok reserve_Ok

lemma read_string_utf8: "read_string v buf pos = Ok (s, q) \<Longrightarrow> is_utf8 s"
  by (auto simp: read_string_def reader_iff)

lemma read_scalar_typed:
  "read_scalar version ty buf pos = Ok (x, q) \<Longrightarrow> type_code (value_type x) = ty \<and> well_typed x"
  by (auto simp: read_scalar_def reader_iff dest: read_string_utf8 split: if_splits)

lemma read_values_typed:
  "read_value_typed granted version ty buf pos = Ok (x, q) \<Longrightarrow>
    type_code (value_type x) = ty \<and> well_typed x"
  "read_values granted version ty n buf pos = Ok (xs, q) \<Longrightarrow>
    length xs = n \<and> list_all (\<lambda>x. type_code (value_type x) = ty \<and> well_typed x) xs"
proof (induction granted version ty buf pos and granted version ty n buf pos
    arbitrary: x q and xs q rule: read_value_typed_read_values.induct)
  case (1 granted version ty buf pos)
  show ?case
  proof (cases "ty = type_code ARRAY")
    case True
    with 1(2) obtain inner p1 n p2 out where
      r: "read_u32 buf pos = Ok (inner, p1)" "read_count version buf p1 = Ok (n, p2)"
        "reserve granted ArrayVec (unat n) buf p2 = Ok ((), p2)"
        "read_values granted version inner (unat n) buf p2 = Ok (out, q)" "x = VArray out"
      by (auto simp: read_value_typed.simps io_iff reserve_def split: if_splits)
    have "list_all (\<lambda>x. type_code (value_type x) = inner \<and> well_typed x) out"
      using 1(1) [OF True r(1) HOL.refl r(2) HOL.refl r(3) r(4)] by simp
    then have "list_all (\<lambda>v. value_type v = value_type (hd out)) out" "list_all well_typed out"
      by (cases out; force simp: list_all_iff type_code_inj [symmetric])+
    with True r(5) show ?thesis by simp
  next
    case False
    with 1(2) read_scalar_typed show ?thesis by (simp add: read_value_typed.simps)
  qed
next
  case (2 granted version ty buf pos)
  then show ?case by (simp add: read_values.simps)
next
  case (3 granted version ty n buf pos)
  then obtain y p1 ys where r: "read_value_typed granted version ty buf pos = Ok (y, p1)"
      "read_values granted version ty n buf p1 = Ok (ys, q)" "xs = y # ys"
    by (auto simp: read_values.simps io_iff)
  from 3(1) [OF r(1)] 3(2) [OF r(1) HOL.refl r(2)] r(3) show ?case by simp
qed

text \<open>A well-formed metadata table and a well-formed tensor table.\<close>

definition metadata_ok :: "metadata \<Rightarrow> bool" where
  "metadata_ok m \<longleftrightarrow> distinct (map fst m) \<and> list_all (\<lambda>(k, v). is_utf8 k \<and> well_typed v) m"

definition tensors_ok :: "tensor_table \<Rightarrow> bool" where
  "tensors_ok ts \<longleftrightarrow> distinct (map fst ts) \<and> list_all (\<lambda>(k, i). ti_name i = k \<and> is_utf8 k \<and>
     ggml_tensor_bytes (ti_dtype i) (ti_shape i) = Some (ti_byte_len i)) ts"

lemma distinct_map_insert: "distinct (map fst es) \<Longrightarrow> distinct (map fst (map_insert es k v))"
  by (auto simp: map_insert_def distinct_map inj_on_def)

lemma list_all_map_insert: "list_all P es \<Longrightarrow> P (k, v) \<Longrightarrow> list_all P (map_insert es k v)"
  by (auto simp: map_insert_def list_all_iff)

lemma map_of_map_insert [simp]: "map_of (map_insert es k v) = (map_of es)(k \<mapsto> v)"
proof
  fix x
  have "map_of (filter (\<lambda>e. fst e \<noteq> k) es) x = map_of es x" if "x \<noteq> k"
    using that by (induction es) auto
  then show "map_of (map_insert es k v) x = ((map_of es)(k \<mapsto> v)) x"
    by (simp add: map_insert_def)
qed

lemma read_value_well_typed: "gguf_read_value granted v buf pos = Ok (x, q) \<Longrightarrow> well_typed x"
  by (auto simp: gguf_read_value_def reader_iff dest: read_values_typed(1))

lemma read_metadata_ok:
  "read_metadata granted v n m buf pos = Ok (m', q) \<Longrightarrow> metadata_ok m \<Longrightarrow> metadata_ok m'"
proof (induction n arbitrary: m pos)
  case (Suc n)
  then obtain key val p1 p2 where r: "read_string v buf pos = Ok (key, p1)"
      "gguf_read_value granted v buf p1 = Ok (val, p2)"
      "read_metadata granted v n (map_insert m key val) buf p2 = Ok (m', q)"
    by (auto simp: reader_iff)
  have "metadata_ok (map_insert m key val)"
    using Suc.prems(2) read_string_utf8 [OF r(1)] read_value_well_typed [OF r(2)]
    by (auto simp: metadata_ok_def distinct_map_insert intro: list_all_map_insert)
  with Suc.IH [OF r(3)] show ?case by blast
qed (simp add: ret_Ok)

lemma read_tensor_entry_ok:
  "read_tensor_entry granted v buf pos = Ok (i, q) \<Longrightarrow>
    is_utf8 (ti_name i) \<and> ggml_tensor_bytes (ti_dtype i) (ti_shape i) = Some (ti_byte_len i)"
  by (auto simp: read_tensor_entry_def reader_iff dest: read_string_utf8 split: option.splits)

lemma read_tensors_ok:
  "read_tensors granted v n ts buf pos = Ok (ts', q) \<Longrightarrow> tensors_ok ts \<Longrightarrow> tensors_ok ts'"
proof (induction n arbitrary: ts pos)
  case (Suc n)
  then obtain i p where r: "read_tensor_entry granted v buf pos = Ok (i, p)"
      "read_tensors granted v n (map_insert ts (ti_name i) i) buf p = Ok (ts', q)"
    by (auto simp: reader_iff)
  have "tensors_ok (map_insert ts (ti_name i) i)"
    using Suc.prems(2) read_tensor_entry_ok [OF r(1)]
    by (auto simp: tensors_ok_def distinct_map_insert intro: list_all_map_insert)
  with Suc.IH [OF r(2)] show ?case by blast
qed (simp add: ret_Ok)

lemma parse_tables_ok:
  "parse_tables granted buf pos = Ok ((version, m, ts), q) \<Longrightarrow>
    1 \<le> version \<and> version \<le> 3 \<and> metadata_ok m \<and> tensors_ok ts"
  by (auto simp: parse_tables_def reader_iff metadata_ok_def [of "[]"] tensors_ok_def [of "[]"] not_less
      word_le_nat_alt word_less_nat_alt Suc_le_eq unat_gt_0
      dest!: read_metadata_ok read_tensors_ok split: if_splits)

text \<open>C25: every file \<open>GgufFile::parse\<close> accepts is well-typed: metadata keys are distinct
  UTF-8 strings, every array is homogeneous, every tensor is filed under its own name with the
  byte length its dtype and shape give, the version is 1 to 3, and the data section starts
  inside the file at a multiple of the declared alignment.\<close>

theorem gguf_parsed_well_typed:
  assumes "parse granted bytes = Ok f"
  shows "metadata_ok (gf_metadata f) \<and> tensors_ok (gf_tensors f)
    \<and> 1 \<le> gf_version f \<and> gf_version f \<le> 3
    \<and> gf_bytes f = bytes \<and> gf_data_start f \<le> length bytes
    \<and> alignment_of (gf_metadata f) dvd gf_data_start f"
proof -
  obtain version m ts p where r: "parse_tables granted bytes 0 = Ok ((version, m, ts), p)"
      "f = \<lparr>gf_version = version, gf_metadata = m, gf_tensors = ts, gf_bytes = bytes,
        gf_data_start = data_start (alignment_of m) p\<rparr>"
      "data_start (alignment_of m) p \<le> length bytes"
    using assms by (auto simp: parse_def io_iff Let_def split: if_splits)
  show ?thesis
    using parse_tables_ok [OF r(1)] r(2,3) data_start_aligned(1) [OF alignment_pos] by simp
qed

end
