(* ===== verification/GgufFormat.thy ===== *)
theory GgufFormat
  imports Gguf
begin

section \<open>GGUF files: the wire format\<close>

text \<open>
  A reference encoder of the format \<open>gguf.rs\<close> reads, the round trip of the parser on encoded
  files, and the byte lengths the tensor table gives: they are the engine's own projection
  sizes of the element count, which the code computes modulo 2^64.
\<close>

subsection \<open>The wire format and the round trip\<close>

text \<open>
  A reference encoder of the GGUF format: counts and lengths are \<open>u32\<close> in version 1 and \<open>u64\<close>
  later, a value is its type code and its payload. \<open>reads p bs a\<close>: wherever the bytes \<open>bs\<close>
  stand in a buffer, \<open>p\<close> started there returns \<open>a\<close> and stops right after them.
\<close>

definition reads :: "'a reader \<Rightarrow> u8 list \<Rightarrow> 'a \<Rightarrow> bool" where
  "reads p bs a \<longleftrightarrow> (\<forall>pre post. length (pre @ bs @ post) \<le> usize_MAX \<longrightarrow>
     p (pre @ bs @ post) (length pre) = Ok (a, length pre + length bs))"

lemma readsI:
  "(\<And>pre post. length (pre @ bs @ post) \<le> usize_MAX \<Longrightarrow>
     p (pre @ bs @ post) (length pre) = Ok (a, length pre + length bs)) \<Longrightarrow> reads p bs a"
  by (simp add: reads_def)

lemma reads_bind:
  assumes "reads p bs a" "reads (f a) cs b"
  shows "reads (pbind p f) (bs @ cs) b"
proof (rule readsI)
  fix pre post :: "u8 list"
  assume "length (pre @ (bs @ cs) @ post) \<le> usize_MAX"
  then show "pbind p f (pre @ (bs @ cs) @ post) (length pre) = Ok (b, length pre + length (bs @ cs))"
    using assms(1) [unfolded reads_def, rule_format, of pre "cs @ post"]
      assms(2) [unfolded reads_def, rule_format, of "pre @ bs" post]
    by (simp add: pbind_def add.assoc)
qed

lemma reads_ret: "reads (ret a) [] a"
  by (simp add: reads_def ret_def)

lemma reads_map: "reads p bs a \<Longrightarrow> reads (pbind p (\<lambda>x. ret (g x))) bs (g a)"
  using reads_bind [of p bs a "\<lambda>x. ret (g x)" "[]" "g a"] by (simp add: reads_ret)

lemma reads_reserve: "granted k n \<Longrightarrow> reads p bs a \<Longrightarrow> reads (pbind (reserve granted k n) (\<lambda>_. p)) bs a"
  by (simp add: reads_def pbind_def reserve_def)

lemma reads_bytes: "length bs = n \<Longrightarrow> reads (read_bytes n) bs bs"
  by (simp add: reads_def read_bytes_eq subslice_def)

lemma reads_fixed:
  "reads read_u8 [b] b" "reads read_u16 (u16_to_le_bytes w) w"
  "reads read_u32 (u32_to_le_bytes x) x" "reads read_u64 (u64_to_le_bytes y) y"
  using reads_map [OF reads_bytes, of "[b]" 1 "\<lambda>c. c ! 0"]
    reads_map [OF reads_bytes, of "u16_to_le_bytes w" 2 u16_from_le_bytes]
    reads_map [OF reads_bytes, of "u32_to_le_bytes x" 4 u32_from_le_bytes]
    reads_map [OF reads_bytes, of "u64_to_le_bytes y" 8 u64_from_le_bytes]
  by (simp_all add: read_u8_def read_u16_def read_u32_def read_u64_def)

definition enc_count :: "u32 \<Rightarrow> u64 \<Rightarrow> u8 list" where
  "enc_count version n = (if version = 1 then u32_to_le_bytes (ucast n) else u64_to_le_bytes n)"

definition count_fits :: "u32 \<Rightarrow> nat \<Rightarrow> bool" where
  "count_fits version n \<longleftrightarrow> n < (if version = 1 then 2 ^ 32 else 2 ^ 64)"

lemma reads_count:
  assumes "count_fits version (unat n)"
  shows "reads (read_count version) (enc_count version n) n"
proof (cases "version = 1")
  case True
  with assms have "unat n < 2 ^ 32" by (simp add: count_fits_def)
  then have "ucast (ucast n :: u32) = n"
    by (intro word_unat_eq_iff [THEN iffD2]) (simp add: unsigned_ucast_eq unsigned_take_bit_eq take_bit_nat_eq_self)
  with True reads_map [OF reads_fixed(3) [of "ucast n"], of "\<lambda>n. ucast n :: u64"] show ?thesis
    by (simp add: read_count_def enc_count_def)
next
  case False
  then show ?thesis by (simp add: read_count_def enc_count_def reads_fixed(4))
qed

lemma reads_of_nat_count:
  "count_fits version n \<Longrightarrow> reads (read_count version) (enc_count version (of_nat n)) (of_nat n)"
  "count_fits version n \<Longrightarrow> unat (of_nat n :: u64) = n"
proof -
  assume f: "count_fits version n"
  then have "n < 2 ^ 64" by (auto simp: count_fits_def split: if_splits)
  then show u: "unat (of_nat n :: u64) = n" by (simp add: unat_of_nat)
  show "reads (read_count version) (enc_count version (of_nat n)) (of_nat n)"
    using reads_count [of version "of_nat n"] f u by simp
qed

definition enc_string :: "u32 \<Rightarrow> u8 list \<Rightarrow> u8 list" where
  "enc_string version s = enc_count version (of_nat (length s)) @ s"

lemma reads_string:
  assumes "count_fits version (length s)" "is_utf8 s"
  shows "reads (read_string version) (enc_string version s) s"
  unfolding read_string_def enc_string_def
  by (rule reads_bind, rule reads_of_nat_count(1) [OF assms(1)])
    (use assms reads_of_nat_count(2) [OF assms(1)] reads_map [OF reads_bytes, of s "length s" from_utf8_lossy]
     in \<open>simp add: from_utf8_lossy_id\<close>)

definition elem_type :: "gguf_value list \<Rightarrow> gguf_type" where
  "elem_type vs = (case vs of [] \<Rightarrow> UINT8 | v # _ \<Rightarrow> value_type v)"

fun enc_payload :: "u32 \<Rightarrow> gguf_value \<Rightarrow> u8 list" where
  "enc_payload version (VU8 x) = [x]"
| "enc_payload version (VI8 x) = [x]"
| "enc_payload version (VU16 x) = u16_to_le_bytes x"
| "enc_payload version (VI16 x) = u16_to_le_bytes x"
| "enc_payload version (VU32 x) = u32_to_le_bytes x"
| "enc_payload version (VI32 x) = u32_to_le_bytes x"
| "enc_payload version (VU64 x) = u64_to_le_bytes x"
| "enc_payload version (VI64 x) = u64_to_le_bytes x"
| "enc_payload version (VF32 x) = u32_to_le_bytes x"
| "enc_payload version (VF64 x) = u64_to_le_bytes x"
| "enc_payload version (VBool x) = [if x then 1 else 0]"
| "enc_payload version (VString s) = enc_string version s"
| "enc_payload version (VArray vs) = u32_to_le_bytes (type_code (elem_type vs))
     @ enc_count version (of_nat (length vs)) @ concat (map (enc_payload version) vs)"

definition enc_value :: "u32 \<Rightarrow> gguf_value \<Rightarrow> u8 list" where
  "enc_value version v = u32_to_le_bytes (type_code (value_type v)) @ enc_payload version v"

fun value_fits :: "u32 \<Rightarrow> gguf_value \<Rightarrow> bool" where
  "value_fits version (VString s) \<longleftrightarrow> count_fits version (length s)"
| "value_fits version (VArray vs) \<longleftrightarrow> count_fits version (length vs) \<and> list_all (value_fits version) vs"
| "value_fits version _ \<longleftrightarrow> True"

lemma read_values_Nil: "read_values granted version ty 0 = ret []"
  by (intro ext) (simp add: read_values.simps ret_def)

lemma read_values_Cons:
  "read_values granted version ty (Suc n) = pbind (read_value_typed granted version ty)
     (\<lambda>x. pbind (read_values granted version ty n) (\<lambda>xs. ret (x # xs)))"
  by (intro ext) (simp add: read_values.simps ret_def pbind_def)

lemma read_value_array:
  "read_value_typed granted version (type_code ARRAY) = pbind read_u32 (\<lambda>inner.
     pbind (read_count version) (\<lambda>n. pbind (reserve granted ArrayVec (unat n)) (\<lambda>_.
     pbind (read_values granted version inner (unat n)) (\<lambda>out. ret (VArray out)))))"
  by (intro ext, subst read_value_typed.simps)
    (auto simp: ret_def pbind_def reserve_def intro!: io_bind_cong split: prod.splits if_splits)

lemma read_value_scalar:
  "ty \<noteq> type_code ARRAY \<Longrightarrow> read_value_typed granted version ty = read_scalar version ty"
  by (intro ext) (simp add: read_value_typed.simps)

lemma reads_values:
  assumes "\<And>v. v \<in> set vs \<Longrightarrow> reads (read_value_typed granted version ty) (enc_payload version v) v"
  shows "reads (read_values granted version ty (length vs)) (concat (map (enc_payload version) vs)) vs"
  using assms
proof (induction vs)
  case (Cons v vs)
  then have "reads (read_values granted version ty (length vs)) (concat (map (enc_payload version) vs)) vs"
    by simp
  then show ?case
    using Cons.prems [of v] by (auto simp: read_values_Cons intro!: reads_bind reads_map)
qed (simp add: read_values_Nil reads_ret)

lemma reads_payload:
  assumes "\<And>k n. granted k n" "value_fits version v" "well_typed v"
  shows "reads (read_value_typed granted version (type_code (value_type v))) (enc_payload version v) v"
  using assms(2,3)
proof (induction v)
  case (VBool x)
  show ?case
    using reads_map [OF reads_fixed(1) [of "if x then 1 else 0"], of "\<lambda>x. VBool (x \<noteq> 0)"]
    by (cases x) (simp_all add: read_value_scalar read_scalar_def)
next
  case (VString s)
  then show ?case using reads_map [OF reads_string [of version s], of VString]
    by (simp add: read_value_scalar read_scalar_def)
next
  case (VArray vs)
  have inner: "value_type v = elem_type vs" if "v \<in> set vs" for v
    using VArray.prems(2) that by (cases vs) (auto simp: elem_type_def list_all_iff)
  have "reads (read_value_typed granted version (type_code (elem_type vs))) (enc_payload version v) v"
    if "v \<in> set vs" for v
    using VArray.IH [OF that] VArray.prems that inner [OF that] by (auto simp: list_all_iff)
  then have vs: "reads (read_values granted version (type_code (elem_type vs)) (length vs))
      (concat (map (enc_payload version) vs)) vs"
    by (rule reads_values)
  have fits: "count_fits version (length vs)" using VArray.prems(1) by simp
  show ?case
    unfolding value_type.simps read_value_array enc_payload.simps
    by (rule reads_bind [OF reads_fixed(3)], rule reads_bind [OF reads_of_nat_count(1) [OF fits]],
        rule reads_reserve [OF assms(1)], unfold reads_of_nat_count(2) [OF fits],
        rule reads_map [OF vs])
qed (simp_all add: read_value_scalar read_scalar_def reads_map reads_fixed)

lemma reads_value:
  "(\<And>k n. granted k n) \<Longrightarrow> value_fits version v \<Longrightarrow> well_typed v \<Longrightarrow>
    reads (gguf_read_value granted version) (enc_value version v) v"
  unfolding gguf_read_value_def enc_value_def
  by (rule reads_bind, rule reads_fixed(3), rule reads_payload)

definition enc_entry :: "u32 \<Rightarrow> u8 list \<times> gguf_value \<Rightarrow> u8 list" where
  "enc_entry version e = enc_string version (fst e) @ enc_value version (snd e)"

definition entry_fits :: "u32 \<Rightarrow> u8 list \<times> gguf_value \<Rightarrow> bool" where
  "entry_fits version e \<longleftrightarrow> count_fits version (length (fst e)) \<and> is_utf8 (fst e)
     \<and> value_fits version (snd e) \<and> well_typed (snd e)"

lemma map_insert_fresh: "k \<notin> fst ` set es \<Longrightarrow> map_insert es k v = (k, v) # es"
  by (auto simp: map_insert_def filter_id_conv rev_image_eqI)

lemma reads_metadata:
  assumes "\<And>k n. granted k n" "list_all (entry_fits version) es" "distinct (map fst (rev es @ m))"
  shows "reads (read_metadata granted version (length es) m) (concat (map (enc_entry version) es)) (rev es @ m)"
  using assms(2,3)
proof (induction es arbitrary: m)
  case (Cons e es)
  have IH: "reads (read_metadata granted version (length es) (e # m))
      (concat (map (enc_entry version) es)) (rev es @ e # m)"
    using Cons.IH [of "e # m"] Cons.prems by simp
  have ins: "map_insert m (fst e) (snd e) = e # m"
    using Cons.prems(2) by (subst map_insert_fresh) auto
  have "reads (read_string version) (enc_string version (fst e)) (fst e)"
    "reads (gguf_read_value granted version) (enc_value version (snd e)) (snd e)"
    using Cons.prems(1) assms(1) by (auto simp: entry_fits_def intro: reads_string reads_value)
  then show ?case using IH ins
    by (auto simp: enc_entry_def [of _ e] intro!: reads_bind)
qed (simp add: reads_ret)

lemma reads_shape:
  "list_all (\<lambda>d. count_fits version (unat d)) ds \<Longrightarrow>
    reads (read_shape version (length ds)) (concat (map (enc_count version) ds)) ds"
proof (induction ds)
  case (Cons d ds)
  have "read_dim version = read_count version" by (simp add: read_dim_def read_count_def)
  with Cons show ?case by (auto intro!: reads_bind reads_map reads_count)
qed (simp add: reads_ret)

definition enc_tensor :: "u32 \<Rightarrow> tensor_info \<Rightarrow> u8 list" where
  "enc_tensor version i = enc_string version (ti_name i)
     @ u32_to_le_bytes (of_nat (length (ti_shape i)))
     @ concat (map (enc_count version) (ti_shape i))
     @ u32_to_le_bytes (ti_dtype i) @ u64_to_le_bytes (ti_offset i)"

definition tensor_fits :: "u32 \<Rightarrow> tensor_info \<Rightarrow> bool" where
  "tensor_fits version i \<longleftrightarrow> count_fits version (length (ti_name i)) \<and> is_utf8 (ti_name i)
     \<and> length (ti_shape i) < 2 ^ 32 \<and> list_all (\<lambda>d. count_fits version (unat d)) (ti_shape i)
     \<and> ggml_tensor_bytes (ti_dtype i) (ti_shape i) = Some (ti_byte_len i)"

lemma reads_tensor_entry:
  assumes "\<And>k n. granted k n" "tensor_fits version i"
  shows "reads (read_tensor_entry granted version) (enc_tensor version i) i"
proof -
  let ?n = "length (ti_shape i)"
  have n: "unat (of_nat ?n :: u32) = ?n"
    using assms(2) by (simp add: tensor_fits_def unat_of_nat)
  have len: "ggml_tensor_bytes (ti_dtype i) (ti_shape i) = Some (ti_byte_len i)"
    using assms(2) by (simp add: tensor_fits_def)
  have name: "reads (read_string version) (enc_string version (ti_name i)) (ti_name i)"
    and shape: "reads (read_shape version ?n) (concat (map (enc_count version) (ti_shape i))) (ti_shape i)"
    using assms(2) by (simp_all add: tensor_fits_def reads_string reads_shape)
  define entry where "entry offset = \<lparr>ti_name = ti_name i, ti_shape = ti_shape i,
      ti_dtype = ti_dtype i, ti_offset = offset, ti_byte_len = ti_byte_len i\<rparr>" for offset
  have "entry (ti_offset i) = i" by (simp add: entry_def)
  then have "reads (pbind read_u64 (\<lambda>offset. ret (entry offset))) (u64_to_le_bytes (ti_offset i)) i"
    using reads_map [OF reads_fixed(4) [of "ti_offset i"], of entry] by simp
  then have tail: "reads (pbind read_u64 (\<lambda>offset.
      case ggml_tensor_bytes (ti_dtype i) (ti_shape i) of
        None \<Rightarrow> fail (UnknownByteLen (ti_name i) (ti_dtype i))
      | Some byte_len \<Rightarrow> ret \<lparr>ti_name = ti_name i, ti_shape = ti_shape i, ti_dtype = ti_dtype i,
          ti_offset = offset, ti_byte_len = byte_len\<rparr>)) (u64_to_le_bytes (ti_offset i)) i"
    by (simp add: len entry_def)
  show ?thesis unfolding read_tensor_entry_def enc_tensor_def
    by (rule reads_bind, rule name, rule reads_bind, rule reads_fixed(3), rule reads_reserve,
        rule assms(1), unfold n, rule reads_bind, rule shape, rule reads_bind, rule reads_fixed(3),
        rule tail)
qed

lemma reads_tensors:
  assumes "\<And>k n. granted k n" "list_all (tensor_fits version) is"
    "distinct (map fst (rev (map (\<lambda>i. (ti_name i, i)) is) @ ts))"
  shows "reads (read_tensors granted version (length is) ts) (concat (map (enc_tensor version) is))
    (rev (map (\<lambda>i. (ti_name i, i)) is) @ ts)"
  using assms(2,3)
proof (induction "is" arbitrary: ts)
  case (Cons i js)
  let ?t = "(ti_name i, i)"
  have "reads (read_tensors granted version (length js) (?t # ts))
      (concat (map (enc_tensor version) js)) (rev (map (\<lambda>i. (ti_name i, i)) js) @ ?t # ts)"
    using Cons.IH [of "?t # ts"] Cons.prems by simp
  moreover have "map_insert ts (ti_name i) i = ?t # ts"
    using Cons.prems(2) by (subst map_insert_fresh) auto
  moreover have "reads (read_tensor_entry granted version) (enc_tensor version i) i"
    using Cons.prems(1) assms(1) by (auto intro: reads_tensor_entry)
  ultimately show ?case by (auto intro!: reads_bind)
qed (simp add: reads_ret)

definition enc_header :: "u32 \<Rightarrow> metadata \<Rightarrow> tensor_info list \<Rightarrow> u8 list" where
  "enc_header version m is = GGUF_MAGIC @ u32_to_le_bytes version
     @ enc_count version (of_nat (length is)) @ enc_count version (of_nat (length m))
     @ concat (map (enc_entry version) m) @ concat (map (enc_tensor version) is)"

definition enc_file :: "u32 \<Rightarrow> metadata \<Rightarrow> tensor_info list \<Rightarrow> u8 list \<Rightarrow> u8 list" where
  "enc_file version m is body = (let h = enc_header version m is in
     h @ replicate (data_start (alignment_of m) (length h) - length h) 0 @ body)"

definition header_fits :: "u32 \<Rightarrow> metadata \<Rightarrow> tensor_info list \<Rightarrow> bool" where
  "header_fits version m is \<longleftrightarrow> 1 \<le> version \<and> version \<le> 3
     \<and> count_fits version (length m) \<and> count_fits version (length is)
     \<and> list_all (entry_fits version) m \<and> distinct (map fst m)
     \<and> list_all (tensor_fits version) is \<and> distinct (map ti_name is)"

lemma reads_header:
  assumes grant: "\<And>k n. granted k n" and fits: "header_fits version m is"
  shows "reads (parse_tables granted) (enc_header version m is)
    (version, rev m, rev (map (\<lambda>i. (ti_name i, i)) is))"
proof -
  have nm: "count_fits version (length m)" and ni: "count_fits version (length is)"
    using fits by (simp_all add: header_fits_def)
  have v: "\<not> (version = 0 \<or> 3 < version)"
    using fits by (auto simp: header_fits_def not_less)
  have magic: "reads (read_bytes 4) GGUF_MAGIC GGUF_MAGIC"
    by (rule reads_bytes) (simp add: GGUF_MAGIC_def)
  have meta: "reads (read_metadata granted version (length m) []) (concat (map (enc_entry version) m)) (rev m)"
    by (rule reads_metadata [where m = "[]", unfolded append_Nil2])
      (use grant fits in \<open>simp_all add: header_fits_def rev_map [symmetric]\<close>)
  have tens: "reads (read_tensors granted version (length is) []) (concat (map (enc_tensor version) is))
      (rev (map (\<lambda>i. (ti_name i, i)) is))"
    by (rule reads_tensors [where ts = "[]", unfolded append_Nil2])
      (use grant fits in \<open>simp_all add: header_fits_def rev_map [symmetric] comp_def\<close>)
  show ?thesis
    unfolding parse_tables_def enc_header_def
    by (rule reads_bind, rule magic, simp only: if_not_P if_False not_True_eq_False simp_thms,
        rule reads_bind, rule reads_fixed(3), simp only: v if_False,
        rule reads_bind, rule reads_of_nat_count(1) [OF ni],
        rule reads_bind, rule reads_of_nat_count(1) [OF nm],
        rule reads_reserve, rule grant, unfold reads_of_nat_count(2) [OF nm] reads_of_nat_count(2) [OF ni],
        rule reads_bind, rule meta, rule reads_reserve, rule grant, rule reads_map, rule tens)
qed

lemma map_of_rev_distinct: "distinct (map fst m) \<Longrightarrow> map_of (rev m) = map_of m"
  by (subst map_of_inject_set) (simp_all add: rev_map [symmetric])

lemma alignment_of_rev: "distinct (map fst m) \<Longrightarrow> alignment_of (rev m) = alignment_of m"
  by (simp add: alignment_of_def map_of_rev_distinct)

lemma map_of_named:
  "distinct (map ti_name is) \<Longrightarrow> i \<in> set is \<Longrightarrow>
    map_of (rev (map (\<lambda>i. (ti_name i, i)) is)) (ti_name i) = Some i"
  by (subst map_of_rev_distinct) (auto simp: comp_def intro!: map_of_is_SomeI)

lemma parse_enc_file:
  assumes "\<And>k n. granted k n" "header_fits version m is"
    "length (enc_file version m is body) \<le> usize_MAX"
  shows "parse granted (enc_file version m is body) = Ok \<lparr>gf_version = version,
      gf_metadata = rev m, gf_tensors = rev (map (\<lambda>i. (ti_name i, i)) is),
      gf_bytes = enc_file version m is body,
      gf_data_start = data_start (alignment_of m) (length (enc_header version m is))\<rparr>"
proof -
  let ?h = "enc_header version m is"
  have al: "alignment_of (rev m) = alignment_of m"
    using assms(2) by (simp add: header_fits_def alignment_of_rev)
  obtain rest where fe: "enc_file version m is body = ?h @ rest"
    by (simp add: enc_file_def Let_def)
  have "parse_tables granted (?h @ rest) 0 = Ok ((version, rev m, rev (map (\<lambda>i. (ti_name i, i)) is)), length ?h)"
    using reads_header [OF assms(1,2), unfolded reads_def, rule_format, of "[]" rest] assms(3)
    by (simp add: fe)
  moreover have "data_start (alignment_of m) (length ?h) \<le> length (enc_file version m is body)"
    using data_start_aligned(2) [OF alignment_pos, of "length ?h" m]
    by (simp add: enc_file_def Let_def)
  ultimately show ?thesis by (simp add: parse_def fe al not_less)
qed

lemma enc_file_body:
  "subslice (enc_file version m is body)
     (data_start (alignment_of m) (length (enc_header version m is)) + off) n = subslice body off n"
  using data_start_aligned(2) [OF alignment_pos, of "length (enc_header version m is)" m]
  by (simp add: enc_file_def Let_def subslice_def)

text \<open>C10: the parser inverts the wire format. A file encoded from any metadata and tensor
  table that fit the version's counts parses to that version, metadata and table, and each
  tensor whose range lies in the body reads back exactly its bytes.\<close>

theorem gguf_parse_roundtrip:
  assumes "\<And>k n. granted k n" "header_fits version m is"
    "length (enc_file version m is body) \<le> usize_MAX"
  shows "\<exists>f. parse granted (enc_file version m is body) = Ok f
    \<and> gf_version f = version \<and> map_of (gf_metadata f) = map_of m
    \<and> (\<forall>i \<in> set is. map_of (gf_tensors f) (ti_name i) = Some i
        \<and> (unat (ti_offset i) + unat (ti_byte_len i) \<le> length body \<longrightarrow>
           tensor_data f (ti_name i) = Some (subslice body (unat (ti_offset i)) (unat (ti_byte_len i)))))"
proof (intro exI conjI ballI impI)
  show "parse granted (enc_file version m is body) = Ok \<lparr>gf_version = version,
      gf_metadata = rev m, gf_tensors = rev (map (\<lambda>i. (ti_name i, i)) is),
      gf_bytes = enc_file version m is body,
      gf_data_start = data_start (alignment_of m) (length (enc_header version m is))\<rparr>"
    by (rule parse_enc_file [OF assms])
next
  fix i assume "i \<in> set is"
  with assms(2) have i: "map_of (rev (map (\<lambda>i. (ti_name i, i)) is)) (ti_name i) = Some i"
    by (simp add: header_fits_def map_of_named)
  then show "map_of (gf_tensors \<lparr>gf_version = version, gf_metadata = rev m,
      gf_tensors = rev (map (\<lambda>i. (ti_name i, i)) is), gf_bytes = enc_file version m is body,
      gf_data_start = data_start (alignment_of m) (length (enc_header version m is))\<rparr>) (ti_name i) = Some i"
    by simp
  assume "unat (ti_offset i) + unat (ti_byte_len i) \<le> length body"
  moreover have "data_start (alignment_of m) (length (enc_header version m is)) + length body
      = length (enc_file version m is body)"
    using data_start_aligned(2) [OF alignment_pos, of "length (enc_header version m is)" m]
    by (simp add: enc_file_def Let_def)
  ultimately show "tensor_data \<lparr>gf_version = version, gf_metadata = rev m,
      gf_tensors = rev (map (\<lambda>i. (ti_name i, i)) is), gf_bytes = enc_file version m is body,
      gf_data_start = data_start (alignment_of m) (length (enc_header version m is))\<rparr> (ti_name i)
    = Some (subslice body (unat (ti_offset i)) (unat (ti_byte_len i)))"
    using assms(3) i by (simp add: tensor_data_def checked_add_def enc_file_body)
qed (use assms(2) in \<open>simp_all add: header_fits_def map_of_rev_distinct\<close>)

subsection \<open>Byte lengths\<close>

lemma product_u64_exact:
  assumes "prod_list (map unat ds) < 2 ^ 64"
  shows "unat (product_u64 ds) = prod_list (map unat ds)"
proof -
  have "foldl (*) a ds = a * of_nat (prod_list (map unat ds))" for a :: u64
    by (induction ds arbitrary: a) (simp_all add: ac_simps)
  then have "product_u64 ds = of_nat (prod_list (map unat ds))" by (simp add: product_u64_def)
  then show ?thesis using assms by (simp add: unat_of_nat)
qed

lemma checked_mul_u64_nat:
  assumes "c < 2 ^ 64"
  shows "checked_mul_u64 a (of_nat c) = map_option of_nat (checked_mul (unat a) c)"
proof -
  have "unat (of_nat c :: u64) = c" using assms by (simp add: unat_of_nat)
  moreover have "a * of_nat c = of_nat (unat a * c)" by simp
  ultimately show ?thesis
    by (auto simp: checked_mul_u64_def checked_mul_def usize_MAX_def)
qed

lemma unat_div_ceil_u64: "0 < b \<Longrightarrow> unat (div_ceil_u64 a b) = div_ceil (unat a) b"
  using div_ceil_le [of "unat a" b] unat_bound [of a]
  by (simp add: div_ceil_u64_def unat_of_nat)

text \<open>The byte length \<open>ggml_tensor_bytes\<close> records is the engine's own projection size
  (\<open>projection_weight_bytes_for\<close>) of the element count for the mapped dtype, and a dtype without
  a mapping is refused.\<close>

theorem gguf_byte_len_matches_engine:
  "ggml_tensor_bytes code shape = (case ggml_to_weight_dtype code of None \<Rightarrow> None
     | Some d \<Rightarrow> map_option of_nat (projection_weight_bytes_for (unat (product_u64 shape)) d))"
  using checked_mul_u64_nat [of 4] checked_mul_u64_nat [of 2] checked_mul_u64_nat [of 34]
  by (simp add: ggml_tensor_bytes_def ggml_to_weight_dtype_def Let_def ggml_codes
      unat_div_ceil_u64 block_consts checked_mul_u64_nat [of 18, simplified] checked_mul_u64_nat [of 144, simplified]
      checked_mul_u64_nat [of 176, simplified] checked_mul_u64_nat [of 210, simplified])

text \<open>The element count is multiplied without an overflow check: in a release build an
  F32 tensor of shape 2^32 x 2^32 gets byte length 0 instead of the error that the checked
  multiplication next to it gives.\<close>

theorem gguf_shape_wraps:
  "ggml_tensor_bytes ggml_F32 [2 ^ 32, 2 ^ 32] = Some 0"
  by (simp add: ggml_tensor_bytes_def ggml_codes product_u64_def checked_mul_u64_def)

subsection \<open>A concrete file\<close>

definition demo_metadata :: metadata where
  "demo_metadata = [(str_bytes ''general.architecture'', VString (str_bytes ''llama'')),
     (str_bytes ''sizes'', VArray [VU16 5, VU16 7])]"

definition demo_tensor :: tensor_info where
  "demo_tensor = \<lparr>ti_name = str_bytes ''w'', ti_shape = [2, 1], ti_dtype = ggml_F32,
     ti_offset = 4, ti_byte_len = 8\<rparr>"

definition demo_body :: "u8 list" where
  "demo_body = [0, 0, 0, 0, 1, 2, 3, 4, 5, 6, 7, 8]"

definition demo_file :: "u8 list" where
  "demo_file = enc_file 3 demo_metadata [demo_tensor] demo_body"

definition demo_parsed :: gguf_file where
  "demo_parsed = \<lparr>gf_version = 3,
      gf_metadata = rev demo_metadata, gf_tensors = [(ti_name demo_tensor, demo_tensor)],
      gf_bytes = demo_file,
      gf_data_start = data_start (alignment_of demo_metadata) (length (enc_header 3 demo_metadata [demo_tensor]))\<rparr>"

lemma ascii_is_utf8: "list_all (\<lambda>b. b < 128) bs \<Longrightarrow> is_utf8 bs"
  by (induction bs) (simp_all add: is_utf8.simps [of "_ # _"] utf8_step_def utf8_width_def)

lemma demo_ascii:
  "list_all (\<lambda>b. b < 128) (str_bytes ''general.architecture'')" "list_all (\<lambda>b. b < 128) (str_bytes ''llama'')"
  "list_all (\<lambda>b. b < 128) (str_bytes ''sizes'')" "list_all (\<lambda>b. b < 128) (str_bytes ''w'')"
  by code_simp+

lemma demo_fits: "header_fits 3 demo_metadata [demo_tensor]"
proof -
  have "ggml_tensor_bytes ggml_F32 [2, 1] = Some 8"
    by (simp add: ggml_tensor_bytes_def ggml_codes product_u64_def checked_mul_u64_def)
  moreover have "str_bytes ''general.architecture'' \<noteq> str_bytes ''sizes''" by code_simp
  ultimately show ?thesis
    using demo_ascii [THEN ascii_is_utf8]
    by (simp add: header_fits_def demo_metadata_def demo_tensor_def entry_fits_def tensor_fits_def
        count_fits_def str_bytes_def)
qed

lemma demo_len: "length (enc_file 3 demo_metadata [demo_tensor] demo_body) \<le> 300"
  by code_simp

lemma demo_file_len: "length demo_file \<le> 300"
  using demo_len by (simp add: demo_file_def)

lemma demo_parses: "parse (\<lambda>_ _. True) demo_file = Ok demo_parsed"
  using parse_enc_file [of "\<lambda>_ _. True" 3 demo_metadata "[demo_tensor]" demo_body] demo_fits demo_len
  by (simp add: usize_MAX_def demo_file_def demo_parsed_def)

lemma demo_tensor_data: "tensor_data demo_parsed (str_bytes ''w'') = Some [1, 2, 3, 4, 5, 6, 7, 8]"
proof -
  have "gf_data_start demo_parsed + 12 = length demo_file"
    using data_start_aligned(2) [OF alignment_pos, of "length (enc_header 3 demo_metadata [demo_tensor])" demo_metadata]
    by (simp add: demo_parsed_def demo_file_def enc_file_def Let_def demo_body_def)
  then have ds: "gf_data_start demo_parsed + 12 = length (gf_bytes demo_parsed)"
    by (simp add: demo_parsed_def)
  have "subslice (gf_bytes demo_parsed) (gf_data_start demo_parsed + 4) 8 = [1, 2, 3, 4, 5, 6, 7, 8]"
    using enc_file_body [of 3 demo_metadata "[demo_tensor]" demo_body 4 8]
    by (simp add: demo_parsed_def demo_file_def demo_body_def subslice_def)
  moreover have "map_of (gf_tensors demo_parsed) (str_bytes ''w'') = Some demo_tensor"
    by (simp add: demo_parsed_def demo_tensor_def)
  moreover have "gf_data_start demo_parsed \<le> 300" "length (gf_bytes demo_parsed) \<le> 300"
    using ds demo_file_len by (simp_all add: demo_parsed_def)
  ultimately show ?thesis
    using ds by (simp add: tensor_data_def demo_tensor_def checked_add_def usize_MAX_def)
qed

theorem gguf_parsed_well_typed_witness:
  "parse (\<lambda>_ _. True) demo_file = Ok demo_parsed
    \<and> metadata_ok (gf_metadata demo_parsed) \<and> tensors_ok (gf_tensors demo_parsed)"
  using gguf_parsed_well_typed [OF demo_parses] demo_parses by simp

theorem gguf_parse_roundtrip_witness:
  "\<exists>f. parse (\<lambda>_ _. True) (enc_file 3 demo_metadata [demo_tensor] demo_body) = Ok f
    \<and> map_of (gf_tensors f) (ti_name demo_tensor) = Some demo_tensor
    \<and> tensor_data f (ti_name demo_tensor) = Some [1, 2, 3, 4, 5, 6, 7, 8]"
proof -
  have "length (enc_file 3 demo_metadata [demo_tensor] demo_body) \<le> usize_MAX"
    using demo_len by (simp add: usize_MAX_def)
  moreover have "unat (ti_offset demo_tensor) + unat (ti_byte_len demo_tensor) \<le> length demo_body"
    "subslice demo_body (unat (ti_offset demo_tensor)) (unat (ti_byte_len demo_tensor)) = [1, 2, 3, 4, 5, 6, 7, 8]"
    by (simp_all add: demo_tensor_def demo_body_def subslice_def)
  ultimately show ?thesis
    using gguf_parse_roundtrip [of "\<lambda>_ _. True" 3 demo_metadata "[demo_tensor]" demo_body] demo_fits
    by auto
qed

end
