(* ===== verification/GgufStream.thy ===== *)
theory GgufStream
  imports GgufFormat
begin

section \<open>GGUF files: the streaming reader\<close>

text \<open>
  Model of \<open>GgufStreamReader\<close>: \<open>open\<close> reads the preamble, then pulls the file in chunks of at
  most 4 MiB and retries the eager parser on the accumulated prefix until it succeeds;
  \<open>read_tensor_data\<close> seeks and reads one tensor. A file is its content and the answers \<open>rd\<close> of
  the operating system: \<open>rd pos\<close> is an I/O error or a number of bytes a \<open>read\<close> at \<open>pos\<close> is
  willing to deliver (\<open>read_exact\<close> retries \<open>Interrupted\<close>, which is not such an answer).
\<close>

datatype stream_error =
    ParseFailed gguf_error
  | IoFailed error_kind
  | FillBuffer
  | FileEnded
  | HeaderTooLarge
  | OffsetOverflow
  | EndOverflow
  | PastEnd "u8 list" u64 u64 u64

fun stream_error_kind :: "stream_error \<Rightarrow> error_kind" where
  "stream_error_kind (ParseFailed e) = parse_error_kind e"
| "stream_error_kind (IoFailed k) = k"
| "stream_error_kind FillBuffer = UnexpectedEof"
| "stream_error_kind FileEnded = UnexpectedEof"
| "stream_error_kind HeaderTooLarge = InvalidData"
| "stream_error_kind OffsetOverflow = InvalidData"
| "stream_error_kind EndOverflow = InvalidData"
| "stream_error_kind (PastEnd name s e len) = InvalidData"

lemma subslice_Nil_iff: "subslice xs a n = [] \<longleftrightarrow> n = 0 \<or> length xs \<le> a"
  by (auto simp: subslice_def)

lemma subslice_exact: "subslice xs a (length (subslice xs a n)) = subslice xs a n"
  by (simp add: subslice_def min_def)

type_synonym os_answers = "usize \<Rightarrow> error_kind + usize"

definition os_read :: "os_answers \<Rightarrow> u8 list \<Rightarrow> usize \<Rightarrow> usize \<Rightarrow> (stream_error, u8 list) io_result" where
  "os_read rd content pos len = (case rd pos of Inl k \<Rightarrow> Err (IoFailed k)
     | Inr n \<Rightarrow> Ok (subslice content pos (min n len)))"

function read_exact ::
  "os_answers \<Rightarrow> u8 list \<Rightarrow> usize \<Rightarrow> usize \<Rightarrow> (stream_error, u8 list) io_result" where
  "read_exact rd content pos len = (if len = 0 then Ok [] else
     io_bind (os_read rd content pos len) (\<lambda>b.
     if b = [] then Err FillBuffer else
     io_bind (read_exact rd content (pos + length b) (len - length b)) (\<lambda>c. Ok (b @ c))))"
  by pat_completeness auto
termination
  by (relation "measure (\<lambda>(rd, content, pos, len). len)") auto

declare read_exact.simps [simp del]

definition HEADER_CHUNK :: usize where "HEADER_CHUNK = 4 * 1024 * 1024"
definition HEADER_LIMIT :: usize where "HEADER_LIMIT = 10 * 1024 * 1024 * 1024"

record parsed_header =
  ph_version :: u32
  ph_metadata :: metadata
  ph_tensors :: tensor_table
  ph_data_start :: u64

record stream_reader =
  sr_version :: u32
  sr_metadata :: metadata
  sr_tensors :: tensor_table
  sr_content :: "u8 list"
  sr_data_start :: u64
  sr_file_len :: u64

definition read_count_bytes :: "u8 list \<Rightarrow> u32 \<Rightarrow> u64" where
  "read_count_bytes bytes version =
     (if version = 1 then ucast (u32_from_le_bytes (take 4 bytes)) else u64_from_le_bytes (take 8 bytes))"

definition try_parse_header ::
  "(reservation \<Rightarrow> usize \<Rightarrow> bool) \<Rightarrow> u8 list \<Rightarrow> u32 \<Rightarrow> u64 \<Rightarrow> u64 \<Rightarrow> u64
    \<Rightarrow> (stream_error, parsed_header option) io_result" where
  "try_parse_header granted bytes version tensor_count kv_count preamble_len =
     (case parse granted bytes of Panic \<Rightarrow> Panic
      | Return (Inr p) \<Rightarrow> Ok (Some \<lparr>ph_version = gf_version p, ph_metadata = gf_metadata p,
          ph_tensors = gf_tensors p, ph_data_start = of_nat (gf_data_start p)\<rparr>)
      | Return (Inl e) \<Rightarrow> if parse_error_kind e = UnexpectedEof then Ok None else Err (ParseFailed e))"

function header_loop ::
  "(reservation \<Rightarrow> usize \<Rightarrow> bool) \<Rightarrow> os_answers \<Rightarrow> u8 list \<Rightarrow> u32 \<Rightarrow> u64 \<Rightarrow> u64 \<Rightarrow> u64
    \<Rightarrow> usize \<Rightarrow> u8 list \<Rightarrow> (stream_error, stream_reader) io_result" where
  "header_loop granted rd content version tensor_count kv_count preamble_len pos hdr_bytes =
     io_bind (os_read rd content pos HEADER_CHUNK) (\<lambda>chunk.
     if chunk = [] then Err FileEnded else
     io_bind (try_parse_header granted (hdr_bytes @ chunk) version tensor_count kv_count preamble_len) (\<lambda>r.
     case r of
       Some parsed \<Rightarrow> Ok \<lparr>sr_version = ph_version parsed, sr_metadata = ph_metadata parsed,
         sr_tensors = ph_tensors parsed, sr_content = content,
         sr_data_start = ph_data_start parsed, sr_file_len = of_nat (length content)\<rparr>
     | None \<Rightarrow> if HEADER_LIMIT < length (hdr_bytes @ chunk) then Err HeaderTooLarge
         else header_loop granted rd content version tensor_count kv_count preamble_len
           (pos + length chunk) (hdr_bytes @ chunk)))"
  by pat_completeness auto
termination
  by (relation "measure (\<lambda>(granted, rd, content, version, tc, kc, pl, pos, hb). length content - pos)")
    (auto simp: os_read_def subslice_Nil_iff split: sum.splits)

declare header_loop.simps [simp del]

definition stream_open ::
  "(reservation \<Rightarrow> usize \<Rightarrow> bool) \<Rightarrow> os_answers \<Rightarrow> u8 list \<Rightarrow> (stream_error, stream_reader) io_result" where
  "stream_open granted rd content =
     io_bind (read_exact rd content 0 4) (\<lambda>magic.
     if magic \<noteq> GGUF_MAGIC then Err (ParseFailed (BadMagic magic)) else
     io_bind (read_exact rd content 4 4) (\<lambda>v.
     let version = u32_from_le_bytes v in
     if version = 0 \<or> 3 < version then Err (ParseFailed (BadVersion version)) else
     let count_bytes = (if version = 1 then 4 else 8) in
     io_bind (read_exact rd content 8 (count_bytes + count_bytes)) (\<lambda>count_buf.
     header_loop granted rd content version
       (read_count_bytes (take count_bytes count_buf) version)
       (read_count_bytes (drop count_bytes count_buf) version)
       (of_nat (4 + 4 + count_bytes + count_bytes))
       (8 + (count_bytes + count_bytes)) (magic @ v @ count_buf))))"

definition read_tensor_data ::
  "(reservation \<Rightarrow> usize \<Rightarrow> bool) \<Rightarrow> os_answers \<Rightarrow> stream_reader \<Rightarrow> u8 list
    \<Rightarrow> (stream_error, u8 list option) io_result" where
  "read_tensor_data granted rd r name = (case map_of (sr_tensors r) name of None \<Rightarrow> Ok None
     | Some info \<Rightarrow> (case checked_add_u64 (sr_data_start r) (ti_offset info) of None \<Rightarrow> Err OffsetOverflow
     | Some start \<Rightarrow> (case checked_add_u64 start (ti_byte_len info) of None \<Rightarrow> Err EndOverflow
     | Some e \<Rightarrow> if sr_file_len r < e then Err (PastEnd name start e (sr_file_len r))
         else if \<not> granted TensorBody (unat (ti_byte_len info)) then Panic
         else io_bind (read_exact rd (sr_content r) (unat start) (unat (ti_byte_len info)))
           (\<lambda>out. Ok (Some out)))))"

definition stream_tensor_info :: "stream_reader \<Rightarrow> u8 list \<Rightarrow> tensor_info option" where
  "stream_tensor_info r name = map_of (sr_tensors r) name"

definition stream_tensor_dtype :: "stream_reader \<Rightarrow> u8 list \<Rightarrow> weight_dtype option" where
  "stream_tensor_dtype r name = (case map_of (sr_tensors r) name of None \<Rightarrow> None
     | Some info \<Rightarrow> ggml_to_weight_dtype (ti_dtype info))"

definition stream_architecture :: "stream_reader \<Rightarrow> u8 list option" where
  "stream_architecture r = metadata_architecture (sr_metadata r)"

subsection \<open>Streaming agrees with eager parsing\<close>

text \<open>A file system that delivers at least one byte to a \<open>read\<close> before the end of the file.\<close>

definition delivers :: "os_answers \<Rightarrow> bool" where
  "delivers rd \<longleftrightarrow> (\<forall>pos. \<exists>n>0. rd pos = Inr n)"

lemma os_read_delivers:
  assumes "delivers rd" "0 < len"
  obtains n where "os_read rd content pos len = Ok (subslice content pos n)" "0 < n" "n \<le> len"
proof -
  obtain n where "rd pos = Inr n" "0 < n" using assms(1) by (auto simp: delivers_def)
  with assms(2) show ?thesis by (intro that [of "min n len"]) (simp_all add: os_read_def)
qed

lemma read_exact_eq:
  assumes "delivers rd"
  shows "read_exact rd content pos len =
    (if len = 0 \<or> pos + len \<le> length content then Ok (subslice content pos len) else Err FillBuffer)"
proof (induction len arbitrary: pos rule: less_induct)
  case (less len)
  show ?case
  proof (cases "len = 0")
    case False
    then obtain n where n: "os_read rd content pos len = Ok (subslice content pos n)" "0 < n" "n \<le> len"
      using os_read_delivers [OF assms] by blast
    show ?thesis
    proof (cases "pos < length content")
      case True
      let ?m = "length (subslice content pos n)"
      have m: "0 < ?m" "?m \<le> len" "?m = min n (length content - pos)" using n True by simp_all
      have ne: "subslice content pos n \<noteq> []" using n True by (simp add: subslice_Nil_iff)
      have sl: "subslice content pos n = subslice content pos ?m" by (rule subslice_exact [symmetric])
      have IH: "read_exact rd content (pos + ?m) (len - ?m) =
        (if len - ?m = 0 \<or> pos + ?m + (len - ?m) \<le> length content
         then Ok (subslice content (pos + ?m) (len - ?m)) else Err FillBuffer)"
        using less [of "len - ?m" "pos + ?m"] m False by simp
      have split: "subslice content pos len = subslice content pos ?m @ subslice content (pos + ?m) (len - ?m)"
        using slice_split [of content pos ?m "len - ?m"] m(2) by simp
      have step: "read_exact rd content pos len =
        io_bind (read_exact rd content (pos + ?m) (len - ?m)) (\<lambda>c. Ok (subslice content pos n @ c))"
        using False ne n(1) by (subst read_exact.simps) simp
      show ?thesis
        unfolding step IH using m False by (auto simp: split [unfolded sl [symmetric]])
    next
      case past: False
      with False n(1) show ?thesis by (subst read_exact.simps) (simp add: subslice_def)
    qed
  qed (simp add: read_exact.simps subslice_def)
qed

definition stream_eof :: "(stream_error, 'a) io_result \<Rightarrow> bool" where
  "stream_eof r \<longleftrightarrow> (\<exists>e. r = Err e \<and> stream_error_kind e = UnexpectedEof)"

definition stream_view :: "u8 list \<Rightarrow> gguf_file \<Rightarrow> stream_reader" where
  "stream_view content f = \<lparr>sr_version = gf_version f, sr_metadata = gf_metadata f,
     sr_tensors = gf_tensors f, sr_content = content,
     sr_data_start = of_nat (gf_data_start f), sr_file_len = of_nat (length content)\<rparr>"

definition stream_agrees ::
  "u8 list \<Rightarrow> (gguf_error, gguf_file) io_result \<Rightarrow> (stream_error, stream_reader) io_result \<Rightarrow> bool" where
  "stream_agrees content eager streamed = (case eager of
       Panic \<Rightarrow> streamed = Panic \<or> (length content \<le> 24 \<and> stream_eof streamed)
     | Return (Inr f) \<Rightarrow> streamed = Ok (stream_view content f)
     | Return (Inl e) \<Rightarrow> if parse_error_kind e = UnexpectedEof then stream_eof streamed
         else streamed = Err (ParseFailed e))"

lemma parse_prefix_settled:
  "\<not> is_eof (parse granted (take k content)) \<Longrightarrow>
    header_of (parse granted content) = header_of (parse granted (take k content))"
  using parse_prefix_stable [of granted "take k content" "drop k content"] by simp

lemma stream_agrees_header:
  assumes "header_of eager = header_of (parse granted hb)" "\<not> is_eof (parse granted hb)"
  shows "stream_agrees content eager
    (io_bind (try_parse_header granted hb version tc kc pl) (\<lambda>r. case r of
       Some parsed \<Rightarrow> Ok \<lparr>sr_version = ph_version parsed, sr_metadata = ph_metadata parsed,
         sr_tensors = ph_tensors parsed, sr_content = content,
         sr_data_start = ph_data_start parsed, sr_file_len = of_nat (length content)\<rparr>
     | None \<Rightarrow> other))"
proof (cases eager rule: io_result_cases)
  case panic
  then have "parse granted hb = Panic"
    using assms(1) by (cases "parse granted hb" rule: io_result_cases) (simp_all add: header_of_def)
  with panic show ?thesis by (simp add: stream_agrees_def try_parse_header_def)
next
  case (err e)
  then have e: "parse granted hb = Err e"
    using assms(1) by (cases "parse granted hb" rule: io_result_cases) (simp_all add: header_of_def)
  with assms(2) err show ?thesis
    by (simp add: stream_agrees_def try_parse_header_def is_eof_def)
next
  case (ok f)
  then obtain g where "parse granted hb = Ok g" "f\<lparr>gf_bytes := []\<rparr> = g\<lparr>gf_bytes := []\<rparr>"
    using assms(1) by (cases "parse granted hb" rule: io_result_cases) (simp_all add: header_of_def)
  with ok show ?thesis
    by (cases f; cases g) (simp add: stream_agrees_def try_parse_header_def stream_view_def)
qed

lemma stream_agrees_eof:
  "is_eof eager \<Longrightarrow> stream_eof streamed \<Longrightarrow> stream_agrees content eager streamed"
  by (auto simp: stream_agrees_def is_eof_def)

lemma is_eof_parse_prefix:
  "is_eof (parse granted (take k content)) \<Longrightarrow> j \<le> k \<Longrightarrow> is_eof (parse granted (take j content))"
  using parse_prefix_settled [of granted j "take k content"]
  by (cases "is_eof (parse granted (take j content))")
    (auto simp: min_absorb1 is_eof_def header_of_def io_bind_def split: outcome.splits sum.splits)

lemma header_loop_agrees:
  assumes "delivers rd"
    and "length content \<le> HEADER_LIMIT \<or> \<not> is_eof (parse granted (take HEADER_LIMIT content))"
    and "pos \<le> length content" "pos < length content \<or> is_eof (parse granted content)"
  shows "stream_agrees content (parse granted content)
    (header_loop granted rd content version tc kc pl pos (take pos content))"
  using assms(3,4)
proof (induction "length content - pos" arbitrary: pos rule: less_induct)
  case less
  obtain n where n: "os_read rd content pos HEADER_CHUNK = Ok (subslice content pos n)" "0 < n"
    by (rule os_read_delivers [OF assms(1), of HEADER_CHUNK content pos]) (auto simp: HEADER_CHUNK_def)
  show ?case
  proof (cases "pos = length content")
    case True
    with n less.prems show ?thesis
      by (subst header_loop.simps) (auto simp: subslice_def stream_eof_def intro: stream_agrees_eof)
  next
    case False
    let ?chunk = "subslice content pos n" and ?k = "pos + length (subslice content pos n)"
    have len: "0 < length ?chunk" "?k \<le> length content" using False less.prems(1) n(2) by auto
    have ne: "?chunk \<noteq> []" using n False less.prems(1) by (simp add: subslice_Nil_iff)
    have hb: "take pos content @ ?chunk = take ?k content"
      using subslice_exact [of content pos n] by (simp add: take_add subslice_def)
    show ?thesis
    proof (cases "is_eof (parse granted (take ?k content))")
      case True
      have small: "?k \<le> HEADER_LIMIT"
      proof (rule ccontr)
        assume "\<not> ?k \<le> HEADER_LIMIT"
        with len(2) assms(2) is_eof_parse_prefix [OF True, of HEADER_LIMIT] show False by auto
      qed
      have IH: "stream_agrees content (parse granted content)
        (header_loop granted rd content version tc kc pl ?k (take ?k content))"
      proof (rule less.hyps)
        show "?k < length content \<or> is_eof (parse granted content)"
          using True take_all [of content ?k] len(2) by (metis le_neq_implies_less order.refl)
      qed (use len False less.prems in auto)
      from True have "try_parse_header granted (take ?k content) version tc kc pl = Ok None"
        by (auto simp: try_parse_header_def is_eof_def)
      with IH small len(2) ne n(1) show ?thesis
        by (subst header_loop.simps) (simp add: hb)
    next
      case nf: False
      from ne n(1) stream_agrees_header [OF parse_prefix_settled [OF nf] nf] show ?thesis
        by (subst header_loop.simps) (simp add: hb)
    qed
  qed
qed

lemma read_u32_eq:
  "read_u32 buf pos = (if pos + 4 \<le> min usize_MAX (length buf)
     then Ok (u32_from_le_bytes (subslice buf pos 4), pos + 4) else Err EofBuffer)"
  by (simp add: read_u32_def pbind_def read_bytes_eq ret_def)

lemma preamble_reader:
  assumes "4 \<le> length content" "length content \<le> usize_MAX"
  shows "pbind (read_bytes 4) (\<lambda>magic. if magic \<noteq> GGUF_MAGIC then fail (BadMagic magic) else
      pbind read_u32 (\<lambda>version. if version = 0 \<or> 3 < version then fail (BadVersion version)
        else f version)) content 0 =
    (let magic = subslice content 0 4; version = u32_from_le_bytes (subslice content 4 4) in
     if magic \<noteq> GGUF_MAGIC then Err (BadMagic magic)
     else if length content < 8 then Err EofBuffer
     else if version = 0 \<or> 3 < version then Err (BadVersion version)
     else f version content 8)"
  using assms by (auto simp: pbind_def read_bytes_eq read_u32_eq fail_def Let_def)

lemma read_count_eof:
  assumes "length content < pos + (if version = 1 then 4 else 8)"
  shows "read_count version content pos = Err EofBuffer"
  using assms by (simp add: read_count_def read_u32_def read_u64_def pbind_def read_bytes_eq split: if_splits)

lemma read_count_at:
  assumes "pos + (if version = 1 then 4 else 8) \<le> length content" "length content \<le> usize_MAX"
  shows "\<exists>c. read_count version content pos = Ok (c, pos + (if version = 1 then 4 else 8))"
  using assms by (simp add: read_count_def read_u32_def read_u64_def pbind_def read_bytes_eq ret_def split: if_splits)

lemma read_counts_eof:
  assumes "length content < 8 + 2 * (if version = 1 then 4 else 8)" "length content \<le> usize_MAX"
  shows "pbind (read_count version) (\<lambda>tc. pbind (read_count version) (f tc)) content 8 = Err EofBuffer"
proof (cases "length content < 8 + (if version = 1 then 4 else 8)")
  case False
  then obtain c where "read_count version content 8 = Ok (c, 8 + (if version = 1 then 4 else 8))"
    using read_count_at [of 8 version content] assms(2) by (auto simp: not_less)
  with assms(1) read_count_eof [of content "8 + (if version = 1 then 4 else 8)" version] show ?thesis
    by (simp add: pbind_def)
qed (simp add: pbind_def read_count_eof)

lemma read_string_at_end: "length content \<le> pos \<Longrightarrow> read_string v content pos = Err EofBuffer"
  by (simp add: read_string_def pbind_def read_count_eof)

lemma tables_at_end:
  "read_metadata granted v n m content (length content) = (if n = 0 then Ok (m, length content) else Err EofBuffer)"
  "read_tensors granted v n ts content (length content) = (if n = 0 then Ok (ts, length content) else Err EofBuffer)"
  by (cases n; simp add: ret_def pbind_def read_string_at_end read_tensor_entry_def)+

lemma counts_only_file:
  assumes "4 \<le> length content" "length content \<le> usize_MAX" "subslice content 0 4 = GGUF_MAGIC"
    "version = u32_from_le_bytes (subslice content 4 4)" "\<not> (version = 0 \<or> 3 < version)"
    "w = (if version = 1 then 4 else 8)" "length content = 8 + (w + w)"
  shows "parse granted content = Panic \<or> is_eof (parse granted content)"
proof -
  obtain tc where tc: "read_count version content 8 = Ok (tc, 8 + w)"
    using read_count_at [of 8 version content] assms by (auto split: if_splits)
  obtain kc where kc: "read_count version content (8 + w) = Ok (kc, length content)"
    using read_count_at [of "8 + w" version content] assms by (auto split: if_splits)
  have "length content < data_start (alignment_of []) (length content)" "\<not> length content < 8"
    using assms(6,7) by (auto simp: data_start_def alignment_of_def)
  then show ?thesis
    using assms(3,5)
    by (simp add: parse_def parse_tables_def preamble_reader [OF assms(1,2)] Let_def assms(4) [symmetric]
        pbind_def [of "read_count _"] pbind_def [of "reserve _ _ _"] pbind_def [of "read_metadata _ _ _ _"]
        pbind_def [of "read_tensors _ _ _ _"] tc kc reserve_def tables_at_end is_eof_def ret_def)
qed

lemma header_loop_at_end:
  assumes "delivers rd"
  shows "header_loop granted rd content version tc kc pl (length content) hb = Err FileEnded"
proof -
  obtain n where "os_read rd content (length content) HEADER_CHUNK = Ok (subslice content (length content) n)"
    by (rule os_read_delivers [OF assms, of HEADER_CHUNK content "length content"]) (auto simp: HEADER_CHUNK_def)
  then show ?thesis by (subst header_loop.simps) (simp add: subslice_def)
qed

lemma header_loop_from_preamble:
  assumes "delivers rd"
    and "length content \<le> HEADER_LIMIT \<or> \<not> is_eof (parse granted (take HEADER_LIMIT content))"
    and "length content = k \<Longrightarrow> parse granted content = Panic \<or> is_eof (parse granted content)"
    and "k \<le> length content" "k \<le> 24"
  shows "stream_agrees content (parse granted content)
    (header_loop granted rd content version tc kc pl k (take k content))"
proof (cases "k < length content \<or> is_eof (parse granted content)")
  case True
  then show ?thesis by (rule header_loop_agrees [OF assms(1,2,4)])
next
  case False
  with assms(3,4) have "k = length content" "parse granted content = Panic" by auto
  with header_loop_at_end [OF assms(1)] assms(5) show ?thesis
    by (simp add: stream_agrees_def stream_eof_def)
qed

lemma stream_open_agrees:
  assumes "delivers rd" "length content \<le> usize_MAX"
    and "length content \<le> HEADER_LIMIT \<or> \<not> is_eof (parse granted (take HEADER_LIMIT content))"
  shows "stream_agrees content (parse granted content) (stream_open granted rd content)"
proof -
  let ?magic = "subslice content 0 4" and ?version = "u32_from_le_bytes (subslice content 4 4)"
  let ?w = "if ?version = 1 then 4 else 8 :: nat"
  note opn = stream_open_def Let_def read_exact_eq [OF assms(1)]
  consider (short) "length content < 4" | (magic) "4 \<le> length content" "?magic \<noteq> GGUF_MAGIC"
    | (short8) "4 \<le> length content" "length content < 8" "?magic = GGUF_MAGIC"
    | (version) "8 \<le> length content" "?magic = GGUF_MAGIC" "?version = 0 \<or> 3 < ?version"
    | (counts) "8 \<le> length content" "?magic = GGUF_MAGIC" "\<not> (?version = 0 \<or> 3 < ?version)"
        "length content < 8 + 2 * ?w"
    | (loop) "?magic = GGUF_MAGIC" "\<not> (?version = 0 \<or> 3 < ?version)" "8 + 2 * ?w \<le> length content"
    by linarith
  then show ?thesis
  proof cases
    case short
    then have "parse granted content = Err EofBuffer"
      by (simp add: parse_def parse_tables_def pbind_def read_bytes_eq)
    with short show ?thesis by (simp add: opn stream_agrees_def stream_eof_def)
  next
    case magic
    then show ?thesis
      by (simp add: opn parse_def parse_tables_def preamble_reader [OF _ assms(2)] stream_agrees_def)
  next
    case short8
    then show ?thesis
      by (simp add: opn parse_def parse_tables_def preamble_reader [OF _ assms(2)] stream_agrees_def stream_eof_def)
  next
    case version
    then show ?thesis
      by (auto simp: opn parse_def parse_tables_def preamble_reader [OF _ assms(2)] stream_agrees_def)
  next
    case counts
    then have "parse granted content = Err EofBuffer"
      by (simp add: parse_def parse_tables_def preamble_reader [OF _ assms(2)] Let_def
          read_counts_eof [OF counts(4) assms(2)])
    moreover have "stream_open granted rd content = Err FillBuffer"
      using counts by (simp add: opn)
    ultimately show ?thesis by (simp add: stream_agrees_def stream_eof_def)
  next
    case loop
    let ?k = "8 + (?w + ?w)"
    have pre: "?magic @ subslice content 4 4 @ subslice content 8 (?w + ?w) = take ?k content"
      using loop(3) slice_split [of content 0 4 4] slice_split [of content 0 8 "?w + ?w"]
      by (simp add: subslice_def)
    have "\<exists>tc kc pl. stream_open granted rd content =
        header_loop granted rd content ?version tc kc pl ?k (take ?k content)"
      using loop pre by (simp add: opn) blast
    then obtain tc kc pl where s: "stream_open granted rd content =
        header_loop granted rd content ?version tc kc pl ?k (take ?k content)" by blast
    have "length content = ?k \<Longrightarrow> parse granted content = Panic \<or> is_eof (parse granted content)"
      using counts_only_file [OF _ assms(2) loop(1) HOL.refl loop(2) HOL.refl, of granted] by simp
    moreover have "?k \<le> length content" "?k \<le> 24" using loop(3) by auto
    ultimately show ?thesis
      unfolding s by (intro header_loop_from_preamble [OF assms(1,3)])
  qed
qed

text \<open>C9: opening a file by streaming gives what parsing the whole file gives, however the
  reads are chunked: the same header on success, the same error, an end-of-file error for an
  end-of-file error, and a panic for a panic except when the file ends right after its counts.
  The file has at most 10 GiB or its header parses from the first 10 GiB.\<close>

theorem gguf_stream_equals_eager:
  assumes "delivers rd" "length content \<le> usize_MAX"
    and "length content \<le> HEADER_LIMIT \<or> \<not> is_eof (parse granted (take HEADER_LIMIT content))"
  shows "stream_agrees content (parse granted content) (stream_open granted rd content)"
  using assms by (rule stream_open_agrees)

subsection \<open>Tensor bodies\<close>

lemma checked_add_u64_of_nat:
  assumes "a \<le> usize_MAX"
  shows "checked_add_u64 (of_nat a) b = map_option of_nat (checked_add a (unat b))"
proof -
  have "unat (of_nat a :: u64) = a" using assms by (simp add: unat_of_nat usize_MAX_def)
  moreover have "of_nat a + b = of_nat (a + unat b)" by simp
  ultimately show ?thesis by (auto simp: checked_add_u64_def checked_add_def usize_MAX_def)
qed

lemma of_nat_le_u64: "a \<le> usize_MAX \<Longrightarrow> b \<le> usize_MAX \<Longrightarrow> (of_nat a < (of_nat b :: u64)) \<longleftrightarrow> a < b"
  by (simp add: word_less_nat_alt unat_of_nat usize_MAX_def)

text \<open>The eager and the streaming reader return the same tensor bytes, and exactly
  \<open>byte_len\<close> of them. Where the eager reader answers \<open>None\<close>, the streaming one answers \<open>None\<close>
  for an absent name and an invalid-data error for a range outside the file.\<close>

theorem gguf_reads_agree:
  assumes "parse granted content = Ok f" "delivers rd" "length content \<le> usize_MAX"
  shows "case tensor_data f name of
      Some bs \<Rightarrow> (\<exists>info. map_of (gf_tensors f) name = Some info \<and> length bs = unat (ti_byte_len info))
        \<and> read_tensor_data granted rd (stream_view content f) name =
            (if granted TensorBody (length bs) then Ok (Some bs) else Panic)
    | None \<Rightarrow> if has_tensor f name
        then \<exists>e. read_tensor_data granted rd (stream_view content f) name = Err e
          \<and> stream_error_kind e = InvalidData
        else read_tensor_data granted rd (stream_view content f) name = Ok None"
proof (cases "map_of (gf_tensors f) name")
  case None
  then show ?thesis by (simp add: tensor_data_def has_tensor_def read_tensor_data_def stream_view_def)
next
  case (Some info)
  have ds: "gf_data_start f \<le> length content" "gf_bytes f = content"
    using assms(1) by (auto simp: parse_def io_iff Let_def split: if_splits)
  let ?s = "gf_data_start f + unat (ti_offset info)"
  let ?e = "?s + unat (ti_byte_len info)"
  have ds': "gf_data_start f \<le> usize_MAX" using ds(1) assms(3) by simp
  consider "usize_MAX < ?s" | "?s \<le> usize_MAX" "usize_MAX < ?e"
    | "?s \<le> usize_MAX" "?e \<le> usize_MAX" "length content < ?e"
    | "?s \<le> usize_MAX" "?e \<le> usize_MAX" "?e \<le> length content" by linarith
  then show ?thesis
  proof cases
    case 4
    then have "unat (of_nat ?s :: u64) = ?s" by (simp add: unat_of_nat usize_MAX_def del: of_nat_add)
    with 4 Some ds ds' assms(3) show ?thesis
      by (simp add: tensor_data_def read_tensor_data_def stream_view_def checked_add_u64_of_nat
          checked_add_def of_nat_le_u64 read_exact_eq [OF assms(2)] del: of_nat_add)
  qed (use Some ds ds' assms(3) in
    \<open>simp_all add: tensor_data_def read_tensor_data_def stream_view_def checked_add_u64_of_nat
       checked_add_def of_nat_le_u64 has_tensor_def del: of_nat_add\<close>)
qed

text \<open>The metadata table is reserved from the count in the header before any entry is
  read: a 24-byte file whose count the allocator refuses makes \<open>parse\<close> panic instead of
  returning an error.\<close>

theorem gguf_count_panics:
  assumes "\<not> granted MetadataTable (unat kv_count)" "length rest < 2 ^ 63"
  shows "parse granted (GGUF_MAGIC @ u32_to_le_bytes 3 @ u64_to_le_bytes tensor_count
    @ u64_to_le_bytes kv_count @ rest) = Panic"
proof -
  let ?pre = "GGUF_MAGIC @ u32_to_le_bytes 3 @ u64_to_le_bytes tensor_count"
  define buf where "buf = GGUF_MAGIC @ u32_to_le_bytes 3 @ u64_to_le_bytes tensor_count
    @ u64_to_le_bytes kv_count @ rest"
  have len: "length buf = 24 + length rest" by (simp add: buf_def GGUF_MAGIC_def)
  have b: "length buf \<le> usize_MAX" "4 \<le> length buf" using assms(2) by (simp_all add: len usize_MAX_def)
  have sl: "subslice buf 0 4 = GGUF_MAGIC" "subslice buf 4 4 = u32_to_le_bytes 3"
    by (simp_all add: buf_def subslice_def GGUF_MAGIC_def)
  have tc: "read_count 3 buf 8 = Ok (tensor_count, 16)"
    using reads_count [of 3 tensor_count, unfolded reads_def, rule_format,
        of "GGUF_MAGIC @ u32_to_le_bytes 3" "u64_to_le_bytes kv_count @ rest"] b(1) unat_bound [of tensor_count]
    by (simp add: buf_def enc_count_def count_fits_def GGUF_MAGIC_def)
  have kc: "read_count 3 buf 16 = Ok (kv_count, 24)"
    using reads_count [of 3 kv_count, unfolded reads_def, rule_format, of ?pre rest] b(1) unat_bound [of kv_count]
    by (simp add: buf_def enc_count_def count_fits_def GGUF_MAGIC_def)
  have "parse granted buf = Panic"
    by (simp add: parse_def parse_tables_def preamble_reader [OF b(2,1)] Let_def sl len
        pbind_def [of "read_count _"] pbind_def [of "reserve _ _ _"] tc kc reserve_def assms(1))
  then show ?thesis by (simp add: buf_def)
qed

subsection \<open>The concrete file, streamed\<close>

lemma demo_delivers: "delivers (\<lambda>_. Inr 7)"
  by (simp add: delivers_def)

lemma demo_limits: "length demo_file \<le> usize_MAX" "length demo_file \<le> HEADER_LIMIT"
  using demo_file_len by (simp_all add: usize_MAX_def HEADER_LIMIT_def)

lemma demo_streams:
  "stream_open (\<lambda>_ _. True) (\<lambda>_. Inr 7) demo_file = Ok (stream_view demo_file demo_parsed)"
  using stream_open_agrees [OF demo_delivers demo_limits(1) disjI1 [OF demo_limits(2)], of "\<lambda>_ _. True"]
  unfolding demo_parses by (simp add: stream_agrees_def)

theorem gguf_stream_equals_eager_witness:
  "stream_agrees demo_file (Ok demo_parsed) (stream_open (\<lambda>_ _. True) (\<lambda>_. Inr 7) demo_file)"
  using gguf_stream_equals_eager [OF demo_delivers demo_limits(1) disjI1 [OF demo_limits(2)], of "\<lambda>_ _. True"]
  by (simp add: demo_parses)

theorem gguf_reads_agree_witness:
  "parse (\<lambda>_ _. True) demo_file = Ok demo_parsed
    \<and> read_tensor_data (\<lambda>_ _. True) (\<lambda>_. Inr 7) (stream_view demo_file demo_parsed) (str_bytes ''w'')
      = Ok (Some [1, 2, 3, 4, 5, 6, 7, 8])"
  using gguf_reads_agree [OF demo_parses demo_delivers, of "str_bytes ''w''"] demo_file_len
  by (simp add: demo_parses demo_tensor_data usize_MAX_def)

theorem gguf_count_panics_witness:
  "parse (\<lambda>k n. n < 2 ^ 63) (GGUF_MAGIC @ u32_to_le_bytes 3 @ u64_to_le_bytes 0
    @ u64_to_le_bytes 9223372036854775808) = Panic"
  using gguf_count_panics [of "\<lambda>k n. n < 2 ^ 63" 9223372036854775808 "[]" 0]
  by simp

end
