(* ===== verification/GgufShards.thy ===== *)
theory GgufShards
  imports GgufStream
begin

section \<open>GGUF files: shard sets and the common source\<close>

text \<open>
  Model of the shard-set half of \<open>gguf.rs\<close>: the file-name convention
  \<open>prefix-00001-of-00005.gguf\<close>, the validation of the shards against each other, the unified
  tensor table of \<open>GgufShardSet\<close> and the \<open>GgufSource\<close> trait. A path is its parent and its file
  name (\<open>None\<close> when it has none or it is not UTF-8); the file system is a function from paths
  to files. A \<open>HashMap\<close> is iterated in the order of its list, which is arbitrary.
\<close>

datatype shard_error =
    NotShardName
  | IndexTooLarge "u8 list"
  | CountTooLarge "u8 list"
  | BadNumbering usize usize
  | MissingShard usize usize
  | ShardFailed usize stream_error
  | EmptySet
  | MissingArchitecture
  | VersionMismatch usize u32 u32
  | ArchitectureMismatch usize "u8 list" "u8 list"
  | SplitNoMismatch usize u64 u64
  | SplitCountMismatch usize u64 usize
  | NotInteger usize "u8 list"
  | NotString usize "u8 list"
  | SplitTensorsDisagree usize u64 u64
  | DuplicateTensor "u8 list" usize usize
  | TensorCountMismatch u64 u64
  | SourceFailed stream_error

fun shard_error_kind :: "shard_error \<Rightarrow> error_kind" where
  "shard_error_kind NotShardName = InvalidInput"
| "shard_error_kind (IndexTooLarge s) = InvalidInput"
| "shard_error_kind (CountTooLarge s) = InvalidInput"
| "shard_error_kind (BadNumbering i n) = InvalidInput"
| "shard_error_kind (MissingShard i n) = NotFound"
| "shard_error_kind (ShardFailed i e) = stream_error_kind e"
| "shard_error_kind (SourceFailed e) = stream_error_kind e"
| "shard_error_kind _ = InvalidData"

subsection \<open>File names\<close>

fun rsplit_once :: "u8 list \<Rightarrow> u8 list \<Rightarrow> (u8 list \<times> u8 list) option" where
  "rsplit_once pat [] = (if pat = [] then Some ([], []) else None)"
| "rsplit_once pat (x # xs) = (case rsplit_once pat xs of
       Some (a, b) \<Rightarrow> Some (x # a, b)
     | None \<Rightarrow> if take (length pat) (x # xs) = pat then Some ([], drop (length pat) (x # xs)) else None)"

definition strip_suffix :: "u8 list \<Rightarrow> u8 list \<Rightarrow> u8 list option" where
  "strip_suffix suf s = (if length suf \<le> length s \<and> drop (length s - length suf) s = suf
     then Some (take (length s - length suf) s) else None)"

definition is_ascii_digit :: "u8 \<Rightarrow> bool" where
  "is_ascii_digit b \<longleftrightarrow> 48 \<le> b \<and> b \<le> 57"

definition digits_value :: "u8 list \<Rightarrow> nat" where
  "digits_value ds = foldl (\<lambda>v d. 10 * v + (unat d - 48)) 0 ds"

text \<open>\<open>str::parse::<usize>\<close> on ASCII digits: an error on overflow.\<close>

definition parse_usize :: "u8 list \<Rightarrow> usize option" where
  "parse_usize ds = (if digits_value ds \<le> usize_MAX then Some (digits_value ds) else None)"

fun decimal :: "nat \<Rightarrow> u8 list" where
  "decimal n = (if n < 10 then [of_nat (48 + n)] else decimal (n div 10) @ [of_nat (48 + n mod 10)])"

declare decimal.simps [simp del]

definition zero_padded :: "usize \<Rightarrow> nat \<Rightarrow> u8 list" where
  "zero_padded w n = replicate (w - length (decimal n)) 48 @ decimal n"

record shard_path =
  sp_parent :: "u8 list option"
  sp_file_name :: "u8 list option"

record shard_spec =
  ss_parent :: "u8 list"
  ss_prefix :: "u8 list"
  ss_count :: usize
  ss_index_width :: usize
  ss_count_width :: usize

definition shard_file_name :: "shard_spec \<Rightarrow> usize \<Rightarrow> u8 list" where
  "shard_file_name spec n = ss_prefix spec @ str_bytes ''-'' @ zero_padded (ss_index_width spec) n
     @ str_bytes ''-of-'' @ zero_padded (ss_count_width spec) (ss_count spec) @ str_bytes ''.gguf''"

definition path_for :: "shard_spec \<Rightarrow> usize \<Rightarrow> shard_path" where
  "path_for spec n = \<lparr>sp_parent = Some (ss_parent spec), sp_file_name = Some (shard_file_name spec n)\<rparr>"

definition parse_shard_numbers ::
  "u8 list option \<Rightarrow> u8 list \<Rightarrow> u8 list \<Rightarrow> u8 list \<Rightarrow> (shard_error, shard_spec option) io_result" where
  "parse_shard_numbers par prefix index_str count_str =
    (if prefix = [] \<or> index_str = [] \<or> count_str = [] \<or> \<not> list_all is_ascii_digit index_str
        \<or> \<not> list_all is_ascii_digit count_str then Ok None
     else case parse_usize index_str of None \<Rightarrow> Err (IndexTooLarge index_str)
     | Some index \<Rightarrow> (case parse_usize count_str of None \<Rightarrow> Err (CountTooLarge count_str)
     | Some count \<Rightarrow> if count = 0 \<or> index = 0 \<or> count < index then Err (BadNumbering index count)
         else Ok (Some \<lparr>ss_parent = (case par of None \<Rightarrow> str_bytes ''.'' | Some d \<Rightarrow> d),
           ss_prefix = prefix, ss_count = count, ss_index_width = length index_str,
           ss_count_width = length count_str\<rparr>)))"

definition parse_shard_filename :: "shard_path \<Rightarrow> (shard_error, shard_spec option) io_result" where
  "parse_shard_filename path = (case sp_file_name path of None \<Rightarrow> Ok None
     | Some file_name \<Rightarrow> (case strip_suffix (str_bytes ''.gguf'') file_name of None \<Rightarrow> Ok None
     | Some stem \<Rightarrow> (case rsplit_once (str_bytes ''-of-'') stem of None \<Rightarrow> Ok None
     | Some (before_count, count_str) \<Rightarrow> (case rsplit_once (str_bytes ''-'') before_count of None \<Rightarrow> Ok None
     | Some (prefix, index_str) \<Rightarrow> parse_shard_numbers (sp_parent path) prefix index_str count_str))))"

subsection \<open>Validation\<close>

definition metadata_u64 :: "metadata \<Rightarrow> u8 list \<Rightarrow> usize \<Rightarrow> (shard_error, u64 option) io_result" where
  "metadata_u64 metadata key shard_number = (case map_of metadata key of None \<Rightarrow> Ok None
     | Some v \<Rightarrow> (case value_as_u64 v of None \<Rightarrow> Err (NotInteger shard_number key) | Some n \<Rightarrow> Ok (Some n)))"

definition metadata_str :: "metadata \<Rightarrow> u8 list \<Rightarrow> usize \<Rightarrow> (shard_error, u8 list option) io_result" where
  "metadata_str metadata key shard_number = (case map_of metadata key of None \<Rightarrow> Ok None
     | Some v \<Rightarrow> (case value_as_str v of None \<Rightarrow> Err (NotString shard_number key) | Some s \<Rightarrow> Ok (Some s)))"

definition require :: "bool \<Rightarrow> 'e \<Rightarrow> ('e, unit) io_result" where
  "require b e = (if b then Ok () else Err e)"

definition validate_shard ::
  "u32 \<Rightarrow> u8 list \<Rightarrow> usize \<Rightarrow> usize \<Rightarrow> stream_reader \<Rightarrow> (shard_error, unit) io_result" where
  "validate_shard expected_version expected_arch expected_count idx reader =
    (let shard_number = idx + 1 in
     io_bind (require (sr_version reader = expected_version)
       (VersionMismatch shard_number (sr_version reader) expected_version)) (\<lambda>_.
     io_bind (metadata_str (sr_metadata reader) (str_bytes ''general.architecture'') shard_number) (\<lambda>arch.
     io_bind (case arch of
         Some a \<Rightarrow> require (a = expected_arch) (ArchitectureMismatch shard_number expected_arch a)
       | None \<Rightarrow> require (shard_number \<noteq> 1) MissingArchitecture) (\<lambda>_.
     io_bind (metadata_u64 (sr_metadata reader) (str_bytes ''split.no'') shard_number) (\<lambda>split_no.
     io_bind (case split_no of
         Some n \<Rightarrow> require (n = of_nat idx) (SplitNoMismatch shard_number n (of_nat idx))
       | None \<Rightarrow> Ok ()) (\<lambda>_.
     io_bind (metadata_u64 (sr_metadata reader) (str_bytes ''split.count'') shard_number) (\<lambda>split_count.
     case split_count of
         Some n \<Rightarrow> require (n = of_nat expected_count) (SplitCountMismatch shard_number n expected_count)
       | None \<Rightarrow> Ok ())))))))"

fun validate_from ::
  "u32 \<Rightarrow> u8 list \<Rightarrow> usize \<Rightarrow> usize \<Rightarrow> stream_reader list \<Rightarrow> (shard_error, unit) io_result" where
  "validate_from v a n idx [] = Ok ()"
| "validate_from v a n idx (r # rs) =
     io_bind (validate_shard v a n idx r) (\<lambda>_. validate_from v a n (idx + 1) rs)"

definition validate_shards :: "stream_reader list \<Rightarrow> usize \<Rightarrow> (shard_error, unit) io_result" where
  "validate_shards readers expected_count = (case readers of [] \<Rightarrow> Err EmptySet
     | r # _ \<Rightarrow> io_bind (metadata_str (sr_metadata r) (str_bytes ''general.architecture'') 1) (\<lambda>arch.
         case arch of None \<Rightarrow> Err MissingArchitecture
         | Some a \<Rightarrow> validate_from (sr_version r) a expected_count 0 readers))"

fun declared_from ::
  "u64 option \<Rightarrow> usize \<Rightarrow> stream_reader list \<Rightarrow> (shard_error, u64 option) io_result" where
  "declared_from declared idx [] = Ok declared"
| "declared_from declared idx (r # rs) =
     io_bind (metadata_u64 (sr_metadata r) (str_bytes ''split.tensors.count'') (idx + 1)) (\<lambda>c.
     case c of None \<Rightarrow> declared_from declared (idx + 1) rs
     | Some count \<Rightarrow> (case declared of
         Some previous \<Rightarrow> if previous \<noteq> count then Err (SplitTensorsDisagree (idx + 1) count previous)
           else declared_from declared (idx + 1) rs
       | None \<Rightarrow> declared_from (Some count) (idx + 1) rs))"

definition declared_split_tensor_count ::
  "stream_reader list \<Rightarrow> (shard_error, u64 option) io_result" where
  "declared_split_tensor_count readers = declared_from None 0 readers"

subsection \<open>Opening a shard set\<close>

record disk_file =
  df_content :: "u8 list"
  df_reads :: os_answers

type_synonym file_system = "shard_path \<Rightarrow> disk_file option"

record shard_set =
  set_readers :: "stream_reader list"
  set_files :: "os_answers list"
  set_metadata :: metadata
  set_tensors :: tensor_table
  set_owners :: "(u8 list \<times> usize) list"

definition open_shard ::
  "(reservation \<Rightarrow> usize \<Rightarrow> bool) \<Rightarrow> file_system \<Rightarrow> shard_spec \<Rightarrow> usize
    \<Rightarrow> (shard_error, stream_reader \<times> os_answers) io_result" where
  "open_shard granted fs spec n = (case fs (path_for spec n) of
       None \<Rightarrow> Err (MissingShard n (ss_count spec))
     | Some d \<Rightarrow> (case stream_open granted (df_reads d) (df_content d) of Panic \<Rightarrow> Panic
        | Return (Inl e) \<Rightarrow> Err (ShardFailed n e)
        | Return (Inr r) \<Rightarrow> Ok (r, df_reads d)))"

fun open_shards ::
  "(reservation \<Rightarrow> usize \<Rightarrow> bool) \<Rightarrow> file_system \<Rightarrow> shard_spec \<Rightarrow> usize \<Rightarrow> nat
    \<Rightarrow> (shard_error, (stream_reader \<times> os_answers) list) io_result" where
  "open_shards granted fs spec n 0 = Ok []"
| "open_shards granted fs spec n (Suc k) =
     io_bind (open_shard granted fs spec n) (\<lambda>r.
     io_bind (open_shards granted fs spec (n + 1) k) (\<lambda>rs. Ok (r # rs)))"

fun merge_tensors ::
  "usize \<Rightarrow> tensor_table \<Rightarrow> tensor_table \<times> (u8 list \<times> usize) list
    \<Rightarrow> (shard_error, tensor_table \<times> (u8 list \<times> usize) list) io_result" where
  "merge_tensors owner [] acc = Ok acc"
| "merge_tensors owner ((name, info) # ts) (tensors, owners) = (case map_of owners name of
       Some previous \<Rightarrow> Err (DuplicateTensor name (previous + 1) (owner + 1))
     | None \<Rightarrow> merge_tensors owner ts (map_insert tensors name info, map_insert owners name owner))"

fun merge_shards ::
  "usize \<Rightarrow> stream_reader list \<Rightarrow> tensor_table \<times> (u8 list \<times> usize) list
    \<Rightarrow> (shard_error, tensor_table \<times> (u8 list \<times> usize) list) io_result" where
  "merge_shards owner [] acc = Ok acc"
| "merge_shards owner (r # rs) acc =
     io_bind (merge_tensors owner (sr_tensors r) acc) (\<lambda>acc'. merge_shards (owner + 1) rs acc')"

definition open_from_spec ::
  "(reservation \<Rightarrow> usize \<Rightarrow> bool) \<Rightarrow> file_system \<Rightarrow> shard_spec \<Rightarrow> (shard_error, shard_set) io_result" where
  "open_from_spec granted fs spec =
    (if \<not> granted ShardReaders (ss_count spec) then Panic else
     io_bind (open_shards granted fs spec 1 (ss_count spec)) (\<lambda>opened.
     let readers = map fst opened in
     io_bind (validate_shards readers (ss_count spec)) (\<lambda>_.
     io_bind (merge_shards 0 readers ([], [])) (\<lambda>(tensors, owners).
     io_bind (declared_split_tensor_count readers) (\<lambda>declared.
     io_bind (case declared of
         Some d \<Rightarrow> require (d = of_nat (length tensors)) (TensorCountMismatch d (of_nat (length tensors)))
       | None \<Rightarrow> Ok ()) (\<lambda>_.
     Ok \<lparr>set_readers = readers, set_files = map snd opened, set_metadata = sr_metadata (readers ! 0),
       set_tensors = tensors, set_owners = owners\<rparr>))))))"

definition shard_set_open ::
  "(reservation \<Rightarrow> usize \<Rightarrow> bool) \<Rightarrow> file_system \<Rightarrow> shard_path \<Rightarrow> (shard_error, shard_set) io_result" where
  "shard_set_open granted fs path = io_bind (parse_shard_filename path) (\<lambda>spec.
     case spec of None \<Rightarrow> Err NotShardName | Some s \<Rightarrow> open_from_spec granted fs s)"

subsection \<open>The common source\<close>

function read_to_end :: "os_answers \<Rightarrow> u8 list \<Rightarrow> usize \<Rightarrow> (stream_error, u8 list) io_result" where
  "read_to_end rd content pos = io_bind (os_read rd content pos usize_MAX) (\<lambda>b.
     if b = [] then Ok [] else
     io_bind (read_to_end rd content (pos + length b)) (\<lambda>c. Ok (b @ c)))"
  by pat_completeness auto
termination
  by (relation "measure (\<lambda>(rd, content, pos). length content - pos)")
    (auto simp: os_read_def subslice_Nil_iff split: sum.splits)

declare read_to_end.simps [simp del]

definition file_open ::
  "(reservation \<Rightarrow> usize \<Rightarrow> bool) \<Rightarrow> disk_file \<Rightarrow> (stream_error, gguf_file) io_result" where
  "file_open granted d = io_bind (read_to_end (df_reads d) (df_content d) 0) (\<lambda>bytes.
     case parse granted bytes of Panic \<Rightarrow> Panic | Return (Inl e) \<Rightarrow> Err (ParseFailed e)
     | Return (Inr f) \<Rightarrow> Ok f)"

datatype gguf_source = Eager gguf_file | Streamed stream_reader os_answers | Sharded shard_set

definition lift_stream :: "(stream_error, 'a) io_result \<Rightarrow> (shard_error, 'a) io_result" where
  "lift_stream r = (case r of Panic \<Rightarrow> Panic | Return (Inl e) \<Rightarrow> Err (SourceFailed e) | Return (Inr a) \<Rightarrow> Ok a)"

definition open_gguf_source ::
  "(reservation \<Rightarrow> usize \<Rightarrow> bool) \<Rightarrow> file_system \<Rightarrow> shard_path \<Rightarrow> bool
    \<Rightarrow> (shard_error, gguf_source) io_result" where
  "open_gguf_source granted fs path legacy_eager =
     io_bind (parse_shard_filename path) (\<lambda>spec. case spec of
       Some s \<Rightarrow> io_bind (open_from_spec granted fs s) (\<lambda>set. Ok (Sharded set))
     | None \<Rightarrow> (case fs path of
         None \<Rightarrow> Err (SourceFailed (IoFailed NotFound))
       | Some d \<Rightarrow>
         if legacy_eager then io_bind (lift_stream (file_open granted d)) (\<lambda>f. Ok (Eager f))
         else io_bind (lift_stream (stream_open granted (df_reads d) (df_content d)))
           (\<lambda>r. Ok (Streamed r (df_reads d)))))"

fun source_metadata :: "gguf_source \<Rightarrow> metadata" where
  "source_metadata (Eager f) = gf_metadata f"
| "source_metadata (Streamed r rd) = sr_metadata r"
| "source_metadata (Sharded s) = set_metadata s"

fun source_tensor_info :: "gguf_source \<Rightarrow> u8 list \<Rightarrow> tensor_info option" where
  "source_tensor_info (Eager f) name = map_of (gf_tensors f) name"
| "source_tensor_info (Streamed r rd) name = map_of (sr_tensors r) name"
| "source_tensor_info (Sharded s) name = map_of (set_tensors s) name"

definition set_read_tensor ::
  "(reservation \<Rightarrow> usize \<Rightarrow> bool) \<Rightarrow> shard_set \<Rightarrow> u8 list \<Rightarrow> (stream_error, u8 list option) io_result" where
  "set_read_tensor granted s name = (case map_of (set_owners s) name of None \<Rightarrow> Ok None
     | Some owner \<Rightarrow> if owner < length (set_readers s)
         then read_tensor_data granted (set_files s ! owner) (set_readers s ! owner) name else Panic)"

fun read_tensor_owned ::
  "(reservation \<Rightarrow> usize \<Rightarrow> bool) \<Rightarrow> gguf_source \<Rightarrow> u8 list \<Rightarrow> (stream_error, u8 list option) io_result" where
  "read_tensor_owned granted (Eager f) name = Ok (tensor_data f name)"
| "read_tensor_owned granted (Streamed r rd) name = read_tensor_data granted rd r name"
| "read_tensor_owned granted (Sharded s) name = set_read_tensor granted s name"

definition source_tensor_dtype :: "gguf_source \<Rightarrow> u8 list \<Rightarrow> weight_dtype option" where
  "source_tensor_dtype src name = (case source_tensor_info src name of None \<Rightarrow> None
     | Some info \<Rightarrow> ggml_to_weight_dtype (ti_dtype info))"

definition source_architecture :: "gguf_source \<Rightarrow> u8 list option" where
  "source_architecture src = metadata_architecture (source_metadata src)"

definition source_has_tensor :: "gguf_source \<Rightarrow> u8 list \<Rightarrow> bool" where
  "source_has_tensor src name \<longleftrightarrow> source_tensor_info src name \<noteq> None"

subsection \<open>Shard names\<close>

lemma rsplit_once_Some: "rsplit_once pat s = Some (a, b) \<Longrightarrow> s = a @ pat @ b"
proof (induction s arbitrary: a)
  case (Cons x xs)
  show ?case
  proof (cases "rsplit_once pat xs")
    case None
    with Cons.prems have "take (length pat) (x # xs) = pat" "a = []" "b = drop (length pat) (x # xs)"
      by (auto split: if_splits)
    then show ?thesis using append_take_drop_id [of "length pat" "x # xs"] by simp
  next
    case (Some r)
    with Cons show ?thesis by (cases r) auto
  qed
qed (simp split: if_splits)

lemma rsplit_once_skip:
  "rsplit_once pat s = Some (a, b) \<Longrightarrow> rsplit_once pat (c @ s) = Some (c @ a, b)"
  by (induction c) auto

text \<open>A pattern that starts with a character the rest of the text lacks splits at its last
  occurrence, when no later position has enough of that character.\<close>

lemma rsplit_once_last:
  assumes "pat \<noteq> []" "d \<notin> set b" "count_list (tl pat) d < count_list pat d"
  shows "rsplit_once pat (a @ pat @ b) = Some (a, b)"
proof -
  have none: "rsplit_once pat (tl pat @ b) = None"
  proof (rule ccontr)
    assume "rsplit_once pat (tl pat @ b) \<noteq> None"
    then obtain a' b' where "tl pat @ b = a' @ pat @ b'" using rsplit_once_Some by fastforce
    then have "count_list (tl pat @ b) d = count_list (a' @ pat @ b') d" by simp
    then have "count_list (tl pat) d + count_list b d = count_list a' d + count_list pat d + count_list b' d"
      by (simp add: count_list_append)
    with assms(2,3) show False by (simp add: count_list_0_iff [THEN iffD2])
  qed
  obtain p ps where pat: "pat = p # ps" using assms(1) by (cases pat) auto
  have "rsplit_once pat (pat @ b) = Some ([], b)"
    using none by (simp add: pat)
  from rsplit_once_skip [OF this] show ?thesis by simp
qed

lemma strip_suffix_Some: "strip_suffix suf s = Some t \<longleftrightarrow> s = t @ suf"
proof
  assume "strip_suffix suf s = Some t"
  then have "t = take (length s - length suf) s" "drop (length s - length suf) s = suf"
    by (auto simp: strip_suffix_def split: if_splits)
  then show "s = t @ suf" using append_take_drop_id [of "length s - length suf" s] by simp
qed (simp add: strip_suffix_def)

lemma digits_value_snoc: "digits_value (ds @ [d]) = 10 * digits_value ds + (unat d - 48)"
  by (simp add: digits_value_def)

lemma digit_unat: "is_ascii_digit d \<longleftrightarrow> 48 \<le> unat d \<and> unat d \<le> 57"
  by (simp add: is_ascii_digit_def word_le_nat_alt)

lemma of_nat_digit: "is_ascii_digit d \<Longrightarrow> of_nat (48 + (unat d - 48)) = d"
  by (simp add: digit_unat)

lemma decimal_small: "n < 10 \<Longrightarrow> decimal n = [of_nat (48 + n)]"
  by (simp add: decimal.simps)

lemma decimal_big: "10 \<le> n \<Longrightarrow> decimal n = decimal (n div 10) @ [of_nat (48 + n mod 10)]"
  by (simp add: decimal.simps [of n])

lemma zero_padded_value:
  assumes "list_all is_ascii_digit ds" "ds \<noteq> []"
  shows "zero_padded (length ds) (digits_value ds) = ds"
  using assms
proof (induction ds rule: rev_induct)
  case (snoc d ds)
  let ?v = "digits_value ds" and ?x = "unat d - 48"
  have d: "is_ascii_digit d" and x: "?x < 10" "of_nat (48 + ?x) = d"
    using snoc.prems(1) by (auto simp: of_nat_digit digit_unat)
  show ?case
  proof (cases "?v = 0")
    case v: True
    have "ds = replicate (length ds) 48"
    proof (cases "ds = []")
      case False
      then have "zero_padded (length ds) ?v = ds" using snoc by simp
      then have "replicate (length ds - 1) 48 @ [48] = ds"
        by (simp add: v zero_padded_def decimal_small)
      then show ?thesis by (metis length_append_singleton length_replicate replicate_Suc replicate_append_same)
    qed simp
    then show ?thesis
      using x by (simp add: digits_value_snoc v zero_padded_def decimal_small del: of_nat_add)
  next
    case False
    then have ne: "ds \<noteq> []" by (auto simp: digits_value_def)
    have "10 \<le> 10 * ?v + ?x" "(10 * ?v + ?x) div 10 = ?v" "(10 * ?v + ?x) mod 10 = ?x"
      using False x(1) by auto
    then have "decimal (10 * ?v + ?x) = decimal ?v @ [d]"
      using x(2) by (simp add: decimal_big del: of_nat_add)
    then show ?thesis using snoc ne by (simp add: digits_value_snoc zero_padded_def)
  qed
qed simp

lemma decimal_digits: "list_all is_ascii_digit (decimal n)"
proof (induction n rule: less_induct)
  case (less n)
  have u: "is_ascii_digit (of_nat (48 + k))" if "k < 10" for k
    using that by (simp add: digit_unat unat_of_nat del: of_nat_add)
  show ?case
  proof (cases "n < 10")
    case False
    with less [of "n div 10"] u [of "n mod 10"] show ?thesis by (simp add: decimal_big del: of_nat_add)
  qed (use u in \<open>simp add: decimal_small del: of_nat_add\<close>)
qed

lemma digits_value_decimal: "digits_value (decimal n) = n"
proof (induction n rule: less_induct)
  case (less n)
  have u: "unat (of_nat (48 + k) :: u8) - 48 = k" if "k < 10" for k
    using that by (simp add: unat_of_nat del: of_nat_add)
  show ?case
  proof (cases "n < 10")
    case True
    with u show ?thesis by (simp add: decimal_small digits_value_def del: of_nat_add)
  next
    case False
    with less [of "n div 10"] u [of "n mod 10"] show ?thesis
      by (simp add: decimal_big digits_value_snoc del: of_nat_add)
  qed
qed

lemma digits_value_zeros: "digits_value (replicate k 48 @ ds) = digits_value ds"
  by (induction k) (simp_all add: digits_value_def)

lemma zero_padded_digits: "list_all is_ascii_digit (zero_padded w n)"
  by (simp add: zero_padded_def decimal_digits) (simp add: list_all_iff is_ascii_digit_def)

lemma digits_value_zero_padded [simp]: "digits_value (zero_padded w n) = n"
  by (simp add: zero_padded_def digits_value_zeros digits_value_decimal)

lemma decimal_not_Nil [simp]: "decimal n \<noteq> []"
  by (simp add: decimal.simps [of n])

lemma zero_padded_not_Nil [simp]: "zero_padded w n \<noteq> []"
  by (simp add: zero_padded_def)

lemma length_zero_padded: "length (decimal n) \<le> w \<Longrightarrow> length (zero_padded w n) = w"
  by (simp add: zero_padded_def)

lemma length_decimal_mono: "m \<le> n \<Longrightarrow> length (decimal m) \<le> length (decimal n)"
proof (induction m arbitrary: n rule: less_induct)
  case (less m)
  show ?case
  proof (cases "m < 10")
    case True
    then show ?thesis by (cases "n < 10") (simp_all add: decimal_small decimal_big)
  next
    case False
    with less.prems less.IH [of "m div 10" "n div 10"] show ?thesis
      by (simp add: decimal_big div_le_mono)
  qed
qed

lemma parse_shard_numbers_Some:
  assumes "parse_shard_numbers par prefix index_str count_str = Ok (Some spec)"
  shows "prefix \<noteq> []" "index_str \<noteq> []" "count_str \<noteq> []"
    "list_all is_ascii_digit index_str" "list_all is_ascii_digit count_str"
    "1 \<le> digits_value index_str" "digits_value index_str \<le> digits_value count_str"
    "digits_value count_str \<le> usize_MAX"
    "spec = \<lparr>ss_parent = (case par of None \<Rightarrow> str_bytes ''.'' | Some d \<Rightarrow> d),
      ss_prefix = prefix, ss_count = digits_value count_str, ss_index_width = length index_str,
      ss_count_width = length count_str\<rparr>"
  using assms
  by (auto simp: parse_shard_numbers_def parse_usize_def Suc_le_eq split: if_splits)

lemma parse_shard_filename_Some:
  assumes "parse_shard_filename path = Ok (Some spec)"
  obtains prefix index_str count_str where
    "sp_file_name path = Some (prefix @ str_bytes ''-'' @ index_str @ str_bytes ''-of-'' @ count_str @ str_bytes ''.gguf'')"
    "parse_shard_numbers (sp_parent path) prefix index_str count_str = Ok (Some spec)"
proof -
  obtain fn stem bc cs prefix "is" where
    s: "sp_file_name path = Some fn" "strip_suffix (str_bytes ''.gguf'') fn = Some stem"
      "rsplit_once (str_bytes ''-of-'') stem = Some (bc, cs)" "rsplit_once (str_bytes ''-'') bc = Some (prefix, is)"
      "parse_shard_numbers (sp_parent path) prefix is cs = Ok (Some spec)"
    using assms by (auto simp: parse_shard_filename_def split: option.splits)
  have "fn = prefix @ str_bytes ''-'' @ is @ str_bytes ''-of-'' @ cs @ str_bytes ''.gguf''"
    using s(2) rsplit_once_Some [OF s(3)] rsplit_once_Some [OF s(4)] by (simp add: strip_suffix_Some)
  with s(1,5) that show ?thesis by simp
qed

lemma dash_not_digit: "list_all is_ascii_digit ds \<Longrightarrow> 45 \<notin> set ds"
  by (auto simp: list_all_iff is_ascii_digit_def)

lemma parse_formatted:
  assumes "list_all is_ascii_digit ds" "list_all is_ascii_digit cs"
  shows "parse_shard_filename \<lparr>sp_parent = par, sp_file_name =
      Some (prefix @ str_bytes ''-'' @ ds @ str_bytes ''-of-'' @ cs @ str_bytes ''.gguf'')\<rparr>
    = parse_shard_numbers par prefix ds cs"
proof -
  have "strip_suffix (str_bytes ''.gguf'') (prefix @ str_bytes ''-'' @ ds @ str_bytes ''-of-'' @ cs @ str_bytes ''.gguf'')
      = Some (prefix @ str_bytes ''-'' @ ds @ str_bytes ''-of-'' @ cs)"
    by (simp add: strip_suffix_Some)
  moreover have "rsplit_once (str_bytes ''-of-'') ((prefix @ str_bytes ''-'' @ ds) @ str_bytes ''-of-'' @ cs)
      = Some (prefix @ str_bytes ''-'' @ ds, cs)"
    by (rule rsplit_once_last [where d = 45]) (simp_all add: str_bytes_def dash_not_digit assms)
  moreover have "rsplit_once (str_bytes ''-'') (prefix @ str_bytes ''-'' @ ds) = Some (prefix, ds)"
    by (rule rsplit_once_last [where d = 45]) (simp_all add: str_bytes_def dash_not_digit assms)
  ultimately show ?thesis by (simp add: parse_shard_filename_def)
qed

lemma path_for_inj: "path_for spec j = path_for spec k \<Longrightarrow> j = k"
proof -
  assume "path_for spec j = path_for spec k"
  then have "zero_padded (ss_index_width spec) j = zero_padded (ss_index_width spec) k"
    by (simp add: path_for_def shard_file_name_def)
  then show "j = k" by (metis digits_value_zero_padded)
qed

text \<open>A file name recognised as a shard is reproduced by \<open>path_for\<close> for exactly one
  shard number; and when the index field is wide enough for the count, every sibling name
  parses to the same specification, so the set can be opened from any of its shards.\<close>

theorem shard_name_roundtrip:
  assumes "parse_shard_filename \<lparr>sp_parent = Some dir, sp_file_name = Some name\<rparr> = Ok (Some spec)"
  shows "(\<exists>!i. 1 \<le> i \<and> i \<le> ss_count spec \<and>
      path_for spec i = \<lparr>sp_parent = Some dir, sp_file_name = Some name\<rparr>)
    \<and> (length (decimal (ss_count spec)) \<le> ss_index_width spec \<longrightarrow>
       (\<forall>j. 1 \<le> j \<and> j \<le> ss_count spec \<longrightarrow> parse_shard_filename (path_for spec j) = Ok (Some spec)))"
proof -
  obtain prefix "is" cs where
    n: "name = prefix @ str_bytes ''-'' @ is @ str_bytes ''-of-'' @ cs @ str_bytes ''.gguf''"
      "parse_shard_numbers (Some dir) prefix is cs = Ok (Some spec)"
    using parse_shard_filename_Some [OF assms] by auto
  note N = parse_shard_numbers_Some [OF n(2)]
  let ?i = "digits_value is"
  have cs: "zero_padded (ss_count_width spec) (ss_count spec) = cs"
    using N(3,5,9) by (simp add: zero_padded_value)
  have at: "path_for spec ?i = \<lparr>sp_parent = Some dir, sp_file_name = Some name\<rparr>"
    using cs N(2,4,9) by (simp add: path_for_def shard_file_name_def n(1) zero_padded_value)
  have sib: "parse_shard_filename (path_for spec j) = Ok (Some spec)"
    if w: "length (decimal (ss_count spec)) \<le> ss_index_width spec" and j: "1 \<le> j" "j \<le> ss_count spec" for j
  proof -
    have len: "length (zero_padded (ss_index_width spec) j) = ss_index_width spec"
      using length_decimal_mono [OF j(2)] w by (simp add: length_zero_padded)
    have dir: "ss_parent spec = dir" "ss_prefix spec = prefix" using N(9) by simp_all
    have "parse_shard_filename (path_for spec j) = parse_shard_numbers (Some dir) prefix
        (zero_padded (ss_index_width spec) j) cs"
      unfolding path_for_def shard_file_name_def dir cs
      by (rule parse_formatted) (simp_all add: zero_padded_digits N(5))
    also have "\<dots> = Ok (Some spec)"
      using N j len by (auto simp: parse_shard_numbers_def parse_usize_def zero_padded_digits)
    finally show ?thesis .
  qed
  have inj: "i = ?i" if "path_for spec i = \<lparr>sp_parent = Some dir, sp_file_name = Some name\<rparr>" for i
    using that at path_for_inj [of spec i ?i] by simp
  have "\<exists>!i. 1 \<le> i \<and> i \<le> ss_count spec \<and>
      path_for spec i = \<lparr>sp_parent = Some dir, sp_file_name = Some name\<rparr>"
  proof (rule ex1I [of _ ?i])
    show "1 \<le> ?i \<and> ?i \<le> ss_count spec \<and> path_for spec ?i = \<lparr>sp_parent = Some dir, sp_file_name = Some name\<rparr>"
      using N(6,7,9) at by simp
  qed (rule inj, simp)
  with sib show ?thesis by blast
qed

subsection \<open>The unified tensor table\<close>

lemma merge_tensors_Ok:
  assumes "merge_tensors owner ts (tensors, owners) = Ok (tensors', owners')"
    "\<forall>name. map_of owners name = None \<longleftrightarrow> map_of tensors name = None"
  shows "map_of owners' = (\<lambda>name. if map_of ts name = None then map_of owners name else Some owner)
    \<and> map_of tensors' = map_of tensors ++ map_of ts
    \<and> (\<forall>name. map_of ts name \<noteq> None \<longrightarrow> map_of owners name = None)"
  using assms
proof (induction ts arbitrary: tensors owners)
  case (Cons t ts)
  obtain name info where t: "t = (name, info)" by (cases t) auto
  have none: "map_of owners name = None"
    and rec: "merge_tensors owner ts (map_insert tensors name info, map_insert owners name owner)
      = Ok (tensors', owners')"
    using Cons.prems(1) by (auto simp: t split: option.splits)
  have "\<forall>x. map_of (map_insert owners name owner) x = None \<longleftrightarrow> map_of (map_insert tensors name info) x = None"
    using Cons.prems(2) by simp
  note IH = Cons.IH [OF rec this]
  have fresh: "map_of ts name = None" using IH by (auto split: if_splits)
  show ?case
    using IH none fresh by (auto simp: t fun_eq_iff map_add_def split: option.splits)
qed auto

text \<open>Shard \<open>i\<close> holds a tensor.\<close>

definition holds :: "stream_reader list \<Rightarrow> usize \<Rightarrow> u8 list \<Rightarrow> tensor_info \<Rightarrow> bool" where
  "holds rs i name info \<longleftrightarrow> i < length rs \<and> map_of (sr_tensors (rs ! i)) name = Some info"

lemma holds_Cons:
  "holds (r # rs) i name info \<longleftrightarrow> (i = 0 \<and> map_of (sr_tensors r) name = Some info)
    \<or> (\<exists>j. i = Suc j \<and> holds rs j name info)"
  by (cases i) (auto simp: holds_def)

lemma holds_Nil [simp]: "\<not> holds [] i name info"
  by (simp add: holds_def)

lemma merge_shards_Ok:
  assumes "merge_shards k rs (tensors, owners) = Ok (tensors', owners')"
    "\<forall>name. map_of owners name = None \<longleftrightarrow> map_of tensors name = None"
  shows "map_of owners' name = Some i \<and> map_of tensors' name = Some info \<longleftrightarrow>
      map_of owners name = Some i \<and> map_of tensors name = Some info
      \<or> (\<exists>j. i = k + j \<and> holds rs j name info)"
    and "map_of owners' name = None \<longleftrightarrow> map_of tensors' name = None"
  using assms
proof (induction rs arbitrary: k tensors owners)
  case (Cons r rs)
  {
    case 1
    then obtain t o' where m: "merge_tensors k (sr_tensors r) (tensors, owners) = Ok (t, o')"
        "merge_shards (k + 1) rs (t, o') = Ok (tensors', owners')"
      by (auto simp: io_iff)
    note M = merge_tensors_Ok [OF m(1) 1(2)]
    have dom: "\<forall>name. map_of o' name = None \<longleftrightarrow> map_of t name = None"
      using M 1(2) by (auto simp: map_add_def split: option.splits)
    have "map_of o' name = Some i \<and> map_of t name = Some info \<longleftrightarrow>
        map_of owners name = Some i \<and> map_of tensors name = Some info
        \<or> i = k \<and> map_of (sr_tensors r) name = Some info"
      using M 1(2) by (cases "map_of (sr_tensors r) name") (auto simp: map_add_def)
    then show ?case
      unfolding Cons.IH(1) [OF m(2) dom] by (auto simp: holds_Cons)
  next
    case 2
    then obtain t o' where m: "merge_tensors k (sr_tensors r) (tensors, owners) = Ok (t, o')"
        "merge_shards (k + 1) rs (t, o') = Ok (tensors', owners')"
      by (auto simp: io_iff)
    note M = merge_tensors_Ok [OF m(1) 2(2)]
    have "\<forall>name. map_of o' name = None \<longleftrightarrow> map_of t name = None"
      using M 2(2) by (auto simp: map_add_def split: option.splits)
    then show ?case using Cons.IH(2) [OF m(2)] by simp
  }
qed simp_all

lemma open_shards_Ok:
  assumes "open_shards granted fs spec n k = Ok opened"
  shows "length opened = k \<and> (\<forall>i<k. open_shard granted fs spec (n + i) = Ok (opened ! i))"
  using assms
proof (induction k arbitrary: n opened)
  case (Suc k)
  then obtain r rs where o: "open_shard granted fs spec n = Ok r"
      "open_shards granted fs spec (n + 1) k = Ok rs" "opened = r # rs"
    by (auto simp: io_iff)
  from Suc.IH [OF o(2)] o(1,3) show ?case
    by (auto simp: nth_Cons split: nat.split)
qed simp

subsection \<open>Consistency of an accepted set\<close>

lemma io_bindE: "io_bind m f = Ok b \<Longrightarrow> (\<And>a. m = Ok a \<Longrightarrow> f a = Ok b \<Longrightarrow> P) \<Longrightarrow> P"
  by (auto simp: io_bind_Ok)

lemma require_Ok [simp]: "require b e = Ok u \<longleftrightarrow> b"
  by (simp add: require_def)

lemma validate_from_Ok:
  "validate_from v a n idx rs = Ok u \<Longrightarrow> i < length rs \<Longrightarrow> validate_shard v a n (idx + i) (rs ! i) = Ok ()"
  by (induction rs arbitrary: idx i) (auto simp: io_iff nth_Cons split: nat.split, force)

lemma metadata_str_architecture:
  "metadata_str m (str_bytes ''general.architecture'') k = Ok (Some a) \<longleftrightarrow> metadata_architecture m = Some a"
  by (auto simp: metadata_str_def metadata_architecture_def split: option.splits)

definition split_value :: "stream_reader \<Rightarrow> string \<Rightarrow> u64 option" where
  "split_value r key = Option.bind (map_of (sr_metadata r) (str_bytes key)) value_as_u64"

lemma metadata_u64_Ok: "metadata_u64 (sr_metadata r) (str_bytes key) k = Ok v \<Longrightarrow> v = split_value r key"
  by (auto simp: metadata_u64_def split_value_def split: option.splits)

lemma validate_shard_Ok:
  assumes "validate_shard v a n idx r = Ok u"
  shows "sr_version r = v" "metadata_architecture (sr_metadata r) \<in> {Some a, None}"
proof -
  show "sr_version r = v"
    using assms by (simp add: validate_shard_def Let_def require_def split: if_splits)
  then have "io_bind (metadata_str (sr_metadata r) (str_bytes ''general.architecture'') (idx + 1)) (\<lambda>arch.
      io_bind (case arch of
         Some b \<Rightarrow> require (b = a) (ArchitectureMismatch (idx + 1) a b)
       | None \<Rightarrow> require (idx + 1 \<noteq> 1) MissingArchitecture) (\<lambda>_. Ok ())) = Ok ()"
    using assms by (auto simp: validate_shard_def Let_def require_def io_bind_def
        split: outcome.splits sum.splits option.splits if_splits)
  then show "metadata_architecture (sr_metadata r) \<in> {Some a, None}"
    by (auto simp: metadata_str_def metadata_architecture_def require_def
        split: option.splits if_splits)
qed

lemma validate_shard_split:
  assumes "validate_shard v a n idx r = Ok u"
  shows "split_value r ''split.no'' \<in> {Some (of_nat idx), None}"
    "split_value r ''split.count'' \<in> {Some (of_nat n), None}"
proof -
  obtain x arch y split_no z split_count where
    no: "metadata_u64 (sr_metadata r) (str_bytes ''split.no'') (idx + 1) = Ok split_no"
      "(case split_no of Some m \<Rightarrow> require (m = of_nat idx) (SplitNoMismatch (idx + 1) m (of_nat idx))
         | None \<Rightarrow> Ok ()) = Ok z"
    and count: "metadata_u64 (sr_metadata r) (str_bytes ''split.count'') (idx + 1) = Ok split_count"
      "(case split_count of Some m \<Rightarrow> require (m = of_nat n) (SplitCountMismatch (idx + 1) m n)
         | None \<Rightarrow> Ok ()) = Ok u"
    using assms unfolding validate_shard_def Let_def by (elim io_bindE)
  show "split_value r ''split.no'' \<in> {Some (of_nat idx), None}"
    using no(2) metadata_u64_Ok [OF no(1)] by (cases split_no) auto
  show "split_value r ''split.count'' \<in> {Some (of_nat n), None}"
    using count(2) metadata_u64_Ok [OF count(1)] by (cases split_count) auto
qed

lemma validate_shards_Ok:
  assumes "validate_shards readers n = Ok u"
  obtains a where "metadata_architecture (sr_metadata (readers ! 0)) = Some a"
    "validate_from (sr_version (readers ! 0)) a n 0 readers = Ok ()"
proof -
  have "readers \<noteq> []" using assms by (auto simp: validate_shards_def)
  then obtain a where a: "metadata_str (sr_metadata (readers ! 0)) (str_bytes ''general.architecture'') 1 = Ok (Some a)"
      "validate_from (sr_version (readers ! 0)) a n 0 readers = Ok ()"
    using assms by (cases readers) (auto simp: validate_shards_def io_iff split: option.splits)
  show ?thesis using a(1) by (intro that [of a] a(2)) (simp only: metadata_str_architecture)
qed

lemma declared_from_Ok:
  "declared_from d idx rs = Ok d' \<Longrightarrow> (d \<noteq> None \<longrightarrow> d' = d)
    \<and> (\<forall>r \<in> set rs. split_value r ''split.tensors.count'' \<in> {d', None})"
proof (induction rs arbitrary: d idx)
  case (Cons r rs)
  then obtain c where c: "metadata_u64 (sr_metadata r) (str_bytes ''split.tensors.count'') (idx + 1) = Ok c"
      "(case c of None \<Rightarrow> declared_from d (idx + 1) rs
       | Some count \<Rightarrow> (case d of
           Some previous \<Rightarrow> if previous \<noteq> count then Err (SplitTensorsDisagree (idx + 1) count previous)
             else declared_from d (idx + 1) rs
         | None \<Rightarrow> declared_from (Some count) (idx + 1) rs)) = Ok d'"
    unfolding declared_from.simps by (elim io_bindE)
  have "split_value r ''split.tensors.count'' = c" using metadata_u64_Ok [OF c(1)] by simp
  moreover have "declared_from (if d = None then c else d) (idx + 1) rs = Ok d'" "d \<noteq> None \<Longrightarrow> c \<in> {d, None}"
    using c(2) by (auto split: option.splits if_splits)
  ultimately show ?case using Cons.IH [of "if d = None then c else d" "idx + 1"]
    by (auto split: if_splits)
qed simp

lemma open_from_spec_Ok:
  assumes "open_from_spec granted fs spec = Ok s"
  obtains opened declared where "open_shards granted fs spec 1 (ss_count spec) = Ok opened"
    "set_readers s = map fst opened" "set_files s = map snd opened"
    "validate_shards (set_readers s) (ss_count spec) = Ok ()"
    "merge_shards 0 (set_readers s) ([], []) = Ok (set_tensors s, set_owners s)"
    "set_metadata s = sr_metadata (set_readers s ! 0)"
    "declared_split_tensor_count (set_readers s) = Ok declared"
    "declared \<in> {Some (of_nat (length (set_tensors s))), None}"
proof -
  have "granted ShardReaders (ss_count spec)" using assms by (simp add: open_from_spec_def split: if_splits)
  with assms obtain opened acc declared x where
    o: "open_shards granted fs spec 1 (ss_count spec) = Ok opened"
    "validate_shards (map fst opened) (ss_count spec) = Ok ()"
    "merge_shards 0 (map fst opened) ([], []) = Ok acc"
    "declared_split_tensor_count (map fst opened) = Ok declared"
    "(case declared of Some d \<Rightarrow> require (d = of_nat (length (fst acc)))
        (TensorCountMismatch d (of_nat (length (fst acc)))) | None \<Rightarrow> Ok ()) = Ok x"
    "s = \<lparr>set_readers = map fst opened, set_files = map snd opened,
      set_metadata = sr_metadata (map fst opened ! 0), set_tensors = fst acc, set_owners = snd acc\<rparr>"
    by (auto simp: open_from_spec_def Let_def case_prod_unfold elim!: io_bindE)
  have "declared \<in> {Some (of_nat (length (set_tensors s))), None}"
    using o(5) by (cases declared) (simp_all add: o(6))
  with o show ?thesis by (intro that [of opened declared]) simp_all
qed

lemma open_shard_Ok:
  "open_shard granted fs spec n = Ok (r, rd) \<longleftrightarrow> (\<exists>d. fs (path_for spec n) = Some d \<and> df_reads d = rd
    \<and> stream_open granted (df_reads d) (df_content d) = Ok r)"
  by (auto simp: open_shard_def split: option.splits outcome.splits sum.splits)

text \<open>C30: an opened shard set has one reader per shard, opened from the shard's own path;
  its table has exactly the tensors of the shards, each held by one shard only; a read goes to
  that shard's reader, and an absent name reads as \<open>None\<close>.\<close>

theorem shard_set_dispatch:
  assumes "open_from_spec granted fs spec = Ok s"
  shows "length (set_readers s) = ss_count spec
    \<and> (\<forall>i < ss_count spec. \<exists>d. fs (path_for spec (i + 1)) = Some d \<and> set_files s ! i = df_reads d
        \<and> stream_open granted (df_reads d) (df_content d) = Ok (set_readers s ! i))
    \<and> (\<forall>name info. source_tensor_info (Sharded s) name = Some info \<longleftrightarrow>
        (\<exists>i. holds (set_readers s) i name info))
    \<and> (\<forall>name info i. holds (set_readers s) i name info \<longrightarrow>
        (\<forall>j info'. holds (set_readers s) j name info' \<longrightarrow> j = i)
        \<and> read_tensor_owned granted (Sharded s) name =
            read_tensor_data granted (set_files s ! i) (set_readers s ! i) name)
    \<and> (\<forall>name. source_tensor_info (Sharded s) name = None \<longrightarrow>
        read_tensor_owned granted (Sharded s) name = Ok None)"
proof -
  obtain opened where o: "open_shards granted fs spec 1 (ss_count spec) = Ok opened"
    "set_readers s = map fst opened" "set_files s = map snd opened"
    "merge_shards 0 (set_readers s) ([], []) = Ok (set_tensors s, set_owners s)"
    by (rule open_from_spec_Ok [OF assms])
  note O = open_shards_Ok [OF o(1)]
  have own: "map_of (set_owners s) name = Some i \<and> map_of (set_tensors s) name = Some info \<longleftrightarrow>
      holds (set_readers s) i name info" for name i info
    using merge_shards_Ok(1) [OF o(4), of name i info] by simp
  have dom: "map_of (set_owners s) name = None \<longleftrightarrow> map_of (set_tensors s) name = None" for name
    using merge_shards_Ok(2) [OF o(4), of name] by simp
  have files: "\<exists>d. fs (path_for spec (i + 1)) = Some d \<and> set_files s ! i = df_reads d
        \<and> stream_open granted (df_reads d) (df_content d) = Ok (set_readers s ! i)" if "i < ss_count spec" for i
  proof -
    have "open_shard granted fs spec (1 + i) = Ok (fst (opened ! i), snd (opened ! i))"
      using O that by simp
    then show ?thesis using that O unfolding open_shard_Ok by (auto simp: o(2,3))
  qed
  have table: "source_tensor_info (Sharded s) name = Some info \<longleftrightarrow> (\<exists>i. holds (set_readers s) i name info)" for name info
    using own dom [of name] by (auto simp: own [symmetric])
  have uniq: "j = i" if "holds (set_readers s) i name info" "holds (set_readers s) j name info'"
    for name info info' i j
    using that own [of name i info] own [of name j info'] by simp
  have read: "read_tensor_owned granted (Sharded s) name =
      read_tensor_data granted (set_files s ! i) (set_readers s ! i) name"
    if "holds (set_readers s) i name info" for name info i
  proof -
    have "map_of (set_owners s) name = Some i" "i < length (set_readers s)"
      using that own [of name i info] by (auto simp: holds_def)
    then show ?thesis by (simp add: set_read_tensor_def)
  qed
  have none: "read_tensor_owned granted (Sharded s) name = Ok None"
    if "source_tensor_info (Sharded s) name = None" for name
    using that dom [of name] by (simp add: set_read_tensor_def)
  show ?thesis
  proof (intro conjI allI impI files table none)
    show "length (set_readers s) = ss_count spec" using O by (simp add: o(2))
  qed (use read uniq in blast)+
qed

text \<open>In an opened shard set every shard has the version of the first, every declared
  architecture is the set's, every declared \<open>split.no\<close> and \<open>split.count\<close> agrees with the file
  names, and every declared \<open>split.tensors.count\<close> is the size of the unified table.\<close>

theorem shard_set_consistent:
  assumes "open_from_spec granted fs spec = Ok s" "i < ss_count spec"
  shows "sr_version (set_readers s ! i) = sr_version (set_readers s ! 0)
    \<and> source_architecture (Sharded s) \<noteq> None
    \<and> metadata_architecture (sr_metadata (set_readers s ! i)) \<in> {source_architecture (Sharded s), None}
    \<and> split_value (set_readers s ! i) ''split.no'' \<in> {Some (of_nat i), None}
    \<and> split_value (set_readers s ! i) ''split.count'' \<in> {Some (of_nat (ss_count spec)), None}
    \<and> split_value (set_readers s ! i) ''split.tensors.count'' \<in> {Some (of_nat (length (set_tensors s))), None}"
proof -
  obtain opened declared where o: "open_shards granted fs spec 1 (ss_count spec) = Ok opened"
    "set_readers s = map fst opened" "validate_shards (set_readers s) (ss_count spec) = Ok ()"
    "set_metadata s = sr_metadata (set_readers s ! 0)"
    "declared_split_tensor_count (set_readers s) = Ok declared"
    "declared \<in> {Some (of_nat (length (set_tensors s))), None}"
    by (rule open_from_spec_Ok [OF assms(1)])
  have i: "i < length (set_readers s)" using open_shards_Ok [OF o(1)] assms(2) by (simp add: o(2))
  obtain a where a: "metadata_architecture (sr_metadata (set_readers s ! 0)) = Some a"
    "validate_from (sr_version (set_readers s ! 0)) a (ss_count spec) 0 (set_readers s) = Ok ()"
    by (rule validate_shards_Ok [OF o(3)])
  note v = validate_from_Ok [OF a(2) i]
  have "split_value (set_readers s ! i) ''split.tensors.count'' \<in> {declared, None}"
    using declared_from_Ok [OF o(5) [unfolded declared_split_tensor_count_def]] i by simp
  then show ?thesis
    using a(1) validate_shard_Ok [OF v] validate_shard_split [OF v] o(4,6)
    by (auto simp: source_architecture_def)
qed

subsection \<open>The common source\<close>

lemma read_to_end_eq:
  assumes "delivers rd" "pos \<le> length content"
  shows "read_to_end rd content pos = Ok (drop pos content)"
  using assms(2)
proof (induction "length content - pos" arbitrary: pos rule: less_induct)
  case less
  obtain n where n: "os_read rd content pos usize_MAX = Ok (subslice content pos n)" "0 < n"
    by (rule os_read_delivers [OF assms(1), of usize_MAX content pos]) (auto simp: usize_MAX_def)
  show ?case
  proof (cases "pos = length content")
    case True
    with n show ?thesis by (subst read_to_end.simps) (simp add: subslice_def)
  next
    case False
    let ?b = "subslice content pos n"
    have "read_to_end rd content (pos + length ?b) = Ok (drop (pos + length ?b) content)"
      using less.prems False n(2) by (intro less.hyps) auto
    moreover have "drop pos content = ?b @ drop (pos + length ?b) content"
      using subslice_exact [of content pos n]
        append_take_drop_id [of "length ?b" "drop pos content"]
      by (simp add: subslice_def add.commute)
    moreover have "?b \<noteq> []" using n(2) False less.prems by (simp add: subslice_Nil_iff)
    ultimately show ?thesis using n(1) by (subst read_to_end.simps) simp
  qed
qed

lemma file_open_eq:
  "delivers (df_reads d) \<Longrightarrow> file_open granted d = (case parse granted (df_content d) of
     Panic \<Rightarrow> Panic | Return (Inl e) \<Rightarrow> Err (ParseFailed e) | Return (Inr f) \<Rightarrow> Ok f)"
  by (simp add: file_open_def read_to_end_eq)

text \<open>
  \<open>GgufShardSet::open\<close> reserves its readers from the count in the file name, before any shard is
  looked at.
\<close>

theorem shard_count_panics:
  assumes "\<not> granted ShardReaders (2 ^ 64 - 1)"
  shows "open_gguf_source granted fs \<lparr>sp_parent = Some dir,
    sp_file_name = Some (str_bytes ''m-1-of-18446744073709551615.gguf'')\<rparr> legacy_eager = Panic"
proof -
  have "str_bytes ''m-1-of-18446744073709551615.gguf'' = str_bytes ''m'' @ str_bytes ''-'' @ str_bytes ''1''
      @ str_bytes ''-of-'' @ str_bytes ''18446744073709551615'' @ str_bytes ''.gguf''"
    by (simp add: str_bytes_def)
  moreover have "list_all is_ascii_digit (str_bytes ''1'')"
    "list_all is_ascii_digit (str_bytes ''18446744073709551615'')"
    by (simp_all add: str_bytes_def is_ascii_digit_def)
  moreover have "digits_value (str_bytes ''1'') = 1"
    "digits_value (str_bytes ''18446744073709551615'') = 2 ^ 64 - 1"
    by (simp_all add: digits_value_def str_bytes_def)
  ultimately have "parse_shard_filename \<lparr>sp_parent = Some dir,
      sp_file_name = Some (str_bytes ''m-1-of-18446744073709551615.gguf'')\<rparr> = Ok (Some
      \<lparr>ss_parent = dir, ss_prefix = str_bytes ''m'', ss_count = 2 ^ 64 - 1, ss_index_width = 1,
       ss_count_width = 20\<rparr>)"
    by (simp only: parse_formatted)
      (simp add: parse_shard_numbers_def parse_usize_def usize_MAX_def str_bytes_def)
  with assms show ?thesis by (simp add: open_gguf_source_def open_from_spec_def)
qed

subsection \<open>A concrete shard set\<close>

definition demo_spec :: shard_spec where
  "demo_spec = \<lparr>ss_parent = [], ss_prefix = str_bytes ''m'', ss_count = 1, ss_index_width = 5,
     ss_count_width = 5\<rparr>"

definition demo_fs :: file_system where
  "demo_fs p = Some \<lparr>df_content = demo_file, df_reads = \<lambda>_. Inr 7\<rparr>"

definition demo_set :: shard_set where
  "demo_set = \<lparr>set_readers = [stream_view demo_file demo_parsed], set_files = [\<lambda>_. Inr 7],
     set_metadata = rev demo_metadata, set_tensors = [(str_bytes ''w'', demo_tensor)],
     set_owners = [(str_bytes ''w'', 0)]\<rparr>"

lemma demo_keys:
  "map_of (rev demo_metadata) (str_bytes ''general.architecture'') = Some (VString (str_bytes ''llama''))"
  "map_of (rev demo_metadata) (str_bytes ''split.no'') = None"
  "map_of (rev demo_metadata) (str_bytes ''split.count'') = None"
  "map_of (rev demo_metadata) (str_bytes ''split.tensors.count'') = None"
  by code_simp+

lemma demo_opens: "open_from_spec (\<lambda>_ _. True) demo_fs demo_spec = Ok demo_set"
proof -
  have "open_shards (\<lambda>_ _. True) demo_fs demo_spec 1 (ss_count demo_spec)
      = Ok [(stream_view demo_file demo_parsed, \<lambda>_. Inr 7)]"
    by (simp add: demo_spec_def open_shard_def demo_fs_def demo_streams)
  then show ?thesis
    by (simp add: open_from_spec_def validate_shards_def validate_shard_def metadata_str_def
        metadata_u64_def stream_view_def demo_parsed_def demo_keys require_def demo_tensor_def
        map_insert_def declared_split_tensor_count_def demo_set_def)
qed

theorem shard_set_dispatch_witness:
  "source_tensor_info (Sharded demo_set) (str_bytes ''w'') = Some demo_tensor
    \<and> (\<exists>i. holds (set_readers demo_set) i (str_bytes ''w'') demo_tensor)"
proof -
  have "source_tensor_info (Sharded demo_set) (str_bytes ''w'') = Some demo_tensor"
    by (simp add: demo_set_def)
  with shard_set_dispatch [OF demo_opens] show ?thesis by blast
qed

theorem shard_set_consistent_witness:
  "sr_version (set_readers demo_set ! 0) = 3 \<and> source_architecture (Sharded demo_set) \<noteq> None"
  using shard_set_consistent [OF demo_opens, of 0]
  by (simp add: demo_spec_def demo_set_def stream_view_def demo_parsed_def)

lemma demo_name:
  "parse_shard_filename \<lparr>sp_parent = Some [], sp_file_name = Some (str_bytes ''m-00001-of-00001.gguf'')\<rparr>
    = Ok (Some demo_spec)"
proof -
  have "str_bytes ''m-00001-of-00001.gguf'' = str_bytes ''m'' @ str_bytes ''-'' @ str_bytes ''00001''
      @ str_bytes ''-of-'' @ str_bytes ''00001'' @ str_bytes ''.gguf''"
    by (simp add: str_bytes_def)
  moreover have "list_all is_ascii_digit (str_bytes ''00001'')" "digits_value (str_bytes ''00001'') = 1"
    by (simp_all add: str_bytes_def is_ascii_digit_def digits_value_def)
  ultimately show ?thesis
    by (simp only: parse_formatted)
      (simp add: parse_shard_numbers_def parse_usize_def usize_MAX_def demo_spec_def, simp add: str_bytes_def)
qed

theorem shard_name_roundtrip_witness:
  "parse_shard_filename (path_for demo_spec 1) = Ok (Some demo_spec)"
  using shard_name_roundtrip [OF demo_name]
  by (simp add: demo_spec_def decimal_small)

end
