(* ===== verification/ShardRpc.thy ===== *)
theory ShardRpc
  imports Prelude
begin

section \<open>Expert shards and their frames\<close>

text \<open>
  Model of \<open>rpc.rs\<close> and of the placement of \<open>distributed.rs\<close>: which node of a mesh owns an expert, how a
  token's experts are grouped by node, the byte layout of a request and of a response, and the f16
  narrowing of activations. A float is its bit pattern. \<open>granted\<close> says which allocations, given in
  bytes, the allocator grants; a refused one ends the process like a panic. Lengths of slices stay below
  \<open>2 ^ 63\<close>, so an index inside a loop never wraps before it is out of range, but the length computed
  from a response header may wrap and is written out. The network transport itself is not modelled.
\<close>

subsection \<open>Placement\<close>

definition shard_for_expert :: "u32 \<Rightarrow> u32 \<Rightarrow> u32 option" where
  "shard_for_expert i num_workers = (if num_workers = 0 then None else Some (i mod num_workers))"

text \<open>The buckets of the loop, one per worker.\<close>

fun push_buckets :: "u32 \<Rightarrow> u32 list \<Rightarrow> u32 list list \<Rightarrow> u32 list list" where
  "push_buckets num_workers [] buckets = buckets"
| "push_buckets num_workers (i # top_k) buckets =
     (let s = unat (i mod num_workers) in
      push_buckets num_workers top_k (buckets[s := vec_push (buckets ! s) i]))"

definition group_top_k_by_shard :: "u32 list \<Rightarrow> u32 \<Rightarrow> (u32 \<times> u32 list) list" where
  "group_top_k_by_shard top_k num_workers =
     (if num_workers = 0 then []
      else map (\<lambda>(i, v). (of_nat i, v))
             (filter (\<lambda>(_, v). v \<noteq> [])
                (enumerate 0 (push_buckets num_workers top_k (replicate (unat num_workers) [])))))"

datatype shard_instruction = Local u32 | Remote u32 string nat

fun instruction_expert :: "shard_instruction \<Rightarrow> u32" where
  "instruction_expert (Local e) = e"
| "instruction_expert (Remote e _ _) = e"

fun is_local :: "shard_instruction \<Rightarrow> bool" where
  "is_local (Local _) = True"
| "is_local (Remote _ _ _) = False"

record rpc_shard_router =
  sr_placement :: "u32 \<rightharpoonup> string"
  sr_default_timeout :: nat

text \<open>The loop of \<open>from_modulo_placement\<close> over the ids below \<open>num_experts\<close>.\<close>

fun place_experts :: "string list \<Rightarrow> usize \<Rightarrow> u32 \<Rightarrow> u32 list \<Rightarrow> (u32 \<rightharpoonup> string) \<Rightarrow> (u32 \<rightharpoonup> string) outcome" where
  "place_experts nodes self_index num_nodes [] placement = Return placement"
| "place_experts nodes self_index num_nodes (i # ids) placement =
     (case shard_for_expert i num_nodes of
        None \<Rightarrow> Panic
      | Some s \<Rightarrow>
          place_experts nodes self_index num_nodes ids
            (if unat s \<noteq> self_index then placement(i \<mapsto> nodes ! unat s) else placement))"

definition from_modulo_placement :: "string list \<Rightarrow> usize \<Rightarrow> u32 \<Rightarrow> nat \<Rightarrow> rpc_shard_router outcome" where
  "from_modulo_placement nodes self_index num_experts default_timeout =
     (if \<not> self_index < length nodes then Panic
      else
        obind (place_experts nodes self_index (of_nat (length nodes))
                 (map of_nat [0 ..< unat num_experts]) Map.empty) (\<lambda>placement.
        Return \<lparr>sr_placement = placement, sr_default_timeout = default_timeout\<rparr>))"

datatype shard_router_error =
    Timeout u32 string
  | Unreachable u32 string string
  | NotFound u32 string
  | Transport u32 string string
  | PartialFailure string "u32 list" "(u32 \<times> string) list"

definition map_tonic_status :: "u32 \<Rightarrow> string \<Rightarrow> string \<Rightarrow> string \<Rightarrow> shard_router_error" where
  "map_tonic_status expert node code_name message =
     (if code_name = ''DeadlineExceeded'' \<or> code_name = ''Cancelled'' then Timeout expert node
      else if code_name = ''Unavailable'' then Unreachable expert node message
      else if code_name = ''NotFound'' then NotFound expert node
      else if code_name = ''Aborted'' then Transport expert node (''Aborted: '' @ message)
      else Transport expert node (code_name @ '': '' @ message))"

text \<open>The trait's default \<open>fetch_remote\<close>, and the one of a build without the \<open>grpc\<close> feature.\<close>

fun default_fetch_remote :: "shard_instruction \<Rightarrow> shard_router_error + unit" where
  "default_fetch_remote (Local _) = Inr ()"
| "default_fetch_remote (Remote expert node _) = Inl (NotFound expert node)"

fun rpc_fetch_remote :: "shard_instruction \<Rightarrow> shard_router_error + unit" where
  "rpc_fetch_remote (Local _) = Inr ()"
| "rpc_fetch_remote (Remote expert node _) = Inl (Unreachable expert node
     ''RpcShardRouter requires the `grpc` cargo feature; tonic client not compiled in'')"

definition route_expert :: "rpc_shard_router \<Rightarrow> u32 \<Rightarrow> shard_instruction" where
  "route_expert r expert =
     (case sr_placement r expert of
        Some node \<Rightarrow> Remote expert node (sr_default_timeout r)
      | None \<Rightarrow> Local expert)"

definition local_route_expert :: "u32 \<Rightarrow> shard_instruction" where
  "local_route_expert expert = Local expert"

subsection \<open>Frames\<close>

record route_request =
  rq_request_id :: u64
  rq_layer_idx :: u32
  rq_d_model :: u32
  rq_expert_ids :: "u32 list"
  rq_hidden_state_f16 :: "u16 list"

record route_response =
  rp_request_id :: u64
  rp_d_model :: u32
  rp_expert_ids :: "u32 list"
  rp_ffn_out_f16 :: "u16 list"

datatype frame_error = HeaderTooShort | FrameTooShort usize usize

definition encode_request :: "route_request \<Rightarrow> u8 list outcome" where
  "encode_request r =
     (if length (rq_hidden_state_f16 r) \<noteq> unat (rq_d_model r) then Panic
      else Return (u64_to_le_bytes (rq_request_id r) @ u32_to_le_bytes (rq_layer_idx r) @
             u32_to_le_bytes (rq_d_model r) @ u32_to_le_bytes (of_nat (length (rq_expert_ids r))) @
             concat (map u32_to_le_bytes (rq_expert_ids r)) @
             concat (map u16_to_le_bytes (rq_hidden_state_f16 r))))"

text \<open>The reading loops index the buffer: an index outside it panics.\<close>

fun read_u32s :: "u8 list \<Rightarrow> usize \<Rightarrow> nat \<Rightarrow> u32 list outcome" where
  "read_u32s buf off 0 = Return []"
| "read_u32s buf off (Suc k) =
     (if off + 4 \<le> length buf
      then obind (read_u32s buf (off + 4) k) (\<lambda>xs. Return (u32_from_le_bytes (subslice buf off 4) # xs))
      else Panic)"

fun read_u16s :: "u8 list \<Rightarrow> usize \<Rightarrow> nat \<Rightarrow> u16 list outcome" where
  "read_u16s buf off 0 = Return []"
| "read_u16s buf off (Suc k) =
     (if off + 2 \<le> length buf
      then obind (read_u16s buf (off + 2) k) (\<lambda>xs. Return (u16_from_le_bytes (subslice buf off 2) # xs))
      else Panic)"

definition decode_request :: "(nat \<Rightarrow> bool) \<Rightarrow> u8 list \<Rightarrow> (frame_error + route_request) outcome" where
  "decode_request granted buf =
     (if length buf < 20 then Return (Inl HeaderTooShort)
      else
        let d_model = u32_from_le_bytes (subslice buf 12 4);
            k = unat (u32_from_le_bytes (subslice buf 16 4));
            hidden_off = 20 + 4 * k;
            hidden_end = hidden_off + 2 * unat d_model in
        if length buf < hidden_end then Return (Inl (FrameTooShort hidden_end (length buf)))
        else if \<not> granted (4 * k) then Panic
        else
          obind (read_u32s buf 20 k) (\<lambda>expert_ids.
          if \<not> granted (2 * unat d_model) then Panic
          else
            obind (read_u16s buf hidden_off (unat d_model)) (\<lambda>hidden.
            Return (Inr \<lparr>rq_request_id = u64_from_le_bytes (subslice buf 0 8),
                          rq_layer_idx = u32_from_le_bytes (subslice buf 8 4), rq_d_model = d_model,
                          rq_expert_ids = expert_ids, rq_hidden_state_f16 = hidden\<rparr>))))"

definition encode_response :: "route_response \<Rightarrow> u8 list outcome" where
  "encode_response r =
     (if length (rp_ffn_out_f16 r) \<noteq> length (rp_expert_ids r) * unat (rp_d_model r) then Panic
      else Return (u64_to_le_bytes (rp_request_id r) @ u32_to_le_bytes (rp_d_model r) @
             u32_to_le_bytes (of_nat (length (rp_expert_ids r))) @
             concat (map u32_to_le_bytes (rp_expert_ids r)) @
             concat (map u16_to_le_bytes (rp_ffn_out_f16 r))))"

definition decode_response :: "(nat \<Rightarrow> bool) \<Rightarrow> u8 list \<Rightarrow> (frame_error + route_response) outcome" where
  "decode_response granted buf =
     (if length buf < 16 then Return (Inl HeaderTooShort)
      else
        let d_model = u32_from_le_bytes (subslice buf 8 4);
            k = unat (u32_from_le_bytes (subslice buf 12 4));
            ffn_off = 16 + 4 * k;
            ffn_end = (ffn_off + 2 * unat d_model * k mod 2 ^ 64) mod 2 ^ 64 in
        if length buf < ffn_end then Return (Inl (FrameTooShort ffn_end (length buf)))
        else if \<not> granted (4 * k) then Panic
        else
          obind (read_u32s buf 16 k) (\<lambda>expert_ids.
          if \<not> granted (2 * (unat d_model * k)) then Panic
          else
            obind (read_u16s buf ffn_off (unat d_model * k)) (\<lambda>ffn_out.
            Return (Inr \<lparr>rp_request_id = u64_from_le_bytes (subslice buf 0 8), rp_d_model = d_model,
                          rp_expert_ids = expert_ids, rp_ffn_out_f16 = ffn_out\<rparr>))))"

subsection \<open>Activations on the wire\<close>

definition f32_to_f16_bits :: "u32 \<Rightarrow> u16" where
  "f32_to_f16_bits bits =
     (let sign = ucast (and (drop_bit 31 bits) 1) :: u16;
          exp = int (unat (and (drop_bit 23 bits) 0xFF));
          mant = and bits 0x7FFFFF in
      if exp = 0xFF then or (push_bit 15 sign) (or (push_bit 10 0x1F) (if mant \<noteq> 0 then 0x200 else 0))
      else
        let new_exp = exp - 127 + 15 in
        if new_exp \<ge> 0x1F then or (push_bit 15 sign) (push_bit 10 0x1F)
        else if new_exp \<le> 0 then push_bit 15 sign
        else
          let round_bit = and (drop_bit 12 mant) 1;
              sticky = (and mant 0xFFF \<noteq> 0);
              mant16 = ucast (drop_bit 13 mant) :: u16 in
          if round_bit = 1 \<and> (sticky \<or> and mant16 1 = 1)
          then
            let out_mant = mant16 + 1 in
            if out_mant = 0x400 then or (push_bit 15 sign) (push_bit 10 (of_int (new_exp + 1)))
            else or (or (push_bit 15 sign) (push_bit 10 (of_int new_exp))) (and out_mant 0x3FF)
          else or (or (push_bit 15 sign) (push_bit 10 (of_int new_exp))) (and mant16 0x3FF))"

definition f16_bits_to_f32 :: "u16 \<Rightarrow> u32" where
  "f16_bits_to_f32 bits =
     (let sign = ucast (and (drop_bit 15 bits) 1) :: u32;
          exp = int (unat (and (drop_bit 10 bits) 0x1F));
          mant = ucast (and bits 0x3FF) :: u32 in
      if exp = 0 then push_bit 31 sign
      else if exp = 0x1F
      then or (or (push_bit 31 sign) (push_bit 23 0xFF)) (if mant \<noteq> 0 then or (push_bit 13 mant) 0x400000 else 0)
      else or (or (push_bit 31 sign) (push_bit 23 (of_int (exp - 15 + 127)))) (push_bit 13 mant))"

definition pack_hidden_state :: "u32 list \<Rightarrow> u16 list" where
  "pack_hidden_state hidden = map f32_to_f16_bits hidden"

definition unpack_hidden_state :: "u16 list \<Rightarrow> u32 list" where
  "unpack_hidden_state hidden = map f16_bits_to_f32 hidden"


subsection \<open>One owner per expert\<close>

lemma place_experts_spec:
  assumes "0 < num_nodes" "unat num_nodes \<le> length nodes"
  shows "\<exists>p. place_experts nodes self num_nodes ids placement = Return p \<and>
    (\<forall>e. p e = (if e \<in> set ids \<and> unat (e mod num_nodes) \<noteq> self then Some (nodes ! unat (e mod num_nodes)) else placement e))"
proof (induction ids arbitrary: placement)
  case (Cons i ids)
  have s: "shard_for_expert i num_nodes = Some (i mod num_nodes)"
    using assms(1) by (auto simp: shard_for_expert_def)
  let ?placed = "if unat (i mod num_nodes) \<noteq> self then placement(i \<mapsto> nodes ! unat (i mod num_nodes)) else placement"
  from Cons.IH [of ?placed] obtain p where p: "place_experts nodes self num_nodes ids ?placed = Return p"
    "\<And>e. p e = (if e \<in> set ids \<and> unat (e mod num_nodes) \<noteq> self then Some (nodes ! unat (e mod num_nodes)) else ?placed e)"
    by blast
  have "place_experts nodes self num_nodes (i # ids) placement = Return p" using p(1) by (simp add: s del: if_split)
  moreover have "p e = (if e \<in> set (i # ids) \<and> unat (e mod num_nodes) \<noteq> self
      then Some (nodes ! unat (e mod num_nodes)) else placement e)" for e
    using p(2) [of e] by auto
  ultimately show ?case by blast
qed simp

lemma ids_below: "set (map of_nat [0 ..< unat n]) = {e :: u32. e < n}"
proof -
  have "e \<in> of_nat ` {0 ..< unat n}" if "e < n" for e :: u32
    using that by (intro image_eqI [of _ _ "unat e"]) (simp_all add: word_less_nat_alt)
  moreover have "of_nat i < n" if "i < unat n" for i :: nat
    using that unat_bound [of n] by (simp add: word_less_nat_alt unat_of_nat)
  ultimately show ?thesis by auto
qed

lemma placement_routes:
  assumes "self < length nodes" "length nodes < 2 ^ 32"
  shows "\<exists>r. from_modulo_placement nodes self n t = Return r \<and>
    (\<forall>e. route_expert r e =
       (if e < n \<and> unat e mod length nodes \<noteq> self then Remote e (nodes ! (unat e mod length nodes)) t else Local e))"
proof -
  let ?N = "of_nat (length nodes) :: u32"
  have N: "unat ?N = length nodes" using assms(2) by (simp add: unat_of_nat)
  then have "0 < ?N" using assms(1) by (auto simp: word_less_nat_alt)
  then obtain p where p: "place_experts nodes self ?N (map of_nat [0 ..< unat n]) Map.empty = Return p"
      "\<forall>e. p e = (if e < n \<and> unat (e mod ?N) \<noteq> self then Some (nodes ! unat (e mod ?N)) else None)"
    using place_experts_spec [of ?N nodes self "map of_nat [0 ..< unat n]" Map.empty] N unfolding ids_below by auto
  have "unat (e mod ?N) = unat e mod length nodes" for e by (simp add: unat_mod_distrib N)
  then show ?thesis using p assms(1) by (auto simp: from_modulo_placement_def route_expert_def)
qed

lemma push_buckets_length [simp]: "length (push_buckets n ks buckets) = length buckets"
  by (induction n ks buckets rule: push_buckets.induct) (simp_all add: Let_def)

lemma push_buckets_nth:
  "s < length buckets \<Longrightarrow> 0 < n \<Longrightarrow> length buckets = unat n \<Longrightarrow>
    push_buckets n ks buckets ! s = buckets ! s @ filter (\<lambda>e. unat (e mod n) = s) ks"
proof (induction n ks buckets rule: push_buckets.induct)
  case (2 n i ks buckets)
  have "unat (i mod n) < length buckets" using 2(3,4) by (simp add: unat_mod_distrib word_less_nat_alt)
  then show ?case using 2 by (auto simp: Let_def vec_push_def nth_list_update)
qed simp

lemma groups_spec:
  "(s, v) \<in> set (group_top_k_by_shard ks n) \<longleftrightarrow>
    s < n \<and> v \<noteq> [] \<and> v = filter (\<lambda>e. e mod n = s) ks"
proof (cases "n = 0")
  case False
  then have n: "0 < n" by (simp add: word_greater_zero_iff)
  let ?b = "push_buckets n ks (replicate (unat n) [])"
  have b: "?b ! unat s = filter (\<lambda>e. e mod n = s) ks" if "s < n" for s
    using push_buckets_nth [of "unat s" "replicate (unat n) []" n ks] that n
    by (simp add: word_less_nat_alt word_unat_eq_iff)
  have "(s, v) \<in> set (group_top_k_by_shard ks n) \<longleftrightarrow>
      (\<exists>i < unat n. s = of_nat i \<and> v = ?b ! i \<and> v \<noteq> [])"
    using False by (force simp: group_top_k_by_shard_def in_set_enumerate_eq)
  also have "\<dots> \<longleftrightarrow> s < n \<and> v = ?b ! unat s \<and> v \<noteq> []"
  proof
    assume "\<exists>i < unat n. s = of_nat i \<and> v = ?b ! i \<and> v \<noteq> []"
    then obtain i where i: "i < unat n" "s = of_nat i" "v = ?b ! i" "v \<noteq> []" by blast
    have "unat s = i" using i(1,2) unat_bound [of n] by (simp add: unat_of_nat)
    then show "s < n \<and> v = ?b ! unat s \<and> v \<noteq> []" using i by (simp add: word_less_nat_alt)
  next
    assume "s < n \<and> v = ?b ! unat s \<and> v \<noteq> []"
    then show "\<exists>i < unat n. s = of_nat i \<and> v = ?b ! i \<and> v \<noteq> []"
      by (intro exI [of _ "unat s"]) (auto simp: word_less_nat_alt)
  qed
  finally show ?thesis using b by auto
qed (simp add: group_top_k_by_shard_def)

lemma groups_distinct: "distinct (map fst (group_top_k_by_shard ks n))"
proof (cases "n = 0")
  case False
  let ?b = "push_buckets n ks (replicate (unat n) [])"
  have "map fst (group_top_k_by_shard ks n) = map of_nat (map fst (filter (\<lambda>(_, v). v \<noteq> []) (enumerate 0 ?b)))"
    using False by (simp add: group_top_k_by_shard_def o_def case_prod_unfold)
  moreover have "distinct (map fst (filter (\<lambda>(_, v). v \<noteq> []) (enumerate 0 ?b)))"
    by (rule distinct_map_filter) (simp add: map_fst_enumerate)
  moreover have "inj_on (of_nat :: nat \<Rightarrow> u32) (set (map fst (filter (\<lambda>(_, v). v \<noteq> []) (enumerate 0 ?b))))"
  proof (rule inj_onI)
    fix i j assume "i \<in> set (map fst (filter (\<lambda>(_, v). v \<noteq> []) (enumerate 0 ?b)))"
      "j \<in> set (map fst (filter (\<lambda>(_, v). v \<noteq> []) (enumerate 0 ?b)))" and eq: "(of_nat i :: u32) = of_nat j"
    then have "i < unat n" "j < unat n" by (auto simp: in_set_enumerate_eq)
    then have "unat (of_nat i :: u32) = i" "unat (of_nat j :: u32) = j" using unat_bound [of n] by (simp_all add: unat_of_nat)
    then show "i = j" using eq by metis
  qed
  ultimately show ?thesis by (simp only: distinct_map [of of_nat])
qed (simp add: group_top_k_by_shard_def)


text \<open>The routers of a mesh, one per node.\<close>

definition mesh_routers :: "string list \<Rightarrow> u32 \<Rightarrow> nat \<Rightarrow> rpc_shard_router outcome list" where
  "mesh_routers nodes num_experts default_timeout =
     map (\<lambda>self. from_modulo_placement nodes self num_experts default_timeout) [0 ..< length nodes]"



subsection \<open>Frames are read back exactly\<close>

text \<open>A reading loop inside the buffer returns the values whose encoding it covers.\<close>

lemma read_u32s_bytes:
  "off + 4 * k \<le> length buf \<Longrightarrow>
     \<exists>xs. read_u32s buf off k = Return xs \<and> length xs = k \<and>
       concat (map u32_to_le_bytes xs) = subslice buf off (4 * k)"
proof (induction k arbitrary: off)
  case 0
  then show ?case by (simp add: subslice_def)
next
  case (Suc k)
  then obtain xs where xs: "read_u32s buf (off + 4) k = Return xs" "length xs = k"
      "concat (map u32_to_le_bytes xs) = subslice buf (off + 4) (4 * k)"
    by (metis add.assoc mult_Suc_right)
  have "subslice buf off (4 * Suc k) = subslice buf off 4 @ subslice buf (off + 4) (4 * k)"
    using slice_split [of buf off 4 "4 * k"] by simp
  then show ?case using xs Suc.prems by (simp add: u32_bytes_of_slice)
qed

lemma read_u16s_bytes:
  "off + 2 * k \<le> length buf \<Longrightarrow>
     \<exists>xs. read_u16s buf off k = Return xs \<and> length xs = k \<and>
       concat (map u16_to_le_bytes xs) = subslice buf off (2 * k)"
proof (induction k arbitrary: off)
  case 0
  then show ?case by (simp add: subslice_def)
next
  case (Suc k)
  then obtain xs where xs: "read_u16s buf (off + 2) k = Return xs" "length xs = k"
      "concat (map u16_to_le_bytes xs) = subslice buf (off + 2) (2 * k)"
    by (metis add.assoc mult_Suc_right)
  have "subslice buf off (2 * Suc k) = subslice buf off 2 @ subslice buf (off + 2) (2 * k)"
    using slice_split [of buf off 2 "2 * k"] by simp
  then show ?case using xs Suc.prems by (simp add: u16_bytes_of_slice)
qed

lemma read_u32s_append:
  "off = length pre \<Longrightarrow> read_u32s (pre @ concat (map u32_to_le_bytes xs) @ rest) off (length xs) = Return xs"
proof (induction xs arbitrary: pre off)
  case (Cons x xs)
  have "read_u32s ((pre @ u32_to_le_bytes x) @ concat (map u32_to_le_bytes xs) @ rest) (off + 4) (length xs) = Return xs"
    by (rule Cons.IH) (simp add: Cons.prems)
  then show ?case by (simp add: Cons.prems slice_skip) (simp add: subslice_def)
qed simp

lemma read_u16s_append:
  "off = length pre \<Longrightarrow> read_u16s (pre @ concat (map u16_to_le_bytes xs) @ rest) off (length xs) = Return xs"
proof (induction xs arbitrary: pre off)
  case (Cons x xs)
  have "read_u16s ((pre @ u16_to_le_bytes x) @ concat (map u16_to_le_bytes xs) @ rest) (off + 2) (length xs) = Return xs"
    by (rule Cons.IH) (simp add: Cons.prems)
  then show ?case by (simp add: Cons.prems slice_skip) (simp add: subslice_def)
qed simp

lemma length_words [simp]:
  "length (concat (map u32_to_le_bytes xs)) = 4 * length xs"
  "length (concat (map u16_to_le_bytes ys)) = 2 * length ys"
  by (induction xs, simp_all) (induction ys, simp_all)

lemma slice_prefix: "n \<le> length xs \<Longrightarrow> subslice (xs @ ys) 0 n = take n xs"
  by (simp add: subslice_def)

text \<open>The fields of a frame whose header is followed by the ids and the activations.\<close>

lemma u64_bytes_of_slice: "length bs = 8 \<Longrightarrow> u64_to_le_bytes (u64_from_le_bytes bs) = bs"
  using le_bytes_le_value [of bs] le_value_bound [of bs] by (simp add: rust_defs unat_of_nat)

lemma unat_of_small: "n < 2 ^ 32 \<Longrightarrow> unat (of_nat n :: u32) = n"
  by (simp add: unat_of_nat)

lemma request_read_back:
  assumes "encode_request r = Return bytes" "length (rq_expert_ids r) < 2 ^ 32" "\<forall>n\<le>length bytes. granted n"
  shows "decode_request granted (bytes @ rest) = Return (Inr r)"
proof -
  obtain i l d ids hs where r: "r = \<lparr>rq_request_id = i, rq_layer_idx = l, rq_d_model = d,
      rq_expert_ids = ids, rq_hidden_state_f16 = hs\<rparr>" by (cases r)
  have len: "length hs = unat d" and bytes: "bytes = u64_to_le_bytes i @ u32_to_le_bytes l @ u32_to_le_bytes d @
      u32_to_le_bytes (of_nat (length ids)) @ concat (map u32_to_le_bytes ids) @ concat (map u16_to_le_bytes hs)"
    using assms(1) by (auto simp: r encode_request_def split: if_splits)
  have k: "unat (of_nat (length ids) :: u32) = length ids" using assms(2) by (intro unat_of_small) (simp add: r)
  have size: "length bytes = 20 + 4 * length ids + 2 * unat d" by (simp add: bytes len)
  have ids: "read_u32s (bytes @ rest) 20 (length ids) = Return ids"
    using read_u32s_append [of 20 "u64_to_le_bytes i @ u32_to_le_bytes l @ u32_to_le_bytes d @
      u32_to_le_bytes (of_nat (length ids))" ids "concat (map u16_to_le_bytes hs) @ rest"] by (simp add: bytes)
  have hs: "read_u16s (bytes @ rest) (20 + 4 * length ids) (unat d) = Return hs"
    using read_u16s_append [of "20 + 4 * length ids" "u64_to_le_bytes i @ u32_to_le_bytes l @ u32_to_le_bytes d @
      u32_to_le_bytes (of_nat (length ids)) @ concat (map u32_to_le_bytes ids)" hs rest] by (simp add: bytes len)
  have fields: "subslice (bytes @ rest) 0 8 = u64_to_le_bytes i" "subslice (bytes @ rest) 8 4 = u32_to_le_bytes l"
    "subslice (bytes @ rest) 12 4 = u32_to_le_bytes d" "subslice (bytes @ rest) 16 4 = u32_to_le_bytes (of_nat (length ids))"
    by (simp_all add: bytes slice_skip slice_prefix)
  show ?thesis using assms(3) size
    by (simp add: decode_request_def fields k ids hs r)
qed

lemma request_read_exact:
  assumes "decode_request granted buf = Return (Inr r)"
  shows "length (rq_expert_ids r) < 2 ^ 32 \<and> (\<exists>bytes rest. encode_request r = Return bytes \<and> buf = bytes @ rest)"
proof -
  define d where "d = u32_from_le_bytes (subslice buf 12 4)"
  define c where "c = u32_from_le_bytes (subslice buf 16 4)"
  let ?k = "unat c"
  have size: "20 + 4 * ?k + 2 * unat d \<le> length buf"
    using assms by (auto simp: decode_request_def Let_def c_def d_def split: if_splits)
  obtain ids where ids: "read_u32s buf 20 ?k = Return ids" "length ids = ?k"
      "concat (map u32_to_le_bytes ids) = subslice buf 20 (4 * ?k)"
    using read_u32s_bytes [of 20 ?k buf] size by auto
  obtain hs where hs: "read_u16s buf (20 + 4 * ?k) (unat d) = Return hs" "length hs = unat d"
      "concat (map u16_to_le_bytes hs) = subslice buf (20 + 4 * ?k) (2 * unat d)"
    using read_u16s_bytes [of "20 + 4 * ?k" "unat d" buf] size by auto
  have r: "r = \<lparr>rq_request_id = u64_from_le_bytes (subslice buf 0 8), rq_layer_idx = u32_from_le_bytes (subslice buf 8 4),
      rq_d_model = d, rq_expert_ids = ids, rq_hidden_state_f16 = hs\<rparr>"
    using assms ids(1) hs(1) by (auto simp: decode_request_def Let_def c_def d_def obind_Return_iff split: if_splits)
  let ?n = "20 + 4 * ?k + 2 * unat d"
  have split: "subslice buf 0 ?n = subslice buf 0 8 @ subslice buf 8 4 @ subslice buf 12 4 @ subslice buf 16 4 @
      subslice buf 20 (4 * ?k) @ subslice buf (20 + 4 * ?k) (2 * unat d)"
    using slice_split [of buf 0 8 "?n - 8"] slice_split [of buf 8 4 "?n - 12"] slice_split [of buf 12 4 "?n - 16"]
      slice_split [of buf 16 4 "?n - 20"] slice_split [of buf 20 "4 * ?k" "2 * unat d"]
    by (simp add: add.assoc)
  have head: "u64_to_le_bytes (u64_from_le_bytes (subslice buf 0 8)) = subslice buf 0 8"
      "u32_to_le_bytes (u32_from_le_bytes (subslice buf 8 4)) = subslice buf 8 4"
      "u32_to_le_bytes d = subslice buf 12 4" "u32_to_le_bytes (of_nat (length ids)) = subslice buf 16 4"
    using size ids(2) by (simp_all add: u64_bytes_of_slice u32_bytes_of_slice d_def c_def)
  have "encode_request r = Return (subslice buf 0 ?n)"
    unfolding split by (simp add: encode_request_def r hs(2,3) ids(3) head)
  moreover have "buf = subslice buf 0 ?n @ drop ?n buf" by (simp add: subslice_def)
  ultimately show ?thesis using ids(2) unat_bound [of c] by (auto simp: r)
qed

lemma request_decode_returns:
  assumes "\<forall>n\<le>length buf. granted n"
  shows "decode_request granted buf \<noteq> Panic"
proof -
  define d where "d = u32_from_le_bytes (subslice buf 12 4)"
  define c where "c = u32_from_le_bytes (subslice buf 16 4)"
  show ?thesis
  proof (cases "length buf < 20 \<or> length buf < 20 + 4 * unat c + 2 * unat d")
    case True
    then show ?thesis by (auto simp: decode_request_def Let_def c_def d_def)
  next
    case False
    then obtain ids hs where "read_u32s buf 20 (unat c) = Return ids" "read_u16s buf (20 + 4 * unat c) (unat d) = Return hs"
      using read_u32s_bytes [of 20 "unat c" buf] read_u16s_bytes [of "20 + 4 * unat c" "unat d" buf] by auto
    then show ?thesis using False assms by (simp add: decode_request_def Let_def flip: c_def d_def)
  qed
qed


lemma read_u16s_in_range: "read_u16s buf off k = Return xs \<Longrightarrow> k = 0 \<or> off + 2 * k \<le> length buf"
proof (induction k arbitrary: off xs)
  case (Suc k)
  then obtain ys where "read_u16s buf (off + 2) k = Return ys" "off + 2 \<le> length buf"
    by (auto simp: obind_Return_iff split: if_splits)
  then show ?case using Suc.IH [of "off + 2" ys] by auto
qed simp

lemma read_u32s_in_range: "read_u32s buf off k = Return xs \<Longrightarrow> k = 0 \<or> off + 4 * k \<le> length buf"
proof (induction k arbitrary: off xs)
  case (Suc k)
  then obtain ys where "read_u32s buf (off + 4) k = Return ys" "off + 4 \<le> length buf"
    by (auto simp: obind_Return_iff split: if_splits)
  then show ?case using Suc.IH [of "off + 4" ys] by auto
qed simp

text \<open>The size a response header announces, before it is reduced to the width of \<open>usize\<close>.\<close>

definition announced_size :: "u8 list \<Rightarrow> nat" where
  "announced_size buf =
     (let d = unat (u32_from_le_bytes (subslice buf 8 4)); k = unat (u32_from_le_bytes (subslice buf 12 4)) in
      16 + 4 * k + 2 * d * k)"

lemma response_size: "(16 + 4 * k + 2 * d * k mod 2 ^ 64) mod 2 ^ 64 = (16 + 4 * k + 2 * d * k) mod (2 ^ 64 :: nat)"
  by (rule mod_add_right_eq)

lemma response_read_back:
  assumes "encode_response r = Return bytes" "length (rp_expert_ids r) < 2 ^ 32" "length bytes < 2 ^ 64"
    "\<forall>n\<le>length bytes. granted n"
  shows "decode_response granted (bytes @ rest) = Return (Inr r)"
proof -
  obtain i d ids hs where r: "r = \<lparr>rp_request_id = i, rp_d_model = d, rp_expert_ids = ids, rp_ffn_out_f16 = hs\<rparr>"
    by (cases r)
  have len: "length hs = length ids * unat d" and bytes: "bytes = u64_to_le_bytes i @ u32_to_le_bytes d @
      u32_to_le_bytes (of_nat (length ids)) @ concat (map u32_to_le_bytes ids) @ concat (map u16_to_le_bytes hs)"
    using assms(1) by (auto simp: r encode_response_def split: if_splits)
  have k: "unat (of_nat (length ids) :: u32) = length ids" using assms(2) by (intro unat_of_small) (simp add: r)
  have size: "length bytes = 16 + 4 * length ids + 2 * unat d * length ids" by (simp add: bytes len mult.commute)
  have fit: "(16 + 4 * length ids + 2 * unat d * length ids mod 2 ^ 64) mod 2 ^ 64 = length bytes"
    unfolding response_size using size assms(3) by simp
  have ids: "read_u32s (bytes @ rest) 16 (length ids) = Return ids"
    using read_u32s_append [of 16 "u64_to_le_bytes i @ u32_to_le_bytes d @
      u32_to_le_bytes (of_nat (length ids))" ids "concat (map u16_to_le_bytes hs) @ rest"] by (simp add: bytes)
  have hs: "read_u16s (bytes @ rest) (16 + 4 * length ids) (unat d * length ids) = Return hs"
    using read_u16s_append [of "16 + 4 * length ids" "u64_to_le_bytes i @ u32_to_le_bytes d @
      u32_to_le_bytes (of_nat (length ids)) @ concat (map u32_to_le_bytes ids)" hs rest]
    by (simp add: bytes len mult.commute)
  have fields: "subslice (bytes @ rest) 0 8 = u64_to_le_bytes i" "subslice (bytes @ rest) 8 4 = u32_to_le_bytes d"
    "subslice (bytes @ rest) 12 4 = u32_to_le_bytes (of_nat (length ids))"
    by (simp_all add: bytes slice_skip slice_prefix)
  have granted: "granted (4 * length ids)" "granted (2 * (unat d * length ids))" using assms(4) size by simp_all
  have long: "\<not> length (bytes @ rest) < 16" "\<not> length (bytes @ rest) < length bytes" using size by simp_all
  show ?thesis
    unfolding decode_response_def Let_def fields u32_roundtrip u64_roundtrip k fit ids hs obind.simps
      if_not_P [OF long(1)] if_not_P [OF long(2)] by (simp add: granted r)
qed

lemma response_read_exact:
  assumes "decode_response granted buf = Return (Inr r)" "length buf < 2 ^ 64"
  shows "length (rp_expert_ids r) < 2 ^ 32 \<and> (\<exists>bytes rest. encode_response r = Return bytes \<and> buf = bytes @ rest)"
proof -
  define d where "d = u32_from_le_bytes (subslice buf 8 4)"
  define c where "c = u32_from_le_bytes (subslice buf 12 4)"
  let ?k = "unat c" and ?m = "unat d * unat c"
  have long: "16 \<le> length buf" and wrapped: "(16 + 4 * ?k + 2 * unat d * ?k) mod 2 ^ 64 \<le> length buf"
    using assms unfolding decode_response_def Let_def response_size by (auto simp: c_def d_def split: if_splits)
  obtain ids hs where read: "read_u32s buf 16 ?k = Return ids" "read_u16s buf (16 + 4 * ?k) ?m = Return hs"
    and r: "r = \<lparr>rp_request_id = u64_from_le_bytes (subslice buf 0 8), rp_d_model = d, rp_expert_ids = ids, rp_ffn_out_f16 = hs\<rparr>"
    using assms by (auto simp: decode_response_def Let_def c_def d_def obind_Return_iff split: if_splits)
  have size: "16 + 4 * ?k + 2 * ?m \<le> length buf"
    using read_u32s_in_range [OF read(1)] read_u16s_in_range [OF read(2)] long by auto
  then have ids: "length ids = ?k" "concat (map u32_to_le_bytes ids) = subslice buf 16 (4 * ?k)"
    using read_u32s_bytes [of 16 ?k buf] read(1) by auto
  have hs: "length hs = ?m" "concat (map u16_to_le_bytes hs) = subslice buf (16 + 4 * ?k) (2 * ?m)"
    using read_u16s_bytes [of "16 + 4 * ?k" ?m buf] size read(2) by auto
  let ?n = "16 + 4 * ?k + 2 * ?m"
  have split: "subslice buf 0 ?n = subslice buf 0 8 @ subslice buf 8 4 @ subslice buf 12 4 @
      subslice buf 16 (4 * ?k) @ subslice buf (16 + 4 * ?k) (2 * ?m)"
    using slice_split [of buf 0 8 "?n - 8"] slice_split [of buf 8 4 "?n - 12"] slice_split [of buf 12 4 "?n - 16"]
      slice_split [of buf 16 "4 * ?k" "2 * ?m"]
    by (simp add: add.assoc)
  have head: "u64_to_le_bytes (u64_from_le_bytes (subslice buf 0 8)) = subslice buf 0 8"
      "u32_to_le_bytes d = subslice buf 8 4" "u32_to_le_bytes c = subslice buf 12 4"
    using size by (simp_all add: u64_bytes_of_slice u32_bytes_of_slice d_def c_def)
  have "encode_response r = Return (subslice buf 0 ?n)"
    unfolding split using hs(1) ids(1) by (simp add: encode_response_def r hs(2) ids(2) head)
  moreover have "buf = subslice buf 0 ?n @ drop ?n buf" by (simp add: subslice_def)
  ultimately show ?thesis using ids(1) unat_bound [of c] by (auto simp: r)
qed

lemma response_decode_panics_iff:
  assumes "\<forall>n\<le>length buf. granted n"
  shows "decode_response granted buf = Panic \<longleftrightarrow>
    16 \<le> length buf \<and> announced_size buf mod 2 ^ 64 \<le> length buf \<and> length buf < announced_size buf"
proof -
  define d where "d = u32_from_le_bytes (subslice buf 8 4)"
  define c where "c = u32_from_le_bytes (subslice buf 12 4)"
  let ?k = "unat c" and ?m = "unat d * unat c"
  have size: "announced_size buf = 16 + 4 * ?k + 2 * unat d * ?k"
    by (simp add: announced_size_def Let_def c_def d_def)
  show ?thesis
  proof (cases "length buf < 16 \<or> length buf < announced_size buf mod 2 ^ 64")
    case True
    then show ?thesis unfolding decode_response_def Let_def response_size by (auto simp: size simp flip: c_def d_def)
  next
    case False
    then have ok: "\<not> length buf < 16" "\<not> length buf < (16 + 4 * ?k + 2 * unat d * ?k) mod 2 ^ 64" by (simp_all add: size)
    have run: "decode_response granted buf = Panic \<longleftrightarrow>
        \<not> granted (4 * ?k) \<or> read_u32s buf 16 ?k = Panic \<or> \<not> granted (2 * ?m) \<or> read_u16s buf (16 + 4 * ?k) ?m = Panic"
      unfolding decode_response_def Let_def response_size c_def [symmetric] d_def [symmetric] if_not_P [OF ok(1)] if_not_P [OF ok(2)]
      by (cases "read_u32s buf 16 ?k"; cases "read_u16s buf (16 + 4 * ?k) ?m") simp_all
    show ?thesis
    proof (cases "length buf < announced_size buf")
      case True
      have "read_u32s buf 16 ?k = Panic \<or> read_u16s buf (16 + 4 * ?k) ?m = Panic"
      proof (rule ccontr)
        assume "\<not> ?thesis"
        then obtain xs ys where "read_u32s buf 16 ?k = Return xs" "read_u16s buf (16 + 4 * ?k) ?m = Return ys"
          by (metis outcome.exhaust)
        from read_u32s_in_range [OF this(1)] read_u16s_in_range [OF this(2)] show False
          using True False by (auto simp: size)
      qed
      then show ?thesis using run True False by auto
    next
      case ge: False
      then have "granted (4 * ?k)" "granted (2 * ?m)" using assms by (simp_all add: size)
      moreover have "read_u32s buf 16 ?k \<noteq> Panic" "read_u16s buf (16 + 4 * ?k) ?m \<noteq> Panic"
        using ge read_u32s_bytes [of 16 ?k buf] read_u16s_bytes [of "16 + 4 * ?k" ?m buf] by (auto simp: size)
      ultimately show ?thesis using run ge by auto
    qed
  qed
qed

text \<open>C11: Given the allocations up to the size of the frame, decoding a request never panics, and both
  decoders accept a frame exactly when it starts with the encoding of a value with fewer than \<open>2 ^ 32\<close>
  experts, which is the value they return: encoding and decoding are inverse, trailing bytes are ignored,
  and nothing else is accepted.\<close>

theorem shard_frames_exact:
  assumes "length buf < 2 ^ 63" "\<forall>n\<le>length buf. granted n"
  shows "decode_request granted buf \<noteq> Panic \<and>
    (\<forall>r. decode_request granted buf = Return (Inr r) \<longleftrightarrow>
      length (rq_expert_ids r) < 2 ^ 32 \<and> (\<exists>bytes rest. encode_request r = Return bytes \<and> buf = bytes @ rest)) \<and>
    (\<forall>r. decode_response granted buf = Return (Inr r) \<longleftrightarrow>
      length (rp_expert_ids r) < 2 ^ 32 \<and> (\<exists>bytes rest. encode_response r = Return bytes \<and> buf = bytes @ rest))"
proof (intro conjI allI iffI)
  show "decode_request granted buf \<noteq> Panic" by (rule request_decode_returns) (rule assms(2))
  show "decode_request granted buf = Return (Inr r)"
    if "length (rq_expert_ids r) < 2 ^ 32 \<and> (\<exists>bytes rest. encode_request r = Return bytes \<and> buf = bytes @ rest)" for r
    using that assms request_read_back [of r] by force
  show "decode_response granted buf = Return (Inr r)"
    if "length (rp_expert_ids r) < 2 ^ 32 \<and> (\<exists>bytes rest. encode_response r = Return bytes \<and> buf = bytes @ rest)" for r
    using that assms response_read_back [of r] by force
qed (use assms request_read_exact response_read_exact [of granted buf] in auto)

definition demo_request :: route_request where
  "demo_request = \<lparr>rq_request_id = 7, rq_layer_idx = 3, rq_d_model = 1, rq_expert_ids = [5, 9], rq_hidden_state_f16 = [0x3C00]\<rparr>"

theorem shard_frames_exact_witness:
  "\<exists>bytes. encode_request demo_request = Return bytes \<and> length bytes = 30 \<and>
    decode_request (\<lambda>n. n \<le> 40) (bytes @ [1, 2, 3]) = Return (Inr demo_request)"
proof -
  obtain bytes where bytes: "encode_request demo_request = Return bytes" "length bytes = 30"
    by (simp add: encode_request_def demo_request_def)
  moreover have "length (bytes @ [1, 2, 3]) < 2 ^ 63" "\<forall>n\<le>length (bytes @ [1, 2, 3]). n \<le> (40 :: nat)"
    "length (rq_expert_ids demo_request) < 2 ^ 32"
    by (simp_all add: bytes(2) demo_request_def)
  ultimately show ?thesis
    using shard_frames_exact [of "bytes @ [1, 2, 3]" "\<lambda>n. n \<le> 40"] by blast
qed

text \<open>C38: Decoding a response panics, whatever the allocator grants up to the size of the frame, exactly when
  the size its header announces exceeds the frame although its remainder modulo \<open>2 ^ 64\<close> does not: the
  length check compares the wrapped size. A frame of 16 bytes is enough.\<close>

theorem response_decode_panics:
  assumes "\<forall>n\<le>length buf. granted n"
  shows "decode_response granted buf = Panic \<longleftrightarrow>
    16 \<le> length buf \<and> announced_size buf mod 2 ^ 64 \<le> length buf \<and> length buf < announced_size buf"
  by (rule response_decode_panics_iff) (rule assms)

theorem response_decode_panics_witness:
  "decode_response (\<lambda>_. True) [0, 0, 0, 0, 0, 0, 0, 0, 255, 255, 255, 255, 255, 255, 255, 255] = Panic"
proof -
  let ?frame = "[0, 0, 0, 0, 0, 0, 0, 0, 255, 255, 255, 255, 255, 255, 255, 255] :: u8 list"
  have "announced_size ?frame = 2 ^ 65 + 14"
    by (simp add: announced_size_def subslice_def u32_from_le_bytes_def)
  then show ?thesis using response_decode_panics [of ?frame "\<lambda>_. True"] by simp
qed

subsection \<open>Narrowing\<close>

lemma bit_bound:
  assumes "unat (w :: 'a::len word) < 2 ^ k" "bit w n"
  shows "n < k"
proof (rule ccontr)
  assume "\<not> n < k"
  then have "(2 :: nat) ^ k \<le> 2 ^ n" by simp
  moreover have "bit (unat w) n" using assms(2) by (simp add: bit_unsigned_iff)
  then have "odd (unat w div 2 ^ n)" by (simp add: bit_iff_odd)
  then have "unat w div 2 ^ n \<noteq> 0" by (metis even_zero)
  then have "2 ^ n \<le> unat w" by (metis div_less not_less)
  ultimately show False using assms(1) by linarith
qed

lemma push_or_add:
  assumes "unat (w :: 'a::len word) < 2 ^ k"
  shows "or (push_bit k v) w = push_bit k v + w"
  by (rule disjunctive_add [symmetric]) (auto simp: bit_push_bit_iff dest: bit_bound [OF assms])

lemma unat_push:
  assumes "unat (v :: 'a::len word) * 2 ^ k < 2 ^ LENGTH('a)"
  shows "unat (push_bit k v) = unat v * 2 ^ k"
proof -
  have "unat (push_bit k v) = take_bit LENGTH('a) (push_bit k (unat v))" by (rule unsigned_push_bit_eq)
  also have "\<dots> = unat v * 2 ^ k" using assms by (simp add: push_bit_eq_mult take_bit_eq_mod)
  finally show ?thesis .
qed

lemma unat_push_or:
  assumes "unat (w :: 'a::len word) < 2 ^ k" "unat v * 2 ^ k + unat w < 2 ^ LENGTH('a)"
  shows "unat (or (push_bit k v) w) = unat v * 2 ^ k + unat w"
proof -
  have "unat (push_bit k v) = unat v * 2 ^ k" using assms(2) by (intro unat_push) simp
  then show ?thesis unfolding push_or_add [OF assms(1)] using assms(2) by (simp add: unat_word_ariths)
qed

lemma field_mask: "unat (and (drop_bit i w) (mask k)) = unat (w :: 'a::len word) div 2 ^ i mod 2 ^ k"
proof -
  have "unat (and (drop_bit i w) (mask k)) = take_bit k (unat (drop_bit i w))"
    unfolding take_bit_eq_mask [symmetric] by (rule unsigned_take_bit_eq)
  also have "unat (drop_bit i w) = drop_bit i (unat w)" by (rule unat_drop_bit_eq)
  also have "\<dots> = unat w div 2 ^ i" by (rule drop_bit_eq_div)
  finally show ?thesis by (simp add: take_bit_eq_mod)
qed

lemma masks: "(1 :: 'a::len word) = mask 1" "(0x1F :: u16) = mask 5" "(0xFF :: u32) = mask 8" "(0x3FF :: u16) = mask 10"
    "(0xFFF :: u32) = mask 12" "(0x7FFFFF :: u32) = mask 23"
  by (simp_all add: mask_eq_exp_minus_1)

lemma unat_top_bit: "unat (w :: 'a::len word) div 2 ^ (LENGTH('a) - 1) < 2"
proof -
  have "unat w < 2 * 2 ^ (LENGTH('a) - 1)" using unat_bound [of w] by (simp flip: power_Suc)
  then show ?thesis by (simp add: less_mult_imp_div_less)
qed

lemma f32_fields:
  "unat (and (drop_bit 31 b) 1) = unat (b :: u32) div 2 ^ 31"
  "unat (and (drop_bit 23 b) 0xFF) = unat b div 2 ^ 23 mod 2 ^ 8"
  "unat (and b 0x7FFFFF) = unat b mod 2 ^ 23"
  using field_mask [of 31 b 1] field_mask [of 23 b 8] field_mask [of 0 b 23] unat_top_bit [of b]
  unfolding masks by simp_all

lemma f16_fields:
  "unat (and (drop_bit 15 b) 1) = unat (b :: u16) div 2 ^ 15"
  "unat (and (drop_bit 10 b) 0x1F) = unat b div 2 ^ 10 mod 2 ^ 5"
  "unat (and b 0x3FF) = unat b mod 2 ^ 10"
  using field_mask [of 15 b 1] field_mask [of 10 b 5] field_mask [of 0 b 10] unat_top_bit [of b]
  unfolding masks by simp_all

lemma unat_ucast_less: "unat (w :: 'a::len word) < 2 ^ LENGTH('b::len) \<Longrightarrow> unat (ucast w :: 'b word) = unat w"
  by (simp add: unsigned_ucast_eq take_bit_nat_eq_self)

lemma low_bit: "and (drop_bit i (w :: 'a::len word)) 1 = 1 \<longleftrightarrow> odd (unat w div 2 ^ i)"
proof -
  have "unat (and (drop_bit i w) 1) = unat w div 2 ^ i mod 2" using field_mask [of i w 1] by (simp flip: masks(1))
  then show ?thesis by (auto simp: word_unat_eq_iff mod_2_eq_odd)
qed

text \<open>In range, the magnitude of the result is the magnitude of the input, rebased by the difference of the
  exponent biases, divided by \<open>2 ^ 13\<close> and rounded to nearest even: the exponent carry is the carry of
  that sum.\<close>

definition f16_magnitude :: "nat \<Rightarrow> nat" where
  "f16_magnitude x =
     (let q = (x - 112 * 2 ^ 23) div 2 ^ 13; r = x mod 2 ^ 13 in
      if 2 ^ 12 < r \<or> r = 2 ^ 12 \<and> odd q then q + 1 else q)"

lemma f16_assemble:
  assumes "unat (s :: u16) < 2" "unat (e :: u16) < 32" "unat (m :: u16) < 1024"
  shows "unat (or (or (push_bit 15 s) (push_bit 10 e)) m) = unat s * 2 ^ 15 + unat e * 2 ^ 10 + unat m"
    "unat (or (push_bit 15 s) (push_bit 10 e)) = unat s * 2 ^ 15 + unat e * 2 ^ 10"
    "unat (push_bit 15 s) = unat s * 2 ^ 15"
proof -
  have m: "unat (or (push_bit 10 e) m) = unat e * 2 ^ 10 + unat m" using assms(2,3) by (intro unat_push_or) simp_all
  have e: "unat (push_bit 10 e) = unat e * 2 ^ 10" using assms(2) by (intro unat_push) simp
  show "unat (or (or (push_bit 15 s) (push_bit 10 e)) m) = unat s * 2 ^ 15 + unat e * 2 ^ 10 + unat m"
    unfolding or.assoc using assms m unat_push_or [of "or (push_bit 10 e) m" 15 s] by simp
  show "unat (or (push_bit 15 s) (push_bit 10 e)) = unat s * 2 ^ 15 + unat e * 2 ^ 10"
    using assms e unat_push_or [of "push_bit 10 e" 15 s] by simp
  show "unat (push_bit 15 s) = unat s * 2 ^ 15" using assms(1) by (intro unat_push) simp
qed

lemma unat_of_exponent: "0 \<le> e \<Longrightarrow> e < 65536 \<Longrightarrow> unat (of_int e :: u16) = nat e"
  by (cases e) (simp_all add: unat_of_nat)

lemma f32_to_f16_in_range:
  fixes b :: u32
  defines "x \<equiv> unat b mod 2 ^ 31"
  assumes e: "113 \<le> x div 2 ^ 23" "x div 2 ^ 23 \<le> 142"
  shows "unat (f32_to_f16_bits b) = unat b div 2 ^ 31 * 2 ^ 15 + f16_magnitude x"
proof -
  define S where "S = unat b div 2 ^ 31"
  define E where "E = unat b div 2 ^ 23 mod 2 ^ 8"
  define M where "M = unat b mod 2 ^ 23"
  have bits: "x = E * 2 ^ 23 + M" "M < 2 ^ 23" "S < 2"
    using unat_top_bit [of b] mod_mult2_eq [of "unat b" "2 ^ 23" "2 ^ 8"] by (simp_all add: x_def S_def E_def M_def)
  have E: "E = x div 2 ^ 23" using bits by simp
  have n: "113 \<le> E" "E \<le> 142" using e E by simp_all
  let ?mant = "and b 0x7FFFFF"
  let ?sign = "ucast (and (drop_bit 31 b) 1) :: u16" and ?m = "ucast (drop_bit 13 ?mant) :: u16"
  define q where "q = M div 2 ^ 13"
  define r where "r = M mod 2 ^ 13"
  have q: "q < 1024" using bits(2) by (simp add: q_def less_mult_imp_div_less)
  have mant: "unat ?mant = M" using f32_fields(3) [of b] by (simp add: M_def)
  have sign: "unat ?sign = S" using f32_fields(1) [of b] bits(3) by (simp add: S_def unat_ucast_less)
  have dm: "unat (drop_bit 13 ?mant) = q" using mant by (simp only: unat_drop_bit_eq q_def) (simp add: drop_bit_eq_div)
  have m: "unat ?m = q" using dm q by (simp add: unat_ucast_less)
  have exp: "int (unat (and (drop_bit 23 b) 0xFF)) = int E" using f32_fields(2) [of b] by (simp add: E_def)
  have ne: "int E \<noteq> 0xFF" "\<not> int E - 127 + 15 \<ge> 0x1F" "\<not> int E - 127 + 15 \<le> 0" using n by simp_all
  have round: "and (drop_bit 12 ?mant) 1 = 1 \<longleftrightarrow> odd (M div 2 ^ 12)" using low_bit [of 12 ?mant] mant by simp
  have odd_m: "and ?m 1 = 1 \<longleftrightarrow> odd q" using low_bit [of 0 ?m] m by simp
  have sticky: "and ?mant 0xFFF \<noteq> 0 \<longleftrightarrow> M mod 2 ^ 12 \<noteq> 0"
    using field_mask [of 0 ?mant 12] mant unfolding masks by (simp add: word_unat_eq_iff)
  let ?e = "\<lambda>k. of_int (int E - 127 + 15 + k) :: u16"
  let ?up = "odd (M div 2 ^ 12) \<and> (M mod 2 ^ 12 \<noteq> 0 \<or> odd q)"
  have eq: "f32_to_f16_bits b =
      (if ?up then if ?m + 1 = 0x400 then or (push_bit 15 ?sign) (push_bit 10 (?e 1))
                   else or (or (push_bit 15 ?sign) (push_bit 10 (?e 0))) (and (?m + 1) 0x3FF)
       else or (or (push_bit 15 ?sign) (push_bit 10 (?e 0))) (and ?m 0x3FF))"
    unfolding f32_to_f16_bits_def Let_def exp if_not_P [OF ne(1)] if_not_P [OF ne(2)] if_not_P [OF ne(3)]
      round sticky odd_m by simp
  have ue: "unat (?e 0) = E - 112" "unat (?e 1) = E - 111" 
  proof -
    have "unat (?e k) = nat (int E - 127 + 15 + k)" if "0 \<le> k" "k \<le> 1" for k
      by (rule unat_of_exponent) (use n that in simp_all)
    moreover have "nat (int E - 127 + 15 + 0) = E - 112" "nat (int E - 127 + 15 + 1) = E - 111" using n by simp_all
    ultimately show "unat (?e 0) = E - 112" "unat (?e 1) = E - 111" by (metis zero_le_one order_refl)+
  qed
  have um: "unat (and ?m 0x3FF) = q" using f16_fields(3) [of ?m] m q by simp
  have up1: "unat (?m + 1) = q + 1" using m q by (simp add: unat_word_ariths)
  have carry: "?m + 1 = 0x400 \<longleftrightarrow> q + 1 = 1024" using up1 by (simp add: word_unat_eq_iff)
  have um1: "unat (and (?m + 1) 0x3FF) = q + 1" if "q + 1 \<noteq> 1024" using f16_fields(3) [of "?m + 1"] up1 q that by simp
  have sum: "unat (f32_to_f16_bits b) = S * 2 ^ 15 + ((E - 112) * 2 ^ 10 + q + (if ?up then 1 else 0))"
  proof (cases "?up \<and> q + 1 = 1024")
    case True
    then have c: "?up" "?m + 1 = 0x400" using carry by simp_all
    have "f32_to_f16_bits b = or (push_bit 15 ?sign) (push_bit 10 (?e 1))"
      unfolding eq if_P [OF c(1)] if_P [OF c(2)] by (rule refl)
    moreover have "(E - 111) * 2 ^ 10 = (E - 112) * 2 ^ 10 + 2 ^ 10" using n by (simp add: algebra_simps)
    ultimately show ?thesis using f16_assemble(2) [of ?sign "?e 1" 0] sign ue n bits(3) True by simp
  next
    case False
    then have "\<not> (?up \<and> ?m + 1 = 0x400)" using carry by simp
    then have "f32_to_f16_bits b = or (or (push_bit 15 ?sign) (push_bit 10 (?e 0))) (and (if ?up then ?m + 1 else ?m) 0x3FF)"
      unfolding eq by (simp only: split: if_split) blast
    moreover have "unat (and (if ?up then ?m + 1 else ?m) 0x3FF) = q + (if ?up then 1 else 0)"
    proof (cases ?up)
      case True
      then have "q + 1 \<noteq> 1024" using False by blast
      from um1 [OF this] show ?thesis unfolding if_P [OF True] .
    next
      case nup: False
      show ?thesis unfolding if_not_P [OF nup] um by (rule add_0_right [symmetric])
    qed
    moreover have "q + (if ?up then 1 else 0) < 1024" using False q by auto
    ultimately show ?thesis
      using f16_assemble(1) [of ?sign "?e 0" "and (if ?up then ?m + 1 else ?m) 0x3FF"] sign ue n bits(3) by simp
  qed
  have "(x - 112 * 2 ^ 23) div 2 ^ 13 = (E - 112) * 2 ^ 10 + q"
  proof -
    have "x - 112 * 2 ^ 23 = ((E - 112) * 2 ^ 10) * 2 ^ 13 + M" using bits(1) n by (simp add: algebra_simps)
    then show ?thesis by (simp add: q_def)
  qed
  moreover have "x mod 2 ^ 13 = r"
  proof -
    have "x = (E * 2 ^ 10) * 2 ^ 13 + M" using bits(1) by simp
    then show ?thesis by (simp only: mod_mult_self3 r_def)
  qed
  moreover have "r = M div 2 ^ 12 mod 2 * 2 ^ 12 + M mod 2 ^ 12"
    using mod_mult2_eq [of M "2 ^ 12" 2] by (simp add: r_def)
  then have "2 ^ 12 < r \<or> r = 2 ^ 12 \<and> odd ((E - 112) * 2 ^ 10 + q) \<longleftrightarrow> ?up"
    using mod_less_divisor [of "2 ^ 12" M] by (cases "odd (M div 2 ^ 12)") (auto simp: odd_iff_mod_2_eq_one)
  ultimately have "f16_magnitude x = (E - 112) * 2 ^ 10 + q + (if ?up then 1 else 0)"
    unfolding f16_magnitude_def Let_def by simp
  then show ?thesis using sum by (simp add: S_def)
qed

text \<open>Magnitudes as integers, in units of \<open>2 powi -150\<close>: those of a normal \<open>f32\<close> pattern without its sign,
  and those of an \<open>f16\<close> pattern, where the pattern of infinity stands for the first value out of range.\<close>

definition f32_units :: "nat \<Rightarrow> nat" where
  "f32_units x = (2 ^ 23 + x mod 2 ^ 23) * 2 ^ (x div 2 ^ 23)"

definition f16_units :: "nat \<Rightarrow> nat" where
  "f16_units y = (2 ^ 10 + y mod 2 ^ 10) * 2 ^ 13 * 2 ^ (y div 2 ^ 10 + 112)"

lemma f16_units_Suc:
  "f16_units (Suc y) = f16_units y + 2 ^ 13 * 2 ^ (y div 2 ^ 10 + 112)"
proof (cases "y mod 2 ^ 10 = 1023")
  case True
  then have "Suc y mod 2 ^ 10 = 0" "Suc y div 2 ^ 10 = Suc (y div 2 ^ 10)"
    by (simp_all add: mod_Suc div_Suc)
  then show ?thesis using True unfolding f16_units_def by (simp only: power_Suc add_Suc) simp
next
  case False
  then have "Suc y mod 2 ^ 10 = Suc (y mod 2 ^ 10)" "Suc y div 2 ^ 10 = y div 2 ^ 10"
    by (simp_all add: mod_Suc div_Suc)
  then show ?thesis unfolding f16_units_def by (simp only: add_Suc_right mult_Suc add_mult_distrib)
qed

lemma f16_units_mono: "a \<le> b \<Longrightarrow> f16_units a \<le> f16_units b"
  by (rule lift_Suc_mono_le [of f16_units]) (simp_all add: f16_units_Suc)

lemma between_f16:
  assumes "112 * 2 ^ 23 \<le> x"
  shows "f32_units x = f16_units ((x - 112 * 2 ^ 23) div 2 ^ 13) + x mod 2 ^ 13 * 2 ^ (x div 2 ^ 23)"
    "((x - 112 * 2 ^ 23) div 2 ^ 13) div 2 ^ 10 + 112 = x div 2 ^ 23"
proof -
  define z where "z = x - 112 * 2 ^ 23"
  have x: "x = z + 112 * 2 ^ 23" using assms by (simp add: z_def)
  have e: "x div 2 ^ 23 = z div 2 ^ 23 + 112" unfolding x by (subst div_mult_self1) simp_all
  have em: "x mod 2 ^ 23 = z mod 2 ^ 23" unfolding x by (rule mod_mult_self1)
  have d: "z div 2 ^ 13 div 2 ^ 10 = z div 2 ^ 23" by (simp add: div_mult2_eq [symmetric])
  have m: "z mod 2 ^ 23 = 2 ^ 13 * (z div 2 ^ 13 mod 2 ^ 10) + z mod 2 ^ 13"
    using mod_mult2_eq [of z "2 ^ 13" "2 ^ 10"] by simp
  have r: "x mod 2 ^ 13 = z mod 2 ^ 13"
  proof -
    have "x = z + (112 * 2 ^ 10) * 2 ^ 13" by (simp add: x)
    then show ?thesis by (metis mod_mult_self1)
  qed
  show "z div 2 ^ 13 div 2 ^ 10 + 112 = x div 2 ^ 23" by (simp only: d e)
  show "f32_units x = f16_units (z div 2 ^ 13) + x mod 2 ^ 13 * 2 ^ (x div 2 ^ 23)"
    unfolding f32_units_def f16_units_def d e em r m by (simp add: algebra_simps)
qed

lemma f16_units_strict: "a < b \<Longrightarrow> f16_units a < f16_units b"
  by (rule lift_Suc_mono_less [of f16_units]) (simp_all add: f16_units_Suc)

lemma nearest_of_neighbours:
  fixes L H X Y r w u :: nat
  assumes X: "X = L + r * u" "H = X + (w - r) * u" and w: "w = 2 * h" "r < w" and u: "0 < u"
    and Y: "Y \<le> L \<or> H \<le> Y" and m: "m = (if h < r \<or> r = h \<and> odd q then H else L)"
  shows "\<bar>int X - int m\<bar> \<le> \<bar>int X - int Y\<bar>"
    "\<bar>int X - int m\<bar> = \<bar>int X - int Y\<bar> \<Longrightarrow> Y = m \<or> even (if h < r \<or> r = h \<and> odd q then Suc q else q)"
proof -
  define A where "A = r * u"
  define B where "B = (w - r) * u"
  have c: "r < h \<Longrightarrow> A < B" "r = h \<Longrightarrow> A = B" "h < r \<Longrightarrow> B < A" using w u by (simp_all add: A_def B_def)
  have "\<bar>int X - int m\<bar> \<le> \<bar>int X - int Y\<bar> \<and> (\<bar>int X - int m\<bar> = \<bar>int X - int Y\<bar> \<longrightarrow> Y = m \<or> r = h)"
  proof (cases "h < r \<or> r = h \<and> odd q")
    case True
    then have "m = H" "B \<le> A" using m c by auto
    then show ?thesis using Y X c True unfolding A_def [symmetric] B_def [symmetric] by (cases "r = h") auto
  next
    case False
    then have "m = L" "A \<le> B" using m c by (auto simp: not_less le_less)
    then show ?thesis using Y X c False unfolding A_def [symmetric] B_def [symmetric] by (cases "r = h") auto
  qed
  then show "\<bar>int X - int m\<bar> \<le> \<bar>int X - int Y\<bar>"
    "\<bar>int X - int m\<bar> = \<bar>int X - int Y\<bar> \<Longrightarrow> Y = m \<or> even (if h < r \<or> r = h \<and> odd q then Suc q else q)"
    by auto
qed

lemma f16_magnitude_nearest:
  assumes "112 * 2 ^ 23 \<le> x"
  shows "\<bar>int (f32_units x) - int (f16_units (f16_magnitude x))\<bar> \<le> \<bar>int (f32_units x) - int (f16_units y)\<bar>"
    "\<bar>int (f32_units x) - int (f16_units (f16_magnitude x))\<bar> = \<bar>int (f32_units x) - int (f16_units y)\<bar> \<Longrightarrow>
     y = f16_magnitude x \<or> even (f16_magnitude x)"
proof -
  define q where "q = (x - 112 * 2 ^ 23) div 2 ^ 13"
  define r where "r = x mod 2 ^ 13"
  define u where "u = (2 :: nat) ^ (x div 2 ^ 23)"
  have r: "r < 2 ^ 13" by (simp add: r_def)
  have lo: "f32_units x = f16_units q + r * u" using between_f16(1) [OF assms] by (simp add: q_def r_def u_def)
  have "f16_units (Suc q) = f16_units q + 2 ^ 13 * u"
    using between_f16(2) [OF assms] by (simp add: f16_units_Suc q_def u_def)
  then have hi: "f16_units (Suc q) = f32_units x + (2 ^ 13 - r) * u" using lo r by (simp add: diff_mult_distrib)
  have m: "f16_magnitude x = (if 2 ^ 12 < r \<or> r = 2 ^ 12 \<and> odd q then Suc q else q)"
    by (simp add: f16_magnitude_def Let_def q_def r_def)
  then have um: "f16_units (f16_magnitude x) = (if 2 ^ 12 < r \<or> r = 2 ^ 12 \<and> odd q then f16_units (Suc q) else f16_units q)"
    by simp
  have Y: "f16_units y \<le> f16_units q \<or> f16_units (Suc q) \<le> f16_units y"
    using f16_units_mono [of y q] f16_units_mono [of "Suc q" y] by linarith
  have inj: "f16_units y = f16_units (f16_magnitude x) \<Longrightarrow> y = f16_magnitude x"
    using f16_units_strict [of y "f16_magnitude x"] f16_units_strict [of "f16_magnitude x" y] by linarith
  have u: "0 < u" by (simp add: u_def)
  have w: "(2 :: nat) ^ 13 = 2 * 2 ^ 12" by simp
  note near = nearest_of_neighbours [OF lo hi w r u Y um]
  show "\<bar>int (f32_units x) - int (f16_units (f16_magnitude x))\<bar> \<le> \<bar>int (f32_units x) - int (f16_units y)\<bar>"
    by (rule near(1))
  show "y = f16_magnitude x \<or> even (f16_magnitude x)"
    if "\<bar>int (f32_units x) - int (f16_units (f16_magnitude x))\<bar> = \<bar>int (f32_units x) - int (f16_units y)\<bar>"
    using near(2) [OF that] inj unfolding m [symmetric] by blast
qed

lemma f16_bits_to_f32_normal:
  fixes h :: u16
  defines "e \<equiv> unat h div 2 ^ 10 mod 2 ^ 5"
  assumes "1 \<le> e" "e \<le> 30"
  shows "unat (f16_bits_to_f32 h) = unat h div 2 ^ 15 * 2 ^ 31 + (e + 112) * 2 ^ 23 + unat h mod 2 ^ 10 * 2 ^ 13"
proof -
  let ?sign = "ucast (and (drop_bit 15 h) 1) :: u32" and ?mant = "ucast (and h 0x3FF) :: u32"
  have S: "unat h div 2 ^ 15 < 2" using unat_top_bit [of h] by simp
  have sign: "unat ?sign = unat h div 2 ^ 15" using f16_fields(1) [of h] S by (simp add: unat_ucast_less)
  have mant: "unat ?mant = unat h mod 2 ^ 10" using f16_fields(3) [of h]
    by (subst unat_ucast_less) (simp_all add: less_trans [OF mod_less_divisor])
  have exp: "int (unat (and (drop_bit 10 h) 0x1F)) = int e" using f16_fields(2) [of h] by (simp add: e_def)
  have ne: "int e \<noteq> 0" "int e \<noteq> 0x1F" using assms by simp_all
  have eq: "f16_bits_to_f32 h =
      or (or (push_bit 31 ?sign) (push_bit 23 (of_int (int e - 15 + 127)))) (push_bit 13 ?mant)"
    unfolding f16_bits_to_f32_def Let_def exp if_not_P [OF ne(1)] if_not_P [OF ne(2)] by (rule refl)
  have ue: "unat (of_int (int e - 15 + 127) :: u32) = e + 112"
  proof -
    have "(of_int (int e - 15 + 127) :: u32) = of_nat (e + 112)" by simp
    then show ?thesis using assms(3) by (simp only: unat_of_nat) simp
  qed
  have um: "unat (push_bit 13 ?mant) = unat h mod 2 ^ 10 * 2 ^ 13"
    using mant mod_less_divisor [of "2 ^ 10" "unat h"] by (subst unat_push) simp_all
  have low: "unat h mod 2 ^ 10 * 2 ^ 13 < 2 ^ 23" using mod_less_divisor [of "2 ^ 10" "unat h"] by simp
  have mid: "unat (or (push_bit 23 (of_int (int e - 15 + 127))) (push_bit 13 ?mant)) = (e + 112) * 2 ^ 23 + unat h mod 2 ^ 10 * 2 ^ 13"
    using ue um low assms(3) by (subst unat_push_or) simp_all
  show ?thesis
    unfolding eq or.assoc using mid low sign S assms(3) by (subst unat_push_or) simp_all
qed

lemma narrow_widen_normal:
  fixes h :: u16
  assumes "1 \<le> unat h div 2 ^ 10 mod 2 ^ 5" "unat h div 2 ^ 10 mod 2 ^ 5 \<le> 30"
  shows "f32_to_f16_bits (f16_bits_to_f32 h) = h"
proof -
  define e where "e = unat h div 2 ^ 10 mod 2 ^ 5"
  define m where "m = unat h mod 2 ^ 10"
  define S where "S = unat h div 2 ^ 15"
  have b: "unat (f16_bits_to_f32 h) = (e + 112) * 2 ^ 23 + m * 2 ^ 13 + S * 2 ^ 31"
    using f16_bits_to_f32_normal [OF assms] by (simp add: e_def m_def S_def)
  have m: "m < 2 ^ 10" by (simp add: m_def)
  have e: "1 \<le> e" "e \<le> 30" using assms by (simp_all add: e_def)
  define x where "x = (e + 112) * 2 ^ 23 + m * 2 ^ 13"
  have "x < 2 ^ 31" using m e by (simp add: x_def)
  then have bx: "unat (f16_bits_to_f32 h) mod 2 ^ 31 = x" "unat (f16_bits_to_f32 h) div 2 ^ 31 = S"
    unfolding b x_def [symmetric] by simp_all
  have ex: "x div 2 ^ 23 = e + 112" using m by (simp add: x_def)
  have "unat (f32_to_f16_bits (f16_bits_to_f32 h)) = S * 2 ^ 15 + f16_magnitude x"
    using f32_to_f16_in_range [of "f16_bits_to_f32 h"] e unfolding bx ex by simp
  moreover have "f16_magnitude x = e * 2 ^ 10 + m"
  proof -
    have "x - 112 * 2 ^ 23 = (e * 2 ^ 10 + m) * 2 ^ 13" by (simp add: x_def algebra_simps)
    moreover have "x = (((e + 112) * 2 ^ 10) + m) * 2 ^ 13" by (simp add: x_def algebra_simps)
    then have "x mod 2 ^ 13 = 0" by (metis mod_mult_self2_is_0)
    ultimately show ?thesis by (simp only: f16_magnitude_def Let_def) simp
  qed
  moreover have "unat h = S * 2 ^ 15 + (e * 2 ^ 10 + m)"
    using mod_mult2_eq [of "unat h" "2 ^ 10" "2 ^ 5"] div_mult_mod_eq [of "unat h" "2 ^ 15"]
    by (simp add: S_def e_def m_def)
  ultimately show ?thesis by (simp add: word_unat_eq_iff)
qed

lemma f16_magnitude_bound:
  assumes "x div 2 ^ 23 \<le> 142"
  shows "f16_magnitude x < 2 ^ 15"
proof -
  have "x div 2 ^ 23 < 143" using assms by simp
  then have "x < 143 * 2 ^ 23" by (simp only: div_less_iff_less_mult zero_less_power zero_less_numeral)
  then have "x - 112 * 2 ^ 23 < (31 * 2 ^ 10) * 2 ^ 13" by simp
  then have "(x - 112 * 2 ^ 23) div 2 ^ 13 < 31 * 2 ^ 10" by (simp only: div_less_iff_less_mult zero_less_power zero_less_numeral)
  then show ?thesis by (simp add: f16_magnitude_def Let_def)
qed

text \<open>C21: Narrowing an activation whose exponent is in the range of normal f16 values keeps its sign and returns
  a nearest f16 value, the even one of two at the same distance; and narrowing inverts widening on every
  normal f16 value, so a vector of them survives unpacking and packing.\<close>

theorem f16_narrowing_nearest:
  fixes b :: u32 and hs :: "u16 list"
  assumes x: "x = unat b mod 2 ^ 31" and y: "y = unat (f32_to_f16_bits b) mod 2 ^ 15"
    and e: "113 \<le> x div 2 ^ 23" "x div 2 ^ 23 \<le> 142"
    and hs: "\<forall>h \<in> set hs. unat h div 2 ^ 10 mod 2 ^ 5 \<in> {1 .. 30}"
  shows "unat (f32_to_f16_bits b) div 2 ^ 15 = unat b div 2 ^ 31 \<and>
    (\<forall>z. \<bar>int (f32_units x) - int (f16_units y)\<bar> \<le> \<bar>int (f32_units x) - int (f16_units z)\<bar>) \<and>
    (\<forall>z. \<bar>int (f32_units x) - int (f16_units y)\<bar> = \<bar>int (f32_units x) - int (f16_units z)\<bar> \<longrightarrow> z = y \<or> even y) \<and>
    pack_hidden_state (unpack_hidden_state hs) = hs"
proof -
  have "unat (f32_to_f16_bits b) = unat b div 2 ^ 31 * 2 ^ 15 + f16_magnitude x"
    using e unfolding x by (rule f32_to_f16_in_range)
  then have h: "unat (f32_to_f16_bits b) div 2 ^ 15 = unat b div 2 ^ 31" "y = f16_magnitude x"
    using f16_magnitude_bound [OF e(2)] by (simp_all add: y)
  have "112 * 2 ^ 23 \<le> x div 2 ^ 23 * 2 ^ 23" using e(1) by simp
  also have "\<dots> \<le> x" by (rule div_times_less_eq_dividend)
  finally have "112 * 2 ^ 23 \<le> x" .
  note near = f16_magnitude_nearest [OF this]
  have "pack_hidden_state (unpack_hidden_state hs) = hs"
    using hs by (simp add: pack_hidden_state_def unpack_hidden_state_def narrow_widen_normal map_idI)
  then show ?thesis using h near by metis
qed

theorem f16_narrowing_nearest_witness:
  "\<forall>z. \<bar>int (f32_units 0x3F801000) - int (f16_units 0x3C00)\<bar> \<le> \<bar>int (f32_units 0x3F801000) - int (f16_units z)\<bar>"
proof -
  have "f32_to_f16_bits 0x3F801000 = 0x3C00" by code_simp
  then show ?thesis using f16_narrowing_nearest [of "0x3F801000" "0x3F801000" "0x3C00" "[0x3C00]"] by simp
qed

end
