(* ===== verification/Admission.thy ===== *)
theory Admission
  imports Prelude
begin

section \<open>The server's admission gate\<close>

text \<open>
  Model of \<open>Admission\<close> in \<open>middleware.rs\<close>: a shared atomic counter of requests in flight, taken by a
  compare-and-swap loop, given back when the free-block probe refuses the request and when the guard of
  an admitted request is dropped. Every atomic access is one step, and the steps of any number of callers
  interleave freely; a weak exchange may fail although the counter has the expected value, and the probe
  reads whatever the block pool reports at that moment. The HTTP layers around it are not modelled.
\<close>

record admission =
  ad_max_concurrent :: usize
  ad_min_free_blocks :: usize
  ad_has_probe :: bool

text \<open>\<open>AtomicUsize::fetch_sub\<close> wraps.\<close>

definition fetch_sub_one :: "usize \<Rightarrow> usize" where
  "fetch_sub_one n = (if n = 0 then usize_MAX else n - 1)"

text \<open>
  Where a caller stands in \<open>try_admit\<close>: before it, in the loop with the value it last read, past the loop,
  about to give its slot back, or returned with a guard (which counts or not) or with \<open>None\<close>.
\<close>

datatype caller =
    Outside
  | Trying usize
  | Probing
  | Backing_out
  | Admitted bool
  | Refused

definition probe_refuses :: "admission \<Rightarrow> usize \<Rightarrow> bool" where
  "probe_refuses ad free \<longleftrightarrow> 0 < ad_min_free_blocks ad \<and> ad_has_probe ad \<and> free < ad_min_free_blocks ad"

text \<open>One step of \<open>try_admit\<close>, with the counter before and after.\<close>

fun admit_step :: "admission \<Rightarrow> bool \<Rightarrow> usize \<Rightarrow> caller \<Rightarrow> usize \<Rightarrow> caller \<times> usize" where
  "admit_step ad spurious free Outside n =
     (if 0 < ad_max_concurrent ad then (Trying n, n) else (Probing, n))"
| "admit_step ad spurious free (Trying cur) n =
     (if cur \<ge> ad_max_concurrent ad then (Refused, n)
      else if n = cur \<and> \<not> spurious then (Probing, cur + 1)
      else (Trying n, n))"
| "admit_step ad spurious free Probing n =
     (if probe_refuses ad free
      then (if 0 < ad_max_concurrent ad then (Backing_out, n) else (Refused, n))
      else (Admitted (0 < ad_max_concurrent ad), n))"
| "admit_step ad spurious free Backing_out n = (Refused, fetch_sub_one n)"
| "admit_step ad spurious free (Admitted counted) n = (Admitted counted, n)"
| "admit_step ad spurious free Refused n = (Refused, n)"

definition guard_drop :: "bool \<Rightarrow> usize \<Rightarrow> usize" where
  "guard_drop counted n = (if counted then fetch_sub_one n else n)"

text \<open>A call that no other caller interrupts and whose exchange does not fail spuriously.\<close>

fun settle :: "nat \<Rightarrow> admission \<Rightarrow> usize \<Rightarrow> caller \<times> usize \<Rightarrow> caller \<times> usize" where
  "settle 0 ad free s = s"
| "settle (Suc fuel) ad free (c, n) = settle fuel ad free (admit_step ad False free c n)"

subsection \<open>Interleavings\<close>

record gate =
  gt_in_flight :: usize
  gt_callers :: "caller list"

definition gate_new :: gate where
  "gate_new = \<lparr>gt_in_flight = 0, gt_callers = []\<rparr>"

inductive gate_step :: "admission \<Rightarrow> gate \<Rightarrow> gate \<Rightarrow> bool" for ad where
  arrive: "gate_step ad g (g\<lparr>gt_callers := gt_callers g @ [Outside]\<rparr>)"
| advance: "i < length (gt_callers g) \<Longrightarrow>
    admit_step ad spurious free (gt_callers g ! i) (gt_in_flight g) = (c, n) \<Longrightarrow>
    gate_step ad g \<lparr>gt_in_flight = n, gt_callers = (gt_callers g)[i := c]\<rparr>"
| leave: "i < length (gt_callers g) \<Longrightarrow> gt_callers g ! i = Admitted counted \<Longrightarrow>
    gate_step ad g \<lparr>gt_in_flight = guard_drop counted (gt_in_flight g), gt_callers = (gt_callers g)[i := Outside]\<rparr>"
| retry: "i < length (gt_callers g) \<Longrightarrow> gt_callers g ! i = Refused \<Longrightarrow>
    gate_step ad g \<lparr>gt_in_flight = gt_in_flight g, gt_callers = (gt_callers g)[i := Outside]\<rparr>"

inductive gate_run :: "admission \<Rightarrow> gate \<Rightarrow> bool" for ad where
  start: "gate_run ad gate_new"
| step: "gate_run ad g \<Longrightarrow> gate_step ad g g' \<Longrightarrow> gate_run ad g'"

text \<open>The callers that own one unit of the counter.\<close>

fun holds_slot :: "admission \<Rightarrow> caller \<Rightarrow> bool" where
  "holds_slot ad Probing \<longleftrightarrow> 0 < ad_max_concurrent ad"
| "holds_slot ad Backing_out \<longleftrightarrow> True"
| "holds_slot ad (Admitted counted) \<longleftrightarrow> counted"
| "holds_slot ad _ \<longleftrightarrow> False"

fun is_admitted :: "caller \<Rightarrow> bool" where
  "is_admitted (Admitted _) = True"
| "is_admitted _ = False"

fun caller_ok :: "admission \<Rightarrow> caller \<Rightarrow> bool" where
  "caller_ok ad (Trying cur) \<longleftrightarrow> 0 < ad_max_concurrent ad"
| "caller_ok ad Backing_out \<longleftrightarrow> 0 < ad_max_concurrent ad"
| "caller_ok ad (Admitted counted) \<longleftrightarrow> counted = (0 < ad_max_concurrent ad)"
| "caller_ok ad _ \<longleftrightarrow> True"

definition slots_held :: "admission \<Rightarrow> gate \<Rightarrow> nat" where
  "slots_held ad g = length (filter (holds_slot ad) (gt_callers g))"

definition gate_inv :: "admission \<Rightarrow> gate \<Rightarrow> bool" where
  "gate_inv ad g \<longleftrightarrow> gt_in_flight g = slots_held ad g \<and>
     (0 < ad_max_concurrent ad \<longrightarrow> gt_in_flight g \<le> ad_max_concurrent ad) \<and>
     (\<forall>c \<in> set (gt_callers g). caller_ok ad c)"

lemma filter_update:
  assumes "i < length xs"
  shows "length (filter P (xs[i := y])) + (if P (xs ! i) then 1 else 0) = length (filter P xs) + (if P y then 1 else 0)"
proof -
  have "length (filter P xs) = length (filter P (take i xs @ xs ! i # drop (Suc i) xs))"
    using assms by (simp add: id_take_nth_drop [symmetric])
  then show ?thesis using assms by (simp add: upd_conv_take_nth_drop)
qed

text \<open>What a step of one caller may do to the counter: exactly what it does to the caller's own unit.\<close>

lemma admit_step_unit:
  assumes "admit_step ad spurious free c n = (c', n')" "caller_ok ad c" "holds_slot ad c \<Longrightarrow> 0 < n"
    "0 < ad_max_concurrent ad \<Longrightarrow> n \<le> ad_max_concurrent ad"
  shows "n' + (if holds_slot ad c then 1 else 0) = n + (if holds_slot ad c' then 1 else 0)"
    "0 < ad_max_concurrent ad \<Longrightarrow> n' \<le> ad_max_concurrent ad" "caller_ok ad c'"
proof -
  show "n' + (if holds_slot ad c then 1 else 0) = n + (if holds_slot ad c' then 1 else 0)"
    using assms by (cases c) (auto simp: fetch_sub_one_def split: if_splits)
  show "0 < ad_max_concurrent ad \<Longrightarrow> n' \<le> ad_max_concurrent ad"
    using assms by (cases c) (auto simp: fetch_sub_one_def split: if_splits)
  show "caller_ok ad c'"
    using assms by (cases c) (auto split: if_splits)
qed

lemma gate_update:
  assumes inv: "gate_inv ad g" and i: "i < length (gt_callers g)" and ok: "caller_ok ad c"
    and n: "n + (if holds_slot ad (gt_callers g ! i) then 1 else 0) = gt_in_flight g + (if holds_slot ad c then 1 else 0)"
      "0 < ad_max_concurrent ad \<Longrightarrow> n \<le> ad_max_concurrent ad"
  shows "gate_inv ad \<lparr>gt_in_flight = n, gt_callers = (gt_callers g)[i := c]\<rparr>"
proof -
  have "n = length (filter (holds_slot ad) ((gt_callers g)[i := c]))"
    using filter_update [OF i, of "holds_slot ad" c] n(1) inv by (simp add: gate_inv_def slots_held_def)
  moreover have "\<forall>c' \<in> set ((gt_callers g)[i := c]). caller_ok ad c'"
    using inv ok by (auto simp: gate_inv_def dest!: set_update_subset_insert [THEN subsetD])
  ultimately show ?thesis using n(2) by (simp add: gate_inv_def slots_held_def)
qed

lemma holder_counted:
  assumes "gate_inv ad g" "i < length (gt_callers g)" "holds_slot ad (gt_callers g ! i)"
  shows "0 < gt_in_flight g"
proof -
  have "gt_callers g ! i \<in> set (filter (holds_slot ad) (gt_callers g))" using assms(2,3) by simp
  then have "0 < length (filter (holds_slot ad) (gt_callers g))" by (rule length_pos_if_in_set)
  then show ?thesis using assms(1) by (simp only: gate_inv_def slots_held_def)
qed

lemma gate_step_inv: "gate_step ad g g' \<Longrightarrow> gate_inv ad g \<Longrightarrow> gate_inv ad g'"
proof (induction rule: gate_step.induct)
  case (arrive g)
  then show ?case by (auto simp: gate_inv_def slots_held_def)
next
  case (advance i g spurious free c n)
  have ok: "caller_ok ad (gt_callers g ! i)" using advance by (simp add: gate_inv_def)
  have "0 < ad_max_concurrent ad \<Longrightarrow> gt_in_flight g \<le> ad_max_concurrent ad" using advance.prems by (simp add: gate_inv_def)
  note unit = admit_step_unit [OF advance.hyps(2) ok holder_counted [OF advance.prems advance.hyps(1)] this]
  show ?case by (rule gate_update [OF advance.prems advance.hyps(1) unit(3) unit(1,2)])
next
  case (leave i g counted)
  have "counted \<Longrightarrow> 0 < gt_in_flight g" using holder_counted [OF leave.prems leave.hyps(1)] leave.hyps(2) by simp
  then show ?case
    using leave by (intro gate_update) (auto simp: guard_drop_def fetch_sub_one_def gate_inv_def)
next
  case (retry i g)
  then show ?case by (intro gate_update) (auto simp: gate_inv_def)
qed

lemma gate_run_inv: "gate_run ad g \<Longrightarrow> gate_inv ad g"
proof (induction rule: gate_run.induct)
  case start
  show ?case by (simp add: gate_new_def gate_inv_def slots_held_def)
qed (rule gate_step_inv)

lemma settle_outside:
  "settle 4 ad free (Outside, n) =
    (if (ad_max_concurrent ad = 0 \<or> n < ad_max_concurrent ad) \<and> \<not> probe_refuses ad free
     then (Admitted (0 < ad_max_concurrent ad), if 0 < ad_max_concurrent ad then n + 1 else n)
     else (Refused, n))"
  by (simp add: numeral_eq_Suc fetch_sub_one_def)

text \<open>C17: Whatever the interleaving of callers, spurious failures and probe readings, the counter is the
  number of callers that own a unit of it: it never wraps, never exceeds the configured limit, and with
  a limit at most that many requests are admitted at once; once every request has left it is zero. A
  call that runs alone returns within four steps: it is admitted exactly when there is room and the
  probe does not refuse, and a refused call leaves the counter as it was.\<close>

theorem admission_counter_exact:
  assumes "gate_run ad g"
  shows "gt_in_flight g = slots_held ad g \<and>
    (0 < ad_max_concurrent ad \<longrightarrow>
      gt_in_flight g \<le> ad_max_concurrent ad \<and> length (filter is_admitted (gt_callers g)) \<le> ad_max_concurrent ad) \<and>
    ((\<forall>c \<in> set (gt_callers g). c = Outside \<or> c = Refused) \<longrightarrow> gt_in_flight g = 0) \<and>
    (\<forall>free. settle 4 ad free (Outside, gt_in_flight g) =
      (if (ad_max_concurrent ad = 0 \<or> gt_in_flight g < ad_max_concurrent ad) \<and> \<not> probe_refuses ad free
       then (Admitted (0 < ad_max_concurrent ad),
             if 0 < ad_max_concurrent ad then gt_in_flight g + 1 else gt_in_flight g)
       else (Refused, gt_in_flight g)))"
proof -
  have inv: "gate_inv ad g" using assms by (rule gate_run_inv)
  have "length (filter is_admitted (gt_callers g)) \<le> slots_held ad g" if "0 < ad_max_concurrent ad"
  proof -
    have "is_admitted c \<Longrightarrow> holds_slot ad c" if "c \<in> set (gt_callers g)" for c
      using inv that \<open>0 < ad_max_concurrent ad\<close> by (cases c) (auto simp: gate_inv_def)
    then have eq: "filter is_admitted (gt_callers g) = filter is_admitted (filter (holds_slot ad) (gt_callers g))"
      by (auto simp: filter_filter intro!: filter_cong)
    show ?thesis unfolding eq slots_held_def by (rule length_filter_le)
  qed
  moreover have "slots_held ad g = 0" if "\<forall>c \<in> set (gt_callers g). c = Outside \<or> c = Refused"
    using that by (auto simp: slots_held_def filter_empty_conv)
  ultimately show ?thesis using inv settle_outside by (auto simp: gate_inv_def)
qed

definition demo_limits_one :: admission where
  "demo_limits_one = \<lparr>ad_max_concurrent = 1, ad_min_free_blocks = 2, ad_has_probe = True\<rparr>"

text \<open>Two callers read the same count; the exchange of the second fails and its next look refuses it.\<close>

definition demo_gate :: gate where
  "demo_gate = \<lparr>gt_in_flight = 1, gt_callers = [Probing, Trying 1]\<rparr>"

lemma demo_gate_run: "gate_run demo_limits_one demo_gate"
proof -
  have go: "gate_run demo_limits_one g \<Longrightarrow> i < length (gt_callers g) \<Longrightarrow>
      admit_step demo_limits_one False 5 (gt_callers g ! i) (gt_in_flight g) = (c, n) \<Longrightarrow>
      gate_run demo_limits_one \<lparr>gt_in_flight = n, gt_callers = (gt_callers g)[i := c]\<rparr>" for g i c n
    by (rule gate_run.step, assumption, rule gate_step.advance)
  have new: "gate_run demo_limits_one g \<Longrightarrow>
      gate_run demo_limits_one (g\<lparr>gt_callers := gt_callers g @ [Outside]\<rparr>)" for g
    by (rule gate_run.step, assumption, rule gate_step.arrive)
  have "gate_run demo_limits_one \<lparr>gt_in_flight = 0, gt_callers = [Outside, Outside]\<rparr>"
    using new [OF new [OF gate_run.start]] by (simp add: gate_new_def)
  from go [OF this, of 0 "Trying 0" 0] have "gate_run demo_limits_one \<lparr>gt_in_flight = 0, gt_callers = [Trying 0, Outside]\<rparr>"
    by (simp add: demo_limits_one_def)
  from go [OF this, of 1 "Trying 0" 0] have "gate_run demo_limits_one \<lparr>gt_in_flight = 0, gt_callers = [Trying 0, Trying 0]\<rparr>"
    by (simp add: demo_limits_one_def)
  from go [OF this, of 0 Probing 1] have "gate_run demo_limits_one \<lparr>gt_in_flight = 1, gt_callers = [Probing, Trying 0]\<rparr>"
    by (simp add: demo_limits_one_def)
  from go [OF this, of 1 "Trying 1" 1] show ?thesis by (simp add: demo_limits_one_def demo_gate_def)
qed

theorem admission_counter_exact_witness:
  "slots_held demo_limits_one demo_gate = 1 \<and>
    settle 4 demo_limits_one 7 (Outside, gt_in_flight demo_gate) = (Refused, 1)"
proof -
  have "gt_in_flight demo_gate = 1" "ad_max_concurrent demo_limits_one = 1"
    by (simp_all add: demo_gate_def demo_limits_one_def)
  then show ?thesis using admission_counter_exact [OF demo_gate_run] by (simp split: if_splits)
qed

end
